(* ===== verification/Grace_Prelude.thy ===== *)
theory Grace_Prelude
  imports Main "HOL-Library.Word"
begin

text \<open>
  What the components share: the machine types of the 32-bit build the Makefile produces
  (\<open>-m32\<close>, so \<open>size_t\<close>, \<open>unsigned long\<close> and pointers are 32 bits wide), the model of
  \<open>std::set\<close> as a strictly ascending list, the arithmetic of masks, and the collections of
  simplification rules the component theories add to.
\<close>

unbundle bit_operations_syntax

section \<open>Machine types\<close>

type_synonym u32 = "32 word"
type_synonym byte = "8 word"

named_theorems page_simps "rules about pages, offsets and masks"
named_theorems xp_simps "unfolding rules of the page-store operations"
named_theorems heap_simps "unfolding rules of the heap layers"

section \<open>Ascending lists as \<open>std::set\<close>\<close>

text \<open>
  \<open>std::set\<close> iterates in ascending order and ignores a second insertion of a key; an
  ascending list without repetitions is its content in iteration order.
\<close>

definition set_insert :: "'a::linorder \<Rightarrow> 'a list \<Rightarrow> 'a list" where
  "set_insert x xs = insort_insert x xs"

definition set_ok :: "'a::linorder list \<Rightarrow> bool" where
  "set_ok xs \<longleftrightarrow> sorted xs \<and> distinct xs"

lemma set_set_insert [simp]: "set (set_insert x xs) = insert x (set xs)"
  by (simp add: set_insert_def set_insort_insert)

lemma set_ok_Nil [simp]: "set_ok []"
  by (simp add: set_ok_def)

lemma set_ok_set_insert [simp]: "set_ok xs \<Longrightarrow> set_ok (set_insert x xs)"
  by (simp add: set_ok_def set_insert_def sorted_insort_insert distinct_insort_insert)

lemma set_ok_distinct: "set_ok xs \<Longrightarrow> distinct xs"
  by (simp add: set_ok_def)

lemma set_insert_code [code]:
  "set_insert x xs = (if x \<in> set xs then xs else insort x xs)"
  by (simp add: set_insert_def insort_insert_key_def)

section \<open>Masks\<close>

lemma and_not_mask_eq: "(x::'a::len word) AND NOT (mask n) = push_bit n (drop_bit n x)"
  by (rule bit_eqI) (auto simp: bit_simps)

lemma unat_and_not_mask [page_simps]:
  "unat ((x::'a::len word) AND NOT (mask n)) = unat x div 2 ^ n * 2 ^ n"
proof -
  have "unat x div 2 ^ n * 2 ^ n < 2 ^ LENGTH('a)"
    by (rule le_less_trans [OF div_times_less_eq_dividend]) (rule unsigned_less)
  moreover have "unat (push_bit n (drop_bit n x))
      = take_bit LENGTH('a) (push_bit n (drop_bit n (take_bit LENGTH('a) (unat x))))"
    by (simp only: unsigned_push_bit_eq unsigned_drop_bit_eq)
  ultimately show ?thesis
    by (simp add: and_not_mask_eq push_bit_eq_mult drop_bit_eq_div take_bit_nat_eq_self)
qed

lemma unat_add_nowrap:
  "unat (x::'a::len word) + unat y < 2 ^ LENGTH('a) \<Longrightarrow> unat (x + y) = unat x + unat y"
  by (simp add: unat_word_ariths)

lemma unat_of_nat32: "n < 2 ^ 32 \<Longrightarrow> unat (of_nat n :: u32) = n"
  by (simp add: unat_of_nat take_bit_nat_eq_self)

lemma of_nat32_inj: "m < 2 ^ 32 \<Longrightarrow> n < 2 ^ 32 \<Longrightarrow> (of_nat m :: u32) = of_nat n \<Longrightarrow> m = n"
  by (metis unat_of_nat32)

text \<open>Rounding \<open>n\<close> up to a multiple of \<open>k\<close>, the reference for the align macros.\<close>

definition round_up :: "nat \<Rightarrow> nat \<Rightarrow> nat" where
  "round_up k n = (n + (k - 1)) div k * k"

lemma round_up_ge: "0 < k \<Longrightarrow> n \<le> round_up k n"
proof -
  assume "0 < k"
  then have "(n + (k - 1)) mod k < k" by simp
  then show ?thesis
    using div_mult_mod_eq [of "n + (k - 1)" k] unfolding round_up_def by linarith
qed

lemma round_up_less: "0 < k \<Longrightarrow> round_up k n < n + k"
proof -
  assume "0 < k"
  have "round_up k n \<le> n + (k - 1)"
    unfolding round_up_def by simp
  with \<open>0 < k\<close> show ?thesis by linarith
qed

lemma round_up_dvd [simp]: "k dvd round_up k n"
  by (simp add: round_up_def)

lemma round_up_id: "0 < k \<Longrightarrow> k dvd n \<Longrightarrow> round_up k n = n"
proof -
  assume k: "0 < k" and d: "k dvd n"
  have "k dvd round_up k n - n" using d by (simp add: dvd_diff_nat)
  moreover have "round_up k n - n < k" using round_up_less [OF k, of n] k by linarith
  ultimately have "round_up k n - n = 0"
    using nat_dvd_not_less by blast
  with round_up_ge [OF k, of n] show ?thesis by simp
qed

section \<open>Folds that update a function pointwise\<close>

lemma fold_fun_upd_not_in:
  "x \<notin> set xs \<Longrightarrow> fold (\<lambda>k f. f(k := g k)) xs h x = h x"
  by (induction xs arbitrary: h) auto

lemma fold_fun_upd_in:
  "x \<in> set xs \<Longrightarrow> fold (\<lambda>k f. f(k := g k)) xs h x = g x"
proof (induction xs arbitrary: h)
  case Nil
  then show ?case by simp
next
  case (Cons a xs)
  then show ?case
    by (cases "x \<in> set xs") (auto simp: fold_fun_upd_not_in simp del: fun_upd_apply, simp)
qed

lemma fold_fun_upd:
  "fold (\<lambda>k f. f(k := g k)) xs h = (\<lambda>x. if x \<in> set xs then g x else h x)"
  by (rule ext) (simp add: fold_fun_upd_in fold_fun_upd_not_in)

end
