(* ===== verification/Xdefines.thy ===== *)
theory Xdefines
  imports Grace_Prelude
begin

text \<open>
  The constants of \<open>include/xdefines.h\<close>, the page-alignment macros of \<open>include/xglobals.h\<close>, the
  padding of \<open>include/roundup.h\<close>, and the ceiling logarithm of \<open>include/log.h\<close> that bounds the
  depth to which \<open>xthread\<close> forks.
\<close>

section \<open>\<open>xdefines\<close>\<close>

definition STACK_SIZE :: nat where "STACK_SIZE = 16 * 1024"
definition STACK_HEAP_SIZE :: nat where "STACK_HEAP_SIZE = 1048576 * 16"
definition HEAP_SIZE :: nat where "HEAP_SIZE = 1048576 * 512"
definition PageSize :: nat where "PageSize = 4096"
definition PAGE_SIZE_MASK :: u32 where "PAGE_SIZE_MASK = of_nat PageSize - 1"
definition NUM_HEAPS :: nat where "NUM_HEAPS = 16"

lemma PageSize_pos [simp]: "0 < PageSize"
  by (simp add: PageSize_def)

lemma PAGE_SIZE_MASK_mask: "PAGE_SIZE_MASK = mask 12"
  by (simp add: PAGE_SIZE_MASK_def PageSize_def mask_eq_exp_minus_1)

section \<open>Page alignment\<close>

definition PAGE_ALIGN_DOWN :: "u32 \<Rightarrow> u32" where
  "PAGE_ALIGN_DOWN x = x AND NOT PAGE_SIZE_MASK"

definition PAGE_ALIGN_UP :: "u32 \<Rightarrow> u32" where
  "PAGE_ALIGN_UP x = (x + PAGE_SIZE_MASK) AND NOT PAGE_SIZE_MASK"

lemma unat_PAGE_ALIGN_DOWN [page_simps]:
  "unat (PAGE_ALIGN_DOWN x) = unat x div PageSize * PageSize"
  by (simp add: PAGE_ALIGN_DOWN_def PAGE_SIZE_MASK_mask page_simps PageSize_def)

lemma unat_PAGE_ALIGN_UP [page_simps]:
  assumes "unat x + PageSize \<le> 2 ^ 32"
  shows "unat (PAGE_ALIGN_UP x) = round_up PageSize (unat x)"
proof -
  have m: "unat PAGE_SIZE_MASK = PageSize - 1"
    by (simp add: PAGE_SIZE_MASK_def PageSize_def)
  have "unat (x + PAGE_SIZE_MASK) = unat x + (PageSize - 1)"
    using assms m by (subst unat_add_nowrap) (auto simp: PageSize_def)
  then show ?thesis
    by (simp add: PAGE_ALIGN_UP_def PAGE_SIZE_MASK_mask unat_and_not_mask round_up_def PageSize_def)
qed

text \<open>
  The region \<open>GLOBALS_START .. GLOBALS_END\<close> of \<open>xglobals.h\<close>, from the linker symbols
  \<open>gracestart\<close> and \<open>_end\<close>.
\<close>

definition MAXSIZE :: nat where "MAXSIZE = 104857600"

definition GLOBALS_START :: "u32 \<Rightarrow> u32" where
  "GLOBALS_START gracestart = PAGE_ALIGN_DOWN gracestart"

definition GLOBALS_END :: "u32 \<Rightarrow> u32" where
  "GLOBALS_END end_sym = PAGE_ALIGN_UP (end_sym - 1)"

definition GLOBALS_SIZE :: "u32 \<Rightarrow> u32 \<Rightarrow> u32" where
  "GLOBALS_SIZE gracestart end_sym = GLOBALS_END end_sym - GLOBALS_START gracestart"

section \<open>\<open>roundup\<close>: padding a class to a multiple of \<open>Size\<close>\<close>

definition roundup_SIZE :: "nat \<Rightarrow> nat \<Rightarrow> nat" where
  "roundup_SIZE Size sizeof_Parent
     = Size * ((sizeof_Parent + Size - 1) div Size) - sizeof_Parent"

lemma roundup_SIZE_total:
  assumes "0 < Size"
  shows "sizeof_Parent + roundup_SIZE Size sizeof_Parent = round_up Size sizeof_Parent"
proof -
  have e: "Size * ((sizeof_Parent + Size - 1) div Size) = round_up Size sizeof_Parent"
    using assms by (simp add: round_up_def mult.commute)
  show ?thesis
    using round_up_ge [OF assms, of sizeof_Parent] unfolding roundup_SIZE_def e by simp
qed

section \<open>\<open>log\<close>: the loop of \<open>log.h\<close>\<close>

text \<open>
  \<open>value\<close> is an \<open>unsigned int\<close>: shifting it left past bit 31 gives 0, after which
  \<open>value < v\<close> stays true for ever. \<open>None\<close> is that the loop does not return.
\<close>

partial_function (option) log_loop :: "u32 \<Rightarrow> u32 \<Rightarrow> nat \<Rightarrow> nat option" where
  "log_loop v val lg
     = (if val < v then log_loop v (push_bit 1 val) (Suc lg) else Some lg)"

definition log :: "u32 \<Rightarrow> nat option" where
  "log v = log_loop v 1 0"

lemma log_loop_pow:
  assumes "k + d \<le> 31" and "unat v \<le> 2 ^ (k + d)" and "\<forall>j < d. 2 ^ (k + j) < unat v"
  shows "log_loop v (of_nat (2 ^ k)) lg = Some (lg + d)"
  using assms
proof (induction d arbitrary: k lg)
  case 0
  then have lt: "(2::nat) ^ k < 2 ^ 32" by (intro power_strict_increasing) auto
  then have "\<not> of_nat (2 ^ k) < v"
    using "0.prems" by (simp add: word_less_nat_alt unat_of_nat32 del: of_nat_power)
  then show ?case by (subst log_loop.simps) (simp del: of_nat_power)
next
  case (Suc d)
  have lt: "(2::nat) ^ k < 2 ^ 32" using Suc.prems(1) by (intro power_strict_increasing) auto
  have "of_nat (2 ^ k) < v"
    using Suc.prems(3) lt by (auto simp add: word_less_nat_alt unat_of_nat32 simp del: of_nat_power
        dest: spec [of _ 0])
  moreover have "push_bit 1 (of_nat (2 ^ k) :: u32) = of_nat (2 ^ Suc k)"
    by (simp add: push_bit_eq_mult)
  moreover have "log_loop v (of_nat (2 ^ Suc k)) (Suc lg) = Some (Suc lg + d)"
    using Suc.prems by (intro Suc.IH) (auto simp del: of_nat_power dest: spec [of _ "Suc _"])
  ultimately show ?case by (subst log_loop.simps) (simp del: of_nat_power power_Suc)
qed

lemma log_loop_stuck: "0 < v \<Longrightarrow> log_loop v 0 lg = None"
proof (rule ccontr)
  assume v: "0 < v" and "log_loop v 0 lg \<noteq> None"
  then obtain r where ret: "log_loop v 0 lg = Some r" by blast
  have "0 = (0::u32) \<longrightarrow> \<not> 0 < v"
  proof (rule log_loop.raw_induct [where P = "\<lambda>v val lg r. val = 0 \<longrightarrow> \<not> 0 < v", OF _ ret])
    fix f v val lg r
    assume IH: "\<And>v val lg r. f v val lg = Some r \<Longrightarrow> val = 0 \<longrightarrow> \<not> 0 < (v::u32)"
      and eq: "(if val < v then f v (push_bit 1 val) (Suc lg) else Some lg) = Some (r::nat)"
    show "val = 0 \<longrightarrow> \<not> 0 < (v::u32)"
      using IH [of v "push_bit 1 val" "Suc lg" r] eq by (auto split: if_splits)
  qed
  with v show False by simp
qed

end
