(* ===== verification/Xpersist.thy ===== *)
theory Xpersist
  imports Xdefines
begin

text \<open>
  \<open>include/xpersist.h\<close>: a range of memory backed by a shared file, with one version number per
  page. The shared part (\<open>_persistentMemory\<close>, \<open>_persistentVersions\<close>, the cross-process lock of
  \<open>include/xplock.h\<close>) is the record \<open>pstore\<close>; what each process has for itself (its view
  \<open>_transientMemory\<close>, its \<open>_localVersions\<close>, the page sets \<open>_read\<close> and \<open>_dirtied\<close>) is the
  record \<open>xpersist\<close>.

  The two instances in the program have \<open>Type = char\<close>, so offsets into a region are byte
  offsets. A view maps the backing file: \<open>MAP_SHARED\<close> as the constructor sets it up,
  \<open>MAP_PRIVATE\<close> after the first \<open>updateAll\<close>. A private page that was not written shows the
  file; the first write to it makes a copy of its own (\<open>xp_cow\<close>), which \<open>madvise\<close> with
  \<open>MADV_DONTNEED\<close> drops. The same holds of \<open>_localVersions\<close>, a private map of the versions
  file (\<open>xp_lver\<close>, by pages of 1024 version numbers).
\<close>

section \<open>State\<close>

datatype prot = PROT_NONE | PROT_READ | PROT_RW
datatype maptype = MAP_SHARED | MAP_PRIVATE

record pstore =
  pmem :: "nat \<Rightarrow> byte"
  pver :: "nat \<Rightarrow> u32"
  plock :: "nat option"

record xpersist =
  xp_base :: u32
  xp_size :: nat
  xp_startsize :: nat
  xp_map :: maptype
  xp_prot :: "nat \<Rightarrow> prot"
  xp_cow :: "nat \<Rightarrow> (nat \<Rightarrow> byte) option"
  xp_lver :: "nat \<Rightarrow> (nat \<Rightarrow> u32) option"
  xp_read :: "nat list"
  xp_dirtied :: "nat list"
  xp_isLocked :: bool

definition sizeof_Type :: nat where "sizeof_Type = 1"
definition sizeof_int :: nat where "sizeof_int = 4"

definition VersionArrayLength :: "xpersist \<Rightarrow> nat" where
  "VersionArrayLength x = (xp_size x + PageSize - 1) div PageSize"

text \<open>
  The constructor. \<open>ftruncate\<close> extends both files with zeros; when a start address is given
  (\<open>start = Some bytes\<close>, as for the globals), its contents are copied into the file before the
  view is mapped over them.
\<close>

fun xpersist_new :: "u32 \<Rightarrow> nat \<Rightarrow> ((nat \<Rightarrow> byte) \<times> nat) option \<Rightarrow> pstore \<times> xpersist" where
  "xpersist_new base sz start =
     (\<lparr>pmem = (case start of None \<Rightarrow> (\<lambda>_. 0)
                | Some (bytes, n) \<Rightarrow> (\<lambda>k. if k < n then bytes k else 0)),
       pver = (\<lambda>_. 0), plock = None\<rparr>,
      \<lparr>xp_base = base, xp_size = sz,
       xp_startsize = (case start of None \<Rightarrow> 0 | Some (_, n) \<Rightarrow> n),
       xp_map = MAP_SHARED, xp_prot = (\<lambda>_. PROT_RW), xp_cow = (\<lambda>_. None),
       xp_lver = (\<lambda>_. None), xp_read = [], xp_dirtied = [], xp_isLocked = False\<rparr>)"

section \<open>Addresses and pages\<close>

definition inRange :: "xpersist \<Rightarrow> u32 \<Rightarrow> bool" where
  "inRange x addr \<longleftrightarrow> xp_base x \<le> addr \<and> addr < xp_base x + of_nat (xp_size x)"

definition computePage :: "u32 \<Rightarrow> nat" where
  "computePage index = unat ((index * of_nat sizeof_Type) div of_nat PageSize)"

definition page_of :: "nat \<Rightarrow> nat" where
  "page_of off = off div PageSize"

definition page_bytes :: "nat \<Rightarrow> nat list" where
  "page_bytes p = [p * PageSize ..< p * PageSize + PageSize]"

lemma computePage_of [page_simps]: "computePage index = page_of (unat index)"
  by (simp add: computePage_def sizeof_Type_def page_of_def unat_div PageSize_def)

lemma in_page_bytes [page_simps]: "off \<in> set (page_bytes p) \<longleftrightarrow> page_of off = p"
proof -
  have "off div PageSize = p \<longleftrightarrow> p * PageSize \<le> off \<and> off < Suc p * PageSize"
    using PageSize_pos by (metis div_nat_eqI dividend_less_times_div le_add1 mult.commute
        mult_Suc_right div_times_less_eq_dividend)
  then show ?thesis by (auto simp: page_bytes_def page_of_def)
qed

section \<open>The view of memory\<close>

definition transient_byte :: "pstore \<Rightarrow> xpersist \<Rightarrow> nat \<Rightarrow> byte" where
  "transient_byte sh x off =
     (case xp_cow x (page_of off) of None \<Rightarrow> pmem sh off | Some f \<Rightarrow> f off)"

text \<open>\<open>None\<close> is a fault: the page's protection does not allow the access.\<close>

definition read_byte :: "pstore \<Rightarrow> xpersist \<Rightarrow> nat \<Rightarrow> byte option" where
  "read_byte sh x off =
     (if xp_prot x (page_of off) = PROT_NONE then None else Some (transient_byte sh x off))"

definition write_byte :: "pstore \<Rightarrow> xpersist \<Rightarrow> nat \<Rightarrow> byte \<Rightarrow> (pstore \<times> xpersist) option" where
  "write_byte sh x off b =
     (if xp_prot x (page_of off) \<noteq> PROT_RW then None
      else if xp_map x = MAP_SHARED then Some (sh\<lparr>pmem := (pmem sh)(off := b)\<rparr>, x)
      else Some (sh, x\<lparr>xp_cow := (xp_cow x)(page_of off :=
             Some ((transient_byte sh x)(off := b)))\<rparr>))"

section \<open>Version numbers\<close>

definition versions_per_page :: nat where
  "versions_per_page = PageSize div sizeof_int"

definition local_versions :: "pstore \<Rightarrow> xpersist \<Rightarrow> nat \<Rightarrow> nat \<Rightarrow> u32" where
  "local_versions sh x k = (case xp_lver x k of None \<Rightarrow> pver sh | Some f \<Rightarrow> f)"

definition localVersion :: "pstore \<Rightarrow> xpersist \<Rightarrow> nat \<Rightarrow> u32" where
  "localVersion sh x p = local_versions sh x (p div versions_per_page) p"

definition set_localVersion :: "pstore \<Rightarrow> xpersist \<Rightarrow> nat \<Rightarrow> u32 \<Rightarrow> xpersist" where
  "set_localVersion sh x p v =
     x\<lparr>xp_lver := (xp_lver x)(p div versions_per_page :=
         Some ((local_versions sh x (p div versions_per_page))(p := v)))\<rparr>"

section \<open>Operations\<close>

definition recordRead :: "pstore \<Rightarrow> xpersist \<Rightarrow> u32 \<Rightarrow> xpersist" where
  "recordRead sh x addr =
     (if inRange x addr then
        (let pageNo = computePage (addr - xp_base x);
             x = set_localVersion sh x pageNo (pver sh pageNo)
         in x\<lparr>xp_read := set_insert pageNo (xp_read x)\<rparr>)
      else x)"

definition recordWrite :: "xpersist \<Rightarrow> u32 \<Rightarrow> xpersist" where
  "recordWrite x addr =
     (if inRange x addr then
        (let pageNo = computePage (addr - xp_base x)
         in x\<lparr>xp_dirtied := set_insert pageNo (xp_dirtied x),
              xp_read := set_insert pageNo (xp_read x)\<rparr>)
      else x)"

definition xp_begin :: "xpersist \<Rightarrow> xpersist" where
  "xp_begin x = x\<lparr>xp_read := [], xp_dirtied := []\<rparr>"

definition nop :: "xpersist \<Rightarrow> bool" where
  "nop x = (let noReads = (xp_read x = []); noWrites = (xp_dirtied x = []) in noReads \<and> noWrites)"

text \<open>
  \<open>updateAll\<close> maps the whole region afresh, private and with no access. The \<open>madvise\<close> on the
  local versions gives \<open>VersionArrayLength\<close> as a length in bytes.
\<close>

definition updateAll :: "xpersist \<Rightarrow> xpersist" where
  "updateAll x = x\<lparr>xp_lver := (\<lambda>k. if k * PageSize < VersionArrayLength x then None else xp_lver x k),
                   xp_map := MAP_PRIVATE, xp_prot := (\<lambda>_. PROT_NONE), xp_cow := (\<lambda>_. None)\<rparr>"

definition xp_abort :: "xpersist \<Rightarrow> xpersist" where
  "xp_abort x = updateAll x"

definition updatePage :: "nat \<Rightarrow> xpersist \<Rightarrow> xpersist" where
  "updatePage p x = x\<lparr>xp_cow := (xp_cow x)(p := None), xp_prot := (xp_prot x)(p := PROT_NONE)\<rparr>"

text \<open>The loop of \<open>consistent\<close>, which stops at the first page whose version moved.\<close>

fun consistent_loop :: "pstore \<Rightarrow> xpersist \<Rightarrow> nat list \<Rightarrow> bool" where
  "consistent_loop sh x [] = True"
| "consistent_loop sh x (pageNo # i) =
     (if pver sh pageNo \<noteq> localVersion sh x pageNo then False else consistent_loop sh x i)"

definition consistent :: "pstore \<Rightarrow> xpersist \<Rightarrow> bool" where
  "consistent sh x = consistent_loop sh x (xp_read x)"

definition copy_byte :: "xpersist \<Rightarrow> nat \<Rightarrow> pstore \<Rightarrow> pstore" where
  "copy_byte x off sh = sh\<lparr>pmem := (pmem sh)(off := transient_byte sh x off)\<rparr>"

definition bump_version :: "xpersist \<Rightarrow> nat \<Rightarrow> pstore \<Rightarrow> pstore" where
  "bump_version x p sh = sh\<lparr>pver := (pver sh)(p := localVersion sh x p + 1)\<rparr>"

text \<open>The body of the first loop of \<open>commit\<close>: the \<open>memcpy\<close> of the page, then its version.\<close>

definition commit_page :: "xpersist \<Rightarrow> nat \<Rightarrow> pstore \<Rightarrow> pstore" where
  "commit_page x p sh = bump_version x p (fold (copy_byte x) (page_bytes p) sh)"

definition xp_commit :: "pstore \<times> xpersist \<Rightarrow> pstore \<times> xpersist" where
  "xp_commit = (\<lambda>(sh, x). (fold (commit_page x) (xp_dirtied x) sh, fold updatePage (xp_dirtied x) x))"

definition commitMemory :: "pstore \<times> xpersist \<Rightarrow> pstore \<times> xpersist" where
  "commitMemory = (\<lambda>(sh, x). (fold (copy_byte x) [0 ..< xp_startsize x] sh, x))"

text \<open>
  \<open>lock\<close> waits until the mutex of \<open>xplock.h\<close> is free (\<open>None\<close> while another process holds it).
\<close>

definition xp_lock :: "nat \<Rightarrow> pstore \<times> xpersist \<Rightarrow> (pstore \<times> xpersist) option" where
  "xp_lock pid = (\<lambda>(sh, x). case plock sh of
     None \<Rightarrow> Some (sh\<lparr>plock := Some pid\<rparr>, x\<lparr>xp_isLocked := True\<rparr>) | Some _ \<Rightarrow> None)"

definition xp_unlock :: "pstore \<times> xpersist \<Rightarrow> pstore \<times> xpersist" where
  "xp_unlock = (\<lambda>(sh, x). (sh\<lparr>plock := None\<rparr>, x\<lparr>xp_isLocked := False\<rparr>))"

section \<open>What the operations do\<close>

lemma consistent_loop_iff:
  "consistent_loop sh x ps \<longleftrightarrow> (\<forall>p \<in> set ps. pver sh p = localVersion sh x p)"
  by (induction ps) auto

lemma consistent_iff:
  "consistent sh x \<longleftrightarrow> (\<forall>p \<in> set (xp_read x). pver sh p = localVersion sh x p)"
  by (simp add: consistent_def consistent_loop_iff)

lemma nop_iff [simp]: "nop x \<longleftrightarrow> xp_read x = [] \<and> xp_dirtied x = []"
  by (simp add: nop_def)

lemma copy_byte_pver [simp]: "pver (copy_byte x off sh) = pver sh"
  by (simp add: copy_byte_def)

lemma copy_byte_plock [simp]: "plock (copy_byte x off sh) = plock sh"
  by (simp add: copy_byte_def)

lemma copy_byte_pmem:
  "pmem (copy_byte x off sh) = (pmem sh)(off := transient_byte sh x off)"
  by (simp add: copy_byte_def)

lemma transient_copy_byte [simp]:
  "transient_byte (copy_byte x off sh) x k = transient_byte sh x k"
  by (auto simp: copy_byte_def transient_byte_def split: option.splits)

lemma fold_copy_pver [simp]: "pver (fold (copy_byte x) offs sh) = pver sh"
  by (induction offs arbitrary: sh) auto

lemma fold_copy_plock [simp]: "plock (fold (copy_byte x) offs sh) = plock sh"
  by (induction offs arbitrary: sh) auto

lemma fold_copy_transient [simp]:
  "transient_byte (fold (copy_byte x) offs sh) x k = transient_byte sh x k"
  by (induction offs arbitrary: sh) auto

lemma fold_copy_pmem:
  "pmem (fold (copy_byte x) offs sh)
     = (\<lambda>k. if k \<in> set offs then transient_byte sh x k else pmem sh k)"
  by (induction offs arbitrary: sh) (auto simp: copy_byte_pmem fun_eq_iff)

lemma bump_version_simps [simp]:
  "pmem (bump_version x p sh) = pmem sh" "plock (bump_version x p sh) = plock sh"
  "transient_byte (bump_version x p sh) x k = transient_byte sh x k"
  by (auto simp: bump_version_def transient_byte_def split: option.splits)

lemma localVersion_cong:
  "pver sh p = pver sh' p \<Longrightarrow> localVersion sh x p = localVersion sh' x p"
  by (auto simp: localVersion_def local_versions_def split: option.splits)

lemma bump_version_pver: "pver (bump_version x p sh) = (pver sh)(p := localVersion sh x p + 1)"
  by (simp add: bump_version_def)

lemma commit_page_transient [simp]:
  "transient_byte (commit_page x p sh) x k = transient_byte sh x k"
  by (simp add: commit_page_def)

lemma commit_page_pmem:
  "pmem (commit_page x p sh) = (\<lambda>k. if page_of k = p then transient_byte sh x k else pmem sh k)"
  by (simp add: commit_page_def fold_copy_pmem page_simps)

lemma commit_page_pver:
  "pver (commit_page x p sh) = (pver sh)(p := localVersion sh x p + 1)"
  using localVersion_cong [of "fold (copy_byte x) (page_bytes p) sh" p sh x]
  by (simp add: commit_page_def bump_version_pver)

lemma fold_commit_page_pmem:
  "pmem (fold (commit_page x) ps sh)
     = (\<lambda>k. if page_of k \<in> set ps then transient_byte sh x k else pmem sh k)"
  by (induction ps arbitrary: sh) (auto simp: commit_page_pmem fun_eq_iff)

lemma fold_commit_page_pver:
  "distinct ps \<Longrightarrow> pver (fold (commit_page x) ps sh)
     = (\<lambda>p. if p \<in> set ps then localVersion sh x p + 1 else pver sh p)"
proof (induction ps arbitrary: sh)
  case Nil
  then show ?case by simp
next
  case (Cons a ps)
  then have IH: "pver (fold (commit_page x) ps (commit_page x a sh))
     = (\<lambda>p. if p \<in> set ps then localVersion (commit_page x a sh) x p + 1
             else pver (commit_page x a sh) p)" by simp
  have "localVersion (commit_page x a sh) x p = localVersion sh x p" if "p \<in> set ps" for p
    using Cons.prems that by (intro localVersion_cong) (auto simp: commit_page_pver)
  with IH Cons.prems show ?case by (auto simp: commit_page_pver fun_eq_iff)
qed

lemma fold_updatePage_simps [simp]:
  "xp_base (fold updatePage ps x) = xp_base x" "xp_size (fold updatePage ps x) = xp_size x"
  "xp_lver (fold updatePage ps x) = xp_lver x" "xp_read (fold updatePage ps x) = xp_read x"
  "xp_dirtied (fold updatePage ps x) = xp_dirtied x" "xp_map (fold updatePage ps x) = xp_map x"
  by (induction ps arbitrary: x) (auto simp: updatePage_def)

lemma fold_updatePage_prot:
  "xp_prot (fold updatePage ps x) = (\<lambda>p. if p \<in> set ps then PROT_NONE else xp_prot x p)"
  by (induction ps arbitrary: x) (auto simp: updatePage_def fun_eq_iff)

lemma fold_updatePage_cow:
  "xp_cow (fold updatePage ps x) = (\<lambda>p. if p \<in> set ps then None else xp_cow x p)"
  by (induction ps arbitrary: x) (auto simp: updatePage_def fun_eq_iff)

lemma localVersion_set:
  "localVersion sh (set_localVersion sh' x p v) p = v"
  by (simp add: localVersion_def local_versions_def set_localVersion_def)

section \<open>Clean views\<close>

text \<open>
  A view is clean when no page is accessible and no page has a private copy: every access of
  the next transaction then faults first, so the signal handler sees it.
\<close>

definition clean :: "xpersist \<Rightarrow> bool" where
  "clean x \<longleftrightarrow> (\<forall>p. xp_prot x p = PROT_NONE \<and> xp_cow x p = None)"

lemma clean_updateAll [simp]: "clean (updateAll x)"
  by (simp add: clean_def updateAll_def)

lemma clean_begin [simp]: "clean (xp_begin x) \<longleftrightarrow> clean x"
  by (simp add: clean_def xp_begin_def)

end
