(* ===== verification/Xmemory.thy ===== *)
theory Xmemory
  imports Xpersist
begin

text \<open>
  \<open>include/xmemory.h\<close>: the two regions of a process (heap and globals), the set \<open>_pages\<close> of
  pages seen in the current transaction, the signal handler that turns faults into recorded
  reads and writes, and the commit of both regions under both locks.

  The fields \<open>_heap\<close> and \<open>_globals\<close> are \<open>xm_reg m Heap\<close> and \<open>xm_reg m Globals\<close>.
\<close>

section \<open>State\<close>

datatype region = Heap | Globals

record xmemory =
  xm_reg :: "region \<Rightarrow> xpersist"
  xm_pages :: "u32 list"

type_synonym shared = "region \<Rightarrow> pstore"

definition upd_reg :: "region \<Rightarrow> (xpersist \<Rightarrow> xpersist) \<Rightarrow> xmemory \<Rightarrow> xmemory" where
  "upd_reg r f m = m\<lparr>xm_reg := (xm_reg m)(r := f (xm_reg m r))\<rparr>"

lemma upd_reg_simps [simp]:
  "xm_reg (upd_reg r f m) = (xm_reg m)(r := f (xm_reg m r))"
  "xm_pages (upd_reg r f m) = xm_pages m"
  by (simp_all add: upd_reg_def)

lemma region_all: "(\<forall>r. P r) \<longleftrightarrow> P Heap \<and> P Globals"
  by (metis region.exhaust)

section \<open>Transactions over both regions\<close>

definition xm_begin :: "xmemory \<Rightarrow> xmemory" where
  "xm_begin m = upd_reg Heap xp_begin (upd_reg Globals xp_begin (m\<lparr>xm_pages := []\<rparr>))"

definition xm_recordRead :: "shared \<Rightarrow> xmemory \<Rightarrow> u32 \<Rightarrow> xmemory" where
  "xm_recordRead sh m addr =
     (if inRange (xm_reg m Heap) addr then upd_reg Heap (\<lambda>x. recordRead (sh Heap) x addr) m
      else if inRange (xm_reg m Globals) addr
      then upd_reg Globals (\<lambda>x. recordRead (sh Globals) x addr) m
      else m)"

definition xm_recordWrite :: "xmemory \<Rightarrow> u32 \<Rightarrow> xmemory" where
  "xm_recordWrite m addr =
     (if inRange (xm_reg m Heap) addr then upd_reg Heap (\<lambda>x. recordWrite x addr) m
      else if inRange (xm_reg m Globals) addr then upd_reg Globals (\<lambda>x. recordWrite x addr) m
      else m)"

definition addPage :: "u32 \<Rightarrow> xmemory \<Rightarrow> xmemory" where
  "addPage page m = m\<lparr>xm_pages := set_insert page (xm_pages m)\<rparr>"

definition pageSeen :: "u32 \<Rightarrow> xmemory \<Rightarrow> bool" where
  "pageSeen page m \<longleftrightarrow> page \<in> set (xm_pages m)"

definition isNop :: "xmemory \<Rightarrow> bool" where
  "isNop m \<longleftrightarrow> nop (xm_reg m Heap) \<and> nop (xm_reg m Globals)"

definition xm_updateAll :: "xmemory \<Rightarrow> xmemory" where
  "xm_updateAll m = upd_reg Globals updateAll (upd_reg Heap updateAll m)"

definition xm_abort :: "xmemory \<Rightarrow> xmemory" where
  "xm_abort m = upd_reg Globals xp_abort (upd_reg Heap xp_abort m)"

definition xm_consistent :: "shared \<Rightarrow> xmemory \<Rightarrow> bool" where
  "xm_consistent sh m \<longleftrightarrow>
     consistent (sh Heap) (xm_reg m Heap) \<and> consistent (sh Globals) (xm_reg m Globals)"

text \<open>Applying an operation on one region to the shared and the local state together.\<close>

definition on_reg ::
  "region \<Rightarrow> (pstore \<times> xpersist \<Rightarrow> pstore \<times> xpersist) \<Rightarrow> shared \<times> xmemory \<Rightarrow> shared \<times> xmemory" where
  "on_reg r f = (\<lambda>(sh, m). let (s, x) = f (sh r, xm_reg m r) in (sh(r := s), upd_reg r (\<lambda>_. x) m))"

definition lock_reg :: "region \<Rightarrow> nat \<Rightarrow> shared \<times> xmemory \<Rightarrow> (shared \<times> xmemory) option" where
  "lock_reg r pid = (\<lambda>(sh, m). case xp_lock pid (sh r, xm_reg m r) of
     None \<Rightarrow> None | Some (s, x) \<Rightarrow> Some (sh(r := s), upd_reg r (\<lambda>_. x) m))"

definition xm_lock :: "nat \<Rightarrow> shared \<times> xmemory \<Rightarrow> (shared \<times> xmemory) option" where
  "xm_lock pid st = Option.bind (lock_reg Heap pid st) (lock_reg Globals pid)"

definition xm_unlock :: "shared \<times> xmemory \<Rightarrow> shared \<times> xmemory" where
  "xm_unlock st = on_reg Globals xp_unlock (on_reg Heap xp_unlock st)"

text \<open>\<open>None\<close>: a lock is held by another process, so the call waits.\<close>

definition isConsistent :: "nat \<Rightarrow> shared \<times> xmemory \<Rightarrow> ((shared \<times> xmemory) \<times> bool) option" where
  "isConsistent pid st = map_option
     (\<lambda>(sh, m). (xm_unlock (sh, m), xm_consistent sh m)) (xm_lock pid st)"

definition tryToCommit :: "nat \<Rightarrow> shared \<times> xmemory \<Rightarrow> ((shared \<times> xmemory) \<times> bool) option" where
  "tryToCommit pid st = map_option
     (\<lambda>(sh, m). if xm_consistent sh m
        then (xm_unlock (on_reg Globals xp_commit (on_reg Heap xp_commit (sh, m))), True)
        else (xm_unlock (sh, m), False)) (xm_lock pid st)"

section \<open>The signal handler\<close>

datatype si_code = SEGV_ACCERR | SEGV_MAPERR | SEGV_OTHER

text \<open>
  \<open>mprotect\<close> on one page of the address space: it changes the protection of that page in the
  region mapped there (pages outside both regions are not part of the model).
\<close>

definition mprotect :: "u32 \<Rightarrow> prot \<Rightarrow> xmemory \<Rightarrow> xmemory" where
  "mprotect page pr m =
     (let set_prot = (\<lambda>x. x\<lparr>xp_prot := (xp_prot x)(page_of (unat (page - xp_base x)) := pr)\<rparr>)
      in if inRange (xm_reg m Heap) page then upd_reg Heap set_prot m
         else if inRange (xm_reg m Globals) page then upd_reg Globals set_prot m
         else m)"

datatype signal_result = Resume xmemory | Die

text \<open>
  \<open>Resume m\<close>: the handler returns and the faulting instruction runs again. In the last branch
  only the memory is reverted; the handler then returns like the first.
\<close>

definition handle :: "si_code \<Rightarrow> u32 \<Rightarrow> shared \<Rightarrow> xmemory \<Rightarrow> signal_result" where
  "handle code addr sh m =
     (case code of
        SEGV_ACCERR \<Rightarrow>
          (let page = addr AND NOT (of_nat PageSize - 1)
           in if \<not> pageSeen page m
              then Resume (xm_recordRead sh (mprotect page PROT_READ (addPage page m)) addr)
              else Resume (xm_recordWrite (mprotect page PROT_RW m) addr))
      | SEGV_MAPERR \<Rightarrow> Die
      | SEGV_OTHER \<Rightarrow> Resume (xm_abort m))"

end
