(* ===== verification/Stm.thy ===== *)
theory Stm
  imports Faults
begin

text \<open>
  The transactional memory of Grace as a system of processes that share the two page stores.
  One step is one access of one process to memory, one run of the signal handler, or one piece
  of the commit protocol of \<open>xmemory::tryToCommit\<close>; the steps of different processes
  interleave freely, so the \<open>memcpy\<close> of a commit is visible byte by byte and readers do not
  take the lock.

  A process carries, besides its \<open>xmemory\<close>, a log of the loads and stores of its current
  transaction, the version counts it has noted, and whether the transaction began with a clean
  view; the system carries the log of all committed transactions in commit order. These are
  history: no step depends on them.
\<close>

section \<open>Logs and their replay\<close>

datatype event = Rd region nat byte | Wr region nat byte

type_synonym cells = "region \<Rightarrow> nat \<Rightarrow> byte"

definition cells_of :: "shared \<Rightarrow> cells" where
  "cells_of sh = (\<lambda>r. pmem (sh r))"

text \<open>Running a log alone on a memory: every load must see the value it saw in the run.\<close>

fun replay :: "event list \<Rightarrow> cells \<Rightarrow> cells option" where
  "replay [] M = Some M"
| "replay (Rd r off b # es) M = (if M r off = b then replay es M else None)"
| "replay (Wr r off b # es) M = replay es (M(r := (M r)(off := b)))"

lemma replay_append:
  "replay (es @ fs) M = Option.bind (replay es M) (replay fs)"
  by (induction es M rule: replay.induct) (auto simp del: fun_upd_apply)

section \<open>The steps of a commit\<close>

datatype caction =
  CopyByte region nat
| BumpVersion region nat
| UpdatePage region nat
| Unlock region

fun exec_action :: "caction \<Rightarrow> shared \<times> xmemory \<Rightarrow> shared \<times> xmemory" where
  "exec_action (CopyByte r off) (sh, m) = (sh(r := copy_byte (xm_reg m r) off (sh r)), m)"
| "exec_action (BumpVersion r p) (sh, m) = (sh(r := bump_version (xm_reg m r) p (sh r)), m)"
| "exec_action (UpdatePage r p) (sh, m) = (sh, upd_reg r (updatePage p) m)"
| "exec_action (Unlock r) (sh, m) = on_reg r xp_unlock (sh, m)"

definition commit_page_actions :: "region \<Rightarrow> nat \<Rightarrow> caction list" where
  "commit_page_actions r p = map (CopyByte r) (page_bytes p) @ [BumpVersion r p]"

definition commit_reg_actions :: "region \<Rightarrow> nat list \<Rightarrow> caction list" where
  "commit_reg_actions r ps = concat (map (commit_page_actions r) ps) @ map (UpdatePage r) ps"

definition unlock_actions :: "caction list" where
  "unlock_actions = [Unlock Heap, Unlock Globals]"

definition commit_actions :: "xmemory \<Rightarrow> caction list" where
  "commit_actions m =
     commit_reg_actions Heap (xp_dirtied (xm_reg m Heap)) @
     commit_reg_actions Globals (xp_dirtied (xm_reg m Globals)) @ unlock_actions"

section \<open>Processes and the system\<close>

datatype phase =
  Between
| Running
| LockHeap
| LockBoth
| Committing "caction list"
| Failing "caction list"

record proc =
  xm :: xmemory
  phase :: phase
  plog :: "event list"
  psnap :: "region \<Rightarrow> nat \<Rightarrow> nat"
  tracked :: bool

record sys =
  shm :: shared
  procs :: "nat \<Rightarrow> proc option"
  cnt :: "region \<Rightarrow> nat \<Rightarrow> nat"
  hist :: "event list"
  hist_tracked :: bool

definition all_clean :: "xmemory \<Rightarrow> bool" where
  "all_clean m \<longleftrightarrow> clean (xm_reg m Heap) \<and> clean (xm_reg m Globals)"

abbreviation put :: "sys \<Rightarrow> nat \<Rightarrow> proc \<Rightarrow> sys" where
  "put s i P \<equiv> s\<lparr>procs := (procs s)(i \<mapsto> P)\<rparr>"

abbreviation view :: "shared \<Rightarrow> xmemory \<Rightarrow> region \<Rightarrow> nat \<Rightarrow> byte" where
  "view sh m r off \<equiv> transient_byte (sh r) (xm_reg m r) off"

definition load :: "shared \<Rightarrow> xmemory \<Rightarrow> region \<Rightarrow> nat \<Rightarrow> byte option" where
  "load sh m r off = read_byte (sh r) (xm_reg m r) off"

definition store :: "shared \<Rightarrow> xmemory \<Rightarrow> region \<Rightarrow> nat \<Rightarrow> byte \<Rightarrow> (shared \<times> xmemory) option" where
  "store sh m r off b = map_option (\<lambda>(s, x). (sh(r := s), upd_reg r (\<lambda>_. x) m))
     (write_byte (sh r) (xm_reg m r) off b)"

text \<open>The counts follow the version numbers without wrapping.\<close>

fun count_action :: "caction \<Rightarrow> (region \<Rightarrow> nat \<Rightarrow> nat) \<Rightarrow> region \<Rightarrow> nat \<Rightarrow> nat" where
  "count_action (BumpVersion r p) c = c(r := (c r)(p := Suc (c r p)))"
| "count_action _ c = c"

inductive step :: "nat \<Rightarrow> sys \<Rightarrow> sys \<Rightarrow> bool" where
  s_begin: "procs s i = Some P \<Longrightarrow> phase P = Between \<Longrightarrow>
     step i s (put s i (P\<lparr>xm := xm_begin (xm P), phase := Running, plog := [],
                          tracked := all_clean (xm P)\<rparr>))"
| s_load: "procs s i = Some P \<Longrightarrow> phase P = Running \<Longrightarrow> off < xp_size (xm_reg (xm P) r) \<Longrightarrow>
     load (shm s) (xm P) r off = Some b \<Longrightarrow>
     step i s (put s i (P\<lparr>plog := plog P @ [Rd r off b]\<rparr>))"
| s_store: "procs s i = Some P \<Longrightarrow> phase P = Running \<Longrightarrow> off < xp_size (xm_reg (xm P) r) \<Longrightarrow>
     store (shm s) (xm P) r off b = Some (sh', m') \<Longrightarrow>
     step i s (put (s\<lparr>shm := sh'\<rparr>) i (P\<lparr>xm := m', plog := plog P @ [Wr r off b]\<rparr>))"
| s_fault: "procs s i = Some P \<Longrightarrow> phase P = Running \<Longrightarrow> off < xp_size (xm_reg (xm P) r) \<Longrightarrow>
     load (shm s) (xm P) r off = None \<or> store (shm s) (xm P) r off b = None \<Longrightarrow>
     handle SEGV_ACCERR (addr_of (xm P) r off) (shm s) (xm P) = Resume m' \<Longrightarrow>
     step i s (put s i (P\<lparr>xm := m',
        psnap := (if page_addr (xm P) r (page_of off) \<in> set (xm_pages (xm P)) then psnap P
                  else (psnap P)(r := (psnap P r)(page_of off := cnt s r (page_of off))))\<rparr>))"
| s_nop: "procs s i = Some P \<Longrightarrow> phase P = Running \<Longrightarrow> isNop (xm P) \<Longrightarrow>
     step i s (put s i (P\<lparr>xm := xm_updateAll (xm P), phase := Between\<rparr>))"
| s_lock_heap: "procs s i = Some P \<Longrightarrow> phase P = Running \<Longrightarrow>
     lock_reg Heap i (shm s, xm P) = Some (sh', m') \<Longrightarrow>
     step i s (put (s\<lparr>shm := sh'\<rparr>) i (P\<lparr>xm := m', phase := LockHeap\<rparr>))"
| s_lock_globals: "procs s i = Some P \<Longrightarrow> phase P = LockHeap \<Longrightarrow>
     lock_reg Globals i (shm s, xm P) = Some (sh', m') \<Longrightarrow>
     step i s (put (s\<lparr>shm := sh'\<rparr>) i (P\<lparr>xm := m', phase := LockBoth\<rparr>))"
| s_check_ok: "procs s i = Some P \<Longrightarrow> phase P = LockBoth \<Longrightarrow> xm_consistent (shm s) (xm P) \<Longrightarrow>
     step i s (put (s\<lparr>hist := hist s @ plog P, hist_tracked := (hist_tracked s \<and> tracked P)\<rparr>) i
                   (P\<lparr>phase := Committing (commit_actions (xm P))\<rparr>))"
| s_check_fail: "procs s i = Some P \<Longrightarrow> phase P = LockBoth \<Longrightarrow> \<not> xm_consistent (shm s) (xm P) \<Longrightarrow>
     step i s (put s i (P\<lparr>phase := Failing unlock_actions\<rparr>))"
| s_commit: "procs s i = Some P \<Longrightarrow> phase P = Committing (a # as) \<Longrightarrow>
     exec_action a (shm s, xm P) = (sh', m') \<Longrightarrow>
     step i s (put (s\<lparr>shm := sh', cnt := count_action a (cnt s)\<rparr>) i
                   (P\<lparr>xm := m', phase := Committing as\<rparr>))"
| s_committed: "procs s i = Some P \<Longrightarrow> phase P = Committing [] \<Longrightarrow>
     step i s (put s i (P\<lparr>phase := Between\<rparr>))"
| s_fail: "procs s i = Some P \<Longrightarrow> phase P = Failing (a # as) \<Longrightarrow>
     exec_action a (shm s, xm P) = (sh', m') \<Longrightarrow>
     step i s (put (s\<lparr>shm := sh'\<rparr>) i (P\<lparr>xm := m', phase := Failing as\<rparr>))"
| s_abort: "procs s i = Some P \<Longrightarrow> phase P = Failing [] \<Longrightarrow>
     step i s (put s i (P\<lparr>xm := xm_abort (xm P), phase := Between\<rparr>))"
| s_fork: "procs s i = Some P \<Longrightarrow> phase P = Between \<Longrightarrow> procs s j = None \<Longrightarrow>
     step i s (put s j P)"

text \<open>
  The start: one process whose views are clean and private, which \<open>xrun::initialize\<close>
  establishes with an empty transaction; the stores hold any contents, at version 0.
\<close>

definition init_ok :: "sys \<Rightarrow> bool" where
  "init_ok s \<longleftrightarrow>
     (\<forall>r. pver (shm s r) = (\<lambda>_. 0) \<and> plock (shm s r) = None) \<and> cnt s = (\<lambda>_ _. 0) \<and>
     hist s = [] \<and> hist_tracked s \<and>
     (\<forall>i P. procs s i = Some P \<longrightarrow> phase P = Between \<and> layout_ok (xm P) \<and> all_clean (xm P) \<and>
        (\<forall>r. xp_map (xm_reg (xm P) r) = MAP_PRIVATE))"

inductive reach :: "sys \<Rightarrow> sys \<Rightarrow> bool" for s0 where
  reach_0: "reach s0 s0"
| reach_S: "reach s0 s \<Longrightarrow> step i s t \<Longrightarrow> reach s0 t"

end
