(* ===== verification/Stm_Inv.thy ===== *)
theory Stm_Inv
  imports Stm
begin

text \<open>
  The invariant of the transactional memory. The heart is \<open>tx_ok\<close>: as long as the version of a
  page is the one a transaction noted, and nobody is in the middle of committing that page,
  the transaction's own log explains its view of the page, starting from the shared memory.
  Every step of another process either leaves the page alone or ends that condition for good.
\<close>

section \<open>Replay, one location at a time\<close>

fun at :: "region \<Rightarrow> nat \<Rightarrow> event \<Rightarrow> bool" where
  "at r off (Rd r' off' _) \<longleftrightarrow> r = r' \<and> off = off'"
| "at r off (Wr r' off' _) \<longleftrightarrow> r = r' \<and> off = off'"

fun replay1 :: "event list \<Rightarrow> byte \<Rightarrow> byte option" where
  "replay1 [] c = Some c"
| "replay1 (Rd _ _ b # es) c = (if c = b then replay1 es c else None)"
| "replay1 (Wr _ _ b # es) c = replay1 es b"

lemma replay1_append: "replay1 (es @ fs) c = Option.bind (replay1 es c) (replay1 fs)"
  by (induction es c rule: replay1.induct) auto

lemma replay_pointwise:
  "(\<And>r off. replay1 (filter (at r off) es) (M r off) = Some (M' r off)) \<Longrightarrow> replay es M = Some M'"
proof (induction es arbitrary: M)
  case Nil
  then have "M r off = M' r off" for r off using Nil [of r off] by simp
  then show ?case by auto
next
  case (Cons e es)
  show ?case
  proof (cases e)
    case (Rd r off b)
    have "M r off = b" using Cons.prems [of r off] Rd by (auto split: if_splits)
    moreover have "replay1 (filter (at r' off') es) (M r' off') = Some (M' r' off')" for r' off'
      using Cons.prems [of r' off'] Rd by (auto split: if_splits)
    ultimately show ?thesis using Cons.IH Rd by simp
  next
    case (Wr r off b)
    have "replay1 (filter (at r' off') es) ((M(r := (M r)(off := b))) r' off')
        = Some (M' r' off')" for r' off'
      using Cons.prems [of r' off'] Wr by (auto split: if_splits)
    then have "replay es (M(r := (M r)(off := b))) = Some M'" by (rule Cons.IH)
    then show ?thesis using Wr by simp
  qed
qed

section \<open>Well-formed lists of commit actions\<close>

fun acts_ok :: "caction list \<Rightarrow> bool" where
  "acts_ok [] \<longleftrightarrow> True"
| "acts_ok (CopyByte r off # as) \<longleftrightarrow> BumpVersion r (page_of off) \<in> set as \<and> acts_ok as"
| "acts_ok (BumpVersion r p # as) \<longleftrightarrow> BumpVersion r p \<notin> set as \<and> Unlock Heap \<in> set as \<and>
     Unlock Globals \<in> set as \<and> acts_ok as"
| "acts_ok (UpdatePage r p # as) \<longleftrightarrow> acts_ok as"
| "acts_ok (Unlock r # as) \<longleftrightarrow> Unlock r \<notin> set as \<and> (\<forall>a \<in> set as. \<exists>r. a = Unlock r) \<and> acts_ok as"

lemma acts_ok_copy: "acts_ok as \<Longrightarrow> CopyByte r off \<in> set as \<Longrightarrow> BumpVersion r (page_of off) \<in> set as"
  by (induction as rule: acts_ok.induct) auto

lemma acts_ok_bump: "acts_ok as \<Longrightarrow> BumpVersion r p \<in> set as \<Longrightarrow> Unlock r' \<in> set as"
  by (induction as rule: acts_ok.induct) (cases r', auto)+

lemma acts_ok_unlocks: "acts_ok unlock_actions"
  by (simp add: unlock_actions_def)

lemma acts_ok_updates:
  "acts_ok as \<Longrightarrow> acts_ok (map (UpdatePage r) ps @ as)"
  by (induction ps) auto

lemma acts_ok_page:
  assumes "acts_ok as" and "BumpVersion r p \<notin> set as"
    and "Unlock Heap \<in> set as" and "Unlock Globals \<in> set as"
  shows "acts_ok (commit_page_actions r p @ as)"
proof -
  have "\<forall>off \<in> set offs. page_of off = p \<Longrightarrow> acts_ok (map (CopyByte r) offs @ BumpVersion r p # as)"
    for offs
    using assms by (induction offs) auto
  then show ?thesis by (simp add: commit_page_actions_def page_simps)
qed

lemma bump_in_pages [simp]:
  "BumpVersion r' p \<in> set (concat (map (commit_page_actions r) ps)) \<longleftrightarrow> r' = r \<and> p \<in> set ps"
  by (induction ps) (auto simp: commit_page_actions_def)

lemma bump_in_reg [simp]:
  "BumpVersion r' p \<in> set (commit_reg_actions r ps) \<longleftrightarrow> r' = r \<and> p \<in> set ps"
  by (auto simp: commit_reg_actions_def simp del: set_concat)

lemma acts_ok_reg:
  assumes "distinct ps" and "acts_ok as" and "\<And>p. BumpVersion r p \<notin> set as"
    and "Unlock Heap \<in> set as" and "Unlock Globals \<in> set as"
  shows "acts_ok (commit_reg_actions r ps @ as)"
proof -
  have "acts_ok (concat (map (commit_page_actions r) ps) @ bs)"
    if "acts_ok bs" "\<And>p. BumpVersion r p \<notin> set bs" "Unlock Heap \<in> set bs" "Unlock Globals \<in> set bs"
    for bs
    using assms(1)
  proof (induction ps)
    case Nil
    then show ?case using that by simp
  next
    case (Cons p ps)
    then have "acts_ok (commit_page_actions r p @ concat (map (commit_page_actions r) ps) @ bs)"
      using that by (intro acts_ok_page) (auto simp del: set_concat)
    then show ?case by simp
  qed
  from this [of "map (UpdatePage r) ps @ as"] assms acts_ok_updates show ?thesis
    by (auto simp: commit_reg_actions_def)
qed

lemma acts_ok_commit:
  assumes "\<And>r. distinct (xp_dirtied (xm_reg m r))"
  shows "acts_ok (commit_actions m)"
proof -
  have "acts_ok (commit_reg_actions Globals (xp_dirtied (xm_reg m Globals)) @ unlock_actions)"
    using assms acts_ok_unlocks by (intro acts_ok_reg) (auto simp: unlock_actions_def)
  then show ?thesis
    unfolding commit_actions_def using assms
    by (intro acts_ok_reg) (auto simp: unlock_actions_def)
qed

section \<open>Running the commit actions in one go\<close>

lemma exec_action_map [simp]:
  "exec_action a (sh, m) = (sh', m') \<Longrightarrow> xp_map (xm_reg m' r) = xp_map (xm_reg m r) \<and>
     xp_base (xm_reg m' r) = xp_base (xm_reg m r) \<and> xp_size (xm_reg m' r) = xp_size (xm_reg m r) \<and>
     xp_lver (xm_reg m' r) = xp_lver (xm_reg m r)"
  by (cases a) (auto simp: updatePage_def on_reg_def xp_unlock_def)

definition exec_all :: "caction list \<Rightarrow> shared \<times> xmemory \<Rightarrow> shared \<times> xmemory" where
  "exec_all as st = fold exec_action as st"

lemma exec_all_simps [simp]:
  "exec_all [] st = st" "exec_all (a # as) st = exec_all as (exec_action a st)"
  "exec_all (as @ bs) st = exec_all bs (exec_all as st)"
  by (simp_all add: exec_all_def)

lemma exec_copies:
  "exec_all (map (CopyByte r) offs) (sh, m)
     = (sh(r := fold (copy_byte (xm_reg m r)) offs (sh r)), m)"
  by (induction offs arbitrary: sh) auto

lemma exec_page:
  "exec_all (commit_page_actions r p) (sh, m) = (sh(r := commit_page (xm_reg m r) p (sh r)), m)"
  by (simp add: commit_page_actions_def exec_copies commit_page_def)

lemma exec_pages:
  "exec_all (concat (map (commit_page_actions r) ps)) (sh, m)
     = (sh(r := fold (commit_page (xm_reg m r)) ps (sh r)), m)"
  by (induction ps arbitrary: sh) (auto simp: exec_page)

lemma exec_updates:
  "exec_all (map (UpdatePage r) ps) (sh, m) = (sh, upd_reg r (fold updatePage ps) m)"
  by (induction ps arbitrary: m) (auto simp: upd_reg_def)

lemma exec_reg:
  "exec_all (commit_reg_actions r (xp_dirtied (xm_reg m r))) (sh, m) = on_reg r xp_commit (sh, m)"
  by (simp add: commit_reg_actions_def exec_pages exec_updates on_reg_def xp_commit_def upd_reg_def)

text \<open>
  The interleaved actions of a commit, run without interference, are exactly the commit of
  \<open>tryToCommit\<close>.
\<close>

lemma exec_commit_actions:
  "exec_all (commit_actions m) (sh, m)
     = xm_unlock (on_reg Globals xp_commit (on_reg Heap xp_commit (sh, m)))"
proof -
  obtain sh1 m1 where 1: "on_reg Heap xp_commit (sh, m) = (sh1, m1)" by fastforce
  have d: "xp_dirtied (xm_reg m Globals) = xp_dirtied (xm_reg m1 Globals)"
    using 1 by (auto simp: on_reg_def xp_commit_def)
  obtain sh2 m2 where 2: "on_reg Globals xp_commit (sh1, m1) = (sh2, m2)" by fastforce
  show ?thesis
    by (simp add: commit_actions_def exec_reg 1 d 2 unlock_actions_def xm_unlock_def)
      (cases "on_reg Heap xp_unlock (sh2, m2)", simp)
qed

lemma exec_commit_cells:
  "cells_of (fst (exec_all (commit_actions m) (sh, m)))
     = (\<lambda>r off. if page_of off \<in> set (xp_dirtied (xm_reg m r)) then view sh m r off
                else cells_of sh r off)"
  by (intro ext, case_tac r)
    (auto simp: exec_commit_actions xm_unlock_def on_reg_def xp_unlock_def xp_commit_def
      cells_of_def fold_commit_page_pmem)

section \<open>The invariant\<close>

fun claims :: "phase \<Rightarrow> region \<Rightarrow> bool" where
  "claims LockHeap r \<longleftrightarrow> r = Heap"
| "claims LockBoth r \<longleftrightarrow> True"
| "claims (Committing as) r \<longleftrightarrow> Unlock r \<in> set as"
| "claims (Failing as) r \<longleftrightarrow> Unlock r \<in> set as"
| "claims _ r \<longleftrightarrow> False"

definition lock_inv :: "sys \<Rightarrow> bool" where
  "lock_inv s \<longleftrightarrow>
     (\<forall>i P r. procs s i = Some P \<longrightarrow> claims (phase P) r \<longrightarrow> plock (shm s r) = Some i)"

definition acts_inv :: "sys \<Rightarrow> bool" where
  "acts_inv s \<longleftrightarrow> (\<forall>i P as. procs s i = Some P \<longrightarrow>
     (phase P = Committing as \<longrightarrow> acts_ok as) \<and>
     (phase P = Failing as \<longrightarrow> acts_ok as \<and> (\<forall>a \<in> set as. \<exists>r. a = Unlock r)))"

definition map_inv :: "sys \<Rightarrow> bool" where
  "map_inv s \<longleftrightarrow> (\<forall>i P. procs s i = Some P \<longrightarrow>
     layout_ok (xm P) \<and> (\<forall>r. xp_map (xm_reg (xm P) r) = MAP_PRIVATE))"

text \<open>Page \<open>p\<close> is being committed, by whoever holds the locks.\<close>

fun commits_page :: "phase \<Rightarrow> region \<Rightarrow> nat \<Rightarrow> bool" where
  "commits_page (Committing as) r p \<longleftrightarrow> BumpVersion r p \<in> set as"
| "commits_page _ r p \<longleftrightarrow> False"

definition pending :: "sys \<Rightarrow> region \<Rightarrow> nat \<Rightarrow> bool" where
  "pending s r p \<longleftrightarrow> (\<exists>k P. procs s k = Some P \<and> commits_page (phase P) r p)"

text \<open>The page sets of a transaction agree with the handler's, and its versions are noted.\<close>

definition noted :: "(nat \<Rightarrow> (nat \<Rightarrow> u32) option) \<Rightarrow> nat \<Rightarrow> nat \<Rightarrow> bool" where
  "noted lv p n \<longleftrightarrow> (\<exists>f. lv (p div versions_per_page) = Some f \<and> f p = of_nat n)"

definition sets_ok :: "(region \<Rightarrow> nat \<Rightarrow> nat) \<Rightarrow> proc \<Rightarrow> bool" where
  "sets_ok c P \<longleftrightarrow>
     (\<forall>r. let x = xm_reg (xm P) r in
        set_ok (xp_read x) \<and> set_ok (xp_dirtied x) \<and> set (xp_dirtied x) \<subseteq> set (xp_read x) \<and>
        (\<forall>p. p * PageSize < xp_size x \<longrightarrow>
           (page_addr (xm P) r p \<in> set (xm_pages (xm P)) \<longleftrightarrow> p \<in> set (xp_read x))) \<and>
        (\<forall>p \<in> set (xp_read x). p * PageSize < xp_size x \<and> noted (xp_lver x) p (psnap P r p) \<and>
           psnap P r p \<le> c r p))"

definition view_ok :: "sys \<Rightarrow> proc \<Rightarrow> bool" where
  "view_ok s P \<longleftrightarrow>
     (\<forall>r off. let x = xm_reg (xm P) r; p = page_of off in
        (p \<notin> set (xp_dirtied x) \<longrightarrow> xp_cow x p = None \<and> xp_prot x p \<noteq> PROT_RW) \<and>
        (p \<notin> set (xp_read x) \<longrightarrow>
           xp_prot x p = PROT_NONE \<and> filter (at r off) (plog P) = []) \<and>
        (p \<in> set (xp_read x) \<and> psnap P r p = cnt s r p \<and> \<not> pending s r p \<longrightarrow>
           replay1 (filter (at r off) (plog P)) (pmem (shm s r) off)
             = Some (view (shm s) (xm P) r off)))"

fun active :: "phase \<Rightarrow> bool" where
  "active Running \<longleftrightarrow> True"
| "active LockHeap \<longleftrightarrow> True"
| "active LockBoth \<longleftrightarrow> True"
| "active _ \<longleftrightarrow> False"

definition tx_inv :: "sys \<Rightarrow> bool" where
  "tx_inv s \<longleftrightarrow> (\<forall>i P. procs s i = Some P \<longrightarrow> active (phase P) \<longrightarrow>
     sets_ok (cnt s) P \<and> (tracked P \<longrightarrow> view_ok s P))"

definition ver_inv :: "sys \<Rightarrow> bool" where
  "ver_inv s \<longleftrightarrow> (\<forall>r p. pver (shm s r) p = of_nat (cnt s r p)) \<and>
     (\<forall>i P as r p. procs s i = Some P \<longrightarrow> phase P = Committing as \<longrightarrow>
        BumpVersion r p \<in> set as \<longrightarrow> noted (xp_lver (xm_reg (xm P) r)) p (cnt s r p))"

text \<open>
  Replaying the history gives the shared memory, or, while a commit is going on, what the
  shared memory will be when its remaining actions have run.
\<close>

definition hist_inv :: "cells \<Rightarrow> sys \<Rightarrow> bool" where
  "hist_inv M0 s \<longleftrightarrow>
     ((\<forall>i P as. procs s i = Some P \<longrightarrow> phase P = Committing as \<longrightarrow> Unlock Heap \<notin> set as) \<longrightarrow>
        replay (hist s) M0 = Some (cells_of (shm s))) \<and>
     (\<forall>i P as. procs s i = Some P \<longrightarrow> phase P = Committing as \<longrightarrow> Unlock Heap \<in> set as \<longrightarrow>
        replay (hist s) M0 = Some (cells_of (fst (exec_all as (shm s, xm P)))))"

end
