(* ===== verification/Stm_Safe.thy ===== *)
theory Stm_Safe
  imports Stm_Inv
begin

text \<open>
  Every step of the transactional memory keeps the invariant of \<open>Stm_Inv\<close>; serializability of
  the committed transactions follows.
\<close>

section \<open>Locks, actions and maps\<close>

lemma exec_action_plock:
  "exec_action a (sh, m) = (sh', m') \<Longrightarrow> plock (sh' r) = (if a = Unlock r then None else plock (sh r))"
  by (cases a) (auto simp: on_reg_def xp_unlock_def copy_byte_def bump_version_def)

lemma lock_reg_Some:
  assumes "lock_reg r i (sh, m) = Some (sh', m')"
  shows "plock (sh r) = None" "sh' = sh(r := (sh r)\<lparr>plock := Some i\<rparr>)"
    "m' = upd_reg r (\<lambda>x. x\<lparr>xp_isLocked := True\<rparr>) m"
  using assms by (auto simp: lock_reg_def xp_lock_def upd_reg_def split: option.splits)

lemma store_Some:
  assumes "store sh m r off b = Some (sh', m')" and "xp_map (xm_reg m r) = MAP_PRIVATE"
  shows "sh' = sh" "xp_prot (xm_reg m r) (page_of off) = PROT_RW"
    "m' = upd_reg r (\<lambda>x. x\<lparr>xp_cow := (xp_cow x)(page_of off :=
            Some ((transient_byte (sh r) x)(off := b)))\<rparr>) m"
  using assms by (auto simp: store_def write_byte_def upd_reg_def split: if_splits)

lemma acts_inv_step: "step i s t \<Longrightarrow> acts_inv s \<Longrightarrow> tx_inv s \<Longrightarrow> acts_inv t"
proof (induction rule: step.induct)
  case (s_check_ok s i P)
  have "acts_ok (commit_actions (xm P))"
  proof (rule acts_ok_commit)
    fix r
    show "distinct (xp_dirtied (xm_reg (xm P) r))"
      using s_check_ok by (auto simp: tx_inv_def sets_ok_def Let_def set_ok_def)
  qed
  with s_check_ok show ?case by (auto simp: acts_inv_def)
next
  case (s_commit s i P a as sh' m')
  then have "acts_ok (a # as)" by (auto simp: acts_inv_def)
  then have "acts_ok as" by (cases a) auto
  with s_commit show ?case by (auto simp: acts_inv_def)
next
  case (s_fail s i P a as sh' m')
  then have "acts_ok (a # as)" "\<forall>a \<in> set as. \<exists>r. a = Unlock r" by (fastforce simp: acts_inv_def)+
  then have "acts_ok as" by (cases a) auto
  with s_fail show ?case by (auto simp: acts_inv_def)
qed (auto simp: acts_inv_def acts_ok_unlocks, auto simp: unlock_actions_def)

lemma lock_inv_put:
  assumes "lock_inv s" and "procs s' = procs s"
    and "\<And>r. claims (phase Q) r \<Longrightarrow> plock (shm s' r) = Some i"
    and "\<And>r j. j \<noteq> i \<Longrightarrow> plock (shm s r) = Some j \<Longrightarrow> plock (shm s' r) = Some j"
  shows "lock_inv (put s' i Q)"
  unfolding lock_inv_def
proof (intro allI impI)
  fix k P r
  assume "procs (put s' i Q) k = Some P" and "claims (phase P) r"
  with assms show "plock (shm (put s' i Q) r) = Some k"
    unfolding lock_inv_def by (cases "k = i") auto
qed

lemma lock_inv_same:
  assumes "lock_inv s" and "procs s i = Some P" and "procs s' = procs s"
    and "\<And>r. claims (phase Q) r \<Longrightarrow> claims (phase P) r"
    and "\<And>r. plock (shm s' r) = plock (shm s r)"
  shows "lock_inv (put s' i Q)"
proof (rule lock_inv_put [OF assms(1,3)])
  show "plock (shm s' r) = Some i" if "claims (phase Q) r" for r
    using assms that by (auto simp: lock_inv_def)
qed (simp add: assms)

lemma lock_inv_action:
  assumes "lock_inv s" and "procs s i = Some P" and "procs s' = procs s"
    and "exec_action a (shm s, xm P) = (shm s', m')" and "acts_ok (a # as)"
    and "\<And>r. claims (phase P) r \<longleftrightarrow> Unlock r \<in> set (a # as)"
    and "\<And>r. claims (phase Q) r \<longleftrightarrow> Unlock r \<in> set as"
  shows "lock_inv (put s' i Q)"
proof (rule lock_inv_put [OF assms(1,3)])
  have plk: "plock (shm s' r) = (if a = Unlock r then None else plock (shm s r))" for r
    by (rule exec_action_plock [OF assms(4)])
  have own: "plock (shm s r) = Some i" if "Unlock r \<in> set (a # as)" for r
    using assms(1,2,6) that by (auto simp: lock_inv_def)
  show "plock (shm s' r) = Some i" if "claims (phase Q) r" for r
  proof -
    have "Unlock r \<in> set as" using that assms(7) by simp
    moreover from this assms(5) have "a \<noteq> Unlock r" by auto
    ultimately show ?thesis using own [of r] plk [of r] by simp
  qed
  show "plock (shm s' r) = Some j" if "j \<noteq> i" "plock (shm s r) = Some j" for r j
    using that own [of r] plk [of r] by (cases "a = Unlock r") auto
qed

lemma lock_inv_step:
  assumes "step i s t" and "acts_inv s" and "lock_inv s"
  shows "lock_inv t"
  using assms
proof (induction rule: step.induct)
  case (s_store s i P off r b sh' m')
  from s_store(4) have "plock (sh' q) = plock (shm s q)" for q
    by (auto simp: store_def write_byte_def split: if_splits)
  then show ?case
    by (intro lock_inv_same [OF \<open>lock_inv s\<close> s_store(1)]) (simp_all add: s_store(2))
next
  case (s_lock_heap s i P sh' m')
  note l = lock_reg_Some [OF s_lock_heap(3)]
  show ?case by (rule lock_inv_put [OF \<open>lock_inv s\<close>]) (use l in auto)
next
  case (s_lock_globals s i P sh' m')
  note l = lock_reg_Some [OF s_lock_globals(3)]
  have h: "plock (shm s Heap) = Some i"
    using s_lock_globals by (auto simp: lock_inv_def)
  have "plock (sh' r) = Some i" for r
    using l h by (cases r) auto
  moreover have "j = i" if "plock (shm s r) = Some j" for r j
    using l(1) h that by (cases r) auto
  ultimately show ?case by (intro lock_inv_put [OF \<open>lock_inv s\<close>]) auto
next
  case (s_check_ok s i P)
  have "plock (shm s r) = Some i" for r
    using s_check_ok by (auto simp: lock_inv_def)
  then show ?case by (intro lock_inv_put [OF \<open>lock_inv s\<close>]) auto
next
  case (s_check_fail s i P)
  have "plock (shm s r) = Some i" for r
    using s_check_fail by (auto simp: lock_inv_def)
  then show ?case by (intro lock_inv_put [OF \<open>lock_inv s\<close>]) auto
next
  case (s_commit s i P a as sh' m')
  then have "acts_ok (a # as)" by (auto simp: acts_inv_def)
  then show ?case
    by (intro lock_inv_action [OF \<open>lock_inv s\<close> s_commit(1), where a = a and as = as and m' = m'])
      (simp_all add: s_commit)
next
  case (s_fail s i P a as sh' m')
  then have "acts_ok (a # as)" by (auto simp: acts_inv_def)
  then show ?case
    by (intro lock_inv_action [OF \<open>lock_inv s\<close> s_fail(1), where a = a and as = as and m' = m'])
      (simp_all add: s_fail)
next
  case (s_fork s i P j)
  then show ?case by (intro lock_inv_put [OF \<open>lock_inv s\<close>]) auto
qed (rule lock_inv_same; simp; fail)+

lemma layout_put:
  assumes "layout_ok m" and "\<And>r. xp_base (xm_reg m' r) = xp_base (xm_reg m r)"
    and "\<And>r. xp_size (xm_reg m' r) = xp_size (xm_reg m r)"
  shows "layout_ok m'"
  using assms layout_ok_cong(1) by blast

definition same_map :: "xmemory \<Rightarrow> xmemory \<Rightarrow> bool" where
  "same_map m m' \<longleftrightarrow> (\<forall>r. xp_base (xm_reg m' r) = xp_base (xm_reg m r) \<and>
     xp_size (xm_reg m' r) = xp_size (xm_reg m r) \<and>
     (xp_map (xm_reg m r) = MAP_PRIVATE \<longrightarrow> xp_map (xm_reg m' r) = MAP_PRIVATE))"

lemma same_map_simps:
  "same_map m (xm_begin m)" "same_map m (xm_updateAll m)" "same_map m (xm_abort m)" "same_map m m"
  "exec_action a (sh, m) = (sh', m') \<Longrightarrow> same_map m m'"
  "lock_reg r i (sh, m) = Some (sh', m') \<Longrightarrow> same_map m m'"
  by (auto simp: same_map_def xm_begin_def xp_begin_def xm_updateAll_def updateAll_def
      xm_abort_def xp_abort_def dest: exec_action_map lock_reg_Some(3))

lemma same_map_store:
  "store sh m r off b = Some (sh', m') \<Longrightarrow> xp_map (xm_reg m r) = MAP_PRIVATE \<Longrightarrow> same_map m m'"
  using store_Some by (fastforce simp: same_map_def)

lemma note_simps [simp]:
  "xp_base (note_read sh p x) = xp_base x" "xp_size (note_read sh p x) = xp_size x"
  "xp_map (note_read sh p x) = xp_map x" "xp_cow (note_read sh p x) = xp_cow x"
  "xp_prot (note_read sh p x) = xp_prot x" "xp_dirtied (note_read sh p x) = xp_dirtied x"
  "xp_read (note_read sh p x) = set_insert p (xp_read x)"
  "xp_base (note_write p x) = xp_base x" "xp_size (note_write p x) = xp_size x"
  "xp_map (note_write p x) = xp_map x" "xp_cow (note_write p x) = xp_cow x"
  "xp_prot (note_write p x) = xp_prot x" "xp_dirtied (note_write p x) = set_insert p (xp_dirtied x)"
  "xp_read (note_write p x) = set_insert p (xp_read x)" "xp_lver (note_write p x) = xp_lver x"
  by (simp_all add: note_read_def note_write_def set_localVersion_def Let_def)

lemma addPage_simps [simp]:
  "xm_reg (addPage pg m) = xm_reg m" "xm_pages (addPage pg m) = set_insert pg (xm_pages m)"
  by (simp_all add: addPage_def)

text \<open>The two outcomes of a fault inside a region.\<close>

lemma handle_cases:
  assumes "layout_ok m" and "off < xp_size (xm_reg m r)"
    and "handle SEGV_ACCERR (addr_of m r off) sh m = Resume m'"
  obtains (first) "page_addr m r (page_of off) \<notin> set (xm_pages m)"
      "m' = upd_reg r (\<lambda>x. note_read (sh r) (page_of off) (set_prot (page_of off) PROT_READ x))
              (addPage (page_addr m r (page_of off)) m)"
    | (again) "page_addr m r (page_of off) \<in> set (xm_pages m)"
      "m' = upd_reg r (\<lambda>x. note_write (page_of off) (set_prot (page_of off) PROT_RW x)) m"
  using handle_first [OF assms(1,2), of sh] handle_again [OF assms(1,2), of sh] assms(3)
  by (cases "page_addr m r (page_of off) \<in> set (xm_pages m)") auto

lemma same_map_handle:
  assumes "layout_ok m" and "off < xp_size (xm_reg m r)"
    and "handle SEGV_ACCERR (addr_of m r off) sh m = Resume m'"
  shows "same_map m m'"
  using assms by (cases rule: handle_cases [OF assms]) (auto simp: same_map_def)

lemma map_inv_put:
  assumes "map_inv s" and "procs s i = Some P" and "procs s' = procs s" and "same_map (xm P) (xm Q)"
  shows "map_inv (put s' i Q)"
proof -
  have "layout_ok (xm Q)" "\<forall>r. xp_map (xm_reg (xm Q) r) = MAP_PRIVATE"
    using assms layout_put [of "xm P" "xm Q"] by (auto simp: map_inv_def same_map_def)
  with assms show ?thesis by (auto simp: map_inv_def)
qed

lemma map_inv_step: "step i s t \<Longrightarrow> map_inv s \<Longrightarrow> map_inv t"
proof (induction rule: step.induct)
  case (s_store s i P off r b sh' m')
  then have "same_map (xm P) m'" by (intro same_map_store [OF s_store(4)]) (auto simp: map_inv_def)
  then show ?case by (intro map_inv_put [OF s_store(5,1)]) auto
next
  case (s_fault s i P off r b m')
  then have "same_map (xm P) m'"
    by (intro same_map_handle [OF _ s_fault(3,5)]) (auto simp: map_inv_def)
  then show ?case by (intro map_inv_put [OF s_fault(6,1)]) auto
next
  case (s_fork s i P j)
  then show ?case by (auto simp: map_inv_def)
qed (erule (1) map_inv_put; force intro: same_map_simps)+

section \<open>What a step of another process can do\<close>

definition env :: "sys \<Rightarrow> sys \<Rightarrow> bool" where
  "env s t \<longleftrightarrow> (\<forall>r p. cnt s r p \<le> cnt t r p \<and>
     (\<not> pending t r p \<and> cnt t r p = cnt s r p \<longrightarrow>
        \<not> pending s r p \<and> (\<forall>off. page_of off = p \<longrightarrow> pmem (shm t r) off = pmem (shm s r) off)))"

lemma pending_mono:
  assumes "procs s i = Some P" and "procs s' = procs s" and "pending s r p"
    and "commits_page (phase P) r p \<Longrightarrow> commits_page (phase Q) r p"
  shows "pending (put s' i Q) r p"
proof -
  obtain k P' where k: "procs s k = Some P'" "commits_page (phase P') r p"
    using assms(3) by (auto simp: pending_def)
  show ?thesis
  proof (cases "k = i")
    case True
    with k assms show ?thesis unfolding pending_def by (intro exI [of _ i]) auto
  next
    case False
    with k assms show ?thesis unfolding pending_def by (intro exI [of _ k]) auto
  qed
qed

lemma pending_own: "commits_page (phase Q) r p \<Longrightarrow> pending (put s i Q) r p"
  unfolding pending_def by (intro exI [of _ i]) auto

lemma env_put:
  assumes "procs s i = Some P" and "procs s' = procs s" and "cnt s' = cnt s"
    and "\<And>r. pmem (shm s' r) = pmem (shm s r)"
    and "\<And>r p. commits_page (phase P) r p \<Longrightarrow> commits_page (phase Q) r p"
  shows "env s (put s' i Q)"
proof -
  have "pending s r p \<Longrightarrow> pending (put s' i Q) r p" for r p
    using pending_mono [OF assms(1,2)] assms(5) by blast
  then show ?thesis using assms by (auto simp: env_def)
qed

lemma env_commit:
  assumes "procs s i = Some P" and "phase P = Committing (a # as)" and "acts_ok (a # as)"
    and "exec_action a (shm s, xm P) = (sh', m')"
  shows "env s (put (s\<lparr>shm := sh', cnt := count_action a (cnt s)\<rparr>) i
                    (P\<lparr>xm := m', phase := Committing as\<rparr>))"
    (is "env s ?t")
proof -
  have pend: "pending ?t r p" if "pending s r p" "a \<noteq> BumpVersion r p" for r p
    using that assms(2) by (intro pending_mono [OF assms(1)]) auto
  have own: "pending ?t r p" if "BumpVersion r p \<in> set as" for r p
    using that by (intro pending_own) simp
  show ?thesis
  proof (cases a)
    case (CopyByte r off)
    then have "pending ?t r (page_of off)" using assms(3) by (intro own) simp
    then show ?thesis
      using CopyByte assms(4) pend by (auto simp: env_def copy_byte_pmem)
  next
    case (BumpVersion r p)
    then show ?thesis using assms(4) pend by (auto simp: env_def)
  next
    case (UpdatePage r p)
    then show ?thesis using assms(4) pend by (auto simp: env_def)
  next
    case (Unlock r)
    then show ?thesis using assms(4) pend by (auto simp: env_def on_reg_def xp_unlock_def)
  qed
qed

lemma sets_ok_env: "env s t \<Longrightarrow> sets_ok (cnt s) P \<Longrightarrow> sets_ok (cnt t) P"
  unfolding env_def sets_ok_def Let_def by (meson order_trans)

lemma view_ok_env:
  assumes "env s t" and "sets_ok (cnt s) P" and "view_ok s P"
  shows "view_ok t P"
  unfolding view_ok_def Let_def
proof (intro allI conjI impI; (elim conjE)?)
  fix r off
  let ?x = "xm_reg (xm P) r" and ?p = "page_of off"
  show "xp_cow ?x ?p = None" "xp_prot ?x ?p \<noteq> PROT_RW" if "?p \<notin> set (xp_dirtied ?x)"
    using assms(3) that by (auto simp: view_ok_def Let_def)
  show "xp_prot ?x ?p = PROT_NONE" "filter (at r off) (plog P) = []" if "?p \<notin> set (xp_read ?x)"
    using assms(3) that by (auto simp: view_ok_def Let_def)
  assume rd: "?p \<in> set (xp_read ?x)" and c: "psnap P r ?p = cnt t r ?p" and np: "\<not> pending t r ?p"
  have "psnap P r ?p \<le> cnt s r ?p" "cnt s r ?p \<le> cnt t r ?p"
    using rd assms(1,2) by (auto simp: sets_ok_def env_def Let_def)
  with c have eq: "cnt t r ?p = cnt s r ?p" by simp
  with np assms(1) have "\<not> pending s r ?p" and mem: "pmem (shm t r) off = pmem (shm s r) off"
    by (auto simp: env_def)
  moreover have "view (shm t) (xm P) r off = view (shm s) (xm P) r off"
    using mem by (simp add: transient_byte_def split: option.splits)
  ultimately show "replay1 (filter (at r off) (plog P)) (pmem (shm t r) off)
      = Some (view (shm t) (xm P) r off)"
    using assms(3) rd c eq by (auto simp: view_ok_def Let_def)
qed

lemma tx_inv_put:
  assumes "tx_inv s" and "procs s' = procs s" and "env s (put s' i Q)"
    and "active (phase Q) \<Longrightarrow> sets_ok (cnt s) Q"
    and "active (phase Q) \<Longrightarrow> tracked Q \<Longrightarrow> view_ok s Q"
  shows "tx_inv (put s' i Q)"
proof -
  have "sets_ok (cnt (put s' i Q)) P' \<and> (tracked P' \<longrightarrow> view_ok (put s' i Q) P')"
    if P': "procs (put s' i Q) k = Some P'" and act: "active (phase P')" for k P'
  proof -
    have "sets_ok (cnt s) P' \<and> (tracked P' \<longrightarrow> view_ok s P')"
      using assms P' act by (cases "k = i") (auto simp: tx_inv_def)
    then show ?thesis using sets_ok_env [OF assms(3)] view_ok_env [OF assms(3)] by blast
  qed
  then show ?thesis unfolding tx_inv_def by blast
qed

section \<open>The process that moves\<close>

lemma sets_ok_begin: "sets_ok c (P\<lparr>xm := xm_begin m, phase := ph, plog := l, tracked := t\<rparr>)"
proof -
  have "xp_read (xm_reg (xm_begin m) r) = []" "xp_dirtied (xm_reg (xm_begin m) r) = []"
    "xm_pages (xm_begin m) = []" for r
    by (cases r; simp add: xm_begin_def xp_begin_def upd_reg_def)+
  then show ?thesis by (simp add: sets_ok_def)
qed

lemma view_ok_begin:
  assumes "all_clean m"
  shows "view_ok s (P\<lparr>xm := xm_begin m, phase := ph, plog := [], tracked := t\<rparr>)"
proof -
  have "xp_read (xm_reg (xm_begin m) r) = []" "xp_dirtied (xm_reg (xm_begin m) r) = []"
    "xp_prot (xm_reg (xm_begin m) r) = xp_prot (xm_reg m r)"
    "xp_cow (xm_reg (xm_begin m) r) = xp_cow (xm_reg m r)" for r
    by (cases r; simp add: xm_begin_def xp_begin_def upd_reg_def)+
  moreover have "xp_prot (xm_reg m r) p = PROT_NONE" "xp_cow (xm_reg m r) p = None" for r p
    using assms by (cases r; auto simp: all_clean_def clean_def)+
  ultimately show ?thesis by (simp add: view_ok_def Let_def)
qed

lemma view_ok_load:
  assumes "view_ok s P" and "load (shm s) (xm P) r off = Some b"
  shows "view_ok s (P\<lparr>plog := plog P @ [Rd r off b]\<rparr>)"
proof -
  have b: "view (shm s) (xm P) r off = b" "xp_prot (xm_reg (xm P) r) (page_of off) \<noteq> PROT_NONE"
    using assms(2) by (auto simp: load_def read_byte_def split: if_splits)
  then show ?thesis
    using assms(1) unfolding view_ok_def Let_def
    by (auto simp: replay1_append)
qed

lemma sets_ok_cong:
  assumes "\<And>r. xp_read (xm_reg (xm Q) r) = xp_read (xm_reg (xm P) r)"
    and "\<And>r. xp_dirtied (xm_reg (xm Q) r) = xp_dirtied (xm_reg (xm P) r)"
    and "\<And>r. xp_size (xm_reg (xm Q) r) = xp_size (xm_reg (xm P) r)"
    and "\<And>r. xp_base (xm_reg (xm Q) r) = xp_base (xm_reg (xm P) r)"
    and "\<And>r. xp_lver (xm_reg (xm Q) r) = xp_lver (xm_reg (xm P) r)"
    and "xm_pages (xm Q) = xm_pages (xm P)" and "psnap Q = psnap P"
  shows "sets_ok c Q \<longleftrightarrow> sets_ok c P"
  by (simp add: sets_ok_def Let_def assms page_addr_def addr_of_def)

lemma view_ok_cong:
  assumes "\<And>r. xp_read (xm_reg (xm Q) r) = xp_read (xm_reg (xm P) r)"
    and "\<And>r. xp_dirtied (xm_reg (xm Q) r) = xp_dirtied (xm_reg (xm P) r)"
    and "\<And>r. xp_prot (xm_reg (xm Q) r) = xp_prot (xm_reg (xm P) r)"
    and "\<And>r. xp_cow (xm_reg (xm Q) r) = xp_cow (xm_reg (xm P) r)"
    and "plog Q = plog P" and "psnap Q = psnap P"
  shows "view_ok s Q \<longleftrightarrow> view_ok s P"
  by (simp add: view_ok_def Let_def assms transient_byte_def)

lemma view_ok_store:
  assumes "view_ok s P" and "sets_ok (cnt s) P"
    and "xp_prot (xm_reg (xm P) r) (page_of off) = PROT_RW"
  shows "view_ok s (P\<lparr>xm := upd_reg r (\<lambda>x. x\<lparr>xp_cow := (xp_cow x)(page_of off :=
            Some ((transient_byte (shm s r) x)(off := b)))\<rparr>) (xm P),
          plog := plog P @ [Wr r off b]\<rparr>)" (is "view_ok s ?Q")
proof -
  have v: "view (shm s) (xm ?Q) r' off' =
      (if r' = r \<and> off' = off then b else view (shm s) (xm P) r' off')" for r' off'
    by (auto simp: transient_byte_def split: option.splits)
  have d: "page_of off \<in> set (xp_dirtied (xm_reg (xm P) r))"
    using assms(1,3) by (auto simp: view_ok_def Let_def)
  then have rd: "page_of off \<in> set (xp_read (xm_reg (xm P) r))"
    using assms(2) by (auto simp: sets_ok_def Let_def)
  show ?thesis
    unfolding view_ok_def Let_def
  proof (intro allI conjI impI; (elim conjE)?)
    fix r' off'
    let ?x = "xm_reg (xm P) r'" and ?x' = "xm_reg (xm ?Q) r'" and ?p = "page_of off'"
    note old = assms(1) [unfolded view_ok_def Let_def, THEN spec [of _ r'],
        THEN spec [of _ off']]
    show "xp_cow ?x' ?p = None" "xp_prot ?x' ?p \<noteq> PROT_RW" if "?p \<notin> set (xp_dirtied ?x')"
      using old that d by (auto split: if_splits)
    show "xp_prot ?x' ?p = PROT_NONE" "filter (at r' off') (plog ?Q) = []"
      if "?p \<notin> set (xp_read ?x')"
      using old that rd by (auto split: if_splits)
    assume "?p \<in> set (xp_read ?x')" "psnap ?Q r' ?p = cnt s r' ?p" "\<not> pending s r' ?p"
    then have "replay1 (filter (at r' off') (plog P)) (pmem (shm s r') off')
        = Some (view (shm s) (xm P) r' off')"
      using old by (auto split: if_splits)
    then show "replay1 (filter (at r' off') (plog ?Q)) (pmem (shm s r') off')
        = Some (view (shm s) (xm ?Q) r' off')"
      unfolding v by (auto simp: replay1_append)
  qed
qed

lemma noted_same: "v = of_nat n \<Longrightarrow> noted (xp_lver (set_localVersion sh x p v)) p n"
  by (simp add: noted_def set_localVersion_def)

lemma noted_other:
  "noted (xp_lver x) q n \<Longrightarrow> q \<noteq> p \<Longrightarrow> noted (xp_lver (set_localVersion sh x p v)) q n"
  by (auto simp: noted_def set_localVersion_def local_versions_def)

lemma lver_note_read: "xp_lver (note_read sh p x) = xp_lver (set_localVersion sh x p (pver sh p))"
  by (simp add: note_read_def Let_def)

lemma set_localVersion_prot:
  "xp_lver (set_localVersion sh (set_prot q pr x) p v) = xp_lver (set_localVersion sh x p v)"
  by (simp add: set_localVersion_def local_versions_def)

lemma sets_okD:
  assumes "sets_ok c P"
  shows "set_ok (xp_read (xm_reg (xm P) r))" "set_ok (xp_dirtied (xm_reg (xm P) r))"
    "set (xp_dirtied (xm_reg (xm P) r)) \<subseteq> set (xp_read (xm_reg (xm P) r))"
    "p * PageSize < xp_size (xm_reg (xm P) r) \<Longrightarrow>
       page_addr (xm P) r p \<in> set (xm_pages (xm P)) \<longleftrightarrow> p \<in> set (xp_read (xm_reg (xm P) r))"
    "p \<in> set (xp_read (xm_reg (xm P) r)) \<Longrightarrow> p * PageSize < xp_size (xm_reg (xm P) r)"
    "p \<in> set (xp_read (xm_reg (xm P) r)) \<Longrightarrow> noted (xp_lver (xm_reg (xm P) r)) p (psnap P r p)"
    "p \<in> set (xp_read (xm_reg (xm P) r)) \<Longrightarrow> psnap P r p \<le> c r p"
  using assms by (auto simp: sets_ok_def Let_def)

lemma sets_ok_first:
  assumes "sets_ok (cnt s) P" and "layout_ok (xm P)" and "p * PageSize < xp_size (xm_reg (xm P) r)"
    and "page_addr (xm P) r p \<notin> set (xm_pages (xm P))" and "pver (shm s r) p = of_nat (cnt s r p)"
  shows "sets_ok (cnt s) (P\<lparr>xm := upd_reg r (\<lambda>x. note_read (shm s r) p (set_prot p PROT_READ x))
             (addPage (page_addr (xm P) r p) (xm P)),
           psnap := (psnap P)(r := (psnap P r)(p := cnt s r p))\<rparr>)" (is "sets_ok _ ?Q")
proof -
  note D = sets_okD [OF assms(1)]
  have pa: "page_addr (xm ?Q) r' q = page_addr (xm P) r' q" for r' q
    by (rule layout_ok_cong(3)) auto
  have new: "p \<notin> set (xp_read (xm_reg (xm P) r))"
    using D(4) assms(3,4) by blast
  have inj: "page_addr (xm P) r' q = page_addr (xm P) r p \<longleftrightarrow> r' = r \<and> q = p"
    if "q * PageSize < xp_size (xm_reg (xm P) r')" for r' q
    using page_addr_inj [OF assms(2) that assms(3)] by auto
  show ?thesis
    unfolding sets_ok_def Let_def pa
    using D new inj assms(3,5)
    by (auto simp: lver_note_read set_localVersion_prot noted_same noted_other
        intro: noted_other split: if_splits)
qed

lemma view_ok_first:
  assumes "sets_ok (cnt s) P" and "view_ok s P" and "p \<notin> set (xp_read (xm_reg (xm P) r))"
  shows "view_ok s (P\<lparr>xm := upd_reg r (\<lambda>x. note_read (shm s r) p (set_prot p PROT_READ x))
             (addPage pg (xm P)),
           psnap := (psnap P)(r := (psnap P r)(p := cnt s r p))\<rparr>)" (is "view_ok s ?Q")
proof -
  have nd: "p \<notin> set (xp_dirtied (xm_reg (xm P) r))"
    using sets_okD(3) [OF assms(1)] assms(3) by blast
  have v: "view (shm s) (xm ?Q) r' off' = view (shm s) (xm P) r' off'" for r' off'
    by (simp add: transient_byte_def)
  have "view (shm s) (xm P) r off' = pmem (shm s r) off'" if "page_of off' = p" for off'
    using assms(2) nd that by (auto simp: view_ok_def Let_def transient_byte_def)
  then show ?thesis
    using assms(2,3) nd unfolding view_ok_def Let_def v by (auto split: if_splits)
qed

lemma sets_ok_again:
  assumes "sets_ok c P" and "layout_ok (xm P)" and "p \<in> set (xp_read (xm_reg (xm P) r))"
  shows "sets_ok c (P\<lparr>xm := upd_reg r (\<lambda>x. note_write p (set_prot p PROT_RW x)) (xm P)\<rparr>)"
    (is "sets_ok _ ?Q")
proof -
  note D = sets_okD [OF assms(1)]
  have pa: "page_addr (xm ?Q) r' q = page_addr (xm P) r' q" for r' q
    by (rule layout_ok_cong(3)) auto
  show ?thesis
    unfolding sets_ok_def Let_def pa using D assms(3) by (auto split: if_splits)
qed

lemma view_ok_again:
  assumes "view_ok s P" and "p \<in> set (xp_read (xm_reg (xm P) r))"
  shows "view_ok s (P\<lparr>xm := upd_reg r (\<lambda>x. note_write p (set_prot p PROT_RW x)) (xm P)\<rparr>)"
    (is "view_ok s ?Q")
proof -
  have v: "view (shm s) (xm ?Q) r' off' = view (shm s) (xm P) r' off'" for r' off'
    by (simp add: transient_byte_def)
  show ?thesis using assms unfolding view_ok_def Let_def v by (auto split: if_splits)
qed

lemma tx_inv_step:
  assumes "step i s t" and "acts_inv s" and "map_inv s" and "ver_inv s" and "tx_inv s"
  shows "tx_inv t"
  using assms
proof (induction rule: step.induct)
  case (s_begin s i P)
  then show ?case
    by (intro tx_inv_put [OF \<open>tx_inv s\<close>] env_put [OF s_begin(1)] sets_ok_begin view_ok_begin) auto
next
  case (s_load s i P off r b)
  then have "sets_ok (cnt s) P" "tracked P \<Longrightarrow> view_ok s P" by (auto simp: tx_inv_def)
  then show ?case using s_load(2,4)
    by (intro tx_inv_put [OF \<open>tx_inv s\<close>] env_put [OF s_load(1)] view_ok_load)
      (auto simp: sets_ok_def)
next
  case (s_store s i P off r b sh' m')
  then have ok: "sets_ok (cnt s) P" "tracked P \<Longrightarrow> view_ok s P" by (auto simp: tx_inv_def)
  have "xp_map (xm_reg (xm P) r) = MAP_PRIVATE" using s_store by (auto simp: map_inv_def)
  note st = store_Some [OF s_store(4) this]
  have "sets_ok (cnt s) (P\<lparr>xm := m', plog := plog P @ [Wr r off b]\<rparr>)"
    using ok(1) by (subst sets_ok_cong [of _ P]) (auto simp: st)
  moreover have "view_ok s (P\<lparr>xm := m', plog := plog P @ [Wr r off b]\<rparr>)" if "tracked P"
    unfolding st by (rule view_ok_store [OF ok(2) [OF that] ok(1) st(2)])
  ultimately show ?case using s_store(2)
    by (intro tx_inv_put [OF \<open>tx_inv s\<close>] env_put [OF s_store(1)]) (auto simp: st(1))
next
  case (s_fault s i P off r b m')
  then have ok: "sets_ok (cnt s) P" "tracked P \<Longrightarrow> view_ok s P" by (auto simp: tx_inv_def)
  have lay: "layout_ok (xm P)" using s_fault by (auto simp: map_inv_def)
  have sz: "page_of off * PageSize < xp_size (xm_reg (xm P) r)" by (rule page_in_size [OF s_fault(3)])
  let ?Q = "P\<lparr>xm := m', psnap := (if page_addr (xm P) r (page_of off) \<in> set (xm_pages (xm P))
      then psnap P else (psnap P)(r := (psnap P r)(page_of off := cnt s r (page_of off))))\<rparr>"
  have "sets_ok (cnt s) ?Q \<and> (tracked P \<longrightarrow> view_ok s ?Q)"
    using lay s_fault(3,5)
  proof (cases rule: handle_cases)
    case first
    then have "page_of off \<notin> set (xp_read (xm_reg (xm P) r))"
      using sets_okD(4) [OF ok(1) sz] by blast
    moreover have "pver (shm s r) (page_of off) = of_nat (cnt s r (page_of off))"
      using s_fault(8) by (simp add: ver_inv_def)
    ultimately show ?thesis
      using first sets_ok_first [OF ok(1) lay sz] view_ok_first [OF ok(1) ok(2)] by simp
  next
    case again
    then have rd: "page_of off \<in> set (xp_read (xm_reg (xm P) r))"
      using sets_okD(4) [OF ok(1) sz] by blast
    have "?Q = P\<lparr>xm := m'\<rparr>" using again(1) by simp
    then show ?thesis
      using again(2) sets_ok_again [OF ok(1) lay rd] view_ok_again [OF ok(2) rd] by simp
  qed
  then show ?case using s_fault(2)
    by (intro tx_inv_put [OF \<open>tx_inv s\<close>] env_put [OF s_fault(1)]) auto
next
  case (s_lock_heap s i P sh' m')
  note l = lock_reg_Some [OF s_lock_heap(3)]
  have ok: "sets_ok (cnt s) P" "tracked P \<Longrightarrow> view_ok s P" using s_lock_heap by (auto simp: tx_inv_def)
  have "sets_ok (cnt s) (P\<lparr>xm := m', phase := LockHeap\<rparr>)"
    using ok(1) by (subst sets_ok_cong [of _ P]) (auto simp: l)
  moreover have "view_ok s (P\<lparr>xm := m', phase := LockHeap\<rparr>)" if "tracked P"
    using ok(2) [OF that] by (subst view_ok_cong [of _ P]) (auto simp: l)
  ultimately show ?case using s_lock_heap(2) l
    by (intro tx_inv_put [OF \<open>tx_inv s\<close>] env_put [OF s_lock_heap(1)]) auto
next
  case (s_lock_globals s i P sh' m')
  note l = lock_reg_Some [OF s_lock_globals(3)]
  have ok: "sets_ok (cnt s) P" "tracked P \<Longrightarrow> view_ok s P" using s_lock_globals by (auto simp: tx_inv_def)
  have "sets_ok (cnt s) (P\<lparr>xm := m', phase := LockBoth\<rparr>)"
    using ok(1) by (subst sets_ok_cong [of _ P]) (auto simp: l)
  moreover have "view_ok s (P\<lparr>xm := m', phase := LockBoth\<rparr>)" if "tracked P"
    using ok(2) [OF that] by (subst view_ok_cong [of _ P]) (auto simp: l)
  ultimately show ?case using s_lock_globals(2) l
    by (intro tx_inv_put [OF \<open>tx_inv s\<close>] env_put [OF s_lock_globals(1)]) auto
next
  case (s_commit s i P a as sh' m')
  then have "acts_ok (a # as)" by (auto simp: acts_inv_def)
  then show ?case
    by (intro tx_inv_put [OF \<open>tx_inv s\<close>] env_commit [OF s_commit(1,2) _ s_commit(3)]) auto
next
  case (s_fail s i P a as sh' m')
  then obtain r where "a = Unlock r" by (fastforce simp: acts_inv_def)
  then show ?case using s_fail(2,3)
    by (intro tx_inv_put [OF \<open>tx_inv s\<close>] env_put [OF s_fail(1)])
      (auto simp: on_reg_def xp_unlock_def)
next
  case (s_fork s i P j)
  have "env s (put s j P)"
    using s_fork(2,3) by (auto simp: env_def pending_def split: if_splits) (metis option.simps(3))
  then show ?case using s_fork(2) by (intro tx_inv_put [OF \<open>tx_inv s\<close>]) auto
qed ((rule tx_inv_put, assumption, simp, erule env_put); simp)+

section \<open>Versions\<close>

lemma noted_localVersion: "noted (xp_lver x) p n \<Longrightarrow> localVersion sh x p = of_nat n"
  by (auto simp: noted_def localVersion_def local_versions_def)

lemma committer_unique:
  assumes "lock_inv s" and "procs s i = Some P" and "procs s k = Some K"
    and "claims (phase P) r" and "claims (phase K) r"
  shows "k = i"
  using assms unfolding lock_inv_def by (metis option.inject)

lemma ver_inv_put:
  assumes "ver_inv s" and "procs s' = procs s" and "cnt s' = cnt s"
    and "\<And>r. pver (shm s' r) = pver (shm s r)"
    and "\<And>r p. commits_page (phase Q) r p \<Longrightarrow> noted (xp_lver (xm_reg (xm Q) r)) p (cnt s r p)"
  shows "ver_inv (put s' i Q)"
  using assms unfolding ver_inv_def by (auto split: if_splits)

lemma ver_inv_commit:
  assumes "ver_inv s" and "lock_inv s" and "acts_inv s" and "procs s i = Some P"
    and "phase P = Committing (a # as)" and "exec_action a (shm s, xm P) = (sh', m')"
  shows "ver_inv (put (s\<lparr>shm := sh', cnt := count_action a (cnt s)\<rparr>) i
                      (P\<lparr>xm := m', phase := Committing as\<rparr>))" (is "ver_inv ?t")
proof -
  have ok: "acts_ok (a # as)" using assms(3-5) by (auto simp: acts_inv_def)
  have lv: "xp_lver (xm_reg m' r) = xp_lver (xm_reg (xm P) r)" for r
    using exec_action_map [OF assms(6)] by blast
  have own: "noted (xp_lver (xm_reg (xm P) r)) p (cnt s r p)" if "BumpVersion r p \<in> set (a # as)" for r p
    using assms(1,4,5) that by (auto simp: ver_inv_def)
  have ver: "pver (shm s r) p = of_nat (cnt s r p)" for r p
    using assms(1) by (simp add: ver_inv_def)
  have lh: "Unlock Heap \<in> set as" if "a = BumpVersion r p" for r p
    using ok that by simp
  have others: "noted (xp_lver (xm_reg (xm K) r)) p (count_action a (cnt s) r p)"
    if "procs s k = Some K" "phase K = Committing bs" "BumpVersion r p \<in> set bs" "k \<noteq> i" for k K bs r p
  proof -
    have "acts_ok bs" using assms(3) that by (auto simp: acts_inv_def)
    then have "claims (phase K) Heap" using that acts_ok_bump by auto
    then have "\<not> claims (phase P) Heap"
      using committer_unique [OF assms(2,4) that(1)] that(4) by blast
    then have "count_action a (cnt s) = cnt s" using assms(5) lh by (cases a) auto
    then show ?thesis using assms(1) that by (auto simp: ver_inv_def)
  qed
  have mine: "noted (xp_lver (xm_reg m' r)) p (count_action a (cnt s) r p)"
    if "BumpVersion r p \<in> set as" for r p
    using that own [of r p] ok lv by (cases a) auto
  have "pver (sh' r) p = of_nat (count_action a (cnt s) r p)" for r p
  proof (cases a)
    case (BumpVersion r' p')
    then have "localVersion (shm s r') (xm_reg (xm P) r') p' = of_nat (cnt s r' p')"
      using own [of r' p'] by (intro noted_localVersion) simp
    with BumpVersion assms(6) ver show ?thesis by (auto simp: bump_version_pver)
  qed (use assms(6) ver in \<open>auto simp: on_reg_def xp_unlock_def\<close>)
  then show ?thesis
    using others mine unfolding ver_inv_def by (auto split: if_splits)
qed

lemma ver_inv_step:
  assumes "step i s t" and "acts_inv s" and "lock_inv s" and "map_inv s" and "tx_inv s" and "ver_inv s"
  shows "ver_inv t"
  using assms
proof (induction rule: step.induct)
  case (s_store s i P off r b sh' m')
  have "xp_map (xm_reg (xm P) r) = MAP_PRIVATE" using s_store by (auto simp: map_inv_def)
  note st = store_Some [OF s_store(4) this]
  show ?case using s_store(2) by (intro ver_inv_put [OF \<open>ver_inv s\<close>]) (auto simp: st(1))
next
  case (s_lock_heap s i P sh' m')
  note l = lock_reg_Some [OF s_lock_heap(3)]
  show ?case by (intro ver_inv_put [OF \<open>ver_inv s\<close>]) (auto simp: l)
next
  case (s_lock_globals s i P sh' m')
  note l = lock_reg_Some [OF s_lock_globals(3)]
  show ?case by (intro ver_inv_put [OF \<open>ver_inv s\<close>]) (auto simp: l)
next
  case (s_check_ok s i P)
  have ok: "sets_ok (cnt s) P" using s_check_ok by (auto simp: tx_inv_def)
  have "noted (xp_lver (xm_reg (xm P) r)) p (cnt s r p)"
    if "p \<in> set (xp_dirtied (xm_reg (xm P) r))" for r p
  proof -
    have rd: "p \<in> set (xp_read (xm_reg (xm P) r))" using sets_okD(3) [OF ok] that by blast
    note n = sets_okD(6) [OF ok rd]
    have "pver (shm s r) p = localVersion (shm s r) (xm_reg (xm P) r) p"
      using s_check_ok(3) rd by (cases r) (auto simp: xm_consistent_def consistent_iff)
    then have "(of_nat (psnap P r p) :: u32) = of_nat (cnt s r p)"
      using s_check_ok.prems noted_localVersion [OF n] by (simp add: ver_inv_def)
    with n show ?thesis by (auto simp: noted_def)
  qed
  then show ?case
    by (intro ver_inv_put [OF \<open>ver_inv s\<close>]) (auto simp: commit_actions_def unlock_actions_def)
next
  case (s_commit s i P a as sh' m')
  then show ?case by (intro ver_inv_commit) auto
next
  case (s_fail s i P a as sh' m')
  then obtain r where "a = Unlock r" by (fastforce simp: acts_inv_def)
  then show ?case using s_fail(3)
    by (intro ver_inv_put [OF \<open>ver_inv s\<close>]) (auto simp: on_reg_def xp_unlock_def)
qed (erule ver_inv_put; auto)+

section \<open>The history explains the memory\<close>

definition same_mem :: "shared \<Rightarrow> shared \<Rightarrow> bool" where
  "same_mem sh sh' \<longleftrightarrow> (\<forall>r. pmem (sh r) = pmem (sh' r))"

lemma same_mem_cells: "same_mem sh sh' \<Longrightarrow> cells_of sh = cells_of sh'"
  by (simp add: same_mem_def cells_of_def)

lemma exec_action_same_mem:
  assumes "same_mem sh sh'" and "exec_action a (sh, m) = (sh1, m1)"
  obtains sh1' where "exec_action a (sh', m) = (sh1', m1)" and "same_mem sh1 sh1'"
proof (cases a)
  case (CopyByte r off)
  then show ?thesis using assms that
    by (auto simp: same_mem_def copy_byte_pmem transient_byte_def split: option.splits)
qed (use assms that in \<open>auto simp: same_mem_def on_reg_def xp_unlock_def\<close>)

lemma exec_all_same_mem:
  "same_mem sh sh' \<Longrightarrow> cells_of (fst (exec_all as (sh, m))) = cells_of (fst (exec_all as (sh', m)))"
proof (induction as arbitrary: sh sh' m)
  case Nil
  then show ?case by (simp add: same_mem_cells)
next
  case (Cons a as)
  obtain sh1 m1 where e: "exec_action a (sh, m) = (sh1, m1)" by fastforce
  from exec_action_same_mem [OF Cons.prems e] obtain sh1' where
    "exec_action a (sh', m) = (sh1', m1)" "same_mem sh1 sh1'" .
  with e Cons.IH show ?case by simp
qed

lemma exec_all_unlocks:
  "\<forall>a \<in> set as. \<exists>r. a = Unlock r \<Longrightarrow> cells_of (fst (exec_all as (sh, m))) = cells_of sh"
proof (induction as arbitrary: sh m)
  case Nil
  then show ?case by simp
next
  case (Cons a as)
  then obtain r where "a = Unlock r" by auto
  moreover obtain sh1 m1 where e: "exec_action a (sh, m) = (sh1, m1)" by fastforce
  ultimately have "same_mem sh1 sh"
    by (auto simp: on_reg_def xp_unlock_def same_mem_def)
  with e Cons show ?case by (simp add: same_mem_cells)
qed

fun writing :: "phase \<Rightarrow> bool" where
  "writing (Committing as) \<longleftrightarrow> Unlock Heap \<in> set as"
| "writing _ \<longleftrightarrow> False"

lemma hist_inv_alt:
  "hist_inv M0 s \<longleftrightarrow>
     ((\<forall>i P. procs s i = Some P \<longrightarrow> \<not> writing (phase P)) \<longrightarrow>
        replay (hist s) M0 = Some (cells_of (shm s))) \<and>
     (\<forall>i P as. procs s i = Some P \<longrightarrow> phase P = Committing as \<longrightarrow> Unlock Heap \<in> set as \<longrightarrow>
        replay (hist s) M0 = Some (cells_of (fst (exec_all as (shm s, xm P)))))"
  unfolding hist_inv_def by (metis writing.elims(2) writing.simps(1))

lemma hist_inv_put:
  assumes "hist_inv M0 s" and "procs s i = Some P" and "procs s' = procs s" and "hist s' = hist s"
    and "same_mem (shm s) (shm s')" and "\<not> writing (phase P)" and "\<not> writing (phase Q)"
  shows "hist_inv M0 (put s' i Q)"
  unfolding hist_inv_alt
proof (intro conjI allI impI)
  assume nw: "\<forall>k K. procs (put s' i Q) k = Some K \<longrightarrow> \<not> writing (phase K)"
  have "\<not> writing (phase K)" if "procs s k = Some K" for k K
  proof (cases "k = i")
    case True
    then show ?thesis using that assms(2,6) by simp
  next
    case False
    then have "procs (put s' i Q) k = Some K" using that assms(3) by simp
    then show ?thesis using nw by blast
  qed
  then show "replay (hist (put s' i Q)) M0 = Some (cells_of (shm (put s' i Q)))"
    using assms(1,4) same_mem_cells [OF assms(5)] by (auto simp: hist_inv_alt)
next
  fix k K as
  assume "procs (put s' i Q) k = Some K" "phase K = Committing as" "Unlock Heap \<in> set as"
  moreover from this have "k \<noteq> i" using assms(7) by auto
  ultimately have "replay (hist s) M0 = Some (cells_of (fst (exec_all as (shm s, xm K))))"
    using assms(1,3) by (auto simp: hist_inv_alt)
  then show "replay (hist (put s' i Q)) M0
      = Some (cells_of (fst (exec_all as (shm (put s' i Q), xm K))))"
    using exec_all_same_mem [OF assms(5)] assms(4) by simp
qed

text \<open>
  A consistency check that succeeds makes the log of the transaction a valid run from the
  shared memory to what the commit will write.
\<close>

lemma check_ok_replay:
  assumes "sets_ok (cnt s) P" and "view_ok s P" and "xm_consistent (shm s) (xm P)"
    and "ver_inv s" and "\<And>r p. cnt s r p < 2 ^ 32" and "\<And>r p. \<not> pending s r p"
  shows "replay (plog P) (cells_of (shm s))
     = Some (cells_of (fst (exec_all (commit_actions (xm P)) (shm s, xm P))))"
proof (rule replay_pointwise)
  fix r off
  let ?x = "xm_reg (xm P) r" and ?p = "page_of off"
  note V = assms(2) [unfolded view_ok_def Let_def, THEN spec [of _ r], THEN spec [of _ off]]
  show "replay1 (filter (at r off) (plog P)) (cells_of (shm s) r off)
      = Some (cells_of (fst (exec_all (commit_actions (xm P)) (shm s, xm P))) r off)"
  proof (cases "?p \<in> set (xp_read ?x)")
    case True
    note n = sets_okD(6) [OF assms(1) True]
    have "pver (shm s r) ?p = localVersion (shm s r) ?x ?p"
      using assms(3) True by (cases r) (auto simp: xm_consistent_def consistent_iff)
    then have "(of_nat (psnap P r ?p) :: u32) = of_nat (cnt s r ?p)"
      using noted_localVersion [OF n] assms(4) by (simp add: ver_inv_def)
    moreover have "psnap P r ?p \<le> cnt s r ?p" by (rule sets_okD(7) [OF assms(1) True])
    ultimately have "psnap P r ?p = cnt s r ?p"
      using assms(5) [of r ?p] by (intro of_nat32_inj) auto
    then have "replay1 (filter (at r off) (plog P)) (pmem (shm s r) off)
        = Some (view (shm s) (xm P) r off)"
      using V True assms(6) by auto
    then show ?thesis
      unfolding exec_commit_cells using V by (auto simp: cells_of_def transient_byte_def)
  next
    case False
    moreover have "?p \<notin> set (xp_dirtied ?x)" using sets_okD(3) [OF assms(1)] False by blast
    ultimately show ?thesis unfolding exec_commit_cells using V by (auto simp: cells_of_def)
  qed
qed

lemma not_writing_others:
  assumes "lock_inv s" and "procs s i = Some P" and "claims (phase P) Heap"
    and "procs s k = Some K" and "k \<noteq> i"
  shows "\<not> writing (phase K)"
proof
  assume "writing (phase K)"
  then have "claims (phase K) Heap" by (cases "phase K") auto
  then show False using committer_unique [OF assms(1,2,4,3)] assms(5) by blast
qed

lemma not_pending_locked:
  assumes "lock_inv s" and "acts_inv s" and "procs s i = Some P" and "claims (phase P) Heap"
    and "\<And>r p. \<not> commits_page (phase P) r p"
  shows "\<not> pending s r p"
proof
  assume "pending s r p"
  then obtain k K as where k: "procs s k = Some K" "phase K = Committing as" "BumpVersion r p \<in> set as"
    unfolding pending_def by (metis commits_page.elims(2))
  with assms(5) have "k \<noteq> i"  using assms(3) by fastforce
  moreover have "writing (phase K)" using k assms(2) acts_ok_bump by (auto simp: acts_inv_def)
  ultimately show False using not_writing_others [OF assms(1,3,4) k(1)] by blast
qed

lemma hist_inv_check:
  assumes "hist_inv M0 s" and "lock_inv s" and "acts_inv s" and "tx_inv s" and "ver_inv s"
    and "procs s i = Some P" and "phase P = LockBoth" and "xm_consistent (shm s) (xm P)"
    and "tracked P" and "\<And>r p. cnt s r p < 2 ^ 32"
  shows "hist_inv M0 (put (s\<lparr>hist := hist s @ plog P, hist_tracked := h\<rparr>) i
                          (P\<lparr>phase := Committing (commit_actions (xm P))\<rparr>))"
proof -
  have cl: "claims (phase P) Heap" by (simp add: assms(7))
  have nw: "\<not> writing (phase K)" if "procs s k = Some K" for k K
    using that not_writing_others [OF assms(2,6) cl that] assms(6,7) by (cases "k = i") auto
  have np: "\<not> pending s r p" for r p
    by (rule not_pending_locked [OF assms(2,3,6) cl]) (simp add: assms(7))
  have ok: "sets_ok (cnt s) P" "view_ok s P" using assms by (auto simp: tx_inv_def)
  have "replay (hist s) M0 = Some (cells_of (shm s))"
    using assms(1) nw by (auto simp: hist_inv_alt)
  with check_ok_replay [OF ok assms(8,5,10) np]
  have r: "replay (hist s @ plog P) M0
      = Some (cells_of (fst (exec_all (commit_actions (xm P)) (shm s, xm P))))"
    by (simp add: replay_append)
  have "Unlock Heap \<in> set (commit_actions (xm P))"
    by (simp add: commit_actions_def unlock_actions_def)
  moreover have "Unlock Heap \<notin> set as" if "procs s k = Some K" "phase K = Committing as" for k K as
    using nw [OF that(1)] that(2) by simp
  ultimately show ?thesis
    using r unfolding hist_inv_def by auto
qed

lemma hist_inv_commit:
  assumes "hist_inv M0 s" and "lock_inv s" and "acts_inv s" and "procs s i = Some P"
    and "phase P = Committing (a # as)" and "exec_action a (shm s, xm P) = (sh', m')"
  shows "hist_inv M0 (put (s\<lparr>shm := sh', cnt := c\<rparr>) i (P\<lparr>xm := m', phase := Committing as\<rparr>))"
proof (cases "Unlock Heap \<in> set (a # as)")
  case True
  have ok: "acts_ok (a # as)" using assms(3-5) by (auto simp: acts_inv_def)
  have cl: "claims (phase P) Heap" using True assms(5) by simp
  have r: "replay (hist s) M0 = Some (cells_of (fst (exec_all as (sh', m'))))"
    using assms(1,4,5,6) True unfolding hist_inv_def by fastforce
  have "cells_of (fst (exec_all as (sh', m'))) = cells_of sh'" if "Unlock Heap \<notin> set as"
    using that True ok by (intro exec_all_unlocks) (cases a; auto)
  moreover have "Unlock Heap \<notin> set bs" if "procs s k = Some K" "phase K = Committing bs" "k \<noteq> i" for k K bs
    using not_writing_others [OF assms(2,4) cl that(1,3)] that(2) by simp
  ultimately show ?thesis using r unfolding hist_inv_def by auto
next
  case False
  have ok: "acts_ok (a # as)" using assms(3-5) by (auto simp: acts_inv_def)
  have "a \<noteq> CopyByte r off" for r off
    using False ok acts_ok_bump [of as r "page_of off" Heap] by auto
  moreover have "a \<noteq> BumpVersion r p" for r p using False ok by auto
  ultimately have "same_mem (shm s) sh'"
    using assms(6) by (cases a) (auto simp: same_mem_def on_reg_def xp_unlock_def)
  with False assms(5) show ?thesis
    by (intro hist_inv_put [OF assms(1,4)]) auto
qed

lemma hist_inv_step:
  assumes "step i s t" and "acts_inv s" and "lock_inv s" and "map_inv s" and "tx_inv s" and "ver_inv s"
    and "hist_tracked s \<longrightarrow> hist_inv M0 s" and "\<And>r p. cnt s r p < 2 ^ 32"
  shows "hist_tracked t \<longrightarrow> hist_inv M0 t"
  using assms
proof (induction rule: step.induct)
  case (s_store s i P off r b sh' m')
  have "xp_map (xm_reg (xm P) r) = MAP_PRIVATE" using s_store by (auto simp: map_inv_def)
  note st = store_Some [OF s_store(4) this]
  show ?case using s_store(2,10)
    by (intro impI hist_inv_put [OF _ s_store(1)]) (auto simp: st(1) same_mem_def)
next
  case (s_lock_heap s i P sh' m')
  have "same_mem (shm s) sh'" by (simp add: lock_reg_Some(2) [OF s_lock_heap(3)] same_mem_def)
  then show ?case using s_lock_heap(2,9) by (intro impI hist_inv_put [OF _ s_lock_heap(1)]) auto
next
  case (s_lock_globals s i P sh' m')
  have "same_mem (shm s) sh'" by (simp add: lock_reg_Some(2) [OF s_lock_globals(3)] same_mem_def)
  then show ?case using s_lock_globals(2,9) by (intro impI hist_inv_put [OF _ s_lock_globals(1)]) auto
next
  case (s_check_ok s i P)
  then show ?case by (intro impI hist_inv_check) auto
next
  case (s_commit s i P a as sh' m')
  then show ?case by (intro impI hist_inv_commit) auto
next
  case (s_fail s i P a as sh' m')
  then obtain r where "a = Unlock r" by (fastforce simp: acts_inv_def)
  then have "same_mem (shm s) sh'"
    using s_fail(3) by (auto simp: same_mem_def on_reg_def xp_unlock_def)
  then show ?case using s_fail(2,9) by (intro impI hist_inv_put [OF _ s_fail(1)]) auto
next
  case (s_fork s i P j)
  have "hist_inv M0 (put s j P)" if "hist_inv M0 s"
    using that s_fork(2,3) unfolding hist_inv_def by (auto split: if_splits) (metis option.simps(3))
  then show ?case using s_fork by auto
qed ((intro impI, erule hist_inv_put [rotated]; simp add: same_mem_def))+

end
