(* ===== verification/Stm_Thms.thy ===== *)
theory Stm_Thms
  imports Stm_Safe
begin

text \<open>
  The theorems about the transactional memory: the invariant in every reachable state,
  serializability, and how the interleaved protocol relates to \<open>tryToCommit\<close> run alone.
\<close>

section \<open>Every reachable state\<close>

definition stm_inv :: "sys \<Rightarrow> bool" where
  "stm_inv s \<longleftrightarrow> acts_inv s \<and> lock_inv s \<and> map_inv s \<and> tx_inv s \<and> ver_inv s"

definition quiescent :: "sys \<Rightarrow> bool" where
  "quiescent s \<longleftrightarrow> (\<forall>i P as. procs s i = Some P \<longrightarrow> phase P = Committing as \<longrightarrow> Unlock Heap \<notin> set as)"

lemma stm_inv_init: "init_ok s \<Longrightarrow> stm_inv s"
  by (fastforce simp: stm_inv_def init_ok_def acts_inv_def lock_inv_def map_inv_def tx_inv_def ver_inv_def)

lemma stm_inv_step: "step i s t \<Longrightarrow> stm_inv s \<Longrightarrow> stm_inv t"
  unfolding stm_inv_def
  using acts_inv_step lock_inv_step map_inv_step tx_inv_step ver_inv_step by blast

lemma stm_inv_reach: "reach s0 s \<Longrightarrow> init_ok s0 \<Longrightarrow> stm_inv s"
  by (induction rule: reach.induct) (auto intro: stm_inv_init stm_inv_step)

lemma cnt_step: "step i s t \<Longrightarrow> cnt s r p \<le> cnt t r p"
proof (induction rule: step.induct)
  case (s_commit s i P a as sh' m')
  then show ?case by (cases a) auto
qed auto

lemma hist_tracked_step: "step i s t \<Longrightarrow> hist_tracked t \<Longrightarrow> hist_tracked s"
  by (induction rule: step.induct) auto

lemma hist_inv_init: "init_ok s \<Longrightarrow> hist_inv (cells_of (shm s)) s"
  by (fastforce simp: hist_inv_def init_ok_def)

lemma hist_inv_reach:
  assumes "reach s0 s" and "init_ok s0" and "hist_tracked s" and "\<forall>r p. cnt s r p < 2 ^ 32"
  shows "hist_inv (cells_of (shm s0)) s"
  using assms
proof (induction rule: reach.induct)
  case reach_0
  then show ?case by (simp add: hist_inv_init)
next
  case (reach_S s i t)
  have "cnt s r p < 2 ^ 32" for r p
    using cnt_step [OF reach_S(2), of r p] reach_S.prems(3) le_less_trans by blast
  then have "hist_tracked s \<longrightarrow> hist_inv (cells_of (shm s0)) s"
    using reach_S by blast
  moreover have "stm_inv s" using reach_S(1,4) by (rule stm_inv_reach)
  ultimately show ?case
    using hist_inv_step [OF reach_S(2)] reach_S.prems \<open>\<And>r p. cnt s r p < 2 ^ 32\<close>
    unfolding stm_inv_def by blast
qed

section \<open>Running the commit protocol without interference\<close>

lemma reach_actions:
  "reach s0 s \<Longrightarrow> procs s i = Some P \<Longrightarrow> phase P = Committing as \<Longrightarrow>
   exec_all as (shm s, xm P) = (sh', m') \<Longrightarrow>
   reach s0 (put (s\<lparr>shm := sh', cnt := fold count_action as (cnt s)\<rparr>) i
                 (P\<lparr>xm := m', phase := Committing []\<rparr>))"
proof (induction as arbitrary: s P)
  case Nil
  have "put (s\<lparr>shm := sh', cnt := cnt s\<rparr>) i (P\<lparr>xm := m', phase := Committing []\<rparr>) = s"
    using Nil by (cases s; cases P) (auto simp: fun_upd_idem)
  with Nil(1) show ?case by (simp del: fun_upd_apply)
next
  case (Cons a as)
  obtain sh1 m1 where e: "exec_action a (shm s, xm P) = (sh1, m1)" by fastforce
  let ?t = "put (s\<lparr>shm := sh1, cnt := count_action a (cnt s)\<rparr>) i (P\<lparr>xm := m1, phase := Committing as\<rparr>)"
  have "step i s ?t" using Cons.prems(2,3) e by (rule s_commit)
  with Cons.prems(1) have "reach s0 ?t" by (rule reach_S)
  moreover have "exec_all as (shm ?t, xm (P\<lparr>xm := m1, phase := Committing as\<rparr>)) = (sh', m')"
    using Cons.prems(4) e by simp
  ultimately have "reach s0 (put (?t\<lparr>shm := sh', cnt := fold count_action as (cnt ?t)\<rparr>) i
      ((P\<lparr>xm := m1, phase := Committing as\<rparr>)\<lparr>xm := m', phase := Committing []\<rparr>))"
    by (intro Cons.IH) auto
  then show ?case by (simp del: fun_upd_apply)
qed

text \<open>
  A running transaction whose \<open>tryToCommit\<close> succeeds can take the steps of the protocol one
  after the other, and ends where \<open>tryToCommit\<close> ends.
\<close>

lemma reach_tryToCommit:
  assumes "reach s0 s" and "procs s i = Some P" and "phase P = Running"
    and "tryToCommit i (shm s, xm P) = Some ((sh', m'), True)"
  shows "reach s0 (put (s\<lparr>hist := hist s @ plog P, hist_tracked := (hist_tracked s \<and> tracked P),
                       shm := sh', cnt := fold count_action (commit_actions (xm P)) (cnt s)\<rparr>) i
                   (P\<lparr>xm := m', phase := Between\<rparr>))"
proof -
  from assms(4) obtain sh1 m1 sh2 m2 where
    l1: "lock_reg Heap i (shm s, xm P) = Some (sh1, m1)" and
    l2: "lock_reg Globals i (sh1, m1) = Some (sh2, m2)" and
    c: "xm_consistent sh2 m2" and
    e: "xm_unlock (on_reg Globals xp_commit (on_reg Heap xp_commit (sh2, m2))) = (sh', m')"
    by (auto simp: tryToCommit_def xm_lock_def split: if_splits bind_splits)
  let ?s1 = "put (s\<lparr>shm := sh1\<rparr>) i (P\<lparr>xm := m1, phase := LockHeap\<rparr>)"
  let ?P2 = "P\<lparr>xm := m2, phase := LockBoth\<rparr>"
  let ?s2 = "put (?s1\<lparr>shm := sh2\<rparr>) i ?P2"
  let ?P3 = "?P2\<lparr>phase := Committing (commit_actions m2)\<rparr>"
  let ?s3 = "put (?s2\<lparr>hist := hist s @ plog P, hist_tracked := (hist_tracked s \<and> tracked P)\<rparr>) i ?P3"
  have "reach s0 ?s1" using assms(1) s_lock_heap [OF assms(2,3) l1] by (rule reach_S)
  moreover have "step i ?s1 ?s2"
    using s_lock_globals [of ?s1 i "P\<lparr>xm := m1, phase := LockHeap\<rparr>" sh2 m2] l2 by simp
  ultimately have "reach s0 ?s2" by (rule reach_S)
  moreover have "step i ?s2 ?s3" using s_check_ok [of ?s2 i ?P2] c by simp
  ultimately have r3: "reach s0 ?s3" by (rule reach_S)
  have "exec_all (commit_actions m2) (sh2, m2) = (sh', m')"
    using e by (simp add: exec_commit_actions)
  then have r4: "reach s0 (put (?s3\<lparr>shm := sh', cnt := fold count_action (commit_actions m2) (cnt ?s3)\<rparr>)
      i (?P3\<lparr>xm := m', phase := Committing []\<rparr>))" (is "reach s0 ?s4")
    by (intro reach_actions [OF r3]) auto
  have "step i ?s4 (put ?s4 i (?P3\<lparr>xm := m', phase := Between\<rparr>))"
    using s_committed [of ?s4 i "?P3\<lparr>xm := m', phase := Committing []\<rparr>"] by simp
  with r4 have "reach s0 (put ?s4 i (?P3\<lparr>xm := m', phase := Between\<rparr>))" by (rule reach_S)
  moreover have "commit_actions m2 = commit_actions (xm P)"
    using lock_reg_Some(3) [OF l1] lock_reg_Some(3) [OF l2] by (simp add: commit_actions_def)
  ultimately show ?thesis by simp
qed

lemma fold_count_copies:
  "fold count_action (map (CopyByte r) offs) c = c"
  by (induction offs) auto

lemma fold_count_updates:
  "fold count_action (map (UpdatePage r) ps) c = c"
  by (induction ps) auto

lemma fold_count_page:
  "fold count_action (commit_page_actions r p) c = c(r := (c r)(p := Suc (c r p)))"
  by (simp add: commit_page_actions_def fold_count_copies)

section \<open>\<open>tryToCommit\<close> as one operation\<close>

lemma xm_lock_free:
  assumes "\<And>r. plock (sh r) = None"
  shows "xm_lock i (sh, m) = Some (\<lambda>r. (sh r)\<lparr>plock := Some i\<rparr>,
     m\<lparr>xm_reg := \<lambda>r. (xm_reg m r)\<lparr>xp_isLocked := True\<rparr>\<rparr>)"
proof -
  have f: "f(Heap := a, Globals := b) = (\<lambda>r. case r of Heap \<Rightarrow> a | Globals \<Rightarrow> b)" for f :: "region \<Rightarrow> 'a" and a b
    by (rule ext, case_tac r) auto
  show ?thesis
    using assms by (simp add: xm_lock_def lock_reg_def xp_lock_def upd_reg_def f)
      (auto simp: fun_eq_iff split: region.split)
qed

lemma unlock_commit:
  "xm_unlock (on_reg Globals xp_commit (on_reg Heap xp_commit (sh, m))) =
     (\<lambda>r. (fold (commit_page (xm_reg m r)) (xp_dirtied (xm_reg m r)) (sh r))\<lparr>plock := None\<rparr>,
      m\<lparr>xm_reg := \<lambda>r. (fold updatePage (xp_dirtied (xm_reg m r)) (xm_reg m r))\<lparr>xp_isLocked := False\<rparr>\<rparr>)"
proof -
  have "((f r)\<lparr>plock := None\<rparr>) = (f(Heap := (f Heap)\<lparr>plock := None\<rparr>,
      Globals := (f Globals)\<lparr>plock := None\<rparr>)) r" for f :: shared and r
    by (cases r) auto
  show ?thesis
    by (simp add: xm_unlock_def on_reg_def xp_unlock_def xp_commit_def upd_reg_def)
      (auto simp: fun_eq_iff all_conj_distrib region_all)
qed

lemma unlock_only:
  "xm_unlock (sh, m) = (\<lambda>r. (sh r)\<lparr>plock := None\<rparr>,
     m\<lparr>xm_reg := \<lambda>r. (xm_reg m r)\<lparr>xp_isLocked := False\<rparr>\<rparr>)"
  by (simp add: xm_unlock_def on_reg_def xp_unlock_def upd_reg_def)
    (auto simp: fun_eq_iff region_all)

lemma isLocked_irrelevant:
  "transient_byte (sh\<lparr>plock := l\<rparr>) (x\<lparr>xp_isLocked := b\<rparr>) = transient_byte sh x"
  "localVersion (sh\<lparr>plock := l\<rparr>) (x\<lparr>xp_isLocked := b\<rparr>) = localVersion sh x"
  by (auto simp: fun_eq_iff transient_byte_def localVersion_def local_versions_def split: option.splits)

lemma updatePage_isLocked:
  "updatePage p (x\<lparr>xp_isLocked := b\<rparr>) = (updatePage p x)\<lparr>xp_isLocked := b\<rparr>"
  by (cases x) (simp add: updatePage_def)

lemma fold_updatePage_isLocked:
  "fold updatePage ps (x\<lparr>xp_isLocked := b\<rparr>) = (fold updatePage ps x)\<lparr>xp_isLocked := b\<rparr>"
  by (induction ps arbitrary: x) (auto simp: updatePage_isLocked)

lemma isLocked_xm_consistent:
  "xm_consistent (\<lambda>r. (sh r)\<lparr>plock := l\<rparr>) (m\<lparr>xm_reg := \<lambda>r. (xm_reg m r)\<lparr>xp_isLocked := b\<rparr>\<rparr>)
     = xm_consistent sh m"
  by (simp add: xm_consistent_def consistent_iff isLocked_irrelevant)

lemma tryToCommit_free:
  assumes "\<And>r. plock (sh r) = None"
  shows "tryToCommit i (sh, m) = Some (
     if xm_consistent sh m then
       ((\<lambda>r. (fold (commit_page ((xm_reg m r)\<lparr>xp_isLocked := True\<rparr>)) (xp_dirtied (xm_reg m r))
                ((sh r)\<lparr>plock := Some i\<rparr>))\<lparr>plock := None\<rparr>,
        m\<lparr>xm_reg := \<lambda>r. (fold updatePage (xp_dirtied (xm_reg m r)) (xm_reg m r))\<lparr>xp_isLocked := False\<rparr>\<rparr>),
        True)
     else ((\<lambda>r. (sh r)\<lparr>plock := None\<rparr>, m\<lparr>xm_reg := \<lambda>r. (xm_reg m r)\<lparr>xp_isLocked := False\<rparr>\<rparr>), False))"
  by (simp add: tryToCommit_def xm_lock_free [of sh, OF assms] unlock_commit unlock_only
      isLocked_xm_consistent fold_updatePage_isLocked)

definition committed_mem :: "shared \<Rightarrow> xmemory \<Rightarrow> region \<Rightarrow> nat \<Rightarrow> byte" where
  "committed_mem sh m r off =
     (if page_of off \<in> set (xp_dirtied (xm_reg m r)) then view sh m r off else pmem (sh r) off)"

lemma tryToCommit_success:
  assumes "\<And>r. plock (sh r) = None" and "xm_consistent sh m"
    and "\<And>r. distinct (xp_dirtied (xm_reg m r))"
    and "\<And>r. set (xp_dirtied (xm_reg m r)) \<subseteq> set (xp_read (xm_reg m r))"
  obtains sh' m' where "tryToCommit i (sh, m) = Some ((sh', m'), True)"
    and "\<And>r. plock (sh' r) = None"
    and "\<And>r off. pmem (sh' r) off = committed_mem sh m r off"
    and "\<And>r p. pver (sh' r) p =
           pver (sh r) p + (if p \<in> set (xp_dirtied (xm_reg m r)) then 1 else 0)"
    and "m' = m\<lparr>xm_reg := \<lambda>r. (fold updatePage (xp_dirtied (xm_reg m r)) (xm_reg m r))
           \<lparr>xp_isLocked := False\<rparr>\<rparr>"
proof -
  have v: "pver (sh r) p = localVersion (sh r) (xm_reg m r) p"
    if "p \<in> set (xp_dirtied (xm_reg m r))" for r p
    using assms(2,4) that by (cases r) (auto simp: xm_consistent_def consistent_iff)
  show ?thesis
    by (rule that, simp add: tryToCommit_free [of sh, OF assms(1)] assms(2))
      (auto simp: fold_commit_page_pmem fold_commit_page_pver [OF assms(3)] committed_mem_def
        isLocked_irrelevant v)
qed

section \<open>A concrete system\<close>

definition w_region :: "u32 \<Rightarrow> xpersist" where
  "w_region base = updateAll (snd (xpersist_new base 8192 None))"

definition w_mem :: xmemory where
  "w_mem = \<lparr>xm_reg = (\<lambda>r. case r of Heap \<Rightarrow> w_region 0x10000000 | Globals \<Rightarrow> w_region 0x20000000),
            xm_pages = []\<rparr>"

definition w_proc :: proc where
  "w_proc = \<lparr>xm = w_mem, phase = Between, plog = [], psnap = (\<lambda>_ _. 0), tracked = False\<rparr>"

definition w_sys :: sys where
  "w_sys = \<lparr>shm = (\<lambda>_. fst (xpersist_new 0 8192 None)), procs = [0 \<mapsto> w_proc, 1 \<mapsto> w_proc],
            cnt = (\<lambda>_ _. 0), hist = [], hist_tracked = True\<rparr>"

lemma w_layout: "layout_ok w_mem"
  by (simp add: layout_ok_def region_all w_mem_def w_region_def updateAll_def PageSize_def)

lemma w_init: "init_ok w_sys"
  using w_layout
  by (auto simp: init_ok_def w_sys_def w_proc_def all_clean_def region_all
      w_mem_def w_region_def split: if_splits) (auto simp: updateAll_def)

text \<open>The steps of a first access, without the details of the page sets.\<close>

lemma reach_fault_first:
  assumes "reach s0 s" and "procs s i = Some P" and "phase P = Running" and "layout_ok (xm P)"
    and "off < xp_size (xm_reg (xm P) r)" and "xp_prot (xm_reg (xm P) r) (page_of off) = PROT_NONE"
    and "page_addr (xm P) r (page_of off) \<notin> set (xm_pages (xm P))"
  shows "reach s0 (put s i (P\<lparr>xm := upd_reg r
      (\<lambda>x. note_read (shm s r) (page_of off) (set_prot (page_of off) PROT_READ x))
      (addPage (page_addr (xm P) r (page_of off)) (xm P)),
    psnap := (psnap P)(r := (psnap P r)(page_of off := cnt s r (page_of off)))\<rparr>))"
  using s_fault [OF assms(2,3,5) _ handle_first [OF assms(4,5,7)]] assms
  by (intro reach_S [OF assms(1), of i]) (simp add: load_def read_byte_def)

lemma reach_fault_again:
  assumes "reach s0 s" and "procs s i = Some P" and "phase P = Running" and "layout_ok (xm P)"
    and "off < xp_size (xm_reg (xm P) r)" and "xp_prot (xm_reg (xm P) r) (page_of off) \<noteq> PROT_RW"
    and "page_addr (xm P) r (page_of off) \<in> set (xm_pages (xm P))"
  shows "reach s0 (put s i (P\<lparr>xm := upd_reg r
      (\<lambda>x. note_write (page_of off) (set_prot (page_of off) PROT_RW x)) (xm P)\<rparr>))"
proof -
  have "store (shm s) (xm P) r off 0 = None" using assms(6) by (simp add: store_def write_byte_def)
  then have "step i s (put s i (P\<lparr>xm := upd_reg r
      (\<lambda>x. note_write (page_of off) (set_prot (page_of off) PROT_RW x)) (xm P), psnap := psnap P\<rparr>))"
    using s_fault [OF assms(2,3,5) _ handle_again [OF assms(4,5,7)], of 0] assms(7) by simp
  then show ?thesis using assms(1) by (simp add: reach_S)
qed

text \<open>A transaction that stores one byte to a page it has not seen, up to its commit.\<close>

definition store_tx :: "shared \<Rightarrow> region \<Rightarrow> nat \<Rightarrow> byte \<Rightarrow> xmemory \<Rightarrow> xmemory" where
  "store_tx sh r off b m =
     (let p = page_of off;
          m1 = upd_reg r (\<lambda>x. note_read (sh r) p (set_prot p PROT_READ x)) (addPage (page_addr m r p) m);
          m2 = upd_reg r (\<lambda>x. note_write p (set_prot p PROT_RW x)) m1
      in upd_reg r (\<lambda>x. x\<lparr>xp_cow := (xp_cow x)(p := Some ((transient_byte (sh r) x)(off := b)))\<rparr>) m2)"

lemma reach_store_tx:
  assumes "reach s0 s" and "procs s i = Some P" and "phase P = Running" and "layout_ok (xm P)"
    and "off < xp_size (xm_reg (xm P) r)" and "xp_prot (xm_reg (xm P) r) (page_of off) = PROT_NONE"
    and "page_addr (xm P) r (page_of off) \<notin> set (xm_pages (xm P))"
    and "xp_map (xm_reg (xm P) r) = MAP_PRIVATE"
  shows "reach s0 (put s i (P\<lparr>xm := store_tx (shm s) r off b (xm P), plog := plog P @ [Wr r off b],
    psnap := (psnap P)(r := (psnap P r)(page_of off := cnt s r (page_of off)))\<rparr>))"
proof -
  let ?p = "page_of off"
  let ?m1 = "upd_reg r (\<lambda>x. note_read (shm s r) ?p (set_prot ?p PROT_READ x))
      (addPage (page_addr (xm P) r ?p) (xm P))"
  let ?m2 = "upd_reg r (\<lambda>x. note_write ?p (set_prot ?p PROT_RW x)) ?m1"
  let ?P1 = "P\<lparr>xm := ?m1, psnap := (psnap P)(r := (psnap P r)(?p := cnt s r ?p))\<rparr>"
  let ?s1 = "put s i ?P1"
  let ?P2 = "?P1\<lparr>xm := ?m2\<rparr>"
  have lay: "layout_ok ?m1 = layout_ok (xm P)" "page_addr ?m1 r ?p = page_addr (xm P) r ?p"
    by (rule layout_ok_cong; simp)+
  have r1: "reach s0 ?s1" by (rule reach_fault_first [OF assms(1-7)])
  have r2: "reach s0 (put ?s1 i (?P1\<lparr>xm := upd_reg r (\<lambda>x. note_write ?p (set_prot ?p PROT_RW x)) (xm ?P1)\<rparr>))"
    by (rule reach_fault_again [OF r1]) (use assms lay in simp_all)
  have "store (shm s) ?m2 r off b = Some (shm s, store_tx (shm s) r off b (xm P))"
    using assms(8) by (simp add: store_def write_byte_def store_tx_def Let_def upd_reg_def)
  then have "step i (put s i ?P2)
      (put ((put s i ?P2)\<lparr>shm := shm s\<rparr>) i (?P2\<lparr>xm := store_tx (shm s) r off b (xm P),
        plog := plog ?P2 @ [Wr r off b]\<rparr>))"
    using assms(3,5) by (intro s_store) auto
  moreover have "(put ((put s i ?P2)\<lparr>shm := shm s\<rparr>) i (?P2\<lparr>xm := store_tx (shm s) r off b (xm P),
        plog := plog ?P2 @ [Wr r off b]\<rparr>))
     = put s i (P\<lparr>xm := store_tx (shm s) r off b (xm P), plog := plog P @ [Wr r off b],
          psnap := (psnap P)(r := (psnap P r)(?p := cnt s r ?p))\<rparr>)"
    by (cases P) simp
  ultimately show ?thesis using r2 reach_S [of s0 "put s i ?P2"] by (simp del: fun_upd_apply)
qed


lemma w_mem_simps [simp]:
  "xp_size (xm_reg w_mem r) = 8192" "xp_map (xm_reg w_mem r) = MAP_PRIVATE"
  "xp_prot (xm_reg w_mem r) p = PROT_NONE" "xp_cow (xm_reg w_mem r) p = None"
  "xp_read (xm_reg w_mem r) = []" "xp_dirtied (xm_reg w_mem r) = []" "xm_pages w_mem = []"
  by (cases r; simp add: w_mem_def w_region_def updateAll_def)+

lemma xm_begin_simps [simp]:
  "xp_size (xm_reg (xm_begin m) r) = xp_size (xm_reg m r)"
  "xp_base (xm_reg (xm_begin m) r) = xp_base (xm_reg m r)"
  "xp_map (xm_reg (xm_begin m) r) = xp_map (xm_reg m r)"
  "xp_prot (xm_reg (xm_begin m) r) = xp_prot (xm_reg m r)"
  "xp_cow (xm_reg (xm_begin m) r) = xp_cow (xm_reg m r)"
  "xp_lver (xm_reg (xm_begin m) r) = xp_lver (xm_reg m r)"
  "xp_read (xm_reg (xm_begin m) r) = []" "xp_dirtied (xm_reg (xm_begin m) r) = []"
  "xm_pages (xm_begin m) = []"
  by (cases r; simp add: xm_begin_def xp_begin_def upd_reg_def)+

lemma layout_begin [simp]: "layout_ok (xm_begin m) = layout_ok m"
  "page_addr (xm_begin m) r p = page_addr m r p"
  by (rule layout_ok_cong; simp)+


lemma store_tx_simps:
  "xp_read (xm_reg (store_tx sh r off b m) r') =
     (if r' = r then set_insert (page_of off) (xp_read (xm_reg m r)) else xp_read (xm_reg m r'))"
  "xp_dirtied (xm_reg (store_tx sh r off b m) r') =
     (if r' = r then set_insert (page_of off) (xp_dirtied (xm_reg m r)) else xp_dirtied (xm_reg m r'))"
  "xp_lver (xm_reg (store_tx sh r off b m) r') =
     (if r' = r then xp_lver (set_localVersion (sh r) (xm_reg m r) (page_of off) (pver (sh r) (page_of off)))
      else xp_lver (xm_reg m r'))"
  by (simp_all add: store_tx_def Let_def set_insert_def insort_insert_triv lver_note_read
      set_localVersion_prot set_insort_insert)

lemma store_tx_view:
  assumes "xp_cow (xm_reg m r) (page_of off) = None"
  shows "view sh (store_tx sh r off b m) r' off' =
     (if r' = r \<and> off' = off then b else view sh m r' off')"
  using assms by (auto simp: store_tx_def Let_def transient_byte_def split: option.splits)

lemma run_store_tx:
  assumes "reach s0 s" and "procs s i = Some P" and "phase P = Running" and "layout_ok (xm P)"
    and "off < xp_size (xm_reg (xm P) r)" and "xp_prot (xm_reg (xm P) r) (page_of off) = PROT_NONE"
    and "page_addr (xm P) r (page_of off) \<notin> set (xm_pages (xm P))"
    and "xp_map (xm_reg (xm P) r) = MAP_PRIVATE"
    and "\<And>r p. xp_cow (xm_reg (xm P) r) p = None"
    and "\<And>r. xp_dirtied (xm_reg (xm P) r) = []" and "\<And>r. xp_read (xm_reg (xm P) r) = []"
    and "\<And>r. plock (shm s r) = None"
  obtains t Q where "reach s0 t" and "procs t = (procs s)(i \<mapsto> Q)" and "phase Q = Between"
    and "hist t = hist s @ plog P @ [Wr r off b]" and "hist_tracked t = (hist_tracked s \<and> tracked P)"
    and "\<And>r. plock (shm t r) = None"
    and "cnt t = (cnt s)(r := (cnt s r)(page_of off := Suc (cnt s r (page_of off))))"
    and "cells_of (shm t) = (cells_of (shm s))(r := (cells_of (shm s) r)(off := b))"
proof -
  let ?m = "store_tx (shm s) r off b (xm P)"
  let ?Q = "P\<lparr>xm := ?m, plog := plog P @ [Wr r off b],
      psnap := (psnap P)(r := (psnap P r)(page_of off := cnt s r (page_of off)))\<rparr>"
  let ?s = "put s i ?Q"
  have r: "reach s0 ?s" by (rule reach_store_tx [OF assms(1-8)])
  have d: "xp_dirtied (xm_reg ?m q) = (if q = r then [page_of off] else [])"
    "xp_read (xm_reg ?m q) = (if q = r then [page_of off] else [])" for q
    by (simp_all add: store_tx_simps assms(10,11) set_insert_def insort_insert_key_def)
  have "localVersion (shm s r) (xm_reg ?m r) (page_of off) = pver (shm s r) (page_of off)"
    using localVersion_set [of "shm s r" "shm s r" "xm_reg (xm P) r" "page_of off" "pver (shm s r) (page_of off)"]
    by (simp add: localVersion_def local_versions_def store_tx_simps)
  then have "\<forall>p \<in> set (xp_read (xm_reg ?m q)). pver (shm s q) p = localVersion (shm s q) (xm_reg ?m q) p" for q
    by (auto simp: d split: if_splits)
  then have c: "xm_consistent (shm s) ?m"
    by (simp add: xm_consistent_def consistent_iff del: ball_simps)
  obtain sh' m' where tc: "tryToCommit i (shm s, ?m) = Some ((sh', m'), True)"
    and free: "\<And>r. plock (sh' r) = None"
    and mem: "\<And>r off. pmem (sh' r) off = committed_mem (shm s) ?m r off"
    by (rule tryToCommit_success [of "shm s" ?m i]) (auto simp: assms(12) c d)
  have acts: "fold count_action (commit_actions ?m) (cnt s)
      = (cnt s)(r := (cnt s r)(page_of off := Suc (cnt s r (page_of off))))"
    unfolding commit_actions_def d(1) [of Heap] d(1) [of Globals]
    by (cases r) (simp_all add: commit_reg_actions_def fold_count_page unlock_actions_def)
  have cells: "cells_of sh' = (cells_of (shm s))(r := (cells_of (shm s) r)(off := b))"
    using assms(9)
    by (auto simp: fun_eq_iff cells_of_def mem committed_mem_def d store_tx_view)
      (auto simp: transient_byte_def)
  let ?t = "put (?s\<lparr>hist := hist ?s @ plog ?Q, hist_tracked := (hist_tracked ?s \<and> tracked ?Q),
       shm := sh', cnt := fold count_action (commit_actions (xm ?Q)) (cnt ?s)\<rparr>) i
     (?Q\<lparr>xm := m', phase := Between\<rparr>)"
  have "reach s0 ?t"
    using tc by (intro reach_tryToCommit [OF r]) (auto simp: assms(3))
  then show ?thesis
    by (rule that [where Q = "?Q\<lparr>xm := m', phase := Between\<rparr>"]) (simp_all add: acts free cells)
qed

end
