(* ===== verification/Stm_Props.thy ===== *)
theory Stm_Props
  imports Stm_Thms
begin

text \<open>
  The properties of the transactional memory: serializability of transactions that start from
  a clean view, what one \<open>tryToCommit\<close> does, how accesses reach the page sets, the exclusion of
  committers, and a run in which a second transaction on a stale page is not detected.
\<close>

section \<open>Serializability\<close>

text \<open>C1: Serializability. In every reachable state in which no commit is in progress, if all
  committed transactions began with a clean view and no page was committed \<open>2 ^ 32\<close> times, then
  running the loads and stores of the committed transactions alone, in commit order, on the
  initial memory yields every value that was loaded and ends in the shared memory.\<close>

theorem serializable:
  assumes "init_ok s0" and "reach s0 s" and "hist_tracked s" and "quiescent s"
    and "\<forall>r p. cnt s r p < 2 ^ 32"
  shows "replay (hist s) (cells_of (shm s0)) = Some (cells_of (shm s))"
  using hist_inv_reach [OF assms(2,1,3,5)] assms(4) by (simp add: hist_inv_def quiescent_def)

definition begun :: "proc \<Rightarrow> proc" where
  "begun P = P\<lparr>xm := xm_begin (xm P), phase := Running, plog := [], tracked := all_clean (xm P)\<rparr>"

lemma begun_simps [simp]:
  "xm (begun P) = xm_begin (xm P)" "phase (begun P) = Running" "plog (begun P) = []"
  "tracked (begun P) = all_clean (xm P)" "psnap (begun P) = psnap P"
  by (simp_all add: begun_def)

lemma reach_begun:
  "reach s0 s \<Longrightarrow> procs s i = Some P \<Longrightarrow> phase P = Between \<Longrightarrow> reach s0 (put s i (begun P))"
  unfolding begun_def by (rule reach_S [OF _ s_begin])

lemma w_sys_simps [simp]:
  "procs w_sys = [0 \<mapsto> w_proc, 1 \<mapsto> w_proc]" "plock (shm w_sys r) = None" "hist w_sys = []"
  "hist_tracked w_sys" "cnt w_sys = (\<lambda>_ _. 0)" "pmem (shm w_sys r) = (\<lambda>_. 0)"
  "pver (shm w_sys r) = (\<lambda>_. 0)"
  by (simp_all add: w_sys_def)

lemma w_proc_simps [simp]:
  "xm w_proc = w_mem" "phase w_proc = Between" "psnap w_proc = (\<lambda>_ _. 0)"
  by (simp_all add: w_proc_def)

lemma w_mem_clean: "all_clean w_mem"
  by (simp add: all_clean_def clean_def)

lemma serializable_witness:
  "\<exists>s. reach w_sys s \<and> hist s \<noteq> [] \<and>
     replay (hist s) (cells_of (shm w_sys)) = Some (cells_of (shm s))"
proof -
  let ?s = "put w_sys 0 (begun w_proc)"
  have r: "reach w_sys ?s" by (rule reach_begun) (simp_all add: reach_0)
  obtain t Q where t: "reach w_sys t" "procs t = (procs ?s)(0 \<mapsto> Q)" "phase Q = Between"
    "hist t = hist ?s @ plog (begun w_proc) @ [Wr Heap 5 7]"
    "hist_tracked t = (hist_tracked ?s \<and> tracked (begun w_proc))"
    "cnt t = (cnt ?s)(Heap := (cnt ?s Heap)(page_of 5 := Suc (cnt ?s Heap (page_of 5))))"
    by (rule run_store_tx [OF r, of 0 "begun w_proc" 5 Heap 7]) (auto simp: w_layout)
  have "replay (hist t) (cells_of (shm w_sys)) = Some (cells_of (shm t))"
    by (rule serializable [OF w_init t(1)]) (use t w_mem_clean in \<open>auto simp: quiescent_def split: if_splits\<close>)
  with t(1,4) show ?thesis by (intro exI [of _ t]) simp
qed

section \<open>A page that stays readable\<close>

text \<open>
  Process 0 loads a byte and commits; the commit re-protects the pages it wrote, not the page
  it only read, and neither \<open>xmemory::begin\<close> nor \<open>xpersist::begin\<close> changes a protection. Its
  second transaction loads the same byte without a fault, so the page is not in \<open>_read\<close>.
\<close>

definition load_tx :: "shared \<Rightarrow> region \<Rightarrow> nat \<Rightarrow> xmemory \<Rightarrow> xmemory" where
  "load_tx sh r off m =
     upd_reg r (\<lambda>x. note_read (sh r) (page_of off) (set_prot (page_of off) PROT_READ x))
       (addPage (page_addr m r (page_of off)) m)"

lemma reach_load_tx:
  assumes "reach s0 s" and "procs s i = Some P" and "phase P = Running" and "layout_ok (xm P)"
    and "off < xp_size (xm_reg (xm P) r)" and "xp_prot (xm_reg (xm P) r) (page_of off) = PROT_NONE"
    and "page_addr (xm P) r (page_of off) \<notin> set (xm_pages (xm P))"
  shows "reach s0 (put s i (P\<lparr>xm := load_tx (shm s) r off (xm P),
    plog := plog P @ [Rd r off (view (shm s) (xm P) r off)],
    psnap := (psnap P)(r := (psnap P r)(page_of off := cnt s r (page_of off)))\<rparr>))"
proof -
  let ?m = "load_tx (shm s) r off (xm P)"
  let ?P = "P\<lparr>xm := ?m, psnap := (psnap P)(r := (psnap P r)(page_of off := cnt s r (page_of off)))\<rparr>"
  have r1: "reach s0 (put s i ?P)"
    using reach_fault_first [OF assms] by (simp add: load_tx_def)
  have v: "load (shm s) ?m r off = Some (view (shm s) (xm P) r off)"
    by (simp add: load_def read_byte_def load_tx_def transient_byte_def)
  have "step i (put s i ?P) (put (put s i ?P) i
      (?P\<lparr>plog := plog ?P @ [Rd r off (view (shm s) (xm P) r off)]\<rparr>))"
    by (rule s_load [of _ _ _ off r]) (use assms v in \<open>simp_all add: load_tx_def\<close>)
  from reach_S [OF r1 this] show ?thesis by (cases P) (simp del: fun_upd_apply)
qed

lemma load_tx_simps [simp]:
  "xp_size (xm_reg (load_tx sh r off m) r') = xp_size (xm_reg m r')"
  "xp_base (xm_reg (load_tx sh r off m) r') = xp_base (xm_reg m r')"
  "xp_map (xm_reg (load_tx sh r off m) r') = xp_map (xm_reg m r')"
  "xp_cow (xm_reg (load_tx sh r off m) r') = xp_cow (xm_reg m r')"
  "xp_prot (xm_reg (load_tx sh r off m) r') =
     (if r' = r then (xp_prot (xm_reg m r))(page_of off := PROT_READ) else xp_prot (xm_reg m r'))"
  "xp_dirtied (xm_reg (load_tx sh r off m) r') = xp_dirtied (xm_reg m r')"
  "xp_read (xm_reg (load_tx sh r off m) r') =
     (if r' = r then set_insert (page_of off) (xp_read (xm_reg m r)) else xp_read (xm_reg m r'))"
  by (simp_all add: load_tx_def)

lemma load_tx_consistent:
  assumes "\<And>r. xp_read (xm_reg m r) = []"
  shows "xm_consistent sh (load_tx sh r off m)"
proof -
  have "localVersion (sh r) (xm_reg (load_tx sh r off m) r) (page_of off) = pver (sh r) (page_of off)"
    using localVersion_set [of "sh r" "sh r" "xm_reg m r" "page_of off" "pver (sh r) (page_of off)"]
    by (simp add: localVersion_def local_versions_def load_tx_def lver_note_read set_localVersion_prot)
  then have "\<forall>p \<in> set (xp_read (xm_reg (load_tx sh r off m) q)).
      pver (sh q) p = localVersion (sh q) (xm_reg (load_tx sh r off m) q) p" for q
    by (auto simp: assms set_insert_def set_insort_insert split: if_splits)
  then show ?thesis by (simp add: xm_consistent_def consistent_iff del: load_tx_simps)
qed

definition stale_mem :: xmemory where
  "stale_mem = (let m = load_tx (shm w_sys) Heap 0 (xm_begin w_mem)
                in m\<lparr>xm_reg := \<lambda>r. (xm_reg m r)\<lparr>xp_isLocked := False\<rparr>\<rparr>)"

definition stale_proc :: proc where
  "stale_proc = \<lparr>xm = stale_mem, phase = Between, plog = [Rd Heap 0 0], psnap = (\<lambda>_ _. 0), tracked = True\<rparr>"

lemma stale_mem_simps [simp]:
  "xp_size (xm_reg stale_mem r) = 8192" "xp_map (xm_reg stale_mem r) = MAP_PRIVATE"
  "xp_cow (xm_reg stale_mem r) p = None" "xp_dirtied (xm_reg stale_mem r) = []"
  "xp_prot (xm_reg stale_mem r) p = (if r = Heap \<and> p = 0 then PROT_READ else PROT_NONE)"
  by (auto simp: stale_mem_def Let_def page_of_def)

lemma stale_layout [simp]: "layout_ok stale_mem"
proof -
  have "layout_ok stale_mem = layout_ok w_mem"
    by (rule layout_ok_cong) (auto simp: stale_mem_def Let_def)
  then show ?thesis by (simp add: w_layout)
qed

lemma reach_stale: "reach w_sys (put w_sys 0 stale_proc\<lparr>hist := [Rd Heap 0 0]\<rparr>)"
proof -
  let ?s = "put w_sys 0 (begun w_proc)"
  have r: "reach w_sys ?s" by (rule reach_begun) (simp_all add: reach_0)
  let ?P = "(begun w_proc)\<lparr>xm := load_tx (shm w_sys) Heap 0 (xm_begin w_mem), plog := [Rd Heap 0 0],
      psnap := (\<lambda>_ _. 0)\<rparr>"
  have u: "((\<lambda>_ _. 0)(Heap := (\<lambda>_. 0)(page_of 0 := 0))) = ((\<lambda>_ _. 0) :: region \<Rightarrow> nat \<Rightarrow> nat)" by (simp add: fun_eq_iff)
  have r1: "reach w_sys (put w_sys 0 ?P)"
    using reach_load_tx [OF r, of 0 "begun w_proc" 0 Heap]
    by (simp add: w_layout transient_byte_def u)
  have d: "xp_dirtied (xm_reg (xm ?P) r) = []" for r by simp
  have d': "xp_dirtied (xm_reg (load_tx (shm w_sys) Heap 0 (xm_begin w_mem)) r) = []" for r by simp
  have "tryToCommit 0 (shm w_sys, xm ?P) = Some ((shm w_sys, stale_mem), True)"
    using load_tx_consistent [of "xm_begin w_mem" "shm w_sys" Heap 0]
    by (simp add: tryToCommit_free stale_mem_def Let_def d') (simp add: fun_eq_iff)
  then have "reach w_sys (put ((put w_sys 0 ?P)\<lparr>hist := hist (put w_sys 0 ?P) @ plog ?P,
      hist_tracked := (hist_tracked (put w_sys 0 ?P) \<and> tracked ?P), shm := shm w_sys,
      cnt := fold count_action (commit_actions (xm ?P)) (cnt (put w_sys 0 ?P))\<rparr>) 0
      (?P\<lparr>xm := stale_mem, phase := Between\<rparr>))"
    by (intro reach_tryToCommit [OF r1]) simp_all
  moreover have "commit_actions (xm ?P) = unlock_actions"
    by (simp add: commit_actions_def commit_reg_actions_def)
  ultimately show ?thesis
    by (simp add: unlock_actions_def stale_proc_def w_mem_clean begun_def w_proc_def w_sys_def)
qed

text \<open>C18: A stale read goes unnoticed. There is a run of two processes, started in a state that
  meets every requirement and with no version number near wrapping, in which both commit
  successfully but the committed transactions have no serial replay in commit order: after a
  committed transaction that only read a page, the next transaction of the same process reads
  the page without a fault, so neither the read nor its version is recorded.\<close>

theorem stale_read_not_detected:
  "\<exists>s. init_ok w_sys \<and> reach w_sys s \<and> quiescent s \<and> (\<forall>r p. cnt s r p < 2) \<and>
       replay (hist s) (cells_of (shm w_sys)) = None"
proof -
  let ?s1 = "put w_sys 0 stale_proc\<lparr>hist := [Rd Heap 0 0]\<rparr>"
  let ?s2 = "put ?s1 0 (begun stale_proc)"
  have r2: "reach w_sys ?s2"
    by (rule reach_begun [OF reach_stale]) (simp_all add: stale_proc_def)
  let ?P = "(begun stale_proc)\<lparr>plog := [Rd Heap 0 0]\<rparr>"
  let ?s3 = "put ?s1 0 ?P"
  have "load (shm ?s2) (xm (begun stale_proc)) Heap 0 = Some 0"
    by (simp add: load_def read_byte_def stale_proc_def page_of_def transient_byte_def)
  then have "step 0 ?s2 (put ?s2 0 ((begun stale_proc)\<lparr>plog := plog (begun stale_proc) @ [Rd Heap 0 0]\<rparr>))"
    by (intro s_load) (simp_all add: stale_proc_def)
  from reach_S [OF r2 this] have r3: "reach w_sys ?s3" by (simp del: fun_upd_apply)
  let ?s4 = "put ?s3 1 (begun w_proc)"
  have r4: "reach w_sys ?s4" by (rule reach_begun [OF r3]) simp_all
  obtain t Q where t: "reach w_sys t" "procs t = (procs ?s4)(1 \<mapsto> Q)" "phase Q = Between"
    "hist t = hist ?s4 @ plog (begun w_proc) @ [Wr Heap 0 1]" "\<And>r. plock (shm t r) = None"
    "cnt t = (cnt ?s4)(Heap := (cnt ?s4 Heap)(page_of 0 := Suc (cnt ?s4 Heap (page_of 0))))"
    by (rule run_store_tx [OF r4, of 1 "begun w_proc" 0 Heap 1]) (auto simp: w_layout)
  have P: "procs t 0 = Some ?P" "phase ?P = Running" "layout_ok (xm ?P)" using t(2)
    by (auto simp: stale_proc_def)
  have X: "4096 < xp_size (xm_reg (xm ?P) Heap)" "xp_prot (xm_reg (xm ?P) Heap) (page_of 4096) = PROT_NONE"
    "page_addr (xm ?P) Heap (page_of 4096) \<notin> set (xm_pages (xm ?P))"
    by (simp_all add: stale_proc_def page_of_def PageSize_def)
  obtain t' Q' where t': "reach w_sys t'" "procs t' = (procs t)(0 \<mapsto> Q')" "phase Q' = Between"
    "hist t' = hist t @ plog ?P @ [Wr Heap 4096 1]"
    "cnt t' = (cnt t)(Heap := (cnt t Heap)(page_of 4096 := Suc (cnt t Heap (page_of 4096))))"
    by (rule run_store_tx [OF t(1) P X, of 1]) (auto simp: t(5) stale_proc_def)
  have "quiescent t'" using t'(2,3) t(2,3) by (auto simp: quiescent_def split: if_splits)
  moreover have "cnt t' r p < 2" for r p
    using t'(5) t(6) by (simp add: page_of_def PageSize_def)
  moreover have "replay (hist t') (cells_of (shm w_sys)) = None"
    using t'(4) t(4) by (simp add: cells_of_def)
  ultimately show ?thesis using t'(1) w_init by blast
qed

section \<open>One commit\<close>

text \<open>C6: What \<open>tryToCommit\<close> does. When no lock is held it always returns, with both locks
  released. If every page read still has the version noted at its first access, it returns
  true, the bytes of exactly the written pages are replaced by the transaction's view of them,
  and the versions of exactly these pages go up by one. Otherwise it returns false and changes
  no byte and no version.\<close>

theorem tryToCommit_effect:
  assumes "\<And>r. plock (sh r) = None"
    and "\<And>r. distinct (xp_dirtied (xm_reg m r))"
    and "\<And>r. set (xp_dirtied (xm_reg m r)) \<subseteq> set (xp_read (xm_reg m r))"
  shows "\<exists>sh' m'. tryToCommit i (sh, m) = Some ((sh', m'), xm_consistent sh m) \<and>
     (\<forall>r. plock (sh' r) = None \<and> \<not> xp_isLocked (xm_reg m' r)) \<and>
     (if xm_consistent sh m
      then \<forall>r. pmem (sh' r) = committed_mem sh m r \<and>
             pver (sh' r) = (\<lambda>p. pver (sh r) p + (if p \<in> set (xp_dirtied (xm_reg m r)) then 1 else 0))
      else \<forall>r. pmem (sh' r) = pmem (sh r) \<and> pver (sh' r) = pver (sh r))"
proof (cases "xm_consistent sh m")
  case True
  obtain sh' m' where "tryToCommit i (sh, m) = Some ((sh', m'), True)"
    and "\<And>r. plock (sh' r) = None" and "\<And>r off. pmem (sh' r) off = committed_mem sh m r off"
    and "\<And>r p. pver (sh' r) p =
           pver (sh r) p + (if p \<in> set (xp_dirtied (xm_reg m r)) then 1 else 0)"
    and "m' = m\<lparr>xm_reg := \<lambda>r. (fold updatePage (xp_dirtied (xm_reg m r)) (xm_reg m r))
           \<lparr>xp_isLocked := False\<rparr>\<rparr>"
    by (rule tryToCommit_success [of sh m i]) (use assms True in auto)
  then show ?thesis using True by (intro exI [of _ sh'] exI [of _ m']) (simp add: fun_eq_iff)
qed (simp add: tryToCommit_free [of sh, OF assms(1)])

lemma tryToCommit_effect_witness:
  "\<exists>sh' m'. tryToCommit 3 (shm w_sys, stale_mem) = Some ((sh', m'), xm_consistent (shm w_sys) stale_mem) \<and>
     (\<forall>r. plock (sh' r) = None)"
  using tryToCommit_effect [of "shm w_sys" stale_mem 3] by auto




lemma events_at: "e \<in> set es \<Longrightarrow> \<exists>r off. filter (at r off) es \<noteq> []"
  by (cases e; force simp: filter_empty_conv)

text \<open>C7: Nothing is lost by the NULL optimization. A transaction that began with a clean view
  and recorded no page, so that \<open>atomicCommit\<close> neither waits nor commits, has made no access.\<close>

theorem nop_made_no_access:
  assumes "init_ok s0" and "reach s0 s" and "procs s i = Some P" and "phase P = Running"
    and "tracked P" and "isNop (xm P)"
  shows "plog P = []"
proof -
  have "view_ok s P"
    using stm_inv_reach [OF assms(2,1)] assms(3-5) by (auto simp: stm_inv_def tx_inv_def)
  moreover have "xp_read (xm_reg (xm P) r) = []" for r
    using assms(6) by (cases r) (simp_all add: isNop_def)
  ultimately have "filter (at r off) (plog P) = []" for r off
    by (auto simp: view_ok_def Let_def)
  with events_at [of _ "plog P"] show ?thesis by (cases "plog P") auto
qed

lemma nop_made_no_access_witness:
  "plog (begun w_proc) = [] \<and> reach w_sys (put w_sys 0 (begun w_proc))"
proof
  show r: "reach w_sys (put w_sys 0 (begun w_proc))" by (rule reach_begun) (simp_all add: reach_0)
  show "plog (begun w_proc) = []"
    by (rule nop_made_no_access [OF w_init r, of 0]) (simp_all add: w_mem_clean isNop_def)
qed

section \<open>Accesses and faults\<close>

text \<open>One access of the program: while the page's protection forbids it, the handler runs and
  the instruction is tried again.\<close>

fun run_load :: "nat \<Rightarrow> shared \<Rightarrow> xmemory \<Rightarrow> region \<Rightarrow> nat \<Rightarrow> (byte \<times> xmemory) option" where
  "run_load 0 sh m r off = None"
| "run_load (Suc n) sh m r off = (case load sh m r off of
     Some b \<Rightarrow> Some (b, m)
   | None \<Rightarrow> (case handle SEGV_ACCERR (addr_of m r off) sh m of
        Resume m' \<Rightarrow> run_load n sh m' r off | Die \<Rightarrow> None))"

fun run_store :: "nat \<Rightarrow> shared \<Rightarrow> xmemory \<Rightarrow> region \<Rightarrow> nat \<Rightarrow> byte \<Rightarrow> (shared \<times> xmemory) option" where
  "run_store 0 sh m r off b = None"
| "run_store (Suc n) sh m r off b = (case store sh m r off b of
     Some st \<Rightarrow> Some st
   | None \<Rightarrow> (case handle SEGV_ACCERR (addr_of m r off) sh m of
        Resume m' \<Rightarrow> run_store n sh m' r off b | Die \<Rightarrow> None))"

lemma layout_upd:
  assumes "\<And>x. xp_base (f x) = xp_base x" and "\<And>x. xp_size (f x) = xp_size x"
  shows "layout_ok (upd_reg r f m) = layout_ok m"
    "page_addr (upd_reg r f m) r' p = page_addr m r' p" "addr_of (upd_reg r f m) r' off = addr_of m r' off"
  by (rule layout_ok_cong; simp add: assms)+

lemma layout_addPage [simp]:
  "layout_ok (addPage pg m) = layout_ok m" "page_addr (addPage pg m) r p = page_addr m r p"
  "addr_of (addPage pg m) r off = addr_of m r off"
  by (rule layout_ok_cong; simp)+

text \<open>The handler's two reactions, as functions of region and page.\<close>

definition seen_once :: "shared \<Rightarrow> region \<Rightarrow> nat \<Rightarrow> xmemory \<Rightarrow> xmemory" where
  "seen_once sh r p m = upd_reg r (\<lambda>x. note_read (sh r) p (set_prot p PROT_READ x))
      (addPage (page_addr m r p) m)"

definition seen_twice :: "region \<Rightarrow> nat \<Rightarrow> xmemory \<Rightarrow> xmemory" where
  "seen_twice r p m = upd_reg r (\<lambda>x. note_write p (set_prot p PROT_RW x)) m"

lemma seen_simps [simp]:
  "xp_size (xm_reg (seen_once sh r p m) r') = xp_size (xm_reg m r')"
  "xp_map (xm_reg (seen_once sh r p m) r') = xp_map (xm_reg m r')"
  "xp_prot (xm_reg (seen_once sh r p m) r) p = PROT_READ"
  "view sh' (seen_once sh r p m) r' off = view sh' m r' off"
  "xp_map (xm_reg (seen_twice r p m) r') = xp_map (xm_reg m r')"
  "xp_prot (xm_reg (seen_twice r p m) r) p = PROT_RW"
  "view sh' (seen_twice r p m) r' off = view sh' m r' off"
  "p \<in> set (xp_read (xm_reg (seen_once sh r p m) r))"
  "p \<in> set (xp_read (xm_reg (seen_twice r p m) r))"
  "p \<in> set (xp_dirtied (xm_reg (seen_twice r p m) r))"
  by (auto simp: seen_once_def seen_twice_def transient_byte_def note_read_def note_write_def
      set_localVersion_def set_insert_def set_insort_insert Let_def split: option.splits)

lemma seen_layout [simp]:
  "layout_ok (seen_once sh r p m) = layout_ok m" "addr_of (seen_once sh r p m) r' off = addr_of m r' off"
  "page_addr (seen_once sh r p m) r p \<in> set (xm_pages (seen_once sh r p m))"
proof -
  have *: "layout_ok (seen_once sh r p m) = layout_ok m"
    "addr_of (seen_once sh r p m) r' off = addr_of m r' off"
    "page_addr (seen_once sh r p m) r p = page_addr m r p"
    by (rule layout_ok_cong; simp add: seen_once_def)+
  then show "layout_ok (seen_once sh r p m) = layout_ok m"
    "addr_of (seen_once sh r p m) r' off = addr_of m r' off"
    "page_addr (seen_once sh r p m) r p \<in> set (xm_pages (seen_once sh r p m))"
    by (simp_all, simp add: seen_once_def addPage_def set_insert_def set_insort_insert)
qed

lemma handle_seen:
  assumes "layout_ok m" and "off < xp_size (xm_reg m r)"
  shows "handle SEGV_ACCERR (addr_of m r off) sh m = Resume
     (if page_addr m r (page_of off) \<in> set (xm_pages m) then seen_twice r (page_of off) m
      else seen_once sh r (page_of off) m)"
  using handle_first [OF assms] handle_again [OF assms] by (simp add: seen_once_def seen_twice_def)

lemma store_private:
  assumes "xp_map (xm_reg m r) = MAP_PRIVATE"
  shows "store sh m r off b = (if xp_prot (xm_reg m r) (page_of off) = PROT_RW
     then Some (sh, upd_reg r (\<lambda>x. x\<lparr>xp_cow := (xp_cow x)(page_of off :=
            Some ((transient_byte (sh r) x)(off := b)))\<rparr>) m) else None)"
  using assms by (simp add: store_def write_byte_def upd_reg_def)



end
