(* ===== verification/Xlatch.thy ===== *)
theory Xlatch
  imports Grace_Prelude
begin

text \<open>
  \<open>include/xlatch.h\<close>: the latch that a process releases when it exits. \<open>wait\<close> reads the flag
  \<open>_unlatched\<close> and blocks on the semaphore when it is not set; \<open>unlatch\<close> sets the flag and then
  posts the semaphore twice. The check of the flag, the semaphore operations and the two posts
  are separate steps, so waiters may fall between any two of them.
\<close>

section \<open>The latch\<close>

record xlatch =
  lt_waiters :: nat
  lt_unlatched :: bool
  lt_semaphore :: nat

definition xlatch_new :: "nat \<Rightarrow> xlatch" where
  "xlatch_new nwaiters = \<lparr>lt_waiters = nwaiters, lt_unlatched = False, lt_semaphore = nwaiters\<rparr>"

definition sem_post :: "xlatch \<Rightarrow> xlatch" where
  "sem_post l = l\<lparr>lt_semaphore := Suc (lt_semaphore l)\<rparr>"

text \<open>\<open>None\<close>: the caller blocks.\<close>

definition sem_wait :: "xlatch \<Rightarrow> xlatch option" where
  "sem_wait l = (if lt_semaphore l = 0 then None else Some (l\<lparr>lt_semaphore := lt_semaphore l - 1\<rparr>))"

definition latch_wait :: "xlatch \<Rightarrow> xlatch option" where
  "latch_wait l = (if lt_unlatched l then Some l else sem_wait l)"

definition set_unlatched :: "xlatch \<Rightarrow> xlatch" where
  "set_unlatched l = l\<lparr>lt_unlatched := True\<rparr>"

definition unlatch :: "xlatch \<Rightarrow> xlatch" where
  "unlatch l = sem_post (sem_post (set_unlatched l))"

section \<open>Waiters and the releasing process\<close>

text \<open>
  \<open>lw_pc\<close> counts the steps of \<open>unlatch\<close> that have been taken (the flag, the first and the second
  post); \<open>lw_blocked\<close> are the waiters that found the flag unset and have not got the semaphore,
  \<open>lw_woken\<close> those that got it, \<open>lw_passed\<close> those that found the flag set.
\<close>

record latch_sys =
  lw_latch :: xlatch
  lw_pc :: nat
  lw_blocked :: "nat set"
  lw_woken :: "nat set"
  lw_passed :: "nat set"

inductive latch_step :: "latch_sys \<Rightarrow> latch_sys \<Rightarrow> bool" where
  ls_pass: "w \<notin> lw_blocked s \<Longrightarrow> w \<notin> lw_woken s \<Longrightarrow> lt_unlatched (lw_latch s) \<Longrightarrow>
     latch_step s (s\<lparr>lw_passed := insert w (lw_passed s)\<rparr>)"
| ls_block: "w \<notin> lw_blocked s \<Longrightarrow> w \<notin> lw_woken s \<Longrightarrow> w \<notin> lw_passed s \<Longrightarrow> \<not> lt_unlatched (lw_latch s) \<Longrightarrow>
     latch_step s (s\<lparr>lw_blocked := insert w (lw_blocked s)\<rparr>)"
| ls_wake: "w \<in> lw_blocked s \<Longrightarrow> sem_wait (lw_latch s) = Some l \<Longrightarrow>
     latch_step s (s\<lparr>lw_latch := l, lw_blocked := lw_blocked s - {w}, lw_woken := insert w (lw_woken s)\<rparr>)"
| ls_flag: "lw_pc s = 0 \<Longrightarrow>
     latch_step s (s\<lparr>lw_latch := set_unlatched (lw_latch s), lw_pc := 1\<rparr>)"
| ls_post: "lw_pc s = 1 \<or> lw_pc s = 2 \<Longrightarrow>
     latch_step s (s\<lparr>lw_latch := sem_post (lw_latch s), lw_pc := Suc (lw_pc s)\<rparr>)"

inductive_cases latch_stepE [elim]: "latch_step s t"

definition latch_init :: latch_sys where
  "latch_init = \<lparr>lw_latch = xlatch_new 0, lw_pc = 0, lw_blocked = {}, lw_woken = {}, lw_passed = {}\<rparr>"

inductive latch_reach :: "latch_sys \<Rightarrow> bool" where
  lr_0: "latch_reach latch_init"
| lr_S: "latch_reach s \<Longrightarrow> latch_step s t \<Longrightarrow> latch_reach t"

text \<open>Every post is either still in the semaphore or has woken one waiter.\<close>

definition latch_inv :: "latch_sys \<Rightarrow> bool" where
  "latch_inv s \<longleftrightarrow> lw_pc s \<le> 3 \<and> (lt_unlatched (lw_latch s) \<longleftrightarrow> 0 < lw_pc s) \<and>
     lt_semaphore (lw_latch s) + card (lw_woken s) = lw_pc s - 1 \<and>
     finite (lw_blocked s) \<and> finite (lw_woken s) \<and> lw_blocked s \<inter> lw_woken s = {} \<and>
     (lw_passed s \<noteq> {} \<longrightarrow> lt_unlatched (lw_latch s))"

lemma latch_inv_step: "latch_step s t \<Longrightarrow> latch_inv s \<Longrightarrow> latch_inv t"
proof (induction rule: latch_step.induct)
  case (ls_wake w s l)
  then have "w \<notin> lw_woken s" by (auto simp: latch_inv_def)
  then have "card (insert w (lw_woken s)) = Suc (card (lw_woken s))"
    using ls_wake(3) by (simp add: latch_inv_def)
  with ls_wake show ?case by (auto simp: latch_inv_def sem_wait_def split: if_splits)
qed (auto simp: latch_inv_def sem_post_def set_unlatched_def)

lemma latch_inv_reach: "latch_reach s \<Longrightarrow> latch_inv s"
proof (induction rule: latch_reach.induct)
  case lr_0
  then show ?case by (simp add: latch_init_def latch_inv_def xlatch_new_def)
qed (rule latch_inv_step)

section \<open>Properties\<close>

text \<open>C12: The latch is safe and live for two waiters. Nobody gets past \<open>wait\<close> before the exiting
  process has set the flag, and once \<open>unlatch\<close> has returned, a blocked waiter finds a post in the
  semaphore provided at most two processes ever blocked.\<close>

theorem latch_correct:
  assumes "latch_reach s"
  shows "(lw_woken s \<union> lw_passed s \<noteq> {} \<longrightarrow> lt_unlatched (lw_latch s)) \<and>
     (lw_pc s = 3 \<and> card (lw_blocked s \<union> lw_woken s) \<le> 2 \<and> lw_blocked s \<noteq> {} \<longrightarrow>
        (\<exists>l. sem_wait (lw_latch s) = Some l))"
proof -
  have i: "latch_inv s" by (rule latch_inv_reach [OF assms])
  have "lw_woken s \<noteq> {} \<longrightarrow> 0 < lw_pc s"
    using i by (auto simp: latch_inv_def card_eq_0_iff)
  moreover have "\<exists>l. sem_wait (lw_latch s) = Some l"
    if "lw_pc s = 3" "card (lw_blocked s \<union> lw_woken s) \<le> 2" "lw_blocked s \<noteq> {}"
  proof -
    have "card (lw_blocked s \<union> lw_woken s) = card (lw_blocked s) + card (lw_woken s)"
      using i by (intro card_Un_disjoint) (auto simp: latch_inv_def)
    moreover have "0 < card (lw_blocked s)" using i that(3) by (auto simp: latch_inv_def card_gt_0_iff)
    ultimately show ?thesis using i that(1,2) by (simp add: latch_inv_def sem_wait_def)
  qed
  ultimately show ?thesis using i unfolding latch_inv_def by blast
qed

lemma latch_run:
  "latch_reach \<lparr>lw_latch = \<lparr>lt_waiters = 0, lt_unlatched = True, lt_semaphore = 2\<rparr>, lw_pc = 3,
     lw_blocked = {1, 2, 3}, lw_woken = {}, lw_passed = {}\<rparr>"
proof -
  note S = latch_init_def xlatch_new_def set_unlatched_def sem_post_def
  have b1: "latch_reach (latch_init\<lparr>lw_blocked := {3}\<rparr>)"
    using lr_S [OF lr_0 ls_block [of 3]] by (simp add: S)
  have b2: "latch_reach (latch_init\<lparr>lw_blocked := {2, 3}\<rparr>)"
    using lr_S [OF b1 ls_block [of 2]] by (simp add: S)
  have b3: "latch_reach (latch_init\<lparr>lw_blocked := {1, 2, 3}\<rparr>)"
    using lr_S [OF b2 ls_block [of 1]] by (simp add: S)
  from lr_S [OF b3 ls_flag]
  have f: "latch_reach (latch_init\<lparr>lw_latch := set_unlatched (xlatch_new 0), lw_pc := 1, lw_blocked := {1, 2, 3}\<rparr>)"
    by (simp add: S)
  from lr_S [OF f ls_post]
  have p1: "latch_reach (latch_init\<lparr>lw_latch := sem_post (set_unlatched (xlatch_new 0)), lw_pc := 2,
      lw_blocked := {1, 2, 3}\<rparr>)"
    by (simp add: S eval_nat_numeral)
  from lr_S [OF p1 ls_post] show ?thesis by (simp add: S eval_nat_numeral)
qed

lemma latch_correct_witness:
  "\<exists>s. latch_reach s \<and> lt_unlatched (lw_latch s) \<and> lw_woken s = {1}"
proof -
  let ?s = "\<lparr>lw_latch = \<lparr>lt_waiters = 0, lt_unlatched = True, lt_semaphore = 1\<rparr>, lw_pc = 3,
     lw_blocked = {2, 3}, lw_woken = {1}, lw_passed = {}\<rparr> :: latch_sys"
  have "latch_reach ?s"
    using lr_S [OF latch_run ls_wake [of 1]] by (simp add: sem_wait_def)
  with latch_correct [OF this] show ?thesis by (intro exI [of _ ?s]) auto
qed

text \<open>Once the releasing process is done and the semaphore is empty, nobody blocked gets on.\<close>

lemma latch_drained_stuck:
  assumes "latch_step\<^sup>*\<^sup>* s t" and "lw_pc s = 3" and "lt_semaphore (lw_latch s) = 0" and "w \<in> lw_blocked s"
  shows "lw_pc t = 3 \<and> lt_semaphore (lw_latch t) = 0 \<and> w \<in> lw_blocked t"
  using assms by (induction rule: rtranclp_induct) (auto simp: sem_wait_def)

text \<open>A third waiter blocks for ever. There is a run in which three processes block on one
  latch before it is released; after \<open>unlatch\<close> has returned and two of them have gone on, the
  third one is still blocked, the semaphore is empty and the releasing process posts no more.\<close>

theorem third_waiter_stuck:
  "\<exists>s. latch_reach s \<and> lw_pc s = 3 \<and> lw_blocked s = {3} \<and> sem_wait (lw_latch s) = None \<and>
       {t. latch_step\<^sup>*\<^sup>* s t} \<subseteq> {t. 3 \<in> lw_blocked t}"
proof -
  let ?s = "\<lparr>lw_latch = \<lparr>lt_waiters = 0, lt_unlatched = True, lt_semaphore = 0\<rparr>, lw_pc = 3,
     lw_blocked = {3}, lw_woken = {1, 2}, lw_passed = {}\<rparr> :: latch_sys"
  have w1: "latch_reach \<lparr>lw_latch = \<lparr>lt_waiters = 0, lt_unlatched = True, lt_semaphore = 1\<rparr>, lw_pc = 3,
     lw_blocked = {2, 3}, lw_woken = {1}, lw_passed = {}\<rparr>"
    using lr_S [OF latch_run ls_wake [of 1]] by (simp add: sem_wait_def)
  have "latch_reach ?s"
    using lr_S [OF w1 ls_wake [of 2]] by (simp add: sem_wait_def insert_commute)
  moreover have "3 \<in> lw_blocked t" if "latch_step\<^sup>*\<^sup>* ?s t" for t
    using latch_drained_stuck [OF that] by simp
  ultimately show ?thesis by (intro exI [of _ ?s]) (auto simp: sem_wait_def)
qed

text \<open>After \<open>unlatch\<close>, \<open>wait\<close> returns at once and leaves the semaphore as it is.\<close>

lemma unlatch_opens: "latch_wait (unlatch l) = Some (unlatch l)"
  by (simp add: latch_wait_def unlatch_def sem_post_def set_unlatched_def)

end
