(* ===== verification/Xrun.thy ===== *)
theory Xrun
  imports Xlatch Xdefines
begin

text \<open>
  The transaction engine of \<open>include/xrun.h\<close> and the threads of \<open>include/xthread.h\<close> and
  \<open>source/xthread.cpp\<close>: when transactions begin and end, who waits for whom before a commit, and
  how a spawn becomes a fork. What the threads compute is abstracted to labels: \<open>Work n\<close> is a
  piece of code that accesses memory, \<open>Irrevocable n\<close> an I/O operation that passes
  \<open>ensureIrrevocable\<close>, and \<open>Spawn\<close>, \<open>Sync\<close> and \<open>Punctuate\<close> are the calls into the engine. Whether
  \<open>tryToCommit\<close> finds the pages consistent is left open when another process has committed in the
  meantime; when none has, no version has moved and it does.
\<close>

section \<open>Threads\<close>

datatype stmt = Work nat | Irrevocable nat | Punctuate | Spawn "stmt list" | Sync nat

text \<open>A thread object of \<open>spawn\<close>: of a forked process, or of a body that ran in place.\<close>

datatype thandle = Forked nat | Direct

record ctx =
  c_code :: "stmt list"
  c_env :: "thandle list"
  c_frames :: "(stmt list \<times> thandle list) list"

datatype rphase = Active | Outside | Exited

record rproc =
  r_tid :: nat
  r_pred :: nat
  r_nest :: nat
  r_ctx :: ctx
  r_saved :: ctx
  r_buf :: "nat list"
  r_seen :: nat
  r_phase :: rphase

text \<open>
  \<open>rs_latch\<close> is \<open>_threadExitStatus\<close>. The last three fields are history: the logical order of the
  processes (a child stands right before its parent), the process of \<open>main\<close>, and whether every
  fork so far used a pid whose entry in \<open>_threadExitStatus\<close> was new.
\<close>

record rsys =
  rs_procs :: "nat \<Rightarrow> rproc option"
  rs_latch :: "nat \<Rightarrow> xlatch"
  rs_log :: "nat list"
  rs_io :: "nat list"
  rs_commits :: nat
  rs_order :: "nat list"
  rs_root :: nat
  rs_fresh :: bool

definition THREAD_STATUS_LENGTH :: nat where "THREAD_STATUS_LENGTH = 1048576"

definition latch_index :: "nat \<Rightarrow> nat" where
  "latch_index pid = pid mod THREAD_STATUS_LENGTH"

text \<open>\<open>waitExited pid\<close> returns.\<close>

definition waitExited :: "rsys \<Rightarrow> nat \<Rightarrow> bool" where
  "waitExited s pid \<longleftrightarrow> latch_wait (rs_latch s (latch_index pid)) \<noteq> None"

definition setExited :: "nat \<Rightarrow> rsys \<Rightarrow> rsys" where
  "setExited tid s = s\<lparr>rs_latch := (rs_latch s)(latch_index tid := unlatch (rs_latch s (latch_index tid)))\<rparr>"

definition waitPred :: "rsys \<Rightarrow> rproc \<Rightarrow> bool" where
  "waitPred s P \<longleftrightarrow> (if r_pred P = 0 then True else waitExited s (r_pred P))"

definition setPred :: "nat \<Rightarrow> rproc \<Rightarrow> rproc" where
  "setPred tid P = P\<lparr>r_pred := tid\<rparr>"

definition dontFork :: "nat \<Rightarrow> rproc \<Rightarrow> bool" where
  "dontFork lognCPUs P \<longleftrightarrow> r_nest P \<ge> lognCPUs"

section \<open>Transactions\<close>

definition goto :: "stmt list \<Rightarrow> rproc \<Rightarrow> rproc" where
  "goto c P = P\<lparr>r_ctx := (r_ctx P)\<lparr>c_code := c\<rparr>\<rparr>"

text \<open>\<open>atomicBegin\<close>: the context is saved, and the page sets start empty.\<close>

definition atomicBegin :: "nat \<Rightarrow> rproc \<Rightarrow> rproc" where
  "atomicBegin now P = P\<lparr>r_saved := r_ctx P, r_buf := [], r_seen := now, r_phase := Active\<rparr>"

text \<open>
  \<open>abort\<close> reverts memory and resumes at the saved context, inside \<open>atomicBegin\<close>. The fields of
  \<open>xthread\<close> and \<open>xrun\<close> themselves keep their values.
\<close>

definition run_abort :: "nat \<Rightarrow> rproc \<Rightarrow> rproc" where
  "run_abort now P = atomicBegin now (P\<lparr>r_ctx := r_saved P\<rparr>)"

datatype commitResult = FAILED | SUCCEEDED | OPTIMIZED

text \<open>
  What \<open>atomicCommit\<close> can return in a state: it waits (no result) while the predecessor has not
  exited, and may fail only when another process committed since this one began or was last
  found consistent.
\<close>

definition atomicCommit :: "rsys \<Rightarrow> rproc \<Rightarrow> commitResult \<Rightarrow> bool" where
  "atomicCommit s P r \<longleftrightarrow>
     (if r_buf P = [] then r = OPTIMIZED
      else waitPred s P \<and> (r = SUCCEEDED \<or> r = FAILED \<and> r_seen P \<noteq> rs_commits s))"

definition put_proc :: "nat \<Rightarrow> rproc \<Rightarrow> rsys \<Rightarrow> rsys" where
  "put_proc i P s = s\<lparr>rs_procs := (rs_procs s)(i \<mapsto> P)\<rparr>"

definition atomicEnd :: "commitResult \<Rightarrow> nat \<Rightarrow> rproc \<Rightarrow> rsys \<Rightarrow> rsys" where
  "atomicEnd r i P s = (case r of
     FAILED \<Rightarrow> put_proc i (run_abort (rs_commits s) P) s
   | SUCCEEDED \<Rightarrow> put_proc i (setPred 0 P\<lparr>r_phase := Outside\<rparr>)
       (s\<lparr>rs_log := rs_log s @ r_buf P, rs_commits := Suc (rs_commits s)\<rparr>)
   | OPTIMIZED \<Rightarrow> put_proc i (P\<lparr>r_phase := Outside\<rparr>) s)"

text \<open>The places where the engine ends the current transaction.\<close>

fun ends_at :: "nat \<Rightarrow> rproc \<Rightarrow> stmt list \<Rightarrow> bool" where
  "ends_at k P [] \<longleftrightarrow> c_frames (r_ctx P) = []"
| "ends_at k P (Punctuate # c) \<longleftrightarrow> True"
| "ends_at k P (Spawn b # c) \<longleftrightarrow> \<not> dontFork k P"
| "ends_at k P (Sync n # c) \<longleftrightarrow> n < length (c_env (r_ctx P)) \<and> c_env (r_ctx P) ! n \<noteq> Direct"
| "ends_at k P _ \<longleftrightarrow> False"

section \<open>Fork\<close>

definition insert_before :: "nat \<Rightarrow> nat \<Rightarrow> nat list \<Rightarrow> nat list" where
  "insert_before j i L = takeWhile (\<lambda>x. x \<noteq> i) L @ j # dropWhile (\<lambda>x. x \<noteq> i) L"

definition live :: "rsys \<Rightarrow> nat \<Rightarrow> bool" where
  "live s j \<longleftrightarrow> (\<exists>P. rs_procs s j = Some P \<and> r_phase P \<noteq> Exited)"

definition child_of :: "nat \<Rightarrow> nat \<Rightarrow> stmt list \<Rightarrow> rproc \<Rightarrow> rproc" where
  "child_of now j b P = atomicBegin now
     (P\<lparr>r_tid := j, r_nest := Suc (r_nest P), r_ctx := \<lparr>c_code = b, c_env = c_env (r_ctx P), c_frames = []\<rparr>\<rparr>)"

definition parent_of :: "nat \<Rightarrow> nat \<Rightarrow> stmt list \<Rightarrow> rproc \<Rightarrow> rproc" where
  "parent_of now j c P = atomicBegin now (setPred j
     (P\<lparr>r_ctx := (r_ctx P)\<lparr>c_code := c, c_env := c_env (r_ctx P) @ [Forked j]\<rparr>\<rparr>))"

definition forkSpawn :: "nat \<Rightarrow> nat \<Rightarrow> stmt list \<Rightarrow> stmt list \<Rightarrow> rproc \<Rightarrow> rsys \<Rightarrow> rsys" where
  "forkSpawn i j b c P s =
     s\<lparr>rs_procs := (rs_procs s)(j \<mapsto> child_of (rs_commits s) j b P, i \<mapsto> parent_of (rs_commits s) j c P),
       rs_order := insert_before j i (rs_order s),
       rs_fresh := (rs_fresh s \<and> (\<forall>k. rs_procs s k \<noteq> None \<longrightarrow> latch_index k \<noteq> latch_index j))\<rparr>"

section \<open>Steps\<close>

text \<open>\<open>k\<close> is \<open>lognCPUs\<close>, the nesting level from which \<open>spawn\<close> runs the body in place.\<close>

inductive rstep :: "nat \<Rightarrow> nat \<Rightarrow> rsys \<Rightarrow> rsys \<Rightarrow> bool" for k where
  r_work: "rs_procs s i = Some P \<Longrightarrow> r_phase P = Active \<Longrightarrow> c_code (r_ctx P) = Work n # c \<Longrightarrow>
     rstep k i s (put_proc i (goto c P\<lparr>r_buf := r_buf P @ [n]\<rparr>) s)"
| r_inline: "rs_procs s i = Some P \<Longrightarrow> r_phase P = Active \<Longrightarrow> c_code (r_ctx P) = Spawn b # c \<Longrightarrow>
     dontFork k P \<Longrightarrow>
     rstep k i s (put_proc i (P\<lparr>r_nest := Suc (r_nest P), r_ctx := \<lparr>c_code = b, c_env = c_env (r_ctx P),
        c_frames = (c, c_env (r_ctx P)) # c_frames (r_ctx P)\<rparr>\<rparr>) s)"
| r_leave: "rs_procs s i = Some P \<Longrightarrow> r_phase P = Active \<Longrightarrow> c_code (r_ctx P) = [] \<Longrightarrow>
     c_frames (r_ctx P) = (c, e) # fs \<Longrightarrow>
     rstep k i s (put_proc i (P\<lparr>r_nest := r_nest P - 1,
        r_ctx := \<lparr>c_code = c, c_env = e @ [Direct], c_frames = fs\<rparr>\<rparr>) s)"
| r_sync_direct: "rs_procs s i = Some P \<Longrightarrow> r_phase P = Active \<Longrightarrow> c_code (r_ctx P) = Sync n # c \<Longrightarrow>
     \<not> ends_at k P (Sync n # c) \<Longrightarrow>
     rstep k i s (put_proc i (goto c P) s)"
| r_irrevocable: "rs_procs s i = Some P \<Longrightarrow> r_phase P = Active \<Longrightarrow> c_code (r_ctx P) = Irrevocable n # c \<Longrightarrow>
     waitPred s P \<Longrightarrow>
     rstep k i s (put_proc i (goto c P\<lparr>r_seen := rs_commits s\<rparr>) (s\<lparr>rs_io := rs_io s @ [n]\<rparr>))"
| r_irrevocable_abort: "rs_procs s i = Some P \<Longrightarrow> r_phase P = Active \<Longrightarrow>
     c_code (r_ctx P) = Irrevocable n # c \<Longrightarrow> waitPred s P \<Longrightarrow> r_seen P \<noteq> rs_commits s \<Longrightarrow>
     rstep k i s (put_proc i (run_abort (rs_commits s) P) s)"
| r_end: "rs_procs s i = Some P \<Longrightarrow> r_phase P = Active \<Longrightarrow> ends_at k P (c_code (r_ctx P)) \<Longrightarrow>
     atomicCommit s P r \<Longrightarrow> rstep k i s (atomicEnd r i P s)"
| r_punctuate: "rs_procs s i = Some P \<Longrightarrow> r_phase P = Outside \<Longrightarrow> c_code (r_ctx P) = Punctuate # c \<Longrightarrow>
     rstep k i s (put_proc i (atomicBegin (rs_commits s) (goto c P)) s)"
| r_fork: "rs_procs s i = Some P \<Longrightarrow> r_phase P = Outside \<Longrightarrow> c_code (r_ctx P) = Spawn b # c \<Longrightarrow>
     j \<noteq> 0 \<Longrightarrow> \<not> live s j \<Longrightarrow> rstep k i s (forkSpawn i j b c P s)"
| r_sync: "rs_procs s i = Some P \<Longrightarrow> r_phase P = Outside \<Longrightarrow> c_code (r_ctx P) = Sync n # c \<Longrightarrow>
     n < length (c_env (r_ctx P)) \<Longrightarrow> c_env (r_ctx P) ! n = Forked t \<Longrightarrow> waitExited s t \<Longrightarrow>
     rstep k i s (put_proc i (atomicBegin (rs_commits s) (goto c P)) s)"
| r_exit: "rs_procs s i = Some P \<Longrightarrow> r_phase P = Outside \<Longrightarrow> c_code (r_ctx P) = [] \<Longrightarrow>
     c_frames (r_ctx P) = [] \<Longrightarrow> waitPred s P \<Longrightarrow>
     rstep k i s (put_proc i (P\<lparr>r_phase := Exited\<rparr>) (if i = rs_root s then s else setExited (r_tid P) s))"

text \<open>The process of \<open>main\<close>, after \<open>initialize\<close> has begun its first transaction.\<close>

definition r_init :: "nat \<Rightarrow> stmt list \<Rightarrow> rsys" where
  "r_init root main = \<lparr>rs_procs = [root \<mapsto> \<lparr>r_tid = root, r_pred = 0, r_nest = 0,
       r_ctx = \<lparr>c_code = main, c_env = [], c_frames = []\<rparr>,
       r_saved = \<lparr>c_code = main, c_env = [], c_frames = []\<rparr>,
       r_buf = [], r_seen = 0, r_phase = Active\<rparr>],
     rs_latch = (\<lambda>_. xlatch_new 0), rs_log = [], rs_io = [], rs_commits = 0,
     rs_order = [root], rs_root = root, rs_fresh = True\<rparr>"

inductive rreach :: "nat \<Rightarrow> rsys \<Rightarrow> rsys \<Rightarrow> bool" for k s0 where
  rr_0: "rreach k s0 s0"
| rr_S: "rreach k s0 s \<Longrightarrow> rstep k i s t \<Longrightarrow> rreach k s0 t"

section \<open>The sequential program\<close>

text \<open>Without threads a spawn is a call: the labels of the body come before those of the rest.\<close>

fun works :: "stmt list \<Rightarrow> nat list" where
  "works [] = []"
| "works (Work n # c) = n # works c"
| "works (Spawn b # c) = works b @ works c"
| "works (_ # c) = works c"

fun ios :: "stmt list \<Rightarrow> nat list" where
  "ios [] = []"
| "ios (Irrevocable n # c) = n # ios c"
| "ios (Spawn b # c) = ios b @ ios c"
| "ios (_ # c) = ios c"

end
