(* ===== verification/Xrun_Inv.thy ===== *)
theory Xrun_Inv
  imports Xrun
begin

text \<open>
  The invariant of the engine: every process that has not exited waits, through its predecessor,
  for everything before it in the logical order; so only the first live process can commit, and
  the log of commits followed by what the processes still have to do is the sequential program.
\<close>

section \<open>The logical order\<close>

definition ahead :: "nat list \<Rightarrow> nat \<Rightarrow> nat list" where
  "ahead L i = takeWhile (\<lambda>x. x \<noteq> i) L"

lemma split_at: "i \<in> set L \<Longrightarrow> distinct L \<Longrightarrow> \<exists>A B. L = A @ i # B \<and> i \<notin> set A \<and> i \<notin> set B"
  by (metis distinct_append not_distinct_conv_prefix split_list distinct.simps(2))

lemma ahead_Cons: "ahead (a # L) i = (if a = i then [] else a # ahead L i)"
  by (simp add: ahead_def)

lemma ahead_append [simp]: "i \<notin> set A \<Longrightarrow> ahead (A @ i # B) i = A"
  by (simp add: ahead_def takeWhile_append)

lemma insert_before_append [simp]: "i \<notin> set A \<Longrightarrow> insert_before j i (A @ i # B) = A @ j # i # B"
  by (simp add: insert_before_def takeWhile_append dropWhile_append)

lemma ahead_set: "x \<in> set (ahead L i) \<Longrightarrow> x \<in> set L"
  by (auto simp: ahead_def dest: set_takeWhileD)

lemma not_ahead_self: "i \<notin> set (ahead L i)"
  by (auto simp: ahead_def dest: set_takeWhileD)

lemma ahead_total:
  "i \<in> set L \<Longrightarrow> j \<in> set L \<Longrightarrow> i \<noteq> j \<Longrightarrow> i \<in> set (ahead L j) \<or> j \<in> set (ahead L i)"
proof (induction L)
  case (Cons a L)
  then show ?case by (cases "a = i"; cases "a = j") (auto simp: ahead_def)
qed (simp add: ahead_def)

lemma ahead_trans:
  "j \<in> set (ahead L i) \<Longrightarrow> set (ahead L j) \<subseteq> set (ahead L i)"
proof (induction L)
  case (Cons a L)
  then show ?case using ahead_set [of _ L i] by (cases "a = i"; cases "a = j") (auto simp: ahead_Cons)
qed (simp add: ahead_def)

lemma insert_facts:
  assumes "i \<in> set L" and "distinct L" and "j \<notin> set L"
  shows "distinct (insert_before j i L)" "set (insert_before j i L) = insert j (set L)"
    "insert_before j i L \<noteq> []" "last (insert_before j i L) = last L"
    "ahead (insert_before j i L) j = ahead L i" "ahead (insert_before j i L) i = ahead L i @ [j]"
    "x \<noteq> i \<Longrightarrow> x \<noteq> j \<Longrightarrow> set (ahead L x) \<subseteq> set (ahead (insert_before j i L) x)"
    "x \<noteq> i \<Longrightarrow> x \<noteq> j \<Longrightarrow> i \<notin> set (ahead L x) \<Longrightarrow> ahead (insert_before j i L) x = ahead L x"
    "x \<in> set L \<Longrightarrow> x \<noteq> i \<Longrightarrow> x \<noteq> j \<Longrightarrow> ahead L x \<noteq> [] \<Longrightarrow>
       last (ahead (insert_before j i L) x) = last (ahead L x) \<and> ahead (insert_before j i L) x \<noteq> []"
proof -
  obtain A B where L: "L = A @ i # B" "i \<notin> set A" "i \<notin> set B" using split_at [OF assms(1,2)] by blast
  have j: "j \<notin> set A" "j \<noteq> i" "j \<notin> set B" using assms(3) L by auto
  show "distinct (insert_before j i L)" "set (insert_before j i L) = insert j (set L)"
    "insert_before j i L \<noteq> []" "last (insert_before j i L) = last L"
    using assms(2) L(2,3) j unfolding L(1) by simp_all
  show "ahead (insert_before j i L) j = ahead L i" using L j by simp
  have "ahead ((A @ [j]) @ i # B) i = A @ [j]" using L j by (intro ahead_append) auto
  then show "ahead (insert_before j i L) i = ahead L i @ [j]" using L by simp
  assume x: "x \<noteq> i" "x \<noteq> j"
  have "ahead (A @ C) x = (if x \<in> set A then ahead A x else A @ ahead C x)" for C
    by (auto simp: ahead_def takeWhile_append)
  then have a: "ahead (A @ j # i # B) x = (if x \<in> set A then ahead A x else A @ j # i # ahead B x)"
    "ahead L x = (if x \<in> set A then ahead A x else A @ i # ahead B x)"
    using x L by (auto simp: ahead_def)
  show "set (ahead L x) \<subseteq> set (ahead (insert_before j i L) x)" using a L by auto
  show "i \<notin> set (ahead L x) \<Longrightarrow> ahead (insert_before j i L) x = ahead L x"
    using a L by (auto split: if_splits)
  show "last (ahead (insert_before j i L) x) = last (ahead L x) \<and> ahead (insert_before j i L) x \<noteq> []"
    if "x \<in> set L" "ahead L x \<noteq> []"
    using a L that by (auto split: if_splits)
qed

section \<open>What a process still has to do\<close>

definition ctx_works :: "ctx \<Rightarrow> nat list" where
  "ctx_works c = works (c_code c) @ concat (map (works \<circ> fst) (c_frames c))"

definition ctx_ios :: "ctx \<Rightarrow> nat list" where
  "ctx_ios c = ios (c_code c) @ concat (map (ios \<circ> fst) (c_frames c))"

definition todo :: "rproc \<Rightarrow> nat list" where
  "todo P = (case r_phase P of Active \<Rightarrow> r_buf P @ ctx_works (r_ctx P)
             | Outside \<Rightarrow> ctx_works (r_ctx P) | Exited \<Rightarrow> [])"

definition io_todo :: "rproc \<Rightarrow> nat list" where
  "io_todo P = (case r_phase P of Exited \<Rightarrow> [] | _ \<Rightarrow> ctx_ios (r_ctx P))"

definition todo_of :: "(rproc \<Rightarrow> nat list) \<Rightarrow> rsys \<Rightarrow> nat \<Rightarrow> nat list" where
  "todo_of f s i = (case rs_procs s i of None \<Rightarrow> [] | Some P \<Rightarrow> f P)"

definition total :: "(rproc \<Rightarrow> nat list) \<Rightarrow> rsys \<Rightarrow> nat list" where
  "total f s = concat (map (todo_of f s) (rs_order s))"

definition exited :: "rsys \<Rightarrow> nat set" where
  "exited s = {i. \<exists>P. rs_procs s i = Some P \<and> r_phase P = Exited}"

text \<open>Everything that comes before a process has exited.\<close>

definition oldest :: "rsys \<Rightarrow> nat \<Rightarrow> bool" where
  "oldest s i \<longleftrightarrow> set (ahead (rs_order s) i) \<subseteq> exited s"

definition handles :: "ctx \<Rightarrow> thandle set" where
  "handles c = set (c_env c) \<union> (\<Union>(q, e) \<in> set (c_frames c). set e)"

definition knows :: "nat list \<Rightarrow> ctx \<Rightarrow> bool" where
  "knows A c \<longleftrightarrow> (\<forall>t. Forked t \<in> handles c \<longrightarrow> t \<in> set A)"

definition proc_ok :: "rsys \<Rightarrow> nat \<Rightarrow> rproc \<Rightarrow> bool" where
  "proc_ok s i P \<longleftrightarrow> r_tid P = i \<and> i \<noteq> 0 \<and> i \<in> set (rs_order s) \<and>
     (r_pred P = 0 \<and> oldest s i \<or>
      ahead (rs_order s) i \<noteq> [] \<and> r_pred P = last (ahead (rs_order s) i)) \<and>
     (r_phase P = Exited \<longrightarrow> oldest s i) \<and>
     knows (ahead (rs_order s) i) (r_ctx P) \<and> knows (ahead (rs_order s) i) (r_saved P) \<and>
     (r_phase P = Active \<longrightarrow>
        ctx_works (r_saved P) = r_buf P @ ctx_works (r_ctx P) \<and>
        (ctx_ios (r_saved P) = ctx_ios (r_ctx P) \<or> r_seen P = rs_commits s \<and> oldest s i))"

definition latch_ok :: "rsys \<Rightarrow> bool" where
  "latch_ok s \<longleftrightarrow> (\<forall>n. lt_semaphore (rs_latch s n) > 0 \<longrightarrow> lt_unlatched (rs_latch s n)) \<and>
     (\<forall>n. lt_unlatched (rs_latch s n) \<longleftrightarrow>
        (\<exists>i \<in> exited s. i \<noteq> rs_root s \<and> latch_index i = n))"

definition order_ok :: "rsys \<Rightarrow> bool" where
  "order_ok s \<longleftrightarrow> distinct (rs_order s) \<and> rs_order s \<noteq> [] \<and> last (rs_order s) = rs_root s \<and>
     set (rs_order s) = dom (rs_procs s) \<and> inj_on latch_index (dom (rs_procs s))"

definition run_inv :: "stmt list \<Rightarrow> rsys \<Rightarrow> bool" where
  "run_inv main s \<longleftrightarrow> order_ok s \<and> latch_ok s \<and>
     (\<forall>i P. rs_procs s i = Some P \<longrightarrow> proc_ok s i P) \<and>
     rs_log s @ total todo s = works main \<and> rs_io s @ total io_todo s = ios main"

section \<open>Consequences\<close>

lemma root_not_ahead:
  assumes "order_ok s" and "i \<in> set (rs_order s)"
  shows "rs_root s \<notin> set (ahead (rs_order s) i)"
proof -
  obtain A B where "rs_order s = A @ i # B" "i \<notin> set A"
    using split_at assms by (metis order_ok_def)
  moreover from this have "rs_root s \<in> set (i # B)"
    using assms(1) last_in_set [of "i # B"] by (simp add: order_ok_def)
  ultimately show ?thesis using assms(1) by (auto simp: order_ok_def)
qed

lemma waitExited_iff:
  assumes "order_ok s" and "latch_ok s" and "t \<in> dom (rs_procs s)" and "t \<noteq> rs_root s"
  shows "waitExited s t \<longleftrightarrow> t \<in> exited s"
proof -
  have "waitExited s t \<longleftrightarrow> lt_unlatched (rs_latch s (latch_index t))"
    using assms(2) by (auto simp: waitExited_def latch_wait_def sem_wait_def latch_ok_def)
  also have "\<dots> \<longleftrightarrow> t \<in> exited s"
  proof
    assume "lt_unlatched (rs_latch s (latch_index t))"
    then obtain i where i: "i \<in> exited s" "latch_index i = latch_index t"
      using assms(2) by (auto simp: latch_ok_def)
    then have "i \<in> dom (rs_procs s)" by (auto simp: exited_def)
    with i assms(1,3) have "i = t" by (auto simp: order_ok_def dest: inj_onD)
    with i show "t \<in> exited s" by simp
  next
    assume "t \<in> exited s"
    then show "lt_unlatched (rs_latch s (latch_index t))" using assms(2,4) by (auto simp: latch_ok_def)
  qed
  finally show ?thesis .
qed

lemma waitPred_oldest:
  assumes "run_inv main s" and "rs_procs s i = Some P"
  shows "waitPred s P \<longleftrightarrow> oldest s i"
proof -
  let ?A = "ahead (rs_order s) i"
  have o: "order_ok s" "latch_ok s" and p: "proc_ok s i P"
    using assms by (auto simp: run_inv_def)
  show ?thesis
  proof (cases "r_pred P = 0 \<and> oldest s i")
    case True
    then show ?thesis by (simp add: waitPred_def)
  next
    case False
    with p have l: "?A \<noteq> []" "r_pred P = last ?A" by (auto simp: proc_ok_def)
    then have m: "last ?A \<in> set ?A" by simp
    then have d: "last ?A \<in> dom (rs_procs s)" "last ?A \<in> set (rs_order s)"
      using o(1) ahead_set by (auto simp: order_ok_def)
    have r: "last ?A \<noteq> rs_root s"
      using m root_not_ahead [OF o(1), of i] p by (auto simp: proc_ok_def)
    obtain Q where Q: "rs_procs s (last ?A) = Some Q" using d(1) by auto
    have q: "proc_ok s (last ?A) Q" using assms(1) Q by (auto simp: run_inv_def)
    then have "r_pred P \<noteq> 0" using l(2) by (auto simp: proc_ok_def)
    then have w: "waitPred s P \<longleftrightarrow> last ?A \<in> exited s"
      using l waitExited_iff [OF o d(1) r] by (simp add: waitPred_def)
    obtain A B where L: "rs_order s = A @ i # B" "i \<notin> set A"
      using p o(1) split_at by (metis order_ok_def proc_ok_def)
    then have A: "?A = A" by simp
    have "oldest s i" if "last ?A \<in> exited s"
    proof -
      have "oldest s (last ?A)" using that Q q by (auto simp: exited_def proc_ok_def)
      moreover obtain A' where A': "A = A' @ [last A]" using l(1) A by (metis append_butlast_last_id)
      then have "rs_order s = A' @ last A # i # B" using L by simp
      then have "last A \<notin> set A'" using o(1) by (auto simp: order_ok_def)
      with \<open>rs_order s = A' @ last A # i # B\<close> have "ahead (rs_order s) (last A) = A'" by simp
      ultimately show ?thesis using that A A' by (auto simp: oldest_def) (metis Un_iff empty_iff insert_iff list.set(1) list.simps(15) set_append subsetD)
    qed
    with w m show ?thesis by (auto simp: oldest_def)
  qed
qed

lemma oldest_unique:
  assumes "order_ok s" and "oldest s i" and "oldest s j" and "i \<notin> exited s" and "j \<notin> exited s"
    and "i \<in> set (rs_order s)" and "j \<in> set (rs_order s)"
  shows "i = j"
  using ahead_total [OF assms(6,7)] assms by (auto simp: oldest_def)

end
