(* ===== verification/Xrun_Safe.thy ===== *)
theory Xrun_Safe
  imports Xrun_Inv
begin

text \<open>The invariant of the engine is preserved by every step.\<close>

section \<open>Steps of one process\<close>

lemma total_split:
  assumes "order_ok s" and "rs_procs s i = Some P"
  obtains X Y where "total f s = X @ f P @ Y"
    and "\<And>(t :: rsys) P'. rs_order t = rs_order s \<Longrightarrow> rs_procs t = (rs_procs s)(i \<mapsto> P') \<Longrightarrow> total f t = X @ f P' @ Y"
    and "oldest s i \<Longrightarrow> (\<And>Q. r_phase Q = Exited \<Longrightarrow> f Q = []) \<Longrightarrow> X = []"
proof -
  have "i \<in> set (rs_order s)" using assms by (auto simp: order_ok_def)
  then obtain A B where L: "rs_order s = A @ i # B" "i \<notin> set A" "i \<notin> set B"
    using split_at [of i "rs_order s"] assms(1) by (auto simp: order_ok_def)
  let ?X = "concat (map (todo_of f s) A)" and ?Y = "concat (map (todo_of f s) B)"
  show ?thesis
  proof (rule that [of ?X ?Y])
    show "total f s = ?X @ f P @ ?Y" using assms(2) L(1) by (simp add: total_def todo_of_def)
    fix t :: rsys and P' assume t: "rs_order t = rs_order s" "rs_procs t = (rs_procs s)(i \<mapsto> P')"
    have "todo_of f t j = todo_of f s j" if "j \<noteq> i" for j using t that by (simp add: todo_of_def)
    then have "map (todo_of f t) A = map (todo_of f s) A" "map (todo_of f t) B = map (todo_of f s) B"
      using L(2,3) by (metis map_eq_conv)+
    moreover have "todo_of f t i = f P'" using t by (simp add: todo_of_def)
    ultimately show "total f t = ?X @ f P' @ ?Y" using t(1) L(1) by (simp add: total_def cong: map_cong)
  next
    assume o: "oldest s i" and z: "\<And>Q. r_phase Q = Exited \<Longrightarrow> f Q = []"
    have "todo_of f s j = []" if "j \<in> set A" for j
      using o that L z by (fastforce simp: oldest_def exited_def todo_of_def)
    then show "?X = []" by simp
  qed
qed

lemma exited_put:
  assumes "rs_procs s i = Some P" and "r_phase P \<noteq> Exited" and "r_phase P' \<noteq> Exited"
    and "rs_procs t = (rs_procs s)(i \<mapsto> P')"
  shows "exited t = exited s"
  using assms by (auto simp: exited_def split: if_splits)

definition advances :: "(rproc \<Rightarrow> nat list) \<Rightarrow> bool \<Rightarrow> rproc \<Rightarrow> rproc \<Rightarrow> nat list \<Rightarrow> nat list \<Rightarrow> bool" where
  "advances f old P P' l l' \<longleftrightarrow> l' = l \<and> f P' = f P \<or> old \<and> (\<exists>w. l' = l @ w \<and> f P = w @ f P')"

lemma advances_total:
  assumes "advances f (oldest s i) P P' l l'" and "order_ok s" and "rs_procs s i = Some P"
    and "\<And>Q. r_phase Q = Exited \<Longrightarrow> f Q = []" and "rs_order t = rs_order s"
    and "rs_procs t = (rs_procs s)(i \<mapsto> P')"
  shows "l' @ total f t = l @ total f s"
proof -
  obtain X Y where *: "total f s = X @ f P @ Y" "total f t = X @ f P' @ Y" "oldest s i \<Longrightarrow> X = []"
    using total_split [OF assms(2,3), of f thesis] assms(4-6) by blast
  then show ?thesis using assms(1) by (auto simp: advances_def)
qed

lemma todo_exited: "r_phase Q = Exited \<Longrightarrow> todo Q = []" "r_phase Q = Exited \<Longrightarrow> io_todo Q = []"
  by (simp_all add: todo_def io_todo_def)

lemma inv_put:
  assumes inv: "run_inv main s" and P: "rs_procs s i = Some P" "r_phase P \<noteq> Exited"
    and P': "r_phase P' \<noteq> Exited" and t: "rs_procs t = (rs_procs s)(i \<mapsto> P')"
    "rs_order t = rs_order s" "rs_root t = rs_root s" "rs_latch t = rs_latch s"
    and c: "rs_commits t = rs_commits s \<or> oldest s i" and ok: "proc_ok t i P'"
    and w: "advances todo (oldest s i) P P' (rs_log s) (rs_log t)"
    and io: "advances io_todo (oldest s i) P P' (rs_io s) (rs_io t)"
  shows "run_inv main t"
proof -
  have o: "order_ok s" and l: "latch_ok s" and p: "\<And>j Q. rs_procs s j = Some Q \<Longrightarrow> proc_ok s j Q"
    using inv by (auto simp: run_inv_def)
  have e: "exited t = exited s" by (rule exited_put [OF P P' t(1)])
  then have old: "oldest t = oldest s" by (simp add: oldest_def fun_eq_iff t(2))
  have "order_ok t" using o t P(1) by (simp add: order_ok_def insert_absorb domI)
  moreover have "latch_ok t" using l unfolding latch_ok_def e t(3,4) .
  moreover have "proc_ok t j Q" if j: "rs_procs t j = Some Q" for j Q
  proof (cases "j = i")
    case True
    with j ok t(1) show ?thesis by simp
  next
    case False
    with j t(1) have Q: "rs_procs s j = Some Q" by simp
    have "rs_commits t = rs_commits s" if "r_phase Q = Active" "oldest s j"
    proof (rule ccontr)
      assume "rs_commits t \<noteq> rs_commits s"
      with c have "oldest s i" by simp
      moreover have "i \<notin> exited s" "j \<notin> exited s" using P Q that(1) by (auto simp: exited_def)
      moreover have "i \<in> set (rs_order s)" "j \<in> set (rs_order s)"
        using p [OF P(1)] p [OF Q] by (auto simp: proc_ok_def)
      ultimately show False using oldest_unique [OF o] that(2) False by blast
    qed
    then show ?thesis using p [OF Q] by (auto simp: proc_ok_def old t(2))
  qed
  moreover have "rs_log t @ total todo t = works main"
    using advances_total [OF w o P(1) todo_exited(1) t(2,1)] inv by (simp add: run_inv_def)
  moreover have "rs_io t @ total io_todo t = ios main"
    using advances_total [OF io o P(1) todo_exited(2) t(2,1)] inv by (simp add: run_inv_def)
  ultimately show ?thesis unfolding run_inv_def by blast
qed

section \<open>Exit\<close>

lemma inv_exit:
  assumes inv: "run_inv main s" and P: "rs_procs s i = Some P" "r_phase P \<noteq> Exited"
    and old: "oldest s i" and z: "todo P = []" "io_todo P = []"
    and t: "t = put_proc i (P\<lparr>r_phase := Exited\<rparr>) (if i = rs_root s then s else setExited (r_tid P) s)"
  shows "run_inv main t"
proof -
  have o: "order_ok s" and l: "latch_ok s" and p: "\<And>j Q. rs_procs s j = Some Q \<Longrightarrow> proc_ok s j Q"
    using inv by (auto simp: run_inv_def)
  have t': "rs_procs t = (rs_procs s)(i \<mapsto> P\<lparr>r_phase := Exited\<rparr>)" "rs_order t = rs_order s"
    "rs_root t = rs_root s" "rs_log t = rs_log s" "rs_io t = rs_io s" "rs_commits t = rs_commits s"
    by (simp_all add: t put_proc_def setExited_def)
  have e: "exited t = insert i (exited s)" using t'(1) by (auto simp: exited_def)
  then have mono: "oldest s j \<Longrightarrow> oldest t j" for j by (auto simp: oldest_def t'(2))
  have tid: "r_tid P = i" using p [OF P(1)] by (simp add: proc_ok_def)
  have "order_ok t" using o t' P(1) by (simp add: order_ok_def insert_absorb domI)
  moreover have "latch_ok t"
  proof (cases "i = rs_root s")
    case True
    then have "rs_latch t = rs_latch s" by (simp add: t put_proc_def)
    then show ?thesis using l True by (auto simp: latch_ok_def e t'(3))
  next
    case False
    then have "rs_latch t = (rs_latch s)(latch_index i := unlatch (rs_latch s (latch_index i)))"
      by (simp add: t put_proc_def setExited_def tid)
    then show ?thesis using l False
      by (auto simp: latch_ok_def e t'(3) unlatch_def set_unlatched_def sem_post_def)
  qed
  moreover have "proc_ok t j Q" if j: "rs_procs t j = Some Q" for j Q
  proof (cases "j = i")
    case True
    with j t'(1) have "Q = P\<lparr>r_phase := Exited\<rparr>" by simp
    then show ?thesis using p [OF P(1)] True mono [of i] old by (auto simp: proc_ok_def t'(2))
  next
    case False
    with j t'(1) have "rs_procs s j = Some Q" by simp
    from p [OF this] show ?thesis using mono [of j] by (auto simp: proc_ok_def t'(2,6))
  qed
  moreover have "advances todo (oldest s i) P (P\<lparr>r_phase := Exited\<rparr>) (rs_log s) (rs_log t)"
    "advances io_todo (oldest s i) P (P\<lparr>r_phase := Exited\<rparr>) (rs_io s) (rs_io t)"
    using z by (simp_all add: advances_def t' todo_exited)
  then have "rs_log t @ total todo t = works main" "rs_io t @ total io_todo t = ios main"
    using advances_total [OF _ o P(1) todo_exited(1) t'(2,1)]
      advances_total [OF _ o P(1) todo_exited(2) t'(2,1)] inv by (simp_all add: run_inv_def)
  ultimately show ?thesis unfolding run_inv_def by blast
qed

section \<open>Fork\<close>

lemma total_fork:
  assumes "order_ok s" and "rs_procs s i = Some P" and "j \<notin> set (rs_order s)" and "j \<noteq> i"
    and "rs_order t = insert_before j i (rs_order s)"
    and "rs_procs t = (rs_procs s)(j \<mapsto> C, i \<mapsto> P')" and "f P = f C @ f P'"
  shows "total f t = total f s"
proof -
  have "i \<in> set (rs_order s)" using assms by (auto simp: order_ok_def)
  then obtain A B where L: "rs_order s = A @ i # B" "i \<notin> set A" "i \<notin> set B"
    using split_at [of i "rs_order s"] assms(1) by (auto simp: order_ok_def)
  have "todo_of f t k = todo_of f s k" if "k \<noteq> i" "k \<noteq> j" for k
    using assms(6) that by (simp add: todo_of_def)
  then have "map (todo_of f t) A = map (todo_of f s) A" "map (todo_of f t) B = map (todo_of f s) B"
    using L assms(3) unfolding map_eq_conv by (metis Un_iff set_append list.set_intros(2))+
  moreover have "todo_of f t i = f P'" "todo_of f t j = f C" "todo_of f s i = f P"
    using assms(2,4,6) by (simp_all add: todo_of_def)
  moreover have "rs_order t = A @ j # i # B" using assms(5) L by simp
  ultimately show ?thesis using L(1) assms(7) by (simp add: total_def cong: map_cong)
qed

lemma knows_mono: "knows A c \<Longrightarrow> set A \<subseteq> set B \<Longrightarrow> knows B c"
  by (auto simp: knows_def)

lemma inv_fork:
  assumes inv: "run_inv main s" and P: "rs_procs s i = Some P" "r_phase P = Outside"
    and code: "c_code (r_ctx P) = Spawn b # c" and j: "j \<noteq> 0"
    and fresh: "\<forall>k. rs_procs s k \<noteq> None \<longrightarrow> latch_index k \<noteq> latch_index j"
  shows "run_inv main (forkSpawn i j b c P s)"
proof -
  let ?t = "forkSpawn i j b c P s" and ?L = "rs_order s"
  let ?C = "child_of (rs_commits s) j b P" and ?Q = "parent_of (rs_commits s) j c P"
  have o: "order_ok s" and l: "latch_ok s" and p: "\<And>k Q. rs_procs s k = Some Q \<Longrightarrow> proc_ok s k Q"
    using inv by (auto simp: run_inv_def)
  have new: "rs_procs s j = None" using fresh by auto
  with o P have d: "j \<notin> set ?L" "i \<in> set ?L" "distinct ?L" "j \<noteq> i" by (auto simp: order_ok_def)
  note L = insert_facts [OF d(2,3,1)]
  have t: "rs_procs ?t = (rs_procs s)(j \<mapsto> ?C, i \<mapsto> ?Q)" "rs_order ?t = insert_before j i ?L"
    "rs_root ?t = rs_root s" "rs_latch ?t = rs_latch s" "rs_commits ?t = rs_commits s"
    "rs_log ?t = rs_log s" "rs_io ?t = rs_io s"
    by (simp_all add: forkSpawn_def)
  have ph: "r_phase ?C = Active" "r_phase ?Q = Active"
    by (simp_all add: child_of_def parent_of_def atomicBegin_def)
  have e: "exited ?t = exited s" using P new d(4) by (auto simp: exited_def t(1) ph split: if_splits)
  have i: "i \<notin> exited s" using P by (simp add: exited_def)
  have pi: "proc_ok s i P" by (rule p [OF P(1)])
  have "order_ok ?t"
  proof -
    have "inj_on latch_index (insert j (dom (rs_procs s)))"
      using o fresh new by (auto simp: order_ok_def inj_on_def)
    then show ?thesis using o P(1) L(1-4) by (simp add: order_ok_def t insert_commute insert_absorb domI)
  qed
  moreover have "latch_ok ?t" using l unfolding latch_ok_def e t(3,4) .
  moreover have "proc_ok ?t k Q" if k: "rs_procs ?t k = Some Q" for k Q
  proof -
    consider "k = i" "Q = ?Q" | "k = j" "Q = ?C" | "k \<noteq> i" "k \<noteq> j" "rs_procs s k = Some Q"
      using k d(4) by (auto simp: t(1) split: if_splits)
    then show ?thesis
    proof cases
      case 1
      have "knows (ahead ?L i @ [j]) (r_ctx ?Q)"
        using pi by (auto simp: proc_ok_def knows_def handles_def parent_of_def atomicBegin_def setPred_def)
      then show ?thesis using pi 1 d(2)
        by (simp add: proc_ok_def t(2) L(2,6)) (simp add: parent_of_def atomicBegin_def setPred_def)
    next
      case 2
      have "knows (ahead ?L i) (r_ctx ?C)"
        using pi by (auto simp: proc_ok_def knows_def handles_def child_of_def atomicBegin_def)
      then show ?thesis using pi 2 j
        by (simp add: proc_ok_def t(2) L(2,5) oldest_def e) (simp add: child_of_def atomicBegin_def)
    next
      case 3
      have q: "proc_ok s k Q" by (rule p [OF 3(3)])
      have same: "ahead (insert_before j i ?L) k = ahead ?L k" if "oldest s k"
        using L(8) [OF 3(1,2)] that i by (auto simp: oldest_def)
      then have old: "oldest s k \<Longrightarrow> oldest ?t k" by (simp add: oldest_def t(2) e)
      have kn: "knows (ahead ?L k) x \<Longrightarrow> knows (ahead (insert_before j i ?L) k) x" for x
        using knows_mono L(7) [OF 3(1,2)] by blast
      have "k \<in> set ?L" using q by (simp add: proc_ok_def)
      then show ?thesis using q old kn L(9) [OF _ 3(1,2)]
        by (auto simp: proc_ok_def t(2,5) L(2))
    qed
  qed
  moreover have "total todo ?t = total todo s"
    by (rule total_fork [OF o P(1) d(1,4) t(2,1)])
      (use P code in \<open>simp add: todo_def ph, simp add: child_of_def parent_of_def atomicBegin_def
         setPred_def ctx_works_def\<close>)
  moreover have "total io_todo ?t = total io_todo s"
    by (rule total_fork [OF o P(1) d(1,4) t(2,1)])
      (use P code in \<open>simp add: io_todo_def ph, simp add: child_of_def parent_of_def atomicBegin_def
         setPred_def ctx_ios_def\<close>)
  ultimately show ?thesis using inv by (simp add: run_inv_def t(6,7))
qed

section \<open>Every step\<close>

lemma put_proc_simps [simp]:
  "rs_procs (put_proc i P s) = (rs_procs s)(i \<mapsto> P)" "rs_order (put_proc i P s) = rs_order s"
  "rs_root (put_proc i P s) = rs_root s" "rs_latch (put_proc i P s) = rs_latch s"
  "rs_log (put_proc i P s) = rs_log s" "rs_io (put_proc i P s) = rs_io s"
  "rs_commits (put_proc i P s) = rs_commits s" "rs_fresh (put_proc i P s) = rs_fresh s"
  by (simp_all add: put_proc_def)

lemma proc_ok_put:
  assumes "proc_ok s i P" and "exited t = exited s" and "rs_order t = rs_order s"
    and "r_tid P' = r_tid P" and "r_pred P' = r_pred P \<or> r_pred P' = 0 \<and> oldest s i"
    and "r_phase P' \<noteq> Exited"
    and "\<And>A. knows A (r_ctx P) \<Longrightarrow> knows A (r_saved P) \<Longrightarrow> knows A (r_ctx P') \<and> knows A (r_saved P')"
    and "r_phase P' = Active \<Longrightarrow> ctx_works (r_saved P') = r_buf P' @ ctx_works (r_ctx P') \<and>
        (ctx_ios (r_saved P') = ctx_ios (r_ctx P') \<or> r_seen P' = rs_commits t \<and> oldest s i)"
  shows "proc_ok t i P'"
proof -
  have "oldest t i = oldest s i" using assms(2,3) by (simp add: oldest_def)
  then show ?thesis using assms by (auto simp: proc_ok_def)
qed

lemma inv_put':
  assumes inv: "run_inv main s" and P: "rs_procs s i = Some P" "r_phase P \<noteq> Exited"
    and P': "r_phase P' \<noteq> Exited" and t: "rs_procs s' = rs_procs s"
    "rs_order s' = rs_order s" "rs_root s' = rs_root s" "rs_latch s' = rs_latch s"
    and c: "rs_commits s' = rs_commits s \<or> oldest s i"
    and w: "advances todo (oldest s i) P P' (rs_log s) (rs_log s')"
    and io: "advances io_todo (oldest s i) P P' (rs_io s) (rs_io s')"
    and tid: "r_tid P' = r_tid P" "r_pred P' = r_pred P \<or> r_pred P' = 0 \<and> oldest s i"
    and kn: "\<And>A. knows A (r_ctx P) \<Longrightarrow> knows A (r_saved P) \<Longrightarrow> knows A (r_ctx P') \<and> knows A (r_saved P')"
    and act: "r_phase P' = Active \<Longrightarrow> ctx_works (r_saved P') = r_buf P' @ ctx_works (r_ctx P') \<and>
        (ctx_ios (r_saved P') = ctx_ios (r_ctx P') \<or> r_seen P' = rs_commits s' \<and> oldest s i)"
  shows "run_inv main (put_proc i P' s')"
proof (rule inv_put [OF inv P P'])
  let ?t = "put_proc i P' s'"
  show *: "rs_procs ?t = (rs_procs s)(i \<mapsto> P')" by (simp add: t(1))
  have "proc_ok s i P" using inv P(1) by (simp add: run_inv_def)
  from proc_ok_put [OF this exited_put [OF P P' *] _ tid P' kn] act t(2)
  show "proc_ok ?t i P'" by simp
qed (use t c w io in simp_all)

lemma active_facts:
  assumes "run_inv main s" and "rs_procs s i = Some P" and "r_phase P = Active"
  shows "ctx_works (r_saved P) = r_buf P @ ctx_works (r_ctx P)"
    "ctx_ios (r_saved P) = ctx_ios (r_ctx P) \<or> r_seen P = rs_commits s \<and> oldest s i"
  using assms by (auto simp: run_inv_def proc_ok_def)

text \<open>An abort can only restart a transaction that has performed no I/O.\<close>

lemma inv_abort:
  assumes "run_inv main s" and "rs_procs s i = Some P" and "r_phase P = Active"
    and "r_seen P \<noteq> rs_commits s"
  shows "run_inv main (put_proc i (run_abort (rs_commits s) P) s)"
  using active_facts [OF assms(1-3)] assms(3,4)
  by (intro inv_put' [OF assms(1,2)])
    (auto simp: run_abort_def atomicBegin_def advances_def todo_def io_todo_def)

lemma inv_begin:
  assumes "run_inv main s" and "rs_procs s i = Some P" and "r_phase P = Outside"
    and "works (c_code (r_ctx P)) = works c" and "ios (c_code (r_ctx P)) = ios c"
  shows "run_inv main (put_proc i (atomicBegin (rs_commits s) (goto c P)) s)"
  using assms(3-5)
  by (intro inv_put' [OF assms(1,2)])
    (auto simp: goto_def atomicBegin_def advances_def todo_def io_todo_def ctx_works_def ctx_ios_def
      knows_def handles_def)

lemma knows_frames:
  "knows A \<lparr>c_code = b, c_env = e, c_frames = fs\<rparr> \<longleftrightarrow>
     (\<forall>t. Forked t \<in> set e \<union> (\<Union>(q, e) \<in> set fs. set e) \<longrightarrow> t \<in> set A)"
  by (auto simp: knows_def handles_def)

lemma code_simps [simp]:
  "knows A (x\<lparr>c_code := c\<rparr>) = knows A x"
  by (simp add: knows_def handles_def)

lemma run_inv_step:
  assumes "rstep k i s t" and "run_inv main s" and "rs_fresh t"
  shows "run_inv main t"
  using assms
proof (induction rule: rstep.induct)
  case (r_work s i P n c)
  from active_facts [OF r_work(4,1,2)] r_work(2,3) show ?case
    by (intro inv_put' [OF r_work(4,1)])
      (auto simp: goto_def advances_def todo_def io_todo_def ctx_works_def ctx_ios_def)
next
  case (r_inline s i P b c)
  from active_facts [OF r_inline(5,1,2)] r_inline(2,3) show ?case
    by (intro inv_put' [OF r_inline(5,1)])
      (auto simp: advances_def todo_def io_todo_def ctx_works_def ctx_ios_def knows_frames,
       auto simp: knows_def handles_def)
next
  case (r_leave s i P c e fs)
  from active_facts [OF r_leave(5,1,2)] r_leave(2,3,4) show ?case
    by (intro inv_put' [OF r_leave(5,1)])
      (auto simp: advances_def todo_def io_todo_def ctx_works_def ctx_ios_def knows_frames,
       auto simp: knows_def handles_def)
next
  case (r_sync_direct s i P n c)
  from active_facts [OF r_sync_direct(5,1,2)] r_sync_direct(2,3) show ?case
    by (intro inv_put' [OF r_sync_direct(5,1)])
      (auto simp: goto_def advances_def todo_def io_todo_def ctx_works_def ctx_ios_def)
next
  case (r_irrevocable s i P n c)
  have "oldest s i" using waitPred_oldest [OF r_irrevocable(5,1)] r_irrevocable(4) by simp
  with active_facts [OF r_irrevocable(5,1,2)] r_irrevocable(2,3) show ?case
    by (intro inv_put' [OF r_irrevocable(5,1)])
      (auto simp: goto_def advances_def todo_def io_todo_def ctx_works_def ctx_ios_def)
next
  case (r_irrevocable_abort s i P n c)
  then show ?case by (intro inv_abort) auto
next
  case (r_end s i P r)
  show ?case
  proof (cases r)
    case FAILED
    then have "r_seen P \<noteq> rs_commits s" using r_end(4) by (auto simp: atomicCommit_def split: if_splits)
    then show ?thesis using inv_abort [OF r_end(5,1,2)] FAILED by (simp add: atomicEnd_def)
  next
    case SUCCEEDED
    then have "waitPred s P" using r_end(4) by (auto simp: atomicCommit_def split: if_splits)
    then have "oldest s i" using waitPred_oldest [OF r_end(5,1)] by simp
    with active_facts [OF r_end(5,1,2)] r_end(2) show ?thesis
      unfolding SUCCEEDED atomicEnd_def commitResult.case
      by (intro inv_put' [OF r_end(5,1)]) (auto simp: setPred_def advances_def todo_def io_todo_def)
  next
    case OPTIMIZED
    then have "r_buf P = []" using r_end(4) by (auto simp: atomicCommit_def split: if_splits)
    with active_facts [OF r_end(5,1,2)] r_end(2) show ?thesis
      unfolding OPTIMIZED atomicEnd_def commitResult.case
      by (intro inv_put' [OF r_end(5,1)]) (auto simp: advances_def todo_def io_todo_def)
  qed
next
  case (r_punctuate s i P c)
  then show ?case by (intro inv_begin) auto
next
  case (r_fork s i P b c j)
  then show ?case by (intro inv_fork) (auto simp: forkSpawn_def)
next
  case (r_sync s i P n c t)
  then show ?case by (intro inv_begin) auto
next
  case (r_exit s i P)
  have "oldest s i" using waitPred_oldest [OF r_exit(6,1)] r_exit(5) by simp
  then show ?case using r_exit
    by (intro inv_exit [OF r_exit(6,1)]) (auto simp: todo_def io_todo_def ctx_works_def ctx_ios_def)
qed

lemma fresh_step: "rstep k i s t \<Longrightarrow> rs_fresh t \<Longrightarrow> rs_fresh s"
  by (induction rule: rstep.induct)
    (auto simp: forkSpawn_def atomicEnd_def setExited_def split: commitResult.splits if_splits)

lemma run_inv_init: "root \<noteq> 0 \<Longrightarrow> run_inv main (r_init root main)"
  by (auto simp: run_inv_def r_init_def order_ok_def latch_ok_def exited_def proc_ok_def total_def
      todo_of_def todo_def io_todo_def ctx_works_def ctx_ios_def xlatch_new_def oldest_def ahead_def
      knows_def handles_def split: if_splits)

lemma run_inv_reach:
  "rreach k (r_init root main) s \<Longrightarrow> root \<noteq> 0 \<Longrightarrow> rs_fresh s \<Longrightarrow> run_inv main s"
proof (induction rule: rreach.induct)
  case rr_0
  then show ?case by (simp add: run_inv_init)
next
  case (rr_S s i t)
  then show ?case using fresh_step [OF rr_S(2)] run_inv_step [OF rr_S(2)] by blast
qed

end
