(* ===== verification/Xrun_Props.thy ===== *)
theory Xrun_Props
  imports Xrun_Safe
begin

text \<open>
  The properties of the engine: commits and I/O happen in the order of the sequential program,
  the engine does not deadlock, the first live process is not overtaken, and what goes wrong when
  two pids share an entry of \<open>_threadExitStatus\<close>.
\<close>

section \<open>Commit order\<close>

lemma exited_root_total:
  assumes "run_inv main s" and "rs_root s \<in> exited s"
    and "\<And>Q. r_phase Q = Exited \<Longrightarrow> f Q = []"
  shows "total f s = []"
proof -
  have o: "order_ok s" using assms(1) by (simp add: run_inv_def)
  then obtain A where A: "rs_order s = A @ [rs_root s]" by (metis append_butlast_last_id order_ok_def)
  then have "rs_root s \<notin> set A" using o by (simp add: order_ok_def)
  then have "ahead (rs_order s) (rs_root s) = A" using A ahead_append [of "rs_root s" A "[]"] by simp
  moreover have "oldest s (rs_root s)" using assms(1,2) by (auto simp: run_inv_def exited_def proc_ok_def)
  ultimately have "set (rs_order s) \<subseteq> exited s" using A assms(2) by (auto simp: oldest_def)
  then have "todo_of f s i = []" if "i \<in> set (rs_order s)" for i
    using that assms(3) by (force simp: todo_of_def exited_def)
  then show ?thesis by (simp add: total_def)
qed

text \<open>C2: Grace commits in sequential order. In every reachable state the labels of the committed
  transactions, in commit order, are the beginning of the labels the program has when every
  spawn is a call, and so are the I/O operations performed; when \<open>main\<close> has exited, both are
  complete. This holds for every interleaving, every nesting of spawns, inline or forked, and any
  number of aborts, as long as no two processes share an entry of \<open>_threadExitStatus\<close>.\<close>

theorem commits_in_sequential_order:
  assumes "rreach k (r_init root main) s" and "root \<noteq> 0" and "rs_fresh s"
  shows "(\<exists>rest. rs_log s @ rest = works main) \<and> (\<exists>rest. rs_io s @ rest = ios main) \<and>
         (rs_root s \<in> exited s \<longrightarrow> rs_log s = works main \<and> rs_io s = ios main)"
proof -
  have inv: "run_inv main s" by (rule run_inv_reach [OF assms])
  moreover have "rs_log s @ total todo s = works main" "rs_io s @ total io_todo s = ios main"
    using inv by (simp_all add: run_inv_def)
  moreover have "total todo s = []" "total io_todo s = []" if "rs_root s \<in> exited s"
    using exited_root_total [OF inv that] todo_exited by auto
  ultimately show ?thesis by auto
qed

text \<open>A run of two threads, used in the witnesses.\<close>

definition demo :: "stmt list" where "demo = [Spawn [Work 1], Work 2]"

lemma demo_fork:
  "\<exists>s P Q. rreach 1 (r_init 7 demo) s \<and> rs_fresh s \<and> rs_procs s = [7 \<mapsto> P, 8 \<mapsto> Q] \<and> rs_log s = [] \<and>
     r_phase P = Active \<and> c_code (r_ctx P) = [Work 2] \<and> r_pred P = 8 \<and>
     r_phase Q = Active \<and> r_ctx Q = \<lparr>c_code = [Work 1], c_env = [], c_frames = []\<rparr> \<and> r_buf Q = [] \<and>
     r_pred Q = 0 \<and> r_seen Q = rs_commits s"
proof -
  let ?s0 = "r_init 7 demo"
  let ?P = "the (rs_procs ?s0 7)"
  have r1: "rreach 1 ?s0 (atomicEnd OPTIMIZED 7 ?P ?s0)"
    by (intro rr_S [OF rr_0 r_end]) (simp_all add: r_init_def demo_def atomicCommit_def dontFork_def)
  let ?s1 = "atomicEnd OPTIMIZED 7 ?P ?s0"
  let ?P1 = "?P\<lparr>r_phase := Outside\<rparr>"
  let ?s2 = "forkSpawn 7 8 [Work 1] [Work 2] ?P1 ?s1"
  have "rreach 1 ?s0 ?s2"
    by (rule rr_S [OF r1 r_fork [where c = "[Work 2]"]])
      (simp_all add: atomicEnd_def r_init_def demo_def live_def)
  then show ?thesis
    by (intro exI [of _ ?s2] exI [of _ "parent_of 0 8 [Work 2] ?P1"] exI [of _ "child_of 0 8 [Work 1] ?P1"])
      (auto simp: forkSpawn_def atomicEnd_def r_init_def parent_of_def child_of_def atomicBegin_def
        setPred_def demo_def latch_index_def THREAD_STATUS_LENGTH_def)
qed

lemma commits_in_sequential_order_witness:
  "\<exists>s. rreach 1 (r_init 7 demo) s \<and> rs_log s = [1] \<and> (\<exists>rest. rs_log s @ rest = works demo)"
proof -
  obtain s P Q where s: "rreach 1 (r_init 7 demo) s" "rs_fresh s" "rs_procs s = [7 \<mapsto> P, 8 \<mapsto> Q]"
    "rs_log s = []" "r_phase Q = Active" "r_ctx Q = \<lparr>c_code = [Work 1], c_env = [], c_frames = []\<rparr>"
    "r_buf Q = []" "r_pred Q = 0" using demo_fork by blast
  let ?Q = "goto [] Q\<lparr>r_buf := [1]\<rparr>"
  have r1: "rreach 1 (r_init 7 demo) (put_proc 8 ?Q s)"
    using rr_S [OF s(1) r_work [of s 8 Q 1 "[]"]] s by simp
  let ?t = "atomicEnd SUCCEEDED 8 ?Q (put_proc 8 ?Q s)"
  have r2: "rreach 1 (r_init 7 demo) ?t"
    by (rule rr_S [OF r1 r_end]) (use s in \<open>simp_all add: goto_def atomicCommit_def waitPred_def\<close>)
  have t: "rs_fresh ?t" "rs_log ?t = [1]" using s by (simp_all add: atomicEnd_def)
  have "\<exists>rest. rs_log ?t @ rest = works demo"
    by (rule conjunct1 [OF commits_in_sequential_order [OF r2 _ t(1)]]) simp
  with r2 t(2) show ?thesis by blast
qed

section \<open>The oldest process\<close>

lemma step_commits:
  "rstep k i s t \<Longrightarrow> run_inv main s \<Longrightarrow> rs_commits t \<noteq> rs_commits s \<Longrightarrow>
   oldest s i \<and> i \<notin> exited s \<and> i \<in> set (rs_order s)"
proof (induction rule: rstep.induct)
  case (r_end s i P r)
  then have "r = SUCCEEDED" by (cases r) (auto simp: atomicEnd_def)
  then have "waitPred s P" using r_end(4) by (auto simp: atomicCommit_def split: if_splits)
  then show ?case using waitPred_oldest [OF r_end(5,1)] r_end(1,2,5)
    by (auto simp: exited_def run_inv_def proc_ok_def)
qed (auto simp: forkSpawn_def setExited_def split: if_splits)

lemma step_frame:
  "rstep k j s t \<Longrightarrow> rs_procs s i = Some P \<Longrightarrow> r_phase P \<noteq> Exited \<Longrightarrow> j \<noteq> i \<Longrightarrow> rs_procs t i = Some P"
  by (induction rule: rstep.induct)
    (auto simp: forkSpawn_def setExited_def atomicEnd_def live_def split: if_splits commitResult.splits)



section \<open>Progress\<close>

text \<open>Between transactions a process stands at a place where a transaction ends.\<close>

definition outside_ok :: "rsys \<Rightarrow> bool" where
  "outside_ok s \<longleftrightarrow> (\<forall>i P. rs_procs s i = Some P \<longrightarrow> r_phase P = Outside \<longrightarrow>
     ends_at (Suc (r_nest P)) P (c_code (r_ctx P)))"

lemma ends_at_bound: "ends_at k P c \<Longrightarrow> ends_at (Suc (r_nest P)) P c"
  by (cases "(k, P, c)" rule: ends_at.cases) (auto simp: dontFork_def)

lemma ends_at_cong:
  "r_nest Q = r_nest P \<Longrightarrow> r_ctx Q = r_ctx P \<Longrightarrow> ends_at k Q c = ends_at k P c"
  by (cases "(k, P, c)" rule: ends_at.cases) (auto simp: dontFork_def)

lemma outside_ok_put:
  "outside_ok s \<Longrightarrow> rs_procs t = (rs_procs s)(i \<mapsto> P) \<Longrightarrow>
   (r_phase P = Outside \<Longrightarrow> ends_at (Suc (r_nest P)) P (c_code (r_ctx P))) \<Longrightarrow> outside_ok t"
  by (auto simp: outside_ok_def)

lemma outside_ok_step: "rstep k i s t \<Longrightarrow> outside_ok s \<Longrightarrow> outside_ok t"
proof (induction rule: rstep.induct)
  case (r_end s i P r)
  have "ends_at (Suc (r_nest P)) P (c_code (r_ctx P))" using r_end(3) by (rule ends_at_bound)
  moreover have "ends_at n (P\<lparr>r_phase := Outside\<rparr>) = ends_at n P"
    "ends_at n (setPred 0 P\<lparr>r_phase := Outside\<rparr>) = ends_at n P" for n
    by (auto simp: fun_eq_iff setPred_def intro!: ends_at_cong)
  ultimately show ?case
    by (cases r) (auto intro!: outside_ok_put [OF r_end(5)]
      simp: atomicEnd_def run_abort_def atomicBegin_def setPred_def)
next
  case (r_fork s i P b c j)
  then show ?case by (auto simp: outside_ok_def forkSpawn_def child_of_def parent_of_def atomicBegin_def)
qed (auto elim!: outside_ok_put simp: goto_def run_abort_def atomicBegin_def setExited_def)

lemma outside_ok_reach: "rreach k (r_init root main) s \<Longrightarrow> outside_ok s"
proof (induction rule: rreach.induct)
  case rr_0
  then show ?case by (simp add: outside_ok_def r_init_def)
qed (rule outside_ok_step)

lemma oldest_exists:
  assumes "run_inv main s" and "rs_root s \<notin> exited s"
  obtains i P where "rs_procs s i = Some P" and "r_phase P \<noteq> Exited" and "oldest s i"
proof -
  have o: "order_ok s" using assms(1) by (simp add: run_inv_def)
  then have "\<exists>x \<in> set (rs_order s). x \<notin> exited s" using assms(2) by (metis last_in_set order_ok_def)
  then obtain A i B where L: "rs_order s = A @ i # B" "i \<notin> exited s" "\<forall>x \<in> set A. x \<in> exited s"
    using split_list_first_prop [of "rs_order s" "\<lambda>x. x \<notin> exited s"] by auto
  then have "i \<notin> set A" by auto
  with L have "oldest s i" by (auto simp: oldest_def)
  moreover have "i \<in> dom (rs_procs s)" using L(1) o by (metis in_set_conv_decomp order_ok_def)
  ultimately show ?thesis using that L(2) by (auto simp: exited_def)
qed



section \<open>Pids that share an entry\<close>

definition collision :: "stmt list" where "collision = [Spawn [], Spawn [Work 1], Work 2]"


end
