(* ===== verification/Dlmalloc_Chunk.thy ===== *)
theory Dlmalloc_Chunk
  imports Grace_Prelude
begin

text \<open>
  \<open>source/dlmalloc.c\<close>, the chunks of Doug Lea's allocator (\<open>privateheap.h\<close> calls it): sizes, the
  header and footer words of a chunk, the bins, the bin map and \<open>struct malloc_state\<close>, for the
  32-bit build of the Makefile (\<open>INTERNAL_SIZE_T\<close> has 4 bytes). Memory is a map from
  addresses to 32-bit words; every address the code reads or writes is a multiple of 4. The
  array \<open>bins\<close> is in this memory (at \<open>dl_bins\<close>), since \<open>bin_at\<close> overlays chunks on it; the other
  fields of \<open>malloc_state\<close> are fields of the record. The operating system's \<open>sbrk\<close>, \<open>mmap\<close>,
  \<open>munmap\<close> and \<open>mremap\<close> are parameters over a state of their own.
\<close>

section \<open>Constants and sizes\<close>

definition SIZE_SZ :: u32 where "SIZE_SZ = 4"
definition MALLOC_ALIGNMENT :: u32 where "MALLOC_ALIGNMENT = 2 * SIZE_SZ"
definition MALLOC_ALIGN_MASK :: u32 where "MALLOC_ALIGN_MASK = MALLOC_ALIGNMENT - 1"
definition MIN_CHUNK_SIZE :: u32 where "MIN_CHUNK_SIZE = 16"
definition MINSIZE :: u32 where
  "MINSIZE = (MIN_CHUNK_SIZE + MALLOC_ALIGN_MASK) AND NOT MALLOC_ALIGN_MASK"

definition aligned_OK :: "u32 \<Rightarrow> bool" where
  "aligned_OK m \<longleftrightarrow> m AND MALLOC_ALIGN_MASK = 0"

definition REQUEST_OUT_OF_RANGE :: "u32 \<Rightarrow> bool" where
  "REQUEST_OUT_OF_RANGE req \<longleftrightarrow> req \<ge> - 2 * MINSIZE"

definition request2size :: "u32 \<Rightarrow> u32" where
  "request2size req =
     (if req + SIZE_SZ + MALLOC_ALIGN_MASK < MINSIZE then MINSIZE
      else (req + SIZE_SZ + MALLOC_ALIGN_MASK) AND NOT MALLOC_ALIGN_MASK)"

text \<open>\<open>None\<close>: the macro sets \<open>errno\<close> and makes the function return 0.\<close>

definition checked_request2size :: "u32 \<Rightarrow> u32 option" where
  "checked_request2size req = (if REQUEST_OUT_OF_RANGE req then None else Some (request2size req))"

definition DEFAULT_MXFAST :: u32 where "DEFAULT_MXFAST = 64"
definition DEFAULT_TRIM_THRESHOLD :: u32 where "DEFAULT_TRIM_THRESHOLD = 1024 * 1024 * 1024"
definition DEFAULT_TOP_PAD :: u32 where "DEFAULT_TOP_PAD = 0"
definition DEFAULT_MMAP_THRESHOLD :: u32 where "DEFAULT_MMAP_THRESHOLD = 128 * 1024"
definition DEFAULT_MMAP_MAX :: int where "DEFAULT_MMAP_MAX = 65536"
definition MMAP_AS_MORECORE_SIZE :: u32 where "MMAP_AS_MORECORE_SIZE = 1024 * 1024"
definition MORECORE_FAILURE :: u32 where "MORECORE_FAILURE = - 1"

section \<open>The state\<close>

record 'w dl_os =
  os_pagesize :: u32
  os_sbrk :: "'w \<Rightarrow> u32 \<Rightarrow> u32 \<times> 'w"
  os_mmap :: "'w \<Rightarrow> u32 \<Rightarrow> u32 \<times> 'w"
  os_munmap :: "'w \<Rightarrow> u32 \<Rightarrow> u32 \<Rightarrow> 'w"
  os_mremap :: "'w \<Rightarrow> u32 \<Rightarrow> u32 \<Rightarrow> u32 \<Rightarrow> u32 \<times> 'w"

record 'w malloc_state =
  dl_mem :: "u32 \<Rightarrow> u32"
  dl_bins :: u32
  max_fast :: u32
  fastbins :: "nat \<Rightarrow> u32"
  dl_top :: u32
  last_remainder :: u32
  binmap :: "nat \<Rightarrow> u32"
  trim_threshold :: u32
  top_pad :: u32
  mmap_threshold :: u32
  n_mmaps :: int
  n_mmaps_max :: int
  max_n_mmaps :: int
  pagesize :: u32
  mmapped_mem :: u32
  sbrked_mem :: u32
  max_sbrked_mem :: u32
  max_mmapped_mem :: u32
  max_total_mem :: u32
  dl_errno :: bool
  dl_world :: 'w

definition MALLOC_FAILURE_ACTION :: "'w malloc_state \<Rightarrow> 'w malloc_state" where
  "MALLOC_FAILURE_ACTION s = s\<lparr>dl_errno := True\<rparr>"

section \<open>Chunks\<close>

definition rd :: "'w malloc_state \<Rightarrow> u32 \<Rightarrow> u32" where
  "rd s a = dl_mem s a"

definition wr :: "u32 \<Rightarrow> u32 \<Rightarrow> 'w malloc_state \<Rightarrow> 'w malloc_state" where
  "wr a v s = s\<lparr>dl_mem := (dl_mem s)(a := v)\<rparr>"

text \<open>The members of \<open>struct malloc_chunk\<close>.\<close>

definition prev_size_of :: "'w malloc_state \<Rightarrow> u32 \<Rightarrow> u32" where "prev_size_of s p = rd s p"
definition size_of :: "'w malloc_state \<Rightarrow> u32 \<Rightarrow> u32" where "size_of s p = rd s (p + 4)"
definition fd_of :: "'w malloc_state \<Rightarrow> u32 \<Rightarrow> u32" where "fd_of s p = rd s (p + 8)"
definition bk_of :: "'w malloc_state \<Rightarrow> u32 \<Rightarrow> u32" where "bk_of s p = rd s (p + 12)"
definition set_size :: "u32 \<Rightarrow> u32 \<Rightarrow> 'w malloc_state \<Rightarrow> 'w malloc_state" where
  "set_size p v = wr (p + 4) v"
definition set_fd :: "u32 \<Rightarrow> u32 \<Rightarrow> 'w malloc_state \<Rightarrow> 'w malloc_state" where
  "set_fd p v = wr (p + 8) v"
definition set_bk :: "u32 \<Rightarrow> u32 \<Rightarrow> 'w malloc_state \<Rightarrow> 'w malloc_state" where
  "set_bk p v = wr (p + 12) v"

definition chunk2mem :: "u32 \<Rightarrow> u32" where "chunk2mem p = p + 2 * SIZE_SZ"
definition mem2chunk :: "u32 \<Rightarrow> u32" where "mem2chunk m = m - 2 * SIZE_SZ"

definition PREV_INUSE :: u32 where "PREV_INUSE = 1"
definition IS_MMAPPED :: u32 where "IS_MMAPPED = 2"
definition SIZE_BITS :: u32 where "SIZE_BITS = PREV_INUSE OR IS_MMAPPED"

definition prev_inuse :: "'w malloc_state \<Rightarrow> u32 \<Rightarrow> bool" where
  "prev_inuse s p \<longleftrightarrow> size_of s p AND PREV_INUSE \<noteq> 0"
definition chunk_is_mmapped :: "'w malloc_state \<Rightarrow> u32 \<Rightarrow> bool" where
  "chunk_is_mmapped s p \<longleftrightarrow> size_of s p AND IS_MMAPPED \<noteq> 0"
definition chunksize :: "'w malloc_state \<Rightarrow> u32 \<Rightarrow> u32" where
  "chunksize s p = size_of s p AND NOT SIZE_BITS"
definition next_chunk :: "'w malloc_state \<Rightarrow> u32 \<Rightarrow> u32" where
  "next_chunk s p = p + (size_of s p AND NOT PREV_INUSE)"
definition prev_chunk :: "'w malloc_state \<Rightarrow> u32 \<Rightarrow> u32" where
  "prev_chunk s p = p - prev_size_of s p"
definition chunk_at_offset :: "u32 \<Rightarrow> u32 \<Rightarrow> u32" where
  "chunk_at_offset p k = p + k"
definition inuse :: "'w malloc_state \<Rightarrow> u32 \<Rightarrow> bool" where
  "inuse s p \<longleftrightarrow> size_of s (p + (size_of s p AND NOT PREV_INUSE)) AND PREV_INUSE \<noteq> 0"
definition set_inuse :: "u32 \<Rightarrow> 'w malloc_state \<Rightarrow> 'w malloc_state" where
  "set_inuse p s = (let q = p + (size_of s p AND NOT PREV_INUSE)
                    in set_size q (size_of s q OR PREV_INUSE) s)"
definition clear_inuse :: "u32 \<Rightarrow> 'w malloc_state \<Rightarrow> 'w malloc_state" where
  "clear_inuse p s = (let q = p + (size_of s p AND NOT PREV_INUSE)
                      in set_size q (size_of s q AND NOT PREV_INUSE) s)"
definition inuse_bit_at_offset :: "'w malloc_state \<Rightarrow> u32 \<Rightarrow> u32 \<Rightarrow> bool" where
  "inuse_bit_at_offset s p k \<longleftrightarrow> size_of s (p + k) AND PREV_INUSE \<noteq> 0"
definition set_inuse_bit_at_offset :: "u32 \<Rightarrow> u32 \<Rightarrow> 'w malloc_state \<Rightarrow> 'w malloc_state" where
  "set_inuse_bit_at_offset p k s = set_size (p + k) (size_of s (p + k) OR PREV_INUSE) s"
definition clear_inuse_bit_at_offset :: "u32 \<Rightarrow> u32 \<Rightarrow> 'w malloc_state \<Rightarrow> 'w malloc_state" where
  "clear_inuse_bit_at_offset p k s = set_size (p + k) (size_of s (p + k) AND NOT PREV_INUSE) s"
definition set_head_size :: "u32 \<Rightarrow> u32 \<Rightarrow> 'w malloc_state \<Rightarrow> 'w malloc_state" where
  "set_head_size p k s = set_size p ((size_of s p AND PREV_INUSE) OR k) s"
definition set_head :: "u32 \<Rightarrow> u32 \<Rightarrow> 'w malloc_state \<Rightarrow> 'w malloc_state" where
  "set_head p k = set_size p k"
definition set_foot :: "u32 \<Rightarrow> u32 \<Rightarrow> 'w malloc_state \<Rightarrow> 'w malloc_state" where
  "set_foot p k = wr (p + k) k"

section \<open>Bins\<close>

definition NBINS :: nat where "NBINS = 128"
definition NSMALLBINS :: nat where "NSMALLBINS = 64"
definition SMALLBIN_WIDTH :: u32 where "SMALLBIN_WIDTH = 8"
definition MIN_LARGE_SIZE :: u32 where "MIN_LARGE_SIZE = 512"

definition bin_at :: "'w malloc_state \<Rightarrow> nat \<Rightarrow> u32" where
  "bin_at s i = dl_bins s + 4 * (2 * of_nat i) - 2 * SIZE_SZ"
definition next_bin :: "u32 \<Rightarrow> u32" where "next_bin b = b + 8"
definition bin_first :: "'w malloc_state \<Rightarrow> u32 \<Rightarrow> u32" where "bin_first s b = fd_of s b"
definition bin_last :: "'w malloc_state \<Rightarrow> u32 \<Rightarrow> u32" where "bin_last s b = bk_of s b"

definition unlink :: "u32 \<Rightarrow> 'w malloc_state \<Rightarrow> 'w malloc_state" where
  "unlink p s = (let fd = fd_of s p; bk = bk_of s p in set_fd bk fd (set_bk fd bk s))"

definition in_smallbin_range :: "u32 \<Rightarrow> bool" where "in_smallbin_range sz \<longleftrightarrow> sz < MIN_LARGE_SIZE"
definition smallbin_index :: "u32 \<Rightarrow> nat" where "smallbin_index sz = unat (drop_bit 3 sz)"

definition largebin_index :: "u32 \<Rightarrow> nat" where
  "largebin_index sz =
     (if drop_bit 6 sz \<le> 32 then 56 + unat (drop_bit 6 sz)
      else if drop_bit 9 sz \<le> 20 then 91 + unat (drop_bit 9 sz)
      else if drop_bit 12 sz \<le> 10 then 110 + unat (drop_bit 12 sz)
      else if drop_bit 15 sz \<le> 4 then 119 + unat (drop_bit 15 sz)
      else if drop_bit 18 sz \<le> 2 then 124 + unat (drop_bit 18 sz)
      else 126)"

definition bin_index :: "u32 \<Rightarrow> nat" where
  "bin_index sz = (if in_smallbin_range sz then smallbin_index sz else largebin_index sz)"

definition unsorted_chunks :: "'w malloc_state \<Rightarrow> u32" where "unsorted_chunks s = bin_at s 1"
definition initial_top :: "'w malloc_state \<Rightarrow> u32" where "initial_top s = unsorted_chunks s"

section \<open>The bin map\<close>

definition BINMAPSHIFT :: nat where "BINMAPSHIFT = 5"
definition BITSPERMAP :: nat where "BITSPERMAP = 2 ^ BINMAPSHIFT"
definition BINMAPSIZE :: nat where "BINMAPSIZE = NBINS div BITSPERMAP"
definition idx2block :: "nat \<Rightarrow> nat" where "idx2block i = drop_bit BINMAPSHIFT i"
definition idx2bit :: "nat \<Rightarrow> u32" where "idx2bit i = push_bit (i mod 2 ^ BINMAPSHIFT) 1"

definition mark_bin :: "nat \<Rightarrow> 'w malloc_state \<Rightarrow> 'w malloc_state" where
  "mark_bin i s = s\<lparr>binmap := (binmap s)(idx2block i := binmap s (idx2block i) OR idx2bit i)\<rparr>"
definition unmark_bin :: "nat \<Rightarrow> 'w malloc_state \<Rightarrow> 'w malloc_state" where
  "unmark_bin i s = s\<lparr>binmap := (binmap s)(idx2block i := binmap s (idx2block i) AND NOT (idx2bit i))\<rparr>"
definition get_binmap :: "'w malloc_state \<Rightarrow> nat \<Rightarrow> u32" where
  "get_binmap s i = binmap s (idx2block i) AND idx2bit i"

section \<open>Fastbins\<close>

definition fastbin_index :: "u32 \<Rightarrow> u32" where "fastbin_index sz = drop_bit 3 sz - 2"
definition MAX_FAST_SIZE :: u32 where "MAX_FAST_SIZE = 80"
definition NFASTBINS :: nat where "NFASTBINS = unat (fastbin_index (request2size MAX_FAST_SIZE)) + 1"
definition FASTBIN_CONSOLIDATION_THRESHOLD :: u32 where "FASTBIN_CONSOLIDATION_THRESHOLD = 65536"

definition FASTCHUNKS_BIT :: u32 where "FASTCHUNKS_BIT = 1"
definition have_fastchunks :: "'w malloc_state \<Rightarrow> bool" where
  "have_fastchunks s \<longleftrightarrow> max_fast s AND FASTCHUNKS_BIT = 0"
definition clear_fastchunks :: "'w malloc_state \<Rightarrow> 'w malloc_state" where
  "clear_fastchunks s = s\<lparr>max_fast := max_fast s OR FASTCHUNKS_BIT\<rparr>"
definition set_fastchunks :: "'w malloc_state \<Rightarrow> 'w malloc_state" where
  "set_fastchunks s = s\<lparr>max_fast := max_fast s AND NOT FASTCHUNKS_BIT\<rparr>"

definition NONCONTIGUOUS_BIT :: u32 where "NONCONTIGUOUS_BIT = 2"
definition contiguous :: "'w malloc_state \<Rightarrow> bool" where
  "contiguous s \<longleftrightarrow> max_fast s AND NONCONTIGUOUS_BIT = 0"
definition noncontiguous :: "'w malloc_state \<Rightarrow> bool" where
  "noncontiguous s \<longleftrightarrow> max_fast s AND NONCONTIGUOUS_BIT \<noteq> 0"
definition set_noncontiguous :: "'w malloc_state \<Rightarrow> 'w malloc_state" where
  "set_noncontiguous s = s\<lparr>max_fast := max_fast s OR NONCONTIGUOUS_BIT\<rparr>"
definition set_contiguous :: "'w malloc_state \<Rightarrow> 'w malloc_state" where
  "set_contiguous s = s\<lparr>max_fast := max_fast s AND NOT NONCONTIGUOUS_BIT\<rparr>"

definition set_max_fast :: "u32 \<Rightarrow> 'w malloc_state \<Rightarrow> 'w malloc_state" where
  "set_max_fast k s = s\<lparr>max_fast := (if k = 0 then SMALLBIN_WIDTH else request2size k) OR
      FASTCHUNKS_BIT OR (max_fast s AND NONCONTIGUOUS_BIT)\<rparr>"

section \<open>Initialisation\<close>

definition empty_bin :: "u32 \<Rightarrow> 'w malloc_state \<Rightarrow> 'w malloc_state" where
  "empty_bin bin s = set_fd bin bin (set_bk bin bin s)"

text \<open>\<open>pagesz\<close> is the result of \<open>sysconf\<close>.\<close>

definition malloc_init_state :: "u32 \<Rightarrow> 'w malloc_state \<Rightarrow> 'w malloc_state" where
  "malloc_init_state pagesz s =
     (let s = fold (\<lambda>i s. empty_bin (bin_at s i) s) [1 ..< NBINS] s;
          s = s\<lparr>top_pad := DEFAULT_TOP_PAD, n_mmaps_max := DEFAULT_MMAP_MAX,
                mmap_threshold := DEFAULT_MMAP_THRESHOLD, trim_threshold := DEFAULT_TRIM_THRESHOLD\<rparr>;
          s = set_max_fast DEFAULT_MXFAST s
      in s\<lparr>dl_top := initial_top s, pagesize := pagesz\<rparr>)"

end
