(* ===== verification/Dlmalloc_Alloc.thy ===== *)
theory Dlmalloc_Alloc
  imports Dlmalloc_Chunk
begin

text \<open>
  \<open>source/dlmalloc.c\<close>: \<open>malloc_consolidate\<close>, \<open>sYSTRIm\<close>, \<open>fREe\<close>, \<open>sYSMALLOc\<close> and \<open>mALLOc\<close>. The
  functions read and write the words of the heap as the code does. Loops over linked lists
  carry fuel; \<open>None\<close> is a list that does not end within it, or an access outside an array.
\<close>

section \<open>Consolidation\<close>

text \<open>Backward coalescing, shared by \<open>fREe\<close> and \<open>malloc_consolidate\<close>.\<close>

definition merge_backward :: "u32 \<Rightarrow> u32 \<Rightarrow> 'w malloc_state \<Rightarrow> u32 \<times> u32 \<times> 'w malloc_state" where
  "merge_backward p sz s =
     (if \<not> prev_inuse s p then
        (let prevsize = prev_size_of s p;
             sz = sz + prevsize;
             p = chunk_at_offset p (- prevsize)
         in (p, sz, unlink p s))
      else (p, sz, s))"

definition consolidate_chunk :: "u32 \<Rightarrow> 'w malloc_state \<Rightarrow> 'w malloc_state" where
  "consolidate_chunk p s =
     (let sz = size_of s p AND NOT PREV_INUSE;
          nextchunk = chunk_at_offset p sz;
          nextsize = chunksize s nextchunk;
          (p, sz, s) = merge_backward p sz s
      in if nextchunk \<noteq> dl_top s then
           (let nextinuse = inuse_bit_at_offset s nextchunk nextsize;
                s = set_head nextchunk nextsize s;
                (sz, s) = (if \<not> nextinuse then (sz + nextsize, unlink nextchunk s) else (sz, s));
                unsorted_bin = unsorted_chunks s;
                first_unsorted = fd_of s unsorted_bin;
                s = set_fd unsorted_bin p s;
                s = set_bk first_unsorted p s;
                s = set_head p (sz OR PREV_INUSE) s;
                s = set_bk p unsorted_bin s;
                s = set_fd p first_unsorted s
            in set_foot p sz s)
         else
           (let sz = sz + nextsize;
                s = set_head p (sz OR PREV_INUSE) s
            in s\<lparr>dl_top := p\<rparr>))"

fun consolidate_list :: "nat \<Rightarrow> u32 \<Rightarrow> 'w malloc_state \<Rightarrow> 'w malloc_state option" where
  "consolidate_list 0 p s = None"
| "consolidate_list (Suc n) p s =
     (if p = 0 then Some s
      else let nextp = fd_of s p in consolidate_list n nextp (consolidate_chunk p s))"

fun consolidate_bins :: "nat \<Rightarrow> nat list \<Rightarrow> 'w malloc_state \<Rightarrow> 'w malloc_state option" where
  "consolidate_bins n [] s = Some s"
| "consolidate_bins n (i # is) s =
     (if i \<ge> NFASTBINS then None
      else let p = fastbins s i in
        if p \<noteq> 0 then Option.bind (consolidate_list n p (s\<lparr>fastbins := (fastbins s)(i := 0)\<rparr>)) (consolidate_bins n is)
        else consolidate_bins n is s)"

text \<open>
  The loop of \<open>malloc_consolidate\<close> runs \<open>fb\<close> from \<open>fastbins[0]\<close> to the bin of \<open>max_fast\<close>,
  included; when that index is not one of the array, it leaves the array.
\<close>

definition malloc_consolidate :: "'w dl_os \<Rightarrow> nat \<Rightarrow> 'w malloc_state \<Rightarrow> 'w malloc_state option" where
  "malloc_consolidate os n s =
     (if max_fast s \<noteq> 0 then
        (let s = clear_fastchunks s;
             maxfb = unat (fastbin_index (max_fast s))
         in if maxfb < NFASTBINS then consolidate_bins n [0 ..< maxfb + 1] s else None)
      else Some (malloc_init_state (os_pagesize os) s))"

section \<open>Returning memory to the system\<close>

definition more_core :: "'w dl_os \<Rightarrow> u32 \<Rightarrow> 'w malloc_state \<Rightarrow> u32 \<times> 'w malloc_state" where
  "more_core os k s = (let (r, w) = os_sbrk os (dl_world s) k in (r, s\<lparr>dl_world := w\<rparr>))"

definition mmap_anon :: "'w dl_os \<Rightarrow> u32 \<Rightarrow> 'w malloc_state \<Rightarrow> u32 \<times> 'w malloc_state" where
  "mmap_anon os k s = (let (r, w) = os_mmap os (dl_world s) k in (r, s\<lparr>dl_world := w\<rparr>))"

definition sYSTRIm :: "'w dl_os \<Rightarrow> u32 \<Rightarrow> 'w malloc_state \<Rightarrow> bool \<times> 'w malloc_state" where
  "sYSTRIm os pad s =
     (let pagesz = pagesize s;
          top_size = chunksize s (dl_top s);
          extra = ((top_size - pad - MINSIZE + (pagesz - 1)) div pagesz - 1) * pagesz
      in if 0 <s extra then
           (let (current_brk, s) = more_core os 0 s
            in if current_brk = dl_top s + top_size then
                 (let (_, s) = more_core os (- extra) s;
                      (new_brk, s) = more_core os 0 s
                  in if new_brk \<noteq> MORECORE_FAILURE then
                       (let released = current_brk - new_brk
                        in if released \<noteq> 0 then
                             (True, set_head (dl_top s) ((top_size - released) OR PREV_INUSE)
                                      (s\<lparr>sbrked_mem := sbrked_mem s - released\<rparr>))
                           else (False, s))
                     else (False, s))
               else (False, s))
         else (False, s))"

section \<open>\<open>fREe\<close>\<close>

text \<open>Placing a chunk at the front of the unsorted chunks.\<close>

definition link_unsorted :: "u32 \<Rightarrow> 'w malloc_state \<Rightarrow> 'w malloc_state" where
  "link_unsorted p s =
     (let bck = unsorted_chunks s;
          fwd = fd_of s bck;
          s = set_bk p bck s;
          s = set_fd p fwd s;
          s = set_fd bck p s
      in set_bk fwd p s)"

text \<open>The part for a chunk that is neither of fastbin sz nor mapped on its own.\<close>

definition free_coalesce :: "u32 \<Rightarrow> u32 \<Rightarrow> 'w malloc_state \<Rightarrow> u32 \<times> 'w malloc_state" where
  "free_coalesce p sz s =
     (let nextchunk = chunk_at_offset p sz;
          nextsize = chunksize s nextchunk;
          (p, sz, s) = merge_backward p sz s
      in if nextchunk \<noteq> dl_top s then
           (let nextinuse = inuse_bit_at_offset s nextchunk nextsize;
                s = set_head nextchunk nextsize s;
                (sz, s) = (if \<not> nextinuse then (sz + nextsize, unlink nextchunk s) else (sz, s));
                s = link_unsorted p s;
                s = set_head p (sz OR PREV_INUSE) s
            in (sz, set_foot p sz s))
         else
           (let sz = sz + nextsize;
                s = set_head p (sz OR PREV_INUSE) s
            in (sz, s\<lparr>dl_top := p\<rparr>)))"

definition free_trim :: "'w dl_os \<Rightarrow> nat \<Rightarrow> u32 \<Rightarrow> 'w malloc_state \<Rightarrow> 'w malloc_state option" where
  "free_trim os n sz s =
     (if sz \<ge> FASTBIN_CONSOLIDATION_THRESHOLD then
        Option.bind (if have_fastchunks s then malloc_consolidate os n s else Some s)
          (\<lambda>s. if chunksize s (dl_top s) \<ge> trim_threshold s
               then Some (snd (sYSTRIm os (top_pad s) s)) else Some s)
      else Some s)"

definition free_fast :: "u32 \<Rightarrow> u32 \<Rightarrow> 'w malloc_state \<Rightarrow> 'w malloc_state" where
  "free_fast p sz s =
     (let s = set_fastchunks s;
          fb = unat (fastbin_index sz);
          s = set_fd p (fastbins s fb) s
      in s\<lparr>fastbins := (fastbins s)(fb := p)\<rparr>)"

definition free_mmapped :: "'w dl_os \<Rightarrow> u32 \<Rightarrow> u32 \<Rightarrow> 'w malloc_state \<Rightarrow> 'w malloc_state" where
  "free_mmapped os p sz s =
     (let offset = prev_size_of s p;
          s = s\<lparr>n_mmaps := n_mmaps s - 1, mmapped_mem := mmapped_mem s - (sz + offset)\<rparr>
      in s\<lparr>dl_world := os_munmap os (dl_world s) (p - offset) (sz + offset)\<rparr>)"

definition fREe :: "'w dl_os \<Rightarrow> nat \<Rightarrow> u32 \<Rightarrow> 'w malloc_state \<Rightarrow> 'w malloc_state option" where
  "fREe os n mem s =
     (if mem \<noteq> 0 then
        (let p = mem2chunk mem;
             sz = chunksize s p
         in if sz \<le> max_fast s then Some (free_fast p sz s)
            else if \<not> chunk_is_mmapped s p then
              (let (sz, s) = free_coalesce p sz s in free_trim os n sz s)
            else Some (free_mmapped os p sz s))
      else Some s)"

section \<open>\<open>sYSMALLOc\<close>\<close>

definition note_mmapped :: "u32 \<Rightarrow> 'w malloc_state \<Rightarrow> 'w malloc_state" where
  "note_mmapped sz s =
     (let s = s\<lparr>n_mmaps := n_mmaps s + 1\<rparr>;
          s = (if n_mmaps s > max_n_mmaps s then s\<lparr>max_n_mmaps := n_mmaps s\<rparr> else s);
          sum = mmapped_mem s + sz;
          s = s\<lparr>mmapped_mem := sum\<rparr>;
          s = (if sum > max_mmapped_mem s then s\<lparr>max_mmapped_mem := sum\<rparr> else s);
          sum = sum + sbrked_mem s
      in if sum > max_total_mem s then s\<lparr>max_total_mem := sum\<rparr> else s)"

text \<open>The first part: a large request gets a mapping of its own (\<open>None\<close>: go on with \<open>sbrk\<close>).\<close>

definition sys_mmap :: "'w dl_os \<Rightarrow> u32 \<Rightarrow> 'w malloc_state \<Rightarrow> u32 option \<times> 'w malloc_state" where
  "sys_mmap os nb s =
     (let pagemask = pagesize s - 1
      in if nb \<ge> mmap_threshold s \<and> n_mmaps s < n_mmaps_max s then
           (let sz = (nb + SIZE_SZ + MALLOC_ALIGN_MASK + pagemask) AND NOT pagemask
            in if sz > nb then
                 (let (mm, s) = mmap_anon os sz s
                  in if mm \<noteq> MORECORE_FAILURE then
                       (let front_misalign = chunk2mem mm AND MALLOC_ALIGN_MASK;
                            (p, s) = (if front_misalign > 0 then
                                (let correction = MALLOC_ALIGNMENT - front_misalign;
                                     p = mm + correction;
                                     s = wr p correction s
                                 in (p, set_head p ((sz - correction) OR IS_MMAPPED) s))
                              else (mm, set_head mm (sz OR IS_MMAPPED) s))
                        in (Some (chunk2mem p), note_mmapped sz s))
                     else (None, s))
               else (None, s))
         else (None, s))"

text \<open>The second part: how much to get, and from where. The result is \<open>(brk, snd_brk, sz)\<close>.\<close>

definition sys_extend :: "'w dl_os \<Rightarrow> u32 \<Rightarrow> 'w malloc_state \<Rightarrow> u32 \<times> u32 \<times> u32 \<times> 'w malloc_state" where
  "sys_extend os nb s =
     (let pagemask = pagesize s - 1;
          old_size = chunksize s (dl_top s);
          sz = nb + top_pad s + MINSIZE;
          sz = (if contiguous s then sz - old_size else sz);
          sz = (sz + pagemask) AND NOT pagemask;
          (brk, s) = (if 0 <s sz then more_core os sz s else (MORECORE_FAILURE, s))
      in if brk = MORECORE_FAILURE then
           (let sz = (if contiguous s then (sz + old_size + pagemask) AND NOT pagemask else sz);
                sz = (if sz < MMAP_AS_MORECORE_SIZE then MMAP_AS_MORECORE_SIZE else sz)
            in if sz > nb then
                 (let (brk, s) = mmap_anon os sz s
                  in if brk \<noteq> MORECORE_FAILURE then (brk, brk + sz, sz, set_noncontiguous s)
                     else (brk, MORECORE_FAILURE, sz, s))
               else (brk, MORECORE_FAILURE, sz, s))
         else (brk, MORECORE_FAILURE, sz, s))"

text \<open>The old top, when the new memory does not follow it: fenceposts, and the rest is freed.\<close>

definition sys_fenceposts :: "'w dl_os \<Rightarrow> nat \<Rightarrow> u32 \<Rightarrow> u32 \<Rightarrow> 'w malloc_state \<Rightarrow> 'w malloc_state option" where
  "sys_fenceposts os n old_top old_size s =
     (if old_size \<noteq> 0 then
        (let old_size = (old_size - 3 * SIZE_SZ) AND NOT MALLOC_ALIGN_MASK;
             s = set_head old_top (old_size OR PREV_INUSE) s;
             s = set_size (chunk_at_offset old_top old_size) (SIZE_SZ OR PREV_INUSE) s;
             s = set_size (chunk_at_offset old_top (old_size + SIZE_SZ)) (SIZE_SZ OR PREV_INUSE) s
         in if old_size \<ge> MINSIZE then fREe os n (chunk2mem old_top) s else Some s)
      else Some s)"

definition sys_new_top :: "'w dl_os \<Rightarrow> nat \<Rightarrow> u32 \<Rightarrow> u32 \<Rightarrow> u32 \<Rightarrow> u32 \<Rightarrow> u32 \<Rightarrow> 'w malloc_state
    \<Rightarrow> 'w malloc_state option" where
  "sys_new_top os n old_top old_size brk snd_brk sz s =
     (let pagemask = pagesize s - 1;
          (aligned_brk, correction, snd_brk, s) =
            (if contiguous s then
               (let front_misalign = chunk2mem brk AND MALLOC_ALIGN_MASK;
                    (correction, aligned_brk) =
                      (if front_misalign > 0
                       then (MALLOC_ALIGNMENT - front_misalign, brk + (MALLOC_ALIGNMENT - front_misalign))
                       else (0, brk));
                    correction = correction + old_size;
                    end_misalign = brk + sz + correction;
                    correction = correction + (((end_misalign + pagemask) AND NOT pagemask) - end_misalign);
                    (snd_brk, s) = more_core os correction s
                in if snd_brk = MORECORE_FAILURE
                   then (let (snd_brk, s) = more_core os 0 s in (aligned_brk, 0, snd_brk, s))
                   else (aligned_brk, correction, snd_brk, s))
             else if snd_brk = MORECORE_FAILURE
               then (let (snd_brk, s) = more_core os 0 s in (brk, 0, snd_brk, s))
               else (brk, 0, snd_brk, s))
      in if snd_brk \<noteq> MORECORE_FAILURE then
           (let s = s\<lparr>dl_top := aligned_brk\<rparr>;
                s = set_head (dl_top s) ((snd_brk - aligned_brk + correction) OR PREV_INUSE) s;
                s = s\<lparr>sbrked_mem := sbrked_mem s + correction\<rparr>
            in sys_fenceposts os n old_top old_size s)
         else Some s)"

definition note_sbrked :: "'w malloc_state \<Rightarrow> 'w malloc_state" where
  "note_sbrked s =
     (let sum = sbrked_mem s;
          s = (if sum > max_sbrked_mem s then s\<lparr>max_sbrked_mem := sum\<rparr> else s);
          sum = sum + mmapped_mem s
      in if sum > max_total_mem s then s\<lparr>max_total_mem := sum\<rparr> else s)"

text \<open>Splitting a request off the top chunk (also the tail of \<open>mALLOc\<close>).\<close>

definition split_top :: "u32 \<Rightarrow> 'w malloc_state \<Rightarrow> (u32 \<times> 'w malloc_state) option" where
  "split_top nb s =
     (let victim = dl_top s;
          sz = chunksize s victim
      in if sz \<ge> nb + MINSIZE then
           (let remainder_size = sz - nb;
                remainder = chunk_at_offset victim nb;
                s = s\<lparr>dl_top := remainder\<rparr>;
                s = set_head victim (nb OR PREV_INUSE) s;
                s = set_head remainder (remainder_size OR PREV_INUSE) s
            in Some (chunk2mem victim, s))
         else None)"

definition sYSMALLOc :: "'w dl_os \<Rightarrow> nat \<Rightarrow> u32 \<Rightarrow> 'w malloc_state \<Rightarrow> (u32 \<times> 'w malloc_state) option" where
  "sYSMALLOc os n nb s =
     (case sys_mmap os nb s of
        (Some m, s) \<Rightarrow> Some (m, s)
      | (None, s) \<Rightarrow>
          (let old_top = dl_top s;
               old_size = chunksize s old_top;
               old_end = chunk_at_offset old_top old_size;
               (brk, snd_brk, sz, s) = sys_extend os nb s
           in if brk \<noteq> MORECORE_FAILURE then
                (let s = s\<lparr>sbrked_mem := sbrked_mem s + sz\<rparr>
                 in Option.bind
                      (if brk = old_end \<and> snd_brk = MORECORE_FAILURE
                       then Some (set_head old_top ((sz + old_size) OR PREV_INUSE) s)
                       else sys_new_top os n old_top old_size brk snd_brk sz s)
                      (\<lambda>s. let s = note_sbrked s in
                           case split_top nb s of
                             Some r \<Rightarrow> Some r
                           | None \<Rightarrow> Some (0, MALLOC_FAILURE_ACTION s)))
              else Some (0, MALLOC_FAILURE_ACTION s)))"

section \<open>\<open>mALLOc\<close>\<close>

definition malloc_fast :: "u32 \<Rightarrow> 'w malloc_state \<Rightarrow> (u32 \<times> 'w malloc_state) option" where
  "malloc_fast nb s =
     (if nb \<le> max_fast s then
        (let fb = unat (fastbin_index nb);
             victim = fastbins s fb
         in if victim \<noteq> 0
            then Some (chunk2mem victim, s\<lparr>fastbins := (fastbins s)(fb := fd_of s victim)\<rparr>)
            else None)
      else None)"

text \<open>
  The small bin of the request, or the consolidation before a large request. The result holds
  the memory when the request is met, and the index \<open>idx\<close> otherwise.
\<close>

definition malloc_small :: "'w dl_os \<Rightarrow> nat \<Rightarrow> u32 \<Rightarrow> 'w malloc_state
    \<Rightarrow> (u32 option \<times> nat \<times> 'w malloc_state) option" where
  "malloc_small os n nb s =
     (if in_smallbin_range nb then
        (let idx = smallbin_index nb;
             bin = bin_at s idx;
             victim = bin_last s bin
         in if victim \<noteq> bin then
              (if victim = 0 then map_option (\<lambda>s. (None, idx, s)) (malloc_consolidate os n s)
               else (let bck = bk_of s victim;
                         s = set_inuse_bit_at_offset victim nb s;
                         s = set_bk bin bck s;
                         s = set_fd bck bin s
                     in Some (Some (chunk2mem victim), idx, s)))
            else Some (None, idx, s))
      else
        (let idx = largebin_index nb
         in if have_fastchunks s then map_option (\<lambda>s. (None, idx, s)) (malloc_consolidate os n s)
            else Some (None, idx, s)))"

text \<open>Splitting \<open>nb\<close> bytes off a binned chunk, the rest becoming the only unsorted chunk.\<close>

definition split_chunk :: "bool \<Rightarrow> u32 \<Rightarrow> u32 \<Rightarrow> u32 \<Rightarrow> 'w malloc_state \<Rightarrow> u32 \<times> 'w malloc_state" where
  "split_chunk note victim sz nb s =
     (let remainder_size = sz - nb;
          remainder = chunk_at_offset victim nb;
          unsorted = unsorted_chunks s;
          s = set_bk unsorted remainder (set_fd unsorted remainder s);
          s = (if note then s\<lparr>last_remainder := remainder\<rparr> else s);
          s = set_bk remainder unsorted (set_fd remainder unsorted s);
          s = set_head victim (nb OR PREV_INUSE) s;
          s = set_head remainder (remainder_size OR PREV_INUSE) s;
          s = set_foot remainder remainder_size s
      in (chunk2mem victim, s))"

text \<open>The place of a large chunk in its bin: the first chunk from the front that is not larger.\<close>

fun find_fwd :: "nat \<Rightarrow> u32 \<Rightarrow> u32 \<Rightarrow> 'w malloc_state \<Rightarrow> u32 option" where
  "find_fwd 0 sz fwd s = None"
| "find_fwd (Suc n) sz fwd s =
     (if sz < size_of s fwd then find_fwd n sz (fd_of s fwd) s else Some fwd)"

definition bin_place :: "nat \<Rightarrow> u32 \<Rightarrow> 'w malloc_state \<Rightarrow> (nat \<times> u32 \<times> u32) option" where
  "bin_place n sz s =
     (if in_smallbin_range sz then
        (let victim_index = smallbin_index sz;
             bck = bin_at s victim_index
         in Some (victim_index, bck, fd_of s bck))
      else
        (let victim_index = largebin_index sz;
             bck = bin_at s victim_index;
             fwd = fd_of s bck
         in if fwd \<noteq> bck then
              (let sz = sz OR PREV_INUSE
               in if sz \<le> size_of s (bk_of s bck) then Some (victim_index, bk_of s bck, bck)
                  else map_option (\<lambda>fwd. (victim_index, bk_of s fwd, fwd)) (find_fwd n sz fwd s))
            else Some (victim_index, bck, fwd)))"

text \<open>The loop over the unsorted chunks.\<close>

fun unsorted_loop :: "nat \<Rightarrow> u32 \<Rightarrow> 'w malloc_state \<Rightarrow> (u32 option \<times> 'w malloc_state) option" where
  "unsorted_loop 0 nb s = None"
| "unsorted_loop (Suc n) nb s =
     (let unsorted = unsorted_chunks s;
          victim = bk_of s unsorted
      in if victim = unsorted then Some (None, s)
         else
           (let bck = bk_of s victim;
                sz = chunksize s victim
            in if in_smallbin_range nb \<and> bck = unsorted \<and> victim = last_remainder s \<and> sz > nb + MINSIZE
               then (let (m, s) = split_chunk True victim sz nb s in Some (Some m, s))
               else
                 (let s = set_bk unsorted bck s;
                      s = set_fd bck unsorted s
                  in if sz = nb
                     then Some (Some (chunk2mem victim), set_inuse_bit_at_offset victim sz s)
                     else (case bin_place (Suc n) sz s of
                         None \<Rightarrow> None
                       | Some (victim_index, bck, fwd) \<Rightarrow>
                           (let s = mark_bin victim_index s;
                                s = set_bk victim bck s;
                                s = set_fd victim fwd s;
                                s = set_bk fwd victim s;
                                s = set_fd bck victim s
                            in unsorted_loop n nb s)))))"

text \<open>A large request looks through its own bin, from the smallest chunk up.\<close>

fun find_large :: "nat \<Rightarrow> u32 \<Rightarrow> u32 \<Rightarrow> 'w malloc_state \<Rightarrow> u32 option" where
  "find_large 0 nb victim s = None"
| "find_large (Suc n) nb victim s =
     (if chunksize s victim < nb then find_large n nb (bk_of s victim) s else Some victim)"

definition malloc_large :: "nat \<Rightarrow> u32 \<Rightarrow> nat \<Rightarrow> 'w malloc_state \<Rightarrow> (u32 option \<times> 'w malloc_state) option" where
  "malloc_large n nb idx s =
     (let bin = bin_at s idx;
          victim = bin_last s bin
      in if victim \<noteq> bin \<and> size_of s (bin_first s bin) \<ge> nb then
           map_option (\<lambda>victim.
               let sz = chunksize s victim;
                   s = unlink victim s
               in if sz - nb < MINSIZE
                  then (Some (chunk2mem victim), set_inuse_bit_at_offset victim sz s)
                  else (let (m, s) = split_chunk False victim sz nb s in (Some m, s)))
             (find_large n nb victim s)
         else Some (None, s))"

text \<open>The search for a block of the bin map that is not empty.\<close>

function next_block :: "'w malloc_state \<Rightarrow> nat \<Rightarrow> nat option" where
  "next_block s block =
     (if block + 1 \<ge> BINMAPSIZE then None
      else if binmap s (block + 1) = 0 then next_block s (block + 1)
      else Some (block + 1))"
  by auto
termination by (relation "measure (\<lambda>(s, block). BINMAPSIZE - block)") auto

fun skip_bits :: "nat \<Rightarrow> u32 \<Rightarrow> u32 \<Rightarrow> u32 \<Rightarrow> (u32 \<times> u32) option" where
  "skip_bits 0 bin bt map' = None"
| "skip_bits (Suc n) bin bt map' =
     (if bt AND map' = 0 then skip_bits n (next_bin bin) (push_bit 1 bt) map' else Some (bin, bt))"

text \<open>The scan of the larger bins by the bin map. \<open>Some (None, s)\<close> is \<open>goto use_top\<close>.\<close>

fun binmap_loop :: "nat \<Rightarrow> u32 \<Rightarrow> u32 \<Rightarrow> nat \<Rightarrow> u32 \<Rightarrow> u32 \<Rightarrow> 'w malloc_state
    \<Rightarrow> (u32 option \<times> 'w malloc_state) option" where
  "binmap_loop 0 nb bin block map' bt s = None"
| "binmap_loop (Suc n) nb bin block map' bt s =
     (let start = (if bt > map' \<or> bt = 0
          then map_option (\<lambda>block. (bin_at s (push_bit BINMAPSHIFT block), block, binmap s block, 1)) (next_block s block)
          else Some (bin, block, map', bt))
      in case start of
           None \<Rightarrow> Some (None, s)
         | Some (bin, block, map', bt) \<Rightarrow>
             (case skip_bits 33 bin bt map' of
                None \<Rightarrow> None
              | Some (bin, bt) \<Rightarrow>
                  (let victim = bin_last s bin
                   in if victim = bin then
                        (let map' = map' AND NOT bt
                         in binmap_loop n nb (next_bin bin) block map' (push_bit 1 bt)
                              (s\<lparr>binmap := (binmap s)(block := map')\<rparr>))
                      else
                        (let sz = chunksize s victim;
                             bck = bk_of s victim;
                             s = set_bk bin bck s;
                             s = set_fd bck bin s
                         in if sz - nb < MINSIZE
                            then Some (Some (chunk2mem victim), set_inuse_bit_at_offset victim sz s)
                            else (let (m, s) = split_chunk (in_smallbin_range nb) victim sz nb s
                                  in Some (Some m, s))))))"

definition binmap_scan :: "nat \<Rightarrow> u32 \<Rightarrow> nat \<Rightarrow> 'w malloc_state \<Rightarrow> (u32 option \<times> 'w malloc_state) option" where
  "binmap_scan n nb idx s =
     (let idx = idx + 1;
          block = idx2block idx
      in binmap_loop n nb (bin_at s idx) block (binmap s block) (idx2bit idx) s)"

text \<open>The outer loop; \<open>goto use_top\<close> leads to the top chunk, then to consolidation or the system.\<close>

fun malloc_loop :: "'w dl_os \<Rightarrow> nat \<Rightarrow> u32 \<Rightarrow> nat \<Rightarrow> 'w malloc_state \<Rightarrow> (u32 \<times> 'w malloc_state) option" where
  "malloc_loop os 0 nb idx s = None"
| "malloc_loop os (Suc n) nb idx s =
     (case unsorted_loop n nb s of
        None \<Rightarrow> None
      | Some (Some m, s) \<Rightarrow> Some (m, s)
      | Some (None, s) \<Rightarrow>
          (case (if \<not> in_smallbin_range nb then malloc_large n nb idx s else Some (None, s)) of
             None \<Rightarrow> None
           | Some (Some m, s) \<Rightarrow> Some (m, s)
           | Some (None, s) \<Rightarrow>
               (case binmap_scan n nb idx s of
                  None \<Rightarrow> None
                | Some (Some m, s) \<Rightarrow> Some (m, s)
                | Some (None, s) \<Rightarrow>
                    (case split_top nb s of
                       Some r \<Rightarrow> Some r
                     | None \<Rightarrow>
                         if have_fastchunks s then
                           (case malloc_consolidate os n s of
                              None \<Rightarrow> None
                            | Some s \<Rightarrow> malloc_loop os n nb (smallbin_index nb) s)
                         else sYSMALLOc os n nb s))))"

definition mALLOc :: "'w dl_os \<Rightarrow> nat \<Rightarrow> u32 \<Rightarrow> 'w malloc_state \<Rightarrow> (u32 \<times> 'w malloc_state) option" where
  "mALLOc os n bytes s =
     (case checked_request2size bytes of
        None \<Rightarrow> Some (0, MALLOC_FAILURE_ACTION s)
      | Some nb \<Rightarrow>
          (case malloc_fast nb s of
             Some r \<Rightarrow> Some r
           | None \<Rightarrow>
               (case malloc_small os n nb s of
                  None \<Rightarrow> None
                | Some (Some m, idx, s) \<Rightarrow> Some (m, s)
                | Some (None, idx, s) \<Rightarrow> malloc_loop os n nb idx s)))"

end
