(* ===== verification/Dlmalloc_Api.thy ===== *)
theory Dlmalloc_Api
  imports Dlmalloc_Alloc
begin

text \<open>
  \<open>source/dlmalloc.c\<close>: the operations built on \<open>mALLOc\<close> and \<open>fREe\<close> (\<open>rEALLOc\<close>, \<open>mEMALIGn\<close>,
  \<open>cALLOc\<close>, \<open>iALLOc\<close>, \<open>vALLOc\<close>, \<open>pVALLOc\<close>), the queries and \<open>mALLOPt\<close>, and the consistency
  checks of the debug build as predicates on the state.
\<close>

section \<open>Copying and clearing\<close>

text \<open>\<open>MALLOC_COPY\<close> and \<open>MALLOC_ZERO\<close> of \<open>n\<close> words; the sizes are multiples of 4.\<close>

definition copy_word :: "u32 \<Rightarrow> u32 \<Rightarrow> nat \<Rightarrow> 'w malloc_state \<Rightarrow> 'w malloc_state" where
  "copy_word d src i s = wr (d + 4 * of_nat i) (rd s (src + 4 * of_nat i)) s"

definition clear_word :: "u32 \<Rightarrow> nat \<Rightarrow> 'w malloc_state \<Rightarrow> 'w malloc_state" where
  "clear_word d i s = wr (d + 4 * of_nat i) 0 s"

definition MALLOC_COPY :: "u32 \<Rightarrow> u32 \<Rightarrow> u32 \<Rightarrow> 'w malloc_state \<Rightarrow> 'w malloc_state" where
  "MALLOC_COPY d src nbytes s = fold (copy_word d src) [0 ..< unat (nbytes div 4)] s"

definition MALLOC_ZERO :: "u32 \<Rightarrow> u32 \<Rightarrow> 'w malloc_state \<Rightarrow> 'w malloc_state" where
  "MALLOC_ZERO d nbytes s = fold (clear_word d) [0 ..< unat (nbytes div 4)] s"

text \<open>The unrolled copy of \<open>rEALLOc\<close> and the unrolled clearing of \<open>cALLOc\<close>, for at most 9 words.\<close>

definition copy_unrolled :: "u32 \<Rightarrow> u32 \<Rightarrow> u32 \<Rightarrow> 'w malloc_state \<Rightarrow> 'w malloc_state" where
  "copy_unrolled d src ncopies s =
     (let c = copy_word d src;
          s = c 2 (c 1 (c 0 s))
      in if ncopies > 4 then
           (let s = c 4 (c 3 s)
            in if ncopies > 6 then
                 (let s = c 6 (c 5 s)
                  in if ncopies > 8 then c 8 (c 7 s) else s)
               else s)
         else s)"

definition clear_unrolled :: "u32 \<Rightarrow> u32 \<Rightarrow> 'w malloc_state \<Rightarrow> 'w malloc_state" where
  "clear_unrolled d nclears s =
     (let c = clear_word d;
          s = c 2 (c 1 (c 0 s))
      in if nclears > 4 then
           (let s = c 4 (c 3 s)
            in if nclears > 6 then
                 (let s = c 6 (c 5 s)
                  in if nclears > 8 then c 8 (c 7 s) else s)
               else s)
         else s)"

definition realloc_copy :: "u32 \<Rightarrow> u32 \<Rightarrow> u32 \<Rightarrow> 'w malloc_state \<Rightarrow> 'w malloc_state" where
  "realloc_copy newmem oldmem oldsize s =
     (let copysize = oldsize - SIZE_SZ;
          ncopies = copysize div 4
      in if ncopies > 9 then MALLOC_COPY newmem oldmem copysize s
         else copy_unrolled newmem oldmem ncopies s)"

section \<open>\<open>rEALLOc\<close>\<close>

text \<open>The end of \<open>rEALLOc\<close> for a chunk extended in place: the rest beyond \<open>nb\<close> is freed.\<close>

definition realloc_split :: "'w dl_os \<Rightarrow> nat \<Rightarrow> u32 \<Rightarrow> u32 \<Rightarrow> u32 \<Rightarrow> 'w malloc_state
    \<Rightarrow> (u32 \<times> 'w malloc_state) option" where
  "realloc_split os n newp newsize nb s =
     (let remainder_size = newsize - nb
      in if remainder_size < MINSIZE then
           (let s = set_head_size newp newsize s;
                s = set_inuse_bit_at_offset newp newsize s
            in Some (chunk2mem newp, s))
         else
           (let remainder = chunk_at_offset newp nb;
                s = set_head_size newp nb s;
                s = set_head remainder (remainder_size OR PREV_INUSE) s;
                s = set_inuse_bit_at_offset remainder remainder_size s
            in map_option (\<lambda>s. (chunk2mem newp, s)) (fREe os n (chunk2mem remainder) s)))"

definition realloc_move :: "'w dl_os \<Rightarrow> nat \<Rightarrow> u32 \<Rightarrow> u32 \<Rightarrow> u32 \<Rightarrow> 'w malloc_state
    \<Rightarrow> (u32 \<times> 'w malloc_state) option" where
  "realloc_move os n oldmem oldsize nb s =
     (let oldp = mem2chunk oldmem;
          next_p = chunk_at_offset oldp oldsize
      in case mALLOc os n (nb - MALLOC_ALIGN_MASK) s of
           None \<Rightarrow> None
         | Some (newmem, s) \<Rightarrow>
             if newmem = 0 then Some (0, s)
             else
               (let newp = mem2chunk newmem;
                    newsize = chunksize s newp
                in if newp = next_p then realloc_split os n oldp (newsize + oldsize) nb s
                   else map_option (\<lambda>s. (chunk2mem newp, s))
                          (fREe os n oldmem (realloc_copy newmem oldmem oldsize s))))"

definition realloc_plain :: "'w dl_os \<Rightarrow> nat \<Rightarrow> u32 \<Rightarrow> u32 \<Rightarrow> u32 \<Rightarrow> 'w malloc_state
    \<Rightarrow> (u32 \<times> 'w malloc_state) option" where
  "realloc_plain os n oldmem oldsize nb s =
     (let oldp = mem2chunk oldmem
      in if oldsize \<ge> nb then realloc_split os n oldp oldsize nb s
         else
           (let next_p = chunk_at_offset oldp oldsize;
                newsize = oldsize + chunksize s next_p
            in if next_p = dl_top s \<and> newsize \<ge> nb + MINSIZE then
                 (let s = set_head_size oldp nb s;
                      s = s\<lparr>dl_top := chunk_at_offset oldp nb\<rparr>;
                      s = set_head (dl_top s) ((newsize - nb) OR PREV_INUSE) s
                  in Some (chunk2mem oldp, s))
               else if next_p \<noteq> dl_top s \<and> \<not> inuse s next_p \<and> newsize \<ge> nb
               then realloc_split os n oldp newsize nb (unlink next_p s)
               else realloc_move os n oldmem oldsize nb s))"

text \<open>
  A chunk with a mapping of its own: \<open>mremap\<close> (the parameter tells where the mapping ends up; its
  words move along), and when that fails, a copy.
\<close>

definition mremap_words :: "u32 \<Rightarrow> u32 \<Rightarrow> u32 \<Rightarrow> 'w malloc_state \<Rightarrow> 'w malloc_state" where
  "mremap_words new old len s =
     s\<lparr>dl_mem := (\<lambda>a. if a - new < len then rd s (old + (a - new)) else rd s a)\<rparr>"

definition note_remapped :: "u32 \<Rightarrow> 'w malloc_state \<Rightarrow> 'w malloc_state" where
  "note_remapped delta s =
     (let sum = mmapped_mem s + delta;
          s = s\<lparr>mmapped_mem := sum\<rparr>;
          s = (if sum > max_mmapped_mem s then s\<lparr>max_mmapped_mem := sum\<rparr> else s);
          sum = sum + sbrked_mem s
      in if sum > max_total_mem s then s\<lparr>max_total_mem := sum\<rparr> else s)"

definition realloc_mmapped :: "'w dl_os \<Rightarrow> nat \<Rightarrow> u32 \<Rightarrow> u32 \<Rightarrow> u32 \<Rightarrow> 'w malloc_state
    \<Rightarrow> (u32 \<times> 'w malloc_state) option" where
  "realloc_mmapped os n oldmem oldsize nb s =
     (let oldp = mem2chunk oldmem;
          offset = prev_size_of s oldp;
          pagemask = pagesize s - 1;
          newsize = (nb + offset + SIZE_SZ + pagemask) AND NOT pagemask
      in if oldsize = newsize - offset then Some (oldmem, s)
         else
           (let (cp, w) = os_mremap os (dl_world s) (oldp - offset) (oldsize + offset) newsize;
                s = s\<lparr>dl_world := w\<rparr>
            in if cp \<noteq> MORECORE_FAILURE then
                 (let s = mremap_words cp (oldp - offset) (min (oldsize + offset) newsize) s;
                      newp = cp + offset;
                      s = set_head newp ((newsize - offset) OR IS_MMAPPED) s
                  in Some (chunk2mem newp, note_remapped (newsize - oldsize) s))
               else if oldsize \<ge> nb + SIZE_SZ then Some (oldmem, s)
               else (case mALLOc os n (nb - MALLOC_ALIGN_MASK) s of
                   None \<Rightarrow> None
                 | Some (newmem, s) \<Rightarrow>
                     if newmem \<noteq> 0
                     then map_option (\<lambda>s. (newmem, s))
                            (fREe os n oldmem (MALLOC_COPY newmem oldmem (oldsize - 2 * SIZE_SZ) s))
                     else Some (newmem, s))))"

definition rEALLOc :: "'w dl_os \<Rightarrow> nat \<Rightarrow> u32 \<Rightarrow> u32 \<Rightarrow> 'w malloc_state \<Rightarrow> (u32 \<times> 'w malloc_state) option" where
  "rEALLOc os n oldmem bytes s =
     (if oldmem = 0 then mALLOc os n bytes s
      else case checked_request2size bytes of
        None \<Rightarrow> Some (0, MALLOC_FAILURE_ACTION s)
      | Some nb \<Rightarrow>
          (let oldp = mem2chunk oldmem;
               oldsize = chunksize s oldp
           in if \<not> chunk_is_mmapped s oldp then realloc_plain os n oldmem oldsize nb s
              else realloc_mmapped os n oldmem oldsize nb s))"

section \<open>\<open>mEMALIGn\<close> and \<open>cALLOc\<close>\<close>

text \<open>The next power of two, from 16 up; \<open>None\<close> when the shift loses the last bit and the loop goes on.\<close>

fun align_loop :: "nat \<Rightarrow> u32 \<Rightarrow> u32 \<Rightarrow> u32 option" where
  "align_loop 0 a alignment = None"
| "align_loop (Suc n) a alignment = (if a < alignment then align_loop n (push_bit 1 a) alignment else Some a)"

definition fix_alignment :: "u32 \<Rightarrow> u32 option" where
  "fix_alignment alignment =
     (let alignment = (if alignment < MINSIZE then MINSIZE else alignment)
      in if alignment AND (alignment - 1) \<noteq> 0 then align_loop 32 (MALLOC_ALIGNMENT * 2) alignment
         else Some alignment)"

text \<open>Giving back the space before the aligned spot; the result is the chunk to be used.\<close>

definition memalign_lead :: "'w dl_os \<Rightarrow> nat \<Rightarrow> u32 \<Rightarrow> u32 \<Rightarrow> 'w malloc_state
    \<Rightarrow> (u32 \<times> bool \<times> 'w malloc_state) option" where
  "memalign_lead os n alignment m s =
     (let p = mem2chunk m
      in if m mod alignment \<noteq> 0 then
           (let brk = mem2chunk ((m + alignment - 1) AND - alignment);
                brk = (if brk - p < MINSIZE then brk + alignment else brk);
                newp = brk;
                leadsize = brk - p;
                newsize = chunksize s p - leadsize
            in if chunk_is_mmapped s p then
                 (let s = wr newp (prev_size_of s p + leadsize) s
                  in Some (newp, True, set_head newp (newsize OR IS_MMAPPED) s))
               else
                 (let s = set_head newp (newsize OR PREV_INUSE) s;
                      s = set_inuse_bit_at_offset newp newsize s;
                      s = set_head_size p leadsize s
                  in map_option (\<lambda>s. (newp, False, s)) (fREe os n (chunk2mem p) s)))
         else Some (p, False, s))"

definition mEMALIGn :: "'w dl_os \<Rightarrow> nat \<Rightarrow> u32 \<Rightarrow> u32 \<Rightarrow> 'w malloc_state \<Rightarrow> (u32 \<times> 'w malloc_state) option" where
  "mEMALIGn os n alignment bytes s =
     (if alignment \<le> MALLOC_ALIGNMENT then mALLOc os n bytes s
      else case fix_alignment alignment of None \<Rightarrow> None | Some alignment \<Rightarrow>
       (case checked_request2size bytes of
        None \<Rightarrow> Some (0, MALLOC_FAILURE_ACTION s)
      | Some nb \<Rightarrow>
          (case mALLOc os n (nb + alignment + MINSIZE) s of
             None \<Rightarrow> None
           | Some (m, s) \<Rightarrow>
               if m = 0 then Some (0, s)
               else (case memalign_lead os n alignment m s of
                   None \<Rightarrow> None
                 | Some (p, True, s) \<Rightarrow> Some (chunk2mem p, s)
                 | Some (p, False, s) \<Rightarrow>
                     if \<not> chunk_is_mmapped s p \<and> chunksize s p > nb + MINSIZE then
                       (let remainder_size = chunksize s p - nb;
                            remainder = chunk_at_offset p nb;
                            s = set_head remainder (remainder_size OR PREV_INUSE) s;
                            s = set_head_size p nb s
                        in map_option (\<lambda>s. (chunk2mem p, s)) (fREe os n (chunk2mem remainder) s))
                     else Some (chunk2mem p, s)))))"

definition calloc_clear :: "u32 \<Rightarrow> u32 \<Rightarrow> 'w malloc_state \<Rightarrow> 'w malloc_state" where
  "calloc_clear mem csize s =
     (let clearsize = csize - SIZE_SZ;
          nclears = clearsize div 4
      in if nclears > 9 then MALLOC_ZERO mem clearsize s else clear_unrolled mem nclears s)"

definition cALLOc :: "'w dl_os \<Rightarrow> nat \<Rightarrow> u32 \<Rightarrow> u32 \<Rightarrow> 'w malloc_state \<Rightarrow> (u32 \<times> 'w malloc_state) option" where
  "cALLOc os n n_elements elem_size s = map_option
     (\<lambda>(mem, s). if mem \<noteq> 0 then
          (let p = mem2chunk mem
           in if \<not> chunk_is_mmapped s p then (mem, calloc_clear mem (chunksize s p) s) else (mem, s))
        else (mem, s))
     (mALLOc os n (n_elements * elem_size) s)"

definition cFREe :: "'w dl_os \<Rightarrow> nat \<Rightarrow> u32 \<Rightarrow> 'w malloc_state \<Rightarrow> 'w malloc_state option" where
  "cFREe os n mem s = fREe os n mem s"

definition vALLOc :: "'w dl_os \<Rightarrow> nat \<Rightarrow> u32 \<Rightarrow> 'w malloc_state \<Rightarrow> (u32 \<times> 'w malloc_state) option" where
  "vALLOc os n bytes s = Option.bind (if have_fastchunks s then malloc_consolidate os n s else Some s)
     (\<lambda>s. mEMALIGn os n (pagesize s) bytes s)"

definition pVALLOc :: "'w dl_os \<Rightarrow> nat \<Rightarrow> u32 \<Rightarrow> 'w malloc_state \<Rightarrow> (u32 \<times> 'w malloc_state) option" where
  "pVALLOc os n bytes s = Option.bind (if have_fastchunks s then malloc_consolidate os n s else Some s)
     (\<lambda>s. let pagesz = pagesize s
          in mEMALIGn os n pagesz ((bytes + pagesz - 1) AND NOT (pagesz - 1)) s)"

section \<open>Independent allocation\<close>

text \<open>The caller's array \<open>sizes\<close> is a function; \<open>chunks = 0\<close> is a NULL argument.\<close>

definition ialloc_sizes :: "nat \<Rightarrow> (nat \<Rightarrow> u32) \<Rightarrow> nat \<Rightarrow> u32 \<times> u32" where
  "ialloc_sizes n_elements sizes opts =
     (if opts mod 2 = 1 then
        (let element_size = request2size (sizes 0)
         in (element_size, of_nat n_elements * element_size))
      else (0, fold (\<lambda>i contents_size. contents_size + request2size (sizes i)) [0 ..< n_elements] 0))"

text \<open>The last loop: \<open>k\<close> elements are left, the next one is element \<open>i\<close> at chunk \<open>p\<close>.\<close>

fun ialloc_carve :: "nat \<Rightarrow> nat \<Rightarrow> u32 \<Rightarrow> u32 \<Rightarrow> u32 \<Rightarrow> (nat \<Rightarrow> u32) \<Rightarrow> u32 \<Rightarrow> 'w malloc_state \<Rightarrow> 'w malloc_state" where
  "ialloc_carve 0 i p remainder_size element_size sizes marray s = s"
| "ialloc_carve (Suc k) i p remainder_size element_size sizes marray s =
     (let s = wr (marray + 4 * of_nat i) (chunk2mem p) s
      in if k \<noteq> 0 then
           (let sz = (if element_size \<noteq> 0 then element_size else request2size (sizes i));
                remainder_size = remainder_size - sz;
                s = set_head p (sz OR PREV_INUSE) s
            in ialloc_carve k (Suc i) (chunk_at_offset p sz) remainder_size element_size sizes marray s)
         else set_head p (remainder_size OR PREV_INUSE) s)"

definition iALLOc :: "'w dl_os \<Rightarrow> nat \<Rightarrow> nat \<Rightarrow> (nat \<Rightarrow> u32) \<Rightarrow> nat \<Rightarrow> u32 \<Rightarrow> 'w malloc_state
    \<Rightarrow> (u32 \<times> 'w malloc_state) option" where
  "iALLOc os n n_elements sizes opts chunks s =
     Option.bind (if have_fastchunks s then malloc_consolidate os n s else Some s)
     (\<lambda>s. if n_elements = 0 then (if chunks \<noteq> 0 then Some (chunks, s) else mALLOc os n 0 s)
       else
        (let array_size = (if chunks \<noteq> 0 then 0 else request2size (of_nat n_elements * 4));
             (element_size, contents_size) = ialloc_sizes n_elements sizes opts;
             sz = contents_size + array_size - MALLOC_ALIGN_MASK;
             mmx = n_mmaps_max s
         in case mALLOc os n sz (s\<lparr>n_mmaps_max := 0\<rparr>) of
              None \<Rightarrow> None
            | Some (mem, s) \<Rightarrow>
                (let s = s\<lparr>n_mmaps_max := mmx\<rparr>
                 in if mem = 0 then Some (0, s)
                    else
                      (let p = mem2chunk mem;
                           remainder_size = chunksize s p;
                           s = (if opts div 2 mod 2 = 1
                                then MALLOC_ZERO mem (remainder_size - SIZE_SZ - array_size) s else s);
                           (marray, remainder_size, s) =
                             (if chunks = 0 then
                                (let array_chunk = chunk_at_offset p contents_size
                                 in (chunk2mem array_chunk, contents_size,
                                     set_head array_chunk ((remainder_size - contents_size) OR PREV_INUSE) s))
                              else (chunks, remainder_size, s))
                       in Some (marray, ialloc_carve n_elements 0 p remainder_size element_size sizes marray s)))))"

definition iCALLOc :: "'w dl_os \<Rightarrow> nat \<Rightarrow> nat \<Rightarrow> u32 \<Rightarrow> u32 \<Rightarrow> 'w malloc_state \<Rightarrow> (u32 \<times> 'w malloc_state) option" where
  "iCALLOc os n n_elements elem_size chunks s = iALLOc os n n_elements (\<lambda>_. elem_size) 3 chunks s"

definition iCOMALLOc :: "'w dl_os \<Rightarrow> nat \<Rightarrow> nat \<Rightarrow> (nat \<Rightarrow> u32) \<Rightarrow> u32 \<Rightarrow> 'w malloc_state
    \<Rightarrow> (u32 \<times> 'w malloc_state) option" where
  "iCOMALLOc os n n_elements sizes chunks s = iALLOc os n n_elements sizes 0 chunks s"

section \<open>Trimming, queries and parameters\<close>

definition mTRIm :: "'w dl_os \<Rightarrow> nat \<Rightarrow> u32 \<Rightarrow> 'w malloc_state \<Rightarrow> (bool \<times> 'w malloc_state) option" where
  "mTRIm os n pad s = map_option (sYSTRIm os pad) (malloc_consolidate os n s)"

definition mUSABLe :: "u32 \<Rightarrow> 'w malloc_state \<Rightarrow> u32" where
  "mUSABLe mem s =
     (if mem \<noteq> 0 then
        (let p = mem2chunk mem
         in if chunk_is_mmapped s p then chunksize s p - 2 * SIZE_SZ
            else if inuse s p then chunksize s p - SIZE_SZ
            else 0)
      else 0)"

text \<open>The nodes of a linked list from \<open>p\<close> up to \<open>stop\<close>.\<close>

fun walk :: "nat \<Rightarrow> (u32 \<Rightarrow> u32) \<Rightarrow> u32 \<Rightarrow> u32 \<Rightarrow> u32 list option" where
  "walk 0 nxt stop p = None"
| "walk (Suc n) nxt stop p = (if p = stop then Some [] else map_option (Cons p) (walk n nxt stop (nxt p)))"

fun walks :: "nat \<Rightarrow> (u32 \<Rightarrow> u32) \<Rightarrow> (u32 \<times> u32) list \<Rightarrow> u32 list option" where
  "walks n nxt [] = Some []"
| "walks n nxt ((stop, p) # r) = Option.bind (walk n nxt stop p) (\<lambda>xs. map_option ((@) xs) (walks n nxt r))"

record mallinfo =
  mi_arena :: u32
  mi_ordblks :: nat
  mi_smblks :: nat
  mi_hblks :: int
  mi_hblkhd :: u32
  mi_usmblks :: u32
  mi_fsmblks :: u32
  mi_uordblks :: u32
  mi_fordblks :: u32
  mi_keepcost :: u32

definition mALLINFo :: "'w dl_os \<Rightarrow> nat \<Rightarrow> 'w malloc_state \<Rightarrow> (mallinfo \<times> 'w malloc_state) option" where
  "mALLINFo os n s =
     Option.bind (if dl_top s = 0 then malloc_consolidate os n s else Some s)
     (\<lambda>s. Option.bind (walks n (fd_of s) (map (\<lambda>i. (0, fastbins s i)) [0 ..< NFASTBINS]))
       (\<lambda>fast. Option.bind (walks n (bk_of s) (map (\<lambda>i. (bin_at s i, bin_last s (bin_at s i))) [1 ..< NBINS]))
         (\<lambda>binned.
           let fastavail = sum_list (map (chunksize s) fast);
               avail = chunksize s (dl_top s) + fastavail + sum_list (map (chunksize s) binned)
           in Some (\<lparr>mi_arena = sbrked_mem s, mi_ordblks = 1 + length binned, mi_smblks = length fast,
                     mi_hblks = n_mmaps s, mi_hblkhd = mmapped_mem s, mi_usmblks = max_total_mem s,
                     mi_fsmblks = fastavail, mi_uordblks = sbrked_mem s - avail, mi_fordblks = avail,
                     mi_keepcost = chunksize s (dl_top s)\<rparr>, s))))"

datatype mparam = M_MXFAST | M_TRIM_THRESHOLD | M_TOP_PAD | M_MMAP_THRESHOLD | M_MMAP_MAX | M_OTHER

definition mALLOPt :: "'w dl_os \<Rightarrow> nat \<Rightarrow> mparam \<Rightarrow> int \<Rightarrow> 'w malloc_state \<Rightarrow> (bool \<times> 'w malloc_state) option" where
  "mALLOPt os n param_number v s =
     Option.bind (malloc_consolidate os n s)
     (\<lambda>s. Some (case param_number of
        M_MXFAST \<Rightarrow> (if v \<ge> 0 \<and> v \<le> uint MAX_FAST_SIZE then (True, set_max_fast (of_int v) s) else (False, s))
      | M_TRIM_THRESHOLD \<Rightarrow> (True, s\<lparr>trim_threshold := of_int v\<rparr>)
      | M_TOP_PAD \<Rightarrow> (True, s\<lparr>top_pad := of_int v\<rparr>)
      | M_MMAP_THRESHOLD \<Rightarrow> (True, s\<lparr>mmap_threshold := of_int v\<rparr>)
      | M_MMAP_MAX \<Rightarrow> (True, s\<lparr>n_mmaps_max := v\<rparr>)
      | M_OTHER \<Rightarrow> (False, s)))"

section \<open>The checks of the debug build\<close>

definition do_check_chunk :: "u32 \<Rightarrow> 'w malloc_state \<Rightarrow> bool" where
  "do_check_chunk p s =
     (let sz = chunksize s p;
          max_address = dl_top s + chunksize s (dl_top s);
          min_address = max_address - sbrked_mem s
      in if \<not> chunk_is_mmapped s p then
           (if p \<noteq> dl_top s then contiguous s \<longrightarrow> p \<ge> min_address \<and> p + sz \<le> dl_top s
            else sz \<ge> MINSIZE \<and> prev_inuse s p)
         else
           (contiguous s \<and> dl_top s \<noteq> initial_top s \<longrightarrow> p < min_address \<or> p > max_address) \<and>
           (prev_size_of s p + sz) AND (pagesize s - 1) = 0 \<and> aligned_OK (chunk2mem p))"

definition do_check_free_chunk :: "u32 \<Rightarrow> 'w malloc_state \<Rightarrow> bool" where
  "do_check_free_chunk p s =
     (let sz = size_of s p AND NOT PREV_INUSE;
          next_p = chunk_at_offset p sz
      in do_check_chunk p s \<and> \<not> inuse s p \<and> \<not> chunk_is_mmapped s p \<and>
         (if sz \<ge> MINSIZE then
            sz AND MALLOC_ALIGN_MASK = 0 \<and> aligned_OK (chunk2mem p) \<and> prev_size_of s next_p = sz \<and>
            prev_inuse s p \<and> (next_p = dl_top s \<or> inuse s next_p) \<and>
            bk_of s (fd_of s p) = p \<and> fd_of s (bk_of s p) = p
          else sz = SIZE_SZ))"

definition do_check_inuse_chunk :: "u32 \<Rightarrow> 'w malloc_state \<Rightarrow> bool" where
  "do_check_inuse_chunk p s =
     (do_check_chunk p s \<and>
      (chunk_is_mmapped s p \<or>
       (inuse s p \<and>
        (let next_p = next_chunk s p
         in (\<not> prev_inuse s p \<longrightarrow>
               (let prv = prev_chunk s p in next_chunk s prv = p \<and> do_check_free_chunk prv s)) \<and>
            (if next_p = dl_top s then prev_inuse s next_p \<and> chunksize s next_p \<ge> MINSIZE
             else \<not> inuse s next_p \<longrightarrow> do_check_free_chunk next_p s)))))"

definition do_check_remalloced_chunk :: "u32 \<Rightarrow> u32 \<Rightarrow> 'w malloc_state \<Rightarrow> bool" where
  "do_check_remalloced_chunk p k s =
     (let sz = size_of s p AND NOT PREV_INUSE
      in do_check_inuse_chunk p s \<and> sz AND MALLOC_ALIGN_MASK = 0 \<and> sz \<ge> MINSIZE \<and>
         aligned_OK (chunk2mem p) \<and> 0 \<le>s sz - k \<and> sz - (k + MINSIZE) <s 0)"

definition do_check_malloced_chunk :: "u32 \<Rightarrow> u32 \<Rightarrow> 'w malloc_state \<Rightarrow> bool" where
  "do_check_malloced_chunk p k s \<longleftrightarrow> do_check_remalloced_chunk p k s \<and> prev_inuse s p"

text \<open>The whole-heap check. Its loops over lists are bounded by \<open>n\<close> nodes; a longer list fails it.\<close>

definition check_fastbin :: "nat \<Rightarrow> nat \<Rightarrow> 'w malloc_state \<Rightarrow> u32 list option" where
  "check_fastbin n i s =
     (let p = fastbins s i
      in if fastbin_index (max_fast s) <s of_nat i \<and> p \<noteq> 0 then None
         else Option.bind (walk n (fd_of s) 0 p) (\<lambda>ps.
           if list_all (\<lambda>p. do_check_inuse_chunk p s \<and> fastbin_index (chunksize s p) = of_nat i) ps
           then Some ps else None))"

fun check_following :: "nat \<Rightarrow> u32 \<Rightarrow> 'w malloc_state \<Rightarrow> bool" where
  "check_following 0 q s = False"
| "check_following (Suc n) q s =
     (if q \<noteq> dl_top s \<and> inuse s q \<and> chunksize s q \<ge> MINSIZE
      then do_check_inuse_chunk q s \<and> check_following n (next_chunk s q) s else True)"

definition check_bin :: "nat \<Rightarrow> nat \<Rightarrow> 'w malloc_state \<Rightarrow> u32 list option" where
  "check_bin n i s =
     (let b = bin_at s i;
          binbit = get_binmap s i;
          empty = (bin_last s b = b)
      in if i \<ge> 2 \<and> binbit = 0 \<and> \<not> empty then None
         else Option.bind (walk n (bk_of s) b (bin_last s b)) (\<lambda>ps.
           if list_all (\<lambda>p. do_check_free_chunk p s \<and>
                (i \<ge> 2 \<longrightarrow> bin_index (chunksize s p) = i \<and>
                   (bk_of s p = b \<or> chunksize s (bk_of s p) \<ge> chunksize s p)) \<and>
                check_following n (next_chunk s p) s) ps
           then Some ps else None))"

fun check_all :: "(nat \<Rightarrow> u32 list option) \<Rightarrow> nat list \<Rightarrow> u32 list option" where
  "check_all f [] = Some []"
| "check_all f (i # is) = Option.bind (f i) (\<lambda>ps. map_option ((@) ps) (check_all f is))"

definition check_totals :: "u32 \<Rightarrow> 'w malloc_state \<Rightarrow> bool" where
  "check_totals tot s \<longleftrightarrow>
     do_check_chunk (dl_top s) s \<and> tot \<le> max_total_mem s \<and> n_mmaps s \<ge> 0 \<and>
     n_mmaps s \<le> n_mmaps_max s \<and> n_mmaps s \<le> max_n_mmaps s \<and>
     sbrked_mem s \<le> max_sbrked_mem s \<and> mmapped_mem s \<le> max_mmapped_mem s \<and>
     max_total_mem s \<ge> mmapped_mem s + sbrked_mem s"

definition do_check_malloc_state :: "nat \<Rightarrow> 'w malloc_state \<Rightarrow> bool" where
  "do_check_malloc_state n s =
     (if dl_top s = 0 \<or> dl_top s = initial_top s then True
      else pagesize s AND (pagesize s - 1) = 0 \<and>
        max_fast s AND NOT 1 \<le> request2size MAX_FAST_SIZE \<and>
        (case check_all (\<lambda>i. check_fastbin n i s) [0 ..< NFASTBINS] of
           None \<Rightarrow> False
         | Some fast \<Rightarrow>
             (let tot = sum_list (map (chunksize s) fast)
              in (tot \<noteq> 0 \<longrightarrow> have_fastchunks s) \<and>
                 (case check_all (\<lambda>i. check_bin n i s) [1 ..< NBINS] of
                    None \<Rightarrow> False
                  | Some binned \<Rightarrow> check_totals (tot + sum_list (map (chunksize s) binned)) s))))"

end
