(* ===== verification/Dlmalloc_Arith.thy ===== *)
theory Dlmalloc_Arith
  imports Dlmalloc_Api
begin

text \<open>
  The arithmetic of \<open>dlmalloc.c\<close>: what \<open>request2size\<close> returns, where \<open>bin_index\<close> and
  \<open>fastbin_index\<close> put a size, and the bits of the bin map.
\<close>

section \<open>Word arithmetic\<close>

lemma MALLOC_ALIGN_MASK_mask: "MALLOC_ALIGN_MASK = mask 3"
  by (simp add: MALLOC_ALIGN_MASK_def MALLOC_ALIGNMENT_def SIZE_SZ_def mask_eq_exp_minus_1)

lemma MINSIZE_16 [simp]: "MINSIZE = 16"
  by (simp add: MINSIZE_def MIN_CHUNK_SIZE_def MALLOC_ALIGN_MASK_def MALLOC_ALIGNMENT_def SIZE_SZ_def)

lemma unat_and_not_7: "unat ((x::u32) AND NOT MALLOC_ALIGN_MASK) = unat x div 8 * 8"
  unfolding MALLOC_ALIGN_MASK_mask unat_and_not_mask by simp

lemma in_range_bound: "\<not> REQUEST_OUT_OF_RANGE req \<Longrightarrow> unat req < 2 ^ 32 - 32"
  by (simp add: REQUEST_OUT_OF_RANGE_def word_le_nat_alt)

lemma unat_plus_11: "unat req < 2 ^ 32 - 32 \<Longrightarrow> unat (req + SIZE_SZ + MALLOC_ALIGN_MASK) = unat req + 11"
  for req :: u32
proof -
  assume "unat req < 2 ^ 32 - 32"
  moreover have e: "req + SIZE_SZ + MALLOC_ALIGN_MASK = req + 11"
    by (simp add: SIZE_SZ_def MALLOC_ALIGN_MASK_def MALLOC_ALIGNMENT_def)
  ultimately show ?thesis unfolding e by (subst unat_add_nowrap) simp_all
qed

lemma unat_request2size:
  assumes "\<not> REQUEST_OUT_OF_RANGE req"
  shows "unat (request2size req) = max 16 ((unat req + 11) div 8 * 8)"
proof -
  have u: "unat (req + SIZE_SZ + MALLOC_ALIGN_MASK) = unat req + 11"
    by (rule unat_plus_11 [OF in_range_bound [OF assms]])
  show ?thesis
  proof (cases "req + SIZE_SZ + MALLOC_ALIGN_MASK < MINSIZE")
    case True
    then have "unat req + 11 < 16" using u by (simp add: word_less_nat_alt)
    then have "(unat req + 11) div 8 * 8 \<le> 16" by presburger
    with True show ?thesis by (simp add: request2size_def max_def)
  next
    case False
    then have "16 \<le> unat req + 11" using u by (simp add: word_less_nat_alt)
    then have "16 \<le> (unat req + 11) div 8 * 8" by presburger
    with False u show ?thesis by (simp add: request2size_def unat_and_not_7 max_def)
  qed
qed

section \<open>Requests\<close>

text \<open>The size of a chunk for a request. Unless the request is out of range, in which case
  every allocation function returns 0 and sets \<open>errno\<close>, the chunk size is a multiple of 8 of at
  least 16, holds the requested bytes beside its header, is less than 12 bytes above them or 16,
  and no sum has wrapped around.\<close>

theorem request2size_fits:
  assumes "checked_request2size req = Some nb"
  shows "unat req + unat SIZE_SZ \<le> unat nb \<and> 8 dvd unat nb \<and> 16 \<le> unat nb \<and>
         (unat nb = 16 \<or> unat nb < unat req + 12) \<and> unat nb + 16 < 2 ^ 32"
proof -
  have r: "\<not> REQUEST_OUT_OF_RANGE req" and nb: "nb = request2size req"
    using assms by (auto simp: checked_request2size_def split: if_splits)
  define k where "k = (unat req + 11) div 8"
  have k: "8 * k \<le> unat req + 11" "unat req + 11 < 8 * k + 8" by (simp_all add: k_def)
  have u: "unat nb = max 16 (8 * k)" using unat_request2size [OF r] nb by (simp add: k_def mult.commute)
  have "8 dvd unat nb" unfolding u by (simp add: max_def)
  with k u in_range_bound [OF r] show ?thesis by (simp add: SIZE_SZ_def max_def split: if_splits)
qed

lemma request2size_fits_witness:
  "checked_request2size 100 = Some 104 \<and> unat (100::u32) + unat SIZE_SZ \<le> unat (104::u32)"
proof -
  have c: "checked_request2size 100 = Some 104"
    by (simp add: checked_request2size_def REQUEST_OUT_OF_RANGE_def request2size_def SIZE_SZ_def
        MALLOC_ALIGN_MASK_def MALLOC_ALIGNMENT_def)
  with request2size_fits [OF c] show ?thesis by blast
qed

text \<open>A chunk size is the size for the request \<open>rEALLOc\<close> passes to \<open>mALLOc\<close>.\<close>

lemma request2size_minus_mask:
  assumes "8 dvd unat nb" and "16 \<le> unat nb" and "unat nb + 32 \<le> 2 ^ 32"
  shows "checked_request2size (nb - MALLOC_ALIGN_MASK) = Some nb"
proof -
  have u: "unat (nb - MALLOC_ALIGN_MASK) = unat nb - 7"
    using assms(2) by (subst unat_sub) (simp_all add: MALLOC_ALIGN_MASK_def MALLOC_ALIGNMENT_def SIZE_SZ_def word_le_nat_alt)
  then have r: "\<not> REQUEST_OUT_OF_RANGE (nb - MALLOC_ALIGN_MASK)"
    using assms(2,3) by (simp add: REQUEST_OUT_OF_RANGE_def word_le_nat_alt)
  have "(unat nb - 7 + 11) div 8 * 8 = unat nb"
    using assms(1,2) by (auto elim!: dvdE)
  then have "unat (request2size (nb - MALLOC_ALIGN_MASK)) = unat nb"
    using unat_request2size [OF r] u assms(2) by simp
  then have "request2size (nb - MALLOC_ALIGN_MASK) = nb" by (rule word_unat_eq_iff [THEN iffD2])
  then show ?thesis using r by (simp add: checked_request2size_def)
qed

section \<open>Bins\<close>

definition bin_nat :: "nat \<Rightarrow> nat" where
  "bin_nat n = (if n < 512 then n div 8
     else if n div 64 \<le> 32 then 56 + n div 64
     else if n div 512 \<le> 20 then 91 + n div 512
     else if n div 4096 \<le> 10 then 110 + n div 4096
     else if n div 32768 \<le> 4 then 119 + n div 32768
     else if n div 262144 \<le> 2 then 124 + n div 262144 else 126)"

lemma bin_index_nat: "bin_index sz = bin_nat (unat sz)"
  by (simp add: bin_index_def bin_nat_def in_smallbin_range_def MIN_LARGE_SIZE_def smallbin_index_def
      largebin_index_def word_less_nat_alt word_le_nat_alt drop_bit_eq_div unat_div)

lemma bin_nat_alt:
  "bin_nat n = (if n < 512 then n div 8 else if n < 2112 then 56 + n div 64
     else if n < 10752 then 91 + n div 512 else if n < 45056 then 110 + n div 4096
     else if n < 163840 then 119 + n div 32768 else if n < 786432 then 124 + n div 262144 else 126)"
proof -
  have D: "n div q \<le> k \<longleftrightarrow> n < Suc k * q" if "0 < q" for k q :: nat
    using div_less_iff_less_mult [OF that, of n "Suc k"] by (simp only: less_Suc_eq_le)
  have c: "n div 64 \<le> 32 \<longleftrightarrow> n < 2112" "n div 512 \<le> 20 \<longleftrightarrow> n < 10752" "n div 4096 \<le> 10 \<longleftrightarrow> n < 45056"
    "n div 32768 \<le> 4 \<longleftrightarrow> n < 163840" "n div 262144 \<le> 2 \<longleftrightarrow> n < 786432"
    by (simp_all add: D)
  show ?thesis unfolding bin_nat_def c ..
qed

lemma bin_nat_upper:
  "m < 512 \<Longrightarrow> bin_nat m \<le> 63" "m < 2112 \<Longrightarrow> bin_nat m \<le> 88" "m < 10752 \<Longrightarrow> bin_nat m \<le> 111"
  "m < 45056 \<Longrightarrow> bin_nat m \<le> 120" "m < 163840 \<Longrightarrow> bin_nat m \<le> 123" "bin_nat m \<le> 126"
proof -
  have D: "m div q \<le> k" if "0 < q" "m < Suc k * q" for k q :: nat
    using that div_less_iff_less_mult [OF that(1), of m "Suc k"] by (simp only: less_Suc_eq_le)
  show u1: "m < 512 \<Longrightarrow> bin_nat m \<le> 63" using D [of 8 63] by (simp add: bin_nat_alt)
  show u2: "m < 2112 \<Longrightarrow> bin_nat m \<le> 88" using D [of 64 32] u1 by (cases "m < 512") (simp_all add: bin_nat_alt)
  show u3: "m < 10752 \<Longrightarrow> bin_nat m \<le> 111" using D [of 512 20] u2 by (cases "m < 2112") (simp_all add: bin_nat_alt)
  show u4: "m < 45056 \<Longrightarrow> bin_nat m \<le> 120" using D [of 4096 10] u3 by (cases "m < 10752") (simp_all add: bin_nat_alt)
  show u5: "m < 163840 \<Longrightarrow> bin_nat m \<le> 123" using D [of 32768 4] u4 by (cases "m < 45056") (simp_all add: bin_nat_alt)
  have u6: "m < 786432 \<Longrightarrow> bin_nat m \<le> 126" using D [of 262144 2] u5 by (cases "m < 163840") (simp_all add: bin_nat_alt)
  show "bin_nat m \<le> 126" using u6 by (cases "m < 786432") (simp_all add: bin_nat_alt)
qed

lemma bin_nat_lower:
  "512 \<le> n \<Longrightarrow> 64 \<le> bin_nat n" "2112 \<le> n \<Longrightarrow> 95 \<le> bin_nat n" "10752 \<le> n \<Longrightarrow> 112 \<le> bin_nat n"
  "45056 \<le> n \<Longrightarrow> 120 \<le> bin_nat n" "163840 \<le> n \<Longrightarrow> 124 \<le> bin_nat n" "786432 \<le> n \<Longrightarrow> bin_nat n = 126"
proof -
  have L: "k \<le> n div q" if "0 < q" "k * q \<le> n" for k q :: nat
    using that by (simp add: less_eq_div_iff_mult_less_eq)
  show l6: "786432 \<le> n \<Longrightarrow> bin_nat n = 126" by (simp add: bin_nat_alt)
  show l5: "163840 \<le> n \<Longrightarrow> 124 \<le> bin_nat n" by (simp add: bin_nat_alt)
  show l4: "45056 \<le> n \<Longrightarrow> 120 \<le> bin_nat n" using L [of 32768 1] l5 by (cases "163840 \<le> n") (simp_all add: bin_nat_alt)
  show l3: "10752 \<le> n \<Longrightarrow> 112 \<le> bin_nat n" using L [of 4096 2] l4 by (cases "45056 \<le> n") (simp_all add: bin_nat_alt)
  show l2: "2112 \<le> n \<Longrightarrow> 95 \<le> bin_nat n" using L [of 512 4] l3 by (cases "10752 \<le> n") (simp_all add: bin_nat_alt)
  show "512 \<le> n \<Longrightarrow> 64 \<le> bin_nat n" using L [of 64 8] l2 by (cases "2112 \<le> n") (simp_all add: bin_nat_alt)
qed

lemma bin_nat_mono:
  assumes "m \<le> n"
  shows "bin_nat m \<le> bin_nat n"
proof -
  have d: "m div q \<le> n div q" for q using assms by (rule div_le_mono)
  have cut: "bin_nat m \<le> bin_nat n" if "m < k" "k \<le> n" "k \<in> {512, 2112, 10752, 45056, 163840, 786432}" for k
    using that bin_nat_upper [of m] bin_nat_lower [of n] by auto
  show ?thesis
  proof (cases "\<exists>k \<in> {512, 2112, 10752, 45056, 163840, 786432}. m < k \<and> k \<le> n")
    case True
    then show ?thesis using cut by blast
  next
    case False
    then have s: "m < k \<longleftrightarrow> n < k" if "k \<in> {512, 2112, 10752, 45056, 163840, 786432}" for k
      using assms that by (meson not_le le_less_trans)
    show ?thesis using d unfolding bin_nat_alt [of m] bin_nat_alt [of n] by (simp add: s)
  qed
qed

text \<open>The bins are ordered by size. Every chunk of at least 16 bytes belongs to one of the bins 2
  to 126, a larger chunk never to a lower bin, and a bin below 64 holds chunks of one size only,
  8 times its number.\<close>

theorem bin_index_ordered:
  assumes "16 \<le> unat a" and "a \<le> b"
  shows "2 \<le> bin_index a \<and> bin_index b \<le> 126 \<and> bin_index a \<le> bin_index b \<and>
         (8 dvd unat a \<longrightarrow> (bin_index a < NSMALLBINS \<longleftrightarrow> in_smallbin_range a) \<and>
            (in_smallbin_range a \<longrightarrow> unat a = 8 * bin_index a))"
proof -
  have m: "bin_nat (unat a) \<le> bin_nat (unat b)"
    by (rule bin_nat_mono) (use assms(2) in \<open>simp add: word_le_nat_alt\<close>)
  have l: "2 \<le> bin_nat (unat a)"
    using bin_nat_mono [OF assms(1)] by (simp add: bin_nat_def)
  have r: "in_smallbin_range a \<longleftrightarrow> unat a < 512"
    by (simp add: in_smallbin_range_def MIN_LARGE_SIZE_def word_less_nat_alt)
  have s: "bin_nat (unat a) < 64 \<longleftrightarrow> unat a < 512" "unat a < 512 \<Longrightarrow> bin_nat (unat a) = unat a div 8"
    using bin_nat_upper(1) [of "unat a"] bin_nat_lower(1) [of "unat a"] by (auto simp: bin_nat_alt)
  have "bin_nat (unat b) \<le> 126" by (rule bin_nat_upper(6))
  with m l s show ?thesis by (auto simp: bin_index_nat r NSMALLBINS_def)
qed

lemma bin_index_ordered_witness: "bin_index 512 \<le> bin_index (100000::u32) \<and> bin_index (100000::u32) = 122"
proof
  show "bin_index 512 \<le> bin_index (100000::u32)" using bin_index_ordered [of 512 100000] by simp
  show "bin_index (100000::u32) = 122" by (simp add: bin_index_nat bin_nat_def)
qed

section \<open>Fastbins\<close>

lemma NFASTBINS_10 [simp]: "NFASTBINS = 10"
  by (simp add: NFASTBINS_def fastbin_index_def request2size_def MAX_FAST_SIZE_def SIZE_SZ_def
      MALLOC_ALIGN_MASK_def MALLOC_ALIGNMENT_def drop_bit_eq_div)

lemma fastbin_index_bound:
  assumes "16 \<le> unat sz" and "unat sz \<le> 95"
  shows "unat (fastbin_index sz) = unat sz div 8 - 2" and "unat (fastbin_index sz) < NFASTBINS"
proof -
  have d: "unat (drop_bit 3 sz) = unat sz div 8" by (simp add: drop_bit_eq_div unat_div)
  then have "2 \<le> drop_bit 3 sz" using assms(1) by (simp add: word_le_nat_alt)
  then have "unat (drop_bit 3 sz - 2) = unat sz div 8 - 2" using d by (simp add: unat_sub)
  then show "unat (fastbin_index sz) = unat sz div 8 - 2" by (simp add: fastbin_index_def)
  then show "unat (fastbin_index sz) < NFASTBINS" using assms(2) by simp
qed

section \<open>The bin map\<close>

lemma idx2block_div: "idx2block i = i div 32"
  by (simp add: idx2block_def BINMAPSHIFT_def drop_bit_eq_div)

lemma get_binmap_bit: "get_binmap s j \<noteq> 0 \<longleftrightarrow> bit (binmap s (j div 32)) (j mod 32)"
  unfolding get_binmap_def idx2block_div idx2bit_def BINMAPSHIFT_def
  by (simp add: bit_iff_and_push_bit_not_eq_0)

lemma bit_idx2bit: "k < 32 \<Longrightarrow> bit (idx2bit i) k \<longleftrightarrow> k = i mod 32"
  by (auto simp: idx2bit_def BINMAPSHIFT_def bit_simps)

lemma same_bin: "i div 32 = j div 32 \<Longrightarrow> i mod 32 = j mod 32 \<Longrightarrow> i = (j::nat)"
  by (metis div_mult_mod_eq)

text \<open>The bin map is a set of bin numbers. \<open>mark_bin\<close> and \<open>unmark_bin\<close> change the bit of their own
  bin and no other one: after them \<open>get_binmap\<close> is non-zero for exactly the bins it was non-zero for, with
  \<open>i\<close> added or removed.\<close>

theorem binmap_is_set:
  "{j. get_binmap (mark_bin i s) j \<noteq> 0} = insert i {j. get_binmap s j \<noteq> 0} \<and>
   {j. get_binmap (unmark_bin i s) j \<noteq> 0} = {j. get_binmap s j \<noteq> 0} - {i}"
proof -
  have k: "j mod 32 < 32" for j :: nat by simp
  have "get_binmap (mark_bin i s) j \<noteq> 0 \<longleftrightarrow> j = i \<or> get_binmap s j \<noteq> 0" for j
    unfolding get_binmap_bit mark_bin_def idx2block_div
    using same_bin [of j i] by (auto simp: bit_or_iff bit_idx2bit [OF k])
  moreover have "get_binmap (unmark_bin i s) j \<noteq> 0 \<longleftrightarrow> j \<noteq> i \<and> get_binmap s j \<noteq> 0" for j
    unfolding get_binmap_bit unmark_bin_def idx2block_div
    using same_bin [of j i] by (auto simp: bit_and_iff bit_not_iff bit_idx2bit [OF k])
  ultimately show ?thesis by blast
qed

end
