(* ===== verification/Dlmalloc_Lists.thy ===== *)
theory Dlmalloc_Lists
  imports Dlmalloc_Arith
begin

text \<open>
  The bins of \<open>dlmalloc.c\<close> as circular doubly linked lists, and what the code does to them, as
  operations on HOL lists: \<open>unlink\<close> removes a chunk, the link code of \<open>fREe\<close> and of
  \<open>malloc_consolidate\<close> puts one at the front, and \<open>malloc_init_state\<close> makes all bins empty.
\<close>

section \<open>Reading and writing words\<close>

lemma rd_wr [simp]: "rd (wr a v s) b = (if b = a then v else rd s b)"
  by (simp add: rd_def wr_def)

lemma wr_fields [simp]:
  "dl_bins (wr a v s) = dl_bins s" "max_fast (wr a v s) = max_fast s" "fastbins (wr a v s) = fastbins s"
  "dl_top (wr a v s) = dl_top s" "binmap (wr a v s) = binmap s" "top_pad (wr a v s) = top_pad s"
  "trim_threshold (wr a v s) = trim_threshold s" "pagesize (wr a v s) = pagesize s"
  "sbrked_mem (wr a v s) = sbrked_mem s" "dl_world (wr a v s) = dl_world s"
  "n_mmaps_max (wr a v s) = n_mmaps_max s" "last_remainder (wr a v s) = last_remainder s"
  by (simp_all add: wr_def)

lemma rd_upd [simp]:
  "rd (s\<lparr>max_fast := x\<rparr>) a = rd s a" "rd (s\<lparr>fastbins := f\<rparr>) a = rd s a" "rd (s\<lparr>dl_top := t\<rparr>) a = rd s a"
  "rd (s\<lparr>binmap := b\<rparr>) a = rd s a" "rd (s\<lparr>sbrked_mem := x\<rparr>) a = rd s a" "rd (s\<lparr>dl_world := w\<rparr>) a = rd s a"
  "rd (s\<lparr>last_remainder := t\<rparr>) a = rd s a"
  by (simp_all add: rd_def)

lemmas chunk_defs = size_of_def fd_of_def bk_of_def prev_size_of_def set_size_def set_fd_def set_bk_def
  set_head_def set_foot_def

section \<open>Circular lists\<close>

fun links :: "'w malloc_state \<Rightarrow> u32 list \<Rightarrow> bool" where
  "links s (x # y # r) \<longleftrightarrow> fd_of s x = y \<and> bk_of s y = x \<and> links s (y # r)"
| "links s _ \<longleftrightarrow> True"

text \<open>
  \<open>dlist s b ps\<close>: the bin with header \<open>b\<close> holds the chunks \<open>ps\<close>, from \<open>fd\<close> to \<open>bk\<close>. The words of
  different nodes do not overlap.
\<close>

definition apart :: "u32 set \<Rightarrow> bool" where
  "apart N \<longleftrightarrow> (\<forall>p \<in> N. \<forall>q \<in> N. q \<noteq> p + 4)"

definition dlist :: "'w malloc_state \<Rightarrow> u32 \<Rightarrow> u32 list \<Rightarrow> bool" where
  "dlist s b ps \<longleftrightarrow> distinct (b # ps) \<and> apart (set (b # ps)) \<and> links s (b # ps @ [b])"

lemma links_append: "links s (xs @ [x]) \<and> links s (x # ys) \<longleftrightarrow> links s (xs @ x # ys)"
proof (induction xs)
  case (Cons a xs)
  then show ?case by (cases xs) auto
qed simp

lemma links_cong:
  "(\<And>x. x \<in> set (butlast xs) \<Longrightarrow> fd_of t x = fd_of s x) \<Longrightarrow> (\<And>x. x \<in> set (tl xs) \<Longrightarrow> bk_of t x = bk_of s x) \<Longrightarrow>
   links t xs = links s xs"
  by (induction s xs rule: links.induct) (auto split: if_splits)

lemma dlist_empty: "dlist s b [] \<longleftrightarrow> fd_of s b = b \<and> bk_of s b = b"
  by (auto simp: dlist_def apart_def)

lemma dlist_ends:
  assumes "dlist s b ps"
  shows "fd_of s b = hd (ps @ [b])" and "bk_of s b = last (b # ps)"
proof -
  show "fd_of s b = hd (ps @ [b])" using assms by (cases ps) (auto simp: dlist_def)
  obtain A q where A: "b # ps = A @ [q]" by (metis append_butlast_last_id list.distinct(1))
  then have "links s (A @ q # [b])" using assms by (simp add: dlist_def) (metis append_Cons append_assoc append_Nil)
  then have "links s (q # [b])" using links_append by blast
  moreover have "q = last (b # ps)" by (simp add: A)
  ultimately show "bk_of s b = last (b # ps)" by simp
qed

lemma plus_4_8 [simp]:
  "(x::u32) + 12 = y + 8 \<longleftrightarrow> y = x + 4" "x + 8 = y + 12 \<longleftrightarrow> x = y + 4"
proof -
  show "x + 12 = y + 8 \<longleftrightarrow> y = x + 4"
    using add_right_cancel [of "x + 4" "8::u32" y] by (auto simp: add.assoc)
  show "x + 8 = y + 12 \<longleftrightarrow> x = y + 4"
    using add_right_cancel [of x "8::u32" "y + 4"] by (auto simp: add.assoc)
qed

text \<open>Writing the \<open>fd\<close> of one node and the \<open>bk\<close> of another leaves every other link alone.\<close>

lemma set_links:
  assumes "apart N" and "p \<in> N" and "q \<in> N" and "x \<in> N"
  shows "fd_of (set_fd p v (set_bk q w s)) x = (if x = p then v else fd_of s x)"
    and "bk_of (set_fd p v (set_bk q w s)) x = (if x = q then w else bk_of s x)"
  using assms by (auto simp: chunk_defs apart_def)

text \<open>C13: \<open>unlink\<close> removes one chunk from a bin. When \<open>p\<close> is among the chunks of a bin, the
  bin holds the others, in the same order, after \<open>unlink p\<close>; of the memory only the \<open>fd\<close> of the
  chunk before it and the \<open>bk\<close> of the chunk after it have changed.\<close>

theorem unlink_removes:
  assumes "dlist s b (xs @ p # ys)"
  shows "dlist (unlink p s) b (xs @ ys) \<and>
    (\<forall>a. a \<noteq> last (b # xs) + 8 \<longrightarrow> a \<noteq> hd (ys @ [b]) + 12 \<longrightarrow> rd (unlink p s) a = rd s a)"
proof -
  let ?N = "set (b # xs @ p # ys)"
  have ap: "apart ?N" and di: "distinct (b # xs @ p # ys)" and l: "links s (b # xs @ p # ys @ [b])"
    using assms by (auto simp: dlist_def)
  obtain A q where A: "b # xs = A @ [q]" by (metis append_butlast_last_id list.distinct(1))
  obtain r R where R: "ys @ [b] = r # R" by (cases "ys @ [b]") auto
  have "A @ q # p # r # R = b # xs @ p # ys @ [b]"
    unfolding R [symmetric] append_Cons [symmetric] A by simp
  then have "links s (A @ q # p # r # R)" using l by simp
  then have l1: "links s (A @ [q])" "links s (q # p # r # R)" using links_append by blast+
  then have pq: "fd_of s p = r" "bk_of s p = q" by auto
  have u: "unlink p s = set_fd q r (set_bk r q s)" by (simp add: unlink_def pq)
  have N: "q \<in> ?N" "r \<in> ?N"
    using arg_cong [OF A, of set] arg_cong [OF R, of set] by auto
  have sub: "set A \<subseteq> ?N" "set xs \<subseteq> ?N" "set ys \<subseteq> ?N" "set R \<subseteq> ?N"
    using arg_cong [OF A, of set] arg_cong [OF R, of set] by auto
  have fd: "fd_of (unlink p s) x = (if x = q then r else fd_of s x)" if "x \<in> ?N" for x
    unfolding u by (rule set_links(1) [OF ap N that])
  have bk: "bk_of (unlink p s) x = (if x = r then q else bk_of s x)" if "x \<in> ?N" for x
    unfolding u by (rule set_links(2) [OF ap N that])
  have "distinct (A @ [q])" using di unfolding A [symmetric] by auto
  then have nq: "q \<notin> set A" by simp
  have q_ys: "q \<notin> set ys" using arg_cong [OF A, of set] di by auto
  have r_xs: "r \<notin> set xs" using arg_cong [OF R, of set] di by auto
  have "distinct (ys @ [b])" using di by auto
  then have r_R: "r \<notin> set R" unfolding R by simp
  have xs: "xs = tl (A @ [q])" and ys: "ys = butlast (r # R)" using A R by (metis list.sel(3), metis butlast_snoc)
  have "links (unlink p s) (A @ [q]) = links s (A @ [q])"
    by (rule links_cong) (use nq r_xs sub fd bk in \<open>auto simp: xs [symmetric]\<close>)
  moreover have "links (unlink p s) (r # R) = links s (r # R)"
  proof (rule links_cong)
    fix x
    show "x \<in> set (butlast (r # R)) \<Longrightarrow> fd_of (unlink p s) x = fd_of s x"
      unfolding ys [symmetric] using q_ys sub fd by auto
    show "x \<in> set (tl (r # R)) \<Longrightarrow> bk_of (unlink p s) x = bk_of s x"
      using r_R sub bk by auto
  qed
  ultimately have "links (unlink p s) (A @ q # r # R)"
    using l1 N fd bk links_append [of "unlink p s" A q "r # R"] by simp
  moreover have "A @ q # r # R = b # (xs @ ys) @ [b]"
    unfolding append_assoc R append_Cons [symmetric] A by simp
  ultimately have "links (unlink p s) (b # (xs @ ys) @ [b])" by simp
  moreover have "apart (set (b # xs @ ys))" using ap unfolding apart_def by simp
  moreover have "last (b # xs) = q" "hd (ys @ [b]) = r" unfolding A R by simp_all
  ultimately show ?thesis using di by (auto simp: dlist_def u chunk_defs)
qed

text \<open>A freed chunk goes to the front of the unsorted bin. When the unsorted bin holds the
  chunks \<open>ps\<close> and \<open>p\<close> is not one of them, the link code of \<open>fREe\<close> makes it hold \<open>p # ps\<close>, and
  what it wrote are links of \<open>p\<close>, of the header and of the former first chunk.\<close>

theorem link_unsorted_front:
  assumes "dlist s (unsorted_chunks s) ps" and "p \<notin> set (unsorted_chunks s # ps)"
    and "apart (insert p (set (unsorted_chunks s # ps)))"
  shows "dlist (link_unsorted p s) (unsorted_chunks s) (p # ps) \<and>
    (\<forall>a. a \<notin> {p + 8, p + 12, unsorted_chunks s + 8, hd (ps @ [unsorted_chunks s]) + 12} \<longrightarrow>
       rd (link_unsorted p s) a = rd s a)"
proof -
  let ?b = "unsorted_chunks s" and ?N = "insert p (set (unsorted_chunks s # ps))" and ?t = "link_unsorted p s"
  define f where "f = hd (ps @ [?b])"
  have f: "fd_of s ?b = f" "f \<in> ?N" "f \<noteq> p" using dlist_ends(1) [OF assms(1)] assms(2) by (cases ps; auto simp: f_def)+
  have ub: "unsorted_chunks (set_bk p v s) = ?b" for v by (simp add: set_bk_def unsorted_chunks_def bin_at_def)
  have t: "?t = set_bk f p (set_fd ?b p (set_fd p f (set_bk p ?b s)))"
    by (simp add: link_unsorted_def Let_def f(1))
  have fd: "fd_of ?t x = (if x = p then f else if x = ?b then p else fd_of s x)" if "x \<in> ?N" for x
    using assms(2,3) that f(2) by (auto simp: t chunk_defs apart_def)
  have bk: "bk_of ?t x = (if x = p then ?b else if x = f then p else bk_of s x)" if "x \<in> ?N" for x
    using assms(2,3) that f(2,3) by (auto simp: t chunk_defs apart_def)
  obtain R where R: "ps @ [?b] = f # R" unfolding f_def by (cases "ps @ [?b]") auto
  have di: "distinct (?b # ps)" and l: "links s (?b # f # R)"
    using assms(1) R by (auto simp: dlist_def)
  have "distinct (ps @ [?b])" using di by auto
  then have fR: "f \<notin> set R" unfolding R by simp
  have ps: "ps = butlast (f # R)" using R by (metis butlast_snoc)
  have RN: "set R \<subseteq> ?N" "p \<notin> set R" using arg_cong [OF R, of set] assms(2) by auto
  have "links ?t (f # R) = links s (f # R)"
  proof (rule links_cong)
    fix x
    show "x \<in> set (butlast (f # R)) \<Longrightarrow> fd_of ?t x = fd_of s x"
      unfolding ps [symmetric] using di assms(2) fd by auto
    show "x \<in> set (tl (f # R)) \<Longrightarrow> bk_of ?t x = bk_of s x"
      using fR RN bk by auto
  qed
  then have "links ?t (?b # p # f # R)" using l fd bk f assms(2) by auto
  then have "links ?t (?b # (p # ps) @ [?b])" using R by simp
  then have "dlist ?t ?b (p # ps)" using di assms(2,3) by (auto simp: dlist_def insert_commute)
  moreover have "rd ?t a = rd s a" if "a \<notin> {p + 8, p + 12, ?b + 8, f + 12}" for a
    using that by (auto simp: t chunk_defs)
  ultimately show ?thesis by (auto simp: f_def)
qed

section \<open>Initial bins\<close>

lemma bin_at_words: "bin_at s i + 8 = dl_bins s + of_nat (8 * i)" "bin_at s i + 12 = dl_bins s + of_nat (8 * i + 4)"
  by (simp_all add: bin_at_def SIZE_SZ_def)

lemma of_nat_inj_1024: "m < 1100 \<Longrightarrow> n < 1100 \<Longrightarrow> (of_nat m :: u32) = of_nat n \<longleftrightarrow> m = n"
  using of_nat32_inj [of m n] by auto

lemma bin_at_inj:
  assumes "i < NBINS" and "j < NBINS"
  shows "bin_at s i = bin_at s j \<longleftrightarrow> i = j" and "bin_at s i \<noteq> bin_at s j + 4"
proof -
  have b: "8 * i < 1100" "8 * j + 4 < 1100" "8 * j < 1100" using assms by (simp_all add: NBINS_def)
  have "bin_at s i = bin_at s j \<longleftrightarrow> bin_at s i + 8 = bin_at s j + 8" by simp
  also have "\<dots> \<longleftrightarrow> (of_nat (8 * i) :: u32) = of_nat (8 * j)" unfolding bin_at_words by simp
  finally show "bin_at s i = bin_at s j \<longleftrightarrow> i = j" using of_nat_inj_1024 [OF b(1,3)] by simp
  have "bin_at s i = bin_at s j + 4 \<longleftrightarrow> bin_at s i + 8 = bin_at s j + 12" by simp
  also have "\<dots> \<longleftrightarrow> (of_nat (8 * i) :: u32) = of_nat (8 * j + 4)" unfolding bin_at_words by simp
  also have "\<dots> \<longleftrightarrow> 8 * i = 8 * j + 4" by (rule of_nat_inj_1024 [OF b(1,2)])
  finally show "bin_at s i \<noteq> bin_at s j + 4" by presburger
qed

lemma bin_at_cong: "dl_bins s' = dl_bins s \<Longrightarrow> bin_at s' = bin_at s"
  by (simp add: bin_at_def fun_eq_iff)

lemma fold_empty_bins:
  assumes "distinct is" and "set is \<subseteq> {..<NBINS}"
  shows "dl_bins (fold (\<lambda>i s. empty_bin (bin_at s i) s) is s) = dl_bins s \<and>
    max_fast (fold (\<lambda>i s. empty_bin (bin_at s i) s) is s) = max_fast s \<and>
    (\<forall>i \<in> {..<NBINS}. fd_of (fold (\<lambda>i s. empty_bin (bin_at s i) s) is s) (bin_at s i) =
        (if i \<in> set is then bin_at s i else fd_of s (bin_at s i)) \<and>
      bk_of (fold (\<lambda>i s. empty_bin (bin_at s i) s) is s) (bin_at s i) =
        (if i \<in> set is then bin_at s i else bk_of s (bin_at s i)))"
  using assms
proof (induction "is" arbitrary: s)
  case (Cons j js)
  let ?s = "empty_bin (bin_at s j) s"
  have e: "dl_bins ?s = dl_bins s" "max_fast ?s = max_fast s" by (simp_all add: empty_bin_def chunk_defs)
  then have b: "bin_at ?s = bin_at s" by (intro bin_at_cong)
  have step: "fd_of ?s (bin_at s i) = (if i = j then bin_at s i else fd_of s (bin_at s i))"
    "bk_of ?s (bin_at s i) = (if i = j then bin_at s i else bk_of s (bin_at s i))" if "i < NBINS" for i
  proof -
    have j: "j < NBINS" using Cons.prems(2) by simp
    let ?N = "{bin_at s i, bin_at s j}"
    have "apart ?N"
      using bin_at_inj(2) [OF that j, of s] bin_at_inj(2) [OF j that, of s] by (simp add: apart_def)
    then have N: "apart ?N" "bin_at s j \<in> ?N" "bin_at s j \<in> ?N" "bin_at s i \<in> ?N" by auto
    show "fd_of ?s (bin_at s i) = (if i = j then bin_at s i else fd_of s (bin_at s i))"
      "bk_of ?s (bin_at s i) = (if i = j then bin_at s i else bk_of s (bin_at s i))"
      unfolding empty_bin_def set_links [OF N] bin_at_inj(1) [OF that j] by auto
  qed
  have IH: "dl_bins (fold (\<lambda>i s. empty_bin (bin_at s i) s) js ?s) = dl_bins ?s \<and>
    max_fast (fold (\<lambda>i s. empty_bin (bin_at s i) s) js ?s) = max_fast ?s \<and>
    (\<forall>i \<in> {..<NBINS}. fd_of (fold (\<lambda>i s. empty_bin (bin_at s i) s) js ?s) (bin_at ?s i) =
        (if i \<in> set js then bin_at ?s i else fd_of ?s (bin_at ?s i)) \<and>
      bk_of (fold (\<lambda>i s. empty_bin (bin_at s i) s) js ?s) (bin_at ?s i) =
        (if i \<in> set js then bin_at ?s i else bk_of ?s (bin_at ?s i)))"
    by (rule Cons.IH) (use Cons.prems in auto)
  show ?case
    using IH unfolding b e fold_Cons o_apply
    by (simp add: step)
qed simp

lemma init_bins:
  fixes s :: "'w malloc_state"
  defines "f \<equiv> fold (\<lambda>i s. empty_bin (bin_at s i) s) [1..<NBINS] s"
  shows "dl_bins f = dl_bins s" "max_fast f = max_fast s"
    "1 \<le> i \<Longrightarrow> i < NBINS \<Longrightarrow> fd_of f (bin_at s i) = bin_at s i"
    "1 \<le> i \<Longrightarrow> i < NBINS \<Longrightarrow> bk_of f (bin_at s i) = bin_at s i"
proof -
  have "set [1..<NBINS] \<subseteq> {..<NBINS}" by auto
  note * = fold_empty_bins [of "[1..<NBINS]" s, OF distinct_upt this]
  then show "dl_bins f = dl_bins s" "max_fast f = max_fast s" unfolding f_def by blast+
  show "1 \<le> i \<Longrightarrow> i < NBINS \<Longrightarrow> fd_of f (bin_at s i) = bin_at s i"
    "1 \<le> i \<Longrightarrow> i < NBINS \<Longrightarrow> bk_of f (bin_at s i) = bin_at s i"
    using * unfolding f_def by auto
qed

text \<open>After \<open>malloc_init_state\<close> every bin from 1 to 127 is an empty list, \<open>top\<close> is the
  unsorted bin (so that its size reads as 0 from the zeroed static state), fast chunks are off,
  requests of up to 64 bytes count as fast, and the system's memory is taken as contiguous unless
  it was marked otherwise.\<close>

theorem malloc_init_state_empty:
  assumes "1 \<le> i" and "i < NBINS"
  shows "dlist (malloc_init_state pg s) (bin_at s i) [] \<and>
    dl_top (malloc_init_state pg s) = unsorted_chunks s \<and>
    \<not> have_fastchunks (malloc_init_state pg s) \<and>
    (request2size req \<le> max_fast (malloc_init_state pg s) \<longleftrightarrow> request2size req \<le> 72 + 1 + (max_fast s AND 2)) \<and>
    contiguous (malloc_init_state pg s) = contiguous s"
proof -
  let ?f = "fold (\<lambda>i s. empty_bin (bin_at s i) s) [1..<NBINS] s" and ?t = "malloc_init_state pg s"
  have f: "dl_bins ?f = dl_bins s" "max_fast ?f = max_fast s"
    "fd_of ?f (bin_at s i) = bin_at s i" "bk_of ?f (bin_at s i) = bin_at s i"
    using init_bins [where s = s] assms by blast+
  have t: "dl_mem ?t = dl_mem ?f" "dl_top ?t = bin_at ?f 1" "max_fast ?t = 72 OR 1 OR (max_fast s AND 2)"
    using f(2) by (simp_all add: malloc_init_state_def Let_def set_max_fast_def initial_top_def
        unsorted_chunks_def bin_at_def DEFAULT_MXFAST_def request2size_def SIZE_SZ_def
        MALLOC_ALIGN_MASK_def MALLOC_ALIGNMENT_def FASTCHUNKS_BIT_def NONCONTIGUOUS_BIT_def)
  have "dlist ?t (bin_at s i) []"
    using f(3,4) by (simp add: dlist_empty fd_of_def bk_of_def rd_def t(1))
  moreover have "dl_top ?t = unsorted_chunks s" using bin_at_cong [OF f(1)] by (simp add: t(2) unsorted_chunks_def)
  moreover have c: "max_fast s AND 2 = (if bit (max_fast s) 1 then 2 else 0)"
  proof -
    have "max_fast s AND push_bit 1 1 = push_bit 1 (of_bool (bit (max_fast s) 1))"
      by (rule bit_eqI) (auto simp: bit_simps)
    then show ?thesis by (cases "bit (max_fast s) 1") simp_all
  qed
  moreover have "72 OR 1 OR (max_fast s AND 2) = (72 + 1 + (max_fast s AND 2) :: u32)"
    unfolding c by (cases "bit (max_fast s) 1") simp_all
  moreover have "(72 OR 1 OR (max_fast s AND 2)) AND 1 = (1::u32)" "(72 OR 1 OR (max_fast s AND 2)) AND 2 = max_fast s AND 2"
    unfolding c by (cases "bit (max_fast s) 1"; simp)+
  ultimately show ?thesis
    by (simp add: have_fastchunks_def contiguous_def t(3) FASTCHUNKS_BIT_def NONCONTIGUOUS_BIT_def)
qed

definition dl_zero :: "u32 malloc_state" where
  "dl_zero = \<lparr>dl_mem = (\<lambda>_. 0), dl_bins = 0x1000, max_fast = 0, fastbins = (\<lambda>_. 0), dl_top = 0,
     last_remainder = 0, binmap = (\<lambda>_. 0), trim_threshold = 0, top_pad = 0, mmap_threshold = 0,
     n_mmaps = 0, n_mmaps_max = 0, max_n_mmaps = 0, pagesize = 0, mmapped_mem = 0, sbrked_mem = 0,
     max_sbrked_mem = 0, max_mmapped_mem = 0, max_total_mem = 0, dl_errno = False, dl_world = 0x20000\<rparr>"

definition dl_ready :: "u32 malloc_state" where "dl_ready = malloc_init_state 4096 dl_zero"

lemma malloc_init_state_empty_witness:
  "dlist dl_ready (bin_at dl_zero 5) [] \<and> \<not> have_fastchunks dl_ready"
  using malloc_init_state_empty [of 5 4096 dl_zero 0] by (simp add: dl_ready_def NBINS_def)

lemma one_NBINS: "1 < NBINS" by (simp add: NBINS_def)

lemma dl_ready_words:
  "dl_bins dl_ready = 0x1000" "fd_of dl_ready (bin_at dl_zero 1) = bin_at dl_zero 1"
  "bk_of dl_ready (bin_at dl_zero 1) = bin_at dl_zero 1"
proof -
  let ?f = "fold (\<lambda>i s. empty_bin (bin_at s i) s) [1..<NBINS] dl_zero"
  have m: "dl_bins dl_ready = dl_bins ?f" "dl_mem dl_ready = dl_mem ?f"
    unfolding dl_ready_def malloc_init_state_def Let_def set_max_fast_def by simp_all
  have "dl_bins ?f = dl_bins dl_zero" by (rule init_bins(1))
  then show "dl_bins dl_ready = 0x1000" using m(1) by (simp add: dl_zero_def)
  have "fd_of ?f (bin_at dl_zero 1) = bin_at dl_zero 1" "bk_of ?f (bin_at dl_zero 1) = bin_at dl_zero 1"
    by (rule init_bins, simp, rule one_NBINS)+
  then show "fd_of dl_ready (bin_at dl_zero 1) = bin_at dl_zero 1"
    "bk_of dl_ready (bin_at dl_zero 1) = bin_at dl_zero 1"
    unfolding fd_of_def bk_of_def rd_def m(2) .
qed

lemma dl_ready_bin: "unsorted_chunks dl_ready = 0x1000"
  using dl_ready_words(1) by (simp add: unsorted_chunks_def bin_at_def SIZE_SZ_def)

lemma dl_ready_unsorted: "dlist dl_ready (unsorted_chunks dl_ready) []"
proof -
  have "bin_at dl_zero 1 = 0x1000" by (simp add: bin_at_def SIZE_SZ_def dl_zero_def)
  then show ?thesis using dl_ready_words by (simp add: dlist_empty dl_ready_bin)
qed

lemma link_unsorted_front_witness:
  "dlist (link_unsorted 0x20000 dl_ready) (unsorted_chunks dl_ready) [0x20000]"
  using link_unsorted_front [where p = "0x20000", OF dl_ready_unsorted] by (simp add: dl_ready_bin apart_def)

definition two_chunks :: "u32 malloc_state" where
  "two_chunks = set_fd 0x1000 0x2000 (set_bk 0x2000 0x1000 (set_fd 0x2000 0x3000 (set_bk 0x3000 0x2000
     (set_fd 0x3000 0x1000 (set_bk 0x1000 0x3000 dl_zero)))))"

lemma unlink_removes_witness:
  "dlist two_chunks 0x1000 ([0x2000] @ 0x3000 # []) \<and> dlist (unlink 0x3000 two_chunks) 0x1000 [0x2000]"
proof
  show d: "dlist two_chunks 0x1000 ([0x2000] @ 0x3000 # [])"
    by (simp add: dlist_def apart_def two_chunks_def chunk_defs)
  show "dlist (unlink 0x3000 two_chunks) 0x1000 [0x2000]" using unlink_removes [OF d] by simp
qed

end
