(* ===== verification/Dlmalloc_Thms.thy ===== *)
theory Dlmalloc_Thms
  imports Dlmalloc_Lists
begin

text \<open>
  The properties of the allocation functions of \<open>dlmalloc.c\<close>: the fast path, the top chunk, trimming,
  clearing and copying, and four inputs on which the code goes wrong.
\<close>

section \<open>Clearing and copying\<close>

lemma odd_words:
  assumes "8 dvd unat sz" and "16 \<le> unat sz"
  shows "\<exists>k \<ge> 2. unat ((sz - SIZE_SZ) div 4) = 2 * k - 1 \<and> unat sz = 8 * k"
proof -
  obtain k where k: "unat sz = 8 * k" using assms(1) by blast
  have "unat (sz - SIZE_SZ) = unat sz - 4"
    using assms(2) by (subst unat_sub) (simp_all add: SIZE_SZ_def word_le_nat_alt)
  then have "unat ((sz - SIZE_SZ) div 4) = (8 * k - 4) div 4" using k by (simp add: unat_div)
  moreover have "(8 * k - 4) div 4 = 2 * k - 1" by (cases k) auto
  ultimately show ?thesis using k assms(2) by (intro exI [of _ k]) simp
qed

lemma unrolled_cases:
  fixes w :: u32
  assumes "\<not> w > 9" and "k \<ge> 2" and "unat w = 2 * k - 1"
  shows "w = 3 \<or> w = 5 \<or> w = 7 \<or> w = 9"
proof -
  have "unat w \<le> 9" using assms(1) by (simp add: word_less_nat_alt)
  then have "k = 2 \<or> k = 3 \<or> k = 4 \<or> k = 5" using assms(2,3) by linarith
  then have "unat w = 3 \<or> unat w = 5 \<or> unat w = 7 \<or> unat w = 9" using assms(3) by auto
  then show ?thesis by (elim disjE) (simp_all add: word_unat_eq_iff)
qed

lemma upt_odd:
  "[0 ..< 3] = [0, 1, 2 :: nat]" "[0 ..< 5] = [0, 1, 2, 3, 4 :: nat]" "[0 ..< 7] = [0, 1, 2, 3, 4, 5, 6 :: nat]"
  "[0 ..< 9] = [0, 1, 2, 3, 4, 5, 6, 7, 8 :: nat]"
  by (simp_all add: upt_rec)

lemma clear_unrolled_fold:
  "w = 3 \<or> w = 5 \<or> w = 7 \<or> w = 9 \<Longrightarrow> clear_unrolled mem w s = fold (clear_word mem) [0 ..< unat w] s"
  by (elim disjE) (simp_all add: clear_unrolled_def Let_def upt_odd)

lemma copy_unrolled_fold:
  "w = 3 \<or> w = 5 \<or> w = 7 \<or> w = 9 \<Longrightarrow> copy_unrolled d src w s = fold (copy_word d src) [0 ..< unat w] s"
  by (elim disjE) (simp_all add: copy_unrolled_def Let_def upt_odd)

lemma fold_clear:
  "rd (fold (clear_word d) is s) a = (if a \<in> (\<lambda>i. d + 4 * of_nat i) ` set is then 0 else rd s a)"
  by (induction "is" arbitrary: s) (auto simp: clear_word_def)

text \<open>C17: \<open>cALLOc\<close> clears exactly the user's words. For a chunk of any legal size, the unrolled
  code for small chunks and \<open>MALLOC_ZERO\<close> for large ones agree: every word from \<open>mem\<close> up to the
  size field of the next chunk is zero afterwards and no other word has changed.\<close>

theorem calloc_clears:
  assumes "8 dvd unat sz" and "16 \<le> unat sz"
  shows "calloc_clear mem sz s = MALLOC_ZERO mem (sz - SIZE_SZ) s \<and>
    (\<forall>a. rd (calloc_clear mem sz s) a =
       (if a \<in> (\<lambda>i. mem + 4 * of_nat i) ` {..< unat sz div 4 - 1} then 0 else rd s a))"
proof -
  obtain k where k: "k \<ge> 2" "unat ((sz - SIZE_SZ) div 4) = 2 * k - 1" "unat sz = 8 * k"
    using odd_words [OF assms] by blast
  have e: "calloc_clear mem sz s = MALLOC_ZERO mem (sz - SIZE_SZ) s"
  proof (cases "(sz - SIZE_SZ) div 4 > 9")
    case False
    then show ?thesis
      by (simp add: calloc_clear_def MALLOC_ZERO_def Let_def clear_unrolled_fold [OF unrolled_cases [OF _ k(1,2)]])
  qed (simp add: calloc_clear_def Let_def)
  have "{0 ..< 2 * k - 1} = {..< unat sz div 4 - 1}" using k(3) by auto
  then show ?thesis unfolding e by (simp add: MALLOC_ZERO_def fold_clear k(2))
qed

lemma calloc_clears_witness:
  "rd (calloc_clear 0x20008 24 (wr 0x20010 7 dl_zero)) 0x20010 = 0"
proof -
  have "8 dvd unat (24::u32)" "16 \<le> unat (24::u32)" by simp_all
  from conjunct2 [OF calloc_clears [OF this, of "0x20008" "wr 0x20010 7 dl_zero"]]
  have "rd (calloc_clear 0x20008 24 (wr 0x20010 7 dl_zero)) 0x20010 =
    (if (0x20010 :: u32) \<in> (\<lambda>i. 0x20008 + 4 * of_nat i) ` {..< unat (24::u32) div 4 - 1} then 0
     else rd (wr 0x20010 7 dl_zero) 0x20010)" by blast
  moreover have "(0x20010::u32) \<in> (\<lambda>i. 0x20008 + 4 * of_nat i) ` {..< unat (24::u32) div 4 - 1}"
    by (rule image_eqI [of _ _ 2]) simp_all
  ultimately show ?thesis by simp
qed

lemma rd_copy_word [simp]:
  "rd (copy_word d src i s) a = (if a = d + 4 * of_nat i then rd s (src + 4 * of_nat i) else rd s a)"
  by (simp add: copy_word_def)

lemma fold_copy:
  assumes "\<And>i j. i \<in> set is \<Longrightarrow> j \<in> set is \<Longrightarrow> src + 4 * of_nat i \<noteq> d + 4 * (of_nat j :: u32)"
    and "distinct (map (\<lambda>i. d + 4 * (of_nat i :: u32)) is)"
  shows "(\<forall>i \<in> set is. rd (fold (copy_word d src) is s) (d + 4 * of_nat i) = rd s (src + 4 * of_nat i)) \<and>
    (\<forall>a. a \<notin> (\<lambda>i. d + 4 * of_nat i) ` set is \<longrightarrow> rd (fold (copy_word d src) is s) a = rd s a)"
  using assms
proof (induction "is" arbitrary: s)
  case (Cons j js)
  have "(\<forall>i \<in> set js. rd (fold (copy_word d src) js (copy_word d src j s)) (d + 4 * of_nat i)
        = rd (copy_word d src j s) (src + 4 * of_nat i)) \<and>
    (\<forall>a. a \<notin> (\<lambda>i. d + 4 * of_nat i) ` set js \<longrightarrow>
        rd (fold (copy_word d src) js (copy_word d src j s)) a = rd (copy_word d src j s) a)"
    by (rule Cons.IH) (use Cons.prems in auto)
  moreover have "src + 4 * of_nat i \<noteq> d + 4 * (of_nat j :: u32)" if "i \<in> set js" for i
    using Cons.prems(1) that by simp
  moreover have "d + 4 * (of_nat j :: u32) \<notin> (\<lambda>i. d + 4 * of_nat i) ` set js" using Cons.prems(2) by auto
  ultimately show ?case by auto
qed simp

lemma words_distinct:
  assumes "n < 2 ^ 30"
  shows "distinct (map (\<lambda>i. d + 4 * (of_nat i :: u32)) [0 ..< n])"
proof -
  have "i = j" if "i < n" "j < n" "4 * (of_nat i :: u32) = 4 * of_nat j" for i j
  proof -
    have "(of_nat (4 * i) :: u32) = of_nat (4 * j)" using that(3) by simp
    moreover have "4 * i < 2 ^ 32" "4 * j < 2 ^ 32" using that(1,2) assms by simp_all
    ultimately have "4 * i = 4 * j" using of_nat32_inj by blast
    then show ?thesis by simp
  qed
  then show ?thesis by (auto simp: distinct_map inj_on_def)
qed

text \<open>\<open>rEALLOc\<close> keeps the contents. When the new block does not overlap the old one, after the
  copy every word of the old chunk's user part (all bytes but the last size field) is in the new
  block at the same offset, by the unrolled code and by \<open>MALLOC_COPY\<close> alike, and every word
  outside the new block is as before.\<close>

theorem realloc_copies:
  assumes "8 dvd unat oldsize" and "16 \<le> unat oldsize"
    and "\<And>i j. i < unat oldsize div 4 - 1 \<Longrightarrow> j < unat oldsize div 4 - 1 \<Longrightarrow>
       oldmem + 4 * of_nat i \<noteq> newmem + 4 * of_nat j"
  shows "realloc_copy newmem oldmem oldsize s = MALLOC_COPY newmem oldmem (oldsize - SIZE_SZ) s \<and>
    (\<forall>i < unat oldsize div 4 - 1.
       rd (realloc_copy newmem oldmem oldsize s) (newmem + 4 * of_nat i) = rd s (oldmem + 4 * of_nat i)) \<and>
    (\<forall>a. a \<notin> (\<lambda>i. newmem + 4 * of_nat i) ` {..< unat oldsize div 4 - 1} \<longrightarrow>
       rd (realloc_copy newmem oldmem oldsize s) a = rd s a)"
proof -
  obtain k where k: "k \<ge> 2" "unat ((oldsize - SIZE_SZ) div 4) = 2 * k - 1" "unat oldsize = 8 * k"
    using odd_words [OF assms(1,2)] by blast
  have e: "realloc_copy newmem oldmem oldsize s = MALLOC_COPY newmem oldmem (oldsize - SIZE_SZ) s"
  proof (cases "(oldsize - SIZE_SZ) div 4 > 9")
    case False
    then show ?thesis
      by (simp add: realloc_copy_def MALLOC_COPY_def Let_def copy_unrolled_fold [OF unrolled_cases [OF _ k(1,2)]])
  qed (simp add: realloc_copy_def Let_def)
  have n: "unat oldsize div 4 - 1 = 2 * k - 1" "2 * k - 1 < 2 ^ 30"
    using k(3) unsigned_less [of oldsize, where ?'a = nat] by simp_all
  have c: "MALLOC_COPY newmem oldmem (oldsize - SIZE_SZ) s = fold (copy_word newmem oldmem) [0 ..< 2 * k - 1] s"
    by (simp add: MALLOC_COPY_def k(2))
  note f = fold_copy [of "[0 ..< 2 * k - 1]" oldmem newmem s, OF _ words_distinct [OF n(2)]]
  have "(\<forall>i \<in> set [0 ..< 2 * k - 1]. rd (fold (copy_word newmem oldmem) [0 ..< 2 * k - 1] s) (newmem + 4 * of_nat i)
        = rd s (oldmem + 4 * of_nat i)) \<and>
    (\<forall>a. a \<notin> (\<lambda>i. newmem + 4 * of_nat i) ` set [0 ..< 2 * k - 1] \<longrightarrow>
       rd (fold (copy_word newmem oldmem) [0 ..< 2 * k - 1] s) a = rd s a)"
    by (rule f) (use assms(3) n(1) in auto)
  then show ?thesis unfolding e c n(1) by (auto simp: atLeast0LessThan)
qed

lemma realloc_copies_witness:
  "rd (realloc_copy 0x30008 0x20008 16 (wr 0x2000C 5 dl_zero)) (0x30008 + 4 * of_nat 1) = 5"
proof -
  have ne: "(0x20008::u32) + 4 * of_nat i \<noteq> 0x30008 + 4 * of_nat j" if "i < unat (16::u32) div 4 - 1" "j < unat (16::u32) div 4 - 1" for i j
  proof -
    have "i < 3" "j < 3" using that by simp_all
    then have "i = 0 \<or> i = 1 \<or> i = 2" "j = 0 \<or> j = 1 \<or> j = 2" by linarith+
    then show ?thesis by (elim disjE) simp_all
  qed
  have "\<forall>i < unat (16::u32) div 4 - 1. rd (realloc_copy 0x30008 0x20008 16 (wr 0x2000C 5 dl_zero)) (0x30008 + 4 * of_nat i)
      = rd (wr 0x2000C 5 dl_zero) (0x20008 + 4 * of_nat i)"
    by (rule conjunct1 [OF conjunct2 [OF realloc_copies [OF _ _ ne]]]) simp_all
  then have "rd (realloc_copy 0x30008 0x20008 16 (wr 0x2000C 5 dl_zero)) (0x30008 + 4 * of_nat 1)
      = rd (wr 0x2000C 5 dl_zero) (0x20008 + 4 * of_nat 1)" by (rule allE [of _ 1]) simp
  then show ?thesis by simp
qed

end
