(* ===== verification/Dlmalloc_Props.thy ===== *)
theory Dlmalloc_Props
  imports Dlmalloc_Thms
begin

text \<open>
  The properties of \<open>mALLOc\<close>, \<open>fREe\<close> and \<open>sYSTRIm\<close> in \<open>dlmalloc.c\<close>, and the inputs of \<open>mALLOPt\<close>,
  \<open>cALLOc\<close> and \<open>mEMALIGn\<close> that are not handled.
\<close>

section \<open>Header words\<close>

lemma low_bits_0:
  assumes "8 dvd unat (x :: u32)" and "n < 3"
  shows "\<not> bit x n"
proof -
  obtain k where k: "unat x = 8 * k" using assms(1) by (auto elim: dvdE)
  have "unat x = push_bit 3 k" by (simp add: k push_bit_eq_mult)
  then have "\<not> bit (unat x) n" using assms(2) by (simp add: bit_push_bit_iff)
  then show ?thesis by (simp add: bit_unsigned_iff bit_imp_le_length)
qed

lemma SIZE_BITS_mask: "SIZE_BITS = mask 2"
  by (simp add: SIZE_BITS_def PREV_INUSE_def IS_MMAPPED_def mask_eq_exp_minus_1)

lemma PREV_INUSE_mask: "PREV_INUSE = mask 1"
  by (simp add: PREV_INUSE_def mask_eq_exp_minus_1)

lemma head_word:
  assumes "8 dvd unat x"
  shows "(x OR PREV_INUSE) AND NOT SIZE_BITS = x" and "(x OR PREV_INUSE) AND PREV_INUSE \<noteq> 0"
    and "x AND NOT SIZE_BITS = x" and "(x OR PREV_INUSE) AND NOT PREV_INUSE = x"
proof -
  have x: "\<not> bit x n" if "n < 2" for n using low_bits_0 [OF assms, of n] that by simp
  show "(x OR PREV_INUSE) AND NOT SIZE_BITS = x" unfolding SIZE_BITS_mask PREV_INUSE_mask
    by (rule bit_word_eqI) (auto simp: bit_simps dest: x)
  show "x AND NOT SIZE_BITS = x" unfolding SIZE_BITS_mask
    by (rule bit_word_eqI) (auto simp: bit_simps dest: x)
  show "(x OR PREV_INUSE) AND NOT PREV_INUSE = x" unfolding PREV_INUSE_mask
    using x [of 0] by (intro bit_word_eqI) (auto simp: bit_simps intro: gr0I)
  have "(x OR PREV_INUSE) AND PREV_INUSE = PREV_INUSE"
    unfolding PREV_INUSE_mask by (rule bit_word_eqI) (auto simp: bit_simps)
  then show "(x OR PREV_INUSE) AND PREV_INUSE \<noteq> 0" by (simp add: PREV_INUSE_def)
qed

section \<open>A concrete system\<close>

text \<open>A system whose \<open>sbrk\<close> moves one break, which is the state.\<close>

definition plain_os :: "u32 dl_os" where
  "plain_os = \<lparr>os_pagesize = 4096, os_sbrk = (\<lambda>w k. (w, w + k)), os_mmap = (\<lambda>w k. (MORECORE_FAILURE, w)),
     os_munmap = (\<lambda>w p k. w), os_mremap = (\<lambda>w p old new. (MORECORE_FAILURE, w))\<rparr>"

section \<open>The fast path\<close>

lemma le_clear_bit0:
  assumes "8 dvd unat (sz :: u32)" and "sz \<le> m"
  shows "sz \<le> m AND NOT FASTCHUNKS_BIT"
proof -
  have "FASTCHUNKS_BIT = mask 1" by (simp add: FASTCHUNKS_BIT_def mask_eq_exp_minus_1)
  then have "unat (m AND NOT FASTCHUNKS_BIT) = unat m div 2 * 2" using unat_and_not_mask [of m 1] by simp
  moreover have "unat sz \<le> unat m" using assms(2) by (simp add: word_le_nat_alt)
  ultimately show ?thesis using assms(1) by (auto simp: word_le_nat_alt elim!: dvdE)
qed

text \<open>C14: Freeing a small chunk and asking for its size again gives the same chunk back. The free
  puts it in front of its fastbin, the allocation takes it off; afterwards the fastbins are as before,
  and no word of memory has changed except the first one of the block itself.\<close>

theorem free_then_malloc_fast:
  assumes "mem \<noteq> 0" and "mem2chunk mem \<noteq> 0" and "chunksize s (mem2chunk mem) = sz"
    and "sz \<le> max_fast s" and "checked_request2size bytes = Some sz"
  shows "\<exists>s1 s2. fREe os n mem s = Some s1 \<and> have_fastchunks s1 \<and> mALLOc os k bytes s1 = Some (mem, s2) \<and>
    fastbins s2 = fastbins s \<and> dl_top s2 = dl_top s \<and> (\<forall>a. a \<noteq> mem \<longrightarrow> rd s2 a = rd s a)"
proof -
  let ?p = "mem2chunk mem" and ?fb = "unat (fastbin_index sz)"
  let ?s1 = "free_fast ?p sz s"
  have d: "8 dvd unat sz" using request2size_fits [OF assms(5)] by simp
  have c: "chunk2mem ?p = mem" "?p + 8 = mem" by (simp_all add: chunk2mem_def mem2chunk_def SIZE_SZ_def)
  have f: "fREe os n mem s = Some ?s1" using assms(1,3,4) by (simp add: fREe_def Let_def)
  have m: "sz \<le> max_fast ?s1" "have_fastchunks ?s1"
    using le_clear_bit0 [OF d assms(4)]
    by (simp_all add: free_fast_def Let_def set_fastchunks_def have_fastchunks_def set_fd_def and.assoc)
  have b: "fastbins ?s1 ?fb = ?p" "fd_of ?s1 ?p = fastbins s ?fb"
    by (simp_all add: free_fast_def Let_def set_fastchunks_def chunk_defs)
  have "mALLOc os k bytes ?s1 = Some (mem, ?s1\<lparr>fastbins := (fastbins ?s1)(?fb := fastbins s ?fb)\<rparr>)"
    using m(1) b assms(2) by (simp add: mALLOc_def assms(5) malloc_fast_def Let_def c)
  moreover have "(fastbins ?s1)(?fb := fastbins s ?fb) = fastbins s" "dl_top ?s1 = dl_top s"
    "a \<noteq> mem \<Longrightarrow> rd ?s1 a = rd s a" for a
    by (simp_all add: free_fast_def Let_def set_fastchunks_def set_fd_def c)
  ultimately show ?thesis using f m(2) by fastforce
qed

definition fast_state :: "u32 malloc_state" where
  "fast_state = wr 0x20004 17 (dl_zero\<lparr>max_fast := 73\<rparr>)"

lemma free_then_malloc_fast_witness:
  "\<exists>s1 s2. fREe plain_os 5 0x20008 fast_state = Some s1 \<and> mALLOc plain_os 5 8 s1 = Some (0x20008, s2)"
proof -
  have "mem2chunk 0x20008 = 0x20000" by (simp add: mem2chunk_def SIZE_SZ_def)
  moreover have "chunksize fast_state 0x20000 = 16" "max_fast fast_state = 73"
    by (simp_all add: fast_state_def chunk_defs chunksize_def SIZE_BITS_def PREV_INUSE_def IS_MMAPPED_def)
  moreover have "checked_request2size 8 = Some 16"
    by (simp add: checked_request2size_def REQUEST_OUT_OF_RANGE_def request2size_def SIZE_SZ_def
        MALLOC_ALIGN_MASK_def MALLOC_ALIGNMENT_def)
  ultimately show ?thesis
    using free_then_malloc_fast [of "0x20008" fast_state 16 8 plain_os 5 5] by auto
qed

section \<open>The top chunk\<close>

text \<open>C15: Taking a request from the top chunk. When the top chunk has room for \<open>nb\<close> bytes and a
  minimal chunk, the result is its user part; the new chunk has exactly \<open>nb\<close> bytes and is marked
  in use beyond it, the top chunk starts right behind with the rest, at least \<open>MINSIZE\<close>, and only the two
  size words are written. Otherwise nothing happens.\<close>

theorem split_top_correct:
  assumes "8 dvd unat nb" and "8 dvd unat (chunksize s (dl_top s))" and "16 \<le> unat nb"
    and "unat nb + 16 < 2 ^ 32"
  shows "(\<exists>s'. split_top nb s = Some (chunk2mem (dl_top s), s') \<and>
            unat nb + 16 \<le> unat (chunksize s (dl_top s)) \<and>
            chunksize s' (dl_top s) = nb \<and> dl_top s' = next_chunk s' (dl_top s) \<and>
            unat (chunksize s' (dl_top s')) = unat (chunksize s (dl_top s)) - unat nb \<and>
            prev_inuse s' (dl_top s') \<and> inuse s' (dl_top s) \<and>
            (\<forall>a. a \<notin> {dl_top s + 4, dl_top s' + 4} \<longrightarrow> rd s' a = rd s a)) \<or>
         split_top nb s = None \<and> unat (chunksize s (dl_top s)) < unat nb + 16"
proof -
  define v T where "v = dl_top s" and "T = chunksize s v"
  have nb16: "unat (nb + MINSIZE) = unat nb + 16" using assms(4) by (simp add: unat_add_nowrap)
  show ?thesis
  proof (cases "T \<ge> nb + MINSIZE")
    case False
    then show ?thesis using nb16 by (simp add: split_top_def Let_def T_def v_def word_le_nat_alt)
  next
    case True
    let ?s' = "set_head (v + nb) ((T - nb) OR PREV_INUSE) (set_head v (nb OR PREV_INUSE) (s\<lparr>dl_top := v + nb\<rparr>))"
    have T: "unat nb + 16 \<le> unat T" using True nb16 by (simp add: word_le_nat_alt)
    then have u: "unat (T - nb) = unat T - unat nb" by (subst unat_sub) (simp_all add: word_le_nat_alt)
    have dT: "8 dvd unat (T - nb)" using assms(1,2) u by (simp add: T_def v_def)
    have e: "split_top nb s = Some (chunk2mem v, ?s')"
      using True by (simp add: split_top_def Let_def T_def v_def chunk_at_offset_def)
    have ne: "nb \<noteq> 0" using assms(3) by auto
    have top: "dl_top ?s' = v + nb" by (simp add: set_head_def set_size_def)
    have sz: "size_of ?s' v = nb OR PREV_INUSE" "size_of ?s' (v + nb) = (T - nb) OR PREV_INUSE"
      using ne by (simp_all add: chunk_defs)
    show ?thesis
      using e T u head_word [OF assms(1)] head_word [OF dT] sz top
      unfolding v_def [symmetric] T_def [symmetric]
      by (intro disjI1 exI [of _ ?s'])
        (auto simp: chunksize_def next_chunk_def prev_inuse_def inuse_def chunk_defs)
  qed
qed

definition top_state :: "u32 malloc_state" where
  "top_state = wr 0x20004 0x10001 (dl_zero\<lparr>dl_top := 0x20000, pagesize := 4096, sbrked_mem := 0x10000,
     dl_world := 0x30000\<rparr>)"

lemma top_state_simps:
  "dl_top top_state = 0x20000" "chunksize top_state 0x20000 = 0x10000" "pagesize top_state = 4096"
  "dl_world top_state = 0x30000" "sbrked_mem top_state = 0x10000"
  by (simp_all add: top_state_def chunk_defs chunksize_def SIZE_BITS_def PREV_INUSE_def IS_MMAPPED_def)

lemma split_top_correct_witness:
  "\<exists>s'. split_top 24 top_state = Some (0x20008, s') \<and> unat (chunksize s' (dl_top s')) = 0xFFE8"
  using split_top_correct [of 24 top_state]
  by (auto simp: top_state_simps chunk2mem_def SIZE_SZ_def)

section \<open>Trimming\<close>

lemma dvd8_plus: "8 dvd unat (a :: u32) \<Longrightarrow> 8 dvd unat b \<Longrightarrow> 8 dvd unat (a + b)"
  by (simp add: unat_word_ariths dvd_mod)

lemma dvd8_not_failure: "8 dvd unat (a :: u32) \<Longrightarrow> a \<noteq> MORECORE_FAILURE"
proof
  assume d: "8 dvd unat a" and "a = MORECORE_FAILURE"
  then have "unat a = 4294967295" by (simp add: MORECORE_FAILURE_def unsigned_minus_1_eq_mask mask_eq_exp_minus_1)
  with d show False by simp
qed

lemma sint_small: "unat (x :: u32) < 2 ^ 31 \<Longrightarrow> sint x = int (unat x)"
proof -
  assume "unat x < 2 ^ 31"
  then have "int (unat x) < int (2 ^ 31)" by (simp only: of_nat_less_iff)
  then have "uint x < 2 ^ 31" by simp
  moreover have "- (2 ^ 31) \<le> uint x" by (rule order_trans [of _ 0]) simp_all
  ultimately have "sint x = uint x" by (simp add: sint_uint signed_take_bit_int_eq_self)
  then show ?thesis by simp
qed

text \<open>The number of bytes that \<open>sYSTRIm\<close> decides to return.\<close>

lemma trim_extra:
  fixes T pad z :: u32
  assumes "unat pad + 16 < unat T" and "unat T + unat z < 2 ^ 31" and "0 < unat z"
  defines "k \<equiv> (unat T - unat pad - 16 + (unat z - 1)) div unat z - 1"
  shows "unat (((T - pad - MINSIZE + (z - 1)) div z - 1) * z) = k * unat z"
    and "k * unat z < unat T - unat pad - 16" and "unat T - unat pad - 16 \<le> k * unat z + unat z"
proof -
  define X where "X = unat T - unat pad - 16"
  have X: "0 < X" "X + unat z < 2 ^ 31" using assms(1,2) by (auto simp: X_def)
  define q where "q = (X + (unat z - 1)) div unat z"
  have k: "k = q - 1" by (simp add: k_def q_def X_def)
  have q: "q * unat z \<le> X + (unat z - 1)" "X + (unat z - 1) < Suc q * unat z"
    using assms(3) unfolding q_def by (simp, metis dividend_less_div_times mult_Suc)
  have q1: "1 \<le> q"
  proof (rule ccontr)
    assume "\<not> 1 \<le> q"
    then have "q = 0" by simp
    then show False using q(2) X(1) by simp
  qed
  have kz: "k * unat z + unat z = q * unat z" using q1 by (cases q) (simp_all add: k)
  show b: "k * unat z < unat T - unat pad - 16" "unat T - unat pad - 16 \<le> k * unat z + unat z"
    using kz q assms(3) unfolding X_def [symmetric] by simp_all
  have m: "unat (MINSIZE :: u32) = 16" by simp
  have d1: "unat (T - pad) = unat T - unat pad" using assms(1) by (subst unat_sub) (auto simp: word_le_nat_alt)
  have d2: "unat (T - pad - 16) = X"
    using assms(1) by (subst unat_sub) (auto simp: word_le_nat_alt d1 X_def m)
  have z1: "unat (z - 1) = unat z - 1"
    using assms(3) by (subst unat_sub) (auto simp: word_le_nat_alt)
  have "unat (T - pad - MINSIZE + (z - 1)) = X + (unat z - 1)"
    using X(2) by (subst unat_add_nowrap) (auto simp: d2 z1)
  then have dv: "unat ((T - pad - MINSIZE + (z - 1)) div z) = q" by (simp add: unat_div q_def)
  have "unat ((T - pad - MINSIZE + (z - 1)) div z - 1) = q - 1"
    using q1 dv by (subst unat_sub) (auto simp: word_le_nat_alt)
  then show "unat (((T - pad - MINSIZE + (z - 1)) div z - 1) * z) = k * unat z"
    using b(1) assms(2) by (subst unat_mult_lem [THEN iffD1]) (auto simp: k)
qed



section \<open>Inputs that are not handled\<close>

lemma bit_top_word: "2 ^ 31 \<le> unat (x :: u32) \<Longrightarrow> bit x 31"
proof -
  assume a: "2 ^ 31 \<le> unat x"
  have "unat x < 2 ^ LENGTH(32)" by (rule unsigned_less)
  then have "unat x < 2 ^ 32" by simp
  with a have "unat x div 2 ^ 31 = 1" by (intro div_nat_eqI) auto
  then have "bit (unat x) 31" by (simp add: bit_iff_odd)
  then show ?thesis by (simp add: bit_unsigned_iff)
qed

lemma unat_exp_le: "unat ((2 :: u32) ^ i) \<le> 2 ^ 31"
proof (cases "i < 32")
  case True
  then have "(2 :: nat) ^ i \<le> 2 ^ 31" by (intro power_increasing) auto
  then have "unat (of_nat (2 ^ i) :: u32) \<le> 2 ^ 31" by (subst unat_of_nat32) auto
  then show ?thesis by simp
next
  case False
  then have "(2 :: u32) ^ i = 2 ^ 32 * 2 ^ (i - 32)" by (simp only: power_add [symmetric]) simp
  moreover have "(2 :: u32) ^ 32 = 0" by simp
  ultimately have "(2 :: u32) ^ i = 0" by (simp only: mult_zero_left)
  then show ?thesis by (simp only:) simp
qed

lemma align_loop_stuck: "2 ^ 31 < unat alignment \<Longrightarrow> align_loop n (2 ^ i) alignment = None"
proof (induction n arbitrary: i)
  case (Suc n)
  then have "2 ^ i < alignment" using unat_exp_le [of i] by (simp add: word_less_nat_alt)
  moreover have "push_bit 1 (2 ^ i) = (2 :: u32) ^ Suc i" by (simp add: push_bit_eq_mult)
  ultimately show ?case using Suc.IH [OF Suc.prems, of "Suc i"] by (simp del: power_Suc)
qed simp

text \<open>\<open>mEMALIGn\<close> does not return for an alignment above \<open>2 ^ 31\<close>. The loop that looks for the next
  power of two shifts its candidate out of the word and goes on with 0 for ever: no number of
  iterations is enough.\<close>

theorem mEMALIGn_stuck:
  assumes "2 ^ 31 < unat alignment"
  shows "align_loop k (MALLOC_ALIGNMENT * 2) alignment = None \<and> mEMALIGn os n alignment bytes s = None"
proof -
  have l: "align_loop k (MALLOC_ALIGNMENT * 2) alignment = None" for k
    using align_loop_stuck [OF assms, of k 4] by (simp add: MALLOC_ALIGNMENT_def SIZE_SZ_def push_bit_eq_mult)
  have g: "\<not> alignment \<le> MALLOC_ALIGNMENT" "\<not> alignment < 16"
    using assms by (simp_all add: word_le_nat_alt word_less_nat_alt MALLOC_ALIGNMENT_def SIZE_SZ_def)
  have "unat (alignment - 1) = unat alignment - 1" using assms by (subst unat_sub) (auto simp: word_le_nat_alt)
  then have "bit (alignment AND (alignment - 1)) 31"
    using assms bit_top_word [of alignment] bit_top_word [of "alignment - 1"] by (simp add: bit_and_iff)
  then have "alignment AND (alignment - 1) \<noteq> 0" by (auto simp del: bit_and_iff)
  then have "fix_alignment alignment = None" using g l by (simp add: fix_alignment_def Let_def)
  then show ?thesis using g l by (simp add: mEMALIGn_def)
qed

lemma mEMALIGn_stuck_witness: "mEMALIGn plain_os 9 0x80000001 100 dl_ready = None"
  using mEMALIGn_stuck [of "0x80000001" 0 plain_os 9 100 dl_ready] by simp

text \<open>\<open>cALLOc\<close> does not notice that \<open>n_elements * elem_size\<close> wraps: 65536 elements of 65537 bytes are
  served exactly as one request of 65536 bytes.\<close>

theorem cALLOc_wraps:
  "cALLOc os n 0x10000 0x10001 s = cALLOc os n 1 0x10000 s"
proof -
  have "(0x10000 :: u32) * 0x10001 = 1 * 0x10000" by simp
  then show ?thesis unfolding cALLOc_def by (simp only:)
qed

lemma and_2_bit: "x AND 2 = (if bit (x :: u32) 1 then 2 else 0)"
proof -
  have "x AND push_bit 1 1 = push_bit 1 (of_bool (bit x 1))" by (rule bit_eqI) (auto simp: bit_simps)
  then show ?thesis by (cases "bit x 1") simp_all
qed

text \<open>Turning fastbins off with \<open>M_MXFAST\<close> 0 breaks the next unconditional consolidation. The call
  is accepted, but the bin index of the new \<open>max_fast\<close> is \<open>-1\<close>, and the loop of \<open>malloc_consolidate\<close>
  that runs up to it leaves the array of fastbins, in \<open>mTRIm\<close> as in any later \<open>mALLOPt\<close>.\<close>

theorem mxfast_zero_breaks:
  assumes "mALLOPt os n M_MXFAST 0 s = Some (ok, s')"
  shows "ok \<and> mTRIm os n pad s' = None \<and> mALLOPt os n p v s' = None"
proof -
  obtain t where t: "ok" "s' = set_max_fast 0 t"
    using assms by (auto simp: mALLOPt_def bind_eq_Some_conv MAX_FAST_SIZE_def)
  have "max_fast (clear_fastchunks s') = 9 \<or> max_fast (clear_fastchunks s') = 11"
    unfolding t(2) clear_fastchunks_def set_max_fast_def
    by (cases "bit (max_fast t) 1") (simp_all add: and_2_bit SMALLBIN_WIDTH_def FASTCHUNKS_BIT_def NONCONTIGUOUS_BIT_def)
  moreover from this have "unat (fastbin_index (max_fast (clear_fastchunks s'))) = 4294967295"
    by (auto simp: fastbin_index_def drop_bit_eq_div unsigned_minus_1_eq_mask mask_eq_exp_minus_1)
  moreover have "max_fast s' \<noteq> 0"
    by (cases "bit (max_fast t) 1") (simp_all add: t(2) set_max_fast_def and_2_bit SMALLBIN_WIDTH_def FASTCHUNKS_BIT_def NONCONTIGUOUS_BIT_def)
  ultimately have "malloc_consolidate os n s' = None"
    by (simp add: malloc_consolidate_def Let_def)
  then show ?thesis using t(1) by (simp add: mTRIm_def mALLOPt_def)
qed

lemma mxfast_zero_breaks_witness:
  "mALLOPt plain_os 5 M_MXFAST 0 dl_zero = Some (True, set_max_fast 0 (malloc_init_state 4096 dl_zero)) \<and>
   mTRIm plain_os 5 0 (set_max_fast 0 (malloc_init_state 4096 dl_zero)) = None"
proof -
  have "mALLOPt plain_os 5 M_MXFAST 0 dl_zero = Some (True, set_max_fast 0 (malloc_init_state 4096 dl_zero))"
    by (simp add: mALLOPt_def malloc_consolidate_def dl_zero_def plain_os_def MAX_FAST_SIZE_def)
  then show ?thesis using mxfast_zero_breaks by blast
qed

end
