(* ===== verification/Hl_Lists.thy ===== *)
theory Hl_Lists
  imports Grace_Prelude
begin

text \<open>
  The memory-neutral lists of Heap Layers, which keep their links inside the freed objects:
  \<open>heaplayers/freesllist.h\<close>, \<open>heaplayers/util/sllist.h\<close> and \<open>heaplayers/util/dllist.h\<close>. The heap
  layers use them through the two operations \<open>get\<close> and \<open>insert\<close>; that interface is the locale
  \<open>dictionary\<close>, which all three lists provide.

  Memory holds 32-bit words at byte addresses. A list is its header word (\<open>head.next\<close> or
  \<open>_head\<close>) together with the memory.
\<close>

section \<open>Memory and footprints\<close>

type_synonym hmem = "u32 \<Rightarrow> u32"
type_synonym dict = "u32 \<times> hmem"

text \<open>The words that the entries of a list occupy, for entries that use the words \<open>foot e\<close>.\<close>

definition foots :: "(u32 \<Rightarrow> u32 list) \<Rightarrow> u32 list \<Rightarrow> u32 list" where
  "foots foot es = concat (map foot es)"

lemma foots_simps [simp]:
  "foots foot [] = []" "foots foot (e # es) = foot e @ foots foot es"
  by (simp_all add: foots_def)

definition hd_or_0 :: "u32 list \<Rightarrow> u32" where
  "hd_or_0 es = (case es of [] \<Rightarrow> 0 | e # _ \<Rightarrow> e)"

lemma hd_or_0_simps [simp]: "hd_or_0 [] = 0" "hd_or_0 (e # es) = e"
  by (simp_all add: hd_or_0_def)

section \<open>The interface of a dictionary\<close>

text \<open>The results of \<open>n\<close> calls of \<open>get\<close>.\<close>

fun gets :: "(dict \<Rightarrow> u32 \<times> dict) \<Rightarrow> nat \<Rightarrow> dict \<Rightarrow> u32 list" where
  "gets get 0 d = []"
| "gets get (Suc n) d = (let (e, d) = get d in e # gets get n d)"

locale dictionary =
  fixes get :: "dict \<Rightarrow> u32 \<times> dict"
    and ins :: "u32 \<Rightarrow> dict \<Rightarrow> dict"
    and foot :: "u32 \<Rightarrow> u32 list"
    and repr :: "dict \<Rightarrow> u32 list \<Rightarrow> bool"
  assumes repr_empty: "repr (0, m) []"
    and repr_foots: "repr d es \<Longrightarrow> distinct (foots foot es) \<and> 0 \<notin> set es"
    and get_nil: "repr d [] \<Longrightarrow> get d = (0, d)"
    and get_cons: "repr d (e # es) \<Longrightarrow> \<exists>d'. get d = (e, d') \<and> repr d' es"
    and get_frame: "repr d es \<Longrightarrow> a \<notin> set (foots foot es) \<Longrightarrow> snd (snd (get d)) a = snd d a"
    and ins_cons: "repr d es \<Longrightarrow> e \<noteq> 0 \<Longrightarrow> distinct (foots foot (e # es)) \<Longrightarrow> repr (ins e d) (e # es)"
    and ins_frame: "repr d es \<Longrightarrow> a \<notin> set (foots foot (e # es)) \<Longrightarrow> snd (ins e d) a = snd d a"
    and repr_frame: "repr (h, m) es \<Longrightarrow> (\<And>a. a \<in> set (foots foot es) \<Longrightarrow> m' a = m a) \<Longrightarrow> repr (h, m') es"
begin

lemmas dictionary_laws = repr_empty get_nil ins_cons

text \<open>Inserting a sequence of objects stacks them up; getting them all again empties the list.\<close>

lemma fold_ins:
  "repr d es \<Longrightarrow> 0 \<notin> set fs \<Longrightarrow> distinct (foots foot (rev fs @ es)) \<Longrightarrow> repr (fold ins fs d) (rev fs @ es)"
proof (induction fs arbitrary: d es)
  case (Cons f fs)
  have "distinct (foots foot (f # es))" using Cons.prems(3) by (auto simp: foots_def)
  then have "repr (ins f d) (f # es)" using Cons.prems by (intro ins_cons) auto
  then show ?case using Cons.IH [of "ins f d" "f # es"] Cons.prems by simp
qed simp

lemma get_isin: "repr d es \<Longrightarrow> fst (get d) = hd_or_0 es"
  by (cases es) (auto dest: get_nil get_cons)

lemma gets_repr: "repr d es \<Longrightarrow> gets get (length es) d = es"
proof (induction es arbitrary: d)
  case (Cons e es)
  then show ?case using get_cons [OF Cons.prems] by auto
qed simp

text \<open>Last in, first out.\<close>

lemma gets_fold_ins:
  "0 \<notin> set fs \<Longrightarrow> distinct (foots foot (rev fs)) \<Longrightarrow> gets get (length fs) (fold ins fs (0, m)) = rev fs"
  using gets_repr [OF fold_ins [OF repr_empty, of fs m]] by simp

lemma get_tl: "repr d es \<Longrightarrow> repr (snd (get d)) (tl es)"
  using get_nil get_cons by (cases es) fastforce+

end

section \<open>\<open>FreeSLList\<close>\<close>

definition fsl_clear :: "dict \<Rightarrow> dict" where
  "fsl_clear = (\<lambda>(head, m). (0, m))"

definition fsl_get :: "dict \<Rightarrow> u32 \<times> dict" where
  "fsl_get = (\<lambda>(head, m). if head = 0 then (0, (head, m)) else (head, (m head, m)))"

definition fsl_remove :: "dict \<Rightarrow> u32 \<times> dict" where
  "fsl_remove = (\<lambda>(head, m). if head = 0 then (0, (head, m)) else (head, (m head, m)))"

definition fsl_insert :: "u32 \<Rightarrow> dict \<Rightarrow> dict" where
  "fsl_insert e = (\<lambda>(head, m). (e, m(e := head)))"

definition foot1 :: "u32 \<Rightarrow> u32 list" where "foot1 e = [e]"

fun sl_chain :: "hmem \<Rightarrow> u32 list \<Rightarrow> bool" where
  "sl_chain m [] \<longleftrightarrow> True"
| "sl_chain m (e # es) \<longleftrightarrow> e \<noteq> 0 \<and> m e = hd_or_0 es \<and> sl_chain m es"

definition sl_repr :: "dict \<Rightarrow> u32 list \<Rightarrow> bool" where
  "sl_repr = (\<lambda>(head, m) es. head = hd_or_0 es \<and> sl_chain m es \<and> distinct es)"

lemma foots_foot1 [simp]: "foots foot1 es = es"
  by (induction es) (simp_all add: foot1_def)

lemma sl_chain_frame: "(\<And>a. a \<in> set es \<Longrightarrow> m' a = m a) \<Longrightarrow> sl_chain m' es = sl_chain m es"
  by (induction es) auto

lemma sl_chain_upd [simp]: "a \<notin> set es \<Longrightarrow> sl_chain (m(a := v)) es = sl_chain m es"
  by (rule sl_chain_frame) auto

lemma sl_chain_nonnull: "sl_chain m es \<Longrightarrow> 0 \<notin> set es"
  by (induction es) auto

interpretation fsl: dictionary fsl_get fsl_insert foot1 sl_repr
proof unfold_locales
  show "sl_repr (h, m') es" if "sl_repr (h, m) es" "\<And>a. a \<in> set (foots foot1 es) \<Longrightarrow> m' a = m a" for h m m' es
    using that sl_chain_frame [of es m' m] by (simp add: sl_repr_def)
qed (auto simp: sl_repr_def fsl_get_def fsl_insert_def foot1_def dest: sl_chain_nonnull split: if_splits)

section \<open>\<open>SLList\<close>\<close>

definition sll_clear :: "dict \<Rightarrow> dict" where
  "sll_clear = (\<lambda>(head, m). (0, m))"

definition sll_get :: "dict \<Rightarrow> u32 \<times> dict" where
  "sll_get = (\<lambda>(head, m). let e = head in if e = 0 then (0, (head, m)) else (e, (m e, m)))"

definition sll_insert :: "u32 \<Rightarrow> dict \<Rightarrow> dict" where
  "sll_insert e = (\<lambda>(head, m). let m = m(e := head) in (e, m))"

lemma sll_is_fsl: "sll_get = fsl_get" "sll_insert = fsl_insert"
  by (simp_all add: fun_eq_iff sll_get_def sll_insert_def fsl_get_def fsl_insert_def)

interpretation sll: dictionary sll_get sll_insert foot1 sl_repr
  unfolding sll_is_fsl by (rule fsl.dictionary_axioms)

section \<open>\<open>DLList\<close>\<close>

text \<open>An entry has \<open>_prev\<close> at its address and \<open>_next\<close> 4 bytes further.\<close>

definition dll_prev :: "hmem \<Rightarrow> u32 \<Rightarrow> u32" where "dll_prev m e = m e"
definition dll_next :: "hmem \<Rightarrow> u32 \<Rightarrow> u32" where "dll_next m e = m (e + 4)"
definition set_prev :: "u32 \<Rightarrow> u32 \<Rightarrow> hmem \<Rightarrow> hmem" where "set_prev e v m = m(e := v)"
definition set_next :: "u32 \<Rightarrow> u32 \<Rightarrow> hmem \<Rightarrow> hmem" where "set_next e v m = m(e + 4 := v)"

lemmas dll_defs = dll_prev_def dll_next_def set_prev_def set_next_def

definition dll_clear :: "dict \<Rightarrow> dict" where
  "dll_clear = (\<lambda>(head, m). (0, m))"

definition dll_isEmpty :: "dict \<Rightarrow> bool" where
  "dll_isEmpty = (\<lambda>(head, m). head = 0)"

definition dll_get :: "dict \<Rightarrow> u32 \<times> dict" where
  "dll_get = (\<lambda>(head, m).
     if head = 0 then (0, (head, m))
     else let e = head; head = dll_next m head
          in (e, (head, if head \<noteq> 0 then set_prev head 0 m else m)))"

text \<open>\<open>None\<close>: a member of the null pointer is accessed.\<close>

definition dll_remove :: "u32 \<Rightarrow> dict \<Rightarrow> dict option" where
  "dll_remove e = (\<lambda>(head, m).
     if e \<noteq> head then
       if dll_prev m e = 0 then None
       else let m = set_next (dll_prev m e) (dll_next m e) m
            in Some (head, if dll_next m e \<noteq> 0 then set_prev (dll_next m e) (dll_prev m e) m else m)
     else if head = 0 then None
     else let head = dll_next m head
          in if head = 0 \<or> dll_next m head = 0 then None
             else Some (head, set_prev (dll_next m head) 0 m))"

definition dll_insert :: "u32 \<Rightarrow> dict \<Rightarrow> dict" where
  "dll_insert e = (\<lambda>(head, m).
     if head \<noteq> 0 then
       let m = set_next e head m; m = set_prev head e m; m = set_prev e 0 m in (e, m)
     else
       let m = set_prev e 0 m; m = set_next e 0 m in (e, m))"

definition foot2 :: "u32 \<Rightarrow> u32 list" where "foot2 e = [e, e + 4]"

fun dl_chain :: "hmem \<Rightarrow> u32 \<Rightarrow> u32 list \<Rightarrow> bool" where
  "dl_chain m p [] \<longleftrightarrow> True"
| "dl_chain m p (e # es) \<longleftrightarrow> e \<noteq> 0 \<and> dll_prev m e = p \<and> dll_next m e = hd_or_0 es \<and> dl_chain m e es"

definition dl_repr :: "dict \<Rightarrow> u32 list \<Rightarrow> bool" where
  "dl_repr = (\<lambda>(head, m) es. head = hd_or_0 es \<and> dl_chain m 0 es \<and> distinct (foots foot2 es))"

lemma dl_chain_frame: "(\<And>a. a \<in> set (foots foot2 es) \<Longrightarrow> m' a = m a) \<Longrightarrow> dl_chain m' p es = dl_chain m p es"
  by (induction es arbitrary: p) (auto simp: dll_defs foot2_def)

lemma dl_chain_upd [simp]: "a \<notin> set (foots foot2 es) \<Longrightarrow> dl_chain (m(a := v)) p es = dl_chain m p es"
  by (rule dl_chain_frame) auto

lemma dl_chain_nonnull: "dl_chain m p es \<Longrightarrow> 0 \<notin> set es"
  by (induction es arbitrary: p) auto

text \<open>Rewriting the back link of the first entry.\<close>

lemma dl_chain_set_prev:
  "dl_chain m p (e # es) \<Longrightarrow> distinct (foots foot2 (e # es)) \<Longrightarrow> dl_chain (set_prev e q m) q (e # es)"
  by (auto simp: dll_defs foot2_def)

interpretation dll: dictionary dll_get dll_insert foot2 dl_repr
proof unfold_locales
  fix d :: dict and e es
  assume "dl_repr d (e # es)"
  then show "\<exists>d'. dll_get d = (e, d') \<and> dl_repr d' es"
    by (cases d; cases es) (auto simp: dl_repr_def dll_get_def Let_def dll_defs foot2_def)
next
  fix d :: dict and e es
  assume "dl_repr d es" "e \<noteq> 0" "distinct (foots foot2 (e # es))"
  then show "dl_repr (dll_insert e d) (e # es)"
    by (cases d; cases es) (auto simp: dl_repr_def dll_insert_def Let_def dll_defs foot2_def)
next
  fix d :: dict and a es
  assume "dl_repr d es" "a \<notin> set (foots foot2 es)"
  then show "snd (snd (dll_get d)) a = snd d a"
    by (cases d; cases es) (auto simp: dl_repr_def dll_get_def Let_def dll_defs foot2_def hd_or_0_def split: list.splits)
next
  fix d :: dict and a e es
  assume "dl_repr d es" "a \<notin> set (foots foot2 (e # es))"
  then show "snd (dll_insert e d) a = snd d a"
    by (cases d; cases es) (auto simp: dl_repr_def dll_insert_def Let_def dll_defs foot2_def)
next
  show "dl_repr (h, m') es" if "dl_repr (h, m) es" "\<And>a. a \<in> set (foots foot2 es) \<Longrightarrow> m' a = m a" for h m m' es
    using that dl_chain_frame [of es m' m] by (simp add: dl_repr_def)
qed (auto simp: dl_repr_def dll_get_def dest: dl_chain_nonnull)

section \<open>Removal from a \<open>DLList\<close>\<close>

text \<open>The entries in front of \<open>q\<close>, the first of them with back link \<open>p\<close>.\<close>

fun dl_front :: "hmem \<Rightarrow> u32 \<Rightarrow> u32 list \<Rightarrow> u32 \<Rightarrow> bool" where
  "dl_front m p [] q \<longleftrightarrow> True"
| "dl_front m p (z # zs) q \<longleftrightarrow> z \<noteq> 0 \<and> dll_prev m z = p \<and> dll_next m z = hd_or_0 (zs @ [q]) \<and> dl_front m z zs q"

lemma dl_chain_front: "dl_chain m p (zs @ q # es) \<longleftrightarrow> dl_front m p zs q \<and> dl_chain m (last (p # zs)) (q # es)"
proof (induction zs arbitrary: p)
  case (Cons z zs)
  have "hd_or_0 (zs @ q # es) = hd_or_0 (zs @ [q])" by (cases zs) simp_all
  with Cons show ?case by simp
qed simp

lemma dl_front_upd [simp]: "a \<notin> set (foots foot2 zs) \<Longrightarrow> dl_front (m(a := v)) p zs q = dl_front m p zs q"
  by (induction zs arbitrary: p) (auto simp: dll_defs foot2_def)

lemma foots_append [simp]: "foots foot (xs @ ys) = foots foot xs @ foots foot ys"
  by (simp add: foots_def)

lemma hd_or_0_append: "hd_or_0 (xs @ q # e # ys) = hd_or_0 (xs @ [q])" "hd_or_0 (xs @ q # ys) = hd_or_0 (xs @ [q])"
  by (cases xs, simp_all)+

lemma dll_remove_inner:
  assumes "dl_repr (h, m) (zs @ q # e # es)"
  shows "\<exists>d. dll_remove e (h, m) = Some d \<and> dl_repr d (zs @ q # es)"
proof -
  have h: "h = hd_or_0 (zs @ [q])" and c: "dl_front m 0 zs q" "dl_chain m (last (0 # zs)) (q # e # es)"
    and d: "distinct (foots foot2 (zs @ q # e # es))"
    using assms by (auto simp: dl_repr_def dl_chain_front hd_or_0_append(1))
  have n0: "q \<noteq> 0" "e \<noteq> 0" "dll_prev m e = q" "dll_next m e = hd_or_0 es" using c(2) by simp_all
  have eh: "e \<noteq> h"
    using d h by (cases zs) (auto simp: foot2_def)
  let ?m = "set_next q (hd_or_0 es) m"
  let ?m' = "if hd_or_0 es \<noteq> 0 then set_prev (hd_or_0 es) q ?m else ?m"
  have nx: "dll_next ?m e = hd_or_0 es" "dll_prev ?m e = q"
    using n0 d by (auto simp: dll_defs foot2_def)
  have "dll_remove e (h, m) = Some (h, ?m')"
    using eh n0 nx by (simp add: dll_remove_def Let_def)
  moreover have "dl_chain ?m' 0 (zs @ q # es)"
  proof -
    have f: "dl_front ?m 0 zs q" using c(1) d by (simp add: dll_defs foot2_def)
    have q: "dll_prev ?m q = last (0 # zs)" "dl_chain ?m e es" "dll_next ?m q = hd_or_0 es"
      using c(2) d by (auto simp: dll_defs foot2_def)
    show ?thesis
    proof (cases es)
      case Nil
      then show ?thesis using f q n0(1) by (simp add: dl_chain_front)
    next
      case (Cons g fs)
      have df: "f \<notin> set (foots foot2 zs)" if "f \<in> set (foot2 g)" for f using d that Cons by auto
      have "dl_front (set_prev g q ?m) 0 zs q" using f df [of g] by (simp add: set_prev_def foot2_def)
      moreover have "dl_chain (set_prev g q ?m) q (g # fs)"
        using q(2) d Cons by (intro dl_chain_set_prev [of _ e]) simp_all
      moreover have "dll_prev (set_prev g q ?m) q = last (0 # zs)" "dll_next (set_prev g q ?m) q = g"
        using q(1,3) d Cons by (auto simp: dll_defs foot2_def)
      moreover have "g \<noteq> 0" using q(2) Cons by simp
      ultimately show ?thesis using Cons n0(1) by (simp add: dl_chain_front)
    qed
  qed
  moreover have "distinct (foots foot2 (zs @ q # es))" using d by auto
  ultimately show ?thesis using h hd_or_0_append(2) [of zs q es] by (auto simp: dl_repr_def)
qed

section \<open>Properties\<close>

text \<open>\<open>DLList::remove\<close> takes out exactly the given entry and keeps the order of the others, when the
  entry is not the first one.\<close>

theorem dll_remove_correct:
  assumes "dl_repr d (xs @ e # es)" and "xs \<noteq> []"
  shows "\<exists>d'. dll_remove e d = Some d' \<and> dl_repr d' (xs @ es)"
proof -
  obtain zs q where "xs = zs @ [q]" using assms(2) by (cases xs rule: rev_cases) auto
  with assms(1) dll_remove_inner [of "fst d" "snd d" zs q e es] show ?thesis by simp
qed

theorem dll_remove_correct_witness:
  "\<exists>d'. dll_remove 24 (fold dll_insert [8, 24, 16] (0, \<lambda>_. 7)) = Some d' \<and> dl_repr d' ([16] @ [8])"
  by (rule dll_remove_correct) (simp_all add: dl_repr_def dll_insert_def dll_defs foot2_def)

text \<open>it never removes the first entry correctly: with one or two entries it follows a null pointer,
  with more it leaves a list whose back links are wrong.\<close>

theorem dll_remove_head_breaks:
  assumes "dl_repr d (e # es)"
  shows "\<not> (\<exists>d'. dll_remove e d = Some d' \<and> dl_repr d' es)"
proof (cases d)
  case (Pair h m)
  have h: "h = e" "e \<noteq> 0" "dll_next m e = hd_or_0 es" and c: "dl_chain m e es" and d: "distinct (foots foot2 es)"
    using assms by (simp_all add: Pair dl_repr_def)
  show ?thesis
  proof (cases es)
    case Nil
    then show ?thesis using h by (simp add: Pair dll_remove_def Let_def)
  next
    case (Cons f fs)
    show ?thesis
    proof (cases fs)
      case Nil
      then show ?thesis using h c Cons by (simp add: Pair dll_remove_def Let_def)
    next
      case (Cons g gs)
      then have "g \<noteq> 0" "f \<noteq> 0" "dll_next m f = g" using c \<open>es = f # fs\<close> by simp_all
      then have "dll_remove e d = Some (f, set_prev g 0 m)"
        using h \<open>es = f # fs\<close> by (simp add: Pair dll_remove_def Let_def)
      moreover have "\<not> dl_repr (f, set_prev g 0 m) es"
        using c by (simp add: dl_repr_def \<open>es = f # fs\<close> Cons dll_defs)
      ultimately show ?thesis by simp
    qed
  qed
qed

theorem dll_remove_head_breaks_witness:
  "\<not> (\<exists>d'. dll_remove 16 (fold dll_insert [8, 24, 16] (0, \<lambda>_. 7)) = Some d' \<and> dl_repr d' [24, 8])"
  by (rule dll_remove_head_breaks) (simp add: dl_repr_def dll_insert_def dll_defs foot2_def)

end
