(* ===== verification/Hl_Source.thy ===== *)
theory Hl_Source
  imports Hl_Lists
begin

text \<open>
  What a heap layer promises to the layer above it, as the locale \<open>source_heap\<close>: the blocks it
  has handed out are disjoint, and neither the layer nor a write into another block changes
  them. \<open>include/bumpheap.h\<close> provides it for requests that do not wrap when they are rounded,
  \<open>heaplayers/freelistheap.h\<close> over any provider for objects of one size.

  A layer works on its own state and on the memory; a result \<open>None\<close> is a call of \<open>abort\<close>, the
  pointer 0 is \<open>NULL\<close>.
\<close>

section \<open>Blocks\<close>

type_synonym block = "u32 \<times> nat"
type_synonym 'h hstate = "'h \<times> hmem"

definition blk :: "block \<Rightarrow> nat set" where
  "blk b = {unat (fst b) ..< unat (fst b) + snd b}"

definition ok_block :: "block \<Rightarrow> bool" where
  "ok_block b \<longleftrightarrow> fst b \<noteq> 0 \<and> unat (fst b) + snd b < 2 ^ 32 \<and> 8 dvd unat (fst b)"

definition ok_blocks :: "block set \<Rightarrow> bool" where
  "ok_blocks L \<longleftrightarrow> (\<forall>b \<in> L. ok_block b) \<and> pairwise (\<lambda>b c. blk b \<inter> blk c = {}) L"

lemma ok_blocks_empty [simp]: "ok_blocks {}"
  by (simp add: ok_blocks_def)

lemma ok_blocks_mono: "ok_blocks L \<Longrightarrow> K \<subseteq> L \<Longrightarrow> ok_blocks K"
  by (auto simp: ok_blocks_def intro: pairwise_subset)

lemma ok_blocks_insert:
  "ok_blocks (insert b L) \<longleftrightarrow> ok_block b \<and> ok_blocks L \<and> (\<forall>c \<in> L. c \<noteq> b \<longrightarrow> blk b \<inter> blk c = {})"
  by (auto simp: ok_blocks_def pairwise_insert)

lemma ok_blocks_apart: "ok_blocks L \<Longrightarrow> b \<in> L \<Longrightarrow> c \<in> L \<Longrightarrow> b \<noteq> c \<Longrightarrow> blk b \<inter> blk c = {}"
  by (auto simp: ok_blocks_def pairwise_def)

definition covered :: "block set \<Rightarrow> u32 \<Rightarrow> bool" where
  "covered L a \<longleftrightarrow> (\<exists>b \<in> L. unat a \<in> blk b)"

lemma covered_insert [simp]: "covered (insert b L) a \<longleftrightarrow> unat a \<in> blk b \<or> covered L a"
  by (auto simp: covered_def)

lemma covered_Un [simp]: "covered (K \<union> L) a \<longleftrightarrow> covered K a \<or> covered L a"
  by (auto simp: covered_def)

lemma covered_mono: "covered K a \<Longrightarrow> K \<subseteq> L \<Longrightarrow> covered L a"
  by (auto simp: covered_def)

section \<open>The interface of a source heap\<close>

locale source_heap =
  fixes malloc :: "u32 \<Rightarrow> 'h hstate \<Rightarrow> (u32 \<times> 'h hstate) option"
    and free :: "u32 \<Rightarrow> 'h hstate \<Rightarrow> 'h hstate option"
    and oksize :: "u32 \<Rightarrow> bool"
    and inv :: "'h hstate \<Rightarrow> block set \<Rightarrow> bool"
  assumes inv_blocks: "inv st L \<Longrightarrow> ok_blocks L"
    and malloc_law: "inv st L \<Longrightarrow> oksize sz \<Longrightarrow> \<exists>p st'. malloc sz st = Some (p, st') \<and>
      (if p = 0 then inv st' L else inv st' (insert (p, unat sz) L) \<and> (p, unat sz) \<notin> L) \<and>
      (\<forall>a. covered L a \<longrightarrow> snd st' a = snd st a)"
    and free_law: "inv st L \<Longrightarrow> (p, n) \<in> L \<Longrightarrow> \<exists>st'. free p st = Some st' \<and> inv st' (L - {(p, n)}) \<and>
      (\<forall>a. covered (L - {(p, n)}) a \<longrightarrow> snd st' a = snd st a)"
    and inv_frame: "inv (h, m) L \<Longrightarrow> (\<And>a. \<not> covered L a \<Longrightarrow> m' a = m a) \<Longrightarrow> inv (h, m') L"
begin

lemma inv_write: "inv (h, m) L \<Longrightarrow> covered L a \<Longrightarrow> inv (h, m(a := v)) L"
  by (erule inv_frame) auto

lemma malloc_cases:
  assumes "inv st L" and "oksize sz"
  obtains (null) st' where "malloc sz st = Some (0, st')" and "inv st' L"
      and "\<forall>a. covered L a \<longrightarrow> snd st' a = snd st a"
    | (block) p st' where "malloc sz st = Some (p, st')" and "p \<noteq> 0" and "inv st' (insert (p, unat sz) L)"
      and "(p, unat sz) \<notin> L" and "\<forall>a. covered L a \<longrightarrow> snd st' a = snd st a"
proof -
  obtain p st' where p: "malloc sz st = Some (p, st')"
    "if p = 0 then inv st' L else inv st' (insert (p, unat sz) L) \<and> (p, unat sz) \<notin> L"
    "\<forall>a. covered L a \<longrightarrow> snd st' a = snd st a"
    using malloc_law [OF assms] by blast
  show thesis
  proof (cases "p = 0")
    case True
    then show thesis using p by (intro null [of st']) auto
  next
    case False
    then show thesis using p by (intro block [of p st']) auto
  qed
qed

end

section \<open>\<open>bumpheap\<close>\<close>

record bump =
  bp_start :: u32
  bp_position :: u32
  bp_remaining :: u32
  bp_magic :: u32

definition BUMP_MAGIC :: u32 where "BUMP_MAGIC = 0xCAFEBABE"

definition bump_new :: "u32 \<Rightarrow> u32 \<Rightarrow> bump" where
  "bump_new buf Size = \<lparr>bp_start = buf, bp_position = buf, bp_remaining = Size, bp_magic = BUMP_MAGIC\<rparr>"

definition bump_sanity :: "bump \<Rightarrow> bool" where
  "bump_sanity h \<longleftrightarrow> bp_magic h = BUMP_MAGIC"

definition sizeof_double :: u32 where "sizeof_double = 8"

definition bump_round :: "u32 \<Rightarrow> u32" where
  "bump_round sz = (let sz = (if sz < sizeof_double then sizeof_double else sz)
                    in (sz + sizeof_double - 1) AND NOT (sizeof_double - 1))"

definition bump_malloc :: "u32 \<Rightarrow> bump hstate \<Rightarrow> (u32 \<times> bump hstate) option" where
  "bump_malloc sz = (\<lambda>(h, m).
     if \<not> bump_sanity h then None
     else let sz = bump_round sz
          in if bp_remaining h < sz then Some (0, (h, m))
             else let p = bp_position h;
                      h = h\<lparr>bp_remaining := bp_remaining h - sz\<rparr>;
                      h = h\<lparr>bp_position := bp_position h + sz\<rparr>
                  in if \<not> bump_sanity h then None else Some (p, (h, m)))"

definition bump_free :: "u32 \<Rightarrow> bump hstate \<Rightarrow> bump hstate option" where
  "bump_free p = (\<lambda>(h, m). if \<not> bump_sanity h then None else Some (h, m))"

definition bump_getSize :: "u32 \<Rightarrow> bump hstate \<Rightarrow> u32 option" where
  "bump_getSize p = (\<lambda>(h, m). if \<not> bump_sanity h then None else Some 0)"

text \<open>The requests whose rounding does not wrap.\<close>

definition bump_ok :: "u32 \<Rightarrow> bool" where
  "bump_ok sz \<longleftrightarrow> unat sz + 7 < 2 ^ 32"

definition bump_inv :: "bump hstate \<Rightarrow> block set \<Rightarrow> bool" where
  "bump_inv = (\<lambda>(h, m) L. bump_sanity h \<and> bp_start h \<noteq> 0 \<and> bp_start h \<le> bp_position h \<and>
     unat (bp_position h) + unat (bp_remaining h) < 2 ^ 32 \<and> 8 dvd unat (bp_position h) \<and>
     ok_blocks L \<and> (\<forall>b \<in> L. unat (bp_start h) \<le> unat (fst b) \<and> unat (fst b) < unat (bp_position h) \<and>
       unat (fst b) + snd b \<le> unat (bp_position h)))"

lemma unat_bump_round: "bump_ok sz \<Longrightarrow> unat (bump_round sz) = round_up 8 (max 8 (unat sz))"
proof -
  assume ok: "bump_ok sz"
  define t where "t = (if sz < sizeof_double then sizeof_double else sz)"
  have t: "unat t = max 8 (unat sz)" by (auto simp: t_def sizeof_double_def word_less_nat_alt max_def)
  have "unat (t + 7) = unat t + 7" using ok t by (subst unat_add_nowrap) (auto simp: bump_ok_def)
  then have "unat ((t + 7) AND NOT (mask 3)) = round_up 8 (unat t)"
    by (simp only: unat_and_not_mask) (simp add: round_up_def)
  moreover have "bump_round sz = (t + 7) AND NOT (mask 3)"
    by (simp add: bump_round_def Let_def t_def sizeof_double_def mask_eq_exp_minus_1 add.commute [of 7])
  ultimately show ?thesis by (simp add: t)
qed

interpretation bump: source_heap bump_malloc bump_free bump_ok bump_inv
proof unfold_locales
  fix st :: "bump hstate" and L sz
  assume i: "bump_inv st L" and ok: "bump_ok sz"
  obtain h m where st: "st = (h, m)" by (cases st)
  let ?r = "bump_round sz" and ?p = "bp_position h"
  have r: "unat ?r = round_up 8 (max 8 (unat sz))" using unat_bump_round [OF ok] .
  have rb: "8 \<le> unat ?r" "unat sz \<le> unat ?r" "8 dvd unat ?r"
    using r round_up_ge [of 8 "max 8 (unat sz)"] by auto
  show "\<exists>p st'. bump_malloc sz st = Some (p, st') \<and>
      (if p = 0 then bump_inv st' L else bump_inv st' (insert (p, unat sz) L) \<and> (p, unat sz) \<notin> L) \<and>
      (\<forall>a. covered L a \<longrightarrow> snd st' a = snd st a)"
  proof (cases "bp_remaining h < ?r")
    case True
    then show ?thesis using i by (auto simp: bump_malloc_def st bump_inv_def)
  next
    case False
    let ?h = "h\<lparr>bp_remaining := bp_remaining h - ?r, bp_position := ?p + ?r\<rparr>"
    have u: "unat (?p + ?r) = unat ?p + unat ?r" "unat (bp_remaining h - ?r) = unat (bp_remaining h) - unat ?r"
      using i False by (auto simp: st bump_inv_def word_less_nat_alt word_le_nat_alt unat_sub intro!: unat_add_nowrap)
    have p0: "?p \<noteq> 0" using i by (auto simp: st bump_inv_def)
    have apart: "\<forall>c \<in> L. blk (?p, unat sz) \<inter> blk c = {}"
      using i by (fastforce simp: st bump_inv_def blk_def)
    have "bump_inv (?h, m) (insert (?p, unat sz) L)"
      using i u rb False p0 apart
      by (auto simp: st bump_inv_def bump_sanity_def ok_blocks_insert ok_block_def word_le_nat_alt word_less_nat_alt)
    moreover have "(?p, unat sz) \<notin> L" using i by (auto simp: st bump_inv_def)
    moreover have "bump_malloc sz st = Some (?p, (?h, m))"
      using i False by (simp add: bump_malloc_def st bump_inv_def bump_sanity_def Let_def)
    ultimately show ?thesis using p0 by (intro exI [of _ ?p] exI [of _ "(?h, m)"]) (simp add: st)
  qed
next
  fix st :: "bump hstate" and L p n
  assume "bump_inv st L" and "(p, n) \<in> L"
  then show "\<exists>st'. bump_free p st = Some st' \<and> bump_inv st' (L - {(p, n)}) \<and>
      (\<forall>a. covered (L - {(p, n)}) a \<longrightarrow> snd st' a = snd st a)"
    by (cases st) (auto simp: bump_free_def bump_inv_def intro: ok_blocks_mono)
qed (auto simp: bump_inv_def)

section \<open>\<open>FreelistHeap\<close>\<close>

text \<open>The layer over a super heap, whose operations are parameters as \<open>SuperHeap\<close> is in the code.\<close>

definition FreelistHeap_malloc ::
  "(u32 \<Rightarrow> 'h hstate \<Rightarrow> (u32 \<times> 'h hstate) option) \<Rightarrow> u32 \<Rightarrow> (u32 \<times> 'h) hstate \<Rightarrow> (u32 \<times> (u32 \<times> 'h) hstate) option" where
  "FreelistHeap_malloc smalloc sz = (\<lambda>((fl, h), m).
     let (ptr, (fl, m)) = fsl_get (fl, m)
     in if ptr = 0 then map_option (\<lambda>(ptr, (h, m)). (ptr, ((fl, h), m))) (smalloc sz (h, m))
        else Some (ptr, ((fl, h), m)))"

definition FreelistHeap_free :: "u32 \<Rightarrow> (u32 \<times> 'h) hstate \<Rightarrow> (u32 \<times> 'h) hstate option" where
  "FreelistHeap_free ptr = (\<lambda>((fl, h), m).
     if ptr = 0 then Some ((fl, h), m)
     else let (fl, m) = fsl_insert ptr (fl, m) in Some ((fl, h), m))"

text \<open>\<open>clear\<close> returns the objects of the free list to the super heap, one per iteration.\<close>

fun FreelistHeap_clear ::
  "(u32 \<Rightarrow> 'h hstate \<Rightarrow> 'h hstate option) \<Rightarrow> nat \<Rightarrow> (u32 \<times> 'h) hstate \<Rightarrow> (u32 \<times> 'h) hstate option" where
  "FreelistHeap_clear sfree 0 st = None"
| "FreelistHeap_clear sfree (Suc n) ((fl, h), m) =
     (let (ptr, (fl, m)) = fsl_get (fl, m)
      in if ptr = 0 then Some ((fl, h), m)
         else Option.bind (sfree ptr (h, m)) (\<lambda>(h, m). FreelistHeap_clear sfree n ((fl, h), m)))"

text \<open>
  For objects of \<open>k\<close> bytes: the super heap has handed out the live objects and those on the free
  list, and no others are needed.
\<close>

definition objs :: "u32 \<Rightarrow> u32 list \<Rightarrow> block set" where
  "objs k F = (\<lambda>p. (p, unat k)) ` set F"

lemma objs_simps [simp]: "objs k [] = {}" "objs k (p # F) = insert (p, unat k) (objs k F)"
  by (auto simp: objs_def)

lemma covered_objs: "p \<in> set F \<Longrightarrow> 0 < unat k \<Longrightarrow> covered (objs k F) p"
  by (auto simp: covered_def objs_def blk_def)

definition freelist_inv ::
  "('h hstate \<Rightarrow> block set \<Rightarrow> bool) \<Rightarrow> u32 \<Rightarrow> (u32 \<times> 'h) hstate \<Rightarrow> block set \<Rightarrow> bool" where
  "freelist_inv sinv k = (\<lambda>((fl, h), m) L.
     (\<forall>b \<in> L. snd b = unat k) \<and>
     (\<exists>F. sl_repr (fl, m) F \<and> L \<inter> objs k F = {} \<and> sinv (h, m) (L \<union> objs k F)))"

locale object_heap = source_heap +
  fixes k :: u32
  assumes k_ok: "oksize k" and k_big: "4 \<le> unat k"

text \<open>An object on the free list lies outside the live objects.\<close>

lemma objs_not_covered:
  assumes "ok_blocks (L \<union> objs k F)" and "L \<inter> objs k F = {}" and "p \<in> set F" and "0 < unat k"
  shows "\<not> covered L p"
proof
  assume "covered L p"
  then obtain b where b: "b \<in> L" "unat p \<in> blk b" by (auto simp: covered_def)
  have o: "(p, unat k) \<in> objs k F" using assms(3) by (simp add: objs_def)
  then have "blk b \<inter> blk (p, unat k) = {}" using b(1) assms(1,2) by (intro ok_blocks_apart [OF assms(1)]) auto
  with b(2) assms(4) show False by (auto simp: blk_def)
qed

lemma block_apart_covered:
  assumes "ok_blocks L" and "(p, n) \<in> L" and "0 < n" and "covered (L - {(p, n)}) a"
  shows "a \<noteq> p"
proof
  assume "a = p"
  with assms(4) obtain b where b: "b \<in> L" "b \<noteq> (p, n)" "unat p \<in> blk b" by (auto simp: covered_def)
  then have "blk b \<inter> blk (p, n) = {}" using assms(1,2) by (intro ok_blocks_apart [OF assms(1)]) auto
  with b(3) assms(3) show False by (auto simp: blk_def)
qed

sublocale object_heap \<subseteq> freelist:
  source_heap "FreelistHeap_malloc malloc" FreelistHeap_free "\<lambda>sz. sz = k" "freelist_inv inv k"
proof unfold_locales
  fix st :: "(u32 \<times> 'a) hstate" and L
  assume "freelist_inv inv k st L"
  then show "ok_blocks L" by (auto simp: freelist_inv_def dest!: inv_blocks elim: ok_blocks_mono)
next
  fix st :: "(u32 \<times> 'a) hstate" and L sz
  assume i: "freelist_inv inv k st L" and sz: "sz = k"
  obtain fl h m where st: "st = ((fl, h), m)" by (metis surj_pair)
  obtain F where F: "sl_repr (fl, m) F" "L \<inter> objs k F = {}" "inv (h, m) (L \<union> objs k F)"
    and n: "\<forall>b \<in> L. snd b = unat k" using i by (auto simp: freelist_inv_def st)
  show "\<exists>p st'. FreelistHeap_malloc malloc sz st = Some (p, st') \<and>
      (if p = 0 then freelist_inv inv k st' L
       else freelist_inv inv k st' (insert (p, unat sz) L) \<and> (p, unat sz) \<notin> L) \<and>
      (\<forall>a. covered L a \<longrightarrow> snd st' a = snd st a)"
  proof (cases F)
    case Nil
    then have i0: "inv (h, m) L" and g: "fsl_get (fl, m) = (0, (fl, m))" and fl: "fl = 0"
      using F fsl.get_nil by (auto simp: sl_repr_def)
    have r: "sl_repr (fl, m') []" for m' by (simp add: sl_repr_def fl)
    from i0 k_ok show ?thesis
    proof (cases rule: malloc_cases)
      case (null st')
      then have "freelist_inv inv k ((fl, fst st'), snd st') L"
        using n r by (auto simp: freelist_inv_def intro!: exI [of _ "[]"])
      with null show ?thesis
        by (intro exI [of _ 0] exI [of _ "((fl, fst st'), snd st')"])
          (auto simp: FreelistHeap_malloc_def st g sz case_prod_unfold)
    next
      case (block p st')
      then have "freelist_inv inv k ((fl, fst st'), snd st') (insert (p, unat k) L)"
        using n r by (auto simp: freelist_inv_def intro!: exI [of _ "[]"])
      with block show ?thesis
        by (intro exI [of _ p] exI [of _ "((fl, fst st'), snd st')"])
          (auto simp: FreelistHeap_malloc_def st g sz case_prod_unfold)
    qed
  next
    case (Cons p F')
    then obtain d where d: "fsl_get (fl, m) = (p, d)" "sl_repr d F'" using F(1) fsl.get_cons by blast
    have m: "snd d = m" using d(1) by (auto simp: fsl_get_def split: if_splits)
    have p: "p \<noteq> 0" "p \<notin> set F'" using F(1) fsl.repr_foots [OF F(1)] by (auto simp: Cons foot1_def)
    have u: "L \<union> objs k F = insert (p, unat k) L \<union> objs k F'" by (auto simp: Cons foot1_def)
    have "freelist_inv inv k ((fst d, h), m) (insert (p, unat k) L)"
      using F(2,3) n d(2) m p(2) unfolding u
      by (cases d) (auto simp: freelist_inv_def Cons objs_def intro!: exI [of _ F'])
    moreover have "(p, unat k) \<notin> L" using F(2) by (auto simp: Cons foot1_def)
    ultimately show ?thesis using d(1) m p(1)
      by (intro exI [of _ p] exI [of _ "((fst d, h), m)"])
        (auto simp: FreelistHeap_malloc_def st sz case_prod_unfold Let_def)
  qed
next
  fix st :: "(u32 \<times> 'a) hstate" and L p n
  assume i: "freelist_inv inv k st L" and pL: "(p, n) \<in> L"
  obtain fl h m where st: "st = ((fl, h), m)" by (metis surj_pair)
  obtain F where F: "sl_repr (fl, m) F" "L \<inter> objs k F = {}" "inv (h, m) (L \<union> objs k F)"
    and n: "\<forall>b \<in> L. snd b = unat k" using i by (auto simp: freelist_inv_def st)
  have nk: "n = unat k" and k0: "0 < n" using n pL k_big by auto
  have okL: "ok_blocks L" using inv_blocks [OF F(3)] by (rule ok_blocks_mono) simp
  have p: "p \<noteq> 0" "p \<notin> set F" using okL pL F(2) by (auto simp: ok_blocks_def ok_block_def objs_def nk)
  let ?st = "((p, h), m(p := fl))"
  have "sl_repr (p, m(p := fl)) (p # F)"
    using fsl.ins_cons [OF F(1) p(1)] p(2) fsl.repr_foots [OF F(1)] by (simp add: fsl_insert_def foot1_def)
  moreover have "covered (L \<union> objs k F) p" using pL k0 by (auto simp: covered_def blk_def intro!: bexI [of _ "(p, n)"])
  then have "inv (h, m(p := fl)) (L \<union> objs k F)" by (rule inv_write [OF F(3)])
  moreover have "L \<union> objs k F = (L - {(p, n)}) \<union> objs k (p # F)" using pL by (auto simp: nk)
  moreover have "(L - {(p, n)}) \<inter> objs k (p # F) = {}" using F(2) by (auto simp: nk)
  ultimately have "freelist_inv inv k ?st (L - {(p, n)})"
    using n by (auto simp: freelist_inv_def intro!: exI [of _ "p # F"])
  moreover have "\<forall>a. covered (L - {(p, n)}) a \<longrightarrow> snd ?st a = m a"
    using block_apart_covered [OF okL pL k0] by auto
  ultimately show "\<exists>st'. FreelistHeap_free p st = Some st' \<and> freelist_inv inv k st' (L - {(p, n)}) \<and>
      (\<forall>a. covered (L - {(p, n)}) a \<longrightarrow> snd st' a = snd st a)"
    using p(1) by (intro exI [of _ ?st]) (simp add: FreelistHeap_free_def st fsl_insert_def)
next
  fix fh :: "u32 \<times> 'a" and m m' :: hmem and L
  assume i: "freelist_inv inv k (fh, m) L" and fr: "\<And>a. \<not> covered L a \<Longrightarrow> m' a = m a"
  obtain fl h where fh: "fh = (fl, h)" by (cases fh)
  obtain F where F: "sl_repr (fl, m) F" "L \<inter> objs k F = {}" "inv (h, m) (L \<union> objs k F)"
    and n: "\<forall>b \<in> L. snd b = unat k" using i by (auto simp: freelist_inv_def fh)
  have "sl_repr (fl, m') F"
    using objs_not_covered [OF inv_blocks [OF F(3)] F(2)] k_big by (intro fsl.repr_frame [OF F(1)] fr) auto
  moreover have "inv (h, m') (L \<union> objs k F)" by (rule inv_frame [OF F(3)]) (auto intro: fr)
  ultimately show "freelist_inv inv k (fh, m') L" using F(2) n by (auto simp: freelist_inv_def fh)
qed

section \<open>Clients\<close>

text \<open>
  A client allocates, frees its blocks and writes into them; \<open>sh\<close> is what the client believes its
  words hold: the contents found when a block was handed out, and afterwards what it wrote. An
  operation on something that is not live is left out.
\<close>

datatype hop = HMalloc u32 | HFree u32 nat | HWrite u32 u32

fun hrun ::
  "(u32 \<Rightarrow> 'h hstate \<Rightarrow> (u32 \<times> 'h hstate) option) \<Rightarrow> (u32 \<Rightarrow> 'h hstate \<Rightarrow> 'h hstate option) \<Rightarrow> hop list
   \<Rightarrow> 'h hstate \<times> block set \<times> hmem \<Rightarrow> ('h hstate \<times> block set \<times> hmem) option" where
  "hrun mal fre [] s = Some s"
| "hrun mal fre (HMalloc sz # ops) (st, L, sh) =
     (case mal sz st of None \<Rightarrow> None
      | Some (p, st) \<Rightarrow>
          if p = 0 then hrun mal fre ops (st, L, sh)
          else hrun mal fre ops (st, insert (p, unat sz) L,
                 (\<lambda>a. if unat a \<in> blk (p, unat sz) then snd st a else sh a)))"
| "hrun mal fre (HFree p n # ops) (st, L, sh) =
     (if (p, n) \<in> L then
        (case fre p st of None \<Rightarrow> None | Some st \<Rightarrow> hrun mal fre ops (st, L - {(p, n)}, sh))
      else hrun mal fre ops (st, L, sh))"
| "hrun mal fre (HWrite a v # ops) (st, L, sh) =
     (if covered L a then hrun mal fre ops ((fst st, (snd st)(a := v)), L, sh(a := v))
      else hrun mal fre ops (st, L, sh))"

fun requests :: "hop list \<Rightarrow> u32 set" where
  "requests [] = {}"
| "requests (HMalloc sz # ops) = insert sz (requests ops)"
| "requests (_ # ops) = requests ops"

context source_heap
begin

lemma hrun_safe:
  "inv st L \<Longrightarrow> (\<And>sz. sz \<in> requests ops \<Longrightarrow> oksize sz) \<Longrightarrow> (\<And>a. covered L a \<Longrightarrow> snd st a = sh a) \<Longrightarrow>
   \<exists>st' L' sh'. hrun malloc free ops (st, L, sh) = Some (st', L', sh') \<and> inv st' L' \<and>
     (\<forall>a. covered L' a \<longrightarrow> snd st' a = sh' a)"
proof (induction ops arbitrary: st L sh)
  case Nil
  then show ?case by auto
next
  case (Cons op ops)
  show ?case
  proof (cases op)
    case (HMalloc sz)
    then have "oksize sz" using Cons.prems(2) by simp
    with Cons.prems(1) show ?thesis
    proof (cases rule: malloc_cases)
      case (null st')
      with Cons.IH [OF null(2), of sh] Cons.prems(2,3) HMalloc show ?thesis by simp
    next
      case (block p st')
      let ?sh = "\<lambda>a. if unat a \<in> blk (p, unat sz) then snd st' a else sh a"
      have "snd st' a = ?sh a" if "covered (insert (p, unat sz) L) a" for a
        using that block(5) Cons.prems(3) by auto
      from Cons.IH [OF block(3) _ this] Cons.prems(2) block(1,2) HMalloc show ?thesis by simp
    qed
  next
    case (HFree p n)
    show ?thesis
    proof (cases "(p, n) \<in> L")
      case True
      obtain st' where s: "free p st = Some st'" "inv st' (L - {(p, n)})"
        "\<forall>a. covered (L - {(p, n)}) a \<longrightarrow> snd st' a = snd st a"
        using free_law [OF Cons.prems(1) True] by blast
      have "snd st' a = sh a" if "covered (L - {(p, n)}) a" for a
        using that s(3) Cons.prems(3) covered_mono [OF that, of L] by auto
      from Cons.IH [OF s(2) _ this] Cons.prems(2) s(1) HFree True show ?thesis by simp
    next
      case False
      with Cons.IH [OF Cons.prems(1) _ Cons.prems(3)] Cons.prems(2) HFree show ?thesis by simp
    qed
  next
    case (HWrite a v)
    show ?thesis
    proof (cases "covered L a")
      case True
      have i: "inv (fst st, (snd st)(a := v)) L" using inv_write [OF _ True, of "fst st" "snd st"] Cons.prems(1) by simp
      have "snd (fst st, (snd st)(a := v)) b = (sh(a := v)) b" if "covered L b" for b
        using Cons.prems(3) [OF that] by simp
      from Cons.IH [where sh = "sh(a := v)", OF i _ this] Cons.prems(2) HWrite True show ?thesis
        by (simp del: fun_upd_apply)
    next
      case False
      with Cons.IH [OF Cons.prems(1) _ Cons.prems(3)] Cons.prems(2) HWrite show ?thesis by simp
    qed
  qed
qed

end

end
