(* ===== verification/Hl_Zone.thy ===== *)
theory Hl_Zone
  imports Hl_Source
begin

text \<open>
  \<open>heaplayers/zoneheap.h\<close>: a heap that carves its objects out of large arenas taken from the super
  heap. The headers of the arenas live at the start of the arenas. Over any provider of
  \<open>source_heap\<close> the zone heap provides it again, for positive requests whose rounding and whose
  arena size do not wrap.
\<close>

section \<open>Arenas\<close>

text \<open>The members of \<open>Arena\<close>: 16 bytes, \<open>_arenaSpace\<close> in a union aligned to 8.\<close>

definition sizeof_Arena :: u32 where "sizeof_Arena = 16"
definition ar_remaining :: "hmem \<Rightarrow> u32 \<Rightarrow> u32" where "ar_remaining m a = m a"
definition ar_next :: "hmem \<Rightarrow> u32 \<Rightarrow> u32" where "ar_next m a = m (a + 4)"
definition ar_space :: "hmem \<Rightarrow> u32 \<Rightarrow> u32" where "ar_space m a = m (a + 8)"

definition Arena_new :: "u32 \<Rightarrow> u32 \<Rightarrow> hmem \<Rightarrow> hmem" where
  "Arena_new a sz m = m(a := sz, a + 4 := 0, a + 8 := a + sizeof_Arena)"

definition Arena_malloc :: "u32 \<Rightarrow> u32 \<Rightarrow> hmem \<Rightarrow> u32 \<times> hmem" where
  "Arena_malloc a sz m =
     (if sz > ar_remaining m a then (0, m)
      else let m = m(a := ar_remaining m a - sz);
               ptr = ar_space m a
           in (ptr, m(a + 8 := ar_space m a + sz)))"

definition setNextArena :: "u32 \<Rightarrow> u32 \<Rightarrow> hmem \<Rightarrow> hmem" where
  "setNextArena a n m = m(a + 4 := n)"

section \<open>The heap\<close>

record zone =
  zn_current :: u32
  zn_past :: u32

definition zone_new :: zone where "zone_new = \<lparr>zn_current = 0, zn_past = 0\<rparr>"

definition zone_align :: "u32 \<Rightarrow> u32" where
  "zone_align sz = (sz + (sizeof_double - 1)) AND NOT (sizeof_double - 1)"

definition zone_retire :: "zone \<Rightarrow> hmem \<Rightarrow> zone \<times> hmem" where
  "zone_retire z m =
     (if zn_current z \<noteq> 0 then
        (\<lparr>zn_current = 0, zn_past = zn_current z\<rparr>, setNextArena (zn_current z) (zn_past z) m)
      else (z, m))"

definition arena_size :: "u32 \<Rightarrow> u32 \<Rightarrow> u32" where
  "arena_size ChunkSize sz = (let allocSize = ChunkSize in if allocSize < sz then sz else allocSize)"

definition zone_slowMalloc ::
  "(u32 \<Rightarrow> 'h hstate \<Rightarrow> (u32 \<times> 'h hstate) option) \<Rightarrow> u32 \<Rightarrow> u32 \<Rightarrow> (zone \<times> 'h) hstate
   \<Rightarrow> (u32 \<times> (zone \<times> 'h) hstate) option" where
  "zone_slowMalloc smalloc ChunkSize sz = (\<lambda>((z, h), m).
     let (z, m) = zone_retire z m;
         allocSize = arena_size ChunkSize sz
     in map_option (\<lambda>(buf, (h, m)).
          if buf = 0 then (0, ((z, h), m))
          else let m = Arena_new buf allocSize m;
                   (ptr, m) = Arena_malloc buf sz m
               in (ptr, ((z\<lparr>zn_current := buf\<rparr>, h), m)))
        (smalloc (sizeof_Arena + allocSize) (h, m)))"

definition zone_malloc ::
  "(u32 \<Rightarrow> 'h hstate \<Rightarrow> (u32 \<times> 'h hstate) option) \<Rightarrow> u32 \<Rightarrow> u32 \<Rightarrow> (zone \<times> 'h) hstate
   \<Rightarrow> (u32 \<times> (zone \<times> 'h) hstate) option" where
  "zone_malloc smalloc ChunkSize sz = (\<lambda>((z, h), m).
     let sz = zone_align sz
     in if zn_current z \<noteq> 0 \<and> ar_remaining m (zn_current z) \<ge> sz
        then let (ptr, m) = Arena_malloc (zn_current z) sz m in Some (ptr, ((z, h), m))
        else zone_slowMalloc smalloc ChunkSize sz ((z, h), m))"

definition zone_free :: "u32 \<Rightarrow> (zone \<times> 'h) hstate \<Rightarrow> (zone \<times> 'h) hstate option" where
  "zone_free ptr st = Some st"

definition zone_remove :: "u32 \<Rightarrow> (zone \<times> 'h) hstate \<Rightarrow> int \<times> (zone \<times> 'h) hstate" where
  "zone_remove ptr st = (0, st)"

text \<open>The destructor: the past arenas are freed one by one, then the current one.\<close>

fun zone_delete_past ::
  "(u32 \<Rightarrow> 'h hstate \<Rightarrow> 'h hstate option) \<Rightarrow> nat \<Rightarrow> u32 \<Rightarrow> 'h hstate \<Rightarrow> 'h hstate option" where
  "zone_delete_past sfree 0 ptr st = None"
| "zone_delete_past sfree (Suc n) ptr st =
     (if ptr = 0 then Some st
      else let oldPtr = ptr; ptr = ar_next (snd st) ptr
           in Option.bind (sfree oldPtr st) (zone_delete_past sfree n ptr))"

definition zone_delete ::
  "(u32 \<Rightarrow> 'h hstate \<Rightarrow> 'h hstate option) \<Rightarrow> nat \<Rightarrow> (zone \<times> 'h) hstate \<Rightarrow> 'h hstate option" where
  "zone_delete sfree n = (\<lambda>((z, h), m).
     Option.bind (zone_delete_past sfree n (zn_past z) (h, m))
       (\<lambda>st. if zn_current z \<noteq> 0 then sfree (zn_current z) st else Some st))"

section \<open>Layout of the arenas\<close>

definition in_arena :: "block \<Rightarrow> block \<Rightarrow> bool" where
  "in_arena b ar \<longleftrightarrow> unat (fst ar) + 16 \<le> unat (fst b) \<and> unat (fst b) + snd b \<le> unat (fst ar) + snd ar"

text \<open>
  The live blocks \<open>L\<close> lie in the arenas \<open>A\<close> behind their headers, those in the current arena
  below its bump pointer, and what remains of the current arena reaches up to its end.
\<close>

definition zone_layout :: "block set \<Rightarrow> block set \<Rightarrow> u32 \<Rightarrow> u32 \<Rightarrow> u32 \<Rightarrow> bool" where
  "zone_layout A L cur space remaining \<longleftrightarrow>
     ok_blocks A \<and> (\<forall>ar \<in> A. 16 \<le> snd ar) \<and> ok_blocks L \<and>
     (\<forall>b \<in> L. 0 < snd b \<and> (\<exists>ar \<in> A. in_arena b ar \<and> (fst ar = cur \<longrightarrow> unat (fst b) + snd b \<le> unat space))) \<and>
     (cur \<noteq> 0 \<longrightarrow> (\<exists>n. (cur, n) \<in> A \<and> unat cur + 16 \<le> unat space \<and>
        unat space + unat remaining = unat cur + n \<and> 8 dvd unat space))"

definition zone_inv :: "('h hstate \<Rightarrow> block set \<Rightarrow> bool) \<Rightarrow> (zone \<times> 'h) hstate \<Rightarrow> block set \<Rightarrow> bool" where
  "zone_inv sinv = (\<lambda>((z, h), m) L. \<exists>A. sinv (h, m) A \<and>
     zone_layout A L (zn_current z) (ar_space m (zn_current z)) (ar_remaining m (zn_current z)))"

lemma arena_apart: "ok_blocks A \<Longrightarrow> ar \<in> A \<Longrightarrow> br \<in> A \<Longrightarrow> x \<in> blk ar \<Longrightarrow> x \<in> blk br \<Longrightarrow> ar = br"
  using ok_blocks_apart [of A ar br] by blast

lemma in_arena_blk: "in_arena b ar \<Longrightarrow> blk b \<subseteq> blk ar"
  by (auto simp: in_arena_def blk_def)

lemma zone_layout_arena:
  assumes "zone_layout A L cur space rem" and "b \<in> L"
  obtains ar where "ar \<in> A" and "in_arena b ar" and "fst ar = cur \<longrightarrow> unat (fst b) + snd b \<le> unat space"
  using assms unfolding zone_layout_def by blast

lemma zone_layoutD:
  assumes "zone_layout A L cur space rem"
  shows "ok_blocks A" and "ok_blocks L" and "ar \<in> A \<Longrightarrow> 16 \<le> snd ar" and "b \<in> L \<Longrightarrow> 0 < snd b"
  using assms unfolding zone_layout_def by blast+

lemma zone_covered:
  assumes "zone_layout A L cur space rem" and "covered L a"
  shows "covered A a"
proof -
  obtain b where b: "b \<in> L" "unat a \<in> blk b" using assms(2) unfolding covered_def by blast
  obtain ar where "ar \<in> A" "in_arena b ar" using zone_layout_arena [OF assms(1) b(1)] by blast
  with b(2) in_arena_blk show ?thesis unfolding covered_def by blast
qed

text \<open>The header words of an arena.\<close>

lemma header_word:
  assumes "ok_blocks A" and "(a, n) \<in> A" and "16 \<le> n" and "i < 16"
  shows "unat (a + of_nat i) = unat a + i" and "unat (a + of_nat i) \<in> blk (a, n)" and "covered A (a + of_nat i)"
proof -
  have "unat a + n < 2 ^ 32" using assms(1,2) by (auto simp: ok_blocks_def ok_block_def)
  then show u: "unat (a + of_nat i) = unat a + i"
    using assms(3,4) by (subst unat_add_nowrap) (auto simp: unat_of_nat32)
  then show "unat (a + of_nat i) \<in> blk (a, n)" using assms(3,4) by (simp add: blk_def)
  then show "covered A (a + of_nat i)" using assms(2) unfolding covered_def by blast
qed

lemma header_not_covered:
  assumes l: "zone_layout A L cur space rem" and a: "(a, n) \<in> A" and i: "i < 16"
  shows "\<not> covered L (a + of_nat i)"
proof
  have A: "ok_blocks A" "16 \<le> n" using zone_layoutD [OF l] a by fastforce+
  note h = header_word [OF A(1) a A(2) i]
  assume "covered L (a + of_nat i)"
  then obtain b where b: "b \<in> L" "unat (a + of_nat i) \<in> blk b" unfolding covered_def by blast
  obtain ar where ar: "ar \<in> A" "in_arena b ar" using zone_layout_arena [OF l b(1)] by blast
  have "ar = (a, n)" using arena_apart [OF A(1) ar(1) a _ h(2)] in_arena_blk [OF ar(2)] b(2) by blast
  with b(2) ar(2) h(1) i show False by (auto simp: in_arena_def blk_def)
qed

lemma header_cells:
  assumes "zone_layout A L cur space rem" and "(a, n) \<in> A" and "covered L c"
  shows "c \<noteq> a" and "c \<noteq> a + 4" and "c \<noteq> a + 8"
  using header_not_covered [OF assms(1,2), of 0] header_not_covered [OF assms(1,2), of 4]
    header_not_covered [OF assms(1,2), of 8] assms(3) by auto

lemma header_covered:
  assumes "ok_blocks A" and "(a, n) \<in> A" and "16 \<le> n"
  shows "covered A a" and "covered A (a + 4)" and "covered A (a + 8)"
  using header_word(3) [OF assms, of 0] header_word(3) [OF assms, of 4] header_word(3) [OF assms, of 8] by simp_all

section \<open>Allocation keeps the layout\<close>

lemma zone_layout_take:
  assumes l: "zone_layout A L cur space rem" and cur: "cur \<noteq> 0" and s: "unat s \<le> unat rem"
    and n: "0 < n" "n \<le> unat s" and d: "8 dvd unat s"
  shows "zone_layout A (insert (space, n) L) cur (space + s) (rem - s)"
    and "(space, n) \<notin> L" and "space \<noteq> 0"
proof -
  obtain k where k: "(cur, k) \<in> A" "unat cur + 16 \<le> unat space" "unat space + unat rem = unat cur + k"
      "8 dvd unat space" using l cur by (auto simp: zone_layout_def)
  have A: "ok_blocks A" "16 \<le> k" using zone_layoutD [OF l] k(1) by fastforce+
  then have bound: "unat cur + k < 2 ^ 32" using k(1) by (auto simp: ok_blocks_def ok_block_def)
  have u: "unat (space + s) = unat space + unat s" "unat (rem - s) = unat rem - unat s"
    using bound k(3) s by (auto simp: unat_sub word_le_nat_alt intro!: unat_add_nowrap)
  show s0: "space \<noteq> 0" using k(2) by auto
  have ia: "in_arena (space, n) (cur, k)" using k s n by (simp add: in_arena_def)
  have apart: "blk (space, n) \<inter> blk b = {}" if bL: "b \<in> L" for b
  proof -
    obtain ar where ar: "ar \<in> A" "in_arena b ar" "fst ar = cur \<longrightarrow> unat (fst b) + snd b \<le> unat space"
      using zone_layout_arena [OF l bL] by blast
    show ?thesis
    proof (cases "ar = (cur, k)")
      case True
      then show ?thesis using ar by (auto simp: blk_def)
    next
      case False
      then have "blk ar \<inter> blk (cur, k) = {}" using ok_blocks_apart [OF A(1) ar(1) k(1)] by blast
      then show ?thesis using in_arena_blk [OF ia] in_arena_blk [OF ar(2)] by blast
    qed
  qed
  show nl: "(space, n) \<notin> L"
  proof
    assume "(space, n) \<in> L"
    from apart [OF this] n(1) show False by (simp add: blk_def)
  qed
  have "ok_block (space, n)" using s0 k bound s n by (auto simp: ok_block_def)
  then have "ok_blocks (insert (space, n) L)" using l apart by (auto simp: ok_blocks_insert zone_layout_def)
  moreover have "\<exists>ar \<in> A. in_arena b ar \<and> (fst ar = cur \<longrightarrow> unat (fst b) + snd b \<le> unat (space + s))"
    if "b \<in> insert (space, n) L" for b
  proof (cases "b = (space, n)")
    case True
    then show ?thesis using ia k(1) u(1) n by (intro bexI [of _ "(cur, k)"]) auto
  next
    case False
    then show ?thesis using that l u(1) by (fastforce simp: zone_layout_def)
  qed
  ultimately show "zone_layout A (insert (space, n) L) cur (space + s) (rem - s)"
    using l k u s d n(1) by (auto simp: zone_layout_def)
qed

lemma zone_layout_new:
  assumes l: "zone_layout A L cur space rem" and A: "ok_blocks (insert (buf, 16 + unat alloc) A)"
    and b: "buf \<noteq> 0" "(buf, 16 + unat alloc) \<notin> A"
  shows "zone_layout (insert (buf, 16 + unat alloc) A) L buf (buf + 16) alloc"
proof -
  have u: "unat (buf + 16) = unat buf + 16"
    using A by (subst unat_add_nowrap) (auto simp: ok_blocks_insert ok_block_def)
  have d: "8 dvd unat buf" using A by (auto simp: ok_blocks_insert ok_block_def)
  have "fst ar \<noteq> buf" if "ar \<in> A" for ar
  proof
    assume "fst ar = buf"
    then have "ar \<noteq> (buf, 16 + unat alloc)" "unat buf \<in> blk ar"
      using that b(2) l by (auto simp: blk_def zone_layout_def)
    then show False using A that by (auto simp: ok_blocks_insert blk_def)
  qed
  then have "\<exists>ar \<in> insert (buf, 16 + unat alloc) A. in_arena b ar \<and> (fst ar = buf \<longrightarrow> unat (fst b) + snd b \<le> unat (buf + 16))"
    if "b \<in> L" for b using zone_layout_arena [OF l that] by blast
  then show ?thesis using zone_layoutD [OF l] A u d unfolding zone_layout_def by simp
qed

lemma zone_layout_retire: "zone_layout A L cur space rem \<Longrightarrow> zone_layout A L 0 space' rem'"
  unfolding zone_layout_def by (auto simp: ok_blocks_def ok_block_def)

lemma zone_layout_mono: "zone_layout A L cur space rem \<Longrightarrow> K \<subseteq> L \<Longrightarrow> zone_layout A K cur space rem"
  unfolding zone_layout_def by (auto intro: ok_blocks_mono)

section \<open>The zone heap as a source heap\<close>

text \<open>The requests it serves.\<close>

definition zone_ok :: "(u32 \<Rightarrow> bool) \<Rightarrow> u32 \<Rightarrow> u32 \<Rightarrow> bool" where
  "zone_ok ok ChunkSize sz \<longleftrightarrow> 0 < sz \<and> unat sz + 7 < 2 ^ 32 \<and>
     unat (arena_size ChunkSize (zone_align sz)) + 16 < 2 ^ 32 \<and>
     ok (sizeof_Arena + arena_size ChunkSize (zone_align sz))"

lemma unat_zone_align: "unat sz + 7 < 2 ^ 32 \<Longrightarrow> unat (zone_align sz) = round_up 8 (unat sz)"
proof -
  assume "unat sz + 7 < 2 ^ 32"
  then have "unat (sz + 7) = unat sz + 7" by (subst unat_add_nowrap) auto
  then have "unat ((sz + 7) AND NOT (mask 3)) = round_up 8 (unat sz)"
    by (simp only: unat_and_not_mask) (simp add: round_up_def)
  then show ?thesis by (simp add: zone_align_def sizeof_double_def mask_eq_exp_minus_1)
qed

lemma arena_size_ge: "sz \<le> arena_size ChunkSize sz"
  by (auto simp: arena_size_def Let_def not_less)

lemma Arena_malloc_take:
  "s \<le> ar_remaining m a \<Longrightarrow> Arena_malloc a s m = (ar_space m a, m(a := ar_remaining m a - s, a + 8 := ar_space m a + s))"
  by (simp add: Arena_malloc_def ar_remaining_def ar_space_def Let_def not_less [symmetric])

text \<open>Taking a block from the current arena.\<close>

context source_heap
begin

lemma zone_take:
  assumes i: "inv (h, m) A" and l: "zone_layout A L cur (ar_space m cur) (ar_remaining m cur)"
    and cur: "cur \<noteq> 0" and s: "s \<le> ar_remaining m cur" "0 < n" "n \<le> unat s" "8 dvd unat s"
  shows "\<exists>p m'. Arena_malloc cur s m = (p, m') \<and> p \<noteq> 0 \<and> (p, n) \<notin> L \<and> inv (h, m') A \<and>
    zone_layout A (insert (p, n) L) cur (ar_space m' cur) (ar_remaining m' cur) \<and>
    (\<forall>a. covered L a \<longrightarrow> m' a = m a)"
proof -
  let ?m = "m(cur := ar_remaining m cur - s, cur + 8 := ar_space m cur + s)"
  obtain k where k: "(cur, k) \<in> A" using l cur unfolding zone_layout_def by blast
  have A: "ok_blocks A" "16 \<le> k" using zone_layoutD [OF l] k by fastforce+
  note c = header_covered [OF A(1) k A(2)]
  have "inv (h, ?m) A" by (intro inv_write i c)
  moreover have "\<forall>a. covered L a \<longrightarrow> ?m a = m a" using header_cells [OF l k] by auto
  moreover have "ar_space ?m cur = ar_space m cur + s" "ar_remaining ?m cur = ar_remaining m cur - s"
    by (simp_all add: ar_space_def ar_remaining_def)
  ultimately show ?thesis
    using zone_layout_take [OF l cur _ s(2,3,4)] s(1) Arena_malloc_take [OF s(1)] by (simp add: word_le_nat_alt)
qed

theorem zone_source_heap:
  "source_heap (zone_malloc malloc ChunkSize) zone_free (zone_ok oksize ChunkSize) (zone_inv inv)"
proof unfold_locales
  fix st :: "(zone \<times> 'h) hstate" and L
  assume "zone_inv inv st L"
  then show "ok_blocks L" by (auto simp: zone_inv_def dest: zone_layoutD)
next
  fix st :: "(zone \<times> 'h) hstate" and L sz
  assume i: "zone_inv inv st L" and ok: "zone_ok oksize ChunkSize sz"
  obtain z h m where st: "st = ((z, h), m)" by (metis surj_pair)
  define s where "s = zone_align sz"
  have s: "0 < unat sz" "unat sz \<le> unat s" "8 dvd unat s"
    using ok unat_zone_align [of sz] round_up_ge [of 8 "unat sz"] by (auto simp: zone_ok_def s_def word_less_nat_alt)
  obtain A where A: "inv (h, m) A" "zone_layout A L (zn_current z) (ar_space m (zn_current z)) (ar_remaining m (zn_current z))"
    using i by (auto simp: zone_inv_def st)
  show "\<exists>p st'. zone_malloc malloc ChunkSize sz st = Some (p, st') \<and>
      (if p = 0 then zone_inv inv st' L
       else zone_inv inv st' (insert (p, unat sz) L) \<and> (p, unat sz) \<notin> L) \<and>
      (\<forall>a. covered L a \<longrightarrow> snd st' a = snd st a)"
  proof (cases "zn_current z \<noteq> 0 \<and> ar_remaining m (zn_current z) \<ge> s")
    case True
    then obtain p m' where p: "Arena_malloc (zn_current z) s m = (p, m')" "p \<noteq> 0" "(p, unat sz) \<notin> L" "inv (h, m') A"
      "zone_layout A (insert (p, unat sz) L) (zn_current z) (ar_space m' (zn_current z)) (ar_remaining m' (zn_current z))"
      "\<forall>a. covered L a \<longrightarrow> m' a = m a"
      using zone_take [OF A _ _ s] by blast
    then have "zone_inv inv ((z, h), m') (insert (p, unat sz) L)" by (auto simp: zone_inv_def)
    moreover have "zone_malloc malloc ChunkSize sz st = Some (p, ((z, h), m'))"
      using True p(1) by (simp add: zone_malloc_def st Let_def s_def [symmetric])
    ultimately show ?thesis using p by (intro exI [of _ p] exI [of _ "((z, h), m')"]) (simp add: st)
  next
    case False
    define alloc where "alloc = arena_size ChunkSize s"
    have oka: "oksize (sizeof_Arena + alloc)" and ua: "unat (sizeof_Arena + alloc) = 16 + unat alloc"
      using ok unfolding zone_ok_def alloc_def s_def
      by (auto simp: sizeof_Arena_def unat_add_nowrap)
    obtain z1 m1 where r: "zone_retire z m = (z1, m1)" by (cases "zone_retire z m")
    have r1: "inv (h, m1) A" "zn_current z1 = 0" "\<forall>a. covered L a \<longrightarrow> m1 a = m a"
    proof -
      have "inv (h, m1) A \<and> (\<forall>a. covered L a \<longrightarrow> m1 a = m a)"
      proof (cases "zn_current z = 0")
        case True
        then show ?thesis using r A(1) by (simp add: zone_retire_def)
      next
        case False
        then obtain k where k: "(zn_current z, k) \<in> A" using A(2) unfolding zone_layout_def by blast
        have b: "ok_blocks A" "16 \<le> k" using zone_layoutD [OF A(2)] k by fastforce+
        show ?thesis using r False header_cells [OF A(2) k] inv_write [OF A(1) header_covered(2) [OF b(1) k b(2)]]
          by (auto simp: zone_retire_def setNextArena_def)
      qed
      then show "inv (h, m1) A" "\<forall>a. covered L a \<longrightarrow> m1 a = m a" by blast+
      show "zn_current z1 = 0" using r by (auto simp: zone_retire_def split: if_splits)
    qed
    have zm: "zone_malloc malloc ChunkSize sz st = map_option (\<lambda>(buf, (h, m)).
          if buf = 0 then (0, ((z1, h), m))
          else let m = Arena_new buf alloc m; (ptr, m) = Arena_malloc buf s m
               in (ptr, ((z1\<lparr>zn_current := buf\<rparr>, h), m))) (malloc (sizeof_Arena + alloc) (h, m1))"
    proof -
      have "zone_malloc malloc ChunkSize sz st = zone_slowMalloc malloc ChunkSize s ((z, h), m)"
        unfolding zone_malloc_def st Let_def prod.case s_def [symmetric] using False by (rule if_not_P)
      then show ?thesis by (simp add: zone_slowMalloc_def r Let_def alloc_def [symmetric])
    qed
    from r1(1) oka show ?thesis
    proof (cases rule: malloc_cases)
      case (null st')
      have "zone_inv inv ((z1, fst st'), snd st') L"
        using null(2) zone_layout_retire [OF A(2)] r1(2) by (auto simp: zone_inv_def)
      moreover have "\<forall>a. covered L a \<longrightarrow> snd st' a = m a" using null(3) r1(3) zone_covered [OF A(2)] by simp
      ultimately show ?thesis using null(1) zm
        by (intro exI [of _ 0] exI [of _ "((z1, fst st'), snd st')"]) (simp add: case_prod_unfold st)
    next
      case (block buf st')
      obtain h2 m2 where st2: "st' = (h2, m2)" by (cases st')
      let ?A = "insert (buf, 16 + unat alloc) A" and ?m3 = "Arena_new buf alloc m2"
      have i2: "inv (h2, m2) ?A" and nA: "(buf, 16 + unat alloc) \<notin> A" using block(3,4) by (simp_all add: st2 ua)
      have okA: "ok_blocks ?A" by (rule inv_blocks [OF i2])
      note c = header_covered [OF okA insertI1 le_add1]
      have i3: "inv (h2, ?m3) ?A" unfolding Arena_new_def by (intro inv_write i2 c)
      have f: "ar_space ?m3 buf = buf + 16" "ar_remaining ?m3 buf = alloc"
        by (simp_all add: Arena_new_def ar_space_def ar_remaining_def sizeof_Arena_def)
      have l3: "zone_layout ?A L buf (ar_space ?m3 buf) (ar_remaining ?m3 buf)"
        unfolding f by (rule zone_layout_new [OF A(2) okA block(2) nA])
      have "s \<le> ar_remaining ?m3 buf" using f(2) arena_size_ge [of s ChunkSize] by (simp add: alloc_def)
      from zone_take [OF i3 l3 block(2) this s] obtain p m4 where p: "Arena_malloc buf s ?m3 = (p, m4)" "p \<noteq> 0"
        "(p, unat sz) \<notin> L" "inv (h2, m4) ?A"
        "zone_layout ?A (insert (p, unat sz) L) buf (ar_space m4 buf) (ar_remaining m4 buf)"
        "\<forall>a. covered L a \<longrightarrow> m4 a = ?m3 a" by blast
      have "zone_inv inv ((z1\<lparr>zn_current := buf\<rparr>, h2), m4) (insert (p, unat sz) L)"
        using p(4,5) by (auto simp: zone_inv_def)
      moreover have "m4 a = m a" if "covered L a" for a
      proof -
        have "?m3 a = m2 a" using header_cells [OF l3 insertI1 that] by (simp add: Arena_new_def)
        moreover have "m2 a = m1 a" using block(5) zone_covered [OF A(2) that] by (simp add: st2)
        ultimately show ?thesis using p(6) r1(3) that by simp
      qed
      ultimately show ?thesis using block(1,2) p(1,2,3) zm
        by (intro exI [of _ p] exI [of _ "((z1\<lparr>zn_current := buf\<rparr>, h2), m4)"]) (simp add: st2 st Let_def)
    qed
  qed
next
  fix st :: "(zone \<times> 'h) hstate" and L p n
  assume "zone_inv inv st L" and "(p, n) \<in> L"
  then show "\<exists>st'. zone_free p st = Some st' \<and> zone_inv inv st' (L - {(p, n)}) \<and>
      (\<forall>a. covered (L - {(p, n)}) a \<longrightarrow> snd st' a = snd st a)"
    by (auto simp: zone_free_def zone_inv_def intro: zone_layout_mono)
next
  fix zh :: "zone \<times> 'h" and m m' :: hmem and L
  assume i: "zone_inv inv (zh, m) L" and fr: "\<And>a. \<not> covered L a \<Longrightarrow> m' a = m a"
  obtain z h where zh: "zh = (z, h)" by (cases zh)
  obtain A where A: "inv (h, m) A" "zone_layout A L (zn_current z) (ar_space m (zn_current z)) (ar_remaining m (zn_current z))"
    using i by (auto simp: zone_inv_def zh)
  have "inv (h, m') A" using zone_covered [OF A(2)] by (intro inv_frame [OF A(1)] fr) blast
  moreover have "zone_layout A L (zn_current z) (ar_space m' (zn_current z)) (ar_remaining m' (zn_current z))"
  proof (cases "zn_current z = 0")
    case True
    then show ?thesis using zone_layout_retire [OF A(2)] by simp
  next
    case False
    then obtain k where k: "(zn_current z, k) \<in> A" using A(2) unfolding zone_layout_def by blast
    have "m' (zn_current z) = m (zn_current z)" "m' (zn_current z + 8) = m (zn_current z + 8)"
      using header_cells [OF A(2) k] by (blast intro: fr)+
    then show ?thesis using A(2) by (simp add: ar_space_def ar_remaining_def)
  qed
  ultimately show "zone_inv inv (zh, m') L" by (auto simp: zone_inv_def zh)
qed

end

context object_heap
begin

lemma freelist_run:
  assumes "freelist_inv inv k st L" and "requests ops \<subseteq> {k}" and "\<And>a. covered L a \<Longrightarrow> snd st a = sh a"
  shows "\<exists>st' L' sh'. hrun (FreelistHeap_malloc malloc) FreelistHeap_free ops (st, L, sh) = Some (st', L', sh') \<and>
    ok_blocks L' \<and> (\<forall>a. covered L' a \<longrightarrow> snd st' a = sh' a)"
  using freelist.hrun_safe [OF assms(1), of ops sh] assms(2,3) freelist.inv_blocks by blast

end

section \<open>Property\<close>

text \<open>C25: a client of \<open>FreelistHeap<ZoneHeap<Super, ChunkSize> >\<close> that allocates objects of one size, writes into
  them and frees them never gets overlapping live blocks and finds in every live block what it last
  wrote there, although the free list keeps its links inside the freed objects.\<close>

theorem freelist_clients_safe:
  assumes "source_heap smalloc sfree sok sinv" and "sinv (h, m) {}"
    and "zone_ok sok ChunkSize k" and "4 \<le> unat k" and "requests ops \<subseteq> {k}"
  shows "\<exists>st' L' sh'. hrun (FreelistHeap_malloc (zone_malloc smalloc ChunkSize)) FreelistHeap_free ops
      (((0, zone_new, h), m), {}, m) = Some (st', L', sh') \<and>
    ok_blocks L' \<and> (\<forall>a. covered L' a \<longrightarrow> snd st' a = sh' a)"
proof -
  have o: "object_heap (zone_malloc smalloc ChunkSize) zone_free (zone_ok sok ChunkSize) (zone_inv sinv) k"
    by (intro object_heap.intro source_heap.zone_source_heap [OF assms(1)] object_heap_axioms.intro assms(3,4))
  have "zone_inv sinv ((zone_new, h), m) {}"
    using assms(2) by (auto simp: zone_inv_def zone_layout_def zone_new_def intro!: exI [of _ "{}"])
  then have i: "freelist_inv (zone_inv sinv) k ((0, zone_new, h), m) {}"
    by (auto simp: freelist_inv_def sl_repr_def intro!: exI [of _ "[]"])
  show ?thesis by (rule object_heap.freelist_run [OF o i assms(5)]) (simp add: covered_def)
qed

theorem freelist_clients_safe_witness:
  "\<exists>st' L' sh'. hrun (FreelistHeap_malloc (zone_malloc bump_malloc 4096)) FreelistHeap_free
      [HMalloc 24, HMalloc 24, HWrite 0x1018 7, HFree 0x1010 24, HMalloc 24]
      (((0, zone_new, bump_new 0x1000 0x10000), \<lambda>_. 0), {}, \<lambda>_. 0) = Some (st', L', sh') \<and>
    ok_blocks L' \<and> (\<forall>a. covered L' a \<longrightarrow> snd st' a = sh' a)"
  by (rule freelist_clients_safe [OF bump.source_heap_axioms, where k = 24])
    (simp_all add: bump_inv_def bump_new_def bump_sanity_def zone_ok_def bump_ok_def arena_size_def
      zone_align_def sizeof_double_def sizeof_Arena_def)

end
