(* ===== verification/Hl_Seg.thy ===== *)
theory Hl_Seg
  imports Hl_Zone
begin

text \<open>
  Segregated fits: \<open>heaplayers/segheap.h\<close> (\<open>SegHeap\<close> and \<open>StrictSegHeap\<close>), the size classes of
  \<open>heaplayers/kingsleyheap.h\<close>, \<open>heaplayers/bins4k.h\<close> and \<open>heaplayers/bins64k.h\<close>, the dictionary
  heap of \<open>heaplayers/adaptheap.h\<close>, and the object headers of \<open>include/warpheap.h\<close>. What a size-class
  table must satisfy is the locale \<open>size_classes\<close>.
\<close>

section \<open>The interface of a table of size classes\<close>

locale bin_classes =
  fixes getSizeClass :: "u32 \<Rightarrow> nat" and getClassMaxSize :: "nat \<Rightarrow> u32" and NumBins :: nat
  assumes bins_pos: "0 < NumBins"
    and class_lt: "sz \<le> getClassMaxSize (NumBins - 1) \<Longrightarrow> getSizeClass sz < NumBins"
    and class_fits: "sz \<le> getClassMaxSize (NumBins - 1) \<Longrightarrow> sz \<le> getClassMaxSize (getSizeClass sz)"

locale size_classes = bin_classes +
  assumes class_least: "sz \<le> getClassMaxSize (NumBins - 1) \<Longrightarrow> i < getSizeClass sz \<Longrightarrow> getClassMaxSize i < sz"
begin

text \<open>The class of a size is the least one whose objects are large enough.\<close>

lemma class_is_Least:
  "sz \<le> getClassMaxSize (NumBins - 1) \<Longrightarrow> getSizeClass sz = (LEAST i. sz \<le> getClassMaxSize i)"
  by (rule Least_equality [symmetric], erule class_fits) (meson class_least leD leI)

end

section \<open>Kingsley's classes\<close>

definition cl :: "nat list" where "cl = [0, 1, 2, 2, 3, 3, 3, 3, 4, 4, 4, 4, 4, 4, 4, 4]"

lemma unat_drop1: "unat (drop_bit n (x :: u32)) = unat x div 2 ^ n"
  unfolding unat_drop_bit_eq by (rule drop_bit_eq_div)

function size2Class_loop :: "nat \<Rightarrow> u32 \<Rightarrow> nat" where
  "size2Class_loop c sz1 = (if sz1 > 7 then size2Class_loop (Suc c) (drop_bit 1 sz1) else c)"
  by pat_completeness auto
termination
proof (relation "measure (\<lambda>(c, sz1). unat sz1)")
  fix c and sz1 :: u32
  assume "7 < sz1"
  then have "0 < unat sz1" by (simp add: word_less_nat_alt)
  then show "((Suc c, drop_bit 1 sz1), (c, sz1)) \<in> measure (\<lambda>(c, sz1). unat sz1)"
    by (simp add: unat_drop1 del: drop_bit_eq_div)
qed simp

declare size2Class_loop.simps [simp del]

definition size2Class :: "u32 \<Rightarrow> nat" where
  "size2Class sz =
     (let sz = (if sz < sizeof_double then sizeof_double else sz)
      in if sz \<le> 128 then cl ! unat (drop_bit 3 (sz - 1))
         else let c = 5; sz1 = drop_bit 5 (sz - 1) in size2Class_loop c sz1)"

definition class2Size :: "nat \<Rightarrow> u32" where
  "class2Size i = push_bit (i + 3) 1"

definition NUMBINS :: nat where "NUMBINS = 29"

lemma unat_class2Size: "i < 29 \<Longrightarrow> unat (class2Size i) = 2 ^ (i + 3)"
proof -
  assume "i < 29"
  then have "(2 :: nat) ^ (i + 3) < 2 ^ 32" by (intro power_strict_increasing) auto
  then have "unat (of_nat (2 ^ (i + 3)) :: u32) = 2 ^ (i + 3)" by (rule unat_of_nat32)
  then show ?thesis by (simp add: class2Size_def push_bit_eq_mult)
qed

lemma size2Class_loop_bound:
  "4 \<le> unat x \<Longrightarrow> \<exists>j. size2Class_loop c x = c + j \<and> 2 ^ (j + 2) \<le> unat x \<and> unat x < 2 ^ (j + 3)"
proof (induction c x rule: size2Class_loop.induct)
  case (1 c x)
  show ?case
  proof (cases "x > 7")
    case True
    then have "4 \<le> unat (drop_bit 1 x)" by (simp add: unat_drop1 word_less_nat_alt)
    from "1.IH" [OF True this] obtain j where
      j: "size2Class_loop (Suc c) (drop_bit 1 x) = Suc c + j" "2 ^ (j + 2) \<le> unat x div 2" "unat x div 2 < 2 ^ (j + 3)"
      by (auto simp: unat_drop1)
    have "size2Class_loop c x = c + Suc j" using True j(1) by (simp add: size2Class_loop.simps [of c x])
    moreover have "2 ^ (Suc j + 2) \<le> unat x" "unat x < 2 ^ (Suc j + 3)" using j(2,3)
      by (simp_all add: less_eq_div_iff_mult_less_eq div_less_iff_less_mult power_add)
    ultimately show ?thesis by blast
  next
    case False
    then have "size2Class_loop c x = c + 0" "unat x < 2 ^ (0 + 3)"
      by (simp_all add: size2Class_loop.simps [of c x] word_less_nat_alt)
    with "1.prems" show ?thesis by (intro exI [of _ 0]) simp
  qed
qed

lemma size2Class_bounds:
  assumes "unat sz \<le> 2 ^ 31"
  shows "size2Class sz < 29 \<and> unat sz \<le> 2 ^ (size2Class sz + 3) \<and> (0 < size2Class sz \<longrightarrow> 2 ^ (size2Class sz + 2) < unat sz)"
proof -
  define t where "t = (if sz < sizeof_double then sizeof_double else sz)"
  have t: "unat t = max 8 (unat sz)" "0 < unat t" by (auto simp: t_def sizeof_double_def word_less_nat_alt max_def)
  have t1: "unat (t - 1) = unat t - 1" using t(2) by (subst unat_sub) (auto simp: word_le_nat_alt)
  show ?thesis
  proof (cases "t \<le> 128")
    case True
    define i where "i = (unat t - 1) div 8"
    have i: "i < 16" "8 * i < unat t" "unat t \<le> 8 * i + 8"
      using True t by (auto simp: i_def word_le_nat_alt)
    have "size2Class sz = cl ! i"
      using True by (simp add: size2Class_def Let_def t_def [symmetric] unat_drop1 t1 i_def)
    moreover have "i \<in> set [0..<16]" using i(1) by simp
    then have "cl ! i < 29 \<and> 8 * i + 8 \<le> 2 ^ (cl ! i + 3) \<and> (0 < cl ! i \<longrightarrow> 2 ^ (cl ! i + 2) \<le> 8 * i)"
      by (simp only: upt_conv_Cons_Cons upt_rec [of 0 16]) (auto simp: cl_def upt_rec numeral_eq_Suc)
    ultimately show ?thesis using i t by (auto simp: max_def split: if_splits)
  next
    case False
    then have g: "128 < unat t" "unat t = unat sz" using t by (auto simp: word_le_nat_alt max_def split: if_splits)
    define x where "x = drop_bit 5 (t - 1)"
    have x: "unat x = (unat sz - 1) div 32" using t1 g by (simp add: x_def unat_drop1)
    have "4 \<le> unat x" using g x by simp
    from size2Class_loop_bound [OF this, of 5] obtain j where
      j: "size2Class_loop 5 x = 5 + j" "2 ^ (j + 2) \<le> unat x" "unat x < 2 ^ (j + 3)" by blast
    have s: "size2Class sz = 5 + j" using False j(1) by (simp add: size2Class_def Let_def t_def [symmetric] x_def)
    have "2 ^ (j + 2) * 32 \<le> unat sz - 1" using j(2) x by (simp add: less_eq_div_iff_mult_less_eq)
    moreover have "unat sz - 1 < 2 ^ (j + 3) * 32" using j(3) x by (simp add: div_less_iff_less_mult)
    ultimately have b: "2 ^ (j + 7) < unat sz" "unat sz \<le> 2 ^ (j + 8)" using g by (simp_all add: power_add)
    have "(2::nat) ^ (j + 7) < 2 ^ 31" using b(1) assms by linarith
    then have "j + 7 < 31" by (rule power_less_imp_less_exp [rotated]) simp
    then show ?thesis using s b by (simp add: power_add)
  qed
qed

interpretation kingsley: size_classes size2Class class2Size NUMBINS
proof
  fix sz i
  assume "sz \<le> class2Size (NUMBINS - 1)"
  then have b: "unat sz \<le> 2 ^ 31" by (simp add: word_le_nat_alt NUMBINS_def unat_class2Size)
  note B = size2Class_bounds [OF b]
  show "size2Class sz < NUMBINS" using B by (simp add: NUMBINS_def)
  show "sz \<le> class2Size (size2Class sz)" using B by (simp add: word_le_nat_alt unat_class2Size)
  assume i: "i < size2Class sz"
  then have "(2::nat) ^ (i + 3) \<le> 2 ^ (size2Class sz + 2)" by (intro power_increasing) auto
  with B i show "class2Size i < sz" by (simp add: word_less_nat_alt unat_class2Size)
qed (simp add: NUMBINS_def)

section \<open>The tables \<open>bins<Header, 4096>\<close> and \<open>bins<Header, 65536>\<close>\<close>

text \<open>The loop of both slow lookups: the first entry that is large enough.\<close>

fun slowLookup :: "u32 list \<Rightarrow> u32 \<Rightarrow> nat \<Rightarrow> nat" where
  "slowLookup [] sz sizeclass = sizeclass"
| "slowLookup (b # bs) sz sizeclass = (if b < sz then slowLookup bs sz (Suc sizeclass) else sizeclass)"

text \<open>\<open>hs\<close> is \<open>sizeof(Header)\<close>.\<close>

definition bins4k :: "u32 \<Rightarrow> u32 list" where
  "bins4k hs = [8, 16, 24, 32, 40, 48, 56, 64, 72, 80, 88, 96, 104, 112, 120, 128, 152, 176, 208, 248, 296,
     352, 416, 496, 592, 704, 856, 1024, 1224, 1712, 2048, 3416, 4096 - hs]"

definition bins4k_getSizeClass :: "u32 \<Rightarrow> u32 \<Rightarrow> nat" where
  "bins4k_getSizeClass hs sz =
     (if sz < 8 then 0
      else if sz \<le> 128 then unat (drop_bit 3 (sz + 7)) - 1
      else slowLookup (bins4k hs) sz 0)"

definition bins4k_getClassSize :: "u32 \<Rightarrow> nat \<Rightarrow> u32" where
  "bins4k_getClassSize hs i = bins4k hs ! i"

definition bins64k :: "u32 \<Rightarrow> u32 list" where
  "bins64k hs = [8, 16, 24, 32, 40, 48, 56, 64, 72, 80, 96, 112, 128, 152, 176, 208, 248, 296, 352, 416, 496,
     592, 704, 840, 1008, 1208, 1448, 1736, 2080, 2496, 2992, 3584, 4096 - hs, 4912, 5888, 7064, 8192 - hs,
     9824, 11784, 12288 - hs, 14744, 16384 - hs, 19656, 20480 - hs, 24576 - hs, 28672 - hs, 32768 - hs,
     36864 - hs, 40960 - hs, 45056 - hs, 49152 - hs, 53248 - hs, 57344 - hs, 61440 - hs, 65536 - hs]"

definition bins64k_getSizeClass :: "u32 \<Rightarrow> u32 \<Rightarrow> nat" where
  "bins64k_getSizeClass hs sz =
     (let sz = (if sz < sizeof_double then sizeof_double else sz)
      in if sz \<le> 80 then unat (drop_bit 3 (sz - 1)) else slowLookup (bins64k hs) sz 0)"

definition bins64k_getClassSize :: "u32 \<Rightarrow> nat \<Rightarrow> u32" where
  "bins64k_getClassSize hs i = bins64k hs ! i"

text \<open>The lookup in a strictly ascending table finds the least class that is large enough.\<close>

lemma slowLookup_spec:
  "\<exists>b \<in> set bs. sz \<le> b \<Longrightarrow>
   \<exists>i < length bs. slowLookup bs sz c = c + i \<and> sz \<le> bs ! i \<and> (\<forall>j < i. bs ! j < sz)"
proof (induction bs arbitrary: c)
  case (Cons b bs)
  show ?case
  proof (cases "b < sz")
    case True
    with Cons.prems have "\<exists>b \<in> set bs. sz \<le> b" by auto
    from Cons.IH [OF this, of "Suc c"] obtain i where
      i: "i < length bs" "slowLookup bs sz (Suc c) = Suc c + i" "sz \<le> bs ! i" "\<forall>j < i. bs ! j < sz" by blast
    have "(b # bs) ! j < sz" if "j < Suc i" for j using that True i(4) by (cases j) auto
    with True i show ?thesis by (intro exI [of _ "Suc i"]) auto
  next
    case False
    then show ?thesis by (intro exI [of _ 0]) (auto simp: not_less)
  qed
qed simp

text \<open>A table whose first \<open>k\<close> entries are the multiples of 8, and whose fast path serves them.\<close>

lemma multiples_table:
  fixes sz :: u32
  assumes t: "take k bs = map (\<lambda>i. of_nat (8 * (i + 1))) [0 ..< k]" and k: "k \<le> length bs" "0 < k" "k < 1000"
    and sz: "0 < unat sz" "unat sz \<le> 8 * k"
  shows "(unat sz - 1) div 8 < length bs \<and> sz \<le> bs ! ((unat sz - 1) div 8) \<and>
    (\<forall>j < (unat sz - 1) div 8. bs ! j < sz)"
proof -
  have nth: "bs ! i = of_nat (8 * (i + 1))" if "i < k" for i
    using that k(1) arg_cong [OF t, of "\<lambda>l. l ! i"] by simp
  have u: "unat (bs ! i) = 8 * (i + 1)" if "i < k" for i
    unfolding nth [OF that] using that k(3) by (intro unat_of_nat32) simp
  let ?i = "(unat sz - 1) div 8"
  have i: "?i < k" "unat sz \<le> 8 * (?i + 1)" "8 * ?i < unat sz" using sz k(2) by simp_all
  have "bs ! j < sz" if "j < ?i" for j
    using u [of j] that i by (simp add: word_less_nat_alt)
  then show ?thesis using i k(1) u [OF i(1)] by (simp add: word_le_nat_alt)
qed

lemma length_bins: "length (bins4k hs) = 33" "length (bins64k hs) = 55"
  by (simp_all add: bins4k_def bins64k_def)

lemma bins_last: "4088 \<in> set (bins4k 8)" "65528 \<in> set (bins64k 8)"
  "bins4k 8 ! 32 = 4088" "bins64k 8 ! 54 = 65528" "bins4k 8 ! 0 = 8"
  by (simp_all add: bins4k_def bins64k_def)

lemma bins_multiples:
  "take 16 (bins4k 8) = map (\<lambda>i. of_nat (8 * (i + 1))) [0 ..< 16]"
  "take 10 (bins64k 8) = map (\<lambda>i. of_nat (8 * (i + 1))) [0 ..< 10]"
  by (simp_all add: bins4k_def bins64k_def upt_rec)

lemma bins4k_least:
  assumes "sz \<le> 4088"
  shows "bins4k_getSizeClass 8 sz < 33 \<and> sz \<le> bins4k 8 ! bins4k_getSizeClass 8 sz \<and>
    (\<forall>j < bins4k_getSizeClass 8 sz. bins4k 8 ! j < sz)"
proof -
  consider (tiny) "sz < 8" | (small) "\<not> sz < 8" "sz \<le> 128" | (large) "\<not> sz < 8" "\<not> sz \<le> 128" by blast
  then show ?thesis
  proof cases
    case tiny
    then show ?thesis by (simp add: bins4k_getSizeClass_def bins_last)
  next
    case large
    from bins_last(1) assms have "\<exists>b \<in> set (bins4k 8). sz \<le> b" by blast
    from slowLookup_spec [OF this, of 0] large show ?thesis
      unfolding length_bins by (auto simp: bins4k_getSizeClass_def)
  next
    case small
    then have s: "8 \<le> unat sz" "unat sz \<le> 128" by (simp_all add: word_less_nat_alt word_le_nat_alt)
    have "unat (sz + 7) = unat sz + 7" using s by (subst unat_add_nowrap) auto
    then have "bins4k_getSizeClass 8 sz = (unat sz + 7) div 8 - 1"
      using small by (simp add: bins4k_getSizeClass_def unat_drop1)
    also have "\<dots> = (unat sz - 1) div 8" using s by simp
    finally show ?thesis using multiples_table [OF bins_multiples(1), of sz] s by (simp add: length_bins)
  qed
qed

lemma bins64k_least:
  assumes "sz \<le> 65528"
  shows "bins64k_getSizeClass 8 sz < 55 \<and> sz \<le> bins64k 8 ! bins64k_getSizeClass 8 sz \<and>
    (\<forall>j < bins64k_getSizeClass 8 sz. bins64k 8 ! j < sz)"
proof -
  define t where "t = (if sz < sizeof_double then sizeof_double else sz)"
  have ut: "unat t = max 8 (unat sz)" by (auto simp: t_def sizeof_double_def word_less_nat_alt max_def)
  show ?thesis
  proof (cases "t \<le> 80")
    case False
    then have e: "t = sz" by (auto simp: t_def sizeof_double_def split: if_splits)
    from bins_last(2) assms have "\<exists>b \<in> set (bins64k 8). sz \<le> b" by blast
    from slowLookup_spec [OF this, of 0] False show ?thesis
      unfolding bins64k_getSizeClass_def Let_def t_def [symmetric] length_bins by (auto simp: e)
  next
    case True
    have t1: "unat (t - 1) = unat t - 1" using ut by (subst unat_sub) (auto simp: word_le_nat_alt)
    have c: "bins64k_getSizeClass 8 sz = (unat t - 1) div 8" using True
      by (simp add: bins64k_getSizeClass_def Let_def t_def [symmetric] unat_drop1 t1)
    have st: "sz \<le> t" by (simp add: ut word_le_nat_alt)
    have "unat sz < 8 \<Longrightarrow> (unat t - 1) div 8 = 0" and "8 \<le> unat sz \<Longrightarrow> t = sz"
      using ut by (auto simp: word_unat_eq_iff)
    with multiples_table [OF bins_multiples(2), of t] True ut c st show ?thesis
      unfolding length_bins by (cases "unat sz < 8") (auto simp: word_le_nat_alt)
  qed
qed

interpretation b4k: size_classes "bins4k_getSizeClass 8" "bins4k_getClassSize 8" 33
  using bins4k_least by unfold_locales (simp_all add: bins4k_getClassSize_def bins_last)

interpretation b64k: size_classes "bins64k_getSizeClass 8" "bins64k_getClassSize 8" 55
  using bins64k_least by unfold_locales (simp_all add: bins64k_getClassSize_def bins_last)

section \<open>Property\<close>

text \<open>each of the three tables gives a request the least class whose objects are large enough.\<close>

theorem size_classes_are_least:
  assumes "sz \<le> bins4k_getClassSize 8 32"
  shows "size2Class sz = (LEAST i. sz \<le> class2Size i) \<and>
    bins4k_getSizeClass 8 sz = (LEAST i. sz \<le> bins4k_getClassSize 8 i) \<and>
    bins64k_getSizeClass 8 sz = (LEAST i. sz \<le> bins64k_getClassSize 8 i)"
proof -
  have s: "sz \<le> 4088" using assms by (simp add: bins4k_getClassSize_def bins_last)
  then have "unat sz \<le> 4088" by (simp add: word_le_nat_alt)
  then have "sz \<le> class2Size (NUMBINS - 1)" "sz \<le> bins64k_getClassSize 8 (55 - 1)"
    by (simp_all add: word_le_nat_alt NUMBINS_def unat_class2Size bins64k_getClassSize_def bins_last)
  with assms show ?thesis
    using kingsley.class_is_Least b4k.class_is_Least [of sz] b64k.class_is_Least by simp
qed

theorem size_classes_are_least_witness:
  "size2Class 1000 = (LEAST i. 1000 \<le> class2Size i) \<and>
    bins4k_getSizeClass 8 1000 = (LEAST i. 1000 \<le> bins4k_getClassSize 8 i) \<and>
    bins64k_getSizeClass 8 1000 = (LEAST i. 1000 \<le> bins64k_getClassSize 8 i)"
  by (rule size_classes_are_least) (simp add: bins4k_getClassSize_def bins_last)

end
