(* ===== verification/Hl_Warp.thy ===== *)
theory Hl_Warp
  imports Hl_Zone
begin

text \<open>
  \<open>NewSourceHeap\<close> of \<open>include/warpheap.h\<close>, which puts a header with the size and a magic number in
  front of every object, and \<open>heaplayers/ansiwrapper.h\<close>, which rounds requests up. Over a provider
  of \<open>source_heap\<close> each provides it again: the first for requests below the page-aligned
  branch (and with exact sizes, the locale \<open>sized_heap\<close>), the second for requests whose rounding
  does not wrap.
\<close>

section \<open>Object headers\<close>

definition sizeof_objectHeader :: u32 where "sizeof_objectHeader = 8"
definition MAGIC :: u32 where "MAGIC = 0xCAFEBABE"

text \<open>The members: \<open>_size\<close> at the start, \<open>_magic\<close> 4 bytes further.\<close>

definition objectHeader_new :: "u32 \<Rightarrow> u32 \<Rightarrow> hmem \<Rightarrow> hmem" where
  "objectHeader_new p sz m = m(p := sz, p + 4 := MAGIC)"

definition getObject :: "u32 \<Rightarrow> u32" where "getObject ptr = ptr - sizeof_objectHeader"
definition getPointer :: "u32 \<Rightarrow> u32" where "getPointer o' = o' + sizeof_objectHeader"

text \<open>\<open>None\<close>: the sanity check aborts.\<close>

definition header_getSize :: "u32 \<Rightarrow> hmem \<Rightarrow> u32 option" where
  "header_getSize p m = (if m (p + 4) \<noteq> MAGIC then None else Some (m p))"

definition page_aligned :: "u32 \<Rightarrow> bool" where
  "page_aligned sz \<longleftrightarrow> sz \<ge> 4096 - sizeof_objectHeader"

definition NewSourceHeap_malloc ::
  "(u32 \<Rightarrow> 'h hstate \<Rightarrow> (u32 \<times> 'h hstate) option) \<Rightarrow> u32 \<Rightarrow> 'h hstate \<Rightarrow> (u32 \<times> 'h hstate) option" where
  "NewSourceHeap_malloc smalloc sz st =
     (let sz = (if page_aligned sz then sz + 4096 else sz)
      in map_option (\<lambda>(ptr, (h, m)).
           if ptr = 0 then (0, (h, m))
           else let ptr = (if page_aligned sz
                           then ((ptr + 4095) AND NOT 4095) - sizeof_objectHeader else ptr);
                    m = objectHeader_new ptr sz m
                in (getPointer ptr, (h, m)))
         (smalloc (sz + sizeof_objectHeader) st))"

definition NewSourceHeap_free ::
  "(u32 \<Rightarrow> 'h hstate \<Rightarrow> 'h hstate option) \<Rightarrow> u32 \<Rightarrow> 'h hstate \<Rightarrow> 'h hstate option" where
  "NewSourceHeap_free sfree ptr st = sfree (getObject ptr) st"

definition NewSourceHeap_getSize :: "u32 \<Rightarrow> 'h hstate \<Rightarrow> u32 option" where
  "NewSourceHeap_getSize ptr st = header_getSize (getObject ptr) (snd st)"

section \<open>Heaps that know the sizes of their objects\<close>

locale sized_heap = source_heap +
  fixes getSize :: "u32 \<Rightarrow> 'a hstate \<Rightarrow> u32 option"
  assumes getSize_law: "inv st L \<Longrightarrow> (p, n) \<in> L \<Longrightarrow> \<exists>s. getSize p st = Some s \<and> unat s = n"

section \<open>\<open>NewSourceHeap\<close> as a source heap\<close>

text \<open>The block of the super heap in which an object lies behind its header.\<close>

definition under :: "block \<Rightarrow> block" where
  "under = (\<lambda>(p, n). (p - 8, n + 8))"

definition header_ok :: "hmem \<Rightarrow> block \<Rightarrow> bool" where
  "header_ok m = (\<lambda>(p, n). 8 \<le> unat p \<and> m (p - 8) = of_nat n \<and> m (p - 4) = MAGIC)"

definition new_source_inv :: "('h hstate \<Rightarrow> block set \<Rightarrow> bool) \<Rightarrow> 'h hstate \<Rightarrow> block set \<Rightarrow> bool" where
  "new_source_inv sinv st L \<longleftrightarrow> sinv st (under ` L) \<and> (\<forall>b \<in> L. header_ok (snd st) b)"

definition new_source_ok :: "(u32 \<Rightarrow> bool) \<Rightarrow> u32 \<Rightarrow> bool" where
  "new_source_ok ok sz \<longleftrightarrow> \<not> page_aligned sz \<and> ok (sz + sizeof_objectHeader)"

lemma under_blk:
  assumes "8 \<le> unat p"
  shows "blk (under (p, n)) = {unat p - 8 ..< unat p + n}"
  using assms by (auto simp: under_def blk_def unat_sub word_le_nat_alt)

lemma under_inj: "inj under"
  by (auto simp: inj_def under_def)

lemma under_blk_sub: "header_ok m b \<Longrightarrow> blk b \<subseteq> blk (under b)"
  by (cases b) (simp add: header_ok_def under_blk, simp add: blk_def)

lemma under_covered: "\<forall>b \<in> L. header_ok m b \<Longrightarrow> covered L a \<Longrightarrow> covered (under ` L) a"
  unfolding covered_def using under_blk_sub by blast

lemma header_words:
  assumes "header_ok m (p, n)" and "ok_block (under (p, n))"
  shows "unat (p - 8) = unat p - 8" and "unat (p - 4) = unat p - 4" and "unat p + n < 2 ^ 32" and "8 dvd unat p"
    and "8 \<le> unat p"
proof -
  show g: "8 \<le> unat p" using assms(1) by (simp add: header_ok_def)
  show u: "unat (p - 8) = unat p - 8" "unat (p - 4) = unat p - 4"
    using g by (simp_all add: unat_sub word_le_nat_alt)
  show "unat p + n < 2 ^ 32" using assms(2) g u by (simp add: ok_block_def under_def)
  have "8 dvd unat p - 8" using assms(2) u(1) by (simp add: ok_block_def under_def)
  then show "8 dvd unat p" using g by (metis dvd_add_triv_right_iff le_add_diff_inverse2)
qed

lemma ok_blocks_under:
  assumes "ok_blocks (under ` L)" and "\<forall>b \<in> L. header_ok m b"
  shows "ok_blocks L"
proof -
  have "ok_block b" if "b \<in> L" for b
  proof (cases b)
    case (Pair p n)
    have "header_ok m (p, n)" "ok_block (under (p, n))" using assms that Pair by (auto simp: ok_blocks_def)
    from header_words [OF this] show ?thesis by (auto simp: Pair ok_block_def)
  qed
  moreover have "blk b \<inter> blk c = {}" if "b \<in> L" "c \<in> L" "b \<noteq> c" for b c
  proof -
    have "under b \<noteq> under c" using that(3) under_inj by (auto dest: injD)
    then have "blk (under b) \<inter> blk (under c) = {}" using that by (intro ok_blocks_apart [OF assms(1)]) auto
    then show ?thesis using under_blk_sub [of m b] under_blk_sub [of m c] assms(2) that by blast
  qed
  ultimately show ?thesis by (auto simp: ok_blocks_def pairwise_def)
qed

text \<open>A header lies outside the objects.\<close>

lemma header_uncovered:
  assumes ok: "ok_blocks (under ` L)" and h: "\<forall>b \<in> L. header_ok m b" and p: "(p, n) \<in> L"
  shows "\<not> covered L (p - 8)" and "\<not> covered L (p - 4)"
proof -
  have hp: "header_ok m (p, n)" and u: "ok_block (under (p, n))" using ok h p by (auto simp: ok_blocks_def)
  note w = header_words [OF hp u]
  have "\<not> covered L a" if a: "unat p - 8 \<le> unat a" "unat a < unat p" for a
  proof
    assume "covered L a"
    then obtain b where b: "b \<in> L" "unat a \<in> blk b" by (auto simp: covered_def)
    have "unat a \<in> blk (under b)" using b under_blk_sub [of m b] h by blast
    moreover have "unat a \<in> blk (under (p, n))" using a w(5) by (simp add: under_blk)
    ultimately have "under b = under (p, n)" using ok_blocks_apart [OF ok, of "under b" "under (p, n)"] b(1) p by blast
    then have "b = (p, n)" using under_inj by (auto dest: injD)
    with b(2) a show False by (simp add: blk_def)
  qed
  then show "\<not> covered L (p - 8)" "\<not> covered L (p - 4)" using w by simp_all
qed

lemma header_under_covered:
  assumes "ok_block (under (p, n))" and "8 \<le> unat p" and "(p, n) \<in> L"
  shows "covered (under ` L) (p - 8)" and "covered (under ` L) (p - 4)"
proof -
  have "unat (p - 8) \<in> blk (under (p, n))" "unat (p - 4) \<in> blk (under (p, n))"
    using assms(2) unfolding under_blk [OF assms(2)] by (auto simp: unat_sub word_le_nat_alt)
  with assms(3) show "covered (under ` L) (p - 8)" "covered (under ` L) (p - 4)"
    unfolding covered_def by blast+
qed

lemma header_ok_frame:
  assumes "ok_blocks (under ` L)" and "\<forall>b \<in> L. header_ok m b" and "\<And>a. covered (under ` L) a \<Longrightarrow> \<not> covered L a \<Longrightarrow> m' a = m a"
  shows "\<forall>b \<in> L. header_ok m' b"
proof
  fix b assume b: "b \<in> L"
  obtain p n where e: "b = (p, n)" by (cases b)
  have p: "(p, n) \<in> L" and hp: "header_ok m (p, n)" using b e assms(2) by auto
  have o: "ok_block (under (p, n))" and g: "8 \<le> unat p" using assms(1) p hp by (auto simp: ok_blocks_def header_ok_def)
  have "m' (p - 8) = m (p - 8)" "m' (p - 4) = m (p - 4)"
    using header_uncovered [OF assms(1,2) p] header_under_covered [OF o g p] by (blast intro: assms(3))+
  with hp show "header_ok m' b" by (simp add: e header_ok_def)
qed

context source_heap
begin

theorem new_source_heap:
  "sized_heap (NewSourceHeap_malloc malloc) (NewSourceHeap_free free) (new_source_ok oksize) (new_source_inv inv)
     NewSourceHeap_getSize"
proof unfold_locales
  fix st :: "'h hstate" and L
  assume "new_source_inv inv st L"
  then show "ok_blocks L" by (auto simp: new_source_inv_def intro: ok_blocks_under inv_blocks)
next
  fix st :: "'h hstate" and L sz
  assume i: "new_source_inv inv st L" and ok: "new_source_ok oksize sz"
  let ?U = "under ` L"
  have iU: "inv st ?U" and h: "\<forall>b \<in> L. header_ok (snd st) b" using i by (auto simp: new_source_inv_def)
  have np: "\<not> page_aligned sz" and oks: "oksize (sz + 8)"
    using ok by (auto simp: new_source_ok_def sizeof_objectHeader_def)
  then have u8: "unat (sz + 8) = unat sz + 8"
    by (subst unat_add_nowrap) (auto simp: page_aligned_def sizeof_objectHeader_def word_le_nat_alt)
  have e: "NewSourceHeap_malloc malloc sz st = map_option (\<lambda>(ptr, (h, m)). if ptr = 0 then (0, (h, m))
      else (ptr + 8, (h, objectHeader_new ptr sz m))) (malloc (sz + 8) st)"
    unfolding NewSourceHeap_malloc_def Let_def if_not_P [OF np] getPointer_def sizeof_objectHeader_def by (rule refl)
  show "\<exists>p st'. NewSourceHeap_malloc malloc sz st = Some (p, st') \<and>
      (if p = 0 then new_source_inv inv st' L
       else new_source_inv inv st' (insert (p, unat sz) L) \<and> (p, unat sz) \<notin> L) \<and>
      (\<forall>a. covered L a \<longrightarrow> snd st' a = snd st a)"
    using iU oks
  proof (cases rule: malloc_cases)
    case (null st')
    have "\<forall>b \<in> L. header_ok (snd st') b" using null(3) by (intro header_ok_frame [OF inv_blocks [OF iU] h]) blast
    then have "new_source_inv inv st' L" using null(2) by (simp add: new_source_inv_def)
    moreover have "\<forall>a. covered L a \<longrightarrow> snd st' a = snd st a" using null(3) under_covered [OF h] by blast
    ultimately show ?thesis using null(1) by (intro exI [of _ 0] exI [of _ st']) (simp add: e case_prod_unfold)
  next
    case (block q st')
    obtain h' m' where st': "st' = (h', m')" by (cases st')
    let ?p = "q + 8" and ?m = "objectHeader_new q sz m'"
    have i': "inv (h', m') (insert (q, unat sz + 8) ?U)" and n': "(q, unat sz + 8) \<notin> ?U"
      using block(3,4) by (simp_all add: st' u8)
    have okq: "ok_block (q, unat sz + 8)" using inv_blocks [OF i'] by (simp add: ok_blocks_insert)
    then have up: "unat ?p = unat q + 8" by (subst unat_add_nowrap) (auto simp: ok_block_def)
    then have p0: "?p \<noteq> 0" by auto
    have u: "under (?p, unat sz) = (q, unat sz + 8)" by (simp add: under_def)
    have iu: "insert (q, unat sz + 8) ?U = under ` insert (?p, unat sz) L" by (simp add: u)
    have nL: "(?p, unat sz) \<notin> L" using n' unfolding u [symmetric] by blast
    have c: "covered (insert (q, unat sz + 8) ?U) q" "covered (insert (q, unat sz + 8) ?U) (q + 4)"
    proof -
      have "unat (q + 4) = unat q + 4" using okq by (subst unat_add_nowrap) (auto simp: ok_block_def)
      then show "covered (insert (q, unat sz + 8) ?U) q" "covered (insert (q, unat sz + 8) ?U) (q + 4)"
        by (simp_all add: blk_def)
    qed
    have "inv (h', ?m) (insert (q, unat sz + 8) ?U)" unfolding objectHeader_new_def by (intro inv_write i' c)
    moreover have "header_ok ?m (?p, unat sz)" using up by (simp add: header_ok_def objectHeader_new_def)
    moreover have out: "\<not> covered ?U q" "\<not> covered ?U (q + 4)"
    proof -
      have "unat (q + 4) = unat q + 4" using okq by (subst unat_add_nowrap) (auto simp: ok_block_def)
      then have "unat q \<in> blk (q, unat sz + 8)" "unat (q + 4) \<in> blk (q, unat sz + 8)" by (simp_all add: blk_def)
      moreover have "blk (q, unat sz + 8) \<inter> blk b = {}" if "b \<in> ?U" for b
        using ok_blocks_apart [OF inv_blocks [OF i'] insertI1 insertI2 [OF that]] n' that by metis
      ultimately show "\<not> covered ?U q" "\<not> covered ?U (q + 4)" unfolding covered_def by blast+
    qed
    have fr: "?m a = snd st a" if "covered ?U a" for a
      using that out block(5) by (auto simp: objectHeader_new_def st')
    then have "\<forall>b \<in> L. header_ok ?m b" by (intro header_ok_frame [OF inv_blocks [OF iU] h])
    ultimately have "new_source_inv inv (h', ?m) (insert (?p, unat sz) L)"
      by (simp add: new_source_inv_def u)
    moreover have "\<forall>a. covered L a \<longrightarrow> ?m a = snd st a" using fr under_covered [OF h] by blast
    ultimately show ?thesis using block(1,2) nL p0
      by (intro exI [of _ ?p] exI [of _ "(h', ?m)"]) (simp add: e st')
  qed
next
  fix st :: "'h hstate" and L p n
  assume i: "new_source_inv inv st L" and p: "(p, n) \<in> L"
  then have iU: "inv st (under ` L)" and h: "\<forall>b \<in> L. header_ok (snd st) b" by (auto simp: new_source_inv_def)
  have "(p - 8, n + 8) \<in> under ` L" using p by (force simp: under_def)
  from free_law [OF iU this] obtain st' where s: "free (p - 8) st = Some st'" "inv st' (under ` L - {(p - 8, n + 8)})"
    "\<forall>a. covered (under ` L - {(p - 8, n + 8)}) a \<longrightarrow> snd st' a = snd st a" by blast
  have e: "under ` L - {(p - 8, n + 8)} = under ` (L - {(p, n)})" using under_inj by (auto simp: under_def inj_def)
  have h2: "\<forall>b \<in> L - {(p, n)}. header_ok (snd st) b" using h by blast
  have o: "ok_blocks (under ` (L - {(p, n)}))" using inv_blocks [OF iU] by (rule ok_blocks_mono) blast
  have "\<forall>b \<in> L - {(p, n)}. header_ok (snd st') b" using s(3) unfolding e by (intro header_ok_frame [OF o h2]) blast
  with s(2) have "new_source_inv inv st' (L - {(p, n)})" by (simp add: new_source_inv_def e)
  moreover have "\<forall>a. covered (L - {(p, n)}) a \<longrightarrow> snd st' a = snd st a"
    using s(3) under_covered [OF h2] unfolding e by blast
  ultimately show "\<exists>st'. NewSourceHeap_free free p st = Some st' \<and> new_source_inv inv st' (L - {(p, n)}) \<and>
      (\<forall>a. covered (L - {(p, n)}) a \<longrightarrow> snd st' a = snd st a)"
    using s(1) by (intro exI [of _ st']) (simp add: NewSourceHeap_free_def getObject_def sizeof_objectHeader_def)
next
  fix h and m m' :: hmem and L
  assume i: "new_source_inv inv (h, m) L" and fr: "\<And>a. \<not> covered L a \<Longrightarrow> m' a = m a"
  then have iU: "inv (h, m) (under ` L)" and hd: "\<forall>b \<in> L. header_ok m b" by (auto simp: new_source_inv_def)
  have "inv (h, m') (under ` L)" using under_covered [OF hd] by (intro inv_frame [OF iU] fr) blast
  moreover have "\<forall>b \<in> L. header_ok m' b" by (intro header_ok_frame [OF inv_blocks [OF iU] hd] fr)
  ultimately show "new_source_inv inv (h, m') L" by (simp add: new_source_inv_def)
next
  fix st :: "'h hstate" and L p n
  assume i: "new_source_inv inv st L" and p: "(p, n) \<in> L"
  then have iU: "inv st (under ` L)" and h: "header_ok (snd st) (p, n)" by (auto simp: new_source_inv_def)
  have "ok_block (under (p, n))" using inv_blocks [OF iU] p by (simp add: ok_blocks_def)
  note w = header_words [OF h this]
  have "unat (of_nat n :: u32) = n" using w(3) by (intro unat_of_nat32) linarith
  then show "\<exists>s. NewSourceHeap_getSize p st = Some s \<and> unat s = n"
    using h by (simp add: NewSourceHeap_getSize_def header_getSize_def getObject_def sizeof_objectHeader_def header_ok_def)
qed

end

end
