(* ===== verification/Hl_Strict.thy ===== *)
theory Hl_Strict
  imports Hl_Seg Hl_Warp
begin

text \<open>
  The segregated-fits layer \<open>StrictSegHeap\<close> of \<open>heaplayers/segheap.h\<close> over the dictionary heaps of
  \<open>heaplayers/adaptheap.h\<close>: one dictionary of freed objects per size class, a big heap behind them.
  With any provider of \<open>dictionary\<close>, any table that meets \<open>size_classes\<close> and any \<open>sized_heap\<close> it
  is a \<open>source_heap\<close> again.
\<close>

section \<open>\<open>AdaptHeap\<close>\<close>

definition AdaptHeap_malloc :: "(dict \<Rightarrow> u32 \<times> dict) \<Rightarrow> u32 \<Rightarrow> dict \<Rightarrow> u32 \<times> dict" where
  "AdaptHeap_malloc get sz d = get d"

definition AdaptHeap_free :: "(u32 \<Rightarrow> dict \<Rightarrow> dict) \<Rightarrow> u32 \<Rightarrow> dict \<Rightarrow> dict" where
  "AdaptHeap_free ins ptr d = ins ptr d"

definition AdaptHeap_remove :: "(u32 \<Rightarrow> dict \<Rightarrow> dict option) \<Rightarrow> u32 \<Rightarrow> dict \<Rightarrow> (int \<times> dict) option" where
  "AdaptHeap_remove remove ptr d = map_option (\<lambda>d. (1, d)) (remove ptr d)"

text \<open>The loop of \<open>clear\<close>, and what follows it; \<open>n\<close> bounds the number of entries.\<close>

fun AdaptHeap_drain ::
  "(dict \<Rightarrow> u32 \<times> dict) \<Rightarrow> (u32 \<Rightarrow> 'h hstate \<Rightarrow> 'h hstate option) \<Rightarrow> nat \<Rightarrow> u32 \<times> 'h hstate \<Rightarrow> (u32 \<times> 'h hstate) option" where
  "AdaptHeap_drain get sfree 0 st = None"
| "AdaptHeap_drain get sfree (Suc n) (hw, (h, m)) =
     (let (ptr, (hw, m)) = get (hw, m)
      in if ptr = 0 then Some (hw, (h, m))
         else Option.bind (sfree ptr (h, m)) (\<lambda>st. AdaptHeap_drain get sfree n (hw, st)))"

definition AdaptHeap_clear ::
  "(dict \<Rightarrow> u32 \<times> dict) \<Rightarrow> (dict \<Rightarrow> dict) \<Rightarrow> (u32 \<Rightarrow> 'h hstate \<Rightarrow> 'h hstate option) \<Rightarrow> ('h hstate \<Rightarrow> 'h hstate)
   \<Rightarrow> nat \<Rightarrow> u32 \<times> 'h hstate \<Rightarrow> (u32 \<times> 'h hstate) option" where
  "AdaptHeap_clear get clear sfree sclear n s =
     map_option (\<lambda>(hw, (h, m)). let (hw, m) = clear (hw, m) in (hw, sclear (h, m))) (AdaptHeap_drain get sfree n s)"

section \<open>\<open>StrictSegHeap\<close>\<close>

record seg =
  sg_bins :: "u32 list"
  sg_binmap :: "u32 list"
  sg_held :: u32

definition NUM_ULONGS :: "nat \<Rightarrow> nat" where
  "NUM_ULONGS NumBins = (NumBins + 31) div 32 * 32 div 32"

definition SegHeap_new :: "nat \<Rightarrow> seg" where
  "SegHeap_new NumBins = \<lparr>sg_bins = replicate NumBins 0, sg_binmap = replicate (NUM_ULONGS NumBins) 0, sg_held = 0\<rparr>"

definition maxObjectSize :: "nat \<Rightarrow> (nat \<Rightarrow> u32) \<Rightarrow> u32" where
  "maxObjectSize NumBins getClassMaxSize = getClassMaxSize (NumBins - 1)"

text \<open>The loop that lowers the class of a freed object; \<open>None\<close>: it leaves the array of bins.\<close>

fun class_down :: "(nat \<Rightarrow> u32) \<Rightarrow> u32 \<Rightarrow> nat \<Rightarrow> nat option" where
  "class_down getClassMaxSize objectSize 0 = (if getClassMaxSize 0 > objectSize then None else Some 0)"
| "class_down getClassMaxSize objectSize (Suc c) =
     (if getClassMaxSize (Suc c) > objectSize then class_down getClassMaxSize objectSize c else Some (Suc c))"

definition big_result :: "seg \<Rightarrow> u32 \<times> 'h hstate \<Rightarrow> u32 \<times> (seg \<times> 'h) hstate" where
  "big_result g = (\<lambda>(ptr, (h, m)). (ptr, ((g, h), m)))"

definition StrictSegHeap_malloc ::
  "nat \<Rightarrow> (u32 \<Rightarrow> nat) \<Rightarrow> (nat \<Rightarrow> u32) \<Rightarrow> (dict \<Rightarrow> u32 \<times> dict) \<Rightarrow> (u32 \<Rightarrow> 'h hstate \<Rightarrow> (u32 \<times> 'h hstate) option)
   \<Rightarrow> u32 \<Rightarrow> (seg \<times> 'h) hstate \<Rightarrow> (u32 \<times> (seg \<times> 'h) hstate) option" where
  "StrictSegHeap_malloc NumBins getSizeClass getClassMaxSize get bigmalloc sz = (\<lambda>((g, h), m).
     if sz \<le> maxObjectSize NumBins getClassMaxSize then
       let sizeClass = getSizeClass sz;
           objectSize = getClassMaxSize sizeClass;
           (ptr, (hw, m)) = AdaptHeap_malloc get objectSize (sg_bins g ! sizeClass, m);
           g = g\<lparr>sg_bins := (sg_bins g)[sizeClass := hw]\<rparr>
       in if ptr = 0 then map_option (big_result g) (bigmalloc objectSize (h, m))
          else Some (ptr, ((g, h), m))
     else map_option (big_result g) (bigmalloc sz (h, m)))"

definition StrictSegHeap_free ::
  "nat \<Rightarrow> (u32 \<Rightarrow> nat) \<Rightarrow> (nat \<Rightarrow> u32) \<Rightarrow> (u32 \<Rightarrow> dict \<Rightarrow> dict) \<Rightarrow> (u32 \<Rightarrow> 'h hstate \<Rightarrow> 'h hstate option)
   \<Rightarrow> (u32 \<Rightarrow> 'h hstate \<Rightarrow> u32 option) \<Rightarrow> u32 \<Rightarrow> (seg \<times> 'h) hstate \<Rightarrow> (seg \<times> 'h) hstate option" where
  "StrictSegHeap_free NumBins getSizeClass getClassMaxSize ins bigfree getSize ptr = (\<lambda>((g, h), m).
     case getSize ptr (h, m) of None \<Rightarrow> None
     | Some objectSize \<Rightarrow>
         if objectSize = 0 then Some ((g, h), m)
         else if objectSize > maxObjectSize NumBins getClassMaxSize then
           map_option (\<lambda>(h, m). ((g, h), m)) (bigfree ptr (h, m))
         else case class_down getClassMaxSize objectSize (getSizeClass objectSize) of None \<Rightarrow> None
         | Some objectSizeClass \<Rightarrow>
             let (hw, m) = AdaptHeap_free ins ptr (sg_bins g ! objectSizeClass, m)
             in Some ((g\<lparr>sg_bins := (sg_bins g)[objectSizeClass := hw], sg_held := sg_held g + objectSize\<rparr>, h), m))"

text \<open>\<open>freeAll\<close>: every bin is emptied into the big heap, then the bin map and the counter are reset.\<close>

fun freeAll_bins ::
  "(dict \<Rightarrow> u32 \<times> dict) \<Rightarrow> (u32 \<Rightarrow> 'h hstate \<Rightarrow> 'h hstate option) \<Rightarrow> nat \<Rightarrow> u32 list \<Rightarrow> 'h hstate
   \<Rightarrow> (u32 list \<times> 'h hstate) option" where
  "freeAll_bins get bigfree n [] st = Some ([], st)"
| "freeAll_bins get bigfree n (b # bs) st =
     (case AdaptHeap_drain get bigfree n (b, st) of None \<Rightarrow> None
      | Some (b, st) \<Rightarrow> map_option (\<lambda>(bs, st). (b # bs, st)) (freeAll_bins get bigfree n bs st))"

definition StrictSegHeap_freeAll ::
  "nat \<Rightarrow> (dict \<Rightarrow> u32 \<times> dict) \<Rightarrow> (u32 \<Rightarrow> 'h hstate \<Rightarrow> 'h hstate option) \<Rightarrow> nat \<Rightarrow> (seg \<times> 'h) hstate
   \<Rightarrow> (seg \<times> 'h) hstate option" where
  "StrictSegHeap_freeAll NumBins get bigfree n = (\<lambda>((g, h), m).
     map_option (\<lambda>(bins, (h, m)).
         ((\<lparr>sg_bins = bins, sg_binmap = replicate (NUM_ULONGS NumBins) 0, sg_held = 0\<rparr>, h), m))
       (freeAll_bins get bigfree n (sg_bins g) (h, m)))"

section \<open>Sizes and addresses of blocks\<close>

text \<open>Blocks that are not empty are told apart by their addresses.\<close>

lemma ok_blocks_fst:
  assumes "ok_blocks X" and "(p, n) \<in> X" and "(p, k) \<in> X" and "0 < n" and "0 < k"
  shows "n = k"
proof (rule ccontr)
  assume "n \<noteq> k"
  then have "blk (p, n) \<inter> blk (p, k) = {}" using assms(1-3) by (intro ok_blocks_apart) auto
  then show False using assms(4,5) by (auto simp: blk_def)
qed

text \<open>
  A layer that hands out at most the bytes of the blocks below it: every block of \<open>L\<close> is the
  start of a block of \<open>X\<close>, and different blocks of \<open>L\<close> have different addresses.
\<close>

definition within :: "block set \<Rightarrow> block set \<Rightarrow> bool" where
  "within L X \<longleftrightarrow> inj_on fst L \<and> (\<forall>(p, k) \<in> L. \<exists>n. (p, n) \<in> X \<and> k \<le> n)"

lemma within_empty [simp]: "within {} X"
  by (simp add: within_def)

lemma within_mono: "within L X \<Longrightarrow> X \<subseteq> Y \<Longrightarrow> within L Y"
  unfolding within_def by fast

lemma within_sub: "within L X \<Longrightarrow> K \<subseteq> L \<Longrightarrow> within K X"
  unfolding within_def by (fast intro: inj_on_subset)

lemma within_block:
  assumes "within L X" and "b \<in> L"
  obtains n where "(fst b, n) \<in> X" and "snd b \<le> n"
  using assms unfolding within_def by (cases b) fastforce

lemma within_covered: "within L X \<Longrightarrow> covered L a \<Longrightarrow> covered X a"
  unfolding covered_def within_def by (fastforce simp: blk_def Bex_def)

lemma within_blocks:
  assumes "within L X" and "ok_blocks X"
  shows "ok_blocks L"
proof -
  have *: "\<exists>c \<in> X. fst c = fst b \<and> snd b \<le> snd c \<and> blk b \<subseteq> blk c \<and> ok_block b" if bL: "b \<in> L" for b
  proof -
    obtain n where "(fst b, n) \<in> X" "snd b \<le> n" using within_block [OF assms(1) bL] by blast
    moreover from this have "ok_block (fst b, n)" using assms(2) by (auto simp: ok_blocks_def)
    ultimately show ?thesis by (intro bexI [of _ "(fst b, n)"]) (auto simp: blk_def ok_block_def)
  qed
  have "blk b \<inter> blk c = {}" if bc: "b \<in> L" "c \<in> L" "b \<noteq> c" for b c
  proof -
    obtain x y where xy: "x \<in> X" "fst x = fst b" "blk b \<subseteq> blk x" "y \<in> X" "fst y = fst c" "blk c \<subseteq> blk y"
      using * [OF bc(1)] * [OF bc(2)] by blast
    have "fst b \<noteq> fst c" using assms(1) bc by (auto simp: within_def inj_on_def)
    then have "x \<noteq> y" using xy by auto
    with xy ok_blocks_apart [OF assms(2) xy(1,4)] show ?thesis by blast
  qed
  with * show ?thesis by (auto simp: ok_blocks_def pairwise_def)
qed

lemma within_insert:
  assumes "within L X" and "(p, n) \<in> X" and "k \<le> n" and "p \<notin> fst ` L"
  shows "within (insert (p, k) L) X"
  using assms unfolding within_def by (auto simp: inj_on_insert)

lemma within_remove:
  assumes "within L X" and "(p, k) \<in> L" and "ok_blocks X" and "\<forall>b \<in> X. 0 < snd b" and "(p, n) \<in> X"
  shows "within (L - {(p, k)}) (X - {(p, n)})"
proof -
  have "q \<noteq> p" if "(q, j) \<in> L - {(p, k)}" for q j
    using assms(1,2) that by (force simp: within_def inj_on_def)
  then show ?thesis using assms(1) unfolding within_def by (fastforce intro: inj_on_subset)
qed

section \<open>\<open>StrictSegHeap\<close> as a source heap\<close>

text \<open>
  The lists of the bins: the entries of bin \<open>i\<close> are blocks of at least the size of class \<open>i\<close>, and no
  entry is in two bins.
\<close>

definition seg_lists ::
  "nat \<Rightarrow> (nat \<Rightarrow> u32) \<Rightarrow> (dict \<Rightarrow> u32 list \<Rightarrow> bool) \<Rightarrow> block set \<Rightarrow> u32 list \<Rightarrow> hmem \<Rightarrow> (nat \<Rightarrow> u32 list) \<Rightarrow> bool" where
  "seg_lists NumBins getClassMaxSize repr X bins m Fs \<longleftrightarrow>
     (\<forall>i < NumBins. repr (bins ! i, m) (Fs i) \<and>
        (\<forall>p \<in> set (Fs i). \<exists>n. (p, n) \<in> X \<and> unat (getClassMaxSize i) \<le> n)) \<and>
     (\<forall>i < NumBins. \<forall>j < NumBins. i \<noteq> j \<longrightarrow> set (Fs i) \<inter> set (Fs j) = {})"

definition seg_inv ::
  "nat \<Rightarrow> (nat \<Rightarrow> u32) \<Rightarrow> (dict \<Rightarrow> u32 list \<Rightarrow> bool) \<Rightarrow> ('h hstate \<Rightarrow> block set \<Rightarrow> bool) \<Rightarrow> (seg \<times> 'h) hstate
   \<Rightarrow> block set \<Rightarrow> bool" where
  "seg_inv NumBins getClassMaxSize repr sinv = (\<lambda>((g, h), m) L. length (sg_bins g) = NumBins \<and>
     (\<exists>X Fs. sinv (h, m) X \<and> (\<forall>b \<in> X. unat (getClassMaxSize 0) \<le> snd b) \<and> within L X \<and>
        seg_lists NumBins getClassMaxSize repr X (sg_bins g) m Fs \<and>
        (\<forall>i < NumBins. \<forall>p \<in> set (Fs i). p \<notin> fst ` L)))"

definition seg_ok :: "nat \<Rightarrow> (u32 \<Rightarrow> nat) \<Rightarrow> (nat \<Rightarrow> u32) \<Rightarrow> (u32 \<Rightarrow> bool) \<Rightarrow> u32 \<Rightarrow> bool" where
  "seg_ok NumBins getSizeClass getClassMaxSize ok sz \<longleftrightarrow>
     ok (if sz \<le> maxObjectSize NumBins getClassMaxSize then getClassMaxSize (getSizeClass sz) else sz)"

lemma class_down_spec:
  "getClassMaxSize 0 \<le> s \<Longrightarrow> \<exists>c \<le> c0. class_down getClassMaxSize s c0 = Some c \<and> getClassMaxSize c \<le> s"
  by (induction c0) (fastforce simp: not_le [symmetric])+

lemma seg_lists_mono: "seg_lists N cms repr X bins m Fs \<Longrightarrow> X \<subseteq> Y \<Longrightarrow> seg_lists N cms repr Y bins m Fs"
  unfolding seg_lists_def by blast

locale seg_heap = sized_heap + bin_classes + dictionary +
  assumes foot_cases: "foot e = [e] \<or> foot e = [e, e + 4]"
    and class0: "8 \<le> unat (getClassMaxSize 0)"
    and class_min: "i < NumBins \<Longrightarrow> getClassMaxSize 0 \<le> getClassMaxSize i"
begin

lemma foot_blk: "ok_block (p, n) \<Longrightarrow> 8 \<le> n \<Longrightarrow> a \<in> set (foot p) \<Longrightarrow> unat a \<in> blk (p, n)"
  using foot_cases [of p] by (auto simp: ok_block_def blk_def unat_add_nowrap)

lemma foot_self: "p \<in> set (foot p)" "distinct (foot p)"
  using foot_cases [of p] by auto

text \<open>What the proofs know about the blocks below.\<close>

lemma foot_covered:
  assumes "ok_blocks X" and "\<forall>b \<in> X. unat (getClassMaxSize 0) \<le> snd b" and "(p, n) \<in> X" and "a \<in> set (foot p)"
  shows "covered X a" and "unat a \<in> blk (p, n)"
proof -
  have "ok_block (p, n)" "8 \<le> n" using assms(1-3) class0 by (fastforce simp: ok_blocks_def)+
  from foot_blk [OF this assms(4)] show "unat a \<in> blk (p, n)" .
  with assms(3) show "covered X a" unfolding covered_def by blast
qed

lemma foots_apart:
  assumes X: "ok_blocks X" "\<forall>b \<in> X. unat (getClassMaxSize 0) \<le> snd b" and p: "(p, n) \<in> X" and q: "(q, k) \<in> X"
    and "p \<noteq> q" and "a \<in> set (foot p)"
  shows "a \<notin> set (foot q)"
proof
  assume "a \<in> set (foot q)"
  from foot_covered(2) [OF X q this] foot_covered(2) [OF X p assms(6)] ok_blocks_apart [OF X(1) p q] assms(5)
  show False by blast
qed

lemma foot_uncovered:
  assumes X: "ok_blocks X" "\<forall>b \<in> X. unat (getClassMaxSize 0) \<le> snd b" and p: "(p, n) \<in> X"
    and L: "within L X" "p \<notin> fst ` L" and a: "a \<in> set (foot p)"
  shows "\<not> covered L a"
proof
  assume "covered L a"
  then obtain b where b: "b \<in> L" "unat a \<in> blk b" by (auto simp: covered_def)
  obtain k where k: "(fst b, k) \<in> X" "snd b \<le> k" using within_block [OF L(1) b(1)] by blast
  have "(fst b, k) \<noteq> (p, n)" using L(2) b(1) by auto
  then have "blk (fst b, k) \<inter> blk (p, n) = {}" by (rule ok_blocks_apart [OF X(1) k(1) p])
  moreover have "unat a \<in> blk (fst b, k)" using b(2) k(2) by (auto simp: blk_def)
  ultimately show False using foot_covered(2) [OF X p a] by blast
qed

lemma foots_mem: "a \<in> set (foots foot es) \<longleftrightarrow> (\<exists>p \<in> set es. a \<in> set (foot p))"
  by (auto simp: foots_def)

lemma seg_listsD:
  assumes "seg_lists NumBins getClassMaxSize repr X bins m Fs" and "i < NumBins"
  shows "repr (bins ! i, m) (Fs i)" and "p \<in> set (Fs i) \<Longrightarrow> \<exists>n. (p, n) \<in> X \<and> unat (getClassMaxSize i) \<le> n"
    and "j < NumBins \<Longrightarrow> i \<noteq> j \<Longrightarrow> p \<in> set (Fs i) \<Longrightarrow> p \<notin> set (Fs j)"
  using assms unfolding seg_lists_def by blast+

lemma seg_lists_frame:
  assumes "seg_lists NumBins getClassMaxSize repr X bins m Fs"
    and "\<And>i p a. i < NumBins \<Longrightarrow> p \<in> set (Fs i) \<Longrightarrow> a \<in> set (foot p) \<Longrightarrow> m' a = m a"
  shows "seg_lists NumBins getClassMaxSize repr X bins m' Fs"
proof -
  have "repr (bins ! i, m') (Fs i)" if "i < NumBins" for i
    using assms(2) [OF that] by (intro repr_frame [OF seg_listsD(1) [OF assms(1) that]]) (auto simp: foots_mem)
  with assms(1) show ?thesis unfolding seg_lists_def by blast
qed

lemma seg_lists_update:
  assumes l: "seg_lists NumBins getClassMaxSize repr X bins m Fs" and c: "c < NumBins" "length bins = NumBins"
    and es: "repr (w, m') es" "\<forall>p \<in> set es. \<exists>n. (p, n) \<in> X \<and> unat (getClassMaxSize c) \<le> n"
    and apart: "\<And>i. i < NumBins \<Longrightarrow> i \<noteq> c \<Longrightarrow> set es \<inter> set (Fs i) = {}"
    and fr: "\<And>i p a. i < NumBins \<Longrightarrow> i \<noteq> c \<Longrightarrow> p \<in> set (Fs i) \<Longrightarrow> a \<in> set (foot p) \<Longrightarrow> m' a = m a"
  shows "seg_lists NumBins getClassMaxSize repr X (bins[c := w]) m' (Fs(c := es))"
proof -
  have r: "repr (bins ! i, m') (Fs i)" if "i < NumBins" "i \<noteq> c" for i
    using fr [OF that] by (intro repr_frame [OF seg_listsD(1) [OF l that(1)]]) (auto simp: foots_mem)
  show ?thesis
    using r c es(1,2) apart seg_listsD [OF l] unfolding seg_lists_def by (simp add: nth_list_update) blast
qed

text \<open>The two ways an allocation below the maximum ends: with a freed object, or with a new one.\<close>

lemma seg_reuse:
  assumes i: "inv (h, m) X" and X: "\<forall>b \<in> X. unat (getClassMaxSize 0) \<le> snd b" and w: "within L X"
    and l: "seg_lists NumBins getClassMaxSize repr X bins m Fs" and len: "length bins = NumBins"
    and out: "\<forall>i < NumBins. \<forall>p \<in> set (Fs i). p \<notin> fst ` L"
    and c: "c < NumBins" and Fc: "Fs c = e # es" and k: "k \<le> unat (getClassMaxSize c)"
  shows "\<exists>hw m'. get (bins ! c, m) = (e, (hw, m')) \<and> e \<noteq> 0 \<and> (e, k) \<notin> L \<and> inv (h, m') X \<and>
    within (insert (e, k) L) X \<and> seg_lists NumBins getClassMaxSize repr X (bins[c := hw]) m' (Fs(c := es)) \<and>
    (\<forall>i < NumBins. \<forall>p \<in> set ((Fs(c := es)) i). p \<notin> fst ` insert (e, k) L) \<and> (\<forall>a. covered L a \<longrightarrow> m' a = m a)"
proof -
  note okX = inv_blocks [OF i]
  have r: "repr (bins ! c, m) (e # es)" using seg_listsD(1) [OF l c] Fc by simp
  then obtain hw m' where g: "get (bins ! c, m) = (e, (hw, m'))" and r': "repr (hw, m') es"
    using get_cons by (metis surj_pair)
  have fr: "m' a = m a" if "a \<notin> set (foots foot (e # es))" for a using get_frame [OF r that] g by simp
  have d: "distinct (foots foot (e # es))" "e \<noteq> 0" using repr_foots [OF r] by auto
  have ees: "e \<notin> set es" using d(1) foot_self(1) [of e] by (fastforce simp: foots_mem)
  obtain n where n: "(e, n) \<in> X" "unat (getClassMaxSize c) \<le> n" using seg_listsD(2) [OF l c, of e] Fc by auto
  have blks: "\<exists>n. (p, n) \<in> X" if "p \<in> set (e # es)" for p using seg_listsD(2) [OF l c, of p] that Fc by auto
  have fcov: "covered X a" if "a \<in> set (foots foot (e # es))" for a
    using that blks foot_covered(1) [OF okX X] unfolding foots_mem by blast
  have fL: "\<not> covered L a" if "a \<in> set (foots foot (e # es))" for a
    using that blks foot_uncovered [OF okX X _ w] out c Fc unfolding foots_mem by (metis list.set_intros)
  have "inv (h, m') X" using fcov fr by (intro inv_frame [OF i]) blast
  moreover have "seg_lists NumBins getClassMaxSize repr X (bins[c := hw]) m' (Fs(c := es))"
  proof (rule seg_lists_update [OF l c len r'])
    show "\<forall>p \<in> set es. \<exists>n. (p, n) \<in> X \<and> unat (getClassMaxSize c) \<le> n" using seg_listsD(2) [OF l c] Fc by simp
    show "set es \<inter> set (Fs i) = {}" if "i < NumBins" "i \<noteq> c" for i using seg_listsD(3) [OF l c that(1)] that(2) Fc by auto
    fix i p a assume ip: "i < NumBins" "i \<noteq> c" "p \<in> set (Fs i)" and a: "a \<in> set (foot p)"
    obtain j where j: "(p, j) \<in> X" using seg_listsD(2) [OF l ip(1,3)] by blast
    have "a \<notin> set (foot q)" if q: "q \<in> set (e # es)" for q
    proof -
      have "p \<noteq> q" using seg_listsD(3) [OF l c ip(1), of q] ip(2,3) q Fc by auto
      with blks [OF q] show ?thesis using foots_apart [OF okX X j _ _ a] by blast
    qed
    then show "m' a = m a" by (intro fr) (auto simp: foots_mem)
  qed
  moreover have "e \<notin> fst ` L" using out c Fc by auto
  moreover from this n k w have "within (insert (e, k) L) X" by (intro within_insert [of L X e n]) auto
  moreover have "p \<notin> fst ` insert (e, k) L" if "i < NumBins" "p \<in> set ((Fs(c := es)) i)" for i p
    using that out Fc c ees seg_listsD(3) [OF l c, of i e] by (auto split: if_splits)
  ultimately show ?thesis using g d(2) fr fL by (intro exI [of _ hw] exI [of _ m']) force
qed

lemma seg_new:
  assumes i: "inv st X" and X: "\<forall>b \<in> X. unat (getClassMaxSize 0) \<le> snd b" and w: "within L X"
    and l: "seg_lists NumBins getClassMaxSize repr X bins (snd st) Fs" and len: "length (sg_bins g) = NumBins" "bins = sg_bins g"
    and out: "\<forall>i < NumBins. \<forall>p \<in> set (Fs i). p \<notin> fst ` L"
    and s: "oksize s" "unat (getClassMaxSize 0) \<le> unat s" "k \<le> unat s"
  shows "\<exists>p st'. map_option (big_result g) (malloc s st) = Some (p, st') \<and>
      (if p = 0 then seg_inv NumBins getClassMaxSize repr inv st' L
       else seg_inv NumBins getClassMaxSize repr inv st' (insert (p, k) L) \<and> (p, k) \<notin> L) \<and>
      (\<forall>a. covered L a \<longrightarrow> snd st' a = snd st a)"
  using i s(1)
proof (cases rule: malloc_cases)
  case (null st')
  have "snd st' a = snd st a" if "i < NumBins" "p \<in> set (Fs i)" "a \<in> set (foot p)" for i p a
    using seg_listsD(2) [OF l that(1,2)] foot_covered(1) [OF inv_blocks [OF i] X _ that(3)] null(3) by blast
  then have "seg_lists NumBins getClassMaxSize repr X bins (snd st') Fs" by (rule seg_lists_frame [OF l])
  then have "seg_inv NumBins getClassMaxSize repr inv ((g, fst st'), snd st') L"
    using null(2) X w len out by (auto simp: seg_inv_def)
  then show ?thesis using null(1,3) within_covered [OF w] 
    by (intro exI [of _ 0] exI [of _ "((g, fst st'), snd st')"]) (simp add: big_result_def case_prod_unfold)
next
  case (block p st')
  have "snd st' a = snd st a" if "i < NumBins" "p \<in> set (Fs i)" "a \<in> set (foot p)" for i p a
    using seg_listsD(2) [OF l that(1,2)] foot_covered(1) [OF inv_blocks [OF i] X _ that(3)] block(5) by blast
  then have "seg_lists NumBins getClassMaxSize repr X bins (snd st') Fs" by (rule seg_lists_frame [OF l])
  then have l': "seg_lists NumBins getClassMaxSize repr (insert (p, unat s) X) bins (snd st') Fs"
    by (rule seg_lists_mono) blast
  have pos: "0 < unat (getClassMaxSize 0)" using class0 by linarith
  have new: "(p, n) \<notin> X" for n
  proof
    assume n: "(p, n) \<in> X"
    have "n = unat s" using ok_blocks_fst [OF inv_blocks [OF block(3)], of p n "unat s"] n X s(2) pos by fastforce
    with n block(4) show False by blast
  qed
  have pL: "p \<notin> fst ` L"
  proof
    assume "p \<in> fst ` L"
    then obtain b where "b \<in> L" "fst b = p" by blast
    with within_block [OF w] new show False by metis
  qed
  have pF: "p \<notin> set (Fs i)" if "i < NumBins" for i using seg_listsD(2) [OF l that] new by blast
  have "within (insert (p, k) L) (insert (p, unat s) X)"
    using within_insert [OF within_mono [OF w, of "insert (p, unat s) X"] _ s(3) pL] by blast
  then have "seg_inv NumBins getClassMaxSize repr inv ((g, fst st'), snd st') (insert (p, k) L)"
    using block(3) X s(2) l' len out pF
    by (auto simp: seg_inv_def intro!: exI [of _ "insert (p, unat s) X"] exI [of _ Fs])
  moreover have "(p, k) \<notin> L" using pL by force
  ultimately show ?thesis using block(1,2,5) within_covered [OF w]
    by (intro exI [of _ p] exI [of _ "((g, fst st'), snd st')"]) (simp add: big_result_def case_prod_unfold)
qed

lemma class0_le: "i < NumBins \<Longrightarrow> unat (getClassMaxSize 0) \<le> unat (getClassMaxSize i)"
  using class_min [of i] by (simp add: word_le_nat_alt)

text \<open>What the invariant gives the proofs.\<close>

lemma seg_invE:
  assumes "seg_inv NumBins getClassMaxSize repr inv ((g, h), m) L"
  obtains X Fs where "inv (h, m) X" and "\<forall>b \<in> X. unat (getClassMaxSize 0) \<le> snd b" and "within L X"
    and "seg_lists NumBins getClassMaxSize repr X (sg_bins g) m Fs" and "length (sg_bins g) = NumBins"
    and "\<forall>i < NumBins. \<forall>p \<in> set (Fs i). p \<notin> fst ` L"
  using assms unfolding seg_inv_def by auto

lemma seg_malloc_law:
  assumes i: "seg_inv NumBins getClassMaxSize repr inv st L" and ok: "seg_ok NumBins getSizeClass getClassMaxSize oksize sz"
  shows "\<exists>p st'. StrictSegHeap_malloc NumBins getSizeClass getClassMaxSize get malloc sz st = Some (p, st') \<and>
      (if p = 0 then seg_inv NumBins getClassMaxSize repr inv st' L
       else seg_inv NumBins getClassMaxSize repr inv st' (insert (p, unat sz) L) \<and> (p, unat sz) \<notin> L) \<and>
      (\<forall>a. covered L a \<longrightarrow> snd st' a = snd st a)"
proof -
  obtain g h m where st: "st = ((g, h), m)" by (metis surj_pair)
  obtain X Fs where iX: "inv (h, m) X" and X: "\<forall>b \<in> X. unat (getClassMaxSize 0) \<le> snd b" and w: "within L X"
    and l: "seg_lists NumBins getClassMaxSize repr X (sg_bins g) m Fs" and len: "length (sg_bins g) = NumBins"
    and out: "\<forall>i < NumBins. \<forall>p \<in> set (Fs i). p \<notin> fst ` L"
    by (rule seg_invE [OF i [unfolded st]])
  show ?thesis
  proof (cases "sz \<le> maxObjectSize NumBins getClassMaxSize")
    case False
    have "unat (getClassMaxSize 0) \<le> unat (getClassMaxSize (NumBins - 1))" using class0_le bins_pos by simp
    also have "\<dots> \<le> unat sz" using False by (simp add: maxObjectSize_def word_le_nat_alt)
    finally have "unat (getClassMaxSize 0) \<le> unat sz" .
    moreover have "oksize sz" using ok False by (simp add: seg_ok_def)
    ultimately show ?thesis
      using seg_new [OF iX X w _ len refl out, of sz "unat sz"] l False by (simp add: StrictSegHeap_malloc_def st)
  next
    case True
    define c where "c = getSizeClass sz"
    have c: "c < NumBins" "sz \<le> getClassMaxSize c" using class_lt class_fits True by (auto simp: c_def maxObjectSize_def)
    have okc: "oksize (getClassMaxSize c)" using ok True by (simp add: seg_ok_def c_def)
    show ?thesis
    proof (cases "Fs c")
      case Nil
      have g: "get (sg_bins g ! c, m) = (0, (sg_bins g ! c, m))" using seg_listsD(1) [OF l c(1)] Nil get_nil by simp
      have "StrictSegHeap_malloc NumBins getSizeClass getClassMaxSize get malloc sz st
          = map_option (big_result g) (malloc (getClassMaxSize c) (h, m))"
        using True g by (simp add: StrictSegHeap_malloc_def st Let_def c_def [symmetric] AdaptHeap_malloc_def)
      then show ?thesis
        using seg_new [OF iX X w _ len refl out okc class0_le [OF c(1)], of "unat sz"] l c(2)
        by (simp add: st word_le_nat_alt)
    next
      case (Cons e es)
      have k: "unat sz \<le> unat (getClassMaxSize c)" using c(2) by (simp add: word_le_nat_alt)
      obtain hw m' where r: "get (sg_bins g ! c, m) = (e, (hw, m'))" "e \<noteq> 0" "(e, unat sz) \<notin> L" "inv (h, m') X"
          "within (insert (e, unat sz) L) X"
          "seg_lists NumBins getClassMaxSize repr X ((sg_bins g)[c := hw]) m' (Fs(c := es))"
          "\<forall>i < NumBins. \<forall>p \<in> set ((Fs(c := es)) i). p \<notin> fst ` insert (e, unat sz) L"
          "\<forall>a. covered L a \<longrightarrow> m' a = m a"
        using seg_reuse [OF iX X w l len out c(1) Cons k] by blast
      let ?g = "g\<lparr>sg_bins := (sg_bins g)[c := hw]\<rparr>"
      have "seg_inv NumBins getClassMaxSize repr inv ((?g, h), m') (insert (e, unat sz) L)"
        using r(4-7) X len by (auto simp: seg_inv_def simp del: fun_upd_apply intro!: exI [of _ X] exI [of _ "Fs(c := es)"])
      moreover have "StrictSegHeap_malloc NumBins getSizeClass getClassMaxSize get malloc sz st = Some (e, ((?g, h), m'))"
        using True r(1,2) by (simp add: StrictSegHeap_malloc_def st Let_def c_def [symmetric] AdaptHeap_malloc_def)
      ultimately show ?thesis using r(2,3,8)
        by (intro exI [of _ e] exI [of _ "((?g, h), m')"]) (simp add: st)
    qed
  qed
qed

text \<open>Returning a block to its bin, and a large one to the big heap.\<close>

lemma live_key:
  assumes "within L X" and "(p, k) \<in> L"
  shows "p \<notin> fst ` (L - {(p, k)})"
  using assms by (force simp: within_def inj_on_def)

lemma seg_put:
  assumes iX: "inv (h, m) X" and X: "\<forall>b \<in> X. unat (getClassMaxSize 0) \<le> snd b" and w: "within L X"
    and l: "seg_lists NumBins getClassMaxSize repr X bins m Fs" and len: "length bins = NumBins"
    and out: "\<forall>i < NumBins. \<forall>p \<in> set (Fs i). p \<notin> fst ` L" and pL: "p \<notin> fst ` L"
    and pF: "\<And>i. i < NumBins \<Longrightarrow> p \<notin> set (Fs i)" and n: "(p, n) \<in> X"
    and c: "c < NumBins" "unat (getClassMaxSize c) \<le> n" and ins: "ins p (bins ! c, m) = (hw, m')"
  shows "inv (h, m') X \<and> seg_lists NumBins getClassMaxSize repr X (bins[c := hw]) m' (Fs(c := p # Fs c)) \<and>
    (\<forall>a. covered L a \<longrightarrow> m' a = m a)"
proof -
  note okX = inv_blocks [OF iX]
  have r: "repr (bins ! c, m) (Fs c)" by (rule seg_listsD(1) [OF l c(1)])
  have p0: "p \<noteq> 0" using okX n by (auto simp: ok_blocks_def ok_block_def)
  have blks: "\<exists>n. (q, n) \<in> X" if "q \<in> set (p # Fs c)" for q using seg_listsD(2) [OF l c(1), of q] that n by auto
  have "a \<notin> set (foot q)" if "a \<in> set (foot p)" "q \<in> set (Fs c)" for a q
    using foots_apart [OF okX X n _ _ that(1)] blks [of q] that(2) pF [OF c(1)] by (metis list.set_intros(2))
  then have d: "distinct (foots foot (p # Fs c))" using repr_foots [OF r] foot_self(2) by (auto simp: foots_mem)
  have r': "repr (hw, m') (p # Fs c)" using ins_cons [OF r p0 d] ins by simp
  have fr: "m' a = m a" if "a \<notin> set (foots foot (p # Fs c))" for a using ins_frame [OF r that] ins by simp
  have foot: "covered X a \<and> \<not> covered L a" if aF: "a \<in> set (foots foot (p # Fs c))" for a
  proof -
    obtain q where q: "q \<in> set (p # Fs c)" "a \<in> set (foot q)" using aF unfolding foots_mem by blast
    have "q \<notin> fst ` L" using q(1) pL out c(1) by auto
    with q blks [OF q(1)] show ?thesis using foot_covered(1) [OF okX X] foot_uncovered [OF okX X _ w] by blast
  qed
  have "inv (h, m') X" using foot fr by (intro inv_frame [OF iX]) blast
  moreover have "seg_lists NumBins getClassMaxSize repr X (bins[c := hw]) m' (Fs(c := p # Fs c))"
  proof (rule seg_lists_update [OF l c(1) len r'])
    show "\<forall>q \<in> set (p # Fs c). \<exists>n. (q, n) \<in> X \<and> unat (getClassMaxSize c) \<le> n"
      using seg_listsD(2) [OF l c(1)] n c(2) by auto
    show "set (p # Fs c) \<inter> set (Fs i) = {}" if "i < NumBins" "i \<noteq> c" for i
      using seg_listsD(3) [OF l c(1) that(1)] that pF by auto
    fix i q a assume iq: "i < NumBins" "i \<noteq> c" "q \<in> set (Fs i)" and a: "a \<in> set (foot q)"
    obtain j where j: "(q, j) \<in> X" using seg_listsD(2) [OF l iq(1,3)] by blast
    have "a \<notin> set (foot r)" if rF: "r \<in> set (p # Fs c)" for r
    proof -
      have "q \<noteq> r" using seg_listsD(3) [OF l c(1) iq(1), of r] iq rF pF by auto
      with blks [OF rF] show ?thesis using foots_apart [OF okX X j _ _ a] by blast
    qed
    then show "m' a = m a" by (intro fr) (auto simp: foots_mem)
  qed
  ultimately show ?thesis using fr foot by blast
qed

lemma seg_release:
  assumes iX: "inv (h, m) X" and X: "\<forall>b \<in> X. unat (getClassMaxSize 0) \<le> snd b" and w: "within L X"
    and l: "seg_lists NumBins getClassMaxSize repr X bins m Fs"
    and pL: "(p, k) \<in> L" and pF: "\<And>i. i < NumBins \<Longrightarrow> p \<notin> set (Fs i)" and n: "(p, n) \<in> X"
  shows "\<exists>st'. free p (h, m) = Some st' \<and> inv st' (X - {(p, n)}) \<and> within (L - {(p, k)}) (X - {(p, n)}) \<and>
    seg_lists NumBins getClassMaxSize repr (X - {(p, n)}) bins (snd st') Fs \<and>
    (\<forall>a. covered (L - {(p, k)}) a \<longrightarrow> snd st' a = m a)"
proof -
  let ?X = "X - {(p, n)}"
  obtain st' where f: "free p (h, m) = Some st'" "inv st' ?X" "\<forall>a. covered ?X a \<longrightarrow> snd st' a = m a"
    using free_law [OF iX n] by auto
  have pos: "\<forall>b \<in> X. 0 < snd b" using X class0 by fastforce
  have wX: "within (L - {(p, k)}) ?X" by (rule within_remove [OF w pL inv_blocks [OF iX] pos n])
  have lX: "seg_lists NumBins getClassMaxSize repr ?X bins m Fs" using l pF unfolding seg_lists_def by fastforce
  have okX: "ok_blocks ?X" and bX: "\<forall>b \<in> ?X. unat (getClassMaxSize 0) \<le> snd b"
    using ok_blocks_mono [OF inv_blocks [OF iX]] X by blast+
  have "snd st' a = m a" if q: "i < NumBins" "q \<in> set (Fs i)" "a \<in> set (foot q)" for i q a
    using seg_listsD(2) [OF lX q(1,2)] foot_covered(1) [OF okX bX _ q(3)] f(3) by blast
  then have "seg_lists NumBins getClassMaxSize repr ?X bins (snd st') Fs" by (rule seg_lists_frame [OF lX])
  with f wX within_covered [OF wX] show ?thesis by blast
qed

lemma seg_free_law:
  assumes i: "seg_inv NumBins getClassMaxSize repr inv st L" and pL: "(p, k) \<in> L"
  shows "\<exists>st'. StrictSegHeap_free NumBins getSizeClass getClassMaxSize ins free getSize p st = Some st' \<and>
      seg_inv NumBins getClassMaxSize repr inv st' (L - {(p, k)}) \<and> (\<forall>a. covered (L - {(p, k)}) a \<longrightarrow> snd st' a = snd st a)"
proof -
  obtain g h m where st: "st = ((g, h), m)" by (metis surj_pair)
  obtain X Fs where iX: "inv (h, m) X" and X: "\<forall>b \<in> X. unat (getClassMaxSize 0) \<le> snd b" and w: "within L X"
    and l: "seg_lists NumBins getClassMaxSize repr X (sg_bins g) m Fs" and len: "length (sg_bins g) = NumBins"
    and out: "\<forall>i < NumBins. \<forall>p \<in> set (Fs i). p \<notin> fst ` L"
    by (rule seg_invE [OF i [unfolded st]])
  let ?L = "L - {(p, k)}"
  obtain n where n: "(p, n) \<in> X" "k \<le> n" using within_block [OF w pL] by auto
  obtain s where s: "getSize p (h, m) = Some s" "unat s = n" using getSize_law [OF iX n(1)] by blast
  have ns: "unat (getClassMaxSize 0) \<le> unat s" using X n(1) s(2) by fastforce
  have s0: "s \<noteq> 0" using ns class0 by auto
  have pF: "p \<notin> set (Fs i)" if "i < NumBins" for i using out that pL by force
  have out': "\<forall>i < NumBins. \<forall>p \<in> set (Fs i). p \<notin> fst ` ?L" using out by blast
  show ?thesis
  proof (cases "s > maxObjectSize NumBins getClassMaxSize")
    case True
    from seg_release [OF iX X w l pL pF n(1)] obtain st' where f: "free p (h, m) = Some st'" "inv st' (X - {(p, n)})"
      "within ?L (X - {(p, n)})" "seg_lists NumBins getClassMaxSize repr (X - {(p, n)}) (sg_bins g) (snd st') Fs"
      "\<forall>a. covered ?L a \<longrightarrow> snd st' a = m a" by blast
    then have "seg_inv NumBins getClassMaxSize repr inv ((g, fst st'), snd st') ?L"
      using X len out' unfolding seg_inv_def prod.case by (intro conjI exI [of _ "X - {(p, n)}"] exI [of _ Fs]) auto
    then show ?thesis using f(1,5) s s0 True
      by (intro exI [of _ "((g, fst st'), snd st')"]) (simp add: StrictSegHeap_free_def st case_prod_unfold)
  next
    case False
    then have sm: "s \<le> getClassMaxSize (NumBins - 1)" by (simp add: maxObjectSize_def)
    obtain c where c: "c \<le> getSizeClass s" "class_down getClassMaxSize s (getSizeClass s) = Some c" "getClassMaxSize c \<le> s"
      using class_down_spec [of getClassMaxSize s "getSizeClass s"] ns by (auto simp: word_le_nat_alt)
    have cN: "c < NumBins" "unat (getClassMaxSize c) \<le> n"
      using c class_lt [OF sm] s(2) by (auto simp: word_le_nat_alt)
    obtain hw m' where hw: "ins p (sg_bins g ! c, m) = (hw, m')" by (metis surj_pair)
    note pL' = live_key [OF w pL] and w' = within_sub [OF w, of ?L, OF Diff_subset]
    note put = seg_put [OF iX X w' l len out' pL' pF n(1) cN hw]
    have "\<forall>i < NumBins. \<forall>q \<in> set ((Fs(c := p # Fs c)) i). q \<notin> fst ` ?L" using out' pL' cN by auto
    with put have "seg_inv NumBins getClassMaxSize repr inv
        ((g\<lparr>sg_bins := (sg_bins g)[c := hw], sg_held := sg_held g + s\<rparr>, h), m') ?L"
      using X w' len unfolding seg_inv_def prod.case
      by (intro conjI exI [of _ X] exI [of _ "Fs(c := p # Fs c)"]) simp_all
    then show ?thesis using s(1) s0 False c(2) hw put
      by (simp add: StrictSegHeap_free_def st AdaptHeap_free_def)
  qed
qed

theorem seg_source_heap:
  "source_heap (StrictSegHeap_malloc NumBins getSizeClass getClassMaxSize get malloc)
     (StrictSegHeap_free NumBins getSizeClass getClassMaxSize ins free getSize)
     (seg_ok NumBins getSizeClass getClassMaxSize oksize)
     (seg_inv NumBins getClassMaxSize repr inv)"
proof unfold_locales
  show "ok_blocks L" if "seg_inv NumBins getClassMaxSize repr inv st L" for st :: "(seg \<times> 'a) hstate" and L
    using that by (auto simp: seg_inv_def intro: within_blocks inv_blocks)
next
  fix gh :: "seg \<times> 'a" and m m' :: hmem and L
  assume i: "seg_inv NumBins getClassMaxSize repr inv (gh, m) L" and fr: "\<And>a. \<not> covered L a \<Longrightarrow> m' a = m a"
  obtain g h where gh: "gh = (g, h)" by (cases gh)
  obtain X Fs where iX: "inv (h, m) X" and X: "\<forall>b \<in> X. unat (getClassMaxSize 0) \<le> snd b" and w: "within L X"
    and l: "seg_lists NumBins getClassMaxSize repr X (sg_bins g) m Fs" and len: "length (sg_bins g) = NumBins"
    and out: "\<forall>i < NumBins. \<forall>p \<in> set (Fs i). p \<notin> fst ` L"
    by (rule seg_invE [OF i [unfolded gh]])
  have "m' a = m a" if q: "i < NumBins" "q \<in> set (Fs i)" "a \<in> set (foot q)" for i q a
    using seg_listsD(2) [OF l q(1,2)] foot_uncovered [OF inv_blocks [OF iX] X _ w _ q(3)] out q(1,2) fr by blast
  from seg_lists_frame [OF l this] have "seg_lists NumBins getClassMaxSize repr X (sg_bins g) m' Fs" .
  moreover have "inv (h, m') X" using within_covered [OF w] by (intro inv_frame [OF iX] fr) blast
  ultimately show "seg_inv NumBins getClassMaxSize repr inv (gh, m') L" using X w len out by (auto simp: seg_inv_def gh)
qed (rule seg_malloc_law seg_free_law, assumption+)+

end

end
