(* ===== verification/Hl_Kingsley.thy ===== *)
theory Hl_Kingsley
  imports Hl_Strict
begin

text \<open>
  \<open>heaplayers/ansiwrapper.h\<close>, and the whole allocator \<open>KingsleyStyleHeap\<close> of \<open>include/warpheap.h\<close>:
  \<open>ANSIWrapper\<close> over \<open>StrictSegHeap\<close> with Kingsley's classes and \<open>AdaptHeap<DLList>\<close> bins, over
  \<open>NewSourceHeap<ZoneHeap<SourceHeap, CHUNKY>>\<close>.
\<close>

section \<open>\<open>ANSIWrapper\<close>\<close>

definition ansi_align :: "u32 \<Rightarrow> u32" where
  "ansi_align sz = (sz + (sizeof_double - 1)) AND NOT (sizeof_double - 1)"

text \<open>The size that reaches the super heap.\<close>

definition ansi_size :: "u32 \<Rightarrow> u32" where
  "ansi_size sz = (let sz = (if sz < 8 then 8 else sz) in ansi_align sz)"

definition ANSIWrapper_malloc ::
  "(u32 \<Rightarrow> 'h hstate \<Rightarrow> (u32 \<times> 'h hstate) option) \<Rightarrow> u32 \<Rightarrow> 'h hstate \<Rightarrow> (u32 \<times> 'h hstate) option" where
  "ANSIWrapper_malloc smalloc sz st = smalloc (ansi_size sz) st"

definition ANSIWrapper_free ::
  "(u32 \<Rightarrow> 'h hstate \<Rightarrow> 'h hstate option) \<Rightarrow> u32 \<Rightarrow> 'h hstate \<Rightarrow> 'h hstate option" where
  "ANSIWrapper_free sfree ptr st = (if ptr \<noteq> 0 then sfree ptr st else Some st)"

definition ANSIWrapper_getSize :: "(u32 \<Rightarrow> 'h hstate \<Rightarrow> u32 option) \<Rightarrow> u32 \<Rightarrow> 'h hstate \<Rightarrow> u32 option" where
  "ANSIWrapper_getSize sgetSize ptr st = (if ptr \<noteq> 0 then sgetSize ptr st else Some 0)"

text \<open>\<open>memset (ptr, 0, n)\<close> and \<open>memcpy (buf, ptr, n)\<close> for areas that do not overlap.\<close>

definition memset0 :: "u32 \<Rightarrow> u32 \<Rightarrow> hmem \<Rightarrow> hmem" where
  "memset0 ptr n m = (\<lambda>a. if a - ptr < n then 0 else m a)"

definition mem_copy :: "u32 \<Rightarrow> u32 \<Rightarrow> u32 \<Rightarrow> hmem \<Rightarrow> hmem" where
  "mem_copy buf ptr n m = (\<lambda>a. if a - buf < n then m (ptr + (a - buf)) else m a)"

definition ANSIWrapper_calloc ::
  "(u32 \<Rightarrow> 'h hstate \<Rightarrow> (u32 \<times> 'h hstate) option) \<Rightarrow> u32 \<Rightarrow> u32 \<Rightarrow> 'h hstate \<Rightarrow> (u32 \<times> 'h hstate) option" where
  "ANSIWrapper_calloc smalloc s1 s2 st =
     map_option (\<lambda>(ptr, (h, m)). (ptr, (h, if ptr \<noteq> 0 then memset0 ptr (s1 * s2) m else m)))
       (ANSIWrapper_malloc smalloc (s1 * s2) st)"

definition ANSIWrapper_realloc ::
  "(u32 \<Rightarrow> 'h hstate \<Rightarrow> (u32 \<times> 'h hstate) option) \<Rightarrow> (u32 \<Rightarrow> 'h hstate \<Rightarrow> 'h hstate option)
   \<Rightarrow> (u32 \<Rightarrow> 'h hstate \<Rightarrow> u32 option) \<Rightarrow> u32 \<Rightarrow> u32 \<Rightarrow> 'h hstate \<Rightarrow> (u32 \<times> 'h hstate) option" where
  "ANSIWrapper_realloc smalloc sfree sgetSize ptr sz st =
     (if ptr = 0 then ANSIWrapper_malloc smalloc sz st
      else if sz = 0 then map_option (Pair 0) (ANSIWrapper_free sfree ptr st)
      else Option.bind (ANSIWrapper_getSize sgetSize ptr st) (\<lambda>objSize.
        if objSize = sz then Some (ptr, st)
        else Option.bind (ANSIWrapper_malloc smalloc sz st) (\<lambda>(buf, (h, m)).
          let minSize = (if objSize < sz then objSize else sz);
              m = (if buf \<noteq> 0 then mem_copy buf ptr minSize m else m)
          in map_option (Pair buf) (ANSIWrapper_free sfree ptr (h, m)))))"

section \<open>\<open>ANSIWrapper\<close> as a source heap\<close>

definition ansi_ok :: "(u32 \<Rightarrow> bool) \<Rightarrow> u32 \<Rightarrow> bool" where
  "ansi_ok ok sz \<longleftrightarrow> unat sz + 7 < 2 ^ 32 \<and> ok (ansi_size sz)"

text \<open>The blocks of the super heap start with the blocks that the wrapper hands out.\<close>

definition ansi_inv :: "('h hstate \<Rightarrow> block set \<Rightarrow> bool) \<Rightarrow> 'h hstate \<Rightarrow> block set \<Rightarrow> bool" where
  "ansi_inv sinv st L \<longleftrightarrow> (\<exists>X. sinv st X \<and> (\<forall>b \<in> X. 8 \<le> snd b) \<and> within L X)"

lemma unat_ansi_size: "unat sz + 7 < 2 ^ 32 \<Longrightarrow> unat (ansi_size sz) = round_up 8 (max 8 (unat sz))"
proof -
  assume ok: "unat sz + 7 < 2 ^ 32"
  define t :: u32 where "t = (if sz < 8 then 8 else sz)"
  have t: "unat t = max 8 (unat sz)" by (auto simp: t_def word_less_nat_alt max_def)
  then have "unat (t + 7) = unat t + 7" using ok by (subst unat_add_nowrap) auto
  then have "unat ((t + 7) AND NOT (mask 3)) = round_up 8 (unat t)"
    by (simp only: unat_and_not_mask) (simp add: round_up_def)
  then show ?thesis
    by (simp add: ansi_size_def Let_def t_def [symmetric] ansi_align_def sizeof_double_def mask_eq_exp_minus_1 t)
qed

context source_heap
begin

text \<open>The address of a new block is that of no older one.\<close>

lemma new_address:
  assumes "inv st (insert (p, n) X)" and "(p, n) \<notin> X" and "0 < n" and "\<forall>b \<in> X. 0 < snd b" and "within L X"
  shows "p \<notin> fst ` L"
proof
  assume "p \<in> fst ` L"
  then obtain b where b: "b \<in> L" "fst b = p" by blast
  obtain k where "(p, k) \<in> X" using within_block [OF assms(5) b(1)] b(2) by blast
  with ok_blocks_fst [OF inv_blocks [OF assms(1)], of p n k] assms(2-4) show False by fastforce
qed

theorem ansi_source_heap:
  "source_heap (ANSIWrapper_malloc malloc) (ANSIWrapper_free free) (ansi_ok oksize) (ansi_inv inv)"
proof unfold_locales
  show "ok_blocks L" if "ansi_inv inv st L" for st :: "'h hstate" and L
    using that by (auto simp: ansi_inv_def intro: within_blocks inv_blocks)
next
  fix st :: "'h hstate" and L sz
  assume i: "ansi_inv inv st L" and ok: "ansi_ok oksize sz"
  obtain X where X: "inv st X" "\<forall>b \<in> X. 8 \<le> snd b" and w: "within L X" using i by (auto simp: ansi_inv_def)
  let ?s = "ansi_size sz"
  have s: "oksize ?s" "8 \<le> unat ?s" "unat sz \<le> unat ?s"
    using ok unat_ansi_size [of sz] round_up_ge [of 8 "max 8 (unat sz)"] by (auto simp: ansi_ok_def)
  show "\<exists>p st'. ANSIWrapper_malloc malloc sz st = Some (p, st') \<and>
      (if p = 0 then ansi_inv inv st' L else ansi_inv inv st' (insert (p, unat sz) L) \<and> (p, unat sz) \<notin> L) \<and>
      (\<forall>a. covered L a \<longrightarrow> snd st' a = snd st a)"
    using X(1) s(1)
  proof (cases rule: malloc_cases)
    case (null st')
    with X(2) w within_covered [OF w] show ?thesis
      by (intro exI [of _ 0] exI [of _ st']) (auto simp: ANSIWrapper_malloc_def ansi_inv_def)
  next
    case (block p st')
    have pL: "p \<notin> fst ` L" using X(2) s(2) by (intro new_address [OF block(3,4) _ _ w]) auto
    have "within (insert (p, unat sz) L) (insert (p, unat ?s) X)"
      using within_insert [OF within_mono [OF w subset_insertI] insertI1 s(3) pL] .
    moreover have "\<forall>b \<in> insert (p, unat ?s) X. 8 \<le> snd b" using X(2) s(2) by simp
    ultimately have "ansi_inv inv st' (insert (p, unat sz) L)" using block(3) unfolding ansi_inv_def by blast
    moreover have "(p, unat sz) \<notin> L" using pL by force
    ultimately show ?thesis using block(1,2,5) within_covered [OF w]
      by (intro exI [of _ p] exI [of _ st']) (simp add: ANSIWrapper_malloc_def)
  qed
next
  fix st :: "'h hstate" and L p k
  assume i: "ansi_inv inv st L" and pL: "(p, k) \<in> L"
  obtain X where X: "inv st X" "\<forall>b \<in> X. 8 \<le> snd b" and w: "within L X" using i by (auto simp: ansi_inv_def)
  obtain n where n: "(p, n) \<in> X" using within_block [OF w pL] by auto
  have p0: "p \<noteq> 0" using inv_blocks [OF X(1)] n by (auto simp: ok_blocks_def ok_block_def)
  obtain st' where f: "free p st = Some st'" "inv st' (X - {(p, n)})" "\<forall>a. covered (X - {(p, n)}) a \<longrightarrow> snd st' a = snd st a"
    using free_law [OF X(1) n] by blast
  have "\<forall>b \<in> X. 0 < snd b" using X(2) by fastforce
  then have w': "within (L - {(p, k)}) (X - {(p, n)})" by (rule within_remove [OF w pL inv_blocks [OF X(1)] _ n])
  then have "ansi_inv inv st' (L - {(p, k)})" using f(2) X(2) unfolding ansi_inv_def by blast
  then show "\<exists>st'. ANSIWrapper_free free p st = Some st' \<and> ansi_inv inv st' (L - {(p, k)}) \<and>
      (\<forall>a. covered (L - {(p, k)}) a \<longrightarrow> snd st' a = snd st a)"
    using f(1,3) p0 within_covered [OF w'] by (intro exI [of _ st']) (simp add: ANSIWrapper_free_def)
next
  fix h and m m' :: hmem and L
  assume "ansi_inv inv (h, m) L" and fr: "\<And>a. \<not> covered L a \<Longrightarrow> m' a = m a"
  then obtain X where X: "inv (h, m) X" "\<forall>b \<in> X. 8 \<le> snd b" and w: "within L X" by (auto simp: ansi_inv_def)
  have "inv (h, m') X" using within_covered [OF w] by (intro inv_frame [OF X(1)] fr) blast
  with X(2) w show "ansi_inv inv (h, m') L" by (auto simp: ansi_inv_def)
qed

end

section \<open>\<open>KingsleyStyleHeap\<close>\<close>

definition CHUNKY :: u32 where "CHUNKY = 1048576"

text \<open>The big heap \<open>NewSourceHeap<ZoneHeap<SourceHeap, CHUNKY>>\<close>.\<close>

definition kingsley_big ::
  "(u32 \<Rightarrow> 'h hstate \<Rightarrow> (u32 \<times> 'h hstate) option) \<Rightarrow> u32 \<Rightarrow> (zone \<times> 'h) hstate \<Rightarrow> (u32 \<times> (zone \<times> 'h) hstate) option" where
  "kingsley_big smalloc = NewSourceHeap_malloc (zone_malloc smalloc CHUNKY)"

definition KingsleyStyleHeap_malloc ::
  "(u32 \<Rightarrow> 'h hstate \<Rightarrow> (u32 \<times> 'h hstate) option) \<Rightarrow> u32 \<Rightarrow> (seg \<times> zone \<times> 'h) hstate
   \<Rightarrow> (u32 \<times> (seg \<times> zone \<times> 'h) hstate) option" where
  "KingsleyStyleHeap_malloc smalloc =
     ANSIWrapper_malloc (StrictSegHeap_malloc NUMBINS size2Class class2Size dll_get (kingsley_big smalloc))"

definition KingsleyStyleHeap_free :: "u32 \<Rightarrow> (seg \<times> zone \<times> 'h) hstate \<Rightarrow> (seg \<times> zone \<times> 'h) hstate option" where
  "KingsleyStyleHeap_free =
     ANSIWrapper_free (StrictSegHeap_free NUMBINS size2Class class2Size dll_insert (NewSourceHeap_free zone_free) NewSourceHeap_getSize)"

definition KingsleyStyleHeap_new :: "'h \<Rightarrow> seg \<times> zone \<times> 'h" where
  "KingsleyStyleHeap_new h = (SegHeap_new NUMBINS, zone_new, h)"

definition kingsley_ok :: "(u32 \<Rightarrow> bool) \<Rightarrow> u32 \<Rightarrow> bool" where
  "kingsley_ok ok = ansi_ok (seg_ok NUMBINS size2Class class2Size (new_source_ok (zone_ok ok CHUNKY)))"

definition kingsley_inv :: "('h hstate \<Rightarrow> block set \<Rightarrow> bool) \<Rightarrow> (seg \<times> zone \<times> 'h) hstate \<Rightarrow> block set \<Rightarrow> bool" where
  "kingsley_inv sinv = ansi_inv (seg_inv NUMBINS class2Size dl_repr (new_source_inv (zone_inv sinv)))"

lemma class2Size_mono: "i \<le> j \<Longrightarrow> j < NUMBINS \<Longrightarrow> class2Size i \<le> class2Size j"
  by (auto simp: word_le_nat_alt unat_class2Size NUMBINS_def)

context source_heap
begin

lemma kingsley_seg_heap:
  "seg_heap (kingsley_big malloc) (NewSourceHeap_free zone_free) (new_source_ok (zone_ok oksize CHUNKY))
     (new_source_inv (zone_inv inv)) NewSourceHeap_getSize size2Class class2Size NUMBINS dll_get dll_insert foot2 dl_repr"
proof (rule seg_heap.intro)
  show "sized_heap (kingsley_big malloc) (NewSourceHeap_free zone_free) (new_source_ok (zone_ok oksize CHUNKY))
      (new_source_inv (zone_inv inv)) NewSourceHeap_getSize"
    unfolding kingsley_big_def by (rule source_heap.new_source_heap [OF zone_source_heap])
  show "seg_heap_axioms class2Size NUMBINS foot2"
    by unfold_locales (auto simp: foot2_def unat_class2Size class2Size_mono)
qed (rule kingsley.bin_classes_axioms dll.dictionary_axioms)+

theorem kingsley_source_heap:
  "source_heap (KingsleyStyleHeap_malloc malloc) KingsleyStyleHeap_free (kingsley_ok oksize) (kingsley_inv inv)"
  unfolding KingsleyStyleHeap_malloc_def KingsleyStyleHeap_free_def kingsley_ok_def kingsley_inv_def
  by (rule source_heap.ansi_source_heap [OF seg_heap.seg_source_heap [OF kingsley_seg_heap]])

end

lemma kingsley_ok_small:
  assumes ok: "ok (sizeof_Arena + CHUNKY)" and sz: "unat sz \<le> 2048"
  shows "kingsley_ok ok sz"
proof -
  define s where "s = ansi_size sz"
  have s: "unat s = round_up 8 (max 8 (unat sz))" using unat_ansi_size [of sz] sz by (simp add: s_def)
  have s8: "8 \<le> unat s" "unat s \<le> 2048" using s sz by (auto simp: round_up_def max_def)
  define c where "c = size2Class s"
  have c: "c < 29" "0 < c \<longrightarrow> 2 ^ (c + 2) < unat s" using size2Class_bounds [of s] s8 by (simp_all add: c_def)
  have c8: "c \<le> 8"
  proof (rule ccontr)
    assume "\<not> c \<le> 8"
    then have "(2::nat) ^ 11 \<le> 2 ^ (c + 2)" by (intro power_increasing) auto
    with c(2) s8 \<open>\<not> c \<le> 8\<close> show False by auto
  qed
  define o' where "o' = class2Size c"
  have "(2::nat) ^ (c + 3) \<le> 2 ^ 11" using c8 by (intro power_increasing) auto
  moreover have "(2::nat) ^ 3 \<le> 2 ^ (c + 3)" by (intro power_increasing) auto
  ultimately have o8: "8 \<le> unat o'" "unat o' \<le> 2048" using c(1) by (simp_all add: o'_def unat_class2Size)
  have u: "unat (o' + 8) = unat o' + 8" using o8 by (subst unat_add_nowrap) auto
  have "unat (zone_align (o' + 8)) \<le> 2063" using unat_zone_align [of "o' + 8"] u o8 by (auto simp: round_up_def)
  then have a: "arena_size CHUNKY (zone_align (o' + 8)) = CHUNKY"
    by (auto simp: arena_size_def Let_def CHUNKY_def word_less_nat_alt)
  have "zone_ok ok CHUNKY (o' + 8)"
    unfolding zone_ok_def a using ok u o8 by (simp add: word_less_nat_alt, simp add: CHUNKY_def)
  moreover have "\<not> page_aligned o'" using o8 by (simp add: page_aligned_def sizeof_objectHeader_def word_le_nat_alt)
  ultimately have "new_source_ok (zone_ok ok CHUNKY) o'" by (simp add: new_source_ok_def sizeof_objectHeader_def)
  moreover have "s \<le> maxObjectSize NUMBINS class2Size"
    using s8 by (simp add: maxObjectSize_def NUMBINS_def word_le_nat_alt unat_class2Size)
  ultimately show ?thesis
    using sz by (simp add: kingsley_ok_def ansi_ok_def seg_ok_def s_def [symmetric] c_def [symmetric] o'_def [symmetric])
qed

lemma kingsley_initial:
  assumes "sinv (h, m) {}"
  shows "kingsley_inv sinv (KingsleyStyleHeap_new h, m) {}"
proof -
  have "zone_inv sinv ((zone_new, h), m) {}"
    using assms by (auto simp: zone_inv_def zone_layout_def zone_new_def intro!: exI [of _ "{}"])
  then have "new_source_inv (zone_inv sinv) ((zone_new, h), m) {}" by (simp add: new_source_inv_def)
  moreover have "seg_lists NUMBINS class2Size dl_repr {} (sg_bins (SegHeap_new NUMBINS)) m (\<lambda>_. [])"
    by (simp add: seg_lists_def SegHeap_new_def dll.repr_empty)
  ultimately have "seg_inv NUMBINS class2Size dl_repr (new_source_inv (zone_inv sinv)) (KingsleyStyleHeap_new h, m) {}"
    by (auto simp: seg_inv_def KingsleyStyleHeap_new_def SegHeap_new_def intro!: exI [of _ "{}"] exI [of _ "\<lambda>_. []"])
  then show ?thesis by (auto simp: kingsley_inv_def ansi_inv_def intro!: exI [of _ "{}"])
qed

section \<open>Properties\<close>

text \<open>Over any super heap that keeps its contract and can serve an arena, a client of
  \<open>KingsleyStyleHeap\<close> that allocates at most 2048 bytes at a time never makes the allocator abort or
  leave its tables, its live blocks are aligned and pairwise disjoint, and every word of a live
  block holds what the client last wrote there.\<close>

theorem kingsley_clients_safe:
  assumes "source_heap smalloc sfree sok sinv" and "sok (sizeof_Arena + CHUNKY)" and "sinv (h, m) {}"
    and "\<forall>sz \<in> requests ops. unat sz \<le> 2048"
  shows "\<exists>st' L' sh'. hrun (KingsleyStyleHeap_malloc smalloc) KingsleyStyleHeap_free ops
      ((KingsleyStyleHeap_new h, m), {}, m) = Some (st', L', sh') \<and>
    ok_blocks L' \<and> (\<forall>a. covered L' a \<longrightarrow> snd st' a = sh' a)"
proof -
  note k = source_heap.kingsley_source_heap [OF assms(1)]
  from source_heap.hrun_safe [OF k kingsley_initial [of sinv h m, OF assms(3)], of ops m]
  obtain st' L' sh' where "hrun (KingsleyStyleHeap_malloc smalloc) KingsleyStyleHeap_free ops
      ((KingsleyStyleHeap_new h, m), {}, m) = Some (st', L', sh')" "kingsley_inv sinv st' L'"
    "\<forall>a. covered L' a \<longrightarrow> snd st' a = sh' a"
    using kingsley_ok_small [of sok, OF assms(2)] assms(4) by (auto simp: covered_def)
  with source_heap.inv_blocks [OF k] show ?thesis by blast
qed

theorem kingsley_clients_safe_witness:
  "\<exists>st' L' sh'. hrun (KingsleyStyleHeap_malloc bump_malloc) KingsleyStyleHeap_free
      [HMalloc 100, HMalloc 24, HWrite 0x101C 7, HFree 0x1018 100, HMalloc 2048]
      ((KingsleyStyleHeap_new (bump_new 0x1000 0x200000), \<lambda>_. 0), {}, \<lambda>_. 0) = Some (st', L', sh') \<and>
    ok_blocks L' \<and> (\<forall>a. covered L' a \<longrightarrow> snd st' a = sh' a)"
  by (rule kingsley_clients_safe [OF bump.source_heap_axioms])
    (auto simp: bump_ok_def bump_inv_def bump_new_def bump_sanity_def sizeof_Arena_def CHUNKY_def)

text \<open>Evaluation of the allocator on numerals.\<close>

lemma class_down_numeral:
  "class_down f s (numeral k) = (if f (numeral k) > s then class_down f s (pred_numeral k) else Some (numeral k))"
  by (simp add: numeral_eq_Suc)

lemmas layer_eval = KingsleyStyleHeap_malloc_def KingsleyStyleHeap_free_def KingsleyStyleHeap_new_def kingsley_big_def
  ANSIWrapper_malloc_def ANSIWrapper_free_def ansi_size_def ansi_align_def sizeof_double_def CHUNKY_def
lemmas seg_eval = StrictSegHeap_malloc_def StrictSegHeap_free_def maxObjectSize_def NUMBINS_def SegHeap_new_def
  big_result_def AdaptHeap_malloc_def AdaptHeap_free_def class2Size_def size2Class_def cl_def size2Class_loop.simps class_down_numeral
  dll_get_def dll_insert_def dll_defs
lemmas source_eval = NewSourceHeap_malloc_def NewSourceHeap_getSize_def page_aligned_def sizeof_objectHeader_def
  objectHeader_new_def header_getSize_def getObject_def getPointer_def MAGIC_def
  zone_malloc_def zone_slowMalloc_def zone_align_def zone_new_def zone_retire_def arena_size_def sizeof_Arena_def
  Arena_new_def Arena_malloc_def ar_remaining_def ar_space_def
  bump_malloc_def bump_new_def bump_sanity_def bump_round_def


end
