(* ===== verification/Hl_Shared.thy ===== *)
theory Hl_Shared
  imports Hl_Kingsley
begin

text \<open>
  Several heaps over one super heap, as the sixteen \<open>KingsleyStyleHeap\<close>s of \<open>include/ppheap.h\<close> over the
  one instance behind \<open>include/xoneheap.h\<close>. Each heap has its own zone and its own bins; an object may be
  freed into another heap than the one it was allocated from. The family of heaps is shown to keep
  the contract \<open>source_heap\<close> with one invariant for all of its members.
\<close>

section \<open>One member of a family\<close>

text \<open>The state of a family: the states of its members and that of the shared super heap.\<close>

type_synonym ('k, 'h) family = "('k list \<times> 'h) hstate"

definition pick :: "nat \<Rightarrow> ('k, 'h) family \<Rightarrow> ('k \<times> 'h) hstate" where
  "pick i = (\<lambda>((ks, h), m). ((ks ! i, h), m))"

definition put :: "nat \<Rightarrow> ('k, 'h) family \<Rightarrow> ('k \<times> 'h) hstate \<Rightarrow> ('k, 'h) family" where
  "put i = (\<lambda>((ks, _), _) ((k, h), m). ((ks[i := k], h), m))"

definition member_malloc ::
  "nat \<Rightarrow> (u32 \<Rightarrow> ('k \<times> 'h) hstate \<Rightarrow> (u32 \<times> ('k \<times> 'h) hstate) option) \<Rightarrow> u32 \<Rightarrow> ('k, 'h) family
   \<Rightarrow> (u32 \<times> ('k, 'h) family) option" where
  "member_malloc i mal sz st = map_option (\<lambda>(p, st'). (p, put i st st')) (mal sz (pick i st))"

definition member_free ::
  "nat \<Rightarrow> (u32 \<Rightarrow> ('k \<times> 'h) hstate \<Rightarrow> ('k \<times> 'h) hstate option) \<Rightarrow> u32 \<Rightarrow> ('k, 'h) family \<Rightarrow> ('k, 'h) family option" where
  "member_free i fre p st = map_option (put i st) (fre p (pick i st))"

lemma pick_simp [simp]: "pick i ((ks, h), m) = ((ks ! i, h), m)"
  by (simp add: pick_def)

lemma put_simp [simp]: "put i ((ks, h0), m0) ((k, h), m) = ((ks[i := k], h), m)"
  by (simp add: put_def)

section \<open>A super heap of which others hold blocks\<close>

text \<open>The others hold the blocks \<open>Y\<close>, whose contents are those of \<open>f\<close>.\<close>

definition rest_inv :: "('h hstate \<Rightarrow> block set \<Rightarrow> bool) \<Rightarrow> block set \<Rightarrow> hmem \<Rightarrow> 'h hstate \<Rightarrow> block set \<Rightarrow> bool" where
  "rest_inv sinv Y f st X \<longleftrightarrow> sinv st (X \<union> Y) \<and> X \<inter> Y = {} \<and> (\<forall>a. covered Y a \<longrightarrow> snd st a = f a)"

lemma not_covered_rest:
  assumes "ok_blocks (X \<union> Y)" and "X \<inter> Y = {}" and "covered Y a"
  shows "\<not> covered X a"
proof
  assume "covered X a"
  then obtain b c where bc: "b \<in> X" "c \<in> Y" "unat a \<in> blk b" "unat a \<in> blk c"
    using assms(3) by (auto simp: covered_def)
  then have "b \<noteq> c" using assms(2) by blast
  then have "blk b \<inter> blk c = {}" using ok_blocks_apart [OF assms(1)] bc(1,2) by blast
  with bc(3,4) show False by blast
qed

context source_heap
begin

lemma rest_source_heap: "source_heap malloc free oksize (rest_inv inv Y f)"
proof unfold_locales
  show "ok_blocks L" if "rest_inv inv Y f st L" for st :: "'h hstate" and L
    using that by (auto simp: rest_inv_def intro: ok_blocks_mono dest: inv_blocks)
next
  fix st :: "'h hstate" and L sz
  assume i: "rest_inv inv Y f st L" and ok: "oksize sz"
  have iY: "inv st (L \<union> Y)" using i by (simp add: rest_inv_def)
  from iY ok show "\<exists>p st'. malloc sz st = Some (p, st') \<and>
      (if p = 0 then rest_inv inv Y f st' L else rest_inv inv Y f st' (insert (p, unat sz) L) \<and> (p, unat sz) \<notin> L) \<and>
      (\<forall>a. covered L a \<longrightarrow> snd st' a = snd st a)"
  proof (cases rule: malloc_cases)
    case (null st')
    then show ?thesis using i by (intro exI [of _ 0] exI [of _ st']) (auto simp: rest_inv_def)
  next
    case (block p st')
    then show ?thesis using i by (intro exI [of _ p] exI [of _ st']) (auto simp: rest_inv_def)
  qed
next
  fix st :: "'h hstate" and L p n
  assume i: "rest_inv inv Y f st L" and p: "(p, n) \<in> L"
  have iY: "inv st (L \<union> Y)" "(p, n) \<in> L \<union> Y" using i p by (simp_all add: rest_inv_def)
  obtain st' where s: "free p st = Some st'" "inv st' (L \<union> Y - {(p, n)})"
    "\<forall>a. covered (L \<union> Y - {(p, n)}) a \<longrightarrow> snd st' a = snd st a" using free_law [OF iY] by blast
  let ?L = "L - {(p, n)}"
  have d: "L \<inter> Y = {}" and f: "\<forall>a. covered Y a \<longrightarrow> snd st a = f a" using i unfolding rest_inv_def by blast+
  have e: "L \<union> Y - {(p, n)} = ?L \<union> Y" using d p by blast
  have fr: "snd st' a = snd st a" if "covered ?L a \<or> covered Y a" for a
    using s(3) that unfolding e covered_Un by blast
  have "rest_inv inv Y f st' ?L" unfolding rest_inv_def
  proof (intro conjI allI impI)
    show "inv st' (?L \<union> Y)" using s(2) unfolding e .
    show "?L \<inter> Y = {}" using d by blast
    show "snd st' a = f a" if "covered Y a" for a using fr [of a] f that by metis
  qed
  then show "\<exists>st'. free p st = Some st' \<and> rest_inv inv Y f st' ?L \<and> (\<forall>a. covered ?L a \<longrightarrow> snd st' a = snd st a)"
    using s(1) fr by blast
next
  fix h and m m' :: hmem and L
  assume i: "rest_inv inv Y f (h, m) L" and fr: "\<And>a. \<not> covered L a \<Longrightarrow> m' a = m a"
  have iY: "inv (h, m) (L \<union> Y)" and d: "L \<inter> Y = {}" and f: "\<forall>a. covered Y a \<longrightarrow> m a = f a"
    using i unfolding rest_inv_def snd_conv by blast+
  show "rest_inv inv Y f (h, m') L" unfolding rest_inv_def snd_conv
  proof (intro conjI allI impI)
    show "inv (h, m') (L \<union> Y)" by (rule inv_frame [OF iY]) (simp add: fr)
    show "m' a = f a" if "covered Y a" for a
      using fr [OF not_covered_rest [OF inv_blocks [OF iY] d that]] f that by metis
  qed (rule d)
qed

end

section \<open>Zones over one super heap\<close>

definition zones_inv :: "nat \<Rightarrow> ('h hstate \<Rightarrow> block set \<Rightarrow> bool) \<Rightarrow> (zone, 'h) family \<Rightarrow> block set \<Rightarrow> bool" where
  "zones_inv N sinv = (\<lambda>((zs, h), m) L. length zs = N \<and> (\<exists>As Ls. L = (\<Union>i<N. Ls i) \<and> sinv (h, m) (\<Union>i<N. As i) \<and>
     (\<forall>i<N. \<forall>j<N. i \<noteq> j \<longrightarrow> As i \<inter> As j = {}) \<and>
     (\<forall>i<N. zone_layout (As i) (Ls i) (zn_current (zs ! i)) (ar_space m (zn_current (zs ! i)))
        (ar_remaining m (zn_current (zs ! i))))))"

lemma zones_invI:
  assumes "length zs = N" and "L = (\<Union>i<N. Ls i)" and "sinv (h, m) (\<Union>i<N. As i)"
    and "\<forall>i<N. \<forall>j<N. i \<noteq> j \<longrightarrow> As i \<inter> As j = {}"
    and "\<And>i. i < N \<Longrightarrow> zone_layout (As i) (Ls i) (zn_current (zs ! i)) (ar_space m (zn_current (zs ! i)))
        (ar_remaining m (zn_current (zs ! i)))"
  shows "zones_inv N sinv ((zs, h), m) L"
  using assms unfolding zones_inv_def prod.case by blast

lemma zones_invE:
  assumes "zones_inv N sinv ((zs, h), m) L"
  obtains As Ls where "length zs = N" and "L = (\<Union>i<N. Ls i)" and "sinv (h, m) (\<Union>i<N. As i)"
    and "\<forall>i<N. \<forall>j<N. i \<noteq> j \<longrightarrow> As i \<inter> As j = {}"
    and "\<And>i. i < N \<Longrightarrow> zone_layout (As i) (Ls i) (zn_current (zs ! i)) (ar_space m (zn_current (zs ! i)))
        (ar_remaining m (zn_current (zs ! i)))"
  using assms unfolding zones_inv_def prod.case by blast

text \<open>A change of memory outside the header of the current arena does not touch the layout.\<close>

lemma zone_layout_mem:
  assumes l: "zone_layout A L cur (ar_space m cur) (ar_remaining m cur)"
    and fr: "\<And>k i. (cur, k) \<in> A \<Longrightarrow> i < 16 \<Longrightarrow> m' (cur + of_nat i) = m (cur + of_nat i)"
  shows "zone_layout A L cur (ar_space m' cur) (ar_remaining m' cur)"
proof (cases "cur = 0")
  case True
  then show ?thesis using zone_layout_retire [OF l] by simp
next
  case False
  then obtain k where k: "(cur, k) \<in> A" using l unfolding zone_layout_def by blast
  then have "m' cur = m cur" "m' (cur + 8) = m (cur + 8)" using fr [OF k, of 0] fr [OF k, of 8] by simp_all
  then show ?thesis using l by (simp add: ar_space_def ar_remaining_def)
qed

context source_heap
begin

text \<open>What the invariant gives the proofs.\<close>

lemma zones_apart:
  assumes "inv st (\<Union>i<N. As i)" and "\<forall>i<N. \<forall>j<N. i \<noteq> j \<longrightarrow> As i \<inter> As j = {}"
    and "i < N" and "j < N" and "i \<noteq> j" and "covered (As i) a"
  shows "\<not> covered (As j) a"
proof (rule not_covered_rest)
  show "ok_blocks (As j \<union> As i)" by (rule ok_blocks_mono [OF inv_blocks [OF assms(1)]]) (use assms(3,4) in blast)
  show "As j \<inter> As i = {}" using assms(2-5) by blast
qed fact

lemma zones_blocks:
  assumes i: "inv st (\<Union>i<N. As i)" and d: "\<forall>i<N. \<forall>j<N. i \<noteq> j \<longrightarrow> As i \<inter> As j = {}"
    and l: "\<And>i. i < N \<Longrightarrow> zone_layout (As i) (Ls i) (c i) (s i) (r i)"
  shows "ok_blocks (\<Union>i<N. Ls i)"
proof -
  have "blk b \<inter> blk b' = {}" if b: "i < N" "b \<in> Ls i" "j < N" "b' \<in> Ls j" "b \<noteq> b'" for i j b b'
  proof (cases "i = j")
    case True
    then show ?thesis using zone_layoutD(2) [OF l [OF b(1)]] b ok_blocks_apart by blast
  next
    case False
    obtain ar where ar: "ar \<in> As i" "in_arena b ar" using zone_layout_arena [OF l [OF b(1)] b(2)] by blast
    obtain ar' where ar': "ar' \<in> As j" "in_arena b' ar'" using zone_layout_arena [OF l [OF b(3)] b(4)] by blast
    have "ar \<noteq> ar'" using d b(1,3) False ar(1) ar'(1) by blast
    then have "blk ar \<inter> blk ar' = {}" using b(1,3) ar(1) ar'(1) by (intro ok_blocks_apart [OF inv_blocks [OF i]]) auto
    with in_arena_blk [OF ar(2)] in_arena_blk [OF ar'(2)] show ?thesis by blast
  qed
  moreover have "ok_block b" if "i < N" "b \<in> Ls i" for i b
    using zone_layoutD(2) [OF l [OF that(1)]] that(2) by (auto simp: ok_blocks_def)
  ultimately show ?thesis unfolding ok_blocks_def pairwise_def by blast
qed

text \<open>An allocation by one zone keeps the other zones and their blocks.\<close>

lemma zones_malloc_law:
  assumes i: "zones_inv N inv st L" and k: "k < N" and ok: "zone_ok oksize ChunkSize sz"
  shows "\<exists>p st'. member_malloc k (zone_malloc malloc ChunkSize) sz st = Some (p, st') \<and>
      (if p = 0 then zones_inv N inv st' L else zones_inv N inv st' (insert (p, unat sz) L) \<and> (p, unat sz) \<notin> L) \<and>
      (\<forall>a. covered L a \<longrightarrow> snd st' a = snd st a)"
proof -
  obtain zs h m where st: "st = ((zs, h), m)" by (metis surj_pair)
  obtain As Ls where N: "length zs = N" and L: "L = (\<Union>i<N. Ls i)" and iA: "inv (h, m) (\<Union>i<N. As i)"
    and d: "\<forall>i<N. \<forall>j<N. i \<noteq> j \<longrightarrow> As i \<inter> As j = {}"
    and l: "\<And>i. i < N \<Longrightarrow> zone_layout (As i) (Ls i) (zn_current (zs ! i)) (ar_space m (zn_current (zs ! i)))
        (ar_remaining m (zn_current (zs ! i)))"
    by (rule zones_invE [OF i [unfolded st]]) blast
  define Y where "Y = (\<Union>i\<in>{..<N} - {k}. As i)"
  have AY: "(\<Union>i<N. As i) = As k \<union> Y" using k by (auto simp: Y_def)
  have dY: "As k \<inter> Y = {}" using d k by (auto simp: Y_def)
  have Yj: "covered (As j) a \<Longrightarrow> covered Y a" if "j < N" "j \<noteq> k" for j a
    by (erule covered_mono) (use that in \<open>auto simp: Y_def\<close>)
  have "zone_inv (rest_inv inv Y m) ((zs ! k, h), m) (Ls k)"
    using iA dY l [OF k] by (auto simp: zone_inv_def rest_inv_def AY)
  from source_heap.malloc_law [OF source_heap.zone_source_heap [OF rest_source_heap] this ok]
  obtain p z' h' m' where r: "zone_malloc malloc ChunkSize sz ((zs ! k, h), m) = Some (p, ((z', h'), m'))"
    "if p = 0 then zone_inv (rest_inv inv Y m) ((z', h'), m') (Ls k)
     else zone_inv (rest_inv inv Y m) ((z', h'), m') (insert (p, unat sz) (Ls k)) \<and> (p, unat sz) \<notin> Ls k"
    "\<forall>a. covered (Ls k) a \<longrightarrow> m' a = m a" by auto
  let ?M = "if p = 0 then Ls k else insert (p, unat sz) (Ls k)" and ?zs = "zs[k := z']"
  let ?Ls = "Ls(k := ?M)"
  have "zone_inv (rest_inv inv Y m) ((z', h'), m') ?M" using r(2) by (auto split: if_splits)
  then obtain A where A: "inv (h', m') (A \<union> Y)" "A \<inter> Y = {}" "\<forall>a. covered Y a \<longrightarrow> m' a = m a"
    "zone_layout A ?M (zn_current z') (ar_space m' (zn_current z')) (ar_remaining m' (zn_current z'))"
    by (auto simp: zone_inv_def rest_inv_def)
  let ?As = "As(k := A)"
  have U: "(\<Union>i<N. ?As i) = A \<union> Y" using k by (auto simp: Y_def)
  have dA: "\<forall>i<N. \<forall>j<N. i \<noteq> j \<longrightarrow> ?As i \<inter> ?As j = {}" using d A(2) by (auto simp: Y_def)
  have lay: "zone_layout (?As i) (?Ls i) (zn_current (?zs ! i)) (ar_space m' (zn_current (?zs ! i)))
        (ar_remaining m' (zn_current (?zs ! i)))" if iN: "i < N" for i
  proof (cases "i = k")
    case True
    then show ?thesis using A(4) k N by simp
  next
    case False
    have "zone_layout (As i) (Ls i) (zn_current (zs ! i)) (ar_space m' (zn_current (zs ! i)))
        (ar_remaining m' (zn_current (zs ! i)))"
    proof (rule zone_layout_mem [OF l [OF iN]])
      fix n j assume n: "(zn_current (zs ! i), n) \<in> As i" and j: "(j :: nat) < 16"
      have "covered (As i) (zn_current (zs ! i) + of_nat j)"
        using header_word(3) [OF zone_layoutD(1) [OF l [OF iN]] n _ j] zone_layoutD(3) [OF l [OF iN] n] by simp
      then show "m' (zn_current (zs ! i) + of_nat j) = m (zn_current (zs ! i) + of_nat j)"
        using A(3) Yj [OF iN False] by blast
    qed
    then show ?thesis using False by simp
  qed
  have L': "(\<Union>i<N. ?Ls i) = (if p = 0 then L else insert (p, unat sz) L)" using k by (auto simp: L split: if_splits)
  have zi: "zones_inv N inv ((?zs, h'), m') (\<Union>i<N. ?Ls i)"
    by (rule zones_invI [OF _ refl, where As = ?As]) (use N A(1) U dA lay in \<open>simp_all only: length_list_update\<close>)
  have fr: "m' a = m a" if aL: "covered L a" for a
  proof -
    obtain i where iN: "i < N" "covered (Ls i) a" using aL unfolding L covered_def by blast
    show ?thesis
    proof (cases "i = k")
      case True
      then show ?thesis using r(3) iN(2) by blast
    next
      case False
      then show ?thesis using zone_covered [OF l [OF iN(1)] iN(2)] Yj [OF iN(1)] A(3) by blast
    qed
  qed
  have new: "(p, unat sz) \<notin> L" if p: "p \<noteq> 0"
  proof
    assume "(p, unat sz) \<in> L"
    then obtain i where iN: "i < N" "(p, unat sz) \<in> Ls i" by (auto simp: L)
    then have ik: "i \<noteq> k" using r(2) p by auto
    obtain ar where ar: "ar \<in> As i" "in_arena (p, unat sz) ar" using zone_layout_arena [OF l [OF iN(1)] iN(2)] by blast
    have pM: "(p, unat sz) \<in> ?M" using p by simp
    obtain br where br: "br \<in> A" "in_arena (p, unat sz) br" using zone_layout_arena [OF A(4) pM] by blast
    have arY: "ar \<in> Y" using ar(1) iN(1) ik by (auto simp: Y_def)
    then have "blk ar \<inter> blk br = {}" using A(2) br(1) by (intro ok_blocks_apart [OF inv_blocks [OF A(1)]]) auto
    then show False using in_arena_blk [OF ar(2)] in_arena_blk [OF br(2)] ok
      by (auto simp: zone_ok_def blk_def word_less_nat_alt)
  qed
  show ?thesis using r(1) zi new fr unfolding L'
    by (intro exI [of _ p] exI [of _ "((?zs, h'), m')"]) (simp add: member_malloc_def st split: if_splits)
qed

theorem zones_source_heap:
  assumes k: "k < N"
  shows "source_heap (member_malloc k (zone_malloc malloc ChunkSize)) (member_free k zone_free)
    (zone_ok oksize ChunkSize) (zones_inv N inv)"
proof unfold_locales
  fix st :: "(zone, 'h) family" and L
  assume "zones_inv N inv st L"
  moreover obtain zs h m where "st = ((zs, h), m)" by (metis surj_pair)
  ultimately have "zones_inv N inv ((zs, h), m) L" by simp
  then show "ok_blocks L" by (rule zones_invE) (hypsubst, rule zones_blocks, assumption+)
next
  fix st :: "(zone, 'h) family" and L p n
  assume i: "zones_inv N inv st L"
  obtain zs h m where st: "st = ((zs, h), m)" by (metis surj_pair)
  have "zones_inv N inv st (L - {(p, n)})"
    using i unfolding zones_inv_def st prod.case
  proof (elim conjE exE, intro conjI exI)
    fix As Ls assume l: "\<forall>i<N. zone_layout (As i) (Ls i) (zn_current (zs ! i)) (ar_space m (zn_current (zs ! i)))
        (ar_remaining m (zn_current (zs ! i)))" and L: "L = (\<Union>i<N. Ls i)"
    show "L - {(p, n)} = (\<Union>i<N. Ls i - {(p, n)})" using L by blast
    show "\<forall>i<N. zone_layout (As i) (Ls i - {(p, n)}) (zn_current (zs ! i)) (ar_space m (zn_current (zs ! i)))
        (ar_remaining m (zn_current (zs ! i)))" using l zone_layout_mono [OF _ Diff_subset] by blast
  qed
  moreover have "member_free k zone_free p st = Some st" by (simp add: member_free_def zone_free_def st)
  ultimately show "\<exists>st'. member_free k zone_free p st = Some st' \<and> zones_inv N inv st' (L - {(p, n)}) \<and>
      (\<forall>a. covered (L - {(p, n)}) a \<longrightarrow> snd st' a = snd st a)" by blast
next
  fix zh :: "zone list \<times> 'h" and m m' :: hmem and L
  assume i: "zones_inv N inv (zh, m) L" and fr: "\<And>a. \<not> covered L a \<Longrightarrow> m' a = m a"
  obtain zs h where zh: "zh = (zs, h)" by (cases zh)
  obtain As Ls where N: "length zs = N" and L: "L = (\<Union>i<N. Ls i)" and iA: "inv (h, m) (\<Union>i<N. As i)"
    and d: "\<forall>i<N. \<forall>j<N. i \<noteq> j \<longrightarrow> As i \<inter> As j = {}"
    and l: "\<And>i. i < N \<Longrightarrow> zone_layout (As i) (Ls i) (zn_current (zs ! i)) (ar_space m (zn_current (zs ! i)))
        (ar_remaining m (zn_current (zs ! i)))"
    by (rule zones_invE [OF i [unfolded zh]]) blast
  have "covered (\<Union>i<N. As i) a" if aL: "covered L a" for a
  proof -
    obtain i where iN: "i < N" "covered (Ls i) a" using aL unfolding L covered_def by blast
    show ?thesis by (rule covered_mono [OF zone_covered [OF l [OF iN(1)] iN(2)]]) (use iN(1) in blast)
  qed
  then have "inv (h, m') (\<Union>i<N. As i)" by (intro inv_frame [OF iA] fr) blast
  moreover have "zone_layout (As i) (Ls i) (zn_current (zs ! i)) (ar_space m' (zn_current (zs ! i)))
        (ar_remaining m' (zn_current (zs ! i)))" if iN: "i < N" for i
  proof (rule zone_layout_mem [OF l [OF iN]])
    fix n j assume n: "(zn_current (zs ! i), n) \<in> As i" and j: "(j :: nat) < 16"
    let ?c = "zn_current (zs ! i) + of_nat j"
    have c: "covered (As i) ?c"
      using header_word(3) [OF zone_layoutD(1) [OF l [OF iN]] n _ j] zone_layoutD(3) [OF l [OF iN] n] by simp
    have "\<not> covered L ?c"
    proof
      assume "covered L ?c"
      then obtain i' where i': "i' < N" "covered (Ls i') ?c" unfolding L covered_def by blast
      show False
      proof (cases "i' = i")
        case True
        then show False using header_not_covered [OF l [OF iN] n j] i'(2) by simp
      next
        case False
        then show False using zones_apart [OF iA d iN i'(1) _ c] zone_covered [OF l [OF i'(1)] i'(2)] by blast
      qed
    qed
    then show "m' ?c = m ?c" by (rule fr)
  qed
  ultimately show "zones_inv N inv (zh, m') L" unfolding zh by (intro zones_invI [OF N L _ d])
qed (rule zones_malloc_law [OF _ k], assumption+)

end

section \<open>Bins of all heaps as one table\<close>

text \<open>Bin \<open>c\<close> of heap \<open>i\<close> is bin \<open>i * NUMBINS + c\<close> of the table.\<close>

definition flat_class :: "nat \<Rightarrow> u32 \<Rightarrow> nat" where "flat_class i sz = i * NUMBINS + size2Class sz"
definition flat_max :: "nat \<Rightarrow> u32" where "flat_max k = class2Size (k mod NUMBINS)"

lemma flat_index: "i < N \<Longrightarrow> c < B \<Longrightarrow> i * B + c < N * (B :: nat)"
proof -
  assume "i < N" "c < B"
  then have "i * B + c < Suc i * B" by simp
  also have "\<dots> \<le> N * B" using \<open>i < N\<close> by (intro mult_le_mono1) simp
  finally show ?thesis .
qed

lemma flat_max_index [simp]: "c < NUMBINS \<Longrightarrow> flat_max (i * NUMBINS + c) = class2Size c"
  by (simp add: flat_max_def)

lemma flat_max_last: "0 < N \<Longrightarrow> flat_max (N * NUMBINS - Suc 0) = class2Size (NUMBINS - Suc 0)"
proof -
  assume "0 < N"
  then have e: "N * NUMBINS - Suc 0 = (N - 1) * NUMBINS + (NUMBINS - Suc 0)" by (cases N) (simp_all add: NUMBINS_def)
  show ?thesis unfolding e by (rule flat_max_index) (simp add: NUMBINS_def)
qed

lemma flat_maxObjectSize: "0 < N \<Longrightarrow> maxObjectSize (N * NUMBINS) flat_max = maxObjectSize NUMBINS class2Size"
  by (simp add: maxObjectSize_def flat_max_last)

lemma flat_class_down:
  "c < NUMBINS \<Longrightarrow> class2Size 0 \<le> s \<Longrightarrow>
   class_down flat_max s (i * NUMBINS + c) = map_option (\<lambda>d. i * NUMBINS + d) (class_down class2Size s c)"
proof (induction c)
  case 0
  have "flat_max (i * NUMBINS) = class2Size 0" using flat_max_index [of 0 i] by (simp add: NUMBINS_def)
  with 0 show ?case by (cases "i * NUMBINS") (auto simp: not_less [symmetric])
next
  case (Suc c)
  have "flat_max (Suc (i * NUMBINS + c)) = class2Size (Suc c)" using flat_max_index [OF Suc.prems(1), of i] by simp
  with Suc show ?case by simp
qed

lemma concat_nth:
  "\<forall>xs \<in> set xss. length xs = B \<Longrightarrow> i < length xss \<Longrightarrow> c < B \<Longrightarrow> concat xss ! (i * B + c) = xss ! i ! c"
proof (induction xss arbitrary: i)
  case (Cons xs xss)
  then show ?case by (cases i) (simp_all add: nth_append add.assoc)
qed simp

lemma concat_update:
  "\<forall>xs \<in> set xss. length xs = B \<Longrightarrow> i < length xss \<Longrightarrow> c < B \<Longrightarrow>
   (concat xss)[i * B + c := v] = concat (xss[i := (xss ! i)[c := v]])"
proof (induction xss arbitrary: i)
  case (Cons xs xss)
  then show ?case by (cases i) (simp_all add: list_update_append add.assoc)
qed simp

lemma flat_bin_classes:
  assumes "i < N"
  shows "bin_classes (flat_class i) flat_max (N * NUMBINS)"
proof unfold_locales
  show "0 < N * NUMBINS" using assms by (simp add: NUMBINS_def)
  fix sz assume "sz \<le> flat_max (N * NUMBINS - 1)"
  then have "sz \<le> class2Size (NUMBINS - 1)" using flat_max_last [of N] assms by simp
  from kingsley.class_lt [OF this] kingsley.class_fits [OF this]
  show "flat_class i sz < N * NUMBINS" "sz \<le> flat_max (flat_class i sz)"
    using flat_index [OF assms] by (simp_all add: flat_class_def)
qed

section \<open>The family of \<open>KingsleyStyleHeap\<close>s\<close>

text \<open>A \<open>KingsleyStyleHeap\<close> whose own state is its bins and its zone.\<close>

definition own_malloc ::
  "(u32 \<Rightarrow> (seg \<times> zone \<times> 'h) hstate \<Rightarrow> (u32 \<times> (seg \<times> zone \<times> 'h) hstate) option)
   \<Rightarrow> u32 \<Rightarrow> ((seg \<times> zone) \<times> 'h) hstate \<Rightarrow> (u32 \<times> ((seg \<times> zone) \<times> 'h) hstate) option" where
  "own_malloc mal sz = (\<lambda>(((g, z), h), m). map_option (\<lambda>(p, ((g, z, h), m)). (p, (((g, z), h), m))) (mal sz ((g, z, h), m)))"

definition own_free ::
  "(u32 \<Rightarrow> (seg \<times> zone \<times> 'h) hstate \<Rightarrow> (seg \<times> zone \<times> 'h) hstate option)
   \<Rightarrow> u32 \<Rightarrow> ((seg \<times> zone) \<times> 'h) hstate \<Rightarrow> ((seg \<times> zone) \<times> 'h) hstate option" where
  "own_free fre p = (\<lambda>(((g, z), h), m). map_option (\<lambda>((g, z, h), m). (((g, z), h), m)) (fre p ((g, z, h), m)))"

type_synonym 'h kfamily = "(seg \<times> zone, 'h) family"

definition flat_big ::
  "(u32 \<Rightarrow> 'h hstate \<Rightarrow> (u32 \<times> 'h hstate) option) \<Rightarrow> nat \<Rightarrow> u32 \<Rightarrow> (zone, 'h) family \<Rightarrow> (u32 \<times> (zone, 'h) family) option" where
  "flat_big smalloc i = NewSourceHeap_malloc (member_malloc i (zone_malloc smalloc CHUNKY))"

definition flat_inv :: "nat \<Rightarrow> ('h hstate \<Rightarrow> block set \<Rightarrow> bool) \<Rightarrow> (seg \<times> zone list \<times> 'h) hstate \<Rightarrow> block set \<Rightarrow> bool" where
  "flat_inv N sinv = seg_inv (N * NUMBINS) flat_max dl_repr (new_source_inv (zones_inv N sinv))"

definition flat_ok :: "nat \<Rightarrow> nat \<Rightarrow> (u32 \<Rightarrow> bool) \<Rightarrow> u32 \<Rightarrow> bool" where
  "flat_ok N i ok = seg_ok (N * NUMBINS) (flat_class i) flat_max (new_source_ok (zone_ok ok CHUNKY))"

context source_heap
begin

lemma flat_seg_heap:
  assumes "i < N"
  shows "seg_heap (flat_big malloc i) (NewSourceHeap_free (member_free i zone_free)) (new_source_ok (zone_ok oksize CHUNKY))
     (new_source_inv (zones_inv N inv)) NewSourceHeap_getSize (flat_class i) flat_max (N * NUMBINS) dll_get dll_insert foot2 dl_repr"
proof (rule seg_heap.intro)
  show "sized_heap (flat_big malloc i) (NewSourceHeap_free (member_free i zone_free)) (new_source_ok (zone_ok oksize CHUNKY))
      (new_source_inv (zones_inv N inv)) NewSourceHeap_getSize"
    unfolding flat_big_def by (rule source_heap.new_source_heap [OF zones_source_heap [OF assms]])
  show "seg_heap_axioms flat_max (N * NUMBINS) foot2"
  proof unfold_locales
    have B: "0 < NUMBINS" by (simp add: NUMBINS_def)
    show "8 \<le> unat (flat_max 0)" by (simp add: flat_max_def unat_class2Size)
    show "flat_max 0 \<le> flat_max k" for k
      using class2Size_mono [of 0 "k mod NUMBINS"] mod_less_divisor [OF B] by (simp add: flat_max_def)
  qed (auto simp: foot2_def)
qed (rule flat_bin_classes [OF assms] dll.dictionary_axioms)+

lemma flat_source_heap:
  assumes "i < N"
  shows "source_heap (StrictSegHeap_malloc (N * NUMBINS) (flat_class i) flat_max dll_get (flat_big malloc i))
     (StrictSegHeap_free (N * NUMBINS) (flat_class i) flat_max dll_insert (NewSourceHeap_free (member_free i zone_free)) NewSourceHeap_getSize)
     (flat_ok N i oksize) (flat_inv N inv)"
  unfolding flat_ok_def flat_inv_def by (rule seg_heap.seg_source_heap [OF flat_seg_heap [OF assms]])

end

section \<open>The table and the heaps\<close>

definition tables :: "nat \<Rightarrow> (seg \<times> zone) list \<Rightarrow> seg \<Rightarrow> bool" where
  "tables N ks G \<longleftrightarrow> length ks = N \<and> (\<forall>k \<in> set ks. length (sg_bins (fst k)) = NUMBINS) \<and>
     sg_bins G = concat (map (\<lambda>k. sg_bins (fst k)) ks)"

lemma tables_nth: "tables N ks G \<Longrightarrow> i < N \<Longrightarrow> c < NUMBINS \<Longrightarrow> sg_bins G ! (i * NUMBINS + c) = sg_bins (fst (ks ! i)) ! c"
  by (simp add: tables_def concat_nth)

lemma tables_update:
  assumes "tables N ks G" and "i < N" and "c < NUMBINS" and "sg_bins g = (sg_bins (fst (ks ! i)))[c := w]"
    and "sg_bins G' = (sg_bins G)[i * NUMBINS + c := w]"
  shows "tables N (ks[i := (g, z)]) G'"
proof -
  have "length (sg_bins (fst (ks ! i))) = NUMBINS" using assms(1,2) by (simp add: tables_def)
  then show ?thesis using assms
    by (auto simp: tables_def concat_update map_update dest!: set_update_subset_insert [THEN subsetD])
qed

lemma tables_same:
  assumes "tables N ks G" and "i < N" shows "tables N (ks[i := (fst (ks ! i), z)]) G"
proof -
  have "map (\<lambda>k. sg_bins (fst k)) (ks[i := (fst (ks ! i), z)]) = map (\<lambda>k. sg_bins (fst k)) ks"
    using assms by (simp add: map_update tables_def list_update_same_conv)
  then show ?thesis using assms by (auto simp: tables_def dest!: set_update_subset_insert [THEN subsetD])
qed

lemma map_snd_same:
  assumes "i < length ks"
  shows "map snd (ks[i := (g, snd (ks ! i))]) = map snd ks" and "(map snd ks)[i := snd (ks ! i)] = map snd ks"
  using assms by (simp_all add: map_update list_update_same_conv)

lemma flat_big_member:
  "flat_big smalloc i sz ((zs, h), m)
   = map_option (\<lambda>(p, ((z, h), m)). (p, ((zs[i := z], h), m))) (kingsley_big smalloc sz ((zs ! i, h), m))"
proof (cases "zone_malloc smalloc CHUNKY ((if page_aligned sz then sz + 4096 else sz) + sizeof_objectHeader) ((zs ! i, h), m)")
  case None
  then show ?thesis by (simp add: flat_big_def kingsley_big_def NewSourceHeap_malloc_def member_malloc_def Let_def)
next
  case (Some r)
  obtain p z h' m' where "r = (p, ((z, h'), m'))" by (metis surj_pair)
  with Some show ?thesis
    by (auto simp: flat_big_def kingsley_big_def NewSourceHeap_malloc_def member_malloc_def Let_def)
qed

lemma flat_malloc_member:
  assumes t: "tables N ks G" and i: "i < N"
    and f: "StrictSegHeap_malloc (N * NUMBINS) (flat_class i) flat_max dll_get (flat_big smalloc i) sz ((G, (map snd ks, h)), m)
      = Some (p, ((G', (zs', h')), m'))"
  shows "\<exists>g z. StrictSegHeap_malloc NUMBINS size2Class class2Size dll_get (kingsley_big smalloc) sz ((fst (ks ! i), (snd (ks ! i), h)), m)
      = Some (p, ((g, (z, h')), m')) \<and> tables N (ks[i := (g, z)]) G' \<and> zs' = map snd (ks[i := (g, z)])"
proof -
  let ?g = "fst (ks ! i)"
  have iN: "i < length ks" and mx: "maxObjectSize (N * NUMBINS) flat_max = maxObjectSize NUMBINS class2Size"
    using t i flat_maxObjectSize by (auto simp: tables_def)
  show ?thesis
  proof (cases "sz \<le> maxObjectSize NUMBINS class2Size")
    case False
    then obtain z where "kingsley_big smalloc sz ((snd (ks ! i), h), m) = Some (p, ((z, h'), m'))" "zs' = (map snd ks)[i := z]" "G' = G"
      using f iN by (auto simp: StrictSegHeap_malloc_def mx flat_big_member big_result_def)
    with False show ?thesis using tables_same [OF t i]
      by (intro exI [of _ ?g] exI [of _ z]) (simp add: StrictSegHeap_malloc_def big_result_def map_update)
  next
    case True
    define c where "c = size2Class sz"
    have c: "c < NUMBINS" using kingsley.class_lt True by (simp add: c_def maxObjectSize_def)
    obtain ptr hw m1 where a: "AdaptHeap_malloc dll_get (class2Size c) (sg_bins ?g ! c, m) = (ptr, (hw, m1))" by (metis surj_pair)
    let ?G = "G\<lparr>sg_bins := (sg_bins G)[i * NUMBINS + c := hw]\<rparr>" and ?g' = "?g\<lparr>sg_bins := (sg_bins ?g)[c := hw]\<rparr>"
    have "StrictSegHeap_malloc (N * NUMBINS) (flat_class i) flat_max dll_get (flat_big smalloc i) sz ((G, (map snd ks, h)), m)
      = (if ptr = 0 then map_option (big_result ?G) (flat_big smalloc i (class2Size c) ((map snd ks, h), m1))
         else Some (ptr, ((?G, (map snd ks, h)), m1)))"
      using True a tables_nth [OF t i c] flat_max_index [OF c, of i]
      by (simp add: StrictSegHeap_malloc_def mx Let_def flat_class_def c_def [symmetric])
    with f have F: "(if ptr = 0 then map_option (big_result ?G) (flat_big smalloc i (class2Size c) ((map snd ks, h), m1))
       else Some (ptr, ((?G, (map snd ks, h)), m1))) = Some (p, ((G', (zs', h')), m'))" by (simp only:)
    have R: "StrictSegHeap_malloc NUMBINS size2Class class2Size dll_get (kingsley_big smalloc) sz ((?g, (snd (ks ! i), h)), m)
      = (if ptr = 0 then map_option (big_result ?g') (kingsley_big smalloc (class2Size c) ((snd (ks ! i), h), m1))
         else Some (ptr, ((?g', (snd (ks ! i), h)), m1)))"
      using True a by (simp add: StrictSegHeap_malloc_def Let_def c_def [symmetric])
    have T: "tables N (ks[i := (?g', z)]) ?G" for z by (rule tables_update [OF t i c]) simp_all
    show ?thesis
    proof (cases "ptr = 0")
      case True
      then obtain z where "kingsley_big smalloc (class2Size c) ((snd (ks ! i), h), m1) = Some (p, ((z, h'), m'))"
        "zs' = (map snd ks)[i := z]" "G' = ?G"
        using F iN by (auto simp: flat_big_member big_result_def)
      then show ?thesis using True T R
        by (intro exI [of _ ?g'] exI [of _ z]) (simp add: big_result_def map_update)
    next
      case False
      then show ?thesis using F R T map_snd_same(1) [OF iN, of ?g']
        by (intro exI [of _ ?g'] exI [of _ "snd (ks ! i)"]) auto
    qed
  qed
qed

lemma flat_free_member:
  assumes t: "tables N ks G" and i: "i < N"
    and s: "\<And>s. NewSourceHeap_getSize p ((), m) = Some s \<Longrightarrow> class2Size 0 \<le> s"
    and f: "StrictSegHeap_free (N * NUMBINS) (flat_class i) flat_max dll_insert (NewSourceHeap_free (member_free i zone_free))
        NewSourceHeap_getSize p ((G, (map snd ks, h)), m) = Some ((G', (zs', h')), m')"
  shows "\<exists>g z. StrictSegHeap_free NUMBINS size2Class class2Size dll_insert (NewSourceHeap_free zone_free) NewSourceHeap_getSize p
        ((fst (ks ! i), (snd (ks ! i), h)), m) = Some ((g, (z, h')), m') \<and>
      tables N (ks[i := (g, z)]) G' \<and> zs' = map snd (ks[i := (g, z)])"
proof -
  let ?g = "fst (ks ! i)"
  have iN: "i < length ks" and mx: "maxObjectSize (N * NUMBINS) flat_max = maxObjectSize NUMBINS class2Size"
    using t i flat_maxObjectSize by (auto simp: tables_def)
  have gs: "NewSourceHeap_getSize p ((map snd ks, h), m) = NewSourceHeap_getSize p ((), m)"
    "NewSourceHeap_getSize p ((snd (ks ! i), h), m) = NewSourceHeap_getSize p ((), m)"
    by (simp_all add: NewSourceHeap_getSize_def)
  have same: "tables N (ks[i := (?g, snd (ks ! i))]) G" "map snd (ks[i := (?g, snd (ks ! i))]) = map snd ks"
    using tables_same [OF t i] map_snd_same(1) [OF iN] by blast+
  obtain o' where o: "NewSourceHeap_getSize p ((), m) = Some o'"
    using f by (auto simp: StrictSegHeap_free_def gs split: option.splits)
  show ?thesis
  proof (cases "o' = 0 \<or> o' > maxObjectSize NUMBINS class2Size")
    case True
    then have "G' = G" "zs' = map snd ks" "h' = h" "m' = m"
      using f o iN map_snd_same(2) [OF iN] by (auto simp: StrictSegHeap_free_def gs mx NewSourceHeap_free_def member_free_def zone_free_def split: if_splits)
    then show ?thesis using True o same
      by (intro exI [of _ ?g] exI [of _ "snd (ks ! i)"])
        (auto simp: StrictSegHeap_free_def gs NewSourceHeap_free_def zone_free_def)
  next
    case False
    then have le: "o' \<le> maxObjectSize NUMBINS class2Size" "o' \<noteq> 0" by (simp_all add: not_less)
    have c0: "size2Class o' < NUMBINS" using kingsley.class_lt le(1) by (simp add: maxObjectSize_def)
    obtain c where c: "c \<le> size2Class o'" "class_down class2Size o' (size2Class o') = Some c"
      using class_down_spec [of class2Size o' "size2Class o'", OF s [OF o]] by blast
    have cN: "c < NUMBINS" using c(1) c0 by simp
    have cd: "class_down flat_max o' (flat_class i o') = Some (i * NUMBINS + c)"
      unfolding flat_class_def using flat_class_down [OF c0 s [OF o], of i] c(2) by simp
    obtain hw m1 where a: "AdaptHeap_free dll_insert p (sg_bins ?g ! c, m) = (hw, m1)" by (metis surj_pair)
    let ?G = "G\<lparr>sg_bins := (sg_bins G)[i * NUMBINS + c := hw], sg_held := sg_held G + o'\<rparr>"
    let ?g' = "?g\<lparr>sg_bins := (sg_bins ?g)[c := hw], sg_held := sg_held ?g + o'\<rparr>"
    have "StrictSegHeap_free (N * NUMBINS) (flat_class i) flat_max dll_insert (NewSourceHeap_free (member_free i zone_free))
        NewSourceHeap_getSize p ((G, (map snd ks, h)), m) = Some ((?G, (map snd ks, h)), m1)"
      using False o cd a tables_nth [OF t i cN] by (simp add: StrictSegHeap_free_def gs mx)
    with f have e: "G' = ?G" "zs' = map snd ks" "h' = h" "m' = m1" by auto
    have "StrictSegHeap_free NUMBINS size2Class class2Size dll_insert (NewSourceHeap_free zone_free) NewSourceHeap_getSize p
        ((?g, (snd (ks ! i), h)), m) = Some ((?g', (snd (ks ! i), h)), m1)"
      using False o c(2) a by (simp add: StrictSegHeap_free_def gs)
    moreover have "tables N (ks[i := (?g', snd (ks ! i))]) ?G" by (rule tables_update [OF t i cN]) simp_all
    ultimately show ?thesis using e map_snd_same(1) [OF iN, of ?g']
      by (intro exI [of _ ?g'] exI [of _ "snd (ks ! i)"]) simp
  qed
qed

section \<open>The family keeps the contract\<close>

definition kingsleys_inv :: "nat \<Rightarrow> ('h hstate \<Rightarrow> block set \<Rightarrow> bool) \<Rightarrow> 'h kfamily \<Rightarrow> block set \<Rightarrow> bool" where
  "kingsleys_inv N sinv = (\<lambda>((ks, h), m) L. \<exists>G. tables N ks G \<and> ansi_inv (flat_inv N sinv) ((G, (map snd ks, h)), m) L)"

definition kingsley_member_malloc ::
  "nat \<Rightarrow> (u32 \<Rightarrow> 'h hstate \<Rightarrow> (u32 \<times> 'h hstate) option) \<Rightarrow> u32 \<Rightarrow> 'h kfamily \<Rightarrow> (u32 \<times> 'h kfamily) option" where
  "kingsley_member_malloc i smalloc = member_malloc i (own_malloc (KingsleyStyleHeap_malloc smalloc))"

definition kingsley_member_free :: "nat \<Rightarrow> u32 \<Rightarrow> 'h kfamily \<Rightarrow> 'h kfamily option" where
  "kingsley_member_free i = member_free i (own_free KingsleyStyleHeap_free)"

lemma flat_ok_kingsley: "i < N \<Longrightarrow> ansi_ok (flat_ok N i ok) sz = kingsley_ok ok sz"
proof -
  assume i: "i < N"
  have "seg_ok (N * NUMBINS) (flat_class i) flat_max f s = seg_ok NUMBINS size2Class class2Size f s" for f s
  proof (cases "s \<le> maxObjectSize NUMBINS class2Size")
    case True
    then have "size2Class s < NUMBINS" using kingsley.class_lt by (simp add: maxObjectSize_def)
    with True i show ?thesis by (simp add: seg_ok_def flat_maxObjectSize flat_class_def)
  next
    case False
    with i show ?thesis by (simp add: seg_ok_def flat_maxObjectSize)
  qed
  then show ?thesis by (simp add: ansi_ok_def kingsley_ok_def flat_ok_def)
qed

text \<open>The size recorded for a live block.\<close>

lemma ansi_free_size:
  assumes "source_heap smalloc sfree sok sinv" and "i < N" and "ansi_inv (flat_inv N sinv) ((G, (zs, h)), m) L"
    and "(p, n) \<in> L" and "NewSourceHeap_getSize p ((), m) = Some s"
  shows "class2Size 0 \<le> s" and "p \<noteq> 0"
proof -
  note S = source_heap.flat_seg_heap [OF assms(1,2)]
  obtain X where X: "flat_inv N sinv ((G, (zs, h)), m) X" "within L X" using assms(3) by (auto simp: ansi_inv_def)
  obtain k where k: "(p, k) \<in> X" using within_block [OF X(2) assms(4)] by auto
  obtain Y where Y: "new_source_inv (zones_inv N sinv) ((zs, h), m) Y" "\<forall>b \<in> Y. unat (flat_max 0) \<le> snd b" "within X Y"
    using X(1) by (auto simp: flat_inv_def seg_inv_def)
  obtain j where j: "(p, j) \<in> Y" using within_block [OF Y(3) k] by auto
  have z: "sized_heap (flat_big smalloc i) (NewSourceHeap_free (member_free i zone_free)) (new_source_ok (zone_ok sok CHUNKY))
      (new_source_inv (zones_inv N sinv)) NewSourceHeap_getSize"
    using S by (simp add: seg_heap_def)
  obtain s' where "NewSourceHeap_getSize p ((zs, h), m) = Some s'" "unat s' = j" using sized_heap.getSize_law [OF z Y(1) j] by blast
  then have "unat s = j" using assms(5) by (simp add: NewSourceHeap_getSize_def)
  then show "class2Size 0 \<le> s" using Y(2) j by (auto simp: flat_max_def word_le_nat_alt)
  have "source_heap (flat_big smalloc i) (NewSourceHeap_free (member_free i zone_free)) (new_source_ok (zone_ok sok CHUNKY))
      (new_source_inv (zones_inv N sinv))" using z by (simp add: sized_heap_def)
  from source_heap.inv_blocks [OF this Y(1)] j show "p \<noteq> 0" by (auto simp: ok_blocks_def ok_block_def)
qed

context source_heap
begin

theorem kingsleys_source_heap:
  assumes i: "i < N"
  shows "source_heap (kingsley_member_malloc i malloc) (kingsley_member_free i) (kingsley_ok oksize) (kingsleys_inv N inv)"
proof -
  note F = source_heap.ansi_source_heap [OF flat_source_heap [OF i]]
  show ?thesis
  proof unfold_locales
    show "ok_blocks L" if "kingsleys_inv N inv st L" for st :: "'h kfamily" and L
      using that source_heap.inv_blocks [OF F] by (cases st) (auto simp: kingsleys_inv_def)
  next
    fix st :: "'h kfamily" and L sz
    assume v: "kingsleys_inv N inv st L" and ok: "kingsley_ok oksize sz"
    obtain ks h m where st: "st = ((ks, h), m)" by (metis surj_pair)
    obtain G where G: "tables N ks G" "ansi_inv (flat_inv N inv) ((G, (map snd ks, h)), m) L"
      using v by (auto simp: kingsleys_inv_def st)
    have "ansi_ok (flat_ok N i oksize) sz" using flat_ok_kingsley [OF i] ok by simp
    from source_heap.malloc_law [OF F G(2) this] obtain p G' zs' h' m' where
      f: "StrictSegHeap_malloc (N * NUMBINS) (flat_class i) flat_max dll_get (flat_big malloc i) (ansi_size sz) ((G, (map snd ks, h)), m)
        = Some (p, ((G', (zs', h')), m'))"
      and r: "if p = 0 then ansi_inv (flat_inv N inv) ((G', (zs', h')), m') L
        else ansi_inv (flat_inv N inv) ((G', (zs', h')), m') (insert (p, unat sz) L) \<and> (p, unat sz) \<notin> L"
      "\<forall>a. covered L a \<longrightarrow> m' a = m a" by (auto simp: ANSIWrapper_malloc_def)
    obtain g z where gz: "StrictSegHeap_malloc NUMBINS size2Class class2Size dll_get (kingsley_big malloc) (ansi_size sz)
        ((fst (ks ! i), (snd (ks ! i), h)), m) = Some (p, ((g, (z, h')), m'))"
      "tables N (ks[i := (g, z)]) G'" "zs' = map snd (ks[i := (g, z)])"
      using flat_malloc_member [OF G(1) i f] by blast
    let ?st = "((ks[i := (g, z)], h'), m')"
    have "kingsley_member_malloc i malloc sz st = Some (p, ?st)" using gz(1)
      by (simp add: kingsley_member_malloc_def member_malloc_def own_malloc_def KingsleyStyleHeap_malloc_def
          ANSIWrapper_malloc_def st case_prod_unfold)
    moreover have "kingsleys_inv N inv ?st M" if "ansi_inv (flat_inv N inv) ((G', (zs', h')), m') M" for M
      using that gz(2,3) by (auto simp: kingsleys_inv_def)
    ultimately show "\<exists>p st'. kingsley_member_malloc i malloc sz st = Some (p, st') \<and>
        (if p = 0 then kingsleys_inv N inv st' L else kingsleys_inv N inv st' (insert (p, unat sz) L) \<and> (p, unat sz) \<notin> L) \<and>
        (\<forall>a. covered L a \<longrightarrow> snd st' a = snd st a)"
      using r by (intro exI [of _ p] exI [of _ ?st]) (simp add: st split: if_splits)
  next
    fix st :: "'h kfamily" and L p n
    assume v: "kingsleys_inv N inv st L" and pL: "(p, n) \<in> L"
    obtain ks h m where st: "st = ((ks, h), m)" by (metis surj_pair)
    obtain G where G: "tables N ks G" "ansi_inv (flat_inv N inv) ((G, (map snd ks, h)), m) L"
      using v by (auto simp: kingsleys_inv_def st)
    note sz = ansi_free_size(1) [OF source_heap_axioms i G(2) pL]
    from source_heap.free_law [OF F G(2) pL] obtain G' zs' h' m' where
      f0: "ANSIWrapper_free (StrictSegHeap_free (N * NUMBINS) (flat_class i) flat_max dll_insert
          (NewSourceHeap_free (member_free i zone_free)) NewSourceHeap_getSize) p ((G, (map snd ks, h)), m) = Some ((G', (zs', h')), m')"
      and r: "ansi_inv (flat_inv N inv) ((G', (zs', h')), m') (L - {(p, n)})"
      "\<forall>a. covered (L - {(p, n)}) a \<longrightarrow> m' a = m a" by auto
    have p0: "p \<noteq> 0" using source_heap.inv_blocks [OF F G(2)] pL by (auto simp: ok_blocks_def ok_block_def)
    then have f: "StrictSegHeap_free (N * NUMBINS) (flat_class i) flat_max dll_insert
          (NewSourceHeap_free (member_free i zone_free)) NewSourceHeap_getSize p ((G, (map snd ks, h)), m) = Some ((G', (zs', h')), m')"
      using f0 by (simp add: ANSIWrapper_free_def)
    obtain g z where gz: "StrictSegHeap_free NUMBINS size2Class class2Size dll_insert (NewSourceHeap_free zone_free) NewSourceHeap_getSize p
        ((fst (ks ! i), (snd (ks ! i), h)), m) = Some ((g, (z, h')), m')"
      "tables N (ks[i := (g, z)]) G'" "zs' = map snd (ks[i := (g, z)])"
      using flat_free_member [OF G(1) i sz f] by blast
    let ?st = "((ks[i := (g, z)], h'), m')"
    have "kingsley_member_free i p st = Some ?st" using gz(1) p0
      by (simp add: kingsley_member_free_def member_free_def own_free_def KingsleyStyleHeap_free_def
          ANSIWrapper_free_def st case_prod_unfold)
    moreover have "kingsleys_inv N inv ?st (L - {(p, n)})" using r(1) gz(2,3) by (auto simp: kingsleys_inv_def)
    ultimately show "\<exists>st'. kingsley_member_free i p st = Some st' \<and> kingsleys_inv N inv st' (L - {(p, n)}) \<and>
        (\<forall>a. covered (L - {(p, n)}) a \<longrightarrow> snd st' a = snd st a)"
      using r(2) by (intro exI [of _ ?st]) (simp add: st)
  next
    fix kh :: "(seg \<times> zone) list \<times> 'h" and m m' :: hmem and L
    assume v: "kingsleys_inv N inv (kh, m) L" and fr: "\<And>a. \<not> covered L a \<Longrightarrow> m' a = m a"
    obtain ks h where kh: "kh = (ks, h)" by (cases kh)
    obtain G where G: "tables N ks G" "ansi_inv (flat_inv N inv) ((G, (map snd ks, h)), m) L"
      using v by (auto simp: kingsleys_inv_def kh)
    from source_heap.inv_frame [OF F G(2) fr] G(1) show "kingsleys_inv N inv (kh, m') L"
      by (auto simp: kingsleys_inv_def kh)
  qed
qed

end

end
