(* ===== verification/Hl_Grace.thy ===== *)
theory Hl_Grace
  imports Hl_Shared Xdefines
begin

text \<open>
  The allocator of Grace as a whole: \<open>include/graceheap.h\<close> is an \<open>ANSIWrapper\<close> over the \<open>warpheap\<close> of
  \<open>include/warpheap.h\<close>, which puts the per-thread heaps of \<open>include/ppheap.h\<close>, one of sixteen
  \<open>KingsleyStyleHeap\<close>s for every thread, into a block of its source by \<open>include/xadaptheap.h\<close>. Threads
  are processes with memories of their own, but the heap lives in the transactional memory, so that a
  sequence of operations by different threads is what the serialised transactions perform.
\<close>

section \<open>\<open>PPHeap\<close>\<close>

definition thisHeap :: "nat \<Rightarrow> u32 \<Rightarrow> nat" where
  "thisHeap NumHeaps pid = unat (pid AND (of_nat NumHeaps - 1))"

text \<open>The loop of the first allocation.\<close>

fun pp_init ::
  "(u32 \<Rightarrow> ('k \<times> 'h) hstate \<Rightarrow> (u32 \<times> ('k \<times> 'h) hstate) option) \<Rightarrow> (u32 \<Rightarrow> ('k \<times> 'h) hstate \<Rightarrow> ('k \<times> 'h) hstate option)
   \<Rightarrow> nat list \<Rightarrow> ('k, 'h) family \<Rightarrow> ('k, 'h) family option" where
  "pp_init mal fre [] st = Some st"
| "pp_init mal fre (i # js) st =
     Option.bind (member_malloc i mal sizeof_double st) (\<lambda>(p, st).
       Option.bind (member_free i fre p st) (pp_init mal fre js))"

type_synonym ('k, 'h) ppheap = "((bool \<times> 'k list) \<times> 'h) hstate"

definition PPHeap_malloc ::
  "nat \<Rightarrow> (u32 \<Rightarrow> ('k \<times> 'h) hstate \<Rightarrow> (u32 \<times> ('k \<times> 'h) hstate) option) \<Rightarrow> (u32 \<Rightarrow> ('k \<times> 'h) hstate \<Rightarrow> ('k \<times> 'h) hstate option)
   \<Rightarrow> u32 \<Rightarrow> u32 \<Rightarrow> ('k, 'h) ppheap \<Rightarrow> (u32 \<times> ('k, 'h) ppheap) option" where
  "PPHeap_malloc NumHeaps mal fre pid sz = (\<lambda>(((initialized, ks), h), m).
     Option.bind (if \<not> initialized then pp_init mal fre [0 ..< NumHeaps] ((ks, h), m) else Some ((ks, h), m)) (\<lambda>st.
       map_option (\<lambda>(ptr, ((ks, h), m)). (ptr, (((True, ks), h), m))) (member_malloc (thisHeap NumHeaps pid) mal sz st)))"

definition PPHeap_free ::
  "nat \<Rightarrow> (u32 \<Rightarrow> ('k \<times> 'h) hstate \<Rightarrow> ('k \<times> 'h) hstate option) \<Rightarrow> u32 \<Rightarrow> u32 \<Rightarrow> ('k, 'h) ppheap \<Rightarrow> ('k, 'h) ppheap option" where
  "PPHeap_free NumHeaps fre pid ptr = (\<lambda>(((initialized, ks), h), m).
     map_option (\<lambda>((ks, h), m). (((initialized, ks), h), m)) (member_free (thisHeap NumHeaps pid) fre ptr ((ks, h), m)))"

section \<open>\<open>xadaptheap\<close>, \<open>warpheap\<close> and \<open>graceheap\<close>\<close>

type_synonym 'h warp = "(seg \<times> zone, 'h) ppheap"

definition PerThreadHeap_new :: "bool \<times> (seg \<times> zone) list" where
  "PerThreadHeap_new = (False, replicate NUM_HEAPS (SegHeap_new NUMBINS, zone_new))"

text \<open>The constructor takes \<open>sizeof (PerThreadHeap)\<close> bytes, here \<open>sz\<close>, from the source for the object.\<close>

definition xadaptheap_new ::
  "(u32 \<Rightarrow> 'h hstate \<Rightarrow> (u32 \<times> 'h hstate) option) \<Rightarrow> u32 \<Rightarrow> 'h hstate \<Rightarrow> (u32 \<times> 'h warp) option" where
  "xadaptheap_new smalloc sz st = map_option (\<lambda>(buf, (h, m)). (buf, ((PerThreadHeap_new, h), m))) (smalloc sz st)"

definition warpheap_malloc ::
  "(u32 \<Rightarrow> 'h hstate \<Rightarrow> (u32 \<times> 'h hstate) option) \<Rightarrow> u32 \<Rightarrow> u32 \<Rightarrow> 'h warp \<Rightarrow> (u32 \<times> 'h warp) option" where
  "warpheap_malloc smalloc pid =
     PPHeap_malloc NUM_HEAPS (own_malloc (KingsleyStyleHeap_malloc smalloc)) (own_free KingsleyStyleHeap_free) pid"

definition warpheap_free :: "u32 \<Rightarrow> u32 \<Rightarrow> 'h warp \<Rightarrow> 'h warp option" where
  "warpheap_free pid = PPHeap_free NUM_HEAPS (own_free KingsleyStyleHeap_free) pid"

definition graceheap_malloc ::
  "(u32 \<Rightarrow> 'h hstate \<Rightarrow> (u32 \<times> 'h hstate) option) \<Rightarrow> u32 \<Rightarrow> u32 \<Rightarrow> 'h warp \<Rightarrow> (u32 \<times> 'h warp) option" where
  "graceheap_malloc smalloc pid = ANSIWrapper_malloc (warpheap_malloc smalloc pid)"

definition graceheap_free :: "u32 \<Rightarrow> u32 \<Rightarrow> 'h warp \<Rightarrow> 'h warp option" where
  "graceheap_free pid = ANSIWrapper_free (warpheap_free pid)"

text \<open>\<open>AdaptToXpersist\<close> gives its whole range to the first request and nothing to later ones.\<close>

definition AdaptToXpersist_malloc :: "('x \<Rightarrow> 'x) \<Rightarrow> ('x \<Rightarrow> u32) \<Rightarrow> u32 \<Rightarrow> bool \<times> 'x \<Rightarrow> u32 \<times> bool \<times> 'x" where
  "AdaptToXpersist_malloc commitMemory base sz = (\<lambda>(alreadyMalloced, x).
     if alreadyMalloced then (0, alreadyMalloced, x)
     else let x = commitMemory x in (base x, True, x))"

section \<open>Every thread's view keeps the contract\<close>

lemma thisHeap_less: "thisHeap NUM_HEAPS pid < NUM_HEAPS"
proof -
  have "pid AND 15 \<le> 15" by (rule word_and_le1)
  then show ?thesis by (simp add: thisHeap_def NUM_HEAPS_def word_le_nat_alt)
qed

definition warp_inv :: "('h hstate \<Rightarrow> block set \<Rightarrow> bool) \<Rightarrow> 'h warp \<Rightarrow> block set \<Rightarrow> bool" where
  "warp_inv sinv = (\<lambda>(((initialized, ks), h), m) L. kingsleys_inv NUM_HEAPS sinv ((ks, h), m) L)"

context source_heap
begin

lemma pp_init_law:
  assumes ok: "kingsley_ok oksize sizeof_double" and js: "\<forall>i \<in> set js. i < N" and v: "kingsleys_inv N inv st L"
  shows "\<exists>st'. pp_init (own_malloc (KingsleyStyleHeap_malloc malloc)) (own_free KingsleyStyleHeap_free) js st = Some st' \<and>
    kingsleys_inv N inv st' L \<and> (\<forall>a. covered L a \<longrightarrow> snd st' a = snd st a)"
  using js v
proof (induction js arbitrary: st)
  case (Cons i js)
  note S = kingsleys_source_heap [of i N]
  have i: "i < N" using Cons.prems(1) by simp
  have "\<exists>p st1 st2. kingsley_member_malloc i malloc sizeof_double st = Some (p, st1) \<and>
    kingsley_member_free i p st1 = Some st2 \<and> kingsleys_inv N inv st2 L \<and> (\<forall>a. covered L a \<longrightarrow> snd st2 a = snd st a)"
  proof -
    let ?n = "unat sizeof_double"
    obtain p st1 where r: "kingsley_member_malloc i malloc sizeof_double st = Some (p, st1)"
      "if p = 0 then kingsleys_inv N inv st1 L else kingsleys_inv N inv st1 (insert (p, ?n) L) \<and> (p, ?n) \<notin> L"
      "\<forall>a. covered L a \<longrightarrow> snd st1 a = snd st a"
      using source_heap.malloc_law [OF S [OF i] Cons.prems(2) ok] by blast
    show ?thesis
    proof (cases "p = 0")
      case True
      obtain ks h m where st1: "st1 = ((ks, h), m)" by (metis surj_pair)
      have v1: "kingsleys_inv N inv st1 L" using r(2) True by simp
      then have "i < length ks" using i by (auto simp: st1 kingsleys_inv_def tables_def)
      then have "kingsley_member_free i p st1 = Some st1"
        by (simp add: True kingsley_member_free_def member_free_def own_free_def KingsleyStyleHeap_free_def ANSIWrapper_free_def
            st1 case_prod_unfold)
      with r v1 show ?thesis by blast
    next
      case False
      then have v1: "kingsleys_inv N inv st1 (insert (p, ?n) L)" and new: "(p, ?n) \<notin> L" using r(2) by simp_all
      have e: "insert (p, ?n) L - {(p, ?n)} = L" using new by blast
      from source_heap.free_law [OF S [OF i] v1 insertI1] obtain st2 where "kingsley_member_free i p st1 = Some st2"
        "kingsleys_inv N inv st2 L" "\<forall>a. covered L a \<longrightarrow> snd st2 a = snd st1 a" unfolding e by blast
      with r(1,3) show ?thesis by (intro exI [of _ p] exI [of _ st1] exI [of _ st2]) simp
    qed
  qed
  then obtain p st1 st2 where s: "kingsley_member_malloc i malloc sizeof_double st = Some (p, st1)"
    "kingsley_member_free i p st1 = Some st2" "kingsleys_inv N inv st2 L" "\<forall>a. covered L a \<longrightarrow> snd st2 a = snd st a"
    by blast
  from Cons.IH [OF _ s(3)] Cons.prems(1) s show ?case
    by (auto simp: kingsley_member_malloc_def kingsley_member_free_def)
qed simp

lemma warp_source_heap:
  assumes ok: "kingsley_ok oksize sizeof_double"
  shows "source_heap (warpheap_malloc malloc pid) (warpheap_free pid) (kingsley_ok oksize) (warp_inv inv)"
proof unfold_locales
  note S = kingsleys_source_heap [OF thisHeap_less [of pid]]
  show "ok_blocks L" if "warp_inv inv st L" for st :: "'h warp" and L
    using that source_heap.inv_blocks [OF S] by (cases st) (auto simp: warp_inv_def)
  fix st :: "'h warp" and L
  obtain b ks h m where st: "st = (((b, ks), h), m)" by (metis surj_pair)
  { fix sz
    assume v: "warp_inv inv st L" and oks: "kingsley_ok oksize sz"
    let ?init = "pp_init (own_malloc (KingsleyStyleHeap_malloc malloc)) (own_free KingsleyStyleHeap_free) [0 ..< NUM_HEAPS] ((ks, h), m)"
    have v': "kingsleys_inv NUM_HEAPS inv ((ks, h), m) L" using v by (simp add: warp_inv_def st)
    obtain st1 where s1: "(if \<not> b then ?init else Some ((ks, h), m)) = Some st1" "kingsleys_inv NUM_HEAPS inv st1 L"
      "\<forall>a. covered L a \<longrightarrow> snd st1 a = m a"
      using pp_init_law [OF ok _ v', of "[0 ..< NUM_HEAPS]"] v' by (cases b) auto
    obtain p ks' h' m' where r: "kingsley_member_malloc (thisHeap NUM_HEAPS pid) malloc sz st1 = Some (p, ((ks', h'), m'))"
      "if p = 0 then kingsleys_inv NUM_HEAPS inv ((ks', h'), m') L
       else kingsleys_inv NUM_HEAPS inv ((ks', h'), m') (insert (p, unat sz) L) \<and> (p, unat sz) \<notin> L"
      "\<forall>a. covered L a \<longrightarrow> m' a = snd st1 a"
      using source_heap.malloc_law [OF S s1(2) oks] by auto
    have "warpheap_malloc malloc pid sz st = Some (p, (((True, ks'), h'), m'))"
      using s1(1) r(1) by (simp add: warpheap_malloc_def PPHeap_malloc_def st kingsley_member_malloc_def)
    then show "\<exists>p st'. warpheap_malloc malloc pid sz st = Some (p, st') \<and>
      (if p = 0 then warp_inv inv st' L else warp_inv inv st' (insert (p, unat sz) L) \<and> (p, unat sz) \<notin> L) \<and>
      (\<forall>a. covered L a \<longrightarrow> snd st' a = snd st a)"
      using r(2,3) s1(3) by (intro exI [of _ p] exI [of _ "(((True, ks'), h'), m')"]) (simp add: warp_inv_def st)
  next
    fix p n
    assume v: "warp_inv inv st L" and pL: "(p, n) \<in> L"
    have v': "kingsleys_inv NUM_HEAPS inv ((ks, h), m) L" using v by (simp add: warp_inv_def st)
    obtain ks' h' m' where r: "kingsley_member_free (thisHeap NUM_HEAPS pid) p ((ks, h), m) = Some ((ks', h'), m')"
      "kingsleys_inv NUM_HEAPS inv ((ks', h'), m') (L - {(p, n)})" "\<forall>a. covered (L - {(p, n)}) a \<longrightarrow> m' a = m a"
      using source_heap.free_law [OF S v' pL] by auto
    then show "\<exists>st'. warpheap_free pid p st = Some st' \<and> warp_inv inv st' (L - {(p, n)}) \<and>
      (\<forall>a. covered (L - {(p, n)}) a \<longrightarrow> snd st' a = snd st a)"
      by (intro exI [of _ "(((b, ks'), h'), m')"])
        (simp add: warpheap_free_def PPHeap_free_def st kingsley_member_free_def warp_inv_def)
  }
next
  fix bh :: "(bool \<times> (seg \<times> zone) list) \<times> 'h" and m m' :: hmem and L
  assume v: "warp_inv inv (bh, m) L" and fr: "\<And>a. \<not> covered L a \<Longrightarrow> m' a = m a"
  obtain b ks h where bh: "bh = ((b, ks), h)" by (metis surj_pair)
  from source_heap.inv_frame [OF kingsleys_source_heap [OF thisHeap_less [of 0]], of "(ks, h)" m L m'] v fr
  show "warp_inv inv (bh, m') L" by (simp add: warp_inv_def bh)
qed

end

section \<open>The initial state\<close>

lemma kingsleys_initial:
  assumes "sinv (h, m) {}"
  shows "kingsleys_inv N sinv ((replicate N (SegHeap_new NUMBINS, zone_new), h), m) {}"
proof -
  let ?ks = "replicate N (SegHeap_new NUMBINS, zone_new)"
  let ?G = "(SegHeap_new NUMBINS)\<lparr>sg_bins := replicate (N * NUMBINS) 0\<rparr>"
  have "concat (replicate n (replicate B (0 :: u32))) = replicate (n * B) 0" for n B
    by (induction n) (simp_all add: replicate_add)
  then have t: "tables N ?ks ?G" by (simp add: tables_def SegHeap_new_def)
  have "zones_inv N sinv ((map snd ?ks, h), m) {}"
    using assms by (intro zones_invI [where As = "\<lambda>_. {}" and Ls = "\<lambda>_. {}"]) (simp_all add: zone_layout_def zone_new_def)
  then have "new_source_inv (zones_inv N sinv) ((map snd ?ks, h), m) {}" by (simp add: new_source_inv_def)
  moreover have "seg_lists (N * NUMBINS) flat_max dl_repr {} (sg_bins ?G) m (\<lambda>_. [])"
    by (simp add: seg_lists_def dll.repr_empty)
  ultimately have "flat_inv N sinv ((?G, (map snd ?ks, h)), m) {}"
    by (auto simp: flat_inv_def seg_inv_def intro!: exI [of _ "{}"] exI [of _ "\<lambda>_. []"])
  then have "ansi_inv (flat_inv N sinv) ((?G, (map snd ?ks, h)), m) {}" by (auto simp: ansi_inv_def intro!: exI [of _ "{}"])
  with t show ?thesis by (auto simp: kingsleys_inv_def)
qed

section \<open>Clients with several threads\<close>

text \<open>The operations of all threads in the order in which their transactions are serialised.\<close>

fun trun ::
  "(u32 \<Rightarrow> u32 \<Rightarrow> 'h hstate \<Rightarrow> (u32 \<times> 'h hstate) option) \<Rightarrow> (u32 \<Rightarrow> u32 \<Rightarrow> 'h hstate \<Rightarrow> 'h hstate option) \<Rightarrow> (u32 \<times> hop) list
   \<Rightarrow> 'h hstate \<times> block set \<times> hmem \<Rightarrow> ('h hstate \<times> block set \<times> hmem) option" where
  "trun mal fre [] s = Some s"
| "trun mal fre ((pid, op) # ops) s = Option.bind (hrun (mal pid) (fre pid) [op] s) (trun mal fre ops)"

text \<open>Heaps that different threads use through operations of their own, with one invariant.\<close>

locale thread_heaps =
  fixes mal :: "u32 \<Rightarrow> u32 \<Rightarrow> 'h hstate \<Rightarrow> (u32 \<times> 'h hstate) option"
    and fre :: "u32 \<Rightarrow> u32 \<Rightarrow> 'h hstate \<Rightarrow> 'h hstate option"
    and oksize :: "u32 \<Rightarrow> bool"
    and inv :: "'h hstate \<Rightarrow> block set \<Rightarrow> bool"
  assumes each: "source_heap (mal pid) (fre pid) oksize inv"
begin

lemma trun_safe:
  "inv st L \<Longrightarrow> (\<And>sz. sz \<in> requests (map snd ops) \<Longrightarrow> oksize sz) \<Longrightarrow> (\<And>a. covered L a \<Longrightarrow> snd st a = sh a) \<Longrightarrow>
   \<exists>st' L' sh'. trun mal fre ops (st, L, sh) = Some (st', L', sh') \<and> inv st' L' \<and> ok_blocks L' \<and>
     (\<forall>a. covered L' a \<longrightarrow> snd st' a = sh' a)"
proof (induction ops arbitrary: st L sh)
  case Nil
  then show ?case using source_heap.inv_blocks [OF each] by auto
next
  case (Cons x ops)
  obtain pid op where x: "x = (pid, op)" by (cases x)
  have r: "requests [op] \<subseteq> requests (map snd (x # ops))" "requests (map snd ops) \<subseteq> requests (map snd (x # ops))"
    by (cases op; auto simp: x)+
  have ok1: "oksize sz" if "sz \<in> requests [op]" for sz using that r(1) Cons.prems(2) by blast
  obtain st1 L1 sh1 where s: "hrun (mal pid) (fre pid) [op] (st, L, sh) = Some (st1, L1, sh1)" "inv st1 L1"
    "\<forall>a. covered L1 a \<longrightarrow> snd st1 a = sh1 a"
    using source_heap.hrun_safe [OF each Cons.prems(1) ok1 Cons.prems(3)] by blast
  have "oksize sz" if "sz \<in> requests (map snd ops)" for sz using that r(2) Cons.prems(2) by blast
  from Cons.IH [OF s(2) this, of sh1] s(3) have "\<exists>st' L' sh'. trun mal fre ops (st1, L1, sh1) = Some (st', L', sh') \<and>
    inv st' L' \<and> ok_blocks L' \<and> (\<forall>a. covered L' a \<longrightarrow> snd st' a = sh' a)" by blast
  moreover have "trun mal fre (x # ops) (st, L, sh) = trun mal fre ops (st1, L1, sh1)"
    unfolding x trun.simps s(1) by simp
  ultimately show ?case by simp
qed

end

lemma grace_thread_heaps:
  assumes "source_heap smalloc sfree sok sinv" and "sok (sizeof_Arena + CHUNKY)"
  shows "thread_heaps (graceheap_malloc smalloc) graceheap_free (ansi_ok (kingsley_ok sok)) (ansi_inv (warp_inv sinv))"
proof (rule thread_heaps.intro)
  have "kingsley_ok sok sizeof_double" by (rule kingsley_ok_small [of sok, OF assms(2)]) (simp add: sizeof_double_def)
  note W = source_heap.ansi_source_heap [OF source_heap.warp_source_heap [OF assms(1) this]]
  fix pid
  show "source_heap (graceheap_malloc smalloc pid) (graceheap_free pid) (ansi_ok (kingsley_ok sok)) (ansi_inv (warp_inv sinv))"
    unfolding graceheap_malloc_def graceheap_free_def by (rule W)
qed

interpretation grace: thread_heaps "graceheap_malloc bump_malloc" graceheap_free "ansi_ok (kingsley_ok bump_ok)"
    "ansi_inv (warp_inv bump_inv)"
  by (rule grace_thread_heaps [OF bump.source_heap_axioms])
    (simp add: bump_ok_def sizeof_Arena_def CHUNKY_def)

lemma grace_ok_small:
  assumes "ok (sizeof_Arena + CHUNKY)" and "unat sz \<le> 2048"
  shows "ansi_ok (kingsley_ok ok) sz"
proof -
  have "unat (ansi_size sz) \<le> 2048"
    using assms(2) by (subst unat_ansi_size) (auto simp: round_up_def max_def)
  then show ?thesis using assms(2) kingsley_ok_small [of ok, OF assms(1)] by (simp add: ansi_ok_def)
qed

section \<open>Property\<close>

text \<open>C4: the heap that Grace gives to a program is safe for any number of threads: after \<open>xadaptheap\<close> has put
  the sixteen heaps into a block of a source that keeps its contract, no sequence of allocations of at
  most 2048 bytes, frees and writes by threads with arbitrary ids makes it abort, even when an object is
  freed by another thread than the one that allocated it; live blocks are disjoint and
  every word of a live block holds what was last written there.\<close>

theorem graceheap_threads_safe:
  assumes "source_heap smalloc sfree sok sinv" and "sok (sizeof_Arena + CHUNKY)" and "sinv st {}" and "sok sz"
    and "xadaptheap_new smalloc sz st = Some (buf, ws)" and "buf \<noteq> 0"
    and "\<forall>n \<in> requests (map snd ops). unat n \<le> 2048"
  shows "\<exists>ws' L sh. trun (graceheap_malloc smalloc) graceheap_free ops (ws, {}, snd ws) = Some (ws', L, sh) \<and>
    ok_blocks L \<and> (\<forall>a. covered L a \<longrightarrow> snd ws' a = sh a)"
proof -
  let ?Y = "{(buf, unat sz)}" and ?rest = "rest_inv sinv {(buf, unat sz)} (snd ws)"
  obtain h m where hm: "smalloc sz st = Some (buf, (h, m))" "ws = ((PerThreadHeap_new, h), m)"
    using assms(5) by (auto simp: xadaptheap_new_def)
  have "sinv (h, m) ?Y" using source_heap.malloc_law [OF assms(1,3,4)] hm(1) assms(6) by auto
  then have "?rest (h, m) {}" by (simp add: rest_inv_def hm(2))
  then have "warp_inv ?rest ws {}" unfolding hm(2)
    by (simp add: warp_inv_def PerThreadHeap_new_def kingsleys_initial)
  then have i: "ansi_inv (warp_inv ?rest) ws {}" by (auto simp: ansi_inv_def intro!: exI [of _ "{}"])
  note T = grace_thread_heaps [OF source_heap.rest_source_heap [OF assms(1)] assms(2)]
  have "ansi_ok (kingsley_ok sok) n" if "n \<in> requests (map snd ops)" for n
    using grace_ok_small [of sok, OF assms(2)] assms(7) that by blast
  from thread_heaps.trun_safe [OF T i this, of ops "snd ws"] show ?thesis by (auto simp: covered_def)
qed

theorem graceheap_threads_safe_witness:
  "\<exists>ws' L sh. trun (graceheap_malloc bump_malloc) graceheap_free
      [(4711, HMalloc 100), (4712, HMalloc 24), (4711, HFree 0x3000 100), (4711, HMalloc 2048)]
      (snd (the (xadaptheap_new bump_malloc 0x10000 (bump_new 0x1000 0x2000000, \<lambda>_. 0))), {},
       snd (snd (the (xadaptheap_new bump_malloc 0x10000 (bump_new 0x1000 0x2000000, \<lambda>_. 0))))) = Some (ws', L, sh) \<and>
    ok_blocks L \<and> (\<forall>a. covered L a \<longrightarrow> snd ws' a = sh a)"
  by (rule graceheap_threads_safe [OF bump.source_heap_axioms, where st = "(bump_new 0x1000 0x2000000, \<lambda>_. 0)"
        and sz = 65536 and buf = 4096])
    (simp_all add: bump_ok_def bump_inv_def bump_new_def bump_sanity_def sizeof_Arena_def CHUNKY_def
      xadaptheap_new_def bump_malloc_def bump_round_def sizeof_double_def)

end
