(* ===== verification/Hl_SegHeap.thy ===== *)
theory Hl_SegHeap
  imports Hl_Strict
begin

text \<open>
  \<open>SegHeap\<close> of \<open>heaplayers/segheap.h\<close>: an allocation takes an object from the first bin of a
  sufficient class that the bin map marks and that is not empty. The search by words and bits is
  shown to be the search bin by bin.
\<close>

unbundle bit_operations_syntax

section \<open>The bin map\<close>

definition seg_idx2block :: "nat \<Rightarrow> nat" where "seg_idx2block i = i div 32"

definition seg_idx2bit :: "nat \<Rightarrow> u32" where "seg_idx2bit i = push_bit (i mod 32) 1"

definition seg_get_binmap :: "nat \<Rightarrow> seg \<Rightarrow> u32" where
  "seg_get_binmap i g = sg_binmap g ! (i div 32) AND seg_idx2bit i"

definition seg_mark_bin :: "nat \<Rightarrow> seg \<Rightarrow> seg" where
  "seg_mark_bin i g = g\<lparr>sg_binmap := (sg_binmap g)[i div 32 := sg_binmap g ! (i div 32) OR seg_idx2bit i]\<rparr>"

definition seg_unmark_bin :: "nat \<Rightarrow> seg \<Rightarrow> seg" where
  "seg_unmark_bin i g = g\<lparr>sg_binmap := (sg_binmap g)[i div 32 := sg_binmap g ! (i div 32) AND NOT (seg_idx2bit i)]\<rparr>"

section \<open>Allocation\<close>

text \<open>The next block with a marked bin; \<open>None\<close>: there is none.\<close>

function seg_next_block :: "u32 list \<Rightarrow> nat \<Rightarrow> nat option" where
  "seg_next_block b block =
     (if block + 1 \<ge> length b then None
      else if b ! (block + 1) = 0 then seg_next_block b (block + 1)
      else Some (block + 1))"
  by pat_completeness auto
termination by (relation "measure (\<lambda>(b, block). length b - block)") auto

declare seg_next_block.simps [simp del]

text \<open>The next marked bin of a block; \<open>None\<close>: the bit has left the word and the loop does not end.\<close>

fun seg_skip_bits :: "nat \<Rightarrow> nat \<Rightarrow> u32 \<Rightarrow> u32 \<Rightarrow> (nat \<times> u32) option" where
  "seg_skip_bits 0 idx bt mp = None"
| "seg_skip_bits (Suc n) idx bt mp =
     (if bt AND mp = 0 then seg_skip_bits n (idx + 1) (push_bit 1 bt) mp else Some (idx, bt))"

text \<open>Taking an object out of the bin \<open>idx\<close>.\<close>

definition seg_take :: "(dict \<Rightarrow> u32 \<times> dict) \<Rightarrow> u32 \<Rightarrow> nat \<Rightarrow> seg \<times> hmem \<Rightarrow> u32 \<times> seg \<times> hmem" where
  "seg_take get sz idx = (\<lambda>(g, m).
     let (ptr, (hw, m)) = AdaptHeap_malloc get sz (sg_bins g ! idx, m)
     in (ptr, g\<lparr>sg_bins := (sg_bins g)[idx := hw]\<rparr>, m))"

text \<open>Where an iteration continues: \<open>None\<close> is the jump to \<open>GET_MEMORY\<close>.\<close>

definition seg_start :: "u32 list \<Rightarrow> nat \<Rightarrow> nat \<Rightarrow> u32 \<Rightarrow> u32 \<Rightarrow> (nat \<times> nat \<times> u32 \<times> u32) option" where
  "seg_start b idx block mp bt =
     (if bt > mp \<or> bt = 0 then map_option (\<lambda>block. (block * 32, block, b ! block, 1)) (seg_next_block b block)
      else Some (idx, block, mp, bt))"

text \<open>The loop \<open>for (;;)\<close>. The pointer 0 is the jump to \<open>GET_MEMORY\<close>.\<close>

fun seg_scan ::
  "(dict \<Rightarrow> u32 \<times> dict) \<Rightarrow> u32 \<Rightarrow> nat \<Rightarrow> nat \<Rightarrow> nat \<Rightarrow> u32 \<Rightarrow> u32 \<Rightarrow> seg \<times> hmem \<Rightarrow> (u32 \<times> seg \<times> hmem) option" where
  "seg_scan get sz 0 idx block mp bt s = None"
| "seg_scan get sz (Suc n) idx block mp bt s =
     (case seg_start (sg_binmap (fst s)) idx block mp bt of
        None \<Rightarrow> Some (0, s)
      | Some (idx, block, mp, bt) \<Rightarrow>
          (case seg_skip_bits 33 idx bt mp of None \<Rightarrow> None
           | Some (idx, bt) \<Rightarrow>
               let (ptr, g, m) = seg_take get sz idx s
               in if ptr = 0
                  then let mp = mp AND NOT bt
                       in seg_scan get sz n (idx + 1) block mp (push_bit 1 bt) (g\<lparr>sg_binmap := (sg_binmap g)[block := mp]\<rparr>, m)
                  else Some (ptr, g, m)))"

definition SegHeap_malloc ::
  "nat \<Rightarrow> (u32 \<Rightarrow> nat) \<Rightarrow> (nat \<Rightarrow> u32) \<Rightarrow> (dict \<Rightarrow> u32 \<times> dict) \<Rightarrow> (u32 \<Rightarrow> 'h hstate \<Rightarrow> (u32 \<times> 'h hstate) option)
   \<Rightarrow> u32 \<Rightarrow> (seg \<times> 'h) hstate \<Rightarrow> (u32 \<times> (seg \<times> 'h) hstate) option" where
  "SegHeap_malloc NumBins getSizeClass getClassMaxSize get bigmalloc sz = (\<lambda>((g, h), m).
     if sz > maxObjectSize NumBins getClassMaxSize then map_option (big_result g) (bigmalloc sz (h, m))
     else
       let sc = getSizeClass sz;
           idx = sc;
           block = seg_idx2block idx;
           mp = sg_binmap g ! block;
           bt = seg_idx2bit idx
       in Option.bind (seg_scan get sz (32 * length (sg_binmap g) + 1) idx block mp bt (g, m)) (\<lambda>(ptr, g, m).
            if ptr = 0 then map_option (big_result g) (bigmalloc sz (h, m)) else Some (ptr, ((g, h), m))))"

section \<open>Deallocation\<close>

definition SegHeap_free ::
  "nat \<Rightarrow> (u32 \<Rightarrow> nat) \<Rightarrow> (nat \<Rightarrow> u32) \<Rightarrow> (u32 \<Rightarrow> dict \<Rightarrow> dict) \<Rightarrow> (u32 \<Rightarrow> 'h hstate \<Rightarrow> 'h hstate option)
   \<Rightarrow> (u32 \<Rightarrow> 'h hstate \<Rightarrow> u32 option) \<Rightarrow> u32 \<Rightarrow> (seg \<times> 'h) hstate \<Rightarrow> (seg \<times> 'h) hstate option" where
  "SegHeap_free NumBins getSizeClass getClassMaxSize ins bigfree getSize ptr = (\<lambda>((g, h), m).
     case getSize ptr (h, m) of None \<Rightarrow> None
     | Some objectSize \<Rightarrow>
         if objectSize = 0 then Some ((g, h), m)
         else if objectSize > maxObjectSize NumBins getClassMaxSize then
           map_option (\<lambda>(h, m). ((g, h), m)) (bigfree ptr (h, m))
         else case class_down getClassMaxSize objectSize (getSizeClass objectSize) of None \<Rightarrow> None
         | Some objectSizeClass \<Rightarrow>
             let (hw, m) = AdaptHeap_free ins ptr (sg_bins g ! objectSizeClass, m);
                 g = g\<lparr>sg_bins := (sg_bins g)[objectSizeClass := hw]\<rparr>;
                 g = seg_mark_bin objectSizeClass g
             in Some ((g\<lparr>sg_held := sg_held g + objectSize\<rparr>, h), m))"

text \<open>\<open>clear\<close>, where \<open>clear1\<close> is the \<open>clear\<close> of a little heap and \<open>bigclear\<close> that of the big heap.\<close>

fun clear_bins :: "(u32 \<times> 'h hstate \<Rightarrow> (u32 \<times> 'h hstate) option) \<Rightarrow> u32 list \<Rightarrow> 'h hstate \<Rightarrow> (u32 list \<times> 'h hstate) option" where
  "clear_bins clear1 [] st = Some ([], st)"
| "clear_bins clear1 (b # bs) st =
     (case clear1 (b, st) of None \<Rightarrow> None
      | Some (b, st) \<Rightarrow> map_option (\<lambda>(bs, st). (b # bs, st)) (clear_bins clear1 bs st))"

definition SegHeap_clear ::
  "nat \<Rightarrow> (u32 \<times> 'h hstate \<Rightarrow> (u32 \<times> 'h hstate) option) \<Rightarrow> ('h hstate \<Rightarrow> 'h hstate) \<Rightarrow> (seg \<times> 'h) hstate \<Rightarrow> (seg \<times> 'h) hstate option" where
  "SegHeap_clear NumBins clear1 bigclear = (\<lambda>((g, h), m).
     map_option (\<lambda>(bins, st). let (h, m) = bigclear st
         in ((\<lparr>sg_bins = bins, sg_binmap = replicate (NUM_ULONGS NumBins) 0, sg_held = 0\<rparr>, h), m))
       (clear_bins clear1 (sg_bins g) (h, m)))"

section \<open>The search bin by bin\<close>

definition seg_marked :: "seg \<Rightarrow> nat \<Rightarrow> bool" where
  "seg_marked g i \<longleftrightarrow> bit (sg_binmap g ! (i div 32)) (i mod 32)"

fun seg_ref :: "(dict \<Rightarrow> u32 \<times> dict) \<Rightarrow> u32 \<Rightarrow> nat list \<Rightarrow> seg \<times> hmem \<Rightarrow> u32 \<times> seg \<times> hmem" where
  "seg_ref get sz [] s = (0, s)"
| "seg_ref get sz (i # is) s =
     (if seg_marked (fst s) i then
        let (ptr, g, m) = seg_take get sz i s
        in if ptr = 0 then seg_ref get sz is (seg_unmark_bin i g, m) else (ptr, g, m)
      else seg_ref get sz is s)"

lemma seg_ref_skip:
  "\<forall>i \<in> set is. \<not> seg_marked (fst s) i \<Longrightarrow> seg_ref get sz (is @ js) s = seg_ref get sz js s"
  by (induction "is") auto

lemma seg_take_binmap: "seg_take get sz i (g, m) = (p, g', m') \<Longrightarrow> sg_binmap g' = sg_binmap g"
  by (auto simp: seg_take_def Let_def split: prod.splits)

text \<open>The bits of a word and its order.\<close>

lemma unat_p2: "k < 32 \<Longrightarrow> unat ((2 :: u32) ^ k) = 2 ^ k"
proof -
  assume "k < 32"
  then have "(2 :: nat) ^ k < 2 ^ 32" by (intro power_strict_increasing) auto
  then have "unat (of_nat (2 ^ k) :: u32) = 2 ^ k" by (rule unat_of_nat32)
  then show ?thesis by simp
qed

lemma above_bits:
  assumes "(mp :: u32) < 2 ^ k" and "k < 32" and "k \<le> j"
  shows "\<not> bit mp j"
proof -
  have "unat mp < 2 ^ k" using assms(1,2) by (simp add: word_less_nat_alt unat_p2)
  then have "take_bit k (unat mp) = unat mp" by (simp add: take_bit_nat_eq_self)
  then have "\<not> bit (unat mp) j" using assms(3) by (metis bit_take_bit_iff leD)
  then show ?thesis by (simp add: bit_unsigned_iff)
qed

lemma bit_above:
  assumes "(2 :: u32) ^ k \<le> mp" and "k < 32"
  shows "\<exists>j \<ge> k. bit mp j"
proof (rule ccontr)
  assume n: "\<not> (\<exists>j \<ge> k. bit mp j)"
  have "take_bit k mp = mp" using n by (intro bit_eqI) (auto simp: bit_take_bit_iff not_le [symmetric])
  then have "unat mp = take_bit k (unat mp)" by (metis unsigned_take_bit_eq)
  also have "\<dots> < 2 ^ k" by simp
  finally have "mp < 2 ^ k" using assms(2) by (simp add: word_less_nat_alt unat_p2)
  with assms(1) show False by simp
qed

lemma seg_skip_bits_first:
  "bit mp (k + d) \<Longrightarrow> \<forall>j. k \<le> j \<and> j < k + d \<longrightarrow> \<not> bit mp j \<Longrightarrow> d < n \<Longrightarrow>
   seg_skip_bits n idx (2 ^ k) mp = Some (idx + d, 2 ^ (k + d))"
proof (induction d arbitrary: n k idx)
  case 0
  then show ?case by (cases n) (auto simp: and.commute and_exp_eq_0_iff_not_bit)
next
  case (Suc d)
  then obtain n' where n: "n = Suc n'" by (cases n) auto
  have "\<not> bit mp k" using Suc.prems(2) by simp
  moreover have "push_bit 1 ((2::u32) ^ k) = 2 ^ Suc k" by (simp add: push_bit_eq_mult)
  moreover have "seg_skip_bits n' (idx + 1) (2 ^ Suc k) mp = Some (idx + 1 + d, 2 ^ (Suc k + d))"
    using Suc.prems n by (intro Suc.IH) auto
  ultimately show ?case by (simp add: n and.commute and_exp_eq_0_iff_not_bit mult.commute)
qed

lemma seg_skip_bits_spec:
  assumes "(2 :: u32) ^ k \<le> mp" and "k < 32"
  obtains d where "seg_skip_bits 33 idx (2 ^ k) mp = Some (idx + d, 2 ^ (k + d))" and "bit mp (k + d)"
    and "\<forall>j. k \<le> j \<and> j < k + d \<longrightarrow> \<not> bit mp j" and "k + d < 32"
proof -
  define j where "j = (LEAST j. k \<le> j \<and> bit mp j)"
  have j: "k \<le> j" "bit mp j" using LeastI_ex [OF bit_above [OF assms, unfolded Bex_def]] by (simp_all add: j_def)
  have least: "\<not> bit mp i" if "k \<le> i" "i < j" for i using not_less_Least [of i "\<lambda>j. k \<le> j \<and> bit mp j"] that by (simp add: j_def)
  have "j < 32" using bit_imp_le_length [OF j(2)] by simp
  then show thesis using j least by (intro that [of "j - k"] seg_skip_bits_first) auto
qed

lemma seg_next_block_spec:
  "case seg_next_block b block of
     None \<Rightarrow> \<forall>i. block < i \<and> i < length b \<longrightarrow> b ! i = 0
   | Some i \<Rightarrow> block < i \<and> i < length b \<and> b ! i \<noteq> 0 \<and> (\<forall>j. block < j \<and> j < i \<longrightarrow> b ! j = 0)"
proof (induction b block rule: seg_next_block.induct)
  case (1 b block)
  show ?case
  proof (cases "block + 1 < length b \<and> b ! (block + 1) = 0")
    case True
    then have e: "seg_next_block b block = seg_next_block b (block + 1)" by (simp add: seg_next_block.simps [of b block])
    have z: "b ! j = 0" if "block < j" "\<not> block + 1 < j" for j
    proof -
      have "j = block + 1" using that by simp
      with True show ?thesis by simp
    qed
    show ?thesis using 1 True z unfolding e by (force split: option.splits)
  next
    case False
    then show ?thesis by (auto simp: seg_next_block.simps [of b block])
  qed
qed

section \<open>Both searches agree\<close>

definition scan_inv :: "nat \<Rightarrow> nat \<Rightarrow> u32 \<Rightarrow> u32 \<Rightarrow> u32 list \<Rightarrow> bool" where
  "scan_inv idx block mp bt b \<longleftrightarrow> block < length b \<and> mp = b ! block \<and>
     (bt = 2 ^ (idx mod 32) \<and> idx div 32 = block \<or> bt = 0 \<and> idx = 32 * (block + 1))"

lemma seg_start_spec:
  assumes "scan_inv idx block mp bt b"
  shows "case seg_start b idx block mp bt of
      None \<Rightarrow> \<forall>i. idx \<le> i \<and> i < 32 * length b \<longrightarrow> \<not> bit (b ! (i div 32)) (i mod 32)
    | Some (idx', block', mp', bt') \<Rightarrow> idx \<le> idx' \<and> block' < length b \<and> mp' = b ! block' \<and> idx' div 32 = block' \<and>
        bt' = 2 ^ (idx' mod 32) \<and> bt' \<le> mp' \<and> (\<forall>i. idx \<le> i \<and> i < idx' \<longrightarrow> \<not> bit (b ! (i div 32)) (i mod 32))"
proof (cases "bt > mp \<or> bt = 0")
  case False
  then show ?thesis using assms by (auto simp: seg_start_def scan_inv_def)
next
  case True
  have here: "\<not> bit (b ! (i div 32)) (i mod 32)" if "idx \<le> i" "i div 32 = block" for i
  proof -
    have "bt \<noteq> 0" using assms that by (auto simp: scan_inv_def)
    then have "mp < 2 ^ (idx mod 32)" "idx div 32 = block" "mp = b ! block" using assms True by (auto simp: scan_inv_def)
    moreover have "idx mod 32 \<le> i mod 32" using that \<open>idx div 32 = block\<close> by (metis div_mult_mod_eq nat_add_left_cancel_le)
    ultimately show ?thesis using above_bits [of mp "idx mod 32"] that(2) by simp
  qed
  have blk: "block \<le> i div 32" if "idx \<le> i" for i
    using assms div_le_mono [OF that, of 32] by (auto simp: scan_inv_def)
  show ?thesis
  proof (cases "seg_next_block b block")
    case None
    then have z: "b ! j = 0" if "block < j" "j < length b" for j using seg_next_block_spec [where b = b and block = block] that by simp
    have "\<not> bit (b ! (i div 32)) (i mod 32)" if "idx \<le> i" "i < 32 * length b" for i
      using here [OF that(1)] blk [OF that(1)] z [of "i div 32"] that(2) by (cases "i div 32 = block") (auto simp: less_mult_imp_div_less mult.commute)
    with True None show ?thesis by (simp add: seg_start_def)
  next
    case (Some i')
    then have z: "block < i'" "i' < length b" "b ! i' \<noteq> 0" "\<And>j. block < j \<Longrightarrow> j < i' \<Longrightarrow> b ! j = 0"
      using seg_next_block_spec [where b = b and block = block] by simp_all
    have "\<not> bit (b ! (i div 32)) (i mod 32)" if "idx \<le> i" "i < i' * 32" for i
      using here [OF that(1)] blk [OF that(1)] z(4) [of "i div 32"] that(2) by (cases "i div 32 = block") (auto simp: less_mult_imp_div_less)
    moreover have "idx \<le> i' * 32" 
    proof -
      have "idx \<le> 32 * (block + 1)" using assms by (auto simp: scan_inv_def)
      also have "\<dots> \<le> i' * 32" using z(1) by simp
      finally show ?thesis .
    qed
    moreover have "1 \<le> b ! i'" using z(3) by (simp add: word_le_nat_alt Suc_le_eq unat_gt_0)
    ultimately show ?thesis using True Some z by (simp add: seg_start_def)
  qed
qed

text \<open>One step of the loop after the start of an iteration.\<close>

lemma unmark_eq:
  assumes "idx div 32 = block" and "bt = 2 ^ (idx mod 32)"
  shows "g\<lparr>sg_binmap := (sg_binmap g)[block := sg_binmap g ! block AND NOT bt]\<rparr> = seg_unmark_bin idx g"
  using assms by (simp add: seg_unmark_bin_def seg_idx2bit_def push_bit_eq_mult)

lemma step_in_block:
  fixes a d :: nat
  assumes "a mod 32 + d < 32"
  shows "(a + d) div 32 = a div 32" and "(a + d) mod 32 = a mod 32 + d"
proof -
  have "a + d = 32 * (a div 32) + (a mod 32 + d)" by simp
  then have e: "a + d = (a mod 32 + d) + 32 * (a div 32)" by linarith
  show "(a + d) div 32 = a div 32" unfolding e div_mult_self2 [OF zero_neq_numeral [symmetric]] using assms by simp
  show "(a + d) mod 32 = a mod 32 + d" unfolding e mod_mult_self2 using assms by simp
qed

lemma scan_inv_next:
  assumes "block < length b" and "mp = b ! block" and "idx div 32 = block" and "bt = 2 ^ (idx mod 32)"
  shows "scan_inv (idx + 1) block mp (push_bit 1 bt) b"
proof (cases "idx mod 32 = 31")
  case True
  then have "idx = 32 * block + 31" using assms(3) by presburger
  moreover have "push_bit 1 bt = 0" using assms(4) True by (simp add: push_bit_eq_mult)
  ultimately show ?thesis using assms by (simp add: scan_inv_def)
next
  case False
  then have "idx mod 32 + 1 < 32" using mod_less_divisor [of 32 idx] by linarith
  from step_in_block [OF this] have "(idx + 1) div 32 = block" "(idx + 1) mod 32 = idx mod 32 + 1"
    using assms(3) by blast+
  moreover have "push_bit 1 bt = 2 ^ (idx mod 32 + 1)" using assms(4) by (simp add: push_bit_eq_mult mult.commute)
  ultimately show ?thesis using assms by (simp add: scan_inv_def)
qed

lemma seg_scan_ref:
  "scan_inv idx block mp bt (sg_binmap g) \<Longrightarrow> 32 * length (sg_binmap g) - idx < n \<Longrightarrow>
   seg_scan get sz n idx block mp bt (g, m) = Some (seg_ref get sz [idx ..< 32 * length (sg_binmap g)] (g, m))"
proof (induction n arbitrary: idx block mp bt g m)
  case (Suc n)
  let ?b = "sg_binmap g" and ?N = "32 * length (sg_binmap g)"
  note start = seg_start_spec [OF Suc.prems(1)]
  show ?case
  proof (cases "seg_start ?b idx block mp bt")
    case None
    then have "\<forall>i \<in> set [idx ..< ?N]. \<not> seg_marked (fst (g, m)) i" using start by (auto simp: seg_marked_def)
    from seg_ref_skip [OF this, of get sz "[]"] show ?thesis using None by simp
  next
    case (Some st)
    obtain idx1 block1 mp1 bt1 where st: "st = (idx1, block1, mp1, bt1)" by (metis surj_pair)
    from start have s: "idx \<le> idx1" "block1 < length ?b" "mp1 = ?b ! block1" "idx1 div 32 = block1" "bt1 = 2 ^ (idx1 mod 32)"
      "bt1 \<le> mp1" "\<forall>i. idx \<le> i \<and> i < idx1 \<longrightarrow> \<not> seg_marked g i"
      unfolding Some st by (auto simp: seg_marked_def)
    obtain d where d: "seg_skip_bits 33 idx1 bt1 mp1 = Some (idx1 + d, 2 ^ (idx1 mod 32 + d))" "bit mp1 (idx1 mod 32 + d)"
      "\<forall>j. idx1 mod 32 \<le> j \<and> j < idx1 mod 32 + d \<longrightarrow> \<not> bit mp1 j" "idx1 mod 32 + d < 32"
      using seg_skip_bits_spec [of "idx1 mod 32" mp1 idx1] s(5,6) by (metis mod_less_divisor zero_less_numeral)
    define i where "i = idx1 + d"
    have i: "i div 32 = block1" "i mod 32 = idx1 mod 32 + d"
      using step_in_block [OF d(4)] s(4) by (simp_all add: i_def)
    have skip: "\<not> seg_marked g j" if "idx \<le> j" "j < i" for j
    proof (cases "j < idx1")
      case True
      then show ?thesis using s(7) that by blast
    next
      case False
      define e where "e = j - idx1"
      then have "j = idx1 + e" "e < d" using False that by (simp_all add: i_def)
      moreover from this have "j div 32 = block1" "j mod 32 = idx1 mod 32 + e"
        using step_in_block [of idx1 e] d(4) s(4) by simp_all
      ultimately show ?thesis using d(3) s(3) by (simp add: seg_marked_def)
    qed
    have iN: "i < ?N" using s(2) i(1) by (metis div_less_iff_less_mult mult.commute zero_less_numeral)
    have le: "idx \<le> i" using s(1) by (simp add: i_def)
    have upt_append: "[a ..< c] = [a ..< b] @ [b ..< c]" if "a \<le> b" "b \<le> c" for a b c :: nat
      using upt_add_eq_append [of a b "c - b"] that by simp
    have split: "[idx ..< ?N] = [idx ..< i] @ i # [i + 1 ..< ?N]" using le iN by (metis Suc_eq_plus1 le_less upt_conv_Cons upt_append)
    have marked: "seg_marked g i" using d(2) s(3) i by (simp add: seg_marked_def)
    obtain p g1 m1 where t: "seg_take get sz i (g, m) = (p, g1, m1)" by (metis surj_pair)
    have b1: "sg_binmap g1 = ?b" by (rule seg_take_binmap [OF t])
    have ref: "seg_ref get sz [idx ..< ?N] (g, m) =
        (if p = 0 then seg_ref get sz [i + 1 ..< ?N] (seg_unmark_bin i g1, m1) else (p, g1, m1))"
      unfolding split using seg_ref_skip [of "[idx ..< i]" "(g, m)" get sz "i # [i + 1 ..< ?N]"] skip marked t by simp
    let ?bt = "2 ^ (idx1 mod 32 + d) :: u32"
    have um: "g1\<lparr>sg_binmap := (sg_binmap g1)[block1 := mp1 AND NOT ?bt]\<rparr> = seg_unmark_bin i g1"
      using unmark_eq [of i block1 ?bt g1] i b1 s(3) by simp
    have len: "length (sg_binmap (seg_unmark_bin i g1)) = length ?b" by (simp add: seg_unmark_bin_def b1)
    have "scan_inv (i + 1) block1 (mp1 AND NOT ?bt) (push_bit 1 ?bt) (sg_binmap (seg_unmark_bin i g1))"
      unfolding um [symmetric] using s(2) i by (intro scan_inv_next) (simp_all add: b1)
    from Suc.IH [OF this, of m1] have "seg_scan get sz n (i + 1) block1 (mp1 AND NOT ?bt) (push_bit 1 ?bt) (seg_unmark_bin i g1, m1)
        = Some (seg_ref get sz [i + 1 ..< ?N] (seg_unmark_bin i g1, m1))"
      using Suc.prems(2) le iN by (simp add: len)
    then show ?thesis unfolding ref using d(1) t um by (simp add: Some st i_def [symmetric] Let_def)
  qed
qed simp

section \<open>Property\<close>

text \<open>C24: an allocation that is not too big finds what a search bin by bin finds, from the class of the
  request on, among the bins that the map marks; a bin found empty loses its mark, and the big heap
  is asked when all were empty. In particular the search by words and bits ends.\<close>

theorem SegHeap_malloc_searches_bins:
  assumes "sz \<le> maxObjectSize NumBins getClassMaxSize" and "getSizeClass sz div 32 < length (sg_binmap g)"
  shows "SegHeap_malloc NumBins getSizeClass getClassMaxSize get bigmalloc sz ((g, h), m) =
    (let (ptr, g, m) = seg_ref get sz [getSizeClass sz ..< 32 * length (sg_binmap g)] (g, m)
     in if ptr = 0 then map_option (big_result g) (bigmalloc sz (h, m)) else Some (ptr, ((g, h), m)))"
proof -
  have "scan_inv (getSizeClass sz) (seg_idx2block (getSizeClass sz)) (sg_binmap g ! seg_idx2block (getSizeClass sz))
      (seg_idx2bit (getSizeClass sz)) (sg_binmap g)"
    using assms(2) by (simp add: scan_inv_def seg_idx2block_def seg_idx2bit_def push_bit_eq_mult)
  from seg_scan_ref [OF this, of "32 * length (sg_binmap g) + 1" get sz m] show ?thesis
    using assms(1) by (simp add: SegHeap_malloc_def Let_def not_less case_prod_unfold)
qed

theorem SegHeap_malloc_searches_bins_witness:
  "SegHeap_malloc 29 size2Class class2Size dll_get (\<lambda>sz st. Some (0, st)) 16 ((SegHeap_new 29, ()), \<lambda>_. 0) =
    (let (ptr, g, m) = seg_ref dll_get 16 [size2Class 16 ..< 32 * length (sg_binmap (SegHeap_new 29))] (SegHeap_new 29, \<lambda>_. 0)
     in if ptr = 0 then map_option (big_result g) (Some (0, ((), m))) else Some (ptr, ((g, ()), m)))"
  by (rule SegHeap_malloc_searches_bins)
    (simp_all add: maxObjectSize_def class2Size_def size2Class_def cl_def sizeof_double_def SegHeap_new_def NUM_ULONGS_def)

end
