(* ===== verification/Hl_Treap.thy ===== *)
theory Hl_Treap
  imports Grace_Prelude "HOL-Library.Tree"
begin

text \<open>
  \<open>heaplayers/experimental/treap.h\<close>, a binary search tree of nodes with parent pointers that is a heap
  in the priorities of the nodes, and \<open>heaplayers/experimental/cartesianheap.h\<close>, which keeps its free
  objects in one. Nodes live in a store; the pointer 0 is null. Loops that follow pointers are
  partial functions, whose result \<open>None\<close> is a loop that does not end or a null pointer that is followed.

  A state represents a tree of addresses (\<open>trepr\<close>); a position in it is a subtree and its context.
\<close>

section \<open>Nodes\<close>

record ('k, 'v) tnode =
  tn_priority :: u32
  tn_key :: 'k
  tn_value :: 'v
  tn_parent :: nat
  tn_left :: nat
  tn_right :: nat

record ('k, 'v) treap =
  tr_root :: nat
  tr_node :: "nat \<Rightarrow> ('k, 'v) tnode"

definition Node_new :: "u32 \<Rightarrow> 'k \<Rightarrow> 'v \<Rightarrow> nat \<Rightarrow> ('k, 'v) tnode" where
  "Node_new pr k v par = \<lparr>tn_priority = pr, tn_key = k, tn_value = v, tn_parent = par, tn_left = 0, tn_right = 0\<rparr>"

definition set_tnode :: "nat \<Rightarrow> ('k, 'v) tnode \<Rightarrow> ('k, 'v) treap \<Rightarrow> ('k, 'v) treap" where
  "set_tnode p nd t = t\<lparr>tr_node := (tr_node t)(p := nd)\<rparr>"

definition set_left :: "nat \<Rightarrow> nat \<Rightarrow> ('k, 'v) treap \<Rightarrow> ('k, 'v) treap" where
  "set_left p q t = set_tnode p ((tr_node t p)\<lparr>tn_left := q\<rparr>) t"

definition set_right :: "nat \<Rightarrow> nat \<Rightarrow> ('k, 'v) treap \<Rightarrow> ('k, 'v) treap" where
  "set_right p q t = set_tnode p ((tr_node t p)\<lparr>tn_right := q\<rparr>) t"

definition set_parent :: "nat \<Rightarrow> nat \<Rightarrow> ('k, 'v) treap \<Rightarrow> ('k, 'v) treap" where
  "set_parent p q t = set_tnode p ((tr_node t p)\<lparr>tn_parent := q\<rparr>) t"

abbreviation lt :: "('k, 'v) treap \<Rightarrow> nat \<Rightarrow> nat" where "lt t p \<equiv> tn_left (tr_node t p)"
abbreviation rt :: "('k, 'v) treap \<Rightarrow> nat \<Rightarrow> nat" where "rt t p \<equiv> tn_right (tr_node t p)"
abbreviation par :: "('k, 'v) treap \<Rightarrow> nat \<Rightarrow> nat" where "par t p \<equiv> tn_parent (tr_node t p)"
abbreviation prio :: "('k, 'v) treap \<Rightarrow> nat \<Rightarrow> u32" where "prio t p \<equiv> tn_priority (tr_node t p)"
abbreviation tkey :: "('k, 'v) treap \<Rightarrow> nat \<Rightarrow> 'k" where "tkey t p \<equiv> tn_key (tr_node t p)"

section \<open>Rotations\<close>

text \<open>Putting \<open>c\<close> in the place of the child \<open>n\<close> of the parent of \<open>n\<close>, or of the root.\<close>

definition relink :: "nat \<Rightarrow> nat \<Rightarrow> ('k, 'v) treap \<Rightarrow> ('k, 'v) treap" where
  "relink n c t =
     (if par t n = 0 then t\<lparr>tr_root := c\<rparr>
      else if lt t (par t n) = n then set_left (par t n) c t
      else set_right (par t n) c t)"

definition rotateLeft :: "nat \<Rightarrow> ('k, 'v) treap \<Rightarrow> ('k, 'v) treap option" where
  "rotateLeft n t =
     (let r = rt t n
      in if r = 0 then None
         else let t = set_right n (lt t r) t;
                  t = (if lt t r \<noteq> 0 then set_parent (lt t r) n t else t);
                  t = set_parent r (par t n) t;
                  t = relink n r t;
                  t = set_left r n t
              in Some (set_parent n r t))"

definition rotateRight :: "nat \<Rightarrow> ('k, 'v) treap \<Rightarrow> ('k, 'v) treap option" where
  "rotateRight n t =
     (let l = lt t n
      in if l = 0 then None
         else let t = set_left n (rt t l) t;
                  t = (if rt t l \<noteq> 0 then set_parent (rt t l) n t else t);
                  t = set_parent l (par t n) t;
                  t = relink n l t;
                  t = set_right l n t
              in Some (set_parent n l t))"

section \<open>Search\<close>

definition treap_new :: "(nat \<Rightarrow> ('k, 'v) tnode) \<Rightarrow> ('k, 'v) treap" where
  "treap_new m = \<lparr>tr_root = 0, tr_node = m\<rparr>"

partial_function (option) lookup_loop :: "('k :: linorder, 'v) treap \<Rightarrow> 'k \<Rightarrow> nat \<Rightarrow> nat option" where
  "lookup_loop t k n =
     (if n = 0 then Some n
      else if k = tkey t n then Some n
      else if k < tkey t n then lookup_loop t k (lt t n)
      else lookup_loop t k (rt t n))"

definition lookup :: "('k :: linorder) \<Rightarrow> ('k, 'v) treap \<Rightarrow> nat option" where
  "lookup k t = lookup_loop t k (tr_root t)"

partial_function (option) lookupGeq_loop :: "('k :: linorder, 'v) treap \<Rightarrow> 'k \<Rightarrow> nat \<Rightarrow> nat \<Rightarrow> nat option" where
  "lookupGeq_loop t k bestSoFar n =
     (if n = 0 then Some bestSoFar
      else if k = tkey t n then Some n
      else if tkey t n < k then lookupGeq_loop t k bestSoFar (rt t n)
      else lookupGeq_loop t k (if bestSoFar = 0 \<or> tkey t bestSoFar > tkey t n then n else bestSoFar) (lt t n))"

definition lookupGreater :: "('k :: linorder) \<Rightarrow> ('k, 'v) treap \<Rightarrow> nat option" where
  "lookupGreater k t = lookupGeq_loop t k 0 (tr_root t)"

section \<open>Insertion and removal\<close>

text \<open>The parent below which a key goes.\<close>

partial_function (option) descend :: "('k :: linorder, 'v) treap \<Rightarrow> 'k \<Rightarrow> nat \<Rightarrow> nat \<Rightarrow> nat option" where
  "descend t k parent n =
     (if n = 0 then Some parent
      else if k < tkey t n then descend t k n (lt t n)
      else descend t k n (rt t n))"

partial_function (option) rotate_up :: "nat \<Rightarrow> nat \<Rightarrow> ('k, 'v) treap \<Rightarrow> ('k, 'v) treap option" where
  "rotate_up n parent t =
     (if parent \<noteq> 0 \<and> prio t parent > prio t n
      then Option.bind (if lt t parent = n then rotateRight parent t else rotateLeft parent t)
             (\<lambda>t. rotate_up n (par t n) t)
      else Some t)"

definition treap_insert :: "nat \<Rightarrow> ('k :: linorder) \<Rightarrow> 'v \<Rightarrow> u32 \<Rightarrow> ('k, 'v) treap \<Rightarrow> ('k, 'v) treap option" where
  "treap_insert n k v priority t =
     Option.bind (descend t k 0 (tr_root t)) (\<lambda>parent.
       let t = set_tnode n (Node_new priority k v parent) t;
           t = (if parent = 0 then t\<lparr>tr_root := n\<rparr>
                else if k < tkey t parent then set_left parent n t
                else set_right parent n t)
       in rotate_up n parent t)"

partial_function (option) rotate_down :: "nat \<Rightarrow> ('k, 'v) treap \<Rightarrow> ('k, 'v) treap option" where
  "rotate_down n t =
     (if lt t n \<noteq> 0 \<or> rt t n \<noteq> 0
      then Option.bind (if rt t n = 0 then rotateRight n t
                        else if lt t n = 0 then rotateLeft n t
                        else if prio t (lt t n) < prio t (rt t n) then rotateRight n t
                        else rotateLeft n t) (rotate_down n)
      else Some t)"

definition clip :: "nat \<Rightarrow> ('k, 'v) treap \<Rightarrow> ('k, 'v) treap" where
  "clip n t =
     (let parent = par t n
      in if parent = 0 then t\<lparr>tr_root := 0\<rparr>
         else if lt t parent = n then set_left parent 0 t
         else set_right parent 0 t)"

text \<open>\<open>remove\<close> returns the node.\<close>

definition treap_remove :: "nat \<Rightarrow> ('k, 'v) treap \<Rightarrow> (nat \<times> ('k, 'v) treap) option" where
  "treap_remove n t =
     (if n = 0 then Some (0, t)
      else map_option (\<lambda>t. (n, clip n t)) (rotate_down n t))"

section \<open>The tree that a state represents\<close>

fun trepr :: "('k, 'v) treap \<Rightarrow> nat \<Rightarrow> nat \<Rightarrow> nat tree \<Rightarrow> bool" where
  "trepr t q p Leaf \<longleftrightarrow> p = 0"
| "trepr t q p (Node l a r) \<longleftrightarrow> p = a \<and> a \<noteq> 0 \<and> par t a = q \<and> trepr t a (lt t a) l \<and> trepr t a (rt t a) r"

text \<open>A context lists, from the hole to the root, on which side of which node the hole is and the
  sibling there.\<close>

type_synonym tctx = "(bool \<times> nat \<times> nat tree) list"

fun fill :: "tctx \<Rightarrow> nat tree \<Rightarrow> nat tree" where
  "fill [] T = T"
| "fill ((True, a, s) # c) T = fill c (Node T a s)"
| "fill ((False, a, s) # c) T = fill c (Node s a T)"

text \<open>\<open>p\<close> is the pointer in the hole, \<open>q\<close> the node above it.\<close>

fun crepr :: "('k, 'v) treap \<Rightarrow> nat \<Rightarrow> nat \<Rightarrow> tctx \<Rightarrow> bool" where
  "crepr t q p [] \<longleftrightarrow> q = 0 \<and> tr_root t = p"
| "crepr t q p ((d, a, s) # c) \<longleftrightarrow> q = a \<and> a \<noteq> 0 \<and>
     (if d then lt t a = p \<and> trepr t a (rt t a) s else rt t a = p \<and> trepr t a (lt t a) s) \<and> crepr t (par t a) a c"

fun cnodes :: "tctx \<Rightarrow> nat list" where
  "cnodes [] = []"
| "cnodes ((d, a, s) # c) = a # inorder s @ cnodes c"

fun before :: "tctx \<Rightarrow> nat list" where
  "before [] = []"
| "before ((True, a, s) # c) = before c"
| "before ((False, a, s) # c) = before c @ inorder s @ [a]"

fun after :: "tctx \<Rightarrow> nat list" where
  "after [] = []"
| "after ((True, a, s) # c) = a # inorder s @ after c"
| "after ((False, a, s) # c) = after c"

definition ctop :: "tctx \<Rightarrow> nat" where
  "ctop c = (case c of [] \<Rightarrow> 0 | (d, a, s) # _ \<Rightarrow> a)"

lemma ctop_simps [simp]: "ctop [] = 0" "ctop ((d, a, s) # c) = a"
  by (simp_all add: ctop_def)

lemma inorder_fill: "inorder (fill c T) = before c @ inorder T @ after c"
  by (induction c T rule: fill.induct) auto

lemma set_cnodes: "set (cnodes c) = set (before c) \<union> set (after c)"
  by (induction c rule: before.induct) auto

lemma distinct_fill: "distinct (inorder (fill c T)) \<longleftrightarrow> distinct (cnodes c) \<and> distinct (inorder T) \<and> set (cnodes c) \<inter> set_tree T = {}"
  by (induction c T rule: fill.induct) (auto simp: disjoint_iff)

lemma trepr_root: "trepr t q p T \<Longrightarrow> p = (case T of Leaf \<Rightarrow> 0 | Node l a r \<Rightarrow> a)"
  by (cases T) auto

lemma trepr_nonnull: "trepr t q p T \<Longrightarrow> 0 \<notin> set_tree T"
  by (induction T arbitrary: q p) auto

lemma crepr_top: "crepr t q p c \<Longrightarrow> q = ctop c"
  by (cases c) auto

lemma crepr_ctop: "crepr t q p c \<longleftrightarrow> q = ctop c \<and> crepr t (ctop c) p c"
  by (cases c) auto

lemma repr_fill: "trepr t 0 (tr_root t) (fill c T) \<longleftrightarrow> (\<exists>p. crepr t (ctop c) p c \<and> trepr t (ctop c) p T)"
proof (induction c T rule: fill.induct)
  case (2 a s c T)
  show ?case unfolding fill.simps 2 by (auto simp: crepr_ctop [of t "par t a" a c])
next
  case (3 a s c T)
  show ?case unfolding fill.simps 3 by (auto simp: crepr_ctop [of t "par t a" a c])
qed simp

text \<open>The links of a tree and of a context depend on their nodes only.\<close>

lemma trepr_frame: "(\<And>a. a \<in> set_tree T \<Longrightarrow> tr_node t' a = tr_node t a) \<Longrightarrow> trepr t' q p T = trepr t q p T"
  by (induction T arbitrary: q p) auto

lemma crepr_frame:
  "(\<And>a. a \<in> set (cnodes c) \<Longrightarrow> tr_node t' a = tr_node t a) \<Longrightarrow> tr_root t' = tr_root t \<Longrightarrow> crepr t' q p c = crepr t q p c"
proof (induction c arbitrary: q p)
  case (Cons x c)
  obtain d a s where x: "x = (d, a, s)" by (cases x)
  have "tr_node t' a = tr_node t a" using Cons.prems(1) by (simp add: x)
  moreover have "trepr t' a p' s = trepr t a p' s" for p' using Cons.prems(1) by (intro trepr_frame) (auto simp: x)
  moreover have "crepr t' q' p' c = crepr t q' p' c" for q' p' using Cons.prems by (intro Cons.IH) (auto simp: x)
  ultimately show ?case by (simp add: x)
qed simp

text \<open>A tree whose root gets a new parent.\<close>

lemma trepr_reparent:
  assumes "trepr t q p T" and "distinct (inorder T)"
    and "\<And>x. x \<in> set_tree T \<Longrightarrow> x \<noteq> p \<Longrightarrow> tr_node t' x = tr_node t x"
    and "p \<noteq> 0 \<Longrightarrow> tr_node t' p = (tr_node t p)\<lparr>tn_parent := q'\<rparr>"
  shows "trepr t' q' p T"
proof (cases T)
  case (Node l a r)
  then have n: "p = a" "a \<noteq> 0" "trepr t a (lt t a) l" "trepr t a (rt t a) r" using assms(1) by auto
  have "a \<notin> set_tree l" "a \<notin> set_tree r" using assms(2) Node by auto
  then have "trepr t' a (lt t a) l" "trepr t' a (rt t a) r"
    using assms(3) n(1,3,4) Node trepr_frame [of l t' t a "lt t a"] trepr_frame [of r t' t a "rt t a"] by auto
  then show ?thesis using n assms(4) Node by simp
qed (use assms(1) in simp)

text \<open>The keys, values and priorities, which no rotation changes.\<close>

definition same_data :: "('k, 'v) treap \<Rightarrow> ('k, 'v) treap \<Rightarrow> bool" where
  "same_data t' t \<longleftrightarrow> (\<forall>x. tkey t' x = tkey t x \<and> prio t' x = prio t x \<and> tn_value (tr_node t' x) = tn_value (tr_node t x))"

lemma same_data_refl [simp]: "same_data t t"
  by (simp add: same_data_def)

lemma same_data_trans: "same_data t'' t' \<Longrightarrow> same_data t' t \<Longrightarrow> same_data t'' t"
  by (simp add: same_data_def)

lemma same_data_set [simp]:
  "same_data (set_left p q t) t' = same_data t t'" "same_data (set_right p q t) t' = same_data t t'"
  "same_data (set_parent p q t) t' = same_data t t'" "same_data (t\<lparr>tr_root := p\<rparr>) t' = same_data t t'"
  by (auto simp: same_data_def set_left_def set_right_def set_parent_def set_tnode_def)

lemma same_data_relink [simp]: "same_data (relink n p t) t' = same_data t t'"
  by (simp add: relink_def)

lemma relink_ctx:
  assumes c: "crepr t (ctop c) n c" and p: "par t n = ctop c" and d: "distinct (cnodes c)" "n \<notin> set (cnodes c)" "n \<noteq> 0"
  shows "crepr (relink n q t) (ctop c) q c" and "x \<notin> set (cnodes c) \<Longrightarrow> tr_node (relink n q t) x = tr_node t x"
proof -
  have "crepr (relink n q t) (ctop c) q c \<and> (x \<notin> set (cnodes c) \<longrightarrow> tr_node (relink n q t) x = tr_node t x)"
  proof (cases c)
    case Nil
    then show ?thesis using p by (simp add: relink_def)
  next
    case (Cons y c')
    obtain e a s where y: "y = (e, a, s)" by (cases y)
    have a: "a \<noteq> 0" "par t n = a" "a \<notin> set (cnodes c')" "a \<notin> set_tree s" using c p d by (auto simp: Cons y)
    have "lt t a = n \<longleftrightarrow> e"
    proof
      show "e" if "lt t a = n"
      proof (rule ccontr)
        assume "\<not> e"
        then have "trepr t a n s" using c that by (simp add: Cons y)
        from trepr_root [OF this] d(2,3) show False by (cases s) (auto simp: Cons y)
      qed
    qed (use c in \<open>simp add: Cons y\<close>)
    then have r: "relink n q t = (if e then set_left a q t else set_right a q t)" using a by (simp add: relink_def)
    have fr: "tr_node (relink n q t) x = tr_node t x" if "x \<noteq> a" for x
      using that by (simp add: r set_left_def set_right_def set_tnode_def)
    have "crepr (relink n q t) q' p' c' = crepr t q' p' c'" for q' p'
      using a(3) fr by (intro crepr_frame) (auto simp: r set_left_def set_right_def set_tnode_def)
    moreover have "trepr (relink n q t) a p' s = trepr t a p' s" for p' using a(4) by (intro trepr_frame fr) auto
    ultimately have "crepr (relink n q t) (ctop c) q c"
      using c by (auto simp: Cons y r set_left_def set_right_def set_tnode_def)
    then show ?thesis using fr by (auto simp: Cons y)
  qed
  then show "crepr (relink n q t) (ctop c) q c" "x \<notin> set (cnodes c) \<Longrightarrow> tr_node (relink n q t) x = tr_node t x" by blast+
qed

lemma set_nodes:
  "tr_node (set_left p q t) = (tr_node t)(p := (tr_node t p)\<lparr>tn_left := q\<rparr>)"
  "tr_node (set_right p q t) = (tr_node t)(p := (tr_node t p)\<lparr>tn_right := q\<rparr>)"
  "tr_node (set_parent p q t) = (tr_node t)(p := (tr_node t p)\<lparr>tn_parent := q\<rparr>)"
  "tr_root (set_left p q t) = tr_root t" "tr_root (set_right p q t) = tr_root t" "tr_root (set_parent p q t) = tr_root t"
  by (simp_all add: set_left_def set_right_def set_parent_def set_tnode_def)

lemma rotateLeft_repr:
  assumes c: "crepr t (ctop c) a c" and T: "trepr t (ctop c) a (Node l a (Node rl b rr))"
    and d: "distinct (inorder (fill c (Node l a (Node rl b rr))))"
  shows "\<exists>t'. rotateLeft a t = Some t' \<and> crepr t' (ctop c) b c \<and> trepr t' (ctop c) b (Node (Node l a rl) b rr) \<and> same_data t' t"
proof -
  have n: "rt t a = b" "a \<noteq> 0" "b \<noteq> 0" "par t a = ctop c" "par t b = a" "trepr t a (lt t a) l" "trepr t b (lt t b) rl"
    "trepr t b (rt t b) rr" using T by auto
  have dn: "a \<noteq> b" "a \<notin> set (cnodes c)" "b \<notin> set (cnodes c)" "distinct (cnodes c)" "distinct (inorder rl)"
    "a \<notin> set_tree l" "b \<notin> set_tree l" "a \<notin> set_tree rl" "b \<notin> set_tree rl" "a \<notin> set_tree rr" "b \<notin> set_tree rr"
    "set_tree l \<inter> set (cnodes c) = {}" "set_tree rl \<inter> set (cnodes c) = {}" "set_tree rr \<inter> set (cnodes c) = {}"
    "set_tree l \<inter> set_tree rl = {}" "set_tree rr \<inter> set_tree rl = {}"
    using d by (auto simp: distinct_fill)
  define x where "x = lt t b"
  have x: "x \<noteq> 0 \<Longrightarrow> x \<in> set_tree rl" using trepr_root [OF n(7)] by (cases rl) (auto simp: x_def)
  have xn: "x \<noteq> 0 \<Longrightarrow> x \<noteq> a" "x \<noteq> 0 \<Longrightarrow> x \<noteq> b" "a \<noteq> x" "x \<noteq> 0 \<Longrightarrow> x \<notin> set (cnodes c)"
    using x dn n(2) by auto
  define t3 where "t3 = set_parent b (ctop c) (if x \<noteq> 0 then set_parent x a (set_right a x t) else set_right a x t)"
  have t3: "tr_root t3 = tr_root t" "tr_node t3 b = (tr_node t b)\<lparr>tn_parent := ctop c\<rparr>"
      "tr_node t3 a = (tr_node t a)\<lparr>tn_right := x\<rparr>" "x \<noteq> 0 \<Longrightarrow> tr_node t3 x = (tr_node t x)\<lparr>tn_parent := a\<rparr>"
      "\<And>y. y \<noteq> a \<Longrightarrow> y \<noteq> b \<Longrightarrow> (x \<noteq> 0 \<longrightarrow> y \<noteq> x) \<Longrightarrow> tr_node t3 y = tr_node t y"
    using dn(1) xn by (auto simp: t3_def set_nodes)
  have c3: "crepr t3 (ctop c) a c"
    using c dn x by (subst crepr_frame [of c t3 t]) (auto simp: t3(1) intro!: t3(5))
  have p3: "par t3 a = ctop c" using n(4) by (simp add: t3(3))
  define t4 where "t4 = relink a b t3"
  note c4 = relink_ctx [OF c3 p3 dn(4,2) n(2), where q = b, folded t4_def]
  define t6 where "t6 = set_parent a b (set_left b a t4)"
  have r: "rotateLeft a t = Some t6"
    using n dn(1) xn by (simp add: rotateLeft_def Let_def t6_def t4_def t3_def x_def [symmetric] set_nodes)
  have t6: "tr_node t6 b = (tr_node t b)\<lparr>tn_parent := ctop c, tn_left := a\<rparr>"
      "tr_node t6 a = (tr_node t a)\<lparr>tn_right := x, tn_parent := b\<rparr>" "x \<noteq> 0 \<Longrightarrow> tr_node t6 x = (tr_node t x)\<lparr>tn_parent := a\<rparr>"
      "\<And>y. y \<notin> set (cnodes c) \<Longrightarrow> y \<noteq> a \<Longrightarrow> y \<noteq> b \<Longrightarrow> (x \<noteq> 0 \<longrightarrow> y \<noteq> x) \<Longrightarrow> tr_node t6 y = tr_node t y"
    using dn(1-3,13) x xn c4(2) t3 by (auto simp: t6_def set_nodes)
  have "crepr t6 (ctop c) b c"
    using c4(1) dn(2,3) by (subst crepr_frame [of c t6 t4]) (auto simp: t6_def set_nodes)
  moreover have "trepr t6 a (lt t a) l"
    using n(6) dn x by (subst trepr_frame [of l t6 t]) (auto intro!: t6(4))
  moreover have "trepr t6 b (rt t b) rr"
    using n(8) dn x by (subst trepr_frame [of rr t6 t]) (auto intro!: t6(4))
  moreover have "trepr t6 a x rl"
  proof (rule trepr_reparent)
    show "trepr t b x rl" using n(7) by (simp add: x_def)
    show "tr_node t6 y = tr_node t y" if "y \<in> set_tree rl" "y \<noteq> x" for y using that dn by (intro t6(4)) auto
  qed (use dn(5) t6(3) in simp_all)
  moreover have "same_data t6 t" by (simp add: t6_def t4_def t3_def)
  ultimately show ?thesis using r n(1-3) dn(1) t6(1,2) by (simp add: x_def)
qed

lemma rotateRight_repr:
  assumes c: "crepr t (ctop c) a c" and T: "trepr t (ctop c) a (Node (Node ll b lr) a r)"
    and d: "distinct (inorder (fill c (Node (Node ll b lr) a r)))"
  shows "\<exists>t'. rotateRight a t = Some t' \<and> crepr t' (ctop c) b c \<and> trepr t' (ctop c) b (Node ll b (Node lr a r)) \<and> same_data t' t"
proof -
  have n: "lt t a = b" "a \<noteq> 0" "b \<noteq> 0" "par t a = ctop c" "par t b = a" "trepr t a (rt t a) r" "trepr t b (rt t b) lr"
    "trepr t b (lt t b) ll" using T by auto
  have dn: "a \<noteq> b" "a \<notin> set (cnodes c)" "b \<notin> set (cnodes c)" "distinct (cnodes c)" "distinct (inorder lr)"
    "a \<notin> set_tree r" "b \<notin> set_tree r" "a \<notin> set_tree lr" "b \<notin> set_tree lr" "a \<notin> set_tree ll" "b \<notin> set_tree ll"
    "set_tree r \<inter> set (cnodes c) = {}" "set_tree lr \<inter> set (cnodes c) = {}" "set_tree ll \<inter> set (cnodes c) = {}"
    "set_tree r \<inter> set_tree lr = {}" "set_tree ll \<inter> set_tree lr = {}"
    using d by (auto simp: distinct_fill)
  define x where "x = rt t b"
  have x: "x \<noteq> 0 \<Longrightarrow> x \<in> set_tree lr" using trepr_root [OF n(7)] by (cases lr) (auto simp: x_def)
  have xn: "x \<noteq> 0 \<Longrightarrow> x \<noteq> a" "x \<noteq> 0 \<Longrightarrow> x \<noteq> b" "a \<noteq> x" "x \<noteq> 0 \<Longrightarrow> x \<notin> set (cnodes c)"
    using x dn n(2) by auto
  define t3 where "t3 = set_parent b (ctop c) (if x \<noteq> 0 then set_parent x a (set_left a x t) else set_left a x t)"
  have t3: "tr_root t3 = tr_root t" "tr_node t3 b = (tr_node t b)\<lparr>tn_parent := ctop c\<rparr>"
      "tr_node t3 a = (tr_node t a)\<lparr>tn_left := x\<rparr>" "x \<noteq> 0 \<Longrightarrow> tr_node t3 x = (tr_node t x)\<lparr>tn_parent := a\<rparr>"
      "\<And>y. y \<noteq> a \<Longrightarrow> y \<noteq> b \<Longrightarrow> (x \<noteq> 0 \<longrightarrow> y \<noteq> x) \<Longrightarrow> tr_node t3 y = tr_node t y"
    using dn(1) xn by (auto simp: t3_def set_nodes)
  have c3: "crepr t3 (ctop c) a c"
    using c dn x by (subst crepr_frame [of c t3 t]) (auto simp: t3(1) intro!: t3(5))
  have p3: "par t3 a = ctop c" using n(4) by (simp add: t3(3))
  define t4 where "t4 = relink a b t3"
  note c4 = relink_ctx [OF c3 p3 dn(4,2) n(2), where q = b, folded t4_def]
  define t6 where "t6 = set_parent a b (set_right b a t4)"
  have r: "rotateRight a t = Some t6"
    using n dn(1) xn by (simp add: rotateRight_def Let_def t6_def t4_def t3_def x_def [symmetric] set_nodes)
  have t6: "tr_node t6 b = (tr_node t b)\<lparr>tn_parent := ctop c, tn_right := a\<rparr>"
      "tr_node t6 a = (tr_node t a)\<lparr>tn_left := x, tn_parent := b\<rparr>" "x \<noteq> 0 \<Longrightarrow> tr_node t6 x = (tr_node t x)\<lparr>tn_parent := a\<rparr>"
      "\<And>y. y \<notin> set (cnodes c) \<Longrightarrow> y \<noteq> a \<Longrightarrow> y \<noteq> b \<Longrightarrow> (x \<noteq> 0 \<longrightarrow> y \<noteq> x) \<Longrightarrow> tr_node t6 y = tr_node t y"
    using dn(1-3,13) x xn c4(2) t3 by (auto simp: t6_def set_nodes)
  have "crepr t6 (ctop c) b c"
    using c4(1) dn(2,3) by (subst crepr_frame [of c t6 t4]) (auto simp: t6_def set_nodes)
  moreover have "trepr t6 a (rt t a) r"
    using n(6) dn x by (subst trepr_frame [of r t6 t]) (auto intro!: t6(4))
  moreover have "trepr t6 b (lt t b) ll"
    using n(8) dn x by (subst trepr_frame [of ll t6 t]) (auto intro!: t6(4))
  moreover have "trepr t6 a x lr"
  proof (rule trepr_reparent)
    show "trepr t b x lr" using n(7) by (simp add: x_def)
    show "tr_node t6 y = tr_node t y" if "y \<in> set_tree lr" "y \<noteq> x" for y using that dn by (intro t6(4)) auto
  qed (use dn(5) t6(3) in simp_all)
  moreover have "same_data t6 t" by (simp add: t6_def t4_def t3_def)
  ultimately show ?thesis using r n(1-3) dn(1) t6(1,2) by (simp add: x_def)
qed

section \<open>The heap order\<close>

fun heap_tree :: "(nat \<Rightarrow> u32) \<Rightarrow> nat tree \<Rightarrow> bool" where
  "heap_tree pr Leaf \<longleftrightarrow> True"
| "heap_tree pr (Node l a r) \<longleftrightarrow> (\<forall>b \<in> set_tree l \<union> set_tree r. pr a \<le> pr b) \<and> heap_tree pr l \<and> heap_tree pr r"

lemma heap_root_le: "heap_tree pr (Node l d r) \<Longrightarrow> q \<le> pr d \<Longrightarrow> x \<in> set_tree (Node l d r) \<Longrightarrow> q \<le> pr x"
  using order_trans [of q "pr d" "pr x"] by auto

text \<open>The order of a context around a hole that holds the nodes \<open>X\<close>.\<close>

fun heap_ctx :: "(nat \<Rightarrow> u32) \<Rightarrow> tctx \<Rightarrow> nat set \<Rightarrow> bool" where
  "heap_ctx pr [] X \<longleftrightarrow> True"
| "heap_ctx pr ((d, a, s) # c) X \<longleftrightarrow>
     (\<forall>b \<in> X \<union> set_tree s. pr a \<le> pr b) \<and> heap_tree pr s \<and> heap_ctx pr c (insert a (X \<union> set_tree s))"

lemma heap_fill: "heap_tree pr (fill c T) \<longleftrightarrow> heap_tree pr T \<and> heap_ctx pr c (set_tree T)"
  by (induction c T rule: fill.induct) (auto simp: insert_commute Un_commute Un_left_commute)

lemma heap_ctx_mono: "heap_ctx pr c X \<Longrightarrow> Y \<subseteq> X \<Longrightarrow> heap_ctx pr c Y"
proof (induction c arbitrary: X Y)
  case (Cons x c)
  obtain d a s where x: "x = (d, a, s)" by (cases x)
  show ?case using Cons.prems Cons.IH [of "insert a (X \<union> set_tree s)" "insert a (Y \<union> set_tree s)"] by (auto simp: x)
qed simp

lemma heap_ctx_add: "heap_ctx pr c X \<Longrightarrow> c = [] \<or> pr (ctop c) \<le> pr n \<Longrightarrow> heap_ctx pr c (insert n X)"
proof (induction c arbitrary: X)
  case (Cons x c)
  obtain d a s where x: "x = (d, a, s)" by (cases x)
  let ?X = "insert a (X \<union> set_tree s)"
  have h: "heap_ctx pr c ?X" and a: "pr a \<le> pr n" using Cons.prems by (simp_all add: x)
  have "c = [] \<or> pr (ctop c) \<le> pr n"
  proof (cases c)
    case (Cons y c')
    then have "pr (ctop c) \<le> pr a" using h by (cases y) auto
    from order_trans [OF this a] show ?thesis by (rule disjI2)
  qed simp
  from Cons.IH [OF h this] have "heap_ctx pr c (insert n ?X)" .
  then show ?case using Cons.prems by (simp add: x insert_commute)
qed simp

section \<open>Search\<close>

declare lookup_loop.simps [simp del] lookupGeq_loop.simps [simp del] descend.simps [simp del]
  rotate_up.simps [simp del] rotate_down.simps [simp del]

lemma sorted_node:
  "sorted (map f (inorder (Node l a r))) \<Longrightarrow> sorted (map f (inorder l)) \<and> sorted (map f (inorder r)) \<and>
   (\<forall>b \<in> set_tree l. f b \<le> f a) \<and> (\<forall>b \<in> set_tree r. f a \<le> f b)"
  by (auto simp: sorted_append)

lemma lookup_loop_spec:
  "trepr t q p T \<Longrightarrow> sorted (map (tkey t) (inorder T)) \<Longrightarrow>
   \<exists>n. lookup_loop t k p = Some n \<and> (if n = 0 then k \<notin> tkey t ` set_tree T else n \<in> set_tree T \<and> tkey t n = k)"
proof (induction T arbitrary: q p)
  case Leaf
  then show ?case by (simp add: lookup_loop.simps)
next
  case (Node l a r)
  have p: "p = a" "a \<noteq> 0" "trepr t a (lt t a) l" "trepr t a (rt t a) r" using Node.prems(1) by auto
  note s = sorted_node [OF Node.prems(2)]
  consider "k = tkey t a" | "k < tkey t a" | "tkey t a < k" by force
  then show ?case
  proof cases
    case 1
    then show ?thesis using p by (intro exI [of _ a]) (simp add: lookup_loop.simps [of t _ a])
  next
    case 2
    then show ?thesis using Node.IH(1) [OF p(3)] s p by (fastforce simp: lookup_loop.simps [of t _ a])
  next
    case 3
    then show ?thesis using Node.IH(2) [OF p(4)] s p by (fastforce simp: lookup_loop.simps [of t _ a])
  qed
qed

text \<open>What \<open>lookupGeq\<close> may return: a node with the least key among those that are not too small.\<close>

definition best_fit :: "(nat \<Rightarrow> 'k :: linorder) \<Rightarrow> nat set \<Rightarrow> 'k \<Rightarrow> nat \<Rightarrow> bool" where
  "best_fit f X k n \<longleftrightarrow>
     (if n = 0 then \<forall>b \<in> X. f b < k else n \<in> X \<and> k \<le> f n \<and> (\<forall>b \<in> X. k \<le> f b \<longrightarrow> f n \<le> f b))"

lemma lookupGeq_loop_spec:
  "trepr t q p T \<Longrightarrow> sorted (map (tkey t) (inorder T)) \<Longrightarrow> best_fit (tkey t) X k best \<Longrightarrow> 0 \<notin> X \<Longrightarrow>
   (best \<noteq> 0 \<longrightarrow> (\<forall>b \<in> set_tree T. tkey t b \<le> tkey t best)) \<Longrightarrow>
   \<exists>n. lookupGeq_loop t k best p = Some n \<and> best_fit (tkey t) (X \<union> set_tree T) k n"
proof (induction T arbitrary: q p best X)
  case Leaf
  then show ?case by (simp add: lookupGeq_loop.simps)
next
  case (Node l a r)
  have p: "p = a" "a \<noteq> 0" "trepr t a (lt t a) l" "trepr t a (rt t a) r" using Node.prems(1) by auto
  note s = sorted_node [OF Node.prems(2)]
  consider "k = tkey t a" | "k < tkey t a" | "tkey t a < k" by force
  then show ?case
  proof cases
    case 1
    then show ?thesis using p by (intro exI [of _ a]) (simp add: lookupGeq_loop.simps [of t _ best a] best_fit_def)
  next
    case 3
    have b: "best_fit (tkey t) (insert a (X \<union> set_tree l)) k best"
      using Node.prems(3) s 3 p(2) by (fastforce simp: best_fit_def)
    have "\<exists>n. lookupGeq_loop t k best (rt t a) = Some n \<and>
        best_fit (tkey t) (insert a (X \<union> set_tree l) \<union> set_tree r) k n"
      using Node.IH(2) [OF p(4) _ b] Node.prems(4,5) s p(2) trepr_nonnull [OF p(3)] by simp
    moreover have "k \<noteq> tkey t a" using 3 by simp
    ultimately show ?thesis using 3 p(1,2) by (simp add: lookupGeq_loop.simps [of t _ _ a] Un_ac)
  next
    case 2
    let ?best = "if best = 0 \<or> tkey t best > tkey t a then a else best"
    have hi: "best \<noteq> 0 \<Longrightarrow> tkey t a \<le> tkey t best" using Node.prems(5) by simp
    have b: "best_fit (tkey t) (insert a (X \<union> set_tree r)) k ?best"
    proof (cases "best = 0 \<or> tkey t best > tkey t a")
      case True
      have "tkey t a \<le> tkey t x" if x: "x \<in> X" "k \<le> tkey t x" for x
      proof (cases "best = 0")
        case True
        then show ?thesis using Node.prems(3) x by (auto simp: best_fit_def not_less [symmetric])
      next
        case False
        then have "tkey t best \<le> tkey t x" using Node.prems(3) x by (simp add: best_fit_def)
        with hi [OF False] show ?thesis by (rule order_trans)
      qed
      then show ?thesis using True s 2 p(2) by (auto simp: best_fit_def)
    next
      case False
      then have "tkey t best = tkey t a" using hi by force
      then show ?thesis using False s 2 Node.prems(3) by (auto simp: best_fit_def)
    qed
    have "\<exists>n. lookupGeq_loop t k ?best (lt t a) = Some n \<and>
        best_fit (tkey t) (insert a (X \<union> set_tree r) \<union> set_tree l) k n"
      using Node.IH(1) [OF p(3) _ b] Node.prems(4,5) s p(2) trepr_nonnull [OF p(4)] by auto
    moreover have "k \<noteq> tkey t a" "\<not> tkey t a < k" using 2 by auto
    ultimately show ?thesis using 2 p(1,2) by (simp add: lookupGeq_loop.simps [of t _ _ a] Un_ac)
  qed
qed

section \<open>Insertion\<close>

text \<open>The descent ends at a hole that has the smaller and equal keys before it and the larger ones after it.\<close>

lemma descend_spec:
  "crepr t (ctop c) p c \<Longrightarrow> trepr t (ctop c) p T \<Longrightarrow> sorted (map (tkey t) (inorder T)) \<Longrightarrow>
   \<forall>b \<in> set (before c). tkey t b \<le> k \<Longrightarrow> \<forall>b \<in> set (after c). k < tkey t b \<Longrightarrow>
   \<exists>c'. descend t k (ctop c) p = Some (ctop c') \<and> fill c' Leaf = fill c T \<and> crepr t (ctop c') 0 c' \<and>
     (\<forall>b \<in> set (before c'). tkey t b \<le> k) \<and> (\<forall>b \<in> set (after c'). k < tkey t b) \<and>
     (c' = [] \<or> fst (hd c') = (k < tkey t (ctop c')) \<or> c' = c)"
proof (induction T arbitrary: c p)
  case Leaf
  then show ?case by (intro exI [of _ c]) (simp add: descend.simps)
next
  case (Node l a r)
  have p: "p = a" "a \<noteq> 0" "par t a = ctop c" "trepr t a (lt t a) l" "trepr t a (rt t a) r" using Node.prems(2) by auto
  note s = sorted_node [OF Node.prems(3)]
  show ?case
  proof (cases "k < tkey t a")
    case True
    let ?c = "(True, a, r) # c"
    have "crepr t (ctop ?c) (lt t a) ?c" using p Node.prems(1) by simp
    moreover have "\<forall>b \<in> set (after ?c). k < tkey t b" using True s Node.prems(5) by fastforce
    ultimately obtain c' where c': "descend t k (ctop ?c) (lt t a) = Some (ctop c')" "fill c' Leaf = fill ?c l"
      "crepr t (ctop c') 0 c'" "\<forall>b \<in> set (before c'). tkey t b \<le> k" "\<forall>b \<in> set (after c'). k < tkey t b"
      "c' = [] \<or> fst (hd c') = (k < tkey t (ctop c')) \<or> c' = ?c"
      using Node.IH(1) [of ?c "lt t a"] p(4) s Node.prems(4) by auto
    have "c' = [] \<or> fst (hd c') = (k < tkey t (ctop c'))" using c'(6) True by auto
    then show ?thesis using c'(1-5) True p(1,2) by (intro exI [of _ c']) (auto simp: descend.simps [of t _ _ a])
  next
    case False
    let ?c = "(False, a, l) # c"
    have "crepr t (ctop ?c) (rt t a) ?c" using p Node.prems(1) by simp
    moreover have "\<forall>b \<in> set (before ?c). tkey t b \<le> k" using False s Node.prems(4) by fastforce
    ultimately obtain c' where c': "descend t k (ctop ?c) (rt t a) = Some (ctop c')" "fill c' Leaf = fill ?c r"
      "crepr t (ctop c') 0 c'" "\<forall>b \<in> set (before c'). tkey t b \<le> k" "\<forall>b \<in> set (after c'). k < tkey t b"
      "c' = [] \<or> fst (hd c') = (k < tkey t (ctop c')) \<or> c' = ?c"
      using Node.IH(2) [of ?c "rt t a"] p(5) s Node.prems(5) by auto
    have "c' = [] \<or> fst (hd c') = (k < tkey t (ctop c'))" using c'(6) False by auto
    then show ?thesis using c'(1-5) False p(1,2) by (intro exI [of _ c']) (auto simp: descend.simps [of t _ _ a])
  qed
qed

text \<open>Rotating a node up until its parent's priority is not larger than its own.\<close>

lemma rotate_up_spec:
  "crepr t (ctop c) n c \<Longrightarrow> trepr t (ctop c) n (Node l n r) \<Longrightarrow> distinct (inorder (fill c (Node l n r))) \<Longrightarrow>
   heap_tree (prio t) (Node l n r) \<Longrightarrow> heap_ctx (prio t) c (set_tree l \<union> set_tree r) \<Longrightarrow>
   \<exists>t' T'. rotate_up n (ctop c) t = Some t' \<and> trepr t' 0 (tr_root t') T' \<and>
     inorder T' = inorder (fill c (Node l n r)) \<and> heap_tree (prio t') T' \<and> same_data t' t"
proof (induction c arbitrary: t l r)
  case Nil
  have "trepr t 0 (tr_root t) (fill [] (Node l n r))" using Nil.prems(1,2) by simp
  then show ?case using Nil.prems(4) by (intro exI [of _ t] exI [of _ "Node l n r"]) (simp add: rotate_up.simps)
next
  case (Cons x c)
  obtain d a s where x: "x = (d, a, s)" by (cases x)
  have a: "a \<noteq> 0" "crepr t (ctop c) a c" "par t a = ctop c"
    using Cons.prems(1) by (auto simp: x crepr_ctop [of t "par t a" a c])
  have hc: "\<forall>b \<in> set_tree l \<union> set_tree r \<union> set_tree s. prio t a \<le> prio t b" "heap_tree (prio t) s"
    "heap_ctx (prio t) c (insert a (set_tree l \<union> set_tree r \<union> set_tree s))" using Cons.prems(5) by (simp_all add: x)
  show ?case
  proof (cases "prio t a > prio t n")
    case False
    have "heap_ctx (prio t) (x # c) (insert n (set_tree l \<union> set_tree r))"
      using False by (intro heap_ctx_add [OF Cons.prems(5)]) (simp add: x)
    then have "heap_tree (prio t) (fill (x # c) (Node l n r))"
      using Cons.prems(4) by (simp only: heap_fill) (simp add: insert_commute)
    moreover have "trepr t 0 (tr_root t) (fill (x # c) (Node l n r))" using Cons.prems(1,2) unfolding repr_fill by blast
    ultimately show ?thesis using False
      by (intro exI [of _ t] exI [of _ "fill (x # c) (Node l n r)"]) (simp add: rotate_up.simps x)
  next
    case True
    have low: "\<forall>b \<in> insert a (set_tree s). prio t n \<le> prio t b" using True hc(1) by (auto intro: order_trans less_imp_le)
    have n: "n \<noteq> 0" "trepr t a n (Node l n r)" using Cons.prems(2) by (auto simp: x)
    show ?thesis
    proof (cases d)
      case d: True
      have T: "trepr t (ctop c) a (Node (Node l n r) a s)" using Cons.prems(1) n a by (auto simp: x d)
      have D: "distinct (inorder (fill c (Node (Node l n r) a s)))" using Cons.prems(3) by (simp add: x d)
      obtain t1 where t1: "rotateRight a t = Some t1" "crepr t1 (ctop c) n c" "trepr t1 (ctop c) n (Node l n (Node r a s))" "same_data t1 t"
        using rotateRight_repr [OF a(2) T D] by blast
      have pr: "prio t1 = prio t" using t1(4) by (auto simp: same_data_def)
      have "\<exists>t' T'. rotate_up n (ctop c) t1 = Some t' \<and> trepr t' 0 (tr_root t') T' \<and>
          inorder T' = inorder (fill c (Node l n (Node r a s))) \<and> heap_tree (prio t') T' \<and> same_data t' t1"
      proof (rule Cons.IH [OF t1(2,3)])
        show "distinct (inorder (fill c (Node l n (Node r a s))))" using D by (simp add: inorder_fill)
        show "heap_tree (prio t1) (Node l n (Node r a s))" using Cons.prems(4) hc low by (auto simp: pr)
        show "heap_ctx (prio t1) c (set_tree l \<union> set_tree (Node r a s))" using hc(3) by (simp add: pr Un_ac insert_commute)
      qed
      moreover have "lt t a = n" using Cons.prems(1) by (simp add: x d)
      moreover have "par t1 n = ctop c" using t1(3) by simp
      ultimately obtain t' T' where "rotate_up n (ctop (x # c)) t = Some t'" "trepr t' 0 (tr_root t') T'"
        "inorder T' = inorder (fill c (Node l n (Node r a s)))" "heap_tree (prio t') T'" "same_data t' t1"
        using True a(1) t1(1) by (auto simp: rotate_up.simps [of n a t] x)
      then show ?thesis using same_data_trans [OF _ t1(4)]
        by (intro exI [of _ t'] exI [of _ T']) (simp add: x d inorder_fill)
    next
      case d: False
      have T: "trepr t (ctop c) a (Node s a (Node l n r))" using Cons.prems(1) n a by (auto simp: x d)
      have D: "distinct (inorder (fill c (Node s a (Node l n r))))" using Cons.prems(3) by (simp add: x d)
      obtain t1 where t1: "rotateLeft a t = Some t1" "crepr t1 (ctop c) n c" "trepr t1 (ctop c) n (Node (Node s a l) n r)" "same_data t1 t"
        using rotateLeft_repr [OF a(2) T D] by blast
      have pr: "prio t1 = prio t" using t1(4) by (auto simp: same_data_def)
      have "\<exists>t' T'. rotate_up n (ctop c) t1 = Some t' \<and> trepr t' 0 (tr_root t') T' \<and>
          inorder T' = inorder (fill c (Node (Node s a l) n r)) \<and> heap_tree (prio t') T' \<and> same_data t' t1"
      proof (rule Cons.IH [OF t1(2,3)])
        show "distinct (inorder (fill c (Node (Node s a l) n r)))" using D by (simp add: inorder_fill)
        show "heap_tree (prio t1) (Node (Node s a l) n r)" using Cons.prems(4) hc low by (auto simp: pr)
        show "heap_ctx (prio t1) c (set_tree (Node s a l) \<union> set_tree r)" using hc(3) by (simp add: pr Un_ac insert_commute)
      qed
      moreover have "lt t a \<noteq> n"
      proof
        assume "lt t a = n"
        then have "trepr t a n s" using Cons.prems(1) by (simp add: x d)
        from trepr_root [OF this] n(1) D show False by (cases s) (auto simp: distinct_fill)
      qed
      moreover have "par t1 n = ctop c" using t1(3) by simp
      ultimately obtain t' T' where "rotate_up n (ctop (x # c)) t = Some t'" "trepr t' 0 (tr_root t') T'"
        "inorder T' = inorder (fill c (Node (Node s a l) n r))" "heap_tree (prio t') T'" "same_data t' t1"
        using True a(1) t1(1) by (auto simp: rotate_up.simps [of n a t] x)
      then show ?thesis using same_data_trans [OF _ t1(4)]
        by (intro exI [of _ t'] exI [of _ T']) (simp add: x d inorder_fill)
    qed
  qed
qed

section \<open>Removal\<close>

text \<open>Rotating a node down until it has no children.\<close>

lemma rotate_down_spec:
  "crepr t (ctop c) n c \<Longrightarrow> trepr t (ctop c) n (Node l n r) \<Longrightarrow> distinct (inorder (fill c (Node l n r))) \<Longrightarrow>
   heap_tree (prio t) l \<Longrightarrow> heap_tree (prio t) r \<Longrightarrow> heap_ctx (prio t) c (set_tree l \<union> set_tree r) \<Longrightarrow>
   \<exists>t' c'. rotate_down n t = Some t' \<and> crepr t' (ctop c') n c' \<and> trepr t' (ctop c') n (Node Leaf n Leaf) \<and>
     inorder (fill c' (Node Leaf n Leaf)) = inorder (fill c (Node l n r)) \<and> heap_ctx (prio t') c' {} \<and> same_data t' t"
proof (induction "size l + size r" arbitrary: c t l r rule: less_induct)
  case less
  note pre = less.prems
  have n: "n \<noteq> 0" "trepr t n (lt t n) l" "trepr t n (rt t n) r" using pre(2) by auto
  have lr: "lt t n = (case l of Leaf \<Rightarrow> 0 | Node _ a _ \<Rightarrow> a)" "rt t n = (case r of Leaf \<Rightarrow> 0 | Node _ a _ \<Rightarrow> a)"
    by (rule trepr_root [OF n(2)], rule trepr_root [OF n(3)])
  have right: ?case if l: "l = Node ll b lr" and go: "r = Leaf \<or> (\<exists>rl d rr. r = Node rl d rr \<and> prio t b < prio t d)" for ll b lr
  proof -
    obtain t1 where t1: "rotateRight n t = Some t1" "crepr t1 (ctop c) b c" "trepr t1 (ctop c) b (Node ll b (Node lr n r))" "same_data t1 t"
      using rotateRight_repr [OF pre(1)] pre(2,3) unfolding l by blast
    have pr: "prio t1 = prio t" using t1(4) by (auto simp: same_data_def)
    let ?c = "(False, b, ll) # c"
    have "\<forall>x \<in> set_tree r. prio t b \<le> prio t x" using go pre(5) by (auto intro: heap_root_le less_imp_le)
    then have hc: "heap_ctx (prio t1) ?c (set_tree lr \<union> set_tree r)"
      using pre(4,6) by (auto simp: pr l Un_ac insert_commute)
    have cr: "crepr t1 (ctop ?c) n ?c" "trepr t1 (ctop ?c) n (Node lr n r)" using t1(2,3) by auto
    have ord: "inorder (fill ?c (Node lr n r)) = inorder (fill c (Node l n r))" by (simp add: l inorder_fill)
    have "\<exists>t' c'. rotate_down n t1 = Some t' \<and> crepr t' (ctop c') n c' \<and> trepr t' (ctop c') n (Node Leaf n Leaf) \<and>
        inorder (fill c' (Node Leaf n Leaf)) = inorder (fill ?c (Node lr n r)) \<and> heap_ctx (prio t') c' {} \<and> same_data t' t1"
      using pre(3-5) hc cr ord by (intro less.hyps) (simp_all add: l pr)
    moreover have "rotate_down n t = rotate_down n t1"
      using n(1) lr t1(1) l go pre(2) by (auto simp: rotate_down.simps [of n t])
    ultimately show ?case using same_data_trans [OF _ t1(4)] ord by auto
  qed
  have left: ?case if r: "r = Node rl b rr" and go: "l = Leaf \<or> (\<exists>ll d lr. l = Node ll d lr \<and> \<not> prio t d < prio t b)" for rl b rr
  proof -
    obtain t1 where t1: "rotateLeft n t = Some t1" "crepr t1 (ctop c) b c" "trepr t1 (ctop c) b (Node (Node l n rl) b rr)" "same_data t1 t"
      using rotateLeft_repr [OF pre(1)] pre(2,3) unfolding r by blast
    have pr: "prio t1 = prio t" using t1(4) by (auto simp: same_data_def)
    let ?c = "(True, b, rr) # c"
    have "\<forall>x \<in> set_tree l. prio t b \<le> prio t x" using go pre(4) by (auto intro: heap_root_le simp: not_less)
    then have hc: "heap_ctx (prio t1) ?c (set_tree l \<union> set_tree rl)"
      using pre(5,6) by (auto simp: pr r Un_ac insert_commute)
    have cr: "crepr t1 (ctop ?c) n ?c" "trepr t1 (ctop ?c) n (Node l n rl)" using t1(2,3) by auto
    have ord: "inorder (fill ?c (Node l n rl)) = inorder (fill c (Node l n r))" by (simp add: r inorder_fill)
    have "\<exists>t' c'. rotate_down n t1 = Some t' \<and> crepr t' (ctop c') n c' \<and> trepr t' (ctop c') n (Node Leaf n Leaf) \<and>
        inorder (fill c' (Node Leaf n Leaf)) = inorder (fill ?c (Node l n rl)) \<and> heap_ctx (prio t') c' {} \<and> same_data t' t1"
      using pre(3-5) hc cr ord by (intro less.hyps) (simp_all add: r pr)
    moreover have "rotate_down n t = rotate_down n t1"
      using n(1) lr t1(1) r go pre(2) by (auto simp: rotate_down.simps [of n t])
    ultimately show ?case using same_data_trans [OF _ t1(4)] ord by auto
  qed
  show ?case
  proof (cases l)
    case l: Leaf
    show ?thesis
    proof (cases r)
      case Leaf
      then have "rotate_down n t = Some t" using lr l by (simp add: rotate_down.simps)
      then show ?thesis using pre l Leaf by (intro exI [of _ t] exI [of _ c]) simp
    next
      case (Node rl b rr)
      then show ?thesis using left l by blast
    qed
  next
    case l: (Node ll b lr)
    show ?thesis
    proof (cases r)
      case Leaf
      then show ?thesis using right l by blast
    next
      case (Node rl d rr)
      then show ?thesis using left right l by (cases "prio t b < prio t d") blast+
    qed
  qed
qed

lemma clip_spec:
  assumes c: "crepr t (ctop c) n c" and T: "trepr t (ctop c) n (Node Leaf n Leaf)"
    and d: "distinct (inorder (fill c (Node Leaf n Leaf)))"
  shows "trepr (clip n t) 0 (tr_root (clip n t)) (fill c Leaf) \<and> same_data (clip n t) t"
proof -
  have "clip n t = relink n 0 t" by (simp add: clip_def relink_def Let_def)
  moreover have "crepr (relink n 0 t) (ctop c) 0 c"
    using relink_ctx(1) [OF c] T d by (simp add: distinct_fill)
  ultimately show ?thesis by (auto simp: repr_fill)
qed

text \<open>Every node of a tree has a context there.\<close>

lemma split_tree: "n \<in> set_tree T \<Longrightarrow> \<exists>c l r. T = fill c (Node l n r)"
proof (induction T)
  case (Node l a r)
  consider "n = a" | "n \<in> set_tree l" | "n \<in> set_tree r" using Node.prems by auto
  then show ?case
  proof cases
    case 1
    then show ?thesis by (intro exI [of _ "[]"]) auto
  next
    case 2
    then obtain c l1 r1 where c: "l = fill c (Node l1 n r1)" using Node.IH(1) by blast
    have "fill (c @ [(True, a, r)]) X = Node (fill c X) a r" for X
      by (induction c X rule: fill.induct) auto
    with c show ?thesis by metis
  next
    case 3
    then obtain c l1 r1 where c: "r = fill c (Node l1 n r1)" using Node.IH(2) by blast
    have "fill (c @ [(False, a, l)]) X = Node l a (fill c X)" for X
      by (induction c X rule: fill.induct) auto
    with c show ?thesis by metis
  qed
qed simp

section \<open>The treap\<close>

text \<open>A treap with the nodes \<open>ns\<close> in the order of their keys.\<close>

definition treap_ok :: "('k :: linorder, 'v) treap \<Rightarrow> nat list \<Rightarrow> bool" where
  "treap_ok t ns \<longleftrightarrow> distinct ns \<and> sorted (map (tkey t) ns) \<and>
     (\<exists>T. trepr t 0 (tr_root t) T \<and> inorder T = ns \<and> heap_tree (prio t) T)"

lemma treap_ok_new: "treap_ok (treap_new m) []"
  by (auto simp: treap_ok_def treap_new_def intro!: exI [of _ Leaf])

lemma same_data_keys: "same_data t' t \<Longrightarrow> tkey t' = tkey t" "same_data t' t \<Longrightarrow> prio t' = prio t"
  by (auto simp: same_data_def)

lemma treap_remove_spec:
  assumes "treap_ok t ns" and "n \<in> set ns"
  shows "\<exists>t'. treap_remove n t = Some (n, t') \<and> treap_ok t' (remove1 n ns) \<and> same_data t' t"
proof -
  obtain T where T: "trepr t 0 (tr_root t) T" "inorder T = ns" "heap_tree (prio t) T" and d: "distinct ns"
    and s: "sorted (map (tkey t) ns)" using assms(1) by (auto simp: treap_ok_def)
  have nT: "n \<in> set_tree T" using assms(2) T(2) by (metis set_inorder)
  obtain c l r where c: "T = fill c (Node l n r)" using split_tree [OF nT] by blast
  obtain p where p: "crepr t (ctop c) p c" "trepr t (ctop c) p (Node l n r)" using T(1) unfolding c repr_fill by blast
  have pn: "p = n" "n \<noteq> 0" using p(2) by auto
  have D: "distinct (inorder (fill c (Node l n r)))" using d T(2) c by simp
  have h: "heap_tree (prio t) l" "heap_tree (prio t) r" "heap_ctx (prio t) c (set_tree l \<union> set_tree r)"
    using T(3) unfolding c heap_fill by (auto elim: heap_ctx_mono)
  obtain t1 c1 where t1: "rotate_down n t = Some t1" "crepr t1 (ctop c1) n c1" "trepr t1 (ctop c1) n (Node Leaf n Leaf)"
    "inorder (fill c1 (Node Leaf n Leaf)) = inorder (fill c (Node l n r))" "heap_ctx (prio t1) c1 {}" "same_data t1 t"
    using rotate_down_spec [OF p [unfolded pn(1)] D h] by blast
  have D1: "distinct (inorder (fill c1 (Node Leaf n Leaf)))" using t1(4) D by simp
  note cl = clip_spec [OF t1(2,3) D1]
  have sd: "same_data (clip n t1) t" using cl t1(6) same_data_trans by blast
  have ns: "ns = before c1 @ n # after c1" using t1(4) c T(2) by (simp add: inorder_fill)
  have ord: "inorder (fill c1 Leaf) = remove1 n ns"
    using d by (simp add: ns inorder_fill remove1_append)
  have "heap_tree (prio (clip n t1)) (fill c1 Leaf)"
    using t1(5) same_data_keys(2) [OF sd] same_data_keys(2) [OF t1(6)] by (simp add: heap_fill)
  moreover have "sorted (map (tkey (clip n t1)) (remove1 n ns))"
    using s d unfolding same_data_keys(1) [OF sd] by (simp add: ns remove1_append sorted_append)
  ultimately have "treap_ok (clip n t1) (remove1 n ns)"
    using cl ord d by (auto simp: treap_ok_def distinct_remove1 intro!: exI [of _ "fill c1 Leaf"])
  then show ?thesis using t1(1) pn(2) sd by (simp add: treap_remove_def)
qed

lemma split_by_key:
  assumes "\<forall>b \<in> set xs. f b \<le> (k :: 'k :: linorder)" and "\<forall>b \<in> set ys. k < f b"
  shows "takeWhile (\<lambda>b. f b \<le> k) (xs @ ys) = xs" and "dropWhile (\<lambda>b. f b \<le> k) (xs @ ys) = ys"
  using assms by (induction xs) (cases ys, auto simp: not_le)+

lemma treap_insert_spec:
  assumes ok: "treap_ok t ns" and n: "n \<noteq> 0" "n \<notin> set ns"
  shows "\<exists>t'. treap_insert n k v pr t = Some t' \<and>
    treap_ok t' (takeWhile (\<lambda>b. tkey t b \<le> k) ns @ n # dropWhile (\<lambda>b. tkey t b \<le> k) ns) \<and>
    tkey t' = (tkey t)(n := k) \<and> prio t' = (prio t)(n := pr) \<and>
    (\<lambda>x. tn_value (tr_node t' x)) = (\<lambda>x. tn_value (tr_node t x))(n := v)"
proof -
  obtain T where T: "trepr t 0 (tr_root t) T" "inorder T = ns" "heap_tree (prio t) T" and d: "distinct ns"
    and s: "sorted (map (tkey t) ns)" using ok by (auto simp: treap_ok_def)
  have "crepr t (ctop []) (tr_root t) []" "trepr t (ctop []) (tr_root t) T" using T(1) by simp_all
  then obtain c where c: "descend t k (ctop []) (tr_root t) = Some (ctop c)" "fill c Leaf = fill [] T" "crepr t (ctop c) 0 c"
    "\<forall>b \<in> set (before c). tkey t b \<le> k" "\<forall>b \<in> set (after c). k < tkey t b"
    "c = [] \<or> fst (hd c) = (k < tkey t (ctop c))"
    using descend_spec [of t "[]" "tr_root t" T k] s T(2) by fastforce
  have ns: "ns = before c @ after c" using c(2) T(2) inorder_fill [of c Leaf] by simp
  have nc: "n \<notin> set (cnodes c)" using n(2) by (simp add: ns set_cnodes)
  define t1 where "t1 = set_tnode n (Node_new pr k v (ctop c)) t"
  have t1: "tr_root t1 = tr_root t" "tr_node t1 n = Node_new pr k v (ctop c)" "\<And>x. x \<noteq> n \<Longrightarrow> tr_node t1 x = tr_node t x"
    by (simp_all add: t1_def set_tnode_def)
  have c1: "crepr t1 (ctop c) 0 c" using c(3) nc by (subst crepr_frame [of c t1 t]) (auto intro!: t1)
  define t2 where "t2 = (if ctop c = 0 then t1\<lparr>tr_root := n\<rparr> else if k < tkey t1 (ctop c) then set_left (ctop c) n t1
      else set_right (ctop c) n t1)"
  have t2: "crepr t2 (ctop c) n c \<and> tr_node t2 n = Node_new pr k v (ctop c) \<and> same_data t2 t1"
  proof (cases c)
    case Nil
    then show ?thesis by (simp add: t2_def t1)
  next
    case (Cons x c')
    obtain e a sb where x: "x = (e, a, sb)" by (cases x)
    have a: "a \<noteq> 0" "a \<noteq> n" using c(3) nc by (auto simp: Cons x)
    have ek: "e = (k < tkey t1 a)" using c(6) a(2) by (simp add: Cons x t1)
    have da: "a \<notin> set_tree sb" "a \<notin> set (cnodes c')"
      using d distinct_fill [of c Leaf] c(2) T(2) by (auto simp: Cons x)
    have t2': "t2 = (if e then set_left a n t1 else set_right a n t1)" using a(1) by (simp add: t2_def Cons x ek)
    have fr: "tr_node t2 y = tr_node t1 y" if "y \<noteq> a" for y using that by (simp add: t2' set_nodes)
    have "crepr t2 q p c' = crepr t1 q p c'" for q p using da(2) by (intro crepr_frame fr) (auto simp: t2' set_nodes)
    moreover have "trepr t2 a p sb = trepr t1 a p sb" for p using da(1) by (intro trepr_frame fr) auto
    ultimately have "crepr t2 (ctop c) n c" using c1 by (auto simp: Cons x t2' set_nodes)
    moreover have "tr_node t2 n = tr_node t1 n" using a(2) by (intro fr) simp
    ultimately show ?thesis using t1(2) by (simp add: t2' )
  qed
  have T2: "trepr t2 (ctop c) n (Node Leaf n Leaf)" using t2 n(1) by (simp add: Node_new_def)
  have D2: "distinct (inorder (fill c (Node Leaf n Leaf)))" using d n(2) by (simp add: ns inorder_fill)
  have pr1: "prio t1 x = (if x = n then pr else prio t x)" "tkey t1 x = (if x = n then k else tkey t x)"
      "tn_value (tr_node t1 x) = (if x = n then v else tn_value (tr_node t x))" for x
    using t1(2,3) by (auto simp: Node_new_def)
  have hX: "heap_tree q S = heap_tree q' S" if "\<And>x. x \<in> set_tree S \<Longrightarrow> q x = q' x" for q q' :: "nat \<Rightarrow> u32" and S
    using that by (induction S) auto
  have ht: "heap_tree (prio t) (fill c Leaf)" using c(2) T(3) by simp
  have st: "set_tree (fill c Leaf) = set ns" using c(2) T(2) by (metis fill.simps(1) set_inorder)
  have p2: "prio t2 = prio t1" using t2 same_data_keys(2) by blast
  have eq: "prio t2 x = prio t x" if "x \<in> set_tree (fill c Leaf)" for x
  proof -
    have "x \<noteq> n" using that n(2) st by auto
    have "prio t2 x = prio t1 x" using p2 by (rule fun_cong)
    also have "\<dots> = prio t x" using pr1(1) [of x] \<open>x \<noteq> n\<close> by (simp only: if_False)
    finally show ?thesis .
  qed
  have "heap_tree (prio t2) (fill c Leaf) = heap_tree (prio t) (fill c Leaf)" by (rule hX) (rule eq)
  with ht have "heap_tree (prio t2) (fill c Leaf)" by (simp only:)
  then have H: "heap_ctx (prio t2) c (set_tree Leaf \<union> set_tree Leaf)" by (simp add: heap_fill)
  obtain t3 T3 where t3: "rotate_up n (ctop c) t2 = Some t3" "trepr t3 0 (tr_root t3) T3"
    "inorder T3 = inorder (fill c (Node Leaf n Leaf))" "heap_tree (prio t3) T3" "same_data t3 t2"
    using rotate_up_spec [OF _ T2 D2 _ H] t2 by auto
  have sd: "same_data t3 t1" using t3(5) t2 same_data_trans by blast
  have keys: "tkey t3 = (tkey t)(n := k)" "prio t3 = (prio t)(n := pr)"
      "(\<lambda>x. tn_value (tr_node t3 x)) = (\<lambda>x. tn_value (tr_node t x))(n := v)"
    using sd pr1 by (auto simp: same_data_def fun_eq_iff)
  have sp: "takeWhile (\<lambda>b. tkey t b \<le> k) ns = before c" "dropWhile (\<lambda>b. tkey t b \<le> k) ns = after c"
    unfolding ns using split_by_key [OF c(4,5)] .
  have "sorted (map (tkey t3) (before c @ n # after c))"
    using s c(4,5) n(2) unfolding keys(1) by (auto simp: ns sorted_append less_imp_le map_fun_upd)
  then have "treap_ok t3 (before c @ n # after c)"
    using t3(2-4) D2 by (auto simp: treap_ok_def inorder_fill)
  moreover have "treap_insert n k v pr t = Some t3"
    using c(1) t3(1) unfolding treap_insert_def t2_def t1_def by (simp add: Let_def)
  ultimately show ?thesis using keys sp by (intro exI [of _ t3]) simp
qed

section \<open>\<open>CartesianHeap\<close>\<close>

text \<open>
  The free objects are the nodes of a treap, by size; the value of a node is its address. An
  address of the store is an address of memory; \<open>getSize\<close> and the allocation of the super heap are
  parameters.
\<close>

type_synonym cheap = "(u32, nat) treap"

definition sizeof_Node :: u32 where "sizeof_Node = 24"

definition CartesianHeap_malloc :: "(u32 \<Rightarrow> 'h \<Rightarrow> nat \<times> 'h) \<Rightarrow> u32 \<Rightarrow> cheap \<times> 'h \<Rightarrow> (nat \<times> cheap \<times> 'h) option" where
  "CartesianHeap_malloc smalloc sz = (\<lambda>(t, h).
     let sz = (if sz < sizeof_Node then sizeof_Node else sz)
     in Option.bind (lookupGreater sz t) (\<lambda>n.
          if n \<noteq> 0 then
            let ptr = tn_value (tr_node t n)
            in map_option (\<lambda>(_, t). (ptr, t, h)) (treap_remove n t)
          else let (ptr, h) = smalloc sz h in Some (ptr, t, h)))"

definition CartesianHeap_free :: "(nat \<Rightarrow> u32) \<Rightarrow> nat \<Rightarrow> cheap \<times> 'h \<Rightarrow> (cheap \<times> 'h) option" where
  "CartesianHeap_free getSize ptr = (\<lambda>(t, h).
     map_option (\<lambda>t. (t, h)) (treap_insert ptr (getSize ptr) ptr (of_nat ptr) t))"

definition CartesianHeap_remove :: "nat \<Rightarrow> cheap \<times> 'h \<Rightarrow> (cheap \<times> 'h) option" where
  "CartesianHeap_remove ptr = (\<lambda>(t, h). map_option (\<lambda>(_, t). (t, h)) (treap_remove ptr t))"

lemma lookupGreater_spec:
  assumes "treap_ok t ns"
  shows "\<exists>n. lookupGreater k t = Some n \<and> best_fit (tkey t) (set ns) k n"
proof -
  obtain T where T: "trepr t 0 (tr_root t) T" "inorder T = ns" using assms by (auto simp: treap_ok_def)
  have s: "sorted (map (tkey t) (inorder T))" using assms T(2) by (simp add: treap_ok_def)
  have X: "best_fit (tkey t) {} k 0" by (simp add: best_fit_def)
  from lookupGeq_loop_spec [OF T(1) s X] show ?thesis using T(2) by (metis Un_empty_left empty_iff lookupGreater_def set_inorder)
qed

section \<open>Properties\<close>

text \<open>C26: inserting a node into a treap always ends, and puts the node behind those with smaller or equal keys
  and before those with larger keys; search order and heap order are kept, and nothing else changes.\<close>

theorem treap_insert_correct:
  assumes "treap_ok t ns" and "n \<noteq> 0" and "n \<notin> set ns"
  shows "\<exists>t'. treap_insert n k v pr t = Some t' \<and>
    treap_ok t' (takeWhile (\<lambda>b. tkey t b \<le> k) ns @ n # dropWhile (\<lambda>b. tkey t b \<le> k) ns) \<and>
    tkey t' = (tkey t)(n := k) \<and> prio t' = (prio t)(n := pr) \<and>
    (\<lambda>x. tn_value (tr_node t' x)) = (\<lambda>x. tn_value (tr_node t x))(n := v)"
  using treap_insert_spec [OF assms] .

definition nil_store :: "nat \<Rightarrow> (u32, nat) tnode" where "nil_store = (\<lambda>_. Node_new 0 0 0 0)"

theorem treap_insert_correct_witness:
  "\<exists>t'. treap_insert 8 (40 :: u32) 8 8 (treap_new nil_store) = Some t' \<and>
    treap_ok t' (takeWhile (\<lambda>b. tkey (treap_new nil_store) b \<le> 40) [] @ 8 # dropWhile (\<lambda>b. tkey (treap_new nil_store) b \<le> 40) []) \<and>
    tkey t' = (tkey (treap_new nil_store))(8 := 40) \<and> prio t' = (prio (treap_new nil_store))(8 := 8) \<and>
    (\<lambda>x. tn_value (tr_node t' x)) = (\<lambda>x. tn_value (tr_node (treap_new nil_store) x))(8 := 8)"
  by (rule treap_insert_correct [OF treap_ok_new]) simp_all

text \<open>removing a node from a treap always ends, returns the node, and takes exactly this node out of the
  order of the keys; search order and heap order are kept.\<close>

theorem treap_remove_correct:
  assumes "treap_ok t ns" and "n \<in> set ns"
  shows "\<exists>t'. treap_remove n t = Some (n, t') \<and> treap_ok t' (remove1 n ns) \<and> same_data t' t"
  using treap_remove_spec [OF assms] .

text \<open>A treap with one node.\<close>

definition one_node :: cheap where
  "one_node = \<lparr>tr_root = 8, tr_node = nil_store(8 := Node_new 8 40 8 0)\<rparr>"

lemma one_node_ok: "treap_ok one_node [8]"
  by (auto simp: treap_ok_def one_node_def Node_new_def intro!: exI [of _ "Node Leaf 8 Leaf"])

theorem treap_remove_correct_witness:
  "\<exists>t'. treap_remove 8 one_node = Some (8, t') \<and> treap_ok t' (remove1 8 [8]) \<and> same_data t' one_node"
  by (rule treap_remove_correct [OF one_node_ok]) simp

text \<open>an allocation from a \<open>CartesianHeap\<close> takes a best fit among the free objects, one of least size among
  those that are large enough, out of the treap, and asks the super heap exactly when there is none.\<close>

theorem cartesian_best_fit:
  assumes "treap_ok t ns" and "0 \<notin> set ns" and "\<forall>n \<in> set ns. tn_value (tr_node t n) = n"
  shows "\<exists>p t' h'. CartesianHeap_malloc smalloc sz (t, h) = Some (p, t', h') \<and>
    (if \<exists>n \<in> set ns. max sizeof_Node sz \<le> tkey t n
     then p \<in> set ns \<and> best_fit (tkey t) (set ns) (max sizeof_Node sz) p \<and> treap_ok t' (remove1 p ns) \<and> h' = h
     else (p, h') = smalloc (max sizeof_Node sz) h \<and> t' = t)"
proof -
  have m: "(if sz < sizeof_Node then sizeof_Node else sz) = max sizeof_Node sz" by (auto simp: max_def not_less)
  obtain n where n: "lookupGreater (max sizeof_Node sz) t = Some n" "best_fit (tkey t) (set ns) (max sizeof_Node sz) n"
    using lookupGreater_spec [OF assms(1)] by blast
  show ?thesis
  proof (cases "n = 0")
    case True
    then have "\<not> (\<exists>n \<in> set ns. max sizeof_Node sz \<le> tkey t n)" using n(2)
      by (simp add: best_fit_def not_le del: max.bounded_iff max_less_iff_conj)
    then have e: "(\<exists>n \<in> set ns. max sizeof_Node sz \<le> tkey t n) = False" by (simp only:)
    show ?thesis unfolding e using n(1) True
      by (simp add: CartesianHeap_malloc_def Let_def m case_prod_unfold)
  next
    case False
    then have "n \<in> set ns" "max sizeof_Node sz \<le> tkey t n" using n(2) by (auto simp: best_fit_def)
    moreover from treap_remove_spec [OF assms(1) this(1)] obtain t' where
      "treap_remove n t = Some (n, t')" "treap_ok t' (remove1 n ns)" by blast
    ultimately show ?thesis using n False assms(3)
      by (intro exI [of _ n] exI [of _ t'] exI [of _ h]) (auto simp: CartesianHeap_malloc_def Let_def m)
  qed
qed

theorem cartesian_best_fit_witness:
  "\<exists>p t' h'. CartesianHeap_malloc (\<lambda>sz h. (0, h)) 30 (one_node, ()) = Some (p, t', h') \<and>
    (if \<exists>n \<in> set [8]. max sizeof_Node 30 \<le> tkey one_node n
     then p \<in> set [8] \<and> best_fit (tkey one_node) (set [8]) (max sizeof_Node 30) p \<and> treap_ok t' (remove1 p [8]) \<and> h' = ()
     else (p, h') = (0, ()) \<and> t' = one_node)"
  by (rule cartesian_best_fit [OF one_node_ok]) (simp_all add: one_node_def Node_new_def)

end
