(* ===== verification/Xio.thy ===== *)
theory Xio
  imports Xdefines
begin

text \<open>
  \<open>include/xio.h\<close> with \<open>include/xfile.h\<close> and \<open>include/xsection.h\<close>: the output of a transaction is kept in
  sections of the open files and written when the transaction commits. The calls of the operating
  system are parameters, functions from their arguments and the state \<open>'w\<close> of the system.

  A result \<open>None\<close> is undefined behaviour: a null pointer is followed, or an iterator of an erased
  list node is used.
\<close>

section \<open>Sections and files\<close>

record xsection =
  xs_offset :: u32
  xs_length :: u32
  xs_buf :: "8 word list"

record xfile =
  xf_fd :: int
  xf_fpos :: u32
  xf_write_end :: u32
  xf_closed :: bool
  xf_writesects :: "xsection list"

definition xfile_new :: "int \<Rightarrow> xfile" where
  "xfile_new fd = \<lparr>xf_fd = fd, xf_fpos = 0, xf_write_end = 0, xf_closed = False, xf_writesects = []\<rparr>"

definition setClosed :: "xfile \<Rightarrow> xfile" where "setClosed f = f\<lparr>xf_closed := True\<rparr>"
definition incFpos :: "u32 \<Rightarrow> xfile \<Rightarrow> xfile" where "incFpos off f = f\<lparr>xf_fpos := xf_fpos f + off\<rparr>"
definition setFpos :: "u32 \<Rightarrow> xfile \<Rightarrow> xfile" where "setFpos off f = f\<lparr>xf_fpos := off\<rparr>"
definition update_write_end :: "u32 \<Rightarrow> xfile \<Rightarrow> xfile" where
  "update_write_end count f = f\<lparr>xf_write_end := xf_write_end f + count\<rparr>"
definition sect_add :: "xsection \<Rightarrow> xfile \<Rightarrow> xfile" where
  "sect_add s f = f\<lparr>xf_writesects := xf_writesects f @ [s]\<rparr>"

section \<open>The list of files\<close>

type_synonym xio = "xfile list"

definition xio_list_add :: "xfile \<Rightarrow> xio \<Rightarrow> xio" where "xio_list_add f x = x @ [f]"

fun get_file :: "int \<Rightarrow> xio \<Rightarrow> nat option" where
  "get_file fd [] = None"
| "get_file fd (f # fs) = (if xf_fd f = fd then Some 0 else map_option Suc (get_file fd fs))"

definition xio_open :: "('w \<Rightarrow> int \<times> 'w) \<Rightarrow> xio \<times> 'w \<Rightarrow> int \<times> xio \<times> 'w" where
  "xio_open remote_open = (\<lambda>(x, w).
     let (fd, w) = remote_open w
     in (fd, if fd \<noteq> -1 then xio_list_add (xfile_new fd) x else x, w))"

definition xio_connect :: "(int \<Rightarrow> 'w \<Rightarrow> int \<times> 'w) \<Rightarrow> int \<Rightarrow> xio \<times> 'w \<Rightarrow> int \<times> xio \<times> 'w" where
  "xio_connect remote_connect fd = (\<lambda>(x, w).
     let (result, w) = remote_connect fd w
     in (fd, if result \<noteq> -1 then xio_list_add (xfile_new fd) x else x, w))"

definition xio_accept :: "(int \<Rightarrow> 'w \<Rightarrow> int \<times> 'w) \<Rightarrow> int \<Rightarrow> xio \<times> 'w \<Rightarrow> int \<times> xio \<times> 'w" where
  "xio_accept remote_accept fd = (\<lambda>(x, w).
     let (newfd, w) = remote_accept fd w
     in (newfd, if newfd \<noteq> -1 then xio_list_add (xfile_new newfd) x else x, w))"

section \<open>Commit\<close>

text \<open>
  The loop over the sections of a file erases the first one and stops when the list has become
  empty; otherwise it increments the iterator of the erased section.
\<close>

fun commit_sections :: "(int \<Rightarrow> 8 word list \<Rightarrow> 'w \<Rightarrow> int \<times> 'w) \<Rightarrow> xfile \<Rightarrow> 'w \<Rightarrow> (xfile \<times> 'w) option" where
  "commit_sections remote_write f w =
     (case xf_writesects f of [] \<Rightarrow> Some (f, w)
      | s # ss \<Rightarrow>
          let (r, w) = remote_write (xf_fd f) (take (unat (xs_length s)) (xs_buf s)) w;
              f = f\<lparr>xf_writesects := ss\<rparr>
          in if ss = [] then Some (f, w) else None)"

fun commit_files :: "(int \<Rightarrow> 8 word list \<Rightarrow> 'w \<Rightarrow> int \<times> 'w) \<Rightarrow> xio \<Rightarrow> 'w \<Rightarrow> (xio \<times> 'w) option" where
  "commit_files remote_write [] w = Some ([], w)"
| "commit_files remote_write (f # fs) w =
     Option.bind (commit_sections remote_write f w) (\<lambda>(f, w).
       map_option (\<lambda>(fs, w). (f # fs, w)) (commit_files remote_write fs w))"

text \<open>The loop that closes the closed files erases and increments in the same way.\<close>

fun close_files :: "(int \<Rightarrow> 'w \<Rightarrow> int \<times> 'w) \<Rightarrow> xio \<Rightarrow> 'w \<Rightarrow> (xio \<times> 'w) option" where
  "close_files remote_close [] w = Some ([], w)"
| "close_files remote_close (f # fs) w =
     (if xf_closed f then
        let (r, w) = remote_close (xf_fd f) w
        in if fs = [] then Some ([], w) else None
      else map_option (\<lambda>(fs, w). (f # fs, w)) (close_files remote_close fs w))"

definition xio_commit ::
  "(int \<Rightarrow> 8 word list \<Rightarrow> 'w \<Rightarrow> int \<times> 'w) \<Rightarrow> (int \<Rightarrow> 'w \<Rightarrow> int \<times> 'w) \<Rightarrow> xio \<times> 'w \<Rightarrow> (xio \<times> 'w) option" where
  "xio_commit remote_write remote_close = (\<lambda>(x, w).
     if x = [] then Some (x, w)
     else Option.bind (commit_files remote_write x w) (\<lambda>(x, w). close_files remote_close x w))"

section \<open>Reading, writing, seeking, closing\<close>

definition EBADF :: int where "EBADF = 9"

text \<open>The result is the number returned and, when the descriptor is unknown, \<open>errno\<close>.\<close>

definition xio_write :: "int \<Rightarrow> 8 word list \<Rightarrow> xio \<Rightarrow> int \<times> int option \<times> xio" where
  "xio_write fd buf x =
     (case get_file fd x of None \<Rightarrow> (-1, Some EBADF, x)
      | Some i \<Rightarrow>
          let file = x ! i;
              count = of_nat (length buf);
              sect = \<lparr>xs_offset = xf_fpos file, xs_length = count, xs_buf = buf\<rparr>;
              file = sect_add sect file;
              file = update_write_end count file
          in (sint count, None, x[i := file]))"

definition xio_read ::
  "(int \<Rightarrow> 8 word list \<Rightarrow> 'w \<Rightarrow> int \<times> 'w) \<Rightarrow> (int \<Rightarrow> 'w \<Rightarrow> int \<times> 'w) \<Rightarrow> (int \<Rightarrow> u32 \<Rightarrow> 'w \<Rightarrow> (int \<times> 8 word list) \<times> 'w)
   \<Rightarrow> int \<Rightarrow> u32 \<Rightarrow> xio \<times> 'w \<Rightarrow> ((int \<times> 8 word list) \<times> xio \<times> 'w) option" where
  "xio_read remote_write remote_close remote_read fd count s =
     map_option (\<lambda>(x, w). let (r, w) = remote_read fd count w in (r, x, w)) (xio_commit remote_write remote_close s)"

definition SEEK_SET :: int where "SEEK_SET = 0"
definition SEEK_CUR :: int where "SEEK_CUR = 1"

definition xio_lseek ::
  "(int \<Rightarrow> 8 word list \<Rightarrow> 'w \<Rightarrow> int \<times> 'w) \<Rightarrow> (int \<Rightarrow> 'w \<Rightarrow> int \<times> 'w) \<Rightarrow> (int \<Rightarrow> u32 \<Rightarrow> int \<Rightarrow> 'w \<Rightarrow> int \<times> 'w)
   \<Rightarrow> int \<Rightarrow> u32 \<Rightarrow> int \<Rightarrow> xio \<times> 'w \<Rightarrow> (int \<times> xio \<times> 'w) option" where
  "xio_lseek remote_write remote_close remote_lseek fd offset whence s =
     Option.bind (xio_commit remote_write remote_close s) (\<lambda>(x, w).
       let (result, w) = remote_lseek fd offset whence w
       in if result \<noteq> -1 then
            (if whence = SEEK_SET then map_option (\<lambda>i. (result, x[i := setFpos offset (x ! i)], w)) (get_file fd x)
             else if whence = SEEK_CUR then map_option (\<lambda>i. (result, x[i := incFpos offset (x ! i)], w)) (get_file fd x)
             else Some (result, x, w))
          else Some (result, x, w))"

definition xio_close :: "int \<Rightarrow> xio \<Rightarrow> int \<times> xio" where
  "xio_close fd x =
     (case get_file fd x of None \<Rightarrow> (-1, x) | Some i \<Rightarrow> (0, x[i := setClosed (x ! i)]))"

section \<open>When a commit is defined\<close>

definition sections_of :: "xfile \<Rightarrow> 8 word list list" where
  "sections_of f = map (\<lambda>s. take (unat (xs_length s)) (xs_buf s)) (xf_writesects f)"

text \<open>The writes that the buffers of the files hold, in the order of the files.\<close>

definition pending :: "xio \<Rightarrow> (int \<times> 8 word list) list" where
  "pending x = concat (map (\<lambda>f. map (Pair (xf_fd f)) (sections_of f)) x)"

definition no_sections :: "xfile \<Rightarrow> xfile" where
  "no_sections f = f\<lparr>xf_writesects := []\<rparr>"

definition write_all :: "(int \<Rightarrow> 8 word list \<Rightarrow> 'w \<Rightarrow> int \<times> 'w) \<Rightarrow> (int \<times> 8 word list) list \<Rightarrow> 'w \<Rightarrow> 'w" where
  "write_all remote_write ws w = fold (\<lambda>(fd, b) w. snd (remote_write fd b w)) ws w"

lemma write_all_simps [simp]:
  "write_all rw [] w = w" "write_all rw ((fd, b) # ws) w = write_all rw ws (snd (rw fd b w))"
  "write_all rw (ws @ vs) w = write_all rw vs (write_all rw ws w)"
  by (simp_all add: write_all_def)

lemma pending_simps [simp]:
  "pending [] = []" "pending (f # fs) = map (Pair (xf_fd f)) (sections_of f) @ pending fs"
  by (simp_all add: pending_def)

lemma commit_sections_one:
  "commit_sections rw f w = (if length (xf_writesects f) \<le> 1
     then Some (no_sections f, write_all rw (map (Pair (xf_fd f)) (sections_of f)) w) else None)"
  by (cases "xf_writesects f") (auto simp: no_sections_def sections_of_def case_prod_unfold Let_def)

lemma commit_files_one:
  "commit_files rw x w = (if \<forall>f \<in> set x. length (xf_writesects f) \<le> 1
     then Some (map no_sections x, write_all rw (pending x) w) else None)"
  by (induction x arbitrary: w) (auto simp: commit_sections_one simp del: commit_sections.simps)

lemma close_files_last:
  "close_files rc x w = (if \<exists>f \<in> set (butlast x). xf_closed f then None
     else if x \<noteq> [] \<and> xf_closed (last x) then Some (butlast x, snd (rc (xf_fd (last x)) w)) else Some (x, w))"
  by (induction x arbitrary: w) (auto simp: case_prod_unfold Let_def)

section \<open>Properties\<close>

text \<open>a commit is undefined exactly when some file has more than one buffered section or a file other
  than the last one of the list has been closed, although \<open>write\<close> and \<open>close\<close> put no such bounds on
  their callers.\<close>

theorem xio_commit_undefined:
  "(xio_commit rw rc (x, w) = None) =
   ((\<exists>f \<in> set x. 1 < length (xf_writesects f)) \<or> (\<exists>f \<in> set (butlast x). xf_closed f))"
proof -
  have b: "butlast (map no_sections x) = map no_sections (butlast x)" by (rule map_butlast [symmetric])
  show ?thesis
    by (auto simp: xio_commit_def commit_files_one close_files_last b no_sections_def not_le split: if_splits)
qed

text \<open>C27: otherwise it writes the buffered data of all files, in the order of the list, and nothing else,
  leaves no section behind, and closes and drops the last file if it was closed.\<close>

theorem xio_commit_writes:
  assumes "\<forall>f \<in> set x. length (xf_writesects f) \<le> 1" and "\<forall>f \<in> set (butlast x). \<not> xf_closed f"
  shows "xio_commit rw rc (x, w) =
    (if x \<noteq> [] \<and> xf_closed (last x)
     then Some (map no_sections (butlast x), snd (rc (xf_fd (last x)) (write_all rw (pending x) w)))
     else Some (map no_sections x, write_all rw (pending x) w))"
proof -
  have b: "butlast (map no_sections x) = map no_sections (butlast x)" by (rule map_butlast [symmetric])
  show ?thesis using assms
    by (auto simp: xio_commit_def commit_files_one close_files_last b no_sections_def last_map)
qed

theorem xio_commit_writes_witness:
  "xio_commit (\<lambda>fd b w. (of_nat (length b), w @ [(fd, b)])) (\<lambda>fd w. (0, w)) 
     (snd (snd (xio_write 4 [7, 8] (snd (snd (xio_write 3 [65] [xfile_new 3, xfile_new 4]))))), [])
   = Some ([xfile_new 3\<lparr>xf_write_end := 1\<rparr>, xfile_new 4\<lparr>xf_write_end := 2\<rparr>], [(3, [65]), (4, [7, 8])])"
  by (subst xio_commit_writes) (simp_all add: xio_write_def xfile_new_def sect_add_def update_write_end_def Let_def
      no_sections_def sections_of_def)

end
