(* ===== verification/Grace_Lib.thy ===== *)
theory Grace_Lib
  imports Hl_Kingsley
begin

text \<open>
  Three smaller parts: the heap functions that \<open>source/libgrace.cpp\<close> puts in place of those of the C
  library, the saved stacks of \<open>source/xcontext.cpp\<close>, and the two routines of \<open>source/testdiffs.cpp\<close>
  that copy the changed bytes of a page.
\<close>

section \<open>The heap functions\<close>

text \<open>The three functions of \<open>xrun\<close> they are made of are parameters, as in the heap layers.\<close>

definition lib_calloc ::
  "(u32 \<Rightarrow> 'h hstate \<Rightarrow> (u32 \<times> 'h hstate) option) \<Rightarrow> u32 \<Rightarrow> u32 \<Rightarrow> 'h hstate \<Rightarrow> (u32 \<times> 'h hstate) option" where
  "lib_calloc gracemalloc n s st =
     map_option (\<lambda>(ptr, (h, m)). (ptr, (h, if ptr \<noteq> 0 then memset0 ptr (n * s) m else m))) (gracemalloc (n * s) st)"

definition lib_realloc ::
  "(u32 \<Rightarrow> 'h hstate \<Rightarrow> (u32 \<times> 'h hstate) option) \<Rightarrow> (u32 \<Rightarrow> 'h hstate \<Rightarrow> 'h hstate option)
   \<Rightarrow> (u32 \<Rightarrow> 'h hstate \<Rightarrow> u32 option) \<Rightarrow> u32 \<Rightarrow> u32 \<Rightarrow> 'h hstate \<Rightarrow> (u32 \<times> 'h hstate) option" where
  "lib_realloc gracemalloc gracefree usable_size ptr sz st =
     (if ptr = 0 then gracemalloc sz st
      else if sz = 0 then map_option (Pair 0) (gracefree ptr st)
      else Option.bind (usable_size ptr st) (\<lambda>s.
        Option.bind (gracemalloc sz st) (\<lambda>(newptr, (h, m)).
          let m = (if newptr \<noteq> 0 then let copySz = (if s < sz then s else sz) in mem_copy newptr ptr copySz m else m)
          in map_option (Pair newptr) (gracefree ptr (h, m)))))"

datatype new_error = Bad_alloc

definition operator_new ::
  "(u32 \<Rightarrow> 'h hstate \<Rightarrow> (u32 \<times> 'h hstate) option) \<Rightarrow> u32 \<Rightarrow> 'h hstate \<Rightarrow> ((new_error + u32) \<times> 'h hstate) option" where
  "operator_new gracemalloc sz st =
     map_option (\<lambda>(ptr, st). (if ptr = 0 then Inl Bad_alloc else Inr ptr, st)) (gracemalloc sz st)"

section \<open>Saved stacks\<close>

text \<open>Addresses count words; the stack grows towards lower addresses.\<close>

record xcontext =
  xc_pbos :: int
  xc_stackSize :: int
  xc_stack :: "u32 list"

definition MAX_STACK_SIZE :: nat where "MAX_STACK_SIZE = 1048576"

text \<open>\<open>None\<close>: the copy leaves the array \<open>_stack\<close>.\<close>

definition save_stack :: "int \<Rightarrow> int \<Rightarrow> (int \<Rightarrow> u32) \<Rightarrow> xcontext \<Rightarrow> xcontext option" where
  "save_stack pbos ptos m c =
     (let n = pbos - ptos
      in if nat n > MAX_STACK_SIZE then None
         else Some (c\<lparr>xc_stackSize := n,
                      xc_stack := map (\<lambda>i. m (pbos - int i)) [0 ..< nat n] @ drop (nat n) (xc_stack c)\<rparr>))"

definition getContext :: "int \<Rightarrow> (int \<Rightarrow> u32) \<Rightarrow> xcontext \<Rightarrow> xcontext option" where
  "getContext tos m c = save_stack (xc_pbos c) tos m c"

text \<open>
  Where the variable \<open>tos\<close> of the call that copies lies, when \<open>restoreStack once_more\<close> is entered with
  \<open>tos\<close> at \<open>sp\<close> and every nested call lies \<open>frame\<close> words lower.
\<close>

function restore_sp :: "nat \<Rightarrow> int \<Rightarrow> int \<Rightarrow> bool \<Rightarrow> int" where
  "restore_sp frame lo sp once_more =
     (if lo < sp then restore_sp frame lo (sp - int (Suc frame)) True
      else if once_more then restore_sp frame lo (sp - int (Suc frame)) False
      else sp)"
  by pat_completeness auto
termination by (relation "measures [\<lambda>(frame, lo, sp, b). nat (sp - lo), \<lambda>(frame, lo, sp, b). if b then 1 else 0]") auto

declare restore_sp.simps [simp del]

definition copy_back :: "xcontext \<Rightarrow> (int \<Rightarrow> u32) \<Rightarrow> int \<Rightarrow> u32" where
  "copy_back c m = fold (\<lambda>i m. m(xc_pbos c - int i := xc_stack c ! i)) [0 ..< nat (xc_stackSize c)] m"

definition restoreStack :: "nat \<Rightarrow> int \<Rightarrow> bool \<Rightarrow> xcontext \<Rightarrow> (int \<Rightarrow> u32) \<Rightarrow> int \<times> (int \<Rightarrow> u32)" where
  "restoreStack frame sp once_more c m =
     (restore_sp frame (xc_pbos c - xc_stackSize c) sp once_more, copy_back c m)"

definition xc_commit :: "int \<Rightarrow> (int \<Rightarrow> u32) \<Rightarrow> xcontext \<Rightarrow> xcontext option" where
  "xc_commit tos m c = getContext tos m c"

definition xc_abort :: "nat \<Rightarrow> int \<Rightarrow> xcontext \<Rightarrow> (int \<Rightarrow> u32) \<Rightarrow> int \<times> (int \<Rightarrow> u32)" where
  "xc_abort frame sp c m = restoreStack frame sp True c m"

definition xc_initialize :: "int \<Rightarrow> int \<Rightarrow> (int \<Rightarrow> u32) \<Rightarrow> xcontext \<Rightarrow> xcontext option" where
  "xc_initialize stacktop tos m c = xc_commit tos m (c\<lparr>xc_pbos := stacktop\<rparr>)"

lemma restore_sp_done: "sp \<le> lo \<Longrightarrow> restore_sp frame lo sp False = sp"
  by (simp add: restore_sp.simps)

lemma restore_sp_below: "restore_sp frame lo sp b \<le> lo \<and> (b \<longrightarrow> restore_sp frame lo sp b \<le> lo - int (Suc frame))"
proof (induction frame lo sp b rule: restore_sp.induct)
  case (1 frame lo sp b)
  show ?case
  proof (cases "lo < sp")
    case True
    then show ?thesis using "1.IH"(1) by (simp add: restore_sp.simps [of frame lo sp])
  next
    case False
    then show ?thesis using restore_sp_done [of "sp - int (Suc frame)" lo frame]
      by (simp add: restore_sp.simps [of frame lo sp])
  qed
qed

lemma copy_back_loop:
  "fold (\<lambda>i m. m(p - int i := xs ! i)) [0 ..< n] m a = (if p - int n < a \<and> a \<le> p then xs ! nat (p - a) else m a)"
proof (induction n)
  case 0
  then show ?case by auto
next
  case (Suc n)
  have "nat (p - (p - int n)) = n" by simp
  then show ?case using Suc by auto
qed

section \<open>Changed bytes\<close>

text \<open>Buffers are lists of bytes, a 16-byte register is a list of 16 bytes.\<close>

definition chunk :: "8 word list \<Rightarrow> nat \<Rightarrow> 8 word list" where
  "chunk buf i = take 16 (drop (16 * i) buf)"

definition mm_cmpeq_epi8 :: "8 word list \<Rightarrow> 8 word list \<Rightarrow> 8 word list" where
  "mm_cmpeq_epi8 = map2 (\<lambda>a b. if a = b then -1 else 0)"

definition mm_xor_si128 :: "8 word list \<Rightarrow> 8 word list \<Rightarrow> 8 word list" where
  "mm_xor_si128 = map2 (\<lambda>a b. a XOR b)"

text \<open>\<open>_mm_maskmoveu_si128\<close> stores the bytes whose mask has its highest bit set.\<close>

definition mm_maskmoveu_si128 :: "8 word list \<Rightarrow> 8 word list \<Rightarrow> nat \<Rightarrow> 8 word list \<Rightarrow> 8 word list" where
  "mm_maskmoveu_si128 ch mk p dest =
     fold (\<lambda>j dest. if bit (mk ! j) 7 then dest[p + j := ch ! j] else dest) [0 ..< 16] dest"

text \<open>The comparison of the four 32-bit lanes.\<close>

definition mm_cmpeq_epi32 :: "8 word list \<Rightarrow> 8 word list \<Rightarrow> 8 word list" where
  "mm_cmpeq_epi32 a b =
     concat (map (\<lambda>l. replicate 4 (if take 4 (drop (4 * l) a) = take 4 (drop (4 * l) b) then -1 else 0)) [0 ..< 4])"

definition allones :: "8 word list" where
  "allones = (let z = replicate 16 0 in mm_cmpeq_epi32 z z)"

definition writeDiffs :: "8 word list \<Rightarrow> 8 word list \<Rightarrow> 8 word list \<Rightarrow> 8 word list" where
  "writeDiffs local twin dest =
     fold (\<lambda>i dest.
         let localChunk = chunk local i;
             twinChunk = chunk twin i;
             eqChunk = mm_cmpeq_epi8 localChunk twinChunk;
             neqChunk = mm_xor_si128 allones eqChunk
         in mm_maskmoveu_si128 localChunk neqChunk (16 * i) dest)
       [0 ..< 4096 div 16] dest"

definition naiveWriteDiffs :: "8 word list \<Rightarrow> 8 word list \<Rightarrow> 8 word list \<Rightarrow> 8 word list" where
  "naiveWriteDiffs local twin dest =
     fold (\<lambda>i dest. if local ! i \<noteq> twin ! i then dest[i := local ! i] else dest) [0 ..< 4096] dest"

lemma cond_update_loop:
  "p + n \<le> length dest \<Longrightarrow>
   fold (\<lambda>j dest. if P j then dest[p + j := f j] else dest) [0 ..< n] dest
     = map (\<lambda>i. if p \<le> i \<and> i < p + n \<and> P (i - p) then f (i - p) else dest ! i) [0 ..< length dest]"
proof (induction n)
  case 0
  have "\<not> (p \<le> i \<and> i < p + 0 \<and> P (i - p))" for i by linarith
  then show ?case by (simp only: if_False if_not_P) (simp add: map_nth)
next
  case (Suc n)
  then show ?case by (auto intro!: nth_equalityI simp: nth_list_update less_Suc_eq)
qed

lemma chunk_nth: "16 * i + 16 \<le> length buf \<Longrightarrow> j < 16 \<Longrightarrow> chunk buf i ! j = buf ! (16 * i + j)"
  by (simp add: chunk_def)

lemma length_chunk: "16 * i + 16 \<le> length buf \<Longrightarrow> length (chunk buf i) = 16"
  by (simp add: chunk_def)

lemma allones_replicate: "allones = replicate 16 (-1)"
  by (simp add: allones_def mm_cmpeq_epi32_def upt_rec numeral_eq_Suc)

text \<open>The mask of a byte says whether it changed.\<close>

lemma neq_mask:
  assumes "length a = 16" and "length b = 16" and "j < 16"
  shows "bit (mm_xor_si128 allones (mm_cmpeq_epi8 a b) ! j) 7 \<longleftrightarrow> a ! j \<noteq> b ! j"
proof -
  have o: "allones ! j = -1" "length allones = 16"
    using assms(3) by (simp_all add: allones_replicate)
  then show ?thesis using assms by (simp add: mm_xor_si128_def mm_cmpeq_epi8_def)
qed

lemma maskmove_chunk:
  assumes "16 * i + 16 \<le> length local" and "16 * i + 16 \<le> length twin" and "16 * i + 16 \<le> length dest"
  shows "mm_maskmoveu_si128 (chunk local i) (mm_xor_si128 allones (mm_cmpeq_epi8 (chunk local i) (chunk twin i))) (16 * i) dest
    = map (\<lambda>a. if 16 * i \<le> a \<and> a < 16 * i + 16 \<and> local ! a \<noteq> twin ! a then local ! a else dest ! a) [0 ..< length dest]"
  unfolding mm_maskmoveu_si128_def using assms
  by (subst cond_update_loop) (auto simp: neq_mask chunk_nth length_chunk)

lemma writeDiffs_loop:
  assumes "length local = 4096" and "length twin = 4096" and "length dest = 4096"
  shows "k \<le> 256 \<Longrightarrow> fold (\<lambda>i dest. mm_maskmoveu_si128 (chunk local i)
        (mm_xor_si128 allones (mm_cmpeq_epi8 (chunk local i) (chunk twin i))) (16 * i) dest) [0 ..< k] dest
    = map (\<lambda>a. if a < 16 * k \<and> local ! a \<noteq> twin ! a then local ! a else dest ! a) [0 ..< 4096]"
proof (induction k)
  case 0
  then show ?case using assms(3) map_nth [of dest] by simp
next
  case (Suc k)
  have "mm_maskmoveu_si128 (chunk local k) (mm_xor_si128 allones (mm_cmpeq_epi8 (chunk local k) (chunk twin k))) (16 * k)
      (map (\<lambda>a. if a < 16 * k \<and> local ! a \<noteq> twin ! a then local ! a else dest ! a) [0 ..< 4096])
    = map (\<lambda>a. if a < 16 * Suc k \<and> local ! a \<noteq> twin ! a then local ! a else dest ! a) [0 ..< 4096]"
    using Suc.prems assms by (subst maskmove_chunk) auto
  then show ?case using Suc by (simp del: upt_Suc add: upt_Suc_append)
qed

section \<open>Properties\<close>

text \<open>the vectorised copy of the changed bytes of a page does what the loop over the bytes does.\<close>

theorem writeDiffs_naive:
  assumes "length local = 4096" and "length twin = 4096" and "length dest = 4096"
  shows "writeDiffs local twin dest = naiveWriteDiffs local twin dest"
proof -
  have "writeDiffs local twin dest
      = map (\<lambda>a. if a < 4096 \<and> local ! a \<noteq> twin ! a then local ! a else dest ! a) [0 ..< 4096]"
    using writeDiffs_loop [OF assms, of 256] by (simp only: writeDiffs_def Let_def) simp
  also have "\<dots> = naiveWriteDiffs local twin dest"
    using cond_update_loop [of 0 4096 dest "\<lambda>i. local ! i \<noteq> twin ! i" "\<lambda>i. local ! i"] assms(3)
    by (simp add: naiveWriteDiffs_def cong: if_cong)
  finally show ?thesis .
qed

theorem writeDiffs_naive_witness:
  "writeDiffs (replicate 4096 32) (replicate 4096 7) (replicate 4096 95)
    = naiveWriteDiffs (replicate 4096 32) (replicate 4096 7) (replicate 4096 95)"
  by (rule writeDiffs_naive) (rule length_replicate)+

text \<open>rolling back to a saved context puts back every word of the stack above the frame that was saved,
  changes nothing else, and the call that copies has its frame below all the words it overwrites.\<close>

theorem abort_restores_stack:
  assumes "xc_commit tos m c = Some c'" and "tos \<le> xc_pbos c" and "xc_abort frame sp c' m' = (sp', m'')"
  shows "(\<forall>a. m'' a = (if tos < a \<and> a \<le> xc_pbos c then m a else m' a)) \<and> sp' + int frame < tos"
proof -
  define n where "n = xc_pbos c - tos"
  have c': "xc_pbos c' = xc_pbos c" "xc_stackSize c' = n"
      "xc_stack c' = map (\<lambda>i. m (xc_pbos c - int i)) [0 ..< nat n] @ drop (nat n) (xc_stack c)"
    using assms(1) by (auto simp: xc_commit_def getContext_def save_stack_def Let_def n_def split: if_splits)
  have m'': "m'' = copy_back c' m'" and sp': "sp' = restore_sp frame tos sp True"
    using assms(3) c' by (auto simp: xc_abort_def restoreStack_def n_def)
  have st: "xc_stack c' ! nat (xc_pbos c - a) = m a" if "tos < a" "a \<le> xc_pbos c" for a
    using that by (simp add: c' nth_append n_def)
  have "m'' a = (if tos < a \<and> a \<le> xc_pbos c then m a else m' a)" for a
    unfolding m'' copy_back_def copy_back_loop using st assms(2) by (simp add: c'(1,2) n_def)
  moreover have "sp' + int frame < tos" using restore_sp_below [of frame tos sp True] sp' by simp
  ultimately show ?thesis by blast
qed

theorem abort_restores_stack_witness:
  "(\<forall>a. (snd (xc_abort 20 70 (the (xc_commit 90 (\<lambda>a. word_of_int a) \<lparr>xc_pbos = 100, xc_stackSize = 0, xc_stack = []\<rparr>)) (\<lambda>_. 0))) a
      = (if 90 < a \<and> a \<le> xc_pbos \<lparr>xc_pbos = 100, xc_stackSize = 0, xc_stack = []\<rparr> then word_of_int a else 0)) \<and>
    fst (xc_abort 20 70 (the (xc_commit 90 (\<lambda>a. word_of_int a) \<lparr>xc_pbos = 100, xc_stackSize = 0, xc_stack = []\<rparr>)) (\<lambda>_. 0)) + int 20 < 90"
  by (rule abort_restores_stack) (simp_all add: xc_commit_def getContext_def save_stack_def MAX_STACK_SIZE_def)

end
