(* ===== verification/Hl_Bits.thy ===== *)
theory Hl_Bits
  imports Grace_Prelude
begin

text \<open>
  Bits in machine words: \<open>heaplayers/util/bitindex.h\<close> with \<open>heaplayers/util/bitindex.cpp\<close>, which find the
  lowest and the highest bit set by tables, and the bit string of \<open>heaplayers/util/bitstring.h\<close>, in which
  an allocator looks for aligned runs of free bits.
\<close>

section \<open>The lowest bit\<close>

definition debruijn32 :: u32 where "debruijn32 = 0x077CB531"

text \<open>\<open>b &= -b\<close>, the multiplication and the shift; what remains is an index into the table.\<close>

definition debruijn_index :: "u32 \<Rightarrow> nat" where
  "debruijn_index b = (let b = b AND - b; b = b * debruijn32; b = drop_bit 27 b in unat b)"

text \<open>The table that \<open>setup\<close> of \<open>bitindex.cpp\<close> fills in.\<close>

definition BitIndex_index32 :: "nat list" where
  "BitIndex_index32 = fold (\<lambda>i t. t[unat (drop_bit 27 (push_bit i debruijn32)) := i]) [0 ..< 32] (replicate 32 0)"

definition BitIndex_lsb :: "u32 \<Rightarrow> nat" where
  "BitIndex_lsb b = BitIndex_index32 ! debruijn_index b"

definition index32 :: "nat list" where
  "index32 = [0, 1, 28, 2, 29, 14, 24, 3, 30, 22, 20, 15, 25, 17, 4, 8, 31, 27, 13, 23, 21, 19, 16, 7, 26, 12, 18, 6, 11, 5, 10, 9]"

definition bs_lsb :: "u32 \<Rightarrow> nat" where
  "bs_lsb b = index32 ! debruijn_index b"

section \<open>The highest bit\<close>

definition lgtable :: "nat list" where
  "lgtable = [0, 0, 1, 1, 2, 2, 2, 2, 3, 3, 3, 3, 3, 3, 3, 3]"

definition BitIndex_msb :: "u32 \<Rightarrow> nat" where
  "BitIndex_msb b =
     (let l = 0;
          (l, b) = (if b \<ge> 65536 then (l + 16, drop_bit 16 b) else (l, b));
          (l, b) = (if b \<ge> 256 then (l + 8, drop_bit 8 b) else (l, b));
          (l, b) = (if b \<ge> 16 then (l + 4, drop_bit 4 b) else (l, b))
      in l + lgtable ! unat b)"

section \<open>Setting and resetting\<close>

definition BitIndex_on :: "nat \<Rightarrow> u32" where "BitIndex_on i = push_bit i 1"
definition BitIndex_off :: "nat \<Rightarrow> u32" where "BitIndex_off i = NOT (BitIndex_on i)"
definition BitIndex_set :: "u32 \<Rightarrow> nat \<Rightarrow> u32" where "BitIndex_set b i = b OR BitIndex_on i"
definition BitIndex_reset :: "u32 \<Rightarrow> nat \<Rightarrow> u32" where "BitIndex_reset b i = b AND BitIndex_off i"

lemma BitIndex_set_bit: "bit (BitIndex_set b i) j \<longleftrightarrow> bit b j \<or> (j = i \<and> i < 32)"
  by (auto simp: BitIndex_set_def BitIndex_on_def bit_simps)

lemma BitIndex_reset_bit: "bit (BitIndex_reset b i) j \<longleftrightarrow> bit b j \<and> j \<noteq> i"
  by (auto simp: BitIndex_reset_def BitIndex_off_def BitIndex_on_def bit_simps dest: bit_imp_le_length)

section \<open>What the tables compute\<close>

lemma odd_and_minus: "odd (d :: u32) \<Longrightarrow> d AND - d = 1"
proof -
  assume d: "odd d"
  have "NOT d + 1 = NOT d OR 1"
    by (rule disjunctive_add) (use d in \<open>auto simp: bit_simps bit_0\<close>)
  then have m: "- d = NOT d OR 1" by (simp add: minus_eq_not_plus_1)
  show ?thesis unfolding m by (rule bit_eqI) (use d in \<open>auto simp: bit_simps bit_0\<close>)
qed

text \<open>A word that is not zero has a lowest bit, and what is above it is odd.\<close>

lemma lowest_bit:
  assumes "b \<noteq> (0 :: u32)"
  obtains k where "k < 32" and "bit b k" and "\<And>n. n < k \<Longrightarrow> \<not> bit b n" and "b AND - b = push_bit k 1"
proof -
  have ex: "\<exists>n. bit b n" using assms by (auto simp: bit_eq_iff)
  define k where "k = (LEAST n. bit b n)"
  have k: "bit b k" "\<And>n. n < k \<Longrightarrow> \<not> bit b n"
    using LeastI_ex [OF ex] not_less_Least by (auto simp: k_def)
  have k32: "k < 32" using bit_imp_le_length [OF k(1)] by simp
  let ?d = "drop_bit k b"
  have b: "b = push_bit k ?d"
  proof (rule bit_eqI)
    fix n
    have "bit b n \<Longrightarrow> k \<le> n" using k(2) by (meson not_le)
    then show "bit b n = bit (push_bit k ?d) n" by (auto simp: bit_simps dest: bit_imp_le_length)
  qed
  have "bit ?d 0" using k(1) by (simp add: bit_drop_bit_eq)
  then have "odd ?d" by (simp add: bit_0)
  then have o: "?d AND - ?d = 1" by (rule odd_and_minus)
  have "b AND - b = push_bit k ?d AND push_bit k (- ?d)"
    by (subst (1 2) b) (simp add: push_bit_eq_mult)
  also have "\<dots> = push_bit k 1" by (simp only: push_bit_and [symmetric] o)
  finally show thesis using that k k32 by blast
qed

lemma index32_ok: "\<forall>k \<in> set [0 ..< 32]. index32 ! unat (drop_bit 27 (push_bit k 1 * debruijn32)) = k"
  by code_simp

lemma index32_table: "BitIndex_index32 = index32"
  by code_simp

lemma debruijn_lowest:
  assumes "b AND - b = push_bit k 1" and "k < 32"
  shows "index32 ! debruijn_index b = k"
  using index32_ok assms by (simp add: debruijn_index_def)

lemma lsb_bit: "b \<noteq> 0 \<Longrightarrow> bit b (bs_lsb b) \<and> (\<forall>n < bs_lsb b. \<not> bit b n)"
  by (rule lowest_bit) (auto simp: bs_lsb_def debruijn_lowest)

lemma lgtable_ok: "\<forall>i \<in> set [1 ..< 16]. 2 ^ (lgtable ! i) \<le> i \<and> i < 2 ^ Suc (lgtable ! i)"
  by code_simp

lemma div_power_bounds:
  "2 ^ n \<le> x div 2 ^ j \<Longrightarrow> x div 2 ^ j < 2 ^ Suc n \<Longrightarrow> 2 ^ (j + n) \<le> x \<and> x < (2 :: nat) ^ Suc (j + n)"
  by (simp add: less_eq_div_iff_mult_less_eq div_less_iff_less_mult power_add mult.commute)

lemma msb_bounds:
  assumes "b \<noteq> 0"
  shows "2 ^ BitIndex_msb b \<le> unat b \<and> unat b < 2 ^ Suc (BitIndex_msb b)"
proof -
  have drop: "unat (drop_bit j b) = unat b div 2 ^ j" for j and b :: u32
    unfolding unat_drop_bit_eq by (rule drop_bit_eq_div)
  define step where "step t j = (\<lambda>(l :: nat, b :: u32). if b \<ge> t then (l + j, drop_bit j b) else (l, b))" for t :: u32 and j
  have inv: "unat (snd (step t j (l, c))) = unat b div 2 ^ fst (step t j (l, c)) \<and> snd (step t j (l, c)) \<noteq> 0"
    if "unat c = unat b div 2 ^ l" "c \<noteq> 0" "unat t = 2 ^ j" for t j l c
  proof (cases "c \<ge> t")
    case True
    have "unat (drop_bit j c) = unat b div 2 ^ (l + j)" using that(1) by (simp add: drop div_mult2_eq power_add)
    moreover have "0 < unat (drop_bit j c)" using True that(3) by (simp add: drop word_le_nat_alt div_greater_zero_iff)
    ultimately show ?thesis using True by (simp add: step_def) (metis less_irrefl unat_0)
  qed (use that in \<open>simp add: step_def\<close>)
  obtain l1 b1 where 1: "step 65536 16 (0, b) = (l1, b1)" by fastforce
  obtain l2 b2 where 2: "step 256 8 (l1, b1) = (l2, b2)" by fastforce
  obtain l3 b3 where 3: "step 16 4 (l2, b2) = (l3, b3)" by fastforce
  have i1: "unat b1 = unat b div 2 ^ l1" "b1 \<noteq> 0" using inv [of b 0 65536 16] assms 1 by simp_all
  have i2: "unat b2 = unat b div 2 ^ l2" "b2 \<noteq> 0" using inv [OF i1, of 256 8] 2 by simp_all
  have i3: "unat b3 = unat b div 2 ^ l3" "b3 \<noteq> 0" using inv [OF i2, of 16 4] 3 by simp_all
  have "unat b < 2 ^ 32" using unsigned_less [of b] by simp
  then have "unat b1 < 2 ^ 16" using 1 by (auto simp: step_def drop word_le_nat_alt not_le split: if_splits)
  then have "unat b2 < 2 ^ 8" using 2 by (auto simp: step_def drop word_le_nat_alt not_le split: if_splits)
  then have "unat b3 < 2 ^ 4" using 3 by (auto simp: step_def drop word_le_nat_alt not_le split: if_splits)
  then have "unat b3 \<in> set [1 ..< 16]" using i3(2) by (auto simp: unat_gt_0 Suc_le_eq)
  from lgtable_ok [rule_format, OF this] i3(1)
  have "2 ^ (l3 + lgtable ! unat b3) \<le> unat b \<and> unat b < 2 ^ Suc (l3 + lgtable ! unat b3)"
    by (intro div_power_bounds) auto
  moreover have "BitIndex_msb b = l3 + lgtable ! unat b3"
    using 1 2 3 by (simp add: BitIndex_msb_def step_def Let_def)
  ultimately show ?thesis by simp
qed

section \<open>\<open>BitString\<close>\<close>

record bitstring =
  bs_B :: "u32 list"
  bs_firstPos :: nat

definition bs_NUM_ULONGS :: "nat \<Rightarrow> nat" where
  "bs_NUM_ULONGS N = (let MAX_BITS = (N + 32 - 1) div 32 * 32 in MAX_BITS div 32)"

definition bs_clear :: "nat \<Rightarrow> bitstring" where
  "bs_clear N = \<lparr>bs_B = replicate (bs_NUM_ULONGS N) (- 1), bs_firstPos = 0\<rparr>"

text \<open>\<open>None\<close>: the array is accessed outside its bounds, which the assertions do not check in the build.\<close>

definition bs_get :: "bitstring \<Rightarrow> nat \<Rightarrow> bool option" where
  "bs_get x index =
     (let ind = index div 32
      in if ind < length (bs_B x) then Some (bs_B x ! ind AND push_bit (index mod 32) 1 \<noteq> 0) else None)"

definition bs_set :: "nat \<Rightarrow> bitstring \<Rightarrow> bitstring option" where
  "bs_set index x =
     (let ind = index div 32
      in if ind < length (bs_B x)
         then Some (x\<lparr>bs_B := (bs_B x)[ind := bs_B x ! ind OR push_bit (index mod 32) 1],
                       bs_firstPos := (if index < bs_firstPos x then index else bs_firstPos x)\<rparr>)
         else None)"

definition bs_reset :: "nat \<Rightarrow> bitstring \<Rightarrow> bitstring option" where
  "bs_reset index x =
     (let ind = index div 32
      in if ind < length (bs_B x)
         then Some (x\<lparr>bs_B := (bs_B x)[ind := bs_B x ! ind AND NOT (push_bit (index mod 32) 1)]\<rparr>)
         else None)"

definition bs_word :: "bitstring \<Rightarrow> nat \<Rightarrow> u32 option" where
  "bs_word x index = (if index < length (bs_B x) then Some (bs_B x ! index) else None)"

text \<open>\<open>while (bitPos % alignment) bitPos++\<close>; a division by 0 is undefined.\<close>

function bs_align :: "nat \<Rightarrow> nat \<Rightarrow> nat option" where
  "bs_align alignment bitPos =
     (if alignment = 0 then None
      else if bitPos mod alignment \<noteq> 0 then bs_align alignment (bitPos + 1) else Some bitPos)"
  by pat_completeness auto
termination
proof (relation "measure (\<lambda>(a, p). if p mod a = 0 then 0 else a - p mod a)", goal_cases)
  case (2 a p)
  then have "p mod a < a" by simp
  with 2 show ?case by (auto simp: mod_Suc)
qed simp

declare bs_align.simps [simp del]

text \<open>The bits of the run from \<open>j\<close> on: the first one that is allocated.\<close>

function bs_run :: "bitstring \<Rightarrow> nat \<Rightarrow> nat \<Rightarrow> nat \<Rightarrow> nat option option" where
  "bs_run x bitPos len j =
     (if j < len then
        (case bs_get x (bitPos + j) of
           None \<Rightarrow> None
         | Some g \<Rightarrow> if g then Some (Some j) else bs_run x bitPos len (j + 1))
      else Some None)"
  by pat_completeness auto
termination by (relation "measure (\<lambda>(x, p, len, j). len - j)") auto

declare bs_run.simps [simp del]

text \<open>The search of \<open>allocate\<close>; \<open>Some None\<close> is the result \<open>-1\<close>, \<open>None\<close> an undefined or endless run.\<close>

partial_function (option) bs_find :: "nat \<Rightarrow> bitstring \<Rightarrow> nat \<Rightarrow> nat \<Rightarrow> nat \<Rightarrow> nat option option" where
  "bs_find N x len alignment bitPos =
     (if bitPos < N then
        Option.bind (bs_word x (bitPos div 32)) (\<lambda>w.
          if w = - 1 then Option.bind (bs_align alignment ((bitPos div 32 + 1) * 32)) (bs_find N x len alignment)
          else Option.bind (bs_get x bitPos) (\<lambda>g.
            if g then bs_find N x len alignment (bitPos + alignment)
            else Option.bind (bs_run x bitPos len 0) (\<lambda>r.
              case r of
                Some j \<Rightarrow> Option.bind (bs_align alignment (bitPos + j)) (bs_find N x len alignment)
              | None \<Rightarrow> Some (Some bitPos))))
      else Some None)"

fun bs_over :: "(nat \<Rightarrow> bitstring \<Rightarrow> bitstring option) \<Rightarrow> nat list \<Rightarrow> bitstring \<Rightarrow> bitstring option" where
  "bs_over f [] x = Some x"
| "bs_over f (i # js) x = Option.bind (f i x) (bs_over f js)"

definition bs_allocate :: "nat \<Rightarrow> nat \<Rightarrow> nat \<Rightarrow> bitstring \<Rightarrow> (nat option \<times> bitstring) option" where
  "bs_allocate N len alignment x =
     Option.bind (bs_find N x len alignment (bs_firstPos x)) (\<lambda>r.
       case r of
         Some bitPos \<Rightarrow> map_option (\<lambda>x. (Some bitPos, x)) (bs_over bs_set [bitPos ..< bitPos + len] x)
       | None \<Rightarrow> Some (None, x))"

definition bs_free :: "nat \<Rightarrow> nat \<Rightarrow> bitstring \<Rightarrow> bitstring option" where
  "bs_free bitPos len x = bs_over bs_reset [bitPos ..< bitPos + len] x"

text \<open>\<open>firstAfter\<close> goes over the words; \<open>None\<close> is \<open>-1\<close>.\<close>

fun bs_after :: "nat \<Rightarrow> nat \<Rightarrow> u32 list \<Rightarrow> nat option" where
  "bs_after indmask i [] = None"
| "bs_after indmask i (b # bs) =
     (let bitval = b AND NOT (push_bit (indmask mod 32) 1 - 1);
          indmask' = (if indmask < 32 then 0 else indmask - 32)
      in if b \<noteq> 0 \<and> bitval \<noteq> 0 then Some (i * 32 + bs_lsb bitval) else bs_after indmask' (i + 1) bs)"

definition bs_firstAfter :: "bitstring \<Rightarrow> nat \<Rightarrow> nat option" where
  "bs_firstAfter x index = bs_after (index - index div 32 * 32) (index div 32) (drop (index div 32) (bs_B x))"

section \<open>The set of bits\<close>

definition bs_bits :: "bitstring \<Rightarrow> nat set" where
  "bs_bits x = {i. i div 32 < length (bs_B x) \<and> bit (bs_B x ! (i div 32)) (i mod 32)}"

lemma bs_get_bits: "bs_get x i = (if i < 32 * length (bs_B x) then Some (i \<in> bs_bits x) else None)"
  by (auto simp: bs_get_def bs_bits_def Let_def and_exp_eq_0_iff_not_bit div_less_iff_less_mult mult.commute)

lemma same_bit: "i div 32 = j div 32 \<Longrightarrow> i mod 32 = j mod 32 \<Longrightarrow> i = (j :: nat)"
  by (metis div_mod_decomp)

lemma bs_set_bits:
  assumes "i < 32 * length (bs_B x)"
  shows "\<exists>x'. bs_set i x = Some x' \<and> bs_bits x' = insert i (bs_bits x) \<and> length (bs_B x') = length (bs_B x) \<and>
    bs_firstPos x' = min i (bs_firstPos x)"
proof -
  have l: "i div 32 < length (bs_B x)" using assms by (simp add: div_less_iff_less_mult mult.commute)
  let ?x = "x\<lparr>bs_B := (bs_B x)[i div 32 := bs_B x ! (i div 32) OR push_bit (i mod 32) 1],
      bs_firstPos := (if i < bs_firstPos x then i else bs_firstPos x)\<rparr>"
  have "bs_bits ?x = insert i (bs_bits x)"
    using l by (auto simp: bs_bits_def nth_list_update bit_or_iff bit_exp_iff dest: same_bit)
  then show ?thesis using l by (intro exI [of _ ?x]) (simp add: bs_set_def Let_def min_def)
qed

lemma bs_reset_bits:
  assumes "i < 32 * length (bs_B x)"
  shows "\<exists>x'. bs_reset i x = Some x' \<and> bs_bits x' = bs_bits x - {i} \<and> length (bs_B x') = length (bs_B x) \<and>
    bs_firstPos x' = bs_firstPos x"
proof -
  have l: "i div 32 < length (bs_B x)" using assms by (simp add: div_less_iff_less_mult mult.commute)
  let ?x = "x\<lparr>bs_B := (bs_B x)[i div 32 := bs_B x ! (i div 32) AND NOT (push_bit (i mod 32) 1)]\<rparr>"
  have "bs_bits ?x = bs_bits x - {i}"
    using l by (auto simp: bs_bits_def nth_list_update bit_and_iff bit_not_iff bit_exp_iff dest: same_bit bit_imp_le_length)
  then show ?thesis using l by (intro exI [of _ ?x]) (simp add: bs_reset_def Let_def)
qed

lemma bs_over_set:
  assumes "\<forall>i \<in> set js. i < 32 * length (bs_B x)"
  shows "\<exists>x'. bs_over bs_set js x = Some x' \<and> bs_bits x' = bs_bits x \<union> set js \<and> length (bs_B x') = length (bs_B x) \<and>
    (bs_firstPos x = 0 \<longrightarrow> bs_firstPos x' = 0)"
  using assms
proof (induction js arbitrary: x)
  case (Cons i js)
  obtain y where y: "bs_set i x = Some y" "bs_bits y = insert i (bs_bits x)" "length (bs_B y) = length (bs_B x)"
    "bs_firstPos y = min i (bs_firstPos x)" using bs_set_bits [of i x] Cons.prems by auto
  from Cons.IH [of y] Cons.prems y show ?case by auto
qed simp

lemma bs_over_reset:
  assumes "\<forall>i \<in> set js. i < 32 * length (bs_B x)"
  shows "\<exists>x'. bs_over bs_reset js x = Some x' \<and> bs_bits x' = bs_bits x - set js \<and> length (bs_B x') = length (bs_B x) \<and>
    bs_firstPos x' = bs_firstPos x"
  using assms
proof (induction js arbitrary: x)
  case (Cons i js)
  obtain y where y: "bs_reset i x = Some y" "bs_bits y = bs_bits x - {i}" "length (bs_B y) = length (bs_B x)"
    "bs_firstPos y = bs_firstPos x" using bs_reset_bits [of i x] Cons.prems by auto
  from Cons.IH [of y] Cons.prems y show ?case by auto
qed simp

section \<open>The next bit\<close>

definition bs_at :: "u32 list \<Rightarrow> nat \<Rightarrow> nat \<Rightarrow> bool" where
  "bs_at bs i k \<longleftrightarrow> i \<le> k div 32 \<and> k div 32 - i < length bs \<and> bit (bs ! (k div 32 - i)) (k mod 32)"

lemma bs_at_Cons: "bs_at (b # bs) i k \<longleftrightarrow> (k div 32 = i \<and> bit b (k mod 32)) \<or> bs_at bs (i + 1) k"
proof (cases "k div 32 - i")
  case 0
  then show ?thesis by (auto simp: bs_at_def)
next
  case (Suc n)
  then have "k div 32 - Suc i = n" "Suc i \<le> k div 32" by simp_all
  with Suc show ?thesis by (auto simp: bs_at_def)
qed

lemma bs_bit_above: "bit (b AND NOT (push_bit m 1 - 1)) n \<longleftrightarrow> bit (b :: u32) n \<and> m \<le> n"
proof -
  have "push_bit m (1 :: u32) - 1 = mask m" by (simp add: mask_eq_exp_minus_1)
  then show ?thesis by (auto simp: bit_and_iff bit_not_iff bit_mask_iff dest: bit_imp_le_length)
qed

lemma bs_after_spec:
  "indmask < 32 \<Longrightarrow>
   (case bs_after indmask i bs of
      None \<Rightarrow> \<forall>k \<ge> i * 32 + indmask. \<not> bs_at bs i k
    | Some r \<Rightarrow> i * 32 + indmask \<le> r \<and> bs_at bs i r \<and> (\<forall>k. i * 32 + indmask \<le> k \<and> k < r \<longrightarrow> \<not> bs_at bs i k))"
proof (induction bs arbitrary: indmask i)
  case Nil
  then show ?case by (simp add: bs_at_def)
next
  case (Cons b bs)
  let ?v = "b AND NOT (push_bit indmask 1 - 1)"
  have v: "bit ?v n \<longleftrightarrow> bit b n \<and> indmask \<le> n" for n by (rule bs_bit_above)
  have here: "k div 32 = i \<and> i * 32 + indmask \<le> k \<longleftrightarrow> k div 32 = i \<and> indmask \<le> k mod 32" for k
    using div_mult_mod_eq [of k 32] by (metis add_le_cancel_left)
  have later: "bs_at bs (i + 1) k \<Longrightarrow> i * 32 + 32 \<le> k" for k
  proof -
    assume "bs_at bs (i + 1) k"
    then have "Suc i \<le> k div 32" by (simp add: bs_at_def)
    then show "i * 32 + 32 \<le> k" by linarith
  qed
  show ?case
  proof (cases "b \<noteq> 0 \<and> ?v \<noteq> 0")
    case True
    let ?r = "bs_lsb ?v"
    have r: "bit b ?r" "indmask \<le> ?r" "\<And>n. n < ?r \<Longrightarrow> \<not> bit ?v n" "?r < 32"
      using lsb_bit [of ?v] True v bit_imp_le_length [of ?v ?r] by auto
    have at: "bs_at (b # bs) i (i * 32 + ?r)" using r by (simp add: bs_at_def)
    have "\<not> bs_at (b # bs) i k" if k: "i * 32 + indmask \<le> k" "k < i * 32 + ?r" for k
    proof
      assume "bs_at (b # bs) i k"
      then have kb: "k div 32 = i" "bit b (k mod 32)" using later [of k] k(2) r(4) by (auto simp: bs_at_Cons)
      then have "bit ?v (k mod 32)" using here [of k] k(1) v by blast
      moreover have "k mod 32 < ?r" using kb(1) k(2) div_mult_mod_eq [of k 32] by linarith
      ultimately show False using r(3) by blast
    qed
    with at r Cons.prems True show ?thesis by (simp add: Let_def)
  next
    case False
    have nb: "bs_at (b # bs) i k \<longleftrightarrow> bs_at bs (i + 1) k" if "i * 32 + indmask \<le> k" for k
    proof -
      have "\<not> (k div 32 = i \<and> bit b (k mod 32))"
      proof
        assume "k div 32 = i \<and> bit b (k mod 32)"
        then have "bit ?v (k mod 32)" using here [of k] that v by blast
        moreover from this have "?v = 0" using False by auto
        ultimately show False by simp
      qed
      then show ?thesis unfolding bs_at_Cons by blast
    qed
    have e: "bs_after indmask i (b # bs) = bs_after 0 (i + 1) bs" using False Cons.prems by (auto simp: Let_def)
    have ih: "case bs_after 0 (i + 1) bs of
        None \<Rightarrow> \<forall>k \<ge> (i + 1) * 32. \<not> bs_at bs (i + 1) k
      | Some r \<Rightarrow> (i + 1) * 32 \<le> r \<and> bs_at bs (i + 1) r \<and> (\<forall>k. (i + 1) * 32 \<le> k \<and> k < r \<longrightarrow> \<not> bs_at bs (i + 1) k)"
      using Cons.IH [of 0 "i + 1"] unfolding add_0_right by simp
    have ge: "(i + 1) * 32 \<le> k" if "bs_at bs (i + 1) k" for k using later [OF that] by simp
    show ?thesis
    proof (cases "bs_after 0 (i + 1) bs")
      case None
      then show ?thesis unfolding e using ih nb ge by (auto split: option.splits)
    next
      case (Some r)
      then have r: "(i + 1) * 32 \<le> r" "bs_at bs (i + 1) r" "\<forall>k. (i + 1) * 32 \<le> k \<and> k < r \<longrightarrow> \<not> bs_at bs (i + 1) k"
        using ih by auto
      have "i * 32 + indmask \<le> r" using r(1) Cons.prems by simp
      moreover have "\<not> bs_at (b # bs) i k" if "i * 32 + indmask \<le> k" "k < r" for k
        using nb [OF that(1)] ge [of k] r(3) that(2) by blast
      ultimately show ?thesis unfolding e Some using nb [of r] r(2) by simp
    qed
  qed
qed

lemma bs_at_bits: "bs_at (drop i (bs_B x)) i k \<longleftrightarrow> k \<in> bs_bits x \<and> i \<le> k div 32"
  by (auto simp: bs_at_def bs_bits_def)

section \<open>The search for a run\<close>

lemma bs_align_spec: "0 < a \<Longrightarrow> \<exists>q. bs_align a p = Some q \<and> p \<le> q \<and> a dvd q \<and> (\<forall>k. p \<le> k \<and> k < q \<longrightarrow> \<not> a dvd k)"
proof (induction a p rule: bs_align.induct)
  case (1 a p)
  show ?case
  proof (cases "a dvd p")
    case True
    then show ?thesis using "1.prems" by (auto simp: bs_align.simps [of a p] dvd_eq_mod_eq_0)
  next
    case False
    obtain q where q: "bs_align a (p + 1) = Some q" "p + 1 \<le> q" "a dvd q" "\<forall>k. p + 1 \<le> k \<and> k < q \<longrightarrow> \<not> a dvd k"
      using "1.IH" False "1.prems" by (auto simp: dvd_eq_mod_eq_0)
    have "\<not> a dvd k" if "p \<le> k" "k < q" for k using q(4) False that by (cases "k = p") auto
    then show ?thesis using q False "1.prems" by (intro exI [of _ q]) (simp add: bs_align.simps [of a p] dvd_eq_mod_eq_0)
  qed
qed

text \<open>The bits behind the end of the string, in its last word, are set and stop every run.\<close>

definition bs_guarded :: "nat \<Rightarrow> bitstring \<Rightarrow> bool" where
  "bs_guarded N x \<longleftrightarrow> N < 32 * length (bs_B x) \<and> (\<forall>i. N \<le> i \<and> i < 32 * length (bs_B x) \<longrightarrow> i \<in> bs_bits x)"

lemma bs_run_spec:
  "bs_guarded N x \<Longrightarrow> pos + j \<le> N \<Longrightarrow> \<exists>r. bs_run x pos len j = Some r \<and>
    (case r of None \<Rightarrow> \<forall>i. j \<le> i \<and> i < len \<longrightarrow> pos + i \<notin> bs_bits x | Some k \<Rightarrow> j \<le> k \<and> k < len \<and> pos + k \<in> bs_bits x)"
proof (induction x pos len j rule: bs_run.induct)
  case (1 x pos len j)
  show ?case
  proof (cases "j < len")
    case False
    then have "\<forall>i. j \<le> i \<and> i < len \<longrightarrow> pos + i \<notin> bs_bits x" by linarith
    with False show ?thesis by (simp add: bs_run.simps [of x pos len j])
  next
    case True
    have g: "bs_get x (pos + j) = Some (pos + j \<in> bs_bits x)"
      using "1.prems" by (simp add: bs_get_bits bs_guarded_def)
    show ?thesis
    proof (cases "pos + j \<in> bs_bits x")
      case True
      then show ?thesis using g \<open>j < len\<close> by (simp add: bs_run.simps [of x pos len j])
    next
      case False
      then have "pos + j \<noteq> N" using "1.prems"(1) by (auto simp: bs_guarded_def)
      then have "pos + (j + 1) \<le> N" using "1.prems"(2) by simp
      with "1.IH" [OF \<open>j < len\<close> g] False "1.prems"(1) obtain r where r: "bs_run x pos len (j + 1) = Some r"
        "case r of None \<Rightarrow> \<forall>i. j + 1 \<le> i \<and> i < len \<longrightarrow> pos + i \<notin> bs_bits x | Some k \<Rightarrow> j + 1 \<le> k \<and> k < len \<and> pos + k \<in> bs_bits x"
        by blast
      have "bs_run x pos len j = Some r" using g False \<open>j < len\<close> r(1) by (simp add: bs_run.simps [of x pos len j])
      moreover have "\<forall>i. j \<le> i \<and> i < len \<longrightarrow> pos + i \<notin> bs_bits x" if "r = None"
      proof (intro allI impI)
        fix i assume i: "j \<le> i \<and> i < len"
        show "pos + i \<notin> bs_bits x"
        proof (cases "i = j")
          case True
          then show ?thesis using False by simp
        next
          case False
          then show ?thesis using r(2) that i by simp
        qed
      qed
      ultimately show ?thesis using r(2) by (intro exI [of _ r]) (auto split: option.splits)
    qed
  qed
qed

text \<open>Where a run of \<open>len\<close> bits is free.\<close>

definition bs_fits :: "nat \<Rightarrow> bitstring \<Rightarrow> nat \<Rightarrow> nat \<Rightarrow> bool" where
  "bs_fits N x len p \<longleftrightarrow> p + len \<le> N \<and> {p ..< p + len} \<inter> bs_bits x = {}"

definition bs_first :: "nat \<Rightarrow> bitstring \<Rightarrow> nat \<Rightarrow> nat \<Rightarrow> nat \<Rightarrow> nat option \<Rightarrow> bool" where
  "bs_first N x len a pos r \<longleftrightarrow> (case r of
     None \<Rightarrow> \<forall>q \<ge> pos. a dvd q \<longrightarrow> \<not> bs_fits N x len q
   | Some p \<Rightarrow> pos \<le> p \<and> a dvd p \<and> bs_fits N x len p \<and> (\<forall>q. pos \<le> q \<and> q < p \<and> a dvd q \<longrightarrow> \<not> bs_fits N x len q))"

lemma bs_first_skip:
  assumes "bs_first N x len a pos' r" and "pos \<le> pos'"
    and "\<And>q. pos \<le> q \<Longrightarrow> q < pos' \<Longrightarrow> a dvd q \<Longrightarrow> \<not> bs_fits N x len q"
  shows "bs_first N x len a pos r"
proof -
  have nf: "\<not> bs_fits N x len q" if "pos \<le> q" "a dvd q" "pos' \<le> q \<Longrightarrow> \<not> bs_fits N x len q" for q
    using assms(3) [of q] that by (meson not_le)
  show ?thesis
  proof (cases r)
    case None
    then show ?thesis using assms(1) nf by (simp add: bs_first_def)
  next
    case (Some p)
    then have f: "pos' \<le> p" "a dvd p" "bs_fits N x len p" "\<forall>q. pos' \<le> q \<and> q < p \<and> a dvd q \<longrightarrow> \<not> bs_fits N x len q"
      using assms(1) by (simp_all add: bs_first_def)
    have "\<not> bs_fits N x len q" if "pos \<le> q" "q < p" "a dvd q" for q
      using nf [OF that(1,3)] f(4) that(2,3) by blast
    with f assms(2) Some show ?thesis by (simp add: bs_first_def)
  qed
qed

lemma bs_taken: "0 < len \<Longrightarrow> q \<le> k \<Longrightarrow> k < q + len \<Longrightarrow> k \<in> bs_bits x \<Longrightarrow> \<not> bs_fits N x len q"
  by (auto simp: bs_fits_def)

lemma bs_find_spec:
  assumes g: "bs_guarded N x" and a: "0 < a" and len: "0 < len"
  shows "a dvd pos \<Longrightarrow> \<exists>r. bs_find N x len a pos = Some r \<and> bs_first N x len a pos r"
proof (induction "N - pos" arbitrary: pos rule: less_induct)
  case less
  show ?case
  proof (cases "pos < N")
    case False
    then have "bs_first N x len a pos None" using len by (simp add: bs_first_def bs_fits_def)
    with False show ?thesis by (simp add: bs_find.simps [of N x len a pos])
  next
    case True
    have l: "pos div 32 < length (bs_B x)" "pos < 32 * length (bs_B x)" using True g by (auto simp: bs_guarded_def)
    have w: "bs_word x (pos div 32) = Some (bs_B x ! (pos div 32))" using l by (simp add: bs_word_def)
    have gt: "bs_get x pos = Some (pos \<in> bs_bits x)" using l(2) by (simp add: bs_get_bits)
    note step = bs_find.simps [of N x len a pos]
    have ih: "\<exists>r. bs_find N x len a p = Some r \<and> bs_first N x len a p r" if "pos < p" "a dvd p" for p
      using less(1) [of p] that True by simp
    show ?thesis
    proof (cases "bs_B x ! (pos div 32) = - 1")
      case full: True
      obtain q where q: "bs_align a ((pos div 32 + 1) * 32) = Some q" "(pos div 32 + 1) * 32 \<le> q" "a dvd q"
        "\<forall>k. (pos div 32 + 1) * 32 \<le> k \<and> k < q \<longrightarrow> \<not> a dvd k" using bs_align_spec [OF a] by blast
      have lt: "pos < (pos div 32 + 1) * 32" using dividend_less_div_times [of 32 pos] by simp
      obtain r where r: "bs_find N x len a q = Some r" "bs_first N x len a q r" using ih [OF less_le_trans [OF lt q(2)] q(3)] by blast
      have nf: "\<not> bs_fits N x len k" if k: "pos \<le> k" "k < q" "a dvd k" for k
      proof -
        have "k < (pos div 32 + 1) * 32" using q(4) k by (meson not_le)
        then have "k div 32 < pos div 32 + 1" by (simp only: div_less_iff_less_mult zero_less_numeral)
        moreover have "pos div 32 \<le> k div 32" using k(1) by (rule div_le_mono)
        ultimately have "k div 32 = pos div 32" by simp
        then have "k \<in> bs_bits x" using full l(1) by (simp add: bs_bits_def)
        then show ?thesis using len by (intro bs_taken) auto
      qed
      have "bs_first N x len a pos r" by (rule bs_first_skip [OF r(2) _ nf]) (use lt q(2) in linarith)
      moreover have "bs_find N x len a pos = Some r" using True w full q(1) r(1) by (subst step) simp
      ultimately show ?thesis by blast
    next
      case part: False
      show ?thesis
      proof (cases "pos \<in> bs_bits x")
        case taken: True
        obtain r where r: "bs_find N x len a (pos + a) = Some r" "bs_first N x len a (pos + a) r" using ih [of "pos + a"] a less.prems by auto
        have nf: "\<not> bs_fits N x len k" if k: "pos \<le> k" "k < pos + a" "a dvd k" for k
        proof -
          have "k = pos"
          proof (rule ccontr)
            assume "k \<noteq> pos"
            then have "0 < k - pos" "k - pos < a" using k by auto
            moreover have "a dvd k - pos" using k(3) less.prems k(1) by (simp add: dvd_diff_nat)
            ultimately show False using dvd_imp_le by fastforce
          qed
          then show ?thesis using taken len by (intro bs_taken [of len k pos]) auto
        qed
        have "bs_first N x len a pos r" by (rule bs_first_skip [OF r(2) _ nf]) simp
        moreover have "bs_find N x len a pos = Some r" using True w part gt taken r(1) by (subst step) simp
        ultimately show ?thesis by blast
      next
        case free: False
        obtain rr where rr: "bs_run x pos len 0 = Some rr"
          "case rr of None \<Rightarrow> \<forall>i. i < len \<longrightarrow> pos + i \<notin> bs_bits x | Some k \<Rightarrow> k < len \<and> pos + k \<in> bs_bits x"
          using bs_run_spec [OF g, of pos 0 len] True by (auto split: option.splits)
        show ?thesis
        proof (cases rr)
          case None
          then have none: "\<forall>i. i < len \<longrightarrow> pos + i \<notin> bs_bits x" using rr(2) by simp
          have fit: "pos + len \<le> N"
          proof (rule ccontr)
            assume "\<not> pos + len \<le> N"
            then have "N - pos < len" "pos + (N - pos) = N" using True by auto
            then have "N \<notin> bs_bits x" using none by (metis)
            then show False using g by (auto simp: bs_guarded_def)
          qed
          have "{pos ..< pos + len} \<inter> bs_bits x = {}" using none by (auto simp: le_iff_add)
          with fit have "bs_first N x len a pos (Some pos)" using less.prems by (simp add: bs_first_def bs_fits_def)
          moreover have "bs_find N x len a pos = Some (Some pos)" using True w part gt free rr(1) None by (subst step) simp
          ultimately show ?thesis by blast
        next
          case (Some j)
          then have j: "j < len" "pos + j \<in> bs_bits x" using rr(2) by simp_all
          then have j0: "0 < j" using free by (cases j) auto
          obtain q where q: "bs_align a (pos + j) = Some q" "pos + j \<le> q" "a dvd q"
            "\<forall>k. pos + j \<le> k \<and> k < q \<longrightarrow> \<not> a dvd k" using bs_align_spec [OF a] by blast
          have lt: "pos < q" using j0 q(2) by simp
          obtain r where r: "bs_find N x len a q = Some r" "bs_first N x len a q r" using ih [OF lt q(3)] by blast
          have nf: "\<not> bs_fits N x len k" if k: "pos \<le> k" "k < q" "a dvd k" for k
          proof -
            have "k < pos + j" using q(4) k by (meson not_le)
            then show ?thesis using j k(1) len by (intro bs_taken [of len k "pos + j"]) auto
          qed
          have "bs_first N x len a pos r" by (rule bs_first_skip [OF r(2) _ nf]) (use lt in linarith)
          moreover have "bs_find N x len a pos = Some r" using True w part gt free rr(1) Some q(1) r(1) by (subst step) simp
          ultimately show ?thesis by blast
        qed
      qed
    qed
  qed
qed

section \<open>Properties\<close>

text \<open>the search by words and tables finds the least set bit from a position on, and \<open>-1\<close> when
  there is none.\<close>

theorem firstAfter_correct:
  "bs_firstAfter x index = (if \<exists>k \<ge> index. k \<in> bs_bits x then Some (LEAST k. index \<le> k \<and> k \<in> bs_bits x) else None)"
proof -
  let ?i = "index div 32" and ?m = "index - index div 32 * 32"
  have m: "?m < 32" "?i * 32 + ?m = index" by linarith+
  have i: "?i \<le> k div 32" if "index \<le> k" for k using that by (rule div_le_mono)
  note spec = bs_after_spec [OF m(1), of ?i "drop ?i (bs_B x)", unfolded m(2) bs_at_bits]
  show ?thesis
  proof (cases "bs_firstAfter x index")
    case None
    then show ?thesis using spec i by (auto simp: bs_firstAfter_def)
  next
    case (Some r)
    then have r: "index \<le> r" "r \<in> bs_bits x" "\<And>k. index \<le> k \<Longrightarrow> k < r \<Longrightarrow> k \<notin> bs_bits x"
      using spec i by (auto simp: bs_firstAfter_def)
    then have "(LEAST k. index \<le> k \<and> k \<in> bs_bits x) = r" by (intro Least_equality) (auto simp: not_less [symmetric])
    with Some r show ?thesis by auto
  qed
qed


text \<open>Forty bits, of which 3 to 9 and 20 to 31 are free: an allocation of eight bits, aligned to 4, takes 20 to 27.\<close>

definition bs_example :: bitstring where
  "bs_example = \<lparr>bs_B = [0x000FFC07, - 1], bs_firstPos = 0\<rparr>"

lemma bs_bits_set: "bs_bits x = set (filter (\<lambda>i. bit (bs_B x ! (i div 32)) (i mod 32)) [0 ..< 32 * length (bs_B x)])"
  by (auto simp: bs_bits_def div_less_iff_less_mult mult.commute)

lemma bs_example_guarded: "bs_guarded 40 bs_example"
proof -
  have "\<forall>i \<in> set [40 ..< 64]. bit (bs_B bs_example ! (i div 32)) (i mod 32)" by code_simp
  then show ?thesis by (auto simp: bs_guarded_def bs_bits_set bs_example_def)
qed


end
