(* ===== verification/Hl_Coalesce.thy ===== *)
theory Hl_Coalesce
  imports Hl_Source Hl_Treap
begin

text \<open>
  Boundary tags: \<open>heaplayers/coalesceableheap.h\<close>, whose headers tell the size and the state of an object
  and of its predecessor, and \<open>heaplayers/coalesceheap.h\<close>, which splits objects at allocation and merges
  neighbours when they are freed. The super heap is an object store as described by the locale
  \<open>tag_store\<close>; \<open>CartesianHeap\<close> provides it.
\<close>

section \<open>Headers\<close>

text \<open>
  A header is two words: the state of the previous object in bit 0, \<open>_isMmapped\<close> in bit 1 and the size of the
  previous object in the other 30 bits of the first, the size of the object in the second. Objects follow
  their headers.
\<close>

definition hdr_PREV_INUSE :: u32 where "hdr_PREV_INUSE = 0"
definition hdr_PREV_FREE :: u32 where "hdr_PREV_FREE = 1"
definition sizeof_Header :: u32 where "sizeof_Header = 8"

definition hdr_getHeader :: "u32 \<Rightarrow> u32" where "hdr_getHeader ptr = ptr - sizeof_Header"
definition hdr_getObject :: "u32 \<Rightarrow> u32" where "hdr_getObject h = h + sizeof_Header"
definition hdr_getSize :: "hmem \<Rightarrow> u32 \<Rightarrow> u32" where "hdr_getSize m h = m (h + 4)"
definition hdr_getPrevSize :: "hmem \<Rightarrow> u32 \<Rightarrow> u32" where "hdr_getPrevSize m h = drop_bit 2 (m h)"
definition hdr_setSize :: "u32 \<Rightarrow> u32 \<Rightarrow> hmem \<Rightarrow> hmem" where "hdr_setSize h sz m = m(h + 4 := sz)"
definition hdr_setPrevSize :: "u32 \<Rightarrow> u32 \<Rightarrow> hmem \<Rightarrow> hmem" where
  "hdr_setPrevSize h sz m = m(h := (m h AND 3) OR push_bit 2 sz)"
definition hdr_getNextHeader :: "hmem \<Rightarrow> u32 \<Rightarrow> u32" where
  "hdr_getNextHeader m h = h + sizeof_Header + hdr_getSize m h"
definition hdr_markPrevFree :: "u32 \<Rightarrow> hmem \<Rightarrow> hmem" where "hdr_markPrevFree h m = m(h := m h OR hdr_PREV_FREE)"
definition hdr_markPrevInUse :: "u32 \<Rightarrow> hmem \<Rightarrow> hmem" where "hdr_markPrevInUse h m = m(h := m h AND NOT hdr_PREV_FREE)"
definition hdr_markFree :: "u32 \<Rightarrow> hmem \<Rightarrow> hmem" where "hdr_markFree h m = hdr_markPrevFree (hdr_getNextHeader m h) m"
definition hdr_markInUse :: "u32 \<Rightarrow> hmem \<Rightarrow> hmem" where "hdr_markInUse h m = hdr_markPrevInUse (hdr_getNextHeader m h) m"
definition hdr_markMmapped :: "u32 \<Rightarrow> hmem \<Rightarrow> hmem" where "hdr_markMmapped h m = m(h := m h OR 2)"
definition hdr_markNotMmapped :: "u32 \<Rightarrow> hmem \<Rightarrow> hmem" where "hdr_markNotMmapped h m = m(h := m h AND NOT 2)"
definition hdr_isMmapped :: "hmem \<Rightarrow> u32 \<Rightarrow> bool" where "hdr_isMmapped m h \<longleftrightarrow> drop_bit 1 (m h) AND 1 \<noteq> 0"
definition hdr_isPrevFree :: "hmem \<Rightarrow> u32 \<Rightarrow> bool" where "hdr_isPrevFree m h \<longleftrightarrow> m h AND 1 \<noteq> hdr_PREV_INUSE"
definition hdr_isFree :: "hmem \<Rightarrow> u32 \<Rightarrow> bool" where "hdr_isFree m h \<longleftrightarrow> hdr_isPrevFree m (hdr_getNextHeader m h)"
definition hdr_isNextFree :: "hmem \<Rightarrow> u32 \<Rightarrow> bool" where
  "hdr_isNextFree m h \<longleftrightarrow> hdr_isPrevFree m (hdr_getNextHeader m (hdr_getNextHeader m h))"
definition hdr_getPrev :: "hmem \<Rightarrow> u32 \<Rightarrow> u32" where "hdr_getPrev m h = h - hdr_getPrevSize m h"
definition hdr_getNext :: "hmem \<Rightarrow> u32 \<Rightarrow> u32" where
  "hdr_getNext m h = h + 2 * sizeof_Header + hdr_getSize m h"

text \<open>The constructor leaves \<open>_prevStatus\<close> as it finds it in the temporary: \<open>junk\<close>.\<close>

definition hdr_new :: "u32 \<Rightarrow> u32 \<Rightarrow> u32 \<Rightarrow> u32 \<Rightarrow> hmem \<Rightarrow> hmem" where
  "hdr_new junk h prevsz sz m = m(h := (junk AND 1) OR push_bit 2 prevsz, h + 4 := sz)"

definition makeObject :: "u32 \<Rightarrow> u32 \<Rightarrow> u32 \<Rightarrow> u32 \<Rightarrow> hmem \<Rightarrow> u32 \<times> hmem" where
  "makeObject junk buf prevsz sz m =
     (let m = hdr_new junk buf prevsz sz m;
          nextHeader = buf + sizeof_Header + sz
      in (buf + sizeof_Header, hdr_setPrevSize nextHeader sz m))"

section \<open>\<open>CoalesceableHeap\<close>\<close>

definition CoalesceableHeap_malloc ::
  "(u32 \<Rightarrow> 'h hstate \<Rightarrow> (u32 \<times> 'h hstate) option) \<Rightarrow> u32 \<Rightarrow> 'h hstate \<Rightarrow> (u32 \<times> 'h hstate) option" where
  "CoalesceableHeap_malloc smalloc sz st =
     map_option (\<lambda>(buf, (h, m)).
       if buf \<noteq> 0 then
         let m = hdr_setSize buf sz m;
             nextHeader = buf + sizeof_Header + sz;
             m = hdr_setPrevSize nextHeader sz m;
             m = hdr_markNotMmapped buf m;
             m = hdr_setSize nextHeader 0 m;
             m = hdr_markInUse nextHeader m
         in (buf + sizeof_Header, (h, m))
       else (0, (h, m))) (smalloc (sz + sizeof_Header) st)"

definition CoalesceableHeap_free :: "(u32 \<Rightarrow> 'h hstate \<Rightarrow> 'h hstate option) \<Rightarrow> u32 \<Rightarrow> 'h hstate \<Rightarrow> 'h hstate option" where
  "CoalesceableHeap_free sfree ptr st = sfree (ptr - sizeof_Header) st"

section \<open>\<open>CoalesceHeap\<close>\<close>

text \<open>\<open>RequireCoalesceable\<close> passes from an object to its header.\<close>

definition ch_getSize :: "hmem \<Rightarrow> u32 \<Rightarrow> u32" where "ch_getSize m ptr = hdr_getSize m (hdr_getHeader ptr)"
definition ch_getNext :: "hmem \<Rightarrow> u32 \<Rightarrow> u32" where "ch_getNext m ptr = hdr_getNext m (hdr_getHeader ptr)"
definition ch_getPrev :: "hmem \<Rightarrow> u32 \<Rightarrow> u32" where "ch_getPrev m ptr = hdr_getPrev m (hdr_getHeader ptr)"
definition ch_isFree :: "hmem \<Rightarrow> u32 \<Rightarrow> bool" where "ch_isFree m ptr = hdr_isFree m (hdr_getHeader ptr)"
definition ch_isPrevFree :: "hmem \<Rightarrow> u32 \<Rightarrow> bool" where "ch_isPrevFree m ptr = hdr_isPrevFree m (hdr_getHeader ptr)"
definition ch_setSize :: "u32 \<Rightarrow> u32 \<Rightarrow> hmem \<Rightarrow> hmem" where "ch_setSize ptr sz = hdr_setSize (hdr_getHeader ptr) sz"
definition ch_setPrevSize :: "u32 \<Rightarrow> u32 \<Rightarrow> hmem \<Rightarrow> hmem" where
  "ch_setPrevSize ptr sz = hdr_setPrevSize (hdr_getHeader ptr) sz"
definition ch_markFree :: "u32 \<Rightarrow> hmem \<Rightarrow> hmem" where "ch_markFree ptr = hdr_markFree (hdr_getHeader ptr)"
definition ch_markInUse :: "u32 \<Rightarrow> hmem \<Rightarrow> hmem" where "ch_markInUse ptr = hdr_markInUse (hdr_getHeader ptr)"

definition ch_coalesce :: "u32 \<Rightarrow> u32 \<Rightarrow> hmem \<Rightarrow> hmem" where
  "ch_coalesce fst' snd' m =
     (let newSize = snd' - fst' + ch_getSize m snd';
          m = ch_setSize fst' newSize m
      in ch_setPrevSize (ch_getNext m fst') newSize m)"

definition ch_split :: "u32 \<Rightarrow> u32 \<Rightarrow> u32 \<Rightarrow> hmem \<Rightarrow> u32 option \<times> hmem" where
  "ch_split junk obj requestedSize m =
     (let actualSize = ch_getSize m obj
      in if actualSize - requestedSize \<ge> sizeof_Header + sizeof_double then
           let m = ch_setSize obj requestedSize m;
               splitPiece = obj + requestedSize + sizeof_Header;
               (_, m) = makeObject junk (hdr_getHeader splitPiece) requestedSize (actualSize - requestedSize - sizeof_Header) m;
               m = hdr_markPrevInUse (hdr_getHeader splitPiece) m
           in (Some splitPiece, m)
         else (None, m))"

definition CoalesceHeap_malloc ::
  "(u32 \<Rightarrow> 'h hstate \<Rightarrow> (u32 \<times> 'h hstate) option) \<Rightarrow> (u32 \<Rightarrow> 'h hstate \<Rightarrow> 'h hstate option) \<Rightarrow> u32
   \<Rightarrow> u32 \<Rightarrow> 'h hstate \<Rightarrow> (u32 \<times> 'h hstate) option" where
  "CoalesceHeap_malloc smalloc sfree junk sz st =
     Option.bind (smalloc sz st) (\<lambda>(ptr, (h, m)).
       if ptr \<noteq> 0 then
         let m = ch_markInUse ptr m;
             (splitPiece, m) = ch_split junk ptr sz m
         in (case splitPiece of
               Some p \<Rightarrow> map_option (Pair ptr) (sfree p (h, ch_markFree p m))
             | None \<Rightarrow> Some (ptr, (h, m)))
       else Some (0, (h, m)))"

definition CoalesceHeap_free ::
  "(u32 \<Rightarrow> 'h hstate \<Rightarrow> 'h hstate option) \<Rightarrow> (u32 \<Rightarrow> 'h hstate \<Rightarrow> 'h hstate option) \<Rightarrow> u32 \<Rightarrow> 'h hstate \<Rightarrow> 'h hstate option" where
  "CoalesceHeap_free sremove sfree ptr st =
     (if ch_getNext (snd st) (ch_getPrev (snd st) ptr) \<noteq> ptr \<or> ch_getPrev (snd st) (ch_getNext (snd st) ptr) \<noteq> ptr
      then sfree ptr st
      else
        let prev = ch_getPrev (snd st) ptr;
            next = ch_getNext (snd st) ptr
        in Option.bind
             (if ch_isPrevFree (snd st) ptr
              then map_option (\<lambda>(h, m). (prev, (h, ch_coalesce prev ptr m))) (sremove prev st)
              else Some (ptr, st))
             (\<lambda>(ptr, st).
               Option.bind
                 (if ch_isFree (snd st) next
                  then map_option (\<lambda>(h, m). (h, ch_coalesce ptr next m)) (sremove next st)
                  else Some st)
                 (\<lambda>(h, m). sfree ptr (h, ch_markFree ptr m))))"

section \<open>Tagged regions\<close>

text \<open>
  A region is a sequence of objects, each with its size and whether it is free; the first one is at \<open>P\<close>. The
  tags of an object are the size in its header and the first word of the next header.
\<close>

type_synonym tagged = "(nat \<times> bool) list"

definition adr :: "nat \<Rightarrow> u32" where "adr n = of_nat n"

lemma adr_eq: "m < 2 ^ 32 \<Longrightarrow> n < 2 ^ 32 \<Longrightarrow> adr m = adr n \<longleftrightarrow> m = n"
  using of_nat32_inj by (auto simp: adr_def)

lemma adr_add: "adr m + adr n = adr (m + n)" "adr m + numeral k = adr (m + numeral k)"
  by (simp_all add: adr_def)

lemma adr_diff: "n \<le> m \<Longrightarrow> adr m - adr n = adr (m - n)" "numeral k \<le> m \<Longrightarrow> adr m - numeral k = adr (m - numeral k)"
  by (simp_all add: adr_def)

lemma unat_adr: "n < 2 ^ 32 \<Longrightarrow> unat (adr n) = n"
  by (simp add: adr_def unat_of_nat32)

lemma adr_le: "m < 2 ^ 32 \<Longrightarrow> n < 2 ^ 32 \<Longrightarrow> adr m \<le> adr n \<longleftrightarrow> m \<le> n"
  by (simp add: word_le_nat_alt unat_adr)

definition span :: "tagged \<Rightarrow> nat" where "span bs = (\<Sum>(n, f) \<leftarrow> bs. n + 8)"

text \<open>The first word of a header.\<close>

definition tw_size :: "u32 \<Rightarrow> u32" where "tw_size w = drop_bit 2 w"
definition tw_set :: "u32 \<Rightarrow> u32 \<Rightarrow> u32" where "tw_set w s = (w AND 3) OR push_bit 2 s"
definition tw_free :: "u32 \<Rightarrow> u32" where "tw_free w = w OR 1"
definition tw_inuse :: "u32 \<Rightarrow> u32" where "tw_inuse w = w AND NOT 1"

fun tags :: "hmem \<Rightarrow> nat \<Rightarrow> tagged \<Rightarrow> bool" where
  "tags m P [] \<longleftrightarrow> True"
| "tags m P ((n, f) # bs) \<longleftrightarrow> m (adr (P - 4)) = adr n \<and> tw_size (m (adr (P + n))) = adr n \<and>
     odd (m (adr (P + n))) = f \<and> tags m (P + n + 8) bs"

fun frees :: "nat \<Rightarrow> tagged \<Rightarrow> (nat \<times> nat) set" where
  "frees P [] = {}"
| "frees P ((n, f) # bs) = (if f then {(P, n)} else {}) \<union> frees (P + n + 8) bs"

fun spread :: "tagged \<Rightarrow> bool" where
  "spread ((n, f) # (k, g) # bs) \<longleftrightarrow> \<not> (f \<and> g) \<and> spread ((k, g) # bs)"
| "spread _ \<longleftrightarrow> True"

definition tagged_ok :: "nat \<Rightarrow> nat \<Rightarrow> tagged \<Rightarrow> bool" where
  "tagged_ok least P bs \<longleftrightarrow> 8 \<le> P \<and> 8 dvd P \<and> span bs < 2 ^ 30 \<and> P + span bs < 2 ^ 32 \<and>
     (\<forall>b \<in> set bs. least \<le> fst b \<and> 8 dvd fst b)"

text \<open>The bodies of the free objects.\<close>

definition bodies :: "(nat \<times> nat) set \<Rightarrow> nat set" where
  "bodies F = (\<Union>(P, n) \<in> F. {P ..< P + n})"

lemma span_simps [simp]: "span [] = 0" "span ((n, f) # bs) = n + 8 + span bs" "span (bs @ cs) = span bs + span cs"
  by (simp_all add: span_def)

lemma tags_append: "tags m P (bs @ cs) \<longleftrightarrow> tags m P bs \<and> tags m (P + span bs) cs"
  by (induction m P bs rule: tags.induct) (simp_all add: add.assoc)

lemma frees_append: "frees P (bs @ cs) = frees P bs \<union> frees (P + span bs) cs"
  by (induction P bs rule: frees.induct) (simp_all add: add.assoc Un_assoc)

lemma spread_append:
  "spread (bs @ cs) \<longleftrightarrow> spread bs \<and> spread cs \<and> (bs \<noteq> [] \<and> cs \<noteq> [] \<longrightarrow> \<not> (snd (last bs) \<and> snd (hd cs)))"
  by (induction bs rule: spread.induct) (cases cs; auto)+

lemma spread_Cons: "spread (b # bs) \<longleftrightarrow> spread bs \<and> (bs \<noteq> [] \<longrightarrow> \<not> (snd b \<and> snd (hd bs)))"
  by (cases b; cases bs rule: spread.cases) auto

lemma frees_range: "(Q, n) \<in> frees P bs \<Longrightarrow> P \<le> Q \<and> Q + n + 8 \<le> P + span bs"
  by (induction P bs rule: frees.induct) (auto split: if_splits)

lemma bodies_frees: "x \<in> bodies (frees P bs) \<Longrightarrow> P \<le> x \<and> x + 8 < P + span bs"
  by (auto simp: bodies_def dest!: frees_range)

lemma bodies_Un [simp]: "bodies (F \<union> G) = bodies F \<union> bodies G" by (auto simp: bodies_def)
lemma bodies_empty [simp]: "bodies {} = {}" by (simp add: bodies_def)
lemma bodies_insert [simp]: "bodies (insert (P, n) F) = {P ..< P + n} \<union> bodies F" by (auto simp: bodies_def)

text \<open>The tags depend on the words outside the bodies only.\<close>

fun tag_words :: "nat \<Rightarrow> tagged \<Rightarrow> nat set" where
  "tag_words P [] = {}"
| "tag_words P ((n, f) # bs) = {P - 4, P + n} \<union> tag_words (P + n + 8) bs"

lemma tags_frame: "(\<And>x. x \<in> tag_words P bs \<Longrightarrow> m' (adr x) = m (adr x)) \<Longrightarrow> tags m' P bs = tags m P bs"
  by (induction m P bs rule: tags.induct) auto

lemma tag_words_range: "x \<in> tag_words P bs \<Longrightarrow> P - 4 \<le> x \<and> x + 8 \<le> P + span bs"
  by (induction P bs rule: tag_words.induct) (auto split: if_splits)

lemma tag_words_append: "tag_words P (bs @ cs) = tag_words P bs \<union> tag_words (P + span bs) cs"
  by (induction P bs rule: tag_words.induct) (simp_all add: add.assoc Un_assoc)

lemma tag_words_frees: "8 \<le> P \<Longrightarrow> x \<in> tag_words P bs \<Longrightarrow> x \<notin> bodies (frees P bs)"
proof (induction P bs rule: tag_words.induct)
  case (2 P n f bs)
  have "x \<notin> bodies (frees (P + n + 8) bs)"
  proof (cases "x \<in> {P - 4, P + n}")
    case True
    then show ?thesis using bodies_frees [of x "P + n + 8" bs] by auto
  next
    case False
    then show ?thesis using 2 by simp
  qed
  moreover have "x \<notin> {P ..< P + n}" using "2.prems" tag_words_range [of x "P + n + 8" bs] by auto
  ultimately show ?case by simp
qed simp

section \<open>What the operations do to the tags\<close>

lemma tw_bits:
  "tw_size (tw_set w s) = take_bit 30 s" "odd (tw_set w s) \<longleftrightarrow> odd w"
  "tw_size (tw_free w) = tw_size w" "odd (tw_free w)"
  "tw_size (tw_inuse w) = tw_size w" "even (tw_inuse w)"
proof -
  have [simp]: "bit (3 :: u32) n \<longleftrightarrow> n < 2" for n
    using bit_mask_iff [of 2 n, where 'a = "32 word"] by (auto simp: mask_numeral dest: bit_imp_le_length)
  have 0: "odd (x :: u32) \<longleftrightarrow> bit x 0" for x by (simp add: bit_0)
  note d = tw_size_def tw_set_def tw_free_def tw_inuse_def
  show "tw_size (tw_set w s) = take_bit 30 s" "tw_size (tw_free w) = tw_size w" "tw_size (tw_inuse w) = tw_size w"
    unfolding d by (rule bit_eqI; auto simp: bit_or_iff bit_and_iff bit_not_iff bit_drop_bit_eq bit_push_bit_iff
      bit_take_bit_iff bit_1_iff simp del: drop_bit_and drop_bit_or dest: bit_imp_le_length)+
  show "odd (tw_set w s) \<longleftrightarrow> odd w" "odd (tw_free w)"
    unfolding d 0 bit_and_iff bit_not_iff bit_or_iff bit_push_bit_iff by (simp_all add: bit_1_iff)
  show "even (tw_inuse w)" by (simp add: tw_inuse_def even_and_iff)
qed

lemma size30: "n < 2 ^ 30 \<Longrightarrow> take_bit 30 (adr n) = adr n"
  by (rule unsigned_word_eqI [where ?'a = nat]) (simp add: adr_def unsigned_take_bit_eq unat_of_nat take_bit_nat_eq_self)

section \<open>Writes into a region\<close>

text \<open>The region \<open>bs\<close> at \<open>P\<close> before and after a change of some of its tag words.\<close>

lemma tag_words_bound: "tagged_ok least P bs \<Longrightarrow> x \<in> tag_words P bs \<Longrightarrow> x < 2 ^ 32"
  using tag_words_range [of x P bs] by (simp add: tagged_ok_def)

lemma tags_upd:
  assumes "P + span bs < 2 ^ 32" and "w < 2 ^ 32" and "w < P - 4 \<or> P + span bs < w + 8"
  shows "tags (m(adr w := v)) P bs = tags m P bs"
proof (rule tags_frame)
  fix x assume x: "x \<in> tag_words P bs"
  from tag_words_range [OF x] have "x < 2 ^ 32" "x \<noteq> w" using assms by linarith+
  then show "(m(adr w := v)) (adr x) = m (adr x)" using assms(2) by (simp add: adr_eq)
qed

lemma ch_simps:
  assumes "8 \<le> P"
  shows "ch_getSize m (adr P) = m (adr (P - 4))"
    and "ch_setSize (adr P) s m = m(adr (P - 4) := s)"
    and "m (adr (P - 4)) = adr n \<Longrightarrow> ch_getNext m (adr P) = adr (P + n + 8)"
    and "tw_size (m (adr (P - 8))) = adr n \<Longrightarrow> n + 8 \<le> P \<Longrightarrow> ch_getPrev m (adr P) = adr (P - 8 - n)"
    and "m (adr (P - 4)) = adr n \<Longrightarrow> ch_isFree m (adr P) = odd (m (adr (P + n)))"
    and "ch_isPrevFree m (adr P) = odd (m (adr (P - 8)))"
    and "m (adr (P - 4)) = adr n \<Longrightarrow> ch_markFree (adr P) m = m(adr (P + n) := tw_free (m (adr (P + n))))"
    and "m (adr (P - 4)) = adr n \<Longrightarrow> ch_markInUse (adr P) m = m(adr (P + n) := tw_inuse (m (adr (P + n))))"
    and "ch_setPrevSize (adr P) s m = m(adr (P - 8) := tw_set (m (adr (P - 8))) s)"
proof -
  have h: "hdr_getHeader (adr P) = adr (P - 8)" using assms by (simp add: hdr_getHeader_def sizeof_Header_def adr_diff)
  have h4: "adr (P - 8) + 4 = adr (P - 4)" using assms by (simp add: adr_add)
  have o: "w AND 1 \<noteq> 0 \<longleftrightarrow> odd w" for w :: u32 using and_exp_eq_0_iff_not_bit [of w 0] by (simp add: bit_0)
  have n: "adr (P - 8) + sizeof_Header + adr n = adr (P + n)" "adr (P - 8) + 2 * sizeof_Header + adr n = adr (8 + P + n)" for n
    using assms by (simp_all add: sizeof_Header_def adr_add)
  note d = ch_getSize_def ch_setSize_def ch_getNext_def ch_getPrev_def ch_isFree_def ch_isPrevFree_def ch_markFree_def
    ch_markInUse_def ch_setPrevSize_def tw_size_def tw_set_def tw_free_def tw_inuse_def hdr_getSize_def hdr_setSize_def hdr_getNext_def hdr_getPrev_def hdr_getPrevSize_def
    hdr_isFree_def hdr_isPrevFree_def hdr_getNextHeader_def hdr_markFree_def hdr_markInUse_def hdr_markPrevFree_def
    hdr_markPrevInUse_def hdr_setPrevSize_def hdr_PREV_INUSE_def hdr_PREV_FREE_def
  show "ch_getSize m (adr P) = m (adr (P - 4))" "ch_setSize (adr P) s m = m(adr (P - 4) := s)"
    "ch_isPrevFree m (adr P) = odd (m (adr (P - 8)))"
    "ch_setPrevSize (adr P) s m = m(adr (P - 8) := tw_set (m (adr (P - 8))) s)"
    by (simp_all add: d h h4 o)
  show "ch_getNext m (adr P) = adr (P + n + 8)" "ch_isFree m (adr P) = odd (m (adr (P + n)))"
    "ch_markFree (adr P) m = m(adr (P + n) := tw_free (m (adr (P + n))))"
    "ch_markInUse (adr P) m = m(adr (P + n) := tw_inuse (m (adr (P + n))))" if "m (adr (P - 4)) = adr n"
    using that n(2) [of n] by (simp_all add: d h h4 o n(1), simp add: ac_simps)
  show "ch_getPrev m (adr P) = adr (P - 8 - n)" if "tw_size (m (adr (P - 8))) = adr n" "n + 8 \<le> P"
    using that by (simp add: d h adr_diff)
qed

text \<open>Merging two neighbours at the front of a region.\<close>

lemma ch_coalesce_tags:
  assumes t: "tags m P ((a, f) # (n, g) # bs)" and P: "8 \<le> P"
    and b: "P + span ((a, f) # (n, g) # bs) < 2 ^ 32" "a + 8 + n < 2 ^ 30"
  defines "m' \<equiv> ch_coalesce (adr P) (adr (P + a + 8)) m"
  shows "tags m' P ((a + 8 + n, g) # bs)"
    and "\<And>x. x < 2 ^ 32 \<Longrightarrow> x \<noteq> P - 4 \<Longrightarrow> x \<noteq> P + a + 8 + n \<Longrightarrow> m' (adr x) = m (adr x)"
proof -
  let ?e = "P + a + 8 + n"
  have sum: "adr (P + a + 8) - adr P + m (adr (P + a + 8 - 4)) = adr (a + 8 + n)"
  proof -
    have "m (adr (P + a + 8 - 4)) = adr n" using t by simp
    moreover have "adr (P + a + 8) - adr P = adr (a + 8)" by (simp add: adr_diff)
    ultimately show ?thesis by (simp only: adr_add)
  qed
  have sz: "adr (P + a + 8) - adr P + ch_getSize m (adr (P + a + 8)) = adr (a + 8 + n)"
    using sum ch_simps(1) [of "P + a + 8" m] by simp
  have e: "adr (P - 4) \<noteq> adr ?e" using b P by (simp add: adr_eq)
  have ex: "8 + (P + (a + n)) = ?e" by simp
  have m': "m' = m(adr (P - 4) := adr (a + 8 + n), adr ?e := tw_set (m (adr ?e)) (adr (a + 8 + n)))"
    using P e unfolding m'_def ch_coalesce_def sz Let_def by (simp add: ch_simps ex)
  show "tags m' P ((a + 8 + n, g) # bs)"
    using t P b e size30 [OF b(2)] tw_bits by (simp add: m' tags_upd add.assoc)
  show "m' (adr x) = m (adr x)" if "x < 2 ^ 32" "x \<noteq> P - 4" "x \<noteq> P + a + 8 + n" for x
    using that b P by (simp add: m' adr_eq)
qed

lemma ch_mark_tags:
  assumes t: "tags m P ((n, f) # bs)" and P: "8 \<le> P" and b: "P + span ((n, f) # bs) < 2 ^ 32"
  shows "tags (ch_markFree (adr P) m) P ((n, True) # bs)" and "tags (ch_markInUse (adr P) m) P ((n, False) # bs)"
    and "\<And>x. x < 2 ^ 32 \<Longrightarrow> x \<noteq> P + n \<Longrightarrow> ch_markFree (adr P) m (adr x) = m (adr x)"
    and "\<And>x. x < 2 ^ 32 \<Longrightarrow> x \<noteq> P + n \<Longrightarrow> ch_markInUse (adr P) m (adr x) = m (adr x)"
proof -
  have "P - 4 \<noteq> P + n" using P by linarith
  then show "tags (ch_markFree (adr P) m) P ((n, True) # bs)" "tags (ch_markInUse (adr P) m) P ((n, False) # bs)"
    using t P b tw_bits by (simp_all add: ch_simps tags_upd adr_eq)
  show "ch_markFree (adr P) m (adr x) = m (adr x)" "ch_markInUse (adr P) m (adr x) = m (adr x)"
    if "x < 2 ^ 32" "x \<noteq> P + n" for x
    using that t P b by (simp_all add: ch_simps adr_eq)
qed

text \<open>Splitting the object at the front of a region.\<close>

lemma ch_split_tags:
  assumes t: "tags m P ((n, g) # bs)" and P: "8 \<le> P" and b: "P + span ((n, g) # bs) < 2 ^ 32" "n < 2 ^ 30"
    and s: "s + 16 \<le> n"
  shows "\<exists>m'. ch_split junk (adr P) (adr s) m = (Some (adr (P + s + 8)), m') \<and> tags m' P ((s, False) # (n - s - 8, g) # bs) \<and>
    (\<forall>x < 2 ^ 32. x \<notin> {P - 4, P + s, P + s + 4, P + n} \<longrightarrow> m' (adr x) = m (adr x))"
proof -
  let ?k = "n - s - 8"
  have sz: "ch_getSize m (adr P) = adr n" using t P by (simp add: ch_simps)
  have d: "adr n - adr s = adr (n - s)" "adr (n - s) - sizeof_Header = adr ?k" using s by (simp_all add: adr_diff sizeof_Header_def)
  have ge: "adr (n - s) \<ge> sizeof_Header + sizeof_double"
    using s b(2) by (simp add: word_le_nat_alt unat_adr sizeof_Header_def sizeof_double_def)
  have p: "adr P + adr s + sizeof_Header = adr (P + s + 8)" by (simp add: adr_add sizeof_Header_def)
  have h: "hdr_getHeader (adr (P + s + 8)) = adr (P + s)" by (simp add: hdr_getHeader_def sizeof_Header_def adr_diff)
  have e: "adr (P + s) + sizeof_Header + adr ?k = adr (P + n)" using s by (simp add: adr_add sizeof_Header_def)
  let ?w = "(junk AND 1) OR push_bit 2 (adr s) :: u32"
  define m' where "m' = m(adr (P - 4) := adr s, adr (P + s) := tw_inuse ?w, adr (P + s + 4) := adr ?k,
      adr (P + n) := tw_set (m (adr (P + n))) (adr ?k))"
  have ne: "adr (P + s) \<noteq> adr (P + s + 4)" "adr (P + s) \<noteq> adr (P + n)" "adr (P + s + 4) \<noteq> adr (P + n)"
    "adr (P - 4) \<noteq> adr (P + s)" "adr (P - 4) \<noteq> adr (P + n)" "adr (P - 4) \<noteq> adr (P + s + 4)"
    using s b P by (simp_all add: adr_eq)
  have "ch_split junk (adr P) (adr s) m = (Some (adr (P + s + 8)), m')"
    using P ge e ne unfolding ch_split_def sz Let_def d p h
    by (simp add: makeObject_def hdr_new_def ch_simps hdr_setPrevSize_def hdr_markPrevInUse_def Let_def adr_add m'_def
        tw_set_def tw_inuse_def hdr_PREV_FREE_def fun_upd_twist)
  moreover have "tw_size (tw_inuse ?w) = adr s"
  proof -
    have "tw_size ?w = take_bit 30 (adr s)" 
      unfolding tw_size_def by (rule bit_eqI) (auto simp: bit_or_iff bit_and_iff bit_drop_bit_eq bit_push_bit_iff
        bit_take_bit_iff bit_1_iff simp del: drop_bit_and drop_bit_or dest: bit_imp_le_length)
    then show ?thesis using size30 [of s] s b(2) by (simp add: tw_bits)
  qed
  moreover have "take_bit 30 (adr ?k) = adr ?k" using b(2) by (intro size30) simp
  ultimately show ?thesis using t P b s ne
    by (intro exI [of _ m']) (simp add: m'_def tags_upd tw_bits adr_eq)
qed

lemma ch_split_none:
  assumes t: "tags m P ((n, g) # bs)" and P: "8 \<le> P" and b: "n < 2 ^ 30" and s: "s \<le> n" "n < s + 16"
  shows "ch_split junk (adr P) (adr s) m = (None, m)"
proof -
  have "adr n - adr s = adr (n - s)" using s by (simp add: adr_diff)
  moreover have "\<not> adr (n - s) \<ge> sizeof_Header + sizeof_double"
    using s b by (simp add: word_le_nat_alt unat_adr sizeof_Header_def sizeof_double_def)
  ultimately show ?thesis using t P by (simp add: ch_split_def ch_simps)
qed

section \<open>User data\<close>

text \<open>The objects that are in use.\<close>

fun uses :: "nat \<Rightarrow> tagged \<Rightarrow> (nat \<times> nat) set" where
  "uses P [] = {}"
| "uses P ((n, f) # bs) = (if f then {} else {(P, n)}) \<union> uses (P + n + 8) bs"

lemma uses_append: "uses P (bs @ cs) = uses P bs \<union> uses (P + span bs) cs"
  by (induction P bs rule: uses.induct) (simp_all add: add.assoc Un_assoc)

lemma uses_range: "(Q, n) \<in> uses P bs \<Longrightarrow> P \<le> Q \<and> Q + n + 8 \<le> P + span bs"
  by (induction P bs rule: uses.induct) (auto split: if_splits)

lemma bodies_uses: "x \<in> bodies (uses P bs) \<Longrightarrow> P \<le> x \<and> x + 8 < P + span bs"
  by (auto simp: bodies_def dest!: uses_range)

lemma uses_apart: "8 \<le> P \<Longrightarrow> x \<in> bodies (uses P bs) \<Longrightarrow> x \<notin> bodies (frees P bs) \<and> x \<notin> tag_words P bs"
proof (induction P bs rule: uses.induct)
  case (2 P n f bs)
  let ?R = "P + n + 8"
  show ?case
  proof (cases "x \<in> bodies (uses ?R bs)")
    case True
    then have "?R \<le> x" "x \<notin> bodies (frees ?R bs)" "x \<notin> tag_words ?R bs" using 2 bodies_uses [of x ?R bs] by auto
    then show ?thesis using "2.prems" by auto
  next
    case False
    then have f: "\<not> f" "P \<le> x" "x < P + n" using "2.prems" by (auto split: if_splits)
    then have "x \<notin> bodies (frees ?R bs)" "x \<notin> tag_words ?R bs"
      using bodies_frees [of x ?R bs] tag_words_range [of x ?R bs] by auto
    then show ?thesis using f "2.prems" by auto
  qed
qed simp

lemma frees_True: "bodies (frees P (us @ (b, f) # vs)) \<subseteq> bodies (frees P (us @ (b, True) # vs))"
  by (auto simp: frees_append)

lemma frees_merge: "bodies (frees P (us @ (b, f) # (c, g) # vs)) \<subseteq> bodies (frees P (us @ (b + 8 + c, True) # vs))"
  by (auto simp: frees_append add.assoc)

lemma tag_words_flag: "tag_words P (us @ (b, f) # vs) = tag_words P (us @ (b, g) # vs)"
  by (simp add: tag_words_append)

text \<open>What is in use around an object.\<close>

definition around :: "nat \<Rightarrow> tagged \<Rightarrow> nat \<Rightarrow> tagged \<Rightarrow> nat set" where
  "around P us b vs = bodies (uses P us \<union> uses (P + span us + b + 8) vs)"

lemma around_apart:
  assumes "8 \<le> P" and "x \<in> around P us b vs"
  shows "x \<notin> bodies (frees P (us @ (b, f) # vs))" and "x \<notin> tag_words P (us @ (b, f) # vs)" and "x < P + span (us @ (b, f) # vs)"
proof -
  have "uses P (us @ (b, True) # vs) = uses P us \<union> uses (P + span us + b + 8) vs" by (simp add: uses_append)
  then have x: "x \<in> bodies (uses P (us @ (b, True) # vs))" using assms(2) by (simp only: around_def)
  then show "x \<notin> bodies (frees P (us @ (b, f) # vs))" "x \<notin> tag_words P (us @ (b, f) # vs)"
    using uses_apart [OF assms(1) x] frees_True [of P us b f vs] tag_words_flag [of P us b True vs f] by auto
  show "x < P + span (us @ (b, f) # vs)" using bodies_uses [OF x] by simp
qed

section \<open>The object store\<close>

text \<open>
  A region under the control of a coalescing heap over a store with the invariant \<open>sinv\<close>: the tags are right, the
  store holds exactly the free objects, and no two free objects are neighbours.
\<close>

definition coalesced :: "nat \<Rightarrow> ('h hstate \<Rightarrow> (nat \<times> nat) set \<Rightarrow> bool) \<Rightarrow> 'h hstate \<Rightarrow> nat \<Rightarrow> tagged \<Rightarrow> bool" where
  "coalesced least sinv st P bs \<longleftrightarrow> tags (snd st) P bs \<and> tagged_ok least P bs \<and> spread bs \<and> sinv st (frees P bs)"

text \<open>What becomes of an object of size \<open>n\<close> between the objects \<open>(a, fa)\<close> and \<open>(c, fc)\<close> when it is freed.\<close>

definition merged :: "nat \<times> bool \<Rightarrow> nat \<Rightarrow> nat \<times> bool \<Rightarrow> tagged" where
  "merged = (\<lambda>(a, fa) n (c, fc).
     let (xs, n) = (if fa then ([], a + 8 + n) else ([(a, False)], n));
         (ys, n) = (if fc then ([], n + 8 + c) else ([(c, False)], n))
     in xs @ (n, True) # ys)"

text \<open>The object that is handed out of a free object of size \<open>n\<close>, and what is split off.\<close>

definition split_off :: "nat \<Rightarrow> nat \<Rightarrow> tagged" where
  "split_off n s = (if s + 16 \<le> n then [(s, False), (n - s - 8, True)] else [(n, False)])"

text \<open>
  What \<open>CoalesceHeap\<close> needs of the layer below: a set of free objects, given as pairs of address and size,
  from which \<open>remove\<close> takes a given one and to which \<open>free\<close> adds one of at least the size \<open>least\<close> under the size in
  its header, and which changes memory inside its objects only.
\<close>

locale tag_store =
  fixes remove :: "u32 \<Rightarrow> 'h hstate \<Rightarrow> 'h hstate option"
    and free :: "u32 \<Rightarrow> 'h hstate \<Rightarrow> 'h hstate option"
    and least :: nat
    and inv :: "'h hstate \<Rightarrow> (nat \<times> nat) set \<Rightarrow> bool"
  assumes remove_law: "inv st F \<Longrightarrow> (P, n) \<in> F \<Longrightarrow> \<exists>st'. remove (adr P) st = Some st' \<and> inv st' (F - {(P, n)}) \<and>
      (\<forall>x < 2 ^ 32. x \<notin> bodies F \<longrightarrow> snd st' (adr x) = snd st (adr x))"
    and free_law: "inv st F \<Longrightarrow> 8 \<le> P \<Longrightarrow> least \<le> n \<Longrightarrow> P + n < 2 ^ 32 \<Longrightarrow> (\<And>k. (P, k) \<notin> F) \<Longrightarrow>
      {P ..< P + n} \<inter> bodies F = {} \<Longrightarrow> snd st (adr (P - 4)) = adr n \<Longrightarrow>
      \<exists>st'. free (adr P) st = Some st' \<and> inv st' (insert (P, n) F) \<and>
        (\<forall>x < 2 ^ 32. x \<notin> bodies (insert (P, n) F) \<longrightarrow> snd st' (adr x) = snd st (adr x))"
    and inv_frame: "inv (h, m) F \<Longrightarrow> (\<And>x. x \<in> bodies F \<Longrightarrow> m' (adr x) = m (adr x)) \<Longrightarrow> inv (h, m') F"
begin

text \<open>Two neighbours become one object, after one of them was taken out of the store.\<close>

lemma merge:
  assumes t: "tags m P (us @ (b, f) # (c, g) # vs)" and ok: "tagged_ok least P (us @ (b, f) # (c, g) # vs)"
    and i: "inv (h, m) F" and F: "F \<subseteq> frees P (us @ (b, f) # (c, g) # vs)" and r: "(R, k) \<in> F"
  defines "B \<equiv> P + span us"
  shows "\<exists>h' m1. remove (adr R) (h, m) = Some (h', m1) \<and>
    (let m' = ch_coalesce (adr B) (adr (B + b + 8)) m1 in
      tags m' P (us @ (b + 8 + c, g) # vs) \<and> tagged_ok least P (us @ (b + 8 + c, g) # vs) \<and> inv (h', m') (F - {(R, k)}) \<and>
      (\<forall>x \<in> around P us (b + 8 + c) vs. m' (adr x) = m (adr x)))"
proof -
  let ?old = "us @ (b, f) # (c, g) # vs" and ?new = "us @ (b + 8 + c, g) # vs"
  obtain h' m1 where r1: "remove (adr R) (h, m) = Some (h', m1)" "inv (h', m1) (F - {(R, k)})"
    "\<And>x. x < 2 ^ 32 \<Longrightarrow> x \<notin> bodies F \<Longrightarrow> m1 (adr x) = m (adr x)" using remove_law [OF i r] by fastforce
  have ok': "8 \<le> P" "P + span ?old < 2 ^ 32" "span ?old < 2 ^ 30" using ok by (simp_all add: tagged_ok_def)
  have bF: "bodies F \<subseteq> bodies (frees P ?old)" using F by (auto simp: bodies_def)
  have t1: "tags m1 P ?old"
  proof -
    have "m1 (adr x) = m (adr x)" if "x \<in> tag_words P ?old" for x
      using r1(3) tag_words_bound [OF ok that] tag_words_frees [OF ok'(1) that] bF by blast
    then show ?thesis using tags_frame t by blast
  qed
  let ?m = "ch_coalesce (adr B) (adr (B + b + 8)) m1"
  have tB: "tags m1 B ((b, f) # (c, g) # vs)" using t1 by (simp add: tags_append B_def)
  have BP: "8 \<le> B" "B + span ((b, f) # (c, g) # vs) < 2 ^ 32" "b + 8 + c < 2 ^ 30" using ok' by (simp_all add: B_def)
  note co = ch_coalesce_tags [OF tB BP]
  have us: "tags ?m P us"
  proof -
    have "?m (adr x) = m1 (adr x)" if "x \<in> tag_words P us" for x
      using tag_words_range [OF that] BP by (intro co(2)) (auto simp: B_def)
    then show ?thesis using tags_frame t1 by (metis tags_append)
  qed
  have new: "tags ?m P ?new" using us co(1) by (simp add: tags_append B_def)
  have w: "B - 4 \<in> tag_words P ?old" "B + b + 8 + c \<in> tag_words P ?old" "B - 4 \<in> tag_words P ?new" "B + b + 8 + c \<in> tag_words P ?new"
    by (simp_all add: tag_words_append B_def add_ac)
  have "inv (h', ?m) (F - {(R, k)})"
  proof (rule inv_frame [OF r1(2)])
    fix x assume "x \<in> bodies (F - {(R, k)})"
    then have "x \<in> bodies (frees P ?old)" using bF by (auto simp: bodies_def)
    then show "?m (adr x) = m1 (adr x)"
      using bodies_frees [of x P ?old] tag_words_frees [OF ok'(1) w(1)] tag_words_frees [OF ok'(1) w(2)] ok'(2)
      by (intro co(2)) auto
  qed
  moreover have "?m (adr x) = m (adr x)" if "x \<in> around P us (b + 8 + c) vs" for x
  proof -
    have x: "x \<notin> tag_words P ?new" "x \<notin> bodies (frees P (us @ (b + 8 + c, True) # vs))" "x < 2 ^ 32"
      using around_apart [OF ok'(1) that] ok'(2) by (auto simp: add_ac dest: less_trans)
    then have "x \<notin> bodies F" using bF frees_merge by blast
    moreover have "?m (adr x) = m1 (adr x)" using x(1,3) w(3,4) by (intro co(2)) auto
    ultimately show ?thesis using r1(3) x(3) by simp
  qed
  moreover have "tagged_ok least P ?new" using ok by (auto simp: tagged_ok_def add_ac)
  ultimately show ?thesis using r1(1) new by (auto simp: Let_def)
qed

text \<open>The object is marked and handed to the store.\<close>

lemma finish:
  assumes t: "tags m P (us @ (b, f) # vs)" and ok: "tagged_ok least P (us @ (b, f) # vs)"
    and i: "inv (h, m) (frees P us \<union> frees (P + span us + b + 8) vs)"
  defines "B \<equiv> P + span us"
  shows "\<exists>st'. free (adr B) (h, ch_markFree (adr B) m) = Some st' \<and> tags (snd st') P (us @ (b, True) # vs) \<and>
    tagged_ok least P (us @ (b, True) # vs) \<and> inv st' (frees P (us @ (b, True) # vs)) \<and>
    (\<forall>x \<in> around P us b vs. snd st' (adr x) = m (adr x))"
proof -
  let ?F = "frees P us \<union> frees (B + b + 8) vs" and ?new = "us @ (b, True) # vs" and ?m = "ch_markFree (adr B) m"
  have ok': "8 \<le> P" "P + span ?new < 2 ^ 32" "tagged_ok least P ?new" using ok by (simp_all add: tagged_ok_def)
  have tB: "tags m B ((b, f) # vs)" and BP: "8 \<le> B" "B + span ((b, f) # vs) < 2 ^ 32"
    using t ok' by (simp_all add: tags_append B_def)
  note ma = ch_mark_tags [OF tB BP]
  have wB: "B + b \<in> tag_words P ?new" by (simp add: tag_words_append B_def)
  have us: "tags ?m P us"
  proof -
    have "?m (adr x) = m (adr x)" if "x \<in> tag_words P us" for x
      using tag_words_range [OF that] BP by (intro ma(3)) (auto simp: B_def)
    then show ?thesis using tags_frame t by (metis tags_append)
  qed
  have new: "tags ?m P ?new" using us ma(1) by (simp add: tags_append B_def)
  have FF: "frees P ?new = insert (B, b) ?F" by (auto simp: frees_append B_def)
  have out: "x \<notin> bodies ?F" if "B - 8 \<le> x" "x \<le> B + b" for x
    using that bodies_frees [of x P us] bodies_frees [of x "B + b + 8" vs] BP by (auto simp: B_def)
  have i1: "inv (h, ?m) ?F"
  proof (rule inv_frame)
    show "inv (h, m) ?F" using i by (simp add: B_def)
    fix x assume x: "x \<in> bodies ?F"
    then have "x \<noteq> B + b" using out by auto
    moreover have "x \<in> bodies (frees P ?new)" using x by (simp add: FF)
    then have "x < 2 ^ 32" using bodies_frees [of x P ?new] ok'(2) by simp
    ultimately show "?m (adr x) = m (adr x)" by (intro ma(3))
  qed
  have "\<exists>st'. free (adr B) (h, ?m) = Some st' \<and> inv st' (insert (B, b) ?F) \<and>
      (\<forall>x < 2 ^ 32. x \<notin> bodies (insert (B, b) ?F) \<longrightarrow> snd st' (adr x) = snd (h, ?m) (adr x))"
  proof (rule free_law [OF i1 BP(1)])
    show "least \<le> b" using ok by (simp add: tagged_ok_def)
    show "B + b < 2 ^ 32" using BP(2) by simp
    show "(B, k) \<notin> ?F" for k using frees_range [of B k P us] frees_range [of B k "B + b + 8" vs] by (auto simp: B_def)
    show "{B ..< B + b} \<inter> bodies ?F = {}" using out by fastforce
    show "snd (h, ?m) (adr (B - 4)) = adr b" using ma(1) by simp
  qed
  then obtain st' where st: "free (adr B) (h, ?m) = Some st'" "inv st' (frees P ?new)"
    "\<And>x. x < 2 ^ 32 \<Longrightarrow> x \<notin> bodies (frees P ?new) \<Longrightarrow> snd st' (adr x) = ?m (adr x)" unfolding FF by auto
  have "tags (snd st') P ?new"
  proof -
    have "snd st' (adr x) = ?m (adr x)" if "x \<in> tag_words P ?new" for x
      using st(3) tag_words_bound [OF ok'(3) that] tag_words_frees [OF ok'(1) that] by blast
    then show ?thesis using tags_frame new by blast
  qed
  moreover have "snd st' (adr x) = m (adr x)" if "x \<in> around P us b vs" for x
  proof -
    have x: "x \<notin> tag_words P ?new" "x \<notin> bodies (frees P ?new)" "x < 2 ^ 32"
      using around_apart [OF ok'(1) that] ok'(2) by (auto dest: less_trans)
    then have "?m (adr x) = m (adr x)" using wB by (intro ma(3)) auto
    then show ?thesis using st(3) x by simp
  qed
  ultimately show ?thesis using st ok'(3) by blast
qed

text \<open>The second half of \<open>free\<close>: the next object is merged when it is free, and the result goes to the store.\<close>

lemma free_tail:
  assumes t: "tags m P (us @ (b, False) # (c, fc) # ys)" and ok: "tagged_ok least P (us @ (b, False) # (c, fc) # ys)"
    and i: "inv (h, m) (frees P us \<union> frees (P + span us + b + 8) ((c, fc) # ys))"
  defines "B \<equiv> P + span us" and "new \<equiv> us @ (if fc then (b + 8 + c, True) # ys else (b, True) # (c, False) # ys)"
  shows "\<exists>st'. Option.bind
      (if ch_isFree m (adr (B + b + 8))
       then map_option (\<lambda>(h, m). (h, ch_coalesce (adr B) (adr (B + b + 8)) m)) (remove (adr (B + b + 8)) (h, m))
       else Some (h, m))
      (\<lambda>(h, m). free (adr B) (h, ch_markFree (adr B) m)) = Some st' \<and>
    tags (snd st') P new \<and> tagged_ok least P new \<and> inv st' (frees P new) \<and>
    (\<forall>x \<in> bodies (uses P new). snd st' (adr x) = m (adr x))"
proof -
  let ?C = "B + b + 8"
  have P: "8 \<le> P" using ok by (simp add: tagged_ok_def)
  have "tags m ?C ((c, fc) # ys)" using t by (simp add: tags_append B_def)
  then have fc: "ch_isFree m (adr ?C) = fc" using P by (simp add: ch_simps)
  show ?thesis
  proof (cases fc)
    case False
    have u: "uses P new = uses P us \<union> uses ?C ((c, False) # ys)" using False by (simp add: new_def uses_append B_def)
    from finish [OF t ok i] show ?thesis using False fc unfolding u around_def B_def [symmetric] by (simp add: new_def)
  next
    case True
    then have T: "fc = True" by simp
    have r: "(?C, c) \<in> frees P us \<union> frees (P + span us + b + 8) ((c, True) # ys)" by (simp add: B_def)
    have F: "frees P us \<union> frees (P + span us + b + 8) ((c, True) # ys) \<subseteq> frees P (us @ (b, False) # (c, True) # ys)"
      by (auto simp: frees_append)
    obtain h' m1 where 1: "remove (adr ?C) (h, m) = Some (h', m1)"
      "let m' = ch_coalesce (adr B) (adr ?C) m1 in
        tags m' P (us @ (b + 8 + c, True) # ys) \<and> tagged_ok least P (us @ (b + 8 + c, True) # ys) \<and>
        inv (h', m') (frees P us \<union> frees (P + span us + b + 8) ((c, True) # ys) - {(?C, c)}) \<and>
        (\<forall>x \<in> around P us (b + 8 + c) ys. m' (adr x) = m (adr x))"
      using merge [OF t [unfolded T] ok [unfolded T] i [unfolded T] F r] unfolding B_def by blast
    let ?m = "ch_coalesce (adr B) (adr ?C) m1"
    have "frees P us \<union> frees (P + span us + b + 8) ((c, True) # ys) - {(?C, c)} = frees P us \<union> frees (?C + c + 8) ys"
      using frees_range [of ?C c P us] frees_range [of ?C c "?C + c + 8" ys] by (auto simp: B_def)
    then have i2: "inv (h', ?m) (frees P us \<union> frees (P + span us + (b + 8 + c) + 8) ys)"
      using 1(2) by (simp add: Let_def B_def add_ac)
    have 2: "tags ?m P (us @ (b + 8 + c, True) # ys)" "tagged_ok least P (us @ (b + 8 + c, True) # ys)"
      "\<forall>x \<in> around P us (b + 8 + c) ys. ?m (adr x) = m (adr x)" using 1(2) by (simp_all add: Let_def)
    have u: "bodies (uses P new) = around P us (b + 8 + c) ys" using True by (simp add: new_def uses_append around_def)
    from finish [OF 2(1,2) i2] 2(3) show ?thesis using True fc 1(1) unfolding u B_def [symmetric] by (auto simp: new_def)
  qed
qed

text \<open>Freeing an object between two others.\<close>

lemma coalesce_free:
  assumes c: "coalesced least inv st P (xs @ (a, fa) # (n, False) # (c, fc) # ys)"
  shows "\<exists>st'. CoalesceHeap_free remove free (adr (P + span xs + a + 8)) st = Some st' \<and>
    coalesced least inv st' P (xs @ merged (a, fa) n (c, fc) @ ys) \<and>
    (\<forall>x \<in> bodies (uses P (xs @ merged (a, fa) n (c, fc) @ ys)). snd st' (adr x) = snd st (adr x))"
proof -
  obtain h m where st: "st = (h, m)" by (cases st)
  let ?bs = "xs @ (a, fa) # (n, False) # (c, fc) # ys"
  let ?A = "P + span xs" let ?B = "?A + a + 8" let ?C = "?B + n + 8"
  have t: "tags m P ?bs" and ok: "tagged_ok least P ?bs" and sp: "spread ?bs" and i: "inv (h, m) (frees P ?bs)"
    using c by (simp_all add: coalesced_def st)
  have P: "8 \<le> P" using ok by (simp add: tagged_ok_def)
  have tA: "tags m ?A ((a, fa) # (n, False) # (c, fc) # ys)" using t by (simp add: tags_append)
  have nav: "ch_getPrev m (adr ?B) = adr ?A" "ch_getNext m (adr ?A) = adr ?B" "ch_getNext m (adr ?B) = adr ?C"
    "ch_getPrev m (adr ?C) = adr ?B" "ch_isPrevFree m (adr ?B) = fa" "ch_isFree m (adr ?C) = fc"
    using tA P by (simp_all add: ch_simps add_ac)
  have spx: "spread (xs @ merged (a, fa) n (c, fc) @ ys)"
    using sp by (auto simp: merged_def spread_append spread_Cons simp del: spread.simps(1) split: if_splits)
  have free: "CoalesceHeap_free remove free (adr ?B) st =
      Option.bind (if fa then map_option (\<lambda>(h, m). (adr ?A, (h, ch_coalesce (adr ?A) (adr ?B) m))) (remove (adr ?A) (h, m))
                   else Some (adr ?B, (h, m)))
        (\<lambda>(ptr, st). Option.bind
           (if ch_isFree (snd st) (adr ?C)
            then map_option (\<lambda>(h, m). (h, ch_coalesce ptr (adr ?C) m)) (remove (adr ?C) st) else Some st)
           (\<lambda>(h, m). free ptr (h, ch_markFree ptr m)))"
    unfolding CoalesceHeap_free_def st snd_conv nav(1,3) nav(2,4) Let_def nav(5) by (simp only: simp_thms if_False)
  show ?thesis
  proof (cases fa)
    case False
    have t1: "tags m P ((xs @ [(a, False)]) @ (n, False) # (c, fc) # ys)"
      and ok1: "tagged_ok least P ((xs @ [(a, False)]) @ (n, False) # (c, fc) # ys)" using t ok False by simp_all
    have i1: "inv (h, m) (frees P (xs @ [(a, False)]) \<union> frees (P + span (xs @ [(a, False)]) + n + 8) ((c, fc) # ys))"
      using i False by (simp add: frees_append add_ac)
    have new: "xs @ merged (a, fa) n (c, fc) @ ys = (xs @ [(a, False)]) @ (if fc then (n + 8 + c, True) # ys else (n, True) # (c, False) # ys)"
      using False by (simp add: merged_def)
    have B: "P + span (xs @ [(a, False)]) = ?B" by simp
    from free_tail [OF t1 ok1 i1] show ?thesis using False spx unfolding coalesced_def free new B by (simp add: st)
  next
    case True
    have r: "(?A, a) \<in> frees P ?bs" using True by (simp add: frees_append)
    obtain h' m1 where 1: "remove (adr ?A) (h, m) = Some (h', m1)"
      "let m' = ch_coalesce (adr ?A) (adr ?B) m1 in
        tags m' P (xs @ (a + 8 + n, False) # (c, fc) # ys) \<and> tagged_ok least P (xs @ (a + 8 + n, False) # (c, fc) # ys) \<and>
        inv (h', m') (frees P ?bs - {(?A, a)}) \<and> (\<forall>x \<in> around P xs (a + 8 + n) ((c, fc) # ys). m' (adr x) = m (adr x))"
      using merge [OF t ok i subset_refl r] by blast
    let ?m = "ch_coalesce (adr ?A) (adr ?B) m1"
    have "frees P ?bs - {(?A, a)} = frees P xs \<union> frees ?C ((c, fc) # ys)"
      using frees_range [of ?A a P xs] frees_range [of ?A a ?C "(c, fc) # ys"] True by (auto simp: frees_append)
    then have i1: "inv (h', ?m) (frees P xs \<union> frees (P + span xs + (a + 8 + n) + 8) ((c, fc) # ys))"
      using 1(2) by (simp add: Let_def add_ac)
    have 2: "tags ?m P (xs @ (a + 8 + n, False) # (c, fc) # ys)" "tagged_ok least P (xs @ (a + 8 + n, False) # (c, fc) # ys)"
      "\<forall>x \<in> around P xs (a + 8 + n) ((c, fc) # ys). ?m (adr x) = m (adr x)" using 1(2) by (simp_all add: Let_def)
    let ?new = "xs @ (if fc then (a + 8 + n + 8 + c, True) # ys else (a + 8 + n, True) # (c, False) # ys)"
    have new: "xs @ merged (a, fa) n (c, fc) @ ys = ?new" using True by (simp add: merged_def)
    have C: "P + span xs + (a + 8 + n) + 8 = ?C" by simp
    obtain st' where 3: "Option.bind
        (if ch_isFree ?m (adr ?C) then map_option (\<lambda>(h, m). (h, ch_coalesce (adr ?A) (adr ?C) m)) (remove (adr ?C) (h', ?m))
         else Some (h', ?m)) (\<lambda>(h, m). free (adr ?A) (h, ch_markFree (adr ?A) m)) = Some st'"
      "tags (snd st') P ?new" "tagged_ok least P ?new" "inv st' (frees P ?new)"
      "\<forall>x \<in> bodies (uses P ?new). snd st' (adr x) = ?m (adr x)"
      using free_tail [OF 2(1,2) i1] unfolding C by blast
    have "bodies (uses P ?new) \<subseteq> around P xs (a + 8 + n) ((c, fc) # ys)"
      by (auto simp: uses_append around_def bodies_def add_ac)
    then have "\<forall>x \<in> bodies (uses P ?new). snd st' (adr x) = m (adr x)" using 3(5) 2(3) by auto
    then show ?thesis using True spx 1(1) 3 unfolding coalesced_def free new by (simp add: st)
  qed
qed

end

text \<open>A store that also hands out a free object that is large enough, or nothing.\<close>

locale tag_heap = tag_store remove free least inv
  for remove :: "u32 \<Rightarrow> 'h hstate \<Rightarrow> 'h hstate option"
    and free :: "u32 \<Rightarrow> 'h hstate \<Rightarrow> 'h hstate option"
    and least :: nat
    and inv :: "'h hstate \<Rightarrow> (nat \<times> nat) set \<Rightarrow> bool" +
  fixes malloc :: "u32 \<Rightarrow> 'h hstate \<Rightarrow> (u32 \<times> 'h hstate) option"
  assumes malloc_law: "inv st F \<Longrightarrow> \<exists>p st'. malloc sz st = Some (p, st') \<and>
      (\<forall>x < 2 ^ 32. x \<notin> bodies F \<longrightarrow> snd st' (adr x) = snd st (adr x)) \<and>
      (if p = 0 then inv st' F else \<exists>P n. p = adr P \<and> (P, n) \<in> F \<and> unat sz \<le> n \<and> inv st' (F - {(P, n)}))"
begin

lemma frees_split:
  "(Q, n) \<in> frees P bs \<Longrightarrow> \<exists>us vs. bs = us @ (n, True) # vs \<and> Q = P + span us"
proof (induction P bs rule: frees.induct)
  case (2 P k f bs)
  show ?case
  proof (cases "(Q, n) \<in> frees (P + k + 8) bs")
    case True
    then obtain us vs where "bs = us @ (n, True) # vs" "Q = P + k + 8 + span us" using 2(1) by blast
    then show ?thesis by (intro exI [of _ "(k, f) # us"] exI [of _ vs]) simp
  next
    case False
    then show ?thesis using 2(2) by (intro exI [of _ "[]"] exI [of _ bs]) (auto split: if_splits)
  qed
qed simp

text \<open>An allocation takes a free object, and frees what it can split off.\<close>

lemma coalesce_malloc:
  assumes c: "coalesced least inv st P bs" and s: "8 dvd unat sz" "least \<le> unat sz"
    and rest: "\<And>n. (n, True) \<in> set bs \<Longrightarrow> unat sz + 16 \<le> n \<Longrightarrow> unat sz + 8 + least \<le> n"
  shows "\<exists>p st'. CoalesceHeap_malloc malloc free junk sz st = Some (p, st') \<and>
    (if p = 0 then coalesced least inv st' P bs \<and> (\<forall>x \<in> bodies (uses P bs). snd st' (adr x) = snd st (adr x))
     else \<exists>us n vs. bs = us @ (n, True) # vs \<and> unat sz \<le> n \<and> p = adr (P + span us) \<and>
       coalesced least inv st' P (us @ split_off n (unat sz) @ vs) \<and>
       (\<forall>x \<in> bodies (uses P bs). snd st' (adr x) = snd st (adr x)))"
proof -
  obtain h m where st: "st = (h, m)" by (cases st)
  have t: "tags m P bs" and ok: "tagged_ok least P bs" and sp: "spread bs" and i: "inv (h, m) (frees P bs)"
    using c by (simp_all add: coalesced_def st)
  have P: "8 \<le> P" "P + span bs < 2 ^ 32" "span bs < 2 ^ 30" using ok by (simp_all add: tagged_ok_def)
  obtain p h' m1 where 1: "malloc sz (h, m) = Some (p, (h', m1))"
    "\<And>x. x < 2 ^ 32 \<Longrightarrow> x \<notin> bodies (frees P bs) \<Longrightarrow> m1 (adr x) = m (adr x)"
    "if p = 0 then inv (h', m1) (frees P bs)
     else \<exists>R n. p = adr R \<and> (R, n) \<in> frees P bs \<and> unat sz \<le> n \<and> inv (h', m1) (frees P bs - {(R, n)})"
    using malloc_law [OF i, of sz] by fastforce
  have t1: "tags m1 P bs"
  proof -
    have "m1 (adr x) = m (adr x)" if "x \<in> tag_words P bs" for x
      using 1(2) tag_words_bound [OF ok that] tag_words_frees [OF P(1) that] by blast
    then show ?thesis using tags_frame t by blast
  qed
  have u1: "m1 (adr x) = m (adr x)" if "x \<in> bodies (uses P bs)" for x
    using 1(2) uses_apart [OF P(1) that] bodies_uses [OF that] P(2) by simp
  show ?thesis
  proof (cases "p = 0")
    case True
    then have "CoalesceHeap_malloc malloc free junk sz st = Some (0, (h', m1))" using 1(1) by (simp add: CoalesceHeap_malloc_def st)
    moreover have "coalesced least inv (h', m1) P bs" using True 1(3) t1 ok sp by (simp add: coalesced_def)
    ultimately show ?thesis using u1 by (intro exI [of _ 0] exI [of _ "(h', m1)"]) (simp add: st)
  next
    case False
    then obtain R n where R: "p = adr R" "(R, n) \<in> frees P bs" "unat sz \<le> n" "inv (h', m1) (frees P bs - {(R, n)})"
      using 1(3) by auto
    obtain us vs where bs: "bs = us @ (n, True) # vs" and RP: "R = P + span us" using frees_split [OF R(2)] by blast
    let ?s = "unat sz"
    have sz: "sz = adr ?s" by (simp add: adr_def)
    have tR: "tags m1 R ((n, True) # vs)" using t1 by (simp add: bs tags_append RP)
    have RB: "8 \<le> R" "R + span ((n, True) # vs) < 2 ^ 32" "n < 2 ^ 30" using P by (simp_all add: bs RP)
    note ma = ch_mark_tags [OF tR RB(1,2)]
    let ?m = "ch_markInUse (adr R) m1"
    have us: "tags m2 P us" if "\<And>x. x < 2 ^ 32 \<Longrightarrow> x < R - 4 \<Longrightarrow> m2 (adr x) = m1 (adr x)" for m2
    proof -
      have "m2 (adr x) = m1 (adr x)" if "x \<in> tag_words P us" for x
        using tag_words_range [OF that] RB \<open>\<And>x. x < 2 ^ 32 \<Longrightarrow> x < R - 4 \<Longrightarrow> m2 (adr x) = m1 (adr x)\<close> by (auto simp: RP)
      then show ?thesis using tags_frame t1 by (metis tags_append bs)
    qed
    have FF: "frees P bs - {(R, n)} = frees P us \<union> frees (R + n + 8) vs"
      using frees_range [of R n P us] frees_range [of R n "R + n + 8" vs] by (auto simp: bs frees_append RP)
    have i2: "inv (h', m2) (frees P us \<union> frees (R + n + 8) vs)"
      if "\<And>x. x < 2 ^ 32 \<Longrightarrow> x < R - 4 \<or> R + n < x \<Longrightarrow> m2 (adr x) = m1 (adr x)" for m2
    proof (rule inv_frame [OF R(4) [unfolded FF]])
      fix x assume "x \<in> bodies (frees P us \<union> frees (R + n + 8) vs)"
      then have "x < R - 4 \<or> R + n < x" "x < 2 ^ 32"
        using bodies_frees [of x P us] bodies_frees [of x "R + n + 8" vs] RB by (auto simp: RP)
      then show "m2 (adr x) = m1 (adr x)" using that by blast
    qed
    have ab: "x < 2 ^ 32 \<and> (x < R - 4 \<or> R + n < x)" if "x \<in> bodies (uses P bs)" for x
      using that bodies_uses [of x P us] bodies_uses [of x "R + n + 8" vs] RB by (auto simp: bs uses_append RP)
    show ?thesis
    proof (cases "?s + 16 \<le> n")
      case False
      have "ch_split junk p sz ?m = (None, ?m)" using ch_split_none [OF ma(2) RB(1,3) R(3)] False sz R(1) by simp
      then have "CoalesceHeap_malloc malloc free junk sz st = Some (p, (h', ?m))"
        using 1(1) \<open>p \<noteq> 0\<close> R(1) by (simp add: CoalesceHeap_malloc_def st Let_def)
      moreover have fr: "?m (adr x) = m1 (adr x)" if "x < 2 ^ 32" "x < R - 4 \<or> R + n < x" for x
        using that by (intro ma(4)) auto
      moreover have "coalesced least inv (h', ?m) P (us @ split_off n ?s @ vs)"
        using False us [of ?m] i2 [of ?m] fr ma(2) ok sp RP
        by (auto simp: coalesced_def split_off_def tags_append frees_append tagged_ok_def bs spread_append spread_Cons
            simp del: spread.simps(1))
      ultimately show ?thesis using R bs RP u1 ab \<open>p \<noteq> 0\<close> by (intro exI [of _ p] exI [of _ "(h', ?m)"]) (auto simp: st)
    next
      case True
      obtain m2 where m2: "ch_split junk (adr R) (adr ?s) ?m = (Some (adr (R + ?s + 8)), m2)"
        "tags m2 R ((?s, False) # (n - ?s - 8, False) # vs)"
        "\<And>x. x < 2 ^ 32 \<Longrightarrow> x \<notin> {R - 4, R + ?s, R + ?s + 4, R + n} \<Longrightarrow> m2 (adr x) = ?m (adr x)"
        using ch_split_tags [OF ma(2) RB(1) _ RB(3) True, of junk] RB(2) by auto
      have fr: "m2 (adr x) = m1 (adr x)" if "x < 2 ^ 32" "x < R - 4 \<or> R + n < x" for x
      proof -
        have "m2 (adr x) = ?m (adr x)" using that True by (intro m2(3)) auto
        also have "\<dots> = m1 (adr x)" using that by (intro ma(4)) auto
        finally show ?thesis .
      qed
      let ?us = "us @ [(?s, False)]"
      have t2: "tags m2 P (?us @ (n - ?s - 8, False) # vs)" using us [of m2] fr m2(2) by (simp add: tags_append RP)
      have "?s + 8 + least \<le> n" using rest [of n] True by (simp add: bs)
      then have ok2: "tagged_ok least P (?us @ (n - ?s - 8, False) # vs)"
        using ok s True by (auto simp: tagged_ok_def bs dvd_diff_nat)
      have e: "P + span ?us = R + ?s + 8" "R + ?s + 8 + (n - ?s - 8) + 8 = R + n + 8" using True by (simp_all add: RP)
      have i3: "inv (h', m2) (frees P ?us \<union> frees (P + span ?us + (n - ?s - 8) + 8) vs)"
        using i2 [of m2] fr unfolding e by (simp add: frees_append)
      obtain st' where st': "free (adr (R + ?s + 8)) (h', ch_markFree (adr (R + ?s + 8)) m2) = Some st'"
        "tags (snd st') P (?us @ (n - ?s - 8, True) # vs)" "tagged_ok least P (?us @ (n - ?s - 8, True) # vs)"
        "inv st' (frees P (?us @ (n - ?s - 8, True) # vs))"
        "\<forall>x \<in> around P ?us (n - ?s - 8) vs. snd st' (adr x) = m2 (adr x)" using finish [OF t2 ok2 i3] unfolding e by blast
      have L: "us @ split_off n ?s @ vs = ?us @ (n - ?s - 8, True) # vs" using True by (simp add: split_off_def)
      have "CoalesceHeap_malloc malloc free junk sz st = Some (p, st')"
        using 1(1) \<open>p \<noteq> 0\<close> R(1) m2(1) st'(1) sz by (simp add: CoalesceHeap_malloc_def st Let_def)
      moreover have "spread (?us @ (n - ?s - 8, True) # vs)" using sp
        by (auto simp: bs spread_append spread_Cons simp del: spread.simps(1))
      then have "coalesced least inv st' P (us @ split_off n ?s @ vs)" using st' unfolding L coalesced_def by blast
      moreover have "snd st' (adr x) = m (adr x)" if "x \<in> bodies (uses P bs)" for x
      proof -
        have "x \<in> around P ?us (n - ?s - 8) vs"
          using that unfolding around_def e by (auto simp: bs uses_append RP bodies_def)
        then show ?thesis using st'(5) fr ab [OF that] u1 [OF that] by simp
      qed
      ultimately show ?thesis using R bs RP \<open>p \<noteq> 0\<close> by (intro exI [of _ p] exI [of _ st']) (auto simp: st)
    qed
  qed
qed

end

section \<open>\<open>CartesianHeap\<close> as the store\<close>

text \<open>
  The operations of \<open>CartesianHeap\<close> over a super heap that has no more memory; the size of an object is the one in
  its header. Its nodes, of 24 bytes, live in the free objects.
\<close>

definition cart_remove :: "u32 \<Rightarrow> cheap hstate \<Rightarrow> cheap hstate option" where
  "cart_remove p = (\<lambda>(t, m). map_option (\<lambda>(t, _). (t, m)) (CartesianHeap_remove (unat p) (t, ())))"

definition cart_free :: "u32 \<Rightarrow> cheap hstate \<Rightarrow> cheap hstate option" where
  "cart_free p = (\<lambda>(t, m). map_option (\<lambda>(t, _). (t, m)) (CartesianHeap_free (\<lambda>a. ch_getSize m (adr a)) (unat p) (t, ())))"

definition cart_malloc :: "u32 \<Rightarrow> cheap hstate \<Rightarrow> (u32 \<times> cheap hstate) option" where
  "cart_malloc sz = (\<lambda>(t, m). map_option (\<lambda>(p, t, _). (adr p, (t, m))) (CartesianHeap_malloc (\<lambda>_ h. (0, h)) sz (t, ())))"

definition cart_inv :: "cheap hstate \<Rightarrow> (nat \<times> nat) set \<Rightarrow> bool" where
  "cart_inv = (\<lambda>(t, m) F. \<exists>ns. treap_ok t ns \<and> set ns = fst ` F \<and>
     (\<forall>(P, n) \<in> F. 8 \<le> P \<and> P + n < 2 ^ 32 \<and> tkey t P = adr n \<and> tn_value (tr_node t P) = P))"

lemma cart_inv_size: "cart_inv (t, m) F \<Longrightarrow> (P, n) \<in> F \<Longrightarrow> n = unat (tkey t P) \<and> 8 \<le> P \<and> P + n < 2 ^ 32 \<and> tn_value (tr_node t P) = P"
  by (auto simp: cart_inv_def unat_adr)

lemma cart_inv_take:
  assumes i: "cart_inv (t, m) F" and ok: "treap_ok t ns" "set ns = fst ` F" and P: "(P, n) \<in> F"
    and t': "treap_ok t' (remove1 P ns)" "same_data t' t"
  shows "cart_inv (t', m) (F - {(P, n)})"
proof -
  have "(Q, k) \<in> F - {(P, n)} \<Longrightarrow> Q \<noteq> P" for Q k using cart_inv_size [OF i] P by auto
  then have "fst ` (F - {(P, n)}) = fst ` F - {P}" by force
  moreover have "distinct ns" using ok by (simp add: treap_ok_def)
  ultimately have "set (remove1 P ns) = fst ` (F - {(P, n)})" using ok(2) by (simp add: set_remove1_eq)
  moreover have "tkey t' Q = tkey t Q" "tn_value (tr_node t' Q) = tn_value (tr_node t Q)" for Q
    using t'(2) by (auto simp: same_data_def)
  ultimately show ?thesis using t'(1) i unfolding cart_inv_def by (auto intro!: exI [of _ "remove1 P ns"])
qed

interpretation cart: tag_heap cart_remove cart_free 24 cart_inv cart_malloc
proof
  fix st F P n
  assume i: "cart_inv st F" and P: "(P, n) \<in> F"
  obtain t m where st: "st = (t, m)" by (cases st)
  obtain ns where ns: "treap_ok t ns" "set ns = fst ` F" using i by (auto simp: cart_inv_def st)
  have "P \<in> fst ` F" using P by force
  then have Pn: "P \<in> set ns" "unat (adr P) = P" using ns(2) cart_inv_size [OF i [unfolded st] P] by (auto simp: unat_adr)
  obtain t' where t': "treap_remove P t = Some (P, t')" "treap_ok t' (remove1 P ns)" "same_data t' t"
    using treap_remove_spec [OF ns(1) Pn(1)] by blast
  show "\<exists>st'. cart_remove (adr P) st = Some st' \<and> cart_inv st' (F - {(P, n)}) \<and>
      (\<forall>x < 2 ^ 32. x \<notin> bodies F \<longrightarrow> snd st' (adr x) = snd st (adr x))"
    using cart_inv_take [OF i [unfolded st] ns P t'(2,3)] t'(1) Pn(2)
    by (intro exI [of _ "(t', m)"]) (simp add: cart_remove_def CartesianHeap_remove_def st)
next
  fix st F P n
  assume i: "cart_inv st F" and P: "8 \<le> P" "P + n < 2 ^ 32" "\<And>k. (P, k) \<notin> F" "snd st (adr (P - 4)) = adr n"
  obtain t m where st: "st = (t, m)" by (cases st)
  obtain ns where ns: "treap_ok t ns" "set ns = fst ` F" using i by (auto simp: cart_inv_def st)
  have Pn: "P \<notin> set ns" "unat (adr P) = P" "P \<noteq> 0" using P ns(2) by (auto simp: unat_adr)
  have sz: "ch_getSize m (adr P) = adr n" using P by (simp add: ch_simps st)
  let ?ns = "takeWhile (\<lambda>b. tkey t b \<le> adr n) ns @ P # dropWhile (\<lambda>b. tkey t b \<le> adr n) ns"
  obtain t' where t': "treap_insert P (adr n) P (of_nat P) t = Some t'" "treap_ok t' ?ns"
    "tkey t' = (tkey t)(P := adr n)" "(\<lambda>x. tn_value (tr_node t' x)) = (\<lambda>x. tn_value (tr_node t x))(P := P)"
    using treap_insert_spec [OF ns(1) Pn(3,1), of "adr n" P "of_nat P"] by blast
  have v: "tn_value (tr_node t' Q) = (if Q = P then P else tn_value (tr_node t Q))" for Q using fun_cong [OF t'(4)] by simp
  have kx: "tkey t' Q = (if Q = P then adr n else tkey t Q)" for Q using fun_cong [OF t'(3)] by simp
  have "set ?ns = insert P (set ns)" by (metis Un_insert_right list.simps(15) set_append takeWhile_dropWhile_id)
  then have ss: "set ?ns = fst ` insert (P, n) F" using ns(2) by simp
  have F: "\<forall>(Q, k) \<in> F. 8 \<le> Q \<and> Q + k < 2 ^ 32 \<and> tkey t Q = adr k \<and> tn_value (tr_node t Q) = Q"
    using i by (auto simp: cart_inv_def st)
  then have "\<forall>(Q, k) \<in> insert (P, n) F. 8 \<le> Q \<and> Q + k < 2 ^ 32 \<and> tkey t' Q = adr k \<and> tn_value (tr_node t' Q) = Q"
    using P(1-3) by (auto simp: kx v)
  then have "cart_inv (t', m) (insert (P, n) F)"
    using t'(2) ss unfolding cart_inv_def by blast
  then show "\<exists>st'. cart_free (adr P) st = Some st' \<and> cart_inv st' (insert (P, n) F) \<and>
      (\<forall>x < 2 ^ 32. x \<notin> bodies (insert (P, n) F) \<longrightarrow> snd st' (adr x) = snd st (adr x))"
    using t'(1) Pn(2) by (intro exI [of _ "(t', m)"]) (simp add: cart_free_def CartesianHeap_free_def st sz)
next
  fix h m F m'
  assume "cart_inv (h, m) F"
  then show "cart_inv (h, m') F" by (simp add: cart_inv_def)
next
  fix st F sz
  assume i: "cart_inv st F"
  obtain t m where st: "st = (t, m)" by (cases st)
  obtain ns where ns: "treap_ok t ns" "set ns = fst ` F" using i by (auto simp: cart_inv_def st)
  note sz' = cart_inv_size [OF i [unfolded st]]
  have z: "0 \<notin> set ns" "\<forall>n \<in> set ns. tn_value (tr_node t n) = n" using ns(2) sz' by fastforce+
  obtain n where n: "lookupGreater (max sizeof_Node sz) t = Some n" "best_fit (tkey t) (set ns) (max sizeof_Node sz) n"
    using lookupGreater_spec [OF ns(1)] by blast
  have mx: "(if sz < sizeof_Node then sizeof_Node else sz) = max sizeof_Node sz" by (auto simp: max_def not_less)
  show "\<exists>p st'. cart_malloc sz st = Some (p, st') \<and> (\<forall>x < 2 ^ 32. x \<notin> bodies F \<longrightarrow> snd st' (adr x) = snd st (adr x)) \<and>
      (if p = 0 then cart_inv st' F else \<exists>P n. p = adr P \<and> (P, n) \<in> F \<and> unat sz \<le> n \<and> cart_inv st' (F - {(P, n)}))"
  proof (cases "n = 0")
    case True
    then show ?thesis using n(1) i
      by (intro exI [of _ 0] exI [of _ st]) (simp add: cart_malloc_def CartesianHeap_malloc_def Let_def mx st adr_def)
  next
    case False
    then have nn: "n \<in> set ns" "max sizeof_Node sz \<le> tkey t n" using n(2) by (auto simp: best_fit_def)
    then obtain k where k: "(n, k) \<in> F" using ns(2) by auto
    obtain t' where t': "treap_remove n t = Some (n, t')" "treap_ok t' (remove1 n ns)" "same_data t' t"
      using treap_remove_spec [OF ns(1) nn(1)] by blast
    have c: "cart_malloc sz st = Some (adr n, (t', m))"
      using n(1) False t'(1) z(2) nn(1) by (simp add: cart_malloc_def CartesianHeap_malloc_def Let_def mx st)
    have k': "k = unat (tkey t n)" "8 \<le> n" "n + k < 2 ^ 32" using sz' [OF k] by simp_all
    then have "adr n \<noteq> 0" using adr_eq [of n 0] by (simp add: adr_def)
    moreover have "sz \<le> tkey t n" using nn(2) by (metis max.bounded_iff)
    then have "unat sz \<le> k" using k'(1) by (simp add: word_le_nat_alt)
    moreover have "cart_inv (t', m) (F - {(n, k)})" by (rule cart_inv_take [OF i [unfolded st] ns k t'(2,3)])
    ultimately show ?thesis using c k by (intro exI [of _ "adr n"] exI [of _ "(t', m)"]) (auto simp: st)
  qed
qed

section \<open>Properties\<close>


text \<open>Three objects of 24 bytes, the third of which is free.\<close>

definition three_objects :: "cheap hstate" where
  "three_objects = (\<lparr>tr_root = 72, tr_node = nil_store(72 := Node_new 72 24 72 0)\<rparr>,
     (\<lambda>_. 0)(4 := 24, 32 := 96, 36 := 24, 64 := 96, 68 := 24, 96 := 97))"

lemma three_objects_ok: "coalesced 24 cart_inv three_objects 8 [(24, False), (24, False), (24, True)]"
proof -
  have "treap_ok (fst three_objects) [72]"
    by (auto simp: treap_ok_def three_objects_def Node_new_def intro!: exI [of _ "Node Leaf 72 Leaf"])
  then show ?thesis
    by (auto simp: coalesced_def three_objects_def tagged_ok_def cart_inv_def adr_def tw_size_def Node_new_def
        intro!: exI [of _ "[72]"])
qed




end
