(* ===== verification/Hl_Util.thy ===== *)
theory Hl_Util
  imports Grace_Prelude
begin

text \<open>
  The containers of \<open>heaplayers/util\<close>: the growing array of \<open>dynarray.h\<close>, the list of \<open>mylist.h\<close> and the hash
  table of \<open>myhashmap.h\<close> with the hash functions of \<open>hash.h\<close>. Nodes live in a store that maps the address of an
  allocated node to the node; an access to any other address is undefined, which is the result \<open>None\<close>. The
  allocator is a parameter, a function of the store.
\<close>

section \<open>Hash functions\<close>

text \<open>The instances of \<open>hash\<close> for \<open>void *\<close>, \<open>size_t\<close> and \<open>int\<close> are conversions to \<open>size_t\<close>.\<close>

definition hash_ptr :: "u32 \<Rightarrow> u32" where "hash_ptr v = v"
definition hash_size_t :: "u32 \<Rightarrow> u32" where "hash_size_t v = v"
definition hash_int :: "int \<Rightarrow> u32" where "hash_int v = word_of_int v"

section \<open>\<open>MyHashMap\<close>\<close>

record ('k, 'v) lnode =
  ln_key :: 'k
  ln_value :: 'v
  ln_next :: nat

type_synonym ('k, 'v) nodes = "nat \<Rightarrow> ('k, 'v) lnode option"

record ('k, 'v) hashmap =
  hm_bins :: "nat list"
  hm_nodes :: "('k, 'v) nodes"

definition INITIAL_NUM_BINS :: nat where "INITIAL_NUM_BINS = 511"

definition hm_new :: "nat \<Rightarrow> ('k, 'v) hashmap" where
  "hm_new num_bins = \<lparr>hm_bins = replicate num_bins 0, hm_nodes = (\<lambda>_. None)\<rparr>"

definition hm_index :: "('k \<Rightarrow> u32) \<Rightarrow> ('k, 'v) hashmap \<Rightarrow> 'k \<Rightarrow> nat" where
  "hm_index hash h k = unat (hash k) mod length (hm_bins h)"

text \<open>The loop along a bin; the result 0 is the end of the list.\<close>

partial_function (option) hm_search :: "('k, 'v) nodes \<Rightarrow> 'k \<Rightarrow> nat \<Rightarrow> nat option" where
  "hm_search N k l =
     (if l = 0 then Some 0
      else Option.bind (N l) (\<lambda>n. if ln_key n = k then Some l else hm_search N k (ln_next n)))"

definition hm_insert ::
  "(('k, 'v) nodes \<Rightarrow> nat) \<Rightarrow> ('k \<Rightarrow> u32) \<Rightarrow> 'k \<Rightarrow> 'v \<Rightarrow> ('k, 'v) hashmap \<Rightarrow> ('k, 'v) hashmap option" where
  "hm_insert alloc hash k v h =
     (let binIndex = hm_index hash h k;
          l = alloc (hm_nodes h)
      in if l = 0 then None
         else Some \<lparr>hm_bins = (hm_bins h)[binIndex := l],
                    hm_nodes = (hm_nodes h)(l \<mapsto> \<lparr>ln_key = k, ln_value = v, ln_next = hm_bins h ! binIndex\<rparr>)\<rparr>)"

definition hm_set ::
  "(('k, 'v) nodes \<Rightarrow> nat) \<Rightarrow> ('k \<Rightarrow> u32) \<Rightarrow> 'k \<Rightarrow> 'v \<Rightarrow> ('k, 'v) hashmap \<Rightarrow> ('k, 'v) hashmap option" where
  "hm_set alloc hash k v h =
     (let binIndex = hm_index hash h k
      in Option.bind (hm_search (hm_nodes h) k (hm_bins h ! binIndex)) (\<lambda>l.
           if l \<noteq> 0 then map_option (\<lambda>n. h\<lparr>hm_nodes := (hm_nodes h)(l \<mapsto> n\<lparr>ln_value := v\<rparr>)\<rparr>) (hm_nodes h l)
           else hm_insert alloc hash k v h))"

text \<open>\<open>Some None\<close> is the answer \<open>false\<close>.\<close>

definition hm_get :: "('k \<Rightarrow> u32) \<Rightarrow> 'k \<Rightarrow> ('k, 'v) hashmap \<Rightarrow> 'v option option" where
  "hm_get hash k h =
     (let binIndex = hm_index hash h k
      in Option.bind (hm_search (hm_nodes h) k (hm_bins h ! binIndex)) (\<lambda>l.
           if l \<noteq> 0 then map_option (\<lambda>n. Some (ln_value n)) (hm_nodes h l) else Some None))"

definition hm_find_bool :: "('k \<Rightarrow> u32) \<Rightarrow> 'k \<Rightarrow> ('k, 'v) hashmap \<Rightarrow> bool option" where
  "hm_find_bool hash k h =
     (let binIndex = hm_index hash h k
      in map_option (\<lambda>l. l \<noteq> 0) (hm_search (hm_nodes h) k (hm_bins h ! binIndex)))"

text \<open>The loop of \<open>erase\<close> also keeps the previous node.\<close>

partial_function (option) hm_search_prev :: "('k, 'v) nodes \<Rightarrow> 'k \<Rightarrow> nat \<Rightarrow> nat \<Rightarrow> (nat \<times> nat) option" where
  "hm_search_prev N k prev cur =
     (if cur = 0 then Some (prev, 0)
      else Option.bind (N cur) (\<lambda>n. if ln_key n = k then Some (prev, cur) else hm_search_prev N k cur (ln_next n)))"

definition hm_erase :: "('k \<Rightarrow> u32) \<Rightarrow> 'k \<Rightarrow> ('k, 'v) hashmap \<Rightarrow> ('k, 'v) hashmap option" where
  "hm_erase hash k h =
     (let binIndex = hm_index hash h k; N = hm_nodes h
      in Option.bind (hm_search_prev N k 0 (hm_bins h ! binIndex)) (\<lambda>(prev, cur).
           if cur = 0 then Some h
           else if cur \<noteq> hm_bins h ! binIndex then
             Option.bind (N prev) (\<lambda>p. Option.bind (N (ln_next p)) (\<lambda>n.
               Some (h\<lparr>hm_nodes := (N(prev \<mapsto> p\<lparr>ln_next := ln_next n\<rparr>))(cur := None)\<rparr>)))
           else
             Option.bind (N (hm_bins h ! binIndex)) (\<lambda>b.
               let n = ln_next b
               in Some \<lparr>hm_bins = (hm_bins h)[binIndex := n], hm_nodes = N(hm_bins h ! binIndex := None)\<rparr>)))"

text \<open>\<open>clear\<close> frees the nodes bin by bin.\<close>

partial_function (option) hm_free_bin :: "nat \<Rightarrow> ('k, 'v) nodes \<Rightarrow> ('k, 'v) nodes option" where
  "hm_free_bin p N =
     (if p = 0 then Some N else Option.bind (N p) (\<lambda>n. hm_free_bin (ln_next n) (N(p := None))))"

fun hm_clear_bins :: "nat list \<Rightarrow> ('k, 'v) nodes \<Rightarrow> ('k, 'v) nodes option" where
  "hm_clear_bins [] N = Some N"
| "hm_clear_bins (p # ps) N = Option.bind (hm_free_bin p N) (hm_clear_bins ps)"

definition hm_clear :: "('k, 'v) hashmap \<Rightarrow> ('k, 'v) hashmap option" where
  "hm_clear h =
     map_option (\<lambda>N. \<lparr>hm_bins = replicate (length (hm_bins h)) 0, hm_nodes = N\<rparr>) (hm_clear_bins (hm_bins h) (hm_nodes h))"

text \<open>Iterators: the node and the index of its bin.\<close>

type_synonym hm_iterator = "nat \<times> nat"

definition hm_begin :: "('k, 'v) hashmap \<Rightarrow> hm_iterator" where
  "hm_begin h = (hm_bins h ! 0, 0)"

definition hm_end :: "('k, 'v) hashmap \<Rightarrow> hm_iterator" where
  "hm_end h = (0, length (hm_bins h) - 1)"

definition hm_iter_eq :: "hm_iterator \<Rightarrow> hm_iterator \<Rightarrow> bool" where
  "hm_iter_eq i j \<longleftrightarrow> fst i = fst j"

definition hm_deref :: "hm_iterator \<Rightarrow> ('k, 'v) hashmap \<Rightarrow> 'v option" where
  "hm_deref i h = map_option ln_value (hm_nodes h (fst i))"

definition hm_find :: "('k \<Rightarrow> u32) \<Rightarrow> 'k \<Rightarrow> ('k, 'v) hashmap \<Rightarrow> hm_iterator option" where
  "hm_find hash k h =
     (let binIndex = hm_index hash h k
      in map_option (\<lambda>l. if l \<noteq> 0 then (l, binIndex) else hm_end h) (hm_search (hm_nodes h) k (hm_bins h ! binIndex)))"

section \<open>\<open>DynamicArray\<close>\<close>

text \<open>
  The internal array (\<open>NULL\<close> is \<open>None\<close>) and its length, an \<open>int\<close>; \<open>junk\<close> gives what a new array holds. \<open>None\<close> is an
  overflow of \<open>int\<close>, an array of negative size or an access outside the array.
\<close>

record 'a dynarray =
  da_array :: "'a list option"
  da_length :: int

definition INT_MAX :: int where "INT_MAX = 2 ^ 31 - 1"

definition da_new :: "'a dynarray" where "da_new = \<lparr>da_array = None, da_length = 0\<rparr>"

definition da_clear :: "'a dynarray \<Rightarrow> 'a dynarray" where
  "da_clear d = (if da_array d \<noteq> None then d\<lparr>da_array := None, da_length := 0\<rparr> else d)"

definition da_at :: "int \<Rightarrow> 'a dynarray \<Rightarrow> 'a option" where
  "da_at index d = Option.bind (da_array d) (\<lambda>arr. if 0 \<le> index \<and> nat index < length arr then Some (arr ! nat index) else None)"

definition da_memcpy :: "'a list \<Rightarrow> 'a list \<Rightarrow> nat \<Rightarrow> 'a list" where
  "da_memcpy arr old n = take n old @ drop n arr"

definition da_index :: "(nat \<Rightarrow> 'a) \<Rightarrow> int \<Rightarrow> 'a dynarray \<Rightarrow> 'a dynarray option" where
  "da_index junk index d =
     (if index \<ge> da_length d then
        let newSize = index * 2 + 1
        in if newSize > INT_MAX \<or> newSize < 0 then None
           else let arr = map junk [0 ..< nat newSize];
                    arr = (case da_array d of Some old \<Rightarrow> da_memcpy arr old (nat (da_length d)) | None \<Rightarrow> arr)
                in Some \<lparr>da_array = Some arr, da_length = newSize\<rparr>
      else Some d)"

text \<open>\<open>a[index] = v\<close> through the reference that the operator returns.\<close>

definition da_assign :: "(nat \<Rightarrow> 'a) \<Rightarrow> int \<Rightarrow> 'a \<Rightarrow> 'a dynarray \<Rightarrow> 'a dynarray option" where
  "da_assign junk index v d =
     Option.bind (da_index junk index d) (\<lambda>d. Option.bind (da_array d) (\<lambda>arr.
       if 0 \<le> index \<and> nat index < length arr then Some (d\<lparr>da_array := Some (arr[nat index := v])\<rparr>) else None))"

definition da_trim :: "(nat \<Rightarrow> 'a) \<Rightarrow> int \<Rightarrow> 'a dynarray \<Rightarrow> 'a dynarray option" where
  "da_trim junk nelts d =
     (case da_array d of
        None \<Rightarrow> Some d
      | Some old \<Rightarrow>
          if nelts * 4 > INT_MAX \<or> nelts * 4 < - INT_MAX - 1 then None
          else if nelts * 4 < da_length d then
            let newSize = nelts * 2
            in if newSize < 0 then None
               else let arr = map junk [0 ..< nat newSize];
                        arr = da_memcpy arr old (nat nelts)
                    in Some \<lparr>da_array = Some arr, da_length = newSize\<rparr>
          else Some d)"

definition da_ok :: "'a dynarray \<Rightarrow> bool" where
  "da_ok d \<longleftrightarrow> (case da_array d of None \<Rightarrow> da_length d = 0 | Some arr \<Rightarrow> int (length arr) = da_length d) \<and> da_length d \<le> INT_MAX"

lemma da_ok_new [simp]: "da_ok da_new" by (simp add: da_ok_def da_new_def INT_MAX_def)

lemma da_ok_clear: "da_ok d \<Longrightarrow> da_ok (da_clear d)" by (auto simp: da_ok_def da_clear_def INT_MAX_def)

lemma length_da_memcpy: "n \<le> length old \<Longrightarrow> n \<le> length arr \<Longrightarrow> length (da_memcpy arr old n) = length arr"
  by (simp add: da_memcpy_def)

lemma nth_da_memcpy: "n \<le> length old \<Longrightarrow> n \<le> length arr \<Longrightarrow> i < n \<Longrightarrow> da_memcpy arr old n ! i = old ! i"
  by (simp add: da_memcpy_def nth_append)

text \<open>Growing: the index is in range afterwards and the elements are kept.\<close>

lemma da_index_spec:
  assumes ok: "da_ok d" and i: "0 \<le> i" "i < 2 ^ 30"
  shows "\<exists>d'. da_index junk i d = Some d' \<and> da_ok d' \<and> i < da_length d' \<and> da_length d' \<le> max (da_length d) (i * 2 + 1) \<and>
    (\<forall>j. da_at j d \<noteq> None \<longrightarrow> da_at j d' = da_at j d)"
proof (cases "i \<ge> da_length d")
  case False
  then show ?thesis using ok by (intro exI [of _ d]) (simp add: da_index_def)
next
  case True
  let ?n = "i * 2 + 1" and ?new = "map junk [0 ..< nat (i * 2 + 1)]"
  let ?arr = "case da_array d of Some old \<Rightarrow> da_memcpy ?new old (nat (da_length d)) | None \<Rightarrow> ?new"
  let ?d = "\<lparr>da_array = Some ?arr, da_length = ?n\<rparr>"
  have n: "\<not> (?n > INT_MAX \<or> ?n < 0)" using i by (simp add: INT_MAX_def)
  have d: "da_index junk i d = Some ?d" using True n by (simp add: da_index_def Let_def)
  have a: "length ?arr = nat ?n \<and> (\<forall>j. da_at j d \<noteq> None \<longrightarrow> da_at j ?d = da_at j d)"
  proof (cases "da_array d")
    case None
    then show ?thesis by (simp add: da_at_def)
  next
    case (Some old)
    then have l: "length old = nat (da_length d)" "nat (da_length d) \<le> length ?new" using ok True i by (auto simp: da_ok_def)
    then show ?thesis using Some length_da_memcpy [of "nat (da_length d)" old ?new] nth_da_memcpy [of "nat (da_length d)" old ?new]
      by (auto simp: da_at_def split: if_splits)
  qed
  then have "da_ok ?d" using n i by (simp add: da_ok_def)
  then show ?thesis using d a i by (intro exI [of _ ?d]) simp
qed

lemma da_assign_spec:
  assumes ok: "da_ok d" and i: "0 \<le> i" "i < 2 ^ 30"
  shows "\<exists>d'. da_assign junk i v d = Some d' \<and> da_ok d' \<and> da_length d' \<le> max (da_length d) (i * 2 + 1) \<and>
    da_at i d' = Some v \<and> (\<forall>j. j \<noteq> i \<and> da_at j d \<noteq> None \<longrightarrow> da_at j d' = da_at j d)"
proof -
  obtain d1 where d1: "da_index junk i d = Some d1" "da_ok d1" "i < da_length d1" "da_length d1 \<le> max (da_length d) (i * 2 + 1)"
    "\<forall>j. da_at j d \<noteq> None \<longrightarrow> da_at j d1 = da_at j d" using da_index_spec [OF assms] by blast
  then obtain arr where arr: "da_array d1 = Some arr" "int (length arr) = da_length d1" using i(1) by (auto simp: da_ok_def split: option.splits)
  let ?d = "d1\<lparr>da_array := Some (arr[nat i := v])\<rparr>"
  have l: "nat i < length arr" using d1(3) arr(2) i(1) by linarith
  have "da_at j ?d = da_at j d1" if "j \<noteq> i" for j using arr(1) that i(1) by (auto simp: da_at_def)
  moreover have "da_ok ?d" using d1(2) arr by (simp add: da_ok_def)
  moreover have "da_at i ?d = Some v" using l i(1) by (simp add: da_at_def)
  ultimately show ?thesis using d1 arr(1) l i(1) by (intro exI [of _ ?d]) (auto simp: da_assign_def)
qed

text \<open>Trimming keeps the elements in front and leaves an array at most four times as long.\<close>

lemma da_trim_spec:
  assumes ok: "da_ok d" and n: "0 \<le> n" "n < 2 ^ 29"
  shows "\<exists>d'. da_trim junk n d = Some d' \<and> da_ok d' \<and> da_length d' \<le> 4 * n \<and>
    (\<forall>j. j < n \<longrightarrow> da_at j d' = da_at j d)"
proof (cases "da_array d")
  case None
  then show ?thesis using ok n by (intro exI [of _ d]) (auto simp: da_trim_def da_ok_def)
next
  case (Some old)
  then have l: "int (length old) = da_length d" using ok by (simp add: da_ok_def)
  have o: "\<not> (n * 4 > INT_MAX \<or> n * 4 < - INT_MAX - 1)" using n by (simp add: INT_MAX_def)
  show ?thesis
  proof (cases "n * 4 < da_length d")
    case False
    then show ?thesis using Some ok o by (intro exI [of _ d]) (simp add: da_trim_def)
  next
    case True
    let ?arr = "da_memcpy (map junk [0 ..< nat (n * 2)]) old (nat n)"
    let ?d = "\<lparr>da_array = Some ?arr, da_length = n * 2\<rparr>"
    have k: "nat n \<le> length old" "nat n \<le> length (map junk [0 ..< nat (n * 2)])" using True l n by simp_all
    have "da_trim junk n d = Some ?d" using Some True o n by (simp add: da_trim_def Let_def)
    moreover have "da_ok ?d" using length_da_memcpy [OF k] n by (simp add: da_ok_def INT_MAX_def)
    moreover have "da_at j ?d = da_at j d" if "j < n" for j
    proof (cases "0 \<le> j")
      case True
      then have "nat j < nat n" "nat j < length old" using that k(1) by linarith+
      then show ?thesis using Some n k length_da_memcpy [OF k] nth_da_memcpy [OF k, of "nat j"] by (simp add: da_at_def)
    qed (simp add: da_at_def)
    ultimately show ?thesis using n by (intro exI [of _ ?d]) auto
  qed
qed

section \<open>\<open>MyList\<close>\<close>

record 'v mnode =
  mn_value :: 'v
  mn_next :: nat

record 'v mylist =
  ml_list :: nat
  ml_size :: int
  ml_nodes :: "nat \<Rightarrow> 'v mnode option"

definition ml_new :: "'v mylist" where "ml_new = \<lparr>ml_list = 0, ml_size = 0, ml_nodes = (\<lambda>_. None)\<rparr>"

definition ml_push_front :: "((nat \<Rightarrow> 'v mnode option) \<Rightarrow> nat) \<Rightarrow> 'v \<Rightarrow> 'v mylist \<Rightarrow> 'v mylist option" where
  "ml_push_front alloc v l =
     (let p = alloc (ml_nodes l)
      in if p = 0 then None
         else Some \<lparr>ml_list = p, ml_size = ml_size l + 1, ml_nodes = (ml_nodes l)(p \<mapsto> \<lparr>mn_value = v, mn_next = ml_list l\<rparr>)\<rparr>)"

definition ml_pop_front :: "'v mylist \<Rightarrow> ('v option \<times> 'v mylist) option" where
  "ml_pop_front l =
     (let n = ml_list l
      in if n \<noteq> 0 then
           map_option (\<lambda>nd. (Some (mn_value nd),
             \<lparr>ml_list = mn_next nd, ml_size = ml_size l - 1, ml_nodes = (ml_nodes l)(n := None)\<rparr>)) (ml_nodes l n)
         else Some (None, l))"

partial_function (option) ml_clear :: "'v mylist \<Rightarrow> 'v mylist option" where
  "ml_clear l = Option.bind (ml_pop_front l) (\<lambda>(v, l). case v of Some _ \<Rightarrow> ml_clear l | None \<Rightarrow> Some l)"

text \<open>The list represents the sequence of values; all its nodes and no others are allocated.\<close>

fun ml_chain :: "(nat \<Rightarrow> 'v mnode option) \<Rightarrow> nat \<Rightarrow> nat list \<Rightarrow> 'v list \<Rightarrow> bool" where
  "ml_chain N p [] vs \<longleftrightarrow> p = 0 \<and> vs = []"
| "ml_chain N p (a # as) vs \<longleftrightarrow> p = a \<and> a \<noteq> 0 \<and>
     (\<exists>n v vs'. N a = Some n \<and> vs = v # vs' \<and> mn_value n = v \<and> ml_chain N (mn_next n) as vs')"

definition ml_rep :: "'v mylist \<Rightarrow> 'v list \<Rightarrow> bool" where
  "ml_rep l vs \<longleftrightarrow> (\<exists>as. ml_chain (ml_nodes l) (ml_list l) as vs \<and> distinct as \<and> dom (ml_nodes l) = set as \<and> ml_size l = int (length vs))"

lemma ml_chain_frame: "(\<And>a. a \<in> set as \<Longrightarrow> N' a = N a) \<Longrightarrow> ml_chain N' p as vs = ml_chain N p as vs"
  by (induction as arbitrary: p vs) auto

lemma ml_new_rep: "ml_rep ml_new []"
  by (auto simp: ml_rep_def ml_new_def intro!: exI [of _ "[]"])

lemma ml_push_front_rep:
  assumes "ml_rep l vs" and "alloc (ml_nodes l) \<noteq> 0" "ml_nodes l (alloc (ml_nodes l)) = None"
  shows "\<exists>l'. ml_push_front alloc v l = Some l' \<and> ml_rep l' (v # vs)"
proof -
  obtain as where as: "ml_chain (ml_nodes l) (ml_list l) as vs" "distinct as" "dom (ml_nodes l) = set as"
    "ml_size l = int (length vs)" using assms(1) by (auto simp: ml_rep_def)
  let ?p = "alloc (ml_nodes l)"
  let ?N = "(ml_nodes l)(?p \<mapsto> \<lparr>mn_value = v, mn_next = ml_list l\<rparr>)"
  have np: "?p \<notin> set as" using as(3) assms(3) by blast
  then have "ml_chain ?N (ml_list l) as vs" using as(1) ml_chain_frame [of as ?N "ml_nodes l"] by fastforce
  then show ?thesis using as np assms(2)
    by (auto simp: ml_push_front_def ml_rep_def Let_def simp del: fun_upd_apply intro!: exI [of _ "?p # as"]) simp_all
qed

lemma ml_pop_front_rep:
  assumes "ml_rep l vs"
  shows "case vs of [] \<Rightarrow> ml_pop_front l = Some (None, l)
    | v # vs' \<Rightarrow> \<exists>l'. ml_pop_front l = Some (Some v, l') \<and> ml_rep l' vs'"
proof -
  obtain as where as: "ml_chain (ml_nodes l) (ml_list l) as vs" "distinct as" "dom (ml_nodes l) = set as"
    "ml_size l = int (length vs)" using assms by (auto simp: ml_rep_def)
  show ?thesis
  proof (cases as)
    case Nil
    then show ?thesis using as by (simp add: ml_pop_front_def)
  next
    case (Cons a as')
    then obtain n v vs' where n: "ml_list l = a" "a \<noteq> 0" "ml_nodes l a = Some n" "vs = v # vs'" "mn_value n = v"
      "ml_chain (ml_nodes l) (mn_next n) as' vs'" using as(1) by auto
    let ?l = "\<lparr>ml_list = mn_next n, ml_size = ml_size l - 1, ml_nodes = (ml_nodes l)(a := None)\<rparr>"
    have "ml_chain ((ml_nodes l)(a := None)) (mn_next n) as' vs'"
      using n(6) as(2) Cons ml_chain_frame [of as' "(ml_nodes l)(a := None)" "ml_nodes l"] by fastforce
    moreover have "dom ((ml_nodes l)(a := None)) = set as'" using as(2,3) Cons by auto
    ultimately have "ml_rep ?l vs'" using as Cons n(4) unfolding ml_rep_def by (intro exI [of _ as']) simp
    then show ?thesis using n by (simp add: ml_pop_front_def Let_def)
  qed
qed

lemma ml_clear_rep: "ml_rep l vs \<Longrightarrow> \<exists>l'. ml_clear l = Some l' \<and> ml_rep l' []"
proof (induction vs arbitrary: l)
  case Nil
  then show ?case using ml_pop_front_rep [OF Nil] by (subst ml_clear.simps) simp
next
  case (Cons v vs)
  then obtain l1 where "ml_pop_front l = Some (Some v, l1)" "ml_rep l1 vs" using ml_pop_front_rep [OF Cons.prems] by auto
  then show ?case using Cons.IH [of l1] by (subst ml_clear.simps) simp
qed

section \<open>What a hash table represents\<close>

fun chain :: "('k, 'v) nodes \<Rightarrow> nat \<Rightarrow> nat list \<Rightarrow> bool" where
  "chain N p [] \<longleftrightarrow> p = 0"
| "chain N p (a # as) \<longleftrightarrow> p = a \<and> a \<noteq> 0 \<and> (\<exists>n. N a = Some n \<and> chain N (ln_next n) as)"

abbreviation nkey :: "('k, 'v) nodes \<Rightarrow> nat \<Rightarrow> 'k" where "nkey N a \<equiv> ln_key (the (N a))"

text \<open>Bin \<open>i\<close> holds the nodes \<open>ns i\<close>, whose keys are different and belong there; there are no other nodes.\<close>

definition hm_ok :: "('k \<Rightarrow> u32) \<Rightarrow> ('k, 'v) hashmap \<Rightarrow> (nat \<Rightarrow> nat list) \<Rightarrow> bool" where
  "hm_ok hash h ns \<longleftrightarrow> 0 < length (hm_bins h) \<and> finite (dom (hm_nodes h)) \<and>
     (\<forall>i < length (hm_bins h). chain (hm_nodes h) (hm_bins h ! i) (ns i) \<and> distinct (ns i) \<and>
        (\<forall>a \<in> set (ns i). hm_index hash h (nkey (hm_nodes h) a) = i) \<and> distinct (map (nkey (hm_nodes h)) (ns i))) \<and>
     dom (hm_nodes h) = (\<Union>i < length (hm_bins h). set (ns i))"

definition hm_rep :: "('k \<Rightarrow> u32) \<Rightarrow> ('k, 'v) hashmap \<Rightarrow> ('k \<rightharpoonup> 'v) \<Rightarrow> bool" where
  "hm_rep hash h m \<longleftrightarrow> (\<exists>ns. hm_ok hash h ns) \<and>
     (\<forall>k v. m k = Some v \<longleftrightarrow> (\<exists>a n. hm_nodes h a = Some n \<and> ln_key n = k \<and> ln_value n = v))"

lemma chain_frame: "(\<And>a. a \<in> set as \<Longrightarrow> N' a = N a) \<Longrightarrow> chain N' p as = chain N p as"
  by (induction as arbitrary: p) auto

lemma chain_nodes: "chain N p as \<Longrightarrow> a \<in> set as \<Longrightarrow> a \<noteq> 0 \<and> N a \<noteq> None"
  by (induction as arbitrary: p) auto

lemma hm_search_chain:
  "chain N p as \<Longrightarrow> hm_search N k p = Some (case find (\<lambda>a. nkey N a = k) as of None \<Rightarrow> 0 | Some a \<Rightarrow> a)"
proof (induction as arbitrary: p)
  case Nil
  then show ?case by (simp add: hm_search.simps)
next
  case (Cons a as)
  then show ?case by (subst hm_search.simps) auto
qed

lemma hm_index_less: "hm_ok hash h ns \<Longrightarrow> hm_index hash h k < length (hm_bins h)"
  by (simp add: hm_ok_def hm_index_def)

lemma hm_okD:
  assumes "hm_ok hash h ns"
  shows "i < length (hm_bins h) \<Longrightarrow> chain (hm_nodes h) (hm_bins h ! i) (ns i)"
    and "i < length (hm_bins h) \<Longrightarrow> distinct (ns i)"
    and "i < length (hm_bins h) \<Longrightarrow> a \<in> set (ns i) \<Longrightarrow> hm_index hash h (nkey (hm_nodes h) a) = i"
    and "i < length (hm_bins h) \<Longrightarrow> distinct (map (nkey (hm_nodes h)) (ns i))"
    and "hm_nodes h a = Some n \<Longrightarrow> hm_index hash h (ln_key n) < length (hm_bins h) \<and> a \<in> set (ns (hm_index hash h (ln_key n)))"
    and "finite (dom (hm_nodes h))"
proof -
  show a: "hm_index hash h (nkey (hm_nodes h) a) = i" if "i < length (hm_bins h)" "a \<in> set (ns i)" for i a
    using assms that by (simp add: hm_ok_def)
  show "hm_index hash h (ln_key n) < length (hm_bins h) \<and> a \<in> set (ns (hm_index hash h (ln_key n)))"
    if "hm_nodes h a = Some n"
  proof -
    have "a \<in> (\<Union>i < length (hm_bins h). set (ns i))" using assms that by (auto simp: hm_ok_def)
    then obtain j where j: "j < length (hm_bins h)" "a \<in> set (ns j)" by blast
    then show ?thesis using a [OF j] that by simp
  qed
qed (use assms in \<open>simp_all add: hm_ok_def\<close>)

text \<open>The search in the bin of a key finds its only node.\<close>

lemma hm_lookup:
  fixes k
  assumes ok: "hm_ok hash h ns"
  defines "i \<equiv> hm_index hash h k"
  shows "hm_search (hm_nodes h) k (hm_bins h ! i) = Some 0 \<and> (\<forall>a n. hm_nodes h a = Some n \<longrightarrow> ln_key n \<noteq> k) \<or>
    (\<exists>a n. hm_search (hm_nodes h) k (hm_bins h ! i) = Some a \<and> a \<noteq> 0 \<and> a \<in> set (ns i) \<and> hm_nodes h a = Some n \<and> ln_key n = k \<and>
       (\<forall>b n'. hm_nodes h b = Some n' \<and> ln_key n' = k \<longrightarrow> b = a))"
proof -
  let ?N = "hm_nodes h"
  have i: "i < length (hm_bins h)" unfolding i_def by (rule hm_index_less [OF ok])
  have c: "chain ?N (hm_bins h ! i) (ns i)" "distinct (map (nkey ?N) (ns i))" using ok i by (simp_all add: hm_ok_def)
  have bin: "b \<in> set (ns i)" if "?N b = Some n" "ln_key n = k" for b n
    using hm_okD(5) [OF ok that(1)] that(2) by (simp add: i_def)
  show ?thesis
  proof (cases "find (\<lambda>a. nkey ?N a = k) (ns i)")
    case None
    then have nf: "\<forall>a \<in> set (ns i). nkey ?N a \<noteq> k" by (simp add: find_None_iff)
    have "\<forall>a n. ?N a = Some n \<longrightarrow> ln_key n \<noteq> k"
    proof (intro allI impI notI)
      fix a n assume a: "?N a = Some n" "ln_key n = k"
      with nf bin [OF a] show False by auto
    qed
    then show ?thesis using hm_search_chain [OF c(1), of k] None by simp
  next
    case (Some a)
    then have a: "a \<in> set (ns i)" "nkey ?N a = k" by (auto simp: find_Some_iff)
    then obtain n where n: "?N a = Some n" "a \<noteq> 0" using chain_nodes [OF c(1)] by blast
    have "b = a" if "?N b = Some n'" "ln_key n' = k" for b n'
    proof -
      have "inj_on (nkey ?N) (set (ns i))" using c(2) by (simp add: distinct_map)
      moreover have "nkey ?N b = nkey ?N a" using that a(2) by simp
      ultimately show ?thesis using bin [OF that] a(1) by (rule inj_onD)
    qed
    then have u: "\<forall>b n'. ?N b = Some n' \<and> ln_key n' = k \<longrightarrow> b = a" by blast
    have s: "hm_search ?N k (hm_bins h ! i) = Some a" using hm_search_chain [OF c(1), of k] Some by simp
    have "ln_key n = k" using a(2) n(1) by simp
    with s n a(1) u show ?thesis by blast
  qed
qed

lemma hm_get_rep: "hm_rep hash h m \<Longrightarrow> hm_get hash k h = Some (m k)"
proof -
  assume r: "hm_rep hash h m"
  then obtain ns where ok: "hm_ok hash h ns"
    and m: "\<And>k v. m k = Some v \<longleftrightarrow> (\<exists>a n. hm_nodes h a = Some n \<and> ln_key n = k \<and> ln_value n = v)" by (auto simp: hm_rep_def)
  from hm_lookup [OF ok, of k] show ?thesis
  proof (elim disjE exE conjE)
    assume *: "hm_search (hm_nodes h) k (hm_bins h ! hm_index hash h k) = Some 0" "\<forall>a n. hm_nodes h a = Some n \<longrightarrow> ln_key n \<noteq> k"
    then have "m k = None" using m [of k] by (meson not_None_eq)
    then show ?thesis using * by (simp add: hm_get_def)
  next
    fix a n
    assume *: "hm_search (hm_nodes h) k (hm_bins h ! hm_index hash h k) = Some a" "a \<noteq> 0" "hm_nodes h a = Some n" "ln_key n = k"
    then have "m k = Some (ln_value n)" using m by blast
    then show ?thesis using * by (simp add: hm_get_def)
  qed
qed

text \<open>A change in bin \<open>i\<close> only.\<close>

lemma hm_ok_bin:
  assumes ok: "hm_ok hash h ns" and i: "i < length (hm_bins h)" and len: "length (hm_bins h') = length (hm_bins h)"
    and bins: "\<And>j. j < length (hm_bins h) \<Longrightarrow> j \<noteq> i \<Longrightarrow> hm_bins h' ! j = hm_bins h ! j"
    and same: "\<And>a j. j < length (hm_bins h) \<Longrightarrow> j \<noteq> i \<Longrightarrow> a \<in> set (ns j) \<Longrightarrow> hm_nodes h' a = hm_nodes h a"
    and dom: "dom (hm_nodes h') = dom (hm_nodes h) - set (ns i) \<union> set as"
    and bin: "chain (hm_nodes h') (hm_bins h' ! i) as" "distinct as"
      "\<And>a. a \<in> set as \<Longrightarrow> hm_index hash h (nkey (hm_nodes h') a) = i" "distinct (map (nkey (hm_nodes h')) as)"
  shows "hm_ok hash h' (ns(i := as))"
proof -
  have ix: "hm_index hash h' = hm_index hash h" by (rule ext) (simp add: hm_index_def len)
  have apart: "set (ns i) \<inter> set (ns j) = {}" if "j < length (hm_bins h)" "j \<noteq> i" for j
    using hm_okD(3) [OF ok i] hm_okD(3) [OF ok that(1)] that(2) by blast
  have d: "dom (hm_nodes h) = (\<Union>j < length (hm_bins h). set (ns j))" using ok by (simp add: hm_ok_def)
  have "(\<Union>j < length (hm_bins h). set ((ns(i := as)) j)) = (\<Union>j \<in> {..< length (hm_bins h)} - {i}. set (ns j)) \<union> set as"
    using i by (auto split: if_splits)
  also have "(\<Union>j \<in> {..< length (hm_bins h)} - {i}. set (ns j)) = dom (hm_nodes h) - set (ns i)"
    unfolding d using apart by blast
  finally have D: "dom (hm_nodes h') = (\<Union>j < length (hm_bins h). set ((ns(i := as)) j))" using dom by simp
  have other: "chain (hm_nodes h') (hm_bins h' ! j) (ns j) \<and> distinct (ns j) \<and>
      (\<forall>a \<in> set (ns j). hm_index hash h (nkey (hm_nodes h') a) = j) \<and> distinct (map (nkey (hm_nodes h')) (ns j))"
    if j: "j < length (hm_bins h)" "j \<noteq> i" for j
  proof -
    have m: "map (nkey (hm_nodes h')) (ns j) = map (nkey (hm_nodes h)) (ns j)" using same [OF j] by simp
    show ?thesis unfolding m bins [OF j]
      using hm_okD(1-4) [OF ok j(1)] chain_frame [of "ns j" "hm_nodes h'" "hm_nodes h"] same [OF j] by simp
  qed
  have "0 < length (hm_bins h')" using i len by (metis gr_implies_not0 neq0_conv)
  moreover have "finite (dom (hm_nodes h'))" unfolding dom using hm_okD(6) [OF ok] by simp
  ultimately show ?thesis unfolding hm_ok_def ix len D using bin other by simp
qed

lemma hm_set_rep:
  assumes r: "hm_rep hash h m" and alloc: "\<And>N. finite (dom N) \<Longrightarrow> alloc N \<noteq> 0 \<and> N (alloc N) = None"
  shows "\<exists>h'. hm_set alloc hash k v h = Some h' \<and> hm_rep hash h' (m(k \<mapsto> v))"
proof -
  obtain ns where ok: "hm_ok hash h ns"
    and m: "\<And>k v. m k = Some v \<longleftrightarrow> (\<exists>a n. hm_nodes h a = Some n \<and> ln_key n = k \<and> ln_value n = v)"
    using r by (auto simp: hm_rep_def)
  let ?N = "hm_nodes h" and ?i = "hm_index hash h k"
  have i: "?i < length (hm_bins h)" by (rule hm_index_less [OF ok])
  from hm_lookup [OF ok, of k] show ?thesis
  proof (elim disjE exE conjE)
    assume s: "hm_search ?N k (hm_bins h ! ?i) = Some 0" and nk: "\<forall>a n. ?N a = Some n \<longrightarrow> ln_key n \<noteq> k"
    define l where "l = alloc ?N"
    have l: "l \<noteq> 0" "?N l = None" using alloc [OF hm_okD(6) [OF ok]] by (simp_all add: l_def)
    let ?n = "\<lparr>ln_key = k, ln_value = v, ln_next = hm_bins h ! ?i\<rparr>"
    let ?h = "\<lparr>hm_bins = (hm_bins h)[?i := l], hm_nodes = ?N(l \<mapsto> ?n)\<rparr>"
    have nl: "l \<notin> set (ns j)" if "j < length (hm_bins h)" for j using chain_nodes [OF hm_okD(1) [OF ok that]] l(2) by blast
    have keys: "nkey ?N a \<noteq> k \<and> nkey (?N(l \<mapsto> ?n)) a = nkey ?N a" if "a \<in> set (ns ?i)" for a
      using chain_nodes [OF hm_okD(1) [OF ok i] that] nk nl [OF i] that by fastforce
    have "hm_ok hash ?h (ns(?i := l # ns ?i))"
    proof (rule hm_ok_bin [OF ok i])
      have "chain (?N(l \<mapsto> ?n)) (hm_bins h ! ?i) (ns ?i)"
        using hm_okD(1) [OF ok i] nl [OF i] chain_frame [of "ns ?i" "?N(l \<mapsto> ?n)" ?N] by fastforce
      then show "chain (hm_nodes ?h) (hm_bins ?h ! ?i) (l # ns ?i)" using i l(1) by simp
      show "distinct (l # ns ?i)" using nl [OF i] hm_okD(2) [OF ok i] by simp
      show "hm_index hash h (nkey (hm_nodes ?h) a) = ?i" if "a \<in> set (l # ns ?i)" for a
        using that hm_okD(3) [OF ok i] keys by (cases "a = l") auto
      have "map (nkey (?N(l \<mapsto> ?n))) (ns ?i) = map (nkey ?N) (ns ?i)" using keys by simp
      then show "distinct (map (nkey (hm_nodes ?h)) (l # ns ?i))"
        using hm_okD(4) [OF ok i] keys by (auto simp del: map_eq_conv)
      have "set (ns ?i) \<subseteq> dom ?N" using chain_nodes [OF hm_okD(1) [OF ok i]] by blast
      then show "dom (hm_nodes ?h) = dom ?N - set (ns ?i) \<union> set (l # ns ?i)" by auto
    qed (use nl in auto)
    moreover have "(m(k \<mapsto> v)) k' = Some v' \<longleftrightarrow> (\<exists>a n. hm_nodes ?h a = Some n \<and> ln_key n = k' \<and> ln_value n = v')" for k' v'
    proof (cases "k' = k")
      case True
      have "(\<exists>a n. hm_nodes ?h a = Some n \<and> ln_key n = k \<and> ln_value n = v') \<longleftrightarrow> v = v'" using nk by auto
      with True show ?thesis by simp
    next
      case False
      have "(\<exists>a n. hm_nodes ?h a = Some n \<and> ln_key n = k' \<and> ln_value n = v') \<longleftrightarrow> (\<exists>a n. ?N a = Some n \<and> ln_key n = k' \<and> ln_value n = v')"
        using False l(2) by (auto split: if_splits) (metis option.distinct(1))
      with False m [of k' v'] show ?thesis by simp
    qed
    ultimately have "hm_rep hash ?h (m(k \<mapsto> v))" unfolding hm_rep_def by blast
    moreover have "hm_set alloc hash k v h = Some ?h"
      using s l(1) by (simp add: hm_set_def hm_insert_def Let_def l_def [symmetric])
    ultimately show ?thesis by blast
  next
    fix a n
    assume s: "hm_search ?N k (hm_bins h ! ?i) = Some a" and a: "a \<noteq> 0" "a \<in> set (ns ?i)" "?N a = Some n" "ln_key n = k"
      and u: "\<forall>b n'. ?N b = Some n' \<and> ln_key n' = k \<longrightarrow> b = a"
    let ?h = "h\<lparr>hm_nodes := ?N(a \<mapsto> n\<lparr>ln_value := v\<rparr>)\<rparr>"
    have key: "nkey (?N(a \<mapsto> n\<lparr>ln_value := v\<rparr>)) b = nkey ?N b" for b using a(3) by simp
    have ch: "chain (?N(a \<mapsto> n\<lparr>ln_value := v\<rparr>)) p as = chain ?N p as" for p as
      by (induction as arbitrary: p) (use a(3) in auto)
    have "dom (?N(a \<mapsto> n\<lparr>ln_value := v\<rparr>)) = dom ?N" using a(3) by auto
    then have "hm_ok hash ?h ns"
      using ok unfolding hm_ok_def by (simp add: key ch hm_index_def del: fun_upd_apply dom_fun_upd)
    moreover have "(m(k \<mapsto> v)) k' = Some v' \<longleftrightarrow> (\<exists>b n. hm_nodes ?h b = Some n \<and> ln_key n = k' \<and> ln_value n = v')" for k' v'
    proof (cases "k' = k")
      case True
      have "(\<exists>b n. hm_nodes ?h b = Some n \<and> ln_key n = k \<and> ln_value n = v') \<longleftrightarrow> v = v'"
        using u a(4) by (auto split: if_splits)
      with True show ?thesis by simp
    next
      case False
      have "hm_nodes ?h b = Some x \<and> ln_key x = k' \<and> ln_value x = v' \<longleftrightarrow> ?N b = Some x \<and> ln_key x = k' \<and> ln_value x = v'" for b x
        by (cases "b = a") (use False a(3,4) in auto)
      then have "(\<exists>b n. hm_nodes ?h b = Some n \<and> ln_key n = k' \<and> ln_value n = v') \<longleftrightarrow> (\<exists>b n. ?N b = Some n \<and> ln_key n = k' \<and> ln_value n = v')"
        by (simp only:)
      with False m [of k' v'] show ?thesis by simp
    qed
    ultimately have "hm_rep hash ?h (m(k \<mapsto> v))" unfolding hm_rep_def by blast
    moreover have "hm_set alloc hash k v h = Some ?h" using s a by (simp add: hm_set_def Let_def)
    ultimately show ?thesis by blast
  qed
qed

text \<open>Erasing a key: its node is unlinked and freed.\<close>

lemma hm_search_prev_chain:
  "chain N p (us @ a # vs) \<Longrightarrow> nkey N a = k \<Longrightarrow> \<forall>b \<in> set us. nkey N b \<noteq> k \<Longrightarrow>
   hm_search_prev N k q p = Some (last (q # us), a)"
proof (induction us arbitrary: p q)
  case Nil
  then show ?case by (subst hm_search_prev.simps) auto
next
  case (Cons b us)
  then obtain n where n: "p = b" "b \<noteq> 0" "N b = Some n" "chain N (ln_next n) (us @ a # vs)" by auto
  then have "hm_search_prev N k b (ln_next n) = Some (last (b # us), a)" using Cons by simp
  then show ?case using n Cons.prems(3) by (subst hm_search_prev.simps) auto
qed

lemma hm_search_prev_none: "chain N p as \<Longrightarrow> \<forall>b \<in> set as. nkey N b \<noteq> k \<Longrightarrow> \<exists>q'. hm_search_prev N k q p = Some (q', 0)"
proof (induction as arbitrary: p q)
  case Nil
  then show ?case by (subst hm_search_prev.simps) auto
next
  case (Cons b as)
  then obtain n where n: "p = b" "b \<noteq> 0" "N b = Some n" "chain N (ln_next n) as" by auto
  with Cons obtain q' where "hm_search_prev N k b (ln_next n) = Some (q', 0)" by fastforce
  then show ?case using n Cons.prems(2) by (subst hm_search_prev.simps) auto
qed

lemma chain_unlink:
  "chain N p (us @ b # a # vs) \<Longrightarrow> distinct (us @ b # a # vs) \<Longrightarrow> N b = Some pb \<Longrightarrow> N a = Some na \<Longrightarrow>
   chain ((N(b \<mapsto> pb\<lparr>ln_next := ln_next na\<rparr>))(a := None)) p (us @ b # vs)"
proof (induction us arbitrary: p)
  case Nil
  let ?N = "(N(b \<mapsto> pb\<lparr>ln_next := ln_next na\<rparr>))(a := None)"
  have "chain N (ln_next na) vs" using Nil by auto
  then have "chain ?N (ln_next na) vs" using Nil.prems(2) chain_frame [of vs ?N N] by fastforce
  moreover have "?N b = Some (pb\<lparr>ln_next := ln_next na\<rparr>)" using Nil.prems(2) by simp
  ultimately show ?case using Nil.prems(1) by (simp del: fun_upd_apply)
qed auto

lemma chain_drop_first: "chain N a (a # vs) \<Longrightarrow> a \<notin> set vs \<Longrightarrow> N a = Some na \<Longrightarrow> chain (N(a := None)) (ln_next na) vs"
  using chain_frame [of vs "N(a := None)" N] by fastforce

lemma hm_erase_rep:
  assumes r: "hm_rep hash h m"
  shows "\<exists>h'. hm_erase hash k h = Some h' \<and> hm_rep hash h' (m(k := None))"
proof -
  obtain ns where ok: "hm_ok hash h ns"
    and m: "\<And>k v. m k = Some v \<longleftrightarrow> (\<exists>a n. hm_nodes h a = Some n \<and> ln_key n = k \<and> ln_value n = v)"
    using r by (auto simp: hm_rep_def)
  let ?N = "hm_nodes h" and ?i = "hm_index hash h k"
  have i: "?i < length (hm_bins h)" by (rule hm_index_less [OF ok])
  note ch = hm_okD(1) [OF ok i]
  from hm_lookup [OF ok, of k] show ?thesis
  proof (elim disjE exE conjE)
    assume nk: "\<forall>a n. ?N a = Some n \<longrightarrow> ln_key n \<noteq> k"
    have "\<forall>b \<in> set (ns ?i). nkey ?N b \<noteq> k" using chain_nodes [OF ch] nk by fastforce
    then obtain q where "hm_search_prev ?N k 0 (hm_bins h ! ?i) = Some (q, 0)" using hm_search_prev_none [OF ch] by blast
    then have "hm_erase hash k h = Some h" by (simp add: hm_erase_def Let_def)
    moreover have "m k = None" using m [of k] nk by (meson not_None_eq)
    then have "m(k := None) = m" by (simp add: fun_upd_idem)
    ultimately show ?thesis using r by simp
  next
    fix a n
    assume a: "a \<noteq> 0" "a \<in> set (ns ?i)" "?N a = Some n" "ln_key n = k"
      and u: "\<forall>b n'. ?N b = Some n' \<and> ln_key n' = k \<longrightarrow> b = a"
    obtain us vs where ns: "ns ?i = us @ a # vs" using split_list [OF a(2)] by blast
    have d: "distinct (us @ a # vs)" using hm_okD(2) [OF ok i] ns by simp
    have ch': "chain ?N (hm_bins h ! ?i) (us @ a # vs)" using ch ns by simp
    have "\<forall>b \<in> set us. nkey ?N b \<noteq> k" using chain_nodes [OF ch'] u d by fastforce
    then have s: "hm_search_prev ?N k 0 (hm_bins h ! ?i) = Some (last (0 # us), a)"
      using hm_search_prev_chain [OF ch'] a(3,4) by simp
    text \<open>What both branches establish.\<close>
    have goal: "hm_rep hash h' (m(k := None))"
      if b: "length (hm_bins h') = length (hm_bins h)" "\<And>j. j \<noteq> ?i \<Longrightarrow> hm_bins h' ! j = hm_bins h ! j"
        and c: "chain (hm_nodes h') (hm_bins h' ! ?i) (us @ vs)"
        and N: "\<And>x. (hm_nodes h' x = None \<longleftrightarrow> x = a \<or> ?N x = None)"
        and K: "\<And>x n n'. hm_nodes h' x = Some n' \<Longrightarrow> ?N x = Some n \<Longrightarrow> ln_key n' = ln_key n \<and> ln_value n' = ln_value n"
        and O: "\<And>x. x \<notin> set (us @ a # vs) \<Longrightarrow> hm_nodes h' x = ?N x" for h'
    proof -
      have key: "nkey (hm_nodes h') x = nkey ?N x" if "x \<noteq> a" "?N x \<noteq> None" for x using that N [of x] K [of x] by auto
      have mk: "map (nkey (hm_nodes h')) (us @ vs) = map (nkey ?N) (us @ vs)"       proof (rule map_cong [OF refl])
        fix x assume "x \<in> set (us @ vs)"
        then show "nkey (hm_nodes h') x = nkey ?N x" using d chain_nodes [OF ch', of x] by (intro key) auto
      qed
      have "hm_ok hash h' (ns(?i := us @ vs))"
      proof (rule hm_ok_bin [OF ok i])
        show "hm_nodes h' x = ?N x" if "j < length (hm_bins h)" "j \<noteq> ?i" "x \<in> set (ns j)" for x j
          using O [of x] hm_okD(3) [OF ok that(1,3)] hm_okD(3) [OF ok i, of x] that(2) ns by auto
        have "set (us @ a # vs) \<subseteq> dom ?N" using chain_nodes [OF ch'] by blast
        moreover have "dom (hm_nodes h') = dom ?N - {a}" using N by (auto simp: dom_def)
        ultimately show "dom (hm_nodes h') = dom ?N - set (ns ?i) \<union> set (us @ vs)" using d unfolding ns by auto
        show "hm_index hash h (nkey (hm_nodes h') x) = ?i" if x: "x \<in> set (us @ vs)" for x
        proof -
          have "x \<noteq> a" "?N x \<noteq> None" using x d chain_nodes [OF ch', of x] by auto
          then have "nkey (hm_nodes h') x = nkey ?N x" by (rule key)
          then show ?thesis using hm_okD(3) [OF ok i, of x] x ns by simp
        qed
        show "distinct (map (nkey (hm_nodes h')) (us @ vs))" unfolding mk using hm_okD(4) [OF ok i] ns by simp
      qed (use b c d in auto)
      moreover have "(m(k := None)) k' = Some v' \<longleftrightarrow> (\<exists>x n. hm_nodes h' x = Some n \<and> ln_key n = k' \<and> ln_value n = v')" for k' v'
      proof (cases "k' = k")
        case True
        have "\<not> (\<exists>x n. hm_nodes h' x = Some n \<and> ln_key n = k \<and> ln_value n = v')"
          using u N K by (metis option.distinct(1) option.exhaust)
        with True show ?thesis by simp
      next
        case False
        have "(\<exists>x n. hm_nodes h' x = Some n \<and> ln_key n = k' \<and> ln_value n = v') \<longleftrightarrow> (\<exists>x n. ?N x = Some n \<and> ln_key n = k' \<and> ln_value n = v')"
          using False a(3,4) N K by (metis option.distinct(1) option.exhaust option.inject)
        with False m [of k' v'] show ?thesis by simp
      qed
      ultimately show ?thesis unfolding hm_rep_def by blast
    qed
    show ?thesis
    proof (cases us rule: rev_cases)
      case Nil
      let ?h = "\<lparr>hm_bins = (hm_bins h)[?i := ln_next n], hm_nodes = ?N(a := None)\<rparr>"
      have f: "hm_bins h ! ?i = a" using ch' Nil by simp
      have "hm_erase hash k h = Some ?h" using s a f by (simp add: hm_erase_def Let_def)
      moreover have "hm_rep hash ?h (m(k := None))"
      proof (rule goal)
        show "chain (hm_nodes ?h) (hm_bins ?h ! ?i) (us @ vs)" using chain_drop_first [of ?N a vs n] ch' d Nil f a(3) i by simp
      qed (auto split: if_splits)
      ultimately show ?thesis by blast
    next
      case (snoc us' b)
      obtain pb where pb: "?N b = Some pb" using chain_nodes [OF ch', of b] snoc by auto
      have nx: "ln_next pb = a"
      proof -
        have "chain N p (us' @ b # a # vs) \<Longrightarrow> N b = Some pb \<Longrightarrow> ln_next pb = a" for N :: "('a, 'b) nodes" and p
          by (induction us' arbitrary: p) auto
        then show ?thesis using ch' pb snoc by simp
      qed
      have ne: "a \<noteq> hm_bins h ! ?i" using ch' d snoc by (cases us') auto
      let ?h = "h\<lparr>hm_nodes := (?N(b \<mapsto> pb\<lparr>ln_next := ln_next n\<rparr>))(a := None)\<rparr>"
      have "hm_erase hash k h = Some ?h" using s a pb nx ne snoc by (simp add: hm_erase_def Let_def)
      moreover have "hm_rep hash ?h (m(k := None))"
      proof (rule goal)
        show "chain (hm_nodes ?h) (hm_bins ?h ! ?i) (us @ vs)" using chain_unlink [of ?N "hm_bins h ! ?i" us' b a vs pb n] ch' d snoc pb a(3) by simp
      qed (use pb d snoc in \<open>auto split: if_splits\<close>)
      ultimately show ?thesis by blast
    qed
  qed
qed

text \<open>Clearing: every node is freed.\<close>

lemma hm_free_bin_chain:
  "chain N p as \<Longrightarrow> distinct as \<Longrightarrow> hm_free_bin p N = Some (\<lambda>x. if x \<in> set as then None else N x)"
proof (induction as arbitrary: p N)
  case Nil
  then show ?case by (simp add: hm_free_bin.simps)
next
  case (Cons a as)
  then obtain n where n: "p = a" "a \<noteq> 0" "N a = Some n" "chain N (ln_next n) as" by auto
  then have "chain (N(a := None)) (ln_next n) as" using Cons.prems(2) chain_frame [of as "N(a := None)" N] by fastforce
  moreover have "(\<lambda>x. if x \<in> set as then None else (N(a := None)) x) = (\<lambda>x. if x \<in> set (a # as) then None else N x)"
    by auto
  ultimately have "hm_free_bin (ln_next n) (N(a := None)) = Some (\<lambda>x. if x \<in> set (a # as) then None else N x)"
    using Cons.IH [of "N(a := None)" "ln_next n"] Cons.prems(2) by (simp del: fun_upd_apply)
  with n show ?case by (subst hm_free_bin.simps) simp
qed

lemma hm_clear_bins_chains:
  "(\<And>i. i < length ps \<Longrightarrow> chain N (ps ! i) (ns i) \<and> distinct (ns i)) \<Longrightarrow>
   (\<And>i j. i < length ps \<Longrightarrow> j < length ps \<Longrightarrow> i \<noteq> j \<Longrightarrow> set (ns i) \<inter> set (ns j) = {}) \<Longrightarrow>
   hm_clear_bins ps N = Some (\<lambda>x. if x \<in> (\<Union>i < length ps. set (ns i)) then None else N x)"
proof (induction ps arbitrary: N ns)
  case (Cons p ps)
  let ?N = "\<lambda>x. if x \<in> set (ns 0) then None else N x"
  have f: "hm_free_bin p N = Some ?N" using hm_free_bin_chain [of N p "ns 0"] Cons.prems(1) [of 0] by simp
  have "hm_clear_bins ps ?N = Some (\<lambda>x. if x \<in> (\<Union>i < length ps. set ((ns \<circ> Suc) i)) then None else ?N x)"
  proof (rule Cons.IH)
    show "chain ?N (ps ! i) ((ns \<circ> Suc) i) \<and> distinct ((ns \<circ> Suc) i)" if "i < length ps" for i
    proof -
      have c: "chain N (ps ! i) (ns (Suc i))" "distinct (ns (Suc i))" using Cons.prems(1) [of "Suc i"] that by simp_all
      have "set (ns 0) \<inter> set (ns (Suc i)) = {}" using Cons.prems(2) [of 0 "Suc i"] that by simp
      then have "chain ?N (ps ! i) (ns (Suc i)) = chain N (ps ! i) (ns (Suc i))" by (intro chain_frame) auto
      with c show ?thesis by simp
    qed
  qed (use Cons.prems(2) in auto)
  moreover have "(\<Union>i < length (p # ps). set (ns i)) = set (ns 0) \<union> (\<Union>i < length ps. set ((ns \<circ> Suc) i))"
    by (auto simp: lessThan_Suc_eq_insert_0)
  ultimately show ?case using f by (auto intro!: ext)
qed simp

lemma hm_new_rep: "0 < n \<Longrightarrow> hm_rep hash (hm_new n) (\<lambda>_. None)"
  by (auto simp: hm_rep_def hm_ok_def hm_new_def intro!: exI [of _ "\<lambda>_. []"])

lemma hm_clear_rep:
  assumes r: "hm_rep hash h m"
  shows "hm_clear h = Some (hm_new (length (hm_bins h)))" and "hm_rep hash (hm_new (length (hm_bins h))) (\<lambda>_. None)"
proof -
  obtain ns where ok: "hm_ok hash h ns" using r by (auto simp: hm_rep_def)
  have ap: "set (ns i) \<inter> set (ns j) = {}" if "i < length (hm_bins h)" "j < length (hm_bins h)" "i \<noteq> j" for i j
    using hm_okD(3) [OF ok that(1)] hm_okD(3) [OF ok that(2)] that(3) by blast
  have "hm_clear_bins (hm_bins h) (hm_nodes h)
      = Some (\<lambda>x. if x \<in> (\<Union>i < length (hm_bins h). set (ns i)) then None else hm_nodes h x)"
    by (rule hm_clear_bins_chains) (use hm_okD(1,2) [OF ok] ap in auto)
  moreover have "(\<Union>i < length (hm_bins h). set (ns i)) = dom (hm_nodes h)" using ok by (simp add: hm_ok_def)
  ultimately show "hm_clear h = Some (hm_new (length (hm_bins h)))"
    by (auto simp: hm_clear_def hm_new_def intro!: ext)
  show "hm_rep hash (hm_new (length (hm_bins h))) (\<lambda>_. None)" using ok by (intro hm_new_rep) (simp add: hm_ok_def)
qed

lemma hm_find_rep:
  assumes r: "hm_rep hash h m"
  shows "\<exists>it. hm_find hash k h = Some it \<and> (hm_iter_eq it (hm_end h) \<longleftrightarrow> m k = None) \<and> (m k \<noteq> None \<longrightarrow> hm_deref it h = m k)"
    and "hm_find_bool hash k h = Some (m k \<noteq> None)"
proof -
  obtain ns where ok: "hm_ok hash h ns"
    and m: "\<And>k v. m k = Some v \<longleftrightarrow> (\<exists>a n. hm_nodes h a = Some n \<and> ln_key n = k \<and> ln_value n = v)"
    using r by (auto simp: hm_rep_def)
  let ?s = "hm_search (hm_nodes h) k (hm_bins h ! hm_index hash h k)"
  have "(?s = Some 0 \<and> m k = None) \<or> (\<exists>a n. ?s = Some a \<and> a \<noteq> 0 \<and> hm_nodes h a = Some n \<and> m k = Some (ln_value n))"
    using hm_lookup [OF ok, of k] m [of k] by (metis option.exhaust)
  then show "\<exists>it. hm_find hash k h = Some it \<and> (hm_iter_eq it (hm_end h) \<longleftrightarrow> m k = None) \<and> (m k \<noteq> None \<longrightarrow> hm_deref it h = m k)"
    and "hm_find_bool hash k h = Some (m k \<noteq> None)"
    by (elim disjE exE conjE; simp add: hm_find_def hm_find_bool_def hm_iter_eq_def hm_end_def hm_deref_def Let_def)+
qed

section \<open>Finite maps\<close>

text \<open>The interface of a map, and what a run of its operations computes.\<close>

datatype ('k, 'v) map_op = OpSet 'k 'v | OpErase 'k | OpClear

fun map_step :: "('k \<Rightarrow> 'v \<Rightarrow> 's \<Rightarrow> 's option) \<Rightarrow> ('k \<Rightarrow> 's \<Rightarrow> 's option) \<Rightarrow> ('s \<Rightarrow> 's option) \<Rightarrow> ('k, 'v) map_op \<Rightarrow> 's \<Rightarrow> 's option" where
  "map_step set' erase clear (OpSet k v) s = set' k v s"
| "map_step set' erase clear (OpErase k) s = erase k s"
| "map_step set' erase clear OpClear s = clear s"

fun map_run :: "('k \<Rightarrow> 'v \<Rightarrow> 's \<Rightarrow> 's option) \<Rightarrow> ('k \<Rightarrow> 's \<Rightarrow> 's option) \<Rightarrow> ('s \<Rightarrow> 's option) \<Rightarrow> ('k, 'v) map_op list \<Rightarrow> 's \<Rightarrow> 's option" where
  "map_run set' erase clear [] s = Some s"
| "map_run set' erase clear (op # ops) s = Option.bind (map_step set' erase clear op s) (map_run set' erase clear ops)"

fun map_spec :: "('k, 'v) map_op \<Rightarrow> ('k \<rightharpoonup> 'v) \<Rightarrow> ('k \<rightharpoonup> 'v)" where
  "map_spec (OpSet k v) m = m(k \<mapsto> v)"
| "map_spec (OpErase k) m = m(k := None)"
| "map_spec OpClear m = (\<lambda>_. None)"

locale finite_map =
  fixes rep :: "'s \<Rightarrow> ('k \<rightharpoonup> 'v) \<Rightarrow> bool"
    and get :: "'k \<Rightarrow> 's \<Rightarrow> 'v option option"
    and set' :: "'k \<Rightarrow> 'v \<Rightarrow> 's \<Rightarrow> 's option"
    and erase :: "'k \<Rightarrow> 's \<Rightarrow> 's option"
    and clear :: "'s \<Rightarrow> 's option"
  assumes get_law: "rep s m \<Longrightarrow> get k s = Some (m k)"
    and set_law: "rep s m \<Longrightarrow> \<exists>s'. set' k v s = Some s' \<and> rep s' (m(k \<mapsto> v))"
    and erase_law: "rep s m \<Longrightarrow> \<exists>s'. erase k s = Some s' \<and> rep s' (m(k := None))"
    and clear_law: "rep s m \<Longrightarrow> \<exists>s'. clear s = Some s' \<and> rep s' (\<lambda>_. None)"
begin

lemma step_refines: "rep s m \<Longrightarrow> \<exists>s'. map_step set' erase clear op s = Some s' \<and> rep s' (map_spec op m)"
  by (cases op) (simp_all add: set_law erase_law clear_law)

lemma run_refines: "rep s m \<Longrightarrow> \<exists>s'. map_run set' erase clear ops s = Some s' \<and> rep s' (fold map_spec ops m)"
proof (induction ops arbitrary: s m)
  case (Cons op ops)
  obtain s1 where "map_step set' erase clear op s = Some s1" "rep s1 (map_spec op m)"
    using step_refines [OF Cons.prems] by blast
  then show ?case using Cons.IH [of s1] by simp
qed simp

lemma run_get: "rep s m \<Longrightarrow> \<exists>s'. map_run set' erase clear ops s = Some s' \<and> get k s' = Some (fold map_spec ops m k)"
  using run_refines get_law by blast

end

text \<open>An allocator that never fails and never hands out an address that is in use.\<close>

definition fresh_alloc :: "(('k, 'v) nodes \<Rightarrow> nat) \<Rightarrow> bool" where
  "fresh_alloc alloc \<longleftrightarrow> (\<forall>N. finite (dom N) \<longrightarrow> alloc N \<noteq> 0 \<and> N (alloc N) = None)"

definition first_free :: "('k, 'v) nodes \<Rightarrow> nat" where
  "first_free N = Suc (Max (insert 0 (dom N)))"

lemma first_free_fresh: "fresh_alloc first_free"
proof -
  have "N (first_free N) = None" if f: "finite (dom N)" for N :: "('a, 'b) nodes"
  proof (rule ccontr)
    assume "N (first_free N) \<noteq> None"
    then have "first_free N \<le> Max (insert 0 (dom N))" using f by (intro Max_ge) auto
    then show False by (simp add: first_free_def)
  qed
  then show ?thesis by (simp add: fresh_alloc_def first_free_def)
qed

lemma hm_finite_map: "fresh_alloc alloc \<Longrightarrow> finite_map (hm_rep hash) (hm_get hash) (hm_set alloc hash) (hm_erase hash) hm_clear"
proof (rule finite_map.intro)
  fix h :: "('a, 'b) hashmap" and m k v
  assume r: "hm_rep hash h m"
  show "hm_get hash k h = Some (m k)" by (rule hm_get_rep [OF r])
  show "\<exists>s'. hm_erase hash k h = Some s' \<and> hm_rep hash s' (m(k := None))" by (rule hm_erase_rep [OF r])
  show "\<exists>s'. hm_clear h = Some s' \<and> hm_rep hash s' (\<lambda>_. None)" using hm_clear_rep [OF r] by blast
  assume "fresh_alloc alloc"
  then show "\<exists>s'. hm_set alloc hash k v h = Some s' \<and> hm_rep hash s' (m(k \<mapsto> v))"
    by (intro hm_set_rep [OF r]) (simp add: fresh_alloc_def)
qed

interpretation hm: finite_map "hm_rep hash" "hm_get hash" "hm_set first_free hash" "hm_erase hash" hm_clear for hash
  by (rule hm_finite_map [OF first_free_fresh])

text \<open>\<open>begin\<close> is the first node of bin 0, which is the end when this bin is empty.\<close>

theorem begin_misses_elements:
  "\<exists>h. map_run (hm_set first_free hash_size_t) (hm_erase hash_size_t) hm_clear [OpSet 1 True] (hm_new 511) = Some h \<and>
    hm_get hash_size_t 1 h = Some (Some True) \<and> hm_iter_eq (hm_begin h) (hm_end h)"
proof -
  have i: "unat (1 :: u32) mod 511 = 1" by simp
  have "hm_set first_free hash_size_t 1 True (hm_new 511) =
      Some \<lparr>hm_bins = (replicate 511 0)[1 := 1], hm_nodes = [1 \<mapsto> \<lparr>ln_key = 1, ln_value = True, ln_next = 0\<rparr>]\<rparr>" (is "_ = Some ?h")
    by (simp add: hm_set_def hm_insert_def hm_index_def hash_size_t_def hm_new_def i first_free_def Let_def hm_search.simps)
  moreover have "hm_get hash_size_t 1 ?h = Some (Some True)"
    by (simp add: hm_get_def hm_index_def hash_size_t_def i hm_search.simps Let_def)
  moreover have "hm_iter_eq (hm_begin ?h) (hm_end ?h)"
    by (simp add: hm_iter_eq_def hm_begin_def hm_end_def)
  ultimately show ?thesis by simp
qed

section \<open>Properties\<close>

text \<open>C23: a hash table behaves as a finite map: whatever sequence of \<open>set\<close>, \<open>erase\<close> and \<open>clear\<close> is run on a new
  table with at least one bin, it ends and never touches a node that is not allocated, and afterwards \<open>get\<close>,
  \<open>find_bool\<close> and \<open>find\<close> answer as the map does that results from the same operations.\<close>

theorem MyHashMap_refines_map:
  fixes ops
  assumes "fresh_alloc alloc" and "0 < n"
  defines "m \<equiv> fold map_spec ops (\<lambda>_. None)"
  shows "\<exists>h. map_run (hm_set alloc hash) (hm_erase hash) hm_clear ops (hm_new n) = Some h \<and>
    hm_get hash k h = Some (m k) \<and> hm_find_bool hash k h = Some (m k \<noteq> None) \<and>
    (\<exists>it. hm_find hash k h = Some it \<and> (hm_iter_eq it (hm_end h) \<longleftrightarrow> m k = None) \<and> (m k \<noteq> None \<longrightarrow> hm_deref it h = m k))"
proof -
  obtain h where "map_run (hm_set alloc hash) (hm_erase hash) hm_clear ops (hm_new n) = Some h" "hm_rep hash h m"
    using finite_map.run_refines [OF hm_finite_map [OF assms(1)] hm_new_rep [OF assms(2)]] unfolding m_def by blast
  then show ?thesis using hm_get_rep [of hash h m k] hm_find_rep [of hash h m k] by (intro exI [of _ h] conjI) simp_all
qed

theorem MyHashMap_refines_map_witness:
  "\<exists>h. map_run (hm_set first_free hash_size_t) (hm_erase hash_size_t) hm_clear [OpSet 3 True, OpSet 514 False, OpErase 3] (hm_new INITIAL_NUM_BINS) = Some h \<and>
    hm_get hash_size_t 514 h = Some (Some False)"
  using MyHashMap_refines_map [OF first_free_fresh, where n = INITIAL_NUM_BINS and ops = "[OpSet 3 True, OpSet 514 False, OpErase 3]" and hash = hash_size_t and k = 514]
  by (auto simp: INITIAL_NUM_BINS_def)

end
