(* ===== verification/Hl_Check.thy ===== *)
theory Hl_Check
  imports Hl_Source
begin

text \<open>
  Layers that check their clients: \<open>heaplayers/sanitycheckheap.h\<close>, which knows the objects it handed out and lets
  only valid calls of \<open>free\<close> through, \<open>heaplayers/debugheap.h\<close> with its canary, \<open>heaplayers/checkheap.h\<close>, and the
  layers that report failures as exceptions, \<open>heaplayers/exceptionheap.h\<close>.
\<close>

section \<open>Filling memory\<close>

text \<open>\<open>memset (ptr, c, n)\<close> for a pointer to a word: whole words, and the lower bytes of the last one.\<close>

definition fill_pattern :: "u32 \<Rightarrow> u32" where "fill_pattern c = c * 0x01010101"

definition fill_word :: "u32 \<Rightarrow> nat \<Rightarrow> u32 \<Rightarrow> u32" where
  "fill_word c k w = (if k \<ge> 4 then fill_pattern c
     else (w AND NOT (mask (8 * k))) OR (fill_pattern c AND mask (8 * k)))"

definition memset_c :: "u32 \<Rightarrow> u32 \<Rightarrow> u32 \<Rightarrow> hmem \<Rightarrow> hmem" where
  "memset_c ptr c n m = (\<lambda>a. if a - ptr < n then fill_word c (unat n - unat (a - ptr)) (m a) else m a)"

lemma memset_c_outside: "a \<notin> {x. x - ptr < n} \<Longrightarrow> memset_c ptr c n m a = m a"
  by (simp add: memset_c_def)

lemma in_block: "unat p + unat n < 2 ^ 32 \<Longrightarrow> a - p < n \<longleftrightarrow> unat a \<in> blk (p, unat n)"
proof -
  assume b: "unat p + unat n < 2 ^ 32"
  show ?thesis
  proof (cases "p \<le> a")
    case True
    then have "unat (a - p) = unat a - unat p" "unat p \<le> unat a" by (simp_all add: unat_sub word_le_nat_alt)
    then show ?thesis by (auto simp: word_less_nat_alt blk_def)
  next
    case False
    then have l: "unat a < unat p" by (simp add: word_le_nat_alt)
    have "unat (a - p) = unat a + 2 ^ 32 - unat p"
    proof -
      have "unat p \<le> unat a + 2 ^ 32" using unsigned_less [of p, where ?'a = nat] by simp
      then have "of_nat (unat a + 2 ^ 32 - unat p) = (of_nat (unat a + 2 ^ 32) - of_nat (unat p) :: u32)" by (rule of_nat_diff)
      then have "a - p = of_nat (unat a + 2 ^ 32 - unat p)" by simp
      moreover have "unat a + 2 ^ 32 - unat p < 2 ^ 32" using l by simp
      ultimately show ?thesis by (simp add: unat_of_nat32)
    qed
    then show ?thesis using b l by (auto simp: word_less_nat_alt blk_def)
  qed
qed

section \<open>\<open>SanityCheckHeap\<close>\<close>

text \<open>\<open>allocatedObjects\<close> maps the address of an object to its size, an \<open>int\<close>, or to \<open>FREED\<close>.\<close>

definition FREED :: u32 where "FREED = - 1"

type_synonym checked = "u32 \<rightharpoonup> u32"

definition SanityCheckHeap_malloc ::
  "(u32 \<Rightarrow> 'h hstate \<Rightarrow> (u32 \<times> 'h hstate) option) \<Rightarrow> u32 \<Rightarrow> (checked \<times> 'h) hstate \<Rightarrow> (u32 \<times> (checked \<times> 'h) hstate) option" where
  "SanityCheckHeap_malloc smalloc sz = (\<lambda>((t, h), m).
     map_option (\<lambda>(ptr, (h, m)).
       if ptr = 0 then (0, ((t, h), m))
       else let m = memset_c ptr 0x41 sz m
            in (case t ptr of
                  None \<Rightarrow> (ptr, ((t(ptr \<mapsto> sz), h), m))
                | Some s \<Rightarrow> if s \<noteq> FREED then (0, ((t, h), m)) else (ptr, ((t(ptr \<mapsto> sz), h), m))))
       (smalloc sz (h, m)))"

definition SanityCheckHeap_free ::
  "(u32 \<Rightarrow> 'h hstate \<Rightarrow> 'h hstate option) \<Rightarrow> u32 \<Rightarrow> (checked \<times> 'h) hstate \<Rightarrow> (checked \<times> 'h) hstate option" where
  "SanityCheckHeap_free sfree ptr = (\<lambda>((t, h), m).
     case t ptr of
       None \<Rightarrow> Some ((t, h), m)
     | Some s \<Rightarrow>
         if s = FREED then Some ((t, h), m)
         else let m = memset_c ptr 0x46 s m;
                  t = t(ptr \<mapsto> FREED)
              in map_option (\<lambda>(h, m). ((t, h), m)) (sfree ptr (h, m)))"

text \<open>The objects in use according to the table.\<close>

definition in_use :: "checked \<Rightarrow> block set" where
  "in_use t = {(p, unat s) | p s. t p = Some s \<and> s \<noteq> FREED}"

definition checked_inv :: "('h hstate \<Rightarrow> block set \<Rightarrow> bool) \<Rightarrow> (checked \<times> 'h) hstate \<Rightarrow> block set \<Rightarrow> bool" where
  "checked_inv sinv = (\<lambda>((t, h), m) L. L = in_use t \<and> sinv (h, m) L)"

lemma in_use_fun: "(p, n) \<in> in_use t \<Longrightarrow> (p, k) \<in> in_use t \<Longrightarrow> n = k"
  by (auto simp: in_use_def)

lemma in_use_add: "t p = None \<or> t p = Some FREED \<Longrightarrow> s \<noteq> FREED \<Longrightarrow> in_use (t(p \<mapsto> s)) = insert (p, unat s) (in_use t)"
  by (auto simp: in_use_def)

lemma in_use_drop: "t p = Some s \<Longrightarrow> s \<noteq> FREED \<Longrightarrow> in_use (t(p \<mapsto> FREED)) = in_use t - {(p, unat s)}"
  by (auto simp: in_use_def split: if_splits) (metis option.inject)+

text \<open>What a client may ask, of objects it owns or not.\<close>

datatype heap_call = Malloc u32 | Free u32

fun checked_call ::
  "(u32 \<Rightarrow> 'h hstate \<Rightarrow> (u32 \<times> 'h hstate) option) \<Rightarrow> (u32 \<Rightarrow> 'h hstate \<Rightarrow> 'h hstate option)
   \<Rightarrow> heap_call \<Rightarrow> (checked \<times> 'h) hstate \<Rightarrow> (checked \<times> 'h) hstate option" where
  "checked_call smalloc sfree (Malloc sz) st = map_option snd (SanityCheckHeap_malloc smalloc sz st)"
| "checked_call smalloc sfree (Free p) st = SanityCheckHeap_free sfree p st"

fun checked_calls ::
  "(u32 \<Rightarrow> 'h hstate \<Rightarrow> (u32 \<times> 'h hstate) option) \<Rightarrow> (u32 \<Rightarrow> 'h hstate \<Rightarrow> 'h hstate option)
   \<Rightarrow> heap_call list \<Rightarrow> (checked \<times> 'h) hstate \<Rightarrow> (checked \<times> 'h) hstate option" where
  "checked_calls smalloc sfree [] st = Some st"
| "checked_calls smalloc sfree (c # cs) st =
     Option.bind (checked_call smalloc sfree c st) (checked_calls smalloc sfree cs)"

text \<open>A block of a source heap and the words of another block.\<close>

lemma block_word_apart:
  assumes "ok_blocks L" and "(p, n) \<in> L" and "covered (L - {(p, n)}) a"
  shows "unat a \<notin> blk (p, n)"
proof
  assume a: "unat a \<in> blk (p, n)"
  obtain b where b: "b \<in> L" "b \<noteq> (p, n)" "unat a \<in> blk b" using assms(3) by (auto simp: covered_def)
  then have "blk b \<inter> blk (p, n) = {}" using assms(1,2) by (intro ok_blocks_apart [OF assms(1)]) auto
  with a b(3) show False by blast
qed

context source_heap
begin

lemma memset_inv:
  assumes "inv (h, m) L" and "(p, unat n) \<in> L"
  shows "inv (h, memset_c p c n m) L"
proof (rule inv_frame [OF assms(1)])
  fix a assume "\<not> covered L a"
  then have "unat a \<notin> blk (p, unat n)" using assms(2) by (auto simp: covered_def)
  moreover have "unat p + unat n < 2 ^ 32" using inv_blocks [OF assms(1)] assms(2) by (auto simp: ok_blocks_def ok_block_def)
  ultimately show "memset_c p c n m a = m a" by (simp add: memset_c_def in_block)
qed

lemma memset_other:
  assumes "ok_blocks L" and "(p, unat n) \<in> L" and "covered (L - {(p, unat n)}) a"
  shows "memset_c p c n m a = m a"
proof -
  have "unat p + unat n < 2 ^ 32" using assms(1,2) by (auto simp: ok_blocks_def ok_block_def)
  then show ?thesis using block_word_apart [OF assms] by (simp add: memset_c_def in_block)
qed

text \<open>An address in use cannot come from the super heap again.\<close>

lemma fresh_address:
  assumes "ok_blocks (insert (p, n) L)" and "(p, n) \<notin> L" and "(p, k) \<in> L" and "0 < n" "0 < k"
  shows False
proof -
  have "blk (p, n) \<inter> blk (p, k) = {}" using assms(2,3) by (intro ok_blocks_apart [OF assms(1)]) auto
  moreover have "unat p \<in> blk (p, n) \<inter> blk (p, k)" using assms(4,5) by (simp add: blk_def)
  ultimately show False by blast
qed

lemma checked_malloc:
  assumes i: "checked_inv inv st L" "\<forall>b \<in> L. 0 < snd b" and sz: "oksize sz" "sz \<noteq> FREED" "0 < sz"
  shows "\<exists>p st'. SanityCheckHeap_malloc malloc sz st = Some (p, st') \<and>
    (if p = 0 then checked_inv inv st' L else checked_inv inv st' (insert (p, unat sz) L) \<and> (p, unat sz) \<notin> L) \<and>
    (\<forall>a. covered L a \<longrightarrow> snd st' a = snd st a)"
proof -
  obtain t h m where st: "st = ((t, h), m)" by (metis surj_pair)
  have L: "L = in_use t" "inv (h, m) L" using i unfolding checked_inv_def st prod.case by blast+
  have s0: "0 < unat sz" using sz(3) by (simp add: word_less_nat_alt)
  from L(2) sz(1) show ?thesis
  proof (cases rule: malloc_cases)
    case (null st')
    then show ?thesis using L by (intro exI [of _ 0] exI [of _ "((t, fst st'), snd st')"])
      (auto simp: SanityCheckHeap_malloc_def checked_inv_def st case_prod_unfold)
  next
    case (block p st')
    obtain h' m' where st': "st' = (h', m')" by (cases st')
    have ok: "ok_blocks (insert (p, unat sz) L)" using inv_blocks block by blast
    have free: "t p = None \<or> t p = Some FREED"
    proof (rule ccontr)
      assume "\<not> (t p = None \<or> t p = Some FREED)"
      then obtain s where "t p = Some s" "s \<noteq> FREED" by (cases "t p") auto
      then have "(p, unat s) \<in> L" by (auto simp: L(1) in_use_def)
      then show False using fresh_address [OF ok _ _ s0, of "unat s"] block i(2) by auto
    qed
    let ?st = "((t(p \<mapsto> sz), h'), memset_c p 0x41 sz m')"
    have "SanityCheckHeap_malloc malloc sz st = Some (p, ?st)"
      using block free by (auto simp: SanityCheckHeap_malloc_def st st' Let_def split: option.splits)
    moreover have "inv (h', memset_c p 0x41 sz m') (insert (p, unat sz) L)" using block by (intro memset_inv) (simp_all add: st')
    then have "checked_inv inv ?st (insert (p, unat sz) L)" using in_use_add [of t p sz] free sz(2) L(1) by (simp add: checked_inv_def)
    moreover have "memset_c p 0x41 sz m' a = m a" if "covered L a" for a
    proof -
      have "covered (insert (p, unat sz) L - {(p, unat sz)}) a" using that block by simp
      then have "memset_c p 0x41 sz m' a = m' a" by (intro memset_other [OF ok]) simp_all
      then show ?thesis using block that by (simp add: st')
    qed
    ultimately show ?thesis using block by (intro exI [of _ p] exI [of _ ?st]) (simp add: st)
  qed
qed

lemma checked_free:
  assumes i: "checked_inv inv st L"
  shows "\<exists>st'. SanityCheckHeap_free free p st = Some st' \<and> checked_inv inv st' (L - {b \<in> L. fst b = p}) \<and>
    (\<forall>a. covered (L - {b \<in> L. fst b = p}) a \<longrightarrow> snd st' a = snd st a)"
proof -
  obtain t h m where st: "st = ((t, h), m)" by (metis surj_pair)
  have L: "L = in_use t" "inv (h, m) L" using i unfolding checked_inv_def st prod.case by blast+
  show ?thesis
  proof (cases "t p = None \<or> t p = Some FREED")
    case True
    then have "SanityCheckHeap_free free p st = Some st" by (auto simp: SanityCheckHeap_free_def st)
    moreover have "{b \<in> L. fst b = p} = {}" unfolding L(1) in_use_def using True by auto
    then have "L - {b \<in> L. fst b = p} = L" by (simp only: Diff_empty)
    ultimately show ?thesis using i by simp
  next
    case False
    then obtain s where s: "t p = Some s" "s \<noteq> FREED" by (cases "t p") auto
    then have pL: "(p, unat s) \<in> L" unfolding L(1) in_use_def by blast
    have "{b \<in> L. fst b = p} = {(p, unat s)}" unfolding L(1) in_use_def using s by auto
    then have e: "L - {b \<in> L. fst b = p} = L - {(p, unat s)}" by simp
    have i1: "inv (h, memset_c p 0x46 s m) L" using L(2) pL by (rule memset_inv)
    obtain h' m' where f: "free p (h, memset_c p 0x46 s m) = Some (h', m')" "inv (h', m') (L - {(p, unat s)})"
      "\<forall>a. covered (L - {(p, unat s)}) a \<longrightarrow> m' a = memset_c p 0x46 s m a" using free_law [OF i1 pL] by fastforce
    have "SanityCheckHeap_free free p st = Some ((t(p \<mapsto> FREED), h'), m')"
      using s f by (simp add: SanityCheckHeap_free_def st Let_def)
    moreover have "checked_inv inv ((t(p \<mapsto> FREED), h'), m') (L - {(p, unat s)})"
      using f in_use_drop [of t p s] s L(1) by (simp add: checked_inv_def)
    ultimately show ?thesis unfolding e
      using f(3) memset_other [OF inv_blocks [OF L(2)] pL] by (intro exI [of _ "((t(p \<mapsto> FREED), h'), m')"]) (simp add: st)
  qed
qed

text \<open>No sequence of calls, right or wrong, brings the heap below out of its contract.\<close>

lemma checked_calls_safe:
  assumes "checked_inv inv st L" "\<forall>b \<in> L. 0 < snd b"
    and "\<forall>c \<in> set cs. case c of Malloc sz \<Rightarrow> oksize sz \<and> sz \<noteq> FREED \<and> 0 < sz | Free p \<Rightarrow> True"
  shows "\<exists>st' L'. checked_calls malloc free cs st = Some st' \<and> checked_inv inv st' L' \<and> (\<forall>b \<in> L'. 0 < snd b)"
  using assms
proof (induction cs arbitrary: st L)
  case (Cons c cs)
  have "\<exists>st1 L1. checked_call malloc free c st = Some st1 \<and> checked_inv inv st1 L1 \<and> (\<forall>b \<in> L1. 0 < snd b)"
  proof (cases c)
    case (Malloc sz)
    then have sz: "oksize sz" "sz \<noteq> FREED" "0 < sz" using Cons.prems(3) by simp_all
    obtain p st1 where p: "SanityCheckHeap_malloc malloc sz st = Some (p, st1)"
      "if p = 0 then checked_inv inv st1 L else checked_inv inv st1 (insert (p, unat sz) L) \<and> (p, unat sz) \<notin> L"
      using checked_malloc [OF Cons.prems(1,2) sz] by blast
    have "0 < unat sz" using sz(3) by (simp add: word_less_nat_alt)
    then show ?thesis using p Cons.prems(2) Malloc by (auto split: if_splits)
  next
    case (Free p)
    then show ?thesis using checked_free [OF Cons.prems(1), of p] Cons.prems(2) by fastforce
  qed
  then obtain st1 L1 where "checked_call malloc free c st = Some st1" "checked_inv inv st1 L1" "\<forall>b \<in> L1. 0 < snd b" by blast
  then show ?case using Cons.IH [of st1 L1] Cons.prems(3) by auto
qed auto

end

section \<open>\<open>DebugHeap\<close>\<close>

text \<open>
  For objects whose size is a multiple of a word. A failed allocation of the super heap, which the layer does not
  look at, is the result \<open>None\<close>, as is \<open>abort\<close>.
\<close>

definition CANARY :: u32 where "CANARY = 0xdeadbeef"

definition DebugHeap_malloc ::
  "(u32 \<Rightarrow> 'h hstate \<Rightarrow> (u32 \<times> 'h hstate) option) \<Rightarrow> u32 \<Rightarrow> 'h hstate \<Rightarrow> (u32 \<times> 'h hstate) option" where
  "DebugHeap_malloc smalloc sz st =
     Option.bind (smalloc (sz + 4) st) (\<lambda>(ptr, (h, m)).
       if ptr = 0 then None
       else let m = memset_c ptr 0x41 sz m;
                m = m(ptr + sz := CANARY)
            in Some (ptr, (h, m)))"

definition DebugHeap_free ::
  "(u32 \<Rightarrow> 'h hstate \<Rightarrow> 'h hstate option) \<Rightarrow> (u32 \<Rightarrow> 'h hstate \<Rightarrow> u32) \<Rightarrow> u32 \<Rightarrow> u32 \<Rightarrow> 'h hstate \<Rightarrow> 'h hstate option" where
  "DebugHeap_free sfree sgetSize freeChar ptr = (\<lambda>(h, m).
     let sz = sgetSize ptr (h, m);
         storedCanary = m (ptr + 4 * sz - 4 * 4)
     in if storedCanary \<noteq> CANARY then None
        else sfree ptr (h, memset_c ptr freeChar sz m))"

text \<open>
  The canary is looked up by words where it was stored by bytes: an object that is freed as it was allocated makes
  the program abort unless the word at four times the requested size happens to be the canary.
\<close>

theorem DebugHeap_free_aborts:
  assumes "DebugHeap_malloc smalloc sz st = Some (p, st')" and "sgetSize p st' = sz + 4" and "snd st' (p + 4 * sz) \<noteq> CANARY"
  shows "DebugHeap_free sfree sgetSize freeChar p st' = None"
proof -
  have "p + 4 * (sz + 4) - 4 * 4 = p + 4 * sz" by (simp add: algebra_simps)
  then show ?thesis using assms by (cases st') (simp add: DebugHeap_free_def Let_def)
qed

section \<open>\<open>CheckHeap\<close>\<close>

definition CheckHeap_malloc ::
  "(u32 \<Rightarrow> 'h hstate \<Rightarrow> (u32 \<times> 'h hstate) option) \<Rightarrow> u32 \<Rightarrow> 'h hstate \<Rightarrow> (u32 \<times> 'h hstate) option" where
  "CheckHeap_malloc smalloc sz st =
     Option.bind (smalloc sz st) (\<lambda>(addr, st).
       if addr = 0 then None
       else if unat addr mod 8 \<noteq> 0 then None
       else Some (addr, st))"

text \<open>Over a source heap that does not run out of memory the checks never fail.\<close>

lemma CheckHeap_passes: "smalloc sz st = Some (p, st') \<Longrightarrow> ok_block (p, n) \<Longrightarrow> CheckHeap_malloc smalloc sz st = smalloc sz st"
  by (simp add: CheckHeap_malloc_def ok_block_def dvd_eq_mod_eq_0)

section \<open>Exceptions\<close>

text \<open>
  A call returns or throws; what is thrown is a \<open>bad_alloc\<close> or, as \<open>throw new std::bad_alloc\<close> does, a pointer to one.
\<close>

datatype thrown = Bad_alloc | Bad_alloc_pointer

definition ExceptionHeap_malloc ::
  "(u32 \<Rightarrow> 's \<Rightarrow> u32 \<times> 's) \<Rightarrow> u32 \<Rightarrow> 's \<Rightarrow> (thrown \<times> 's) + (u32 \<times> 's)" where
  "ExceptionHeap_malloc smalloc sz st =
     (let (ptr, st) = smalloc sz st in if ptr = 0 then Inl (Bad_alloc_pointer, st) else Inr (ptr, st))"

definition CatchExceptionHeap_malloc ::
  "(u32 \<Rightarrow> 's \<Rightarrow> (thrown \<times> 's) + (u32 \<times> 's)) \<Rightarrow> u32 \<Rightarrow> 's \<Rightarrow> (thrown \<times> 's) + (u32 \<times> 's)" where
  "CatchExceptionHeap_malloc smalloc sz st =
     (case smalloc sz st of
        Inl (Bad_alloc, st) \<Rightarrow> Inr (0, st)
      | Inl (e, st) \<Rightarrow> Inl (e, st)
      | Inr r \<Rightarrow> Inr r)"

text \<open>So the exception of one layer passes through the handler of the other.\<close>

theorem exception_not_caught:
  "smalloc sz st = (0, st') \<Longrightarrow> CatchExceptionHeap_malloc (ExceptionHeap_malloc smalloc) sz st = Inl (Bad_alloc_pointer, st')"
  by (simp add: CatchExceptionHeap_malloc_def ExceptionHeap_malloc_def)

section \<open>Properties\<close>



end
