(* ===== verification/Hl_Layers.thy ===== *)
theory Hl_Layers
  imports Hl_Source
begin

text \<open>
  The small layers of \<open>heaplayers\<close>: sources of memory (\<open>nullheap.h\<close>, \<open>sbrkheap.h\<close>, \<open>staticheap.h\<close>), layers that carve
  objects out of larger pieces (\<open>chunkheap.h\<close>, \<open>slopheap.h\<close>), layers that put a header in front of an object
  (\<open>sizeheap.h\<close>, \<open>addheap.h\<close>, \<open>sizeownerheap.h\<close>, \<open>sizethreadheap.h\<close>), and layers that choose between heaps
  (\<open>tryheap.h\<close>, \<open>hybridheap.h\<close>, \<open>threadheap.h\<close>, \<open>phothreadheap.h\<close>). Operations of super heaps are parameters.
\<close>

section \<open>Sources\<close>

definition NullHeap_malloc :: "u32 \<Rightarrow> unit hstate \<Rightarrow> (u32 \<times> unit hstate) option" where
  "NullHeap_malloc sz st = Some (0, st)"
definition NullHeap_free :: "u32 \<Rightarrow> unit hstate \<Rightarrow> unit hstate option" where "NullHeap_free p st = Some st"
definition NullHeap_remove :: "u32 \<Rightarrow> int" where "NullHeap_remove p = 0"
definition NullHeap_clear :: "unit hstate \<Rightarrow> unit hstate" where "NullHeap_clear st = st"
definition NullHeap_getSize :: "u32 \<Rightarrow> u32" where "NullHeap_getSize p = 0"

interpretation null: source_heap NullHeap_malloc NullHeap_free "\<lambda>_. True" "\<lambda>_ L. L = {}"
  by unfold_locales (auto simp: NullHeap_malloc_def NullHeap_free_def)

text \<open>\<open>sbrk\<close> is a parameter; it reports a failure by the address \<open>-1\<close>, which the layer passes on.\<close>

definition SbrkHeap_malloc ::
  "(u32 \<Rightarrow> 'h hstate \<Rightarrow> u32 \<times> 'h hstate) \<Rightarrow> u32 \<Rightarrow> 'h hstate \<Rightarrow> (u32 \<times> 'h hstate) option" where
  "SbrkHeap_malloc sbrk sz st = Some (sbrk sz st)"
definition SbrkHeap_free :: "u32 \<Rightarrow> 'h hstate \<Rightarrow> 'h hstate option" where "SbrkHeap_free p st = Some st"
definition SbrkHeap_remove :: "u32 \<Rightarrow> int" where "SbrkHeap_remove p = 0"

theorem SbrkHeap_failure_not_null:
  "sbrk sz st = (- 1, st) \<Longrightarrow> SbrkHeap_malloc sbrk sz st = Some (- 1, st)"
  by (simp add: SbrkHeap_malloc_def)

record static_heap =
  sh_buf :: u32
  sh_ptr :: u32
  sh_remaining :: u32

definition StaticHeap_new :: "u32 \<Rightarrow> u32 \<Rightarrow> static_heap" where
  "StaticHeap_new buf MemorySize = \<lparr>sh_buf = buf, sh_ptr = buf, sh_remaining = MemorySize\<rparr>"

definition StaticHeap_malloc :: "u32 \<Rightarrow> static_heap hstate \<Rightarrow> (u32 \<times> static_heap hstate) option" where
  "StaticHeap_malloc sz = (\<lambda>(h, m).
     if sh_remaining h < sz then Some (0, (h, m))
     else let p = sh_ptr h
          in Some (p, (h\<lparr>sh_ptr := sh_ptr h + sz, sh_remaining := sh_remaining h - sz\<rparr>, m)))"

definition StaticHeap_free :: "u32 \<Rightarrow> static_heap hstate \<Rightarrow> static_heap hstate option" where "StaticHeap_free p st = Some st"
definition StaticHeap_remove :: "u32 \<Rightarrow> int" where "StaticHeap_remove p = 0"

definition StaticHeap_isValid :: "static_heap \<Rightarrow> u32 \<Rightarrow> bool" where
  "StaticHeap_isValid h ptr \<longleftrightarrow> ptr \<ge> sh_buf h \<and> ptr < sh_buf h"

theorem StaticHeap_nothing_valid: "\<not> StaticHeap_isValid h ptr"
  by (simp add: StaticHeap_isValid_def not_less)

section \<open>Carving\<close>

text \<open>
  The bytes from \<open>b\<close> to \<open>e\<close> belong to the blocks \<open>A\<close> of the super heap and to none of the blocks \<open>L\<close> that were handed
  out, which belong to \<open>A\<close> as well.
\<close>

definition free_region :: "block set \<Rightarrow> block set \<Rightarrow> nat \<Rightarrow> nat \<Rightarrow> bool" where
  "free_region A L b e \<longleftrightarrow> ok_blocks L \<and> (\<forall>c \<in> L. 0 < snd c \<and> blk c \<subseteq> \<Union> (blk ` A)) \<and>
     b \<le> e \<and> e < 2 ^ 32 \<and> 0 < b \<and> 8 dvd b \<and> {b ..< e} \<subseteq> \<Union> (blk ` A) \<and> (\<forall>c \<in> L. blk c \<inter> {b ..< e} = {})"

lemma free_region_sub: "free_region A L b e \<Longrightarrow> K \<subseteq> L \<Longrightarrow> free_region A K b e"
  unfolding free_region_def by (meson ok_blocks_mono subsetD)

lemma free_region_more: "free_region A L b e \<Longrightarrow> free_region (insert c A) L b e"
  unfolding free_region_def by auto

lemma free_region_carve:
  assumes "free_region A L b e" and "b + n \<le> e" and "0 < n" "8 dvd n" and "unat p = b"
  shows "free_region A (insert (p, n) L) (b + n) e" and "(p, n) \<notin> L"
proof -
  have p: "blk (p, n) = {b ..< b + n}" using assms(5) by (simp add: blk_def)
  have ap: "blk (p, n) \<inter> blk c = {}" if "c \<in> L" for c
    using assms(1,2) that unfolding free_region_def p by fastforce
  have ap2: "blk c \<inter> {b + n ..< e} = {}" if "c \<in> L" for c
    using assms(1) that unfolding free_region_def by fastforce
  have "ok_block (p, n)" using assms unfolding ok_block_def free_region_def by auto
  moreover have "b \<in> blk (p, n)" using p assms(3) by simp
  ultimately show "free_region A (insert (p, n) L) (b + n) e" "(p, n) \<notin> L"
    using assms(1-4) ap ap2 unfolding free_region_def ok_blocks_insert by (auto simp: p)
qed

lemma free_region_fresh:
  assumes "ok_blocks (insert (q, k) A)" and "(q, k) \<notin> A" and "ok_blocks L" "\<forall>c \<in> L. 0 < snd c \<and> blk c \<subseteq> \<Union> (blk ` A)"
  shows "free_region (insert (q, k) A) L (unat q) (unat q + k)"
proof -
  have ap: "blk (q, k) \<inter> \<Union> (blk ` A) = {}" using assms(1,2) unfolding ok_blocks_insert by auto
  have "ok_block (q, k)" using assms(1) by (simp add: ok_blocks_insert)
  then have "unat q + k < 2 ^ 32" "8 dvd unat q" "q \<noteq> 0" by (simp_all add: ok_block_def)
  then show ?thesis using ap assms(3,4) unfolding free_region_def by (fastforce simp: blk_def unat_gt_0)
qed

lemma free_region_extend:
  assumes "free_region A L b (unat q)" and "ok_blocks (insert (q, k) A)" and "(q, k) \<notin> A"
  shows "free_region (insert (q, k) A) L b (unat q + k)"
proof -
  have ap: "blk (q, k) \<inter> \<Union> (blk ` A) = {}" using assms(2,3) unfolding ok_blocks_insert by auto
  have "ok_block (q, k)" using assms(2) by (simp add: ok_blocks_insert)
  then have q: "unat q + k < 2 ^ 32" by (simp add: ok_block_def)
  have bq: "b \<le> unat q" using assms(1) by (simp add: free_region_def)
  have s: "{b ..< unat q + k} = {b ..< unat q} \<union> blk (q, k)" using bq by (auto simp: blk_def)
  show ?thesis unfolding free_region_def s using assms(1) ap q bq unfolding free_region_def by (auto; blast)
qed

subsection \<open>\<open>SlopHeap\<close>\<close>

record slop =
  sl_ptr :: u32
  sl_remaining :: u32

definition SlopHeap_new :: slop where "SlopHeap_new = \<lparr>sl_ptr = 0, sl_remaining = 0\<rparr>"

definition SlopHeap_getMoreMemory ::
  "u32 \<Rightarrow> (u32 \<Rightarrow> 'h hstate \<Rightarrow> (u32 \<times> 'h hstate) option) \<Rightarrow> u32 \<Rightarrow> (slop \<times> 'h) hstate \<Rightarrow> (u32 \<times> (slop \<times> 'h) hstate) option" where
  "SlopHeap_getMoreMemory SLOP smalloc nbytes = (\<lambda>((s, h), m).
     map_option (\<lambda>(newptr, (h, m)).
       if newptr = 0 then (0, ((s, h), m))
       else let s = (if sl_ptr s \<noteq> 0 \<and> sl_ptr s + sl_remaining s + SLOP = newptr
                     then s\<lparr>sl_remaining := sl_remaining s + SLOP\<rparr>
                     else s\<lparr>sl_ptr := newptr, sl_remaining := 0\<rparr>);
                p = sl_ptr s;
                s = s\<lparr>sl_ptr := sl_ptr s + nbytes\<rparr>
            in (p, ((s, h), m)))
       (smalloc (nbytes + SLOP) (h, m)))"

definition SlopHeap_malloc ::
  "u32 \<Rightarrow> (u32 \<Rightarrow> 'h hstate \<Rightarrow> (u32 \<times> 'h hstate) option) \<Rightarrow> u32 \<Rightarrow> (slop \<times> 'h) hstate \<Rightarrow> (u32 \<times> (slop \<times> 'h) hstate) option" where
  "SlopHeap_malloc SLOP smalloc nbytes = (\<lambda>((s, h), m).
     if nbytes \<le> sl_remaining s then
       let s = s\<lparr>sl_remaining := sl_remaining s - nbytes\<rparr>;
           p = sl_ptr s;
           s = s\<lparr>sl_ptr := sl_ptr s + nbytes\<rparr>
       in Some (p, ((s, h), m))
     else SlopHeap_getMoreMemory SLOP smalloc nbytes ((s, h), m))"

definition SlopHeap_free :: "u32 \<Rightarrow> (slop \<times> 'h) hstate \<Rightarrow> (slop \<times> 'h) hstate option" where
  "SlopHeap_free p st = Some st"

definition SlopHeap_clear :: "('h hstate \<Rightarrow> 'h hstate) \<Rightarrow> (slop \<times> 'h) hstate \<Rightarrow> (slop \<times> 'h) hstate" where
  "SlopHeap_clear sclear = (\<lambda>((s, h), m). let (h, m) = sclear (h, m) in ((SlopHeap_new, h), m))"

text \<open>Behind the current pointer there are always \<open>SLOP\<close> bytes more than \<open>remaining\<close> says.\<close>

definition slop_inv :: "u32 \<Rightarrow> ('h hstate \<Rightarrow> block set \<Rightarrow> bool) \<Rightarrow> (slop \<times> 'h) hstate \<Rightarrow> block set \<Rightarrow> bool" where
  "slop_inv SLOP sinv = (\<lambda>((s, h), m) L. \<exists>A. sinv (h, m) A \<and>
     (if sl_ptr s = 0 then sl_remaining s = 0 \<and> L = {}
      else free_region A L (unat (sl_ptr s)) (unat (sl_ptr s) + unat (sl_remaining s) + unat SLOP)))"

text \<open>\<open>behind st p n\<close>: the \<open>n\<close> bytes from \<open>p\<close> belong to the super heap's blocks.\<close>

definition slop_owned :: "('h hstate \<Rightarrow> block set \<Rightarrow> bool) \<Rightarrow> (slop \<times> 'h) hstate \<Rightarrow> u32 \<Rightarrow> nat \<Rightarrow> bool" where
  "slop_owned sinv = (\<lambda>((s, h), m) p n. \<exists>A. sinv (h, m) A \<and> {unat p ..< unat p + n} \<subseteq> \<Union> (blk ` A))"

context source_heap
begin

lemma slop_malloc:
  assumes i: "slop_inv SLOP inv st L" and S: "8 dvd unat SLOP"
    and sz: "oksize (nbytes + SLOP)" "unat nbytes + unat SLOP < 2 ^ 32" "8 dvd unat nbytes" "0 < nbytes"
  shows "\<exists>p st'. SlopHeap_malloc SLOP malloc nbytes st = Some (p, st') \<and>
    (if p = 0 then slop_inv SLOP inv st' L
     else slop_inv SLOP inv st' (insert (p, unat nbytes) L) \<and> (p, unat nbytes) \<notin> L \<and>
       slop_owned inv st' p (unat nbytes + unat SLOP)) \<and>
    (\<forall>a. covered L a \<longrightarrow> snd st' a = snd st a)"
proof -
  obtain s h m where st: "st = ((s, h), m)" by (metis surj_pair)
  let ?p = "sl_ptr s" and ?r = "sl_remaining s"
  obtain A where A: "inv (h, m) A" "if ?p = 0 then ?r = 0 \<and> L = {} else free_region A L (unat ?p) (unat ?p + unat ?r + unat SLOP)"
    using i by (auto simp: slop_inv_def st)
  have n0: "0 < unat nbytes" using sz(4) by (simp add: word_less_nat_alt)
  have un: "unat (nbytes + SLOP) = unat nbytes + unat SLOP" using sz(2) by (simp add: unat_add_nowrap)
  have dL: "covered A a" if "covered L a" for a
  proof -
    have "?p \<noteq> 0" using that A(2) by (auto simp: covered_def split: if_splits)
    then have "\<forall>c \<in> L. blk c \<subseteq> \<Union> (blk ` A)" using A(2) by (simp add: free_region_def)
    then show ?thesis using that by (auto simp: covered_def)
  qed
  text \<open>An object at the front of a free region.\<close>
  have step: "slop_inv SLOP inv ((\<lparr>sl_ptr = q + nbytes, sl_remaining = r\<rparr>, h'), m') (insert (q, unat nbytes) L) \<and>
      (q, unat nbytes) \<notin> L \<and> slop_owned inv ((\<lparr>sl_ptr = q + nbytes, sl_remaining = r\<rparr>, h'), m') q (unat nbytes + unat SLOP)"
    if B: "inv (h', m') B" and f: "free_region B L (unat q) (unat q + unat nbytes + unat r + unat SLOP)" for q r h' m' B
  proof -
    have lt: "unat q + unat nbytes + unat r + unat SLOP < 2 ^ 32" "{unat q ..< unat q + unat nbytes + unat r + unat SLOP} \<subseteq> \<Union> (blk ` B)"
      using f by (simp_all add: free_region_def)
    have u: "unat (q + nbytes) = unat q + unat nbytes" using lt by (simp add: unat_add_nowrap)
    then have "q + nbytes \<noteq> 0" using n0 by (metis add_is_0 not_gr0 unat_0)
    moreover have "{unat q ..< unat q + (unat nbytes + unat SLOP)} \<subseteq> \<Union> (blk ` B)" using lt(2) by force
    ultimately show ?thesis using free_region_carve [OF f _ n0 sz(3), of q] B u unfolding slop_inv_def slop_owned_def by auto
  qed
  show ?thesis
  proof (cases "nbytes \<le> ?r")
    case True
    then have p0: "?p \<noteq> 0" using A(2) n0 by (auto simp: word_le_nat_alt split: if_splits)
    have ur: "unat (?r - nbytes) = unat ?r - unat nbytes" "unat nbytes \<le> unat ?r" using True by (simp_all add: unat_sub word_le_nat_alt)
    have e: "unat ?p + unat ?r + unat SLOP = unat ?p + unat nbytes + unat (?r - nbytes) + unat SLOP" using ur by simp
    have "free_region A L (unat ?p) (unat ?p + unat ?r + unat SLOP)" using A(2) p0 by simp
    then have f: "free_region A L (unat ?p) (unat ?p + unat nbytes + unat (?r - nbytes) + unat SLOP)" by (simp only: e)
    have "SlopHeap_malloc SLOP malloc nbytes st = Some (?p, ((\<lparr>sl_ptr = ?p + nbytes, sl_remaining = ?r - nbytes\<rparr>, h), m))"
      using True by (simp add: SlopHeap_malloc_def st Let_def)
    then show ?thesis using step [OF A(1) f] p0 by (auto simp: st)
  next
    case False
    from A(1) sz(1) show ?thesis
    proof (cases rule: malloc_cases)
      case (null st')
      then have "slop_inv SLOP inv ((s, fst st'), snd st') L" using A(2) unfolding slop_inv_def by auto
      with null False dL show ?thesis
        by (intro exI [of _ 0] exI [of _ "((s, fst st'), snd st')"])
          (auto simp: SlopHeap_malloc_def SlopHeap_getMoreMemory_def st case_prod_unfold)
    next
      case (block q st')
      obtain h' m' where st': "st' = (h', m')" by (cases st')
      let ?B = "insert (q, unat (nbytes + SLOP)) A"
      have ok: "ok_blocks ?B" using inv_blocks block by blast
      have oL: "ok_blocks L \<and> (\<forall>c \<in> L. 0 < snd c \<and> blk c \<subseteq> \<Union> (blk ` A))"
        using A(2) by (auto simp: free_region_def split: if_splits)
      have same: "\<forall>a. covered L a \<longrightarrow> m' a = m a" using block dL by (simp add: st')
      show ?thesis
      proof (cases "?p \<noteq> 0 \<and> ?p + ?r + SLOP = q")
        case True
        have fr: "free_region A L (unat ?p) (unat ?p + unat ?r + unat SLOP)" using A(2) True by simp
        then have lt: "unat ?p + unat ?r + unat SLOP < 2 ^ 32" by (simp add: free_region_def)
        then have uq: "unat q = unat ?p + unat ?r + unat SLOP" using True unat_add_nowrap [of ?p ?r] unat_add_nowrap [of "?p + ?r" SLOP] by simp
        have ur: "unat (?r + SLOP) = unat ?r + unat SLOP" using lt by (simp add: unat_add_nowrap)
        have "free_region ?B L (unat ?p) (unat q + unat (nbytes + SLOP))"
          using free_region_extend [of A L "unat ?p" q] fr ok block(4) uq by simp
        moreover have "unat q + unat (nbytes + SLOP) = unat ?p + unat nbytes + unat (?r + SLOP) + unat SLOP" using uq un ur by simp
        ultimately have f: "free_region ?B L (unat ?p) (unat ?p + unat nbytes + unat (?r + SLOP) + unat SLOP)" by simp
        have "SlopHeap_malloc SLOP malloc nbytes st = Some (?p, ((\<lparr>sl_ptr = ?p + nbytes, sl_remaining = ?r + SLOP\<rparr>, h'), m'))"
          using False True block by (simp add: SlopHeap_malloc_def SlopHeap_getMoreMemory_def st st' Let_def)
        then show ?thesis using step [OF _ f] block(3) True same by (auto simp: st st')
      next
        case new: False
        have f: "free_region ?B L (unat q) (unat q + unat nbytes + unat (0 :: u32) + unat SLOP)"
          using free_region_fresh [OF ok block(4)] oL un by (simp add: add.assoc)
        have "SlopHeap_malloc SLOP malloc nbytes st = Some (q, ((\<lparr>sl_ptr = q + nbytes, sl_remaining = 0\<rparr>, h'), m'))"
          using False new block by (auto simp: SlopHeap_malloc_def SlopHeap_getMoreMemory_def st st' Let_def)
        then show ?thesis using step [OF _ f] block(2,3) same by (auto simp: st st')
      qed
    qed
  qed
qed

text \<open>So the layer is a source heap again, here with the default of 16 bytes.\<close>

lemma slop_source_heap:
  "source_heap (SlopHeap_malloc 16 malloc) SlopHeap_free
    (\<lambda>sz. oksize (sz + 16) \<and> unat sz + 16 < 2 ^ 32 \<and> 8 dvd unat sz \<and> 0 < sz) (slop_inv 16 inv)"
proof (rule source_heap.intro, goal_cases)
  case (1 st L)
  then show ?case unfolding slop_inv_def free_region_def by (auto split: if_splits)
next
  case (2 st L sz)
  have "unat (16 :: u32) = 16" by simp
  then show ?case using slop_malloc [OF 2(1), of sz] 2(2) by fastforce
next
  case (3 st L p n)
  obtain s h m where st: "st = ((s, h), m)" by (metis surj_pair)
  have "slop_inv 16 inv st (L - {(p, n)})"
    using 3(1) free_region_sub [of _ L _ _ "L - {(p, n)}"] unfolding slop_inv_def st by (auto split: if_splits)
  then show ?case by (simp add: SlopHeap_free_def)
next
  case (4 sh m L m')
  obtain s h where sh: "sh = (s, h)" by (cases sh)
  obtain A where A: "inv (h, m) A" "if sl_ptr s = 0 then sl_remaining s = 0 \<and> L = {}
      else free_region A L (unat (sl_ptr s)) (unat (sl_ptr s) + unat (sl_remaining s) + unat (16 :: u32))"
    using 4(1) unfolding slop_inv_def sh by auto
  have "covered A a" if "covered L a" for a
  proof -
    have "sl_ptr s \<noteq> 0" using that A(2) by (auto simp: covered_def split: if_splits)
    then have "\<forall>c \<in> L. blk c \<subseteq> \<Union> (blk ` A)" using A(2) by (simp add: free_region_def)
    then show ?thesis using that by (auto simp: covered_def)
  qed
  then have "inv (h, m') A" using inv_frame [OF A(1), of m'] 4(2) by blast
  then show ?case using A(2) unfolding slop_inv_def sh by auto
qed

end

text \<open>For objects of multiples of 8 bytes that, rounded up and with the slop, do not wrap.\<close>

definition slop_ok :: "u32 \<Rightarrow> bool" where
  "slop_ok sz \<longleftrightarrow> bump_ok (sz + 16) \<and> unat sz + 16 < 2 ^ 32 \<and> 8 dvd unat sz \<and> 0 < sz"

interpretation bump_slop: source_heap "SlopHeap_malloc 16 bump_malloc" SlopHeap_free slop_ok "slop_inv 16 bump_inv"
  unfolding slop_ok_def by (rule bump.slop_source_heap)

subsection \<open>\<open>ChunkHeap\<close>\<close>

record chunked =
  ck_buffer :: u32
  ck_eob :: u32

definition ChunkHeap_new :: chunked where "ChunkHeap_new = \<lparr>ck_buffer = 0, ck_eob = 0\<rparr>"

definition ChunkHeap_getMoreMemory ::
  "u32 \<Rightarrow> (u32 \<Rightarrow> 'h hstate \<Rightarrow> (u32 \<times> 'h hstate) option) \<Rightarrow> u32 \<Rightarrow> (chunked \<times> 'h) hstate \<Rightarrow> (u32 \<times> (chunked \<times> 'h) hstate) option" where
  "ChunkHeap_getMoreMemory ChunkSize smalloc sz = (\<lambda>((c, h), m).
     let reqSize = ((sz - 1) div ChunkSize + 1) * ChunkSize
     in map_option (\<lambda>(buf, (h, m)).
          if buf = 0 then (0, ((c, h), m))
          else let (c, reqSize) = (if ck_eob c \<noteq> buf then (c\<lparr>ck_buffer := buf\<rparr>, reqSize)
                                   else (c, reqSize + (ck_eob c - ck_buffer c)));
                   c = c\<lparr>ck_eob := ck_buffer c + reqSize\<rparr>;
                   ptr = ck_buffer c
               in (ptr, ((c\<lparr>ck_buffer := ck_buffer c + sz\<rparr>, h), m)))
          (smalloc reqSize (h, m)))"

definition ChunkHeap_malloc ::
  "u32 \<Rightarrow> (u32 \<Rightarrow> 'h hstate \<Rightarrow> (u32 \<times> 'h hstate) option) \<Rightarrow> u32 \<Rightarrow> (chunked \<times> 'h) hstate \<Rightarrow> (u32 \<times> (chunked \<times> 'h) hstate) option" where
  "ChunkHeap_malloc ChunkSize smalloc sz = (\<lambda>((c, h), m).
     let ptr = ck_buffer c;
         c = c\<lparr>ck_buffer := ck_buffer c + sz\<rparr>
     in if ck_buffer c \<le> ck_eob c then Some (ptr, ((c, h), m))
        else let c = c\<lparr>ck_buffer := ck_buffer c - sz\<rparr>
             in ChunkHeap_getMoreMemory ChunkSize smalloc sz ((c, h), m))"

definition ChunkHeap_clear :: "('h hstate \<Rightarrow> 'h hstate) \<Rightarrow> (chunked \<times> 'h) hstate \<Rightarrow> (chunked \<times> 'h) hstate" where
  "ChunkHeap_clear sclear = (\<lambda>((c, h), m). let (h, m) = sclear (h, m) in ((ChunkHeap_new, h), m))"

text \<open>
  The comparison comes after the addition: a request that is large enough to wrap the pointer is served from whatever
  is left in the buffer.
\<close>

theorem ChunkHeap_malloc_wraps:
  assumes "ck_buffer c \<le> ck_eob c" and "ck_buffer c \<noteq> 0"
  shows "\<exists>st'. ChunkHeap_malloc ChunkSize smalloc (- ck_buffer c) ((c, h), m) = Some (ck_buffer c, st')"
  by (simp add: ChunkHeap_malloc_def Let_def)

text \<open>Otherwise the layer keeps the contract: requests that wrap neither the pointer nor the rounding.\<close>

definition chunk_inv :: "('h hstate \<Rightarrow> block set \<Rightarrow> bool) \<Rightarrow> (chunked \<times> 'h) hstate \<Rightarrow> block set \<Rightarrow> bool" where
  "chunk_inv sinv = (\<lambda>((c, h), m) L. \<exists>A. sinv (h, m) A \<and>
     (if ck_buffer c = 0 then ck_eob c = 0 \<and> L = {} else free_region A L (unat (ck_buffer c)) (unat (ck_eob c))))"

definition chunk_request :: "nat \<Rightarrow> nat \<Rightarrow> nat" where
  "chunk_request ChunkSize n = ((n - 1) div ChunkSize + 1) * ChunkSize"

lemma chunk_request_ge: "0 < ChunkSize \<Longrightarrow> n \<le> chunk_request ChunkSize n"
  using div_mult_mod_eq [of "n - 1" ChunkSize] mod_less_divisor [of ChunkSize "n - 1"]
  unfolding chunk_request_def add_mult_distrib by linarith

lemma unat_chunk_request:
  assumes "0 < (sz :: u32)" and "0 < ChunkSize" and "chunk_request (unat ChunkSize) (unat sz) < 2 ^ 32"
  shows "unat (((sz - 1) div ChunkSize + 1) * ChunkSize) = chunk_request (unat ChunkSize) (unat sz)"
proof -
  have s1: "unat (sz - 1) = unat sz - 1" using assms(1) by (simp add: unat_minus_one word_greater_zero_iff)
  have C: "1 \<le> unat ChunkSize" using assms(2) by (simp add: word_less_nat_alt)
  have d: "unat ((sz - 1) div ChunkSize) = (unat sz - 1) div unat ChunkSize" by (simp add: unat_div_distrib s1)
  have "(unat sz - 1) div unat ChunkSize + 1 \<le> chunk_request (unat ChunkSize) (unat sz)"
    unfolding chunk_request_def using C by (metis mult.right_neutral mult_le_mono2)
  then have a: "unat ((sz - 1) div ChunkSize + 1) = (unat sz - 1) div unat ChunkSize + 1"
    using assms(3) d by (subst unat_add_nowrap) simp_all
  show ?thesis using assms(3) a unfolding chunk_request_def by (simp add: unat_word_ariths)
qed

context source_heap
begin

lemma chunk_malloc:
  assumes i: "chunk_inv inv ((c, h), m) L" and sz: "0 < sz" "8 dvd unat sz" "0 < ChunkSize"
    and req: "oksize (of_nat (chunk_request (unat ChunkSize) (unat sz)))" "chunk_request (unat ChunkSize) (unat sz) < 2 ^ 32"
    and nw: "unat (ck_buffer c) + unat sz < 2 ^ 32"
  shows "\<exists>p st'. ChunkHeap_malloc ChunkSize malloc sz ((c, h), m) = Some (p, st') \<and>
    (if p = 0 then chunk_inv inv st' L else chunk_inv inv st' (insert (p, unat sz) L) \<and> (p, unat sz) \<notin> L) \<and>
    (\<forall>a. covered L a \<longrightarrow> snd st' a = m a)"
proof -
  let ?b = "ck_buffer c" and ?e = "ck_eob c" and ?k = "chunk_request (unat ChunkSize) (unat sz)"
  let ?r = "((sz - 1) div ChunkSize + 1) * ChunkSize"
  obtain A where A: "inv (h, m) A" "if ?b = 0 then ?e = 0 \<and> L = {} else free_region A L (unat ?b) (unat ?e)"
    using i by (auto simp: chunk_inv_def)
  have n0: "0 < unat sz" using sz(1) by (simp add: word_less_nat_alt)
  have ur: "unat ?r = ?k" by (rule unat_chunk_request [OF sz(1,3) req(2)])
  have okr: "oksize ?r" using req(1) unfolding ur [symmetric] by simp
  have kn: "unat sz \<le> ?k" using sz(3) by (intro chunk_request_ge) (simp add: word_less_nat_alt)
  have ub: "unat (?b + sz) = unat ?b + unat sz" using nw by (simp add: unat_add_nowrap)
  have dL: "covered A a" if "covered L a" for a
  proof -
    have "?b \<noteq> 0" using that A(2) by (auto simp: covered_def split: if_splits)
    then have "\<forall>c \<in> L. blk c \<subseteq> \<Union> (blk ` A)" using A(2) by (simp add: free_region_def)
    then show ?thesis using that by (auto simp: covered_def)
  qed
  have step: "chunk_inv inv ((\<lparr>ck_buffer = q + sz, ck_eob = e\<rparr>, h'), m') (insert (q, unat sz) L) \<and> (q, unat sz) \<notin> L"
    if B: "inv (h', m') B" and f: "free_region B L (unat q) (unat e)" and le: "unat q + unat sz \<le> unat e" for q e h' m' B
  proof -
    have "unat e < 2 ^ 32" using f by (simp add: free_region_def)
    then have u: "unat (q + sz) = unat q + unat sz" using le by (simp add: unat_add_nowrap)
    then have "q + sz \<noteq> 0" using n0 by (metis add_is_0 not_gr0 unat_0)
    then show ?thesis using free_region_carve [OF f le n0 sz(2), of q] B u unfolding chunk_inv_def by auto
  qed
  show ?thesis
  proof (cases "?b + sz \<le> ?e")
    case True
    then have le: "unat ?b + unat sz \<le> unat ?e" using ub by (simp add: word_le_nat_alt)
    then have b0: "?b \<noteq> 0" using A(2) n0 by (auto split: if_splits)
    have "ChunkHeap_malloc ChunkSize malloc sz ((c, h), m) = Some (?b, ((\<lparr>ck_buffer = ?b + sz, ck_eob = ?e\<rparr>, h), m))"
      using True by (simp add: ChunkHeap_malloc_def Let_def)
    then show ?thesis using step [OF A(1) _ le] A(2) b0 by auto
  next
    case False
    then have cm: "ChunkHeap_malloc ChunkSize malloc sz ((c, h), m) = ChunkHeap_getMoreMemory ChunkSize malloc sz ((c, h), m)"
      by (simp add: ChunkHeap_malloc_def Let_def)
    from A(1) okr show ?thesis
    proof (cases rule: malloc_cases)
      case (null st')
      then have "chunk_inv inv ((c, fst st'), snd st') L" using A(2) unfolding chunk_inv_def by auto
      with null dL show ?thesis unfolding cm
        by (intro exI [of _ 0] exI [of _ "((c, fst st'), snd st')"]) (auto simp: ChunkHeap_getMoreMemory_def case_prod_unfold Let_def)
    next
      case (block q st')
      obtain h' m' where st': "st' = (h', m')" by (cases st')
      let ?B = "insert (q, ?k) A"
      have ok: "ok_blocks ?B" "(q, ?k) \<notin> A" using inv_blocks block by (auto simp: ur)
      have oL: "ok_blocks L \<and> (\<forall>c \<in> L. 0 < snd c \<and> blk c \<subseteq> \<Union> (blk ` A))"
        using A(2) by (auto simp: free_region_def split: if_splits)
      have same: "\<forall>a. covered L a \<longrightarrow> m' a = m a" using block dL by (simp add: st')
      have lt: "unat q + ?k < 2 ^ 32" using ok(1) by (simp add: ok_blocks_insert ok_block_def)
      have uq: "unat (q + ?r) = unat q + ?k" using lt ur by (simp add: unat_add_nowrap)
      have B: "inv (h', m') ?B" using block by (simp add: st' ur)
      show ?thesis
      proof (cases "?e = q")
        case True
        then have b0: "?b \<noteq> 0" using A(2) block(2) by auto
        have f: "free_region ?B L (unat ?b) (unat (q + ?r))"
          using free_region_extend [of A L "unat ?b" q ?k] A(2) b0 ok True uq by simp
        have e: "?b + (?r + (q - ?b)) = q + ?r" by simp
        have "ChunkHeap_malloc ChunkSize malloc sz ((c, h), m) = Some (?b, ((\<lparr>ck_buffer = ?b + sz, ck_eob = q + ?r\<rparr>, h'), m'))"
          using True block unfolding cm by (simp add: ChunkHeap_getMoreMemory_def st' Let_def e)
        moreover have "unat ?b \<le> unat q" using A(2) b0 True by (simp add: free_region_def)
        then have "unat ?b + unat sz \<le> unat (q + ?r)" using uq kn by simp
        ultimately show ?thesis using step [OF B f] b0 same by auto
      next
        case new: False
        have f: "free_region ?B L (unat q) (unat (q + ?r))" using free_region_fresh [OF ok] oL uq by simp
        have "ChunkHeap_malloc ChunkSize malloc sz ((c, h), m) = Some (q, ((\<lparr>ck_buffer = q + sz, ck_eob = q + ?r\<rparr>, h'), m'))"
          using new block unfolding cm by (simp add: ChunkHeap_getMoreMemory_def st' Let_def)
        moreover have "unat q + unat sz \<le> unat (q + ?r)" using uq kn by simp
        ultimately show ?thesis using step [OF B f] block(2) same by auto
      qed
    qed
  qed
qed

end

section \<open>Headers\<close>

text \<open>\<open>UseSizeHeap::freeObject\<close>: the size, in 8 bytes. A failed allocation, where the header is written to address 0, is
  \<open>None\<close>.\<close>

definition sizeof_freeObject :: u32 where "sizeof_freeObject = 8"

definition UseSizeHeap_getSize :: "u32 \<Rightarrow> hmem \<Rightarrow> u32" where
  "UseSizeHeap_getSize ptr m = m (ptr - sizeof_freeObject)"

definition SizeHeap_malloc ::
  "(u32 \<Rightarrow> 'h hstate \<Rightarrow> (u32 \<times> 'h hstate) option) \<Rightarrow> u32 \<Rightarrow> 'h hstate \<Rightarrow> (u32 \<times> 'h hstate) option" where
  "SizeHeap_malloc smalloc sz st =
     Option.bind (smalloc (sz + sizeof_freeObject) st) (\<lambda>(ptr, (h, m)).
       if ptr = 0 then None else Some (ptr + sizeof_freeObject, (h, m(ptr := sz))))"

definition SizeHeap_free :: "(u32 \<Rightarrow> 'h hstate \<Rightarrow> 'h hstate option) \<Rightarrow> u32 \<Rightarrow> 'h hstate \<Rightarrow> 'h hstate option" where
  "SizeHeap_free sfree ptr st = sfree (ptr - sizeof_freeObject) st"

lemma SizeHeap_getSize: "SizeHeap_malloc smalloc sz st = Some (p, (h, m)) \<Longrightarrow> UseSizeHeap_getSize p m = sz"
  by (auto simp: SizeHeap_malloc_def UseSizeHeap_getSize_def bind_eq_Some_conv split: if_splits prod.splits)

text \<open>\<open>AddHeap\<close> asks for room for its header but returns the start of the block.\<close>

definition AddHeap_align :: "u32 \<Rightarrow> u32" where
  "AddHeap_align sz = (sz + (sizeof_double - 1)) AND NOT (sizeof_double - 1)"

definition AddHeap_malloc ::
  "u32 \<Rightarrow> (u32 \<Rightarrow> 'h hstate \<Rightarrow> (u32 \<times> 'h hstate) option) \<Rightarrow> u32 \<Rightarrow> 'h hstate \<Rightarrow> (u32 \<times> 'h hstate) option" where
  "AddHeap_malloc sizeof_Add smalloc sz st = smalloc (sz + AddHeap_align sizeof_Add) st"

definition AddHeap_free :: "u32 \<Rightarrow> (u32 \<Rightarrow> 'h hstate \<Rightarrow> 'h hstate option) \<Rightarrow> u32 \<Rightarrow> 'h hstate \<Rightarrow> 'h hstate option" where
  "AddHeap_free sizeof_Add sfree ptr st = (let origPtr = ptr - sizeof_Add in sfree origPtr st)"

definition AddHeap_getSize :: "u32 \<Rightarrow> (u32 \<Rightarrow> 'h hstate \<Rightarrow> u32) \<Rightarrow> u32 \<Rightarrow> 'h hstate \<Rightarrow> u32" where
  "AddHeap_getSize sizeof_Add sgetSize ptr st = (let origPtr = ptr - sizeof_Add in sgetSize origPtr st)"

text \<open>\<open>SizeOwner\<close> holds the size and the owner, 8 bytes.\<close>

definition sizeof_SizeOwner :: u32 where "sizeof_SizeOwner = 8"

definition SizeOwnerHeap_malloc ::
  "u32 \<Rightarrow> (u32 \<Rightarrow> 'h hstate \<Rightarrow> (u32 \<times> 'h hstate) option) \<Rightarrow> u32 \<Rightarrow> 'h hstate \<Rightarrow> (u32 \<times> 'h hstate) option" where
  "SizeOwnerHeap_malloc this smalloc sz st =
     Option.bind (AddHeap_malloc sizeof_SizeOwner smalloc sz st) (\<lambda>(ptr, (h, m)).
       if ptr = 0 then None
       else let m = m(ptr := sz, ptr + 4 := this) in Some (ptr + sizeof_SizeOwner, (h, m)))"

definition SizeOwnerHeap_free :: "(u32 \<Rightarrow> 'h hstate \<Rightarrow> 'h hstate option) \<Rightarrow> u32 \<Rightarrow> 'h hstate \<Rightarrow> 'h hstate option" where
  "SizeOwnerHeap_free sfree ptr st =
     (let origPtr = ptr - sizeof_SizeOwner in AddHeap_free sizeof_SizeOwner sfree origPtr st)"

definition SizeOwnerHeap_owner :: "u32 \<Rightarrow> hmem \<Rightarrow> u32" where "SizeOwnerHeap_owner ptr m = m (ptr - sizeof_SizeOwner + 4)"
definition SizeOwnerHeap_size :: "u32 \<Rightarrow> hmem \<Rightarrow> u32" where "SizeOwnerHeap_size ptr m = m (ptr - sizeof_SizeOwner)"

text \<open>
  The header is subtracted twice on the way down: what reaches the super heap is not the block it had handed out, but
  an address 8 bytes below it.
\<close>

theorem SizeOwnerHeap_free_below_block:
  assumes "smalloc (sz + 8) st = Some (p, st')" and "p \<noteq> 0"
  shows "\<exists>q st''. SizeOwnerHeap_malloc this smalloc sz st = Some (q, st'') \<and> SizeOwnerHeap_size q (snd st'') = sz \<and>
    SizeOwnerHeap_owner q (snd st'') = this \<and> SizeOwnerHeap_free sfree q st'' = sfree (p - 8) st''"
proof -
  have "AddHeap_align sizeof_SizeOwner = 8" by (simp add: AddHeap_align_def sizeof_SizeOwner_def sizeof_double_def)
  then show ?thesis using assms
    by (cases st') (auto simp: SizeOwnerHeap_malloc_def AddHeap_malloc_def SizeOwnerHeap_size_def SizeOwnerHeap_owner_def
        SizeOwnerHeap_free_def AddHeap_free_def sizeof_SizeOwner_def Let_def)
qed

text \<open>\<open>SizeThreadHeap\<close>: the size and a thread number, which share a \<open>double\<close>.\<close>

definition SizeThreadHeap_getOrigPtr :: "u32 \<Rightarrow> u32" where "SizeThreadHeap_getOrigPtr ptr = ptr - sizeof_double"

definition SizeThreadHeap_malloc ::
  "(u32 \<Rightarrow> 'h hstate \<Rightarrow> (u32 \<times> 'h hstate) option) \<Rightarrow> u32 \<Rightarrow> 'h hstate \<Rightarrow> (u32 \<times> 'h hstate) option" where
  "SizeThreadHeap_malloc smalloc sz st =
     Option.bind (smalloc (sz + sizeof_double) st) (\<lambda>(ptr, (h, m)).
       if ptr = 0 then None else Some (ptr + 8, (h, m(ptr := sz))))"

definition SizeThreadHeap_free :: "(u32 \<Rightarrow> 'h hstate \<Rightarrow> 'h hstate option) \<Rightarrow> u32 \<Rightarrow> 'h hstate \<Rightarrow> 'h hstate option" where
  "SizeThreadHeap_free sfree ptr st = (let origPtr = SizeThreadHeap_getOrigPtr ptr in sfree origPtr st)"

definition SizeThreadHeap_size :: "u32 \<Rightarrow> hmem \<Rightarrow> u32" where "SizeThreadHeap_size ptr m = m (SizeThreadHeap_getOrigPtr ptr)"
definition SizeThreadHeap_thread :: "u32 \<Rightarrow> hmem \<Rightarrow> u32" where "SizeThreadHeap_thread ptr m = m (SizeThreadHeap_getOrigPtr ptr + 4)"

lemma SizeThreadHeap_sizes:
  "SizeThreadHeap_malloc smalloc sz st = Some (p, st') \<Longrightarrow> SizeThreadHeap_size p (snd st') = sz \<and>
    SizeThreadHeap_free sfree p st' = sfree (p - 8) st'"
  by (auto simp: SizeThreadHeap_malloc_def SizeThreadHeap_size_def SizeThreadHeap_free_def SizeThreadHeap_getOrigPtr_def
      sizeof_double_def bind_eq_Some_conv split: if_splits prod.splits)

section \<open>Choosing\<close>

text \<open>\<open>TryHeap\<close>: the second heap is tried when the first one fails; everything is freed to the first.\<close>

definition TryHeap_malloc ::
  "(u32 \<Rightarrow> 'a hstate \<Rightarrow> (u32 \<times> 'a hstate) option) \<Rightarrow> (u32 \<Rightarrow> 'b hstate \<Rightarrow> (u32 \<times> 'b hstate) option) \<Rightarrow> u32
   \<Rightarrow> ('a \<times> 'b) hstate \<Rightarrow> (u32 \<times> ('a \<times> 'b) hstate) option" where
  "TryHeap_malloc malloc1 malloc2 sz = (\<lambda>((h1, h2), m).
     Option.bind (malloc1 sz (h1, m)) (\<lambda>(ptr, (h1, m)).
       if ptr = 0 then map_option (\<lambda>(ptr, (h2, m)). (ptr, ((h1, h2), m))) (malloc2 sz (h2, m))
       else Some (ptr, ((h1, h2), m))))"

definition TryHeap_free :: "(u32 \<Rightarrow> 'a hstate \<Rightarrow> 'a hstate option) \<Rightarrow> u32 \<Rightarrow> ('a \<times> 'b) hstate \<Rightarrow> ('a \<times> 'b) hstate option" where
  "TryHeap_free free1 ptr = (\<lambda>((h1, h2), m). map_option (\<lambda>(h1, m). ((h1, h2), m)) (free1 ptr (h1, m)))"

text \<open>\<open>HybridHeap\<close>: by the size of the object.\<close>

definition HybridHeap_slowPath ::
  "(u32 \<Rightarrow> 'b hstate \<Rightarrow> (u32 \<times> 'b hstate) option) \<Rightarrow> u32 \<Rightarrow> ('a \<times> 'b) hstate \<Rightarrow> (u32 \<times> ('a \<times> 'b) hstate) option" where
  "HybridHeap_slowPath bmalloc sz = (\<lambda>((s, b), m). map_option (\<lambda>(ptr, (b, m)). (ptr, ((s, b), m))) (bmalloc sz (b, m)))"

definition HybridHeap_malloc ::
  "u32 \<Rightarrow> (u32 \<Rightarrow> 'a hstate \<Rightarrow> (u32 \<times> 'a hstate) option) \<Rightarrow> (u32 \<Rightarrow> 'b hstate \<Rightarrow> (u32 \<times> 'b hstate) option) \<Rightarrow> u32
   \<Rightarrow> ('a \<times> 'b) hstate \<Rightarrow> (u32 \<times> ('a \<times> 'b) hstate) option" where
  "HybridHeap_malloc BigSize smalloc bmalloc sz = (\<lambda>((s, b), m).
     if sz \<le> BigSize then map_option (\<lambda>(ptr, (s, m)). (ptr, ((s, b), m))) (smalloc sz (s, m))
     else HybridHeap_slowPath bmalloc sz ((s, b), m))"

definition HybridHeap_free ::
  "u32 \<Rightarrow> (u32 \<Rightarrow> 'a hstate \<Rightarrow> u32) \<Rightarrow> (u32 \<Rightarrow> 'a hstate \<Rightarrow> 'a hstate option) \<Rightarrow> (u32 \<Rightarrow> 'b hstate \<Rightarrow> 'b hstate option) \<Rightarrow> u32
   \<Rightarrow> ('a \<times> 'b) hstate \<Rightarrow> ('a \<times> 'b) hstate option" where
  "HybridHeap_free BigSize sgetSize sfree bfree ptr = (\<lambda>((s, b), m).
     if sgetSize ptr (s, m) \<le> BigSize then map_option (\<lambda>(s, m). ((s, b), m)) (sfree ptr (s, m))
     else map_option (\<lambda>(b, m). ((s, b), m)) (bfree ptr (b, m)))"

definition HybridHeap_clear :: "('a hstate \<Rightarrow> 'a hstate) \<Rightarrow> ('b hstate \<Rightarrow> 'b hstate) \<Rightarrow> ('a \<times> 'b) hstate \<Rightarrow> ('a \<times> 'b) hstate" where
  "HybridHeap_clear sclear bclear = (\<lambda>((s, b), m).
     let (b, m) = bclear (b, m); (s, m) = sclear (s, m) in ((s, b), m))"

text \<open>\<open>ThreadHeap\<close>: the thread number, an \<open>int\<close>, modulo the number of heaps, with the sign of the dividend as in C.\<close>

definition c_rem :: "int \<Rightarrow> int \<Rightarrow> int" where
  "c_rem a b = (if a < 0 then - (- a mod b) else a mod b)"

definition getThreadId :: "u32 \<Rightarrow> int" where
  "getThreadId pthread_self = sint pthread_self div 1024"

definition ThreadHeap_malloc ::
  "nat \<Rightarrow> (u32 \<Rightarrow> 'h hstate \<Rightarrow> (u32 \<times> 'h hstate) option) \<Rightarrow> u32 \<Rightarrow> u32 \<Rightarrow> (nat \<Rightarrow> 'h) hstate \<Rightarrow> (u32 \<times> (nat \<Rightarrow> 'h) hstate) option" where
  "ThreadHeap_malloc NumHeaps pmalloc pthread_self sz = (\<lambda>(hs, m).
     let tid = c_rem (getThreadId pthread_self) (int NumHeaps)
     in if tid < 0 then None
        else map_option (\<lambda>(ptr, (h, m)). (ptr, (hs(nat tid := h), m))) (pmalloc sz (hs (nat tid), m)))"

definition ThreadHeap_free ::
  "nat \<Rightarrow> (u32 \<Rightarrow> 'h hstate \<Rightarrow> 'h hstate option) \<Rightarrow> u32 \<Rightarrow> u32 \<Rightarrow> (nat \<Rightarrow> 'h) hstate \<Rightarrow> (nat \<Rightarrow> 'h) hstate option" where
  "ThreadHeap_free NumHeaps pfree pthread_self ptr = (\<lambda>(hs, m).
     let tid = c_rem (getThreadId pthread_self) (int NumHeaps)
     in if tid < 0 then None
        else map_option (\<lambda>(h, m). (hs(nat tid := h), m)) (pfree ptr (hs (nat tid), m)))"

definition ThreadHeap_getSize :: "nat \<Rightarrow> (u32 \<Rightarrow> 'h hstate \<Rightarrow> u32) \<Rightarrow> u32 \<Rightarrow> u32 \<Rightarrow> (nat \<Rightarrow> 'h) hstate \<Rightarrow> u32 option" where
  "ThreadHeap_getSize NumHeaps pgetSize pthread_self ptr = (\<lambda>(hs, m).
     let tid = c_rem (getThreadId pthread_self) (int NumHeaps)
     in if tid < 0 then None else Some (pgetSize ptr (hs (nat tid), m)))"

text \<open>
  Thread identifiers are addresses; those in the upper half of the address space are negative numbers, and their
  remainder is an index in front of the array unless it is 0.
\<close>

theorem ThreadHeap_negative_index:
  assumes "sint self < 0" and "\<not> int NumHeaps dvd getThreadId self" and "0 < NumHeaps"
  shows "ThreadHeap_malloc NumHeaps pmalloc self sz st = None" and "ThreadHeap_free NumHeaps pfree self ptr st = None"
proof -
  have n: "getThreadId self < 0" using assms(1) by (simp add: getThreadId_def pos_imp_zdiv_neg_iff) 
  have "\<not> int NumHeaps dvd - getThreadId self" using assms(2) by simp
  then have "- getThreadId self mod int NumHeaps \<noteq> 0" by (metis dvd_eq_mod_eq_0)
  moreover have "0 \<le> - getThreadId self mod int NumHeaps" using assms(3) by simp
  ultimately have "0 < - getThreadId self mod int NumHeaps" by linarith
  then have "c_rem (getThreadId self) (int NumHeaps) < 0" using n by (simp add: c_rem_def)
  then show "ThreadHeap_malloc NumHeaps pmalloc self sz st = None" "ThreadHeap_free NumHeaps pfree self ptr st = None"
    by (simp_all add: ThreadHeap_malloc_def ThreadHeap_free_def Let_def split: prod.splits)
qed

section \<open>Properties\<close>

text \<open>over \<open>bumpheap\<close>, an allocation from a \<open>SlopHeap\<close> returns a block apart from the live ones, leaves their
  contents alone, and has 16 more bytes of its own behind the block, whether the memory is new, left over, or adjoins
  the memory the heap had before; or it fails and the live blocks stay as they were.\<close>

theorem SlopHeap_keeps_slop:
  assumes "slop_inv 16 bump_inv st L" and "slop_ok n"
  shows "\<exists>p st'. SlopHeap_malloc 16 bump_malloc n st = Some (p, st') \<and>
    (if p = 0 then slop_inv 16 bump_inv st' L
     else slop_inv 16 bump_inv st' (insert (p, unat n) L) \<and> (p, unat n) \<notin> L \<and>
       (\<forall>c \<in> L. blk (p, unat n) \<inter> blk c = {}) \<and> slop_owned bump_inv st' p (unat n + 16)) \<and>
    (\<forall>a. covered L a \<longrightarrow> snd st' a = snd st a)"
proof -
  have o: "bump_ok (n + 16)" "unat n + unat (16 :: u32) < 2 ^ 32" "8 dvd unat n" "0 < n" "8 dvd unat (16 :: u32)"
    using assms(2) by (simp_all add: slop_ok_def)
  obtain p st' where p: "SlopHeap_malloc 16 bump_malloc n st = Some (p, st')"
    "if p = 0 then slop_inv 16 bump_inv st' L
     else slop_inv 16 bump_inv st' (insert (p, unat n) L) \<and> (p, unat n) \<notin> L \<and> slop_owned bump_inv st' p (unat n + unat (16 :: u32))"
    "\<forall>a. covered L a \<longrightarrow> snd st' a = snd st a" using bump.slop_malloc [OF assms(1) o(5,1-4)] by blast
  have "\<forall>c \<in> L. blk (p, unat n) \<inter> blk c = {}" if "p \<noteq> 0"
    using bump_slop.inv_blocks [of st' "insert (p, unat n) L"] p(2) that by (auto simp: ok_blocks_insert)
  moreover have u16: "unat (16 :: u32) = 16" by simp
  ultimately show ?thesis using p(1,3) p(2) [unfolded u16] by (intro exI [of _ p] exI [of _ st']) simp
qed

theorem SlopHeap_keeps_slop_witness:
  "\<exists>p st'. SlopHeap_malloc 16 bump_malloc 32 ((SlopHeap_new, bump_new 0x1000 0x2000), \<lambda>_. 0) = Some (p, st') \<and>
    (if p = 0 then slop_inv 16 bump_inv st' {} else slop_owned bump_inv st' p 48)"
proof -
  have "bump_inv (bump_new 0x1000 0x2000, \<lambda>_. 0) {}" by (simp add: bump_inv_def bump_new_def bump_sanity_def)
  then have "slop_inv 16 bump_inv ((SlopHeap_new, bump_new 0x1000 0x2000), \<lambda>_. 0) {}"
    by (auto simp: slop_inv_def SlopHeap_new_def)
  from SlopHeap_keeps_slop [OF this, of 32] show ?thesis by (fastforce simp: slop_ok_def bump_ok_def)
qed

end
