(* ===== verification/Hl_Fifo.thy ===== *)
theory Hl_Fifo
  imports Hl_Source
begin

text \<open>
  Free lists with an order: \<open>heaplayers/fifofreelist.h\<close> and \<open>heaplayers/fifodlfreelist.h\<close> reuse the object that was
  freed first, \<open>heaplayers/boundedfreelistheap.h\<close> bounds the number of objects it keeps. The heaps live at fixed
  addresses, of which \<open>hd\<close> and \<open>tl\<close> in the code are the two members \<open>head\<close> and \<open>tail\<close>: here \<open>H\<close> and \<open>T\<close>. A free object has
  \<open>prev\<close> in its first word and \<open>next\<close> in its second.
\<close>

section \<open>The interface\<close>

text \<open>What both lists promise: objects are handed out in the order in which they were freed.\<close>

fun put_all :: "('e \<Rightarrow> 's \<Rightarrow> 's) \<Rightarrow> 'e list \<Rightarrow> 's \<Rightarrow> 's" where
  "put_all put [] s = s"
| "put_all put (e # es) s = put_all put es (put e s)"

fun get_all :: "('s \<Rightarrow> 'e \<times> 's) \<Rightarrow> nat \<Rightarrow> 's \<Rightarrow> 'e list" where
  "get_all get 0 s = []"
| "get_all get (Suc n) s = fst (get s) # get_all get n (snd (get s))"

locale fifo =
  fixes put :: "u32 \<Rightarrow> hmem \<Rightarrow> hmem"
    and get :: "hmem \<Rightarrow> u32 \<times> hmem"
    and repr :: "hmem \<Rightarrow> u32 list \<Rightarrow> bool"
    and usable :: "u32 list \<Rightarrow> bool"
  assumes put_law: "repr m es \<Longrightarrow> usable (es @ [e]) \<Longrightarrow> repr (put e m) (es @ [e])"
    and get_law: "repr m (e # es) \<Longrightarrow> fst (get m) = e \<and> repr (snd (get m)) es"
    and usable_prefix: "usable (es @ fs) \<Longrightarrow> usable es"
begin

lemma put_all_repr: "repr m es \<Longrightarrow> usable (es @ fs) \<Longrightarrow> repr (put_all put fs m) (es @ fs)"
proof (induction fs arbitrary: m es)
  case (Cons f fs)
  have u: "usable ((es @ [f]) @ fs)" using Cons.prems(2) by simp
  have "repr (put f m) (es @ [f])" using Cons.prems(1) usable_prefix [OF u] by (rule put_law)
  from Cons.IH [OF this u] show ?case by simp
qed simp

lemma get_all_repr: "repr m es \<Longrightarrow> get_all get (length es) m = es"
proof (induction es arbitrary: m)
  case (Cons e es)
  then show ?case using get_law [OF Cons.prems] by simp
qed simp

lemma first_in_first_out: "repr m [] \<Longrightarrow> usable es \<Longrightarrow> get_all get (length es) (put_all put es m) = es"
  using get_all_repr put_all_repr [of m "[]" es] by simp

end

section \<open>\<open>FIFOFreelistHeap\<close>\<close>

definition fo_prev :: "u32 \<Rightarrow> u32" where "fo_prev p = p"
definition fo_next :: "u32 \<Rightarrow> u32" where "fo_next p = p + 4"

definition fifo_new :: "u32 \<Rightarrow> u32 \<Rightarrow> hmem \<Rightarrow> hmem" where
  "fifo_new H T m = m(fo_next H := T, fo_next T := T)"

definition fifo_isEmpty :: "u32 \<Rightarrow> u32 \<Rightarrow> hmem \<Rightarrow> bool" where
  "fifo_isEmpty H T m \<longleftrightarrow> m (fo_next H) = T"

definition fifo_take :: "u32 \<Rightarrow> u32 \<Rightarrow> hmem \<Rightarrow> u32 \<times> hmem" where
  "fifo_take H T m =
     (let ptr = m (fo_next H);
          m = m(fo_next H := m (fo_next ptr))
      in (ptr, if m (fo_next H) = T then m(fo_next T := T) else m))"

definition FIFOFreelistHeap_malloc ::
  "u32 \<Rightarrow> u32 \<Rightarrow> (u32 \<Rightarrow> 'h hstate \<Rightarrow> (u32 \<times> 'h hstate) option) \<Rightarrow> u32 \<Rightarrow> 'h hstate \<Rightarrow> (u32 \<times> 'h hstate) option" where
  "FIFOFreelistHeap_malloc H T smalloc sz = (\<lambda>(h, m).
     if m (fo_next H) = T then smalloc sz (h, m)
     else let (ptr, m) = fifo_take H T m in Some (ptr, (h, m)))"

definition fifo_put :: "u32 \<Rightarrow> u32 \<Rightarrow> u32 \<Rightarrow> hmem \<Rightarrow> hmem" where
  "fifo_put H T p m =
     (let m = m(fo_next p := T);
          m = m(fo_next (m (fo_next T)) := p);
          m = m(fo_next T := p)
      in if m (fo_next H) = T then m(fo_next H := p) else m)"

definition FIFOFreelistHeap_free :: "u32 \<Rightarrow> u32 \<Rightarrow> u32 \<Rightarrow> 'h hstate \<Rightarrow> 'h hstate option" where
  "FIFOFreelistHeap_free H T ptr = (\<lambda>(h, m). Some (h, fifo_put H T ptr m))"

text \<open>The destructor frees the objects in order.\<close>

partial_function (option) fifo_delete_from ::
  "u32 \<Rightarrow> (u32 \<Rightarrow> 'h hstate \<Rightarrow> 'h hstate option) \<Rightarrow> u32 \<Rightarrow> 'h hstate \<Rightarrow> 'h hstate option" where
  "fifo_delete_from T sfree ptr st =
     (if ptr = T then Some st
      else let oldptr = ptr; ptr = snd st (fo_next ptr)
           in Option.bind (sfree oldptr st) (fifo_delete_from T sfree ptr))"

definition FIFOFreelistHeap_delete ::
  "u32 \<Rightarrow> u32 \<Rightarrow> (u32 \<Rightarrow> 'h hstate \<Rightarrow> 'h hstate option) \<Rightarrow> 'h hstate \<Rightarrow> 'h hstate option" where
  "FIFOFreelistHeap_delete H T sfree st = fifo_delete_from T sfree (snd st (fo_next H)) st"

text \<open>The objects \<open>es\<close> from \<open>p\<close> on.\<close>

fun fifo_chain :: "u32 \<Rightarrow> hmem \<Rightarrow> u32 \<Rightarrow> u32 list \<Rightarrow> bool" where
  "fifo_chain T m p [] \<longleftrightarrow> p = T"
| "fifo_chain T m p (e # es) \<longleftrightarrow> p = e \<and> fifo_chain T m (m (fo_next e)) es"

definition fifo_repr :: "u32 \<Rightarrow> u32 \<Rightarrow> hmem \<Rightarrow> u32 list \<Rightarrow> bool" where
  "fifo_repr H T m es \<longleftrightarrow> distinct (H # T # es) \<and> fifo_chain T m (m (fo_next H)) es \<and>
     m (fo_next T) = (if es = [] then T else last es)"

lemma fo_next_eq [simp]: "fo_next p = fo_next q \<longleftrightarrow> p = q" by (simp add: fo_next_def)

lemma fifo_chain_frame: "(\<And>e. e \<in> set es \<Longrightarrow> m' (fo_next e) = m (fo_next e)) \<Longrightarrow> fifo_chain T m' p es = fifo_chain T m p es"
  by (induction es arbitrary: p) auto

lemma fifo_chain_snoc:
  "fifo_chain T m p es \<Longrightarrow> es \<noteq> [] \<Longrightarrow> distinct es \<Longrightarrow> m' (fo_next (last es)) = e \<Longrightarrow> m' (fo_next e) = T \<Longrightarrow>
   (\<And>x. x \<in> set (butlast es) \<Longrightarrow> m' (fo_next x) = m (fo_next x)) \<Longrightarrow> fifo_chain T m' p (es @ [e])"
proof (induction es arbitrary: p)
  case (Cons a es)
  then show ?case by (cases "es = []") auto
qed simp

lemma not_in_butlast: "distinct es \<Longrightarrow> x \<in> set (butlast es) \<Longrightarrow> x \<noteq> last es"
  by (induction es) auto

lemma fifo_put_repr:
  assumes r: "fifo_repr H T m es" and d: "distinct (H # T # es @ [e])"
  shows "fifo_repr H T (fifo_put H T e m) (es @ [e])"
proof (cases es)
  case Nil
  then show ?thesis using r d by (auto simp: fifo_repr_def fifo_put_def Let_def)
next
  case (Cons a as)
  define l where "l = last es"
  define m' where "m' = m(fo_next e := T, fo_next l := e, fo_next T := e)"
  have l: "l \<in> set es" "m (fo_next T) = l" using Cons r by (simp_all add: fifo_repr_def l_def)
  have ne: "H \<noteq> e" "H \<noteq> l" "H \<noteq> T" "T \<noteq> e" "T \<noteq> l" "e \<noteq> l" using d l(1) by auto
  have H: "m (fo_next H) = a" "a \<noteq> T" using r d Cons by (auto simp: fifo_repr_def)
  have p: "fifo_put H T e m = m'" using ne H l(2) by (simp add: fifo_put_def Let_def m'_def)
  have "m' (fo_next x) = m (fo_next x)" if "x \<in> set (butlast es)" for x
    using not_in_butlast [of es x] in_set_butlastD [OF that] that d unfolding m'_def l_def by auto
  then have "fifo_chain T m' (m (fo_next H)) (es @ [e])"
    using r d Cons ne by (intro fifo_chain_snoc) (auto simp: fifo_repr_def m'_def l_def)
  then show ?thesis using ne d unfolding p fifo_repr_def by (simp add: m'_def)
qed

lemma fifo_take_repr:
  assumes r: "fifo_repr H T m (e # es)"
  shows "fst (fifo_take H T m) = e" and "fifo_repr H T (snd (fifo_take H T m)) es" and "m (fo_next H) \<noteq> T"
proof -
  have h: "m (fo_next H) = e" "distinct (H # T # e # es)" "fifo_chain T m (m (fo_next e)) es" using r by (auto simp: fifo_repr_def)
  then show "fst (fifo_take H T m) = e" "m (fo_next H) \<noteq> T" by (auto simp: fifo_take_def Let_def)
  let ?m = "m(fo_next H := m (fo_next e))"
  have c: "fifo_chain T ?m (m (fo_next e)) es" using h(2,3) fifo_chain_frame [of es ?m m] by fastforce
  show "fifo_repr H T (snd (fifo_take H T m)) es"
  proof (cases es)
    case Nil
    then show ?thesis using h by (auto simp: fifo_take_def Let_def fifo_repr_def)
  next
    case (Cons b bs)
    then have "m (fo_next e) = b" "b \<noteq> T" using h by auto
    then have "snd (fifo_take H T m) = ?m" using h(1) by (simp add: fifo_take_def Let_def)
    then show ?thesis using c r Cons h(2) by (auto simp: fifo_repr_def)
  qed
qed

interpretation ff: fifo "fifo_put H T" "fifo_take H T" "fifo_repr H T" "\<lambda>es. distinct (H # T # es)" for H T
proof
  fix m es e assume "fifo_repr H T m es" "distinct (H # T # es @ [e])"
  then show "fifo_repr H T (fifo_put H T e m) (es @ [e])" by (rule fifo_put_repr)
next
  fix m e es assume "fifo_repr H T m (e # es)"
  then show "fst (fifo_take H T m) = e \<and> fifo_repr H T (snd (fifo_take H T m)) es" using fifo_take_repr by blast
qed auto

lemma fifo_new_repr: "H \<noteq> T \<Longrightarrow> fifo_repr H T (fifo_new H T m) []"
  by (simp add: fifo_repr_def fifo_new_def)

lemma FIFOFreelistHeap_malloc_cases:
  "fifo_repr H T m [] \<Longrightarrow> FIFOFreelistHeap_malloc H T smalloc sz (h, m) = smalloc sz (h, m)"
  "fifo_repr H T m (e # es) \<Longrightarrow> \<exists>m'. FIFOFreelistHeap_malloc H T smalloc sz (h, m) = Some (e, (h, m')) \<and> fifo_repr H T m' es"
  using fifo_take_repr [of H T m e es]
  by (auto simp: FIFOFreelistHeap_malloc_def fifo_repr_def [of _ _ _ "[]"] case_prod_unfold Let_def)

section \<open>\<open>FIFODLFreelistHeap\<close>\<close>

definition fd_new :: "u32 \<Rightarrow> u32 \<Rightarrow> hmem \<Rightarrow> hmem" where
  "fd_new H T m = m(fo_prev H := H, fo_next H := T, fo_prev T := H, fo_next T := T)"

definition fd_isEmpty :: "u32 \<Rightarrow> u32 \<Rightarrow> hmem \<Rightarrow> bool" where
  "fd_isEmpty H T m \<longleftrightarrow> m (fo_next H) = T"

definition fd_take :: "u32 \<Rightarrow> u32 \<Rightarrow> hmem \<Rightarrow> u32 \<times> hmem" where
  "fd_take H T m =
     (let ptr = m (fo_prev T);
          m = m(fo_next (m (fo_prev ptr)) := T)
      in (ptr, m(fo_prev T := m (fo_prev ptr))))"

definition FIFODLFreelistHeap_malloc ::
  "u32 \<Rightarrow> u32 \<Rightarrow> (u32 \<Rightarrow> 'h hstate \<Rightarrow> (u32 \<times> 'h hstate) option) \<Rightarrow> u32 \<Rightarrow> 'h hstate \<Rightarrow> (u32 \<times> 'h hstate) option" where
  "FIFODLFreelistHeap_malloc H T smalloc sz = (\<lambda>(h, m).
     if m (fo_prev T) = H then smalloc sz (h, m)
     else let (ptr, m) = fd_take H T m in Some (ptr, (h, m)))"

definition fd_put :: "u32 \<Rightarrow> u32 \<Rightarrow> u32 \<Rightarrow> hmem \<Rightarrow> hmem" where
  "fd_put H T p m =
     (let m = m(fo_next p := m (fo_next H));
          m = m(fo_prev (m (fo_next p)) := p);
          m = m(fo_prev p := H)
      in m(fo_next H := p))"

definition FIFODLFreelistHeap_free :: "u32 \<Rightarrow> u32 \<Rightarrow> u32 \<Rightarrow> 'h hstate \<Rightarrow> 'h hstate option" where
  "FIFODLFreelistHeap_free H T ptr = (\<lambda>(h, m). Some (h, fd_put H T ptr m))"

definition fd_remove :: "u32 \<Rightarrow> hmem \<Rightarrow> hmem" where
  "fd_remove p m =
     (let m = m(fo_next (m (fo_prev p)) := m (fo_next p));
          m = m(fo_prev (m (fo_next p)) := m (fo_prev p));
          m = m(fo_next p := 0)
      in m(fo_prev p := 0))"

text \<open>The objects between \<open>H\<close> and \<open>T\<close>, linked in both directions.\<close>

fun linked :: "hmem \<Rightarrow> u32 list \<Rightarrow> bool" where
  "linked m (a # b # es) \<longleftrightarrow> m (fo_next a) = b \<and> m (fo_prev b) = a \<and> linked m (b # es)"
| "linked m _ \<longleftrightarrow> True"

text \<open>The words of the objects are all different.\<close>

definition words_apart :: "u32 list \<Rightarrow> bool" where
  "words_apart es \<longleftrightarrow> distinct (concat (map (\<lambda>e. [fo_prev e, fo_next e]) es))"

text \<open>Newer objects come first; \<open>malloc\<close> takes the last one.\<close>

definition fd_repr :: "u32 \<Rightarrow> u32 \<Rightarrow> hmem \<Rightarrow> u32 list \<Rightarrow> bool" where
  "fd_repr H T m es \<longleftrightarrow> words_apart (H # rev es @ [T]) \<and> linked m (H # rev es @ [T])"

lemma linked_Cons: "linked m (a # es) \<longleftrightarrow> (es \<noteq> [] \<longrightarrow> m (fo_next a) = hd es \<and> m (fo_prev (hd es)) = a \<and> linked m es)"
  by (cases es) auto

declare linked.simps [simp del]

lemma linked_single [simp]: "linked m []" "linked m [a]" by (simp_all add: linked.simps)

lemma linked_append: "linked m (xs @ a # ys) \<longleftrightarrow> linked m (xs @ [a]) \<and> linked m (a # ys)"
  by (induction xs) (auto simp: linked_Cons [of m _ "_ @ _"] hd_append)

lemma apart_simps [simp]:
  "words_apart []" "words_apart (a # es) \<longleftrightarrow> fo_prev a \<noteq> fo_next a \<and> words_apart es \<and>
     (\<forall>e \<in> set es. fo_prev a \<noteq> fo_prev e \<and> fo_prev a \<noteq> fo_next e \<and> fo_next a \<noteq> fo_prev e \<and> fo_next a \<noteq> fo_next e)"
  by (auto simp: words_apart_def)

lemma apart_append: "words_apart (es @ fs) \<longleftrightarrow> words_apart es \<and> words_apart fs \<and> (\<forall>a \<in> set es. \<forall>e \<in> set fs.
    fo_prev a \<noteq> fo_prev e \<and> fo_prev a \<noteq> fo_next e \<and> fo_next a \<noteq> fo_prev e \<and> fo_next a \<noteq> fo_next e)"
  by (induction es) auto

text \<open>A list depends on the \<open>next\<close> words of all but its last object and on the \<open>prev\<close> words of all but its first.\<close>

lemma linked_frame:
  "(\<And>e. e \<in> set (butlast es) \<Longrightarrow> m' (fo_next e) = m (fo_next e)) \<Longrightarrow> (\<And>e. e \<in> set (tl es) \<Longrightarrow> m' (fo_prev e) = m (fo_prev e)) \<Longrightarrow>
   linked m' es = linked m es"
proof (induction es rule: induct_list012)
  case (3 a b es)
  then show ?case by (simp add: linked.simps)
qed simp_all

text \<open>Putting an object between the head and the rest.\<close>

lemma linked_front:
  assumes l: "linked m (H # es @ [T])" and a: "words_apart (H # p # es @ [T])"
  shows "linked (fd_put H T p m) (H # p # es @ [T])"
proof -
  define b bs where "b = hd (es @ [T])" and "bs = tl (es @ [T])"
  have e: "es @ [T] = b # bs" by (simp add: b_def bs_def)
  have h: "m (fo_next H) = b" "linked m (b # bs)" using l unfolding e by (simp_all add: linked.simps)
  have a': "words_apart (H # p # b # bs)" using a unfolding e .
  have pm: "fd_put H T p m = m(fo_next p := b, fo_prev b := p, fo_prev p := H, fo_next H := p)"
    using a' h(1) by (simp add: fd_put_def Let_def)
  have f: "x \<noteq> p \<and> x \<noteq> H \<and> fo_next x \<noteq> fo_prev b \<and> fo_next x \<noteq> fo_prev p" if "x \<in> set (butlast (b # bs))" for x
    using a' in_set_butlastD [OF that] by auto
  have g: "fo_prev x \<noteq> fo_next p \<and> fo_prev x \<noteq> fo_prev b \<and> fo_prev x \<noteq> fo_prev p \<and> fo_prev x \<noteq> fo_next H" if "x \<in> set bs" for x
    using a' that by auto
  have "linked (fd_put H T p m) (b # bs) = linked m (b # bs)"
    using f g unfolding pm by (intro linked_frame) auto
  moreover have "fd_put H T p m (fo_next H) = p" "fd_put H T p m (fo_prev p) = H" "fd_put H T p m (fo_next p) = b"
    "fd_put H T p m (fo_prev b) = p" using a' unfolding pm by auto
  ultimately show ?thesis using h(2) unfolding e by (simp add: linked.simps)
qed

text \<open>Unlinking \<open>p\<close> with any later writes to the words of \<open>p\<close> itself.\<close>

lemma linked_unlink:
  assumes l: "linked m (xs @ a # p # b # ys)" and ap: "words_apart (xs @ a # p # b # ys)"
    and m': "m' (fo_next a) = b" "m' (fo_prev b) = a"
      "\<And>x. x \<noteq> fo_next a \<Longrightarrow> x \<noteq> fo_prev b \<Longrightarrow> x \<noteq> fo_next p \<Longrightarrow> x \<noteq> fo_prev p \<Longrightarrow> m' x = m x"
  shows "linked m' (xs @ a # b # ys)"
proof -
  have s: "linked m (xs @ [a])" "linked m (b # ys)"
    using l linked_append [of m xs a "p # b # ys"] by (simp_all add: linked.simps)
  have "linked m' (xs @ [a]) = linked m (xs @ [a])"
  proof (rule linked_frame)
    fix e assume "e \<in> set (butlast (xs @ [a]))"
    then have "e \<in> set xs" by simp
    then show "m' (fo_next e) = m (fo_next e)" using ap by (intro m'(3)) (auto simp: apart_append)
  next
    fix e assume "e \<in> set (tl (xs @ [a]))"
    then have "e \<in> set xs \<or> e = a" by (cases xs) auto
    then show "m' (fo_prev e) = m (fo_prev e)" using ap by (intro m'(3)) (auto simp: apart_append)
  qed
  moreover have "linked m' (b # ys) = linked m (b # ys)"
  proof (rule linked_frame)
    fix e assume "e \<in> set (butlast (b # ys))"
    then have "e \<in> set (b # ys)" by (rule in_set_butlastD)
    then show "m' (fo_next e) = m (fo_next e)" using ap by (intro m'(3)) (auto simp: apart_append)
  next
    fix e assume "e \<in> set (tl (b # ys))"
    then show "m' (fo_prev e) = m (fo_prev e)" using ap by (intro m'(3)) (auto simp: apart_append)
  qed
  ultimately show ?thesis using s m'(1,2) linked_append [of m' xs a "b # ys"] by (simp add: linked.simps)
qed

lemma linked_middle: "linked m (xs @ a # b # ys) \<Longrightarrow> m (fo_next a) = b \<and> m (fo_prev b) = a"
  using linked_append [of m xs a "b # ys"] by (simp add: linked.simps)

text \<open>\<open>remove\<close> takes an object out of any place of the list.\<close>

lemma apart_drop: "words_apart (xs @ p # ys) \<Longrightarrow> words_apart (xs @ ys)"
  by (simp add: apart_append)

lemma fd_remove_repr:
  assumes "fd_repr H T m (xs @ p # ys)"
  shows "fd_repr H T (fd_remove p m) (xs @ ys)"
proof -
  define us a b vs where "us = butlast (H # rev ys)" and "a = last (H # rev ys)" and "b = hd (rev xs @ [T])"
    and "vs = tl (rev xs @ [T])"
  have u: "H # rev ys = us @ [a]" unfolding us_def a_def by (rule append_butlast_last_id [symmetric]) simp
  have v: "rev xs @ [T] = b # vs" by (simp add: b_def vs_def)
  have w: "H # rev (xs @ p # ys) @ [T] = us @ a # p # b # vs" using u v by simp
  have l: "linked m (us @ a # p # b # vs)" "words_apart (us @ a # p # b # vs)" using assms unfolding fd_repr_def w by simp_all
  have c: "m (fo_next p) = b" "m (fo_prev p) = a"
    using linked_middle [of m us a p "b # vs"] linked_middle [of m "us @ [a]" p b vs] l(1) by simp_all
  have ab: "fo_next a \<noteq> fo_next p" "fo_next a \<noteq> fo_prev p" "fo_prev b \<noteq> fo_prev p" "fo_prev b \<noteq> fo_next p"
    "fo_next a \<noteq> fo_prev b" "fo_prev p \<noteq> fo_next p" using l(2) by (auto simp: apart_append)
  have r: "fd_remove p m = m(fo_next a := b, fo_prev b := a, fo_next p := 0, fo_prev p := 0)"
    using c ab unfolding fd_remove_def Let_def by simp
  have "linked (fd_remove p m) (us @ a # b # vs)"
    using l by (rule linked_unlink) (use ab in \<open>simp_all add: r\<close>)
  moreover have "words_apart (us @ a # b # vs)" using apart_drop [of "us @ [a]" p "b # vs"] l(2) by simp
  moreover have "H # rev (xs @ ys) @ [T] = us @ a # b # vs" using u v by simp
  ultimately show ?thesis unfolding fd_repr_def by (simp only: simp_thms)
qed

lemma fd_take_repr:
  assumes r: "fd_repr H T m (e # es)"
  shows "fst (fd_take H T m) = e" and "fd_repr H T (snd (fd_take H T m)) es" and "m (fo_prev T) \<noteq> H"
proof -
  define us a where "us = butlast (H # rev es)" and "a = last (H # rev es)"
  have u: "H # rev es = us @ [a]" unfolding us_def a_def by (rule append_butlast_last_id [symmetric]) simp
  have w: "H # rev (e # es) @ [T] = us @ a # e # T # []" using u by simp
  have l: "linked m (us @ a # e # T # [])" "words_apart (us @ a # e # T # [])" using r unfolding fd_repr_def w by simp_all
  have c: "m (fo_prev T) = e" "m (fo_prev e) = a"
    using linked_middle [of m us a e "[T]"] linked_middle [of m "us @ [a]" e T "[]"] l(1) by simp_all
  have ab: "fo_next a \<noteq> fo_prev e" "fo_prev T \<noteq> fo_prev e" "fo_next a \<noteq> fo_prev T" using l(2) by (auto simp: apart_append)
  have t: "fd_take H T m = (e, m(fo_next a := T, fo_prev T := a))" using c ab by (simp add: fd_take_def Let_def)
  then show "fst (fd_take H T m) = e" by simp
  have "linked (snd (fd_take H T m)) (us @ a # T # [])" using l by (rule linked_unlink) (use ab in \<open>simp_all add: t\<close>)
  moreover have "words_apart (us @ a # T # [])" using apart_drop [of "us @ [a]" e "[T]"] l(2) by simp
  moreover have "H # rev es @ [T] = us @ a # T # []" using u by simp
  ultimately show "fd_repr H T (snd (fd_take H T m)) es" unfolding fd_repr_def by (simp only: simp_thms)
  show "m (fo_prev T) \<noteq> H" using r c by (auto simp: fd_repr_def)
qed

interpretation fd: fifo "fd_put H T" "fd_take H T" "fd_repr H T" "\<lambda>es. words_apart (H # rev es @ [T])" for H T
proof
  fix m es e assume "fd_repr H T m es" "words_apart (H # rev (es @ [e]) @ [T])"
  then show "fd_repr H T (fd_put H T e m) (es @ [e])" using linked_front [of m H "rev es" T e] by (simp add: fd_repr_def)
next
  fix m e es assume "fd_repr H T m (e # es)"
  then show "fst (fd_take H T m) = e \<and> fd_repr H T (snd (fd_take H T m)) es" using fd_take_repr by blast
qed (auto simp: apart_append)


lemma FIFODLFreelistHeap_malloc_cases:
  "fd_repr H T m [] \<Longrightarrow> FIFODLFreelistHeap_malloc H T smalloc sz (h, m) = smalloc sz (h, m)"
  "fd_repr H T m (e # es) \<Longrightarrow> \<exists>m'. FIFODLFreelistHeap_malloc H T smalloc sz (h, m) = Some (e, (h, m')) \<and> fd_repr H T m' es"
  using fd_take_repr [of H T m e es]
  by (auto simp: FIFODLFreelistHeap_malloc_def fd_repr_def [of _ _ _ "[]"] linked.simps case_prod_unfold Let_def)

section \<open>\<open>BoundedFreeListHeap\<close>\<close>

type_synonym 'h bounded = "((u32 \<times> int) \<times> 'h) hstate"

definition BoundedFreeListHeap_malloc ::
  "(u32 \<Rightarrow> 'h hstate \<Rightarrow> (u32 \<times> 'h hstate) option) \<Rightarrow> u32 \<Rightarrow> 'h bounded \<Rightarrow> (u32 \<times> 'h bounded) option" where
  "BoundedFreeListHeap_malloc smalloc sz = (\<lambda>(((fl, n), h), m).
     if fl = 0 then map_option (\<lambda>(ptr, (h, m)). (ptr, (((fl, n), h), m))) (smalloc sz (h, m))
     else Some (fl, (((m fl, n), h), m)))"

partial_function (option) bounded_free_from ::
  "(u32 \<Rightarrow> 'h hstate \<Rightarrow> 'h hstate option) \<Rightarrow> u32 \<Rightarrow> 'h hstate \<Rightarrow> 'h hstate option" where
  "bounded_free_from sfree ptr st =
     (if ptr = 0 then Some st
      else let oldptr = ptr; ptr = snd st ptr in Option.bind (sfree oldptr st) (bounded_free_from sfree ptr))"

definition BoundedFreeListHeap_clear ::
  "(u32 \<Rightarrow> 'h hstate \<Rightarrow> 'h hstate option) \<Rightarrow> 'h bounded \<Rightarrow> 'h bounded option" where
  "BoundedFreeListHeap_clear sfree = (\<lambda>(((fl, n), h), m).
     map_option (\<lambda>(h, m). (((0, 0), h), m)) (bounded_free_from sfree fl (h, m)))"

definition BoundedFreeListHeap_free ::
  "int \<Rightarrow> (u32 \<Rightarrow> 'h hstate \<Rightarrow> 'h hstate option) \<Rightarrow> u32 \<Rightarrow> 'h bounded \<Rightarrow> 'h bounded option" where
  "BoundedFreeListHeap_free numObjects sfree ptr = (\<lambda>(((fl, n), h), m).
     if n < numObjects then Some (((ptr, n + 1), h), m(ptr := fl))
     else BoundedFreeListHeap_clear sfree (((fl, n), h), m))"

definition bounded_repr :: "int \<Rightarrow> 'h bounded \<Rightarrow> u32 list \<Rightarrow> bool" where
  "bounded_repr k = (\<lambda>(((fl, n), h), m) es. sl_repr (fl, m) es \<and> int (length es) \<le> n \<and> n \<le> k)"

text \<open>The list never holds more than \<open>numObjects\<close> objects: \<open>malloc\<close> leaves the counter, \<open>free\<close> raises it below the bound.\<close>

lemma BoundedFreeListHeap_malloc_reuses:
  "bounded_repr k st (e # es) \<Longrightarrow> \<exists>st'. BoundedFreeListHeap_malloc smalloc sz st = Some (e, st') \<and> bounded_repr k st' es"
  by (cases st) (auto simp: bounded_repr_def BoundedFreeListHeap_malloc_def sl_repr_def)

lemma BoundedFreeListHeap_free_keeps:
  assumes "bounded_repr k (((fl, n), h), m) es" and "n < k" and "e \<noteq> 0" and "e \<notin> set es"
  shows "\<exists>m'. BoundedFreeListHeap_free k sfree e (((fl, n), h), m) = Some (((e, n + 1), h), m') \<and>
    bounded_repr k (((e, n + 1), h), m') (e # es)"
  using assms by (auto simp: bounded_repr_def BoundedFreeListHeap_free_def sl_repr_def)

fun free_each :: "('e \<Rightarrow> 's \<Rightarrow> 's option) \<Rightarrow> 'e list \<Rightarrow> 's \<Rightarrow> 's option" where
  "free_each sfree [] st = Some st"
| "free_each sfree (e # es) st = Option.bind (sfree e st) (free_each sfree es)"

lemma bounded_free_from_each:
  assumes frame: "\<And>e st st' a. sfree e st = Some st' \<Longrightarrow> a \<noteq> e \<Longrightarrow> snd st' a = snd st a"
  shows "sl_chain (snd st) es \<Longrightarrow> distinct es \<Longrightarrow> bounded_free_from sfree (hd_or_0 es) st = free_each sfree es st"
proof (induction es arbitrary: st)
  case Nil
  then show ?case by (subst bounded_free_from.simps) simp
next
  case (Cons e es)
  have "bounded_free_from sfree (hd_or_0 es) st' = free_each sfree es st'" if s: "sfree e st = Some st'" for st'
  proof (rule Cons.IH)
    have "sl_chain (snd st') es = sl_chain (snd st) es"
    proof (rule sl_chain_frame)
      fix a assume "a \<in> set es"
      then show "snd st' a = snd st a" using Cons.prems(2) by (intro frame [OF s]) auto
    qed
    then show "sl_chain (snd st') es" using Cons.prems(1) by simp
  qed (use Cons.prems in simp)
  then show ?case using Cons.prems by (subst bounded_free_from.simps) (cases "sfree e st", simp_all add: Let_def)
qed

text \<open>
  A full list is returned to the super heap as a whole, oldest object last. The object being freed is not: it is
  neither on the list nor given back.
\<close>

lemma BoundedFreeListHeap_free_full:
  assumes "\<And>e st st' a. sfree e st = Some st' \<Longrightarrow> a \<noteq> e \<Longrightarrow> snd st' a = snd st a"
    and "bounded_repr k (((fl, n), h), m) es" and "n = k"
  shows "BoundedFreeListHeap_free k sfree ptr (((fl, n), h), m) =
    map_option (\<lambda>(h, m). (((0, 0), h), m)) (free_each sfree es (h, m))"
  using assms(2,3) bounded_free_from_each [OF assms(1), where st = "(h, m)" and es = es]
  by (simp add: bounded_repr_def sl_repr_def BoundedFreeListHeap_free_def BoundedFreeListHeap_clear_def)

text \<open>The counter is not lowered by \<open>malloc\<close>: after \<open>numObjects\<close> frees the next one clears, whatever has been reused.\<close>

lemma BoundedFreeListHeap_leaks:
  "Option.bind (Option.bind (BoundedFreeListHeap_free 1 (\<lambda>e (h, m). Some (e # h, m)) 8 (((0, 0), []), \<lambda>_. 0))
     (BoundedFreeListHeap_malloc (\<lambda>sz st. None) 8))
     (\<lambda>(p, st). map_option (\<lambda>(((fl, n), h), m). (p, fl, n, h)) (BoundedFreeListHeap_free 1 (\<lambda>e (h, m). Some (e # h, m)) p st))
   = Some (8, 0, 0, [])"
  by (simp add: BoundedFreeListHeap_free_def BoundedFreeListHeap_malloc_def BoundedFreeListHeap_clear_def bounded_free_from.simps)

section \<open>Properties\<close>

text \<open>Objects freed to an empty \<open>FIFOFreelistHeap\<close> are handed out again in the order in which they were freed.\<close>

theorem FIFOFreelistHeap_first_in_first_out:
  assumes "distinct (H # T # es)"
  shows "get_all (fifo_take H T) (length es) (put_all (fifo_put H T) es (fifo_new H T m)) = es"
  using assms by (intro ff.first_in_first_out fifo_new_repr) auto

theorem FIFOFreelistHeap_first_in_first_out_witness:
  "get_all (fifo_take 100 108) 3 (put_all (fifo_put 100 108) [16, 32, 24] (fifo_new 100 108 (\<lambda>_. 7))) = [16, 32, 24]"
  using FIFOFreelistHeap_first_in_first_out [of 100 108 "[16, 32, 24]" "\<lambda>_. 7"] by (simp add: numeral_3_eq_3)

text \<open>objects freed to an empty \<open>FIFODLFreelistHeap\<close> are handed out again in the order in which they were freed, and taking one out of the middle of the list with \<open>remove\<close> keeps the order of the others.\<close>

theorem FIFODLFreelistHeap_remove_keeps_order:
  assumes "words_apart (H # rev (es @ p # fs) @ [T])"
  shows "get_all (fd_take H T) (length (es @ fs)) (fd_remove p (put_all (fd_put H T) (es @ p # fs) (fd_new H T m))) = es @ fs"
proof -
  have "words_apart [H, T]" using assms by (simp add: apart_append)
  then have "fd_repr H T (fd_new H T m) []" by (auto simp: fd_repr_def fd_new_def linked.simps)
  then have "fd_repr H T (put_all (fd_put H T) (es @ p # fs) (fd_new H T m)) (es @ p # fs)"
    using fd.put_all_repr [of H T _ "[]" "es @ p # fs"] assms by simp
  then show ?thesis by (intro fd.get_all_repr fd_remove_repr)
qed

theorem FIFODLFreelistHeap_remove_keeps_order_witness:
  "get_all (fd_take 100 108) 3 (fd_remove 32 (put_all (fd_put 100 108) [16, 32, 24, 48] (fd_new 100 108 (\<lambda>_. 7)))) = [16, 24, 48]"
  using FIFODLFreelistHeap_remove_keeps_order [of 100 "[16]" 32 "[24, 48]" 108 "\<lambda>_. 7"]
  by (simp add: fo_next_def fo_prev_def numeral_3_eq_3)

end
