(* ===== verification/Hl_Locks.thy ===== *)
theory Hl_Locks
  imports Grace_Prelude
begin

text \<open>
  Locks and what they are used for: the spin lock of \<open>heaplayers/spinlock.h\<close>, the mutex of
  \<open>heaplayers/util/posixlock.h\<close>, the recursive lock of \<open>heaplayers/util/recursivelock.h\<close> and the locked heap of
  \<open>heaplayers/lockedheap.h\<close> with the \<open>Guard\<close> of \<open>heaplayers/util/guard.h\<close>. The processor interleaves the atomic steps
  of the threads in any order, which is a list of the threads that move.
\<close>

section \<open>The interface\<close>

text \<open>
  \<open>enter t\<close> is one step of thread \<open>t\<close> inside \<open>lock ()\<close>, \<open>leave t\<close> is its \<open>unlock ()\<close>. \<open>holds s t\<close>: the call of \<open>lock ()\<close> has
  returned and \<open>unlock ()\<close> has not been called.
\<close>

locale lock =
  fixes enter leave :: "nat \<Rightarrow> 's \<Rightarrow> 's"
    and holds :: "'s \<Rightarrow> nat \<Rightarrow> bool"
    and ok :: "'s \<Rightarrow> bool"
  assumes one_holder: "ok s \<Longrightarrow> holds s t \<Longrightarrow> holds s u \<Longrightarrow> t = u"
    and enter_ok: "ok s \<Longrightarrow> \<not> holds s t \<Longrightarrow> ok (enter t s)"
    and enter_others: "ok s \<Longrightarrow> \<not> holds s t \<Longrightarrow> u \<noteq> t \<Longrightarrow> holds (enter t s) u = holds s u"
    and leave_ok: "ok s \<Longrightarrow> holds s t \<Longrightarrow> ok (leave t s)"
    and leave_releases: "ok s \<Longrightarrow> holds s t \<Longrightarrow> \<not> holds (leave t s) u"

section \<open>Guarded calls\<close>

text \<open>
  The code of a thread over a heap: \<open>lock ()\<close>, the steps of a method of the super heap, \<open>unlock ()\<close>. The steps act on
  the heap and on the results of the threads, which are part of \<open>'h\<close>.
\<close>

datatype 'h instr = Lock | Run "'h \<Rightarrow> 'h" | Unlock

text \<open>The constructor of a \<open>Guard\<close> locks, its destructor unlocks.\<close>

definition Guard :: "('h \<Rightarrow> 'h) list \<Rightarrow> 'h instr list" where
  "Guard body = Lock # map Run body @ [Unlock]"

definition LockedHeap_malloc :: "(u32 \<Rightarrow> ('h \<Rightarrow> 'h) list) \<Rightarrow> u32 \<Rightarrow> 'h instr list" where
  "LockedHeap_malloc smalloc sz = Guard (smalloc sz)"

definition LockedHeap_free :: "(u32 \<Rightarrow> ('h \<Rightarrow> 'h) list) \<Rightarrow> u32 \<Rightarrow> 'h instr list" where
  "LockedHeap_free sfree ptr = Guard (sfree ptr)"

record ('s, 'h) locked =
  lh_lock :: 's
  lh_heap :: 'h
  lh_code :: "nat \<Rightarrow> 'h instr list"
  lh_trace :: "(nat \<times> ('h \<Rightarrow> 'h)) list"

text \<open>One step of thread \<open>t\<close>; the trace, which is not in the program, records the steps of the super heap.\<close>

definition locked_step ::
  "(nat \<Rightarrow> 's \<Rightarrow> 's) \<Rightarrow> (nat \<Rightarrow> 's \<Rightarrow> 's) \<Rightarrow> ('s \<Rightarrow> nat \<Rightarrow> bool) \<Rightarrow> nat \<Rightarrow> ('s, 'h) locked \<Rightarrow> ('s, 'h) locked" where
  "locked_step enter leave holds t s =
     (case lh_code s t of
        [] \<Rightarrow> s
      | Lock # c \<Rightarrow>
          let l = enter t (lh_lock s)
          in s\<lparr>lh_lock := l, lh_code := (if holds l t then (lh_code s)(t := c) else lh_code s)\<rparr>
      | Run f # c \<Rightarrow> s\<lparr>lh_heap := f (lh_heap s), lh_code := (lh_code s)(t := c), lh_trace := lh_trace s @ [(t, f)]\<rparr>
      | Unlock # c \<Rightarrow> s\<lparr>lh_lock := leave t (lh_lock s), lh_code := (lh_code s)(t := c)\<rparr>)"

text \<open>\<open>calls t\<close> are the bodies of the calls of thread \<open>t\<close>.\<close>

definition locked_init :: "'s \<Rightarrow> 'h \<Rightarrow> (nat \<Rightarrow> ('h \<Rightarrow> 'h) list list) \<Rightarrow> ('s, 'h) locked" where
  "locked_init l h calls = \<lparr>lh_lock = l, lh_heap = h, lh_code = (\<lambda>t. concat (map Guard (calls t))), lh_trace = []\<rparr>"

definition run_body :: "('h \<Rightarrow> 'h) list \<Rightarrow> 'h \<Rightarrow> 'h" where
  "run_body body h = fold (\<lambda>f. f) body h"

lemma run_body_simps [simp]: "run_body [] h = h" "run_body (f # fs) h = run_body fs (f h)"
  "run_body (fs @ gs) h = run_body gs (run_body fs h)"
  by (simp_all add: run_body_def)

text \<open>The calls of thread \<open>t\<close> in a list of calls, in order.\<close>

definition calls_of :: "nat \<Rightarrow> (nat \<times> 'a) list \<Rightarrow> 'a list" where
  "calls_of t cs = map snd (filter (\<lambda>c. fst c = t) cs)"

lemma calls_of_simps [simp]: "calls_of t [] = []" "calls_of t (cs @ ds) = calls_of t cs @ calls_of t ds"
  "calls_of t [(u, b)] = (if u = t then [b] else [])"
  by (simp_all add: calls_of_def)

text \<open>
  \<open>fin\<close> are the calls that have given back the lock, in the order in which they took it. \<open>now\<close> is the call in progress:
  its thread, the steps it has made and those it has still to make.
\<close>

definition locked_inv ::
  "('s \<Rightarrow> nat \<Rightarrow> bool) \<Rightarrow> ('s \<Rightarrow> bool) \<Rightarrow> 'h \<Rightarrow> (nat \<Rightarrow> ('h \<Rightarrow> 'h) list list)
   \<Rightarrow> (nat \<times> ('h \<Rightarrow> 'h) list) list \<Rightarrow> (nat \<times> ('h \<Rightarrow> 'h) list \<times> ('h \<Rightarrow> 'h) list) option \<Rightarrow> ('s, 'h) locked \<Rightarrow> bool" where
  "locked_inv holds ok h calls fin now s \<longleftrightarrow>
     ok (lh_lock s) \<and>
     (\<forall>t. holds (lh_lock s) t \<longleftrightarrow> (\<exists>p f. now = Some (t, p, f))) \<and>
     (\<forall>t p f. now = Some (t, p, f) \<longrightarrow> (\<exists>rest. lh_code s t = map Run f @ Unlock # concat (map Guard rest) \<and>
         calls t = calls_of t fin @ (p @ f) # rest)) \<and>
     (\<forall>u. \<not> holds (lh_lock s) u \<longrightarrow> (\<exists>rest. lh_code s u = concat (map Guard rest) \<and> calls u = calls_of u fin @ rest)) \<and>
     lh_heap s = run_body (case now of None \<Rightarrow> [] | Some (t, p, f) \<Rightarrow> p) (run_body (concat (map snd fin)) h)"

lemma locked_inv_outside:
  "locked_inv holds ok h calls fin now s \<Longrightarrow> \<not> holds (lh_lock s) u \<Longrightarrow>
   \<exists>rest. lh_code s u = concat (map Guard rest) \<and> calls u = calls_of u fin @ rest"
  unfolding locked_inv_def by blast

lemma locked_inv_ok: "locked_inv holds ok h calls fin now s \<Longrightarrow> ok (lh_lock s)"
  by (simp add: locked_inv_def)

context lock
begin

lemma locked_inv_init: "ok l \<Longrightarrow> (\<And>t. \<not> holds l t) \<Longrightarrow> locked_inv holds ok h calls [] None (locked_init l h calls)"
  by (simp add: locked_inv_def locked_init_def)

text \<open>A thread outside moves: it waits, or takes the lock for its next call, if nobody has it.\<close>

lemma locked_step_outside:
  assumes i: "locked_inv holds ok h calls fin now s" and n: "\<not> holds (lh_lock s) t"
  shows "\<exists>now'. locked_inv holds ok h calls fin now' (locked_step enter leave holds t s)"
proof -
  obtain rest where c: "lh_code s t = concat (map Guard rest)" "calls t = calls_of t fin @ rest"
    using locked_inv_outside [OF i n] by blast
  show ?thesis
  proof (cases rest)
    case Nil
    then show ?thesis using i c by (auto simp: locked_step_def)
  next
    case (Cons b bs)
    define l where "l = enter t (lh_lock s)"
    have l: "ok l" "\<And>u. u \<noteq> t \<Longrightarrow> holds l u = holds (lh_lock s) u"
      using i n enter_ok enter_others by (auto simp: locked_inv_def l_def)
    have code: "lh_code s t = Lock # map Run b @ Unlock # concat (map Guard bs)" using c Cons by (simp add: Guard_def)
    show ?thesis
    proof (cases "holds l t")
      case False
      then have "\<forall>u. holds l u \<longleftrightarrow> holds (lh_lock s) u" using l(2) n by metis
      moreover have "locked_step enter leave holds t s = s\<lparr>lh_lock := l\<rparr>"
        using False code by (simp add: locked_step_def Let_def l_def)
      ultimately show ?thesis using i l(1) by (auto simp: locked_inv_def)
    next
      case True
      have "\<not> holds (lh_lock s) u" for u
        using True l one_holder [of l t u] n by metis
      then have now: "now = None" using i by (cases now) (auto simp: locked_inv_def)
      have h: "holds l u \<longleftrightarrow> u = t" for u using True l(1) one_holder by blast
      have "locked_step enter leave holds t s = s\<lparr>lh_lock := l, lh_code := (lh_code s)(t := map Run b @ Unlock # concat (map Guard bs))\<rparr>"
        using True code by (simp add: locked_step_def Let_def l_def)
      then have "locked_inv holds ok h calls fin (Some (t, [], b)) (locked_step enter leave holds t s)"
        using i l(1) h c(2) Cons now by (auto simp: locked_inv_def)
      then show ?thesis by blast
    qed
  qed
qed

text \<open>The holder moves: one step of its call, or the end of it.\<close>

lemma locked_step_inside:
  assumes i: "locked_inv holds ok h calls fin now s" and n: "holds (lh_lock s) t"
  shows "\<exists>fin' now'. locked_inv holds ok h calls fin' now' (locked_step enter leave holds t s)"
proof -
  obtain p f where now: "now = Some (t, p, f)" using i n by (auto simp: locked_inv_def)
  then obtain rest where c: "lh_code s t = map Run f @ Unlock # concat (map Guard rest)" "calls t = calls_of t fin @ (p @ f) # rest"
    using i unfolding locked_inv_def by blast
  have h: "holds (lh_lock s) u \<longleftrightarrow> u = t" for u using i now by (auto simp: locked_inv_def)
  show ?thesis
  proof (cases f)
    case (Cons g gs)
    then have "locked_inv holds ok h calls fin (Some (t, p @ [g], gs)) (locked_step enter leave holds t s)"
      using i c now h by (auto simp: locked_inv_def locked_step_def)
    then show ?thesis by blast
  next
    case Nil
    have "ok (leave t (lh_lock s))" "\<And>u. \<not> holds (leave t (lh_lock s)) u"
      using i n leave_ok leave_releases by (auto simp: locked_inv_def)
    then have "locked_inv holds ok h calls (fin @ [(t, p)]) None (locked_step enter leave holds t s)"
      using i c now h Nil by (auto simp: locked_inv_def locked_step_def)
    then show ?thesis by blast
  qed
qed

lemma locked_run_inv:
  assumes "ok l" and "\<And>t. \<not> holds l t"
  shows "\<exists>fin now. locked_inv holds ok h calls fin now (fold (locked_step enter leave holds) ts (locked_init l h calls))"
proof (induction ts rule: rev_induct)
  case Nil
  then show ?case using locked_inv_init [OF assms, of h calls] by auto
next
  case (snoc t ts)
  then obtain fin now where
    "locked_inv holds ok h calls fin now (fold (locked_step enter leave holds) ts (locked_init l h calls))" by blast
  from locked_step_inside [OF this, of t] locked_step_outside [OF this, of t] show ?case by auto
qed

text \<open>
  Whenever nobody is inside, the heap is what the calls made so far leave behind when they are run one after the
  other, and these calls are, for each thread, the first ones of its program.
\<close>

lemma guarded_calls_atomic:
  assumes "ok l" and "\<And>t. \<not> holds l t" and s: "s = fold (locked_step enter leave holds) ts (locked_init l h calls)"
    and "\<And>t. \<not> holds (lh_lock s) t"
  shows "\<exists>cs. lh_heap s = run_body (concat (map snd cs)) h \<and>
    (\<forall>t. \<exists>rest. calls t = calls_of t cs @ rest \<and> lh_code s t = concat (map Guard rest))"
proof -
  obtain fin now where i: "locked_inv holds ok h calls fin now s" using locked_run_inv [OF assms(1,2), where ts = ts and h = h and calls = calls] unfolding s by blast
  then have "now = None" using assms(4) by (cases now) (auto simp: locked_inv_def)
  then show ?thesis using i assms(4) by (intro exI [of _ fin]) (auto simp: locked_inv_def)
qed

text \<open>At any time at most one thread is inside, and the heap moves only by its steps.\<close>

lemma guarded_calls_exclusive:
  assumes "ok l" and "\<And>t. \<not> holds l t" and s: "s = fold (locked_step enter leave holds) ts (locked_init l h calls)"
    and c: "lh_code s t = Run f # c" "lh_code s u = Run g # d"
  shows "t = u"
proof -
  obtain fin now where i: "locked_inv holds ok h calls fin now s" using locked_run_inv [OF assms(1,2), where ts = ts and h = h and calls = calls] unfolding s by blast
  have "holds (lh_lock s) v" if "lh_code s v = Run k # e" for v k e
  proof (rule ccontr)
    assume "\<not> holds (lh_lock s) v"
    then obtain rest where "lh_code s v = concat (map Guard rest)" using locked_inv_outside [OF i] by blast
    then show False using that by (cases rest) (auto simp: Guard_def)
  qed
  then show ?thesis using c one_holder [of "lh_lock s" t u] i by (auto simp: locked_inv_def)
qed

end

section \<open>The spin lock\<close>

datatype spin_pc = Sp_out | Sp_contend | Sp_spin | Sp_in

record spin_lock =
  sl_mutex :: u32
  sl_pc :: "nat \<Rightarrow> spin_pc"

definition UNLOCKED :: u32 where "UNLOCKED = 0"
definition LOCKED :: u32 where "LOCKED = 1"

definition SpinLock_new :: spin_lock where
  "SpinLock_new = \<lparr>sl_mutex = UNLOCKED, sl_pc = (\<lambda>_. Sp_out)\<rparr>"

text \<open>What is returned, and what is stored.\<close>

definition MyInterlockedExchange :: "u32 \<Rightarrow> u32 \<Rightarrow> u32 \<times> u32" where
  "MyInterlockedExchange oldval newval = (oldval, newval)"

text \<open>The beginning of \<open>lock\<close>, up to a call of \<open>contendedLock\<close>.\<close>

definition SpinLock_lock :: "bool \<Rightarrow> u32 \<Rightarrow> spin_pc \<times> u32" where
  "SpinLock_lock anyThreadCreated mutex =
     (if anyThreadCreated then
        let (r, mutex) = MyInterlockedExchange mutex LOCKED
        in (if r \<noteq> UNLOCKED then Sp_contend else Sp_in, mutex)
      else (Sp_in, LOCKED))"

text \<open>\<open>contendedLock\<close>: an exchange, or one turn of the loop that reads the lock.\<close>

definition contendedLock :: "spin_pc \<Rightarrow> u32 \<Rightarrow> spin_pc \<times> u32" where
  "contendedLock pc mutex =
     (if pc = Sp_contend then
        let (r, mutex) = MyInterlockedExchange mutex LOCKED
        in (if r = UNLOCKED then Sp_in else Sp_spin, mutex)
      else (if mutex = LOCKED then Sp_spin else Sp_contend, mutex))"

definition SpinLock_unlock :: "u32 \<Rightarrow> u32" where
  "SpinLock_unlock mutex = UNLOCKED"

definition spin_enter :: "bool \<Rightarrow> nat \<Rightarrow> spin_lock \<Rightarrow> spin_lock" where
  "spin_enter anyThreadCreated t s =
     (let (pc, mutex) = (if sl_pc s t = Sp_out then SpinLock_lock anyThreadCreated (sl_mutex s)
                         else contendedLock (sl_pc s t) (sl_mutex s))
      in s\<lparr>sl_mutex := mutex, sl_pc := (sl_pc s)(t := pc)\<rparr>)"

definition spin_leave :: "nat \<Rightarrow> spin_lock \<Rightarrow> spin_lock" where
  "spin_leave t s = s\<lparr>sl_mutex := SpinLock_unlock (sl_mutex s), sl_pc := (sl_pc s)(t := Sp_out)\<rparr>"

definition spin_holds :: "spin_lock \<Rightarrow> nat \<Rightarrow> bool" where
  "spin_holds s t \<longleftrightarrow> sl_pc s t = Sp_in"

definition spin_ok :: "spin_lock \<Rightarrow> bool" where
  "spin_ok s \<longleftrightarrow> (sl_mutex s = UNLOCKED \<and> (\<forall>t. sl_pc s t \<noteq> Sp_in)) \<or>
     (sl_mutex s = LOCKED \<and> (\<exists>t. \<forall>u. sl_pc s u = Sp_in \<longleftrightarrow> u = t))"

lemmas spin_defs = spin_enter_def spin_leave_def spin_holds_def spin_ok_def SpinLock_lock_def contendedLock_def
  SpinLock_unlock_def MyInterlockedExchange_def UNLOCKED_def LOCKED_def

interpretation spin: lock "spin_enter True" spin_leave spin_holds spin_ok
proof unfold_locales
  fix s t u
  show "t = u" if "spin_ok s" "spin_holds s t" "spin_holds s u" using that by (auto simp: spin_ok_def spin_holds_def)
  show "spin_ok (spin_enter True t s)" if "spin_ok s" "\<not> spin_holds s t"
    using that by (cases "sl_pc s t") (auto simp: spin_defs, (metis spin_pc.distinct)+)
  show "spin_holds (spin_enter True t s) u = spin_holds s u" if "u \<noteq> t"
    using that by (auto simp: spin_defs split: prod.splits)
  show "spin_ok (spin_leave t s)" if "spin_ok s" "spin_holds s t" using that by (auto simp: spin_defs)
  show "\<not> spin_holds (spin_leave t s) u" if "spin_ok s" "spin_holds s t" using that by (auto simp: spin_defs)
qed

text \<open>A waiting thread that runs while the lock is free gets it in at most two steps.\<close>

lemma spin_progress:
  "spin_ok s \<Longrightarrow> (\<And>u. \<not> spin_holds s u) \<Longrightarrow>
   spin_holds (spin_enter True t s) t \<or> spin_holds (spin_enter True t (spin_enter True t s)) t"
  by (cases "sl_pc s t") (auto simp: spin_defs)

text \<open>Without a second thread the lock is taken without an exchange.\<close>

lemma spin_single_thread:
  "sl_pc s t = Sp_out \<Longrightarrow> spin_holds (spin_enter False t s) t \<and> sl_mutex (spin_enter False t s) = LOCKED"
  by (simp add: spin_defs)

section \<open>The POSIX mutex\<close>

text \<open>\<open>pthread_mutex_lock\<close> waits while another thread owns the mutex; the owner is \<open>mutex\<close>.\<close>

type_synonym pthread_mutex = "nat option"

definition PosixLock_new :: pthread_mutex where "PosixLock_new = None"

definition PosixLock_lock :: "nat \<Rightarrow> pthread_mutex \<Rightarrow> pthread_mutex" where
  "PosixLock_lock t mutex = (if mutex = None then Some t else mutex)"

definition PosixLock_unlock :: "nat \<Rightarrow> pthread_mutex \<Rightarrow> pthread_mutex" where
  "PosixLock_unlock t mutex = None"

interpretation posix: lock PosixLock_lock PosixLock_unlock "\<lambda>mutex t. mutex = Some t" "\<lambda>_. True"
  by unfold_locales (auto simp: PosixLock_lock_def PosixLock_unlock_def)

section \<open>The recursive lock\<close>

text \<open>
  \<open>tid\<close> and \<open>count\<close> are read and written without synchronisation; each access is a step. \<open>rl_depth\<close> is not in the
  program: how many more calls of \<open>lock\<close> than of \<open>unlock\<close> a thread has made.
\<close>

datatype rec_pc = R_idle | R_base | R_own | R_inc | R_dec | R_test | R_zero | R_release | R_abort

record 's reclock =
  rl_base :: 's
  rl_tid :: int
  rl_count :: int
  rl_pc :: "nat \<Rightarrow> rec_pc"
  rl_depth :: "nat \<Rightarrow> nat"

definition RecursiveLock_new :: "'s \<Rightarrow> 's reclock" where
  "RecursiveLock_new b = \<lparr>rl_base = b, rl_tid = - 1, rl_count = 0, rl_pc = (\<lambda>_. R_idle), rl_depth = (\<lambda>_. 0)\<rparr>"

definition rl_goto :: "nat \<Rightarrow> rec_pc \<Rightarrow> 's reclock \<Rightarrow> 's reclock" where
  "rl_goto t pc s = s\<lparr>rl_pc := (rl_pc s)(t := pc)\<rparr>"

definition RecursiveLock_lock ::
  "(nat \<Rightarrow> 's \<Rightarrow> 's) \<Rightarrow> ('s \<Rightarrow> nat \<Rightarrow> bool) \<Rightarrow> nat \<Rightarrow> 's reclock \<Rightarrow> 's reclock" where
  "RecursiveLock_lock enter holds t s =
     (case rl_pc s t of
        R_idle \<Rightarrow> if rl_tid s = int t then rl_goto t R_inc s else rl_goto t R_base s
      | R_base \<Rightarrow> let b = enter t (rl_base s) in (if holds b t then rl_goto t R_own else (\<lambda>s. s)) (s\<lparr>rl_base := b\<rparr>)
      | R_own \<Rightarrow> rl_goto t R_inc (s\<lparr>rl_tid := int t\<rparr>)
      | R_inc \<Rightarrow> rl_goto t R_idle (s\<lparr>rl_count := rl_count s + 1, rl_depth := (rl_depth s)(t := rl_depth s t + 1)\<rparr>)
      | _ \<Rightarrow> s)"

definition RecursiveLock_unlock :: "(nat \<Rightarrow> 's \<Rightarrow> 's) \<Rightarrow> nat \<Rightarrow> 's reclock \<Rightarrow> 's reclock" where
  "RecursiveLock_unlock leave t s =
     (case rl_pc s t of
        R_idle \<Rightarrow> if rl_tid s = int t then rl_goto t R_dec s else rl_goto t R_abort s
      | R_dec \<Rightarrow> rl_goto t R_test (s\<lparr>rl_count := rl_count s - 1, rl_depth := (rl_depth s)(t := rl_depth s t - 1)\<rparr>)
      | R_test \<Rightarrow> if rl_count s = 0 then rl_goto t R_zero s else rl_goto t R_idle s
      | R_zero \<Rightarrow> rl_goto t R_release (s\<lparr>rl_tid := - 1\<rparr>)
      | R_release \<Rightarrow> rl_goto t R_idle (s\<lparr>rl_base := leave t (rl_base s)\<rparr>)
      | _ \<Rightarrow> s)"

text \<open>
  One step of thread \<open>t\<close>. Between calls it may begin a call of \<open>lock\<close>, or of \<open>unlock\<close> when it has locked before.
\<close>

definition rec_step ::
  "(nat \<Rightarrow> 's \<Rightarrow> 's) \<Rightarrow> (nat \<Rightarrow> 's \<Rightarrow> 's) \<Rightarrow> ('s \<Rightarrow> nat \<Rightarrow> bool) \<Rightarrow> nat \<times> bool \<Rightarrow> 's reclock \<Rightarrow> 's reclock" where
  "rec_step enter leave holds = (\<lambda>(t, locking) s.
     if rl_pc s t \<in> {R_base, R_own, R_inc} \<or> rl_pc s t = R_idle \<and> locking then RecursiveLock_lock enter holds t s
     else if rl_pc s t = R_idle \<and> rl_depth s t = 0 then s
     else RecursiveLock_unlock leave t s)"

text \<open>Per thread: how far it is, and what it then knows of the lock.\<close>

definition rec_thread :: "('s \<Rightarrow> nat \<Rightarrow> bool) \<Rightarrow> 's reclock \<Rightarrow> nat \<Rightarrow> bool" where
  "rec_thread holds s t \<longleftrightarrow>
     rl_pc s t \<noteq> R_abort \<and>
     (holds (rl_base s) t \<longleftrightarrow> rl_pc s t \<in> {R_own, R_inc, R_dec, R_test, R_zero, R_release} \<or> 0 < rl_depth s t) \<and>
     (rl_tid s = int t \<longleftrightarrow> holds (rl_base s) t \<and> rl_pc s t \<notin> {R_own, R_release}) \<and>
     (holds (rl_base s) t \<longrightarrow> rl_count s = int (rl_depth s t)) \<and>
     (rl_pc s t = R_dec \<longrightarrow> 0 < rl_depth s t) \<and>
     (rl_pc s t \<in> {R_base, R_own, R_zero, R_release} \<longrightarrow> rl_depth s t = 0)"

definition rec_inv :: "('s \<Rightarrow> nat \<Rightarrow> bool) \<Rightarrow> ('s \<Rightarrow> bool) \<Rightarrow> 's reclock \<Rightarrow> bool" where
  "rec_inv holds ok s \<longleftrightarrow> ok (rl_base s) \<and> (\<forall>t. rec_thread holds s t) \<and> ((\<forall>t. \<not> holds (rl_base s) t) \<longrightarrow> rl_count s = 0)"

lemma rl_goto_simps [simp]:
  "rl_base (rl_goto t pc s) = rl_base s" "rl_tid (rl_goto t pc s) = rl_tid s" "rl_count (rl_goto t pc s) = rl_count s"
  "rl_depth (rl_goto t pc s) = rl_depth s" "rl_pc (rl_goto t pc s) = (rl_pc s)(t := pc)"
  by (simp_all add: rl_goto_def)

context lock
begin

lemma rec_inv_new: "ok b \<Longrightarrow> (\<And>t. \<not> holds b t) \<Longrightarrow> rec_inv holds ok (RecursiveLock_new b)"
  by (simp add: rec_inv_def rec_thread_def RecursiveLock_new_def)

lemma rec_lock_inv:
  assumes i: "rec_inv holds ok s" and pc: "rl_pc s t \<in> {R_idle, R_base, R_own, R_inc}"
  shows "rec_inv holds ok (RecursiveLock_lock enter holds t s)"
proof -
  have th: "rec_thread holds s u" "ok (rl_base s)" for u using i by (auto simp: rec_inv_def)
  show ?thesis
  proof (cases "rl_pc s t")
    case R_idle
    then show ?thesis using i th(1) [of t] by (auto simp: rec_inv_def rec_thread_def RecursiveLock_lock_def)
  next
    case R_base
    define b where "b = enter t (rl_base s)"
    have n: "\<not> holds (rl_base s) t" using th(1) [of t] R_base by (auto simp: rec_thread_def)
    have b: "ok b" "\<And>u. u \<noteq> t \<Longrightarrow> holds b u = holds (rl_base s) u"
      using enter_ok [OF th(2) n] enter_others [OF th(2) n] by (auto simp: b_def)
    have e: "RecursiveLock_lock enter holds t s = (if holds b t then rl_goto t R_own else (\<lambda>s. s)) (s\<lparr>rl_base := b\<rparr>)"
      using R_base by (simp add: RecursiveLock_lock_def Let_def b_def)
    show ?thesis
    proof (cases "holds b t")
      case False
      then have "holds b u = holds (rl_base s) u" for u using b(2) n by (cases "u = t") auto
      then show ?thesis using i b(1) False unfolding e by (simp add: rec_inv_def rec_thread_def)
    next
      case True
      have "\<not> holds (rl_base s) u" for u using True b one_holder [of b t u] n by metis
      moreover have "rec_thread holds s t" "rl_count s = 0" using i calculation by (auto simp: rec_inv_def)
      moreover have "holds b u \<longleftrightarrow> u = t" for u using True b(1) one_holder by blast
      ultimately show ?thesis using i b(1) R_base True th unfolding e by (auto simp: rec_inv_def rec_thread_def)
    qed
  next
    case R_own
    then have h: "holds (rl_base s) t" using th(1) [of t] by (simp add: rec_thread_def)
    then have "\<not> holds (rl_base s) u" if "u \<noteq> t" for u using that th(2) one_holder by blast
    then show ?thesis using R_own h th by (auto simp: rec_inv_def rec_thread_def RecursiveLock_lock_def)
  next
    case R_inc
    then have h: "holds (rl_base s) t" using th(1) [of t] by (simp add: rec_thread_def)
    then have "\<not> holds (rl_base s) u" if "u \<noteq> t" for u using that th(2) one_holder by blast
    then show ?thesis using R_inc h th by (auto simp: rec_inv_def rec_thread_def RecursiveLock_lock_def)
  qed (use pc in simp_all)
qed

lemma rec_unlock_inv:
  assumes i: "rec_inv holds ok s" and pc: "rl_pc s t \<in> {R_dec, R_test, R_zero, R_release} \<or> rl_pc s t = R_idle \<and> 0 < rl_depth s t"
  shows "rec_inv holds ok (RecursiveLock_unlock leave t s)"
proof -
  have th: "rec_thread holds s u" "ok (rl_base s)" for u using i by (auto simp: rec_inv_def)
  have h: "holds (rl_base s) t" using th(1) [of t] pc by (auto simp: rec_thread_def)
  then have n: "\<not> holds (rl_base s) u" if "u \<noteq> t" for u using that th(2) one_holder by blast
  have r: "ok (leave t (rl_base s))" "\<And>u. \<not> holds (leave t (rl_base s)) u" using leave_ok leave_releases h th(2) by blast+
  show ?thesis
  proof (cases "rl_pc s t")
    case R_idle
    then show ?thesis using h th pc by (auto simp: rec_inv_def rec_thread_def RecursiveLock_unlock_def)
  next
    case R_dec
    define d where "d = rl_depth s t - 1"
    have t: "rec_thread holds s t" by (rule th)
    then have c: "rl_depth s t = Suc d" "rl_count s = int (Suc d)" "rl_tid s = int t" using h R_dec by (auto simp: rec_thread_def d_def)
    define s' where "s' = RecursiveLock_unlock leave t s"
    have s': "rl_base s' = rl_base s" "rl_tid s' = int t" "rl_count s' = int d" "rl_pc s' = (rl_pc s)(t := R_test)"
      "rl_depth s' = (rl_depth s)(t := d)" using R_dec c by (simp_all add: s'_def RecursiveLock_unlock_def)
    have "rec_thread holds s' u" for u
    proof (cases "u = t")
      case True
      then show ?thesis using h by (simp add: rec_thread_def s')
    next
      case False
      then show ?thesis using th(1) [of u] n [of u] by (auto simp: rec_thread_def s' c(3))
    qed
    then show ?thesis unfolding s'_def [symmetric] using h th(2) by (auto simp: rec_inv_def s')
  next
    case R_test
    have t: "rec_thread holds s t" by (rule th)
    then have "rl_count s = int (rl_depth s t)" using h by (simp add: rec_thread_def)
    then show ?thesis using R_test h n th by (auto simp: rec_inv_def rec_thread_def RecursiveLock_unlock_def)
  next
    case R_zero
    have t: "rec_thread holds s t" by (rule th)
    then have "rl_tid s = int t" "rl_depth s t = 0" using R_zero h by (simp_all add: rec_thread_def)
    then show ?thesis using R_zero h n th by (auto simp: rec_inv_def rec_thread_def RecursiveLock_unlock_def)
  next
    case R_release
    have t: "rec_thread holds s t" by (rule th)
    then have "rl_count s = 0" "rl_depth s t = 0" "rl_tid s \<noteq> int t" using h R_release by (auto simp: rec_thread_def)
    then show ?thesis using R_release h n th r by (auto simp: rec_inv_def rec_thread_def RecursiveLock_unlock_def)
  qed (use pc in simp_all)
qed

lemma rec_step_inv: "rec_inv holds ok s \<Longrightarrow> rec_inv holds ok (rec_step enter leave holds m s)"
proof -
  assume i: "rec_inv holds ok s"
  obtain t k where m: "m = (t, k)" by (cases m)
  have "rl_pc s t \<noteq> R_abort" using i by (auto simp: rec_inv_def rec_thread_def)
  then show ?thesis using i rec_lock_inv [OF i, of t] rec_unlock_inv [OF i, of t] unfolding m rec_step_def
    by (cases "rl_pc s t") auto
qed

lemma rec_run_inv:
  "ok b \<Longrightarrow> (\<And>t. \<not> holds b t) \<Longrightarrow> rec_inv holds ok (fold (rec_step enter leave holds) ms (RecursiveLock_new b))"
  by (induction ms rule: rev_induct) (simp_all add: rec_inv_new rec_step_inv)

text \<open>
  Two threads are never both between \<open>lock\<close> and the matching \<open>unlock\<close>, and no \<open>unlock\<close> of a thread that has locked
  finds another owner and aborts.
\<close>

lemma rec_exclusive:
  assumes "ok b" and "\<And>t. \<not> holds b t" and s: "s = fold (rec_step enter leave holds) ms (RecursiveLock_new b)"
  shows "rl_pc s t \<noteq> R_abort" and "0 < rl_depth s t \<Longrightarrow> 0 < rl_depth s u \<Longrightarrow> t = u"
    and "0 < rl_depth s t \<Longrightarrow> rl_count s = int (rl_depth s t)"
proof -
  have i: "rec_inv holds ok s" unfolding s using assms(1,2) by (rule rec_run_inv)
  then have t: "rec_thread holds s v" "ok (rl_base s)" for v by (auto simp: rec_inv_def)
  show "rl_pc s t \<noteq> R_abort" using t(1) [of t] by (simp add: rec_thread_def)
  have h: "holds (rl_base s) v" if "0 < rl_depth s v" for v using t(1) [of v] that by (simp add: rec_thread_def)
  show "t = u" if "0 < rl_depth s t" "0 < rl_depth s u" using h that t(2) one_holder by blast
  show "rl_count s = int (rl_depth s t)" if "0 < rl_depth s t" using h [OF that] t(1) [of t] by (simp add: rec_thread_def)
qed

end

section \<open>Properties\<close>

text \<open>C30: whatever the order in which the processor runs the threads, calls of a heap locked by a spin lock are atomic:
  whenever no thread holds the lock, the heap is the one that results from the completed calls one after the other, and these
  are, for each thread, the first calls of its program.\<close>

theorem LockedHeap_calls_atomic:
  assumes "s = fold (locked_step (spin_enter True) spin_leave spin_holds) ts (locked_init SpinLock_new h calls)"
    and "\<forall>t. \<not> spin_holds (lh_lock s) t"
  shows "\<exists>cs. lh_heap s = run_body (concat (map snd cs)) h \<and>
    (\<forall>t. \<exists>rest. calls t = calls_of t cs @ rest \<and> lh_code s t = concat (map Guard rest))"
  using assms by (intro spin.guarded_calls_atomic [where ts = ts]) (simp_all add: spin_defs SpinLock_new_def)

text \<open>Two threads, of which one waits for the other.\<close>

definition locked_example_calls :: "nat \<Rightarrow> (nat \<Rightarrow> nat) list list" where
  "locked_example_calls = (\<lambda>t. if t = 0 then [[\<lambda>h. h + 1, \<lambda>h. h * 2]] else if t = 1 then [[\<lambda>h. h + 5]] else [])"

definition locked_example :: "(spin_lock, nat) locked" where
  "locked_example = fold (locked_step (spin_enter True) spin_leave spin_holds) [0, 1, 0, 1, 0, 0, 1, 1, 1, 1]
     (locked_init SpinLock_new 0 locked_example_calls)"

theorem LockedHeap_calls_atomic_witness:
  "lh_heap locked_example = 7 \<and> (\<exists>cs. lh_heap locked_example = run_body (concat (map snd cs)) 0 \<and>
    (\<forall>t. \<exists>rest. locked_example_calls t = calls_of t cs @ rest \<and> lh_code locked_example t = concat (map Guard rest)))"
proof
  have run: "lh_heap locked_example = 7 \<and> (\<forall>t. \<not> spin_holds (lh_lock locked_example) t)"
    by (simp add: locked_example_def locked_example_calls_def locked_init_def locked_step_def Guard_def spin_defs
        SpinLock_new_def Let_def)
  then show "lh_heap locked_example = 7" ..
  show "\<exists>cs. lh_heap locked_example = run_body (concat (map snd cs)) 0 \<and>
    (\<forall>t. \<exists>rest. locked_example_calls t = calls_of t cs @ rest \<and> lh_code locked_example t = concat (map Guard rest))"
    using run by (intro LockedHeap_calls_atomic [OF locked_example_def]) simp
qed

text \<open>C31: a recursive lock over a spin lock never lets two threads in, counts the calls of its owner, and never aborts a thread
  that unlocks no more often than it has locked, although it reads its owner without synchronisation.\<close>

theorem RecursiveLock_correct:
  assumes "s = fold (rec_step (spin_enter True) spin_leave spin_holds) ms (RecursiveLock_new SpinLock_new)"
    and "0 < rl_depth s t"
  shows "rl_count s = int (rl_depth s t) \<and> rl_pc s t \<noteq> R_abort \<and> (\<forall>u. 0 < rl_depth s u \<longrightarrow> u = t)"
proof -
  note x = spin.rec_exclusive [of SpinLock_new, OF _ _ assms(1)]
  have "spin_ok SpinLock_new" "\<And>t. \<not> spin_holds SpinLock_new t" by (simp_all add: spin_defs SpinLock_new_def)
  then show ?thesis using x assms(2) by blast
qed

definition rec_example :: "spin_lock reclock" where
  "rec_example = fold (rec_step (spin_enter True) spin_leave spin_holds)
     [(3, True), (3, True), (3, True), (3, True), (7, True), (3, True), (3, True), (7, True), (7, False)]
     (RecursiveLock_new SpinLock_new)"

theorem RecursiveLock_correct_witness:
  "rl_depth rec_example 3 = 2 \<and> rl_count rec_example = int (rl_depth rec_example 3) \<and> rl_pc rec_example 3 \<noteq> R_abort \<and>
    {u. 0 < rl_depth rec_example u} = {3}"
proof -
  have d: "rl_depth rec_example 3 = 2"
    by (simp add: rec_example_def rec_step_def RecursiveLock_new_def RecursiveLock_lock_def rl_goto_def spin_defs
        SpinLock_new_def Let_def)
  then have "0 < rl_depth rec_example 3" by simp
  from RecursiveLock_correct [OF rec_example_def this] d show ?thesis by auto
qed

end
