(* ===== verification/Grace_Sync.thy ===== *)
theory Grace_Sync
  imports Xrun_Inv Hl_Locks
begin

text \<open>
  The synchronisation that Grace offers and uses besides transactions: the condition variables, the replaced \<open>pthread\<close>
  functions and the initializer of \<open>source/libgrace.cpp\<close>, \<open>initialize\<close>, \<open>finalize\<close> and \<open>punctuate\<close> of \<open>include/xrun.h\<close>, the
  lock between processes of \<open>include/xplock.h\<close>, the semaphore of \<open>include/xsemaphore.h\<close> and the atomic operations of
  \<open>include/xatomic.h\<close>.
\<close>

section \<open>Atomic operations\<close>

text \<open>What is returned, and what is stored.\<close>

definition xa_exchange :: "u32 \<Rightarrow> u32 \<Rightarrow> u32 \<times> u32" where "xa_exchange oldval newval = (oldval, newval)"
definition increment_and_return :: "u32 \<Rightarrow> u32 \<times> u32" where "increment_and_return obj = (obj, obj + 1)"
definition xa_decrement :: "u32 \<Rightarrow> u32" where "xa_decrement obj = obj - 1"
definition decrement_and_return :: "u32 \<Rightarrow> u32 \<times> u32" where "decrement_and_return obj = (obj, obj + (- 1))"
definition atomic_read :: "u32 \<Rightarrow> u32" where "atomic_read obj = obj"

lemma increments_distinct:
  "n < 2 ^ 32 \<Longrightarrow> m < n \<Longrightarrow> fst (increment_and_return (((snd \<circ> increment_and_return) ^^ m) c)) \<noteq>
     fst (increment_and_return (((snd \<circ> increment_and_return) ^^ n) c))"
proof -
  have p: "((snd \<circ> increment_and_return) ^^ k) c = c + of_nat k" for k
    by (induction k) (simp_all add: increment_and_return_def)
  assume b: "n < 2 ^ 32" "m < n"
  then have "of_nat m \<noteq> (of_nat n :: u32)" by (simp add: word_unat_eq_iff unat_of_nat32)
  then show ?thesis unfolding p increment_and_return_def by simp
qed

lemma decrement_undoes: "snd (decrement_and_return (snd (increment_and_return c))) = c"
  by (simp add: increment_and_return_def decrement_and_return_def)

section \<open>\<open>xplock\<close>\<close>

text \<open>
  With \<open>USE_PTHREAD_LOCKS\<close>: a POSIX mutex in shared memory. \<open>_isLocked\<close> is a member of the object, of which every
  process has its own copy.
\<close>

record xplock =
  xl_lock :: pthread_mutex
  xl_isLocked :: "nat \<Rightarrow> bool"

definition xplock_lock :: "nat \<Rightarrow> xplock \<Rightarrow> xplock" where
  "xplock_lock p s =
     (let l = PosixLock_lock p (xl_lock s)
      in if l = Some p then s\<lparr>xl_lock := l, xl_isLocked := (xl_isLocked s)(p := True)\<rparr> else s\<lparr>xl_lock := l\<rparr>)"

definition xplock_unlock :: "nat \<Rightarrow> xplock \<Rightarrow> xplock" where
  "xplock_unlock p s = s\<lparr>xl_lock := PosixLock_unlock p (xl_lock s), xl_isLocked := (xl_isLocked s)(p := False)\<rparr>"

text \<open>The flag says in each process whether this process has the lock.\<close>

definition xplock_ok :: "xplock \<Rightarrow> bool" where
  "xplock_ok s \<longleftrightarrow> (\<forall>p. xl_isLocked s p \<longleftrightarrow> xl_lock s = Some p)"

interpretation plock: lock xplock_lock xplock_unlock "\<lambda>s p. xl_isLocked s p" xplock_ok
  by unfold_locales
    (auto simp: xplock_ok_def xplock_lock_def xplock_unlock_def PosixLock_lock_def PosixLock_unlock_def Let_def split: if_splits)

section \<open>\<open>xsemaphore\<close>\<close>

text \<open>
  System V semaphores by key; \<open>semget\<close> finds none that was not created, and \<open>semop\<close> then fails, which is not looked at.
  \<open>None\<close> is a caller that waits.
\<close>

type_synonym sysv_sems = "int \<rightharpoonup> int"

definition SEMAPHORE_KEY :: int where "SEMAPHORE_KEY = 1234567"

definition xsem_init :: "int \<Rightarrow> int \<Rightarrow> sysv_sems \<Rightarrow> sysv_sems" where
  "xsem_init key num s =
     (let s = (if s key = None then s(key \<mapsto> 0) else s)
      in if 0 \<le> num \<and> num \<le> 32767 then s(key \<mapsto> num) else s)"

definition incSemaphore :: "int \<Rightarrow> int \<Rightarrow> sysv_sems \<Rightarrow> sysv_sems option" where
  "incSemaphore key val s =
     (case s key of
        None \<Rightarrow> Some s
      | Some v \<Rightarrow> if v + val < 0 then None else if v + val > 32767 then Some s else Some (s(key \<mapsto> v + val)))"

definition xsem_get :: "int \<Rightarrow> sysv_sems \<Rightarrow> sysv_sems option" where "xsem_get key = incSemaphore key (- 1)"
definition xsem_put :: "int \<Rightarrow> sysv_sems \<Rightarrow> sysv_sems option" where "xsem_put key = incSemaphore key 1"

text \<open>\<open>True\<close> is a \<open>get\<close> that returned, \<open>False\<close> a \<open>put\<close>.\<close>

fun sem_run :: "int \<Rightarrow> bool list \<Rightarrow> sysv_sems \<Rightarrow> sysv_sems option" where
  "sem_run key [] s = Some s"
| "sem_run key (g # gs) s = Option.bind (if g then xsem_get key s else xsem_put key s) (sem_run key gs)"

lemma sem_run_bound:
  "sem_run key gs s = Some s' \<Longrightarrow> s key = Some v \<Longrightarrow> 0 \<le> v \<Longrightarrow> v \<le> 32767 \<Longrightarrow>
   \<exists>v'. s' key = Some v' \<and> 0 \<le> v' \<and> v' \<le> v + int (count_list gs False) - int (count_list gs True)"
proof (induction gs arbitrary: s v)
  case (Cons g gs)
  then obtain s1 where s1: "(if g then xsem_get key s else xsem_put key s) = Some s1" "sem_run key gs s1 = Some s'"
    by (auto simp: bind_eq_Some_conv)
  then obtain v1 where v1: "s1 key = Some v1" "0 \<le> v1" "v1 \<le> 32767" "v1 \<le> v + (if g then - 1 else 1)"
    using Cons.prems(2,3,4) by (auto simp: xsem_get_def xsem_put_def incSemaphore_def split: if_splits)
  from Cons.IH [OF s1(2) v1(1,2,3)] v1(4) show ?case by (auto split: if_splits)
qed simp

text \<open>At most as many callers are past \<open>get\<close> as the semaphore was initialized with, not counting those that have \<open>put\<close> back.\<close>

lemma xsemaphore_bounds:
  assumes "sem_run key gs (xsem_init key num s) = Some s'" and "0 \<le> num" and "num \<le> 32767"
  shows "int (count_list gs True) \<le> num + int (count_list gs False)"
  using sem_run_bound [OF assms(1), of num] assms(2,3) by (auto simp: xsem_init_def)

section \<open>The engine starts\<close>

text \<open>
  \<open>initialize\<close> in the process \<open>pid\<close>: a first transaction allocates one byte, which touches the heap (the label \<open>m\<close>), and a
  second one is \<open>main\<close>. A second call aborts the program.
\<close>

definition xrun_punctuate :: "commitResult \<Rightarrow> nat \<Rightarrow> rproc \<Rightarrow> rsys \<Rightarrow> rsys" where
  "xrun_punctuate r i P s =
     (let s = atomicEnd r i P s
      in case rs_procs s i of None \<Rightarrow> s | Some P \<Rightarrow> put_proc i (atomicBegin (rs_commits s) P) s)"

definition xrun_initialize :: "nat \<Rightarrow> nat \<Rightarrow> stmt list \<Rightarrow> bool \<times> rsys \<Rightarrow> (bool \<times> rsys) option" where
  "xrun_initialize pid m main = (\<lambda>(isInitialized, s).
     if isInitialized then None
     else let P = \<lparr>r_tid = pid, r_pred = 0, r_nest = 0, r_ctx = \<lparr>c_code = main, c_env = [], c_frames = []\<rparr>,
                   r_saved = \<lparr>c_code = main, c_env = [], c_frames = []\<rparr>, r_buf = [], r_seen = 0, r_phase = Outside\<rparr>;
              P = atomicBegin (rs_commits s) P;
              P = P\<lparr>r_buf := r_buf P @ [m]\<rparr>
          in Some (True, xrun_punctuate SUCCEEDED pid P s))"

definition blank :: "nat \<Rightarrow> rsys" where
  "blank root = \<lparr>rs_procs = Map.empty, rs_latch = (\<lambda>_. xlatch_new 0), rs_log = [], rs_io = [], rs_commits = 0,
     rs_order = [root], rs_root = root, rs_fresh = True\<rparr>"

text \<open>What follows is the initial state of the engine, where the transaction of the initializer has committed.\<close>

lemma xrun_initialize_state:
  "\<exists>P. rs_procs (r_init root main) root = Some P \<and>
     xrun_initialize root m main (False, blank root) = Some (True,
       put_proc root (P\<lparr>r_seen := 1\<rparr>) (r_init root main\<lparr>rs_log := [m], rs_commits := 1\<rparr>))"
  by (simp add: xrun_initialize_def xrun_punctuate_def blank_def r_init_def atomicBegin_def atomicEnd_def put_proc_def setPred_def Let_def)

lemma xrun_initialize_once: "xrun_initialize pid m main (True, s) = None"
  by (simp add: xrun_initialize_def)

text \<open>\<open>finalize\<close> ends the transaction of \<open>main\<close> and waits for the predecessor.\<close>

definition xrun_finalize :: "commitResult \<Rightarrow> nat \<Rightarrow> rproc \<Rightarrow> rsys \<Rightarrow> rsys option" where
  "xrun_finalize r i P s =
     (let s = (if r_tid P \<noteq> 0 then atomicEnd r i P s else s)
      in case rs_procs s i of None \<Rightarrow> None | Some P \<Rightarrow> if waitPred s P then Some s else None)"

lemma xrun_finalize_waits:
  "atomicCommit s P SUCCEEDED \<Longrightarrow> r_tid P \<noteq> 0 \<Longrightarrow> xrun_finalize SUCCEEDED i P s \<noteq> None"
  by (simp add: xrun_finalize_def atomicEnd_def put_proc_def waitPred_def setPred_def)

section \<open>Replaced \<open>pthread\<close> functions\<close>

text \<open>Locks are no longer needed: a transaction is atomic anyway. They always succeed, and so do the attribute functions.\<close>

definition sched_yield :: int where "sched_yield = 0"
definition pthread_setconcurrency :: "int \<Rightarrow> int" where "pthread_setconcurrency n = 0"
definition pthread_attr_init :: "u32 \<Rightarrow> int" where "pthread_attr_init a = 0"
definition pthread_attr_destroy :: "u32 \<Rightarrow> int" where "pthread_attr_destroy a = 0"
definition pthread_mutex_init :: "u32 \<Rightarrow> u32 \<Rightarrow> int" where "pthread_mutex_init m a = 0"
definition pthread_mutex_lock :: "u32 \<Rightarrow> int" where "pthread_mutex_lock m = 0"
definition pthread_mutex_trylock :: "u32 \<Rightarrow> int" where "pthread_mutex_trylock m = 0"
definition pthread_mutex_unlock :: "u32 \<Rightarrow> int" where "pthread_mutex_unlock m = 0"
definition pthread_rwlock_destroy :: "u32 \<Rightarrow> int" where "pthread_rwlock_destroy l = 0"
definition pthread_rwlock_init :: "u32 \<Rightarrow> u32 \<Rightarrow> int" where "pthread_rwlock_init l a = 0"
definition pthread_detach :: "nat \<Rightarrow> int" where "pthread_detach t = 0"
definition pthread_rwlock_rdlock :: "u32 \<Rightarrow> int" where "pthread_rwlock_rdlock l = 0"
definition pthread_rwlock_tryrdlock :: "u32 \<Rightarrow> int" where "pthread_rwlock_tryrdlock l = 0"
definition pthread_rwlock_unlock :: "u32 \<Rightarrow> int" where "pthread_rwlock_unlock l = 0"
definition pthread_rwlock_trywrlock :: "u32 \<Rightarrow> int" where "pthread_rwlock_trywrlock l = 0"
definition pthread_rwlock_wrlock :: "u32 \<Rightarrow> int" where "pthread_rwlock_wrlock l = 0"
definition pthread_attr_getstacksize :: "u32 \<Rightarrow> int \<times> u32" where "pthread_attr_getstacksize a = (0, 1048576)"
definition pthread_mutexattr_destroy :: "u32 \<Rightarrow> int" where "pthread_mutexattr_destroy a = 0"
definition pthread_mutexattr_init :: "u32 \<Rightarrow> int" where "pthread_mutexattr_init a = 0"
definition pthread_mutexattr_settype :: "u32 \<Rightarrow> int \<Rightarrow> int" where "pthread_mutexattr_settype a k = 0"
definition pthread_attr_setstacksize :: "u32 \<Rightarrow> u32 \<Rightarrow> int" where "pthread_attr_setstacksize a sz = 0"

definition graceid :: "rproc \<Rightarrow> nat" where "graceid P = r_tid P"
definition pthread_self :: "rproc \<Rightarrow> nat" where "pthread_self P = graceid P"

text \<open>\<open>pthread_create\<close> and \<open>pthread_join\<close> are the spawn and the sync of the engine.\<close>

definition pthread_create :: "stmt list \<Rightarrow> stmt list" where "pthread_create start_routine = [Spawn start_routine]"
definition pthread_join :: "nat \<Rightarrow> stmt list" where "pthread_join tid = [Sync tid]"

text \<open>\<open>pthread_exit\<close> ends the process at once.\<close>

definition pthread_exit :: "nat \<Rightarrow> rproc \<Rightarrow> rsys \<Rightarrow> rsys" where
  "pthread_exit i P s = put_proc i (P\<lparr>r_phase := Exited\<rparr>) s"

text \<open>It does not pass \<open>setExited\<close>: a join of the thread, or a commit right behind it, waits.\<close>

inductive_cases rstepE: "rstep k i s t"

lemma put_proc_fields [simp]:
  "rs_latch (put_proc i P s) = rs_latch s" "rs_procs (put_proc i P s) = (rs_procs s)(i \<mapsto> P)"
  "rs_commits (put_proc i P s) = rs_commits s" "rs_root (put_proc i P s) = rs_root s"
  by (simp_all add: put_proc_def)

lemma atomicEnd_latch [simp]: "rs_latch (atomicEnd r i P s) = rs_latch s"
  by (cases r) (simp_all add: atomicEnd_def)

text \<open>Only a process that leaves through the end of its body changes a latch, and it changes its own.\<close>

lemma rstep_latch:
  assumes "rstep k i s t" and "rs_procs s i = Some P" and "latch_index (r_tid P) \<noteq> n"
  shows "rs_latch t n = rs_latch s n"
  using assms by (cases rule: rstep.cases) (auto simp: forkSpawn_def setExited_def)

inductive rsteps_apart :: "nat \<Rightarrow> nat \<Rightarrow> rsys \<Rightarrow> rsys \<Rightarrow> bool" for k n s0 where
  ra_0: "rsteps_apart k n s0 s0"
| ra_S: "rsteps_apart k n s0 s \<Longrightarrow> rstep k i s t \<Longrightarrow> rs_procs s i = Some P \<Longrightarrow> latch_index (r_tid P) \<noteq> n \<Longrightarrow> rsteps_apart k n s0 t"

lemma rsteps_apart_latch: "rsteps_apart k n s t \<Longrightarrow> rs_latch t n = rs_latch s n"
  by (induction rule: rsteps_apart.induct) (simp_all add: rstep_latch)

theorem pthread_exit_never_seen:
  assumes "\<not> waitExited s tid" and "rsteps_apart k (latch_index tid) (pthread_exit i P s) t"
  shows "\<not> waitExited t tid"
    and "r_pred Q = tid \<Longrightarrow> tid \<noteq> 0 \<Longrightarrow> r_buf Q \<noteq> [] \<Longrightarrow> \<not> atomicCommit t Q r"
  using rsteps_apart_latch [OF assms(2)] assms(1)
  by (simp_all add: waitExited_def pthread_exit_def atomicCommit_def waitPred_def)

section \<open>Condition variables\<close>

text \<open>
  A variable is a page that all processes share, whose first byte is a flag. \<open>shared\<close> are the flags of the mapped pages;
  \<open>*c\<close> is a word of the memory.
\<close>

type_synonym shared = "u32 \<rightharpoonup> bool"

definition gracecondinit :: "u32 \<Rightarrow> u32 \<Rightarrow> (u32 \<Rightarrow> u32) \<times> shared \<Rightarrow> (u32 \<Rightarrow> u32) \<times> shared" where
  "gracecondinit mmap_result c = (\<lambda>(m, sh). let p = mmap_result; sh = sh(p \<mapsto> False) in (m(c := p), sh))"

definition graceconddestroy :: "u32 \<Rightarrow> (u32 \<Rightarrow> u32) \<times> shared \<Rightarrow> (u32 \<Rightarrow> u32) \<times> shared" where
  "graceconddestroy c = (\<lambda>(m, sh). let ptr = m c in (m, sh(ptr := None)))"

lemma gracecond_fresh:
  "gracecondinit p c (m, sh) = (m', sh') \<Longrightarrow> sh' (m' c) = Some False"
  "sh p = None \<Longrightarrow> graceconddestroy c (gracecondinit p c (m, sh)) = (m(c := p), sh)"
  by (auto simp: gracecondinit_def graceconddestroy_def)

text \<open>
  The threads that signal and wait on one variable, with the places where they can be interrupted. \<open>punctuate\<close> may take
  any time: the flag of a move says whether it comes back.
\<close>

datatype cond_pc = G_punct | G_set | G_after | G_done | W_punct | W_test | W_sleep | W_clear | W_after | W_done

definition gracesignal :: "bool \<Rightarrow> cond_pc \<Rightarrow> bool \<Rightarrow> cond_pc \<times> bool" where
  "gracesignal ret pc flag =
     (case pc of
        G_punct \<Rightarrow> (if ret then G_set else pc, flag)
      | G_set \<Rightarrow> (G_after, True)
      | G_after \<Rightarrow> (if ret then G_done else pc, flag)
      | _ \<Rightarrow> (pc, flag))"

definition gracewait :: "bool \<Rightarrow> cond_pc \<Rightarrow> bool \<Rightarrow> cond_pc \<times> bool" where
  "gracewait ret pc flag =
     (case pc of
        W_punct \<Rightarrow> (if ret then W_test else pc, flag)
      | W_test \<Rightarrow> (if flag then W_clear else W_sleep, flag)
      | W_sleep \<Rightarrow> (W_punct, flag)
      | W_clear \<Rightarrow> (W_after, False)
      | W_after \<Rightarrow> (if ret then W_done else pc, flag)
      | _ \<Rightarrow> (pc, flag))"

definition cond_step :: "nat \<times> bool \<Rightarrow> (nat \<Rightarrow> cond_pc) \<times> bool \<Rightarrow> (nat \<Rightarrow> cond_pc) \<times> bool" where
  "cond_step = (\<lambda>(t, ret) (pcs, flag).
     let (pc, flag) = (if pcs t \<in> {G_punct, G_set, G_after, G_done} then gracesignal ret (pcs t) flag
                       else gracewait ret (pcs t) flag)
     in (pcs(t := pc), flag))"

text \<open>At the start every thread of \<open>S\<close> is going to signal and every other one to wait.\<close>

definition cond_init :: "nat set \<Rightarrow> (nat \<Rightarrow> cond_pc) \<times> bool" where
  "cond_init S = ((\<lambda>t. if t \<in> S then G_punct else W_punct), False)"

definition some_at :: "cond_pc set \<Rightarrow> (nat \<Rightarrow> cond_pc) \<Rightarrow> bool" where
  "some_at X pcs \<longleftrightarrow> (\<exists>t. pcs t \<in> X)"

lemma some_at_upd: "pcs t \<notin> X \<Longrightarrow> some_at X (pcs(t := x)) \<longleftrightarrow> x \<in> X \<or> some_at X pcs" "x \<in> X \<Longrightarrow> some_at X (pcs(t := x))"
  unfolding some_at_def by (metis fun_upd_apply)+

definition signaller :: "cond_pc set" where "signaller = {G_punct, G_set, G_after, G_done}"
definition signalled :: "cond_pc set" where "signalled = {G_after, G_done}"
definition woken :: "cond_pc set" where "woken = {W_clear, W_after, W_done}"
definition passed :: "cond_pc set" where "passed = {W_after, W_done}"

lemmas cond_sets = signaller_def signalled_def woken_def passed_def

definition cond_inv :: "nat set \<Rightarrow> (nat \<Rightarrow> cond_pc) \<times> bool \<Rightarrow> bool" where
  "cond_inv S = (\<lambda>(pcs, flag).
     (\<forall>t. t \<in> S \<longleftrightarrow> pcs t \<in> signaller) \<and>
     (flag \<or> some_at woken pcs \<longrightarrow> some_at signalled pcs) \<and>
     (some_at signalled pcs \<longrightarrow> flag \<or> some_at passed pcs))"

lemma cond_step_inv: "cond_inv S s \<Longrightarrow> cond_inv S (cond_step m s)"
proof -
  assume i: "cond_inv S s"
  obtain pcs flag t ret where s: "s = (pcs, flag)" "m = (t, ret)" by (metis surj_pair)
  have w: "pcs t \<in> woken \<Longrightarrow> some_at woken pcs" "pcs t \<in> signalled \<Longrightarrow> some_at signalled pcs" by (auto simp: some_at_def)
  show ?thesis using i w unfolding s
    by (cases "pcs t") (auto simp: cond_inv_def cond_step_def gracesignal_def gracewait_def some_at_upd cond_sets)
qed

lemma cond_run_inv: "cond_inv S (fold cond_step ms (cond_init S))"
proof (induction ms rule: rev_induct)
  case Nil
  then show ?case by (auto simp: cond_inv_def cond_init_def some_at_def cond_sets)
qed (simp add: cond_step_inv)

text \<open>While the flag is set, a waiter that runs gets through.\<close>

lemma cond_wait_passes:
  "pcs t \<notin> signaller \<Longrightarrow> pcs t \<notin> woken \<Longrightarrow> fst (fold cond_step (replicate 5 (t, True)) (pcs, True)) t = W_done"
  by (cases "pcs t") (simp_all add: cond_step_def gracewait_def cond_sets eval_nat_numeral)

lemma cond_woken_passes:
  "pcs t \<in> woken \<Longrightarrow> fst (fold cond_step (replicate 5 (t, True)) (pcs, flag)) t = W_done"
  by (cases "pcs t") (simp_all add: cond_step_def gracewait_def cond_sets eval_nat_numeral)

text \<open>
  The flag does not count: of two signals between the test and the clearing of a waiter the second one is lost, and a
  second waiter then waits for ever.
\<close>

definition lost_moves :: "(nat \<times> bool) list" where
  "lost_moves = [(0, True), (0, True), (0, True), (2, True), (2, True), (1, True), (1, True), (1, True), (2, True), (2, True)]"

lemma cond_stuck:
  "(\<forall>t. pcs t \<noteq> G_punct \<and> pcs t \<noteq> G_set \<and> pcs t \<noteq> W_clear) \<and> pcs u \<notin> passed \<Longrightarrow>
   fst (fold cond_step ms (pcs, False)) u \<noteq> W_done"
proof (induction ms arbitrary: pcs)
  case (Cons m ms)
  obtain t ret where m: "m = (t, ret)" by (cases m)
  define pcs' where "pcs' = fst (cond_step m (pcs, False))"
  have p: "cond_step m (pcs, False) = (pcs', False)"
    using Cons.prems by (cases "pcs t") (auto simp: pcs'_def m cond_step_def gracesignal_def gracewait_def)
  have "pcs' v \<noteq> G_punct \<and> pcs' v \<noteq> G_set \<and> pcs' v \<noteq> W_clear" for v
    using Cons.prems by (cases "pcs t") (auto simp: pcs'_def m cond_step_def gracesignal_def gracewait_def)
  moreover have "pcs' u \<notin> passed"
    using Cons.prems by (cases "pcs t") (auto simp: pcs'_def m cond_step_def gracesignal_def gracewait_def cond_sets)
  ultimately have a: "(\<forall>t. pcs' t \<noteq> G_punct \<and> pcs' t \<noteq> G_set \<and> pcs' t \<noteq> W_clear) \<and> pcs' u \<notin> passed" by simp
  show ?case using Cons.IH [OF a] p by simp
qed (simp add: cond_sets)

theorem gracecond_loses_signal:
  "\<exists>pcs. fold cond_step lost_moves ((\<lambda>t. if t \<in> {0, 1} then G_punct else if t \<in> {2, 3} then W_punct else G_done), False) = (pcs, False) \<and>
     pcs 0 = G_done \<and> pcs 1 = G_done \<and> pcs 2 = W_done \<and>
     (\<forall>ms. fst (fold cond_step ms (pcs, False)) 3 \<noteq> W_done)"
proof -
  define pcs :: "nat \<Rightarrow> cond_pc" where "pcs = (\<lambda>t. if t = 2 then W_done else if t = 3 then W_punct else G_done)"
  have "fold cond_step lost_moves ((\<lambda>t. if t \<in> {0, 1} then G_punct else if t \<in> {2, 3} then W_punct else G_done), False) = (pcs, False)"
    by (auto simp: lost_moves_def cond_step_def gracesignal_def gracewait_def pcs_def)
  moreover have "fst (fold cond_step ms (pcs, False)) 3 \<noteq> W_done" for ms
    by (rule cond_stuck) (simp add: pcs_def cond_sets)
  ultimately show ?thesis by (auto simp: pcs_def)
qed

text \<open>And one signal can release two waiters, both of which find the flag set.\<close>

theorem gracecond_wakes_two:
  "fold cond_step [(0, True), (0, True), (2, True), (2, True), (3, True), (3, True), (2, True), (3, True), (2, True), (3, True)]
     (cond_init {0}) = ((\<lambda>t. if t = 0 then G_after else if t \<in> {2, 3} then W_done else W_punct), False)"
  by (auto simp: cond_init_def cond_step_def gracesignal_def gracewait_def)

section \<open>Properties\<close>


definition cond_example :: "(nat \<Rightarrow> cond_pc) \<times> bool" where
  "cond_example = fold cond_step [(4, True), (4, True), (0, True), (0, False), (0, True), (4, True)] (cond_init {0})"


end
