(* ===== verification/Hl_Obstack.thy ===== *)
theory Hl_Obstack
  imports Hl_Zone Hl_Check
begin

text \<open>
  Obstacks: \<open>heaplayers/obstackheap.h\<close> and its older copy \<open>heaplayers/obstack.h\<close>, which differs in \<open>makeChunk\<close>. Objects are
  stacked up in chunks of the super heap; an object can grow as long as it is the last one, and freeing an object frees
  everything allocated after it. A chunk begins with its end and the address of the chunk before it.
\<close>

section \<open>Chunks\<close>

record obstack =
  ob_base :: u32
  ob_next :: u32
  ob_chunk :: u32

definition sizeof_ChunkHeader :: u32 where "sizeof_ChunkHeader = 8"

definition ChunkHeader_new :: "u32 \<Rightarrow> u32 \<Rightarrow> u32 \<Rightarrow> hmem \<Rightarrow> hmem" where
  "ChunkHeader_new this prev sz m = m(this := this + sizeof_ChunkHeader + sz, this + 4 := prev)"

definition getLimit :: "hmem \<Rightarrow> u32 \<Rightarrow> u32" where "getLimit m c = m c"
definition getPrevChunk :: "hmem \<Rightarrow> u32 \<Rightarrow> u32" where "getPrevChunk m c = m (c + 4)"

definition obs_align :: "u32 \<Rightarrow> u32" where
  "obs_align sz = (sz + (sizeof_double - 1)) AND NOT (sizeof_double - 1)"

definition obs_allocSize :: "u32 \<Rightarrow> u32 \<Rightarrow> u32" where
  "obs_allocSize ChunkSize sz =
     obs_align (if sz > ChunkSize - sizeof_ChunkHeader then sz else ChunkSize - sizeof_ChunkHeader)"

type_synonym 'h chunk_maker = "u32 \<Rightarrow> u32 \<Rightarrow> 'h hstate \<Rightarrow> (u32 \<times> 'h hstate) option"

definition makeChunk :: "(u32 \<Rightarrow> 'h hstate \<Rightarrow> (u32 \<times> 'h hstate) option) \<Rightarrow> u32 \<Rightarrow> 'h chunk_maker" where
  "makeChunk smalloc ChunkSize ch sz st =
     (let allocSize = obs_allocSize ChunkSize sz
      in Option.bind (smalloc (sizeof_ChunkHeader + allocSize) st) (\<lambda>(ptr, (h, m)).
           if ptr = 0 then Some (0, (h, m)) else Some (ptr, (h, ChunkHeader_new ptr ch allocSize m))))"

text \<open>Without the check for \<open>NULL\<close> the header is written to address 0, and the program ends.\<close>

definition makeChunk_unchecked :: "(u32 \<Rightarrow> 'h hstate \<Rightarrow> (u32 \<times> 'h hstate) option) \<Rightarrow> u32 \<Rightarrow> 'h chunk_maker" where
  "makeChunk_unchecked smalloc ChunkSize ch sz st =
     (let allocSize = obs_allocSize ChunkSize sz
      in Option.bind (smalloc (sizeof_ChunkHeader + allocSize) st) (\<lambda>(ptr, (h, m)).
           if ptr = 0 then None else Some (ptr, (h, ChunkHeader_new ptr ch allocSize m))))"

section \<open>Operations\<close>

text \<open>\<open>memcpy (dst, src, n)\<close> between words: whole words, and the lower bytes of the last one.\<close>

definition memcpy_c :: "u32 \<Rightarrow> u32 \<Rightarrow> u32 \<Rightarrow> hmem \<Rightarrow> hmem" where
  "memcpy_c dst src n m = (\<lambda>a.
     if a - dst < n then
       let w = m (src + (a - dst)); k = unat n - unat (a - dst)
       in if 4 \<le> k then w else (m a AND NOT (mask (8 * k))) OR (w AND mask (8 * k))
     else m a)"

definition obs_new :: "'h chunk_maker \<Rightarrow> u32 \<Rightarrow> 'h hstate \<Rightarrow> (obstack \<times> 'h) hstate option" where
  "obs_new mk ChunkSize st =
     map_option (\<lambda>(c, (h, m)). ((\<lparr>ob_base = c + sizeof_ChunkHeader, ob_next = c + sizeof_ChunkHeader, ob_chunk = c\<rparr>, h), m))
       (mk 0 ChunkSize st)"

definition objectSize :: "obstack \<Rightarrow> u32" where
  "objectSize ob = ob_next ob - ob_base ob"

definition obs_copyToNew :: "'h chunk_maker \<Rightarrow> u32 \<Rightarrow> (obstack \<times> 'h) hstate \<Rightarrow> (u32 \<times> (obstack \<times> 'h) hstate) option" where
  "obs_copyToNew mk sz = (\<lambda>((ob, h), m).
     let obj_size = objectSize ob;
         new_size = obj_size + sz + drop_bit 3 obj_size + 100
     in map_option (\<lambda>(c, (h, m)).
          if c = 0 then (0, ((ob\<lparr>ob_chunk := 0\<rparr>, h), m))
          else let m = memcpy_c (c + sizeof_ChunkHeader) (ob_base ob) obj_size m;
                   base = c + sizeof_ChunkHeader
               in (c, ((\<lparr>ob_base = base, ob_next = base + obj_size, ob_chunk = c\<rparr>, h), m)))
        (mk (ob_chunk ob) new_size (h, m)))"

definition obs_room :: "obstack \<Rightarrow> hmem \<Rightarrow> u32" where
  "obs_room ob m = getLimit m (ob_chunk ob) - ob_next ob"

definition obs_grow :: "'h chunk_maker \<Rightarrow> u32 \<Rightarrow> (obstack \<times> 'h) hstate \<Rightarrow> (u32 \<times> (obstack \<times> 'h) hstate) option" where
  "obs_grow mk sz = (\<lambda>((ob, h), m).
     let bump = (\<lambda>((ob, h), m). (ob_next ob, ((ob\<lparr>ob_next := ob_next ob + sz\<rparr>, h), m)))
     in if ob_chunk ob = 0 then None
        else if obs_room ob m < sz then
          map_option (\<lambda>(c, st). if c = 0 then (0, st) else bump st) (obs_copyToNew mk sz ((ob, h), m))
        else Some (bump ((ob, h), m)))"

definition obs_finalize :: "obstack \<Rightarrow> obstack" where
  "obs_finalize ob = (let ob = ob\<lparr>ob_next := obs_align (ob_next ob)\<rparr> in ob\<lparr>ob_base := ob_next ob\<rparr>)"

definition getObjectBase :: "obstack \<Rightarrow> u32" where "getObjectBase ob = ob_base ob"

definition obs_malloc :: "'h chunk_maker \<Rightarrow> u32 \<Rightarrow> (obstack \<times> 'h) hstate \<Rightarrow> (u32 \<times> (obstack \<times> 'h) hstate) option" where
  "obs_malloc mk sz = (\<lambda>((ob, h), m).
     let bump = (\<lambda>((ob, h), m).
           let ob = ob\<lparr>ob_base := ob_next ob\<rparr>;
               ob = ob\<lparr>ob_next := ob_next ob + sz\<rparr>;
               ptr = ob_base ob
           in (ptr, ((obs_finalize ob, h), m)))
     in if ob_chunk ob = 0 then Some (0, ((ob, h), m))
        else if obs_room ob m < sz then
          map_option (\<lambda>(c, (h, m)).
              if c = 0 then (0, ((ob\<lparr>ob_chunk := 0\<rparr>, h), m))
              else bump ((\<lparr>ob_base = c + sizeof_ChunkHeader, ob_next = c + sizeof_ChunkHeader, ob_chunk = c\<rparr>, h), m))
            (mk (ob_chunk ob) sz (h, m))
        else Some (bump ((ob, h), m)))"

text \<open>The loop of \<open>free\<close>: chunks are given back until one contains the pointer.\<close>

partial_function (option) obs_free_chunks ::
  "(u32 \<Rightarrow> 'h hstate \<Rightarrow> 'h hstate option) \<Rightarrow> u32 \<Rightarrow> u32 \<Rightarrow> 'h hstate \<Rightarrow> (u32 \<times> 'h hstate) option" where
  "obs_free_chunks sfree ptr c st =
     (if c \<noteq> 0 \<and> (c > ptr \<or> getLimit (snd st) c < ptr) then
        let pch = c; c = getPrevChunk (snd st) c
        in Option.bind (sfree pch st) (obs_free_chunks sfree ptr c)
      else Some (c, st))"

definition obs_free ::
  "'h chunk_maker \<Rightarrow> (u32 \<Rightarrow> 'h hstate \<Rightarrow> 'h hstate option) \<Rightarrow> u32 \<Rightarrow> u32 \<Rightarrow> (obstack \<times> 'h) hstate \<Rightarrow> (obstack \<times> 'h) hstate option" where
  "obs_free mk sfree ChunkSize ptr = (\<lambda>((ob, h), m).
     Option.bind (obs_free_chunks sfree ptr (ob_chunk ob) (h, m)) (\<lambda>(c, (h, m)).
       if c \<noteq> 0 then Some ((\<lparr>ob_base = ptr, ob_next = ptr, ob_chunk = c\<rparr>, h), m)
       else if ptr \<noteq> 0 then None
       else obs_new mk ChunkSize (h, m)))"

text \<open>The destructor.\<close>

partial_function (option) obs_delete_chunks ::
  "(u32 \<Rightarrow> 'h hstate \<Rightarrow> 'h hstate option) \<Rightarrow> u32 \<Rightarrow> 'h hstate \<Rightarrow> 'h hstate option" where
  "obs_delete_chunks sfree ch st =
     (if ch \<noteq> 0 then
        let pch = getPrevChunk (snd st) ch
        in Option.bind (sfree ch st) (obs_delete_chunks sfree pch)
      else Some st)"

definition obs_delete :: "(u32 \<Rightarrow> 'h hstate \<Rightarrow> 'h hstate option) \<Rightarrow> (obstack \<times> 'h) hstate \<Rightarrow> 'h hstate option" where
  "obs_delete sfree = (\<lambda>((ob, h), m). obs_delete_chunks sfree (ob_chunk ob) (h, m))"

text \<open>The two classes.\<close>

definition ObstackHeap_new where
  "ObstackHeap_new smalloc ChunkSize = obs_new (makeChunk smalloc ChunkSize) ChunkSize"
definition ObstackHeap_grow where
  "ObstackHeap_grow smalloc ChunkSize = obs_grow (makeChunk smalloc ChunkSize)"
definition ObstackHeap_malloc where
  "ObstackHeap_malloc smalloc ChunkSize = obs_malloc (makeChunk smalloc ChunkSize)"
definition ObstackHeap_free where
  "ObstackHeap_free smalloc sfree ChunkSize = obs_free (makeChunk smalloc ChunkSize) sfree ChunkSize"
definition ObstackHeap_delete where
  "ObstackHeap_delete sfree = obs_delete sfree"

definition Obstack_new where
  "Obstack_new smalloc ChunkSize = obs_new (makeChunk_unchecked smalloc ChunkSize) ChunkSize"
definition Obstack_grow where
  "Obstack_grow smalloc ChunkSize = obs_grow (makeChunk_unchecked smalloc ChunkSize)"
definition Obstack_malloc where
  "Obstack_malloc smalloc ChunkSize = obs_malloc (makeChunk_unchecked smalloc ChunkSize)"
definition Obstack_free where
  "Obstack_free smalloc sfree ChunkSize = obs_free (makeChunk_unchecked smalloc ChunkSize) sfree ChunkSize"

section \<open>The invariant\<close>

text \<open>A chunk with its usable size and the objects in it, the newest first.\<close>

type_synonym frame = "u32 \<times> u32 \<times> (u32 \<times> nat) list"

definition first_chunk :: "frame list \<Rightarrow> u32" where
  "first_chunk fs = (case fs of [] \<Rightarrow> 0 | (c, _) # _ \<Rightarrow> c)"

lemma first_chunk_simps [simp]: "first_chunk [] = 0" "first_chunk ((c, x) # fs) = c"
  by (simp_all add: first_chunk_def)

fun chunk_chain :: "hmem \<Rightarrow> frame list \<Rightarrow> bool" where
  "chunk_chain m [] \<longleftrightarrow> True"
| "chunk_chain m ((c, n, os) # fs) \<longleftrightarrow> m c = c + 8 + n \<and> m (c + 4) = first_chunk fs \<and> chunk_chain m fs"

definition frame_block :: "frame \<Rightarrow> block" where
  "frame_block f = (fst f, 8 + unat (fst (snd f)))"

definition chunk_blocks :: "frame list \<Rightarrow> block set" where
  "chunk_blocks fs = frame_block ` set fs"

lemma chunk_blocksI: "(c, n, os) \<in> set fs \<Longrightarrow> (c, 8 + unat n) \<in> chunk_blocks fs"
  by (force simp: chunk_blocks_def frame_block_def)

lemma chunk_blocks_simps [simp]:
  "chunk_blocks [] = {}" "chunk_blocks ((c, n, os) # fs) = insert (c, 8 + unat n) (chunk_blocks fs)"
  "chunk_blocks (fs @ gs) = chunk_blocks fs \<union> chunk_blocks gs"
  by (auto simp: chunk_blocks_def frame_block_def)

fun stacked :: "nat \<Rightarrow> nat \<Rightarrow> (u32 \<times> nat) list \<Rightarrow> bool" where
  "stacked lo hi [] \<longleftrightarrow> lo \<le> hi"
| "stacked lo hi ((p, k) # os) \<longleftrightarrow> unat p + k \<le> hi \<and> stacked lo (unat p) os"

fun frames_ok :: "frame list \<Rightarrow> bool" where
  "frames_ok [] \<longleftrightarrow> True"
| "frames_ok ((c, n, os) # fs) \<longleftrightarrow> 8 dvd unat n \<and> stacked (unat c + 8) (unat c + 8 + unat n) os \<and>
     (c, 8 + unat n) \<notin> chunk_blocks fs \<and> frames_ok fs"

definition obs_inv :: "('h hstate \<Rightarrow> block set \<Rightarrow> bool) \<Rightarrow> (obstack \<times> 'h) hstate \<Rightarrow> frame list \<Rightarrow> bool" where
  "obs_inv sinv = (\<lambda>((ob, h), m) fs.
     sinv (h, m) (chunk_blocks fs) \<and> chunk_chain m fs \<and> frames_ok fs \<and>
     (case fs of [] \<Rightarrow> False
      | (c, n, os) # _ \<Rightarrow> ob_chunk ob = c \<and> stacked (unat c + 8) (unat (ob_base ob)) os \<and>
          unat (ob_base ob) \<le> unat (ob_next ob) \<and> unat (ob_next ob) \<le> unat c + 8 + unat n))"

lemma stacked_mono: "stacked lo b os \<Longrightarrow> b \<le> b' \<Longrightarrow> stacked lo b' os"
  by (cases os) auto

lemma stacked_le: "stacked lo hi os \<Longrightarrow> lo \<le> hi"
  by (induction os arbitrary: hi) fastforce+

lemma stacked_append: "stacked lo hi (xs @ (p, k) # os) \<Longrightarrow> stacked lo (unat p) os \<and> unat p + k \<le> hi \<and> lo \<le> unat p"
  by (induction xs arbitrary: hi) (fastforce dest: stacked_le)+

lemma stacked_bounds: "stacked lo hi os \<Longrightarrow> (p, k) \<in> set os \<Longrightarrow> lo \<le> unat p \<and> unat p + k \<le> hi"
  by (metis in_set_conv_decomp stacked_append)

lemma round_up_le:
  assumes "8 dvd L" and "x \<le> L"
  shows "round_up 8 x \<le> L"
proof -
  obtain a where a: "round_up 8 x = 8 * a" using round_up_dvd [of 8 x] by (rule dvdE)
  obtain b where b: "L = 8 * b" using assms(1) by (rule dvdE)
  show ?thesis using round_up_less [of 8 x] assms(2) unfolding a b by simp
qed

lemma unat_obs_align: "unat x + 7 < 2 ^ 32 \<Longrightarrow> unat (obs_align x) = round_up 8 (unat x)"
  using unat_zone_align [of x] by (simp add: obs_align_def zone_align_def)

definition obs_request :: "u32 \<Rightarrow> u32 \<Rightarrow> u32" where
  "obs_request ChunkSize sz = (if sz > ChunkSize - sizeof_ChunkHeader then sz else ChunkSize - sizeof_ChunkHeader)"

definition obs_ok :: "(u32 \<Rightarrow> bool) \<Rightarrow> u32 \<Rightarrow> u32 \<Rightarrow> bool" where
  "obs_ok ok ChunkSize sz \<longleftrightarrow> unat (obs_request ChunkSize sz) + 15 < 2 ^ 32 \<and> ok (sizeof_ChunkHeader + obs_allocSize ChunkSize sz)"

lemma unat_allocSize:
  assumes "unat (obs_request ChunkSize sz) + 15 < 2 ^ 32"
  shows "8 dvd unat (obs_allocSize ChunkSize sz)" and "unat sz \<le> unat (obs_allocSize ChunkSize sz)"
    and "unat (sizeof_ChunkHeader + obs_allocSize ChunkSize sz) = 8 + unat (obs_allocSize ChunkSize sz)"
    and "8 + unat (obs_allocSize ChunkSize sz) < 2 ^ 32"
proof -
  have a: "unat (obs_allocSize ChunkSize sz) = round_up 8 (unat (obs_request ChunkSize sz))"
    using assms unat_obs_align [of "obs_request ChunkSize sz"] by (simp add: obs_allocSize_def obs_request_def)
  then show "8 dvd unat (obs_allocSize ChunkSize sz)" by simp
  have "sz \<le> obs_request ChunkSize sz" by (auto simp: obs_request_def)
  then show "unat sz \<le> unat (obs_allocSize ChunkSize sz)"
    using a round_up_ge [of 8 "unat (obs_request ChunkSize sz)"] by (simp add: word_le_nat_alt)
  show l: "8 + unat (obs_allocSize ChunkSize sz) < 2 ^ 32"
    using a assms round_up_less [of 8 "unat (obs_request ChunkSize sz)"] by simp
  show "unat (sizeof_ChunkHeader + obs_allocSize ChunkSize sz) = 8 + unat (obs_allocSize ChunkSize sz)"
    using l by (simp add: sizeof_ChunkHeader_def unat_add_nowrap)
qed

text \<open>The two words of a header lie in the block of the chunk, and not in its objects.\<close>

lemma frame_words:
  assumes "ok_block (c, 8 + unat n)"
  shows "unat c \<in> blk (c, 8 + unat n)" and "unat (c + 4) = unat c + 4" and "unat (c + 4) \<in> blk (c, 8 + unat n)"
    and "unat (c + 8) = unat c + 8" and "unat (c + 8 + n) = unat c + 8 + unat n"
proof -
  have l: "unat c + 8 + unat n < 2 ^ 32" using assms by (simp add: ok_block_def)
  then show "unat (c + 4) = unat c + 4" "unat (c + 8) = unat c + 8" by (simp_all add: unat_add_nowrap)
  then show "unat (c + 8 + n) = unat c + 8 + unat n" using l by (simp add: unat_add_nowrap)
  show "unat c \<in> blk (c, 8 + unat n)" "unat (c + 4) \<in> blk (c, 8 + unat n)"
    using \<open>unat (c + 4) = unat c + 4\<close> by (simp_all add: blk_def)
qed

lemma chunk_chain_frame:
  assumes "ok_blocks (chunk_blocks fs)" and "\<And>a. covered (chunk_blocks fs) a \<Longrightarrow> m' a = m a"
  shows "chunk_chain m' fs = chunk_chain m fs"
  using assms
proof (induction fs)
  case (Cons f fs)
  obtain c n os where f: "f = (c, n, os)" by (metis surj_pair)
  have ok: "ok_block (c, 8 + unat n)" "ok_blocks (chunk_blocks fs)" using Cons.prems(1) by (simp_all add: f ok_blocks_insert)
  have "covered (chunk_blocks (f # fs)) c" "covered (chunk_blocks (f # fs)) (c + 4)" using frame_words [OF ok(1)] by (simp_all add: f)
  moreover have "chunk_chain m' fs = chunk_chain m fs" using Cons.prems(2) ok(2) by (intro Cons.IH) (auto simp: f)
  ultimately show ?case using Cons.prems(2) by (simp add: f)
qed simp

text \<open>All objects, the newest first.\<close>

definition objs_of :: "frame list \<Rightarrow> (u32 \<times> nat) list" where
  "objs_of fs = concat (map (snd \<circ> snd) fs)"

lemma objs_of_simps [simp]: "objs_of [] = []" "objs_of ((c, n, os) # fs) = os @ objs_of fs"
  by (simp_all add: objs_of_def)

text \<open>
  What a client does: it allocates, frees one of its objects, which it then forgets together with the newer ones, and
  writes into its objects. It keeps the list of its objects and what it has written, and stops when a request fails.
\<close>

datatype obs_op = OMalloc u32 | OFree nat | OWrite u32 u32

fun obs_client ::
  "(u32 \<Rightarrow> 's \<times> hmem \<Rightarrow> (u32 \<times> 's \<times> hmem) option) \<Rightarrow> (u32 \<Rightarrow> 's \<times> hmem \<Rightarrow> ('s \<times> hmem) option)
   \<Rightarrow> obs_op list \<Rightarrow> ('s \<times> hmem) \<times> (u32 \<times> nat) list \<times> hmem \<Rightarrow> (('s \<times> hmem) \<times> (u32 \<times> nat) list \<times> hmem) option" where
  "obs_client omalloc ofree [] s = Some s"
| "obs_client omalloc ofree (OMalloc sz # ops) (st, stk, f) =
     Option.bind (omalloc sz st) (\<lambda>(p, st).
       if p = 0 then Some (st, stk, f)
       else obs_client omalloc ofree ops
         (st, (p, unat sz) # stk, \<lambda>a. if unat a \<in> blk (p, unat sz) then snd st a else f a))"
| "obs_client omalloc ofree (OFree i # ops) (st, stk, f) =
     (if i < length stk then
        Option.bind (ofree (fst (stk ! i)) st) (\<lambda>st. obs_client omalloc ofree ops (st, drop (Suc i) stk, f))
      else obs_client omalloc ofree ops (st, stk, f))"
| "obs_client omalloc ofree (OWrite a v # ops) ((h, m), stk, f) =
     (if covered (set stk) a then obs_client omalloc ofree ops ((h, m(a := v)), stk, f(a := v))
      else obs_client omalloc ofree ops ((h, m), stk, f))"

fun obs_op_ok :: "(u32 \<Rightarrow> bool) \<Rightarrow> u32 \<Rightarrow> obs_op \<Rightarrow> bool" where
  "obs_op_ok ok k (OMalloc sz) \<longleftrightarrow> 0 < sz \<and> obs_ok ok k sz"
| "obs_op_ok ok k _ \<longleftrightarrow> True"

definition intact :: "('s \<times> hmem) \<times> (u32 \<times> nat) list \<times> hmem \<Rightarrow> bool" where
  "intact = (\<lambda>(st, stk, f). sorted_wrt (\<lambda>x y. blk x \<inter> blk y = {}) stk \<and> (\<forall>a. covered (set stk) a \<longrightarrow> snd st a = f a))"

context source_heap
begin

lemma makeChunk_law:
  assumes i: "inv st B" and ok: "obs_ok oksize ChunkSize sz"
  shows "\<exists>p st'. makeChunk malloc ChunkSize ch sz st = Some (p, st') \<and>
    (if p = 0 then inv st' B
     else inv st' (insert (p, 8 + unat (obs_allocSize ChunkSize sz)) B) \<and> (p, 8 + unat (obs_allocSize ChunkSize sz)) \<notin> B \<and>
       snd st' p = p + 8 + obs_allocSize ChunkSize sz \<and> snd st' (p + 4) = ch) \<and>
    (\<forall>a. covered B a \<longrightarrow> snd st' a = snd st a)"
proof -
  let ?n = "obs_allocSize ChunkSize sz"
  have n: "unat (sizeof_ChunkHeader + ?n) = 8 + unat ?n" using ok unat_allocSize by (simp add: obs_ok_def)
  have oks: "oksize (sizeof_ChunkHeader + ?n)" using ok by (simp add: obs_ok_def)
  from i oks show ?thesis
  proof (cases rule: malloc_cases)
    case (null st')
    then show ?thesis by (intro exI [of _ 0] exI [of _ st']) (cases st', simp add: makeChunk_def Let_def)
  next
    case (block p st')
    obtain h m where st': "st' = (h, m)" by (cases st')
    have b: "inv (h, m) (insert (p, 8 + unat ?n) B)" "(p, 8 + unat ?n) \<notin> B" using block(3,4) n by (simp_all add: st')
    have okb: "ok_block (p, 8 + unat ?n)" "\<forall>c \<in> B. blk (p, 8 + unat ?n) \<inter> blk c = {}"
      using inv_blocks [OF b(1)] b(2) by (auto simp: ok_blocks_insert)
    note w = frame_words [OF okb(1)]
    have nc: "\<not> covered B a" if "unat a \<in> blk (p, 8 + unat ?n)" for a using okb(2) that by (auto simp: covered_def)
    let ?m = "ChunkHeader_new p ch ?n m"
    have "inv (h, ?m) (insert (p, 8 + unat ?n) B)"
      unfolding ChunkHeader_new_def by (intro inv_write b(1)) (use w in simp_all)
    moreover have "?m p = p + 8 + ?n" "?m (p + 4) = ch" by (simp_all add: ChunkHeader_new_def sizeof_ChunkHeader_def)
    moreover have "?m a = m a" if "covered B a" for a
      using nc [of a] w that unfolding ChunkHeader_new_def by (cases "a = p"; cases "a = p + 4") auto
    ultimately show ?thesis using block b(2)
      by (intro exI [of _ p] exI [of _ "(h, ?m)"]) (simp add: makeChunk_def Let_def st')
  qed
qed

text \<open>Where the current position of an obstack is.\<close>

lemma obs_invD:
  assumes "obs_inv inv ((ob, h), m) fs"
  obtains c n os fs' where "fs = (c, n, os) # fs'" and "ob_chunk ob = c" and "c \<noteq> 0" and "inv (h, m) (chunk_blocks fs)"
    and "chunk_chain m fs" and "frames_ok fs" and "ok_block (c, 8 + unat n)" and "8 dvd unat n"
    and "unat (m c) = unat c + 8 + unat n" and "m c = c + 8 + n"
    and "stacked (unat c + 8) (unat (ob_base ob)) os" and "unat (ob_base ob) \<le> unat (ob_next ob)"
    and "unat (ob_next ob) \<le> unat c + 8 + unat n"
proof -
  obtain c n os fs' where fs: "fs = (c, n, os) # fs'"
  proof (cases fs)
    case Nil
    then show ?thesis using assms by (simp add: obs_inv_def)
  next
    case (Cons f fs')
    then show ?thesis using that by (metis prod_cases3)
  qed
  have i: "inv (h, m) (chunk_blocks fs)" "chunk_chain m fs" "frames_ok fs" "ob_chunk ob = c"
    "stacked (unat c + 8) (unat (ob_base ob)) os" "unat (ob_base ob) \<le> unat (ob_next ob)"
    "unat (ob_next ob) \<le> unat c + 8 + unat n" using assms fs by (simp_all add: obs_inv_def)
  have ok: "ok_block (c, 8 + unat n)" using inv_blocks [OF i(1)] by (simp add: fs ok_blocks_insert)
  then show thesis using i fs frame_words(5) [OF ok] by (intro that [of c n os fs']) (auto simp: ok_block_def)
qed

text \<open>The current position moves behind a new object of the current chunk.\<close>

lemma obs_push:
  assumes i: "obs_inv inv ((ob, h), m) fs" and fs: "fs = (c, n, os) # fs'"
    and r: "unat (ob_next ob) + unat sz \<le> unat c + 8 + unat n"
  defines "ob' \<equiv> obs_finalize (ob\<lparr>ob_base := ob_next ob, ob_next := ob_next ob + sz\<rparr>)"
  shows "obs_inv inv ((ob', h), m) ((c, n, (ob_next ob, unat sz) # os) # fs')" and "ob_next ob \<noteq> 0"
proof -
  have f: "inv (h, m) (chunk_blocks fs)" "chunk_chain m fs" "frames_ok fs" "ob_chunk ob = c"
    "stacked (unat c + 8) (unat (ob_base ob)) os" "unat (ob_base ob) \<le> unat (ob_next ob)" using i fs by (simp_all add: obs_inv_def)
  have okb: "ok_block (c, 8 + unat n)" using inv_blocks [OF f(1)] by (simp add: fs ok_blocks_insert)
  have d: "8 dvd unat c + 8 + unat n" using okb f(3) by (simp add: ok_block_def fs)
  have lt: "unat c + 8 + unat n < 2 ^ 32" using okb by (simp add: ok_block_def)
  have lt7: "unat c + 8 + unat n + 7 < 2 ^ 32"
  proof -
    obtain b where b: "unat c + 8 + unat n = 8 * b" using d by (rule dvdE)
    then have "b < 536870912" using lt by simp
    then show ?thesis using b by simp
  qed
  have u: "unat (ob_next ob + sz) = unat (ob_next ob) + unat sz" using r lt by (simp add: unat_add_nowrap)
  then have a: "unat (obs_align (ob_next ob + sz)) = round_up 8 (unat (ob_next ob) + unat sz)"
    using unat_obs_align [of "ob_next ob + sz"] r lt7 by simp
  have "unat (ob_next ob) + unat sz \<le> unat (obs_align (ob_next ob + sz))"
    "unat (obs_align (ob_next ob + sz)) \<le> unat c + 8 + unat n"
    using round_up_ge [of 8 "unat (ob_next ob) + unat sz"] round_up_le [OF d r] unfolding a by simp_all
  moreover have "stacked (unat c + 8) (unat (ob_next ob)) os" using f(5,6) by (rule stacked_mono)
  ultimately show "obs_inv inv ((ob', h), m) ((c, n, (ob_next ob, unat sz) # os) # fs')"
    using f r fs by (auto simp: obs_inv_def ob'_def obs_finalize_def Let_def)
  have "unat c + 8 \<le> unat (ob_next ob)" using stacked_le [OF f(5)] f(6) by simp
  then show "ob_next ob \<noteq> 0" by auto
qed

lemma obs_malloc_law:
  assumes i: "obs_inv inv ((ob, h), m) fs" and ok: "obs_ok oksize k sz"
  shows "\<exists>p st'. obs_malloc (makeChunk malloc k) sz ((ob, h), m) = Some (p, st') \<and>
    (p = 0 \<or> (\<exists>fs'. obs_inv inv st' fs' \<and> objs_of fs' = (p, unat sz) # objs_of fs \<and> chunk_blocks fs \<subseteq> chunk_blocks fs')) \<and>
    (\<forall>a. covered (chunk_blocks fs) a \<longrightarrow> snd st' a = m a)"
  using i
proof (cases rule: obs_invD)
  case (1 c n os fs')
  have room: "unat (obs_room ob m) = unat c + 8 + unat n - unat (ob_next ob)"
    using 1 by (simp add: obs_room_def getLimit_def unat_sub word_le_nat_alt)
  show ?thesis
  proof (cases "obs_room ob m < sz")
    case False
    then have "unat (ob_next ob) + unat sz \<le> unat c + 8 + unat n" using room 1 by (simp add: word_less_nat_alt)
    note p = obs_push [OF i 1(1) this]
    have "obs_malloc (makeChunk malloc k) sz ((ob, h), m) =
        Some (ob_next ob, ((obs_finalize (ob\<lparr>ob_base := ob_next ob, ob_next := ob_next ob + sz\<rparr>), h), m))"
      using False 1 by (simp add: obs_malloc_def Let_def)
    then show ?thesis using p 1(1) by (intro exI) auto
  next
    case True
    let ?a = "obs_allocSize k sz"
    obtain q h' m' where mk: "makeChunk malloc k c sz (h, m) = Some (q, (h', m'))"
      "if q = 0 then inv (h', m') (chunk_blocks fs)
       else inv (h', m') (insert (q, 8 + unat ?a) (chunk_blocks fs)) \<and> (q, 8 + unat ?a) \<notin> chunk_blocks fs \<and>
         m' q = q + 8 + ?a \<and> m' (q + 4) = c"
      "\<forall>a. covered (chunk_blocks fs) a \<longrightarrow> m' a = m a"
      using makeChunk_law [OF 1(4) ok, of c] by (metis surj_pair snd_conv)
    show ?thesis
    proof (cases "q = 0")
      case True
      then have "obs_malloc (makeChunk malloc k) sz ((ob, h), m) = Some (0, ((ob\<lparr>ob_chunk := 0\<rparr>, h'), m'))"
        using \<open>obs_room ob m < sz\<close> 1 mk(1) by (simp add: obs_malloc_def Let_def)
      then show ?thesis using mk(3) by (intro exI) auto
    next
      case False
      let ?ob = "\<lparr>ob_base = q + 8, ob_next = q + 8, ob_chunk = q\<rparr>"
      let ?fs = "(q, ?a, []) # fs"
      have inv': "inv (h', m') (chunk_blocks ?fs)" "(q, 8 + unat ?a) \<notin> chunk_blocks fs" using mk(2) False by simp_all
      have okq: "ok_block (q, 8 + unat ?a)" using inv_blocks [OF inv'(1)] by (simp add: ok_blocks_insert)
      have al: "8 dvd unat ?a" "unat sz \<le> unat ?a" using ok unat_allocSize [of k sz] by (simp_all add: obs_ok_def)
      have "chunk_chain m' fs" using chunk_chain_frame [of fs m' m] inv_blocks [OF 1(4)] mk(3) 1(5) by simp
      moreover have "stacked (unat c + 8) (unat c + 8 + unat n) os" using stacked_mono [OF 1(11)] 1(12,13) by simp
      ultimately have i': "obs_inv inv ((?ob, h'), m') ?fs"
        using inv' mk(2) False al(1) 1 frame_words(4) [OF okq] by (simp add: obs_inv_def)
      have "unat (ob_next ?ob) + unat sz \<le> unat q + 8 + unat ?a" using frame_words(4) [OF okq] al(2) by simp
      note p = obs_push [OF i' refl this]
      have "obs_malloc (makeChunk malloc k) sz ((ob, h), m) =
          Some (ob_next ?ob, ((obs_finalize (?ob\<lparr>ob_base := ob_next ?ob, ob_next := ob_next ?ob + sz\<rparr>), h'), m'))"
        using \<open>obs_room ob m < sz\<close> 1 mk(1) False by (simp add: obs_malloc_def Let_def sizeof_ChunkHeader_def)
      then show ?thesis using p mk(3) by (intro exI) auto
    qed
  qed
qed

text \<open>The loop of \<open>free\<close> gives back the chunks above the one that contains the pointer.\<close>

lemma obs_free_chunks_law:
  assumes "inv st (chunk_blocks (new @ (c, n, os) # old))" and "chunk_chain (snd st) (new @ (c, n, os) # old)"
    and "frames_ok (new @ (c, n, os) # old)" and "unat c + 8 \<le> unat p" and "unat p < unat c + 8 + unat n"
  shows "\<exists>st'. obs_free_chunks free p (first_chunk (new @ (c, n, os) # old)) st = Some (c, st') \<and>
    inv st' (chunk_blocks ((c, n, os) # old)) \<and> chunk_chain (snd st') ((c, n, os) # old) \<and>
    (\<forall>a. covered (chunk_blocks ((c, n, os) # old)) a \<longrightarrow> snd st' a = snd st a)"
  using assms(1-3)
proof (induction new arbitrary: st)
  case Nil
  have ok: "ok_block (c, 8 + unat n)" using inv_blocks [OF Nil(1)] by (simp add: ok_blocks_insert)
  have "\<not> c > p" "\<not> getLimit (snd st) c < p"
    using assms(4,5) frame_words(5) [OF ok] Nil(2) by (simp_all add: word_less_nat_alt getLimit_def)
  then have "obs_free_chunks free p c st = Some (c, st)" by (subst obs_free_chunks.simps) simp
  then show ?case using Nil by simp
next
  case (Cons f new)
  obtain d k xs where f: "f = (d, k, xs)" by (metis surj_pair)
  let ?fs = "new @ (c, n, os) # old"
  have i: "inv st (insert (d, 8 + unat k) (chunk_blocks ?fs))" using Cons.prems(1) by (simp add: f)
  have nd: "(d, 8 + unat k) \<notin> chunk_blocks ?fs" using Cons.prems(3) by (simp add: f)
  have okd: "ok_block (d, 8 + unat k)" using inv_blocks [OF i] by (simp add: ok_blocks_insert)
  have "blk (d, 8 + unat k) \<inter> blk (c, 8 + unat n) = {}"
    using inv_blocks [OF i] nd by (auto simp: ok_blocks_insert)
  moreover have "unat p \<in> blk (c, 8 + unat n)" "unat p - 1 \<in> blk (c, 8 + unat n)" using assms(4,5) by (auto simp: blk_def)
  ultimately have "unat p \<notin> blk (d, 8 + unat k)" "unat p - 1 \<notin> blk (d, 8 + unat k)" by blast+
  then have "d > p \<or> d + 8 + k < p"
    using frame_words(5) [OF okd] by (auto simp: blk_def word_less_nat_alt)
  moreover have "getLimit (snd st) d = d + 8 + k" "getPrevChunk (snd st) d = first_chunk ?fs"
    using Cons.prems(2) by (simp_all add: f getLimit_def getPrevChunk_def)
  moreover have "d \<noteq> 0" using okd by (simp add: ok_block_def)
  ultimately have e: "obs_free_chunks free p d st = Option.bind (free d st) (obs_free_chunks free p (first_chunk ?fs))"
    by (subst obs_free_chunks.simps) (simp add: Let_def)
  obtain st1 where st1: "free d st = Some st1" "inv st1 (chunk_blocks ?fs)"
    "\<forall>a. covered (chunk_blocks ?fs) a \<longrightarrow> snd st1 a = snd st a"
    using free_law [OF i, of d "8 + unat k"] nd by auto
  have "chunk_chain (snd st1) ?fs"
    using chunk_chain_frame [of ?fs "snd st1" "snd st"] inv_blocks [OF st1(2)] st1(3) Cons.prems(2) by (auto simp: f)
  then obtain st' where st': "obs_free_chunks free p (first_chunk ?fs) st1 = Some (c, st')"
    "inv st' (chunk_blocks ((c, n, os) # old))" "chunk_chain (snd st') ((c, n, os) # old)"
    "\<forall>a. covered (chunk_blocks ((c, n, os) # old)) a \<longrightarrow> snd st' a = snd st1 a"
    using Cons.IH [OF st1(2)] Cons.prems(3) by (auto simp: f)
  have "\<forall>a. covered (chunk_blocks ((c, n, os) # old)) a \<longrightarrow> snd st' a = snd st a"
    using st'(4) st1(3) by auto
  then show ?case using e st1(1) st'(1-3) by (auto simp: f)
qed

lemma obs_find: "objs_of fs = xs @ o' # ys \<Longrightarrow>
    \<exists>new c n us vs old. fs = new @ (c, n, us @ o' # vs) # old \<and> ys = vs @ objs_of old"
proof (induction fs arbitrary: xs)
  case (Cons f fs)
  obtain c n os where f: "f = (c, n, os)" by (metis surj_pair)
  then have e: "os @ objs_of fs = xs @ o' # ys" using Cons.prems by simp
  show ?case
  proof (cases "length xs < length os")
    case True
    then obtain us where us: "os = xs @ us" "us \<noteq> []" "us @ objs_of fs = o' # ys"
      using e by (auto simp: append_eq_append_conv2)
    then obtain vs where "os = xs @ o' # vs" "ys = vs @ objs_of fs" by (cases us) auto
    then show ?thesis using f by (intro exI [of _ "[]"]) auto
  next
    case False
    then obtain zs where "xs = os @ zs" "objs_of fs = zs @ o' # ys"
      using e by (auto simp: append_eq_append_conv2 Cons_eq_append_conv)
    then obtain new c' n' us vs old where "fs = new @ (c', n', us @ o' # vs) # old" "ys = vs @ objs_of old"
      using Cons.IH by blast
    then show ?thesis by (intro exI [of _ "f # new"]) auto
  qed
qed simp

lemma frames_ok_append: "frames_ok (new @ fs) \<Longrightarrow> frames_ok fs"
proof (induction new)
  case (Cons f new)
  then show ?case by (cases f) auto
qed simp

lemma frames_stacked: "frames_ok fs \<Longrightarrow> (c, n, os) \<in> set fs \<Longrightarrow> stacked (unat c + 8) (unat c + 8 + unat n) os"
proof (induction fs)
  case (Cons f fs)
  then show ?case by (cases f) auto
qed simp

text \<open>Freeing an object leaves the ones that are older.\<close>

lemma obs_free_law:
  assumes i: "obs_inv inv ((ob, h), m) fs" and o: "objs_of fs = xs @ (p, k) # ys" and k: "0 < k"
  shows "\<exists>st' fs'. obs_free mk free ChunkSize p ((ob, h), m) = Some st' \<and> obs_inv inv st' fs' \<and> objs_of fs' = ys \<and>
    chunk_blocks fs' \<subseteq> chunk_blocks fs \<and> ob_next (fst (fst st')) = p \<and>
    (\<forall>a. covered (chunk_blocks fs') a \<longrightarrow> snd st' a = m a)"
proof -
  obtain new c n us vs old where fs: "fs = new @ (c, n, us @ (p, k) # vs) # old" and ys: "ys = vs @ objs_of old"
    using obs_find [OF o] by blast
  have f: "inv (h, m) (chunk_blocks fs)" "chunk_chain m fs" "frames_ok fs" "ob_chunk ob = first_chunk fs"
    using i by (auto simp: obs_inv_def first_chunk_def split: list.splits prod.splits)
  have s: "stacked (unat c + 8) (unat p) vs" "unat p + k \<le> unat c + 8 + unat n" "unat c + 8 \<le> unat p"
    using frames_stacked [OF f(3), of c n "us @ (p, k) # vs"] by (auto simp: fs dest!: stacked_append)
  have fo: "frames_ok ((c, n, us @ (p, k) # vs) # old)" using f(3) unfolding fs by (rule frames_ok_append)
  obtain h' m' where l: "obs_free_chunks free p (first_chunk fs) (h, m) = Some (c, (h', m'))"
    "inv (h', m') (chunk_blocks ((c, n, us @ (p, k) # vs) # old))" "chunk_chain m' ((c, n, us @ (p, k) # vs) # old)"
    "\<forall>a. covered (chunk_blocks ((c, n, us @ (p, k) # vs) # old)) a \<longrightarrow> m' a = m a"
    using obs_free_chunks_law [of "(h, m)" new c n "us @ (p, k) # vs" old p] f s k by (auto simp: fs)
  have "c \<noteq> 0" using inv_blocks [OF l(2)] by (simp add: ok_blocks_insert ok_block_def)
  then have "obs_free mk free ChunkSize p ((ob, h), m) = Some ((\<lparr>ob_base = p, ob_next = p, ob_chunk = c\<rparr>, h'), m')"
    using l(1) f(4) by (simp add: obs_free_def)
  moreover have "stacked (unat c + 8) (unat c + 8 + unat n) vs" using s k by (intro stacked_mono [OF s(1)]) simp
  then have "obs_inv inv ((\<lparr>ob_base = p, ob_next = p, ob_chunk = c\<rparr>, h'), m') ((c, n, vs) # old)"
    using l(2,3) fo s k by (simp add: obs_inv_def)
  ultimately show ?thesis using ys l(4) by (intro exI conjI) (auto simp: fs)
qed

lemma obs_new_law:
  assumes i: "inv st {}" and ok: "obs_ok oksize k k"
  shows "\<exists>st'. obs_new (makeChunk malloc k) k st = Some st' \<and>
    (ob_chunk (fst (fst st')) = 0 \<or> (\<exists>fs. obs_inv inv st' fs \<and> objs_of fs = []))"
proof -
  let ?a = "obs_allocSize k k"
  obtain q h' m' where mk: "makeChunk malloc k 0 k st = Some (q, (h', m'))"
    "if q = 0 then inv (h', m') {} else inv (h', m') {(q, 8 + unat ?a)} \<and> m' q = q + 8 + ?a \<and> m' (q + 4) = 0"
    using makeChunk_law [OF i ok, of 0] by (metis surj_pair snd_conv empty_iff)
  show ?thesis
  proof (cases "q = 0")
    case False
    then have v: "inv (h', m') {(q, 8 + unat ?a)}" using mk(2) by simp
    have okq: "ok_block (q, 8 + unat ?a)" using inv_blocks [OF v] by (simp add: ok_blocks_insert)
    have "8 dvd unat ?a" using ok unat_allocSize by (simp add: obs_ok_def)
    then have "obs_inv inv ((\<lparr>ob_base = q + 8, ob_next = q + 8, ob_chunk = q\<rparr>, h'), m') [(q, ?a, [])]"
      using v mk(2) False frame_words(4) [OF okq] by (simp add: obs_inv_def)
    then show ?thesis using mk(1)
      by (intro exI [of _ "((\<lparr>ob_base = q + 8, ob_next = q + 8, ob_chunk = q\<rparr>, h'), m')"])
        (auto simp: obs_new_def sizeof_ChunkHeader_def intro!: exI [of _ "[(q, ?a, [])]"])
  qed (use mk(1) in \<open>simp add: obs_new_def\<close>)
qed

text \<open>An object lies in the block of its chunk, behind the header, and apart from all other objects.\<close>

lemma objs_in_blocks:
  assumes "frames_ok fs" and "(p, k) \<in> set (objs_of fs)" 
  shows "\<exists>c n os. (c, n, os) \<in> set fs \<and> (p, k) \<in> set os \<and> unat c + 8 \<le> unat p \<and> unat p + k \<le> unat c + 8 + unat n"
proof -
  obtain c n os where "(c, n, os) \<in> set fs" "(p, k) \<in> set os" using assms(2) by (auto simp: objs_of_def)
  then show ?thesis using stacked_bounds [OF frames_stacked [OF assms(1)]] by blast
qed

lemma objs_covered: "frames_ok fs \<Longrightarrow> covered (set (objs_of fs)) a \<Longrightarrow> covered (chunk_blocks fs) a"
proof -
  assume f: "frames_ok fs" and "covered (set (objs_of fs)) a"
  then obtain p k where "(p, k) \<in> set (objs_of fs)" "unat a \<in> blk (p, k)" by (auto simp: covered_def)
  then obtain c n os where "(c, n, os) \<in> set fs" "unat a \<in> blk (c, 8 + unat n)" using objs_in_blocks [OF f] by (fastforce simp: blk_def)
  then show "covered (chunk_blocks fs) a" by (force simp: covered_def chunk_blocks_def frame_block_def)
qed

lemma stacked_disjoint: "stacked lo hi ((p, k) # os) \<Longrightarrow> o' \<in> set os \<Longrightarrow> blk (p, k) \<inter> blk o' = {}"
proof -
  assume "stacked lo hi ((p, k) # os)" "o' \<in> set os"
  then have "unat (fst o') + snd o' \<le> unat p" using stacked_bounds [of lo "unat p" os "fst o'" "snd o'"] by simp
  then show ?thesis by (auto simp: blk_def)
qed

lemma stacked_pairwise: "stacked lo hi os \<Longrightarrow> sorted_wrt (\<lambda>x y. blk x \<inter> blk y = {}) os"
proof (induction os arbitrary: hi)
  case (Cons x os)
  obtain p k where x: "x = (p, k)" by (cases x)
  show ?case using stacked_disjoint [of lo hi p k os] Cons by (auto simp: x)
qed simp

lemma objs_disjoint:
  "frames_ok fs \<Longrightarrow> ok_blocks (chunk_blocks fs) \<Longrightarrow> sorted_wrt (\<lambda>x y. blk x \<inter> blk y = {}) (objs_of fs)"
proof (induction fs)
  case (Cons f fs)
  obtain c n os where f: "f = (c, n, os)" by (metis surj_pair)
  have st: "stacked (unat c + 8) (unat c + 8 + unat n) os" and fo: "frames_ok fs" using Cons.prems(1) by (simp_all add: f)
  have "blk x \<inter> blk y = {}" if x: "x \<in> set os" and y: "y \<in> set (objs_of fs)" for x y
  proof -
    have "unat (fst x) + snd x \<le> unat c + 8 + unat n" "unat c + 8 \<le> unat (fst x)"
      using stacked_bounds [OF st, of "fst x" "snd x"] x by simp_all
    then have "blk x \<subseteq> blk (c, 8 + unat n)" by (auto simp: blk_def)
    moreover obtain d j us where "(d, j, us) \<in> set fs" "unat d + 8 \<le> unat (fst y)" "unat (fst y) + snd y \<le> unat d + 8 + unat j"
      using objs_in_blocks [OF fo, of "fst y" "snd y"] y by auto
    then have "blk y \<subseteq> blk (d, 8 + unat j)" "(d, 8 + unat j) \<in> chunk_blocks fs"
      by (auto simp: blk_def chunk_blocks_def frame_block_def intro!: image_eqI [of _ _ "(d, j, us)"])
    moreover have "\<forall>b \<in> chunk_blocks fs. blk (c, 8 + unat n) \<inter> blk b = {}"
      using Cons.prems by (auto simp: f ok_blocks_insert)
    ultimately show ?thesis by blast
  qed
  moreover have "sorted_wrt (\<lambda>x y. blk x \<inter> blk y = {}) (objs_of fs)"
    using Cons fo by (simp add: f ok_blocks_insert)
  ultimately show ?case using stacked_pairwise [OF st] by (simp add: f sorted_wrt_append)
qed simp

text \<open>Writing into an object disturbs no header.\<close>

lemma obs_write:
  assumes i: "obs_inv inv ((ob, h), m) fs" and a: "covered (set (objs_of fs)) a"
  shows "obs_inv inv ((ob, h), m(a := v)) fs"
proof -
  have f: "inv (h, m) (chunk_blocks fs)" "chunk_chain m fs" "frames_ok fs" using i by (auto simp: obs_inv_def)
  obtain p k where "(p, k) \<in> set (objs_of fs)" "unat a \<in> blk (p, k)" using a by (auto simp: covered_def)
  then obtain c n os where c: "(c, n, os) \<in> set fs" "unat c + 8 \<le> unat a" "unat a < unat c + 8 + unat n"
    using objs_in_blocks [OF f(3)] by (fastforce simp: blk_def)
  have "d \<noteq> a \<and> d + 4 \<noteq> a" if d: "(d, j, us) \<in> set fs" for d j us
  proof -
    have db: "(d, 8 + unat j) \<in> chunk_blocks fs" "(c, 8 + unat n) \<in> chunk_blocks fs"
      using chunk_blocksI d c(1) by blast+
    have okd: "ok_block (d, 8 + unat j)" using inv_blocks [OF f(1)] db(1) by (simp add: ok_blocks_def)
    note w = frame_words [OF okd]
    show ?thesis
    proof (cases "(d, 8 + unat j) = (c, 8 + unat n)")
      case True
      then show ?thesis using w c(2) by auto
    next
      case False
      then have "blk (d, 8 + unat j) \<inter> blk (c, 8 + unat n) = {}" using ok_blocks_apart [OF inv_blocks [OF f(1)] db] by simp
      moreover have "unat a \<in> blk (c, 8 + unat n)" using c by (simp add: blk_def)
      ultimately show ?thesis using w by auto
    qed
  qed
  moreover have "(\<forall>(d, j, us) \<in> set gs. d \<noteq> a \<and> d + 4 \<noteq> a) \<Longrightarrow> chunk_chain m gs \<Longrightarrow> chunk_chain (m(a := v)) gs" for gs
  proof (induction gs)
    case (Cons g gs)
    then show ?case by (cases g) auto
  qed simp
  ultimately have "chunk_chain (m(a := v)) fs" using f(2) by blast
  moreover have "inv (h, m(a := v)) (chunk_blocks fs)" using inv_write f(1) objs_covered [OF f(3) a] by blast
  ultimately show ?thesis using i by (simp add: obs_inv_def split: list.splits)
qed

lemma obs_client_intact:
  assumes "list_all (obs_op_ok oksize k) ops"
    and "obs_inv inv st fs" and "objs_of fs = stk" and "\<forall>(p, n) \<in> set stk. 0 < n"
    and "\<forall>a. covered (set stk) a \<longrightarrow> snd st a = f a"
  shows "\<exists>s. obs_client (obs_malloc (makeChunk malloc k)) (obs_free (makeChunk malloc k) free k) ops (st, stk, f) = Some s \<and> intact s"
  using assms
proof (induction ops arbitrary: st fs stk f)
  case Nil
  obtain ob h m where st: "st = ((ob, h), m)" by (metis surj_pair)
  have "inv (h, m) (chunk_blocks fs)" "frames_ok fs" using Nil.prems(2) by (simp_all add: st obs_inv_def)
  then show ?case using objs_disjoint inv_blocks Nil.prems by (simp add: intact_def) blast
next
  case (Cons op ops)
  obtain ob h m where st: "st = ((ob, h), m)" by (metis surj_pair)
  have i: "obs_inv inv ((ob, h), m) fs" using Cons.prems(2) st by simp
  have fo: "inv (h, m) (chunk_blocks fs)" "frames_ok fs" using i by (simp_all add: obs_inv_def)
  have dis: "sorted_wrt (\<lambda>x y. blk x \<inter> blk y = {}) stk"
    using objs_disjoint [OF fo(2) inv_blocks [OF fo(1)]] Cons.prems(3) by simp
  have cov: "covered (chunk_blocks fs) a" if "covered (set stk) a" for a using objs_covered [OF fo(2)] that Cons.prems(3) by simp
  have ops: "list_all (obs_op_ok oksize k) ops" using Cons.prems(1) by simp
  show ?case
  proof (cases op)
    case (OMalloc sz)
    then have sz: "0 < sz" "obs_ok oksize k sz" using Cons.prems(1) by simp_all
    obtain p st' where l: "obs_malloc (makeChunk malloc k) sz ((ob, h), m) = Some (p, st')"
      "p = 0 \<or> (\<exists>fs'. obs_inv inv st' fs' \<and> objs_of fs' = (p, unat sz) # objs_of fs \<and> chunk_blocks fs \<subseteq> chunk_blocks fs')"
      "\<forall>a. covered (chunk_blocks fs) a \<longrightarrow> snd st' a = m a"
      using obs_malloc_law [OF i sz(2)] by blast
    show ?thesis
    proof (cases "p = 0")
      case True
      have "intact (st', stk, f)" using dis l(3) cov Cons.prems(5) by (auto simp: intact_def st)
      then show ?thesis using True l(1) by (simp add: OMalloc st)
    next
      case False
      then obtain fs' where fs': "obs_inv inv st' fs'" "objs_of fs' = (p, unat sz) # stk" using l(2) Cons.prems(3) by auto
      have "\<forall>(q, n) \<in> set ((p, unat sz) # stk). 0 < n" using sz(1) Cons.prems(4) by (auto simp: word_less_nat_alt)
      moreover have "\<forall>a. covered (set ((p, unat sz) # stk)) a \<longrightarrow>
          snd st' a = (\<lambda>a. if unat a \<in> blk (p, unat sz) then snd st' a else f a) a"
        using l(3) cov Cons.prems(5) by (auto simp: st)
      ultimately show ?thesis using Cons.IH [OF ops fs'] False l(1) by (simp add: OMalloc st)
    qed
  next
    case (OFree j)
    show ?thesis
    proof (cases "j < length stk")
      case False
      then show ?thesis using Cons.IH [OF ops Cons.prems(2-5)] OFree by simp
    next
      case True
      obtain p n where pn: "stk ! j = (p, n)" by (cases "stk ! j")
      have o: "objs_of fs = take j stk @ (p, n) # drop (Suc j) stk" using id_take_nth_drop [OF True] pn Cons.prems(3) by simp
      have "(p, n) \<in> set stk" using True pn by (metis nth_mem)
      then have "0 < n" using Cons.prems(4) by auto
      then obtain st' fs' where l: "obs_free (makeChunk malloc k) free k p ((ob, h), m) = Some st'" "obs_inv inv st' fs'"
        "objs_of fs' = drop (Suc j) stk" "\<forall>a. covered (chunk_blocks fs') a \<longrightarrow> snd st' a = m a"
        using obs_free_law [OF i o, of "makeChunk malloc k" k] by blast
      have "\<forall>(q, n) \<in> set (drop (Suc j) stk). 0 < n" using Cons.prems(4) by (auto dest: in_set_dropD)
      moreover have "snd st' a = f a" if c: "covered (set (drop (Suc j) stk)) a" for a
      proof -
        have "frames_ok fs'" using l(2) by (cases st') (auto simp: obs_inv_def)
        then have "snd st' a = m a" using objs_covered [of fs' a] c l(3,4) by simp
        moreover have "covered (set stk) a" using c by (rule covered_mono) (rule set_drop_subset)
        ultimately show ?thesis using Cons.prems(5) by (simp add: st)
      qed
      ultimately show ?thesis using Cons.IH [OF ops l(2,3)] True l(1) pn by (simp add: OFree st)
    qed
  next
    case (OWrite a v)
    show ?thesis
    proof (cases "covered (set stk) a")
      case False
      then show ?thesis using Cons.IH [OF ops Cons.prems(2-5)] OWrite st by simp
    next
      case True
      have "obs_inv inv ((ob, h), m(a := v)) fs" using obs_write [OF i] True Cons.prems(3) by simp
      moreover have "\<forall>b. covered (set stk) b \<longrightarrow> snd ((ob, h), m(a := v)) b = (f(a := v)) b" using Cons.prems(5) by (simp add: st)
      ultimately show ?thesis using Cons.IH [OF ops _ Cons.prems(3,4)] True by (simp add: OWrite st)
    qed
  qed
qed

text \<open>Growing the last object keeps its words, also when it moves to a new chunk, and all finished objects.\<close>

lemma memcpy_c_at: "j < n \<Longrightarrow> 4 \<le> unat n - unat j \<Longrightarrow> memcpy_c dst src n m (dst + j) = m (src + j)"
  by (simp add: memcpy_c_def Let_def)

lemma memcpy_c_outside: "unat dst + unat n < 2 ^ 32 \<Longrightarrow> unat a \<notin> blk (dst, unat n) \<Longrightarrow> memcpy_c dst src n m a = m a"
  using in_block [of dst n a] by (simp add: memcpy_c_def)

lemma obs_grow_law:
  assumes i: "obs_inv inv ((ob, h), m) fs" 
    and ok: "obs_ok oksize k (osz + sz + drop_bit 3 osz + 100)"
    and nowrap: "unat osz + unat sz + unat osz div 8 + 100 < 2 ^ 32"
    and osz_def: "osz = objectSize ob"
  shows "\<exists>p ob' h' m'. obs_grow (makeChunk malloc k) sz ((ob, h), m) = Some (p, ((ob', h'), m')) \<and>
    (p = 0 \<or> (\<exists>fs'. obs_inv inv ((ob', h'), m') fs' \<and> objs_of fs' = objs_of fs) \<and>
      ob_next ob' = p + sz \<and> objectSize ob' = osz + sz \<and>
      (\<forall>j. j < osz \<and> 4 \<le> unat osz - unat j \<longrightarrow> m' (getObjectBase ob' + j) = m (getObjectBase ob + j)) \<and>
      (\<forall>a. covered (set (objs_of fs)) a \<longrightarrow> m' a = m a))"
  using i
proof (cases rule: obs_invD)
  case (1 c n os fs')
  have room: "unat (obs_room ob m) = unat c + 8 + unat n - unat (ob_next ob)"
    using 1 by (simp add: obs_room_def getLimit_def unat_sub word_le_nat_alt)
  have us: "unat osz = unat (ob_next ob) - unat (ob_base ob)"
    using 1 by (simp add: osz_def objectSize_def unat_sub word_le_nat_alt)
  have lt: "unat c + 8 + unat n < 2 ^ 32" using 1(7) by (simp add: ok_block_def)
  show ?thesis
  proof (cases "obs_room ob m < sz")
    case False
    let ?ob = "ob\<lparr>ob_next := ob_next ob + sz\<rparr>"
    have r: "unat (ob_next ob) + unat sz \<le> unat c + 8 + unat n" using room 1 False by (simp add: word_less_nat_alt)
    then have "unat (ob_next ob + sz) = unat (ob_next ob) + unat sz" using lt by (simp add: unat_add_nowrap)
    then have "obs_inv inv ((?ob, h), m) fs" using i r 1(1,12) by (simp add: obs_inv_def)
    moreover have "obs_grow (makeChunk malloc k) sz ((ob, h), m) = Some (ob_next ob, ((?ob, h), m))"
      using False 1 by (simp add: obs_grow_def Let_def)
    ultimately show ?thesis by (auto simp: osz_def objectSize_def getObjectBase_def)
  next
    case True
    define req where "req = osz + sz + drop_bit 3 osz + 100"
    let ?a = "obs_allocSize k req"
    obtain q h1 m1 where mk: "makeChunk malloc k c req (h, m) = Some (q, (h1, m1))"
      "if q = 0 then inv (h1, m1) (chunk_blocks fs)
       else inv (h1, m1) (insert (q, 8 + unat ?a) (chunk_blocks fs)) \<and> (q, 8 + unat ?a) \<notin> chunk_blocks fs \<and>
         m1 q = q + 8 + ?a \<and> m1 (q + 4) = c"
      "\<forall>a. covered (chunk_blocks fs) a \<longrightarrow> m1 a = m a"
      using makeChunk_law [OF 1(4) ok, of c] unfolding req_def by (metis surj_pair snd_conv)
    show ?thesis
    proof (cases "q = 0")
      case True
      then show ?thesis using \<open>obs_room ob m < sz\<close> 1 mk(1)
        by (auto simp: obs_grow_def obs_copyToNew_def Let_def req_def osz_def)
    next
      case False
      let ?fs = "(q, ?a, []) # fs" and ?m = "memcpy_c (q + 8) (ob_base ob) osz m1"
      let ?ob = "\<lparr>ob_base = q + 8, ob_next = q + 8 + osz + sz, ob_chunk = q\<rparr>"
      have v: "inv (h1, m1) (chunk_blocks ?fs)" "(q, 8 + unat ?a) \<notin> chunk_blocks fs" using mk(2) False by simp_all
      have okq: "ok_block (q, 8 + unat ?a)" and ap: "\<forall>b \<in> chunk_blocks fs. blk (q, 8 + unat ?a) \<inter> blk b = {}"
        using inv_blocks [OF v(1)] v(2) by (auto simp: ok_blocks_insert)
      have al: "8 dvd unat ?a" "unat req \<le> unat ?a" using ok unat_allocSize [of k req] by (simp_all add: obs_ok_def req_def)
      have "unat (drop_bit 3 osz) = unat osz div 8" by (simp only: unat_drop_bit_eq) (simp add: drop_bit_eq_div)
      then have ur: "unat req = unat osz + unat sz + unat osz div 8 + 100"
        using nowrap by (simp add: req_def unat_add_nowrap)
      have uq: "unat (q + 8) = unat q + 8" "unat q + 8 + unat ?a < 2 ^ 32" using frame_words(4) [OF okq] okq by (simp_all add: ok_block_def)
      have un: "unat (q + 8 + osz + sz) = unat q + 8 + unat osz + unat sz" using uq ur al(2) by (simp add: unat_add_nowrap)
      have sub: "blk (q + 8, unat osz) \<subseteq> blk (q, 8 + unat ?a)" using ur al(2) uq by (auto simp: blk_def)
      have out: "?m a = m1 a" if "unat a \<notin> blk (q + 8, unat osz)" for a
        using memcpy_c_outside [OF _ that] uq ur al(2) by simp
      have old: "?m a = m a" if "covered (chunk_blocks fs) a" for a
      proof -
        have "unat a \<notin> blk (q, 8 + unat ?a)" using ap that by (auto simp: covered_def)
        then have "unat a \<notin> blk (q + 8, unat osz)" using sub by blast
        then show ?thesis using out mk(3) that by simp
      qed
      have "chunk_chain ?m fs" using chunk_chain_frame [of fs ?m m] inv_blocks [OF 1(4)] old 1(5) by simp
      moreover have "?m q = m1 q" "?m (q + 4) = m1 (q + 4)"
        using frame_words(2) [OF okq] uq(1) by (auto intro!: out simp: blk_def)
      moreover have "stacked (unat c + 8) (unat c + 8 + unat n) os" using stacked_mono [OF 1(11)] 1(12,13) by simp
      moreover have "inv (h1, ?m) (chunk_blocks ?fs)"
      proof (rule inv_frame [OF v(1)])
        fix a assume "\<not> covered (chunk_blocks ?fs) a"
        then show "?m a = m1 a" using sub by (intro out) auto
      qed
      ultimately have "obs_inv inv ((?ob, h1), ?m) ?fs"
        using v mk(2) False al 1 uq un ur by (simp add: obs_inv_def)
      moreover have "obs_grow (makeChunk malloc k) sz ((ob, h), m) = Some (q + 8 + osz, ((?ob, h1), ?m))"
        using \<open>obs_room ob m < sz\<close> 1 mk(1) False
        by (simp add: obs_grow_def obs_copyToNew_def Let_def req_def osz_def sizeof_ChunkHeader_def)
      moreover have "q + 8 + osz \<noteq> 0"
      proof -
        have "unat (q + 8 + osz) = unat q + 8 + unat osz" using uq ur al(2) by (simp add: unat_add_nowrap)
        then show ?thesis by auto
      qed
      moreover have "?m (q + 8 + j) = m (ob_base ob + j)" if j: "j < osz" "4 \<le> unat osz - unat j" for j
      proof -
        have "unat j < unat osz" using j(1) by (simp add: word_less_nat_alt)
        moreover have "unat c + 8 \<le> unat (ob_base ob)" using stacked_le [OF 1(11)] .
        ultimately have "unat (ob_base ob + j) = unat (ob_base ob) + unat j" "unat (ob_base ob) + unat j < unat c + 8 + unat n"
          "unat c \<le> unat (ob_base ob) + unat j"
          using us 1(12,13) lt by (simp_all add: unat_add_nowrap)
        then have "covered (chunk_blocks fs) (ob_base ob + j)" by (simp add: 1(1) blk_def)
        then show ?thesis using memcpy_c_at [OF j] mk(3) by simp
      qed
      moreover have "?m a = m a" if "covered (set (objs_of fs)) a" for a using objs_covered [OF 1(6) that] by (rule old)
      ultimately show ?thesis by (intro exI [of _ "q + 8 + osz"] exI [of _ ?ob] exI [of _ h1] exI [of _ ?m])
          (auto simp: objectSize_def getObjectBase_def osz_def intro!: exI [of _ ?fs])
    qed
  qed
qed

end

section \<open>Running out of memory\<close>

text \<open>
  When a new chunk cannot be had, \<open>malloc\<close> forgets the chunks it has: freeing any object then aborts the program.
\<close>

theorem obs_malloc_failure_forgets:
  assumes "obs_malloc mk sz ((ob, h), m) = Some (0, ((ob', h'), m'))" and "ob_chunk ob \<noteq> 0" and "ob_next ob \<noteq> 0" and "ptr \<noteq> 0"
    and "\<And>ch n s. mk ch n s = Some (0, s') \<or> mk ch n s = None"
  shows "ob_chunk ob' = 0 \<and> obs_free mk sfree k ptr ((ob', h'), m') = None"
proof -
  have "ob_chunk ob' = 0"
  proof (cases "obs_room ob m < sz")
    case False
    then show ?thesis using assms(1-3) by (simp add: obs_malloc_def Let_def obs_finalize_def)
  next
    case True
    then show ?thesis using assms(1,2) assms(5) [of "ob_chunk ob" sz "(h, m)"]
      by (auto simp: obs_malloc_def Let_def split: prod.splits)
  qed
  moreover have "obs_free_chunks sfree ptr 0 (h', m') = Some (0, (h', m'))" by (subst obs_free_chunks.simps) simp
  ultimately show ?thesis using assms(4) by (simp add: obs_free_def)
qed

section \<open>Properties\<close>



end
