(* ===== verification/Hl_Nest.thy ===== *)
theory Hl_Nest
  imports Hl_Layers
begin

text \<open>
  More layers over given heaps: \<open>heaplayers/firstfitheap.h\<close>, which keeps freed objects in the order of their addresses,
  the hierarchical heaps of \<open>heaplayers/nestedheap.h\<close>, the shared instances of \<open>heaplayers/uniqueheap.h\<close>,
  \<open>heaplayers/oneheap.h\<close> and \<open>heaplayers/perclassheap.h\<close>, the heaps with an owner of \<open>heaplayers/phothreadheap.h\<close>, the
  accounting of \<open>heaplayers/profileheap.h\<close> and the padding of \<open>heaplayers/padheap.h\<close>.
\<close>

section \<open>\<open>FirstFitHeap\<close>\<close>

text \<open>Links are the first words of the free objects, as in \<open>FreeSLList\<close>.\<close>

definition FirstFitHeap_new :: u32 where "FirstFitHeap_new = 0"

text \<open>The first object that is large enough, and the one before it.\<close>

partial_function (option) ff_find :: "(u32 \<Rightarrow> u32) \<Rightarrow> u32 \<Rightarrow> hmem \<Rightarrow> u32 \<Rightarrow> u32 \<Rightarrow> (u32 \<times> u32) option" where
  "ff_find getSize sz m prev p =
     (if p \<noteq> 0 \<and> getSize p < sz then ff_find getSize sz m p (m p) else Some (prev, p))"

definition FirstFitHeap_malloc ::
  "(u32 \<Rightarrow> u32) \<Rightarrow> (u32 \<Rightarrow> 'h hstate \<Rightarrow> (u32 \<times> 'h hstate) option) \<Rightarrow> u32 \<Rightarrow> (u32 \<times> 'h) hstate
   \<Rightarrow> (u32 \<times> (u32 \<times> 'h) hstate) option" where
  "FirstFitHeap_malloc getSize smalloc sz = (\<lambda>((fl, h), m).
     let super = (\<lambda>_. map_option (\<lambda>(ptr, (h, m)). (ptr, ((fl, h), m))) (smalloc sz (h, m)))
     in if fl = 0 then super ()
        else Option.bind (ff_find getSize sz m 0 fl) (\<lambda>(prev, p).
          if p = 0 then super ()
          else if prev = 0 then Some (p, ((m p, h), m))
          else Some (p, ((fl, h), m(prev := m p)))))"

partial_function (option) ff_place :: "u32 \<Rightarrow> hmem \<Rightarrow> u32 \<Rightarrow> u32 \<Rightarrow> u32 option" where
  "ff_place ptr m prev p = (if p \<noteq> 0 \<and> p \<le> ptr then ff_place ptr m p (m p) else Some prev)"

definition FirstFitHeap_free :: "u32 \<Rightarrow> (u32 \<times> 'h) hstate \<Rightarrow> (u32 \<times> 'h) hstate option" where
  "FirstFitHeap_free ptr = (\<lambda>((fl, h), m).
     map_option (\<lambda>prev.
       if prev = 0 then ((ptr, h), m(ptr := fl))
       else let m = m(ptr := m prev) in ((fl, h), m(prev := ptr)))
     (ff_place ptr m 0 fl))"

definition FirstFitHeap_delete :: "(u32 \<Rightarrow> 'h hstate \<Rightarrow> 'h hstate option) \<Rightarrow> nat \<Rightarrow> (u32 \<times> 'h) hstate \<Rightarrow> 'h hstate option" where
  "FirstFitHeap_delete sfree n = (\<lambda>((fl, h), m). map_option (\<lambda>((_, h), m). (h, m)) (FreelistHeap_clear sfree n ((fl, h), m)))"

text \<open>The list in memory, in order of addresses.\<close>

definition ff_repr :: "u32 \<Rightarrow> hmem \<Rightarrow> u32 list \<Rightarrow> bool" where
  "ff_repr fl m es \<longleftrightarrow> sl_repr (fl, m) es \<and> sorted es"

definition last_or :: "u32 \<Rightarrow> u32 list \<Rightarrow> u32" where
  "last_or d es = (if es = [] then d else last es)"

lemma last_or_simps [simp]: "last_or d [] = d" "last_or d (es @ [e]) = e" "last_or d (a # es) = last_or a es"
  by (simp_all add: last_or_def)

lemma ff_find_spec:
  "sl_chain m es \<Longrightarrow> ff_find getSize sz m prev (hd_or_0 es) =
     Some (last_or prev (takeWhile (\<lambda>e. getSize e < sz) es), hd_or_0 (dropWhile (\<lambda>e. getSize e < sz) es))"
proof (induction es arbitrary: prev)
  case Nil
  then show ?case by (subst ff_find.simps) simp
next
  case (Cons e es)
  then show ?case by (subst ff_find.simps) simp
qed

lemma ff_place_spec:
  "sl_chain m es \<Longrightarrow> ff_place ptr m prev (hd_or_0 es) = Some (last_or prev (takeWhile (\<lambda>e. e \<le> ptr) es))"
proof (induction es arbitrary: prev)
  case Nil
  then show ?case by (subst ff_place.simps) simp
next
  case (Cons e es)
  then show ?case by (subst ff_place.simps) simp
qed

lemma sl_chain_unlink:
  "sl_chain m (xs @ a # p # ys) \<Longrightarrow> distinct (xs @ a # p # ys) \<Longrightarrow> sl_chain (m(a := m p)) (xs @ a # ys)"
proof (induction xs)
  case (Cons x xs)
  then show ?case by (cases xs) auto
qed simp

lemma sl_chain_link:
  "sl_chain m (xs @ a # ys) \<Longrightarrow> distinct (xs @ a # p # ys) \<Longrightarrow> p \<noteq> 0 \<Longrightarrow> sl_chain (m(p := m a, a := p)) (xs @ a # p # ys)"
proof (induction xs)
  case (Cons x xs)
  then show ?case by (cases xs) auto
qed auto

lemma sl_repr_nonnull: "sl_repr d es \<Longrightarrow> 0 \<notin> set es"
  by (cases d) (auto simp: sl_repr_def dest: sl_chain_nonnull)

text \<open>An allocation takes the object with the lowest address that is large enough.\<close>

lemma FirstFitHeap_malloc_first:
  assumes r: "ff_repr fl m es" and e: "es = xs @ p # ys" and x: "\<forall>x \<in> set xs. getSize x < sz" and p: "sz \<le> getSize p"
  shows "\<exists>fl' m'. FirstFitHeap_malloc getSize smalloc sz ((fl, h), m) = Some (p, ((fl', h), m')) \<and> ff_repr fl' m' (xs @ ys) \<and>
    (\<forall>a. a \<notin> set es \<longrightarrow> m' a = m a)"
proof -
  have "es \<noteq> [] \<Longrightarrow> hd_or_0 es \<in> set es" by (cases es) simp_all
  then have "hd_or_0 es \<in> set es" using e by simp
  then have c: "sl_chain m es" "fl = hd_or_0 es" "distinct es" "sorted es" "fl \<noteq> 0" "p \<noteq> 0"
    using r sl_repr_nonnull [of "(fl, m)" es] e by (auto simp: ff_repr_def sl_repr_def)
  have w: "takeWhile (\<lambda>e. getSize e < sz) es = xs" "dropWhile (\<lambda>e. getSize e < sz) es = p # ys"
    using x p unfolding e by (auto simp: takeWhile_append2 dropWhile_append2)
  then have f: "ff_find getSize sz m 0 fl = Some (last_or 0 xs, p)" using ff_find_spec [OF c(1), of getSize sz 0] c(2) by simp
  have s: "sorted (xs @ ys)" "distinct (xs @ ys)" using c(3,4) unfolding e by (auto simp: sorted_append)
  show ?thesis
  proof (cases xs rule: rev_cases)
    case Nil
    then have "FirstFitHeap_malloc getSize smalloc sz ((fl, h), m) = Some (p, ((m p, h), m))"
      using f c(5,6) by (simp add: FirstFitHeap_malloc_def Let_def)
    moreover have "ff_repr (m p) m ys" using c(1) s Nil unfolding e by (simp add: ff_repr_def sl_repr_def)
    ultimately show ?thesis using Nil by auto
  next
    case (snoc zs a)
    have a: "a \<noteq> 0" using sl_chain_nonnull [OF c(1)] e snoc by auto
    have "FirstFitHeap_malloc getSize smalloc sz ((fl, h), m) = Some (p, ((fl, h), m(a := m p)))"
      using f c(5,6) a snoc by (simp add: FirstFitHeap_malloc_def Let_def)
    moreover have "sl_chain (m(a := m p)) (zs @ a # ys)" using c(1,3) snoc unfolding e by (intro sl_chain_unlink) auto
    then have "ff_repr fl (m(a := m p)) (xs @ ys)" using s c(2) snoc unfolding e ff_repr_def sl_repr_def by (cases zs) auto
    ultimately show ?thesis using e snoc by auto
  qed
qed

lemma FirstFitHeap_malloc_none:
  assumes r: "ff_repr fl m es" and x: "\<forall>x \<in> set es. getSize x < sz"
  shows "FirstFitHeap_malloc getSize smalloc sz ((fl, h), m) = map_option (\<lambda>(ptr, (h, m)). (ptr, ((fl, h), m))) (smalloc sz (h, m))"
proof -
  have c: "sl_chain m es" "fl = hd_or_0 es" using r by (auto simp: ff_repr_def sl_repr_def)
  have w: "takeWhile (\<lambda>e. getSize e < sz) es = es" "dropWhile (\<lambda>e. getSize e < sz) es = []" using x by simp_all
  show ?thesis using ff_find_spec [OF c(1), of getSize sz 0] c(2) w by (simp add: FirstFitHeap_malloc_def Let_def)
qed

text \<open>A freed object gets the place of its address.\<close>

lemma FirstFitHeap_free_sorted:
  assumes r: "ff_repr fl m es" and p: "ptr \<noteq> 0" "ptr \<notin> set es"
  shows "\<exists>fl' m'. FirstFitHeap_free ptr ((fl, h), m) = Some ((fl', h), m') \<and> ff_repr fl' m' (insort ptr es) \<and>
    (\<forall>a. a \<notin> set (ptr # es) \<longrightarrow> m' a = m a)"
proof -
  have c: "sl_chain m es" "fl = hd_or_0 es" "distinct es" "sorted es" using r by (auto simp: ff_repr_def sl_repr_def)
  define xs ys where "xs = takeWhile (\<lambda>e. e \<le> ptr) es" and "ys = dropWhile (\<lambda>e. e \<le> ptr) es"
  have e: "es = xs @ ys" by (simp add: xs_def ys_def)
  have ins: "insort ptr es = xs @ ptr # ys"
  proof -
    have x: "x < ptr" if "x \<in> set xs" for x
    proof -
      have "x \<in> set es" "x \<le> ptr" using that unfolding xs_def by (blast dest: set_takeWhileD)+
      then show ?thesis using p(2) by (metis le_neq_trans)
    qed
    have "(\<And>x. x \<in> set zs \<Longrightarrow> x < ptr) \<Longrightarrow> insort ptr (zs @ ys) = zs @ insort ptr ys" for zs
      by (induction zs) (auto simp: less_le_not_le)
    then have "insort ptr (xs @ ys) = xs @ insort ptr ys" using x by blast
    moreover have "insort ptr ys = ptr # ys"
    proof (cases ys)
      case (Cons b bs)
      then have "\<not> b \<le> ptr" unfolding ys_def by (metis dropWhile_eq_Cons_conv)
      then show ?thesis by (simp add: Cons not_le less_imp_le)
    qed simp
    ultimately show ?thesis by (simp add: e)
  qed
  have f: "ff_place ptr m 0 fl = Some (last_or 0 xs)" using ff_place_spec [OF c(1), of ptr 0] c(2) by (simp add: xs_def)
  have s: "sorted (insort ptr es)" "distinct (insort ptr es)" using c(3,4) p(2) by (simp_all add: sorted_insort distinct_insort)
  show ?thesis
  proof (cases xs rule: rev_cases)
    case Nil
    then have "FirstFitHeap_free ptr ((fl, h), m) = Some ((ptr, h), m(ptr := fl))" using f by (simp add: FirstFitHeap_free_def)
    moreover have "sl_chain (m(ptr := fl)) (ptr # ys)" using c(1,2) p e Nil by simp
    ultimately show ?thesis using s ins Nil by (auto simp: ff_repr_def sl_repr_def)
  next
    case (snoc zs a)
    have a: "a \<noteq> 0" using sl_chain_nonnull [OF c(1)] e snoc by auto
    have "FirstFitHeap_free ptr ((fl, h), m) = Some ((fl, h), m(ptr := m a, a := ptr))"
      using f a snoc by (simp add: FirstFitHeap_free_def Let_def)
    moreover have "sl_chain (m(ptr := m a, a := ptr)) (zs @ a # ptr # ys)"
      using c(1,3) p e snoc by (intro sl_chain_link) auto
    then have "ff_repr fl (m(ptr := m a, a := ptr)) (insort ptr es)"
      using s c(2) snoc e unfolding ins ff_repr_def sl_repr_def by (cases zs) auto
    ultimately show ?thesis using e snoc by auto
  qed
qed

section \<open>\<open>NestedHeap\<close>\<close>

text \<open>The links of the heaps by address, and the states of their super heaps.\<close>

record nlinks =
  nh_parent :: u32
  nh_child :: u32
  nh_prev :: u32
  nh_next :: u32

type_synonym nlinks_of = "u32 \<Rightarrow> nlinks"

definition NestedHeap_new :: nlinks where
  "NestedHeap_new = \<lparr>nh_parent = 0, nh_child = 0, nh_prev = 0, nh_next = 0\<rparr>"

definition nset_prev :: "u32 \<Rightarrow> u32 \<Rightarrow> nlinks_of \<Rightarrow> nlinks_of" where "nset_prev a v n = n(a := n a\<lparr>nh_prev := v\<rparr>)"
definition nset_next :: "u32 \<Rightarrow> u32 \<Rightarrow> nlinks_of \<Rightarrow> nlinks_of" where "nset_next a v n = n(a := n a\<lparr>nh_next := v\<rparr>)"
definition nset_child :: "u32 \<Rightarrow> u32 \<Rightarrow> nlinks_of \<Rightarrow> nlinks_of" where "nset_child a v n = n(a := n a\<lparr>nh_child := v\<rparr>)"
definition nset_parent :: "u32 \<Rightarrow> u32 \<Rightarrow> nlinks_of \<Rightarrow> nlinks_of" where "nset_parent a v n = n(a := n a\<lparr>nh_parent := v\<rparr>)"

lemmas nested_sets = nset_prev_def nset_next_def nset_child_def nset_parent_def

lemma nested_set_simps [simp]:
  "nh_prev (nset_prev a v n b) = (if b = a then v else nh_prev (n b))"
  "nh_prev (nset_next a v n b) = nh_prev (n b)"
  "nh_prev (nset_child a v n b) = nh_prev (n b)"
  "nh_prev (nset_parent a v n b) = nh_prev (n b)"
  "nh_next (nset_prev a v n b) = nh_next (n b)"
  "nh_next (nset_next a v n b) = (if b = a then v else nh_next (n b))"
  "nh_next (nset_child a v n b) = nh_next (n b)"
  "nh_next (nset_parent a v n b) = nh_next (n b)"
  "nh_child (nset_prev a v n b) = nh_child (n b)"
  "nh_child (nset_next a v n b) = nh_child (n b)"
  "nh_child (nset_child a v n b) = (if b = a then v else nh_child (n b))"
  "nh_child (nset_parent a v n b) = nh_child (n b)"
  "nh_parent (nset_prev a v n b) = nh_parent (n b)"
  "nh_parent (nset_next a v n b) = nh_parent (n b)"
  "nh_parent (nset_child a v n b) = nh_parent (n b)"
  "nh_parent (nset_parent a v n b) = (if b = a then v else nh_parent (n b))"
  by (simp_all add: nested_sets)

definition addChild :: "u32 \<Rightarrow> u32 \<Rightarrow> nlinks_of \<Rightarrow> nlinks_of" where
  "addChild this ch n =
     (let n = (if nh_child (n this) = 0 then
                 let n = nset_child this ch n;
                     n = nset_prev (nh_child (n this)) 0 n
                 in nset_next (nh_child (n this)) 0 n
               else
                 let n = nset_prev ch 0 n;
                     n = nset_next ch (nh_child (n this)) n;
                     n = nset_prev (nh_child (n this)) ch n
                 in nset_child this ch n)
      in nset_parent (nh_child (n this)) this n)"

definition removeSibling :: "u32 \<Rightarrow> nlinks_of \<Rightarrow> nlinks_of" where
  "removeSibling sib n =
     (let n = (if nh_prev (n sib) \<noteq> 0 then nset_next (nh_prev (n sib)) (nh_next (n sib)) n else n)
      in if nh_next (n sib) \<noteq> 0 then nset_prev (nh_next (n sib)) (nh_prev (n sib)) n else n)"

definition removeChild :: "u32 \<Rightarrow> u32 \<Rightarrow> nlinks_of \<Rightarrow> nlinks_of" where
  "removeChild this ch n =
     (let n = (if nh_child (n this) = ch then
                 if nh_prev (n ch) \<noteq> 0 then nset_child this (nh_prev (n ch)) n
                 else if nh_next (n ch) \<noteq> 0 then nset_child this (nh_next (n ch)) n
                 else nset_child this 0 n
               else n)
      in removeSibling ch n)"

text \<open>\<open>clear\<close> and its loop over the children: \<open>sclear a\<close> is the \<open>clear\<close> of the super heap at \<open>a\<close>. It changes no link.\<close>

partial_function (option) nested_clear :: "(u32 \<Rightarrow> 's \<Rightarrow> 's) \<Rightarrow> nlinks_of \<Rightarrow> bool \<Rightarrow> u32 \<Rightarrow> 's \<Rightarrow> 's option" where
  "nested_clear sclear n loop a s =
     (if loop then
        if a \<noteq> 0 then
          let nextChild = nh_next (n a)
          in Option.bind (nested_clear sclear n False a s) (nested_clear sclear n True nextChild)
        else Some s
      else nested_clear sclear n True (nh_child (n a)) (sclear a s))"

definition NestedHeap_clear :: "(u32 \<Rightarrow> 's \<Rightarrow> 's) \<Rightarrow> nlinks_of \<Rightarrow> u32 \<Rightarrow> 's \<Rightarrow> 's option" where
  "NestedHeap_clear sclear n this = nested_clear sclear n False this"

definition NestedHeap_delete :: "(u32 \<Rightarrow> 's \<Rightarrow> 's) \<Rightarrow> u32 \<Rightarrow> nlinks_of \<Rightarrow> 's \<Rightarrow> (nlinks_of \<times> 's) option" where
  "NestedHeap_delete sclear this n s =
     map_option (\<lambda>s.
       let n = (if nh_parent (n this) \<noteq> 0 then removeChild (nh_parent (n this)) this n else n)
       in (removeSibling this n, s))
     (NestedHeap_clear sclear n this s)"

text \<open>The hierarchy: a heap and its children, in the order of the list.\<close>

datatype htree = HT u32 "htree list"

fun root_of :: "htree \<Rightarrow> u32" where "root_of (HT a ts) = a"

definition first_root :: "htree list \<Rightarrow> u32" where
  "first_root ts = (case ts of [] \<Rightarrow> 0 | t # _ \<Rightarrow> root_of t)"

lemma first_root_simps [simp]: "first_root [] = 0" "first_root (t # ts) = root_of t"
  by (simp_all add: first_root_def)

fun heaps :: "htree \<Rightarrow> u32 list" where
  "heaps (HT a ts) = a # concat (map heaps ts)"

text \<open>\<open>siblings n p par ts\<close>: the children \<open>ts\<close> of \<open>par\<close> from the one behind \<open>p\<close> on are linked in both directions.\<close>

fun siblings :: "nlinks_of \<Rightarrow> u32 \<Rightarrow> u32 \<Rightarrow> u32 list \<Rightarrow> bool" where
  "siblings n p par [] \<longleftrightarrow> True"
| "siblings n p par (a # as) \<longleftrightarrow> a \<noteq> 0 \<and> nh_parent (n a) = par \<and> nh_prev (n a) = p \<and> nh_next (n a) = hd_or_0 as \<and> siblings n a par as"

fun hier :: "nlinks_of \<Rightarrow> htree \<Rightarrow> bool" where
  "hier n (HT a ts) \<longleftrightarrow> a \<noteq> 0 \<and> nh_child (n a) = first_root ts \<and> siblings n 0 a (map root_of ts) \<and> (\<forall>t \<in> set ts. hier n t)"

lemma root_in_heaps [simp]: "root_of t \<in> set (heaps t)"
  by (cases t) simp

lemma first_root_hd: "first_root ts = hd_or_0 (map root_of ts)"
  by (cases ts) simp_all

text \<open>\<open>clear\<close> ends, and clears the heap and everything below it, each heap once and before its children.\<close>

lemma nested_clear_loop:
  "(\<And>t s. t \<in> set ts \<Longrightarrow> nested_clear sclear n False (root_of t) s = Some (fold sclear (heaps t) s)) \<Longrightarrow>
   siblings n p par (map root_of ts) \<Longrightarrow>
   nested_clear sclear n True (first_root ts) s = Some (fold sclear (concat (map heaps ts)) s)"
proof (induction ts arbitrary: p s)
  case Nil
  then show ?case by (subst nested_clear.simps) simp
next
  case (Cons t ts)
  have "root_of t \<noteq> 0" "nh_next (n (root_of t)) = first_root ts" using Cons.prems(2) by (simp_all add: first_root_hd)
  then have "nested_clear sclear n True (root_of t) s = Option.bind (nested_clear sclear n False (root_of t) s) (nested_clear sclear n True (first_root ts))"
    by (subst nested_clear.simps) (simp add: Let_def)
  also have "\<dots> = nested_clear sclear n True (first_root ts) (fold sclear (heaps t) s)" using Cons.prems(1) by simp
  also have "\<dots> = Some (fold sclear (concat (map heaps ts)) (fold sclear (heaps t) s))"
    using Cons.prems by (intro Cons.IH [of "root_of t"]) auto
  finally show ?case by simp
qed

lemma nested_clear_tree: "hier n t \<Longrightarrow> nested_clear sclear n False (root_of t) s = Some (fold sclear (heaps t) s)"
proof (induction t arbitrary: s)
  case (HT a ts)
  have "nested_clear sclear n False a s = nested_clear sclear n True (first_root ts) (sclear a s)"
    using HT.prems by (subst nested_clear.simps) simp
  also have "\<dots> = Some (fold sclear (concat (map heaps ts)) (sclear a s))"
    using HT by (intro nested_clear_loop [where p = 0 and par = a]) auto
  finally show ?case by simp
qed

text \<open>The links of a hierarchy are those of its heaps.\<close>

lemma siblings_frame:
  "(\<And>a. a \<in> set as \<Longrightarrow> nh_parent (n' a) = nh_parent (n a) \<and> nh_prev (n' a) = nh_prev (n a) \<and> nh_next (n' a) = nh_next (n a)) \<Longrightarrow>
   siblings n' p par as = siblings n p par as"
  by (induction as arbitrary: p) auto

text \<open>The children of a heap, newest first.\<close>

definition children :: "nlinks_of \<Rightarrow> u32 \<Rightarrow> u32 list \<Rightarrow> bool" where
  "children n a as \<longleftrightarrow> nh_child (n a) = hd_or_0 as \<and> siblings n 0 a as"

lemma siblings_nonnull: "siblings n p par as \<Longrightarrow> 0 \<notin> set as"
  by (induction as arbitrary: p) auto

lemma siblings_middle:
  "siblings n p par (xs @ c # ys) \<Longrightarrow> nh_prev (n c) = last (p # xs) \<and> nh_next (n c) = hd_or_0 ys"
  by (induction xs arbitrary: p) auto

lemma addChild_fields:
  fixes a ch n
  assumes "ch \<noteq> 0" and "nh_child (n a) \<noteq> ch"
  shows "nh_child (addChild a ch n b) = (if b = a then ch else nh_child (n b))"
    and "nh_parent (addChild a ch n b) = (if b = ch then a else nh_parent (n b))"
    and "nh_prev (addChild a ch n b) = (if b = ch then 0 else if b = nh_child (n a) \<and> b \<noteq> 0 then ch else nh_prev (n b))"
    and "nh_next (addChild a ch n b) = (if b = ch then nh_child (n a) else nh_next (n b))"
  using assms by (simp_all add: addChild_def Let_def)

lemma addChild_children:
  assumes c: "children n a as" and ch: "ch \<noteq> 0" "ch \<notin> set as" and d: "distinct as"
  shows "children (addChild a ch n) a (ch # as)"
proof -
  have "nh_child (n a) \<noteq> ch" using c ch by (cases as) (auto simp: children_def)
  note f = addChild_fields [where n = n and a = a, OF ch(1) this]
  have "siblings (addChild a ch n) ch a as"
  proof (cases as)
    case (Cons b bs)
    have "siblings (addChild a ch n) b a bs = siblings n b a bs"
      using c ch d Cons by (intro siblings_frame) (auto simp: f children_def)
    then show ?thesis using c ch Cons by (auto simp: children_def f)
  qed simp
  then show ?thesis using c ch by (simp add: children_def f)
qed

lemma removeChild_fields:
  fixes a ch n
  assumes "nh_prev (n ch) \<noteq> ch" and "nh_next (n ch) \<noteq> ch" and "nh_child (n a) = ch \<Longrightarrow> nh_prev (n ch) = 0"
  shows "nh_child (removeChild a ch n b) = (if b = a \<and> nh_child (n a) = ch then nh_next (n ch) else nh_child (n b))"
    and "nh_parent (removeChild a ch n b) = nh_parent (n b)"
    and "nh_prev (removeChild a ch n b) = (if b = nh_next (n ch) \<and> b \<noteq> 0 then nh_prev (n ch) else nh_prev (n b))"
    and "nh_next (removeChild a ch n b) = (if b = nh_prev (n ch) \<and> b \<noteq> 0 then nh_next (n ch) else nh_next (n b))"
  using assms by (simp_all add: removeChild_def removeSibling_def Let_def)

text \<open>Taking an element out of a list of siblings.\<close>

lemma siblings_remove:
  assumes "siblings n p par (xs @ c # ys)" and "distinct (xs @ c # ys)" and "p \<notin> set (xs @ c # ys)"
    and "\<And>b. nh_parent (n' b) = nh_parent (n b)"
    and "\<And>b. nh_prev (n' b) = (if b = nh_next (n c) \<and> b \<noteq> 0 then nh_prev (n c) else nh_prev (n b))"
    and "\<And>b. nh_next (n' b) = (if b = nh_prev (n c) \<and> b \<noteq> 0 then nh_next (n c) else nh_next (n b))"
  shows "siblings n' p par (xs @ ys)"
  using assms(1-3)
proof (induction xs arbitrary: p)
  case Nil
  have c: "nh_prev (n c) = p" "nh_next (n c) = hd_or_0 ys" using Nil(1) by simp_all
  show ?case
  proof (cases ys)
    case (Cons b bs)
    have z: "0 \<notin> set ys" using siblings_nonnull [OF Nil(1)] by simp
    have "siblings n' b par bs = siblings n b par bs"
      using Nil c Cons z by (intro siblings_frame) (auto simp: assms(4-6))
    then show ?thesis using Nil c Cons z by (auto simp: assms(4-6))
  qed simp
next
  case (Cons x xs)
  have z: "0 \<notin> set (x # xs @ c # ys)" using siblings_nonnull [OF Cons.prems(1)] by simp
  have "siblings n' x par (xs @ ys)" using Cons.prems by (intro Cons.IH) auto
  moreover have "nh_prev (n' x) = p \<and> nh_parent (n' x) = par \<and> nh_next (n' x) = hd_or_0 (xs @ ys)"
  proof -
    have l: "siblings n x par (xs @ c # ys)" using Cons.prems(1) by simp
    have pc: "nh_prev (n c) = last (x # xs)" "nh_next (n c) = hd_or_0 ys"
      using siblings_middle [OF l] by blast+
    then show ?thesis using Cons.prems z by (cases xs; cases ys) (auto simp: assms(4-6))
  qed
  ultimately show ?case using Cons.prems(1) by simp
qed

lemma removeChild_children:
  assumes c: "children n a (xs @ ch # ys)" and d: "distinct (xs @ ch # ys)"
  shows "children (removeChild a ch n) a (xs @ ys)"
    and "nh_prev (n ch) \<noteq> ch" "nh_next (n ch) \<noteq> ch" "nh_child (n a) = ch \<Longrightarrow> nh_prev (n ch) = 0"
proof -
  have s: "siblings n 0 a (xs @ ch # ys)" "nh_child (n a) = hd_or_0 (xs @ ch # ys)" using c by (simp_all add: children_def)
  have z: "0 \<notin> set (xs @ ch # ys)" by (rule siblings_nonnull [OF s(1)])
  have pc: "nh_prev (n ch) = last (0 # xs)" "nh_next (n ch) = hd_or_0 ys"
    using siblings_middle [OF s(1)] by blast+
  then show p: "nh_prev (n ch) \<noteq> ch" and q: "nh_next (n ch) \<noteq> ch" using z d by (cases xs; cases ys; auto)+
  show r: "nh_child (n a) = ch \<Longrightarrow> nh_prev (n ch) = 0" using s(2) pc d by (cases xs) auto
  note f = removeChild_fields [where n = n and a = a, OF p q r]
  have "siblings (removeChild a ch n) 0 a (xs @ ys)" using s(1) d z by (rule siblings_remove) (simp_all add: f)
  moreover have "nh_child (removeChild a ch n a) = hd_or_0 (xs @ ys)" using s(2) pc d by (cases xs) (auto simp: f)
  ultimately show "children (removeChild a ch n) a (xs @ ys)" by (simp add: children_def)
qed

text \<open>In a hierarchy whose heaps are all different, taking out a child leaves the rest as it was.\<close>

lemma hier_frame:
  "distinct (heaps t) \<Longrightarrow> (\<And>b. b \<in> set (heaps t) \<Longrightarrow> nh_child (n' b) = nh_child (n b)) \<Longrightarrow>
   (\<And>b. b \<in> set (heaps t) - {root_of t} \<Longrightarrow>
      nh_parent (n' b) = nh_parent (n b) \<and> nh_prev (n' b) = nh_prev (n b) \<and> nh_next (n' b) = nh_next (n b)) \<Longrightarrow>
   hier n' t = hier n t"
proof (induction t)
  case (HT a ts)
  have ne: "b \<noteq> a" if "t \<in> set ts" "b \<in> set (heaps t)" for t b using HT.prems(1) that by auto
  have "siblings n' 0 a (map root_of ts) = siblings n 0 a (map root_of ts)"
  proof (rule siblings_frame)
    fix b assume "b \<in> set (map root_of ts)"
    then obtain u where "u \<in> set ts" "b = root_of u" by auto
    then have "b \<in> set (heaps (HT a ts)) - {root_of (HT a ts)}" using ne [of u b] by (auto intro!: bexI [of _ u])
    then show "nh_parent (n' b) = nh_parent (n b) \<and> nh_prev (n' b) = nh_prev (n b) \<and> nh_next (n' b) = nh_next (n b)"
      by (rule HT.prems(3))
  qed
  moreover have "hier n' t = hier n t" if t: "t \<in> set ts" for t
  proof (rule HT.IH [OF t])
    show "distinct (heaps t)" using HT.prems(1) t by (auto simp: distinct_concat_iff)
    show "nh_child (n' b) = nh_child (n b)" if "b \<in> set (heaps t)" for b using HT.prems(2) that t by auto
    show "nh_parent (n' b) = nh_parent (n b) \<and> nh_prev (n' b) = nh_prev (n b) \<and> nh_next (n' b) = nh_next (n b)"
      if "b \<in> set (heaps t) - {root_of t}" for b
      using HT.prems(3) [of b] that t ne [OF t, of b] by auto
  qed
  ultimately show ?case using HT.prems(2) [of a] by (simp cong: ball_cong)
qed

lemma distinct_roots: "distinct (concat (map heaps ts)) \<Longrightarrow> distinct (map root_of ts)"
proof (induction ts)
  case (Cons t ts)
  have "root_of t \<noteq> root_of u" if "u \<in> set ts" for u
  proof
    assume "root_of t = root_of u"
    moreover have "root_of t \<in> set (heaps t)" "root_of u \<in> set (concat (map heaps ts))" using that by (simp, auto intro!: bexI [of _ u])
    ultimately show False using Cons.prems by auto
  qed
  then show ?case using Cons by auto
qed simp

lemma heaps_apart:
  "distinct (concat (map heaps ts)) \<Longrightarrow> u \<in> set ts \<Longrightarrow> v \<in> set ts \<Longrightarrow> v \<noteq> u \<Longrightarrow> b \<in> set (heaps u) \<Longrightarrow> b \<notin> set (heaps v)"
proof (induction ts)
  case (Cons t ts)
  have "c \<notin> set (heaps w)" if "w \<in> set ts" "c \<in> set (heaps t)" for w c using Cons.prems(1) that by auto
  then show ?case using Cons by auto
qed simp

lemma removeChild_hier:
  assumes h: "hier n (HT a (xs @ t # ys))" and d: "distinct (heaps (HT a (xs @ t # ys)))"
  shows "hier (removeChild a (root_of t) n) (HT a (xs @ ys))"
proof -
  let ?r = "map root_of" and ?n = "removeChild a (root_of t) n"
  have c: "children n a (?r xs @ root_of t # ?r ys)" using h by (simp add: children_def first_root_hd)
  have dr: "distinct (?r (xs @ t # ys))" using d by (intro distinct_roots) simp
  note rc = removeChild_children [OF c, simplified, OF dr [simplified]]
  note f = removeChild_fields [where n = n and a = a, OF rc(2-4)]
  have m: "nh_prev (n (root_of t)) \<in> insert 0 (set (?r xs))" "nh_next (n (root_of t)) \<in> insert 0 (set (?r ys))"
  proof -
    have "nh_prev (n (root_of t)) = last (0 # ?r xs)" "nh_next (n (root_of t)) = hd_or_0 (?r ys)"
      using siblings_middle [of n 0 a "?r xs" "root_of t" "?r ys"] c unfolding children_def by blast+
    then show "nh_prev (n (root_of t)) \<in> insert 0 (set (?r xs))" "nh_next (n (root_of t)) \<in> insert 0 (set (?r ys))"
      by (cases xs rule: rev_cases, simp_all) (cases ys, simp_all)
  qed
  have "hier ?n u" if u: "u \<in> set (xs @ ys)" for u
  proof -
    have dc: "distinct (concat (map heaps (xs @ ys)))" using d by auto
    have du: "distinct (heaps u)" using dc u by (auto simp: distinct_concat_iff)
    have au: "a \<notin> set (heaps u)" using d u by auto
    have "b = root_of u" if b: "b \<in> set (heaps u)" "b \<in> set (?r (xs @ ys))" for b
    proof -
      obtain v where v: "v \<in> set (xs @ ys)" "b = root_of v" using b(2) by auto
      then show ?thesis using heaps_apart [OF dc u v(1) _ b(1)] by (cases "v = u") auto
    qed
    then have "hier ?n u = hier n u" using m au by (intro hier_frame du) (auto simp: f)
    then show ?thesis using h u by auto
  qed
  then show ?thesis using rc(1) h by (simp add: children_def first_root_hd)
qed

section \<open>Shared instances\<close>

text \<open>
  \<open>UniqueHeap\<close> counts its instances. The super heap is a static object that is built once, and torn down when the
  count falls to zero; \<open>uq_state\<close> is its state, \<open>None\<close> after the destructor has run.
\<close>

record 'h unique =
  uq_refs :: int
  uq_state :: "'h option"
  uq_built :: bool

definition unique_start :: "'h unique" where
  "unique_start = \<lparr>uq_refs = 0, uq_state = None, uq_built = False\<rparr>"

definition getSuperHeap :: "'h \<Rightarrow> 'h unique \<Rightarrow> 'h unique" where
  "getSuperHeap new u = (if uq_built u then u else u\<lparr>uq_state := Some new, uq_built := True\<rparr>)"

definition addRef :: "'h unique \<Rightarrow> 'h unique" where "addRef u = u\<lparr>uq_refs := uq_refs u + 1\<rparr>"
definition delRef :: "'h unique \<Rightarrow> int \<times> 'h unique" where
  "delRef u = (let u = u\<lparr>uq_refs := uq_refs u - 1\<rparr> in (uq_refs u, u))"

definition UniqueHeap_new :: "'h \<Rightarrow> 'h unique \<Rightarrow> 'h unique" where
  "UniqueHeap_new new u = addRef (getSuperHeap new u)"

definition UniqueHeap_delete :: "'h \<Rightarrow> 'h unique \<Rightarrow> 'h unique" where
  "UniqueHeap_delete new u = (let (r, u) = delRef u in if r \<le> 0 then (getSuperHeap new u)\<lparr>uq_state := None\<rparr> else u)"

text \<open>A call is undefined (\<open>None\<close>) on a heap that was torn down.\<close>

definition UniqueHeap_malloc :: "'h \<Rightarrow> (u32 \<Rightarrow> 'h \<Rightarrow> u32 \<times> 'h) \<Rightarrow> u32 \<Rightarrow> 'h unique \<Rightarrow> (u32 \<times> 'h unique) option" where
  "UniqueHeap_malloc new smalloc sz u = (let u = getSuperHeap new u in
     map_option (\<lambda>h. let (p, h) = smalloc sz h in (p, u\<lparr>uq_state := Some h\<rparr>)) (uq_state u))"

definition UniqueHeap_free :: "'h \<Rightarrow> (u32 \<Rightarrow> 'h \<Rightarrow> 'h) \<Rightarrow> u32 \<Rightarrow> 'h unique \<Rightarrow> 'h unique option" where
  "UniqueHeap_free new sfree p u = (let u = getSuperHeap new u in map_option (\<lambda>h. u\<lparr>uq_state := Some (sfree p h)\<rparr>) (uq_state u))"

text \<open>As long as there is an instance the heap is there, but it does not come back: instances that are made later use the remains.\<close>

lemma UniqueHeap_alive:
  "uq_refs u = 0 \<and> \<not> uq_built u \<or> 0 < uq_refs u \<and> uq_built u \<and> uq_state u \<noteq> None \<Longrightarrow>
   0 < uq_refs (UniqueHeap_new new u) \<and> uq_state (UniqueHeap_new new u) \<noteq> None"
  by (auto simp: UniqueHeap_new_def getSuperHeap_def addRef_def)

theorem UniqueHeap_second_life:
  "UniqueHeap_malloc new smalloc sz (UniqueHeap_new new (UniqueHeap_delete new (UniqueHeap_new new unique_start))) = None"
  by (simp add: UniqueHeap_new_def UniqueHeap_delete_def UniqueHeap_malloc_def getSuperHeap_def addRef_def delRef_def
      unique_start_def Let_def)

text \<open>\<open>OneHeap\<close> and \<open>PerClassHeap\<close> send every call to the one static heap, whose state is that of the layer.\<close>

definition OneHeap_malloc :: "(u32 \<Rightarrow> 'h hstate \<Rightarrow> (u32 \<times> 'h hstate) option) \<Rightarrow> u32 \<Rightarrow> 'h hstate \<Rightarrow> (u32 \<times> 'h hstate) option" where
  "OneHeap_malloc smalloc sz st = smalloc sz st"
definition OneHeap_free :: "(u32 \<Rightarrow> 'h hstate \<Rightarrow> 'h hstate option) \<Rightarrow> u32 \<Rightarrow> 'h hstate \<Rightarrow> 'h hstate option" where
  "OneHeap_free sfree p st = sfree p st"
definition OneHeap_clear :: "('h hstate \<Rightarrow> 'h hstate) \<Rightarrow> 'h hstate \<Rightarrow> 'h hstate" where "OneHeap_clear sclear st = sclear st"
definition OneHeap_getSize :: "(u32 \<Rightarrow> 'h hstate \<Rightarrow> u32) \<Rightarrow> u32 \<Rightarrow> 'h hstate \<Rightarrow> u32" where "OneHeap_getSize sgetSize p st = sgetSize p st"

definition PerClassHeap_new :: "(u32 \<Rightarrow> 'h hstate \<Rightarrow> (u32 \<times> 'h hstate) option) \<Rightarrow> u32 \<Rightarrow> 'h hstate \<Rightarrow> (u32 \<times> 'h hstate) option" where
  "PerClassHeap_new smalloc sz st = smalloc sz st"
definition PerClassHeap_delete :: "(u32 \<Rightarrow> 'h hstate \<Rightarrow> 'h hstate option) \<Rightarrow> u32 \<Rightarrow> 'h hstate \<Rightarrow> 'h hstate option" where
  "PerClassHeap_delete sfree p st = sfree p st"
definition PerClassHeap_placement :: "u32 \<Rightarrow> u32 \<Rightarrow> u32" where "PerClassHeap_placement sz p = p"

section \<open>Padding\<close>

definition pad_roundup :: "u32 \<Rightarrow> u32 \<Rightarrow> u32" where
  "pad_roundup CacheLineSize sz = (sz + CacheLineSize - 1) AND NOT (CacheLineSize - 1)"

definition PadHeap_malloc :: "u32 \<Rightarrow> (u32 \<Rightarrow> 'h hstate \<Rightarrow> (u32 \<times> 'h hstate) option) \<Rightarrow> u32 \<Rightarrow> 'h hstate \<Rightarrow> (u32 \<times> 'h hstate) option" where
  "PadHeap_malloc CacheLineSize smalloc sz st = smalloc (pad_roundup CacheLineSize sz) st"

lemma pad_roundup_least:
  assumes "k < 32" and "unat sz + 2 ^ k - 1 < 2 ^ 32"
  shows "unat (pad_roundup (2 ^ k) sz) = round_up (2 ^ k) (unat sz)"
proof -
  have p: "(2 :: u32) ^ k - 1 = mask k" by (simp add: mask_eq_exp_minus_1)
  have m: "unat (mask k :: u32) = 2 ^ k - 1" 
  proof -
    have "(mask k :: u32) = of_nat (2 ^ k - 1)" by (simp add: mask_eq_exp_minus_1 of_nat_diff)
    moreover have "(2 :: nat) ^ k < 2 ^ 32" using assms(1) by (intro power_strict_increasing) auto
    ultimately show ?thesis by (metis unat_of_nat32 less_imp_diff_less)
  qed
  have e: "sz + 2 ^ k - 1 = sz + mask k" by (simp add: p [symmetric])
  have "unat (sz + mask k) = unat sz + (2 ^ k - 1)" using assms(2) m by (subst unat_add_nowrap) auto
  then show ?thesis unfolding pad_roundup_def p e by (simp only: unat_and_not_mask) (simp add: round_up_def)
qed

section \<open>Accounting\<close>

text \<open>\<open>memRequested\<close> and \<open>maxMemRequested\<close>, of type \<open>int\<close>, compared as signed words. The sizes are those the super heap reports, for \<open>NULL\<close> too.\<close>

type_synonym 'h profiled = "((u32 \<times> u32) \<times> 'h) hstate"

definition ProfileHeap_malloc ::
  "(u32 \<Rightarrow> 'h hstate \<Rightarrow> (u32 \<times> 'h hstate) option) \<Rightarrow> (u32 \<Rightarrow> 'h hstate \<Rightarrow> u32) \<Rightarrow> u32 \<Rightarrow> 'h profiled \<Rightarrow> (u32 \<times> 'h profiled) option" where
  "ProfileHeap_malloc smalloc sgetSize sz = (\<lambda>(((req, mx), h), m).
     map_option (\<lambda>(ptr, (h, m)).
       let req = req + sgetSize ptr (h, m);
           mx = (if word_sless mx req then req else mx)
       in (ptr, (((req, mx), h), m)))
     (smalloc sz (h, m)))"

definition ProfileHeap_free ::
  "(u32 \<Rightarrow> 'h hstate \<Rightarrow> 'h hstate option) \<Rightarrow> (u32 \<Rightarrow> 'h hstate \<Rightarrow> u32) \<Rightarrow> u32 \<Rightarrow> 'h profiled \<Rightarrow> 'h profiled option" where
  "ProfileHeap_free sfree sgetSize ptr = (\<lambda>(((req, mx), h), m).
     let req = req - sgetSize ptr (h, m)
     in map_option (\<lambda>(h, m). (((req, mx), h), m)) (sfree ptr (h, m)))"

section \<open>Heaps with an owner\<close>

definition MarkThreadHeap_malloc ::
  "nat \<Rightarrow> (u32 \<Rightarrow> 'h hstate \<Rightarrow> (u32 \<times> 'h hstate) option) \<Rightarrow> (u32 \<Rightarrow> int \<Rightarrow> 'h hstate \<Rightarrow> 'h hstate)
   \<Rightarrow> (u32 \<Rightarrow> int \<Rightarrow> 'h hstate \<Rightarrow> 'h hstate) \<Rightarrow> (u32 \<Rightarrow> 'h hstate \<Rightarrow> u32) \<Rightarrow> u32 \<Rightarrow> u32 \<Rightarrow> 'h hstate \<Rightarrow> (u32 \<times> 'h hstate) option" where
  "MarkThreadHeap_malloc NumHeaps smalloc setHeap setPrevHeap getNext pthread_self sz st =
     (let tid = c_rem (getThreadId pthread_self) (int NumHeaps)
      in map_option (\<lambda>(ptr, st).
           if ptr \<noteq> 0 then (ptr, let st = setHeap ptr tid st in setPrevHeap (getNext ptr st) tid st) else (ptr, st))
         (smalloc sz st))"

definition PHOThreadHeap_malloc ::
  "nat \<Rightarrow> (u32 \<Rightarrow> 'h hstate \<Rightarrow> (u32 \<times> 'h hstate) option) \<Rightarrow> u32 \<Rightarrow> u32 \<Rightarrow> (nat \<Rightarrow> 'h) hstate \<Rightarrow> (u32 \<times> (nat \<Rightarrow> 'h) hstate) option" where
  "PHOThreadHeap_malloc NumHeaps mmalloc pthread_self sz = (\<lambda>(hs, m).
     let tid = c_rem (getThreadId pthread_self) (int NumHeaps)
     in if tid < 0 then None
        else map_option (\<lambda>(ptr, (h, m)). (ptr, (hs(nat tid := h), m))) (mmalloc sz (hs (nat tid), m)))"

definition PHOThreadHeap_free ::
  "(u32 \<Rightarrow> (nat \<Rightarrow> 'h) hstate \<Rightarrow> int) \<Rightarrow> (u32 \<Rightarrow> 'h hstate \<Rightarrow> 'h hstate option) \<Rightarrow> u32 \<Rightarrow> (nat \<Rightarrow> 'h) hstate \<Rightarrow> (nat \<Rightarrow> 'h) hstate option" where
  "PHOThreadHeap_free getHeap mfree ptr = (\<lambda>(hs, m).
     let tid = getHeap ptr (hs, m)
     in if tid < 0 then None
        else map_option (\<lambda>(h, m). (hs(nat tid := h), m)) (mfree ptr (hs (nat tid), m)))"

text \<open>An object goes back to the heap whose number it carries, whichever thread frees it; the other heaps keep their states.\<close>

lemma PHOThreadHeap_free_to_owner:
  "getHeap ptr (hs, m) = int i \<Longrightarrow> mfree ptr (hs i, m) = Some (h', m') \<Longrightarrow>
   PHOThreadHeap_free getHeap mfree ptr (hs, m) = Some (hs(i := h'), m')"
  by (simp add: PHOThreadHeap_free_def)

section \<open>Properties\<close>

lemma insort_middle: "distinct (xs @ p # ys) \<Longrightarrow> sorted (xs @ p # ys) \<Longrightarrow> insort p (xs @ ys) = xs @ p # ys"
  by (induction xs) (auto simp: insort_is_Cons)

lemma distinct_middle: "distinct (a # xs @ ys @ zs) \<Longrightarrow> set ys \<inter> set (a # xs @ zs) = {}"
  by auto

text \<open>clearing a hierarchical heap after a child was taken out of it ends, and clears the heap and everything that is still
  below it, each heap once and before the heaps below it, and nothing of what was below the child.\<close>

theorem NestedHeap_clear_after_remove:
  assumes "hier n (HT a (xs @ t # ys))" and "distinct (heaps (HT a (xs @ t # ys)))"
  shows "NestedHeap_clear sclear (removeChild a (root_of t) n) a s = Some (fold sclear (heaps (HT a (xs @ ys))) s) \<and>
    set (heaps t) \<inter> set (heaps (HT a (xs @ ys))) = {}"
proof
  show "NestedHeap_clear sclear (removeChild a (root_of t) n) a s = Some (fold sclear (heaps (HT a (xs @ ys))) s)"
    using nested_clear_tree [OF removeChild_hier [OF assms], of sclear s] unfolding NestedHeap_clear_def root_of.simps .
  show "set (heaps t) \<inter> set (heaps (HT a (xs @ ys))) = {}"
    using distinct_middle [of a "concat (map heaps xs)" "heaps t" "concat (map heaps ys)"] assms(2) by simp
qed

definition nested_example :: "nlinks_of" where
  "nested_example = (\<lambda>_. NestedHeap_new)(
     100 := \<lparr>nh_parent = 0, nh_child = 104, nh_prev = 0, nh_next = 0\<rparr>,
     104 := \<lparr>nh_parent = 100, nh_child = 0, nh_prev = 0, nh_next = 108\<rparr>,
     108 := \<lparr>nh_parent = 100, nh_child = 112, nh_prev = 104, nh_next = 0\<rparr>,
     112 := \<lparr>nh_parent = 108, nh_child = 0, nh_prev = 0, nh_next = 0\<rparr>)"

theorem NestedHeap_clear_after_remove_witness:
  "NestedHeap_clear (#) (removeChild 100 104 nested_example) 100 [] = Some [112, 108, 100]"
  using NestedHeap_clear_after_remove [of nested_example 100 "[]" "HT 104 []" "[HT 108 [HT 112 []]]" "(#)" "[]"]
  by (simp add: nested_example_def)

text \<open>over a list of free objects in the order of their addresses, \<open>FirstFitHeap\<close> hands out the object with the lowest address
  of those that are large enough, and puts a freed object at the place of its address.\<close>

theorem FirstFitHeap_reuses_lowest:
  assumes "ff_repr fl m (xs @ p # ys)" and "\<forall>x \<in> set xs. getSize x < sz" and "sz \<le> getSize p"
  shows "\<exists>fl' m' fl'' m''. FirstFitHeap_malloc getSize smalloc sz ((fl, h), m) = Some (p, ((fl', h), m')) \<and> ff_repr fl' m' (xs @ ys) \<and>
    FirstFitHeap_free p ((fl', h), m') = Some ((fl'', h), m'') \<and> ff_repr fl'' m'' (xs @ p # ys)"
proof -
  obtain fl' m' where 1: "FirstFitHeap_malloc getSize smalloc sz ((fl, h), m) = Some (p, ((fl', h), m'))" "ff_repr fl' m' (xs @ ys)"
    using FirstFitHeap_malloc_first [OF assms(1) refl assms(2,3), of smalloc h] by (elim exE conjE)
  have r: "sl_repr (fl, m) (xs @ p # ys)" "sorted (xs @ p # ys)" using assms(1) by (simp_all add: ff_repr_def)
  have d: "distinct (xs @ p # ys)" "sorted (xs @ p # ys)" using r by (simp_all add: sl_repr_def)
  have p: "p \<noteq> 0" "p \<notin> set (xs @ ys)" using sl_repr_nonnull [OF r(1)] d(1) by auto
  obtain fl'' m'' where 2: "FirstFitHeap_free p ((fl', h), m') = Some ((fl'', h), m'')" "ff_repr fl'' m'' (insort p (xs @ ys))"
    using FirstFitHeap_free_sorted [OF 1(2) p, of h] by (elim exE conjE)
  have "insort p (xs @ ys) = xs @ p # ys" using d by (rule insort_middle)
  then show ?thesis using 1 2 by (intro exI conjI) simp_all
qed

definition firstfit_example :: hmem where
  "firstfit_example = (\<lambda>_. 0)(16 := 32, 32 := 64)"

theorem FirstFitHeap_reuses_lowest_witness:
  "\<exists>fl' m' fl'' m''. FirstFitHeap_malloc (\<lambda>p. if p = 16 then 8 else 24) (\<lambda>sz st. Some (0, st)) 20 ((16, ()), firstfit_example) = Some (32, ((fl', ()), m')) \<and>
     ff_repr fl' m' [16, 64] \<and> FirstFitHeap_free 32 ((fl', ()), m') = Some ((fl'', ()), m'') \<and> ff_repr fl'' m'' [16, 32, 64]"
  using FirstFitHeap_reuses_lowest [of 16 firstfit_example "[16]" 32 "[64]" "\<lambda>p. if p = 16 then 8 else 24" 20 "\<lambda>sz st. Some (0, st)" "()"]
  by (simp add: firstfit_example_def ff_repr_def sl_repr_def)

end
