(* ===== verification/Hl_Lea.thy ===== *)
theory Hl_Lea
  imports Hl_Kingsley Hl_Coalesce
begin

text \<open>
  The parts of \<open>heaplayers/dlheap.h\<close>, the composition that approximates dlmalloc: its tables of size classes, the
  threshold on the memory held in quicklists, and the headers and the choice of heap for large objects. With them
  \<open>freeAll\<close> of the segregated-fits heap, which the threshold calls, and the tables \<open>heaplayers/bins8k.h\<close> and
  \<open>heaplayers/bins16k.h\<close>.
\<close>

section \<open>The tables \<open>bins<Header, 8192>\<close> and \<open>bins<Header, 16384>\<close>\<close>

text \<open>A table of classes by runs: how many indices, and their class.\<close>

definition runs :: "(nat \<times> nat) list \<Rightarrow> nat list" where
  "runs rs = concat (map (\<lambda>(n, c). replicate n c) rs)"

definition bins8k :: "u32 \<Rightarrow> u32 list" where
  "bins8k hs = [8, 16, 24, 32, 40, 48, 56, 64, 72, 80, 96, 112, 128, 152, 176, 208, 248, 296, 352, 416, 496, 592, 704,
     840, 1008, 1208, 1448, 1736, 2272, 2720, 3400, 4096 - hs]"

definition runs8k :: "(nat \<times> nat) list" where
  "runs8k = [(1, 0), (1, 1), (1, 2), (1, 3), (1, 4), (1, 5), (1, 6), (1, 7), (1, 8), (1, 9), (2, 10), (2, 11), (2, 12),
     (3, 13), (3, 14), (4, 15), (5, 16), (6, 17), (7, 18), (8, 19), (10, 20), (12, 21), (14, 22), (17, 23), (21, 24),
     (25, 25), (30, 26), (36, 27), (67, 28), (56, 29), (85, 30), (85, 31), (340, 32), (168, 33)]"

definition sizeclasses8k :: "nat list" where "sizeclasses8k = runs runs8k"

definition bins16k :: "u32 \<Rightarrow> u32 list" where
  "bins16k hs = [8, 16, 24, 32, 40, 56, 80, 112, 160, 224, 320, 456, 648, 920, 1312, 1864, 2656, 3784, 5392, 5448, 7760,
     8176, 11648, 16384 - hs]"

definition runs16k :: "(nat \<times> nat) list" where
  "runs16k = [(1, 0), (1, 1), (1, 2), (1, 3), (1, 4), (2, 5), (3, 6), (4, 7), (6, 8), (8, 9), (12, 10), (17, 11), (24, 12),
     (34, 13), (49, 14), (69, 15), (99, 16), (141, 17), (201, 18), (7, 19), (289, 20), (52, 21), (434, 22), (588, 23)]"

definition sizeclasses16k :: "nat list" where "sizeclasses16k = runs runs16k"

text \<open>The lookups; \<open>None\<close>: the index is outside the table.\<close>

definition table_class :: "nat list \<Rightarrow> u32 \<Rightarrow> nat option" where
  "table_class t sz = (let ind = unat (drop_bit 3 (sz - 1)) in if ind < length t then Some (t ! ind) else None)"

definition bins8k_getSizeClass :: "u32 \<Rightarrow> nat option" where "bins8k_getSizeClass sz = table_class sizeclasses8k sz"
definition bins8k_getClassSize :: "u32 \<Rightarrow> nat \<Rightarrow> u32 option" where
  "bins8k_getClassSize hs i = (if i < length (bins8k hs) then Some (bins8k hs ! i) else None)"
definition bins16k_getSizeClass :: "u32 \<Rightarrow> nat option" where "bins16k_getSizeClass sz = table_class sizeclasses16k sz"
definition bins16k_getClassSize :: "u32 \<Rightarrow> nat \<Rightarrow> u32 option" where
  "bins16k_getClassSize hs i = (if i < length (bins16k hs) then Some (bins16k hs ! i) else None)"

text \<open>A run that covers the sizes above \<open>8 * k\<close> has the least class that is large enough for them.\<close>

fun runs_ok :: "u32 list \<Rightarrow> nat \<Rightarrow> nat \<Rightarrow> (nat \<times> nat) list \<Rightarrow> bool" where
  "runs_ok bs k l [] = True"
| "runs_ok bs k l ((n, c) # rs) \<longleftrightarrow> c < length bs \<and> min (8 * (k + n)) l \<le> unat (bs ! c) \<and>
     (\<forall>b \<in> set (take c bs). unat b \<le> 8 * k) \<and> runs_ok bs (k + n) l rs"

lemma runs_simps [simp]: "runs [] = []" "runs ((n, c) # rs) = replicate n c @ runs rs"
  by (simp_all add: runs_def)

lemma length_runs: "length (runs rs) = sum_list (map fst rs)"
  by (induction rs) auto

lemma runs_class:
  "runs_ok bs k l rs \<Longrightarrow> i < length (runs rs) \<Longrightarrow> 8 * (k + i) < s \<Longrightarrow> s \<le> 8 * (k + i + 1) \<Longrightarrow> s \<le> l \<Longrightarrow>
   runs rs ! i < length bs \<and> s \<le> unat (bs ! (runs rs ! i)) \<and> (\<forall>j < runs rs ! i. unat (bs ! j) < s)"
proof (induction rs arbitrary: k i)
  case (Cons r rs)
  obtain n c where r: "r = (n, c)" by (cases r)
  show ?case
  proof (cases "i < n")
    case True
    then have "runs (r # rs) ! i = c" by (simp add: r nth_append)
    moreover have "unat (bs ! j) < s" if "j < c" for j
    proof -
      have "bs ! j \<in> set (take c bs)" using that Cons.prems(1) r by (auto simp: in_set_conv_nth)
      then show ?thesis using Cons.prems r by fastforce
    qed
    moreover have "8 * (k + i + 1) \<le> 8 * (k + n)" using True by simp
    then have "s \<le> 8 * (k + n)" using Cons.prems(4) by linarith
    then have "s \<le> unat (bs ! c)" using Cons.prems(1,5) r by (auto simp: min_le_iff_disj)
    ultimately show ?thesis using Cons.prems(1) r by simp
  next
    case False
    then have "runs rs ! (i - n) < length bs \<and> s \<le> unat (bs ! (runs rs ! (i - n))) \<and> (\<forall>j < runs rs ! (i - n). unat (bs ! j) < s)"
      using Cons.prems r by (intro Cons.IH [of "k + n" "i - n"]) auto
    then show ?thesis using False r by (simp add: nth_append)
  qed
qed simp

text \<open>A lookup in such a table.\<close>

lemma table_class_least:
  assumes "runs_ok bs 0 l rs" and "l \<le> 8 * length (runs rs)" and "0 < sz" and "unat sz \<le> l"
  shows "\<exists>c. table_class (runs rs) sz = Some c \<and> c < length bs \<and> sz \<le> bs ! c \<and> (\<forall>j < c. bs ! j < sz)"
proof -
  have u: "0 < unat sz" using assms(3) by (simp add: word_less_nat_alt)
  have d: "unat (sz - 1) = unat sz - 1" using u by (subst unat_sub) (auto simp: word_le_nat_alt)
  let ?i = "(unat sz - 1) div 8"
  have i: "?i < length (runs rs)" "8 * ?i < unat sz" "unat sz \<le> 8 * (?i + 1)" using u assms(2,4) by auto
  from runs_class [OF assms(1) i(1), of "unat sz"] i assms(4)
  have "runs rs ! ?i < length bs \<and> unat sz \<le> unat (bs ! (runs rs ! ?i)) \<and> (\<forall>j < runs rs ! ?i. unat (bs ! j) < unat sz)"
    by simp
  then show ?thesis using i(1) by (simp add: table_class_def unat_drop1 d word_le_nat_alt word_less_nat_alt)
qed

lemma runs8k_ok: "runs_ok (bins8k 16) 0 4080 (take 32 runs8k)"
  by (simp add: runs8k_def bins8k_def)

lemma runs16k_ok: "runs_ok (bins16k 32) 0 16352 runs16k"
  by (simp add: runs16k_def bins16k_def)


lemma runs_take: "runs rs = runs (take n rs) @ runs (drop n rs)"
  unfolding runs_def by (metis append_take_drop_id concat_append map_append)

text \<open>With a header of at least 16 bytes the 8K table finds the least class that is large enough; the largest object is
  \<open>4096 - sizeof(Header)\<close>. With a header of 8 bytes its last index is one that the table maps to a bin that is not there.\<close>

lemma bins8k_least:
  assumes "0 < sz" and "unat sz \<le> 4080"
  shows "\<exists>c. bins8k_getSizeClass sz = Some c \<and> c < 32 \<and> sz \<le> bins8k 16 ! c \<and> (\<forall>j < c. bins8k 16 ! j < sz)"
proof -
  have l: "length (runs (take 32 runs8k)) = 510" "length (bins8k 16) = 32" "length sizeclasses8k = 1018"
    by (simp_all add: sizeclasses8k_def length_runs runs8k_def bins8k_def)
  obtain c where c: "table_class (runs (take 32 runs8k)) sz = Some c" "c < 32" "sz \<le> bins8k 16 ! c" "\<forall>j < c. bins8k 16 ! j < sz"
    using table_class_least [OF runs8k_ok _ assms] l by auto
  have "table_class sizeclasses8k sz = Some c"
    using c(1) l unfolding table_class_def sizeclasses8k_def runs_take [of runs8k 32] Let_def
    by (auto simp: nth_append split: if_splits)
  then show ?thesis using c by (simp add: bins8k_getSizeClass_def)
qed

lemma bins16k_least:
  assumes "0 < sz" and "unat sz \<le> 16352"
  shows "\<exists>c. bins16k_getSizeClass sz = Some c \<and> c < 24 \<and> sz \<le> bins16k 32 ! c \<and> (\<forall>j < c. bins16k 32 ! j < sz)"
proof -
  have l: "length (runs runs16k) = 2044" "length (bins16k 32) = 24" by (simp_all add: length_runs runs16k_def bins16k_def)
  show ?thesis using table_class_least [OF runs16k_ok _ assms] l by (simp add: bins16k_getSizeClass_def sizeclasses16k_def)
qed

theorem bins8k_leaves_table:
  "bins8k_getSizeClass 4081 = Some 32 \<and> bins8k_getClassSize 8 32 = None \<and> (4081 :: u32) \<le> 4096 - 8"
proof -
  have "sizeclasses8k ! 510 = 32"
    unfolding sizeclasses8k_def runs8k_def by (simp add: nth_append)
  moreover have "length sizeclasses8k = 1018" by (simp add: sizeclasses8k_def length_runs runs8k_def)
  ultimately show ?thesis by (simp add: bins8k_getSizeClass_def table_class_def bins8k_getClassSize_def bins8k_def)
qed

theorem bins16k_leaves_table: "bins16k_getSizeClass 16353 = None \<and> (16353 :: u32) \<le> 16384 - 8"
  by (simp add: bins16k_getSizeClass_def table_class_def sizeclasses16k_def length_runs runs16k_def)

section \<open>The size classes of \<open>LeaHeap\<close>\<close>

definition dlbig_bins :: "u32 list" where
  "dlbig_bins = [8, 16, 24, 32, 40, 48, 56, 64, 72, 80, 88, 96, 104, 112, 120, 128, 136, 144, 152, 160, 168, 176, 184, 192,
     200, 208, 216, 224, 232, 240, 248, 256, 264, 272, 280, 288, 296, 304, 312, 320, 328, 336, 344, 352, 360, 368, 376,
     384, 392, 400, 408, 416, 424, 432, 440, 448, 456, 464, 472, 480, 488, 496, 504, 512, 576, 640, 704, 768, 832, 896,
     960, 1024, 1088, 1152, 1216, 1280, 1344, 1408, 1472, 1536, 1600, 1664, 1728, 1792, 1856, 1920, 1984, 2048, 2112,
     2560, 3072, 3584, 4096, 4608, 5120, 5632, 6144, 6656, 7168, 7680, 8192, 8704, 9216, 9728, 10240, 10752, 12288, 16384,
     20480, 24576, 28672, 32768, 36864, 40960, 65536, 98304, 131072, 163840, 262144, 524288, 1048576, 2097152, 4194304,
     8388608, 16777216, 33554432, 67108864, 134217728, 268435456, 536870912, 1073741824, 2147483648]"

definition dlbig_NUMBINS :: nat where "dlbig_NUMBINS = 132"

function dlbig_log2 :: "u32 \<Rightarrow> nat \<Rightarrow> nat" where
  "dlbig_log2 sz1 c = (if sz1 > 1 then dlbig_log2 (drop_bit 1 sz1) (Suc c) else c)"
  by pat_completeness auto
termination
proof (relation "measure (\<lambda>(sz1, c). unat sz1)")
  fix sz1 :: u32 and c :: nat
  assume "1 < sz1"
  then have "0 < unat sz1" by (simp add: word_less_nat_alt)
  then show "((drop_bit 1 sz1, Suc c), (sz1, c)) \<in> measure (\<lambda>(sz1, c). unat sz1)"
    by (simp add: unat_drop1 del: drop_bit_eq_div)
qed simp

declare dlbig_log2.simps [simp del]

definition dlbig_getSizeClass :: "u32 \<Rightarrow> nat" where
  "dlbig_getSizeClass sz =
     (let sz1 = sz - 1
      in if sz1 \<le> 513 then unat (drop_bit 3 sz1)
         else if drop_bit 6 sz1 \<le> 32 then 56 + unat (drop_bit 6 sz1)
         else if drop_bit 9 sz1 \<le> 20 then 91 + unat (drop_bit 9 sz1)
         else if drop_bit 12 sz1 \<le> 10 then 110 - 6 + unat (drop_bit 12 sz1)
         else if drop_bit 15 sz1 \<le> 4 then 119 - 6 + unat (drop_bit 15 sz1)
         else if drop_bit 18 sz1 \<le> 2 then 124 - 6 + unat (drop_bit 18 sz1)
         else 126 - 6 + dlbig_log2 (drop_bit 19 sz1) 0)"

definition dlbig_getClassSize :: "nat \<Rightarrow> u32" where
  "dlbig_getClassSize i = dlbig_bins ! i"

definition dlsmall_NUMBINS :: nat where "dlsmall_NUMBINS = 8"
definition dlsmall_getSizeClass :: "u32 \<Rightarrow> nat" where "dlsmall_getSizeClass sz = unat (drop_bit 3 (sz - 1))"
definition dlsmall_getClassSize :: "nat \<Rightarrow> u32" where "dlsmall_getClassSize i = push_bit 3 (of_nat (i + 1))"

lemma dlbig_log2_spec: "0 < unat x \<Longrightarrow> \<exists>k. dlbig_log2 x c = c + k \<and> 2 ^ k \<le> unat x \<and> unat x < 2 ^ (k + 1)"
proof (induction x c rule: dlbig_log2.induct)
  case (1 x c)
  show ?case
  proof (cases "1 < x")
    case True
    then have x: "0 < unat (drop_bit 1 x)" by (simp add: word_less_nat_alt unat_drop1)
    from 1(1) [OF True x] obtain k where
      k: "dlbig_log2 (drop_bit 1 x) (Suc c) = Suc c + k" "2 ^ k \<le> unat x div 2" "unat x div 2 < 2 ^ (k + 1)"
      by (auto simp: unat_drop1)
    then show ?thesis using True by (intro exI [of _ "Suc k"]) (auto simp: dlbig_log2.simps [of x])
  next
    case False
    then have "unat x = 1" using 1(2) by (simp add: word_less_nat_alt)
    then show ?thesis using False by (intro exI [of _ 0]) (simp add: dlbig_log2.simps [of x])
  qed
qed

text \<open>The branches, on numbers. \<open>fits f k lo hi\<close>: the classes \<open>f + q\<close> are large enough for the sizes that are \<open>q\<close> when shifted by \<open>k\<close>.\<close>

definition fits :: "nat \<Rightarrow> nat \<Rightarrow> nat \<Rightarrow> nat \<Rightarrow> bool" where
  "fits f k lo hi \<longleftrightarrow> (\<forall>q \<in> set [lo ..< Suc hi]. f + q < length dlbig_bins \<and> (q + 1) * 2 ^ k \<le> unat (dlbig_bins ! (f + q)))"

lemma dlbig_fits:
  "fits 0 3 0 64" "fits 56 6 8 32" "fits 91 9 4 20" "fits 104 12 2 10" "fits 113 15 1 4" "fits 118 18 0 2"
  by (simp_all add: fits_def dlbig_bins_def upt_rec)

lemma unat_p2': "k < 32 \<Longrightarrow> unat ((2 :: u32) ^ k) = 2 ^ k"
proof -
  assume "k < 32"
  then have "(2 :: nat) ^ k < 2 ^ 32" by (intro power_strict_increasing) auto
  then show ?thesis by (metis of_nat_numeral of_nat_power unat_of_nat32)
qed

lemma dlbig_powers: "k < 12 \<Longrightarrow> unat (dlbig_bins ! (120 + k)) = 2 ^ (20 + k)"
proof -
  assume k: "k < 12"
  have d: "drop 120 dlbig_bins = map (\<lambda>k. 2 ^ (20 + k)) [0 ..< 12]" by (simp add: dlbig_bins_def upt_rec)
  have "dlbig_bins ! (120 + k) = drop 120 dlbig_bins ! k" by (rule nth_drop [symmetric]) (simp add: dlbig_bins_def)
  also have "\<dots> = 2 ^ (20 + k)" unfolding d using k by simp
  finally show ?thesis using k by (simp add: unat_p2')
qed

lemma length_dlbig: "length dlbig_bins = 132"
  by (simp add: dlbig_bins_def)

lemma fitsD:
  fixes sz :: nat
  assumes "fits f k lo hi" and "0 < sz" and "lo \<le> (sz - 1) div 2 ^ k" and "(sz - 1) div 2 ^ k \<le> hi"
  shows "f + (sz - 1) div 2 ^ k < 132 \<and> sz \<le> unat (dlbig_bins ! (f + (sz - 1) div 2 ^ k))"
proof -
  let ?q = "(sz - 1) div 2 ^ k"
  have "?q \<in> set [lo ..< Suc hi]" using assms(3,4) by auto
  then have f: "f + ?q < 132" "(?q + 1) * 2 ^ k \<le> unat (dlbig_bins ! (f + ?q))"
    using assms(1) by (auto simp: fits_def length_dlbig)
  have "sz - 1 < (?q + 1) * 2 ^ k" by (metis Suc_eq_plus1 dividend_less_div_times mult_Suc zero_less_numeral zero_less_power)
  then show ?thesis using f assms(2) by linarith
qed

text \<open>For every size up to the largest class the class is one of the table and its objects are large enough.\<close>

lemma dlbig_class_fits:
  assumes "0 < sz" and "unat sz \<le> 2 ^ 31"
  shows "dlbig_getSizeClass sz < 132 \<and> unat sz \<le> unat (dlbig_bins ! dlbig_getSizeClass sz)"
proof -
  have u: "0 < unat sz" using assms(1) by (simp add: word_less_nat_alt)
  define t where "t = unat sz - 1"
  have d: "unat (sz - 1) = t" using u unfolding t_def by (subst unat_sub) (auto simp: word_le_nat_alt)
  have c: "dlbig_getSizeClass sz =
     (if t \<le> 513 then t div 8 else if t div 64 \<le> 32 then 56 + t div 64 else if t div 512 \<le> 20 then 91 + t div 512
      else if t div 4096 \<le> 10 then 104 + t div 4096 else if t div 32768 \<le> 4 then 113 + t div 32768
      else if t div 262144 \<le> 2 then 118 + t div 262144 else 120 + dlbig_log2 (drop_bit 19 (sz - 1)) 0)"
    by (simp add: dlbig_getSizeClass_def Let_def word_le_nat_alt unat_drop1 d)
  note f = dlbig_fits [THEN fitsD, OF u, folded t_def]
  consider "t \<le> 513" | "513 < t" "t div 64 \<le> 32" | "32 < t div 64" "t div 512 \<le> 20" | "20 < t div 512" "t div 4096 \<le> 10"
    | "10 < t div 4096" "t div 32768 \<le> 4" | "4 < t div 32768" "t div 262144 \<le> 2" | "2 < t div 262144" by linarith
  then show ?thesis
  proof cases
    case 1
    then show ?thesis using f(1) c by simp
  next
    case 2
    then have "dlbig_getSizeClass sz = 56 + t div 64" "8 \<le> t div 64" using c by simp_all
    then show ?thesis using f(2) 2 by simp
  next
    case 3
    then have "513 < t" "4 \<le> t div 512" by simp_all
    then show ?thesis using f(3) 3 c by simp
  next
    case 4
    then have "513 < t" "32 < t div 64" "2 \<le> t div 4096" by simp_all
    then show ?thesis using f(4) 4 c by simp
  next
    case 5
    then have "513 < t" "32 < t div 64" "20 < t div 512" "1 \<le> t div 32768" by simp_all
    then show ?thesis using f(5) 5 c by simp
  next
    case 6
    then have "513 < t" "32 < t div 64" "20 < t div 512" "10 < t div 4096" by simp_all
    then show ?thesis using f(6) 6 c by simp
  next
    case 7
    then have g: "513 < t" "32 < t div 64" "20 < t div 512" "10 < t div 4096" "4 < t div 32768" "0 < t div 524288" by simp_all
    have n: "unat (drop_bit 19 (sz - 1)) = t div 524288" by (simp add: unat_drop1 d)
    obtain k where k: "dlbig_log2 (drop_bit 19 (sz - 1)) 0 = k" "2 ^ k \<le> t div 524288" "t div 524288 < 2 ^ (k + 1)"
      using dlbig_log2_spec [of "drop_bit 19 (sz - 1)" 0] g(6) n by auto
    have "t div 524288 < 4096" using assms(2) u by (simp add: t_def less_mult_imp_div_less)
    then have "(2 :: nat) ^ k < 2 ^ 12" using k(2) by simp
    then have k12: "k < 12" by (rule power_less_imp_less_exp [rotated]) simp
    have "t < 2 ^ (k + 1) * 524288" using k(3) by (simp add: div_less_iff_less_mult)
    then have "unat sz \<le> 2 ^ (20 + k)" using u by (simp add: t_def power_add)
    then show ?thesis using c g 7 k(1) dlbig_powers [OF k12] k12 by simp
  qed
qed


text \<open>Up to 2112 bytes the class is the least one; the sizes above skip the classes from 89 to 94.\<close>

definition tight :: "nat \<Rightarrow> nat \<Rightarrow> nat \<Rightarrow> nat \<Rightarrow> bool" where
  "tight f k lo hi \<longleftrightarrow> (\<forall>q \<in> set [lo ..< Suc hi]. 0 < f + q \<longrightarrow> unat (dlbig_bins ! (f + q - 1)) \<le> q * 2 ^ k)"

lemma dlbig_tight: "tight 0 3 0 64" "tight 56 6 8 32"
  by (simp_all add: tight_def dlbig_bins_def upt_rec)

fun ascending :: "nat list \<Rightarrow> bool" where
  "ascending [] = True"
| "ascending [x] = True"
| "ascending (x # y # zs) \<longleftrightarrow> x \<le> y \<and> ascending (y # zs)"

lemma ascending_sorted: "ascending xs \<Longrightarrow> sorted xs"
  by (induction xs rule: ascending.induct) auto

lemma dlbig_sorted: "sorted (map unat dlbig_bins)"
  by (rule ascending_sorted) (simp add: dlbig_bins_def)

lemma dlbig_le: "i \<le> j \<Longrightarrow> j < 132 \<Longrightarrow> unat (dlbig_bins ! i) \<le> unat (dlbig_bins ! j)"
  using sorted_nth_mono [OF dlbig_sorted, of i j] by (simp add: length_dlbig)

lemma tightD:
  fixes sz :: nat
  assumes "tight f k lo hi" and "0 < sz" and "lo \<le> (sz - 1) div 2 ^ k" and "(sz - 1) div 2 ^ k \<le> hi"
    and "f + (sz - 1) div 2 ^ k < 132" and "j < f + (sz - 1) div 2 ^ k"
  shows "unat (dlbig_bins ! j) < sz"
proof -
  let ?q = "(sz - 1) div 2 ^ k"
  have "unat (dlbig_bins ! j) \<le> unat (dlbig_bins ! (f + ?q - 1))" using assms(5,6) by (intro dlbig_le) auto
  also have "\<dots> \<le> ?q * 2 ^ k"
  proof -
    have q: "?q \<in> set [lo ..< Suc hi]" "0 < f + ?q" using assms(3,4,6) by (simp del: upt_Suc, linarith)
    from bspec [OF assms(1) [unfolded tight_def] q(1)] q(2) show ?thesis by (rule mp)
  qed
  also have "\<dots> \<le> sz - 1" by simp
  finally show ?thesis using assms(2) by simp
qed

lemma dlbig_class_least:
  assumes "0 < sz" and "unat sz \<le> 2112" and "j < dlbig_getSizeClass sz"
  shows "unat (dlbig_bins ! j) < unat sz"
proof -
  have u: "0 < unat sz" using assms(1) by (simp add: word_less_nat_alt)
  define t where "t = unat sz - 1"
  have d: "unat (sz - 1) = t" using u unfolding t_def by (subst unat_sub) (auto simp: word_le_nat_alt)
  have c: "dlbig_getSizeClass sz = (if t \<le> 513 then t div 8 else 56 + t div 64)"
    using assms(2) by (simp add: dlbig_getSizeClass_def Let_def word_le_nat_alt unat_drop1 d t_def)
  note f = dlbig_tight [THEN tightD, OF u, folded t_def]
  have "dlbig_getSizeClass sz < 132" using dlbig_class_fits [OF assms(1)] assms(2) by simp
  then show ?thesis using f [of j] assms(2,3) c by (auto simp: t_def split: if_splits)
qed

lemma dlbig_skips: "unat sz \<le> 2 ^ 31 \<Longrightarrow> \<not> (89 \<le> dlbig_getSizeClass sz \<and> dlbig_getSizeClass sz \<le> 94)"
proof -
  define t where "t = unat (sz - 1)"
  have c: "dlbig_getSizeClass sz =
     (if t \<le> 513 then t div 8 else if t div 64 \<le> 32 then 56 + t div 64 else if t div 512 \<le> 20 then 91 + t div 512
      else if t div 4096 \<le> 10 then 104 + t div 4096 else if t div 32768 \<le> 4 then 113 + t div 32768
      else if t div 262144 \<le> 2 then 118 + t div 262144 else 120 + dlbig_log2 (drop_bit 19 (sz - 1)) 0)"
    by (simp add: dlbig_getSizeClass_def Let_def word_le_nat_alt unat_drop1 t_def)
  have "4 \<le> t div 512" if "\<not> t div 64 \<le> 32" using that by simp
  then show ?thesis unfolding c by (auto split: if_splits)
qed

theorem LeaHeap_classes:
  assumes "0 < sz" and "unat sz \<le> 2 ^ 31"
  shows "dlbig_getSizeClass sz < dlbig_NUMBINS \<and> sz \<le> dlbig_getClassSize (dlbig_getSizeClass sz) \<and>
    (unat sz \<le> 2112 \<longrightarrow> dlbig_getSizeClass sz = (LEAST i. sz \<le> dlbig_getClassSize i)) \<and>
    \<not> (89 \<le> dlbig_getSizeClass sz \<and> dlbig_getSizeClass sz \<le> 94)"
proof -
  have f: "dlbig_getSizeClass sz < dlbig_NUMBINS" "sz \<le> dlbig_getClassSize (dlbig_getSizeClass sz)"
    using dlbig_class_fits [OF assms] by (simp_all add: dlbig_NUMBINS_def dlbig_getClassSize_def word_le_nat_alt)
  have "dlbig_getSizeClass sz = (LEAST i. sz \<le> dlbig_getClassSize i)" if "unat sz \<le> 2112"
    using f(2) dlbig_class_least [OF assms(1) that]
    by (intro Least_equality [symmetric]) (auto simp: dlbig_getClassSize_def word_le_nat_alt leI not_less [symmetric])
  with f dlbig_skips [OF assms(2)] show ?thesis by blast
qed

theorem LeaHeap_classes_witness: "dlbig_getSizeClass 2000 = (LEAST i. 2000 \<le> dlbig_getClassSize i)"
  using LeaHeap_classes [of 2000] by simp

text \<open>The quicklists have the least class, too, but no class for a request of no bytes.\<close>

lemma dlsmall_least:
  assumes "0 < sz" and "sz \<le> 64"
  shows "dlsmall_getSizeClass sz < dlsmall_NUMBINS \<and> sz \<le> dlsmall_getClassSize (dlsmall_getSizeClass sz) \<and>
    (\<forall>j < dlsmall_getSizeClass sz. dlsmall_getClassSize j < sz)"
proof -
  have u: "0 < unat sz" "unat sz \<le> 64" using assms by (simp_all add: word_less_nat_alt word_le_nat_alt)
  have d: "unat (sz - 1) = unat sz - 1" using u by (subst unat_sub) (auto simp: word_le_nat_alt)
  have c: "dlsmall_getSizeClass sz = (unat sz - 1) div 8" by (simp add: dlsmall_getSizeClass_def unat_drop1 d)
  have s: "unat (dlsmall_getClassSize i) = 8 * (i + 1)" if "i < 8" for i
  proof -
    have "dlsmall_getClassSize i = of_nat (8 * (i + 1))" by (simp add: dlsmall_getClassSize_def push_bit_eq_mult algebra_simps)
    moreover have "unat (of_nat (8 * (i + 1)) :: u32) = 8 * (i + 1)" using that by (intro unat_of_nat32) simp
    ultimately show ?thesis by simp
  qed
  have i: "(unat sz - 1) div 8 < 8" using u by auto
  show ?thesis using u i s unfolding c dlsmall_NUMBINS_def word_le_nat_alt word_less_nat_alt by auto
qed

theorem dlsmall_empty_request: "dlsmall_getSizeClass 0 = 536870911 \<and> dlbig_getSizeClass 0 = dlbig_NUMBINS"
proof -
  obtain k where k: "dlbig_log2 8191 0 = k" "2 ^ k \<le> (8191 :: nat)" "(8191 :: nat) < 2 ^ (k + 1)"
    using dlbig_log2_spec [of 8191 0] by auto
  have "(2 :: nat) ^ k < 2 ^ 13" "(2 :: nat) ^ 12 < 2 ^ (k + 1)" using k(2,3) by (simp_all del: power_Suc)
  note this [THEN power_less_imp_less_exp [rotated]]
  then have "k < 13" "12 < k + 1" by simp_all
  then have k12: "dlbig_log2 8191 0 = 12" using k(1) by simp
  have z: "(0 :: u32) - 1 = 4294967295" by simp
  show ?thesis unfolding dlsmall_getSizeClass_def dlbig_getSizeClass_def dlbig_NUMBINS_def Let_def z by (simp add: k12)
qed


section \<open>\<open>freeAll\<close>\<close>

lemma distinct_concat_map:
  "distinct xs \<Longrightarrow> (\<And>x. x \<in> set xs \<Longrightarrow> distinct (f x)) \<Longrightarrow>
   (\<And>x y. x \<in> set xs \<Longrightarrow> y \<in> set xs \<Longrightarrow> x \<noteq> y \<Longrightarrow> set (f x) \<inter> set (f y) = {}) \<Longrightarrow> distinct (concat (map f xs))"
  by (induction xs) fastforce+

context seg_heap begin

text \<open>Emptying one bin into the big heap.\<close>

lemma drain_law:
  "inv st X \<Longrightarrow> \<forall>b \<in> X. unat (getClassMaxSize 0) \<le> snd b \<Longrightarrow> repr (hw, snd st) es \<Longrightarrow>
   \<forall>p \<in> set es. \<exists>n. (p, n) \<in> X \<Longrightarrow> length es < k \<Longrightarrow>
   \<exists>hw' st'. AdaptHeap_drain get free k (hw, st) = Some (hw', st') \<and> repr (hw', snd st') [] \<and>
     inv st' {b \<in> X. fst b \<notin> set es} \<and> (\<forall>a. covered {b \<in> X. fst b \<notin> set es} a \<longrightarrow> snd st' a = snd st a)"
proof (induction es arbitrary: st X hw k)
  case Nil
  obtain h m where st: "st = (h, m)" by (cases st)
  obtain j where k: "k = Suc j" using Nil.prems(5) by (cases k) auto
  have "get (hw, m) = (0, (hw, m))" using Nil.prems(3) st by (simp add: get_nil)
  then show ?case using Nil.prems(1,3) st k by auto
next
  case (Cons e es)
  obtain h m where st: "st = (h, m)" by (cases st)
  obtain j where k: "k = Suc j" using Cons.prems(5) by (cases k) auto
  obtain w m1 where g: "get (hw, m) = (e, (w, m1))" "repr (w, m1) es"
    using get_cons [of "(hw, m)" e es] Cons.prems(3) st by auto
  have r: "repr (hw, m) (e # es)" using Cons.prems(3) st by simp
  have okX: "ok_blocks X" using inv_blocks [OF Cons.prems(1)] .
  have m1: "m1 a = m a" if "a \<notin> set (foots foot (e # es))" for a using get_frame [OF r that] g(1) by simp
  have cX: "covered X a" if aF: "a \<in> set (foots foot (e # es))" for a
  proof -
    obtain q where q: "q \<in> set (e # es)" "a \<in> set (foot q)" using aF unfolding foots_mem by blast
    then show ?thesis using Cons.prems(4) foot_covered(1) [OF okX Cons.prems(2)] by blast
  qed
  have i1: "inv (h, m1) X" using Cons.prems(1) m1 cX unfolding st by (elim inv_frame) blast
  obtain n where n: "(e, n) \<in> X" using Cons.prems(4) by auto
  obtain st2 where f: "free e (h, m1) = Some st2" "inv st2 (X - {(e, n)})" "\<forall>a. covered (X - {(e, n)}) a \<longrightarrow> snd st2 a = m1 a"
    using free_law [OF i1 n] by auto
  have d: "distinct (foots foot (e # es))" "0 \<notin> set (e # es)" using repr_foots [OF r] by simp_all
  have ne: "e \<notin> set es"
    using d(1) foot_self(1) [of e] unfolding foots_def by auto
  have only: "{b \<in> X. fst b \<notin> set (e # es)} = {b \<in> X - {(e, n)}. fst b \<notin> set es}"
  proof -
    have pos: "0 < snd b" if "b \<in> X" for b using bspec [OF Cons.prems(2) that] class0 by linarith
    have eq: "i = n" if "(e, i) \<in> X" for i using ok_blocks_fst [OF okX that n] pos [OF that] pos [OF n] by simp
    show ?thesis
    proof (rule set_eqI)
      fix b :: block
      obtain p i where b: "b = (p, i)" by (cases b)
      show "b \<in> {b \<in> X. fst b \<notin> set (e # es)} \<longleftrightarrow> b \<in> {b \<in> X - {(e, n)}. fst b \<notin> set es}"
        unfolding b by (cases "p = e") (use eq [of i] in auto)
    qed
  qed
  have blks: "\<forall>p \<in> set es. \<exists>n'. (p, n') \<in> X - {(e, n)}" using Cons.prems(4) ne by fastforce
  have okX': "ok_blocks (X - {(e, n)})" and bX': "\<forall>b \<in> X - {(e, n)}. unat (getClassMaxSize 0) \<le> snd b"
    using ok_blocks_mono [OF okX, of "X - {(e, n)}"] Cons.prems(2) by blast+
  have "repr (w, snd st2) es"
  proof (rule repr_frame [OF g(2)])
    fix a assume "a \<in> set (foots foot es)"
    then obtain q where q: "q \<in> set es" "a \<in> set (foot q)" unfolding foots_mem by blast
    then have "covered (X - {(e, n)}) a" using blks foot_covered(1) [OF okX' bX'] by blast
    then show "snd st2 a = m1 a" using f(3) by blast
  qed
  from Cons.IH [OF f(2) bX' this blks, of j] Cons.prems(5) k obtain hw' st' where
    h: "AdaptHeap_drain get free j (w, st2) = Some (hw', st')" "repr (hw', snd st') []"
      "inv st' {b \<in> X - {(e, n)}. fst b \<notin> set es}"
      "\<forall>a. covered {b \<in> X - {(e, n)}. fst b \<notin> set es} a \<longrightarrow> snd st' a = snd st2 a" by auto
  have "AdaptHeap_drain get free k (hw, st) = Some (hw', st')"
    using g(1) f(1) h(1) d(2) by (simp add: k st Let_def)
  moreover have "snd st' a = m a" if c: "covered {b \<in> X. fst b \<notin> set (e # es)} a" for a
  proof -
    have "covered {b \<in> X - {(e, n)}. fst b \<notin> set es} a" using c only by simp
    moreover from this have "covered (X - {(e, n)}) a" by (rule covered_mono) blast
    moreover have "a \<notin> set (foots foot (e # es))"
    proof
      assume "a \<in> set (foots foot (e # es))"
      then obtain q where q: "q \<in> set (e # es)" "a \<in> set (foot q)" unfolding foots_mem by blast
      obtain j where j: "(q, j) \<in> X" using Cons.prems(4) q(1) by blast
      have "unat a \<in> blk (q, j)" by (rule foot_covered(2) [OF okX Cons.prems(2) j q(2)])
      moreover obtain b where b: "b \<in> X" "fst b \<notin> set (e # es)" "unat a \<in> blk b" using c by (auto simp: covered_def)
      moreover have "blk b \<inter> blk (q, j) = {}" using b q(1) by (intro ok_blocks_apart [OF okX b(1) j]) auto
      ultimately show False by blast
    qed
    ultimately show ?thesis using h(4) f(3) m1 by simp
  qed
  ultimately show ?case using h(2,3) only st by auto
qed

text \<open>Emptying the bins one after the other.\<close>

lemma freeAll_bins_law:
  "inv st X \<Longrightarrow> \<forall>b \<in> X. unat (getClassMaxSize 0) \<le> snd b \<Longrightarrow> length Es = length bins \<Longrightarrow>
   \<forall>i < length bins. repr (bins ! i, snd st) (Es ! i) \<Longrightarrow> \<forall>p \<in> set (concat Es). \<exists>n. (p, n) \<in> X \<Longrightarrow>
   distinct (concat Es) \<Longrightarrow> \<forall>es \<in> set Es. length es < k \<Longrightarrow>
   \<exists>bins' st'. freeAll_bins get free k bins st = Some (bins', st') \<and> length bins' = length bins \<and>
     (\<forall>i < length bins. repr (bins' ! i, snd st') []) \<and> inv st' {b \<in> X. fst b \<notin> set (concat Es)} \<and>
     (\<forall>a. covered {b \<in> X. fst b \<notin> set (concat Es)} a \<longrightarrow> snd st' a = snd st a)"
proof (induction bins arbitrary: st X Es)
  case Nil
  then show ?case by simp
next
  case (Cons b bs)
  obtain es Es' where Es: "Es = es # Es'" using Cons.prems(3) by (cases Es) auto
  have r: "repr (b, snd st) es" using Cons.prems(4) Es by (auto dest: spec [of _ 0])
  have e: "\<forall>p \<in> set es. \<exists>n. (p, n) \<in> X" "length es < k" using Cons.prems(5,7) Es by auto
  let ?X = "{b \<in> X. fst b \<notin> set es}"
  obtain hw st1 where d: "AdaptHeap_drain get free k (b, st) = Some (hw, st1)" "repr (hw, snd st1) []" "inv st1 ?X"
    "\<forall>a. covered ?X a \<longrightarrow> snd st1 a = snd st a"
    using drain_law [OF Cons.prems(1,2) r e] by blast
  have bX: "\<forall>b \<in> ?X. unat (getClassMaxSize 0) \<le> snd b" using Cons.prems(2) by blast
  have X': "\<exists>n. (p, n) \<in> ?X" if "p \<in> set (concat Es')" for p
  proof -
    have "p \<notin> set es" using Cons.prems(6) that unfolding Es by auto
    moreover have "\<exists>n. (p, n) \<in> X" using Cons.prems(5) that unfolding Es by simp
    ultimately show ?thesis by simp
  qed
  have r': "\<forall>i < length bs. repr (bs ! i, snd st1) (Es' ! i)"
  proof (intro allI impI)
    fix i assume i: "i < length bs"
    have ri: "repr (bs ! i, snd st) (Es' ! i)" using Cons.prems(4) [rule_format, of "Suc i"] i by (simp add: Es)
    show "repr (bs ! i, snd st1) (Es' ! i)"
    proof (rule repr_frame [OF ri])
      fix a assume "a \<in> set (foots foot (Es' ! i))"
      then obtain q where q: "q \<in> set (Es' ! i)" "a \<in> set (foot q)" unfolding foots_mem by blast
      have "Es' ! i \<in> set Es'" using i Cons.prems(3) Es by simp
      then have "q \<in> set (concat Es')" using q(1) by auto
      from X' [OF this] obtain n where "(q, n) \<in> ?X" by blast
      then have "covered ?X a" using foot_covered(1) [OF inv_blocks [OF d(3)] bX _ q(2)] by blast
      then show "snd st1 a = snd st a" using d(4) by blast
    qed
  qed
  have l: "length Es' = length bs" "distinct (concat Es')" "\<forall>es \<in> set Es'. length es < k"
    using Cons.prems(3,6,7) Es by simp_all
  let ?Y = "{b \<in> ?X. fst b \<notin> set (concat Es')}"
  obtain bs' st' where f: "freeAll_bins get free k bs st1 = Some (bs', st')" "length bs' = length bs"
    "\<forall>i < length bs. repr (bs' ! i, snd st') []" "inv st' ?Y" "\<forall>a. covered ?Y a \<longrightarrow> snd st' a = snd st1 a"
    using Cons.IH [OF d(3) bX l(1) r' _ l(2,3)] X' by blast
  have Y: "{b \<in> X. fst b \<notin> set (concat Es)} = ?Y" unfolding Es by auto
  have "repr (hw, snd st') []" by (rule repr_frame [OF d(2)]) (simp add: foots_def)
  then have "\<forall>i < length (b # bs). repr ((hw # bs') ! i, snd st') []" using f(3) by (auto simp: nth_Cons split: nat.split)
  moreover have "snd st' a = snd st a" if "covered ?Y a" for a
    using that f(5) d(4) covered_mono [OF that, of ?X] by auto
  ultimately show ?case using d(1) f(1,2,4) unfolding Y by auto
qed

text \<open>After \<open>freeAll\<close> the bins are empty and nothing is held; the live blocks are what they were. A list has less than \<open>2 ^ 32\<close> nodes.\<close>

lemma foots_distinct: "distinct (foots foot es) \<Longrightarrow> distinct es"
proof (induction es)
  case (Cons e es)
  then show ?case using foot_self(1) [of e] by (auto simp: foots_def)
qed simp

lemma list_bound: "repr (w, m) es \<Longrightarrow> length es < 2 ^ 32"
proof -
  assume r: "repr (w, m) es"
  have "length es = card (set es)" using repr_foots [OF r] by (simp add: distinct_card foots_distinct)
  also have "\<dots> < card (UNIV :: u32 set)" using repr_foots [OF r] by (intro psubset_card_mono) auto
  finally show ?thesis by (simp add: card_word)
qed

lemma freeAll_law:
  assumes i: "seg_inv NumBins getClassMaxSize repr inv st L" and k: "2 ^ 32 \<le> k"
  shows "\<exists>st'. StrictSegHeap_freeAll NumBins get free k st = Some st' \<and> seg_inv NumBins getClassMaxSize repr inv st' L \<and>
    (\<forall>a. covered L a \<longrightarrow> snd st' a = snd st a) \<and> sg_held (fst (fst st')) = 0 \<and>
    (\<forall>i < NumBins. repr (sg_bins (fst (fst st')) ! i, snd st') [])"
proof -
  obtain g h m where st: "st = ((g, h), m)" by (metis surj_pair)
  obtain X Fs where iX: "inv (h, m) X" and X: "\<forall>b \<in> X. unat (getClassMaxSize 0) \<le> snd b" and w: "within L X"
    and l: "seg_lists NumBins getClassMaxSize repr X (sg_bins g) m Fs" and len: "length (sg_bins g) = NumBins"
    and out: "\<forall>i < NumBins. \<forall>p \<in> set (Fs i). p \<notin> fst ` L"
    by (rule seg_invE [OF i [unfolded st]])
  let ?Es = "map Fs [0 ..< NumBins]" and ?Y = "{b \<in> X. fst b \<notin> set (concat (map Fs [0 ..< NumBins]))}"
  have r: "\<forall>i < length (sg_bins g). repr (sg_bins g ! i, snd (h, m)) (?Es ! i)" using seg_listsD(1) [OF l] by (simp add: len)
  have b: "\<forall>p \<in> set (concat ?Es). \<exists>n. (p, n) \<in> X" using seg_listsD(2) [OF l] by fastforce
  have dF: "distinct (Fs i)" if "i < NumBins" for i
    using repr_foots [OF seg_listsD(1) [OF l that]] by (simp add: foots_distinct)
  have dc: "distinct (concat ?Es)"
  proof (rule distinct_concat_map)
    show "set (Fs i) \<inter> set (Fs j) = {}" if "i \<in> set [0 ..< NumBins]" "j \<in> set [0 ..< NumBins]" "i \<noteq> j" for i j
      using seg_listsD(3) [OF l, of i j] that by auto
  qed (simp_all add: dF)
  have lk: "\<forall>es \<in> set ?Es. length es < k" using list_bound [OF seg_listsD(1) [OF l]] k by fastforce
  have ln: "length ?Es = length (sg_bins g)" by (simp add: len)
  obtain bins' st' where f: "freeAll_bins get free k (sg_bins g) (h, m) = Some (bins', st')"
    "length bins' = NumBins" "\<forall>i < NumBins. repr (bins' ! i, snd st') []" "inv st' ?Y" "\<forall>a. covered ?Y a \<longrightarrow> snd st' a = m a"
    using freeAll_bins_law [OF iX X ln r b dc lk] unfolding len snd_conv by blast
  have wY: "within L ?Y"
  proof -
    have "fst b \<notin> set (concat ?Es)" if "b \<in> L" for b using out that by fastforce
    then show ?thesis using w unfolding within_def by fastforce
  qed
  have "seg_lists NumBins getClassMaxSize repr ?Y bins' (snd st') (\<lambda>_. [])" using f(3) by (simp add: seg_lists_def)
  then have "seg_inv NumBins getClassMaxSize repr inv ((\<lparr>sg_bins = bins', sg_binmap = replicate (NUM_ULONGS NumBins) 0, sg_held = 0\<rparr>, fst st'), snd st') L"
    using f(2,4) X wY unfolding seg_inv_def prod.case by (intro conjI exI [of _ ?Y] exI [of _ "\<lambda>_. []"]) auto
  then show ?thesis using f within_covered [OF wY] by (auto simp: st StrictSegHeap_freeAll_def case_prod_unfold)
qed

end


section \<open>\<open>Threshold\<close>\<close>

record thr =
  th_freeAllNextMalloc :: bool
  th_inUse :: u32
  th_maxInUse :: u32
  th_threshold :: u32

definition Threshold_new :: thr where
  "Threshold_new = \<lparr>th_freeAllNextMalloc = False, th_inUse = 0, th_maxInUse = 0, th_threshold = 0\<rparr>"

definition th_allocated :: "u32 \<Rightarrow> thr \<Rightarrow> thr" where
  "th_allocated actualSize t =
     (let t = t\<lparr>th_inUse := th_inUse t + actualSize\<rparr>
      in if th_inUse t > th_maxInUse t
         then let t = t\<lparr>th_maxInUse := th_inUse t\<rparr> in t\<lparr>th_threshold := 16384 + th_maxInUse t div 2\<rparr>
         else t)"

definition Threshold_malloc ::
  "(u32 \<Rightarrow> 'h hstate \<Rightarrow> (u32 \<times> 'h hstate) option) \<Rightarrow> (u32 \<Rightarrow> 'h hstate \<Rightarrow> u32 option) \<Rightarrow> u32 \<Rightarrow> (thr \<times> 'h) hstate
   \<Rightarrow> (u32 \<times> (thr \<times> 'h) hstate) option" where
  "Threshold_malloc smalloc getSize sz = (\<lambda>((t, h), m).
     Option.bind (smalloc sz (h, m)) (\<lambda>(ptr, (h, m)).
       if ptr \<noteq> 0 then map_option (\<lambda>actualSize. (ptr, ((th_allocated actualSize t, h), m))) (getSize ptr (h, m))
       else Some (ptr, ((t, h), m))))"

definition Threshold_free ::
  "(u32 \<Rightarrow> 'h hstate \<Rightarrow> 'h hstate option) \<Rightarrow> (u32 \<Rightarrow> 'h hstate \<Rightarrow> u32 option) \<Rightarrow> ('h hstate \<Rightarrow> u32)
   \<Rightarrow> ('h hstate \<Rightarrow> 'h hstate option) \<Rightarrow> u32 \<Rightarrow> (thr \<times> 'h) hstate \<Rightarrow> (thr \<times> 'h) hstate option" where
  "Threshold_free sfree getSize getMemoryHeld freeAll ptr = (\<lambda>((t, h), m).
     Option.bind (getSize ptr (h, m)) (\<lambda>sz.
       let t = t\<lparr>th_inUse := th_inUse t - sz\<rparr>
       in Option.bind (sfree ptr (h, m)) (\<lambda>st.
            map_option (\<lambda>(h, m). ((t, h), m))
              (if getMemoryHeld st > th_threshold t then freeAll st else Some st))))"

text \<open>The threshold follows the high-water mark.\<close>

definition thr_ok :: "thr \<Rightarrow> bool" where
  "thr_ok t \<longleftrightarrow> th_threshold t = (if th_maxInUse t = 0 then 0 else 16384 + th_maxInUse t div 2)"

definition thr_inv :: "('h hstate \<Rightarrow> block set \<Rightarrow> bool) \<Rightarrow> (thr \<times> 'h) hstate \<Rightarrow> block set \<Rightarrow> bool" where
  "thr_inv sinv = (\<lambda>((t, h), m) L. thr_ok t \<and> sinv (h, m) L)"

lemma thr_ok_simps [simp]: "thr_ok Threshold_new" "thr_ok t \<Longrightarrow> thr_ok (th_allocated n t)" "thr_ok (t\<lparr>th_inUse := n\<rparr>) \<longleftrightarrow> thr_ok t"
proof -
  have "0 < w" if "v < w" for v w :: u32 using that by (metis le_less_trans word_zero_le)
  then show "thr_ok Threshold_new" "thr_ok t \<Longrightarrow> thr_ok (th_allocated n t)" "thr_ok (t\<lparr>th_inUse := n\<rparr>) \<longleftrightarrow> thr_ok t"
    by (auto simp: thr_ok_def Threshold_new_def th_allocated_def Let_def)
qed

text \<open>What the threshold uses of the heap below it: sizes of live objects, the bytes held, and a way to give them all back.\<close>

locale held_heap = source_heap +
  fixes getSize :: "u32 \<Rightarrow> 'a hstate \<Rightarrow> u32 option" and getMemoryHeld :: "'a hstate \<Rightarrow> u32" and freeAll :: "'a hstate \<Rightarrow> 'a hstate option"
  assumes size_law: "inv st L \<Longrightarrow> (p, n) \<in> L \<Longrightarrow> \<exists>s. getSize p st = Some s"
    and freeAll_law: "inv st L \<Longrightarrow> \<exists>st'. freeAll st = Some st' \<and> inv st' L \<and> getMemoryHeld st' = 0 \<and>
      (\<forall>a. covered L a \<longrightarrow> snd st' a = snd st a)"
begin

lemma thr_malloc_law:
  assumes i: "thr_inv inv st L" and ok: "oksize sz"
  shows "\<exists>p st'. Threshold_malloc malloc getSize sz st = Some (p, st') \<and>
    (if p = 0 then thr_inv inv st' L else thr_inv inv st' (insert (p, unat sz) L) \<and> (p, unat sz) \<notin> L) \<and>
    (\<forall>a. covered L a \<longrightarrow> snd st' a = snd st a)"
proof -
  obtain t h m where st: "st = ((t, h), m)" by (metis surj_pair)
  have i': "inv (h, m) L" "thr_ok t" using i by (simp_all add: thr_inv_def st)
  show ?thesis using i'(1) ok
  proof (cases rule: malloc_cases)
    case (null st')
    then show ?thesis using i' by (intro exI [of _ 0] exI [of _ "((t, fst st'), snd st')"])
      (auto simp: Threshold_malloc_def thr_inv_def st case_prod_unfold)
  next
    case (block p st')
    obtain s where "getSize p st' = Some s" using size_law [OF block(3) insertI1] by blast
    then show ?thesis using block i' by (intro exI [of _ p] exI [of _ "((th_allocated s t, fst st'), snd st')"])
      (auto simp: Threshold_malloc_def thr_inv_def st case_prod_unfold)
  qed
qed

lemma thr_free_law:
  assumes i: "thr_inv inv st L" and p: "(p, n) \<in> L"
  shows "\<exists>st'. Threshold_free free getSize getMemoryHeld freeAll p st = Some st' \<and> thr_inv inv st' (L - {(p, n)}) \<and>
    (\<forall>a. covered (L - {(p, n)}) a \<longrightarrow> snd st' a = snd st a) \<and>
    getMemoryHeld (snd (fst st'), snd st') \<le> th_threshold (fst (fst st'))"
proof -
  obtain t h m where st: "st = ((t, h), m)" by (metis surj_pair)
  have i': "inv (h, m) L" "thr_ok t" using i by (simp_all add: thr_inv_def st)
  let ?L = "L - {(p, n)}"
  obtain s where s: "getSize p (h, m) = Some s" using size_law [OF i'(1) p] by blast
  let ?t = "t\<lparr>th_inUse := th_inUse t - s\<rparr>"
  obtain st1 where f: "free p (h, m) = Some st1" "inv st1 ?L" "\<forall>a. covered ?L a \<longrightarrow> snd st1 a = m a"
    using free_law [OF i'(1) p] by auto
  obtain st2 where g: "freeAll st1 = Some st2" "inv st2 ?L" "getMemoryHeld st2 = 0" "\<forall>a. covered ?L a \<longrightarrow> snd st2 a = snd st1 a"
    using freeAll_law [OF f(2)] by blast
  define st' where "st' = (if getMemoryHeld st1 > th_threshold ?t then st2 else st1)"
  have "inv st' ?L" "\<forall>a. covered ?L a \<longrightarrow> snd st' a = m a" "getMemoryHeld st' \<le> th_threshold ?t"
    using f g by (auto simp: st'_def)
  then show ?thesis using s f(1) g(1) i'(2) by (intro exI [of _ "((?t, fst st'), snd st')"])
    (auto simp: Threshold_free_def thr_inv_def st st'_def case_prod_unfold)
qed

theorem thr_source_heap:
  "source_heap (Threshold_malloc malloc getSize) (Threshold_free free getSize getMemoryHeld freeAll) oksize (thr_inv inv)"
proof unfold_locales
  show "ok_blocks L" if "thr_inv inv st L" for st :: "(thr \<times> 'a) hstate" and L
    using that by (auto simp: thr_inv_def intro: inv_blocks)
  show "thr_inv inv (th, m') L" if "thr_inv inv (th, m) L" "\<And>a. \<not> covered L a \<Longrightarrow> m' a = m a" for th :: "thr \<times> 'a" and m m' L
    using that by (auto simp: thr_inv_def split: prod.splits intro: inv_frame)
qed (use thr_malloc_law thr_free_law in blast)+

end

text \<open>The quicklists of Kingsley's classes as such a heap.\<close>

definition quick_malloc :: "(u32 \<Rightarrow> 'h hstate \<Rightarrow> (u32 \<times> 'h hstate) option) \<Rightarrow> u32 \<Rightarrow> (seg \<times> zone \<times> 'h) hstate
   \<Rightarrow> (u32 \<times> (seg \<times> zone \<times> 'h) hstate) option" where
  "quick_malloc smalloc = StrictSegHeap_malloc NUMBINS size2Class class2Size dll_get (kingsley_big smalloc)"

definition quick_free :: "u32 \<Rightarrow> (seg \<times> zone \<times> 'h) hstate \<Rightarrow> (seg \<times> zone \<times> 'h) hstate option" where
  "quick_free = StrictSegHeap_free NUMBINS size2Class class2Size dll_insert (NewSourceHeap_free zone_free) NewSourceHeap_getSize"

definition quick_getSize :: "u32 \<Rightarrow> (seg \<times> zone \<times> 'h) hstate \<Rightarrow> u32 option" where
  "quick_getSize p = (\<lambda>((g, h), m). NewSourceHeap_getSize p (h, m))"

definition quick_held :: "(seg \<times> zone \<times> 'h) hstate \<Rightarrow> u32" where
  "quick_held = (\<lambda>((g, h), m). sg_held g)"

definition quick_freeAll :: "(seg \<times> zone \<times> 'h) hstate \<Rightarrow> (seg \<times> zone \<times> 'h) hstate option" where
  "quick_freeAll = StrictSegHeap_freeAll NUMBINS dll_get (NewSourceHeap_free zone_free) (2 ^ 32)"

lemma quick_held_heap:
  assumes "source_heap smalloc sfree sok sinv"
  shows "held_heap (quick_malloc smalloc) quick_free (seg_ok NUMBINS size2Class class2Size (new_source_ok (zone_ok sok CHUNKY)))
    (seg_inv NUMBINS class2Size dl_repr (new_source_inv (zone_inv sinv))) quick_getSize quick_held quick_freeAll"
proof -
  note k = source_heap.kingsley_seg_heap [OF assms]
  show ?thesis
  proof (rule held_heap.intro)
    show "source_heap (quick_malloc smalloc) quick_free (seg_ok NUMBINS size2Class class2Size (new_source_ok (zone_ok sok CHUNKY)))
      (seg_inv NUMBINS class2Size dl_repr (new_source_inv (zone_inv sinv)))"
      unfolding quick_malloc_def quick_free_def by (rule seg_heap.seg_source_heap [OF k])
    show "held_heap_axioms (seg_inv NUMBINS class2Size dl_repr (new_source_inv (zone_inv sinv))) quick_getSize quick_held quick_freeAll"
    proof unfold_locales
      fix st :: "(seg \<times> zone \<times> 'a) hstate" and L p n
      assume i: "seg_inv NUMBINS class2Size dl_repr (new_source_inv (zone_inv sinv)) st L"
      obtain g h m where st: "st = ((g, h), m)" by (metis surj_pair)
      obtain X where X: "new_source_inv (zone_inv sinv) (h, m) X" "within L X" using i by (auto simp: seg_inv_def st)
      show "\<exists>s. quick_getSize p st = Some s" if pL: "(p, n) \<in> L"
      proof -
        obtain k where "(p, k) \<in> X" using within_block [OF X(2) pL] by auto
        then show ?thesis using sized_heap.getSize_law [OF seg_heap.axioms(1) [OF k] X(1)] by (auto simp: quick_getSize_def st)
      qed
      show "\<exists>st'. quick_freeAll st = Some st' \<and> seg_inv NUMBINS class2Size dl_repr (new_source_inv (zone_inv sinv)) st' L \<and>
        quick_held st' = 0 \<and> (\<forall>a. covered L a \<longrightarrow> snd st' a = snd st a)"
        using seg_heap.freeAll_law [OF k i, of "2 ^ 32"] unfolding quick_freeAll_def quick_held_def case_prod_unfold by blast
    qed
  qed
qed

interpretation quick: held_heap "quick_malloc bump_malloc" quick_free
    "seg_ok NUMBINS size2Class class2Size (new_source_ok (zone_ok bump_ok CHUNKY))"
    "seg_inv NUMBINS class2Size dl_repr (new_source_inv (zone_inv bump_inv))" quick_getSize quick_held quick_freeAll
  by (rule quick_held_heap [OF bump.source_heap_axioms])


section \<open>Large objects\<close>

text \<open>A header of its own for each object from \<open>mmap\<close>.\<close>

definition CoalesceableMmapHeap_malloc ::
  "u32 \<Rightarrow> (u32 \<Rightarrow> 'h hstate \<Rightarrow> (u32 \<times> 'h hstate) option) \<Rightarrow> u32 \<Rightarrow> 'h hstate \<Rightarrow> (u32 \<times> 'h hstate) option" where
  "CoalesceableMmapHeap_malloc junk smalloc sz st =
     map_option (\<lambda>(buf, (h, m)).
       let (ptr, m) = makeObject junk buf 0 sz m;
           m = hdr_markMmapped (hdr_getHeader ptr) m;
           m = hdr_markInUse (hdr_getHeader ptr) m
       in (ptr, (h, m)))
     (smalloc (sz + sizeof_Header) st)"

definition CoalesceableMmapHeap_free :: "(u32 \<Rightarrow> 'h hstate \<Rightarrow> 'h hstate option) \<Rightarrow> u32 \<Rightarrow> 'h hstate \<Rightarrow> 'h hstate option" where
  "CoalesceableMmapHeap_free sfree ptr st = sfree (hdr_getHeader ptr) st"

definition CoalesceableMmapHeap_remove :: "(u32 \<Rightarrow> 'h hstate \<Rightarrow> (int \<times> 'h hstate) option) \<Rightarrow> u32 \<Rightarrow> 'h hstate \<Rightarrow> (int \<times> 'h hstate) option" where
  "CoalesceableMmapHeap_remove sremove ptr st = sremove (hdr_getHeader ptr) st"

text \<open>A failed allocation comes back as the address 8.\<close>

theorem CoalesceableMmapHeap_failure_not_null:
  "smalloc (sz + 8) st = Some (0, (h, m)) \<Longrightarrow>
   \<exists>m'. CoalesceableMmapHeap_malloc junk smalloc sz st = Some (8, (h, m'))"
  by (simp add: CoalesceableMmapHeap_malloc_def makeObject_def sizeof_Header_def Let_def)

text \<open>The choice between the heaps by the size of a request, and by the mark of an object. Both work on the same memory.\<close>

definition SelectMmapHeap_malloc ::
  "u32 \<Rightarrow> (u32 \<Rightarrow> 's hstate \<Rightarrow> (u32 \<times> 's hstate) option) \<Rightarrow> (u32 \<Rightarrow> 'b hstate \<Rightarrow> (u32 \<times> 'b hstate) option) \<Rightarrow> u32
   \<Rightarrow> ('s \<times> 'b) hstate \<Rightarrow> (u32 \<times> ('s \<times> 'b) hstate) option" where
  "SelectMmapHeap_malloc ThresholdBytes smmalloc bmalloc sz = (\<lambda>((sm, b), m).
     Option.bind (if sz \<le> ThresholdBytes then smmalloc sz (sm, m) else Some (0, (sm, m))) (\<lambda>(ptr, (sm, m)).
       if ptr = 0 then
         map_option (\<lambda>(ptr, (b, m)). (ptr, ((sm, b), hdr_markMmapped (hdr_getHeader ptr) m))) (bmalloc sz (b, m))
       else Some (ptr, ((sm, b), m))))"

definition SelectMmapHeap_free ::
  "(u32 \<Rightarrow> 's hstate \<Rightarrow> 's hstate option) \<Rightarrow> (u32 \<Rightarrow> 'b hstate \<Rightarrow> 'b hstate option) \<Rightarrow> u32 \<Rightarrow> ('s \<times> 'b) hstate \<Rightarrow> ('s \<times> 'b) hstate option" where
  "SelectMmapHeap_free smfree bfree ptr = (\<lambda>((sm, b), m).
     if hdr_isMmapped m (hdr_getHeader ptr) then map_option (\<lambda>(b, m). ((sm, b), m)) (bfree ptr (b, m))
     else map_option (\<lambda>(sm, m). ((sm, b), m)) (smfree ptr (sm, m)))"

definition SelectMmapHeap_remove ::
  "(u32 \<Rightarrow> 's hstate \<Rightarrow> (int \<times> 's hstate) option) \<Rightarrow> (u32 \<Rightarrow> 'b hstate \<Rightarrow> (int \<times> 'b hstate) option) \<Rightarrow> u32 \<Rightarrow> ('s \<times> 'b) hstate
   \<Rightarrow> (int \<times> ('s \<times> 'b) hstate) option" where
  "SelectMmapHeap_remove smremove bremove ptr = (\<lambda>((sm, b), m).
     if hdr_isMmapped m (hdr_getHeader ptr) then map_option (\<lambda>(r, (b, m)). (r, ((sm, b), m))) (bremove ptr (b, m))
     else map_option (\<lambda>(r, (sm, m)). (r, ((sm, b), m))) (smremove ptr (sm, m)))"

definition SelectMmapHeap_clear :: "('s hstate \<Rightarrow> 's hstate) \<Rightarrow> ('b hstate \<Rightarrow> 'b hstate) \<Rightarrow> ('s \<times> 'b) hstate \<Rightarrow> ('s \<times> 'b) hstate" where
  "SelectMmapHeap_clear smclear bclear = (\<lambda>((sm, b), m).
     let (sm, m) = smclear (sm, m); (b, m) = bclear (b, m) in ((sm, b), m))"

text \<open>An object goes back to the heap it came from, provided that the small heap hands out objects whose headers carry no mark.\<close>

lemma isMmapped_mark: "hdr_isMmapped (hdr_markMmapped h m) h"
proof -
  have "bit (drop_bit 1 (m h OR 2) AND 1) 0" by (simp add: bit_simps)
  then show ?thesis by (auto simp: hdr_isMmapped_def hdr_markMmapped_def)
qed

lemma SelectMmapHeap_free_small:
  "sz \<le> T \<Longrightarrow> smmalloc sz (sm, m) = Some (p, (sm', m')) \<Longrightarrow> p \<noteq> 0 \<Longrightarrow> \<not> hdr_isMmapped m' (hdr_getHeader p) \<Longrightarrow>
   SelectMmapHeap_malloc T smmalloc bmalloc sz ((sm, b), m) = Some (p, ((sm', b), m')) \<and>
   SelectMmapHeap_free smfree bfree p ((sm', b), m') = map_option (\<lambda>(sm, m). ((sm, b), m)) (smfree p (sm', m'))"
  by (simp add: SelectMmapHeap_malloc_def SelectMmapHeap_free_def)

lemma SelectMmapHeap_free_big:
  "T < sz \<or> smmalloc sz (sm, m) = Some (0, (sm, m)) \<Longrightarrow> bmalloc sz (b, m) = Some (p, (b', m')) \<Longrightarrow>
   \<exists>m''. SelectMmapHeap_malloc T smmalloc bmalloc sz ((sm, b), m) = Some (p, ((sm, b'), m'')) \<and>
     SelectMmapHeap_free smfree bfree p ((sm, b'), m'') = map_option (\<lambda>(b, m). ((sm, b), m)) (bfree p (b', m''))"
  by (auto simp: SelectMmapHeap_malloc_def SelectMmapHeap_free_def isMmapped_mark not_le [symmetric])

text \<open>When both heaps fail the mark is written in front of \<open>NULL\<close>.\<close>

theorem SelectMmapHeap_marks_null:
  "T < sz \<Longrightarrow> bmalloc sz (b, m) = Some (0, (b', m')) \<Longrightarrow>
   SelectMmapHeap_malloc T smmalloc bmalloc sz ((sm, b), m) = Some (0, ((sm, b'), m'(- 8 := m' (- 8) OR 2)))"
  by (auto simp: SelectMmapHeap_malloc_def hdr_markMmapped_def hdr_getHeader_def sizeof_Header_def dest: leD)

section \<open>Properties\<close>

text \<open>\<open>freeAll\<close> of \<open>StrictSegHeap\<close> over a heap that keeps its contract ends, gives every free object back, leaves the live
  blocks and their contents as they are, and leaves empty bins and a count of 0; here for Kingsley's classes over any super heap.\<close>

theorem StrictSegHeap_freeAll_empties:
  assumes "source_heap smalloc sfree sok sinv"
    and "seg_inv NUMBINS class2Size dl_repr (new_source_inv (zone_inv sinv)) st L"
  shows "\<exists>st'. StrictSegHeap_freeAll NUMBINS dll_get (NewSourceHeap_free zone_free) (2 ^ 32) st = Some st' \<and>
    seg_inv NUMBINS class2Size dl_repr (new_source_inv (zone_inv sinv)) st' L \<and> (\<forall>a. covered L a \<longrightarrow> snd st' a = snd st a) \<and>
    sg_held (fst (fst st')) = 0 \<and> (\<forall>i < NUMBINS. dl_repr (sg_bins (fst (fst st')) ! i, snd st') [])"
  by (rule seg_heap.freeAll_law [OF source_heap.kingsley_seg_heap [OF assms(1)] assms(2)]) simp

definition empty_seg_example :: "(seg \<times> zone \<times> bump) hstate" where
  "empty_seg_example = (KingsleyStyleHeap_new (bump_new 0x1000 0x200000), \<lambda>_. 0)"

lemma empty_seg_ok: "seg_inv NUMBINS class2Size dl_repr (new_source_inv (zone_inv bump_inv)) empty_seg_example {}"
proof -
  have "bump_inv (bump_new 0x1000 0x200000, \<lambda>_. 0) {}" by (simp add: bump_inv_def bump_new_def bump_sanity_def)
  then have "zone_inv bump_inv ((zone_new, bump_new 0x1000 0x200000), \<lambda>_. 0) {}"
    by (auto simp: zone_inv_def zone_layout_def zone_new_def intro!: exI [of _ "{}"])
  moreover have "seg_lists NUMBINS class2Size dl_repr {} (sg_bins (SegHeap_new NUMBINS)) (\<lambda>_. 0) (\<lambda>_. [])"
    by (simp add: seg_lists_def SegHeap_new_def dll.repr_empty)
  ultimately show ?thesis
    by (auto simp: seg_inv_def empty_seg_example_def KingsleyStyleHeap_new_def SegHeap_new_def new_source_inv_def
        intro!: exI [of _ "{}"] exI [of _ "\<lambda>_. []"])
qed

theorem StrictSegHeap_freeAll_empties_witness:
  "\<exists>st'. StrictSegHeap_freeAll NUMBINS dll_get (NewSourceHeap_free zone_free) (2 ^ 32) empty_seg_example = Some st' \<and>
     sg_held (fst (fst st')) = 0"
  using StrictSegHeap_freeAll_empties [OF bump.source_heap_axioms empty_seg_ok] by blast



end
