(* ===== verification/Grace_Calls.thy ===== *)
theory Grace_Calls
  imports Stm_Thms Grace_Sync Xio Grace_Lib
begin

text \<open>
  What a call of the library does in one process: \<open>include/xrun.h\<close> over \<open>xmemory\<close>, \<open>xcontext\<close> and \<open>xio\<close> (transactions that end
  with the output of their buffers, and system calls that wait until they can no longer be rolled back), the allocation of
  \<open>include/xmemory.h\<close>, and the functions of \<open>source/libgrace.cpp\<close> that forward to \<open>xrun\<close>. The memory of transactions is the
  versioned page store of \<open>Xmemory\<close>, the saved stack that of \<open>Grace_Lib\<close>, the buffered files those of \<open>Xio\<close>; the world \<open>'w\<close> is the
  state of the operating system, on which the system calls \<open>remote_...\<close> are parameters.
\<close>

section \<open>The state of a process\<close>

record 'w xrun =
  xr_tid :: nat
  xr_pred :: nat
  xr_shm :: "region \<Rightarrow> pstore"
  xr_mem :: xmemory
  xr_ctx :: xcontext
  xr_stack :: "int \<Rightarrow> u32"
  xr_io :: xio
  xr_world :: 'w

text \<open>
  How a call ends: it waits (for the predecessor, or a lock), it is undefined (a stack that is too deep to be saved, or a commit
  of buffers that \<open>xio\<close> cannot do), the transaction is rolled back, so that the process goes on at its start, or it returns.
\<close>

datatype ('a, 's) outcome = Blocked | Undefined | RolledBack 's | Returned 'a 's

fun and_then :: "('a, 's) outcome \<Rightarrow> ('a \<Rightarrow> 's \<Rightarrow> ('b, 's) outcome) \<Rightarrow> ('b, 's) outcome" where
  "and_then Blocked f = Blocked"
| "and_then Undefined f = Undefined"
| "and_then (RolledBack s) f = RolledBack s"
| "and_then (Returned a s) f = f a s"

section \<open>Transactions\<close>

text \<open>\<open>tos\<close> is the top of the stack at the call, \<open>gone\<close> tells for which processes the exit latch is open.\<close>

definition xrun_begin :: "int \<Rightarrow> 'w xrun \<Rightarrow> (unit, 'w xrun) outcome" where
  "xrun_begin tos s =
     (case xc_commit tos (xr_stack s) (xr_ctx s) of None \<Rightarrow> Undefined
      | Some c \<Rightarrow> Returned () (s\<lparr>xr_ctx := c, xr_mem := xm_begin (xr_mem s)\<rparr>))"

definition xrun_abort :: "nat \<Rightarrow> int \<Rightarrow> 'w xrun \<Rightarrow> ('a, 'w xrun) outcome" where
  "xrun_abort frame sp s =
     (let s = s\<lparr>xr_mem := xm_abort (xr_mem s)\<rparr>
      in RolledBack (s\<lparr>xr_stack := snd (xc_abort frame sp (xr_ctx s) (xr_stack s))\<rparr>))"

definition xrun_waitPred :: "(nat \<Rightarrow> bool) \<Rightarrow> 'w xrun \<Rightarrow> (unit, 'w xrun) outcome" where
  "xrun_waitPred gone s = (if xr_pred s = 0 then Returned () s else if gone (xr_pred s) then Returned () s else Blocked)"

definition xrun_setPred :: "nat \<Rightarrow> 'w xrun \<Rightarrow> 'w xrun" where "xrun_setPred tid s = s\<lparr>xr_pred := tid\<rparr>"

definition xrun_atomicCommit ::
  "(nat \<Rightarrow> bool) \<Rightarrow> (int \<Rightarrow> 8 word list \<Rightarrow> 'w \<Rightarrow> int \<times> 'w) \<Rightarrow> (int \<Rightarrow> 'w \<Rightarrow> int \<times> 'w) \<Rightarrow> 'w xrun
   \<Rightarrow> (commitResult, 'w xrun) outcome" where
  "xrun_atomicCommit gone remote_write remote_close s =
     (if isNop (xr_mem s) then Returned OPTIMIZED (s\<lparr>xr_mem := xm_updateAll (xr_mem s)\<rparr>)
      else and_then (xrun_waitPred gone s) (\<lambda>_ s.
        case tryToCommit (xr_tid s) (xr_shm s, xr_mem s) of None \<Rightarrow> Blocked
        | Some ((sh, m), committed) \<Rightarrow>
            let s = s\<lparr>xr_shm := sh, xr_mem := m\<rparr>
            in if committed then
                 (case xio_commit remote_write remote_close (xr_io s, xr_world s) of None \<Rightarrow> Undefined
                  | Some (x, w) \<Rightarrow> Returned SUCCEEDED (s\<lparr>xr_io := x, xr_world := w\<rparr>))
               else Returned FAILED s))"

definition xrun_atomicEnd ::
  "(nat \<Rightarrow> bool) \<Rightarrow> (int \<Rightarrow> 8 word list \<Rightarrow> 'w \<Rightarrow> int \<times> 'w) \<Rightarrow> (int \<Rightarrow> 'w \<Rightarrow> int \<times> 'w) \<Rightarrow> nat \<Rightarrow> int \<Rightarrow> 'w xrun
   \<Rightarrow> (unit, 'w xrun) outcome" where
  "xrun_atomicEnd gone remote_write remote_close frame sp s =
     and_then (xrun_atomicCommit gone remote_write remote_close s) (\<lambda>r s.
       case r of FAILED \<Rightarrow> xrun_abort frame sp s
       | SUCCEEDED \<Rightarrow> Returned () (s\<lparr>xr_pred := 0\<rparr>)
       | OPTIMIZED \<Rightarrow> Returned () s)"

definition ensureIrrevocable :: "(nat \<Rightarrow> bool) \<Rightarrow> nat \<Rightarrow> int \<Rightarrow> 'w xrun \<Rightarrow> (unit, 'w xrun) outcome" where
  "ensureIrrevocable gone frame sp s =
     and_then (xrun_waitPred gone s) (\<lambda>_ s.
       case isConsistent (xr_tid s) (xr_shm s, xr_mem s) of None \<Rightarrow> Blocked
       | Some ((sh, m), c) \<Rightarrow>
           let s = s\<lparr>xr_shm := sh, xr_mem := m\<rparr> in if c then Returned () s else xrun_abort frame sp s)"

section \<open>System calls\<close>

definition on_io :: "('a \<times> xio \<times> 'w) option \<Rightarrow> 'w xrun \<Rightarrow> ('a, 'w xrun) outcome" where
  "on_io r s = (case r of None \<Rightarrow> Undefined | Some (v, x, w) \<Rightarrow> Returned v (s\<lparr>xr_io := x, xr_world := w\<rparr>))"

definition xrun_open :: "(nat \<Rightarrow> bool) \<Rightarrow> nat \<Rightarrow> int \<Rightarrow> ('w \<Rightarrow> int \<times> 'w) \<Rightarrow> 'w xrun \<Rightarrow> (int, 'w xrun) outcome" where
  "xrun_open gone frame sp remote_open s =
     and_then (ensureIrrevocable gone frame sp s) (\<lambda>_ s. on_io (Some (xio_open remote_open (xr_io s, xr_world s))) s)"

definition xrun_close :: "(nat \<Rightarrow> bool) \<Rightarrow> nat \<Rightarrow> int \<Rightarrow> int \<Rightarrow> 'w xrun \<Rightarrow> (int, 'w xrun) outcome" where
  "xrun_close gone frame sp fd s =
     and_then (ensureIrrevocable gone frame sp s) (\<lambda>_ s. let (r, x) = xio_close fd (xr_io s) in Returned r (s\<lparr>xr_io := x\<rparr>))"

definition xrun_write :: "(nat \<Rightarrow> bool) \<Rightarrow> nat \<Rightarrow> int \<Rightarrow> int \<Rightarrow> 8 word list \<Rightarrow> 'w xrun \<Rightarrow> (int \<times> int option, 'w xrun) outcome" where
  "xrun_write gone frame sp fd buf s =
     and_then (ensureIrrevocable gone frame sp s) (\<lambda>_ s.
       let (r, e, x) = xio_write fd buf (xr_io s) in Returned (r, e) (s\<lparr>xr_io := x\<rparr>))"

definition xrun_read ::
  "(nat \<Rightarrow> bool) \<Rightarrow> nat \<Rightarrow> int \<Rightarrow> (int \<Rightarrow> 8 word list \<Rightarrow> 'w \<Rightarrow> int \<times> 'w) \<Rightarrow> (int \<Rightarrow> 'w \<Rightarrow> int \<times> 'w)
   \<Rightarrow> (int \<Rightarrow> u32 \<Rightarrow> 'w \<Rightarrow> (int \<times> 8 word list) \<times> 'w) \<Rightarrow> int \<Rightarrow> u32 \<Rightarrow> 'w xrun \<Rightarrow> (int \<times> 8 word list, 'w xrun) outcome" where
  "xrun_read gone frame sp remote_write remote_close remote_read fd count s =
     and_then (ensureIrrevocable gone frame sp s) (\<lambda>_ s.
       on_io (xio_read remote_write remote_close remote_read fd count (xr_io s, xr_world s)) s)"

definition xrun_lseek ::
  "(nat \<Rightarrow> bool) \<Rightarrow> nat \<Rightarrow> int \<Rightarrow> (int \<Rightarrow> 8 word list \<Rightarrow> 'w \<Rightarrow> int \<times> 'w) \<Rightarrow> (int \<Rightarrow> 'w \<Rightarrow> int \<times> 'w)
   \<Rightarrow> (int \<Rightarrow> u32 \<Rightarrow> int \<Rightarrow> 'w \<Rightarrow> int \<times> 'w) \<Rightarrow> int \<Rightarrow> u32 \<Rightarrow> int \<Rightarrow> 'w xrun \<Rightarrow> (int, 'w xrun) outcome" where
  "xrun_lseek gone frame sp remote_write remote_close remote_lseek fd offset whence s =
     and_then (ensureIrrevocable gone frame sp s) (\<lambda>_ s.
       on_io (xio_lseek remote_write remote_close remote_lseek fd offset whence (xr_io s, xr_world s)) s)"

definition xrun_connect :: "(nat \<Rightarrow> bool) \<Rightarrow> nat \<Rightarrow> int \<Rightarrow> (int \<Rightarrow> 'w \<Rightarrow> int \<times> 'w) \<Rightarrow> int \<Rightarrow> 'w xrun \<Rightarrow> (int, 'w xrun) outcome" where
  "xrun_connect gone frame sp remote_connect fd s =
     and_then (ensureIrrevocable gone frame sp s) (\<lambda>_ s. on_io (Some (xio_connect remote_connect fd (xr_io s, xr_world s))) s)"

definition xrun_accept :: "(nat \<Rightarrow> bool) \<Rightarrow> nat \<Rightarrow> int \<Rightarrow> (int \<Rightarrow> 'w \<Rightarrow> int \<times> 'w) \<Rightarrow> int \<Rightarrow> 'w xrun \<Rightarrow> (int, 'w xrun) outcome" where
  "xrun_accept gone frame sp remote_accept fd s =
     and_then (ensureIrrevocable gone frame sp s) (\<lambda>_ s. on_io (Some (xio_accept remote_accept fd (xr_io s, xr_world s))) s)"

text \<open>\<open>printf\<close> ends the transaction, prints, and begins a new one.\<close>

definition grace_printf ::
  "(nat \<Rightarrow> bool) \<Rightarrow> (int \<Rightarrow> 8 word list \<Rightarrow> 'w \<Rightarrow> int \<times> 'w) \<Rightarrow> (int \<Rightarrow> 'w \<Rightarrow> int \<times> 'w) \<Rightarrow> nat \<Rightarrow> int \<Rightarrow> ('w \<Rightarrow> int \<times> 'w) \<Rightarrow> 'w xrun
   \<Rightarrow> (int, 'w xrun) outcome" where
  "grace_printf gone remote_write remote_close frame sp vprintf s =
     and_then (xrun_atomicEnd gone remote_write remote_close frame sp s) (\<lambda>_ s.
       let (v, w) = vprintf (xr_world s)
       in and_then (xrun_begin sp (s\<lparr>xr_world := w\<rparr>)) (\<lambda>_ s. Returned v s))"

section \<open>Memory\<close>

text \<open>Every allocation writes the first byte of its block.\<close>

definition xm_malloc :: "(u32 \<Rightarrow> 'h hstate \<Rightarrow> (u32 \<times> 'h hstate) option) \<Rightarrow> u32 \<Rightarrow> 'h hstate \<Rightarrow> (u32 \<times> 'h hstate) option" where
  "xm_malloc hmalloc sz st =
     map_option (\<lambda>(ptr, (h, m)). (ptr, (h, if ptr \<noteq> 0 then m(ptr := m ptr AND NOT 0xFF) else m))) (hmalloc sz st)"
definition xm_free :: "(u32 \<Rightarrow> 'h hstate \<Rightarrow> 'h hstate option) \<Rightarrow> u32 \<Rightarrow> 'h hstate \<Rightarrow> 'h hstate option" where "xm_free hfree ptr st = hfree ptr st"
definition xm_getSize :: "(u32 \<Rightarrow> 'h hstate \<Rightarrow> u32 option) \<Rightarrow> u32 \<Rightarrow> 'h hstate \<Rightarrow> u32 option" where "xm_getSize hgetSize ptr st = hgetSize ptr st"

definition xrun_malloc :: "(u32 \<Rightarrow> 'h hstate \<Rightarrow> (u32 \<times> 'h hstate) option) \<Rightarrow> u32 \<Rightarrow> 'h hstate \<Rightarrow> (u32 \<times> 'h hstate) option" where
  "xrun_malloc hmalloc sz = xm_malloc hmalloc sz"
definition xrun_free :: "(u32 \<Rightarrow> 'h hstate \<Rightarrow> 'h hstate option) \<Rightarrow> u32 \<Rightarrow> 'h hstate \<Rightarrow> 'h hstate option" where
  "xrun_free hfree ptr = xm_free hfree ptr"
definition xrun_getSize :: "(u32 \<Rightarrow> 'h hstate \<Rightarrow> u32 option) \<Rightarrow> u32 \<Rightarrow> 'h hstate \<Rightarrow> u32 option" where
  "xrun_getSize hgetSize ptr = xm_getSize hgetSize ptr"

definition gracemalloc :: "(u32 \<Rightarrow> 'h hstate \<Rightarrow> (u32 \<times> 'h hstate) option) \<Rightarrow> u32 \<Rightarrow> 'h hstate \<Rightarrow> (u32 \<times> 'h hstate) option" where
  "gracemalloc hmalloc sz = xrun_malloc hmalloc sz"
definition gracefree :: "(u32 \<Rightarrow> 'h hstate \<Rightarrow> 'h hstate option) \<Rightarrow> u32 \<Rightarrow> 'h hstate \<Rightarrow> 'h hstate option" where
  "gracefree hfree ptr = xrun_free hfree ptr"
definition gracemalloc_usable_size :: "(u32 \<Rightarrow> 'h hstate \<Rightarrow> u32 option) \<Rightarrow> u32 \<Rightarrow> 'h hstate \<Rightarrow> u32 option" where
  "gracemalloc_usable_size hgetSize ptr = xrun_getSize hgetSize ptr"

definition lib_malloc :: "(u32 \<Rightarrow> 'h hstate \<Rightarrow> (u32 \<times> 'h hstate) option) \<Rightarrow> u32 \<Rightarrow> 'h hstate \<Rightarrow> (u32 \<times> 'h hstate) option" where
  "lib_malloc hmalloc sz = gracemalloc hmalloc sz"
definition lib_free :: "(u32 \<Rightarrow> 'h hstate \<Rightarrow> 'h hstate option) \<Rightarrow> u32 \<Rightarrow> 'h hstate \<Rightarrow> 'h hstate option" where
  "lib_free hfree ptr = gracefree hfree ptr"
definition operator_delete :: "(u32 \<Rightarrow> 'h hstate \<Rightarrow> 'h hstate option) \<Rightarrow> u32 \<Rightarrow> 'h hstate \<Rightarrow> 'h hstate option" where
  "operator_delete hfree ptr = gracefree hfree ptr"
definition operator_delete_array :: "(u32 \<Rightarrow> 'h hstate \<Rightarrow> 'h hstate option) \<Rightarrow> u32 \<Rightarrow> 'h hstate \<Rightarrow> 'h hstate option" where
  "operator_delete_array hfree ptr = gracefree hfree ptr"
definition operator_new_nothrow :: "(u32 \<Rightarrow> 'h hstate \<Rightarrow> (u32 \<times> 'h hstate) option) \<Rightarrow> u32 \<Rightarrow> 'h hstate \<Rightarrow> (u32 \<times> 'h hstate) option" where
  "operator_new_nothrow hmalloc sz = gracemalloc hmalloc sz"
definition operator_new_array_nothrow :: "(u32 \<Rightarrow> 'h hstate \<Rightarrow> (u32 \<times> 'h hstate) option) \<Rightarrow> u32 \<Rightarrow> 'h hstate \<Rightarrow> (u32 \<times> 'h hstate) option" where
  "operator_new_array_nothrow hmalloc sz = gracemalloc hmalloc sz"
definition operator_new_array ::
  "(u32 \<Rightarrow> 'h hstate \<Rightarrow> (u32 \<times> 'h hstate) option) \<Rightarrow> u32 \<Rightarrow> 'h hstate \<Rightarrow> ((new_error + u32) \<times> 'h hstate) option" where
  "operator_new_array hmalloc sz st =
     map_option (\<lambda>(ptr, st). (if ptr = 0 then Inl Bad_alloc else Inr ptr, st)) (gracemalloc hmalloc sz st)"

section \<open>The status objects of threads\<close>

record tstatus =
  ts_tid :: nat
  ts_retval :: u32
  ts_forked :: bool

text \<open>Where status objects are: handed out by \<open>_tstatHeap\<close>, in its free list, and pages from \<open>mmap\<close>.\<close>

record tledger =
  tl_live :: "u32 set"
  tl_free :: "u32 list"
  tl_maps :: "u32 set"
  tl_status :: "u32 \<rightharpoonup> tstatus"

definition allocateSharedObject :: "u32 \<Rightarrow> tledger \<Rightarrow> u32 \<times> tledger" where
  "allocateSharedObject page l = (page, l\<lparr>tl_maps := insert page (tl_maps l)\<rparr>)"

text \<open>\<open>munmap\<close> fails on an address that is not the start of a page.\<close>

definition freeSharedObject :: "u32 \<Rightarrow> tledger \<Rightarrow> tledger" where
  "freeSharedObject ptr l = (if 4096 dvd unat ptr then l\<lparr>tl_maps := tl_maps l - {ptr}\<rparr> else l)"

definition tstat_free :: "u32 \<Rightarrow> tledger \<Rightarrow> tledger" where
  "tstat_free ptr l = l\<lparr>tl_live := tl_live l - {ptr}, tl_free := ptr # tl_free l\<rparr>"

text \<open>What \<open>spawn\<close> leaves behind of its status object: for a thread that was run at once, and for one that was forked.\<close>

definition spawn_direct :: "u32 \<Rightarrow> u32 \<Rightarrow> tledger \<Rightarrow> u32 \<times> tledger" where
  "spawn_direct buf retval l =
     (buf, l\<lparr>tl_live := insert buf (tl_live l), tl_status := (tl_status l)(buf \<mapsto> \<lparr>ts_tid = 0, ts_retval = retval, ts_forked = False\<rparr>)\<rparr>)"

definition spawn_forked :: "u32 \<Rightarrow> nat \<Rightarrow> tledger \<Rightarrow> u32 \<times> tledger" where
  "spawn_forked page child l =
     (let (buf, l) = allocateSharedObject page l
      in (buf, l\<lparr>tl_status := (tl_status l)(buf \<mapsto> \<lparr>ts_tid = child, ts_retval = 0, ts_forked = True\<rparr>)\<rparr>))"

definition run_thread_result :: "u32 \<Rightarrow> u32 \<Rightarrow> tledger \<Rightarrow> tledger" where
  "run_thread_result t result l = l\<lparr>tl_status := (tl_status l)(t := map_option (\<lambda>s. s\<lparr>ts_retval := result\<rparr>) (tl_status l t))\<rparr>"

definition sync_status :: "u32 \<Rightarrow> tledger \<Rightarrow> (u32 option \<times> tledger) option" where
  "sync_status t l =
     (if t = 0 then Some (None, l)
      else map_option (\<lambda>s. (Some (ts_retval s), if ts_forked s then tstat_free t l else freeSharedObject t l)) (tl_status l t))"


section \<open>System calls and rollback\<close>

datatype 'w sysop = Sys_open "'w \<Rightarrow> int \<times> 'w" | Sys_close int | Sys_write int "8 word list"
  | Sys_read "int \<Rightarrow> u32 \<Rightarrow> 'w \<Rightarrow> (int \<times> 8 word list) \<times> 'w" int u32 | Sys_lseek "int \<Rightarrow> u32 \<Rightarrow> int \<Rightarrow> 'w \<Rightarrow> int \<times> 'w" int u32 int
  | Sys_connect "int \<Rightarrow> 'w \<Rightarrow> int \<times> 'w" int | Sys_accept "int \<Rightarrow> 'w \<Rightarrow> int \<times> 'w" int

definition ignoring :: "('a, 's) outcome \<Rightarrow> (unit, 's) outcome" where "ignoring r = and_then r (\<lambda>_ s. Returned () s)"

fun syscall ::
  "(nat \<Rightarrow> bool) \<Rightarrow> nat \<Rightarrow> int \<Rightarrow> (int \<Rightarrow> 8 word list \<Rightarrow> 'w \<Rightarrow> int \<times> 'w) \<Rightarrow> (int \<Rightarrow> 'w \<Rightarrow> int \<times> 'w) \<Rightarrow> 'w sysop \<Rightarrow> 'w xrun
   \<Rightarrow> (unit, 'w xrun) outcome" where
  "syscall gone frame sp rw rc (Sys_open f) s = ignoring (xrun_open gone frame sp f s)"
| "syscall gone frame sp rw rc (Sys_close fd) s = ignoring (xrun_close gone frame sp fd s)"
| "syscall gone frame sp rw rc (Sys_write fd buf) s = ignoring (xrun_write gone frame sp fd buf s)"
| "syscall gone frame sp rw rc (Sys_read f fd n) s = ignoring (xrun_read gone frame sp rw rc f fd n s)"
| "syscall gone frame sp rw rc (Sys_lseek f fd n k) s = ignoring (xrun_lseek gone frame sp rw rc f fd n k s)"
| "syscall gone frame sp rw rc (Sys_connect f fd) s = ignoring (xrun_connect gone frame sp f fd s)"
| "syscall gone frame sp rw rc (Sys_accept f fd) s = ignoring (xrun_accept gone frame sp f fd s)"

lemmas xrun_io_defs = xrun_open_def xrun_close_def xrun_write_def xrun_read_def xrun_lseek_def xrun_connect_def xrun_accept_def
  ignoring_def on_io_def

text \<open>A call does nothing before \<open>ensureIrrevocable\<close> has returned, and changes only the buffers and the world after it.\<close>

lemma and_then_assoc [simp]: "and_then (and_then r f) g = and_then r (\<lambda>a s. and_then (f a s) g)"
  by (cases r) simp_all

lemma syscall_returned:
  assumes "syscall gone frame sp rw rc c s = Returned () s'"
  shows "\<exists>t. ensureIrrevocable gone frame sp s = Returned () t \<and> xr_shm s' = xr_shm t \<and> xr_mem s' = xr_mem t \<and>
    xr_tid s' = xr_tid t \<and> xr_pred s' = xr_pred t"
  using assms
  by (cases c; cases "ensureIrrevocable gone frame sp s") (auto simp: xrun_io_defs Let_def split: prod.splits option.splits)

lemma syscall_rolled_back:
  assumes "syscall gone frame sp rw rc c s = RolledBack s'"
  shows "ensureIrrevocable gone frame sp s = RolledBack s'"
  using assms
  by (cases c; cases "ensureIrrevocable gone frame sp s") (auto simp: xrun_io_defs Let_def split: prod.splits option.splits)

lemma isConsistent_free:
  assumes "\<And>r. plock (sh r) = None"
  shows "isConsistent i (sh, m) = Some ((\<lambda>r. (sh r)\<lparr>plock := None\<rparr>, m\<lparr>xm_reg := \<lambda>r. (xm_reg m r)\<lparr>xp_isLocked := False\<rparr>\<rparr>), xm_consistent sh m)"
  by (simp add: isConsistent_def xm_lock_free [of sh, OF assms] unlock_only isLocked_xm_consistent)

lemma plock_same: "(\<And>r. plock (sh r) = None) \<Longrightarrow> (\<lambda>r. (sh r)\<lparr>plock := None\<rparr>) = sh"
  by (simp add: fun_eq_iff)

lemma ensureIrrevocable_free:
  assumes "\<And>r. plock (xr_shm s r) = None"
  shows "ensureIrrevocable gone frame sp s =
    (if xr_pred s \<noteq> 0 \<and> \<not> gone (xr_pred s) then Blocked
     else let t = s\<lparr>xr_mem := (xr_mem s)\<lparr>xm_reg := \<lambda>r. (xm_reg (xr_mem s) r)\<lparr>xp_isLocked := False\<rparr>\<rparr>\<rparr>
          in if xm_consistent (xr_shm s) (xr_mem s) then Returned () t else xrun_abort frame sp t)"
  using assms by (simp add: ensureIrrevocable_def xrun_waitPred_def isConsistent_free plock_same Let_def)

lemma xm_consistent_unlocked: "xm_consistent sh (m\<lparr>xm_reg := \<lambda>r. (xm_reg m r)\<lparr>xp_isLocked := b\<rparr>\<rparr>) = xm_consistent sh m"
  by (simp add: xm_consistent_def consistent_iff localVersion_def local_versions_def)

text \<open>The end of a transaction when no lock is held.\<close>

lemma atomicEnd_free:
  assumes "\<And>r. plock (xr_shm s r) = None" and "\<not> isNop (xr_mem s)" and "xr_pred s = 0 \<or> gone (xr_pred s)"
  shows "xrun_atomicEnd gone rw rc frame sp s =
    (case tryToCommit (xr_tid s) (xr_shm s, xr_mem s) of None \<Rightarrow> Blocked
     | Some ((sh, m), committed) \<Rightarrow>
         if committed then case xio_commit rw rc (xr_io s, xr_world s) of None \<Rightarrow> Undefined
           | Some (x, w) \<Rightarrow> Returned () (s\<lparr>xr_shm := sh, xr_mem := m, xr_io := x, xr_world := w, xr_pred := 0\<rparr>)
         else xrun_abort frame sp (s\<lparr>xr_shm := sh, xr_mem := m\<rparr>))"
  using assms
  by (auto simp: xrun_atomicEnd_def xrun_atomicCommit_def xrun_waitPred_def tryToCommit_free plock_same Let_def split: option.split)

lemma xrun_abort_fields:
  "xrun_abort frame sp s = RolledBack (s\<lparr>xr_mem := xm_abort (xr_mem s), xr_stack := copy_back (xr_ctx s) (xr_stack s)\<rparr>)"
  by (simp add: xrun_abort_def Let_def xc_abort_def restoreStack_def)

section \<open>Allocation\<close>

text \<open>The byte that \<open>xmemory::malloc\<close> writes lies in the block, unless the block is empty.\<close>

context source_heap
begin

lemma xm_malloc_source_heap: "source_heap (xm_malloc malloc) (xm_free free) (\<lambda>sz. oksize sz \<and> sz \<noteq> 0) inv"
proof unfold_locales
  fix st L sz
  assume i: "inv st L" and ok: "oksize sz \<and> sz \<noteq> 0"
  show "\<exists>p st'. xm_malloc malloc sz st = Some (p, st') \<and>
      (if p = 0 then inv st' L else inv st' (insert (p, unat sz) L) \<and> (p, unat sz) \<notin> L) \<and>
      (\<forall>a. covered L a \<longrightarrow> snd st' a = snd st a)"
    using i conjunct1 [OF ok]
  proof (cases rule: malloc_cases)
    case (null st')
    then show ?thesis by (intro exI [of _ 0] exI [of _ st']) (auto simp: xm_malloc_def)
  next
    case (block p st')
    obtain h m where st': "st' = (h, m)" by (cases st')
    let ?v = "m p AND NOT 0xFF"
    have pos: "0 < unat sz" using ok by (simp add: word_neq_0_conv [symmetric] unat_gt_0)
    then have "covered (insert (p, unat sz) L) p" by (simp add: blk_def)
    then have i': "inv (h, m(p := ?v)) (insert (p, unat sz) L)" using block(3) unfolding st' by (rule inv_write [rotated])
    have "a \<noteq> p" if a: "covered L a" for a
      using block_apart_covered [OF inv_blocks [OF block(3)] insertI1 pos, of a] a block(4) by (simp add: insert_Diff_if)
    then show ?thesis using block i' by (intro exI [of _ p] exI [of _ "(h, m(p := ?v))"]) (auto simp: xm_malloc_def st')
  qed
qed (use inv_blocks free_law inv_frame in \<open>auto simp: xm_free_def\<close>)

end

section \<open>Properties\<close>

text \<open>A process whose transaction has read a page, with one buffered write and a predecessor.\<close>

definition xrun_example :: "(int \<times> 8 word list) list xrun" where
  "xrun_example = \<lparr>xr_tid = 3, xr_pred = 7, xr_shm = shm w_sys, xr_mem = w_mem\<lparr>xm_reg := \<lambda>r. (xm_reg w_mem r)\<lparr>xp_read := [0]\<rparr>\<rparr>,
     xr_ctx = \<lparr>xc_pbos = 0, xc_stackSize = 0, xc_stack = []\<rparr>, xr_stack = (\<lambda>_. 0),
     xr_io = [sect_add \<lparr>xs_offset = 0, xs_length = 1, xs_buf = [65]\<rparr> (xfile_new 5)], xr_world = []\<rparr>"

lemma xrun_example_simps:
  "plock (xr_shm xrun_example r) = None" "xp_dirtied (xm_reg (xr_mem xrun_example) r) = []"
  "xp_read (xm_reg (xr_mem xrun_example) r) = [0]" "xr_pred xrun_example = 7"
  "xm_consistent (xr_shm xrun_example) (xr_mem xrun_example)"
  by (cases r; simp add: xrun_example_def w_sys_def w_mem_def w_region_def xpersist_new.simps updateAll_def Let_def xm_consistent_def
      consistent_iff localVersion_def local_versions_def VersionArrayLength_def PageSize_def versions_per_page_def)+

definition log_write :: "int \<Rightarrow> 8 word list \<Rightarrow> (int \<times> 8 word list) list \<Rightarrow> int \<times> (int \<times> 8 word list) list" where
  "log_write fd b w = (int (length b), w @ [(fd, b)])"





text \<open>C37: \<open>printf\<close> in a transaction that has accessed no memory prints at once, even if the predecessor is still running.\<close>

theorem printf_overtakes:
  assumes "isNop (xr_mem s)" and "xc_commit sp (xr_stack s) (xr_ctx s) \<noteq> None"
  shows "\<exists>s'. grace_printf (\<lambda>_. False) rw rc frame sp vprintf s = Returned (fst (vprintf (xr_world s))) s' \<and>
    xr_world s' = snd (vprintf (xr_world s))"
  using assms by (auto simp: grace_printf_def xrun_atomicEnd_def xrun_atomicCommit_def xrun_begin_def case_prod_unfold Let_def)

theorem printf_overtakes_witness:
  "\<exists>s'. grace_printf (\<lambda>_. False) log_write (\<lambda>fd w. (0, w)) 0 0 (log_write 1 [72, 105]) (xrun_example\<lparr>xr_mem := w_mem\<rparr>) = Returned 2 s' \<and>
     xr_world s' = [(1, [72, 105])]"
  using printf_overtakes [of "xrun_example\<lparr>xr_mem := w_mem\<rparr>" 0 log_write "\<lambda>fd w. (0, w)" 0 "log_write 1 [72, 105]"]
  by (simp add: isNop_def w_mem_def w_region_def updateAll_def xpersist_new.simps Let_def xrun_example_def xc_commit_def getContext_def
      save_stack_def log_write_def)

text \<open>The status objects of joined threads are not given back: the page of a forked thread stays mapped, in the free list of
  \<open>_tstatHeap\<close>, and the object of a thread that was run directly stays allocated.\<close>

theorem sync_status_leaks:
  "t \<noteq> 0 \<Longrightarrow> \<exists>l'. sync_status t (run_thread_result t v (snd (spawn_forked t child l))) = Some (Some v, l') \<and>
     t \<in> tl_maps l' \<and> t \<in> set (tl_free l')"
  "\<not> 4096 dvd unat u \<Longrightarrow> \<exists>l'. sync_status u (snd (spawn_direct u v l)) = Some (Some v, l') \<and> u \<in> tl_live l'"
  by (auto simp: spawn_forked_def spawn_direct_def allocateSharedObject_def run_thread_result_def sync_status_def tstat_free_def
      freeSharedObject_def Let_def)

end
