(* ===== verification/Hl_Batch.thy ===== *)
theory Hl_Batch
  imports Hl_Source
begin

text \<open>
  \<open>heaplayers/experimental/batchheap.h\<close>: \<open>MultiMalloc\<close>, which asks the super heap for several objects at once and links
  them through their first words, and \<open>BatchHeap\<close>, which keeps up to two such lists.
\<close>

section \<open>\<open>MultiMalloc\<close>\<close>

text \<open>The loop of \<open>multimalloc\<close>; \<open>k\<close> is what is left of \<open>num - i\<close>, \<open>p\<close> the last object.\<close>

fun mm_loop ::
  "(u32 \<Rightarrow> 'h hstate \<Rightarrow> (u32 \<times> 'h hstate) option) \<Rightarrow> u32 \<Rightarrow> nat \<Rightarrow> nat \<Rightarrow> u32 \<Rightarrow> 'h hstate \<Rightarrow> (nat \<times> u32 \<times> 'h hstate) option" where
  "mm_loop smalloc sz 0 i p st = Some (i, p, st)"
| "mm_loop smalloc sz (Suc k) i p st =
     Option.bind (smalloc sz st) (\<lambda>(q, (h, m)).
       let m = m(p := q) in if q = 0 then Some (i, p, (h, m)) else mm_loop smalloc sz k (Suc i) q (h, m))"

lemma mm_loop_numeral [simp]:
  "mm_loop smalloc sz (numeral n) i p st =
     Option.bind (smalloc sz st) (\<lambda>(q, (h, m)).
       let m = m(p := q) in if q = 0 then Some (i, p, (h, m)) else mm_loop smalloc sz (pred_numeral n) (Suc i) q (h, m))"
  by (simp add: numeral_eq_Suc)

definition multimalloc ::
  "(u32 \<Rightarrow> 'h hstate \<Rightarrow> (u32 \<times> 'h hstate) option) \<Rightarrow> nat \<Rightarrow> u32 \<Rightarrow> 'h hstate \<Rightarrow> (nat \<times> u32 \<times> 'h hstate) option" where
  "multimalloc smalloc num sz st =
     Option.bind (smalloc sz st) (\<lambda>(ptr, st).
       if ptr \<noteq> 0 then map_option (\<lambda>(i, p, (h, m)). (i, ptr, (h, m(p := 0)))) (mm_loop smalloc sz (num - 1) 1 ptr st)
       else Some (0, ptr, st))"

text \<open>\<open>None\<close> in \<open>multifree\<close> and below: \<open>NULL\<close> is followed.\<close>

fun multifree :: "(u32 \<Rightarrow> 'h hstate \<Rightarrow> 'h hstate option) \<Rightarrow> nat \<Rightarrow> u32 \<Rightarrow> 'h hstate \<Rightarrow> (u32 \<times> 'h hstate) option" where
  "multifree sfree 0 prev st = Some (0, st)"
| "multifree sfree (Suc n) prev (h, m) =
     (if prev = 0 then None
      else let p = m prev in Option.bind (sfree prev (h, m)) (multifree sfree n p))"

section \<open>\<open>BatchHeap\<close>\<close>

record batch =
  bh_nObjects :: nat
  bh_first :: u32
  bh_second :: u32

definition BatchHeap_new :: batch where "BatchHeap_new = \<lparr>bh_nObjects = 0, bh_first = 0, bh_second = 0\<rparr>"

definition BatchHeap_delete :: "nat \<Rightarrow> (u32 \<Rightarrow> 'h hstate \<Rightarrow> 'h hstate option) \<Rightarrow> (batch \<times> 'h) hstate \<Rightarrow> 'h hstate option" where
  "BatchHeap_delete B sfree = (\<lambda>((b, h), m).
     if bh_nObjects b \<le> B then map_option snd (multifree sfree (bh_nObjects b) (bh_first b) (h, m))
     else Option.bind (multifree sfree B (bh_first b) (h, m)) (\<lambda>(_, st).
            map_option snd (multifree sfree (bh_nObjects b - B) (bh_second b) st)))"

definition batch_pop :: "nat \<Rightarrow> (batch \<times> 'h) hstate \<Rightarrow> (u32 \<times> (batch \<times> 'h) hstate) option" where
  "batch_pop B = (\<lambda>((b, h), m).
     if bh_nObjects b > B then
       let ptr = bh_second b; b = b\<lparr>bh_nObjects := bh_nObjects b - 1\<rparr>
       in if ptr = 0 then None else Some (ptr, ((b\<lparr>bh_second := m ptr\<rparr>, h), m))
     else
       let ptr = bh_first b; b = b\<lparr>bh_nObjects := bh_nObjects b - 1\<rparr>
       in if ptr = 0 then None else Some (ptr, ((b\<lparr>bh_first := m ptr\<rparr>, h), m)))"

definition BatchHeap_malloc ::
  "nat \<Rightarrow> (u32 \<Rightarrow> 'h hstate \<Rightarrow> (u32 \<times> 'h hstate) option) \<Rightarrow> u32 \<Rightarrow> (batch \<times> 'h) hstate \<Rightarrow> (u32 \<times> (batch \<times> 'h) hstate) option" where
  "BatchHeap_malloc B smalloc sz = (\<lambda>((b, h), m).
     Option.bind
       (if bh_nObjects b = 0
        then map_option (\<lambda>(n, ptr, (h, m)). ((b\<lparr>bh_nObjects := n, bh_first := ptr\<rparr>, h), m)) (multimalloc smalloc B sz (h, m))
        else Some ((b, h), m))
       (batch_pop B))"

definition BatchHeap_free ::
  "nat \<Rightarrow> (u32 \<Rightarrow> 'h hstate \<Rightarrow> 'h hstate option) \<Rightarrow> u32 \<Rightarrow> (batch \<times> 'h) hstate \<Rightarrow> (batch \<times> 'h) hstate option" where
  "BatchHeap_free B sfree ptr = (\<lambda>((b, h), m).
     let (b, m) = (if bh_nObjects b \<le> B then (b\<lparr>bh_first := ptr\<rparr>, m(ptr := bh_first b))
                   else (b\<lparr>bh_second := ptr\<rparr>, m(ptr := bh_second b)));
         b = b\<lparr>bh_nObjects := bh_nObjects b + 1\<rparr>
     in if bh_nObjects b = 2 * B
        then map_option (\<lambda>(head, (h, m)). ((b\<lparr>bh_second := head\<rparr>, h), m)) (multifree sfree B (bh_second b) (h, m))
        else Some ((b, h), m))"

section \<open>A batch is a list of fresh objects\<close>

lemma sl_chain_snoc:
  "sl_chain (m(p := 0)) (F @ [p]) \<Longrightarrow> distinct (F @ [p, q]) \<Longrightarrow> q \<noteq> 0 \<Longrightarrow> sl_chain (m(p := q, q := 0)) (F @ [p, q])"
proof (induction F)
  case (Cons a F)
  then show ?case by (cases F) auto
qed auto

lemma objs_append: "objs k (F @ G) = objs k F \<union> objs k G"
  by (auto simp: objs_def)

lemma objs_iff: "(p, unat k) \<in> objs k F \<longleftrightarrow> p \<in> set F"
  by (auto simp: objs_def)

lemma objs_list_covered: "p \<in> set F \<Longrightarrow> 0 < unat k \<Longrightarrow> covered (L \<union> objs k F) p"
  by (simp add: covered_objs)

context source_heap
begin

lemma mm_loop_law:
  "inv st (L \<union> objs sz (F @ [p])) \<Longrightarrow> oksize sz \<Longrightarrow> 0 < unat sz \<Longrightarrow> L \<inter> objs sz (F @ [p]) = {} \<Longrightarrow>
   sl_chain ((snd st)(p := 0)) (F @ [p]) \<Longrightarrow> distinct (F @ [p]) \<Longrightarrow>
   \<exists>G h' m'. mm_loop malloc sz k i p st = Some (i + length G, last (p # G), (h', m')) \<and> length G \<le> k \<and>
     inv (h', m') (L \<union> objs sz (F @ p # G)) \<and> L \<inter> objs sz (F @ p # G) = {} \<and> distinct (F @ p # G) \<and>
     sl_chain (m'(last (p # G) := 0)) (F @ p # G) \<and> (\<forall>a. covered L a \<longrightarrow> m' a = snd st a)"
proof (induction k arbitrary: i p F st)
  case 0
  obtain h m where "st = (h, m)" by (cases st)
  then show ?case using 0 by (intro exI [of _ "[]"]) simp
next
  case (Suc k)
  let ?X = "L \<union> objs sz (F @ [p])"
  have cp: "covered ?X a" if "a \<in> set (F @ [p])" for a by (rule objs_list_covered [OF that Suc.prems(3)])
  have pL: "a \<noteq> p" if a: "covered L a" for a
  proof
    assume "a = p"
    then obtain b where b: "b \<in> L" "unat p \<in> blk b" using a by (auto simp: covered_def)
    moreover have "b \<noteq> (p, unat sz)" using b(1) Suc.prems(4) by (auto simp: objs_def)
    then have "blk b \<inter> blk (p, unat sz) = {}"
      using b(1) by (intro ok_blocks_apart [OF inv_blocks [OF Suc.prems(1)]]) (auto simp: objs_def)
    ultimately show False using Suc.prems(3) by (auto simp: blk_def)
  qed
  show ?case using Suc.prems(1,2)
  proof (cases rule: malloc_cases)
    case (null st1)
    obtain h m where st1: "st1 = (h, m)" by (cases st1)
    have same: "m a = snd st a" if "covered ?X a" for a using null(3) [rule_format, OF that] st1 by simp
    have "inv (h, m(p := 0)) ?X" using null(2) cp [of p] unfolding st1 by (intro inv_write) auto
    moreover have "sl_chain (m(p := 0)) (F @ [p]) = sl_chain ((snd st)(p := 0)) (F @ [p])"
      using same cp by (intro sl_chain_frame) auto
    ultimately show ?thesis using Suc.prems null(1) same pL
      by (intro exI [of _ "[]"] exI [of _ h] exI [of _ "m(p := 0)"]) (auto simp: st1 fun_upd_same fun_upd_other simp del: fun_upd_apply)
  next
    case (block q st1)
    obtain h m where st1: "st1 = (h, m)" by (cases st1)
    have same: "m a = snd st a" if "covered ?X a" for a using block(5) [rule_format, OF that] st1 by simp
    have q: "q \<notin> set (F @ [p])" "(q, unat sz) \<notin> L" using block(4) objs_iff [of q sz "F @ [p]"] by auto
    have X': "insert (q, unat sz) ?X = L \<union> objs sz ((F @ [p]) @ [q])" by (auto simp: objs_append)
    have "covered (insert (q, unat sz) ?X) p" using cp [of p] by (simp del: covered_Un)
    then have i: "inv (h, m(p := q)) (L \<union> objs sz ((F @ [p]) @ [q]))"
      using block(3) unfolding st1 X' by (intro inv_write)
    have d: "distinct ((F @ [p]) @ [q])" "L \<inter> objs sz ((F @ [p]) @ [q]) = {}"
      using Suc.prems(4,6) q by (auto simp: objs_append)
    have "sl_chain (m(p := 0)) (F @ [p]) = sl_chain ((snd st)(p := 0)) (F @ [p])"
      using same cp by (intro sl_chain_frame) auto
    then have "sl_chain (m(p := 0)) (F @ [p])" using Suc.prems(5) by blast
    then have c: "sl_chain ((snd (h, m(p := q)))(q := 0)) ((F @ [p]) @ [q])" using sl_chain_snoc [of m p F q] d(1) block(2) by simp
    obtain G h' m' where g: "mm_loop malloc sz k (Suc i) q (h, m(p := q)) = Some (Suc i + length G, last (q # G), (h', m'))"
      "length G \<le> k" "inv (h', m') (L \<union> objs sz ((F @ [p]) @ q # G))" "L \<inter> objs sz ((F @ [p]) @ q # G) = {}"
      "distinct ((F @ [p]) @ q # G)" "sl_chain (m'(last (q # G) := 0)) ((F @ [p]) @ q # G)" "\<forall>a. covered L a \<longrightarrow> m' a = (m(p := q)) a"
      using Suc.IH [where F = "F @ [p]" and p = q and st = "(h, m(p := q))", OF i Suc.prems(2,3) d(2) c d(1), of "Suc i"] by (auto simp only: snd_conv append_assoc append_Cons append_Nil)
    have "mm_loop malloc sz (Suc k) i p st = Some (i + length (q # G), last (p # q # G), (h', m'))"
      using block(1,2) g(1) by (simp add: st1 Let_def)
    moreover have "\<forall>a. covered L a \<longrightarrow> m' a = snd st a" using g(7) pL same by auto
    ultimately show ?thesis using g(2-6) by (intro exI [of _ "q # G"] exI [of _ h'] exI [of _ m']) (simp del: mm_loop.simps fun_upd_apply split: if_split_asm)
  qed
qed

text \<open>\<open>multimalloc\<close> hands out a list of at most \<open>num\<close> fresh objects, and says how many; none only when the super heap has none.\<close>

lemma multimalloc_law:
  assumes i: "inv st L" and ok: "oksize sz" "0 < unat sz" "0 < num"
  shows "\<exists>F ptr h' m'. multimalloc malloc num sz st = Some (length F, ptr, (h', m')) \<and> length F \<le> num \<and> sl_repr (ptr, m') F \<and>
    inv (h', m') (L \<union> objs sz F) \<and> L \<inter> objs sz F = {} \<and> (\<forall>a. covered L a \<longrightarrow> m' a = snd st a)"
  using i ok(1)
proof (cases rule: malloc_cases)
  case (null st1)
  then show ?thesis by (intro exI [of _ "[]"] exI [of _ 0] exI [of _ "fst st1"] exI [of _ "snd st1"])
    (auto simp: multimalloc_def sl_repr_def)
next
  case (block p st1)
  have i1: "inv st1 (L \<union> objs sz ([] @ [p]))" "L \<inter> objs sz ([] @ [p]) = {}" using block(3,4) by auto
  obtain G h' m' where g: "mm_loop malloc sz (num - 1) 1 p st1 = Some (1 + length G, last (p # G), (h', m'))" "length G \<le> num - 1"
    "inv (h', m') (L \<union> objs sz (p # G))" "L \<inter> objs sz (p # G) = {}" "distinct (p # G)"
    "sl_chain (m'(last (p # G) := 0)) (p # G)" "\<forall>a. covered L a \<longrightarrow> m' a = snd st1 a"
    using mm_loop_law [OF i1(1) ok(1,2) i1(2), of "num - 1" 1] block(2) by auto
  let ?l = "last (p # G)"
  have l: "?l \<in> set (p # G)" by (rule last_in_set) simp
  have "inv (h', m'(?l := 0)) (L \<union> objs sz (p # G))" using objs_list_covered [OF l ok(2)] by (intro inv_write [OF g(3)])
  moreover have "a \<noteq> ?l" if a: "covered L a" for a
  proof
    assume "a = ?l"
    then obtain b where b: "b \<in> L" "unat ?l \<in> blk b" using a by (auto simp: covered_def)
    have "(?l, unat sz) \<in> objs sz (p # G)" using l by (simp only: objs_iff)
    moreover from this have "b \<noteq> (?l, unat sz)" using b(1) g(4) by auto
    ultimately have "blk b \<inter> blk (?l, unat sz) = {}" using b(1) by (intro ok_blocks_apart [OF inv_blocks [OF g(3)]]) auto
    then show False using b(2) ok(2) by (auto simp: blk_def)
  qed
  ultimately show ?thesis using block(1,2,5) g ok(3)
    by (intro exI [of _ "p # G"] exI [of _ p] exI [of _ h'] exI [of _ "m'(?l := 0)"]) (auto simp: multimalloc_def sl_repr_def)
qed

end

section \<open>Properties\<close>

text \<open>Over any super heap that keeps its contract, \<open>multimalloc\<close> ends and hands out a list of at most \<open>num\<close> fresh objects that are
  disjoint from the live blocks and from each other, and says how many there are; what is stored in the live blocks stays.\<close>

theorem multimalloc_batch:
  assumes "source_heap smalloc sfree sok sinv" and "sinv st L" and "sok sz" and "0 < unat sz" and "0 < num"
  shows "\<exists>F ptr h m. multimalloc smalloc num sz st = Some (length F, ptr, (h, m)) \<and> length F \<le> num \<and> sl_repr (ptr, m) F \<and>
    sinv (h, m) (L \<union> objs sz F) \<and> L \<inter> objs sz F = {} \<and> (\<forall>a. covered L a \<longrightarrow> m a = snd st a)"
  by (rule source_heap.multimalloc_law [OF assms])

theorem multimalloc_batch_witness:
  "\<exists>F ptr h m. multimalloc bump_malloc 3 16 (bump_new 0x1000 40, \<lambda>_. 0) = Some (length F, ptr, (h, m)) \<and> length F \<le> 3 \<and> sl_repr (ptr, m) F"
proof -
  have "bump_inv (bump_new 0x1000 40, \<lambda>_. 0) {}" "bump_ok 16" by (simp_all add: bump_inv_def bump_new_def bump_sanity_def bump_ok_def)
  from multimalloc_batch [OF bump.source_heap_axioms this, of 3] show ?thesis by auto
qed

text \<open>A \<open>BatchHeap\<close> with one full batch, to which an object is freed, follows \<open>NULL\<close> in the next allocation (with batches of one
  object already in the \<open>free\<close>): the object is counted for the second list and put into the first.\<close>

theorem BatchHeap_free_malloc_crashes:
  "0 < B \<Longrightarrow> bh_nObjects b = B \<Longrightarrow> bh_second b = 0 \<Longrightarrow>
   Option.bind (BatchHeap_free B sfree ptr ((b, h), m)) (BatchHeap_malloc B smalloc sz) = None"
  by (cases B) (auto simp: BatchHeap_free_def BatchHeap_malloc_def batch_pop_def Let_def)

theorem BatchHeap_free_malloc_crashes_witness:
  "Option.bind (BatchHeap_malloc 4 bump_malloc 16 ((BatchHeap_new, bump_new 0x1000 64), \<lambda>_. 0)) (\<lambda>(p, st).
     Option.bind (BatchHeap_free 4 bump_free p st) (\<lambda>st.
       Option.bind (BatchHeap_free 4 bump_free 0x2000 st) (BatchHeap_malloc 4 bump_malloc 16))) = None"
proof -
  have "BatchHeap_malloc 4 bump_malloc 16 ((BatchHeap_new, bump_new 0x1000 64), \<lambda>_. 0) =
    Some (0x1000, ((\<lparr>bh_nObjects = 3, bh_first = 0x1010, bh_second = 0\<rparr>, \<lparr>bp_start = 0x1000, bp_position = 0x1040, bp_remaining = 0, bp_magic = BUMP_MAGIC\<rparr>),
      (\<lambda>_. 0)(0x1000 := 0x1010, 0x1010 := 0x1020, 0x1020 := 0x1030, 0x1030 := 0)))"
    by (simp add: BatchHeap_malloc_def batch_pop_def BatchHeap_new_def multimalloc_def Let_def bump_malloc_def bump_new_def
        bump_sanity_def bump_round_def sizeof_double_def)
  then show ?thesis
    using BatchHeap_free_malloc_crashes [of 4 "\<lparr>bh_nObjects = 4, bh_first = 0x1000, bh_second = 0\<rparr>" bump_free "0x2000"]
    by (simp add: BatchHeap_free_def Let_def)
qed

text \<open>An allocation follows \<open>NULL\<close>, too, when the super heap has no more memory.\<close>

theorem BatchHeap_malloc_no_memory:
  "bh_nObjects b = 0 \<Longrightarrow> smalloc sz (h, m) = Some (0, st) \<Longrightarrow> BatchHeap_malloc B smalloc sz ((b, h), m) = None"
  by (auto simp: BatchHeap_malloc_def multimalloc_def batch_pop_def Let_def split: prod.split)

end
