(* ===== verification/Hl_Aligned.thy ===== *)
theory Hl_Aligned
  imports Hl_Source Hl_Bits
begin

text \<open>
  \<open>heaplayers/experimental/alignedchunk.h\<close>: \<open>AlignHeap\<close>, which aligns what it gets from \<open>malloc\<close>; \<open>AlignedChunk\<close>, the footer of
  an aligned chunk with 31 slots and a bitmap that threads change with \<open>InterlockedExchange\<close>; \<open>AlignedChunkHeap\<close>, which keeps
  empty chunks; and \<open>AlignedSlotHeap\<close>, which hands out slots. A footer is an object of a store that maps the addresses of the
  footers to their members; \<open>chunkSize\<close> and \<open>slotSize\<close>, the template arguments, come first.
\<close>

section \<open>\<open>AlignHeap\<close>\<close>

definition AlignHeap_malloc ::
  "u32 \<Rightarrow> (u32 \<Rightarrow> 'h hstate \<Rightarrow> (u32 \<times> 'h hstate) option) \<Rightarrow> u32 \<Rightarrow> 'h hstate \<Rightarrow> (u32 \<times> 'h hstate) option" where
  "AlignHeap_malloc chunkSize smalloc sz st =
     map_option (\<lambda>(buf, (h, m)).
         let alignedBuf = (buf + 4 + chunkSize - 1) AND - chunkSize
         in (alignedBuf, (h, m(alignedBuf - 4 := buf))))
       (smalloc (sz + chunkSize) st)"

definition AlignHeap_free :: "(u32 \<Rightarrow> 'h hstate \<Rightarrow> 'h hstate option) \<Rightarrow> u32 \<Rightarrow> 'h hstate \<Rightarrow> 'h hstate option" where
  "AlignHeap_free sfree ptr = (\<lambda>(h, m). sfree (m (ptr - 4)) (h, m))"

section \<open>\<open>AlignedChunk\<close>\<close>

datatype chunk_status = Released_chunk | Acquired_chunk

record achunk =
  ac_inUse :: int
  ac_freeBitmap :: u32
  ac_emptyBitmap :: u32
  ac_status :: chunk_status
  ac_prev :: u32
  ac_next :: u32

definition sizeof_AlignedChunk :: u32 where "sizeof_AlignedChunk = 24"

definition AlignedChunk_new :: achunk where
  "AlignedChunk_new =
     (let freeBitmap = BitIndex_set 0 0
      in \<lparr>ac_inUse = 0, ac_freeBitmap = freeBitmap, ac_emptyBitmap = freeBitmap, ac_status = Acquired_chunk, ac_prev = 0, ac_next = 0\<rparr>)"

definition ac_numSlots :: nat where "ac_numSlots = 31"

definition ac_isReleased :: "achunk \<Rightarrow> bool" where "ac_isReleased ch \<longleftrightarrow> ac_status ch = Released_chunk"
definition ac_acquire :: "achunk \<Rightarrow> achunk" where "ac_acquire ch = ch\<lparr>ac_status := Acquired_chunk\<rparr>"
definition ac_release :: "achunk \<Rightarrow> achunk" where "ac_release ch = ch\<lparr>ac_status := Released_chunk\<rparr>"

definition ac_getChunk :: "u32 \<Rightarrow> u32 \<Rightarrow> u32" where
  "ac_getChunk chunkSize slot =
     (let start = slot AND - chunkSize; eob = start + chunkSize; headerPos = eob - sizeof_AlignedChunk in headerPos)"

text \<open>The unset bit that \<open>getSlot\<close> takes, none when everything is in use.\<close>

definition ac_find :: "u32 \<Rightarrow> nat option" where
  "ac_find currBitmap =
     (if currBitmap = - 1 then None
      else let oneBit = NOT currBitmap AND - NOT currBitmap; bitIndex = BitIndex_msb oneBit
           in if bitIndex > ac_numSlots then None else Some bitIndex)"

definition ac_slot :: "u32 \<Rightarrow> u32 \<Rightarrow> u32 \<Rightarrow> nat \<Rightarrow> u32" where
  "ac_slot chunkSize slotSize this bitIndex = (this AND - chunkSize) + slotSize * of_nat (ac_numSlots - bitIndex)"

text \<open>The bit of a slot; none for a pointer behind the slots, whose index is not in the table of masks.\<close>

definition ac_index :: "u32 \<Rightarrow> u32 \<Rightarrow> u32 \<Rightarrow> nat option" where
  "ac_index chunkSize slotSize ptr =
     (let start = ptr AND - chunkSize; q = unat ((ptr - start) div slotSize)
      in if q \<le> ac_numSlots then Some (ac_numSlots - q) else None)"

text \<open>
  The atomic steps of a thread inside \<open>getSlot\<close> or \<open>putSlot\<close> of one chunk: the read of the bitmap, and the exchange, after
  which the call returns if the old value is the one that was read, and otherwise begins again. \<open>Returned_slot\<close> carries the
  result, a slot, or 1 if the chunk is empty.
\<close>

datatype acall = GetSlot | PutSlot u32
datatype apc = Begin_call acall | Bitmap_read acall u32 | Call_done u32

definition getSlot_step :: "u32 \<Rightarrow> u32 \<Rightarrow> u32 \<Rightarrow> achunk \<Rightarrow> apc \<Rightarrow> achunk \<times> apc" where
  "getSlot_step chunkSize slotSize this ch pc =
     (case pc of
        Bitmap_read c b \<Rightarrow>
          (case ac_find b of
             None \<Rightarrow> (ch, Call_done 0)
           | Some bitIndex \<Rightarrow>
               let oldBitmap = b; updatedBitmap = ac_freeBitmap ch; ch = ch\<lparr>ac_freeBitmap := BitIndex_set b bitIndex\<rparr>
               in if updatedBitmap = oldBitmap
                  then (ch\<lparr>ac_inUse := ac_inUse ch + 1\<rparr>, Call_done (ac_slot chunkSize slotSize this bitIndex))
                  else (ch, Begin_call c))
      | Begin_call c \<Rightarrow> (ch, Bitmap_read c (ac_freeBitmap ch))
      | Call_done r \<Rightarrow> (ch, Call_done r))"

definition putSlot_step :: "u32 \<Rightarrow> u32 \<Rightarrow> u32 \<Rightarrow> achunk \<Rightarrow> apc \<Rightarrow> (achunk \<times> apc) option" where
  "putSlot_step chunkSize slotSize ptr ch pc =
     (case pc of
        Bitmap_read c b \<Rightarrow>
          map_option (\<lambda>bitIndex.
            let oldBitmap = b; currBitmap = BitIndex_reset b bitIndex; updatedBitmap = ac_freeBitmap ch;
                ch = ch\<lparr>ac_freeBitmap := currBitmap\<rparr>
            in if updatedBitmap = oldBitmap
               then (ch\<lparr>ac_inUse := ac_inUse ch - 1\<rparr>, Call_done (if currBitmap = ac_emptyBitmap ch then 1 else 0))
               else (ch, Begin_call c)) (ac_index chunkSize slotSize ptr)
      | Begin_call c \<Rightarrow> Some (ch, Bitmap_read c (ac_freeBitmap ch))
      | Call_done r \<Rightarrow> Some (ch, Call_done r))"

definition pc_call :: "apc \<Rightarrow> acall option" where
  "pc_call pc = (case pc of Begin_call c \<Rightarrow> Some c | Bitmap_read c b \<Rightarrow> Some c | Call_done r \<Rightarrow> None)"

text \<open>One step of thread \<open>t\<close> on the chunk \<open>this\<close>.\<close>

definition achunk_step :: "u32 \<Rightarrow> u32 \<Rightarrow> u32 \<Rightarrow> nat \<Rightarrow> achunk \<times> (nat \<Rightarrow> apc) \<Rightarrow> (achunk \<times> (nat \<Rightarrow> apc)) option" where
  "achunk_step chunkSize slotSize this t = (\<lambda>(ch, pcs).
     case pc_call (pcs t) of
       None \<Rightarrow> Some (ch, pcs)
     | Some GetSlot \<Rightarrow> let (ch, pc) = getSlot_step chunkSize slotSize this ch (pcs t) in Some (ch, pcs(t := pc))
     | Some (PutSlot ptr) \<Rightarrow> map_option (\<lambda>(ch, pc). (ch, pcs(t := pc))) (putSlot_step chunkSize slotSize ptr ch (pcs t)))"

fun achunk_run :: "u32 \<Rightarrow> u32 \<Rightarrow> u32 \<Rightarrow> nat list \<Rightarrow> achunk \<times> (nat \<Rightarrow> apc) \<Rightarrow> (achunk \<times> (nat \<Rightarrow> apc)) option" where
  "achunk_run chunkSize slotSize this [] s = Some s"
| "achunk_run chunkSize slotSize this (t # ts) s =
     Option.bind (achunk_step chunkSize slotSize this t s) (achunk_run chunkSize slotSize this ts)"

text \<open>A call that no other thread interrupts: the exchange returns what was read.\<close>

definition ac_getSlot :: "u32 \<Rightarrow> u32 \<Rightarrow> u32 \<Rightarrow> achunk \<Rightarrow> u32 \<times> achunk" where
  "ac_getSlot chunkSize slotSize this ch =
     (case ac_find (ac_freeBitmap ch) of
        None \<Rightarrow> (0, ch)
      | Some bitIndex \<Rightarrow>
          let ch = ch\<lparr>ac_freeBitmap := BitIndex_set (ac_freeBitmap ch) bitIndex\<rparr>
          in (ac_slot chunkSize slotSize this bitIndex, ch\<lparr>ac_inUse := ac_inUse ch + 1\<rparr>))"

definition ac_putSlot :: "u32 \<Rightarrow> u32 \<Rightarrow> u32 \<Rightarrow> achunk \<Rightarrow> (bool \<times> achunk) option" where
  "ac_putSlot chunkSize slotSize ptr ch =
     map_option (\<lambda>bitIndex.
         let currBitmap = BitIndex_reset (ac_freeBitmap ch) bitIndex; ch = ch\<lparr>ac_freeBitmap := currBitmap\<rparr>
         in (currBitmap = ac_emptyBitmap ch, ch\<lparr>ac_inUse := ac_inUse ch - 1\<rparr>))
       (ac_index chunkSize slotSize ptr)"

lemma getSlot_alone:
  "pcs t = Begin_call GetSlot \<Longrightarrow>
   \<exists>pcs'. achunk_run chunkSize slotSize this [t, t] (ch, pcs) = Some (snd (ac_getSlot chunkSize slotSize this ch), pcs') \<and>
     pcs' t = Call_done (fst (ac_getSlot chunkSize slotSize this ch))"
  by (auto simp: achunk_step_def pc_call_def getSlot_step_def ac_getSlot_def Let_def split: option.splits)

lemma putSlot_alone:
  "pcs t = Begin_call (PutSlot p) \<Longrightarrow> ac_putSlot chunkSize slotSize p ch = Some (e, ch') \<Longrightarrow>
   \<exists>pcs'. achunk_run chunkSize slotSize this [t, t] (ch, pcs) = Some (ch', pcs') \<and> pcs' t = Call_done (if e then 1 else 0)"
  by (auto simp: achunk_step_def pc_call_def putSlot_step_def ac_putSlot_def Let_def)

section \<open>\<open>AlignedChunkHeap\<close>\<close>

type_synonym cmem = "u32 \<Rightarrow> achunk"

definition AlignedChunkHeap_new :: "u32 \<times> int" where "AlignedChunkHeap_new = (0, 0)"

text \<open>\<open>None\<close>: the footer of a chunk at \<open>NULL\<close> is written.\<close>

definition AlignedChunkHeap_malloc ::
  "u32 \<Rightarrow> (u32 \<Rightarrow> 's \<Rightarrow> (u32 \<times> 's) option) \<Rightarrow> u32 \<Rightarrow> cmem \<times> (u32 \<times> int) \<times> 's \<Rightarrow> (u32 \<times> cmem \<times> (u32 \<times> int) \<times> 's) option" where
  "AlignedChunkHeap_malloc chunkSize smalloc sz = (\<lambda>(C, (chunkList, len), s).
     if chunkList \<noteq> 0 then
       let ch = chunkList; chunkList = ac_next (C chunkList); len = len - 1; C = C(ch := ac_acquire (C ch))
       in Some (ch AND - chunkSize, C, (chunkList, len), s)
     else
       Option.bind (smalloc chunkSize s) (\<lambda>(buf, s).
         if buf = 0 then None
         else let ch = ac_getChunk chunkSize buf; C = C(ch := AlignedChunk_new)
              in Some (ch AND - chunkSize, C, (chunkList, len), s)))"

definition AlignedChunkHeap_free ::
  "int \<Rightarrow> u32 \<Rightarrow> (u32 \<Rightarrow> 's \<Rightarrow> 's option) \<Rightarrow> u32 \<Rightarrow> cmem \<times> (u32 \<times> int) \<times> 's \<Rightarrow> (cmem \<times> (u32 \<times> int) \<times> 's) option" where
  "AlignedChunkHeap_free maxFree chunkSize sfree ptr = (\<lambda>(C, (chunkList, len), s).
     let ch = ac_getChunk chunkSize ptr
     in if len > maxFree then map_option (\<lambda>s. (C, (chunkList, len), s)) (sfree (ch AND - chunkSize) s)
        else let C = C(ch := (C ch)\<lparr>ac_next := chunkList\<rparr>); chunkList = ch in Some (C, (chunkList, len + 1), s))"

text \<open>The loop of the destructor.\<close>

fun AlignedChunkHeap_delete :: "u32 \<Rightarrow> (u32 \<Rightarrow> 's \<Rightarrow> 's option) \<Rightarrow> cmem \<Rightarrow> nat \<Rightarrow> u32 \<Rightarrow> 's \<Rightarrow> 's option" where
  "AlignedChunkHeap_delete chunkSize sfree C 0 ch s = (if ch = 0 then Some s else None)"
| "AlignedChunkHeap_delete chunkSize sfree C (Suc n) ch s =
     (if ch = 0 then Some s
      else let tmp = ch; ch = ac_next (C ch)
           in Option.bind (sfree (tmp AND - chunkSize) s) (AlignedChunkHeap_delete chunkSize sfree C n ch))"

section \<open>\<open>AlignedSlotHeap\<close>\<close>

partial_function (option) AlignedSlotHeap_malloc ::
  "u32 \<Rightarrow> u32 \<Rightarrow> (u32 \<Rightarrow> cmem \<times> 's \<Rightarrow> (u32 \<times> cmem \<times> 's) option) \<Rightarrow> u32 \<Rightarrow> u32 \<times> cmem \<times> 's \<Rightarrow> (u32 \<times> u32 \<times> cmem \<times> 's) option" where
  "AlignedSlotHeap_malloc chunkSize slotSize cmalloc sz st =
     (case st of (my, C, s) \<Rightarrow>
        Option.bind
          (if my = 0 then map_option (\<lambda>(p, C, s). (ac_getChunk chunkSize p, C, s)) (cmalloc chunkSize (C, s)) else Some (my, C, s))
          (\<lambda>(my, C, s).
             let (ptr, ch) = ac_getSlot chunkSize slotSize my (C my); C = C(my := ch)
             in if ptr = 0 then AlignedSlotHeap_malloc chunkSize slotSize cmalloc sz (0, C(my := ac_release (C my)), s)
                else Some (ptr, my, C, s)))"

definition AlignedSlotHeap_free ::
  "u32 \<Rightarrow> u32 \<Rightarrow> (u32 \<Rightarrow> cmem \<times> 's \<Rightarrow> (cmem \<times> 's) option) \<Rightarrow> u32 \<Rightarrow> u32 \<times> cmem \<times> 's \<Rightarrow> (u32 \<times> cmem \<times> 's) option" where
  "AlignedSlotHeap_free chunkSize slotSize cfree ptr = (\<lambda>(my, C, s).
     let ch = ac_getChunk chunkSize ptr
     in Option.bind (ac_putSlot chunkSize slotSize ptr (C ch)) (\<lambda>(empty, c).
          let C = C(ch := c)
          in if empty \<and> ac_isReleased c then map_option (\<lambda>(C, s). (my, C, s)) (cfree (ch AND - chunkSize) (C, s))
             else Some (my, C, s)))"

definition AlignedSlotHeap_delete ::
  "u32 \<Rightarrow> (u32 \<Rightarrow> cmem \<times> 's \<Rightarrow> (cmem \<times> 's) option) \<Rightarrow> u32 \<times> cmem \<times> 's \<Rightarrow> (cmem \<times> 's) option" where
  "AlignedSlotHeap_delete chunkSize cfree = (\<lambda>(my, C, s).
     if my \<noteq> 0 then cfree (my AND - chunkSize) (C(my := ac_release (C my)), s) else Some (C, s))"

section \<open>Which slot is found\<close>

lemma unat_two_power: "k < 32 \<Longrightarrow> unat ((2 :: u32) ^ k) = 2 ^ k"
  using unat_of_nat32 [of "2 ^ k"] power_strict_increasing [of k 32 "2 :: nat"] by simp

lemma msb_power: "k < 32 \<Longrightarrow> BitIndex_msb (push_bit k 1) = k"
proof -
  assume k: "k < 32"
  then have u: "unat (push_bit k (1 :: u32)) = 2 ^ k" by (simp add: unat_two_power)
  then have "push_bit k (1 :: u32) \<noteq> 0" by (metis unat_0 power_not_zero zero_neq_numeral)
  from msb_bounds [OF this] u have b: "2 ^ BitIndex_msb (push_bit k 1) \<le> (2 :: nat) ^ k" "(2 :: nat) ^ k < 2 ^ Suc (BitIndex_msb (push_bit k 1))"
    by simp_all
  show ?thesis using power_le_imp_le_exp [OF _ b(1)] power_less_imp_less_exp [OF _ b(2)] by (simp add: le_antisym)
qed

lemma ac_find_Some:
  "b \<noteq> - 1 \<Longrightarrow> \<exists>i. ac_find b = Some i \<and> i \<le> 31 \<and> \<not> bit b i \<and> (\<forall>j < i. bit b j)"
proof -
  assume "b \<noteq> - 1"
  moreover have "b = - 1" if z: "NOT b = 0"
  proof -
    have "b = NOT (NOT b)" by (simp only: bit.double_compl)
    also have "\<dots> = NOT 0" by (simp only: z)
    finally show ?thesis by simp
  qed
  ultimately have "NOT b \<noteq> 0" by blast
  then obtain k where k: "k < 32" "bit (NOT b) k" "\<And>n. n < k \<Longrightarrow> \<not> bit (NOT b) n" "NOT b AND - NOT b = push_bit k 1"
    by (rule lowest_bit) blast
  have "ac_find b = Some k" using \<open>b \<noteq> - 1\<close> k(1) msb_power [OF k(1)] by (simp only: ac_find_def Let_def k(4)) (simp add: ac_numSlots_def)
  moreover have "bit b j" if "j < k" for j using k(1) k(3) [OF that] that by (simp add: bit_simps)
  ultimately show ?thesis using k(1,2) by (intro exI [of _ k]) (auto simp: bit_simps)
qed

lemma ac_find_None: "ac_find b = None \<longleftrightarrow> b = - 1"
  using ac_find_Some [of b] by (auto simp: ac_find_def)

section \<open>Addresses in an aligned chunk\<close>

lemma neg_power_mask: "- (2 ^ k) = (NOT (mask k) :: u32)"
  by (simp add: mask_eq_exp_minus_1 minus_eq_not_minus_1)

lemma unat_align: "unat ((p :: u32) AND - (2 ^ k)) = unat p div 2 ^ k * 2 ^ k"
  by (simp only: neg_power_mask unat_and_not_mask)

lemma aligned_room: "2 ^ k dvd unat (c :: u32) \<Longrightarrow> k < 32 \<Longrightarrow> unat c + 2 ^ k \<le> 2 ^ 32"
proof -
  assume d: "2 ^ k dvd unat c" and k: "k < 32"
  then obtain j where j: "unat c = 2 ^ k * j" by (auto elim: dvdE)
  have s: "(2 :: nat) ^ 32 = 2 ^ k * 2 ^ (32 - k)" using k by (simp add: power_add [symmetric])
  have "unat c < 2 ^ 32" using unsigned_less [of c] by simp
  then have "2 ^ k * j < 2 ^ k * 2 ^ (32 - k)" using j s by simp
  then have "j < 2 ^ (32 - k)" by (simp only: mult_less_cancel1)
  then have "2 ^ k * Suc j \<le> 2 ^ k * 2 ^ (32 - k)" by (intro mult_le_mono) simp_all
  then show ?thesis using j s by simp
qed

lemma chunk_offset:
  assumes "2 ^ k dvd unat (c :: u32)" and "k < 32" and "d < 2 ^ k"
  shows "unat (c + of_nat d) = unat c + d" and "(c + of_nat d) AND - (2 ^ k) = c"
proof -
  have d: "d < 2 ^ 32" using assms(2,3) power_strict_increasing [of k 32 "2 :: nat"] by linarith
  then have ud: "unat (of_nat d :: u32) = d" by (rule unat_of_nat32)
  show u: "unat (c + of_nat d) = unat c + d"
    using aligned_room [OF assms(1,2)] assms(3) ud by (subst unat_add_nowrap) simp_all
  have "unat ((c + of_nat d) AND - (2 ^ k)) = unat c"
    unfolding unat_align u using assms(1,3) by (auto elim!: dvdE simp: div_plus_div_distrib_dvd_left)
  then show "(c + of_nat d) AND - (2 ^ k) = c" by (simp only: word_unat_eq_iff)
qed

section \<open>A source of aligned chunks\<close>

text \<open>
  What \<open>AlignedChunkHeap\<close> needs of its super heap: chunks of \<open>2 ^ k\<close> bytes at multiples of their size. A source that runs
  out of memory is not covered, because \<open>AlignHeap\<close> returns a pointer then; \<open>avail\<close> says that the next chunk is there.
\<close>

locale aligned_source =
  fixes malloc :: "u32 \<Rightarrow> 'h hstate \<Rightarrow> (u32 \<times> 'h hstate) option"
    and free :: "u32 \<Rightarrow> 'h hstate \<Rightarrow> 'h hstate option"
    and avail :: "'h hstate \<Rightarrow> bool"
    and inv :: "'h hstate \<Rightarrow> block set \<Rightarrow> bool"
    and k :: nat
  assumes k_bounds: "3 \<le> k" "k < 32"
    and inv_blocks: "inv st L \<Longrightarrow> ok_blocks L"
    and malloc_law: "inv st L \<Longrightarrow> avail st \<Longrightarrow> \<exists>p st'. malloc (2 ^ k) st = Some (p, st') \<and> p \<noteq> 0 \<and> 2 ^ k dvd unat p \<and>
      inv st' (insert (p, 2 ^ k) L) \<and> (p, 2 ^ k) \<notin> L \<and> (\<forall>a. covered L a \<longrightarrow> snd st' a = snd st a)"
    and free_law: "inv st L \<Longrightarrow> (p, n) \<in> L \<Longrightarrow> \<exists>st'. free p st = Some st' \<and> inv st' (L - {(p, n)}) \<and>
      (\<forall>a. covered (L - {(p, n)}) a \<longrightarrow> snd st' a = snd st a)"
    and inv_write: "inv (h, m) L \<Longrightarrow> covered L a \<Longrightarrow> inv (h, m(a := v)) L"

text \<open>The block of the super heap around an aligned chunk, which the word in front of the chunk tells.\<close>

definition ah_block :: "nat \<Rightarrow> hmem \<Rightarrow> block \<Rightarrow> block" where
  "ah_block k m = (\<lambda>(a, n). (m (a - 4), n + 2 ^ k))"

definition ah_fits :: "nat \<Rightarrow> hmem \<Rightarrow> block \<Rightarrow> bool" where
  "ah_fits k m = (\<lambda>(a, n). n = 2 ^ k \<and> 2 ^ k dvd unat a \<and> unat (m (a - 4)) + 8 \<le> unat a \<and> unat a \<le> unat (m (a - 4)) + 2 ^ k)"

definition ah_inv :: "nat \<Rightarrow> ('h hstate \<Rightarrow> block set \<Rightarrow> bool) \<Rightarrow> 'h hstate \<Rightarrow> block set \<Rightarrow> bool" where
  "ah_inv k sinv = (\<lambda>(h, m) L. sinv (h, m) (ah_block k m ` L) \<and> inj_on (ah_block k m) L \<and> (\<forall>b \<in> L. ah_fits k m b))"

lemma ah_fits_blk: "ah_fits k m b \<Longrightarrow> blk b \<subseteq> blk (ah_block k m b)"
  by (auto simp: ah_fits_def ah_block_def blk_def split: prod.splits)

lemma ah_fits_word: "ah_fits k m b \<Longrightarrow> unat (fst b - 4) \<in> blk (ah_block k m b) \<and> unat (fst b - 4) \<notin> blk b"
  by (auto simp: ah_fits_def ah_block_def blk_def unat_sub word_le_nat_alt split: prod.splits)

lemma ah_ok_blocks:
  assumes ok: "ok_blocks (ah_block k m ` L)" and inj: "inj_on (ah_block k m) L" and fits: "\<forall>b \<in> L. ah_fits k m b" and k: "3 \<le> k"
  shows "ok_blocks L"
proof -
  have "ok_block b" if b: "b \<in> L" for b
  proof -
    have "ok_block (ah_block k m b)" using ok b by (auto simp: ok_blocks_def)
    moreover have "8 dvd unat (fst b)"
      using fits b le_imp_power_dvd [OF k, of "2 :: nat"] by (cases b) (auto simp: ah_fits_def intro: dvd_trans)
    ultimately show ?thesis using fits b by (auto simp: ah_fits_def ah_block_def ok_block_def split: prod.splits)
  qed
  moreover have "blk b \<inter> blk c = {}" if "b \<in> L" "c \<in> L" "b \<noteq> c" for b c
  proof -
    have "ah_block k m b \<noteq> ah_block k m c" using inj that by (auto dest: inj_onD)
    then have "blk (ah_block k m b) \<inter> blk (ah_block k m c) = {}" using that by (intro ok_blocks_apart [OF ok]) auto
    then show ?thesis using ah_fits_blk fits that by blast
  qed
  ultimately show ?thesis by (auto simp: ok_blocks_def pairwise_def)
qed

lemma ah_covered: "\<forall>b \<in> L. ah_fits k m b \<Longrightarrow> covered L a \<Longrightarrow> covered (ah_block k m ` L) a"
  using ah_fits_blk by (fastforce simp: covered_def)

lemma ah_word_covered: "\<forall>b \<in> L. ah_fits k m b \<Longrightarrow> b \<in> L \<Longrightarrow> covered (ah_block k m ` L) (fst b - 4)"
  using ah_fits_word by (fastforce simp: covered_def)

text \<open>No chunk covers the word in front of a chunk.\<close>

lemma ah_word_apart:
  assumes ok: "ok_blocks (ah_block k m ` L)" and inj: "inj_on (ah_block k m) L" and fits: "\<forall>b \<in> L. ah_fits k m b"
    and b: "b \<in> L" and a: "covered L a"
  shows "a \<noteq> fst b - 4"
proof
  assume e: "a = fst b - 4"
  obtain c where c: "c \<in> L" "unat a \<in> blk c" using a by (auto simp: covered_def)
  show False
  proof (cases "c = b")
    case True
    then show ?thesis using ah_fits_word [of k m b] fits b c(2) e by blast
  next
    case False
    then have "ah_block k m c \<noteq> ah_block k m b" using inj b c(1) by (auto dest: inj_onD)
    then have "blk (ah_block k m c) \<inter> blk (ah_block k m b) = {}" using b c(1) by (intro ok_blocks_apart [OF ok]) auto
    then show ?thesis using ah_fits_blk [of k m c] ah_fits_word [of k m b] fits b c e by blast
  qed
qed

lemma ah_block_cong: "m' (fst b - 4) = m (fst b - 4) \<Longrightarrow> ah_block k m' b = ah_block k m b \<and> ah_fits k m' b = ah_fits k m b"
  by (auto simp: ah_block_def ah_fits_def split: prod.splits)

lemma ah_inv_cong:
  assumes "\<And>b. b \<in> L \<Longrightarrow> m' (fst b - 4) = m (fst b - 4)"
  shows "ah_block k m' ` L = ah_block k m ` L" and "inj_on (ah_block k m') L = inj_on (ah_block k m) L"
    and "(\<forall>b \<in> L. ah_fits k m' b) = (\<forall>b \<in> L. ah_fits k m b)"
  using ah_block_cong [of m' _ m k] assms by (auto intro!: image_cong inj_on_cong)

locale align_over = source_heap +
  fixes k :: nat
  assumes k_range: "3 \<le> k" "k \<le> 30" and chunk_ok: "oksize (2 ^ k + 2 ^ k)"

definition ah_avail :: "nat \<Rightarrow> (u32 \<Rightarrow> 'h hstate \<Rightarrow> (u32 \<times> 'h hstate) option) \<Rightarrow> 'h hstate \<Rightarrow> bool" where
  "ah_avail k smalloc st \<longleftrightarrow> (case smalloc (2 ^ k + 2 ^ k) st of None \<Rightarrow> False | Some (p, _) \<Rightarrow> p \<noteq> 0)"

text \<open>The aligned address lies in the block, behind a word of it, and leaves room for the chunk.\<close>

lemma align_address:
  assumes "3 \<le> k" and "k \<le> 30" and "8 dvd unat buf" and "unat buf + 2 ^ (k + 1) < 2 ^ 32"
  shows "2 ^ k dvd unat ((buf + 4 + 2 ^ k - 1) AND - (2 ^ k :: u32))"
    and "unat buf + 8 \<le> unat ((buf + 4 + 2 ^ k - 1) AND - (2 ^ k :: u32))"
    and "unat ((buf + 4 + 2 ^ k - 1) AND - (2 ^ k :: u32)) \<le> unat buf + 2 ^ k"
proof -
  let ?q = "2 ^ k :: nat" and ?b = "unat buf"
  have e: "buf + 4 + 2 ^ k - 1 = buf + of_nat (?q + 3)" by simp
  have q: "?b + (?q + 3) < 2 ^ 32" using assms(4) power_increasing [OF assms(1), of "2 :: nat"] by simp
  then have un: "unat (of_nat (?q + 3) :: u32) = ?q + 3" by (intro unat_of_nat32) linarith
  have u: "unat (buf + of_nat (?q + 3)) = ?b + (?q + 3)" using q un unat_add_nowrap [of buf "of_nat (?q + 3)"] by simp
  obtain j where j: "?b = 8 * j" using assms(3) by (auto elim: dvdE)
  obtain i where i: "?q = 8 * i" using le_imp_power_dvd [OF assms(1), of "2 :: nat"] by (auto elim: dvdE)
  have i0: "0 < i" using i by (cases i) auto
  have dd: "(?b + (?q + 3)) div ?q * ?q = (8 * j) div (8 * i) * (8 * i) + 8 * i"
  proof -
    have "(8 * j + 3) div (8 * i) = (8 * j) div (8 * i)"
    proof -
      have "8 * j + 3 = 8 * (j mod i) + 3 + (j div i) * (8 * i)" 
        using arg_cong [OF div_mult_mod_eq [of j i], of "\<lambda>x. 8 * x + 3"] by (simp only: distrib_left mult.assoc mult.left_commute add.commute add.left_commute)
      then have "(8 * j + 3) div (8 * i) = (8 * (j mod i) + 3) div (8 * i) + j div i" using i0 by (simp only: div_mult_self3) simp
      moreover have "8 * (j mod i) + 3 < 8 * i" using mod_less_divisor [OF i0, of j] by linarith
      ultimately show ?thesis by simp
    qed
    then show ?thesis using i0 div_add_self1 [of "8 * i" "8 * j + 3"] by (simp add: j i add.left_commute [of "8 * j"] add.assoc)
  qed
  show "2 ^ k dvd unat ((buf + 4 + 2 ^ k - 1) AND - (2 ^ k :: u32))" by (simp only: unat_align) simp
  have m: "(8 * j) div (8 * i) * (8 * i) + (8 * j) mod (8 * i) = 8 * j" "(8 * j) mod (8 * i) = 8 * (j mod i)" "j mod i < i"
    using i0 div_mult_mod_eq [of "8 * j" "8 * i"] by simp_all
  show "?b + 8 \<le> unat ((buf + 4 + 2 ^ k - 1) AND - (2 ^ k :: u32))"
    unfolding e unat_align u dd using m j by linarith
  show "unat ((buf + 4 + 2 ^ k - 1) AND - (2 ^ k :: u32)) \<le> ?b + ?q"
    unfolding e unat_align u dd using m j i by linarith
qed

sublocale align_over \<subseteq> aligned:
  aligned_source "AlignHeap_malloc (2 ^ k) malloc" "AlignHeap_free free" "ah_avail k malloc" "ah_inv k inv" k
proof unfold_locales
  show "3 \<le> k" "k < 32" using k_range by simp_all
next
  fix st :: "'a hstate" and L
  assume "ah_inv k inv st L"
  then have "inv (fst st, snd st) (ah_block k (snd st) ` L)" "inj_on (ah_block k (snd st)) L" "\<forall>b \<in> L. ah_fits k (snd st) b"
    by (auto simp: ah_inv_def case_prod_unfold)
  from ah_ok_blocks [OF inv_blocks [OF this(1)] this(2,3) k_range(1)] show "ok_blocks L" .
next
  fix st :: "'a hstate" and L
  assume i: "ah_inv k inv st L" and av: "ah_avail k malloc st"
  obtain h m where st: "st = (h, m)" by (cases st)
  let ?X = "ah_block k m ` L"
  have X: "inv st ?X" "inj_on (ah_block k m) L" "\<forall>b \<in> L. ah_fits k m b" using i by (auto simp: ah_inv_def st)
  have sz: "unat (2 ^ k + 2 ^ k :: u32) = 2 ^ k + 2 ^ k"
    using k_range unat_two_power [of "k + 1"] by (simp add: mult_2 [symmetric])
  from X(1) chunk_ok show "\<exists>p st'. AlignHeap_malloc (2 ^ k) malloc (2 ^ k) st = Some (p, st') \<and> p \<noteq> 0 \<and> 2 ^ k dvd unat p \<and>
      ah_inv k inv st' (insert (p, 2 ^ k) L) \<and> (p, 2 ^ k) \<notin> L \<and> (\<forall>a. covered L a \<longrightarrow> snd st' a = snd st a)"
  proof (cases rule: malloc_cases)
    case (null st1)
    then show ?thesis using av by (simp add: ah_avail_def)
  next
    case (block buf st1)
    obtain h1 m1 where st1: "st1 = (h1, m1)" by (cases st1)
    let ?p = "(buf + 4 + 2 ^ k - 1) AND - (2 ^ k :: u32)"
    let ?m = "m1(?p - 4 := buf)" and ?b = "(buf, 2 ^ k + 2 ^ k)"
    have bl: "ok_blocks (insert ?b ?X)" using inv_blocks [OF block(3)] sz by simp
    then have "8 dvd unat buf" "unat buf + 2 ^ (k + 1) < 2 ^ 32" by (auto simp: ok_blocks_insert ok_block_def mult_2)
    note al = align_address [OF k_range this]
    have new: "ah_fits k ?m (?p, 2 ^ k)" "ah_block k ?m (?p, 2 ^ k) = ?b" using al by (simp_all add: ah_fits_def ah_block_def)
    have nX: "?b \<notin> ?X" using block(4) sz by simp
    have w: "unat (?p - 4) \<in> blk ?b" using ah_fits_word [OF new(1)] new(2) by simp
    have apart: "a \<noteq> ?p - 4" if a: "covered ?X a" for a
    proof
      assume e: "a = ?p - 4"
      obtain c where c: "c \<in> ?X" "unat (?p - 4) \<in> blk c" using a unfolding covered_def e by blast
      have "c \<noteq> ?b" using nX c(1) by metis
      then have "blk c \<inter> blk ?b = {}" using c(1) by (intro ok_blocks_apart [OF bl]) simp_all
      then show False using c(2) w by blast
    qed
    have same: "?m a = m a" if "covered ?X a" for a
      using block(5) [rule_format, OF that] apart [OF that] by (simp add: st st1)
    have words: "?m (fst c - 4) = m (fst c - 4)" if "c \<in> L" for c using ah_word_covered [OF X(3) that] by (rule same)
    note cong = ah_inv_cong [of L ?m m k, OF words]
    have "inv (h1, m1) (insert ?b ?X)" using block(3) by (simp only: st1 sz)
    then have i1: "inv (h1, ?m) (insert ?b ?X)" using w by (intro inv_write) simp_all
    have "ah_inv k inv (h1, ?m) (insert (?p, 2 ^ k) L)"
      unfolding ah_inv_def prod.case image_insert new(2) cong(1) inj_on_insert
      using i1 new cong X(2,3) nX by (auto simp: cong(1) simp del: fun_upd_apply)
    moreover have "(?p, 2 ^ k) \<notin> L"
    proof
      assume p: "(?p, 2 ^ k) \<in> L"
      have "covered ?X (?p - 4)" using ah_word_covered [OF X(3) p] by (simp only: fst_conv)
      from apart [OF this] show False by blast
    qed
    moreover have "?p \<noteq> 0" using al(2) by (metis add_is_0 le_zero_eq unat_0 zero_neq_numeral)
    moreover have "snd (h1, ?m) a = snd st a" if "covered L a" for a
      using same [OF ah_covered [OF X(3) that]] by (simp add: st)
    moreover have "AlignHeap_malloc (2 ^ k) malloc (2 ^ k) st = Some (?p, (h1, ?m))"
      using block(1) by (simp add: AlignHeap_malloc_def st1 Let_def)
    ultimately show ?thesis using al(1) by blast
  qed
next
  fix st :: "'a hstate" and L p n
  assume i: "ah_inv k inv st L" and pL: "(p, n) \<in> L"
  obtain h m where st: "st = (h, m)" by (cases st)
  have X: "inv (h, m) (ah_block k m ` L)" "inj_on (ah_block k m) L" "\<forall>b \<in> L. ah_fits k m b" using i by (auto simp: ah_inv_def st)
  have b: "ah_block k m (p, n) = (m (p - 4), n + 2 ^ k)" by (simp add: ah_block_def)
  have "(m (p - 4), n + 2 ^ k) \<in> ah_block k m ` L" using pL b by (metis image_eqI)
  from free_law [OF X(1) this] obtain h1 m1 where f: "free (m (p - 4)) (h, m) = Some (h1, m1)"
    "inv (h1, m1) (ah_block k m ` L - {(m (p - 4), n + 2 ^ k)})"
    "\<And>a. covered (ah_block k m ` L - {(m (p - 4), n + 2 ^ k)}) a \<Longrightarrow> m1 a = m a" by auto
  have r: "ah_block k m ` L - {(m (p - 4), n + 2 ^ k)} = ah_block k m ` (L - {(p, n)})"
    using inj_on_image_set_diff [OF X(2), of L "{(p, n)}"] pL by (simp add: b)
  have fits: "\<forall>b \<in> L - {(p, n)}. ah_fits k m b" using X(3) by simp
  have words: "m1 (fst c - 4) = m (fst c - 4)" if "c \<in> L - {(p, n)}" for c
    using ah_word_covered [OF fits that] by (intro f(3)) (simp only: r)
  have cong: "ah_block k m1 ` (L - {(p, n)}) = ah_block k m ` (L - {(p, n)})"
    "inj_on (ah_block k m1) (L - {(p, n)}) = inj_on (ah_block k m) (L - {(p, n)})"
    "(\<forall>b \<in> L - {(p, n)}. ah_fits k m1 b) = (\<forall>b \<in> L - {(p, n)}. ah_fits k m b)"
    by (rule ah_inv_cong(1), erule words, rule ah_inv_cong(2), erule words, rule ah_inv_cong(3), erule words)
  have "ah_inv k inv (h1, m1) (L - {(p, n)})"
    using f(2) [unfolded r] fits inj_on_subset [OF X(2), of "L - {(p, n)}"] unfolding ah_inv_def prod.case cong by auto
  moreover have "m1 a = m a" if "covered (L - {(p, n)}) a" for a
    using ah_covered [OF fits that] by (intro f(3)) (simp only: r)
  ultimately show "\<exists>st'. AlignHeap_free free p st = Some st' \<and> ah_inv k inv st' (L - {(p, n)}) \<and>
      (\<forall>a. covered (L - {(p, n)}) a \<longrightarrow> snd st' a = snd st a)"
    using f(1) by (intro exI [of _ "(h1, m1)"]) (simp add: AlignHeap_free_def st)
next
  fix h :: 'a and m L a v
  assume i: "ah_inv k inv (h, m) L" and a: "covered L a"
  have X: "inv (h, m) (ah_block k m ` L)" "inj_on (ah_block k m) L" "\<forall>b \<in> L. ah_fits k m b" using i by (auto simp: ah_inv_def)
  have words: "(m(a := v)) (fst c - 4) = m (fst c - 4)" if "c \<in> L" for c
    using ah_word_apart [OF inv_blocks [OF X(1)] X(2,3) that a] by simp
  have cong: "ah_block k (m(a := v)) ` L = ah_block k m ` L" "inj_on (ah_block k (m(a := v))) L = inj_on (ah_block k m) L"
    "(\<forall>b \<in> L. ah_fits k (m(a := v)) b) = (\<forall>b \<in> L. ah_fits k m b)"
    by (rule ah_inv_cong(1), erule words, rule ah_inv_cong(2), erule words, rule ah_inv_cong(3), erule words)
  show "ah_inv k inv (h, m(a := v)) L"
    using inv_write [OF X(1) ah_covered [OF X(3) a]] X(2,3) unfolding ah_inv_def prod.case cong by auto
qed

interpretation align_bump: align_over bump_malloc bump_free bump_ok bump_inv 12
  by unfold_locales (simp_all add: bump_ok_def)

section \<open>Slots of aligned chunks\<close>

text \<open>The address of the footer and of slot \<open>i\<close> of the chunk that begins at \<open>c\<close>.\<close>

definition foot_at :: "nat \<Rightarrow> u32 \<Rightarrow> u32" where "foot_at k c = c + of_nat (2 ^ k - 24)"
definition slot_at :: "u32 \<Rightarrow> u32 \<Rightarrow> nat \<Rightarrow> u32" where "slot_at ss c i = c + of_nat (unat ss * (31 - i))"

definition slot_geometry :: "nat \<Rightarrow> u32 \<Rightarrow> bool" where
  "slot_geometry k ss \<longleftrightarrow> k < 32 \<and> 8 dvd unat ss \<and> 0 < unat ss \<and> 31 * unat ss + 24 \<le> 2 ^ k"

lemma of_nat_foot: "24 \<le> (2 :: nat) ^ k \<Longrightarrow> (of_nat (2 ^ k - 24) :: u32) = 2 ^ k - 24"
  by (simp add: of_nat_diff)

lemma slot_offset: "slot_geometry k ss \<Longrightarrow> unat ss * (31 - i) + unat ss * (if i = 0 then 0 else 1) + 24 \<le> 2 ^ k"
proof -
  assume g: "slot_geometry k ss"
  have "unat ss * (31 - i) + unat ss * (if i = 0 then 0 else 1) \<le> unat ss * 31"
    by (cases i) (auto simp: algebra_simps simp flip: mult_Suc_right intro!: mult_le_mono)
  then show ?thesis using g by (simp add: slot_geometry_def)
qed

lemma slot_offset_less: "slot_geometry k ss \<Longrightarrow> unat ss * (31 - i) < 2 ^ k" "slot_geometry k ss \<Longrightarrow> 2 ^ k - 24 < (2 :: nat) ^ k"
  using slot_offset [of k ss i] by (auto split: if_splits)

lemma slot_geometry_bounds: "slot_geometry k ss \<Longrightarrow> k < 32 \<and> 24 \<le> (2 :: nat) ^ k"
  by (auto simp: slot_geometry_def)

lemma getChunk_in: "slot_geometry k ss \<Longrightarrow> 2 ^ k dvd unat c \<Longrightarrow> d < 2 ^ k \<Longrightarrow> ac_getChunk (2 ^ k) (c + of_nat d) = foot_at k c"
  using slot_geometry_bounds of_nat_foot chunk_offset(2)
  by (simp add: ac_getChunk_def Let_def foot_at_def sizeof_AlignedChunk_def)

lemma getChunk_start: "slot_geometry k ss \<Longrightarrow> 2 ^ k dvd unat c \<Longrightarrow> ac_getChunk (2 ^ k) c = foot_at k c"
  using getChunk_in [of k ss c 0] by simp

lemma getChunk_slot: "slot_geometry k ss \<Longrightarrow> 2 ^ k dvd unat c \<Longrightarrow> ac_getChunk (2 ^ k) (slot_at ss c i) = foot_at k c"
  unfolding slot_at_def by (rule getChunk_in [OF _ _ slot_offset_less(1)])

lemma foot_start: "slot_geometry k ss \<Longrightarrow> 2 ^ k dvd unat c \<Longrightarrow> foot_at k c AND - (2 ^ k) = c"
  unfolding foot_at_def using slot_geometry_bounds slot_offset_less(2) by (intro chunk_offset(2)) blast+

lemma slot_start: "slot_geometry k ss \<Longrightarrow> 2 ^ k dvd unat c \<Longrightarrow> slot_at ss c i AND - (2 ^ k) = c"
  unfolding slot_at_def using slot_geometry_bounds slot_offset_less(1) by (intro chunk_offset(2)) blast+

lemma unat_slot: "slot_geometry k ss \<Longrightarrow> 2 ^ k dvd unat c \<Longrightarrow> unat (slot_at ss c i) = unat c + unat ss * (31 - i)"
  unfolding slot_at_def using slot_geometry_bounds slot_offset_less(1) by (intro chunk_offset(1)) blast+

lemma ac_slot_foot: "slot_geometry k ss \<Longrightarrow> 2 ^ k dvd unat c \<Longrightarrow> ac_slot (2 ^ k) ss (foot_at k c) i = slot_at ss c i"
  by (simp add: ac_slot_def foot_start slot_at_def ac_numSlots_def)

lemma ac_index_slot:
  assumes g: "slot_geometry k ss" and c: "2 ^ k dvd unat c" and i: "i \<le> 31"
  shows "ac_index (2 ^ k) ss (slot_at ss c i) = Some i"
proof -
  have "unat ss * (31 - i) < 2 ^ 32"
    using slot_offset_less(1) [OF g, of i] slot_geometry_bounds [OF g] power_strict_increasing [of k 32 "2 :: nat"] by linarith
  then have "unat ((slot_at ss c i - c) div ss) = 31 - i"
    using g by (simp add: slot_at_def unat_div unat_of_nat32 slot_geometry_def del: of_nat_mult)
  then show ?thesis using i by (simp add: ac_index_def Let_def slot_start [OF g c] ac_numSlots_def)
qed

lemma foot_nonzero: "slot_geometry k ss \<Longrightarrow> 2 ^ k dvd unat c \<Longrightarrow> c \<noteq> 0 \<Longrightarrow> foot_at k c \<noteq> 0"
  using foot_start [of k ss c] by auto

lemma slot_nonzero: "slot_geometry k ss \<Longrightarrow> 2 ^ k dvd unat c \<Longrightarrow> c \<noteq> 0 \<Longrightarrow> slot_at ss c i \<noteq> 0"
  using slot_start [of k ss c i] by auto

lemma foot_inj: "slot_geometry k ss \<Longrightarrow> 2 ^ k dvd unat c \<Longrightarrow> 2 ^ k dvd unat d \<Longrightarrow> foot_at k c = foot_at k d \<longleftrightarrow> c = d"
  by (metis foot_start)

lemma slot_inj:
  "slot_geometry k ss \<Longrightarrow> 2 ^ k dvd unat c \<Longrightarrow> 2 ^ k dvd unat d \<Longrightarrow> i \<le> 31 \<Longrightarrow> j \<le> 31 \<Longrightarrow>
   slot_at ss c i = slot_at ss d j \<longleftrightarrow> c = d \<and> i = j"
  by (metis slot_start ac_index_slot option.inject)

section \<open>The invariant of the slot heap\<close>

fun achain :: "nat \<Rightarrow> cmem \<Rightarrow> u32 \<Rightarrow> u32 list \<Rightarrow> bool" where
  "achain k C cl [] \<longleftrightarrow> cl = 0"
| "achain k C cl (c # cs) \<longleftrightarrow> cl = foot_at k c \<and> achain k C (ac_next (C cl)) cs"

lemma achain_cong: "(\<And>c. c \<in> set es \<Longrightarrow> ac_next (C' (foot_at k c)) = ac_next (C (foot_at k c))) \<Longrightarrow> achain k C' cl es = achain k C cl es"
  by (induction es arbitrary: cl) auto

text \<open>The bitmap of the chunk at \<open>c\<close> marks the slots of \<open>S\<close>.\<close>

definition bitmap_ok :: "nat \<Rightarrow> u32 \<Rightarrow> u32 set \<Rightarrow> achunk \<Rightarrow> u32 \<Rightarrow> bool" where
  "bitmap_ok k ss S ch c \<longleftrightarrow> ac_emptyBitmap ch = 1 \<and> bit (ac_freeBitmap ch) 0 \<and>
     (\<forall>i \<in> {1 .. 31}. bit (ac_freeBitmap ch) i \<longleftrightarrow> slot_at ss c i \<in> S)"

text \<open>
  \<open>A\<close> are the chunks taken from the super heap, \<open>es\<close> those in the list of empty chunks; the chunk in use is acquired, the others
  are released and empty exactly if they are in the list.
\<close>

definition slots_ok :: "nat \<Rightarrow> u32 \<Rightarrow> u32 \<Rightarrow> cmem \<Rightarrow> u32 \<Rightarrow> int \<Rightarrow> u32 set \<Rightarrow> u32 set \<Rightarrow> u32 list \<Rightarrow> bool" where
  "slots_ok k ss my C cl len S A es \<longleftrightarrow>
     (\<forall>c \<in> A. c \<noteq> 0 \<and> 2 ^ k dvd unat c) \<and> set es \<subseteq> A \<and> distinct es \<and> len = int (length es) \<and> achain k C cl es \<and>
     (my \<noteq> 0 \<longrightarrow> (\<exists>c \<in> A. my = foot_at k c)) \<and>
     (\<forall>c \<in> A. bitmap_ok k ss S (C (foot_at k c)) c) \<and>
     (\<forall>c \<in> A. if foot_at k c = my then c \<notin> set es \<and> ac_status (C my) = Acquired_chunk
        else ac_status (C (foot_at k c)) = Released_chunk \<and> (c \<in> set es \<longleftrightarrow> ac_freeBitmap (C (foot_at k c)) = 1)) \<and>
     S \<subseteq> {slot_at ss c i | c i. c \<in> A \<and> 1 \<le> i \<and> i \<le> 31}"

definition slot_inv ::
  "nat \<Rightarrow> u32 \<Rightarrow> ('h hstate \<Rightarrow> block set \<Rightarrow> bool) \<Rightarrow> u32 \<times> cmem \<times> (u32 \<times> int) \<times> 'h hstate \<Rightarrow> u32 set \<Rightarrow> bool" where
  "slot_inv k ss sinv = (\<lambda>(my, C, (cl, len), st) S. \<exists>A es. slots_ok k ss my C cl len S A es \<and> sinv st ((\<lambda>c. (c, 2 ^ k)) ` A))"

lemma bit_one: "bit (1 :: u32) i \<longleftrightarrow> i = 0"
  by (simp add: bit_1_iff)

lemma only_bit0: "bit (b :: u32) 0 \<Longrightarrow> (\<forall>i \<in> {1 .. 31}. \<not> bit b i) \<longleftrightarrow> b = 1"
proof
  assume b: "bit b 0" and n: "\<forall>i \<in> {1 .. 31}. \<not> bit b i"
  show "b = 1"
  proof (rule bit_eqI)
    fix i
    show "bit b i = bit (1 :: u32) i"
    proof (cases "i = 0 \<or> 31 < i")
      case True
      then show ?thesis using b bit_imp_le_length [of b i] by (auto simp: bit_one)
    next
      case False
      then show ?thesis using n by (auto simp: bit_one)
    qed
  qed
qed (auto simp: bit_one)

text \<open>A list of empty chunks gives its first; the chunk becomes the chunk in use.\<close>

lemma reuse_chunk:
  assumes g: "slot_geometry k ss" and i: "slots_ok k ss 0 C cl len S A es" and cl: "cl \<noteq> 0"
  obtains c es' where "c \<in> A" "cl = foot_at k c" "es = c # es'" "ac_freeBitmap (C cl) = 1"
    "slots_ok k ss cl (C(cl := ac_acquire (C cl))) (ac_next (C cl)) (len - 1) S A es'"
proof (cases es)
  case Nil
  then show thesis using i cl by (simp add: slots_ok_def)
next
  case (Cons c es')
  have A: "c \<in> A" "2 ^ k dvd unat c" "cl = foot_at k c" "achain k C (ac_next (C cl)) es'" "c \<notin> set es'"
    using i Cons by (auto simp: slots_ok_def)
  have al: "2 ^ k dvd unat d" if "d \<in> A" for d using i that by (auto simp: slots_ok_def)
  have ft: "foot_at k d = cl \<longleftrightarrow> d = c" if "d \<in> A" for d using foot_inj [OF g al [OF that] A(2)] A(3) by simp
  have n0: "foot_at k d \<noteq> 0" if "d \<in> A" for d using foot_nonzero [OF g al [OF that]] i that by (auto simp: slots_ok_def)
  let ?C = "C(cl := ac_acquire (C cl))"
  have ch: "achain k ?C (ac_next (C cl)) es'"
    using A(4) by (subst achain_cong [of es' _ k C]) (auto simp: ac_acquire_def)
  have "ac_freeBitmap (C cl) = 1" using i A(1,3) n0 Cons by (fastforce simp: slots_ok_def)
  moreover have "slots_ok k ss cl ?C (ac_next (C cl)) (len - 1) S A es'"
    using i ch A ft n0 Cons by (auto simp: slots_ok_def bitmap_ok_def ac_acquire_def)
  ultimately show thesis using that A(1,3) Cons by blast
qed

text \<open>A new chunk.\<close>

lemma new_chunk:
  assumes g: "slot_geometry k ss" and i: "slots_ok k ss 0 C 0 len S A es" and c: "c \<noteq> 0" "2 ^ k dvd unat c" "c \<notin> A"
  shows "slots_ok k ss (foot_at k c) (C(foot_at k c := AlignedChunk_new)) 0 len S (insert c A) es"
proof -
  have al: "2 ^ k dvd unat d" if "d \<in> A" for d using i that by (auto simp: slots_ok_def)
  have ft: "foot_at k d = foot_at k c \<longleftrightarrow> False" if "d \<in> A" for d
    using foot_inj [OF g al [OF that] c(2)] c(3) that by auto
  have n0: "foot_at k d \<noteq> 0" if "d \<in> A" for d using foot_nonzero [OF g al [OF that]] i that by (auto simp: slots_ok_def)
  have es: "es = []" using i n0 by (cases es) (auto simp: slots_ok_def)
  have nS: "slot_at ss c j \<notin> S" if "j \<le> 31" for j
  proof
    assume "slot_at ss c j \<in> S"
    then obtain d j' where "d \<in> A" "slot_at ss c j = slot_at ss d j'" "j' \<le> 31" using i unfolding slots_ok_def by blast
    then show False using slot_inj [OF g c(2) al that] c(3) by blast
  qed
  have "bitmap_ok k ss S AlignedChunk_new c"
    using nS by (auto simp: bitmap_ok_def AlignedChunk_new_def Let_def BitIndex_set_def BitIndex_on_def bit_one)
  then have "\<forall>d \<in> insert c A. bitmap_ok k ss S ((C(foot_at k c := AlignedChunk_new)) (foot_at k d)) d"
    using i ft by (auto simp: slots_ok_def)
  moreover have "ac_status AlignedChunk_new = Acquired_chunk" by (simp add: AlignedChunk_new_def Let_def)
  moreover have "S \<subseteq> {slot_at ss d j | d j. d \<in> insert c A \<and> 1 \<le> j \<and> j \<le> 31}" using i unfolding slots_ok_def by blast
  moreover have "\<forall>d \<in> A. ac_status (C (foot_at k d)) = Released_chunk \<and> ac_freeBitmap (C (foot_at k d)) \<noteq> 1"
    using i n0 es by (auto simp: slots_ok_def)
  moreover have "len = 0" using i es by (simp add: slots_ok_def)
  ultimately show ?thesis using i c ft es unfolding slots_ok_def by simp
qed

text \<open>A slot is taken from the chunk in use.\<close>

lemma take_slot:
  assumes g: "slot_geometry k ss" and i: "slots_ok k ss my C cl len S A es" and my: "my \<noteq> 0" and nf: "ac_freeBitmap (C my) \<noteq> - 1"
  obtains c n where "c \<in> A" "my = foot_at k c" "1 \<le> n" "n \<le> 31" "slot_at ss c n \<notin> S"
    "fst (ac_getSlot (2 ^ k) ss my (C my)) = slot_at ss c n"
    "slots_ok k ss my (C(my := snd (ac_getSlot (2 ^ k) ss my (C my)))) cl len (insert (slot_at ss c n) S) A es"
proof -
  obtain c where c: "c \<in> A" "my = foot_at k c" using i my by (auto simp: slots_ok_def)
  have al: "2 ^ k dvd unat d" if "d \<in> A" for d using i that by (auto simp: slots_ok_def)
  obtain n where n: "ac_find (ac_freeBitmap (C my)) = Some n" "n \<le> 31" "\<not> bit (ac_freeBitmap (C my)) n"
    using ac_find_Some [OF nf] by blast
  have bm: "bitmap_ok k ss S (C my) c" using i c by (auto simp: slots_ok_def)
  then have n1: "1 \<le> n" using n(3) by (cases n) (auto simp: bitmap_ok_def)
  let ?p = "slot_at ss c n"
  have pS: "?p \<notin> S" using bm n n1 by (auto simp: bitmap_ok_def)
  have ft: "foot_at k d = my \<longleftrightarrow> d = c" if "d \<in> A" for d using foot_inj [OF g al [OF that] al [OF c(1)]] c(2) by simp
  have sl: "slot_at ss d j = ?p \<longleftrightarrow> d = c \<and> j = n" if "d \<in> A" "j \<le> 31" for d j
    using slot_inj [OF g al [OF that(1)] al [OF c(1)] that(2) n(2)] .
  define ch where "ch = snd (ac_getSlot (2 ^ k) ss my (C my))"
  have get: "fst (ac_getSlot (2 ^ k) ss my (C my)) = ?p" "ac_freeBitmap ch = BitIndex_set (ac_freeBitmap (C my)) n"
    "ac_status ch = ac_status (C my)" "ac_emptyBitmap ch = ac_emptyBitmap (C my)" "ac_next ch = ac_next (C my)"
    using n(1) ac_slot_foot [OF g al [OF c(1)]] by (simp_all add: ac_getSlot_def Let_def c(2) ch_def)
  have chn: "achain k (C(my := ch)) cl es = achain k C cl es" by (rule achain_cong) (simp add: get(5))
  have "bitmap_ok k ss (insert ?p S) (if d = c then ch else C (foot_at k d)) d" if d: "d \<in> A" for d
  proof -
    have "bitmap_ok k ss S (C (foot_at k d)) d" using i d by (auto simp: slots_ok_def)
    then show ?thesis using sl [OF d] n(2) c(2) by (auto simp: bitmap_ok_def get BitIndex_set_bit)
  qed
  then have "\<forall>d \<in> A. bitmap_ok k ss (insert ?p S) ((C(my := ch)) (foot_at k d)) d" using ft by auto
  then have "slots_ok k ss my (C(my := ch)) cl len (insert ?p S) A es"
    using i chn ft c(1) n1 n(2) unfolding slots_ok_def by (auto simp: get(3))
  then show thesis using that c n1 n(2) pS get(1) unfolding ch_def by blast
qed

text \<open>A full chunk is released.\<close>

lemma release_chunk:
  assumes g: "slot_geometry k ss" and i: "slots_ok k ss my C cl len S A es" and my: "my \<noteq> 0" and full: "ac_freeBitmap (C my) = - 1"
  shows "slots_ok k ss 0 (C(my := ac_release (C my))) cl len S A es"
proof -
  obtain c where c: "c \<in> A" "my = foot_at k c" using i my by (auto simp: slots_ok_def)
  have al: "2 ^ k dvd unat d" if "d \<in> A" for d using i that by (auto simp: slots_ok_def)
  have ft: "foot_at k d = my \<longleftrightarrow> d = c" if "d \<in> A" for d using foot_inj [OF g al [OF that] al [OF c(1)]] c(2) by simp
  have n0: "foot_at k d \<noteq> 0" if "d \<in> A" for d using foot_nonzero [OF g al [OF that]] i that by (auto simp: slots_ok_def)
  let ?C = "C(my := ac_release (C my))"
  have "achain k ?C cl es = achain k C cl es" by (rule achain_cong) (simp add: ac_release_def)
  moreover have "c \<notin> set es" using i c by (auto simp: slots_ok_def)
  moreover have "\<forall>d \<in> A. bitmap_ok k ss S (?C (foot_at k d)) d" using i by (auto simp: slots_ok_def bitmap_ok_def ac_release_def)
  moreover have "\<forall>d \<in> A. d \<noteq> c \<longrightarrow> ac_status (C (foot_at k d)) = Released_chunk \<and> (d \<in> set es \<longleftrightarrow> ac_freeBitmap (C (foot_at k d)) = 1)"
    using i ft by (auto simp: slots_ok_def)
  moreover have "(- 1 :: u32) \<noteq> 1" by simp
  ultimately show ?thesis using i ft n0 full unfolding slots_ok_def by (auto simp: ac_release_def)
qed

text \<open>A slot is given back to its chunk; the chunk stays where it is unless it is released and empty now.\<close>

lemma put_slot:
  assumes g: "slot_geometry k ss" and i: "slots_ok k ss my C cl len S A es" and p: "p \<in> S"
  obtains c ch where "c \<in> A" "c \<notin> set es" "ac_getChunk (2 ^ k) p = foot_at k c" "foot_at k c AND - (2 ^ k) = c"
    "ac_getChunk (2 ^ k) c = foot_at k c"
    "ac_putSlot (2 ^ k) ss p (C (foot_at k c)) = Some (ac_freeBitmap ch = 1, ch)" "ac_isReleased ch \<longleftrightarrow> foot_at k c \<noteq> my"
    "ac_freeBitmap ch = 1 \<Longrightarrow> S - {p} \<subseteq> {slot_at ss d j | d j. d \<in> A - {c} \<and> 1 \<le> j \<and> j \<le> 31}"
    "\<not> (ac_freeBitmap ch = 1 \<and> ac_isReleased ch) \<Longrightarrow> slots_ok k ss my (C(foot_at k c := ch)) cl len (S - {p}) A es"
    "ac_isReleased ch \<Longrightarrow> slots_ok k ss my (C(foot_at k c := ch)) cl len (S - {p}) (A - {c}) es \<or> ac_freeBitmap ch \<noteq> 1"
    "ac_freeBitmap ch = 1 \<Longrightarrow> ac_isReleased ch \<Longrightarrow>
       slots_ok k ss my (C(foot_at k c := ch\<lparr>ac_next := cl\<rparr>)) (foot_at k c) (len + 1) (S - {p}) A (c # es)"
proof -
  obtain c n where c: "c \<in> A" "p = slot_at ss c n" "1 \<le> n" "n \<le> 31" using i p unfolding slots_ok_def by blast
  have al: "2 ^ k dvd unat d" if "d \<in> A" for d using i that by (auto simp: slots_ok_def)
  have ft: "foot_at k d = foot_at k c \<longleftrightarrow> d = c" if "d \<in> A" for d using foot_inj [OF g al [OF that] al [OF c(1)]] .
  have n0: "foot_at k d \<noteq> 0" if "d \<in> A" for d using foot_nonzero [OF g al [OF that]] i that by (auto simp: slots_ok_def)
  have sl: "slot_at ss d j = p \<longleftrightarrow> d = c \<and> j = n" if "d \<in> A" "j \<le> 31" for d j
    using slot_inj [OF g al [OF that(1)] al [OF c(1)] that(2) c(4)] c(2) by simp
  let ?f = "foot_at k c"
  have bm: "bitmap_ok k ss S (C ?f) c" using i c(1) by (auto simp: slots_ok_def)
  define ch where "ch = (C ?f)\<lparr>ac_freeBitmap := BitIndex_reset (ac_freeBitmap (C ?f)) n, ac_inUse := ac_inUse (C ?f) - 1\<rparr>"
  have chs: "ac_freeBitmap ch = BitIndex_reset (ac_freeBitmap (C ?f)) n" "ac_emptyBitmap ch = 1" "ac_status ch = ac_status (C ?f)"
    "ac_next ch = ac_next (C ?f)"
    using bm by (simp_all add: ch_def bitmap_ok_def)
  have put: "ac_putSlot (2 ^ k) ss p (C ?f) = Some (ac_freeBitmap ch = 1, ch)"
    using bm ac_index_slot [OF g al [OF c(1)] c(4)] c(2) by (simp add: ac_putSlot_def Let_def ch_def bitmap_ok_def)
  have bits: "bitmap_ok k ss (S - {p}) ch c"
    using bm c sl [OF c(1)] by (auto simp: bitmap_ok_def chs BitIndex_reset_bit)
  have "ac_freeBitmap (C ?f) \<noteq> 1" using bm c p by (auto simp: bitmap_ok_def bit_one)
  moreover have "if ?f = my then c \<notin> set es \<and> ac_status (C my) = Acquired_chunk
      else ac_status (C ?f) = Released_chunk \<and> (c \<in> set es \<longleftrightarrow> ac_freeBitmap (C ?f) = 1)"
    using i c(1) by (auto simp: slots_ok_def)
  ultimately have st: "c \<notin> set es" "ac_isReleased ch \<longleftrightarrow> ?f \<noteq> my" by (auto simp: ac_isReleased_def chs split: if_splits)
  have others: "\<forall>d \<in> A. d \<noteq> c \<longrightarrow> bitmap_ok k ss (S - {p}) (C (foot_at k d)) d"
    using i sl by (auto simp: slots_ok_def bitmap_ok_def)
  have allbits: "\<forall>d \<in> A. bitmap_ok k ss (S - {p}) ((C(?f := ch)) (foot_at k d)) d" using others bits ft by auto
  have chain: "achain k (C(?f := c')) cl es" if "ac_next c' = ac_next (C ?f) \<or> True" for c'
    using i st(1) ft by (subst achain_cong [of es _ k C]) (auto simp: slots_ok_def)
  have es: "set es \<subseteq> A" "distinct es" "len = int (length es)" "\<forall>d \<in> A. d \<noteq> 0 \<and> 2 ^ k dvd unat d" using i by (auto simp: slots_ok_def)
  have my: "my \<noteq> 0 \<longrightarrow> (\<exists>d \<in> A. my = foot_at k d)" using i by (simp add: slots_ok_def)
  have rest: "if foot_at k d = my then d \<notin> set es \<and> ac_status (C my) = Acquired_chunk
      else ac_status (C (foot_at k d)) = Released_chunk \<and> (d \<in> set es \<longleftrightarrow> ac_freeBitmap (C (foot_at k d)) = 1)" if "d \<in> A" for d
    using i that by (auto simp: slots_ok_def)
  have SA: "S \<subseteq> {slot_at ss d j | d j. d \<in> A \<and> 1 \<le> j \<and> j \<le> 31}" using i by (simp add: slots_ok_def)
  have last: "S - {p} \<subseteq> {slot_at ss d j | d j. d \<in> A - {c} \<and> 1 \<le> j \<and> j \<le> 31}" if e: "ac_freeBitmap ch = 1"
  proof
    fix q assume q: "q \<in> S - {p}"
    then obtain d j where d: "q = slot_at ss d j" "d \<in> A" "1 \<le> j" "j \<le> 31" using SA by blast
    have "d \<noteq> c" using bits d q e by (auto simp: bitmap_ok_def bit_one)
    then show "q \<in> {slot_at ss d j | d j. d \<in> A - {c} \<and> 1 \<le> j \<and> j \<le> 31}" using d by blast
  qed
  show thesis
  proof (rule that [OF c(1) st(1) _ foot_start [OF g al [OF c(1)]] getChunk_start [OF g al [OF c(1)]] put st(2) last])
    show "ac_getChunk (2 ^ k) p = ?f" unfolding c(2) by (rule getChunk_slot [OF g al [OF c(1)]])
  next
    assume n: "\<not> (ac_freeBitmap ch = 1 \<and> ac_isReleased ch)"
    have "if foot_at k d = my then d \<notin> set es \<and> ac_status ((C(?f := ch)) my) = Acquired_chunk
      else ac_status ((C(?f := ch)) (foot_at k d)) = Released_chunk \<and>
        (d \<in> set es \<longleftrightarrow> ac_freeBitmap ((C(?f := ch)) (foot_at k d)) = 1)" if d: "d \<in> A" for d
    proof (cases "d = c")
      case True
      then show ?thesis using n st rest [OF c(1)] by (auto simp: ac_isReleased_def chs(3) split: if_splits)
    next
      case False
      then show ?thesis using rest [OF d] ft [OF d] by (auto split: if_splits)
    qed
    moreover have "S - {p} \<subseteq> {slot_at ss d j | d j. d \<in> A \<and> 1 \<le> j \<and> j \<le> 31}" using SA by blast
    ultimately show "slots_ok k ss my (C(?f := ch)) cl len (S - {p}) A es"
      using allbits chain [of ch] es my unfolding slots_ok_def by blast
  next
    assume r: "ac_isReleased ch"
    show "slots_ok k ss my (C(?f := ch)) cl len (S - {p}) (A - {c}) es \<or> ac_freeBitmap ch \<noteq> 1"
    proof (cases "ac_freeBitmap ch = 1")
      case True
      have "my \<noteq> 0 \<longrightarrow> (\<exists>d \<in> A - {c}. my = foot_at k d)" using my st(2) r by auto
      then show ?thesis using last [OF True] allbits chain [of ch] es rest ft st r unfolding slots_ok_def by (auto split: if_splits)
    qed simp
  next
    assume e: "ac_freeBitmap ch = 1" and r: "ac_isReleased ch"
    let ?C = "C(?f := ch\<lparr>ac_next := cl\<rparr>)"
    have "\<forall>d \<in> A. bitmap_ok k ss (S - {p}) (?C (foot_at k d)) d" using others bits ft by (auto simp: bitmap_ok_def)
    moreover have "achain k ?C ?f (c # es)" using chain [of "ch\<lparr>ac_next := cl\<rparr>"] by simp
    moreover have "S - {p} \<subseteq> {slot_at ss d j | d j. d \<in> A \<and> 1 \<le> j \<and> j \<le> 31}" using SA by blast
    ultimately show "slots_ok k ss my ?C ?f (len + 1) (S - {p}) A (c # es)"
      using es my rest ft st e r c(1) unfolding slots_ok_def by (auto simp: ac_isReleased_def split: if_splits)
  qed
qed

section \<open>Clients of the slot heap\<close>

definition slot_blocks :: "u32 \<Rightarrow> u32 set \<Rightarrow> block set" where "slot_blocks ss S = (\<lambda>p. (p, unat ss)) ` S"

definition slot_mem :: "u32 \<times> cmem \<times> (u32 \<times> int) \<times> 'h hstate \<Rightarrow> hmem" where "slot_mem = (\<lambda>(my, C, l, (h, m)). m)"

lemma slot_in_chunk: "slot_geometry k ss \<Longrightarrow> 2 ^ k dvd unat c \<Longrightarrow> 1 \<le> i \<Longrightarrow> blk (slot_at ss c i, unat ss) \<subseteq> blk (c, 2 ^ k)"
  using slot_offset [of k ss i] by (auto simp: blk_def unat_slot split: if_splits)

lemma slots_covered:
  assumes "slot_geometry k ss" and "\<forall>c \<in> A. 2 ^ k dvd unat c"
    and "S \<subseteq> {slot_at ss c i | c i. c \<in> A \<and> 1 \<le> i \<and> i \<le> 31}" and "covered (slot_blocks ss S) a"
  shows "covered ((\<lambda>c. (c, 2 ^ k)) ` A) a"
proof -
  obtain p where p: "p \<in> S" "unat a \<in> blk (p, unat ss)" using assms(4) by (auto simp: covered_def slot_blocks_def)
  then obtain c i where "c \<in> A" "1 \<le> i" "p = slot_at ss c i" using assms(3) by blast
  then show ?thesis using slot_in_chunk [OF assms(1)] assms(2) p(2) by (auto simp: covered_def)
qed

lemma slots_apart:
  assumes g: "slot_geometry k ss" and c: "2 ^ k dvd unat c" and i: "1 \<le> i" "i < j" "j \<le> 31"
  shows "blk (slot_at ss c i, unat ss) \<inter> blk (slot_at ss c j, unat ss) = {}"
proof -
  have "unat ss * (31 - j) + unat ss = unat ss * Suc (31 - j)" by simp
  also have "\<dots> \<le> unat ss * (31 - i)" using i by (intro mult_le_mono2) linarith
  finally show ?thesis by (auto simp: blk_def unat_slot [OF g c])
qed

lemma slot_blocks_ok:
  assumes g: "slot_geometry k ss" and k: "3 \<le> k" and al: "\<forall>c \<in> A. c \<noteq> 0 \<and> 2 ^ k dvd unat c"
    and S: "S \<subseteq> {slot_at ss c i | c i. c \<in> A \<and> 1 \<le> i \<and> i \<le> 31}" and ok: "ok_blocks ((\<lambda>c. (c, 2 ^ k)) ` A)"
  shows "ok_blocks (slot_blocks ss S)"
proof -
  have one: "ok_block (p, unat ss)" if p: "p \<in> S" for p
  proof -
    obtain c i where c: "c \<in> A" "1 \<le> i" "i \<le> 31" "p = slot_at ss c i" using S p by blast
    have d: "8 dvd unat c" using al c(1) le_imp_power_dvd [OF k, of "2 :: nat"] by (auto intro: dvd_trans)
    have "ok_block (c, 2 ^ k)" using ok c(1) by (auto simp: ok_blocks_def)
    then show ?thesis using c slot_nonzero [OF g] unat_slot [OF g] slot_offset [OF g, of i] al d g
      by (auto simp: ok_block_def slot_geometry_def)
  qed
  have apart: "blk (p, unat ss) \<inter> blk (q, unat ss) = {}" if pq: "p \<in> S" "q \<in> S" "p \<noteq> q" for p q
  proof -
    obtain c i where c: "c \<in> A" "1 \<le> i" "i \<le> 31" "p = slot_at ss c i" using S pq(1) by blast
    obtain d j where d: "d \<in> A" "1 \<le> j" "j \<le> 31" "q = slot_at ss d j" using S pq(2) by blast
    show ?thesis
    proof (cases "c = d")
      case True
      then consider "i < j" | "j < i" using c(4) d(4) pq(3) by fastforce
      then show ?thesis using slots_apart [OF g] al c d True by cases (auto simp: Int_commute)
    next
      case False
      then have "blk (c, 2 ^ k) \<inter> blk (d, 2 ^ k) = {}" using c(1) d(1) by (intro ok_blocks_apart [OF ok]) auto
      then show ?thesis using slot_in_chunk [OF g, of c i] slot_in_chunk [OF g, of d j] al c d by blast
    qed
  qed
  show ?thesis using one apart by (auto simp: ok_blocks_def slot_blocks_def pairwise_def)
qed

locale slot_heap = aligned_source +
  fixes ss :: u32 and maxFree :: int
  assumes geometry: "slot_geometry k ss"
begin

lemma slot_blocks_law: "slot_inv k ss inv st S \<Longrightarrow> ok_blocks (slot_blocks ss S)"
proof -
  assume "slot_inv k ss inv st S"
  then obtain my C cl len s A es where i: "slots_ok k ss my C cl len S A es" "inv s ((\<lambda>c. (c, 2 ^ k)) ` A)"
    by (auto simp: slot_inv_def)
  show ?thesis
    using i(1) by (intro slot_blocks_ok [OF geometry k_bounds(1) _ _ inv_blocks [OF i(2)]]) (simp_all add: slots_ok_def)
qed

lemma chunk_law:
  assumes i: "slots_ok k ss 0 C cl len S A es" "inv st ((\<lambda>c. (c, 2 ^ k)) ` A)" and av: "avail st"
  shows "\<exists>c C' cl' len' st' A' es'. AlignedChunkHeap_malloc (2 ^ k) malloc (2 ^ k) (C, (cl, len), st) = Some (c, C', (cl', len'), st') \<and>
    ac_getChunk (2 ^ k) c = foot_at k c \<and> foot_at k c \<noteq> 0 \<and> ac_freeBitmap (C' (foot_at k c)) = 1 \<and>
    slots_ok k ss (foot_at k c) C' cl' len' S A' es' \<and> inv st' ((\<lambda>c. (c, 2 ^ k)) ` A') \<and>
    (\<forall>a. covered ((\<lambda>c. (c, 2 ^ k)) ` A) a \<longrightarrow> snd st' a = snd st a)"
proof (cases "cl = 0")
  case False
  obtain c es' where c: "c \<in> A" "cl = foot_at k c" "ac_freeBitmap (C cl) = 1"
    "slots_ok k ss cl (C(cl := ac_acquire (C cl))) (ac_next (C cl)) (len - 1) S A es'"
    using reuse_chunk [OF geometry i(1) False] by metis
  have al: "2 ^ k dvd unat c" using i(1) c(1) by (auto simp: slots_ok_def)
  have "AlignedChunkHeap_malloc (2 ^ k) malloc (2 ^ k) (C, (cl, len), st) =
      Some (c, C(cl := ac_acquire (C cl)), (ac_next (C cl), len - 1), st)"
    using False foot_start [OF geometry al] c(2) by (simp add: AlignedChunkHeap_malloc_def Let_def)
  then show ?thesis using c False i(2) getChunk_start [OF geometry al]
    by (intro exI [of _ c] exI [of _ "C(cl := ac_acquire (C cl))"] exI [of _ "ac_next (C cl)"] exI [of _ "len - 1"]
        exI [of _ st] exI [of _ A] exI [of _ es']) (simp add: ac_acquire_def)
next
  case True
  obtain p st' where p: "malloc (2 ^ k) st = Some (p, st')" "p \<noteq> 0" "2 ^ k dvd unat p" "inv st' (insert (p, 2 ^ k) ((\<lambda>c. (c, 2 ^ k)) ` A))"
    "(p, 2 ^ k) \<notin> (\<lambda>c. (c, 2 ^ k)) ` A" "\<forall>a. covered ((\<lambda>c. (c, 2 ^ k)) ` A) a \<longrightarrow> snd st' a = snd st a"
    using malloc_law [OF i(2) av] by blast
  have pA: "p \<notin> A" using p(5) by blast
  let ?C = "C(foot_at k p := AlignedChunk_new)"
  have "AlignedChunkHeap_malloc (2 ^ k) malloc (2 ^ k) (C, (cl, len), st) = Some (p, ?C, (0, len), st')"
    using True p(1,2) getChunk_start [OF geometry p(3)] foot_start [OF geometry p(3)]
    by (simp add: AlignedChunkHeap_malloc_def Let_def)
  moreover have "ac_freeBitmap AlignedChunk_new = 1"
    by (simp add: AlignedChunk_new_def Let_def BitIndex_set_def BitIndex_on_def)
  moreover have "slots_ok k ss (foot_at k p) ?C 0 len S (insert p A) es" using new_chunk [OF geometry _ p(2,3) pA] i(1) True by simp
  ultimately show ?thesis using p getChunk_start [OF geometry p(3)] foot_nonzero [OF geometry p(3,2)]
    by (intro exI [of _ p] exI [of _ ?C] exI [of _ 0] exI [of _ len] exI [of _ st'] exI [of _ "insert p A"] exI [of _ es]) simp
qed

lemma slot_malloc_empty:
  assumes i: "slots_ok k ss 0 C cl len S A es" "inv st ((\<lambda>c. (c, 2 ^ k)) ` A)" and av: "avail st"
  shows "\<exists>p st'. AlignedSlotHeap_malloc (2 ^ k) ss (AlignedChunkHeap_malloc (2 ^ k) malloc) sz (0, C, (cl, len), st) = Some (p, st') \<and>
    p \<noteq> 0 \<and> p \<notin> S \<and> slot_inv k ss inv st' (insert p S) \<and> (\<forall>a. covered (slot_blocks ss S) a \<longrightarrow> slot_mem st' a = snd st a)"
proof -
  obtain c C' cl' len' st' A' es' where r:
    "AlignedChunkHeap_malloc (2 ^ k) malloc (2 ^ k) (C, (cl, len), st) = Some (c, C', (cl', len'), st')"
    "ac_getChunk (2 ^ k) c = foot_at k c" "foot_at k c \<noteq> 0" "ac_freeBitmap (C' (foot_at k c)) = 1"
    "slots_ok k ss (foot_at k c) C' cl' len' S A' es'" "inv st' ((\<lambda>c. (c, 2 ^ k)) ` A')"
    "\<forall>a. covered ((\<lambda>c. (c, 2 ^ k)) ` A) a \<longrightarrow> snd st' a = snd st a"
    using chunk_law [OF i av] by blast
  have "ac_freeBitmap (C' (foot_at k c)) \<noteq> - 1" using r(4) by simp
  from take_slot [OF geometry r(5,3) this] obtain d n where t: "d \<in> A'" "slot_at ss d n \<notin> S"
    "fst (ac_getSlot (2 ^ k) ss (foot_at k c) (C' (foot_at k c))) = slot_at ss d n"
    "slots_ok k ss (foot_at k c) (C'(foot_at k c := snd (ac_getSlot (2 ^ k) ss (foot_at k c) (C' (foot_at k c))))) cl' len'
       (insert (slot_at ss d n) S) A' es'" by metis
  let ?p = "slot_at ss d n" and ?s = "(foot_at k c, C'(foot_at k c := snd (ac_getSlot (2 ^ k) ss (foot_at k c) (C' (foot_at k c)))), (cl', len'), st')"
  have p0: "?p \<noteq> 0" using slot_nonzero [OF geometry] r(5) t(1) by (auto simp: slots_ok_def)
  have "AlignedSlotHeap_malloc (2 ^ k) ss (AlignedChunkHeap_malloc (2 ^ k) malloc) sz (0, C, (cl, len), st) = Some (?p, ?s)"
    using t(3) p0 by (subst AlignedSlotHeap_malloc.simps) (simp add: r(1,2) case_prod_unfold Let_def)
  moreover have "slot_inv k ss inv ?s (insert ?p S)" using t(4) r(6) by (auto simp: slot_inv_def)
  moreover have "slot_mem ?s a = snd st a" if "covered (slot_blocks ss S) a" for a
    using slots_covered [OF geometry _ _ that, of A] i(1) r(7) by (auto simp: slots_ok_def slot_mem_def case_prod_unfold)
  ultimately show ?thesis using p0 t(2) by blast
qed

lemma slot_malloc_law:
  assumes i: "slot_inv k ss inv (my, C, (cl, len), st) S" and av: "avail st"
  shows "\<exists>p st'. AlignedSlotHeap_malloc (2 ^ k) ss (AlignedChunkHeap_malloc (2 ^ k) malloc) sz (my, C, (cl, len), st) = Some (p, st') \<and>
    p \<noteq> 0 \<and> p \<notin> S \<and> slot_inv k ss inv st' (insert p S) \<and> (\<forall>a. covered (slot_blocks ss S) a \<longrightarrow> slot_mem st' a = snd st a)"
proof -
  obtain A es where s: "slots_ok k ss my C cl len S A es" "inv st ((\<lambda>c. (c, 2 ^ k)) ` A)" using i by (auto simp: slot_inv_def)
  consider "my = 0" | "my \<noteq> 0" "ac_freeBitmap (C my) = - 1" | "my \<noteq> 0" "ac_freeBitmap (C my) \<noteq> - 1" by blast
  then show ?thesis
  proof cases
    case 1
    then show ?thesis using slot_malloc_empty [OF _ s(2) av] s(1) by simp
  next
    case 2
    have "AlignedSlotHeap_malloc (2 ^ k) ss (AlignedChunkHeap_malloc (2 ^ k) malloc) sz (my, C, (cl, len), st) =
        AlignedSlotHeap_malloc (2 ^ k) ss (AlignedChunkHeap_malloc (2 ^ k) malloc) sz (0, C(my := ac_release (C my)), (cl, len), st)"
      using 2 by (subst AlignedSlotHeap_malloc.simps) (simp add: ac_getSlot_def ac_find_def Let_def)
    then show ?thesis using slot_malloc_empty [OF release_chunk [OF geometry s(1) 2] s(2) av] by simp
  next
    case 3
    from take_slot [OF geometry s(1) 3] obtain d n where t: "d \<in> A" "slot_at ss d n \<notin> S"
      "fst (ac_getSlot (2 ^ k) ss my (C my)) = slot_at ss d n"
      "slots_ok k ss my (C(my := snd (ac_getSlot (2 ^ k) ss my (C my)))) cl len (insert (slot_at ss d n) S) A es" by metis
    let ?p = "slot_at ss d n" and ?s = "(my, C(my := snd (ac_getSlot (2 ^ k) ss my (C my))), (cl, len), st)"
    have p0: "?p \<noteq> 0" using slot_nonzero [OF geometry] s(1) t(1) by (auto simp: slots_ok_def)
    have "AlignedSlotHeap_malloc (2 ^ k) ss (AlignedChunkHeap_malloc (2 ^ k) malloc) sz (my, C, (cl, len), st) = Some (?p, ?s)"
      using t(3) p0 3 by (subst AlignedSlotHeap_malloc.simps) (simp add: case_prod_unfold Let_def)
    moreover have "slot_inv k ss inv ?s (insert ?p S)" using t(4) s(2) by (auto simp: slot_inv_def)
    moreover have "slot_mem ?s = snd st" by (simp add: slot_mem_def case_prod_unfold)
    ultimately show ?thesis using p0 t(2) by (intro exI [of _ ?p] exI [of _ ?s]) simp
  qed
qed

lemma slot_free_law:
  assumes i: "slot_inv k ss inv (my, C, (cl, len), st) S" and p: "p \<in> S"
  shows "\<exists>st'. AlignedSlotHeap_free (2 ^ k) ss (AlignedChunkHeap_free maxFree (2 ^ k) free) p (my, C, (cl, len), st) = Some st' \<and>
    slot_inv k ss inv st' (S - {p}) \<and> (\<forall>a. covered (slot_blocks ss (S - {p})) a \<longrightarrow> slot_mem st' a = snd st a)"
proof -
  obtain A es where s: "slots_ok k ss my C cl len S A es" "inv st ((\<lambda>c. (c, 2 ^ k)) ` A)" using i by (auto simp: slot_inv_def)
  obtain c ch where c: "c \<in> A" "c \<notin> set es" "ac_getChunk (2 ^ k) p = foot_at k c" "foot_at k c AND - (2 ^ k) = c"
    "ac_getChunk (2 ^ k) c = foot_at k c"
    "ac_putSlot (2 ^ k) ss p (C (foot_at k c)) = Some (ac_freeBitmap ch = 1, ch)" "ac_isReleased ch \<longleftrightarrow> foot_at k c \<noteq> my"
    and last: "ac_freeBitmap ch = 1 \<Longrightarrow> S - {p} \<subseteq> {slot_at ss d j | d j. d \<in> A - {c} \<and> 1 \<le> j \<and> j \<le> 31}"
    and stay: "\<not> (ac_freeBitmap ch = 1 \<and> ac_isReleased ch) \<Longrightarrow> slots_ok k ss my (C(foot_at k c := ch)) cl len (S - {p}) A es"
    and drop: "ac_isReleased ch \<Longrightarrow> slots_ok k ss my (C(foot_at k c := ch)) cl len (S - {p}) (A - {c}) es \<or> ac_freeBitmap ch \<noteq> 1"
    and push: "ac_freeBitmap ch = 1 \<Longrightarrow> ac_isReleased ch \<Longrightarrow>
       slots_ok k ss my (C(foot_at k c := ch\<lparr>ac_next := cl\<rparr>)) (foot_at k c) (len + 1) (S - {p}) A (c # es)"
    by (rule put_slot [OF geometry s(1) p], rule that) (assumption | blast)+
  let ?C = "C(foot_at k c := ch)"
  have free: "AlignedSlotHeap_free (2 ^ k) ss (AlignedChunkHeap_free maxFree (2 ^ k) free) p (my, C, (cl, len), st) =
      (if ac_freeBitmap ch = 1 \<and> ac_isReleased ch
       then map_option (\<lambda>(C, s). (my, C, s)) (AlignedChunkHeap_free maxFree (2 ^ k) free c (?C, (cl, len), st))
       else Some (my, ?C, (cl, len), st))"
    by (simp add: AlignedSlotHeap_free_def Let_def c)
  consider "\<not> (ac_freeBitmap ch = 1 \<and> ac_isReleased ch)" | "ac_freeBitmap ch = 1" "ac_isReleased ch" "len \<le> maxFree"
    | "ac_freeBitmap ch = 1" "ac_isReleased ch" "maxFree < len" by linarith
  then show ?thesis
  proof cases
    case 1
    have "slot_inv k ss inv (my, ?C, (cl, len), st) (S - {p})" using stay [OF 1] s(2) by (auto simp: slot_inv_def)
    moreover have "slot_mem (my, ?C, (cl, len), st) = snd st" by (simp add: slot_mem_def case_prod_unfold)
    ultimately show ?thesis using 1 by (intro exI [of _ "(my, ?C, (cl, len), st)"]) (auto simp: free)
  next
    case 2
    let ?s = "(my, C(foot_at k c := ch\<lparr>ac_next := cl\<rparr>), (foot_at k c, len + 1), st)"
    have "slot_inv k ss inv ?s (S - {p})" using push [OF 2(1,2)] s(2) by (auto simp: slot_inv_def)
    then show ?thesis using 2 c(5)
      by (intro exI [of _ ?s]) (simp add: free AlignedChunkHeap_free_def Let_def slot_mem_def case_prod_unfold)
  next
    case 3
    have r: "(\<lambda>c. (c, 2 ^ k)) ` A - {(c, 2 ^ k)} = (\<lambda>c. (c, 2 ^ k :: nat)) ` (A - {c})" by auto
    have "(c, 2 ^ k) \<in> (\<lambda>c. (c, 2 ^ k)) ` A" using c(1) by simp
    from free_law [OF s(2) this] obtain st' where f: "free c st = Some st'" "inv st' ((\<lambda>c. (c, 2 ^ k)) ` (A - {c}))"
      "\<forall>a. covered ((\<lambda>c. (c, 2 ^ k)) ` (A - {c})) a \<longrightarrow> snd st' a = snd st a" unfolding r by blast
    let ?s = "(my, ?C, (cl, len), st')"
    have "slot_inv k ss inv ?s (S - {p})" using drop [OF 3(2)] 3(1) f(2) by (auto simp: slot_inv_def)
    moreover have "slot_mem ?s a = snd st a" if "covered (slot_blocks ss (S - {p})) a" for a
      using slots_covered [OF geometry _ last [OF 3(1)] that] s(1) f(3) by (auto simp: slots_ok_def slot_mem_def case_prod_unfold)
    ultimately show ?thesis using 3 f(1) c(4,5)
      by (intro exI [of _ ?s]) (simp add: free AlignedChunkHeap_free_def Let_def)
  qed
qed

end

interpretation slot_bump: slot_heap "AlignHeap_malloc (2 ^ 12) bump_malloc" "AlignHeap_free bump_free" "ah_avail 12 bump_malloc"
  "ah_inv 12 bump_inv" 12 64 4
  by unfold_locales (simp add: slot_geometry_def)

section \<open>Properties\<close>

text \<open>C38: One call of the slot heap over aligned chunks, with chunks of 4096 bytes and slots of 64 over \<open>AlignHeap\<close> and
  \<open>bumpheap\<close>: as long as the bump heap has room for another chunk, \<open>malloc\<close> ends with a slot that is not in use; \<open>free\<close> of a slot
  in use ends and frees just that slot; neither changes what is stored in the slots in use, and these are disjoint.\<close>

theorem AlignedSlotHeap_correct:
  assumes "slot_inv 12 64 (ah_inv 12 bump_inv) (my, C, l, st) S" and "ah_avail 12 bump_malloc st"
  shows "ok_blocks (slot_blocks 64 S) \<and>
    (\<exists>p st'. AlignedSlotHeap_malloc (2 ^ 12) 64 (AlignedChunkHeap_malloc (2 ^ 12) (AlignHeap_malloc (2 ^ 12) bump_malloc)) sz
        (my, C, l, st) = Some (p, st') \<and> p \<noteq> 0 \<and> p \<notin> S \<and> slot_inv 12 64 (ah_inv 12 bump_inv) st' (insert p S) \<and>
      (\<forall>a. covered (slot_blocks 64 S) a \<longrightarrow> slot_mem st' a = snd st a)) \<and>
    (\<forall>p \<in> S. \<exists>st'. AlignedSlotHeap_free (2 ^ 12) 64 (AlignedChunkHeap_free 4 (2 ^ 12) (AlignHeap_free bump_free)) p
        (my, C, l, st) = Some st' \<and> slot_inv 12 64 (ah_inv 12 bump_inv) st' (S - {p}) \<and>
      (\<forall>a. covered (slot_blocks 64 (S - {p})) a \<longrightarrow> slot_mem st' a = snd st a))"
proof -
  obtain cl len where l: "l = (cl, len)" by (cases l)
  note i = assms(1) [unfolded l]
  show ?thesis unfolding l
    by (intro conjI ballI slot_bump.slot_blocks_law [OF i] slot_bump.slot_malloc_law [OF i assms(2)] slot_bump.slot_free_law [OF i])
qed

definition aligned_example :: "u32 \<times> cmem \<times> (u32 \<times> int) \<times> bump hstate" where
  "aligned_example = (0, (\<lambda>_. AlignedChunk_new), AlignedChunkHeap_new, (bump_new 0x1000 0x10000, \<lambda>_. 0))"

theorem AlignedSlotHeap_correct_witness:
  "\<exists>p st'. AlignedSlotHeap_malloc (2 ^ 12) 64 (AlignedChunkHeap_malloc (2 ^ 12) (AlignHeap_malloc (2 ^ 12) bump_malloc)) 64
     aligned_example = Some (p, st') \<and> slot_inv 12 64 (ah_inv 12 bump_inv) st' {p}"
proof -
  have "slots_ok 12 64 0 (\<lambda>_. AlignedChunk_new) 0 0 {} {} []" by (simp add: slots_ok_def)
  moreover have "bump_inv (bump_new 0x1000 0x10000, \<lambda>_. 0) {}" by (simp add: bump_inv_def bump_new_def bump_sanity_def)
  then have "ah_inv 12 bump_inv (bump_new 0x1000 0x10000, \<lambda>_. 0) ((\<lambda>c. (c, 2 ^ 12)) ` {})" by (simp add: ah_inv_def)
  ultimately have i: "slot_inv 12 64 (ah_inv 12 bump_inv) (0, (\<lambda>_. AlignedChunk_new), AlignedChunkHeap_new, (bump_new 0x1000 0x10000, \<lambda>_. 0)) {}"
    unfolding slot_inv_def AlignedChunkHeap_new_def prod.case by blast
  have "ah_avail 12 bump_malloc (bump_new 0x1000 0x10000, \<lambda>_. 0)"
    by (simp add: ah_avail_def bump_malloc_def bump_new_def bump_sanity_def bump_round_def sizeof_double_def Let_def)
  from AlignedSlotHeap_correct [OF i this] show ?thesis unfolding aligned_example_def by blast
qed

lemma race_bits:
  "ac_find 1 = Some 1" "ac_find 3 = Some 2" "BitIndex_set 0 0 = 1" "BitIndex_set 1 1 = 3" "BitIndex_set 3 2 = 7"
  "ac_slot 0x1000 64 0x1FE8 1 = 0x1780" "ac_slot 0x1000 64 0x1FE8 2 = 0x1740"
  by code_simp+


text \<open>Without memory, \<open>AlignHeap\<close> returns the size of a chunk instead of \<open>NULL\<close>, and \<open>AlignedChunkHeap\<close> writes a footer at \<open>NULL\<close>.\<close>

theorem AlignHeap_failure_not_null:
  assumes "3 \<le> k" and "k < 32" and "smalloc (2 ^ k + 2 ^ k) st = Some (0, (h, m))"
  shows "AlignHeap_malloc (2 ^ k) smalloc (2 ^ k) st = Some (2 ^ k, (h, m(2 ^ k - 4 := 0)))"
proof -
  have "(2 ^ k + of_nat 3) AND - (2 ^ k) = (2 ^ k :: u32)"
    using assms(1,2) power_increasing [OF assms(1), of "2 :: nat"] by (intro chunk_offset(2)) (simp_all add: unat_two_power)
  then show ?thesis using assms(3) by (simp add: AlignHeap_malloc_def Let_def add.commute)
qed

theorem AlignedChunkHeap_no_memory:
  "smalloc cs s = Some (0, s') \<Longrightarrow> AlignedChunkHeap_malloc cs smalloc sz (C, (0, len), s) = None"
  by (simp add: AlignedChunkHeap_malloc_def)

end
