(* ===== verification/Dlmalloc_Win.thy ===== *)
theory Dlmalloc_Win
  imports Dlmalloc_Props Hl_Locks
begin

text \<open>
  \<open>source/dlmalloc.c\<close>: the public functions, which take the lock around the functions of \<open>Dlmalloc_Api\<close>, \<open>mSTATs\<close>, and the
  emulation of \<open>sbrk\<close>, \<open>mmap\<close> and \<open>munmap\<close> over the virtual memory of Windows. The functions of the Windows API are parameters.
\<close>

section \<open>The public functions\<close>

text \<open>\<open>MALLOC_PREACTION\<close> takes the lock and reports failure by a number other than 0; the result of \<open>MALLOC_POSTACTION\<close> is ignored.\<close>

definition guarded ::
  "('l \<Rightarrow> int \<times> 'l) \<Rightarrow> ('l \<Rightarrow> int \<times> 'l) \<Rightarrow> 'a \<Rightarrow> ('s \<Rightarrow> ('a \<times> 's) option) \<Rightarrow> 'l \<times> 's \<Rightarrow> ('a \<times> 'l \<times> 's) option" where
  "guarded preaction postaction failed body = (\<lambda>(l, s).
     let (r, l) = preaction l
     in if r \<noteq> 0 then Some (failed, l, s) else map_option (\<lambda>(a, s). (a, snd (postaction l), s)) (body s))"

definition public_mALLOc :: "('l \<Rightarrow> int \<times> 'l) \<Rightarrow> ('l \<Rightarrow> int \<times> 'l) \<Rightarrow> 'w dl_os \<Rightarrow> nat \<Rightarrow> u32 \<Rightarrow> 'l \<times> 'w malloc_state
    \<Rightarrow> (u32 \<times> 'l \<times> 'w malloc_state) option" where
  "public_mALLOc pre post os n bytes = guarded pre post 0 (mALLOc os n bytes)"

definition public_fREe :: "('l \<Rightarrow> int \<times> 'l) \<Rightarrow> ('l \<Rightarrow> int \<times> 'l) \<Rightarrow> 'w dl_os \<Rightarrow> nat \<Rightarrow> u32 \<Rightarrow> 'l \<times> 'w malloc_state
    \<Rightarrow> (unit \<times> 'l \<times> 'w malloc_state) option" where
  "public_fREe pre post os n m = guarded pre post () (\<lambda>s. map_option (Pair ()) (fREe os n m s))"

definition public_rEALLOc :: "('l \<Rightarrow> int \<times> 'l) \<Rightarrow> ('l \<Rightarrow> int \<times> 'l) \<Rightarrow> 'w dl_os \<Rightarrow> nat \<Rightarrow> u32 \<Rightarrow> u32 \<Rightarrow> 'l \<times> 'w malloc_state
    \<Rightarrow> (u32 \<times> 'l \<times> 'w malloc_state) option" where
  "public_rEALLOc pre post os n m bytes = guarded pre post 0 (rEALLOc os n m bytes)"

definition public_mEMALIGn :: "('l \<Rightarrow> int \<times> 'l) \<Rightarrow> ('l \<Rightarrow> int \<times> 'l) \<Rightarrow> 'w dl_os \<Rightarrow> nat \<Rightarrow> u32 \<Rightarrow> u32 \<Rightarrow> 'l \<times> 'w malloc_state
    \<Rightarrow> (u32 \<times> 'l \<times> 'w malloc_state) option" where
  "public_mEMALIGn pre post os n alignment bytes = guarded pre post 0 (mEMALIGn os n alignment bytes)"

definition public_vALLOc :: "('l \<Rightarrow> int \<times> 'l) \<Rightarrow> ('l \<Rightarrow> int \<times> 'l) \<Rightarrow> 'w dl_os \<Rightarrow> nat \<Rightarrow> u32 \<Rightarrow> 'l \<times> 'w malloc_state
    \<Rightarrow> (u32 \<times> 'l \<times> 'w malloc_state) option" where
  "public_vALLOc pre post os n bytes = guarded pre post 0 (vALLOc os n bytes)"

definition public_pVALLOc :: "('l \<Rightarrow> int \<times> 'l) \<Rightarrow> ('l \<Rightarrow> int \<times> 'l) \<Rightarrow> 'w dl_os \<Rightarrow> nat \<Rightarrow> u32 \<Rightarrow> 'l \<times> 'w malloc_state
    \<Rightarrow> (u32 \<times> 'l \<times> 'w malloc_state) option" where
  "public_pVALLOc pre post os n bytes = guarded pre post 0 (pVALLOc os n bytes)"

definition public_cALLOc :: "('l \<Rightarrow> int \<times> 'l) \<Rightarrow> ('l \<Rightarrow> int \<times> 'l) \<Rightarrow> 'w dl_os \<Rightarrow> nat \<Rightarrow> u32 \<Rightarrow> u32 \<Rightarrow> 'l \<times> 'w malloc_state
    \<Rightarrow> (u32 \<times> 'l \<times> 'w malloc_state) option" where
  "public_cALLOc pre post os n num elem_size = guarded pre post 0 (cALLOc os n num elem_size)"

definition public_iCALLOc :: "('l \<Rightarrow> int \<times> 'l) \<Rightarrow> ('l \<Rightarrow> int \<times> 'l) \<Rightarrow> 'w dl_os \<Rightarrow> nat \<Rightarrow> nat \<Rightarrow> u32 \<Rightarrow> u32 \<Rightarrow> 'l \<times> 'w malloc_state
    \<Rightarrow> (u32 \<times> 'l \<times> 'w malloc_state) option" where
  "public_iCALLOc pre post os n num elem_size chunks = guarded pre post 0 (iCALLOc os n num elem_size chunks)"

definition public_iCOMALLOc :: "('l \<Rightarrow> int \<times> 'l) \<Rightarrow> ('l \<Rightarrow> int \<times> 'l) \<Rightarrow> 'w dl_os \<Rightarrow> nat \<Rightarrow> nat \<Rightarrow> (nat \<Rightarrow> u32) \<Rightarrow> u32
    \<Rightarrow> 'l \<times> 'w malloc_state \<Rightarrow> (u32 \<times> 'l \<times> 'w malloc_state) option" where
  "public_iCOMALLOc pre post os n num sizes chunks = guarded pre post 0 (iCOMALLOc os n num sizes chunks)"

definition public_cFREe :: "('l \<Rightarrow> int \<times> 'l) \<Rightarrow> ('l \<Rightarrow> int \<times> 'l) \<Rightarrow> 'w dl_os \<Rightarrow> nat \<Rightarrow> u32 \<Rightarrow> 'l \<times> 'w malloc_state
    \<Rightarrow> (unit \<times> 'l \<times> 'w malloc_state) option" where
  "public_cFREe pre post os n m = guarded pre post () (\<lambda>s. map_option (Pair ()) (cFREe os n m s))"

definition public_mTRIm :: "('l \<Rightarrow> int \<times> 'l) \<Rightarrow> ('l \<Rightarrow> int \<times> 'l) \<Rightarrow> 'w dl_os \<Rightarrow> nat \<Rightarrow> u32 \<Rightarrow> 'l \<times> 'w malloc_state
    \<Rightarrow> (bool \<times> 'l \<times> 'w malloc_state) option" where
  "public_mTRIm pre post os n pad = guarded pre post False (mTRIm os n pad)"

definition public_mUSABLe :: "('l \<Rightarrow> int \<times> 'l) \<Rightarrow> ('l \<Rightarrow> int \<times> 'l) \<Rightarrow> u32 \<Rightarrow> 'l \<times> 'w malloc_state
    \<Rightarrow> (u32 \<times> 'l \<times> 'w malloc_state) option" where
  "public_mUSABLe pre post m = guarded pre post 0 (\<lambda>s. Some (mUSABLe m s, s))"

definition public_mALLINFo :: "('l \<Rightarrow> int \<times> 'l) \<Rightarrow> ('l \<Rightarrow> int \<times> 'l) \<Rightarrow> 'w dl_os \<Rightarrow> nat \<Rightarrow> 'l \<times> 'w malloc_state
    \<Rightarrow> (mallinfo \<times> 'l \<times> 'w malloc_state) option" where
  "public_mALLINFo pre post os n = guarded pre post
     \<lparr>mi_arena = 0, mi_ordblks = 0, mi_smblks = 0, mi_hblks = 0, mi_hblkhd = 0, mi_usmblks = 0, mi_fsmblks = 0, mi_uordblks = 0, mi_fordblks = 0, mi_keepcost = 0\<rparr>
     (mALLINFo os n)"

definition public_mALLOPt :: "('l \<Rightarrow> int \<times> 'l) \<Rightarrow> ('l \<Rightarrow> int \<times> 'l) \<Rightarrow> 'w dl_os \<Rightarrow> nat \<Rightarrow> mparam \<Rightarrow> int \<Rightarrow> 'l \<times> 'w malloc_state
    \<Rightarrow> (bool \<times> 'l \<times> 'w malloc_state) option" where
  "public_mALLOPt pre post os n p v = guarded pre post False (mALLOPt os n p v)"

text \<open>What \<open>mSTATs\<close> prints: the maximum of system bytes, the system bytes, and the bytes in use (on Windows also the sums of \<open>vminfo\<close>).\<close>

definition mSTATs :: "'w dl_os \<Rightarrow> nat \<Rightarrow> 'w malloc_state \<Rightarrow> ((u32 \<times> u32 \<times> u32) \<times> 'w malloc_state) option" where
  "mSTATs os n s =
     map_option (\<lambda>(mi, s). ((mi_usmblks mi, mi_arena mi + mi_hblkhd mi, mi_uordblks mi + mi_hblkhd mi), s)) (mALLINFo os n s)"

definition public_mSTATs :: "('l \<Rightarrow> int \<times> 'l) \<Rightarrow> ('l \<Rightarrow> int \<times> 'l) \<Rightarrow> 'w dl_os \<Rightarrow> nat \<Rightarrow> 'l \<times> 'w malloc_state
    \<Rightarrow> ((u32 \<times> u32 \<times> u32) option \<times> 'l \<times> 'w malloc_state) option" where
  "public_mSTATs pre post os n = guarded pre post None (\<lambda>s. map_option (\<lambda>(r, s). (Some r, s)) (mSTATs os n s))"

section \<open>The spin lock of the emulation\<close>

text \<open>
  \<open>slwait\<close> compares and exchanges until the word was 0; one iteration of thread \<open>t\<close> is a step. \<open>wl_in\<close>, which is not in the
  program, are the threads whose \<open>slwait\<close> has returned.
\<close>

record winlock =
  wl_sl :: int
  wl_in :: "nat set"

definition winlock_new :: winlock where "winlock_new = \<lparr>wl_sl = 0, wl_in = {}\<rparr>"

definition InterlockedCompareExchange :: "int \<Rightarrow> int \<Rightarrow> winlock \<Rightarrow> int \<times> winlock" where
  "InterlockedCompareExchange exchange comparand s = (wl_sl s, if wl_sl s = comparand then s\<lparr>wl_sl := exchange\<rparr> else s)"

definition slwait :: "nat \<Rightarrow> winlock \<Rightarrow> winlock" where
  "slwait t s = (let (old, s) = InterlockedCompareExchange 1 0 s in if old \<noteq> 0 then s else s\<lparr>wl_in := insert t (wl_in s)\<rparr>)"

definition slrelease :: "nat \<Rightarrow> winlock \<Rightarrow> winlock" where
  "slrelease t s = s\<lparr>wl_sl := 0, wl_in := wl_in s - {t}\<rparr>"

definition winlock_ok :: "winlock \<Rightarrow> bool" where
  "winlock_ok s \<longleftrightarrow> (wl_sl s = 0 \<and> wl_in s = {}) \<or> (wl_sl s = 1 \<and> (\<exists>t. wl_in s = {t}))"

interpretation win: lock slwait slrelease "\<lambda>s t. t \<in> wl_in s" winlock_ok
proof unfold_locales
  fix s t u
  show "t = u" if "winlock_ok s" "t \<in> wl_in s" "u \<in> wl_in s" using that by (auto simp: winlock_ok_def)
  show "winlock_ok (slwait t s)" if "winlock_ok s" "t \<notin> wl_in s"
    using that by (cases "wl_sl s = 0") (auto simp: winlock_ok_def slwait_def InterlockedCompareExchange_def)
  show "(u \<in> wl_in (slwait t s)) = (u \<in> wl_in s)" if "winlock_ok s" "t \<notin> wl_in s" "u \<noteq> t"
    using that by (cases "wl_sl s = 0") (simp_all add: slwait_def InterlockedCompareExchange_def)
  show "winlock_ok (slrelease t s)" if "winlock_ok s" "t \<in> wl_in s"
    using that by (auto simp: winlock_ok_def slrelease_def)
  show "u \<notin> wl_in (slrelease t s)" if "winlock_ok s" "t \<in> wl_in s"
    using that by (auto simp: winlock_ok_def slrelease_def)
qed

section \<open>The virtual memory of Windows\<close>

datatype win_state = MEM_FREE | MEM_RESERVE | MEM_COMMIT

text \<open>
  The functions that the emulation calls: \<open>VirtualAlloc\<close> with \<open>MEM_COMMIT\<close>, with \<open>MEM_RESERVE\<close>, and with both and
  \<open>MEM_TOP_DOWN\<close>; \<open>VirtualFree\<close> with \<open>MEM_RELEASE\<close> and with \<open>MEM_DECOMMIT\<close>; \<open>VirtualQuery\<close>; whether the last error was
  \<open>ERROR_INVALID_ADDRESS\<close>; whether \<open>HeapAlloc\<close> and \<open>HeapFree\<close> succeed on an entry of the region list.
\<close>

record 'w win_os =
  dwPageSize :: u32
  dwAllocationGranularity :: u32
  va_commit :: "u32 \<Rightarrow> u32 \<Rightarrow> 'w \<Rightarrow> u32 \<times> 'w"
  va_reserve :: "u32 \<Rightarrow> u32 \<Rightarrow> 'w \<Rightarrow> u32 \<times> 'w"
  va_topdown :: "u32 \<Rightarrow> u32 \<Rightarrow> 'w \<Rightarrow> u32 \<times> 'w"
  vf_release :: "u32 \<Rightarrow> 'w \<Rightarrow> bool \<times> 'w"
  vf_decommit :: "u32 \<Rightarrow> u32 \<Rightarrow> 'w \<Rightarrow> bool \<times> 'w"
  va_query :: "u32 \<Rightarrow> 'w \<Rightarrow> (u32 \<times> u32 \<times> win_state) option"
  invalid_address :: "'w \<Rightarrow> bool"
  heap_alloc :: "'w \<Rightarrow> bool \<times> 'w"
  heap_free :: "'w \<Rightarrow> bool \<times> 'w"

text \<open>\<open>getpagesize\<close> and \<open>getregionsize\<close> keep the first answer of the system, which does not change.\<close>

definition win_getpagesize :: "'w win_os \<Rightarrow> u32" where "win_getpagesize os = dwPageSize os"
definition win_getregionsize :: "'w win_os \<Rightarrow> u32" where "win_getregionsize os = dwAllocationGranularity os"

record win_region =
  top_allocated :: u32
  top_committed :: u32
  top_reserved :: u32
  reserve_size :: u32

text \<open>The region list, from \<open>g_last\<close> along \<open>previous\<close>.\<close>

definition region_list_append :: "'w win_os \<Rightarrow> u32 \<Rightarrow> u32 \<Rightarrow> win_region list \<Rightarrow> 'w \<Rightarrow> (win_region list \<times> 'w) option" where
  "region_list_append os base_reserved rsize rs w =
     (let (ok, w) = heap_alloc os w
      in if \<not> ok then None
         else Some (\<lparr>top_allocated = base_reserved, top_committed = base_reserved, top_reserved = base_reserved + rsize, reserve_size = rsize\<rparr> # rs, w))"

definition region_list_remove :: "'w win_os \<Rightarrow> win_region list \<Rightarrow> 'w \<Rightarrow> (win_region list \<times> 'w) option" where
  "region_list_remove os rs w = (let (ok, w) = heap_free os w in if \<not> ok then None else Some (tl rs, w))"

definition win_CEIL :: "u32 \<Rightarrow> u32 \<Rightarrow> u32" where "win_CEIL sz to = (sz + to - 1) AND NOT (to - 1)"
definition win_FLOOR :: "u32 \<Rightarrow> u32 \<Rightarrow> u32" where "win_FLOOR sz to = sz AND NOT (to - 1)"
definition SBRK_SCALE :: nat where "SBRK_SCALE = 0"
definition my_pagesize :: "'w win_os \<Rightarrow> u32" where "my_pagesize os = push_bit SBRK_SCALE (win_getpagesize os)"
definition my_regionsize :: "'w win_os \<Rightarrow> u32" where "my_regionsize os = push_bit SBRK_SCALE (win_getregionsize os)"

section \<open>\<open>sbrk\<close>\<close>

text \<open>
  \<open>None\<close> in this section is a call of \<open>abort\<close>, which every failure of \<open>sbrk2\<close> ends in, or a search that does not end.
  A commit has to return the address it was asked for.
\<close>

definition commit_at :: "'w win_os \<Rightarrow> u32 \<Rightarrow> win_region \<Rightarrow> 'w \<Rightarrow> (win_region \<times> 'w) option" where
  "commit_at os rsize r w =
     (let (base_committed, w) = va_commit os (top_committed r) rsize w
      in if base_committed \<noteq> top_committed r then None else Some (r\<lparr>top_committed := base_committed + rsize\<rparr>, w))"

text \<open>The inner loop: whether a free region was found, where the search ended, whether it is contiguous, and the size to reserve.\<close>

partial_function (option) find_region ::
  "'w win_os \<Rightarrow> u32 \<Rightarrow> 'w \<Rightarrow> u32 \<Rightarrow> bool \<Rightarrow> u32 \<Rightarrow> (bool \<times> u32 \<times> bool \<times> u32) option" where
  "find_region os allocate_size w base contig rsize =
     (case va_query os base w of
        None \<Rightarrow> Some (False, base, contig, rsize)
      | Some (base, region_size, state) \<Rightarrow>
          if state = MEM_FREE \<and> base mod win_getregionsize os = 0 \<and> region_size \<ge> rsize then Some (True, base, contig, rsize)
          else find_region os allocate_size w (base + region_size) False (win_CEIL allocate_size (my_regionsize os)))"

text \<open>The outer loop: a region that was found and cannot be reserved is searched again, with \<open>found\<close> as it is.\<close>

partial_function (option) reserve_region ::
  "'w win_os \<Rightarrow> u32 \<Rightarrow> u32 \<Rightarrow> u32 \<Rightarrow> bool \<Rightarrow> 'w \<Rightarrow> (u32 \<times> u32 \<times> bool \<times> u32 \<times> 'w) option" where
  "reserve_region os allocate_size to_reserve tr found w =
     Option.bind (find_region os allocate_size w tr True (win_CEIL to_reserve (my_regionsize os))) (\<lambda>(f, base, contig, rsize).
       let found = found \<or> f
       in if \<not> found then None
          else let (base_reserved, w) = va_reserve os base rsize w
               in if base_reserved = 0 then
                    if \<not> invalid_address os w then None else reserve_region os allocate_size to_reserve tr found w
                  else if base \<noteq> 0 \<and> base_reserved \<noteq> base then None
                  else Some (base_reserved, base, contig, rsize, w))"

text \<open>The part of an allocation that needs a new region; it returns the list, what is left to allocate, and the size to commit.\<close>

definition sbrk_reserve ::
  "'w win_os \<Rightarrow> u32 \<Rightarrow> u32 \<Rightarrow> u32 \<Rightarrow> win_region \<Rightarrow> win_region list \<Rightarrow> 'w \<Rightarrow> (win_region list \<times> u32 \<times> u32 \<times> 'w) option" where
  "sbrk_reserve os allocate_size to_reserve commit_size r rest w =
     (let remaining_commit_size = top_reserved r - top_committed r
      in Option.bind (if 0 <s remaining_commit_size then commit_at os remaining_commit_size r w else Some (r, w)) (\<lambda>(r, w).
           Option.bind (reserve_region os allocate_size to_reserve (top_reserved r) False w) (\<lambda>(base_reserved, base, contig, rsize, w).
             let (r, allocate_size, commit_size) =
               (if contig then
                  let start_size = top_committed r - top_allocated r;
                      allocate_size = allocate_size - start_size;
                      r = r\<lparr>top_allocated := top_committed r\<rparr>;
                      to_commit = top_allocated r + allocate_size - top_committed r
                  in (r, allocate_size, win_CEIL to_commit (my_pagesize os))
                else (r, allocate_size, commit_size))
             in Option.bind (region_list_append os base_reserved rsize (r # rest) w) (\<lambda>(rs, w).
                  let commit_size = (if \<not> contig then
                    let to_commit = top_allocated (hd rs) + allocate_size - top_committed (hd rs) in win_CEIL to_commit (my_pagesize os)
                    else commit_size)
                  in Some (rs, allocate_size, commit_size, w)))))"

definition sbrk_grow :: "'w win_os \<Rightarrow> u32 \<Rightarrow> win_region \<Rightarrow> win_region list \<Rightarrow> 'w \<Rightarrow> (u32 \<times> win_region list \<times> 'w) option" where
  "sbrk_grow os rsize r rest w =
     (let allocate_size = rsize;
          to_commit = top_allocated r + allocate_size - top_committed r
      in Option.bind
           (if 0 <s to_commit then
              let commit_size = win_CEIL to_commit (my_pagesize os);
                  to_reserve = top_committed r + commit_size - top_reserved r
              in Option.bind
                   (if 0 <s to_reserve then sbrk_reserve os allocate_size to_reserve commit_size r rest w
                    else Some (r # rest, allocate_size, commit_size, w))
                   (\<lambda>(rs, allocate_size, commit_size, w).
                      map_option (\<lambda>(r, w). (r # tl rs, allocate_size, w)) (commit_at os commit_size (hd rs) w))
            else Some (r # rest, allocate_size, w))
           (\<lambda>(rs, allocate_size, w).
              let r = (hd rs)\<lparr>top_allocated := top_allocated (hd rs) + allocate_size\<rparr>
              in Some (top_allocated r - rsize, r # tl rs, w)))"

text \<open>The regions that lie completely in what is given back are released; \<open>g_last\<close> that is \<open>NULL\<close> is followed.\<close>

fun sbrk_release :: "'w win_os \<Rightarrow> u32 \<Rightarrow> win_region list \<Rightarrow> 'w \<Rightarrow> (u32 \<times> win_region list \<times> 'w) option" where
  "sbrk_release os deallocate_size [] w = None"
| "sbrk_release os deallocate_size (r # rest) w =
     (if top_allocated r - deallocate_size < top_reserved r - reserve_size r then
        let release_size = reserve_size r;
            base_reserved = top_reserved r - release_size;
            (rc, w) = vf_release os base_reserved w
        in if \<not> rc then None
           else let deallocate_size = deallocate_size - (top_allocated r - base_reserved)
                in Option.bind (region_list_remove os (r # rest) w) (\<lambda>(rs, w). sbrk_release os deallocate_size rest w)
      else Some (deallocate_size, r # rest, w))"

definition sbrk_decommit :: "'w win_os \<Rightarrow> u32 \<Rightarrow> win_region \<Rightarrow> 'w \<Rightarrow> (u32 \<times> win_region \<times> 'w) option" where
  "sbrk_decommit os deallocate_size r w =
     (let to_decommit = top_committed r - (top_allocated r - deallocate_size)
      in if my_pagesize os \<le>s to_decommit then
           let decommit_size = win_FLOOR to_decommit (my_pagesize os);
               base_committed = top_committed r - decommit_size;
               (rc, w) = vf_decommit os base_committed decommit_size w
           in if \<not> rc then None
              else Some (deallocate_size - (top_allocated r - base_committed), r\<lparr>top_committed := base_committed, top_allocated := base_committed\<rparr>, w)
         else Some (deallocate_size, r, w))"

definition sbrk_shrink :: "'w win_os \<Rightarrow> u32 \<Rightarrow> win_region list \<Rightarrow> 'w \<Rightarrow> (u32 \<times> win_region list \<times> 'w) option" where
  "sbrk_shrink os deallocate_size rs w =
     Option.bind (sbrk_release os deallocate_size rs w) (\<lambda>(deallocate_size, rs, w).
       Option.bind (sbrk_decommit os deallocate_size (hd rs) w) (\<lambda>(deallocate_size, r, w).
         let r = r\<lparr>top_allocated := top_allocated r - deallocate_size\<rparr>
         in if top_reserved r - reserve_size r > top_allocated r \<or> top_allocated r > top_committed r then None
            else Some (top_allocated r, r # tl rs, w)))"

definition sbrk2 :: "'w win_os \<Rightarrow> u32 \<Rightarrow> win_region list \<times> 'w \<Rightarrow> (u32 \<times> win_region list \<times> 'w) option" where
  "sbrk2 os rsize = (\<lambda>(rs, w).
     Option.bind (if rs = [] then region_list_append os 0 0 rs w else Some (rs, w)) (\<lambda>(rs, w).
       Option.bind (if 0 \<le>s rsize then sbrk_grow os rsize (hd rs) (tl rs) w else sbrk_shrink os (- rsize) rs w) (\<lambda>(result, rs, w).
         if result = MORECORE_FAILURE then None else Some (result, rs, w))))"

section \<open>\<open>mmap\<close>, \<open>munmap\<close> and \<open>vminfo\<close>\<close>

definition win_mmap :: "'w win_os \<Rightarrow> u32 \<Rightarrow> u32 \<Rightarrow> 'w \<Rightarrow> u32 \<times> 'w" where
  "win_mmap os ptr rsize w = (let (ptr, w) = va_topdown os ptr rsize w in if ptr = 0 then (MORECORE_FAILURE, w) else (ptr, w))"

definition win_munmap :: "'w win_os \<Rightarrow> u32 \<Rightarrow> u32 \<Rightarrow> 'w \<Rightarrow> int \<times> 'w" where
  "win_munmap os ptr rsize w = (let (ok, w) = vf_release os ptr w in if \<not> ok then (- 1, w) else (0, w))"

partial_function (option) vminfo_loop :: "'w win_os \<Rightarrow> 'w \<Rightarrow> u32 \<Rightarrow> u32 \<times> u32 \<times> u32 \<Rightarrow> (u32 \<times> u32 \<times> u32) option" where
  "vminfo_loop os w base acc =
     (case va_query os base w of
        None \<Rightarrow> Some acc
      | Some (base, region_size, state) \<Rightarrow>
          vminfo_loop os w (base + region_size)
            (case acc of (f, r, c) \<Rightarrow>
              (case state of MEM_FREE \<Rightarrow> (f + region_size, r, c) | MEM_RESERVE \<Rightarrow> (f, r + region_size, c) | MEM_COMMIT \<Rightarrow> (f, r, c + region_size))))"

definition vminfo :: "'w win_os \<Rightarrow> 'w \<Rightarrow> (u32 \<times> u32 \<times> u32) option" where
  "vminfo os w = vminfo_loop os w 0 (0, 0, 0)"

section \<open>The invariant of the regions\<close>

definition region_base :: "win_region \<Rightarrow> u32" where "region_base r = top_reserved r - reserve_size r"

text \<open>What the assertions of \<open>sbrk2\<close> say, for pages of \<open>2 ^ a\<close> and regions of \<open>2 ^ b\<close> bytes.\<close>

definition region_ok :: "nat \<Rightarrow> nat \<Rightarrow> win_region \<Rightarrow> bool" where
  "region_ok a b r \<longleftrightarrow> unat (reserve_size r) \<le> unat (top_reserved r) \<and> unat (reserve_size r) < 2 ^ 31 \<and>
     region_base r \<le> top_allocated r \<and> top_allocated r \<le> top_committed r \<and> top_committed r \<le> top_reserved r \<and>
     2 ^ a dvd unat (top_committed r) \<and> 2 ^ b dvd unat (top_reserved r) \<and> 2 ^ b dvd unat (reserve_size r)"

text \<open>What \<open>sbrk\<close> has given out and not taken back.\<close>

definition sbrk_total :: "win_region list \<Rightarrow> nat" where
  "sbrk_total rs = (\<Sum>r \<leftarrow> rs. unat (top_allocated r) - unat (region_base r))"

lemma sbrk_total_simps [simp]:
  "sbrk_total [] = 0" "sbrk_total (r # rs) = unat (top_allocated r) - unat (region_base r) + sbrk_total rs"
  by (simp_all add: sbrk_total_def)

lemma unat_region_base: "region_ok a b r \<Longrightarrow> unat (region_base r) = unat (top_reserved r) - unat (reserve_size r)"
  by (simp add: region_ok_def region_base_def unat_sub word_le_nat_alt)

text \<open>Signed comparisons.\<close>

lemma sless_diff:
  fixes x y :: u32
  assumes "unat x < unat y + 2 ^ 31" and "unat y < unat x + 2 ^ 31"
  shows "0 <s x - y \<longleftrightarrow> unat y < unat x"
proof -
  have "int (unat x) < int (unat y + 2 ^ 31)" "int (unat y) < int (unat x + 2 ^ 31)" using assms by (simp_all only: of_nat_less_iff)
  then have "int (unat x) < int (unat y) + 2 ^ 31" "int (unat y) < int (unat x) + 2 ^ 31" by (simp_all only: of_nat_add of_nat_power of_nat_numeral)
  then have b: "- (2 ^ 31) \<le> int (unat x) - int (unat y)" "int (unat x) - int (unat y) < 2 ^ 31" by linarith+
  have "x - y = of_int (int (unat x) - int (unat y))" by simp
  moreover have "sint (of_int i :: u32) = i" if "- (2 ^ 31) \<le> i" "i < 2 ^ 31" for i
    using signed_take_bit_int_eq_self [of 31 i] that by (simp add: signed_of_int)
  ultimately have "sint (x - y) = int (unat x) - int (unat y)" using b by metis
  then show ?thesis by (simp add: word_sless_alt word_less_nat_alt [symmetric] word_less_def)
qed

text \<open>Rounding.\<close>

lemma unat_win_CEIL: "n < 32 \<Longrightarrow> unat x + 2 ^ n \<le> 2 ^ 32 \<Longrightarrow> unat (win_CEIL x (2 ^ n)) = round_up (2 ^ n) (unat x)"
proof -
  assume n: "n < 32" and x: "unat x + 2 ^ n \<le> 2 ^ 32"
  have p: "(0 :: nat) < 2 ^ n" by simp
  have l: "(2 :: nat) ^ n - 1 < 2 ^ 32" using power_strict_increasing [OF n, of "2 :: nat"] by linarith
  have m: "x + 2 ^ n - 1 = x + of_nat (2 ^ n - 1)" by simp
  have "unat (x + of_nat (2 ^ n - 1)) = unat x + (2 ^ n - 1)"
    using x p unat_of_nat32 [OF l] by (subst unat_add_nowrap) auto
  moreover have "win_CEIL x (2 ^ n) = (x + of_nat (2 ^ n - 1)) AND NOT (mask n)"
    unfolding win_CEIL_def m mask_eq_exp_minus_1 ..
  ultimately show ?thesis by (simp only: unat_and_not_mask round_up_def)
qed

lemma unat_win_FLOOR: "unat (win_FLOOR x (2 ^ n)) = unat x div 2 ^ n * 2 ^ n"
  unfolding win_FLOOR_def mask_eq_exp_minus_1 [symmetric] by (rule unat_and_not_mask)

lemma round_up_least: "0 < k \<Longrightarrow> k dvd m \<Longrightarrow> n \<le> m \<Longrightarrow> round_up k n \<le> (m :: nat)"
proof -
  assume k: "0 < k" "k dvd m" and n: "n \<le> m"
  obtain x where x: "round_up k n = k * x" by (rule dvdE [OF round_up_dvd])
  obtain y where y: "m = k * y" using k by (elim dvdE)
  have "k * x < k * (y + 1)" using round_up_less [of k n] k n x y by simp
  then have "x < y + 1" by (metis mult_less_cancel1)
  then show ?thesis using x y by simp
qed

lemma sint_of_int32: "- (2 ^ 31) \<le> i \<Longrightarrow> i < 2 ^ 31 \<Longrightarrow> sint (of_int i :: u32) = i"
  using signed_take_bit_int_eq_self [of 31 i] by (simp add: signed_of_int)

lemma sless_of_int: "- (2 ^ 31) \<le> i \<Longrightarrow> i < 2 ^ 31 \<Longrightarrow> 0 <s (of_int i :: u32) \<longleftrightarrow> 0 < i"
  by (simp add: word_sless_alt sint_of_int32)

lemma unat_of_int32: "0 \<le> i \<Longrightarrow> i < 2 ^ 32 \<Longrightarrow> unat (of_int i :: u32) = nat i"
  using unat_of_nat32 [of "nat i"] by simp

lemma of_int_unat: "of_int (int (unat x)) = (x :: u32)"
  by simp

text \<open>The laws of the system: what the documentation of the Windows functions says and the emulation relies on.\<close>

definition win_ok :: "nat \<Rightarrow> nat \<Rightarrow> 'w win_os \<Rightarrow> bool" where
  "win_ok a b os \<longleftrightarrow> a \<le> b \<and> b < 30 \<and> dwPageSize os = 2 ^ a \<and> dwAllocationGranularity os = 2 ^ b \<and>
     (\<forall>x w base sz st. 2 ^ a dvd unat x \<longrightarrow> va_query os x w = Some (base, sz, st) \<longrightarrow> base = x) \<and>
     (\<forall>x n w p w'. va_reserve os x n w = (p, w') \<longrightarrow> p \<noteq> 0 \<longrightarrow> 2 ^ b dvd unat p \<and> unat p + unat n < 2 ^ 32)"

lemma find_region_result:
  assumes "find_region os n w base contig rsize = Some (f, base', contig', rsize')"
  shows "(contig' \<longrightarrow> contig \<and> rsize' = rsize \<and> (base' = base \<or> (\<exists>sz st. va_query os base w = Some (base', sz, st)))) \<and>
    (\<not> contig' \<longrightarrow> rsize' = win_CEIL n (my_regionsize os) \<or> (\<not> contig \<and> rsize' = rsize))"
proof -
  let ?P = "\<lambda>os n w base contig rsize (f, base', contig', rsize').
    (contig' \<longrightarrow> contig \<and> rsize' = rsize \<and> (base' = base \<or> (\<exists>sz st. va_query os base w = Some (base', sz, st)))) \<and>
    (\<not> contig' \<longrightarrow> rsize' = win_CEIL n (my_regionsize os) \<or> (\<not> contig \<and> rsize' = rsize))"
  have "?P os n w base contig rsize (f, base', contig', rsize')"
  proof (rule find_region.raw_induct [where P = ?P, OF _ assms])
    fix rec and os :: "'a win_os" and n w base contig rsize r
    assume ih: "\<And>os n w base contig rsize r. rec os n w base contig rsize = Some r \<Longrightarrow> ?P os n w base contig rsize r"
      and r: "(case va_query os base w of None \<Rightarrow> Some (False, base, contig, rsize)
        | Some (base, region_size, state) \<Rightarrow>
            if state = MEM_FREE \<and> base mod win_getregionsize os = 0 \<and> region_size \<ge> rsize then Some (True, base, contig, rsize)
            else rec os n w (base + region_size) False (win_CEIL n (my_regionsize os))) = Some r"
    show "?P os n w base contig rsize r"
    proof (cases "va_query os base w")
      case None then show ?thesis using r by auto
    next
      case (Some q)
      obtain b s t where q: "q = (b, s, t)" by (cases q)
      show ?thesis
      proof (cases "t = MEM_FREE \<and> b mod win_getregionsize os = 0 \<and> s \<ge> rsize")
        case True then show ?thesis using r Some q by auto
      next
        case False
        then have "rec os n w (b + s) False (win_CEIL n (my_regionsize os)) = Some r" using r Some q by auto
        from ih [OF this] show ?thesis by auto
      qed
    qed
  qed
  then show ?thesis by simp
qed

lemma reserve_region_result:
  assumes "reserve_region os n to_reserve tr found w = Some (p, base, contig, rsize, w')"
    and "win_ok a b os" and "2 ^ a dvd unat tr"
  shows "p \<noteq> 0 \<and> 2 ^ b dvd unat p \<and> unat p + unat rsize < 2 ^ 32 \<and> (base \<noteq> 0 \<longrightarrow> p = base) \<and>
    (if contig then base = tr \<and> rsize = win_CEIL to_reserve (2 ^ b) else rsize = win_CEIL n (2 ^ b))"
proof -
  let ?P = "\<lambda>os n to_reserve tr found w (p, base, contig, rsize, w'). win_ok a b os \<longrightarrow> 2 ^ a dvd unat tr \<longrightarrow>
    p \<noteq> 0 \<and> 2 ^ b dvd unat p \<and> unat p + unat rsize < 2 ^ 32 \<and> (base \<noteq> 0 \<longrightarrow> p = base) \<and>
    (if contig then base = tr \<and> rsize = win_CEIL to_reserve (2 ^ b) else rsize = win_CEIL n (2 ^ b))"
  have "?P os n to_reserve tr found w (p, base, contig, rsize, w')"
  proof (rule reserve_region.raw_induct [where P = ?P, OF _ assms(1)])
    fix rec and os :: "'a win_os" and n to_reserve tr found w r
    assume ih: "\<And>os n to_reserve tr found w r. rec os n to_reserve tr found w = Some r \<Longrightarrow> ?P os n to_reserve tr found w r"
      and r: "Option.bind (find_region os n w tr True (win_CEIL to_reserve (my_regionsize os))) (\<lambda>(f, base, contig, rsize).
       let found = found \<or> f
       in if \<not> found then None
          else let (base_reserved, w) = va_reserve os base rsize w
               in if base_reserved = 0 then
                    if \<not> invalid_address os w then None else rec os n to_reserve tr found w
                  else if base \<noteq> 0 \<and> base_reserved \<noteq> base then None
                  else Some (base_reserved, base, contig, rsize, w)) = Some r"
    obtain f base contig rsize where fr: "find_region os n w tr True (win_CEIL to_reserve (my_regionsize os)) = Some (f, base, contig, rsize)"
      using r by (auto simp: bind_eq_Some_conv)
    obtain p w1 where vr: "va_reserve os base rsize w = (p, w1)" by (cases "va_reserve os base rsize w")
    note fact = find_region_result [OF fr]
    show "?P os n to_reserve tr found w r"
    proof (cases "p = 0")
      case True
      then have "rec os n to_reserve tr (found \<or> f) w1 = Some r" using r fr vr by (auto simp: Let_def split: if_splits)
      from ih [OF this] show ?thesis by auto
    next
      case False
      then have req: "r = (p, base, contig, rsize, w1)" and pb: "base \<noteq> 0 \<longrightarrow> p = base"
        using r fr vr by (auto simp: Let_def split: if_splits)
      show ?thesis
      proof (simp only: req prod.case, intro impI)
        assume ok: "win_ok a b os" and d: "2 ^ a dvd unat tr"
        then have g: "my_regionsize os = 2 ^ b" by (simp add: win_ok_def my_regionsize_def win_getregionsize_def SBRK_SCALE_def)
        have "2 ^ b dvd unat p \<and> unat p + unat rsize < 2 ^ 32" using ok vr False unfolding win_ok_def by blast
        moreover have "contig \<longrightarrow> base = tr" using fact ok d unfolding win_ok_def by blast
        ultimately show "p \<noteq> 0 \<and> 2 ^ b dvd unat p \<and> unat p + unat rsize < 2 ^ 32 \<and> (base \<noteq> 0 \<longrightarrow> p = base) \<and>
            (if contig then base = tr \<and> rsize = win_CEIL to_reserve (2 ^ b) else rsize = win_CEIL n (2 ^ b))"
          using fact pb False g by auto
      qed
    qed
  qed
  then show ?thesis using assms(2,3) by simp
qed

section \<open>An allocation\<close>

lemma region_okD:
  assumes "region_ok a b r"
  shows "unat (reserve_size r) \<le> unat (top_reserved r)" "unat (reserve_size r) < 2 ^ 31"
    "unat (top_reserved r) \<le> unat (top_allocated r) + unat (reserve_size r)" "unat (top_allocated r) \<le> unat (top_committed r)"
    "unat (top_committed r) \<le> unat (top_reserved r)" "2 ^ a dvd unat (top_committed r)" "2 ^ b dvd unat (top_reserved r)"
    "2 ^ b dvd unat (reserve_size r)" "unat (region_base r) = unat (top_reserved r) - unat (reserve_size r)"
  using assms unat_region_base [OF assms] by (auto simp: region_ok_def word_le_nat_alt)

lemma region_okI:
  assumes "unat (reserve_size r) \<le> unat (top_reserved r)" "unat (reserve_size r) < 2 ^ 31"
    "unat (top_reserved r) \<le> unat (top_allocated r) + unat (reserve_size r)" "unat (top_allocated r) \<le> unat (top_committed r)"
    "unat (top_committed r) \<le> unat (top_reserved r)" "2 ^ a dvd unat (top_committed r)" "2 ^ b dvd unat (top_reserved r)"
    "2 ^ b dvd unat (reserve_size r)"
  shows "region_ok a b r"
proof -
  have "unat (region_base r) = unat (top_reserved r) - unat (reserve_size r)"
    using assms(1) by (simp add: region_base_def unat_sub word_le_nat_alt)
  then show ?thesis using assms by (simp add: region_ok_def word_le_nat_alt)
qed

lemma bind_SomeE: "Option.bind x f = Some y \<Longrightarrow> (\<And>z. x = Some z \<Longrightarrow> f z = Some y \<Longrightarrow> P) \<Longrightarrow> P"
  by (cases x) auto

lemma commit_at_Some: "commit_at os n r w = Some (r', w') \<Longrightarrow> r' = r\<lparr>top_committed := top_committed r + n\<rparr>"
  by (auto simp: commit_at_def Let_def split: prod.splits if_splits)

lemma region_list_append_Some:
  "region_list_append os p n rs w = Some (rs', w') \<Longrightarrow>
     rs' = \<lparr>top_allocated = p, top_committed = p, top_reserved = p + n, reserve_size = n\<rparr> # rs"
  by (auto simp: region_list_append_def Let_def split: prod.splits if_splits)

lemma new_region_ok:
  assumes "2 ^ b dvd unat p" "unat p + unat n < 2 ^ 32" "2 ^ b dvd unat n" "unat n < 2 ^ 31" "a \<le> b"
  shows "region_ok a b \<lparr>top_allocated = p, top_committed = p, top_reserved = p + n, reserve_size = n\<rparr>"
proof -
  have "(2 :: nat) ^ a dvd 2 ^ b" using assms(5) by (rule le_imp_power_dvd)
  then have "2 ^ a dvd unat p" using assms(1) by (rule dvd_trans)
  then show ?thesis using assms by (intro region_okI) (simp_all add: unat_add_nowrap)
qed

lemma int_less_add: "m < n + k \<Longrightarrow> int m < int n + int k"
  by simp

lemmas int_less31 = int_less_add [of _ _ "2 ^ 31", simplified of_nat_power of_nat_numeral]

lemma nat_less31: "m < 2 ^ 31 \<Longrightarrow> int m < 2 ^ 31"
  using int_less31 [of m 0] by simp

lemma nat_less32: "m < 2 ^ 32 \<Longrightarrow> int m < 2 ^ 32"
  using int_less_add [of m 0 "2 ^ 32"] by simp

text \<open>The words of an allocation of \<open>n\<close> bytes, as numbers.\<close>

lemma to_commit_int:
  assumes "region_ok a b r"
  shows "top_allocated r + n - top_committed r = of_int (int (unat (top_allocated r)) + int (unat n) - int (unat (top_committed r)))"
  by simp

lemma to_commit_sign:
  assumes "region_ok a b r" and "unat n < 2 ^ 31"
  shows "0 <s top_allocated r + n - top_committed r \<longleftrightarrow> unat (top_committed r) < unat (top_allocated r) + unat n"
proof -
  note d = region_okD [OF assms(1)]
  have "unat (top_committed r) < unat (top_allocated r) + 2 ^ 31" using d by linarith
  then have "int (unat (top_committed r)) < int (unat (top_allocated r)) + 2 ^ 31" by (rule int_less31)
  moreover have "int (unat (top_allocated r)) \<le> int (unat (top_committed r))" "int (unat n) < 2 ^ 31" using d(4) assms(2) by (simp_all only: of_nat_le_iff nat_less31)
  ultimately show ?thesis unfolding to_commit_int [OF assms(1)] by (subst sless_of_int) linarith+
qed

lemma unat_to_commit:
  assumes "region_ok a b r" and "unat (top_committed r) < unat (top_allocated r) + unat n"
  shows "unat (top_allocated r + n - top_committed r) = unat (top_allocated r) + unat n - unat (top_committed r)"
proof -
  have "unat n < 2 ^ 32" by (rule order_less_le_trans [OF unsigned_less]) simp
  then have "int (unat n) < 2 ^ 32" by (rule nat_less32)
  then show ?thesis unfolding to_commit_int [OF assms(1)] using assms(2) region_okD(4) [OF assms(1)]
    by (subst unat_of_int32) linarith+
qed

lemma to_reserve_int:
  "top_committed r + k - top_reserved r = of_int (int (unat (top_committed r)) + int (unat k) - int (unat (top_reserved r)))"
  by simp

lemma to_reserve_sign:
  assumes "region_ok a b r" and "unat k < 2 ^ 31"
  shows "0 <s top_committed r + k - top_reserved r \<longleftrightarrow> unat (top_reserved r) < unat (top_committed r) + unat k"
proof -
  note d = region_okD [OF assms(1)]
  have "unat (top_reserved r) < unat (top_committed r) + 2 ^ 31" using d by linarith
  then have "int (unat (top_reserved r)) < int (unat (top_committed r)) + 2 ^ 31" by (rule int_less31)
  moreover have "int (unat (top_committed r)) \<le> int (unat (top_reserved r))" "int (unat k) < 2 ^ 31" using d(5) assms(2) by (simp_all only: of_nat_le_iff nat_less31)
  ultimately show ?thesis unfolding to_reserve_int by (subst sless_of_int) linarith+
qed

lemma unat_to_reserve:
  assumes "region_ok a b r" and "unat (top_reserved r) < unat (top_committed r) + unat k" and "unat k < 2 ^ 31"
  shows "unat (top_committed r + k - top_reserved r) = unat (top_committed r) + unat k - unat (top_reserved r)"
proof -
  have "unat k < 2 ^ 32" by (rule order_less_le_trans [OF unsigned_less]) simp
  then have "int (unat k) < 2 ^ 32" by (rule nat_less32)
  then show ?thesis unfolding to_reserve_int using assms(2) region_okD(5) [OF assms(1)] by (subst unat_of_int32) linarith+
qed

lemma remaining_commit:
  assumes "region_ok a b r"
    and "(if 0 <s top_reserved r - top_committed r then commit_at os (top_reserved r - top_committed r) r w else Some (r, w)) = Some (r', w')"
  shows "r' = r\<lparr>top_committed := top_reserved r\<rparr>"
proof (cases "0 <s top_reserved r - top_committed r")
  case True then show ?thesis using assms(2) commit_at_Some by fastforce
next
  case False
  note d = region_okD [OF assms(1)]
  have "unat (top_reserved r) < unat (top_committed r) + 2 ^ 31" "unat (top_committed r) < unat (top_reserved r) + 2 ^ 31" using d by linarith+
  then have "unat (top_reserved r) \<le> unat (top_committed r)" using False by (simp add: sless_diff)
  then have "top_reserved r = top_committed r" using d(5) by (simp add: word_unat_eq_iff)
  then have "r\<lparr>top_committed := top_reserved r\<rparr> = r" by simp
  then show ?thesis using False assms(2) by simp
qed

lemma reserve_arith:
  assumes "k = round_up (2 ^ a) (A + n - C)" and "2 ^ a dvd C" and "2 ^ a dvd R" and "C < A + n" and "R < C + k" and "C \<le> (R :: nat)"
  shows "R < A + n \<and> A + n - R \<le> C + k - R \<and> C + k - R \<le> k"
proof -
  have "A + n - C \<le> k" unfolding assms(1) by (rule round_up_ge) simp
  moreover have "R < A + n"
  proof (rule ccontr)
    assume "\<not> R < A + n"
    then have "A + n - C \<le> R - C" by simp
    then have "k \<le> R - C" unfolding assms(1) using assms(2,3) by (intro round_up_least) (auto intro: dvd_diff_nat)
    then show False using assms(5,6) by simp
  qed
  ultimately show ?thesis using assms(4-6) by linarith
qed

text \<open>What the reservation leaves: the region that was last, and a new one that is empty.\<close>

lemma sbrk_reserve_law:
  assumes os: "win_ok a b os" and r: "region_ok a b r" and n: "unat n < 2 ^ 30"
    and cs: "unat k = round_up (2 ^ a) (unat (top_allocated r) + unat n - unat (top_committed r))" "unat k < 2 ^ 31"
    and more: "unat (top_committed r) < unat (top_allocated r) + unat n" "unat (top_reserved r) < unat (top_committed r) + unat k"
    and res: "sbrk_reserve os n (top_committed r + k - top_reserved r) k r rest w = Some (rs, al, k', w')"
  shows "\<exists>r1 q. rs = q # r1 # rest \<and> region_ok a b r1 \<and> region_ok a b q \<and> region_base r1 = region_base r \<and>
    top_allocated q = region_base q \<and> top_committed q = top_allocated q \<and> k' = win_CEIL al (2 ^ a) \<and>
    unat (top_allocated r1) + unat al = unat (top_allocated r) + unat n \<and> 0 < unat al \<and> unat al \<le> unat (reserve_size q) \<and>
    (al = n \<or> region_base q + al - n = top_allocated r)"
proof -
  note d = region_okD [OF r]
  note ok = os [unfolded win_ok_def]
  have ab: "a \<le> b" "b < 30" using ok by auto
  have pa: "(2 :: nat) ^ a \<le> 2 ^ 29" "(2 :: nat) ^ b \<le> 2 ^ 29" using ab by (simp_all only: power_increasing_iff)
  have dv: "(2 :: nat) ^ a dvd 2 ^ b" using ab(1) by (rule le_imp_power_dvd)
  have ps: "my_pagesize os = 2 ^ a" using ok by (simp add: my_pagesize_def win_getpagesize_def SBRK_SCALE_def)
  obtain r0 w0 where r0: "(if 0 <s top_reserved r - top_committed r then commit_at os (top_reserved r - top_committed r) r w else Some (r, w)) = Some (r0, w0)"
    and res1: "Option.bind (reserve_region os n (top_committed r + k - top_reserved r) (top_reserved r0) False w0) (\<lambda>(base_reserved, base, contig, rsize, w).
             let (r, allocate_size, commit_size) =
               (if contig then
                  let start_size = top_committed r0 - top_allocated r0;
                      allocate_size = n - start_size;
                      r = r0\<lparr>top_allocated := top_committed r0\<rparr>;
                      to_commit = top_allocated r + allocate_size - top_committed r
                  in (r, allocate_size, win_CEIL to_commit (my_pagesize os))
                else (r0, n, k))
             in Option.bind (region_list_append os base_reserved rsize (r # rest) w) (\<lambda>(rs, w).
                  let commit_size = (if \<not> contig then
                    let to_commit = top_allocated (hd rs) + allocate_size - top_committed (hd rs) in win_CEIL to_commit (my_pagesize os)
                    else commit_size)
                  in Some (rs, allocate_size, commit_size, w))) = Some (rs, al, k', w')"
    using res unfolding sbrk_reserve_def by (auto simp: bind_eq_Some_conv Let_def split del: if_split)
  have r0eq: "r0 = r\<lparr>top_committed := top_reserved r\<rparr>" using r r0 by (rule remaining_commit)
  obtain p base contig rsize w1 where rr: "reserve_region os n (top_committed r + k - top_reserved r) (top_reserved r0) False w0 = Some (p, base, contig, rsize, w1)"
    using res1 by (auto simp: bind_eq_Some_conv)
  have "2 ^ a dvd unat (top_reserved r0)" using d(7) dv r0eq by (auto intro: dvd_trans)
  note fact = reserve_region_result [OF rr os this]
  have ra: "unat (top_reserved r) < unat (top_allocated r) + unat n" "unat (top_committed r) + unat k - unat (top_reserved r) \<le> unat k"
      "unat (top_allocated r) + unat n - unat (top_reserved r) \<le> unat (top_committed r) + unat k - unat (top_reserved r)"
    using reserve_arith [OF cs(1) d(6) dvd_trans [OF dv d(7)] more d(5)] by auto
  have kn: "unat k < unat n + 2 ^ a" using round_up_less [of "2 ^ a" "unat (top_allocated r) + unat n - unat (top_committed r)"] cs(1) d(4) by simp
  show ?thesis
  proof (cases contig)
    case True
    define s where "s = top_reserved r - top_allocated r"
    have us: "unat s = unat (top_reserved r) - unat (top_allocated r)" unfolding s_def using d by (simp add: unat_sub word_le_nat_alt)
    define q where "q = \<lparr>top_allocated = p, top_committed = p, top_reserved = p + rsize, reserve_size = rsize\<rparr>"
    define r1 where "r1 = r0\<lparr>top_allocated := top_reserved r\<rparr>"
    have eqs: "rs = q # r1 # rest" "al = n - s" "k' = win_CEIL al (2 ^ a)"
      using res1 rr True unfolding q_def r1_def s_def
      by (auto simp: bind_eq_Some_conv Let_def r0eq ps dest!: region_list_append_Some)
    have ua: "unat al = unat (top_allocated r) + unat n - unat (top_reserved r)"
      unfolding eqs using us ra d by (simp add: unat_sub word_le_nat_alt)
    have up: "unat (top_committed r + k - top_reserved r) = unat (top_committed r) + unat k - unat (top_reserved r)"
      by (rule unat_to_reserve [OF r more(2) cs(2)])
    have rsz: "rsize = win_CEIL (top_committed r + k - top_reserved r) (2 ^ b)" "base = top_reserved r" using fact True r0eq by auto
    have ursz: "unat rsize = round_up (2 ^ b) (unat (top_committed r) + unat k - unat (top_reserved r))"
      unfolding rsz(1) up [symmetric] using ra(2) kn n pa ab unfolding up [symmetric] by (intro unat_win_CEIL) simp_all
    define X where "X = unat (top_committed r) + unat k - unat (top_reserved r)"
    have "round_up (2 ^ b) X < X + 2 ^ b" "X \<le> round_up (2 ^ b) X" by (simp_all add: round_up_less round_up_ge)
    then have "unat rsize < 2 ^ 30 + 2 ^ 29 + 2 ^ 29" "unat al \<le> unat rsize"
      using ra kn n pa ursz ua unfolding X_def [symmetric] by linarith+
    then have bd: "unat rsize < 2 ^ 31" "unat al \<le> unat rsize" "2 ^ b dvd unat rsize" using ursz by simp_all
    have "region_ok a b r1" using d dvd_trans [OF dv d(7)] by (intro region_okI) (simp_all add: r1_def r0eq)
    moreover have "region_ok a b q" unfolding q_def using fact bd ab by (intro new_region_ok) simp_all
    moreover have "region_base q = p" "region_base r1 = region_base r" by (simp_all add: q_def r1_def r0eq region_base_def)
    moreover have "al = n \<or> p + al - n = top_allocated r"
    proof (cases "top_reserved r = 0")
      case True
      then have "s = 0" using us d by (simp add: s_def word_unat_eq_iff)
      then show ?thesis using eqs by simp
    next
      case False
      then have "p = top_reserved r" using fact rsz(2) by simp
      then show ?thesis unfolding eqs s_def by simp
    qed
    moreover have "unat (top_allocated r1) = unat (top_reserved r)" by (simp add: r1_def)
    ultimately show ?thesis using eqs bd ua ra d by (intro exI [of _ r1] exI [of _ q]) (simp add: q_def)
  next
    case False
    define q where "q = \<lparr>top_allocated = p, top_committed = p, top_reserved = p + rsize, reserve_size = rsize\<rparr>"
    have eqs: "rs = q # r0 # rest" "al = n" "k' = win_CEIL al (2 ^ a)"
      using res1 rr False unfolding q_def
      by (auto simp: bind_eq_Some_conv Let_def r0eq ps dest!: region_list_append_Some)
    have ursz: "unat rsize = round_up (2 ^ b) (unat n)"
      using fact False n pa ab by (simp add: unat_win_CEIL)
    have bd: "unat rsize < 2 ^ 31" "unat n \<le> unat rsize" "2 ^ b dvd unat rsize" "0 < unat n"
      using ursz round_up_less [of "2 ^ b" "unat n"] round_up_ge [of "2 ^ b" "unat n"] n pa more(1) d(4) by simp_all
    have "region_ok a b r0" using d dvd_trans [OF dv d(7)] by (intro region_okI) (simp_all add: r0eq)
    moreover have "region_ok a b q" unfolding q_def using fact bd ab by (intro new_region_ok) simp_all
    moreover have "region_base q = p" "region_base r0 = region_base r" by (simp_all add: q_def r0eq region_base_def)
    moreover have "unat (top_allocated r0) = unat (top_allocated r)" by (simp add: r0eq)
    ultimately show ?thesis using eqs bd by (intro exI [of _ r0] exI [of _ q]) (simp add: q_def)
  qed
qed

text \<open>What an allocation of \<open>n\<close> bytes keeps and promises.\<close>

definition sbrk_grown :: "nat \<Rightarrow> nat \<Rightarrow> u32 \<Rightarrow> win_region list \<Rightarrow> u32 \<Rightarrow> win_region list \<Rightarrow> bool" where
  "sbrk_grown a b n rs p rs' \<longleftrightarrow> rs' \<noteq> [] \<and> (\<forall>r \<in> set rs'. region_ok a b r) \<and> sbrk_total rs' = sbrk_total rs + unat n \<and>
     p + n = top_allocated (hd rs') \<and> (p = top_allocated (hd rs) \<or> p = region_base (hd rs'))"

lemma commit_grown:
  assumes "region_ok a b q" and "unat (top_allocated q) + m \<le> unat (top_committed q) + round_up (2 ^ a) c"
    and "unat (top_committed q) + round_up (2 ^ a) c \<le> unat (top_reserved q)" and "unat k = round_up (2 ^ a) c" and "unat al = m"
  shows "region_ok a b (q\<lparr>top_committed := top_committed q + k, top_allocated := top_allocated q + al\<rparr>) \<and>
    unat (top_allocated q + al) = unat (top_allocated q) + m"
proof -
  note d = region_okD [OF assms(1)]
  have "unat (top_reserved q) < 2 ^ 32" by (rule order_less_le_trans [OF unsigned_less]) simp
  then have c: "unat (top_committed q + k) = unat (top_committed q) + round_up (2 ^ a) c"
    and al: "unat (top_allocated q + al) = unat (top_allocated q) + m"
    using assms by (simp_all add: unat_add_nowrap)
  have "2 ^ a dvd unat (top_committed q) + round_up (2 ^ a) c" using d(6) by (rule dvd_add) simp
  then show ?thesis using d assms(2,3) by (intro conjI region_okI) (simp_all add: c al)
qed

lemma sbrk_grow_law:
  assumes os: "win_ok a b os" and r: "region_ok a b r" and rest: "\<forall>x \<in> set rest. region_ok a b x" and n: "unat n < 2 ^ 30"
    and res: "sbrk_grow os n r rest w = Some (p, rs', w')"
  shows "sbrk_grown a b n (r # rest) p rs'"
proof -
  note d = region_okD [OF r]
  note ok = os [unfolded win_ok_def]
  have ps: "my_pagesize os = 2 ^ a" using ok by (simp add: my_pagesize_def win_getpagesize_def SBRK_SCALE_def)
  have ab: "a \<le> b" "b < 30" using ok by auto
  have pa: "(2 :: nat) ^ a \<le> 2 ^ 29" using ab by (simp only: power_increasing_iff)
  have dv: "(2 :: nat) ^ a dvd 2 ^ b" using ab(1) by (rule le_imp_power_dvd)
  define c where "c = unat (top_allocated r) + unat n - unat (top_committed r)"
  define k where "k = win_CEIL (top_allocated r + n - top_committed r) (2 ^ a)"
  have n31: "unat n < 2 ^ 31" using n by simp
  note sign = to_commit_sign [OF r n31]
  note def = sbrk_grow_def [of os n r rest w, unfolded res Let_def ps, symmetric]
  show ?thesis
  proof (cases "unat (top_committed r) < unat (top_allocated r) + unat n")
    case False
    have "unat (top_reserved r) < 2 ^ 32" by (rule order_less_le_trans [OF unsigned_less]) simp
    then have al: "unat (top_allocated r + n) = unat (top_allocated r) + unat n"
      using False d by (intro unat_add_nowrap) simp
    have "region_ok a b (r\<lparr>top_allocated := top_allocated r + n\<rparr>)" using d False by (intro region_okI) (simp_all add: al)
    moreover have "p = top_allocated r" "rs' = r\<lparr>top_allocated := top_allocated r + n\<rparr> # rest" using def False sign by auto
    ultimately show ?thesis using rest d al by (simp add: sbrk_grown_def region_base_def unat_sub word_le_nat_alt)
  next
    case True
    have c: "unat (top_allocated r + n - top_committed r) = c" unfolding c_def by (rule unat_to_commit [OF r True])
    have "c \<le> unat n" using d(4) by (simp add: c_def)
    then have uk: "unat k = round_up (2 ^ a) c" unfolding k_def using c n pa ab by (subst unat_win_CEIL) simp_all
    have "round_up (2 ^ a) c < c + 2 ^ a" by (rule round_up_less) simp
    then have "unat k < 2 ^ 30 + 2 ^ 29" using uk pa n \<open>c \<le> unat n\<close> by linarith
    then have k31: "unat k < 2 ^ 31" by simp
    note rsign = to_reserve_sign [OF r k31]
    have def1: "Option.bind (Option.bind
        (if unat (top_reserved r) < unat (top_committed r) + unat k
         then sbrk_reserve os n (top_committed r + k - top_reserved r) k r rest w else Some (r # rest, n, k, w))
        (\<lambda>(rs, al, k, w). map_option (\<lambda>(r, w). (r # tl rs, al, w)) (commit_at os k (hd rs) w)))
        (\<lambda>(rs, al, w). Some (top_allocated (hd rs) + al - n, (hd rs)\<lparr>top_allocated := top_allocated (hd rs) + al\<rparr> # tl rs, w)) = Some (p, rs', w')"
      using def True sign rsign unfolding k_def [symmetric] by simp
    have grow: "c \<le> round_up (2 ^ a) c" by (rule round_up_ge) simp
    show ?thesis
    proof (cases "unat (top_reserved r) < unat (top_committed r) + unat k")
      case False
      obtain q w1 where q: "commit_at os k r w = Some (q, w1)" using def1 False by (auto simp: bind_eq_Some_conv)
      note qe = commit_at_Some [OF q]
      have res2: "p = top_allocated r" "rs' = r\<lparr>top_committed := top_committed r + k, top_allocated := top_allocated r + n\<rparr> # rest"
        using def1 False q qe by auto
      have "region_ok a b (r\<lparr>top_committed := top_committed r + k, top_allocated := top_allocated r + n\<rparr>) \<and>
          unat (top_allocated r + n) = unat (top_allocated r) + unat n"
        using False uk grow True by (intro commit_grown [OF r, where c = c]) (simp_all add: c_def)
      then show ?thesis using rest d res2 by (simp add: sbrk_grown_def region_base_def unat_sub word_le_nat_alt)
    next
      case far: True
      obtain rs al k' w1 where sr: "sbrk_reserve os n (top_committed r + k - top_reserved r) k r rest w = Some (rs, al, k', w1)"
        using def1 far by (auto simp: bind_eq_Some_conv)
      obtain r1 q where q: "rs = q # r1 # rest" "region_ok a b r1" "region_ok a b q" "region_base r1 = region_base r"
          "top_allocated q = region_base q" "top_committed q = top_allocated q" "k' = win_CEIL al (2 ^ a)"
          "unat (top_allocated r1) + unat al = unat (top_allocated r) + unat n" "0 < unat al" "unat al \<le> unat (reserve_size q)"
          "al = n \<or> region_base q + al - n = top_allocated r"
        using sbrk_reserve_law [OF os r n _ k31 True far sr] uk unfolding c_def by blast
      obtain q1 w2 where q1: "commit_at os k' q w1 = Some (q1, w2)" using def1 far sr q(1) by (auto simp: bind_eq_Some_conv)
      note qe = commit_at_Some [OF q1]
      define q2 where "q2 = q\<lparr>top_committed := top_committed q + k', top_allocated := top_allocated q + al\<rparr>"
      have res2: "p = top_allocated q + al - n" "rs' = q2 # r1 # rest" using def1 far sr q1 qe q(1) by (auto simp: q2_def)
      note dq = region_okD [OF q(3)]
      have uk': "unat k' = round_up (2 ^ a) (unat al)"
        unfolding q(7) using dq(2) q(10) pa ab by (intro unat_win_CEIL) simp_all
      have "round_up (2 ^ a) (unat al) \<le> unat (reserve_size q)"
        using q(10) dvd_trans [OF dv dq(8)] by (intro round_up_least) simp_all
      then have q2: "region_ok a b q2" and ua: "unat (top_allocated q + al) = unat (top_allocated q) + unat al"
        using commit_grown [OF q(3), of "unat al" "unat al" k' al] uk' dq q(5,6) round_up_ge [of "2 ^ a" "unat al"] by (simp_all add: q2_def)
      have "region_base q2 = region_base q" by (simp add: q2_def region_base_def)
      moreover have "p = top_allocated r \<or> p = region_base q" using q(5,11) res2(1) by auto
      moreover have "sbrk_total rs' = sbrk_total (r # rest) + unat n"
        using res2 q(4,5,8) ua d(3,9) region_okD(3,9) [OF q(2)] \<open>region_base q2 = region_base q\<close> by (simp add: q2_def)
      ultimately show ?thesis using q2 q(2) rest res2 by (simp add: sbrk_grown_def q2_def)
    qed
  qed
qed

section \<open>A deallocation\<close>

lemma sbrk_release_law:
  assumes "sbrk_release os n rs w = Some (n', rs', w')" and "\<forall>r \<in> set rs. region_ok a b r"
    and "unat n \<le> sbrk_total rs" and "\<forall>r \<in> set (butlast rs). unat n \<le> unat (top_allocated r)"
  shows "rs' \<noteq> [] \<and> (\<forall>r \<in> set rs'. region_ok a b r) \<and> unat n' \<le> unat (top_allocated (hd rs')) - unat (region_base (hd rs')) \<and>
    sbrk_total rs' + unat n = sbrk_total rs + unat n'"
  using assms
proof (induction rs arbitrary: n w)
  case Nil
  then show ?case by simp
next
  case (Cons r rest)
  have r: "region_ok a b r" using Cons.prems(2) by simp
  note d = region_okD [OF r]
  have le: "unat (region_base r) \<le> unat (top_allocated r)" using d by simp
  have na: "unat n \<le> unat (top_allocated r)" using Cons.prems(3,4) by (cases "rest = []") auto
  have test: "top_allocated r - n < region_base r \<longleftrightarrow> unat (top_allocated r) - unat (region_base r) < unat n"
    using na le by (simp add: word_less_nat_alt unat_sub word_le_nat_alt) linarith
  show ?case
  proof (cases "top_allocated r - n < region_base r")
    case False
    then show ?thesis using Cons.prems(1,2) test by (auto simp: region_base_def)
  next
    case True
    then have rest: "rest \<noteq> []" using test Cons.prems(3) by auto
    obtain w1 where w1: "vf_release os (region_base r) w = (True, w1)"
      using Cons.prems(1) True by (cases "vf_release os (region_base r) w") (auto simp: region_base_def Let_def split: if_splits)
    obtain rs1 w2 where w2: "region_list_remove os (r # rest) w1 = Some (rs1, w2)"
      and rec: "sbrk_release os (n - (top_allocated r - region_base r)) rest w2 = Some (n', rs', w')"
      using Cons.prems(1) True w1 by (auto simp: region_base_def Let_def bind_eq_Some_conv)
    have un: "unat (n - (top_allocated r - region_base r)) = unat n - (unat (top_allocated r) - unat (region_base r))"
      using True test le by (simp add: unat_sub word_le_nat_alt)
    have "unat n - (unat (top_allocated r) - unat (region_base r)) \<le> sbrk_total rest" using Cons.prems(3) by simp
    moreover have "\<forall>x \<in> set (butlast rest). unat n - (unat (top_allocated r) - unat (region_base r)) \<le> unat (top_allocated x)"
      using Cons.prems(4) rest by (auto intro: le_trans [OF diff_le_self])
    ultimately have "rs' \<noteq> [] \<and> (\<forall>r \<in> set rs'. region_ok a b r) \<and> unat n' \<le> unat (top_allocated (hd rs')) - unat (region_base (hd rs')) \<and>
        sbrk_total rs' + unat (n - (top_allocated r - region_base r)) = sbrk_total rest + unat n'"
      using Cons.IH [OF rec] Cons.prems(2) un by simp
    moreover from this have "sbrk_total rs' + unat n = sbrk_total (r # rest) + unat n'" using un True test by (simp, linarith)
    ultimately show ?thesis by simp
  qed
qed

lemma sbrk_decommit_law:
  assumes "sbrk_decommit os n r w = Some (n', r', w')" and r: "region_ok a b r" and "my_pagesize os = 2 ^ a"
    and n: "unat n \<le> unat (top_allocated r) - unat (region_base r)"
  shows "region_ok a b (r'\<lparr>top_allocated := top_allocated r' - n'\<rparr>) \<and> top_allocated r' - n' = top_allocated r - n \<and>
    region_base r' = region_base r"
proof -
  note d = region_okD [OF r]
  define f where "f = win_FLOOR (top_committed r - (top_allocated r - n)) (2 ^ a)"
  have an: "unat (top_allocated r - n) = unat (top_allocated r) - unat n" using n by (simp add: unat_sub word_le_nat_alt)
  then have "unat (top_committed r - (top_allocated r - n)) = unat (top_committed r) - (unat (top_allocated r) - unat n)"
    using d(4) by (simp add: unat_sub word_le_nat_alt)
  then have f: "unat f = (unat (top_committed r) - (unat (top_allocated r) - unat n)) div 2 ^ a * 2 ^ a"
    unfolding f_def unat_win_FLOOR by simp
  then have fle: "unat f \<le> unat (top_committed r) - (unat (top_allocated r) - unat n)" by simp
  then have cf: "unat (top_committed r - f) = unat (top_committed r) - unat f" by (simp add: unat_sub word_le_nat_alt)
  have "2 ^ a dvd unat (top_committed r) - unat f" using d(6) f by (auto intro: dvd_diff_nat)
  then have ok: "region_ok a b (r\<lparr>top_committed := top_committed r - f, top_allocated := top_allocated r - n\<rparr>)"
    using d n fle by (intro region_okI) (simp_all add: an cf)
  moreover have "region_ok a b (r\<lparr>top_allocated := top_allocated r - n\<rparr>)"
    using d n by (intro region_okI) (simp_all add: an)
  moreover have "(n' = n \<and> r' = r) \<or>
      (n' = n - (top_allocated r - (top_committed r - f)) \<and> r' = r\<lparr>top_committed := top_committed r - f, top_allocated := top_committed r - f\<rparr>)"
    using assms(1,3) by (auto simp: sbrk_decommit_def f_def Let_def split: prod.splits if_splits)
  ultimately show ?thesis by (auto simp: region_base_def)
qed

text \<open>What a deallocation of \<open>n\<close> bytes keeps and promises.\<close>

definition sbrk_shrunk :: "nat \<Rightarrow> nat \<Rightarrow> u32 \<Rightarrow> win_region list \<Rightarrow> u32 \<Rightarrow> win_region list \<Rightarrow> bool" where
  "sbrk_shrunk a b n rs p rs' \<longleftrightarrow> rs' \<noteq> [] \<and> (\<forall>r \<in> set rs'. region_ok a b r) \<and> sbrk_total rs' + unat n = sbrk_total rs \<and>
     p = top_allocated (hd rs')"

lemma sbrk_shrink_law:
  assumes "sbrk_shrink os n rs w = Some (p, rs', w')" and rs: "\<forall>r \<in> set rs. region_ok a b r" and ps: "my_pagesize os = 2 ^ a"
    and n: "unat n \<le> sbrk_total rs" "\<forall>r \<in> set (butlast rs). unat n \<le> unat (top_allocated r)"
  shows "sbrk_shrunk a b n rs p rs'"
proof -
  obtain n1 rs1 w1 n2 r2 w2 where rel: "sbrk_release os n rs w = Some (n1, rs1, w1)" and dec: "sbrk_decommit os n1 (hd rs1) w1 = Some (n2, r2, w2)"
    and res: "p = top_allocated r2 - n2" "rs' = r2\<lparr>top_allocated := top_allocated r2 - n2\<rparr> # tl rs1"
    using assms(1) by (auto simp: sbrk_shrink_def bind_eq_Some_conv Let_def split: if_splits)
  note fact = sbrk_release_law [OF rel rs n]
  then obtain r1 rest where r1: "rs1 = r1 # rest" by (cases rs1) auto
  have dl: "region_ok a b (r2\<lparr>top_allocated := top_allocated r2 - n2\<rparr>)" "top_allocated r2 - n2 = top_allocated r1 - n1" "region_base r2 = region_base r1"
    using sbrk_decommit_law [OF dec _ ps] fact r1 by auto
  have "unat n1 \<le> unat (top_allocated r1) - unat (region_base r1)" using fact r1 by simp
  then have "unat n1 \<le> unat (top_allocated r1)" by simp
  then have "unat (top_allocated r1 - n1) = unat (top_allocated r1) - unat n1" by (simp add: unat_sub word_le_nat_alt)
  moreover have rb: "region_base (r2\<lparr>top_allocated := top_allocated r1 - n1\<rparr>) = region_base r1" using dl(3) by (simp add: region_base_def)
  ultimately have "sbrk_total rs' = unat (top_allocated r1) - unat n1 - unat (region_base r1) + sbrk_total rest" unfolding res r1 dl(2) by simp
  moreover have "unat (top_allocated r1) - unat (region_base r1) + sbrk_total rest + unat n = sbrk_total rs + unat n1" using fact r1 by simp
  ultimately have "sbrk_total rs' + unat n = sbrk_total rs"
    using \<open>unat n1 \<le> unat (top_allocated r1) - unat (region_base r1)\<close> by linarith
  then show ?thesis unfolding sbrk_shrunk_def res using fact r1 dl by simp
qed

section \<open>\<open>sbrk2\<close>\<close>

definition region_start :: "win_region list \<Rightarrow> win_region list" where
  "region_start rs = (if rs = [] then [\<lparr>top_allocated = 0, top_committed = 0, top_reserved = 0, reserve_size = 0\<rparr>] else rs)"

text \<open>
  C0: a call of \<open>sbrk2\<close> that returns keeps every region well formed: base, allocation, commit and reservation in order, the last two
  on page and region boundaries. An allocation of less than \<open>2 ^ 30\<close> bytes adds exactly its size to what is given out, and its block
  follows the last one (also across two adjacent reservations) or starts a new region; a deallocation of what was given out takes back exactly its size.
\<close>

lemma sbrk2_keeps_regions:
  assumes os: "win_ok a b os" and rs: "\<forall>r \<in> set rs. region_ok a b r"
    and size: "if 0 \<le>s n then unat n < 2 ^ 30
      else unat (- n) \<le> sbrk_total rs \<and> (\<forall>r \<in> set (butlast rs). unat (- n) \<le> unat (top_allocated r))"
    and res: "sbrk2 os n (rs, w) = Some (p, rs', w')"
  shows "if 0 \<le>s n then sbrk_grown a b n (region_start rs) p rs' else sbrk_shrunk a b (- n) (region_start rs) p rs'"
proof -
  obtain w1 where start: "(if rs = [] then region_list_append os 0 0 rs w else Some (rs, w)) = Some (region_start rs, w1)"
    and body: "(if 0 \<le>s n then sbrk_grow os n (hd (region_start rs)) (tl (region_start rs)) w1 else sbrk_shrink os (- n) (region_start rs) w1)
      = Some (p, rs', w')"
  proof -
    obtain rs1 w1 where s1: "(if rs = [] then region_list_append os 0 0 rs w else Some (rs, w)) = Some (rs1, w1)"
      and body: "(if 0 \<le>s n then sbrk_grow os n (hd rs1) (tl rs1) w1 else sbrk_shrink os (- n) rs1 w1) = Some (p, rs', w')"
    proof -
      obtain x where x: "(if rs = [] then region_list_append os 0 0 rs w else Some (rs, w)) = Some x"
        and y: "(case x of (rs, w) \<Rightarrow> Option.bind (if 0 \<le>s n then sbrk_grow os n (hd rs) (tl rs) w else sbrk_shrink os (- n) rs w)
          (\<lambda>(result, rs, w). if result = MORECORE_FAILURE then None else Some (result, rs, w))) = Some (p, rs', w')"
        using res unfolding sbrk2_def prod.case by (rule bind_SomeE)
      then show thesis using that by (cases x) (auto elim!: bind_SomeE split: if_split_asm)
    qed
    have "rs1 = region_start rs"
      using s1 by (auto simp: region_start_def dest!: region_list_append_Some split: if_splits)
    with s1 body show thesis using that by (simp only:)
  qed
  have ok: "\<forall>r \<in> set (region_start rs). region_ok a b r" using rs by (auto simp: region_start_def intro!: region_okI)
  have ne: "hd (region_start rs) # tl (region_start rs) = region_start rs" by (simp add: region_start_def)
  have ps: "my_pagesize os = 2 ^ a" using os by (simp add: win_ok_def my_pagesize_def win_getpagesize_def SBRK_SCALE_def)
  show ?thesis
  proof (cases "0 \<le>s n")
    case True
    have "region_ok a b (hd (region_start rs))" "\<forall>r \<in> set (tl (region_start rs)). region_ok a b r"
      using ok ne by (metis list.set_intros(1), metis list.set_intros(2))
    then show ?thesis using sbrk_grow_law [OF os] True size body ne by fastforce
  next
    case False
    have "unat (- n) \<le> sbrk_total (region_start rs)" "\<forall>r \<in> set (butlast (region_start rs)). unat (- n) \<le> unat (top_allocated r)"
      using size False by (auto simp: region_start_def)
    then show ?thesis using sbrk_shrink_law [OF _ ok ps] False body by auto
  qed
qed

text \<open>A system with pages of 16 bytes and regions of 64 bytes, where everything from 1024 up to 2048 is free and every call succeeds.\<close>

definition win_example :: "unit win_os" where
  "win_example = \<lparr>dwPageSize = 16, dwAllocationGranularity = 64, va_commit = (\<lambda>x n w. (x, w)),
     va_reserve = (\<lambda>x n w. (if x = 0 \<and> n \<le> 1024 then 1024 else if 1024 \<le> x \<and> x \<le> 2048 \<and> n \<le> 1024 \<and> x mod 64 = 0 then x else 0, w)),
     va_topdown = (\<lambda>x n w. (4096, w)), vf_release = (\<lambda>x w. (True, w)), vf_decommit = (\<lambda>x n w. (True, w)),
     va_query = (\<lambda>x w. if x < 2048 then Some (x, 1024, MEM_FREE) else None), invalid_address = (\<lambda>w. False),
     heap_alloc = (\<lambda>w. (True, w)), heap_free = (\<lambda>w. (True, w))\<rparr>"

lemma win_example_ok: "win_ok 4 6 win_example"
  unfolding win_ok_def
proof (intro conjI allI impI)
  show "(4 :: nat) \<le> 6" "(6 :: nat) < 30" "dwPageSize win_example = 2 ^ 4" "dwAllocationGranularity win_example = 2 ^ 6"
    by (simp_all add: win_example_def)
  show "base = x" if "va_query win_example x w = Some (base, sz, st)" for x w base sz st
    using that by (auto simp: win_example_def split: if_splits)
  fix x n p :: u32 and w w' :: unit
  assume that: "va_reserve win_example x n w = (p, w')" "p \<noteq> 0"
  have c: "2 ^ 6 dvd unat p \<and> unat p + unat n < 2 ^ 32"
  proof (cases "x = 0")
    case True
    then have "p = 1024" "n \<le> 1024" using that by (auto simp: win_example_def split: if_splits)
    then show ?thesis by (simp add: word_le_nat_alt)
  next
    case False
    then have x: "p = x" "1024 \<le> x" "x \<le> 2048" "n \<le> 1024" "x mod 64 = 0" using that by (auto simp: win_example_def split: if_splits)
    have "unat x mod 64 = 0"
    proof -
      have "unat (x mod 64) = unat x mod 64" by (simp add: unat_mod)
      then show ?thesis unfolding x(5) by simp
    qed
    moreover have "unat x \<le> 2048" "unat n \<le> 1024" using x(3,4) by (simp_all add: word_le_nat_alt)
    ultimately show ?thesis unfolding x(1) by (simp add: dvd_eq_mod_eq_0)
  qed
  show "2 ^ 6 dvd unat p" by (rule conjunct1 [OF c])
  show "unat p + unat n < 2 ^ 32" by (rule conjunct2 [OF c])
qed

lemma win_example_simps:
  "va_commit win_example x n w = (x, w)" "heap_alloc win_example w = (True, w)"
  "va_reserve win_example x n w = (if x = 0 \<and> n \<le> 1024 then 1024 else if 1024 \<le> x \<and> x \<le> 2048 \<and> n \<le> 1024 \<and> x mod 64 = 0 then x else 0, w)"
  "va_query win_example x w = (if x < 2048 then Some (x, 1024, MEM_FREE) else None)"
  "my_pagesize win_example = 16" "my_regionsize win_example = 64" "win_getregionsize win_example = 64"
  by (simp_all add: win_example_def my_pagesize_def my_regionsize_def win_getpagesize_def win_getregionsize_def SBRK_SCALE_def)

lemma win_example_CEIL:
  "win_CEIL 100 16 = 112" "win_CEIL 112 64 = 128" "win_CEIL 38 16 = 48" "win_CEIL 32 64 = 64" "win_CEIL 22 16 = 32"
  by code_simp+

lemma win_example_reserve:
  "reserve_region win_example 100 112 0 False () = Some (1024, 0, True, 128, ())"
  "reserve_region win_example 50 32 1152 False () = Some (1152, 1152, True, 64, ())"
  by (subst reserve_region.simps, subst find_region.simps, simp add: win_example_simps win_example_CEIL)+

text \<open>An allocation of 100 bytes, with nothing reserved yet, and one of 50, which reaches past the region.\<close>

lemma sbrk2_keeps_regions_witness:
  "\<exists>p rs w p' rs' w'. sbrk2 win_example 100 ([], ()) = Some (p, rs, w) \<and> sbrk_grown 4 6 100 (region_start []) p rs \<and>
     sbrk2 win_example 50 (rs, w) = Some (p', rs', w') \<and> sbrk_grown 4 6 50 rs p' rs' \<and> p' = p + 100"
proof -
  define rs where "rs = [\<lparr>top_allocated = 1124, top_committed = 1136, top_reserved = 1152, reserve_size = 128\<rparr>,
     \<lparr>top_allocated = 0, top_committed = 0, top_reserved = 0, reserve_size = 0\<rparr>]"
  define rs' where "rs' = [\<lparr>top_allocated = 1174, top_committed = 1184, top_reserved = 1216, reserve_size = 64\<rparr>,
     \<lparr>top_allocated = 1152, top_committed = 1152, top_reserved = 1152, reserve_size = 128\<rparr>,
     \<lparr>top_allocated = 0, top_committed = 0, top_reserved = 0, reserve_size = 0\<rparr>]"
  note eval = sbrk2_def sbrk_grow_def sbrk_reserve_def commit_at_def region_list_append_def win_example_simps win_example_CEIL
    win_example_reserve MORECORE_FAILURE_def word_sle_eq word_sless_alt
  have 1: "sbrk2 win_example 100 ([], ()) = Some (1024, rs, ())" unfolding rs_def by (simp add: eval)
  have 2: "sbrk2 win_example 50 (rs, ()) = Some (1124, rs', ())" unfolding rs_def rs'_def by (simp add: eval)
  have "0 \<le>s (100 :: u32)" "0 \<le>s (50 :: u32)" by (simp_all add: word_sle_eq)
  moreover have "\<forall>r \<in> set rs. region_ok 4 6 r" by (simp add: rs_def region_ok_def region_base_def)
  moreover have "region_start rs = rs" by (simp add: rs_def region_start_def)
  ultimately show ?thesis
    using sbrk2_keeps_regions [OF win_example_ok _ _ 1] sbrk2_keeps_regions [OF win_example_ok _ _ 2] 1 2 by fastforce
qed

text \<open>The check for underflow never fails, so a deallocation of what was allocated returns where the system gives back.\<close>

definition win_frees :: "'w win_os \<Rightarrow> bool" where
  "win_frees os \<longleftrightarrow> (\<forall>x w. fst (vf_release os x w)) \<and> (\<forall>x n w. fst (vf_decommit os x n w)) \<and> (\<forall>w. fst (heap_free os w))"

lemma sbrk_release_returns:
  assumes "win_frees os" and "\<forall>r \<in> set rs. region_ok a b r" and "rs \<noteq> []"
    and "unat n \<le> sbrk_total rs" and "\<forall>r \<in> set (butlast rs). unat n \<le> unat (top_allocated r)"
  shows "sbrk_release os n rs w \<noteq> None"
  using assms
proof (induction rs arbitrary: n w)
  case Nil
  then show ?case by simp
next
  case (Cons r rest)
  have r: "region_ok a b r" using Cons.prems(2) by simp
  have le: "unat (region_base r) \<le> unat (top_allocated r)" using region_okD(3,9) [OF r] by simp
  have na: "unat n \<le> unat (top_allocated r)" using Cons.prems(4,5) by (cases "rest = []") auto
  have test: "top_allocated r - n < region_base r \<longleftrightarrow> unat (top_allocated r) - unat (region_base r) < unat n"
    using na le by (simp add: word_less_nat_alt unat_sub word_le_nat_alt) linarith
  show ?case
  proof (cases "top_allocated r - n < region_base r")
    case False
    then show ?thesis by (simp add: region_base_def)
  next
    case True
    then have rest: "rest \<noteq> []" using test Cons.prems(4) by auto
    have un: "unat (n - (top_allocated r - region_base r)) = unat n - (unat (top_allocated r) - unat (region_base r))"
      using True test le by (simp add: unat_sub word_le_nat_alt)
    have "\<forall>x \<in> set (butlast rest). unat n - (unat (top_allocated r) - unat (region_base r)) \<le> unat (top_allocated x)"
      using Cons.prems(5) rest by (auto intro: le_trans [OF diff_le_self])
    then have "sbrk_release os (n - (top_allocated r - region_base r)) rest v \<noteq> None" for v
      using Cons.prems rest un by (intro Cons.IH) auto
    moreover have "fst (vf_release os (region_base r) w)" "fst (heap_free os v)" for v using Cons.prems(1) by (auto simp: win_frees_def)
    ultimately show ?thesis
      using True by (auto simp: region_base_def region_list_remove_def Let_def split: prod.splits) (metis fst_conv)+
  qed
qed

lemma sbrk_shrink_returns:
  assumes "win_frees os" and "my_pagesize os = 2 ^ a" and "\<forall>r \<in> set rs. region_ok a b r" and "rs \<noteq> []"
    and "unat n \<le> sbrk_total rs" and "\<forall>r \<in> set (butlast rs). unat n \<le> unat (top_allocated r)"
  shows "sbrk_shrink os n rs w \<noteq> None"
proof -
  obtain n1 rs1 w1 where rel: "sbrk_release os n rs w = Some (n1, rs1, w1)"
    using sbrk_release_returns [OF assms(1,3-6)] by fastforce
  note fact = sbrk_release_law [OF rel assms(3,5,6)]
  have "sbrk_decommit os n1 (hd rs1) w1 \<noteq> None"
    using assms(1) by (auto simp: sbrk_decommit_def win_frees_def Let_def split: prod.splits) (metis fst_conv)
  then obtain n2 r2 w2 where dec: "sbrk_decommit os n1 (hd rs1) w1 = Some (n2, r2, w2)" by auto
  have "region_ok a b (hd rs1)" using fact by (cases rs1) auto
  then have "region_ok a b (r2\<lparr>top_allocated := top_allocated r2 - n2\<rparr>)"
    using sbrk_decommit_law [OF dec _ assms(2)] fact by blast
  then have "\<not> (top_reserved r2 - reserve_size r2 > top_allocated r2 - n2 \<or> top_allocated r2 - n2 > top_committed r2)"
    by (auto simp: region_ok_def region_base_def)
  then show ?thesis by (simp add: sbrk_shrink_def rel dec)
qed

end
