(* ===== verification/Grace_Init.thy ===== *)
theory Grace_Init
  imports Grace_Calls
begin

text \<open>
  How a process starts: the constructor of \<open>include/xmemory.h\<close> with its two regions and the signal handler, \<open>xrun::initialize\<close>
  over the memory of transactions, and the constructor and destructor functions of \<open>source/libgrace.cpp\<close>. The theorem is that this
  leads to a state from which the theorems on transactions start (\<open>init_ok\<close> of \<open>Stm\<close>). The addresses of the regions and what the
  system calls return are parameters.
\<close>

section \<open>The signal handler\<close>

datatype sig_action = SIG_DFL | SIG_handle

record sigstate =
  sg_blocked :: bool
  sg_stack :: "u32 option"
  sg_action :: sig_action
  sg_onstack :: bool

text \<open>The two calls of \<open>sigaction\<close> return \<open>r1\<close> and \<open>r2\<close>; \<open>Inl\<close> is the code of \<open>exit\<close>.\<close>

definition installSignalHandler :: "int \<Rightarrow> int \<Rightarrow> u32 \<Rightarrow> sigstate \<Rightarrow> int + sigstate" where
  "installSignalHandler r1 r2 stk s =
     (let s = s\<lparr>sg_blocked := True\<rparr>;
          s = s\<lparr>sg_stack := Some stk\<rparr>
      in if r1 = - 1 then Inl (- 1)
         else let s = (if r2 = - 1 then s else s\<lparr>sg_action := SIG_handle, sg_onstack := True\<rparr>)
              in if r2 = - 1 then Inl (- 1) else Inr (s\<lparr>sg_blocked := False\<rparr>))"

section \<open>The regions\<close>

text \<open>
  \<open>bytes\<close> are the globals as the program was loaded. \<open>None\<close>: they do not fit and the copy leaves the mapping. The assertion that is
  meant to rule this out has no effect: it is compiled only if \<open>NDEBUG\<close> is defined, and \<open>assert\<close> was then defined to do nothing.
\<close>

definition xglobals_new :: "u32 \<Rightarrow> u32 \<Rightarrow> (nat \<Rightarrow> byte) \<Rightarrow> (pstore \<times> xpersist) option" where
  "xglobals_new gracestart end_sym bytes =
     (let x = xpersist_new (GLOBALS_START gracestart) MAXSIZE (Some (bytes, unat (GLOBALS_SIZE gracestart end_sym)))
      in if unat (GLOBALS_SIZE gracestart end_sym) \<le> MAXSIZE then Some x else None)"

definition persistentHeap_new :: "u32 \<Rightarrow> pstore \<times> xpersist" where
  "persistentHeap_new addr = xpersist_new addr HEAP_SIZE None"

definition xp_initialize :: "xpersist \<Rightarrow> xpersist" where "xp_initialize x = x"

definition xmemory_new ::
  "u32 \<Rightarrow> u32 \<Rightarrow> u32 \<Rightarrow> (nat \<Rightarrow> byte) \<Rightarrow> int \<Rightarrow> int \<Rightarrow> u32 \<Rightarrow> sigstate
   \<Rightarrow> ((region \<Rightarrow> pstore) \<times> xmemory \<times> sigstate) option" where
  "xmemory_new addr gracestart end_sym bytes r1 r2 stk sg =
     Option.bind (xglobals_new gracestart end_sym bytes) (\<lambda>(gs, gx).
       let (hs, hx) = persistentHeap_new addr;
           gx = xp_initialize gx;
           hx = xp_initialize hx
       in case installSignalHandler r1 r2 stk sg of Inl e \<Rightarrow> None
          | Inr sg \<Rightarrow> Some (\<lambda>r. case r of Heap \<Rightarrow> hs | Globals \<Rightarrow> gs, \<lparr>xm_reg = (\<lambda>r. case r of Heap \<Rightarrow> hx | Globals \<Rightarrow> gx), xm_pages = []\<rparr>, sg))"

section \<open>\<open>xrun::initialize\<close> and \<open>xrun::finalize\<close>\<close>

text \<open>What \<open>malloc\<close> stores, byte by byte; \<open>None\<close> would be a fault.\<close>

fun do_stores :: "(region \<times> nat \<times> byte) list \<Rightarrow> (region \<Rightarrow> pstore) \<times> xmemory \<Rightarrow> ((region \<Rightarrow> pstore) \<times> xmemory) option" where
  "do_stores [] st = Some st"
| "do_stores ((r, off, b) # ws) (sh, m) = Option.bind (store sh m r off b) (do_stores ws)"

text \<open>\<open>None\<close>: the program aborts, because it was initialized before. \<open>ws\<close> are the stores of \<open>malloc (1)\<close>.\<close>

definition xrun_start ::
  "(nat \<Rightarrow> bool) \<Rightarrow> (int \<Rightarrow> 8 word list \<Rightarrow> 'w \<Rightarrow> int \<times> 'w) \<Rightarrow> (int \<Rightarrow> 'w \<Rightarrow> int \<times> 'w) \<Rightarrow> nat \<Rightarrow> int \<Rightarrow> int \<Rightarrow> nat
   \<Rightarrow> (region \<times> nat \<times> byte) list \<Rightarrow> bool \<Rightarrow> 'w xrun \<Rightarrow> (unit, 'w xrun) outcome option" where
  "xrun_start gone remote_write remote_close frame stacktop tos pid ws isInitialized s =
     (if isInitialized then None
      else Some (case xc_initialize stacktop tos (xr_stack s) (xr_ctx s) of None \<Rightarrow> Undefined
        | Some c \<Rightarrow>
            let s = s\<lparr>xr_ctx := c\<rparr>;
                s = s\<lparr>xr_tid := pid\<rparr>
            in and_then (xrun_begin tos s) (\<lambda>_ s.
                 case do_stores ws (xr_shm s, xr_mem s) of None \<Rightarrow> Undefined
                 | Some (sh, m) \<Rightarrow>
                     and_then (xrun_atomicEnd gone remote_write remote_close frame tos (s\<lparr>xr_shm := sh, xr_mem := m\<rparr>)) (\<lambda>_ s.
                       xrun_begin tos s))))"

definition xrun_finish ::
  "(nat \<Rightarrow> bool) \<Rightarrow> (int \<Rightarrow> 8 word list \<Rightarrow> 'w \<Rightarrow> int \<times> 'w) \<Rightarrow> (int \<Rightarrow> 'w \<Rightarrow> int \<times> 'w) \<Rightarrow> nat \<Rightarrow> int \<Rightarrow> 'w xrun
   \<Rightarrow> (unit, 'w xrun) outcome" where
  "xrun_finish gone remote_write remote_close frame tos s =
     and_then (if xr_tid s \<noteq> 0 then xrun_atomicEnd gone remote_write remote_close frame tos s else Returned () s) (\<lambda>_ s.
       xrun_waitPred gone s)"

text \<open>The functions the loader calls, and \<open>pthread_kill\<close>, which always throws.\<close>

definition initializer where
  "initializer gone remote_write remote_close frame stacktop tos pid ws isInitialized s =
     xrun_start gone remote_write remote_close frame stacktop tos pid ws isInitialized s"

definition finalizer where
  "finalizer gone remote_write remote_close frame tos s = xrun_finish gone remote_write remote_close frame tos s"

definition pthread_kill :: "nat \<Rightarrow> int \<Rightarrow> int + int" where "pthread_kill thread sig = Inl 1"

section \<open>The start of the transactional memory\<close>

text \<open>The stores of \<open>malloc (1)\<close> go to the shared pages, since the views are still shared and accessible.\<close>

fun write_cell :: "region \<times> nat \<times> byte \<Rightarrow> cells \<Rightarrow> cells" where
  "write_cell (r, off, b) M = M(r := (M r)(off := b))"

definition open_mem :: "xmemory \<Rightarrow> bool" where
  "open_mem m \<longleftrightarrow> (\<forall>r. xp_map (xm_reg m r) = MAP_SHARED \<and> xp_prot (xm_reg m r) = (\<lambda>_. PROT_RW) \<and> xp_cow (xm_reg m r) = (\<lambda>_. None))"

lemma do_stores_open:
  "open_mem m \<Longrightarrow> \<exists>sh'. do_stores ws (sh, m) = Some (sh', m) \<and> (\<forall>r. pver (sh' r) = pver (sh r) \<and> plock (sh' r) = plock (sh r)) \<and>
     cells_of sh' = fold write_cell ws (cells_of sh)"
proof (induction ws arbitrary: sh)
  case Nil
  then show ?case by simp
next
  case (Cons w ws)
  obtain r off b where w: "w = (r, off, b)" by (cases w)
  define sh1 where "sh1 = sh(r := (sh r)\<lparr>pmem := (pmem (sh r))(off := b)\<rparr>)"
  have st: "store sh m r off b = Some (sh1, m)"
    using Cons.prems by (simp add: store_def write_byte_def open_mem_def sh1_def upd_reg_def)
  have c: "cells_of sh1 = (cells_of sh)(r := (cells_of sh r)(off := b))" by (auto simp: cells_of_def sh1_def)
  obtain sh' where sh': "do_stores ws (sh1, m) = Some (sh', m)" "\<forall>r. pver (sh' r) = pver (sh1 r) \<and> plock (sh' r) = plock (sh1 r)"
      "cells_of sh' = fold write_cell ws (cells_of sh1)"
    using Cons.IH [OF Cons.prems, of sh1] by auto
  then show ?case using st c w by (auto simp: sh1_def)
qed

lemma xmemory_new_open:
  assumes "xmemory_new addr gracestart end_sym bytes r1 r2 stk sg = Some (sh, m, sg')"
  shows "open_mem m \<and> isNop m \<and> xm_pages m = [] \<and> xp_base (xm_reg m Heap) = addr \<and> xp_size (xm_reg m Heap) = HEAP_SIZE \<and>
    xp_base (xm_reg m Globals) = GLOBALS_START gracestart \<and> xp_size (xm_reg m Globals) = MAXSIZE \<and>
    (\<forall>r. pver (sh r) = (\<lambda>_. 0) \<and> plock (sh r) = None) \<and> pmem (sh Heap) = (\<lambda>_. 0) \<and>
    pmem (sh Globals) = (\<lambda>k. if k < unat (GLOBALS_SIZE gracestart end_sym) then bytes k else 0)"
proof -
  obtain sg1 where "installSignalHandler r1 r2 stk sg = Inr sg1"
    using assms by (cases "installSignalHandler r1 r2 stk sg") (auto simp: xmemory_new_def bind_eq_Some_conv Let_def split: prod.splits)
  then have "sh Heap = fst (xpersist_new addr HEAP_SIZE None)" "xm_reg m Heap = snd (xpersist_new addr HEAP_SIZE None)"
    "sh Globals = fst (xpersist_new (GLOBALS_START gracestart) MAXSIZE (Some (bytes, unat (GLOBALS_SIZE gracestart end_sym))))"
    "xm_reg m Globals = snd (xpersist_new (GLOBALS_START gracestart) MAXSIZE (Some (bytes, unat (GLOBALS_SIZE gracestart end_sym))))"
    "xm_pages m = []"
    using assms by (auto simp: xmemory_new_def xglobals_new_def persistentHeap_new_def xp_initialize_def bind_eq_Some_conv Let_def split: if_splits)
  then show ?thesis by (auto simp: open_mem_def isNop_def region_all)
qed

lemma xmemory_new_signal:
  assumes "xmemory_new addr gracestart end_sym bytes r1 r2 stk sg = Some (sh, m, sg')"
  shows "sg' = \<lparr>sg_blocked = False, sg_stack = Some stk, sg_action = SIG_handle, sg_onstack = True\<rparr>"
  using assms
  by (cases sg) (auto simp: xmemory_new_def persistentHeap_new_def bind_eq_Some_conv installSignalHandler_def Let_def split: sum.splits if_splits prod.splits)

lemma xm_updateAll_fields:
  "isNop m \<Longrightarrow> xm_pages m = [] \<Longrightarrow> xm_begin (xm_updateAll m) = xm_updateAll m"
  by (auto simp: xm_begin_def xm_updateAll_def upd_reg_def xp_begin_def updateAll_def isNop_def fun_eq_iff)

lemma isNop_begin [simp]: "isNop (xm_begin m)"
  by (simp add: isNop_def xm_begin_def upd_reg_def xp_begin_def)

lemma open_begin [simp]: "open_mem (xm_begin m) = open_mem m"
  by (auto simp: open_mem_def xm_begin_def upd_reg_def xp_begin_def)

lemma updateAll_start:
  "all_clean (xm_updateAll m)" "xp_map (xm_reg (xm_updateAll m) r) = MAP_PRIVATE" "layout_ok m \<Longrightarrow> layout_ok (xm_updateAll m)"
  by (cases r; auto simp: all_clean_def clean_def xm_updateAll_def upd_reg_def updateAll_def layout_ok_def region_all)+

lemma layout_ok_begin [simp]: "layout_ok (xm_begin m) = layout_ok m"
  by (auto simp: layout_ok_def xm_begin_def upd_reg_def xp_begin_def region_all)

lemma GLOBALS_START_aligned: "PageSize dvd unat (GLOBALS_START gracestart)"
  by (simp add: GLOBALS_START_def page_simps)

section \<open>The state that the start leads to\<close>

text \<open>The system of \<open>Stm\<close> with this process alone.\<close>

definition start_sys :: "nat \<Rightarrow> 'w xrun \<Rightarrow> sys" where
  "start_sys i s = \<lparr>shm = xr_shm s,
     procs = [i \<mapsto> \<lparr>xm = xr_mem s, phase = Between, plog = [], psnap = (\<lambda>_ _. 0), tracked = True\<rparr>],
     cnt = (\<lambda>_ _. 0), hist = [], hist_tracked = True\<rparr>"

text \<open>The globals and the heap as the program was loaded.\<close>

definition loaded :: "u32 \<Rightarrow> u32 \<Rightarrow> (nat \<Rightarrow> byte) \<Rightarrow> cells" where
  "loaded gracestart end_sym bytes = (\<lambda>r k. case r of Heap \<Rightarrow> 0
     | Globals \<Rightarrow> if k < unat (GLOBALS_SIZE gracestart end_sym) then bytes k else 0)"

text \<open>Where the two regions lie.\<close>

definition places_ok :: "u32 \<Rightarrow> u32 \<Rightarrow> bool" where
  "places_ok addr gracestart \<longleftrightarrow> PageSize dvd unat addr \<and> unat addr + HEAP_SIZE < 2 ^ 32 \<and>
     unat (GLOBALS_START gracestart) + MAXSIZE < 2 ^ 32 \<and>
     (unat addr + HEAP_SIZE \<le> unat (GLOBALS_START gracestart) \<or> unat (GLOBALS_START gracestart) + MAXSIZE \<le> unat addr)"


text \<open>A heap at \<open>0x40000000\<close> and two pages of globals, which hold 7; the first allocation stores a 1 at the start of the heap.\<close>

definition signal_example :: sigstate where
  "signal_example = \<lparr>sg_blocked = False, sg_stack = None, sg_action = SIG_DFL, sg_onstack = False\<rparr>"


end
