(* ===== verification/Hl_Mmap.thy ===== *)
theory Hl_Mmap
  imports Hl_Util
begin

text \<open>
  \<open>heaplayers/mmapheap.h\<close> on Linux: \<open>PrivateMmapHeap\<close> maps and unmaps memory, and \<open>MmapHeap\<close> remembers in a hash table how large each
  mapping is. The table is the \<open>finite_map\<close> of \<open>Hl_Util\<close>. What \<open>mmap\<close> returns is a parameter; the mappings of the process are a map
  from their start to their length.
\<close>

section \<open>\<open>PrivateMmapHeap\<close>\<close>

type_synonym maps = "u32 \<rightharpoonup> u32"

definition MAP_FAILED :: u32 where "MAP_FAILED = - 1"
definition mmap_Alignment :: u32 where "mmap_Alignment = 4 * 1024"

text \<open>\<open>munmap\<close> removes a mapping of this length; a length of 0 is an error, and other lengths are outside the model.\<close>

definition munmap :: "u32 \<Rightarrow> u32 \<Rightarrow> maps \<Rightarrow> maps" where
  "munmap ptr sz maps = (if sz \<noteq> 0 \<and> maps ptr = Some sz then maps(ptr := None) else maps)"

definition PrivateMmapHeap_malloc :: "u32 \<Rightarrow> u32 \<Rightarrow> maps \<Rightarrow> u32 \<times> maps" where
  "PrivateMmapHeap_malloc p sz maps = (if p = MAP_FAILED then (0, maps) else (p, maps(p \<mapsto> sz)))"

definition PrivateMmapHeap_getSize :: "u32 \<Rightarrow> u32" where "PrivateMmapHeap_getSize ptr = mmap_Alignment"
definition PrivateMmapHeap_free :: "u32 \<Rightarrow> maps \<Rightarrow> maps" where
  "PrivateMmapHeap_free ptr maps = munmap ptr (PrivateMmapHeap_getSize ptr) maps"
definition PrivateMmapHeap_free_sized :: "u32 \<Rightarrow> u32 \<Rightarrow> maps \<Rightarrow> maps" where
  "PrivateMmapHeap_free_sized ptr sz maps = munmap ptr sz maps"

section \<open>\<open>MmapHeap\<close>\<close>

text \<open>The lock is held around the operations of the table. \<open>MyMap.get\<close> leaves \<open>sz\<close> as it is, 0, when there is no entry.\<close>

type_synonym mmap_heap = "(u32, u32) hashmap \<times> maps"

definition MmapHeap_malloc :: "(u32 \<Rightarrow> u32) \<Rightarrow> u32 \<Rightarrow> u32 \<Rightarrow> mmap_heap \<Rightarrow> (u32 \<times> mmap_heap) option" where
  "MmapHeap_malloc hash p sz = (\<lambda>(h, maps).
     let (ptr, maps) = PrivateMmapHeap_malloc p sz maps
     in map_option (\<lambda>h. (ptr, h, maps)) (hm_set first_free hash ptr sz h))"

definition MmapHeap_getSize :: "(u32 \<Rightarrow> u32) \<Rightarrow> u32 \<Rightarrow> mmap_heap \<Rightarrow> u32 option" where
  "MmapHeap_getSize hash ptr = (\<lambda>(h, maps). map_option (case_option 0 id) (hm_get hash ptr h))"

definition MmapHeap_free_sized :: "u32 \<Rightarrow> u32 \<Rightarrow> mmap_heap \<Rightarrow> mmap_heap" where
  "MmapHeap_free_sized ptr sz = (\<lambda>(h, maps). (h, PrivateMmapHeap_free_sized ptr sz maps))"

definition MmapHeap_free :: "(u32 \<Rightarrow> u32) \<Rightarrow> u32 \<Rightarrow> mmap_heap \<Rightarrow> mmap_heap option" where
  "MmapHeap_free hash ptr = (\<lambda>(h, maps).
     Option.bind (hm_get hash ptr h) (\<lambda>v.
       let sz = (case v of None \<Rightarrow> 0 | Some sz \<Rightarrow> sz);
           maps = PrivateMmapHeap_free_sized ptr sz maps
       in map_option (\<lambda>h. (h, maps)) (hm_erase hash ptr h)))"

section \<open>What a client gets\<close>

text \<open>The calls of a client: a \<open>MmapMalloc\<close> carries what \<open>mmap\<close> returns for it.\<close>

datatype mmap_call = MmapMalloc u32 u32 | MmapFree u32 | MmapFreeSized u32 u32

fun mmap_call_step :: "(u32 \<Rightarrow> u32) \<Rightarrow> mmap_call \<Rightarrow> mmap_heap \<Rightarrow> mmap_heap option" where
  "mmap_call_step hash (MmapMalloc p sz) s = map_option snd (MmapHeap_malloc hash p sz s)"
| "mmap_call_step hash (MmapFree ptr) s = MmapHeap_free hash ptr s"
| "mmap_call_step hash (MmapFreeSized ptr sz) s = Some (MmapHeap_free_sized ptr sz s)"

fun mmap_calls :: "(u32 \<Rightarrow> u32) \<Rightarrow> mmap_call list \<Rightarrow> mmap_heap \<Rightarrow> mmap_heap option" where
  "mmap_calls hash [] s = Some s"
| "mmap_calls hash (c # cs) s = Option.bind (mmap_call_step hash c s) (mmap_calls hash cs)"

text \<open>
  The blocks a client has, when it frees only what it has, with its size, and \<open>mmap\<close> returns an address that is not in use or fails;
  \<open>None\<close> is a client, or an \<open>mmap\<close>, that does something else.
\<close>

fun mmap_client :: "mmap_call list \<Rightarrow> maps \<Rightarrow> maps option" where
  "mmap_client [] B = Some B"
| "mmap_client (MmapMalloc p sz # cs) B =
     (if p = MAP_FAILED then mmap_client cs B
      else if p \<noteq> 0 \<and> sz \<noteq> 0 \<and> B p = None then mmap_client cs (B(p \<mapsto> sz)) else None)"
| "mmap_client (MmapFree ptr # cs) B = (if B ptr = None then None else mmap_client cs (B(ptr := None)))"
| "mmap_client (MmapFreeSized ptr sz # cs) B = (if B ptr = Some sz then mmap_client cs (B(ptr := None)) else None)"

definition mmap_inv :: "(u32 \<Rightarrow> u32) \<Rightarrow> mmap_heap \<Rightarrow> maps \<Rightarrow> bool" where
  "mmap_inv hash s B \<longleftrightarrow> snd s = B \<and> 0 \<notin> dom B \<and> 0 \<notin> ran B \<and> (\<exists>m. hm_rep hash (fst s) m \<and> B \<subseteq>\<^sub>m m)"

lemma mmap_step_inv:
  assumes "mmap_inv hash s B" and "mmap_client (c # cs) B = Some B'"
  shows "\<exists>s1 B1. mmap_call_step hash c s = Some s1 \<and> mmap_inv hash s1 B1 \<and> mmap_client cs B1 = Some B'"
proof -
  obtain h m where s: "s = (h, B)" and m: "hm_rep hash h m" "B \<subseteq>\<^sub>m m" and z: "0 \<notin> dom B" "0 \<notin> ran B"
    using assms(1) by (cases s) (auto simp: mmap_inv_def)
  show ?thesis
  proof (cases c)
    case (MmapMalloc p sz)
    define q where "q = (if p = MAP_FAILED then 0 else p)"
    obtain h1 where h1: "hm_set first_free hash q sz h = Some h1" "hm_rep hash h1 (m(q \<mapsto> sz))"
      using hm.set_law [OF m(1)] by blast
    show ?thesis
    proof (cases "p = MAP_FAILED")
      case True
      have "B \<subseteq>\<^sub>m m(q \<mapsto> sz)" using m(2) z(1) True by (auto simp: q_def map_le_def)
      then have "mmap_inv hash (h1, B) B" using h1(2) z by (auto simp: mmap_inv_def)
      moreover have "mmap_call_step hash c s = Some (h1, B)"
        using h1(1) MmapMalloc True s by (simp add: MmapHeap_malloc_def PrivateMmapHeap_malloc_def q_def)
      moreover have "mmap_client cs B = Some B'" using assms(2) MmapMalloc True by simp
      ultimately show ?thesis by blast
    next
      case False
      then have p: "p \<noteq> 0" "sz \<noteq> 0" "B p = None" "mmap_client cs (B(p \<mapsto> sz)) = Some B'"
        using assms(2) MmapMalloc by (auto split: if_splits)
      have "B(p \<mapsto> sz) \<subseteq>\<^sub>m m(p \<mapsto> sz)" using m(2) by (auto simp: map_le_def)
      then have "mmap_inv hash (h1, B(p \<mapsto> sz)) (B(p \<mapsto> sz))"
        using h1(2) z p False by (auto simp: mmap_inv_def q_def ran_def)
      moreover have "mmap_call_step hash c s = Some (h1, B(p \<mapsto> sz))"
        using h1(1) MmapMalloc False s by (simp add: MmapHeap_malloc_def PrivateMmapHeap_malloc_def q_def)
      ultimately show ?thesis using p(4) by blast
    qed
  next
    case (MmapFree ptr)
    then obtain sz where sz: "B ptr = Some sz" and cl: "mmap_client cs (B(ptr := None)) = Some B'"
      using assms(2) by (auto split: if_splits)
    obtain h1 where h1: "hm_erase hash ptr h = Some h1" "hm_rep hash h1 (m(ptr := None))"
      using hm.erase_law [OF m(1)] by blast
    have "m ptr = Some sz" using m(2) sz by (force simp: map_le_def)
    moreover have "sz \<noteq> 0" using z(2) sz by (auto simp: ran_def)
    moreover have "B(ptr := None) \<subseteq>\<^sub>m m(ptr := None)" using m(2) by (auto simp: map_le_def)
    then have "mmap_inv hash (h1, B(ptr := None)) (B(ptr := None))"
      using h1(2) z by (auto simp: mmap_inv_def ran_def)
    moreover have "mmap_call_step hash c s = Some (h1, B(ptr := None))"
      using h1(1) hm.get_law [OF m(1)] MmapFree s sz \<open>m ptr = Some sz\<close> \<open>sz \<noteq> 0\<close>
      by (simp add: MmapHeap_free_def PrivateMmapHeap_free_sized_def munmap_def)
    ultimately show ?thesis using cl by blast
  next
    case (MmapFreeSized ptr sz)
    then have sz: "B ptr = Some sz" and cl: "mmap_client cs (B(ptr := None)) = Some B'" using assms(2) by (auto split: if_splits)
    have "sz \<noteq> 0" using z(2) sz by (auto simp: ran_def)
    moreover have "B(ptr := None) \<subseteq>\<^sub>m m" using m(2) by (auto simp: map_le_def)
    then have "mmap_inv hash (h, B(ptr := None)) (B(ptr := None))" using m(1) z by (auto simp: mmap_inv_def ran_def)
    moreover have "mmap_call_step hash c s = Some (h, B(ptr := None))"
      using MmapFreeSized s sz \<open>sz \<noteq> 0\<close> by (simp add: MmapHeap_free_sized_def PrivateMmapHeap_free_sized_def munmap_def)
    ultimately show ?thesis using cl by blast
  qed
qed

lemma mmap_calls_inv:
  "mmap_inv hash s B \<Longrightarrow> mmap_client cs B = Some B' \<Longrightarrow> \<exists>s'. mmap_calls hash cs s = Some s' \<and> mmap_inv hash s' B'"
proof (induction cs arbitrary: s B)
  case Nil
  then show ?case by simp
next
  case (Cons c cs)
  then show ?case using mmap_step_inv [OF Cons.prems] Cons.IH by fastforce
qed

lemma mmap_inv_getSize: "mmap_inv hash s B \<Longrightarrow> B p = Some sz \<Longrightarrow> MmapHeap_getSize hash p s = Some sz"
proof -
  assume i: "mmap_inv hash s B" and p: "B p = Some sz"
  obtain m where m: "hm_rep hash (fst s) m" "B \<subseteq>\<^sub>m m" using i by (auto simp: mmap_inv_def)
  have "m p = Some sz" using m(2) p by (force simp: map_le_def)
  then show ?thesis using hm.get_law [OF m(1)] by (cases s) (simp add: MmapHeap_getSize_def)
qed

text \<open>
  whatever a client of \<open>MmapHeap\<close> allocates and frees, the calls return, the memory that is mapped is exactly the blocks it has,
  each with the size it asked for, and \<open>getSize\<close> tells this size.
\<close>

theorem MmapHeap_clients:
  assumes "mmap_client cs (\<lambda>_. None) = Some B" and "0 < n"
  shows "\<exists>s. mmap_calls hash cs (hm_new n, \<lambda>_. None) = Some s \<and> snd s = B \<and>
    (\<forall>p sz. B p = Some sz \<longrightarrow> MmapHeap_getSize hash p s = Some sz)"
proof -
  have "mmap_inv hash (hm_new n, \<lambda>_. None) (\<lambda>_. None)" using hm_new_rep [OF assms(2)] by (auto simp: mmap_inv_def)
  from mmap_calls_inv [OF this assms(1)] obtain s where "mmap_calls hash cs (hm_new n, \<lambda>_. None) = Some s" "mmap_inv hash s B" by blast
  then show ?thesis using mmap_inv_getSize by (intro exI [of _ s]) (auto simp: mmap_inv_def)
qed

text \<open>A failed allocation leaves an entry for \<open>NULL\<close>, and a block that was freed with its size one for its address.\<close>

lemma MmapHeap_stale_entries:
  "\<exists>s. mmap_calls id [MmapMalloc MAP_FAILED 64, MmapMalloc 4096 100, MmapFreeSized 4096 100] (hm_new 7, \<lambda>_. None) = Some s \<and>
     snd s = (\<lambda>_. None) \<and> MmapHeap_getSize id 0 s = Some 64 \<and> MmapHeap_getSize id 4096 s = Some 100"
proof -
  have r: "hm_rep (id :: u32 \<Rightarrow> u32) (hm_new 7) (\<lambda>_. None :: u32 option)" by (rule hm_new_rep) simp
  obtain h1 where h1: "hm_set first_free id 0 64 (hm_new 7) = Some h1" "hm_rep id h1 [0 \<mapsto> (64 :: u32)]"
    using hm.set_law [OF r, where k = 0 and v = 64] by (elim exE conjE)
  obtain h2 where h2: "hm_set first_free id 4096 100 h1 = Some h2" "hm_rep id h2 [0 \<mapsto> 64, 4096 \<mapsto> 100]"
    using hm.set_law [OF h1(2), where k = 4096 and v = 100] by (elim exE conjE)
  have g: "hm_get id 0 h2 = Some (Some 64)" "hm_get id 4096 h2 = Some (Some 100)"
    by (simp_all add: hm.get_law [OF h2(2)])
  have m: "munmap 4096 100 [4096 \<mapsto> 100] = (\<lambda>_. None)" by (simp add: munmap_def fun_eq_iff)
  have f: "MAP_FAILED \<noteq> 4096" by (simp add: MAP_FAILED_def)
  have "mmap_calls id [MmapMalloc MAP_FAILED 64, MmapMalloc 4096 100, MmapFreeSized 4096 100] (hm_new 7, \<lambda>_. None) = Some (h2, \<lambda>_. None)"
    using h1(1) h2(1) f m by (simp add: MmapHeap_malloc_def PrivateMmapHeap_malloc_def MmapHeap_free_sized_def PrivateMmapHeap_free_sized_def)
  then show ?thesis by (simp add: MmapHeap_getSize_def g)
qed

text \<open>Two blocks, of which the first is freed; its address is used again.\<close>

theorem MmapHeap_clients_witness:
  "\<exists>s. mmap_calls id [MmapMalloc 4096 100, MmapMalloc 8192 64, MmapFree 4096, MmapMalloc 4096 5000] (hm_new 7, \<lambda>_. None) = Some s \<and>
     snd s = [8192 \<mapsto> 64, 4096 \<mapsto> 5000] \<and> MmapHeap_getSize id 4096 s = Some 5000"
proof -
  have c: "mmap_client [MmapMalloc 4096 100, MmapMalloc 8192 64, MmapFree 4096, MmapMalloc 4096 5000] (\<lambda>_. None)
      = Some [8192 \<mapsto> 64, 4096 \<mapsto> 5000]"
    by (simp add: MAP_FAILED_def)
  have "(0 :: nat) < 7" by simp
  from MmapHeap_clients [OF c this, of id] show ?thesis by auto
qed

end
