(* ===== verification/Hl_Aoff.thy ===== *)
theory Hl_Aoff
  imports Hl_Util
begin

text \<open>
  \<open>experimental/aoffheap.h\<close>: first fit in the order of addresses, with splitting and coalescing. Objects are known by the address of
  their header; \<open>ao_size\<close> is the field \<open>size\<close> of the headers, and \<open>ao_list\<close> the circular list behind \<open>freeList\<close>, from \<open>getNext\<close> of
  \<open>freeList\<close> on. \<open>isValid\<close> consists of assertions, which are off. \<open>_dummy\<close> keeps \<open>freeList\<close> itself from being a neighbour.
\<close>

record aoff =
  ao_size :: "u32 \<Rightarrow> u32"
  ao_list :: "u32 list"

definition sizeof_allocatedObject :: u32 where "sizeof_allocatedObject = 8"
definition sizeof_freedObject :: u32 where "sizeof_freedObject = 16"

definition aoff_new :: aoff where "aoff_new = \<lparr>ao_size = (\<lambda>_. 0), ao_list = []\<rparr>"

definition ao_setSize :: "u32 \<Rightarrow> u32 \<Rightarrow> aoff \<Rightarrow> aoff" where "ao_setSize p sz h = h\<lparr>ao_size := (ao_size h)(p := sz)\<rparr>"
definition ao_getStart :: "u32 \<Rightarrow> u32" where "ao_getStart p = p + sizeof_allocatedObject"
definition ao_getSuccessor :: "aoff \<Rightarrow> u32 \<Rightarrow> u32" where "ao_getSuccessor h p = p + sizeof_allocatedObject + ao_size h p"
definition ao_objectSize :: "aoff \<Rightarrow> u32 \<Rightarrow> u32" where "ao_objectSize h p = ao_size h (p - sizeof_allocatedObject)"

text \<open>The first object that fits, with what is before and after it.\<close>

fun ao_find :: "(u32 \<Rightarrow> u32) \<Rightarrow> u32 \<Rightarrow> u32 list \<Rightarrow> u32 list \<Rightarrow> (u32 list \<times> u32 \<times> u32 list) option" where
  "ao_find szf need before [] = None"
| "ao_find szf need before (p # ps) = (if szf p < need then ao_find szf need (before @ [p]) ps else Some (before, p, ps))"

text \<open>
  \<open>None\<close> is the \<open>abort\<close> of the branch for objects that fit exactly. \<open>super_malloc\<close> works on a world \<open>'w\<close> of its own.
\<close>

definition AOFFHeap_malloc :: "(u32 \<Rightarrow> 'w \<Rightarrow> u32 \<times> 'w) \<Rightarrow> u32 \<Rightarrow> aoff \<times> 'w \<Rightarrow> (u32 \<times> aoff \<times> 'w) option" where
  "AOFFHeap_malloc super_malloc sz = (\<lambda>(h, w).
     case ao_find (ao_size h) (sz + sizeof_freedObject) [] (ao_list h) of
       None \<Rightarrow>
         let (buf, w) = super_malloc (sz + sizeof_allocatedObject) w
         in if buf = 0 then Some (0, h, w) else Some (ao_getStart buf, ao_setSize buf sz h, w)
     | Some (before, p, behind) \<Rightarrow>
         if ao_size h p - sz \<ge> sizeof_freedObject then
           let oldSize = ao_size h p;
               h = ao_setSize p sz h;
               splicedObj = ao_getSuccessor h p;
               h = ao_setSize splicedObj (oldSize - sz - sizeof_freedObject) h
           in Some (ao_getStart p, h\<lparr>ao_list := before @ splicedObj # behind\<rparr>, w)
         else None)"

definition ao_coalesce :: "u32 list \<Rightarrow> u32 \<Rightarrow> u32 \<Rightarrow> u32 list \<Rightarrow> aoff \<Rightarrow> aoff" where
  "ao_coalesce before cur succ behind h =
     ao_setSize cur (ao_size h cur + ao_size h succ + sizeof_allocatedObject) (h\<lparr>ao_list := before @ cur # behind\<rparr>)"

text \<open>The second half of \<open>free\<close>: the object is in the list between \<open>before\<close> and \<open>behind\<close>.\<close>

definition ao_free_next :: "u32 \<Rightarrow> (u32 \<Rightarrow> 'w \<Rightarrow> 'w) \<Rightarrow> u32 list \<Rightarrow> u32 \<Rightarrow> u32 list \<Rightarrow> aoff \<times> 'w \<Rightarrow> aoff \<times> 'w" where
  "ao_free_next threshold super_free before this behind = (\<lambda>(h, w).
     let (h, behind) = (if behind \<noteq> [] \<and> ao_getSuccessor h this = hd behind
                        then (ao_coalesce before this (hd behind) (tl behind) h, tl behind) else (h, behind))
     in if threshold \<le>s ao_size h this then (h\<lparr>ao_list := before @ behind\<rparr>, super_free this w) else (h, w))"

definition AOFFHeap_free :: "u32 \<Rightarrow> (u32 \<Rightarrow> 'w \<Rightarrow> 'w) \<Rightarrow> u32 \<Rightarrow> aoff \<times> 'w \<Rightarrow> aoff \<times> 'w" where
  "AOFFHeap_free threshold super_free p = (\<lambda>(h, w).
     let this = p - sizeof_allocatedObject;
         before = takeWhile (\<lambda>q. this > q) (ao_list h);
         behind = dropWhile (\<lambda>q. this > q) (ao_list h)
     in if behind \<noteq> [] \<and> this = hd behind then (h, w)
        else let h = h\<lparr>ao_list := before @ this # behind\<rparr>
             in if before \<noteq> [] \<and> ao_getSuccessor h (last before) = this
                then ao_free_next threshold super_free (butlast before) (last before) behind (ao_coalesce (butlast before) (last before) this behind h, w)
                else ao_free_next threshold super_free before this behind (h, w))"

section \<open>Objects\<close>

text \<open>The bytes of an object, with its header.\<close>

definition ao_ext :: "(u32 \<Rightarrow> u32) \<Rightarrow> u32 \<Rightarrow> nat set" where
  "ao_ext szf a = {unat a ..< unat a + 8 + unat (szf a)}"

text \<open>The invariant, with the objects \<open>L\<close> that a client has: objects are disjoint and the free ones are in order.\<close>

definition aoff_inv :: "aoff \<Rightarrow> u32 set \<Rightarrow> bool" where
  "aoff_inv h L \<longleftrightarrow> sorted_wrt (<) (ao_list h) \<and> set (ao_list h) \<inter> L = {} \<and>
     (\<forall>a \<in> set (ao_list h) \<union> L. unat a + 8 + unat (ao_size h a) < 2 ^ 32) \<and>
     pairwise (\<lambda>a b. ao_ext (ao_size h) a \<inter> ao_ext (ao_size h) b = {}) (set (ao_list h) \<union> L)"

lemma ao_find_Some:
  "ao_find szf need us xs = Some (before, p, behind) \<Longrightarrow> \<exists>vs. before = us @ vs \<and> xs = vs @ p # behind \<and> need \<le> szf p"
proof (induction xs arbitrary: us)
  case (Cons a xs)
  show ?case
  proof (cases "szf a < need")
    case True
    then obtain vs where "before = (us @ [a]) @ vs \<and> xs = vs @ p # behind \<and> need \<le> szf p" using Cons.IH [of "us @ [a]"] Cons.prems by auto
    then show ?thesis by (intro exI [of _ "a # vs"]) simp
  qed (use Cons.prems in auto)
qed simp

lemma ao_find_None: "ao_find szf need us xs = None \<Longrightarrow> \<forall>p \<in> set xs. szf p < need"
  by (induction xs arbitrary: us) (auto split: if_splits)

lemma sorted_replace:
  "sorted_wrt (<) (us @ p # vs) \<Longrightarrow> p \<le> q \<Longrightarrow> \<forall>v \<in> set vs. q < v \<Longrightarrow> sorted_wrt (<) (us @ (q :: u32) # vs)"
  by (auto simp: sorted_wrt_append)

text \<open>Disjoint objects in order do not reach each other.\<close>

lemma ao_apart:
  assumes "ao_ext szf a \<inter> ao_ext szf b = {}" and "a < b"
  shows "unat a + 8 + unat (szf a) \<le> unat b"
proof (rule ccontr)
  assume "\<not> unat a + 8 + unat (szf a) \<le> unat b"
  then have "unat b \<in> ao_ext szf a \<inter> ao_ext szf b" using assms(2) by (simp add: ao_ext_def word_less_nat_alt)
  then show False using assms(1) by simp
qed

lemma aoff_malloc_fit:
  assumes inv: "aoff_inv h L" and f: "ao_find (ao_size h) (n + 16) [] (ao_list h) = Some (before, p, behind)" and n: "unat n + 16 < 2 ^ 32"
  shows "AOFFHeap_malloc m n (h, w) = Some (p + 8, h\<lparr>ao_size := (ao_size h)(p := n, p + 8 + n := ao_size h p - n - 16), ao_list := before @ (p + 8 + n) # behind\<rparr>, w)"
    and "unat (p + 8 + n) = unat p + 8 + unat n" and "unat (ao_size h p - n - 16) = unat (ao_size h p) - unat n - 16"
    and "unat n + 16 \<le> unat (ao_size h p)" and "ao_list h = before @ p # behind"
proof -
  obtain vs where l: "ao_list h = before @ p # behind" and le: "n + 16 \<le> ao_size h p" using ao_find_Some [OF f] by auto
  have u: "unat (n + 16) = unat n + 16" using n by (simp add: unat_add_nowrap)
  have "p \<in> set (ao_list h)" using l by simp
  then have b: "unat p + 8 + unat (ao_size h p) < 2 ^ 32" using inv unfolding aoff_inv_def by blast
  show sp: "unat n + 16 \<le> unat (ao_size h p)" using le u by (simp add: word_le_nat_alt)
  have "unat (p + 8) = unat p + 8" using b by (subst unat_add_nowrap) simp_all
  then show q: "unat (p + 8 + n) = unat p + 8 + unat n" using b sp by (subst unat_add_nowrap) simp_all
  have d: "unat (ao_size h p - n) = unat (ao_size h p) - unat n" using sp by (simp add: unat_sub word_le_nat_alt)
  then show "unat (ao_size h p - n - 16) = unat (ao_size h p) - unat n - 16" using sp by (subst unat_sub) (simp_all add: word_le_nat_alt)
  show "ao_list h = before @ p # behind" by (rule l)
  have "p + 8 + n \<noteq> p"
  proof
    assume e: "p + 8 + n = p"
    show False using q unfolding e by simp
  qed
  moreover have "16 \<le> ao_size h p - n" using d sp by (simp add: word_le_nat_alt)
  ultimately show "AOFFHeap_malloc m n (h, w) = Some (p + 8, h\<lparr>ao_size := (ao_size h)(p := n, p + 8 + n := ao_size h p - n - 16), ao_list := before @ (p + 8 + n) # behind\<rparr>, w)"
    using f by (simp add: AOFFHeap_malloc_def sizeof_freedObject_def sizeof_allocatedObject_def ao_setSize_def ao_getSuccessor_def ao_getStart_def Let_def)
qed

text \<open>Splitting keeps the invariant.\<close>

lemma aoff_split_inv:
  assumes inv: "aoff_inv h L" and l: "ao_list h = before @ p # behind"
    and q: "unat q = unat p + 8 + unat n" and s: "unat s + unat n + 16 \<le> unat (ao_size h p)"
  shows "aoff_inv (h\<lparr>ao_size := (ao_size h)(p := n, q := s), ao_list := before @ q # behind\<rparr>) (insert p L)"
proof -
  let ?f = "ao_size h" and ?g = "(ao_size h)(p := n, q := s)"
  have dis: "ao_ext ?f a \<inter> ao_ext ?f b = {}" if "a \<in> set (ao_list h) \<union> L" "b \<in> set (ao_list h) \<union> L" "a \<noteq> b" for a b
    using inv that unfolding aoff_inv_def pairwise_def by blast
  have bd: "unat a + 8 + unat (?f a) < 2 ^ 32" if "a \<in> set (ao_list h) \<union> L" for a using inv that unfolding aoff_inv_def by blast
  have so: "sorted_wrt (<) (before @ p # behind)" using inv l unfolding aoff_inv_def by simp
  have p: "p \<in> set (ao_list h) \<union> L" "p \<notin> set before \<union> set behind \<union> L"
    using inv so unfolding aoff_inv_def l by (auto simp: sorted_wrt_append)
  have pq: "p \<noteq> q" using q by auto
  have qin: "unat q \<in> ao_ext ?f p" using q s by (simp add: ao_ext_def)
  have qn: "q \<notin> set (ao_list h) \<union> L"
  proof
    assume "q \<in> set (ao_list h) \<union> L"
    then have "ao_ext ?f p \<inter> ao_ext ?f q = {}" using dis p(1) pq by blast
    then show False using qin by (auto simp: ao_ext_def)
  qed
  have ep: "ao_ext ?g p \<subseteq> ao_ext ?f p" "ao_ext ?g q \<subseteq> ao_ext ?f p" "ao_ext ?g p \<inter> ao_ext ?g q = {}"
    using q s pq by (auto simp: ao_ext_def)
  have eo: "ao_ext ?g a = ao_ext ?f a" if "a \<noteq> p" "a \<noteq> q" for a using that by (simp add: ao_ext_def)
  let ?R = "set before \<union> set behind \<union> L"
  have set: "set (before @ q # behind) \<union> insert p L = insert q (insert p ?R)" by auto
  have R: "?R \<subseteq> set (ao_list h) \<union> L" using l by auto
  have "pairwise (\<lambda>a b. ao_ext ?g a \<inter> ao_ext ?g b = {}) (insert q (insert p ?R))"
    unfolding pairwise_def
  proof (intro ballI impI)
    have one: "ao_ext ?g a \<inter> ao_ext ?g b = {}" if "a = p \<or> a = q" "b \<in> ?R" for a b
    proof -
      have b: "b \<in> set (ao_list h) \<union> L" "b \<noteq> p" "b \<noteq> q" using that(2) R p(2) qn by auto
      have "ao_ext ?f p \<inter> ao_ext ?f b = {}" using dis [OF p(1) b(1)] b(2) by simp
      moreover have "ao_ext ?g a \<subseteq> ao_ext ?f p" using ep that(1) by auto
      ultimately show ?thesis using eo [OF b(2,3)] by blast
    qed
    fix a b assume ab: "a \<in> insert q (insert p ?R)" "b \<in> insert q (insert p ?R)" "a \<noteq> b"
    have RR: "ao_ext ?g a \<inter> ao_ext ?g b = {}" if "a \<in> ?R" "b \<in> ?R"
    proof -
      have "a \<noteq> p" "a \<noteq> q" "b \<noteq> p" "b \<noteq> q" using that R p(2) qn by auto
      then show ?thesis using eo dis [of a b] that R ab(3) by auto
    qed
    consider "a \<in> ?R" "b \<in> ?R" | "a = p \<or> a = q" "b \<in> ?R" | "a \<in> ?R" "b = p \<or> b = q" | "a = p" "b = q" | "a = q" "b = p"
      using ab by blast
    then show "ao_ext ?g a \<inter> ao_ext ?g b = {}"
    proof cases
      case 1 then show ?thesis by (rule RR)
    next
      case 2 then show ?thesis by (rule one)
    next
      case 3 then show ?thesis using one [of b a] by (simp add: Int_commute)
    next
      case 4 then show ?thesis using ep(3) by simp
    next
      case 5 then show ?thesis using ep(3) by (simp add: Int_commute)
    qed
  qed
  moreover have "unat a + 8 + unat (?g a) < 2 ^ 32" if "a \<in> insert q (insert p ?R)" for a
  proof (cases "a = p \<or> a = q")
    case True then show ?thesis using bd [OF p(1)] q s pq by auto
  next
    case False then show ?thesis using bd [of a] that R by auto
  qed
  moreover have "sorted_wrt (<) (before @ q # behind)"
  proof (rule sorted_replace [OF so])
    show "p \<le> q" using q by (simp add: word_le_nat_alt)
    show "\<forall>v \<in> set behind. q < v"
    proof
      fix v assume v: "v \<in> set behind"
      have lt: "p < v" using so v by (simp add: sorted_wrt_append)
      have "ao_ext ?f p \<inter> ao_ext ?f v = {}" using dis [OF p(1), of v] v l lt by auto
      then have "unat p + 8 + unat (?f p) \<le> unat v" using lt by (rule ao_apart)
      then show "q < v" using q s by (simp add: word_less_nat_alt)
    qed
  qed
  moreover have "set (before @ q # behind) \<inter> insert p L = {}" using p(2) qn pq inv l unfolding aoff_inv_def by auto
  ultimately show ?thesis unfolding aoff_inv_def using set by simp
qed

lemma aoff_inv_drop: "aoff_inv h L \<Longrightarrow> ao_list h = us @ a # vs \<Longrightarrow> aoff_inv (h\<lparr>ao_list := us @ vs\<rparr>) L"
  unfolding aoff_inv_def by (auto simp: sorted_wrt_append intro: pairwise_subset)

lemma aoff_inv_insert:
  assumes inv: "aoff_inv h L" and a: "a \<in> L"
  shows "aoff_inv (h\<lparr>ao_list := takeWhile (\<lambda>q. a > q) (ao_list h) @ a # dropWhile (\<lambda>q. a > q) (ao_list h)\<rparr>) (L - {a})"
proof -
  let ?t = "takeWhile (\<lambda>q. a > q) (ao_list h)" and ?d = "dropWhile (\<lambda>q. a > q) (ao_list h)"
  have td: "?t @ ?d = ao_list h" by simp
  have so: "sorted_wrt (<) (?t @ ?d)" using inv unfolding td aoff_inv_def by blast
  have an: "a \<notin> set (ao_list h)" using inv a unfolding aoff_inv_def by blast
  have lt: "\<forall>q \<in> set ?t. q < a" by (auto dest: set_takeWhileD)
  have gt: "\<forall>q \<in> set ?d. a < q"
  proof (cases ?d)
    case Nil
    show ?thesis unfolding Nil by simp
  next
    case (Cons d ds)
    have "\<not> d < a" using hd_dropWhile [of "\<lambda>q. a > q" "ao_list h"] Cons by simp
    moreover have "d \<in> set (ao_list h)" by (rule set_dropWhileD [of d "\<lambda>q. a > q"]) (simp add: Cons)
    ultimately have "a < d" using an by (metis less_linear)
    then show ?thesis using so unfolding Cons by (auto simp: sorted_wrt_append)
  qed
  have s1: "set (?t @ a # ?d) = insert a (set (ao_list h))" 
  proof -
    have "set ?t \<union> set ?d = set (ao_list h)" unfolding set_append [symmetric] td ..
    then show ?thesis by auto
  qed
  have "set (?t @ a # ?d) \<union> (L - {a}) = set (ao_list h) \<union> L" unfolding s1 using a by auto
  moreover have "sorted_wrt (<) (?t @ a # ?d)"
  proof -
    have "sorted_wrt (<) ?t" "sorted_wrt (<) ?d" using so by (simp_all only: sorted_wrt_append)
    then show ?thesis using lt gt unfolding sorted_wrt_append by (auto dest!: bspec intro: less_trans)
  qed
  moreover have "set (?t @ a # ?d) \<inter> (L - {a}) = {}" unfolding s1 using inv unfolding aoff_inv_def by auto
  ultimately show ?thesis using inv unfolding aoff_inv_def by simp
qed

text \<open>So does coalescing.\<close>

lemma aoff_coalesce_inv:
  assumes inv: "aoff_inv h L" and l: "ao_list h = us @ a # b # vs" and s: "ao_getSuccessor h a = b"
  shows "aoff_inv (ao_coalesce us a b vs h) L" and "unat (ao_size (ao_coalesce us a b vs h) a) = unat (ao_size h a) + unat (ao_size h b) + 8"
proof -
  let ?f = "ao_size h"
  have a: "a \<in> set (ao_list h) \<union> L" and b: "b \<in> set (ao_list h) \<union> L" using l by auto
  have ba: "unat a + 8 + unat (?f a) < 2 ^ 32" "unat b + 8 + unat (?f b) < 2 ^ 32" using inv a b unfolding aoff_inv_def by blast+
  have ua: "unat b = unat a + 8 + unat (?f a)"
  proof -
    have "unat (a + 8) = unat a + 8" using ba(1) by (subst unat_add_nowrap) simp_all
    then show ?thesis unfolding s [symmetric] ao_getSuccessor_def sizeof_allocatedObject_def using ba(1) by (subst unat_add_nowrap) simp_all
  qed
  have sum: "unat (?f a + ?f b + 8) = unat (?f a) + unat (?f b) + 8"
  proof -
    have "unat (?f a + ?f b) = unat (?f a) + unat (?f b)" using ba ua by (subst unat_add_nowrap) simp_all
    then show ?thesis using ba ua by (subst unat_add_nowrap) simp_all
  qed
  then show "unat (ao_size (ao_coalesce us a b vs h) a) = unat (?f a) + unat (?f b) + 8"
    by (simp add: ao_coalesce_def ao_setSize_def sizeof_allocatedObject_def)
  let ?g = "?f(a := ?f a + ?f b + 8)"
  have ea: "ao_ext ?g a = ao_ext ?f a \<union> ao_ext ?f b" using sum ua by (auto simp: ao_ext_def)
  have eo: "ao_ext ?g c = ao_ext ?f c" if "c \<noteq> a" for c using that by (simp add: ao_ext_def)
  have so: "sorted_wrt (<) (us @ a # b # vs)" using inv l unfolding aoff_inv_def by simp
  let ?O = "set (us @ a # vs) \<union> L"
  have bn: "b \<notin> ?O" using so inv l unfolding aoff_inv_def by (auto simp: sorted_wrt_append)
  have sub: "?O \<subseteq> set (ao_list h) \<union> L" using l by auto
  have dis: "ao_ext ?f c \<inter> ao_ext ?f d = {}" if "c \<in> set (ao_list h) \<union> L" "d \<in> set (ao_list h) \<union> L" "c \<noteq> d" for c d
    using inv that unfolding aoff_inv_def pairwise_def by blast
  have one: "ao_ext ?g a \<inter> ao_ext ?g c = {}" if "c \<in> ?O" "c \<noteq> a" for c
    using dis [OF a, of c] dis [OF b, of c] that sub bn ea eo [of c] by blast
  have "pairwise (\<lambda>c d. ao_ext ?g c \<inter> ao_ext ?g d = {}) ?O"
    unfolding pairwise_def
  proof (intro ballI impI)
    fix c d assume cd: "c \<in> ?O" "d \<in> ?O" "c \<noteq> d"
    consider "c = a" | "d = a" | "c \<noteq> a" "d \<noteq> a" by blast
    then show "ao_ext ?g c \<inter> ao_ext ?g d = {}"
    proof cases
      case 1 then show ?thesis using one cd by blast
    next
      case 2 then show ?thesis using one [of c] cd by blast
    next
      case 3 then show ?thesis using dis [of c d] cd sub eo by auto
    qed
  qed
  moreover have "unat c + 8 + unat (?g c) < 2 ^ 32" if "c \<in> ?O" for c
    using inv that sub sum ba ua unfolding aoff_inv_def by (cases "c = a") auto
  moreover have "sorted_wrt (<) (us @ a # vs)" using so by (auto simp: sorted_wrt_append)
  moreover have "set (us @ a # vs) \<inter> L = {}" using inv l unfolding aoff_inv_def by auto
  ultimately show "aoff_inv (ao_coalesce us a b vs h) L"
    unfolding aoff_inv_def ao_coalesce_def ao_setSize_def sizeof_allocatedObject_def by simp
qed

lemma ao_free_next_inv:
  assumes inv: "aoff_inv h L" and l: "ao_list h = before @ this # behind"
  shows "aoff_inv (fst (ao_free_next t sf before this behind (h, w))) L"
proof -
  let ?c = "behind \<noteq> [] \<and> ao_getSuccessor h this = hd behind"
  define h1 where "h1 = (if ?c then ao_coalesce before this (hd behind) (tl behind) h else h)"
  define vs where "vs = (if ?c then tl behind else behind)"
  have "aoff_inv h1 L \<and> ao_list h1 = before @ this # vs"
  proof (cases ?c)
    case True
    then have "ao_list h = before @ this # hd behind # tl behind" using l by simp
    from aoff_coalesce_inv(1) [OF inv this] True show ?thesis by (simp add: h1_def vs_def ao_coalesce_def ao_setSize_def)
  next
    case False
    then show ?thesis unfolding h1_def vs_def using inv l by (simp only: if_False)
  qed
  moreover have "fst (ao_free_next t sf before this behind (h, w)) = (if t \<le>s ao_size h1 this then h1\<lparr>ao_list := before @ vs\<rparr> else h1)"
    by (simp add: ao_free_next_def h1_def vs_def)
  ultimately show ?thesis using aoff_inv_drop by simp
qed

section \<open>Properties\<close>

text \<open>What the super heap has to return: \<open>NULL\<close>, or room for an object apart from all others.\<close>

definition ao_fresh :: "aoff \<Rightarrow> u32 set \<Rightarrow> u32 \<Rightarrow> u32 \<Rightarrow> bool" where
  "ao_fresh h L n buf \<longleftrightarrow> buf = 0 \<or> (unat buf + 8 + unat n < 2 ^ 32 \<and>
     (\<forall>a \<in> set (ao_list h) \<union> L. {unat buf ..< unat buf + 8 + unat n} \<inter> ao_ext (ao_size h) a = {}))"

lemma aoff_new_object:
  assumes inv: "aoff_inv h L" and f: "ao_fresh h L n buf" and z: "buf \<noteq> 0"
  shows "buf \<notin> set (ao_list h) \<union> L \<and> aoff_inv (ao_setSize buf n h) (insert buf L)"
proof -
  have fr: "unat buf + 8 + unat n < 2 ^ 32" "\<forall>a \<in> set (ao_list h) \<union> L. {unat buf ..< unat buf + 8 + unat n} \<inter> ao_ext (ao_size h) a = {}"
    using f z by (auto simp: ao_fresh_def)
  have nin: "buf \<notin> set (ao_list h) \<union> L"
  proof
    assume "buf \<in> set (ao_list h) \<union> L"
    then have "{unat buf ..< unat buf + 8 + unat n} \<inter> ao_ext (ao_size h) buf = {}" using fr(2) by blast
    then show False by (auto simp: ao_ext_def)
  qed
  let ?g = "(ao_size h)(buf := n)"
  have eb: "ao_ext ?g buf = {unat buf ..< unat buf + 8 + unat n}" by (simp add: ao_ext_def)
  have eo: "ao_ext ?g a = ao_ext (ao_size h) a" if "a \<noteq> buf" for a using that by (simp add: ao_ext_def)
  have "pairwise (\<lambda>a b. ao_ext ?g a \<inter> ao_ext ?g b = {}) (set (ao_list h) \<union> L)"
    using inv nin eo unfolding aoff_inv_def pairwise_def by (metis (no_types, lifting))
  moreover have "ao_ext ?g buf \<inter> ao_ext ?g a = {}" if "a \<in> set (ao_list h) \<union> L" for a
    using fr(2) that nin eb eo [of a] by (cases "a = buf") auto
  ultimately have "pairwise (\<lambda>a b. ao_ext ?g a \<inter> ao_ext ?g b = {}) (insert buf (set (ao_list h) \<union> L))"
    by (auto simp: pairwise_insert Int_commute)
  then show ?thesis using inv nin fr(1) unfolding aoff_inv_def ao_setSize_def by auto
qed

text \<open>
  an allocation never reaches the \<open>abort\<close>; the object it returns has the size asked for, is apart from all objects of the client,
  and leaves these as they were; freeing one of them keeps all objects apart and the free list in order.
\<close>

theorem AOFFHeap_objects_apart:
  assumes inv: "aoff_inv h L" and n: "unat n + 16 < 2 ^ 32"
    and super: "super_malloc (n + 8) w = (buf, w1)" "ao_fresh h L n buf"
  shows "\<exists>r h' w'. AOFFHeap_malloc super_malloc n (h, w) = Some (r, h', w') \<and>
      (if r = 0 then h' = h else r - 8 \<notin> L \<and> aoff_inv h' (insert (r - 8) L) \<and> ao_objectSize h' r = n \<and> (\<forall>a \<in> L. ao_size h' a = ao_size h a))"
    and "p - 8 \<in> L \<Longrightarrow> aoff_inv (fst (AOFFHeap_free threshold super_free p (h, w))) (L - {p - 8})"
proof -
  show "\<exists>r h' w'. AOFFHeap_malloc super_malloc n (h, w) = Some (r, h', w') \<and>
      (if r = 0 then h' = h else r - 8 \<notin> L \<and> aoff_inv h' (insert (r - 8) L) \<and> ao_objectSize h' r = n \<and> (\<forall>a \<in> L. ao_size h' a = ao_size h a))"
  proof (cases "ao_find (ao_size h) (n + 16) [] (ao_list h)")
    case None
    show ?thesis
    proof (cases "buf = 0")
      case True
      then show ?thesis using None super by (simp add: AOFFHeap_malloc_def sizeof_freedObject_def sizeof_allocatedObject_def)
    next
      case False
      note new = aoff_new_object [OF inv super(2) False]
      have "AOFFHeap_malloc super_malloc n (h, w) = Some (buf + 8, ao_setSize buf n h, w1)"
        using None super(1) False by (simp add: AOFFHeap_malloc_def sizeof_freedObject_def sizeof_allocatedObject_def ao_getStart_def)
      moreover have "buf + 8 \<noteq> 0"
      proof -
        have "unat (buf + 8) = unat buf + 8" using super(2) False by (subst unat_add_nowrap) (auto simp: ao_fresh_def)
        then show ?thesis by (metis add_is_0 unat_0 zero_neq_numeral)
      qed
      ultimately show ?thesis using new by (auto simp: ao_objectSize_def ao_setSize_def sizeof_allocatedObject_def)
    qed
  next
    case (Some x)
    obtain before p behind where x: "x = (before, p, behind)" by (cases x)
    note fit = aoff_malloc_fit [OF inv Some [unfolded x] n]
    have sp: "unat (ao_size h p - n - 16) + unat n + 16 \<le> unat (ao_size h p)" using fit(3,4) by simp
    have i: "aoff_inv (h\<lparr>ao_size := (ao_size h)(p := n, p + 8 + n := ao_size h p - n - 16), ao_list := before @ (p + 8 + n) # behind\<rparr>) (insert p L)"
      by (rule aoff_split_inv [OF inv fit(5,2) sp])
    have pl: "p \<notin> L" using inv fit(5) unfolding aoff_inv_def by auto
    have ql: "p + 8 + n \<notin> insert p L" using i unfolding aoff_inv_def by auto
    have "p + 8 \<noteq> 0"
    proof -
      have "p \<in> set (ao_list h)" using fit(5) by simp
      then have "unat p + 8 + unat (ao_size h p) < 2 ^ 32" using inv unfolding aoff_inv_def by blast
      then have "unat (p + 8) = unat p + 8" by (subst unat_add_nowrap) auto
      then show ?thesis by (metis add_is_0 unat_0 zero_neq_numeral)
    qed
    moreover have "p \<noteq> p + 8 + n" using ql by auto
    moreover define h1 where "h1 = h\<lparr>ao_size := (ao_size h)(p := n, p + 8 + n := ao_size h p - n - 16), ao_list := before @ (p + 8 + n) # behind\<rparr>"
    ultimately have "ao_objectSize h1 (p + 8) = n \<and> (\<forall>a \<in> L. ao_size h1 a = ao_size h a)"
      using pl ql by (auto simp: ao_objectSize_def sizeof_allocatedObject_def)
    moreover have "AOFFHeap_malloc super_malloc n (h, w) = Some (p + 8, h1, w)" unfolding h1_def by (rule fit(1))
    ultimately show ?thesis using \<open>p + 8 \<noteq> 0\<close> i [folded h1_def] pl by (intro exI [of _ "p + 8"] exI [of _ h1] exI [of _ w]) simp
  qed
next
  assume p: "p - 8 \<in> L"
  define a where "a = p - 8"
  define us where "us = takeWhile (\<lambda>q. a > q) (ao_list h)"
  define vs where "vs = dropWhile (\<lambda>q. a > q) (ao_list h)"
  have al: "a \<in> L" using p by (simp add: a_def)
  note ins = aoff_inv_insert [OF inv al, folded us_def vs_def]
  define h1 where "h1 = h\<lparr>ao_list := us @ a # vs\<rparr>"
  have "a \<notin> set (ao_list h)" using inv al unfolding aoff_inv_def by blast
  moreover have "set vs \<subseteq> set (ao_list h)" unfolding vs_def by (auto dest: set_dropWhileD)
  ultimately have ne: "\<not> (vs \<noteq> [] \<and> a = hd vs)" by (metis hd_in_set subsetD)
  have eq: "AOFFHeap_free threshold super_free p (h, w) =
      (if vs \<noteq> [] \<and> a = hd vs then (h, w)
       else if us \<noteq> [] \<and> ao_getSuccessor h1 (last us) = a
       then ao_free_next threshold super_free (butlast us) (last us) vs (ao_coalesce (butlast us) (last us) a vs h1, w)
       else ao_free_next threshold super_free us a vs (h1, w))"
    unfolding AOFFHeap_free_def us_def vs_def a_def h1_def sizeof_allocatedObject_def Let_def prod.case by (rule refl)
  have "aoff_inv (fst (AOFFHeap_free threshold super_free p (h, w))) (L - {a})"
  proof (cases "us \<noteq> [] \<and> ao_getSuccessor h1 (last us) = a")
    case True
    then have l: "ao_list h1 = butlast us @ last us # a # vs" by (simp add: h1_def)
    have c: "aoff_inv (ao_coalesce (butlast us) (last us) a vs h1) (L - {a})"
      using aoff_coalesce_inv(1) [OF _ l] ins True by (simp add: h1_def)
    have "ao_list (ao_coalesce (butlast us) (last us) a vs h1) = butlast us @ last us # vs" by (simp add: ao_coalesce_def ao_setSize_def)
    from ao_free_next_inv [OF c this] show ?thesis unfolding eq if_not_P [OF ne] if_P [OF True] .
  next
    case False
    have "ao_list h1 = us @ a # vs" by (simp add: h1_def)
    from ao_free_next_inv [OF ins [folded h1_def] this] show ?thesis unfolding eq if_not_P [OF ne] if_not_P [OF False] .
  qed
  then show "aoff_inv (fst (AOFFHeap_free threshold super_free p (h, w))) (L - {p - 8})" by (simp add: a_def)
qed

text \<open>Four objects: one is free, and an allocation is split off it; one is freed between two free ones and joins them.\<close>

definition aoff_example :: aoff where
  "aoff_example = \<lparr>ao_size = (\<lambda>_. 0)(1000 := 92, 1100 := 92, 1200 := 92, 1300 := 92), ao_list = [1000, 1200]\<rparr>"

theorem AOFFHeap_objects_apart_witness:
  "\<exists>r h'. AOFFHeap_malloc (\<lambda>n w. (0, w)) 40 (aoff_example, ()) = Some (r, h', ()) \<and> r = 1008 \<and>
     aoff_inv h' {1000, 1100, 1300} \<and> aoff_inv (fst (AOFFHeap_free 4096 (\<lambda>p w. w) 1108 (aoff_example, ()))) {1300}"
proof -
  have i: "aoff_inv aoff_example {1100, 1300}"
    by (simp add: aoff_inv_def aoff_example_def pairwise_insert ao_ext_def)
  have f: "ao_fresh aoff_example {1100, 1300} 40 0" by (simp add: ao_fresh_def)
  have r: "AOFFHeap_malloc (\<lambda>n w. (0, w)) 40 (aoff_example, ()) =
      Some (1008, \<lparr>ao_size = (\<lambda>_. 0)(1000 := 40, 1100 := 92, 1200 := 92, 1300 := 92, 1048 := 36), ao_list = [1048, 1200]\<rparr>, ())"
    by (simp add: AOFFHeap_malloc_def aoff_example_def sizeof_freedObject_def sizeof_allocatedObject_def ao_setSize_def
        ao_getSuccessor_def ao_getStart_def fun_upd_twist)
  have n: "unat (40 :: u32) + 16 < 2 ^ 32" "(1108 :: u32) - 8 \<in> {1100, 1300}" by simp_all
  have sm: "(\<lambda>n w. (0, w)) ((40 :: u32) + 8) () = (0 :: u32, ())" by simp
  note main = AOFFHeap_objects_apart(1) [where super_malloc = "\<lambda>n w. (0, w)" and w = "()", OF i n(1) sm f]
    AOFFHeap_objects_apart(2) [where super_malloc = "\<lambda>n w. (0, w)" and w = "()" and threshold = 4096 and super_free = "\<lambda>p w. w", OF i n(1) sm f n(2)]
  have "insert ((1008 :: u32) - 8) {1100, 1300} = {1000, 1100, 1300}" "{1100, 1300} - {(1108 :: u32) - 8} = {1300}" by auto
  then show ?thesis using main r by auto
qed

text \<open>
  An allocation that is freed again leaves the object 8 bytes smaller than it was: splitting takes off the size of a free object,
  and coalescing gives back that of a header.
\<close>

lemma AOFFHeap_leaks:
  assumes l: "ao_list h = [p]" and b: "unat p + 8 + unat (ao_size h p) < 2 ^ 32" and n: "unat n + 16 \<le> unat (ao_size h p)"
    and t: "\<not> threshold \<le>s ao_size h p - 8"
  shows "\<exists>h1. AOFFHeap_malloc super_malloc n (h, w) = Some (p + 8, h1, w) \<and>
    AOFFHeap_free threshold super_free (p + 8) (h1, w) =
      (h1\<lparr>ao_size := (ao_size h1)(p := ao_size h p - 8), ao_list := [p]\<rparr>, w)"
proof -
  have inv: "aoff_inv h {}" using l b by (simp add: aoff_inv_def)
  have n32: "unat n + 16 < 2 ^ 32" using n b by linarith
  have nz: "unat (n + 16) = unat n + 16" using n32 by (simp add: unat_add_nowrap)
  have f: "ao_find (ao_size h) (n + 16) [] (ao_list h) = Some ([], p, [])"
    using l n nz by (simp add: word_less_nat_alt)
  note fit = aoff_malloc_fit [OF inv f n32]
  define q where "q = p + 8 + n"
  define h1 where "h1 = h\<lparr>ao_size := (ao_size h)(p := n, q := ao_size h p - n - 16), ao_list := [q]\<rparr>"
  have m: "AOFFHeap_malloc super_malloc n (h, w) = Some (p + 8, h1, w)" using fit(1) by (simp add: h1_def q_def)
  have pq: "p < q" using fit(2) by (simp add: q_def word_less_nat_alt)
  have "AOFFHeap_free threshold super_free (p + 8) (h1, w) = (h1\<lparr>ao_size := (ao_size h1)(p := ao_size h p - 8), ao_list := [p]\<rparr>, w)"
  proof -
    have s: "ao_size h1 p = n" "ao_size h1 q = ao_size h p - n - 16" using pq by (auto simp: h1_def)
    have "AOFFHeap_free threshold super_free (p + 8) (h1, w) = ao_free_next threshold super_free [] p [q] (h1\<lparr>ao_list := [p, q]\<rparr>, w)"
      using pq using less_imp_not_less [OF pq] less_imp_neq [OF pq]
      by (simp add: AOFFHeap_free_def sizeof_allocatedObject_def h1_def Let_def)
    also have "\<dots> = (h1\<lparr>ao_size := (ao_size h1)(p := ao_size h p - 8), ao_list := [p]\<rparr>, w)"
      using s t by (simp add: ao_free_next_def ao_getSuccessor_def sizeof_allocatedObject_def q_def [symmetric] ao_coalesce_def ao_setSize_def)
    finally show ?thesis .
  qed
  then show ?thesis using m by blast
qed

text \<open>A large free part of a block is given to the super heap by an address that the super heap never returned.\<close>

lemma AOFFHeap_frees_interior:
  "\<exists>r h h1 ps. AOFFHeap_malloc (\<lambda>n ps. (1000, n # ps)) 200 (aoff_new, []) = Some (1008, h, [208]) \<and>
     AOFFHeap_malloc (\<lambda>n ps. (1000, n # ps)) 40 (fst (AOFFHeap_free 300 (\<lambda>p ps. p # ps) 1008 (h, [])), []) = Some (1008, h1, []) \<and>
     AOFFHeap_malloc (\<lambda>n ps. (1000, n # ps)) 40 (h1, []) = Some (1056, r, []) \<and>
     snd (AOFFHeap_free 90 (\<lambda>p ps. p # ps) 1056 (r, [])) = [1048]"
  by (simp add: AOFFHeap_malloc_def AOFFHeap_free_def ao_free_next_def ao_coalesce_def aoff_new_def sizeof_freedObject_def sizeof_allocatedObject_def
      ao_setSize_def ao_getSuccessor_def ao_getStart_def word_sle_eq)

end
