(* ===== verification/Hl_Loose.thy ===== *)
theory Hl_Loose
  imports Hl_Util
begin

text \<open>
  \<open>experimental/bigchunk.h\<close>, \<open>looseslotheap.h\<close> and \<open>topslotheap.h\<close>: chunks of equal slots, and a heap that keeps its chunks in
  lists by how full they are and gives mostly empty ones to a heap above. A chunk is known by its address, a slot by that of its
  \<open>ChunkBlock\<close>, which is 8 bytes before the object; the lists through \<open>next\<close> and \<open>prev\<close> are lists of addresses.
\<close>

section \<open>\<open>BigChunk\<close>\<close>

record bigchunk =
  bc_freeSlots :: "u32 list"
  bc_numSlotsAvailable :: int
  bc_heap :: nat

record chunk_store =
  ck_chunk :: "u32 \<Rightarrow> bigchunk"
  ck_myChunk :: "u32 \<Rightarrow> u32"

definition sizeof_ChunkBlock :: nat where "sizeof_ChunkBlock = 8"
definition sizeof_BigChunk :: nat where "sizeof_BigChunk = 20"

definition bc_align :: "nat \<Rightarrow> nat" where "bc_align sz = (sz + 7) div 8 * 8"

definition bc_getNumSlots :: "nat \<Rightarrow> nat \<Rightarrow> nat" where
  "bc_getNumSlots chunkSize slotSize = (chunkSize - sizeof_BigChunk) div bc_align (sizeof_ChunkBlock + slotSize)"

definition set_chunk :: "u32 \<Rightarrow> (bigchunk \<Rightarrow> bigchunk) \<Rightarrow> chunk_store \<Rightarrow> chunk_store" where
  "set_chunk c f st = st\<lparr>ck_chunk := (ck_chunk st)(c := f (ck_chunk st c))\<rparr>"

definition bc_setHeap :: "nat \<Rightarrow> u32 \<Rightarrow> chunk_store \<Rightarrow> chunk_store" where
  "bc_setHeap h c = set_chunk c (\<lambda>r. r\<lparr>bc_heap := h\<rparr>)"

text \<open>The constructor carves the slots and leaves \<open>heap\<close> as it is.\<close>

definition bc_carve :: "u32 \<Rightarrow> u32 \<Rightarrow> chunk_store \<Rightarrow> chunk_store" where
  "bc_carve this b st = set_chunk this (\<lambda>r. r\<lparr>bc_freeSlots := b # bc_freeSlots r\<rparr>) (st\<lparr>ck_myChunk := (ck_myChunk st)(b := this)\<rparr>)"

definition BigChunk_new :: "nat \<Rightarrow> nat \<Rightarrow> u32 \<Rightarrow> chunk_store \<Rightarrow> chunk_store" where
  "BigChunk_new chunkSize slotSize this st =
     (let numSlots = bc_getNumSlots chunkSize slotSize;
          st = set_chunk this (\<lambda>r. r\<lparr>bc_freeSlots := [], bc_numSlotsAvailable := int numSlots\<rparr>) st;
          blksize = bc_align (sizeof_ChunkBlock + slotSize)
      in fold (\<lambda>i. bc_carve this (this + of_nat sizeof_BigChunk + of_nat (i * blksize))) [0 ..< numSlots] st)"

definition bc_getSlot :: "u32 \<Rightarrow> chunk_store \<Rightarrow> u32 \<times> chunk_store" where
  "bc_getSlot this st =
     (case bc_freeSlots (ck_chunk st this) of
        [] \<Rightarrow> (0, st)
      | b # bs \<Rightarrow> (b + 8, (set_chunk this (\<lambda>r. r\<lparr>bc_freeSlots := bs, bc_numSlotsAvailable := bc_numSlotsAvailable r - 1\<rparr>) st)
                         \<lparr>ck_myChunk := (ck_myChunk st)(b := this)\<rparr>))"

definition bc_putSlot :: "u32 \<Rightarrow> u32 \<Rightarrow> chunk_store \<Rightarrow> chunk_store" where
  "bc_putSlot this ptr st =
     set_chunk this (\<lambda>r. r\<lparr>bc_freeSlots := (ptr - 8) # bc_freeSlots r, bc_numSlotsAvailable := bc_numSlotsAvailable r + 1\<rparr>) st"

definition bc_getChunk :: "chunk_store \<Rightarrow> u32 \<Rightarrow> u32" where "bc_getChunk st ptr = ck_myChunk st (ptr - 8)"
definition bc_getNumSlotsFree :: "chunk_store \<Rightarrow> u32 \<Rightarrow> int" where "bc_getNumSlotsFree st c = bc_numSlotsAvailable (ck_chunk st c)"
definition bc_getNumSlotsInUse :: "nat \<Rightarrow> chunk_store \<Rightarrow> u32 \<Rightarrow> int" where
  "bc_getNumSlotsInUse N st c = int N - bc_numSlotsAvailable (ck_chunk st c)"

section \<open>\<open>LooseSlotHeap\<close>\<close>

text \<open>\<open>N\<close> is \<open>getNumSlots\<close> of its chunks, \<open>F\<close> is \<open>emptyFraction\<close>. The heap above works on the chunks and a world of its own.\<close>

record loose =
  lh_myChunks :: "nat \<Rightarrow> u32 list"
  lh_lastIndex :: int
  lh_inUse :: int
  lh_space :: int

definition LooseSlotHeap_new :: "nat \<Rightarrow> loose" where
  "LooseSlotHeap_new F = \<lparr>lh_myChunks = (\<lambda>_. []), lh_lastIndex = int F - 1, lh_inUse = 0, lh_space = 0\<rparr>"

definition getFullness :: "nat \<Rightarrow> nat \<Rightarrow> chunk_store \<Rightarrow> u32 \<Rightarrow> nat" where
  "getFullness F N st c = nat (int F * bc_getNumSlotsInUse N st c div int N)"

definition lh_update :: "nat \<Rightarrow> nat \<Rightarrow> u32 \<Rightarrow> nat \<Rightarrow> chunk_store \<Rightarrow> loose \<Rightarrow> loose" where
  "lh_update F N c prevIndex st h =
     (let newIndex = getFullness F N st c;
          cs = (lh_myChunks h)(prevIndex := remove1 c (lh_myChunks h prevIndex))
      in h\<lparr>lh_myChunks := cs(newIndex := c # cs newIndex)\<rparr>)"

text \<open>The index of the fullest list below \<open>n\<close> that has a chunk, or \<open>-1\<close>.\<close>

fun lh_search :: "(nat \<Rightarrow> u32 list) \<Rightarrow> nat \<Rightarrow> int" where
  "lh_search cs 0 = - 1"
| "lh_search cs (Suc n) = (if cs n = [] then lh_search cs n else int n)"

text \<open>A chunk that the heap above does not provide is followed as a null pointer, which is \<open>None\<close>.\<close>

definition LooseSlotHeap_malloc ::
  "nat \<Rightarrow> nat \<Rightarrow> nat \<Rightarrow> (chunk_store \<times> 'w \<Rightarrow> u32 \<times> chunk_store \<times> 'w) \<Rightarrow> loose \<times> chunk_store \<times> 'w \<Rightarrow> (u32 \<times> loose \<times> chunk_store \<times> 'w) option" where
  "LooseSlotHeap_malloc F N this super_malloc = (\<lambda>(h, st, w).
     let h = h\<lparr>lh_lastIndex := lh_search (lh_myChunks h) F\<rparr>
     in Option.bind
       (if lh_lastIndex h < 0 then
          let (c, st, w) = super_malloc (st, w)
          in if c = 0 then None
             else let st = bc_setHeap this c st;
                      n = getFullness F N st c
                  in Some (c, h\<lparr>lh_lastIndex := int n, lh_myChunks := (lh_myChunks h)(n := [c]),
                                lh_inUse := lh_inUse h + bc_getNumSlotsInUse N st c, lh_space := lh_space h + int N\<rparr>, st, w)
        else Some (hd (lh_myChunks h (nat (lh_lastIndex h))), h, st, w))
       (\<lambda>(c, h, st, w).
          let prevFullness = getFullness F N st c;
              (ptr, st) = bc_getSlot c st;
              h = h\<lparr>lh_inUse := lh_inUse h + 1\<rparr>;
              newFullness = getFullness F N st c;
              h = (if prevFullness \<noteq> newFullness then lh_update F N c prevFullness st h else h)
          in Some (ptr, h, st, w)))"

text \<open>The index of the emptiest list from \<open>i\<close> on, below \<open>i + n\<close>, that has a chunk.\<close>

fun lh_emptiest :: "(nat \<Rightarrow> u32 list) \<Rightarrow> nat \<Rightarrow> nat \<Rightarrow> nat option" where
  "lh_emptiest cs i 0 = None"
| "lh_emptiest cs i (Suc n) = (if cs i \<noteq> [] then Some i else lh_emptiest cs (Suc i) n)"

definition lh_return_chunk ::
  "nat \<Rightarrow> nat \<Rightarrow> (u32 \<Rightarrow> chunk_store \<times> 'w \<Rightarrow> chunk_store \<times> 'w) \<Rightarrow> loose \<times> chunk_store \<times> 'w \<Rightarrow> (loose \<times> chunk_store \<times> 'w) option" where
  "lh_return_chunk F N super_free = (\<lambda>(h, st, w).
     case lh_emptiest (lh_myChunks h) 0 F of None \<Rightarrow> None
     | Some i \<Rightarrow>
         let c = hd (lh_myChunks h i);
             st = bc_setHeap 0 c st;
             h = h\<lparr>lh_myChunks := (lh_myChunks h)(i := tl (lh_myChunks h i)),
                   lh_space := lh_space h - int N, lh_inUse := lh_inUse h - bc_getNumSlotsInUse N st c\<rparr>
         in Some (h, super_free c (st, w)))"

definition LooseSlotHeap_localFree ::
  "nat \<Rightarrow> nat \<Rightarrow> int \<Rightarrow> (u32 \<Rightarrow> chunk_store \<times> 'w \<Rightarrow> chunk_store \<times> 'w) \<Rightarrow> u32 \<Rightarrow> loose \<times> chunk_store \<times> 'w
   \<Rightarrow> (loose \<times> chunk_store \<times> 'w) option" where
  "LooseSlotHeap_localFree F N slack super_free ptr = (\<lambda>(h, st, w).
     let c = bc_getChunk st ptr;
         prevFullness = getFullness F N st c;
         st = bc_putSlot c ptr st;
         h = h\<lparr>lh_inUse := lh_inUse h - 1\<rparr>;
         newIndex = getFullness F N st c;
         h = (if prevFullness \<noteq> newIndex then lh_update F N c prevFullness st h else h)
     in if lh_space h - lh_inUse h > slack \<and> int F * (lh_space h - lh_inUse h) > lh_space h
        then lh_return_chunk F N super_free (h, st, w) else Some (h, st, w))"

text \<open>\<open>free\<close> finds the heap through the chunk; \<open>slack\<close> is \<open>2 * chunkSize / slotSize\<close>. Only the heap \<open>this\<close> is in the model.\<close>

definition LooseSlotHeap_free ::
  "nat \<Rightarrow> nat \<Rightarrow> int \<Rightarrow> nat \<Rightarrow> (u32 \<Rightarrow> chunk_store \<times> 'w \<Rightarrow> chunk_store \<times> 'w) \<Rightarrow> u32 \<Rightarrow> loose \<times> chunk_store \<times> 'w
   \<Rightarrow> (loose \<times> chunk_store \<times> 'w) option" where
  "LooseSlotHeap_free F N slack this super_free ptr = (\<lambda>(h, st, w).
     if bc_heap (ck_chunk st (bc_getChunk st ptr)) = this then LooseSlotHeap_localFree F N slack super_free ptr (h, st, w) else None)"

text \<open>The destructor frees the chunks of every list.\<close>

definition LooseSlotHeap_destroy ::
  "nat \<Rightarrow> (u32 \<Rightarrow> chunk_store \<times> 'w \<Rightarrow> chunk_store \<times> 'w) \<Rightarrow> loose \<times> chunk_store \<times> 'w \<Rightarrow> chunk_store \<times> 'w" where
  "LooseSlotHeap_destroy F super_free = (\<lambda>(h, st, w). fold super_free (concat (map (lh_myChunks h) [0 ..< F + 1])) (st, w))"

section \<open>\<open>TopSlotHeap\<close>\<close>

text \<open>
  The chunks that came back; \<open>buf\<close> is what the super heap returns for a new one. \<open>self\<close> stands for the address of this heap, which
  \<open>setHeap\<close> stores where a \<open>LooseSlotHeap\<close> is expected.
\<close>

definition TopSlotHeap_malloc :: "nat \<Rightarrow> nat \<Rightarrow> u32 \<Rightarrow> chunk_store \<times> u32 list \<Rightarrow> u32 \<times> chunk_store \<times> u32 list" where
  "TopSlotHeap_malloc chunkSize slotSize buf = (\<lambda>(st, cs).
     case cs of [] \<Rightarrow> (buf, BigChunk_new chunkSize slotSize buf st, []) | c # cs \<Rightarrow> (c, bc_setHeap 0 c st, cs))"

definition TopSlotHeap_free :: "nat \<Rightarrow> u32 \<Rightarrow> chunk_store \<times> u32 list \<Rightarrow> chunk_store \<times> u32 list" where
  "TopSlotHeap_free self ptr = (\<lambda>(st, cs). (bc_setHeap self ptr st, ptr # cs))"

definition TopSlotHeap_localFree :: "nat \<Rightarrow> u32 \<Rightarrow> chunk_store \<times> u32 list \<Rightarrow> chunk_store \<times> u32 list" where
  "TopSlotHeap_localFree = TopSlotHeap_free"

section \<open>The class invariant\<close>

text \<open>The slots \<open>L\<close> are in use. For a chunk: its free slots are its own and not in use, and the count of the available ones is right.\<close>

definition chunk_ok :: "nat \<Rightarrow> chunk_store \<Rightarrow> u32 set \<Rightarrow> u32 \<Rightarrow> bool" where
  "chunk_ok N st L c \<longleftrightarrow>
     (let r = ck_chunk st c
      in distinct (bc_freeSlots r) \<and> bc_numSlotsAvailable r = int (length (bc_freeSlots r)) \<and>
         (\<forall>b \<in> set (bc_freeSlots r). ck_myChunk st b = c \<and> b \<notin> L) \<and>
         card {b \<in> L. ck_myChunk st b = c} + length (bc_freeSlots r) = N)"

definition lh_all :: "nat \<Rightarrow> loose \<Rightarrow> u32 set" where
  "lh_all F h = (\<Union>i \<le> F. set (lh_myChunks h i))"

text \<open>\<open>checkClassInvariant\<close>, and that every chunk is in the list of its fullness.\<close>

definition loose_inv :: "nat \<Rightarrow> nat \<Rightarrow> nat \<Rightarrow> loose \<Rightarrow> chunk_store \<Rightarrow> u32 set \<Rightarrow> bool" where
  "loose_inv F N this h st L \<longleftrightarrow> finite L \<and>
     (\<forall>i \<le> F. distinct (lh_myChunks h i) \<and> (\<forall>c \<in> set (lh_myChunks h i). getFullness F N st c = i)) \<and>
     (\<forall>c \<in> lh_all F h. chunk_ok N st L c \<and> bc_heap (ck_chunk st c) = this) \<and>
     lh_space h = int N * int (card (lh_all F h)) \<and> lh_inUse h = (\<Sum>c \<in> lh_all F h. bc_getNumSlotsInUse N st c)"

lemma chunk_ok_use:
  assumes "chunk_ok N st L c" and "finite L"
  shows "bc_getNumSlotsInUse N st c = int (card {b \<in> L. ck_myChunk st b = c})" and "0 \<le> bc_getNumSlotsInUse N st c"
    and "bc_getNumSlotsInUse N st c \<le> int N" and "bc_getNumSlotsInUse N st c < int N \<longleftrightarrow> bc_freeSlots (ck_chunk st c) \<noteq> []"
  using assms by (auto simp: chunk_ok_def Let_def bc_getNumSlotsInUse_def)

lemma fullness_bounds:
  assumes "chunk_ok N st L c" and "finite L" and "0 < N" and "0 < F"
  shows "getFullness F N st c \<le> F" and "getFullness F N st c < F \<longleftrightarrow> bc_freeSlots (ck_chunk st c) \<noteq> []"
proof -
  note u = chunk_ok_use [OF assms(1,2)]
  define k where "k = bc_getNumSlotsInUse N st c"
  have k: "0 \<le> k" "k \<le> int N" using u by (simp_all add: k_def)
  have "int F * k \<le> int F * int N" using k assms(4) by (intro mult_left_mono) simp_all
  then have "int F * k div int N \<le> int F * int N div int N" using assms(3) by (intro zdiv_mono1) simp_all
  then have le: "int F * k div int N \<le> int F" using assms(3) by simp
  then show "getFullness F N st c \<le> F" by (simp add: getFullness_def k_def)
  have "int F * k div int N < int F \<longleftrightarrow> k < int N"
  proof
    assume "k < int N"
    then have "int F * k < int F * int N" using assms(4) by simp
    moreover have "int F * k div int N * int N + int F * k mod int N = int F * k" by (rule div_mult_mod_eq)
    moreover have "0 \<le> int F * k mod int N" using assms(3) by simp
    ultimately have "int F * k div int N * int N < int F * int N" by linarith
    then show "int F * k div int N < int F" by (simp add: mult_less_cancel_right)
  next
    assume l: "int F * k div int N < int F"
    show "k < int N"
    proof (rule ccontr)
      assume "\<not> k < int N"
      then have "k = int N" using k by simp
      then show False using l assms(3) by simp
    qed
  qed
  moreover have "0 \<le> int F * k div int N" using k assms(3) by (simp add: pos_imp_zdiv_nonneg_iff)
  ultimately show "getFullness F N st c < F \<longleftrightarrow> bc_freeSlots (ck_chunk st c) \<noteq> []"
    using u(4) assms(4) by (simp add: getFullness_def k_def nat_less_iff)
qed

text \<open>A chunk that changes moves to the list of its new fullness; both \<open>malloc\<close> and \<open>free\<close> do this.\<close>

definition lh_moved :: "nat \<Rightarrow> nat \<Rightarrow> u32 \<Rightarrow> chunk_store \<Rightarrow> chunk_store \<Rightarrow> loose \<Rightarrow> loose" where
  "lh_moved F N c st st' h =
     (if getFullness F N st c \<noteq> getFullness F N st' c then lh_update F N c (getFullness F N st c) st' h else h)"

lemma lh_moved_fields [simp]: "lh_space (lh_moved F N c st st' h) = lh_space h" "lh_inUse (lh_moved F N c st st' h) = lh_inUse h"
  by (simp_all add: lh_moved_def lh_update_def Let_def)

lemma loose_move:
  assumes inv: "loose_inv F N this h st L" and N: "0 < N" "0 < F" and c: "c \<in> lh_all F h"
    and same: "\<And>d. d \<noteq> c \<Longrightarrow> ck_chunk st' d = ck_chunk st d" and ok: "\<And>d. d \<in> lh_all F h \<Longrightarrow> chunk_ok N st' L' d"
    and heap: "bc_heap (ck_chunk st' c) = this" and fin: "finite L'"
    and use: "lh_inUse h' = lh_inUse h + bc_getNumSlotsInUse N st' c - bc_getNumSlotsInUse N st c"
    and h': "lh_myChunks h' = lh_myChunks h" "lh_space h' = lh_space h"
  shows "loose_inv F N this (lh_moved F N c st st' h') st' L'" and "lh_all F (lh_moved F N c st st' h') = lh_all F h"
proof -
  define p where "p = getFullness F N st c"
  define n where "n = getFullness F N st' c"
  have lists: "\<And>i. i \<le> F \<Longrightarrow> distinct (lh_myChunks h i)" "\<And>i d. i \<le> F \<Longrightarrow> d \<in> set (lh_myChunks h i) \<Longrightarrow> getFullness F N st d = i"
    using inv unfolding loose_inv_def by blast+
  obtain i where "i \<le> F" "c \<in> set (lh_myChunks h i)" using c by (auto simp: lh_all_def)
  then have p: "p \<le> F" "c \<in> set (lh_myChunks h p)" using lists(2) [of i c] by (auto simp: p_def)
  have n: "n \<le> F" unfolding n_def by (rule fullness_bounds(1) [OF ok [OF c] fin N])
  have full: "getFullness F N st' d = getFullness F N st d" if "d \<noteq> c" for d
    using same [OF that] by (simp add: getFullness_def bc_getNumSlotsInUse_def)
  have cn: "c \<notin> set (lh_myChunks h i)" if "i \<le> F" "i \<noteq> p" for i using lists(2) [OF that(1)] that(2) by (auto simp: p_def)
  define cs where "cs = lh_myChunks (lh_moved F N c st st' h')"
  have cs: "cs = (if p = n then lh_myChunks h
      else (lh_myChunks h)(p := remove1 c (lh_myChunks h p), n := c # lh_myChunks h n))"
    unfolding cs_def lh_moved_def p_def [symmetric] n_def [symmetric] by (simp add: lh_update_def n_def [symmetric] h' Let_def)
  have set_cs: "set (cs i) = (if p = n then set (lh_myChunks h i)
      else if i = n then insert c (set (lh_myChunks h n)) else if i = p then set (lh_myChunks h p) - {c} else set (lh_myChunks h i))" if "i \<le> F" for i
    using lists(1) [OF p(1)] by (auto simp: cs)
  have dist: "distinct (cs i)" if "i \<le> F" for i
    using lists(1) [OF that] lists(1) [OF p(1)] lists(1) [OF n] cn [OF n] by (auto simp: cs)
  have fulls: "getFullness F N st' d = i" if "i \<le> F" "d \<in> set (cs i)" for i d
  proof (cases "d = c")
    case True
    have "i = n"
    proof (rule ccontr)
      assume "i \<noteq> n"
      then show False using that set_cs [OF that(1)] True cn [OF that(1)] p(2) by (auto split: if_splits)
    qed
    then show ?thesis using True by (simp add: n_def)
  next
    case False
    then have "d \<in> set (lh_myChunks h i)" using that set_cs [OF that(1)] by (auto split: if_splits)
    then show ?thesis using lists(2) [OF that(1)] full [OF False] by simp
  qed
  have all: "(\<Union>i \<le> F. set (cs i)) = lh_all F h"
  proof (cases "p = n")
    case True then show ?thesis by (simp add: cs lh_all_def)
  next
    case False
    show ?thesis
    proof
      show "(\<Union>i \<le> F. set (cs i)) \<subseteq> lh_all F h"
        using set_cs c n p by (force simp: lh_all_def split: if_splits)
      show "lh_all F h \<subseteq> (\<Union>i \<le> F. set (cs i))"
      proof
        fix d assume "d \<in> lh_all F h"
        then obtain i where i: "i \<le> F" "d \<in> set (lh_myChunks h i)" by (auto simp: lh_all_def)
        show "d \<in> (\<Union>i \<le> F. set (cs i))"
        proof (cases "d = c")
          case True
          then have "d \<in> set (cs n)" using set_cs [OF n] False by simp
          then show ?thesis using n by blast
        next
          case False
          then have "d \<in> set (cs i)" using set_cs [OF i(1)] i(2) by auto
          then show ?thesis using i(1) by blast
        qed
      qed
    qed
  qed
  then show lall: "lh_all F (lh_moved F N c st st' h') = lh_all F h" by (simp add: lh_all_def cs_def)
  have fa: "finite (lh_all F h)" by (simp add: lh_all_def)
  have "(\<Sum>d \<in> lh_all F h. bc_getNumSlotsInUse N st' d) = bc_getNumSlotsInUse N st' c + (\<Sum>d \<in> lh_all F h - {c}. bc_getNumSlotsInUse N st' d)"
    by (rule sum.remove [OF fa c])
  also have "(\<Sum>d \<in> lh_all F h - {c}. bc_getNumSlotsInUse N st' d) = (\<Sum>d \<in> lh_all F h - {c}. bc_getNumSlotsInUse N st d)"
    by (rule sum.cong) (auto simp: bc_getNumSlotsInUse_def same)
  finally have "(\<Sum>d \<in> lh_all F h. bc_getNumSlotsInUse N st' d) = lh_inUse h'"
    using sum.remove [OF fa c, of "bc_getNumSlotsInUse N st"] inv use unfolding loose_inv_def by simp
  moreover have "bc_heap (ck_chunk st' d) = this" if "d \<in> lh_all F h" for d
    using inv that heap same [of d] unfolding loose_inv_def by (cases "d = c") auto
  ultimately show "loose_inv F N this (lh_moved F N c st st' h') st' L'"
    unfolding loose_inv_def lall using fin dist fulls ok h'(2) inv unfolding loose_inv_def cs_def by auto
qed

lemma lh_search_Some: "lh_search cs n = int i \<Longrightarrow> i < n \<and> cs i \<noteq> []"
  by (induction n) (auto split: if_splits simp: less_Suc_eq)

lemma lh_search_cases: "(\<exists>i. lh_search cs n = int i) \<or> (lh_search cs n = - 1 \<and> (\<forall>i < n. cs i = []))"
  by (induction n) (auto simp: less_Suc_eq)

lemma lh_emptiest_Some: "lh_emptiest cs i n = Some j \<Longrightarrow> i \<le> j \<and> j < i + n \<and> cs j \<noteq> []"
  by (induction cs i n rule: lh_emptiest.induct) (auto split: if_splits)

lemma lh_emptiest_None: "lh_emptiest cs i n = None \<Longrightarrow> i \<le> j \<Longrightarrow> j < i + n \<Longrightarrow> cs j = []"
  by (induction cs i n rule: lh_emptiest.induct) (auto split: if_splits simp: le_less_Suc_eq Suc_le_eq less_le)

text \<open>What the heap above has to provide: a chunk that the heap does not have, with a free slot, and the other chunks as they were.\<close>

definition loose_super :: "nat \<Rightarrow> nat \<Rightarrow> loose \<Rightarrow> chunk_store \<Rightarrow> u32 set \<Rightarrow> u32 \<Rightarrow> chunk_store \<Rightarrow> bool" where
  "loose_super F N h st L c st1 \<longleftrightarrow> c \<noteq> 0 \<and> c \<notin> lh_all F h \<and> chunk_ok N st1 L c \<and> bc_freeSlots (ck_chunk st1 c) \<noteq> [] \<and>
     (\<forall>d \<in> lh_all F h. ck_chunk st1 d = ck_chunk st d \<and> chunk_ok N st1 L d)"

lemma chunk_ok_setHeap: "chunk_ok N (bc_setHeap t c st) L d = chunk_ok N st L d"
  by (simp add: chunk_ok_def bc_setHeap_def set_chunk_def Let_def)

lemma use_setHeap: "bc_getNumSlotsInUse N (bc_setHeap t c st) d = bc_getNumSlotsInUse N st d"
  by (simp add: bc_getNumSlotsInUse_def bc_setHeap_def set_chunk_def)

lemma full_setHeap: "getFullness F N (bc_setHeap t c st) d = getFullness F N st d"
  by (simp add: getFullness_def use_setHeap)

lemma loose_new_chunk:
  assumes inv: "loose_inv F N this h st L" and N: "0 < N" "0 < F" and sup: "loose_super F N h st L c st1"
    and n: "n = getFullness F N st1 c" and e: "\<forall>i < F. lh_myChunks h i = []"
    and h': "lh_myChunks h' = (lh_myChunks h)(n := [c])" "lh_inUse h' = lh_inUse h + bc_getNumSlotsInUse N st1 c" "lh_space h' = lh_space h + int N"
  shows "loose_inv F N this h' (bc_setHeap this c st1) L" and "c \<in> lh_all F h'"
proof -
  have fin: "finite L" using inv by (simp add: loose_inv_def)
  have c: "c \<notin> lh_all F h" "chunk_ok N st1 L c" "bc_freeSlots (ck_chunk st1 c) \<noteq> []"
    "\<And>d. d \<in> lh_all F h \<Longrightarrow> ck_chunk st1 d = ck_chunk st d \<and> chunk_ok N st1 L d"
    using sup by (auto simp: loose_super_def)
  have nF: "n < F" unfolding n using fullness_bounds(2) [OF c(2) fin N] c(3) by simp
  have all: "lh_all F h' = insert c (lh_all F h)"
  proof
    show "lh_all F h' \<subseteq> insert c (lh_all F h)" by (auto simp: lh_all_def h' split: if_splits)
    have "c \<in> lh_all F h'" using nF unfolding lh_all_def h' by (intro UN_I [of n]) simp_all
    moreover have "d \<in> lh_all F h'" if dd: "d \<in> lh_all F h" for d
    proof -
      obtain i where i: "i \<le> F" "d \<in> set (lh_myChunks h i)" using dd by (auto simp: lh_all_def)
      then have "i \<noteq> n" using e nF by auto
      then show ?thesis using i unfolding lh_all_def h' by (intro UN_I [of i]) simp_all
    qed
    ultimately show "insert c (lh_all F h) \<subseteq> lh_all F h'" by blast
  qed
  then show "c \<in> lh_all F h'" by simp
  have fa: "finite (lh_all F h)" by (simp add: lh_all_def)
  have old: "getFullness F N st1 d = getFullness F N st d" "bc_getNumSlotsInUse N st1 d = bc_getNumSlotsInUse N st d" if "d \<in> lh_all F h" for d
    using c(4) [OF that] by (simp_all add: getFullness_def bc_getNumSlotsInUse_def)
  have lists: "distinct (lh_myChunks h' i) \<and> (\<forall>d \<in> set (lh_myChunks h' i). getFullness F N (bc_setHeap this c st1) d = i)" if i: "i \<le> F" for i
  proof (cases "i = n")
    case True
    then show ?thesis by (simp add: h' full_setHeap n)
  next
    case False
    have "getFullness F N (bc_setHeap this c st1) d = i" if "d \<in> set (lh_myChunks h i)" for d
    proof -
      have "d \<in> lh_all F h" using that i by (auto simp: lh_all_def)
      moreover have "getFullness F N st d = i" using inv i that unfolding loose_inv_def by blast
      ultimately show ?thesis using old(1) by (simp add: full_setHeap)
    qed
    then show ?thesis using inv i False unfolding loose_inv_def by (auto simp: h')
  qed
  have "(\<Sum>d \<in> lh_all F h. bc_getNumSlotsInUse N st1 d) = (\<Sum>d \<in> lh_all F h. bc_getNumSlotsInUse N st d)"
    by (rule sum.cong) (simp_all add: old)
  then have sum: "lh_inUse h' = (\<Sum>d \<in> lh_all F h'. bc_getNumSlotsInUse N (bc_setHeap this c st1) d)"
    using inv c(1) fa unfolding all by (simp add: h' use_setHeap loose_inv_def)
  have space: "lh_space h' = int N * int (card (lh_all F h'))"
    using inv c(1) fa unfolding all by (simp add: h' loose_inv_def algebra_simps)
  have "chunk_ok N (bc_setHeap this c st1) L d \<and> bc_heap (ck_chunk (bc_setHeap this c st1) d) = this" if "d \<in> lh_all F h'" for d
  proof (cases "d = c")
    case True
    then show ?thesis using c(2) by (simp add: chunk_ok_setHeap) (simp add: bc_setHeap_def set_chunk_def)
  next
    case False
    then have d: "d \<in> lh_all F h" using that all by simp
    have "bc_heap (ck_chunk st1 d) = this" using c(4) [OF d] inv d unfolding loose_inv_def by simp
    then show ?thesis using c(4) [OF d] False by (simp add: chunk_ok_setHeap) (simp add: bc_setHeap_def set_chunk_def)
  qed
  then show "loose_inv F N this h' (bc_setHeap this c st1) L"
    unfolding loose_inv_def using fin lists sum space by blast
qed

lemma loose_take_slot:
  assumes inv: "loose_inv F N this h st L" and N: "0 < N" "0 < F" and c: "c \<in> lh_all F h" and f: "bc_freeSlots (ck_chunk st c) \<noteq> []"
    and g: "bc_getSlot c st = (ptr, st')" and h': "h' = h\<lparr>lh_inUse := lh_inUse h + 1\<rparr>"
  shows "ptr - 8 \<notin> L" and "loose_inv F N this (lh_moved F N c st st' h') st' (insert (ptr - 8) L)"
proof -
  obtain b bs where b: "bc_freeSlots (ck_chunk st c) = b # bs" using f by (cases "bc_freeSlots (ck_chunk st c)") auto
  have fin: "finite L" and ok: "\<And>d. d \<in> lh_all F h \<Longrightarrow> chunk_ok N st L d" and hp: "bc_heap (ck_chunk st c) = this"
    using inv c unfolding loose_inv_def by auto
  have ow: "ck_myChunk st b = c" "b \<notin> L" using ok [OF c] b by (auto simp: chunk_ok_def Let_def)
  have ptr: "ptr = b + 8" and m: "ck_myChunk st' = ck_myChunk st"
    and cc: "ck_chunk st' c = (ck_chunk st c)\<lparr>bc_freeSlots := bs, bc_numSlotsAvailable := bc_numSlotsAvailable (ck_chunk st c) - 1\<rparr>"
    and cd: "\<And>d. d \<noteq> c \<Longrightarrow> ck_chunk st' d = ck_chunk st d"
    using g b ow by (auto simp: bc_getSlot_def set_chunk_def)
  show "ptr - 8 \<notin> L" using ptr ow by simp
  have ins: "{x \<in> insert b L. ck_myChunk st x = d} = (if d = c then insert b {x \<in> L. ck_myChunk st x = d} else {x \<in> L. ck_myChunk st x = d})" for d
    using ow by auto
  have "chunk_ok N st' (insert b L) d" if "d \<in> lh_all F h" for d
  proof (cases "d = c")
    case True
    then show ?thesis using ok [OF c] b ow fin ins [of c] by (auto simp: chunk_ok_def Let_def cc m)
  next
    case False
    then have "b \<notin> set (bc_freeSlots (ck_chunk st d))" using ok [OF that] ow by (auto simp: chunk_ok_def Let_def)
    then show ?thesis using ok [OF that] False ins [of d] by (auto simp: chunk_ok_def Let_def cd m)
  qed
  then show "loose_inv F N this (lh_moved F N c st st' h') st' (insert (ptr - 8) L)"
    using loose_move(1) [OF inv N c cd, of "insert b L" h'] fin hp ptr by (simp add: cc h' bc_getNumSlotsInUse_def)
qed

lemma loose_inv_lastIndex: "loose_inv F N this (h\<lparr>lh_lastIndex := x\<rparr>) st L = loose_inv F N this h st L"
  by (simp add: loose_inv_def lh_all_def)

lemma lh_all_lastIndex [simp]: "lh_all F (h\<lparr>lh_lastIndex := x\<rparr>) = lh_all F h"
  by (simp add: lh_all_def)

section \<open>Properties\<close>

text \<open>
  an allocation keeps the class invariant and returns a slot that is not in use, when the heap above provides a chunk with a free slot.
\<close>

theorem LooseSlotHeap_malloc_correct:
  assumes inv: "loose_inv F N this h st L" and N: "0 < N" "0 < F"
    and sup: "super_malloc (st, w) = (c, st1, w1)" "(\<forall>i < F. lh_myChunks h i = []) \<Longrightarrow> loose_super F N h st L c st1"
  shows "\<exists>ptr h' st' w'. LooseSlotHeap_malloc F N this super_malloc (h, st, w) = Some (ptr, h', st', w') \<and> ptr - 8 \<notin> L \<and>
    loose_inv F N this h' st' (insert (ptr - 8) L)"
proof -
  define x where "x = lh_search (lh_myChunks h) F"
  define h1 where "h1 = h\<lparr>lh_lastIndex := x\<rparr>"
  have inv1: "loose_inv F N this h1 st L" using inv by (simp add: h1_def loose_inv_lastIndex)
  have fin: "finite L" using inv by (simp add: loose_inv_def)
  show ?thesis
  proof (cases "x < 0")
    case False
    then obtain i where i: "x = int i" using lh_search_cases [of "lh_myChunks h" F] by (auto simp: x_def)
    then have iF: "i < F" "lh_myChunks h i \<noteq> []" using lh_search_Some [of "lh_myChunks h" F i] by (simp_all add: x_def)
    define d where "d = hd (lh_myChunks h i)"
    have d: "d \<in> set (lh_myChunks h i)" using iF by (simp add: d_def)
    then have dl: "d \<in> lh_all F h1" using iF by (auto simp: h1_def lh_all_def)
    have "getFullness F N st d = i" "chunk_ok N st L d" using inv d iF dl unfolding loose_inv_def by (auto simp: h1_def)
    then have f: "bc_freeSlots (ck_chunk st d) \<noteq> []" using fullness_bounds(2) [OF _ fin N, of st d] iF by simp
    obtain ptr st' where g: "bc_getSlot d st = (ptr, st')" by (cases "bc_getSlot d st")
    note t = loose_take_slot [OF inv1 N dl f g refl]
    have "LooseSlotHeap_malloc F N this super_malloc (h, st, w) = Some (ptr, lh_moved F N d st st' (h1\<lparr>lh_inUse := lh_inUse h1 + 1\<rparr>), st', w)"
      unfolding LooseSlotHeap_malloc_def prod.case x_def [symmetric] h1_def [symmetric] Let_def [of h1]
      using False i g by (simp add: h1_def d_def [symmetric] lh_moved_def Let_def)
    then show ?thesis using t by blast
  next
    case True
    then have e: "\<forall>i < F. lh_myChunks h i = []" using lh_search_cases [of "lh_myChunks h" F] by (auto simp: x_def)
    note ls = sup(2) [OF e]
    have ls1: "loose_super F N h1 st L c st1" using ls by (simp add: loose_super_def h1_def)
    have c0: "c \<noteq> 0" using ls by (simp add: loose_super_def)
    define st2 where "st2 = bc_setHeap this c st1"
    define n where "n = getFullness F N st1 c"
    define h2 where "h2 = h1\<lparr>lh_lastIndex := int n, lh_myChunks := (lh_myChunks h1)(n := [c]),
      lh_inUse := lh_inUse h1 + bc_getNumSlotsInUse N st2 c, lh_space := lh_space h1 + int N\<rparr>"
    have n2: "getFullness F N st2 c = n" by (simp add: st2_def full_setHeap n_def)
    have inv2: "loose_inv F N this h2 st2 L" and cl: "c \<in> lh_all F h2"
      using loose_new_chunk [OF inv1 N ls1 n_def, of h2] e by (simp_all add: h1_def h2_def st2_def use_setHeap)
    have f: "bc_freeSlots (ck_chunk st2 c) \<noteq> []" using ls by (simp add: loose_super_def st2_def bc_setHeap_def set_chunk_def)
    obtain ptr st' where g: "bc_getSlot c st2 = (ptr, st')" by (cases "bc_getSlot c st2")
    note t = loose_take_slot [OF inv2 N cl f g refl]
    have "LooseSlotHeap_malloc F N this super_malloc (h, st, w) = Some (ptr, lh_moved F N c st2 st' (h2\<lparr>lh_inUse := lh_inUse h2 + 1\<rparr>), st', w1)"
      unfolding LooseSlotHeap_malloc_def prod.case x_def [symmetric] h1_def [symmetric] Let_def [of h1]
      using True sup(1) c0 g by (simp add: h1_def h2_def st2_def [symmetric] n2 lh_moved_def Let_def)
    then show ?thesis using t by blast
  qed
qed

lemma loose_free_exists:
  assumes inv: "loose_inv F N this h st L" and N: "0 < N" "0 < F" and lt: "lh_inUse h < lh_space h"
  shows "\<exists>i. lh_emptiest (lh_myChunks h) 0 F = Some i"
proof (rule ccontr)
  assume "\<not> ?thesis"
  then have "lh_emptiest (lh_myChunks h) 0 F = None" by simp
  then have e: "lh_myChunks h i = []" if "i < F" for i using lh_emptiest_None [of "lh_myChunks h" 0 F i] that by simp
  have fin: "finite L" using inv by (simp add: loose_inv_def)
  have "bc_getNumSlotsInUse N st c = int N" if c: "c \<in> lh_all F h" for c
  proof -
    have ok: "chunk_ok N st L c" using inv c by (simp add: loose_inv_def)
    obtain i where i: "i \<le> F" "c \<in> set (lh_myChunks h i)" using c by (auto simp: lh_all_def)
    then have "i = F" using e by (metis empty_iff empty_set le_neq_implies_less)
    then have "getFullness F N st c = F" using inv i unfolding loose_inv_def by blast
    then have "\<not> bc_getNumSlotsInUse N st c < int N"
      using fullness_bounds(2) [OF ok fin N] chunk_ok_use(4) [OF ok fin] by simp
    then show ?thesis using chunk_ok_use(3) [OF ok fin] by simp
  qed
  then have "(\<Sum>c \<in> lh_all F h. bc_getNumSlotsInUse N st c) = (\<Sum>c \<in> lh_all F h. int N)" by (rule sum.cong [OF refl])
  then have "lh_inUse h = lh_space h" using inv by (simp add: loose_inv_def)
  then show False using lt by simp
qed

lemma loose_drop_chunk:
  assumes inv: "loose_inv F N this h st L" and N: "0 < N" "0 < F" and i: "lh_emptiest (lh_myChunks h) 0 F = Some i"
    and c: "c = hd (lh_myChunks h i)" and st': "ck_myChunk st' = ck_myChunk st" "\<And>d. d \<noteq> c \<Longrightarrow> ck_chunk st' d = ck_chunk st d"
    and h': "h' = h\<lparr>lh_myChunks := (lh_myChunks h)(i := tl (lh_myChunks h i)), lh_space := lh_space h - int N,
      lh_inUse := lh_inUse h - bc_getNumSlotsInUse N st c\<rparr>"
  shows "loose_inv F N this h' st' L" and "lh_all F h' = lh_all F h - {c}" and "c \<in> lh_all F h"
proof -
  have iF: "i < F" "lh_myChunks h i \<noteq> []" using lh_emptiest_Some [OF i] by auto
  then have ci: "lh_myChunks h i = c # tl (lh_myChunks h i)" using c by simp
  have lists: "\<And>j. j \<le> F \<Longrightarrow> distinct (lh_myChunks h j)" "\<And>j d. j \<le> F \<Longrightarrow> d \<in> set (lh_myChunks h j) \<Longrightarrow> getFullness F N st d = j"
    using inv unfolding loose_inv_def by blast+
  have fc: "getFullness F N st c = i" using lists(2) [of i c] iF ci by (metis less_imp_le list.set_intros(1))
  have nt: "c \<notin> set (tl (lh_myChunks h i))" using lists(1) [of i] iF ci by (metis distinct.simps(2) less_imp_le)
  have sets: "set (lh_myChunks h' j) = set (lh_myChunks h j) - {c}" if "j \<le> F" for j
  proof (cases "j = i")
    case True
    have "set (lh_myChunks h i) = insert c (set (tl (lh_myChunks h i)))" using ci by (metis list.simps(15))
    then show ?thesis using True nt by (simp add: h')
  next
    case False
    then have "c \<notin> set (lh_myChunks h j)" using lists(2) [OF that] fc by auto
    then show ?thesis using False by (simp add: h')
  qed
  then show all: "lh_all F h' = lh_all F h - {c}" by (auto simp: lh_all_def)
  show cl: "c \<in> lh_all F h" using iF ci unfolding lh_all_def by (intro UN_I [of i]) (simp, metis list.set_intros(1))
  have fa: "finite (lh_all F h)" by (simp add: lh_all_def)
  have "lh_space h' = int N * int (card (lh_all F h'))"
  proof -
    have "card (lh_all F h) = Suc (card (lh_all F h - {c}))" using fa cl by (metis card.remove)
    then show ?thesis using inv unfolding all by (simp add: h' loose_inv_def algebra_simps)
  qed
  moreover have "lh_inUse h' = (\<Sum>d \<in> lh_all F h'. bc_getNumSlotsInUse N st' d)"
  proof -
    have "(\<Sum>d \<in> lh_all F h - {c}. bc_getNumSlotsInUse N st' d) = (\<Sum>d \<in> lh_all F h - {c}. bc_getNumSlotsInUse N st d)"
      by (rule sum.cong) (auto simp: bc_getNumSlotsInUse_def st'(2))
    then show ?thesis using inv sum.remove [OF fa cl, of "bc_getNumSlotsInUse N st"] unfolding all by (simp add: h' loose_inv_def)
  qed
  moreover have "distinct (lh_myChunks h' j) \<and> (\<forall>d \<in> set (lh_myChunks h' j). getFullness F N st' d = j)" if "j \<le> F" for j
  proof -
    have "distinct (lh_myChunks h' j)" using lists(1) [OF that] by (cases "j = i") (simp_all add: h' distinct_tl)
    moreover have "getFullness F N st' d = j" if "d \<in> set (lh_myChunks h' j)" for d
    proof -
      have d: "d \<in> set (lh_myChunks h j)" "d \<noteq> c" using that sets [OF \<open>j \<le> F\<close>] by auto
      then show ?thesis using lists(2) [OF \<open>j \<le> F\<close> d(1)] by (simp add: getFullness_def bc_getNumSlotsInUse_def st'(2))
    qed
    ultimately show ?thesis by blast
  qed
  moreover have "chunk_ok N st' L d \<and> bc_heap (ck_chunk st' d) = this" if "d \<in> lh_all F h'" for d
  proof -
    have d: "d \<in> lh_all F h" "d \<noteq> c" using that all by auto
    then have "chunk_ok N st L d \<and> bc_heap (ck_chunk st d) = this" using inv unfolding loose_inv_def by blast
    then show ?thesis using st' d by (simp add: chunk_ok_def)
  qed
  ultimately show "loose_inv F N this h' st' L" using inv unfolding loose_inv_def by blast
qed

text \<open>The heap above may change only the chunk that it is given, and not whose slots these are.\<close>

definition loose_sink :: "(u32 \<Rightarrow> chunk_store \<times> 'w \<Rightarrow> chunk_store \<times> 'w) \<Rightarrow> bool" where
  "loose_sink super_free \<longleftrightarrow> (\<forall>c st w. ck_myChunk (fst (super_free c (st, w))) = ck_myChunk st \<and>
     (\<forall>d. d \<noteq> c \<longrightarrow> ck_chunk (fst (super_free c (st, w))) d = ck_chunk st d))"

text \<open>
  freeing a slot in use of a chunk of the heap never fails and keeps the class invariant, also when a chunk is given back.
\<close>

theorem LooseSlotHeap_free_correct:
  assumes inv: "loose_inv F N this h st L" and N: "0 < N" "0 < F" and s: "0 \<le> slack" and sink: "loose_sink super_free"
    and b: "ptr - 8 \<in> L" "bc_getChunk st ptr \<in> lh_all F h"
  shows "\<exists>h' st' w'. LooseSlotHeap_free F N slack this super_free ptr (h, st, w) = Some (h', st', w') \<and> loose_inv F N this h' st' (L - {ptr - 8})"
proof -
  define c where "c = bc_getChunk st ptr"
  define st1 where "st1 = bc_putSlot c ptr st"
  define h1 where "h1 = h\<lparr>lh_inUse := lh_inUse h - 1\<rparr>"
  define h2 where "h2 = lh_moved F N c st st1 h1"
  have c: "c \<in> lh_all F h" using b(2) by (simp add: c_def)
  have fin: "finite L" and ok: "\<And>d. d \<in> lh_all F h \<Longrightarrow> chunk_ok N st L d" and hp: "bc_heap (ck_chunk st c) = this"
    using inv c unfolding loose_inv_def by auto
  have ow: "ck_myChunk st (ptr - 8) = c" by (simp add: c_def bc_getChunk_def)
  have m: "ck_myChunk st1 = ck_myChunk st" and cd: "\<And>d. d \<noteq> c \<Longrightarrow> ck_chunk st1 d = ck_chunk st d"
    and cc: "ck_chunk st1 c = (ck_chunk st c)\<lparr>bc_freeSlots := (ptr - 8) # bc_freeSlots (ck_chunk st c),
       bc_numSlotsAvailable := bc_numSlotsAvailable (ck_chunk st c) + 1\<rparr>"
    by (simp_all add: st1_def bc_putSlot_def set_chunk_def)
  have "chunk_ok N st1 (L - {ptr - 8}) d" if "d \<in> lh_all F h" for d
  proof (cases "d = c")
    case True
    have e: "{x \<in> L. x \<noteq> ptr - 8 \<and> ck_myChunk st x = c} = {x \<in> L. ck_myChunk st x = c} - {ptr - 8}" by auto
    have "card {x \<in> L. ck_myChunk st x = c} = Suc (card ({x \<in> L. ck_myChunk st x = c} - {ptr - 8}))"
      using fin b(1) ow by (intro card.remove) auto
    moreover have "ptr - 8 \<notin> set (bc_freeSlots (ck_chunk st c))" using ok [OF c] b(1) by (auto simp: chunk_ok_def Let_def)
    ultimately show ?thesis using ok [OF c] ow True by (simp add: chunk_ok_def Let_def cc m e)
  next
    case False
    have "{x \<in> L - {ptr - 8}. ck_myChunk st x = d} = {x \<in> L. ck_myChunk st x = d}" using ow False by auto
    then show ?thesis using ok [OF that] False by (simp add: chunk_ok_def Let_def cd m)
  qed
  then have inv2: "loose_inv F N this h2 st1 (L - {ptr - 8})"
    unfolding h2_def using loose_move(1) [OF inv N c cd, of "L - {ptr - 8}" h1] fin hp by (simp add: cc h1_def bc_getNumSlotsInUse_def)
  have eq: "LooseSlotHeap_free F N slack this super_free ptr (h, st, w) =
      (if lh_space h2 - lh_inUse h2 > slack \<and> int F * (lh_space h2 - lh_inUse h2) > lh_space h2
       then lh_return_chunk F N super_free (h2, st1, w) else Some (h2, st1, w))"
    using hp by (auto simp: LooseSlotHeap_free_def LooseSlotHeap_localFree_def c_def [symmetric] st1_def [symmetric] h1_def [symmetric]
        h2_def lh_moved_def Let_def)
  show ?thesis
  proof (cases "lh_space h2 - lh_inUse h2 > slack \<and> int F * (lh_space h2 - lh_inUse h2) > lh_space h2")
    case False
    then show ?thesis unfolding eq using inv2 by auto
  next
    case True
    then have "lh_inUse h2 < lh_space h2" using s by linarith
    then obtain i where i: "lh_emptiest (lh_myChunks h2) 0 F = Some i" using loose_free_exists [OF inv2 N] by blast
    define d where "d = hd (lh_myChunks h2 i)"
    define st2 where "st2 = bc_setHeap 0 d st1"
    define h3 where "h3 = h2\<lparr>lh_myChunks := (lh_myChunks h2)(i := tl (lh_myChunks h2 i)), lh_space := lh_space h2 - int N,
      lh_inUse := lh_inUse h2 - bc_getNumSlotsInUse N st1 d\<rparr>"
    have "lh_return_chunk F N super_free (h2, st1, w) = Some (h3, super_free d (st2, w))"
      by (simp add: lh_return_chunk_def i d_def [symmetric] st2_def h3_def use_setHeap Let_def)
    moreover obtain st3 w3 where sf: "super_free d (st2, w) = (st3, w3)" by (cases "super_free d (st2, w)")
    moreover have "ck_myChunk st3 = ck_myChunk st1" "\<And>e. e \<noteq> d \<Longrightarrow> ck_chunk st3 e = ck_chunk st1 e"
      using sink [unfolded loose_sink_def, rule_format, of d st2 w] sf by (auto simp: st2_def bc_setHeap_def set_chunk_def)
    then have "loose_inv F N this h3 st3 (L - {ptr - 8})" by (intro loose_drop_chunk(1) [OF inv2 N i d_def _ _ h3_def])
    ultimately show ?thesis unfolding eq using True by auto
  qed
qed

text \<open>Carving a list of addresses puts them in front of the free slots in reverse and records whose they are.\<close>

lemma bc_carve_fold:
  "bc_freeSlots (ck_chunk (fold (\<lambda>i. bc_carve c (a i)) is st) c) = rev (map a is) @ bc_freeSlots (ck_chunk st c) \<and>
   bc_numSlotsAvailable (ck_chunk (fold (\<lambda>i. bc_carve c (a i)) is st) c) = bc_numSlotsAvailable (ck_chunk st c) \<and>
   (\<forall>d. d \<noteq> c \<longrightarrow> ck_chunk (fold (\<lambda>i. bc_carve c (a i)) is st) d = ck_chunk st d) \<and>
   ck_myChunk (fold (\<lambda>i. bc_carve c (a i)) is st) = (\<lambda>b. if b \<in> a ` set is then c else ck_myChunk st b)"
  by (induction "is" arbitrary: st) (auto simp: bc_carve_def set_chunk_def)

definition bc_slots :: "nat \<Rightarrow> nat \<Rightarrow> u32 \<Rightarrow> u32 list" where
  "bc_slots chunkSize slotSize c = map (\<lambda>i. c + of_nat sizeof_BigChunk + of_nat (i * bc_align (sizeof_ChunkBlock + slotSize)))
     [0 ..< bc_getNumSlots chunkSize slotSize]"

lemma bc_slots_distinct:
  assumes "chunkSize < 2 ^ 32"
  shows "distinct (bc_slots chunkSize slotSize c)"
proof -
  define k where "k = bc_align (sizeof_ChunkBlock + slotSize)"
  have k: "0 < k" by (simp add: k_def bc_align_def sizeof_ChunkBlock_def)
  have lim: "i * k < 2 ^ 32" if "i < bc_getNumSlots chunkSize slotSize" for i
  proof -
    have "i * k \<le> (chunkSize - sizeof_BigChunk) div k * k" using that by (simp add: bc_getNumSlots_def k_def)
    also have "\<dots> \<le> chunkSize" by (meson diff_le_self div_times_less_eq_dividend le_trans)
    finally show ?thesis using assms by simp
  qed
  then have "i = j" if "(of_nat (i * k) :: u32) = of_nat (j * k)" "i < bc_getNumSlots chunkSize slotSize" "j < bc_getNumSlots chunkSize slotSize" for i j
  proof -
    have "unat (of_nat (i * k) :: u32) = i * k" "unat (of_nat (j * k) :: u32) = j * k"
      using lim [OF that(2)] lim [OF that(3)] by (simp_all add: unsigned_of_nat take_bit_nat_eq_self del: of_nat_mult)
    then have "i * k = j * k" using that(1) by metis
    then show ?thesis using k by simp
  qed
  then show ?thesis unfolding bc_slots_def k_def [symmetric] distinct_map by (auto intro: inj_onI simp del: of_nat_mult)
qed

text \<open>
  a new chunk is well formed, when its slots are not in use and no slot in use is of a chunk at its address; its slots are all free.
\<close>

theorem BigChunk_new_ok:
  assumes "chunkSize < 2 ^ 32" and "set (bc_slots chunkSize slotSize c) \<inter> L = {}" and "\<forall>b \<in> L. ck_myChunk st b \<noteq> c"
  shows "chunk_ok (bc_getNumSlots chunkSize slotSize) (BigChunk_new chunkSize slotSize c st) L c"
    and "bc_freeSlots (ck_chunk (BigChunk_new chunkSize slotSize c st) c) = rev (bc_slots chunkSize slotSize c)"
    and "d \<noteq> c \<Longrightarrow> ck_chunk (BigChunk_new chunkSize slotSize c st) d = ck_chunk st d"
    and "ck_myChunk (BigChunk_new chunkSize slotSize c st) b = (if b \<in> set (bc_slots chunkSize slotSize c) then c else ck_myChunk st b)"
proof -
  note f = bc_carve_fold [of c "\<lambda>i. c + of_nat sizeof_BigChunk + of_nat (i * bc_align (sizeof_ChunkBlock + slotSize))" "[0 ..< bc_getNumSlots chunkSize slotSize]"
      "set_chunk c (\<lambda>r. r\<lparr>bc_freeSlots := [], bc_numSlotsAvailable := int (bc_getNumSlots chunkSize slotSize)\<rparr>) st"]
  show free: "bc_freeSlots (ck_chunk (BigChunk_new chunkSize slotSize c st) c) = rev (bc_slots chunkSize slotSize c)"
    using f by (simp add: BigChunk_new_def bc_slots_def set_chunk_def Let_def)
  show "d \<noteq> c \<Longrightarrow> ck_chunk (BigChunk_new chunkSize slotSize c st) d = ck_chunk st d"
    using f by (simp add: BigChunk_new_def set_chunk_def Let_def)
  have my: "ck_myChunk (BigChunk_new chunkSize slotSize c st) b = (if b \<in> set (bc_slots chunkSize slotSize c) then c else ck_myChunk st b)" for b
    using f by (simp add: BigChunk_new_def bc_slots_def set_chunk_def Let_def)
  then show "ck_myChunk (BigChunk_new chunkSize slotSize c st) b = (if b \<in> set (bc_slots chunkSize slotSize c) then c else ck_myChunk st b)" .
  have av: "bc_numSlotsAvailable (ck_chunk (BigChunk_new chunkSize slotSize c st) c) = int (length (bc_slots chunkSize slotSize c))"
    using f by (simp add: BigChunk_new_def bc_slots_def set_chunk_def Let_def)
  have "{b \<in> L. ck_myChunk (BigChunk_new chunkSize slotSize c st) b = c} = {}" using assms(2,3) by (auto simp: my split: if_splits)
  then show "chunk_ok (bc_getNumSlots chunkSize slotSize) (BigChunk_new chunkSize slotSize c st) L c"
    using bc_slots_distinct [OF assms(1), of slotSize c] assms(2)
    by (simp add: chunk_ok_def Let_def free av) (auto simp: my bc_slots_def)
qed

text \<open>\<open>TopSlotHeap\<close> is a heap that \<open>LooseSlotHeap\<close> can work on: what it takes back, and a chunk that it makes anew.\<close>

lemma TopSlotHeap_sink: "loose_sink (TopSlotHeap_free self)"
  by (simp add: loose_sink_def TopSlotHeap_free_def bc_setHeap_def set_chunk_def)

lemma TopSlotHeap_super:
  assumes inv: "loose_inv F (bc_getNumSlots chunkSize slotSize) this h st L" and sz: "chunkSize < 2 ^ 32" "0 < bc_getNumSlots chunkSize slotSize"
    and new: "c \<noteq> 0" "c \<notin> lh_all F h" "\<forall>b \<in> L. ck_myChunk st b \<noteq> c" "set (bc_slots chunkSize slotSize c) \<inter> L = {}"
      "\<forall>d \<in> lh_all F h. set (bc_slots chunkSize slotSize c) \<inter> set (bc_freeSlots (ck_chunk st d)) = {}"
    and m: "TopSlotHeap_malloc chunkSize slotSize c (st, []) = (c', st1, cs)"
  shows "loose_super F (bc_getNumSlots chunkSize slotSize) h st L c' st1"
proof -
  have m': "c' = c" "st1 = BigChunk_new chunkSize slotSize c st" using m by (auto simp: TopSlotHeap_malloc_def)
  note b = BigChunk_new_ok [OF sz(1) new(4,3)]
  have "chunk_ok (bc_getNumSlots chunkSize slotSize) st1 L d" if d: "d \<in> lh_all F h" for d
  proof -
    have ok: "chunk_ok (bc_getNumSlots chunkSize slotSize) st L d" using inv d unfolding loose_inv_def by blast
    have dc: "d \<noteq> c" using d new(2) by auto
    have "{b \<in> L. ck_myChunk st1 b = d} = {b \<in> L. ck_myChunk st b = d}" using new(4) dc by (auto simp: m' b(4) split: if_splits)
    moreover have "\<forall>x \<in> set (bc_freeSlots (ck_chunk st d)). ck_myChunk st1 x = ck_myChunk st x" using new(5) d by (auto simp: m' b(4))
    ultimately show ?thesis using ok dc by (simp add: chunk_ok_def Let_def m'(2) b(3))
  qed
  moreover have "bc_freeSlots (ck_chunk st1 c) \<noteq> []" using sz(2) by (simp add: m' b(2) bc_slots_def)
  moreover have "ck_chunk st1 d = ck_chunk st d" if "d \<in> lh_all F h" for d using b(3) [of d] that new(2) by (cases "d = c") (simp_all add: m')
  ultimately show ?thesis using new(1,2) b(1) by (simp add: loose_super_def m')
qed

text \<open>A slot that is in use when its chunk is given back cannot be freed any more: its chunk no longer leads to the heap.\<close>

lemma LooseSlotHeap_loses_slots:
  assumes "lh_emptiest (lh_myChunks h) 0 F = Some i" and "c = hd (lh_myChunks h i)" and "ck_myChunk st (ptr - 8) = c"
    and "lh_return_chunk F N (\<lambda>c (st, cs). TopSlotHeap_free self c (st, cs)) (h, st, cs) = Some (h', st', cs')" and "self \<noteq> this"
  shows "LooseSlotHeap_free F N slack this super_free ptr (h', st', cs') = None"
  using assms
  by (auto simp: lh_return_chunk_def TopSlotHeap_free_def LooseSlotHeap_free_def bc_getChunk_def bc_setHeap_def set_chunk_def Let_def)

end
