(* ===== verification/Spec2Isabelle.thy ===== *)
theory Spec2Isabelle
  imports Stm_Props Xrun_Props Dlmalloc_Props Hl_Grace Hl_SegHeap Hl_Treap Xio Grace_Lib Hl_Bits Hl_Coalesce Hl_Util Hl_Check Hl_Layers Hl_Fifo Grace_Sync Hl_Obstack Hl_Nest Hl_Lea Grace_Calls Hl_Batch Hl_Aligned Dlmalloc_Win Grace_Init Hl_Mmap Hl_Aoff Hl_Loose
begin

text \<open>
  Grace makes a fork-join program with threads behave like its sequential version: \<open>pthread_create\<close> forks a process that runs
  its thread as a transaction over the heap and the globals, and transactions commit in the order in which the sequential program
  would run them. The library replaces \<open>malloc\<close>, the \<open>pthread\<close> functions and \<open>printf\<close> of the program; its allocators are
  compositions of the template classes of Heap Layers (\<open>src/src/heaplayers\<close>), and for its own data it uses Doug Lea's malloc
  (\<open>src/src/source/dlmalloc.c\<close>). File names below are relative to \<open>src/src\<close>.

  \<^bold>\<open>Conventions.\<close> The Makefile builds for 32 bits: \<open>size_t\<close>, \<open>unsigned long\<close> and pointers are \<open>32 word\<close> (\<open>u32\<close>) and wrap. Where
  heap layers or dlmalloc keep data inside the memory they manage, memory is a function from addresses to words, and a field of a
  structure is the word at its address; words at different addresses are different cells, and all fields are 4 bytes apart.
  \<open>NDEBUG\<close> is defined, so an \<open>assert\<close> has no effect (in dlmalloc, whose checks are compiled with \<open>DEBUG\<close>, the assertions are
  predicates of their own). A super heap, \<open>sbrk\<close>, \<open>mmap\<close>, the system calls and the processor's interleaving are arguments. A
  result \<open>None\<close> is a call of \<open>abort\<close>, an access through \<open>NULL\<close> or behaviour that C++ leaves undefined, as the section says; a
  result 0 of an allocation is \<open>NULL\<close>. Concurrency is sequentially consistent.

  \<^bold>\<open>Transactions.\<close> \<open>Xdefines\<close> (\<open>include/xdefines.h\<close>, \<open>xglobals.h\<close>, \<open>roundup.h\<close>, \<open>log.h\<close>), \<open>Xpersist\<close> (\<open>include/xpersist.h\<close>: a
  region of pages with one version per page, private copies and protections), \<open>Xmemory\<close> (\<open>include/xmemory.h\<close>: the two regions, the
  page set, the fault handler, \<open>tryToCommit\<close>), \<open>Faults\<close> (what a load or store does through the handler). \<open>Stm\<close> is the system of
  processes: one step is an access, a fault, or one action of the commit protocol; \<open>Stm_Inv\<close> has the invariant, \<open>Stm_Safe\<close> that
  every step keeps it, \<open>Stm_Thms\<close> and \<open>Stm_Props\<close> the results: transactions are serializable, the actions of a commit refine the
  one-step \<open>tryToCommit\<close>, accesses complete, commits exclude each other; and the run in which a transaction that did not begin with
  a clean view commits a stale value. \<open>Xlatch\<close> is \<open>include/xlatch.h\<close>; \<open>Xrun\<close> with \<open>Xrun_Inv\<close>, \<open>Xrun_Safe\<close>, \<open>Xrun_Props\<close> models
  \<open>include/xrun.h\<close>, \<open>include/xthread.h\<close> and \<open>source/xthread.cpp\<close> as processes whose program is a tree of labels: commits happen in
  sequential order, the engine does not deadlock, and what fails when two pids share an exit latch. \<open>Grace_Calls\<close> models the calls
  of one process with their data: the end of a transaction over the page stores, the saved stack and the output buffers, the
  system calls that wait until the transaction cannot be rolled back, and the status objects of threads; \<open>Grace_Init\<close> the start of
  a process, which establishes the start state of the theorems on transactions. \<open>Grace_Sync\<close> has the
  condition variables of \<open>source/libgrace.cpp\<close>, \<open>xplock.h\<close>, \<open>xsemaphore.h\<close> and \<open>xatomic.h\<close>; \<open>Xio\<close> the buffered output of
  \<open>include/xio.h\<close>, \<open>xfile.h\<close>, \<open>xsection.h\<close>; \<open>Grace_Lib\<close> the heap functions of \<open>source/libgrace.cpp\<close>, \<open>source/xcontext.cpp\<close> and
  the comparison routines of \<open>source/testdiffs.cpp\<close>.

  \<^bold>\<open>dlmalloc.\<close> \<open>Dlmalloc_Chunk\<close>, \<open>Dlmalloc_Alloc\<close>, \<open>Dlmalloc_Api\<close> translate the allocator function by function: chunks as words of
  memory, bins, bin map, fastbins, \<open>malloc_state\<close>, allocation, consolidation, trimming, the functions built on them and the debug
  checks. \<open>Dlmalloc_Arith\<close>, \<open>Dlmalloc_Lists\<close>, \<open>Dlmalloc_Thms\<close>, \<open>Dlmalloc_Props\<close> show the arithmetic of sizes and bins, what the
  list operations do, and the behaviour of the fast path, the top chunk, trimming, clearing and copying. The loops over memory
  that another part of the program could have made cyclic take fuel; the theorems give an amount that is enough or state the case
  in which the code does not loop.
  \<open>Dlmalloc_Win\<close> models the public functions, which hold the lock around these, and the emulation of \<open>sbrk\<close>, \<open>mmap\<close> and
  \<open>munmap\<close> over the virtual memory of Windows (a record of functions with documented laws, \<open>win_ok\<close>); it shows that the list of
  regions stays well formed and that allocations and deallocations add and take exactly their sizes.
  \<^bold>\<open>Heap Layers.\<close> The contract between layers is the locale \<open>source_heap\<close> of \<open>Hl_Source\<close>: blocks handed out are disjoint, and no
  operation changes the contents of a live block; \<open>hrun\<close> runs a client against a heap and records what it wrote. A layer is a
  function from the operations of its super heap, and its theorem is that it keeps the contract if the super heap does
  (a \<open>sublocale\<close>, or a locale that extends the contract), so that compositions come from \<open>interpretation\<close>s over \<open>bumpheap\<close>, which
  is the heap Grace puts at the bottom. \<open>Hl_Lists\<close> has the lists (the locale \<open>dictionary\<close>), \<open>Hl_Source\<close> \<open>bumpheap\<close> and
  \<open>FreelistHeap\<close>, \<open>Hl_Zone\<close> the zone heap, \<open>Hl_Seg\<close> the size classes, \<open>Hl_Strict\<close> and \<open>Hl_SegHeap\<close> the segregated fits, \<open>Hl_Warp\<close>
  and \<open>Hl_Kingsley\<close> the allocator of \<open>include/warpheap.h\<close> with \<open>ansiwrapper.h\<close>, \<open>Hl_Shared\<close> and \<open>Hl_Grace\<close> the sixteen heaps of
  \<open>include/graceheap.h\<close> over one source used by all threads. \<open>Hl_Treap\<close>, \<open>Hl_Coalesce\<close> and \<open>Hl_Lea\<close> model the store of free
  objects, boundary tags with splitting and coalescing, and the layers of \<open>dlheap.h\<close>; \<open>Hl_Bits\<close>, \<open>Hl_Util\<close> the bit strings and
  containers; \<open>Hl_Locks\<close> the locks and the locked heap as interleavings (the locale \<open>lock\<close>); \<open>Hl_Check\<close>, \<open>Hl_Layers\<close>, \<open>Hl_Fifo\<close>,
  \<open>Hl_Obstack\<close>, \<open>Hl_Nest\<close>, \<open>Hl_Batch\<close> the remaining layers, one group of definitions per header.
  \<open>Hl_Aligned\<close> models the aligned chunks of \<open>experimental/alignedchunk.h\<close>, the slots of one chunk as steps of threads; \<open>Hl_Mmap\<close> \<open>mmapheap.h\<close> over
  the hash table of \<open>Hl_Util\<close>; \<open>Hl_Aoff\<close> the address-ordered first fit of \<open>experimental/aoffheap.h\<close>;
  \<open>Hl_Loose\<close> the chunks and loose slot heaps of \<open>experimental/bigchunk.h\<close>, \<open>looseslotheap.h\<close> and \<open>topslotheap.h\<close>.
  \<^bold>\<open>Fuel and bounds.\<close> A loop that follows pointers takes a number of iterations and is \<open>None\<close> when they do not suffice; its law
  in the invariant says how many do (the length of the list, or \<open>2 ^ 32\<close> where the code gives no bound). The vectors of the size
  classes and tables are checked by evaluation in the kernel. The engine of \<open>Xrun\<close> and the store of \<open>Stm\<close> have any number of
  processes and any program.

  \<^bold>\<open>Not modelled.\<close> Calls that only reach the operating system (creation of the shared files, \<open>mmap\<close>, process
  statistics, file-backed destructors); what the processor reorders; printing, logging and timing (\<open>util/timer.h\<close>, \<open>traceheap.h\<close>,
  \<open>logheap.h\<close>, \<open>stats.h\<close>); \<open>source/libgrace2.cpp\<close>, an older \<open>libgrace.cpp\<close>; the glue that replaces symbols
  (\<open>wrapper.cpp\<close>); headers of \<open>heaplayers/experimental\<close> that cannot be instantiated, because they use members that their classes
  do not have; the C++ library; the test and benchmark programs.
\<close>

end
